(* ===== verification/Prelude.thy ===== *)
theory Prelude
  imports Main "HOL-Library.Word"
begin

text \<open>
  Shared vocabulary of the development: the machine types of the C code, the value of a
  byte string read big-endian or little-endian, arithmetic on \<^verbatim>\<open>size_t\<close> with its
  wrap-around, and the lemmas on words and lists that several components use.
\<close>

unbundle bit_operations_syntax

type_synonym u8 = "8 word"
type_synonym u16 = "16 word"
type_synonym u32 = "32 word"
type_synonym u64 = "64 word"

text \<open>Facts that turn a bitwise expression of the code into arithmetic.\<close>
named_theorems bits_arith

text \<open>Facts that give the result of a constant-time helper as a plain conditional.\<close>
named_theorems ct_spec

subsection \<open>size\_t arithmetic\<close>

text \<open>Sizes are natural numbers; the additions the code checks for overflow wrap at $2^{64}$.\<close>

definition size_add :: "nat \<Rightarrow> nat \<Rightarrow> nat" where
  "size_add a b = (a + b) mod 2 ^ 64"

definition size_mul :: "nat \<Rightarrow> nat \<Rightarrow> nat" where
  "size_mul a b = (a * b) mod 2 ^ 64"

definition INT_MAX :: nat where
  "INT_MAX = 2 ^ 31 - 1"

lemma size_add_exact [simp]: "a + b < 2 ^ 64 \<Longrightarrow> size_add a b = a + b"
  by (simp add: size_add_def)

lemma size_add_overflow_iff:
  assumes "a < 2 ^ 64" "b < 2 ^ 64"
  shows "size_add a b < a \<longleftrightarrow> 2 ^ 64 \<le> a + b"
proof (cases "a + b < 2 ^ 64")
  case True
  then show ?thesis by simp
next
  case False
  have "(a + b) mod 2 ^ 64 = a + b - 2 ^ 64"
    using False assms by (simp add: mod_if)
  then show ?thesis using False assms by (simp add: size_add_def)
qed

subsection \<open>Byte strings as numbers\<close>

definition be_val :: "u8 list \<Rightarrow> nat" where
  "be_val bs = foldl (\<lambda>v b. v * 256 + unat b) 0 bs"

definition le_val :: "u8 list \<Rightarrow> nat" where
  "le_val bs = be_val (rev bs)"

primrec be_bytes :: "nat \<Rightarrow> nat \<Rightarrow> u8 list" where
  "be_bytes 0 v = []"
| "be_bytes (Suc n) v = be_bytes n (v div 256) @ [of_nat v]"

lemma be_val_Nil [simp]: "be_val [] = 0"
  by (simp add: be_val_def)

lemma be_val_snoc [simp]: "be_val (bs @ [b]) = be_val bs * 256 + unat b"
  by (simp add: be_val_def)

lemma be_val_append: "be_val (xs @ ys) = be_val xs * 256 ^ length ys + be_val ys"
proof (induction ys rule: rev_induct)
  case Nil
  then show ?case by simp
next
  case (snoc y ys)
  have "be_val (xs @ ys @ [y]) = be_val (xs @ ys) * 256 + unat y"
    by (simp del: append_assoc add: append_assoc [symmetric])
  then show ?case by (simp add: snoc.IH algebra_simps)
qed

lemma be_val_single [simp]: "be_val [b] = unat b"
  by (simp add: be_val_def)

lemma be_val_Cons: "be_val (b # bs) = unat b * 256 ^ length bs + be_val bs"
  using be_val_append [of "[b]" bs] by simp

lemma unat_u8_le [simp]: "unat (b :: u8) \<le> 255"
  using unsigned_less [of b, where ?'a = nat] by simp

lemma unat_u8_lt [simp]: "unat (b :: u8) < 256"
  using unsigned_less [of b, where ?'a = nat] by simp

lemma be_val_bound: "be_val bs < 256 ^ length bs"
proof (induction bs rule: rev_induct)
  case Nil
  then show ?case by simp
next
  case (snoc b bs)
  then have "Suc (be_val bs) * 256 \<le> 256 ^ length bs * 256"
    by (intro mult_le_mono1) simp
  moreover have "be_val (bs @ [b]) < Suc (be_val bs) * 256"
    using unat_u8_lt [of b] by (simp add: be_val_snoc)
  ultimately have "be_val (bs @ [b]) < 256 ^ length bs * 256"
    by (rule less_le_trans [rotated])
  then show ?case by (simp add: mult.commute)
qed

lemma length_be_bytes [simp]: "length (be_bytes n v) = n"
  by (induction n arbitrary: v) simp_all

lemma unat_of_nat_u8 [simp]: "unat (of_nat v :: u8) = v mod 256"
  by (simp add: unat_of_nat)

lemma be_val_be_bytes: "be_val (be_bytes n v) = v mod 256 ^ n"
proof (induction n arbitrary: v)
  case 0
  then show ?case by simp
next
  case (Suc n)
  have "(v div 256) mod 256 ^ n * 256 + v mod 256 = v mod (256 * 256 ^ n)"
    by (simp add: mod_mult2_eq)
  then show ?case by (simp add: Suc.IH)
qed

lemma be_bytes_be_val: "be_bytes (length bs) (be_val bs) = bs"
proof (induction bs rule: rev_induct)
  case Nil
  then show ?case by simp
next
  case (snoc b bs)
  have "(be_val bs * 256 + unat b) div 256 = be_val bs"
    using unat_u8_lt [of b] by simp
  moreover have "(of_nat (be_val bs * 256 + unat b) :: u8) = b"
    by (rule word_unat_eq_iff [THEN iffD2]) (simp only: unat_of_nat_u8, simp)
  ultimately show ?case using snoc.IH by simp
qed

lemma be_val_inj: "length xs = length ys \<Longrightarrow> be_val xs = be_val ys \<Longrightarrow> xs = ys"
  by (metis be_bytes_be_val)

subsection \<open>Words\<close>

lemma or_shift8 [bits_arith]:
  "push_bit 8 (r :: u64) OR ucast (b :: u8) = r * 256 + ucast b"
proof -
  have "push_bit 8 r AND ucast b = (0 :: u64)"
    by (rule bit_word_eqI) (auto simp: bit_simps dest: bit_imp_le_length)
  then have "push_bit 8 r OR ucast b = push_bit 8 r + (ucast b :: u64)"
    by (metis word_plus_and_or add_0)
  then show ?thesis by (simp add: push_bit_eq_mult)
qed

lemma bit_top_iff: "bit (a :: u64) 63 \<longleftrightarrow> 2 ^ 63 \<le> unat a"
proof -
  have "bit a 63 \<longleftrightarrow> odd (unat a div 2 ^ 63)"
    using bit_unsigned_iff [of a 63, where ?'a = nat] by (simp add: bit_iff_odd)
  moreover have "unat a < 2 * 2 ^ 63"
    using unsigned_less [of a, where ?'a = nat] by simp
  ultimately show ?thesis
    by (cases "2 ^ 63 \<le> unat a") (auto simp: div_if)
qed

lemma drop_bit_top: "drop_bit 63 (a :: u64) = of_bool (bit a 63)"
proof (rule bit_word_eqI)
  fix n
  show "bit (drop_bit 63 a) n = bit (of_bool (bit a 63) :: u64) n"
    using bit_imp_le_length [of a "63 + n"] by (cases n) (auto simp: bit_simps)
qed

lemma u8_all_ones: "(255 :: u8) = - 1"
  by simp

lemma scast_scast_32 [simp]: "(ucast (scast (a :: u32) :: u64) :: u32) = a"
  by (rule bit_word_eqI) (auto simp: bit_simps)

lemma unat_ucast_u8_u64 [simp]: "unat (ucast (b :: u8) :: u64) = unat b"
  using order.strict_trans [OF unat_u8_lt [of b], of "2 ^ 64"]
  by (simp add: unsigned_ucast_eq take_bit_nat_eq_self_iff)

lemma unat_ucast_u8_u32 [simp]: "unat (ucast (b :: u8) :: u32) = unat b"
  using order.strict_trans [OF unat_u8_lt [of b], of "2 ^ 32"]
  by (simp add: unsigned_ucast_eq take_bit_nat_eq_self_iff)

lemma unat_u64_lt: "unat (w :: u64) < 2 ^ 64"
  using unsigned_less [of w, where ?'a = nat] by simp

lemma unat_of_nat_small: "m < 2 ^ LENGTH('a) \<Longrightarrow> unat (of_nat m :: 'a::len word) = m"
  by (simp add: unat_of_nat)

lemma of_nat_u64_iff: "n < 2 ^ 64 \<and> (of_nat n :: u64) = v \<longleftrightarrow> n = unat v"
proof
  assume "n < 2 ^ 64 \<and> (of_nat n :: u64) = v"
  then show "n = unat v" using unat_of_nat_small [of n, where ?'a = 64] by auto
next
  assume "n = unat v"
  then show "n < 2 ^ 64 \<and> (of_nat n :: u64) = v"
    using unat_u64_lt [of v] by (simp only: word_unat_eq_iff of_nat_unat) simp
qed

lemma unat_ucast_up:
  "LENGTH('a) \<le> LENGTH('b) \<Longrightarrow> unat (ucast (w :: 'a::len word) :: 'b::len word) = unat w"
proof -
  assume "LENGTH('a) \<le> LENGTH('b)"
  then have "unat w < 2 ^ LENGTH('b)"
    using unsigned_less [of w, where ?'a = nat] by (meson less_le_trans one_le_numeral power_increasing)
  then show ?thesis by (simp add: unsigned_ucast_eq take_bit_nat_eq_self_iff)
qed

lemma unat_ucast_u32_u64 [simp]: "unat (ucast (w :: u32) :: u64) = unat w"
  by (rule unat_ucast_up) simp

lemma ucast_u8_u64_u8 [simp]: "(ucast (ucast (b :: u8) :: u64) :: u8) = b"
  by (rule bit_word_eqI) (simp add: bit_simps)

lemma ucast_u32_u64_u32 [simp]: "(ucast (ucast (w :: u32) :: u64) :: u32) = w"
  by (rule bit_word_eqI) (simp add: bit_simps)

lemma ucast_u8_u64_inj [simp]: "((ucast (a :: u8) :: u64) = ucast b) = (a = b)"
  by (simp add: word_unat_eq_iff)

lemma xor_eq_0_iff [simp]: "(a XOR b = (0 :: 'a::len word)) = (a = b)"
  by (metis bit.xor_left_self xor.right_neutral xor_self_eq)

lemma unat_take_bit [simp]: "unat (take_bit n (a :: 'a::len word)) = unat a mod 2 ^ n"
  by (simp add: unsigned_take_bit_eq flip: take_bit_eq_mod)

lemma u8_and_7f: "(b :: u8) AND 0x7f = take_bit 7 b"
  by (simp add: take_bit_eq_mask mask_eq_exp_minus_1)

lemma u8_bit_7: "bit (b :: u8) 7 \<longleftrightarrow> 128 \<le> unat b"
proof -
  have "bit b 7 \<longleftrightarrow> odd (unat b div 128)"
    using bit_unsigned_iff [of b 7, where ?'a = nat] by (simp add: bit_iff_odd)
  moreover have "unat b div 128 = (if 128 \<le> unat b then 1 else 0)"
    using unat_u8_lt [of b] by (simp add: div_if del: unat_u8_lt) linarith
  ultimately show ?thesis by simp
qed

lemma u8_and_80 [bits_arith]: "(b :: u8) AND 0x80 = 0 \<longleftrightarrow> unat b < 128"
  using and_exp_eq_0_iff_not_bit [of b 7] by (simp add: u8_bit_7 not_le)

lemma or_shift7 [bits_arith]:
  "push_bit 7 (v :: u64) OR ucast (b AND 0x7f :: u8) = v * 128 + of_nat (unat b mod 128)"
proof -
  have "push_bit 7 v AND ucast (take_bit 7 b) = 0"
    by (rule bit_word_eqI) (auto simp: bit_simps)
  then have "push_bit 7 v OR ucast (take_bit 7 b) = push_bit 7 v + ucast (take_bit 7 b)"
    by (simp add: disjunctive_add_eq_or)
  moreover have "(ucast (take_bit 7 b) :: u64) = of_nat (unat b mod 128)"
    by (rule word_unat_eq_iff [THEN iffD2]) (simp add: unat_of_nat_small order.strict_trans [OF mod_less_divisor])
  ultimately show ?thesis by (simp add: u8_and_7f push_bit_eq_mult)
qed

lemma drop_bit_eq_0_iff: "drop_bit n (w :: 'a::len word) = 0 \<longleftrightarrow> unat w < 2 ^ n"
proof -
  have "drop_bit n w = 0 \<longleftrightarrow> unat (drop_bit n w) = 0" by (simp add: unat_eq_zero)
  also have "unat (drop_bit n w) = unat w div 2 ^ n"
    by (simp only: unsigned_drop_bit_eq) (simp add: drop_bit_eq_div take_bit_nat_eq_self)
  finally show ?thesis by (simp add: div_eq_0_iff)
qed

text \<open>Comparisons, sums and differences of words as statements about \<open>unat\<close>.\<close>

lemmas word_nat_arith =
  word_less_nat_alt word_le_nat_alt unat_sub_if_size unat_plus_if_size word_size word_unat_eq_iff

definition ascii :: "char \<Rightarrow> u8" where
  "ascii c = of_char c"

subsection \<open>Memory\<close>

text \<open>\<open>memcpy(&xs[i], ys, n)\<close>: overwrite part of an array.\<close>

definition blit :: "'a list \<Rightarrow> nat \<Rightarrow> 'a list \<Rightarrow> 'a list" where
  "blit xs i ys = take i xs @ ys @ drop (i + length ys) xs"

lemma length_blit [simp]: "i + length ys \<le> length xs \<Longrightarrow> length (blit xs i ys) = length xs"
  by (simp add: blit_def)

lemma blit_Nil [simp]: "blit xs i [] = xs"
  by (simp add: blit_def)

lemma take_blit [simp]: "i \<le> length xs \<Longrightarrow> take (i + length ys) (blit xs i ys) = take i xs @ ys"
  by (simp add: blit_def)

end
