(* ===== verification/Const_Time.thy ===== *)
theory Const_Time
  imports Prelude
begin

text \<open>
  The constant-time helpers of \<^verbatim>\<open>crypto/internal.h\<close>: masks of all ones or all
  zeros computed without a branch. A 64-bit build is modelled, so \<^verbatim>\<open>crypto_word_t\<close>
  is a 64-bit word. Each helper is translated literally; the lemmas in \<open>ct_spec\<close>
  say which condition it computes, and carry the proofs of the components that use them.
\<close>

type_synonym crypto_word = u64

definition CONSTTIME_TRUE_W :: crypto_word where
  "CONSTTIME_TRUE_W = NOT 0"

definition CONSTTIME_FALSE_W :: crypto_word where
  "CONSTTIME_FALSE_W = 0"

definition CONSTTIME_TRUE_8 :: u8 where
  "CONSTTIME_TRUE_8 = 0xff"

definition CONSTTIME_FALSE_8 :: u8 where
  "CONSTTIME_FALSE_8 = 0"

definition value_barrier_w :: "crypto_word \<Rightarrow> crypto_word" where
  "value_barrier_w a = a"

definition constant_time_msb_w :: "crypto_word \<Rightarrow> crypto_word" where
  "constant_time_msb_w a = 0 - drop_bit (8 * 8 - 1) a"

definition constant_time_lt_w :: "crypto_word \<Rightarrow> crypto_word \<Rightarrow> crypto_word" where
  "constant_time_lt_w a b = constant_time_msb_w (a XOR ((a XOR b) OR ((a - b) XOR a)))"

definition constant_time_lt_8 :: "crypto_word \<Rightarrow> crypto_word \<Rightarrow> u8" where
  "constant_time_lt_8 a b = ucast (constant_time_lt_w a b)"

definition constant_time_ge_w :: "crypto_word \<Rightarrow> crypto_word \<Rightarrow> crypto_word" where
  "constant_time_ge_w a b = NOT (constant_time_lt_w a b)"

definition constant_time_ge_8 :: "crypto_word \<Rightarrow> crypto_word \<Rightarrow> u8" where
  "constant_time_ge_8 a b = ucast (constant_time_ge_w a b)"

definition constant_time_is_zero_w :: "crypto_word \<Rightarrow> crypto_word" where
  "constant_time_is_zero_w a = constant_time_msb_w (NOT a AND (a - 1))"

definition constant_time_is_zero_8 :: "crypto_word \<Rightarrow> u8" where
  "constant_time_is_zero_8 a = ucast (constant_time_is_zero_w a)"

definition constant_time_eq_w :: "crypto_word \<Rightarrow> crypto_word \<Rightarrow> crypto_word" where
  "constant_time_eq_w a b = constant_time_is_zero_w (a XOR b)"

definition constant_time_eq_8 :: "crypto_word \<Rightarrow> crypto_word \<Rightarrow> u8" where
  "constant_time_eq_8 a b = ucast (constant_time_eq_w a b)"

text \<open>An \<^verbatim>\<open>int\<close> converted to \<^verbatim>\<open>crypto_word_t\<close> is sign-extended.\<close>

definition constant_time_eq_int :: "32 word \<Rightarrow> 32 word \<Rightarrow> crypto_word" where
  "constant_time_eq_int a b = constant_time_eq_w (scast a) (scast b)"

definition constant_time_eq_int_8 :: "32 word \<Rightarrow> 32 word \<Rightarrow> u8" where
  "constant_time_eq_int_8 a b = constant_time_eq_8 (scast a) (scast b)"

definition constant_time_select_w ::
    "crypto_word \<Rightarrow> crypto_word \<Rightarrow> crypto_word \<Rightarrow> crypto_word" where
  "constant_time_select_w m a b =
     (value_barrier_w m AND a) OR (value_barrier_w (NOT m) AND b)"

definition constant_time_select_8 :: "u8 \<Rightarrow> u8 \<Rightarrow> u8 \<Rightarrow> u8" where
  "constant_time_select_8 m a b =
     ucast (constant_time_select_w (ucast m) (ucast a) (ucast b))"

definition constant_time_select_int ::
    "crypto_word \<Rightarrow> 32 word \<Rightarrow> 32 word \<Rightarrow> 32 word" where
  "constant_time_select_int m a b =
     ucast (constant_time_select_w m (scast a) (scast b))"

subsection \<open>What the helpers compute\<close>

lemma ucast_all_ones [simp]: "(ucast (- 1 :: u64) :: u8) = 0xff"
  unfolding u8_all_ones by (rule bit_word_eqI) (simp add: bit_simps)

lemma msb_w_spec [ct_spec]:
  "constant_time_msb_w a = (if 2 ^ 63 \<le> unat a then - 1 else 0)"
  using drop_bit_top [of a] by (simp add: constant_time_msb_w_def bit_top_iff)

lemma msb_w_bit: "constant_time_msb_w a = (if bit a 63 then - 1 else 0)"
  by (simp add: msb_w_spec bit_top_iff)

lemma unat_sub_top:
  fixes a b :: u64
  assumes "bit a 63 = bit b 63"
  shows "bit (a - b) 63 \<longleftrightarrow> a < b"
proof -
  have lt: "unat a < 2 ^ 64" "unat b < 2 ^ 64"
    using unsigned_less [of a, where ?'a = nat] unsigned_less [of b, where ?'a = nat] by simp_all
  show ?thesis
  proof (cases "b \<le> a")
    case True
    then have "unat (a - b) = unat a - unat b" by (rule unat_sub)
    then show ?thesis using True assms lt by (auto simp: bit_top_iff)
  next
    case False
    then have "unat (a - b) = 2 ^ 64 + unat a - unat b"
      using lt by (simp add: unat_sub_if_size word_le_nat_alt word_size)
    then show ?thesis using False assms lt
      by (auto simp: bit_top_iff word_le_nat_alt word_less_nat_alt)
  qed
qed

lemma lt_w_spec [ct_spec]: "constant_time_lt_w a b = (if a < b then - 1 else 0)"
proof (cases "bit a 63 = bit b 63")
  case True
  then show ?thesis using unat_sub_top [OF True]
    by (auto simp: constant_time_lt_w_def msb_w_bit bit_simps)
next
  case False
  have "a < b \<longleftrightarrow> bit b 63"
    using False by (auto simp: bit_top_iff word_less_nat_alt)
  then show ?thesis using False
    by (auto simp: constant_time_lt_w_def msb_w_bit bit_simps)
qed

lemma ge_w_spec [ct_spec]: "constant_time_ge_w a b = (if b \<le> a then - 1 else 0)"
  by (auto simp: constant_time_ge_w_def lt_w_spec not_less)

lemma is_zero_w_spec [ct_spec]: "constant_time_is_zero_w a = (if a = 0 then - 1 else 0)"
proof (cases "a = 0")
  case True
  then show ?thesis
    by (simp add: constant_time_is_zero_w_def msb_w_bit)
next
  case False
  then have "unat (a - 1) = unat a - 1"
    by (simp add: unat_minus_one)
  then have "\<not> (bit (a - 1) 63 \<and> \<not> bit a 63)"
    by (auto simp: bit_top_iff)
  then show ?thesis using False
    by (auto simp: constant_time_is_zero_w_def msb_w_bit bit_simps)
qed

lemma eq_w_spec [ct_spec]: "constant_time_eq_w a b = (if a = b then - 1 else 0)"
  by (simp add: constant_time_eq_w_def is_zero_w_spec)

lemma select_w_spec [ct_spec]:
  "constant_time_select_w (- 1) a b = a" "constant_time_select_w 0 a b = b"
  by (simp_all add: constant_time_select_w_def value_barrier_w_def)

lemma lt_8_spec [ct_spec]: "constant_time_lt_8 a b = (if a < b then 0xff else 0)"
  by (simp add: constant_time_lt_8_def lt_w_spec)

lemma ge_8_spec [ct_spec]: "constant_time_ge_8 a b = (if b \<le> a then 0xff else 0)"
  by (simp add: constant_time_ge_8_def ge_w_spec)

lemma is_zero_8_spec [ct_spec]: "constant_time_is_zero_8 a = (if a = 0 then 0xff else 0)"
  by (simp add: constant_time_is_zero_8_def is_zero_w_spec)

lemma eq_8_spec [ct_spec]: "constant_time_eq_8 a b = (if a = b then 0xff else 0)"
  by (simp add: constant_time_eq_8_def eq_w_spec)

lemma select_8_bits: "constant_time_select_8 m a b = (m AND a) OR (NOT m AND b)"
  by (rule bit_word_eqI)
    (auto simp: constant_time_select_8_def constant_time_select_w_def value_barrier_w_def bit_simps)

lemma select_8_spec [ct_spec]:
  "constant_time_select_8 0xff a b = a" "constant_time_select_8 0 a b = b"
  unfolding select_8_bits u8_all_ones by simp_all

lemma select_int_spec [ct_spec]:
  "constant_time_select_int (- 1) a b = a" "constant_time_select_int 0 a b = b"
  by (simp_all add: constant_time_select_int_def select_w_spec)

end
