(* ===== verification/Base64.thy ===== *)
theory Base64
  imports Const_Time
begin

text \<open>
  \<^verbatim>\<open>crypto/base64/base64.c\<close>: constant-time conversion between six-bit values and
  base64 characters, one-shot and streaming encoding and decoding. Output buffers are the
  lists of the bytes written to them; the encoders' terminating NUL is the last byte of the
  list. \<^verbatim>\<open>int\<close> results are integers, \<^verbatim>\<open>*out_len\<close> is part of the result.
\<close>

subsection \<open>Characters\<close>

definition constant_time_lt_args_8 :: "u8 \<Rightarrow> u8 \<Rightarrow> u8" where
  "constant_time_lt_args_8 a b = ucast (constant_time_msb_w (ucast a - ucast b))"

definition constant_time_in_range_8 :: "u8 \<Rightarrow> u8 \<Rightarrow> u8 \<Rightarrow> u8" where
  "constant_time_in_range_8 a lo hi = constant_time_lt_args_8 (a - lo) (hi - lo + 1)"

definition conv_bin2ascii :: "u8 \<Rightarrow> u8" where
  "conv_bin2ascii a0 =
    (let a = a0 AND 0x3f;
         ret = constant_time_select_8 (constant_time_eq_8 (ucast a) 62)
                 (ascii CHR ''+'') (ascii CHR ''/'');
         ret = constant_time_select_8 (constant_time_lt_args_8 a 62)
                 (a - 52 + ascii CHR ''0'') ret;
         ret = constant_time_select_8 (constant_time_lt_args_8 a 52)
                 (a - 26 + ascii CHR ''a'') ret;
         ret = constant_time_select_8 (constant_time_lt_args_8 a 26)
                 (a + ascii CHR ''A'') ret
     in ret)"

definition base64_ascii_to_bin :: "u8 \<Rightarrow> u8" where
  "base64_ascii_to_bin a =
    (let is_upper = constant_time_in_range_8 a (ascii CHR ''A'') (ascii CHR ''Z'');
         is_lower = constant_time_in_range_8 a (ascii CHR ''a'') (ascii CHR ''z'');
         is_digit = constant_time_in_range_8 a (ascii CHR ''0'') (ascii CHR ''9'');
         is_plus = constant_time_eq_8 (ucast a) (ucast (ascii CHR ''+''));
         is_slash = constant_time_eq_8 (ucast a) (ucast (ascii CHR ''/''));
         is_equals = constant_time_eq_8 (ucast a) (ucast (ascii CHR ''=''));
         ret = 0;
         ret = ret OR (is_upper AND (a - ascii CHR ''A''));
         ret = ret OR (is_lower AND (a - ascii CHR ''a'' + 26));
         ret = ret OR (is_digit AND (a - ascii CHR ''0'' + 52));
         ret = ret OR (is_plus AND 62);
         ret = ret OR (is_slash AND 63);
         is_valid = is_upper OR is_lower OR is_digit OR is_plus OR is_slash OR is_equals
     in ret OR NOT is_valid)"

subsection \<open>Encoding\<close>

definition EVP_EncodedLength :: "nat \<Rightarrow> nat option" where
  "EVP_EncodedLength len =
    (if size_add len 2 < len then None
     else let len = size_add len 2 div 3 in
       if size_mul len 4 div 4 \<noteq> len then None
       else let len = size_mul len 4 in
         if size_add len 1 < len then None
         else Some (size_add len 1))"

definition base64_word :: "u8 \<Rightarrow> u8 \<Rightarrow> u8 \<Rightarrow> u32" where
  "base64_word a b c = push_bit 16 (ucast a) OR push_bit 8 (ucast b) OR ucast c"

text \<open>The loop of \<^verbatim>\<open>EVP_EncodeBlock\<close>: three bytes at a time, then the padded tail.\<close>

fun encode_loop :: "u8 list \<Rightarrow> u8 list" where
  "encode_loop (a # b # c # rest) =
    (let l = base64_word a b c
     in [conv_bin2ascii (ucast (drop_bit 18 l)), conv_bin2ascii (ucast (drop_bit 12 l)),
         conv_bin2ascii (ucast (drop_bit 6 l)), conv_bin2ascii (ucast l)] @ encode_loop rest)"
| "encode_loop [a, b] =
    (let l = push_bit 16 (ucast a) OR push_bit 8 (ucast b) :: u32
     in [conv_bin2ascii (ucast (drop_bit 18 l)), conv_bin2ascii (ucast (drop_bit 12 l)),
         conv_bin2ascii (ucast (drop_bit 6 l)), ascii CHR ''=''])"
| "encode_loop [a] =
    (let l = push_bit 16 (ucast a) :: u32
     in [conv_bin2ascii (ucast (drop_bit 18 l)), conv_bin2ascii (ucast (drop_bit 12 l)),
         ascii CHR ''='', ascii CHR ''=''])"
| "encode_loop [] = []"

definition EVP_EncodeBlock :: "u8 list \<Rightarrow> u8 list \<times> nat" where
  "EVP_EncodeBlock src = (let dst = encode_loop src in (dst @ [0], length dst))"

record evp_encode_ctx =
  data_used :: nat
  ctx_data :: "u8 list"
  eof_seen :: bool
  error_encountered :: bool

definition sizeof_data :: nat where
  "sizeof_data = 48"

definition EVP_EncodeInit :: evp_encode_ctx where
  "EVP_EncodeInit = \<lparr>data_used = 0, ctx_data = replicate sizeof_data 0,
     eof_seen = False, error_encountered = False\<rparr>"

text \<open>
  The second loop of \<^verbatim>\<open>EVP_EncodeUpdate\<close>: full lines straight from the input. The
  result is whether the loop ended without overflow of the total, the output written so
  far (without the NUL), the total and the input left over.
\<close>

function encode_lines ::
    "u8 list \<Rightarrow> nat \<Rightarrow> u8 list \<Rightarrow> bool \<times> u8 list \<times> nat \<times> u8 list" where
  "encode_lines out ttl inp =
    (if sizeof_data \<le> length inp then
       let (enc, encoded) = EVP_EncodeBlock (take sizeof_data inp);
           out = out @ take encoded enc @ [ascii (CHR 0x0A)];
           inp = drop sizeof_data inp
       in if size_add ttl (encoded + 1) < ttl then (False, out, 0, inp)
          else encode_lines out (size_add ttl (encoded + 1)) inp
     else (True, out, ttl, inp))"
  by pat_completeness auto
termination
  by (relation "measure (\<lambda>(out, ttl, inp). length inp)") (auto simp: sizeof_data_def)

declare encode_lines.simps [simp del]

text \<open>Where lines were written, the byte after them is the NUL.\<close>

definition nul_terminated :: "u8 list \<Rightarrow> u8 list" where
  "nul_terminated out = (if out = [] then [] else out @ [0])"

text \<open>Result: the context, the bytes left in \<^verbatim>\<open>out\<close> and \<^verbatim>\<open>*out_len\<close>.\<close>

definition EVP_EncodeUpdate ::
    "evp_encode_ctx \<Rightarrow> u8 list \<Rightarrow> evp_encode_ctx \<times> u8 list \<times> nat" where
  "EVP_EncodeUpdate ctx inp =
    (if inp = [] then (ctx, [], 0)
     else if sizeof_data - data_used ctx > length inp then
       (ctx\<lparr>ctx_data := blit (ctx_data ctx) (data_used ctx) inp,
            data_used := data_used ctx + length inp\<rparr>, [], 0)
     else
       let (ctx, out, ttl, inp) =
         (if data_used ctx \<noteq> 0 then
            let todo = sizeof_data - data_used ctx;
                ctx = ctx\<lparr>ctx_data := blit (ctx_data ctx) (data_used ctx) (take todo inp)\<rparr>;
                (enc, encoded) = EVP_EncodeBlock (ctx_data ctx)
            in (ctx\<lparr>data_used := 0\<rparr>, take encoded enc @ [ascii (CHR 0x0A)], encoded + 1,
                drop todo inp)
          else (ctx, [], 0, inp))
       in case encode_lines out ttl inp of
            (False, out, _) \<Rightarrow> (ctx, nul_terminated out, 0)
          | (True, out, ttl, inp) \<Rightarrow>
              (ctx\<lparr>ctx_data := blit (ctx_data ctx) 0 inp, data_used := length inp\<rparr>,
               nul_terminated out, if INT_MAX < ttl then 0 else ttl))"

definition EVP_EncodeFinal :: "evp_encode_ctx \<Rightarrow> evp_encode_ctx \<times> u8 list \<times> nat" where
  "EVP_EncodeFinal ctx =
    (if data_used ctx = 0 then (ctx, [], 0)
     else let (enc, encoded) = EVP_EncodeBlock (take (data_used ctx) (ctx_data ctx))
          in (ctx\<lparr>data_used := 0\<rparr>, take encoded enc @ [ascii (CHR 0x0A), 0], encoded + 1))"

subsection \<open>Decoding\<close>

definition EVP_DecodedLength :: "nat \<Rightarrow> nat option" where
  "EVP_DecodedLength len = (if len mod 4 \<noteq> 0 then None else Some (len div 4 * 3))"

definition base64_decode_quad :: "u8 \<Rightarrow> u8 \<Rightarrow> u8 \<Rightarrow> u8 \<Rightarrow> u8 list option" where
  "base64_decode_quad in0 in1 in2 in3 =
    (let a = base64_ascii_to_bin in0; b = base64_ascii_to_bin in1;
         c = base64_ascii_to_bin in2; d = base64_ascii_to_bin in3
     in if a = 0xff \<or> b = 0xff \<or> c = 0xff \<or> d = 0xff then None
        else
          let v = push_bit 18 (ucast a) OR push_bit 12 (ucast b) OR push_bit 6 (ucast c) OR ucast d :: u32;
              eq = ascii CHR ''='';
              padding_pattern = 8 * of_bool (in0 = eq) + 4 * of_bool (in1 = eq) +
                2 * of_bool (in2 = eq) + of_bool (in3 = eq) :: nat
          in if padding_pattern = 0 then
               Some [ucast (drop_bit 16 v), ucast (drop_bit 8 v), ucast v]
             else if padding_pattern = 1 then
               Some [ucast (drop_bit 16 v), ucast (drop_bit 8 v)]
             else if padding_pattern = 3 then Some [ucast (drop_bit 16 v)]
             else None)"

definition is_base64_space :: "u8 \<Rightarrow> bool" where
  "is_base64_space c \<longleftrightarrow>
     c = ascii CHR '' '' \<or> c = ascii (CHR 0x09) \<or> c = ascii (CHR 0x0D) \<or> c = ascii (CHR 0x0A)"

text \<open>
  The loop of \<^verbatim>\<open>EVP_DecodeUpdate\<close>. The flag is False where the loop returns
  \<^verbatim>\<open>-1\<close>.
\<close>

fun decode_loop :: "evp_encode_ctx \<Rightarrow> u8 list \<Rightarrow> u8 list \<Rightarrow> bool \<times> evp_encode_ctx \<times> u8 list" where
  "decode_loop ctx out [] = (True, ctx, out)"
| "decode_loop ctx out (c # cs) =
    (if is_base64_space c then decode_loop ctx out cs
     else if eof_seen ctx then (False, ctx\<lparr>error_encountered := True\<rparr>, out)
     else
       let ctx = ctx\<lparr>ctx_data := (ctx_data ctx)[data_used ctx := c], data_used := data_used ctx + 1\<rparr>
       in if data_used ctx = 4 then
            (case base64_decode_quad (ctx_data ctx ! 0) (ctx_data ctx ! 1) (ctx_data ctx ! 2)
                    (ctx_data ctx ! 3) of
               None \<Rightarrow> (False, ctx\<lparr>error_encountered := True\<rparr>, out)
             | Some bs \<Rightarrow>
                 let ctx = ctx\<lparr>data_used := 0\<rparr>;
                     ctx = (if length bs < 3 then ctx\<lparr>eof_seen := True\<rparr> else ctx)
                 in decode_loop ctx (out @ bs) cs)
          else decode_loop ctx out cs)"

text \<open>Result: the context, the return value, the bytes written and \<^verbatim>\<open>*out_len\<close>.\<close>

definition EVP_DecodeUpdate ::
    "evp_encode_ctx \<Rightarrow> u8 list \<Rightarrow> evp_encode_ctx \<times> int \<times> u8 list \<times> nat" where
  "EVP_DecodeUpdate ctx inp =
    (if error_encountered ctx then (ctx, -1, [], 0)
     else case decode_loop ctx [] inp of
       (False, ctx, out) \<Rightarrow> (ctx, -1, out, 0)
     | (True, ctx, out) \<Rightarrow>
         if INT_MAX < length out then (ctx\<lparr>error_encountered := True\<rparr>, -1, out, 0)
         else if eof_seen ctx then (ctx, 0, out, length out)
         else (ctx, 1, out, length out))"

definition EVP_DecodeInit :: evp_encode_ctx where
  "EVP_DecodeInit = \<lparr>data_used = 0, ctx_data = replicate sizeof_data 0,
     eof_seen = False, error_encountered = False\<rparr>"

definition EVP_DecodeFinal :: "evp_encode_ctx \<Rightarrow> int" where
  "EVP_DecodeFinal ctx = (if error_encountered ctx \<or> data_used ctx \<noteq> 0 then -1 else 1)"

text \<open>The loop of \<^verbatim>\<open>EVP_DecodeBase64\<close>, over an input of whole quads.\<close>

fun decode_quads :: "u8 list \<Rightarrow> u8 list \<Rightarrow> u8 list option" where
  "decode_quads out (a # b # c # d # rest) =
    (case base64_decode_quad a b c d of
       None \<Rightarrow> None
     | Some bs \<Rightarrow>
         if length bs \<noteq> 3 \<and> rest \<noteq> [] then None
         else decode_quads (out @ bs) rest)"
| "decode_quads out _ = Some out"

definition EVP_DecodeBase64 :: "nat \<Rightarrow> u8 list \<Rightarrow> u8 list option" where
  "EVP_DecodeBase64 max_out inp =
    (if length inp mod 4 \<noteq> 0 then None
     else case EVP_DecodedLength (length inp) of
       None \<Rightarrow> None
     | Some max_len \<Rightarrow> if max_out < max_len then None else decode_quads [] inp)"

definition is_block_lead :: "u8 \<Rightarrow> bool" where
  "is_block_lead c \<longleftrightarrow> c = ascii CHR '' '' \<or> c = ascii (CHR 0x09)"

text \<open>\<open>None\<close> stands for the result \<^verbatim>\<open>-1\<close>.\<close>

definition EVP_DecodeBlock :: "u8 list \<Rightarrow> u8 list option" where
  "EVP_DecodeBlock src =
    (let src = dropWhile is_block_lead src;
         src = rev (dropWhile is_base64_space (rev src))
     in case EVP_DecodedLength (length src) of
          None \<Rightarrow> None
        | Some dst_len \<Rightarrow>
            if INT_MAX < dst_len then None
            else case EVP_DecodeBase64 dst_len src of
              None \<Rightarrow> None
            | Some dst \<Rightarrow> Some (dst @ replicate ((3 - length dst mod 3) mod 3) 0))"

subsection \<open>Characters: what the constant-time code computes\<close>

lemma lt_args_8_spec [ct_spec]:
  "constant_time_lt_args_8 a b = (if a < b then 0xff else 0)"
proof -
  have "unat (ucast a - ucast b :: u64) =
      (if b \<le> a then unat a - unat b else unat a + 2 ^ 64 - unat b)"
    by (simp add: word_nat_arith)
  moreover have "unat a < 256" "unat b < 256" by simp_all
  ultimately have "2 ^ 63 \<le> unat (ucast a - ucast b :: u64) \<longleftrightarrow> a < b"
    by (auto simp: word_nat_arith split: if_splits simp del: unat_u8_lt)
  then show ?thesis by (simp add: constant_time_lt_args_8_def msb_w_spec)
qed

lemma in_range_8_spec [ct_spec]:
  assumes "lo \<le> hi" "unat hi - unat lo < 255"
  shows "constant_time_in_range_8 a lo hi = (if lo \<le> a \<and> a \<le> hi then 0xff else 0)"
proof -
  have "a - lo < hi - lo + 1 \<longleftrightarrow> lo \<le> a \<and> a \<le> hi"
    using assms unat_u8_lt [of a] unat_u8_lt [of hi]
    by (auto simp: word_nat_arith split: if_splits simp del: unat_u8_lt)
  then show ?thesis by (simp add: constant_time_in_range_8_def lt_args_8_spec)
qed

lemma sextet_bound: "(a :: u8) AND 63 < 64"
proof -
  have "a AND 63 = take_bit 6 a" by (simp add: take_bit_eq_mask mask_eq_exp_minus_1)
  then show ?thesis by (simp add: word_less_nat_alt)
qed

definition sextet_char :: "u8 \<Rightarrow> u8" where
  "sextet_char a =
    (if a < 26 then a + 65 else if a < 52 then a - 26 + 97 else if a < 62 then a - 52 + 48
     else if a = 62 then 43 else 47)"

lemma conv_bin2ascii_cases: "conv_bin2ascii a = sextet_char (a AND 63)"
proof -
  have "(ucast (a AND 63) = (62 :: u64)) = (a AND 63 = 62)"
    using ucast_u8_u64_inj [of "a AND 63" 62] by simp
  then show ?thesis
    by (auto simp: conv_bin2ascii_def Let_def ct_spec ascii_def sextet_char_def)
qed

definition char_sextet :: "u8 \<Rightarrow> u8" where
  "char_sextet a =
    (if 65 \<le> a \<and> a \<le> 90 then a - 65 else if 97 \<le> a \<and> a \<le> 122 then a - 97 + 26
     else if 48 \<le> a \<and> a \<le> 57 then a - 48 + 52 else if a = 43 then 62 else if a = 47 then 63
     else if a = 61 then 0 else 0xff)"

lemma ucast_u8_eq_numeral:
  "((ucast (a :: u8) :: u64) = 43) = (a = 43)" "((ucast (a :: u8) :: u64) = 47) = (a = 47)"
  "((ucast (a :: u8) :: u64) = 61) = (a = 61)"
  using ucast_u8_u64_inj [of a 43] ucast_u8_u64_inj [of a 47] ucast_u8_u64_inj [of a 61]
  by simp_all

lemma base64_ascii_to_bin_cases: "base64_ascii_to_bin a = char_sextet a"
proof -
  have range: "constant_time_in_range_8 a 65 90 = (if 65 \<le> a \<and> a \<le> 90 then 0xff else 0)"
    "constant_time_in_range_8 a 97 122 = (if 97 \<le> a \<and> a \<le> 122 then 0xff else 0)"
    "constant_time_in_range_8 a 48 57 = (if 48 \<le> a \<and> a \<le> 57 then 0xff else 0)"
    by (auto simp: in_range_8_spec)
  consider "65 \<le> a \<and> a \<le> 90" | "97 \<le> a \<and> a \<le> 122" | "48 \<le> a \<and> a \<le> 57"
    | "a = 43" | "a = 47" | "a = 61"
    | "\<not> (65 \<le> a \<and> a \<le> 90)" "\<not> (97 \<le> a \<and> a \<le> 122)" "\<not> (48 \<le> a \<and> a \<le> 57)"
      "a \<noteq> 43" "a \<noteq> 47" "a \<noteq> 61"
    by blast
  then show ?thesis
    by cases (auto simp: base64_ascii_to_bin_def char_sextet_def Let_def range eq_8_spec
        ascii_def ucast_u8_eq_numeral word_nat_arith u8_all_ones)
qed

lemma char_sextet_inverse: "a < 64 \<Longrightarrow> char_sextet (sextet_char a) = a"
  by (auto simp: char_sextet_def sextet_char_def word_nat_arith)

lemma sextet_char_not_special:
  assumes "a < 64"
  shows "sextet_char a \<noteq> 61" "sextet_char a \<noteq> 32" "sextet_char a \<noteq> 9"
    "sextet_char a \<noteq> 13" "sextet_char a \<noteq> 10"
  using assms by (auto simp: sextet_char_def word_nat_arith)

subsection \<open>Quads\<close>

lemma and_63: "(a :: u8) AND 63 = take_bit 6 a"
  by (simp add: take_bit_eq_mask mask_eq_exp_minus_1)

lemma sextet_take_bit:
  "sextet_char (take_bit 6 a) \<noteq> 61" "char_sextet (sextet_char (take_bit 6 a)) = take_bit 6 a"
  "take_bit 6 a \<noteq> (255 :: u8)"
proof -
  have lt: "take_bit 6 a < (64 :: u8)"
    using sextet_bound [of a] by (simp add: and_63)
  then show "sextet_char (take_bit 6 a) \<noteq> 61" by (rule sextet_char_not_special)
  from lt show "char_sextet (sextet_char (take_bit 6 a)) = take_bit 6 a"
    by (rule char_sextet_inverse)
  from lt show "take_bit 6 a \<noteq> (255 :: u8)" by auto
qed

definition quad_word :: "u32 \<Rightarrow> u32" where
  "quad_word l = push_bit 18 (ucast (take_bit 6 (ucast (drop_bit 18 l) :: u8))) OR
      push_bit 12 (ucast (take_bit 6 (ucast (drop_bit 12 l) :: u8))) OR
      push_bit 6 (ucast (take_bit 6 (ucast (drop_bit 6 l) :: u8))) OR
      ucast (take_bit 6 (ucast l :: u8))"

lemma quad_word_take_bit: "quad_word l = take_bit 24 l"
proof (rule bit_word_eqI)
  fix n
  assume "n < LENGTH(32)"
  consider "n < 6" | "6 \<le> n" "n < 12" | "12 \<le> n" "n < 18" | "18 \<le> n" "n < 24" | "24 \<le> n"
    by linarith
  then show "bit (quad_word l) n = bit (take_bit 24 l) n"
    by cases (auto simp: quad_word_def bit_simps less_diff_conv2)
qed

lemma base64_word_bytes:
  "take_bit 24 (base64_word a b c) = base64_word a b c"
  "ucast (drop_bit 16 (base64_word a b c)) = a"
  "ucast (drop_bit 8 (base64_word a b c)) = b"
  "ucast (base64_word a b c) = c"
  by (rule bit_word_eqI, auto simp: base64_word_def bit_simps dest: bit_imp_le_length)+

lemma char_sextet_pad: "char_sextet 61 = 0"
  by (simp add: char_sextet_def word_nat_arith)

lemmas decode_quad_simps =
  base64_decode_quad_def base64_ascii_to_bin_cases conv_bin2ascii_cases sextet_take_bit
  char_sextet_pad Let_def and_63 ascii_def

lemma decode_quad_sextets:
  fixes a b c d :: u8 and v :: u32
  shows "push_bit 18 (ucast (take_bit 6 a)) OR push_bit 12 (ucast (take_bit 6 b)) OR
      push_bit 6 (ucast (take_bit 6 c)) OR ucast (take_bit 6 d) = v \<Longrightarrow>
      base64_decode_quad (conv_bin2ascii a) (conv_bin2ascii b) (conv_bin2ascii c) (conv_bin2ascii d) =
      Some [ucast (drop_bit 16 v), ucast (drop_bit 8 v), ucast v]"
    and "push_bit 18 (ucast (take_bit 6 a)) OR push_bit 12 (ucast (take_bit 6 b)) OR
      push_bit 6 (ucast (take_bit 6 c)) = v \<Longrightarrow>
      base64_decode_quad (conv_bin2ascii a) (conv_bin2ascii b) (conv_bin2ascii c) (ascii CHR ''='') =
      Some [ucast (drop_bit 16 v), ucast (drop_bit 8 v)]"
    and "push_bit 18 (ucast (take_bit 6 a)) OR push_bit 12 (ucast (take_bit 6 b)) = v \<Longrightarrow>
      base64_decode_quad (conv_bin2ascii a) (conv_bin2ascii b) (ascii CHR ''='') (ascii CHR ''='') =
      Some [ucast (drop_bit 16 v)]"
  by (auto simp: decode_quad_simps)

lemma decode_quad_full:
  fixes l :: u32
  assumes "take_bit 24 l = l"
  shows "base64_decode_quad (conv_bin2ascii (ucast (drop_bit 18 l)))
     (conv_bin2ascii (ucast (drop_bit 12 l))) (conv_bin2ascii (ucast (drop_bit 6 l)))
     (conv_bin2ascii (ucast l)) = Some [ucast (drop_bit 16 l), ucast (drop_bit 8 l), ucast l]"
  by (rule decode_quad_sextets(1))
    (simp add: assms quad_word_take_bit flip: quad_word_def)

lemma base64_word_sextets_0:
  "take_bit 6 (ucast (base64_word a b 0) :: u8) = 0"
  "take_bit 6 (ucast (drop_bit 6 (base64_word a 0 0)) :: u8) = 0"
  by (rule bit_word_eqI, auto simp: base64_word_def bit_simps)+

lemma decode_quad_pad1:
  "base64_decode_quad (conv_bin2ascii (ucast (drop_bit 18 (base64_word a b 0))))
     (conv_bin2ascii (ucast (drop_bit 12 (base64_word a b 0))))
     (conv_bin2ascii (ucast (drop_bit 6 (base64_word a b 0)))) (ascii CHR ''='') = Some [a, b]"
  using quad_word_take_bit [of "base64_word a b 0"]
  by (subst decode_quad_sextets(2) [where v = "base64_word a b 0"])
    (simp_all add: quad_word_def base64_word_bytes base64_word_sextets_0)

lemma decode_quad_pad2:
  "base64_decode_quad (conv_bin2ascii (ucast (drop_bit 18 (base64_word a 0 0))))
     (conv_bin2ascii (ucast (drop_bit 12 (base64_word a 0 0)))) (ascii CHR ''='')
     (ascii CHR ''='') = Some [a]"
  using quad_word_take_bit [of "base64_word a 0 0"]
  by (subst decode_quad_sextets(3) [where v = "base64_word a 0 0"])
    (simp_all add: quad_word_def base64_word_bytes base64_word_sextets_0)

subsection \<open>Blocks\<close>

lemma encode_loop_tails:
  "encode_loop [a, b] =
     [conv_bin2ascii (ucast (drop_bit 18 (base64_word a b 0))),
      conv_bin2ascii (ucast (drop_bit 12 (base64_word a b 0))),
      conv_bin2ascii (ucast (drop_bit 6 (base64_word a b 0))), ascii CHR ''='']"
  "encode_loop [a] =
     [conv_bin2ascii (ucast (drop_bit 18 (base64_word a 0 0))),
      conv_bin2ascii (ucast (drop_bit 12 (base64_word a 0 0))),
      ascii CHR ''='', ascii CHR ''='']"
  by (simp_all add: base64_word_def Let_def)

lemma encode_loop_Nil_iff [simp]: "encode_loop xs = [] \<longleftrightarrow> xs = []"
  by (cases xs rule: encode_loop.cases) (simp_all add: Let_def)

lemma length_encode_loop: "length (encode_loop xs) = (length xs + 2) div 3 * 4"
proof (induction xs rule: encode_loop.induct)
  case (1 a b c rest)
  have "(length rest + 3 + 2) div 3 = (length rest + 2) div 3 + 1" by arith
  then show ?case using 1 by (simp add: Let_def add.commute)
qed (simp_all add: Let_def)

lemma decode_quads_encode: "decode_quads out (encode_loop xs) = Some (out @ xs)"
proof (induction xs arbitrary: out rule: encode_loop.induct)
  case (1 a b c rest)
  then show ?case
    using decode_quad_full [OF base64_word_bytes(1), of a b c]
    by (simp add: Let_def base64_word_bytes)
next
  case (2 a b)
  then show ?case by (simp add: encode_loop_tails decode_quad_pad1 del: encode_loop.simps)
next
  case (3 a)
  then show ?case by (simp add: encode_loop_tails decode_quad_pad2 del: encode_loop.simps)
next
  case 4
  then show ?case by simp
qed

lemma encode_loop_append:
  "length xs mod 3 = 0 \<Longrightarrow> encode_loop (xs @ ys) = encode_loop xs @ encode_loop ys"
  by (induction xs rule: encode_loop.induct) (simp_all add: Let_def)

subsection \<open>The streaming encoder\<close>

text \<open>What the encoder produces: lines of 48 input bytes, each followed by a newline.\<close>

function pem_lines :: "u8 list \<Rightarrow> u8 list" where
  "pem_lines xs =
    (if xs = [] then []
     else encode_loop (take 48 xs) @ [ascii (CHR 0x0A)] @ pem_lines (drop 48 xs))"
  by pat_completeness auto
termination
  by (relation "measure length") auto

declare pem_lines.simps [simp del]

lemma pem_lines_Nil [simp]: "pem_lines [] = []"
  by (simp add: pem_lines.simps)

definition whole :: "u8 list \<Rightarrow> nat" where
  "whole xs = length xs div 48 * 48"

lemma whole_short: "length xs < 48 \<Longrightarrow> whole xs = 0"
  by (simp add: whole_def)

lemma whole_long:
  assumes "48 \<le> length xs"
  shows "whole xs = 48 + whole (drop 48 xs)"
proof -
  have "length xs div 48 = Suc ((length xs - 48) div 48)"
    using assms by (simp add: le_div_geq)
  then show ?thesis by (simp add: whole_def)
qed

lemma whole_le: "whole xs \<le> length xs"
  by (simp add: whole_def)

lemma whole_rest: "length xs - whole xs < 48"
  by (simp add: whole_def minus_div_mult_eq_mod)

lemma pem_lines_take_whole:
  assumes "48 \<le> length xs"
  shows "pem_lines (take (whole xs) xs) = encode_loop (take 48 xs) @ [ascii (CHR 0x0A)] @
    pem_lines (take (whole (drop 48 xs)) (drop 48 xs))"
proof -
  have "take (whole xs) xs \<noteq> []" "take 48 (take (whole xs) xs) = take 48 xs"
    "drop 48 (take (whole xs) xs) = take (whole (drop 48 xs)) (drop 48 xs)"
    using assms by (auto simp: whole_long min_def drop_take)
  then show ?thesis by (subst pem_lines.simps) simp
qed

lemma pem_lines_split:
  "pem_lines xs = pem_lines (take (whole xs) xs) @ pem_lines (drop (whole xs) xs)"
proof (induction xs rule: pem_lines.induct)
  case (1 xs)
  show ?case
  proof (cases "length xs < 48")
    case True
    then show ?thesis by (simp add: whole_short)
  next
    case False
    then have "xs \<noteq> []" by auto
    then have "pem_lines xs = encode_loop (take 48 xs) @ [ascii (CHR 0x0A)] @
        pem_lines (take (whole (drop 48 xs)) (drop 48 xs)) @
        pem_lines (drop (whole (drop 48 xs)) (drop 48 xs))"
      using 1 by (subst pem_lines.simps) simp
    moreover have "pem_lines (take (whole xs) xs) = encode_loop (take 48 xs) @ [ascii (CHR 0x0A)] @
        pem_lines (take (whole (drop 48 xs)) (drop 48 xs))"
      using False by (intro pem_lines_take_whole) simp
    moreover have "drop (whole xs) xs = drop (whole (drop 48 xs)) (drop 48 xs)"
      using False by (simp add: whole_long add.commute)
    ultimately show ?thesis by simp
  qed
qed

lemma length_line: "length xs = 48 \<Longrightarrow> length (encode_loop xs) = 64"
  by (simp add: length_encode_loop)

lemma encode_lines_spec:
  "ttl + 65 * (length inp div 48) < 2 ^ 64 \<Longrightarrow>
   encode_lines out ttl inp =
     (True, out @ pem_lines (take (whole inp) inp), ttl + 65 * (length inp div 48),
      drop (whole inp) inp)"
proof (induction out ttl inp rule: encode_lines.induct)
  case (1 out ttl inp)
  show ?case
  proof (cases "48 \<le> length inp")
    case False
    then show ?thesis by (subst encode_lines.simps) (simp add: sizeof_data_def whole_short)
  next
    case True
    let ?rest = "drop 48 inp"
    have d: "length inp div 48 = Suc (length ?rest div 48)"
      using True by (simp add: le_div_geq)
    have len: "length (encode_loop (take 48 inp)) = 64"
      using True by (simp add: length_line)
    have add: "size_add ttl 65 = ttl + 65"
      using "1.prems" d by (intro size_add_exact) simp
    have "encode_lines out ttl inp =
        encode_lines (out @ encode_loop (take 48 inp) @ [ascii (CHR 0x0A)]) (ttl + 65) ?rest"
      using True by (subst encode_lines.simps) (simp add: sizeof_data_def EVP_EncodeBlock_def len add)
    also have "\<dots> = (True, (out @ encode_loop (take 48 inp) @ [ascii (CHR 0x0A)]) @
        pem_lines (take (whole ?rest) ?rest), (ttl + 65) + 65 * (length ?rest div 48),
        drop (whole ?rest) ?rest)"
      using "1.IH" "1.prems" True d
      by (simp add: sizeof_data_def EVP_EncodeBlock_def len add)
    finally show ?thesis
      using pem_lines_take_whole [OF True] d by (simp add: whole_long [OF True] add.commute)
  qed
qed

lemma pem_lines_append:
  "length p mod 48 = 0 \<Longrightarrow> pem_lines (p @ q) = pem_lines p @ pem_lines q"
proof (induction p rule: pem_lines.induct)
  case (1 p)
  show ?case
  proof (cases "p = []")
    case True
    then show ?thesis by simp
  next
    case False
    with "1.prems" have len: "48 \<le> length p"
      by (metis length_0_conv mod_less not_le)
    then have "length (drop 48 p) mod 48 = 0"
      using "1.prems" by (simp add: le_mod_geq [symmetric])
    with "1.IH" False have "pem_lines (drop 48 p @ q) = pem_lines (drop 48 p) @ pem_lines q"
      by blast
    with False len show ?thesis
      by (subst (1 2) pem_lines.simps) simp
  qed
qed

definition enc_ok :: "evp_encode_ctx \<Rightarrow> bool" where
  "enc_ok ctx \<longleftrightarrow> length (ctx_data ctx) = 48 \<and> data_used ctx < 48"

definition pending :: "evp_encode_ctx \<Rightarrow> u8 list" where
  "pending ctx = take (data_used ctx) (ctx_data ctx)"

lemma pem_lines_length_whole:
  "length (pem_lines (take (whole xs) xs)) = 65 * (length xs div 48)"
proof (induction xs rule: pem_lines.induct)
  case (1 xs)
  show ?case
  proof (cases "48 \<le> length xs")
    case True
    then have "xs \<noteq> []" by auto
    with True have "length (pem_lines (take (whole xs) xs)) = 65 + 65 * ((length xs - 48) div 48)"
      using 1 by (simp add: pem_lines_take_whole length_line)
    then show ?thesis using True by (simp add: le_div_geq)
  qed (simp add: whole_short)
qed

lemma encode_update_spec:
  assumes ok: "enc_ok ctx" and len: "length inp \<le> 2 ^ 30"
  defines "all \<equiv> pending ctx @ inp"
  shows "\<exists>ctx'. EVP_EncodeUpdate ctx inp =
      (ctx', nul_terminated (pem_lines (take (whole all) all)),
       length (pem_lines (take (whole all) all))) \<and>
    enc_ok ctx' \<and> pending ctx' = drop (whole all) all"
proof -
  let ?u = "data_used ctx" and ?d = "ctx_data ctx"
  have pl: "length (pending ctx) = ?u" using ok by (simp add: pending_def enc_ok_def)
  consider "48 - ?u > length inp" | "48 - ?u \<le> length inp" "?u = 0" | "48 - ?u \<le> length inp" "?u \<noteq> 0"
    by linarith
  then show ?thesis
  proof cases
    case 1
    then have "whole all = 0" using pl by (simp add: all_def whole_short)
    moreover have "take (?u + length inp) (blit ?d ?u inp) = all"
      using ok 1 by (simp add: all_def pending_def enc_ok_def)
    ultimately show ?thesis using 1 ok
      by (auto simp: EVP_EncodeUpdate_def sizeof_data_def nul_terminated_def enc_ok_def
          pending_def all_def)
  next
    case 2
    then have all: "all = inp" using pl by (simp add: all_def)
    have "65 * (length inp div 48) \<le> INT_MAX"
      using len by (simp add: INT_MAX_def)
    moreover have "inp \<noteq> []" using 2 by auto
    ultimately show ?thesis using 2 ok encode_lines_spec [of 0 inp "[]"] whole_rest [of inp]
      by (auto simp: EVP_EncodeUpdate_def sizeof_data_def enc_ok_def INT_MAX_def
          pending_def all pem_lines_length_whole blit_def)
  next
    case 3
    let ?todo = "48 - ?u"
    let ?rest = "drop ?todo inp"
    let ?line = "pending ctx @ take ?todo inp"
    have line: "length ?line = 48" using 3 ok pl by (simp add: enc_ok_def)
    have blit: "blit ?d ?u (take ?todo inp) = ?line"
      using 3 ok by (simp add: blit_def pending_def enc_ok_def)
    have all: "take 48 all = ?line" "drop 48 all = ?rest" "48 \<le> length all"
      using 3 pl ok by (auto simp: all_def enc_ok_def)
    have small: "65 + 65 * (length ?rest div 48) \<le> INT_MAX"
      using len by (simp add: INT_MAX_def)
    have lines: "encode_lines (encode_loop ?line @ [ascii (CHR 0x0A)]) 65 ?rest =
        (True, pem_lines (take (whole all) all), 65 + 65 * (length ?rest div 48),
         drop (whole ?rest) ?rest)"
      using encode_lines_spec [of 65 ?rest "encode_loop ?line @ [ascii (CHR 0x0A)]"] small
        pem_lines_take_whole [OF all(3)]
      by (simp add: all INT_MAX_def)
    have n: "length (pem_lines (take (whole all) all)) = 65 + 65 * (length ?rest div 48)"
      using all by (simp add: pem_lines_length_whole le_div_geq flip: all(2))
    have rest: "drop (whole all) all = drop (whole ?rest) ?rest"
      using all by (simp add: whole_long add.commute flip: all(2))
    have "inp \<noteq> []" using 3 ok by (auto simp: enc_ok_def)
    then have upd: "EVP_EncodeUpdate ctx inp =
        (ctx\<lparr>ctx_data := blit ?line 0 (drop (whole all) all),
             data_used := length (drop (whole all) all)\<rparr>,
         nul_terminated (pem_lines (take (whole all) all)),
         length (pem_lines (take (whole all) all)))"
      using 3 small lines line
      by (auto simp: EVP_EncodeUpdate_def sizeof_data_def Let_def EVP_EncodeBlock_def blit
          length_line n rest)
    obtain L where L: "?line = L" by simp
    show ?thesis unfolding upd using line whole_rest [of all]
      unfolding L by (auto simp: enc_ok_def pending_def blit_def)
  qed
qed

text \<open>
  A caller that encodes a message in pieces: it keeps the first \<^verbatim>\<open>*out_len\<close> bytes of
  each call's output.
\<close>

fun encode_stream :: "evp_encode_ctx \<Rightarrow> u8 list list \<Rightarrow> u8 list" where
  "encode_stream ctx [] = (case EVP_EncodeFinal ctx of (_, out, n) \<Rightarrow> take n out)"
| "encode_stream ctx (p # ps) =
    (case EVP_EncodeUpdate ctx p of (ctx', out, n) \<Rightarrow> take n out @ encode_stream ctx' ps)"

lemma take_nul_terminated [simp]: "take (length out) (nul_terminated out) = out"
  by (simp add: nul_terminated_def)

lemma encode_final_spec:
  assumes "enc_ok ctx"
  shows "(case EVP_EncodeFinal ctx of (_, out, n) \<Rightarrow> take n out) = pem_lines (pending ctx)"
proof (cases "data_used ctx = 0")
  case True
  then show ?thesis by (simp add: EVP_EncodeFinal_def pending_def)
next
  case False
  have "pending ctx \<noteq> []" "length (pending ctx) < 48"
    using assms False by (auto simp: pending_def enc_ok_def)
  then have "pem_lines (pending ctx) = encode_loop (pending ctx) @ [ascii (CHR 0x0A)]"
    by (subst pem_lines.simps) simp
  then show ?thesis using False
    by (simp add: EVP_EncodeFinal_def EVP_EncodeBlock_def Let_def flip: pending_def)
qed

lemma encode_stream_pem:
  "enc_ok ctx \<Longrightarrow> \<forall>p \<in> set ps. length p \<le> 2 ^ 30 \<Longrightarrow>
   encode_stream ctx ps = pem_lines (pending ctx @ concat ps)"
proof (induction ps arbitrary: ctx)
  case Nil
  then show ?case using encode_final_spec by simp
next
  case (Cons p ps)
  define all where "all = pending ctx @ p"
  obtain ctx' where upd: "EVP_EncodeUpdate ctx p =
      (ctx', nul_terminated (pem_lines (take (whole all) all)),
       length (pem_lines (take (whole all) all)))"
    and ok: "enc_ok ctx'" and pend: "pending ctx' = drop (whole all) all"
    using encode_update_spec [of ctx p] Cons.prems unfolding all_def by auto
  have "pem_lines (take (whole all) all) @ pem_lines (drop (whole all) all @ concat ps) =
      pem_lines (take (whole all) all @ drop (whole all) all @ concat ps)"
    by (intro pem_lines_append [symmetric]) (use whole_le [of all] in \<open>simp add: whole_def\<close>)
  also have "\<dots> = pem_lines (all @ concat ps)"
    by (simp del: append_assoc add: append_assoc [symmetric])
  finally show ?case
    using Cons.IH [OF ok] Cons.prems by (simp add: upd pend all_def)
qed

lemma enc_ok_init: "enc_ok EVP_EncodeInit" "pending EVP_EncodeInit = []"
  by (simp_all add: enc_ok_def pending_def EVP_EncodeInit_def sizeof_data_def)

subsection \<open>The streaming decoder\<close>

lemma decode_loop_append:
  "decode_loop ctx out (xs @ ys) =
    (case decode_loop ctx out xs of
       (True, ctx', out') \<Rightarrow> decode_loop ctx' out' ys
     | (False, r) \<Rightarrow> (False, r))"
  by (induction ctx out xs rule: decode_loop.induct) (auto simp: Let_def split: option.splits)

lemma decode_loop_out:
  "decode_loop ctx (pre @ out) xs =
    (case decode_loop ctx out xs of (ok, ctx', out') \<Rightarrow> (ok, ctx', pre @ out'))"
  by (induction ctx out xs rule: decode_loop.induct) (auto simp: Let_def split: option.splits)

definition dec_ok :: "evp_encode_ctx \<Rightarrow> bool" where
  "dec_ok ctx \<longleftrightarrow> length (ctx_data ctx) = 48 \<and> data_used ctx = 0 \<and>
     \<not> eof_seen ctx \<and> \<not> error_encountered ctx"

lemma decode_loop_quad:
  assumes "dec_ok ctx" "\<forall>c \<in> {a, b, c, d}. \<not> is_base64_space c"
    and "base64_decode_quad a b c d = Some bs"
  shows "\<exists>ctx'. (\<forall>out cs. decode_loop ctx out (a # b # c # d # cs) = decode_loop ctx' (out @ bs) cs) \<and>
    data_used ctx' = 0 \<and> length (ctx_data ctx') = 48 \<and> \<not> error_encountered ctx' \<and>
    (eof_seen ctx' \<longleftrightarrow> length bs < 3)"
proof -
  let ?d = "(ctx_data ctx)[0 := a, Suc 0 := b, Suc (Suc 0) := c, Suc (Suc (Suc 0)) := d]"
  let ?c = "ctx\<lparr>ctx_data := ?d, data_used := 0\<rparr>"
  let ?ctx = "if length bs < 3 then ?c\<lparr>eof_seen := True\<rparr> else ?c"
  have "?d ! 0 = a" "?d ! Suc 0 = b" "?d ! 2 = c" "?d ! 3 = d"
    using assms(1) by (simp_all add: dec_ok_def numeral_2_eq_2 numeral_3_eq_3)
  then have "decode_loop ctx out (a # b # c # d # cs) = decode_loop ?ctx (out @ bs) cs" for out cs
    using assms by (simp add: dec_ok_def Let_def)
  then show ?thesis using assms(1) by (intro exI [of _ ?ctx]) (simp add: dec_ok_def)
qed

lemma conv_not_space: "\<not> is_base64_space (conv_bin2ascii a)"
  using sextet_char_not_special [OF sextet_bound [of a]]
  by (simp add: is_base64_space_def conv_bin2ascii_cases ascii_def)

lemma pad_not_space: "\<not> is_base64_space (ascii CHR ''='')"
  by (simp add: is_base64_space_def ascii_def)

lemma newline_is_space: "is_base64_space (ascii (CHR 0x0A))"
  by (simp add: is_base64_space_def)

lemma decode_loop_encode:
  "dec_ok ctx \<Longrightarrow>
   \<exists>ctx'. (\<forall>out cs. decode_loop ctx out (encode_loop xs @ cs) = decode_loop ctx' (out @ xs) cs) \<and>
     data_used ctx' = 0 \<and> length (ctx_data ctx') = 48 \<and> \<not> error_encountered ctx' \<and>
     (eof_seen ctx' \<longleftrightarrow> length xs mod 3 \<noteq> 0)"
proof (induction xs arbitrary: ctx rule: encode_loop.induct)
  case (1 a b c rest)
  let ?l = "base64_word a b c"
  obtain ctx1 where step: "\<forall>out cs. decode_loop ctx out
      (conv_bin2ascii (ucast (drop_bit 18 ?l)) # conv_bin2ascii (ucast (drop_bit 12 ?l)) #
       conv_bin2ascii (ucast (drop_bit 6 ?l)) # conv_bin2ascii (ucast ?l) # cs) =
      decode_loop ctx1 (out @ [a, b, c]) cs"
    and "dec_ok ctx1"
    using decode_loop_quad [OF "1.prems" _ decode_quad_full [OF base64_word_bytes(1), of a b c]]
    by (auto simp: conv_not_space base64_word_bytes dec_ok_def)
  with "1.IH" obtain ctx' where "\<forall>out cs. decode_loop ctx1 out (encode_loop rest @ cs) =
      decode_loop ctx' (out @ rest) cs" "data_used ctx' = 0" "length (ctx_data ctx') = 48"
    "\<not> error_encountered ctx'" "eof_seen ctx' \<longleftrightarrow> length rest mod 3 \<noteq> 0"
    by blast
  moreover have "length (a # b # c # rest) mod 3 = length rest mod 3" by simp
  ultimately show ?case using step
    by (intro exI [of _ ctx']) (simp add: Let_def)
next
  case (2 a b)
  show ?case
    using decode_loop_quad [OF "2.prems" _ decode_quad_pad1, of a b]
    by (auto simp: conv_not_space pad_not_space encode_loop_tails simp del: encode_loop.simps decode_loop.simps)
next
  case (3 a)
  show ?case
    using decode_loop_quad [OF "3.prems" _ decode_quad_pad2, of a]
    by (auto simp: conv_not_space pad_not_space encode_loop_tails simp del: encode_loop.simps decode_loop.simps)
next
  case 4
  then show ?case by (auto simp: dec_ok_def)
qed

lemma decode_loop_pem:
  "dec_ok ctx \<Longrightarrow>
   \<exists>ctx'. \<forall>out. decode_loop ctx out (pem_lines xs) = (True, ctx', out @ xs) \<and>
     data_used ctx' = 0 \<and> \<not> error_encountered ctx'"
proof (induction xs arbitrary: ctx rule: pem_lines.induct)
  case (1 xs)
  show ?case
  proof (cases "xs = []")
    case True
    then show ?thesis using "1.prems" by (auto simp: dec_ok_def)
  next
    case False
    obtain ctx1 where step: "\<forall>out cs. decode_loop ctx out (encode_loop (take 48 xs) @ cs) =
        decode_loop ctx1 (out @ take 48 xs) cs"
      and ok: "data_used ctx1 = 0" "length (ctx_data ctx1) = 48" "\<not> error_encountered ctx1"
        "eof_seen ctx1 \<longleftrightarrow> length (take 48 xs) mod 3 \<noteq> 0"
      using decode_loop_encode [OF "1.prems"] by blast
    have eq: "decode_loop ctx out (pem_lines xs) =
        decode_loop ctx1 (out @ take 48 xs) (pem_lines (drop 48 xs))" for out
      using False step by (subst pem_lines.simps) (simp add: newline_is_space)
    show ?thesis
    proof (cases "length xs < 48")
      case True
      then show ?thesis using eq ok by auto
    next
      case False
      then have "dec_ok ctx1" using ok by (simp add: dec_ok_def min_def)
      then show ?thesis using "1.IH" [of ctx1] \<open>xs \<noteq> []\<close> eq by auto
    qed
  qed
qed

text \<open>
  A caller that decodes a message in pieces: it stops at \<^verbatim>\<open>-1\<close> and otherwise keeps
  the first \<^verbatim>\<open>*out_len\<close> bytes of each call's output.
\<close>

fun decode_stream :: "evp_encode_ctx \<Rightarrow> u8 list list \<Rightarrow> u8 list option" where
  "decode_stream ctx [] = (if EVP_DecodeFinal ctx = 1 then Some [] else None)"
| "decode_stream ctx (p # ps) =
    (case EVP_DecodeUpdate ctx p of
       (ctx', r, out, n) \<Rightarrow>
         if r = -1 then None else map_option ((@) (take n out)) (decode_stream ctx' ps))"

lemma decode_loop_error_flag:
  "decode_loop ctx out xs = (True, ctx', out') \<Longrightarrow> error_encountered ctx' = error_encountered ctx"
  by (induction ctx out xs rule: decode_loop.induct)
    (auto simp: Let_def split: if_splits option.splits)

lemma decode_stream_loop:
  "decode_loop ctx [] (concat ps) = (True, ctx', out) \<Longrightarrow> \<not> error_encountered ctx \<Longrightarrow>
   length out \<le> INT_MAX \<Longrightarrow> data_used ctx' = 0 \<Longrightarrow> decode_stream ctx ps = Some out"
proof (induction ps arbitrary: ctx out)
  case Nil
  then show ?case by (simp add: EVP_DecodeFinal_def)
next
  case (Cons p ps)
  obtain ok ctx1 o1 where p: "decode_loop ctx [] p = (ok, ctx1, o1)"
    by (metis prod_cases3)
  with Cons.prems(1) have ok: "ok" and rest: "decode_loop ctx1 o1 (concat ps) = (True, ctx', out)"
    by (auto simp: decode_loop_append split: bool.splits)
  obtain ok2 ctx2 o2 where "decode_loop ctx1 [] (concat ps) = (ok2, ctx2, o2)"
    by (metis prod_cases3)
  with rest decode_loop_out [of ctx1 o1 "[]" "concat ps"]
  have tl: "decode_loop ctx1 [] (concat ps) = (True, ctx', o2)" and out: "out = o1 @ o2"
    by auto
  have "\<not> error_encountered ctx1"
    using decode_loop_error_flag p ok Cons.prems(2) by auto
  then have "decode_stream ctx1 ps = Some o2"
    using Cons.IH [OF tl] Cons.prems out by auto
  then show ?case using p ok Cons.prems out
    by (auto simp: EVP_DecodeUpdate_def)
qed

lemma dec_ok_init: "dec_ok EVP_DecodeInit"
  by (simp add: dec_ok_def EVP_DecodeInit_def sizeof_data_def)

subsection \<open>Properties\<close>

text \<open>The base64 alphabet of RFC 4648.\<close>

definition base64_alphabet :: string where
  "base64_alphabet = ''ABCDEFGHIJKLMNOPQRSTUVWXYZabcdefghijklmnopqrstuvwxyz0123456789+/''"

lemma upt_64: "[0..<64] = [0, 1, 2, 3, 4, 5, 6, 7, 8, 9, 10, 11, 12, 13, 14, 15, 16, 17, 18, 19, 20,
  21, 22, 23, 24, 25, 26, 27, 28, 29, 30, 31, 32, 33, 34, 35, 36, 37, 38, 39, 40, 41, 42, 43, 44,
  45, 46, 47, 48, 49, 50, 51, 52, 53, 54, 55, 56, 57, 58, 59, 60, 61, 62, 63 :: nat]"
  by (simp add: upt_rec)

lemma base64_alphabet_table:
  "list_all (\<lambda>n. sextet_char (of_nat n) = ascii (base64_alphabet ! n)) [0..<64]"
  unfolding upt_64 by (simp add: sextet_char_def ascii_def base64_alphabet_def word_nat_arith)

text \<open>The branch-free \<^verbatim>\<open>conv_bin2ascii\<close> is the table look-up of RFC 4648, for
  every byte (only its low six bits count), and \<^verbatim>\<open>base64_ascii_to_bin\<close> inverts it.\<close>

theorem conv_bin2ascii_table:
  "conv_bin2ascii a = ascii (base64_alphabet ! (unat a mod 64)) \<and>
   base64_ascii_to_bin (conv_bin2ascii a) = a AND 63"
proof -
  have "sextet_char (of_nat (unat a mod 64)) = ascii (base64_alphabet ! (unat a mod 64))"
    using base64_alphabet_table by (simp add: list_all_iff)
  moreover have "of_nat (unat a mod 64) = a AND 63"
    by (rule word_unat_eq_iff [THEN iffD2]) (simp only: and_63 unat_take_bit unat_of_nat_u8, simp)
  ultimately have "conv_bin2ascii a = ascii (base64_alphabet ! (unat a mod 64))"
    by (simp add: conv_bin2ascii_cases)
  moreover have "base64_ascii_to_bin (conv_bin2ascii a) = a AND 63"
    using sextet_bound [of a]
    by (simp add: conv_bin2ascii_cases base64_ascii_to_bin_cases char_sextet_inverse)
  ultimately show ?thesis by simp
qed

text \<open>\<^verbatim>\<open>EVP_EncodedLength\<close> computes exactly the number of bytes that
  \<^verbatim>\<open>EVP_EncodeBlock\<close> writes, NUL included, and fails exactly when that number does not
  fit in a \<^verbatim>\<open>size_t\<close>.\<close>

theorem encoded_length_exact:
  assumes "length src < 2 ^ 64"
  shows "EVP_EncodedLength (length src) =
    (let n = length (fst (EVP_EncodeBlock src)) in if n < 2 ^ 64 then Some n else None)"
proof -
  let ?n = "length src"
  have len: "length (fst (EVP_EncodeBlock src)) = (?n + 2) div 3 * 4 + 1"
    by (simp add: EVP_EncodeBlock_def Let_def length_encode_loop)
  show ?thesis
  proof (cases "?n + 2 < 2 ^ 64")
    case False
    then have "size_add ?n 2 < ?n"
      using assms by (simp add: size_add_overflow_iff)
    moreover have "\<not> (?n + 2) div 3 * 4 + 1 < 2 ^ 64" using False by simp
    ultimately show ?thesis by (simp only: EVP_EncodedLength_def len Let_def if_True if_False)
  next
    case True
    let ?q = "(?n + 2) div 3"
    show ?thesis
    proof (cases "?q * 4 < 2 ^ 64")
      case True
      then have "?q * 4 + 1 < 2 ^ 64" by simp
      with True \<open>?n + 2 < 2 ^ 64\<close> show ?thesis
        by (simp add: EVP_EncodedLength_def len Let_def size_mul_def)
    next
      case False
      then have "(?q * 4) mod 2 ^ 64 div 4 \<noteq> ?q" by simp
      with False \<open>?n + 2 < 2 ^ 64\<close> show ?thesis
        by (simp add: EVP_EncodedLength_def len Let_def size_mul_def)
    qed
  qed
qed

lemma encoded_length_exact_witness:
  "EVP_EncodedLength (length [1, 2, 3, 4 :: u8]) = Some (length (fst (EVP_EncodeBlock [1, 2, 3, 4])))"
  using encoded_length_exact [of "[1, 2, 3, 4]"]
  by (simp add: EVP_EncodeBlock_def Let_def length_encode_loop)

text \<open>One-shot round trip. Decoding what \<^verbatim>\<open>EVP_EncodeBlock\<close> wrote (its return
  value says how many characters) gives back the input, in any output buffer of the size
  \<^verbatim>\<open>EVP_DecodedLength\<close> asks for.\<close>

theorem base64_block_roundtrip:
  assumes "EVP_EncodeBlock src = (dst, n)" and "(length src + 2) div 3 * 3 \<le> max_out"
  shows "EVP_DecodeBase64 max_out (take n dst) = Some src"
  using assms
  by (auto simp: EVP_EncodeBlock_def Let_def EVP_DecodeBase64_def EVP_DecodedLength_def
      length_encode_loop decode_quads_encode)

lemma base64_block_roundtrip_witness:
  "EVP_DecodeBase64 3 (take (snd (EVP_EncodeBlock [77, 97])) (fst (EVP_EncodeBlock [77, 97]))) =
    Some [77, 97]"
  by (rule base64_block_roundtrip [OF prod.collapse [symmetric]]) simp

text \<open>C4: streaming. However a message is cut into pieces for
  \<^verbatim>\<open>EVP_EncodeUpdate\<close>, and however the text produced is cut into pieces for
  \<^verbatim>\<open>EVP_DecodeUpdate\<close>, the text is the 48-byte lines of the message and decoding gives
  the message back.\<close>

theorem base64_stream_roundtrip:
  assumes "\<forall>p \<in> set ps. length p \<le> 2 ^ 30"
    and "concat qs = encode_stream EVP_EncodeInit ps" and "length (concat ps) \<le> INT_MAX"
  shows "encode_stream EVP_EncodeInit ps = pem_lines (concat ps) \<and>
    decode_stream EVP_DecodeInit qs = Some (concat ps)"
proof -
  have enc: "encode_stream EVP_EncodeInit ps = pem_lines (concat ps)"
    using encode_stream_pem [OF enc_ok_init(1) assms(1)] by (simp add: enc_ok_init)
  obtain ctx' where "decode_loop EVP_DecodeInit [] (concat qs) = (True, ctx', concat ps)"
    "data_used ctx' = 0"
    using decode_loop_pem [OF dec_ok_init, of "concat ps"] assms(2) enc by auto
  then have "decode_stream EVP_DecodeInit qs = Some (concat ps)"
    using decode_stream_loop assms(3) dec_ok_init by (auto simp: dec_ok_def)
  with enc show ?thesis by simp
qed

lemma base64_stream_roundtrip_witness:
  "decode_stream EVP_DecodeInit [pem_lines [77, 97, 110]] = Some [77, 97, 110]"
proof -
  have "encode_stream EVP_EncodeInit [[77], [97, 110]] = pem_lines [77, 97, 110]"
    using base64_stream_roundtrip
      [of "[[77], [97, 110]]" "[encode_stream EVP_EncodeInit [[77], [97, 110]]]"]
    by (simp add: INT_MAX_def)
  then show ?thesis
    using base64_stream_roundtrip [of "[[77], [97, 110]]" "[pem_lines [77, 97, 110]]"]
    by (simp add: INT_MAX_def)
qed

end
