(* ===== verification/Endian.thy ===== *)
theory Endian
  imports Prelude
begin

text \<open>
  Byte order and memory access helpers of \<^verbatim>\<open>crypto/internal.h\<close> (the portable branch
  of \<^verbatim>\<open>CRYPTO_bswap\<close>, the sized loads and stores, the rotations) and the
  constant-time comparison of \<^verbatim>\<open>crypto/mem.c\<close>, on a little-endian machine: the bytes
  of a word in memory are its \<open>le_bytes\<close>.
\<close>

definition CRYPTO_bswap2 :: "u16 \<Rightarrow> u16" where
  "CRYPTO_bswap2 x = drop_bit 8 x OR push_bit 8 x"

definition CRYPTO_bswap4 :: "u32 \<Rightarrow> u32" where
  "CRYPTO_bswap4 x0 =
    (let x = drop_bit 16 x0 OR push_bit 16 x0
     in drop_bit 8 (x AND 0xff00ff00) OR push_bit 8 (x AND 0x00ff00ff))"

definition CRYPTO_bswap8 :: "u64 \<Rightarrow> u64" where
  "CRYPTO_bswap8 x =
    ucast (CRYPTO_bswap4 (ucast (drop_bit 32 x))) OR push_bit 32 (ucast (CRYPTO_bswap4 (ucast x)))"

text \<open>The object representation of an integer: \<open>memcpy\<close> from and to memory.\<close>

definition word_of_mem :: "u8 list \<Rightarrow> 'a::len word" where
  "word_of_mem bs = of_nat (le_val bs)"

definition mem_of_word :: "nat \<Rightarrow> 'a::len word \<Rightarrow> u8 list" where
  "mem_of_word n w = rev (be_bytes n (unat w))"

definition CRYPTO_load_u32_le :: "u8 list \<Rightarrow> u32" where
  "CRYPTO_load_u32_le bs = word_of_mem (take 4 bs)"

definition CRYPTO_store_u32_le :: "u32 \<Rightarrow> u8 list" where
  "CRYPTO_store_u32_le v = mem_of_word 4 v"

definition CRYPTO_load_u32_be :: "u8 list \<Rightarrow> u32" where
  "CRYPTO_load_u32_be bs = CRYPTO_bswap4 (word_of_mem (take 4 bs))"

definition CRYPTO_store_u32_be :: "u32 \<Rightarrow> u8 list" where
  "CRYPTO_store_u32_be v = mem_of_word 4 (CRYPTO_bswap4 v)"

definition CRYPTO_load_u64_be :: "u8 list \<Rightarrow> u64" where
  "CRYPTO_load_u64_be bs = CRYPTO_bswap8 (word_of_mem (take 8 bs))"

definition CRYPTO_store_u64_be :: "u64 \<Rightarrow> u8 list" where
  "CRYPTO_store_u64_be v = mem_of_word 8 (CRYPTO_bswap8 v)"

definition CRYPTO_load_word_le :: "u8 list \<Rightarrow> u64" where
  "CRYPTO_load_word_le bs = word_of_mem (take 8 bs)"

definition CRYPTO_store_word_le :: "u64 \<Rightarrow> u8 list" where
  "CRYPTO_store_word_le v = mem_of_word 8 v"

definition CRYPTO_rotl_u32 :: "u32 \<Rightarrow> nat \<Rightarrow> u32" where
  "CRYPTO_rotl_u32 value shift = push_bit shift value OR drop_bit ((32 - shift) mod 32) value"

definition CRYPTO_rotr_u32 :: "u32 \<Rightarrow> nat \<Rightarrow> u32" where
  "CRYPTO_rotr_u32 value shift = drop_bit shift value OR push_bit ((32 - shift) mod 32) value"

definition CRYPTO_rotl_u64 :: "u64 \<Rightarrow> nat \<Rightarrow> u64" where
  "CRYPTO_rotl_u64 value shift = push_bit shift value OR drop_bit ((64 - shift) mod 64) value"

definition CRYPTO_rotr_u64 :: "u64 \<Rightarrow> nat \<Rightarrow> u64" where
  "CRYPTO_rotr_u64 value shift = drop_bit shift value OR push_bit ((64 - shift) mod 64) value"

text \<open>\<^verbatim>\<open>CRYPTO_memcmp\<close> on two arrays of \<^verbatim>\<open>len\<close> bytes: zero iff they agree.\<close>

fun CRYPTO_memcmp_loop :: "u8 \<Rightarrow> u8 list \<Rightarrow> u8 list \<Rightarrow> u8" where
  "CRYPTO_memcmp_loop x (a # as) (b # bs) = CRYPTO_memcmp_loop (x OR (a XOR b)) as bs"
| "CRYPTO_memcmp_loop x _ _ = x"

definition CRYPTO_memcmp :: "u8 list \<Rightarrow> u8 list \<Rightarrow> nat \<Rightarrow> u8" where
  "CRYPTO_memcmp a b len = CRYPTO_memcmp_loop 0 (take len a) (take len b)"

subsection \<open>Bits of byte strings\<close>

lemma bit_be_val:
  "bit (be_val bs) n \<longleftrightarrow> n div 8 < length bs \<and> bit (rev bs ! (n div 8)) (n mod 8)"
proof (induction bs arbitrary: n rule: rev_induct)
  case Nil
  then show ?case by simp
next
  case (snoc b bs)
  have val: "be_val (bs @ [b]) = push_bit 8 (be_val bs) OR unat b"
  proof -
    have "push_bit 8 (be_val bs) AND unat b = 0"
      by (rule bit_eqI) (auto simp: bit_simps dest: bit_imp_le_length)
    then have "push_bit 8 (be_val bs) OR unat b = push_bit 8 (be_val bs) + unat b"
      by (simp add: disjunctive_add_eq_or)
    then show ?thesis by (simp add: push_bit_eq_mult)
  qed
  show ?case
  proof (cases "n < 8")
    case True
    then show ?thesis unfolding val by (simp add: bit_simps)
  next
    case False
    then have "\<not> bit b n" using bit_imp_le_length [of b n] by auto
    moreover have "n div 8 = Suc ((n - 8) div 8)" "n mod 8 = (n - 8) mod 8"
      using False by (simp_all add: le_div_geq le_mod_geq)
    ultimately show ?thesis using False snoc.IH [of "n - 8"]
      unfolding val by (simp add: bit_simps nth_append)
  qed
qed

lemma bit_word_of_nat:
  "bit (of_nat m :: 'a::len word) n \<longleftrightarrow> n < LENGTH('a) \<and> bit m n"
proof -
  have "bit (unat (of_nat m :: 'a word)) n \<longleftrightarrow> n < LENGTH('a) \<and> bit m n"
    by (simp add: unsigned_of_nat bit_take_bit_iff)
  then show ?thesis by (simp add: bit_unsigned_iff)
qed

lemma bit_word_of_be:
  "bit (of_nat (be_val bs) :: 'a::len word) n \<longleftrightarrow>
     n < LENGTH('a) \<and> n div 8 < length bs \<and> bit (rev bs ! (n div 8)) (n mod 8)"
  by (simp add: bit_word_of_nat bit_be_val)

lemma bit_word_of_mem:
  "bit (word_of_mem bs :: 'a::len word) n \<longleftrightarrow>
     n < LENGTH('a) \<and> n div 8 < length bs \<and> bit (bs ! (n div 8)) (n mod 8)"
  by (simp add: word_of_mem_def le_val_def bit_word_of_be)

lemma byte_index_cases:
  fixes n :: nat
  assumes "n < 32"
  obtains "n < 8" "n div 8 = 0" "n mod 8 = n"
    | k where "n = k + 8" "k < 8" "n div 8 = 1" "n mod 8 = k"
    | k where "n = k + 16" "k < 8" "n div 8 = 2" "n mod 8 = k"
    | k where "n = k + 24" "k < 8" "n div 8 = 3" "n mod 8 = k"
proof -
  have n: "n = n mod 8 + 8 * (n div 8)" by simp
  have "n div 8 < 4" using assms by simp
  then consider "n div 8 = 0" | "n div 8 = 1" | "n div 8 = 2" | "n div 8 = 3" by linarith
  then show ?thesis
  proof cases
    case 1
    then show ?thesis using that(1) by simp
  next
    case 2
    then show ?thesis using that(2) [of "n mod 8"] n by simp
  next
    case 3
    then show ?thesis using that(3) [of "n mod 8"] n by simp
  next
    case 4
    then show ?thesis using that(4) [of "n mod 8"] n by simp
  qed
qed

lemma bswap4_masks:
  "(0xff00ff00 :: u32) = push_bit 24 (mask 8) OR push_bit 8 (mask 8)"
  "(0x00ff00ff :: u32) = push_bit 16 (mask 8) OR mask 8"
  by (simp_all add: mask_eq_exp_minus_1)

lemma bit_bswap4: "bit (CRYPTO_bswap4 x) n \<longleftrightarrow> n < 32 \<and> bit x (8 * (3 - n div 8) + n mod 8)"
proof (cases "n < 32")
  case True
  then show ?thesis
    unfolding CRYPTO_bswap4_def Let_def bswap4_masks
    by (cases n rule: byte_index_cases) (auto simp: bit_simps dest: bit_imp_le_length)
next
  case False
  then show ?thesis using bit_imp_le_length [of "CRYPTO_bswap4 x" n] by auto
qed

lemma bit_bswap2: "bit (CRYPTO_bswap2 x) n \<longleftrightarrow> n < 16 \<and> bit x (8 * (1 - n div 8) + n mod 8)"
proof (cases "n < 16")
  case True
  then have "n < 32" by simp
  then show ?thesis using True
    by (cases n rule: byte_index_cases) (auto simp: CRYPTO_bswap2_def bit_simps dest: bit_imp_le_length)
next
  case False
  then show ?thesis using bit_imp_le_length [of "CRYPTO_bswap2 x" n] by auto
qed

lemma bit_bswap8: "bit (CRYPTO_bswap8 x) n \<longleftrightarrow> n < 64 \<and> bit x (8 * (7 - n div 8) + n mod 8)"
proof -
  consider "n < 32" | "32 \<le> n" "n < 64" | "64 \<le> n" by linarith
  then show ?thesis
  proof cases
    case 1
    then have "8 * (3 - n div 8) + n mod 8 < 32"
      and idx: "32 + (8 * (3 - n div 8) + n mod 8) = 8 * (7 - n div 8) + n mod 8" by linarith+
    then show ?thesis using 1 unfolding idx [symmetric]
      by (simp add: CRYPTO_bswap8_def bit_simps bit_bswap4)
  next
    case 2
    then obtain m where m: "n = 32 + m" using le_Suc_ex by blast
    have "(32 + m) div 8 = 4 + m div 8" "(32 + m) mod 8 = m mod 8"
      using div_plus_div_distrib_dvd_left [of 8 32 m] mod_add_eq [of 32 8 m] by simp_all
    then have "8 * (3 - m div 8) + m mod 8 = 8 * (7 - n div 8) + n mod 8" by (simp add: m)
    moreover have "8 * (3 - m div 8) + m mod 8 < 32" by linarith
    ultimately show ?thesis using 2 by (simp add: CRYPTO_bswap8_def bit_simps bit_bswap4 m)
  next
    case 3
    then show ?thesis using bit_imp_le_length [of "CRYPTO_bswap8 x" n] by auto
  qed
qed

lemma byte_div_mod [simp]: "(8 * k + n mod 8) div 8 = k" "(8 * k + n mod 8) mod 8 = n mod (8 :: nat)"
  by simp_all

subsection \<open>Byte-swapped loads are big-endian\<close>

lemma bswap2_of_be: "length bs = 2 \<Longrightarrow> CRYPTO_bswap2 (of_nat (be_val bs)) = of_nat (le_val bs)"
  by (rule bit_word_eqI)
    (auto simp: bit_bswap2 bit_word_of_be le_val_def rev_nth div_less_iff_less_mult)

lemma bswap4_of_be: "length bs = 4 \<Longrightarrow> CRYPTO_bswap4 (of_nat (be_val bs)) = of_nat (le_val bs)"
  by (rule bit_word_eqI)
    (auto simp: bit_bswap4 bit_word_of_be le_val_def rev_nth div_less_iff_less_mult)

lemma bswap8_of_be: "length bs = 8 \<Longrightarrow> CRYPTO_bswap8 (of_nat (be_val bs)) = of_nat (le_val bs)"
  by (rule bit_word_eqI)
    (auto simp: bit_bswap8 bit_word_of_be le_val_def rev_nth div_less_iff_less_mult)

lemma of_nat_be_bytes:
  "LENGTH('a) \<le> 8 * n \<Longrightarrow> of_nat (be_val (be_bytes n (unat w))) = (w :: 'a::len word)"
proof -
  assume le: "LENGTH('a) \<le> 8 * n"
  have "unat w < 2 ^ LENGTH('a)" by (rule unsigned_less)
  also have "\<dots> \<le> 2 ^ (8 * n)" using le by simp
  finally have "unat w < 256 ^ n" by (simp add: power_mult)
  then show ?thesis by (simp add: be_val_be_bytes)
qed

lemma word_of_mem_of_word [simp]:
  "LENGTH('a) \<le> 8 * n \<Longrightarrow> word_of_mem (mem_of_word n w) = (w :: 'a::len word)"
  by (simp add: word_of_mem_def mem_of_word_def le_val_def of_nat_be_bytes)

lemma length_mem_of_word [simp]: "length (mem_of_word n w) = n"
  by (simp add: mem_of_word_def)

lemma bswap4_of_le: "length bs = 4 \<Longrightarrow> CRYPTO_bswap4 (word_of_mem bs) = of_nat (be_val bs)"
  using bswap4_of_be [of "rev bs"] by (simp add: word_of_mem_def le_val_def)

lemma bswap8_of_le: "length bs = 8 \<Longrightarrow> CRYPTO_bswap8 (word_of_mem bs) = of_nat (be_val bs)"
  using bswap8_of_be [of "rev bs"] by (simp add: word_of_mem_def le_val_def)

lemma bswap4_bswap4 [simp]: "CRYPTO_bswap4 (CRYPTO_bswap4 x) = x"
proof (rule bit_word_eqI)
  fix n assume n: "n < LENGTH(32)"
  then have "8 * (3 - (3 - n div 8)) + n mod 8 = n" by simp
  moreover have "8 * (3 - n div 8) + n mod 8 < 32" using n by simp
  ultimately show "bit (CRYPTO_bswap4 (CRYPTO_bswap4 x)) n = bit x n"
    using n by (simp add: bit_bswap4)
qed

lemma bswap8_bswap8 [simp]: "CRYPTO_bswap8 (CRYPTO_bswap8 x) = x"
proof (rule bit_word_eqI)
  fix n assume n: "n < LENGTH(64)"
  then have "8 * (7 - (7 - n div 8)) + n mod 8 = n" by simp
  moreover have "8 * (7 - n div 8) + n mod 8 < 64" using n by simp
  ultimately show "bit (CRYPTO_bswap8 (CRYPTO_bswap8 x)) n = bit x n"
    using n by (simp add: bit_bswap8)
qed

lemma bswap2_bswap2 [simp]: "CRYPTO_bswap2 (CRYPTO_bswap2 x) = x"
proof (rule bit_word_eqI)
  fix n assume n: "n < LENGTH(16)"
  then have "8 * (1 - (1 - n div 8)) + n mod 8 = n" by simp
  moreover have "8 * (1 - n div 8) + n mod 8 < 16" using n by simp
  ultimately show "bit (CRYPTO_bswap2 (CRYPTO_bswap2 x)) n = bit x n"
    using n by (simp add: bit_bswap2)
qed

lemma load_store_u32_be: "CRYPTO_load_u32_be (CRYPTO_store_u32_be v @ bs) = v"
  by (simp add: CRYPTO_load_u32_be_def CRYPTO_store_u32_be_def)

lemma load_store_word_le: "CRYPTO_load_word_le (CRYPTO_store_word_le v @ bs) = v"
  by (simp add: CRYPTO_load_word_le_def CRYPTO_store_word_le_def)

subsection \<open>Comparison\<close>

lemma u8_or_eq_0 [simp]: "(a OR b = (0 :: 'a::len word)) = (a = 0 \<and> b = 0)"
  by (metis or_eq_0_iff)

lemma memcmp_loop_0:
  "length a = length b \<Longrightarrow> CRYPTO_memcmp_loop x a b = 0 \<longleftrightarrow> x = 0 \<and> a = b"
  by (induction x a b rule: CRYPTO_memcmp_loop.induct) auto

lemma memcmp_0_iff:
  "len \<le> length a \<Longrightarrow> len \<le> length b \<Longrightarrow> CRYPTO_memcmp a b len = 0 \<longleftrightarrow> take len a = take len b"
  by (simp add: CRYPTO_memcmp_def memcmp_loop_0)

end
