(* ===== verification/Cbs.thy ===== *)
theory Cbs
  imports Endian
begin

text \<open>
  \<^verbatim>\<open>crypto/bytestring/cbs.c\<close>, first part: byte-string readers. A \<^verbatim>\<open>CBS\<close> is a
  pointer into memory it never writes, and a length: the list of the bytes it covers, so
  \<^verbatim>\<open>cbs->len\<close> is the length of the list and advancing the pointer drops bytes.
  A reader takes the \<^verbatim>\<open>CBS\<close> and returns the value it stores through its out-parameter
  (\<open>None\<close> where the code returns 0) and the \<^verbatim>\<open>CBS\<close> it leaves, which is kept on failure
  too: a reader can fail after it has consumed bytes.
\<close>

type_synonym cbs = "u8 list"
type_synonym 'a reader = "cbs \<Rightarrow> 'a option \<times> cbs"

definition CBS_init :: "u8 list \<Rightarrow> nat \<Rightarrow> cbs" where
  "CBS_init data len = take len data"

definition cbs_get :: "cbs \<Rightarrow> nat \<Rightarrow> u8 list option \<times> cbs" where
  "cbs_get cbs n = (if length cbs < n then (None, cbs) else (Some (take n cbs), drop n cbs))"

definition CBS_skip :: "cbs \<Rightarrow> nat \<Rightarrow> unit option \<times> cbs" where
  "CBS_skip cbs len =
    (case cbs_get cbs len of (None, cbs) \<Rightarrow> (None, cbs) | (Some _, cbs) \<Rightarrow> (Some (), cbs))"

definition CBS_data :: "cbs \<Rightarrow> u8 list" where
  "CBS_data cbs = cbs"

definition CBS_len :: "cbs \<Rightarrow> nat" where
  "CBS_len cbs = length cbs"

text \<open>
  \<open>alloc n\<close> says whether the allocator returns memory for \<open>n\<close> bytes. \<^verbatim>\<open>CBS_stow\<close>
  gives \<^verbatim>\<open>(*out_ptr, *out_len)\<close>, with \<open>None\<close> for the null pointer.
\<close>

definition CBS_stow :: "(nat \<Rightarrow> bool) \<Rightarrow> cbs \<Rightarrow> bool \<times> u8 list option \<times> nat" where
  "CBS_stow alloc cbs =
    (if length cbs = 0 then (True, None, 0)
     else if \<not> alloc (length cbs) then (False, None, 0)
     else (True, Some cbs, length cbs))"

text \<open>\<^verbatim>\<open>OPENSSL_strndup\<close> copies up to the first NUL and adds one.\<close>

definition CBS_strdup :: "(nat \<Rightarrow> bool) \<Rightarrow> cbs \<Rightarrow> u8 list option" where
  "CBS_strdup alloc cbs =
    (let s = takeWhile (\<lambda>b. b \<noteq> 0) cbs
     in if alloc (length s + 1) then Some (s @ [0]) else None)"

definition CBS_contains_zero_byte :: "cbs \<Rightarrow> bool" where
  "CBS_contains_zero_byte cbs \<longleftrightarrow> List.member cbs 0"

definition CBS_mem_equal :: "cbs \<Rightarrow> u8 list \<Rightarrow> nat \<Rightarrow> bool" where
  "CBS_mem_equal cbs data len \<longleftrightarrow>
     (if len \<noteq> length cbs then False else CRYPTO_memcmp cbs data len = 0)"

text \<open>Big-endian integers of up to eight bytes; longer ones lose their high bits.\<close>

definition cbs_get_u :: "cbs \<Rightarrow> nat \<Rightarrow> u64 option \<times> cbs" where
  "cbs_get_u cbs len =
    (case cbs_get cbs len of
       (None, cbs) \<Rightarrow> (None, cbs)
     | (Some data, cbs) \<Rightarrow>
         (Some (foldl (\<lambda>result b. push_bit 8 result OR ucast b) 0 data), cbs))"

definition CBS_get_u8 :: "u8 reader" where
  "CBS_get_u8 cbs =
    (case cbs_get cbs 1 of (None, cbs) \<Rightarrow> (None, cbs) | (Some v, cbs) \<Rightarrow> (Some (v ! 0), cbs))"

definition CBS_get_u16 :: "u16 reader" where
  "CBS_get_u16 cbs =
    (case cbs_get_u cbs 2 of (None, cbs) \<Rightarrow> (None, cbs) | (Some v, cbs) \<Rightarrow> (Some (ucast v), cbs))"

definition CBS_get_u16le :: "u16 reader" where
  "CBS_get_u16le cbs =
    (case CBS_get_u16 cbs of
       (None, cbs) \<Rightarrow> (None, cbs) | (Some v, cbs) \<Rightarrow> (Some (CRYPTO_bswap2 v), cbs))"

definition CBS_get_u24 :: "u32 reader" where
  "CBS_get_u24 cbs =
    (case cbs_get_u cbs 3 of (None, cbs) \<Rightarrow> (None, cbs) | (Some v, cbs) \<Rightarrow> (Some (ucast v), cbs))"

definition CBS_get_u32 :: "u32 reader" where
  "CBS_get_u32 cbs =
    (case cbs_get_u cbs 4 of (None, cbs) \<Rightarrow> (None, cbs) | (Some v, cbs) \<Rightarrow> (Some (ucast v), cbs))"

definition CBS_get_u32le :: "u32 reader" where
  "CBS_get_u32le cbs =
    (case CBS_get_u32 cbs of
       (None, cbs) \<Rightarrow> (None, cbs) | (Some v, cbs) \<Rightarrow> (Some (CRYPTO_bswap4 v), cbs))"

definition CBS_get_u64 :: "u64 reader" where
  "CBS_get_u64 cbs = cbs_get_u cbs 8"

definition CBS_get_u64le :: "u64 reader" where
  "CBS_get_u64le cbs =
    (case cbs_get_u cbs 8 of
       (None, cbs) \<Rightarrow> (None, cbs) | (Some v, cbs) \<Rightarrow> (Some (CRYPTO_bswap8 v), cbs))"

definition CBS_get_last_u8 :: "u8 reader" where
  "CBS_get_last_u8 cbs =
    (if length cbs = 0 then (None, cbs)
     else (Some (cbs ! (length cbs - 1)), take (length cbs - 1) cbs))"

definition CBS_get_bytes :: "cbs \<Rightarrow> nat \<Rightarrow> cbs option \<times> cbs" where
  "CBS_get_bytes cbs len =
    (case cbs_get cbs len of
       (None, cbs) \<Rightarrow> (None, cbs) | (Some v, cbs) \<Rightarrow> (Some (CBS_init v len), cbs))"

definition CBS_copy_bytes :: "cbs \<Rightarrow> nat \<Rightarrow> u8 list option \<times> cbs" where
  "CBS_copy_bytes cbs len =
    (case cbs_get cbs len of (None, cbs) \<Rightarrow> (None, cbs) | (Some v, cbs) \<Rightarrow> (Some (take len v), cbs))"

definition cbs_get_length_prefixed :: "cbs \<Rightarrow> nat \<Rightarrow> cbs option \<times> cbs" where
  "cbs_get_length_prefixed cbs len_len =
    (case cbs_get_u cbs len_len of
       (None, cbs) \<Rightarrow> (None, cbs) | (Some len, cbs) \<Rightarrow> CBS_get_bytes cbs (unat len))"

definition CBS_get_u8_length_prefixed :: "cbs reader" where
  "CBS_get_u8_length_prefixed cbs = cbs_get_length_prefixed cbs 1"

definition CBS_get_u16_length_prefixed :: "cbs reader" where
  "CBS_get_u16_length_prefixed cbs = cbs_get_length_prefixed cbs 2"

definition CBS_get_u24_length_prefixed :: "cbs reader" where
  "CBS_get_u24_length_prefixed cbs = cbs_get_length_prefixed cbs 3"

text \<open>The offset of the first byte equal to \<open>c\<close>, as \<^verbatim>\<open>memchr\<close> finds it.\<close>

definition mem_chr :: "u8 list \<Rightarrow> u8 \<Rightarrow> nat option" where
  "mem_chr data c =
    (let i = length (takeWhile (\<lambda>b. b \<noteq> c) data) in if i < length data then Some i else None)"

definition CBS_get_until_first :: "cbs \<Rightarrow> u8 \<Rightarrow> cbs option \<times> cbs" where
  "CBS_get_until_first cbs c =
    (case mem_chr (CBS_data cbs) c of
       None \<Rightarrow> (None, cbs)
     | Some split \<Rightarrow> CBS_get_bytes cbs split)"

subsection \<open>Readers\<close>

text \<open>Results of the readers on an input that begins with what they read.\<close>
named_theorems cbs_read

lemma cbs_get_append [cbs_read]: "cbs_get (v @ s) (length v) = (Some v, s)"
  by (simp add: cbs_get_def)

lemma cbs_get_cases:
  obtains "length s < n" "cbs_get s n = (None, s)"
  | "n \<le> length s" "cbs_get s n = (Some (take n s), drop n s)"
  by (cases "length s < n") (auto simp: cbs_get_def)

lemma get_u_fold:
  "foldl (\<lambda>result b. push_bit 8 result OR ucast b) 0 bs = (of_nat (be_val bs) :: u64)"
proof (induction bs rule: rev_induct)
  case (snoc b bs)
  have "(ucast b :: u64) = of_nat (unat b)"
    by (rule word_unat_eq_iff [THEN iffD2]) (simp add: unat_of_nat take_bit_nat_eq_self_iff)
  moreover have "foldl (\<lambda>result b. push_bit 8 result OR ucast b) 0 (bs @ [b]) =
      (push_bit 8 (of_nat (be_val bs)) OR ucast b :: u64)"
    by (simp add: snoc)
  ultimately show ?case by (simp add: or_shift8 algebra_simps)
qed simp

lemma get_u_append [cbs_read]:
  "length v = n \<Longrightarrow> cbs_get_u (v @ s) n = (Some (of_nat (be_val v)), s)"
  by (auto simp: cbs_get_u_def cbs_read get_u_fold)

lemma get_u8_Cons [cbs_read]: "CBS_get_u8 (b # s) = (Some b, s)"
  by (simp add: CBS_get_u8_def cbs_get_def)

lemma get_u8_Nil [cbs_read]: "CBS_get_u8 [] = (None, [])"
  by (simp add: CBS_get_u8_def cbs_get_def)

lemma get_bytes_append [cbs_read]: "length v = n \<Longrightarrow> CBS_get_bytes (v @ s) n = (Some v, s)"
  by (auto simp: CBS_get_bytes_def cbs_read CBS_init_def)

lemma get_bytes_eq:
  "CBS_get_bytes s n = (if n \<le> length s then (Some (take n s), drop n s) else (None, s))"
  by (simp add: CBS_get_bytes_def cbs_get_def CBS_init_def)

lemma get_u_eq:
  "cbs_get_u s n =
    (if n \<le> length s then (Some (of_nat (be_val (take n s))), drop n s) else (None, s))"
  by (simp add: cbs_get_u_def cbs_get_def get_u_fold)

lemma CBS_skip_eq: "CBS_skip s n = (if n \<le> length s then (Some (), drop n s) else (None, s))"
  by (simp add: CBS_skip_def cbs_get_def)

lemma ucast_of_nat_be:
  "LENGTH('b) \<le> LENGTH('a) \<Longrightarrow> (ucast (of_nat m :: 'a::len word) :: 'b::len word) = of_nat m"
  by (rule bit_word_eqI) (auto simp: bit_simps bit_word_of_nat)

end
