(* ===== verification/Codec.thy ===== *)
theory Codec
  imports Cbs
begin

text \<open>
  The contract between a byte-string reader and the bytes the matching writer appends.
  \<open>codec\<close>: the reader gives back what was written and stops at its end. \<open>canonical\<close>:
  besides, the reader accepts nothing else, so one value has one encoding. The lemmas of
  the two locales are about the loop that reads elements until the string is empty, which
  \<^verbatim>\<open>cbb.c\<close>, \<^verbatim>\<open>cbs.c\<close> and \<^verbatim>\<open>ber.c\<close> all contain. The integer
  readers are interpreted here; ASN.1 elements, base-128 integers and code points in the
  theories that model them.
\<close>

text \<open>
  \<^verbatim>\<open>while (CBS_len(&cbs) != 0) { if (!get(&cbs, &x)) return 0; ... }\<close>, collecting
  the values read. The readers consume at least one byte, so the inner test never fails;
  it makes the loop total for every reader.
\<close>

function read_all :: "'a reader \<Rightarrow> cbs \<Rightarrow> 'a list option" where
  "read_all get s =
    (if s = [] then Some []
     else case get s of
       (None, _) \<Rightarrow> None
     | (Some x, s') \<Rightarrow>
         if length s' < length s then map_option ((#) x) (read_all get s') else None)"
  by pat_completeness auto
termination
  by (relation "measure (\<lambda>(get, s). length s)") auto

declare read_all.simps [simp del]

lemma read_all_Nil [simp]: "read_all get [] = Some []"
  by (simp add: read_all.simps)

lemma read_all_Some:
  "s \<noteq> [] \<Longrightarrow> get s = (Some x, s') \<Longrightarrow> length s' < length s \<Longrightarrow>
   read_all get s = map_option ((#) x) (read_all get s')"
  by (subst read_all.simps) simp

lemma read_all_None: "s \<noteq> [] \<Longrightarrow> get s = (None, s') \<Longrightarrow> read_all get s = None"
  by (subst read_all.simps) simp

locale codec =
  fixes enc :: "'a \<Rightarrow> u8 list"
    and get :: "'a reader"
    and ok :: "'a \<Rightarrow> bool"
  assumes get_enc: "ok x \<Longrightarrow> get (enc x @ s) = (Some x, s)"
    and enc_nonempty: "ok x \<Longrightarrow> enc x \<noteq> []"
begin

lemma read_all_enc: "list_all ok xs \<Longrightarrow> read_all get (concat (map enc xs)) = Some xs"
proof (induction xs)
  case (Cons x xs)
  then have "get (enc x @ concat (map enc xs)) = (Some x, concat (map enc xs))" "enc x \<noteq> []"
    by (auto intro: get_enc dest: enc_nonempty)
  then show ?case using Cons by (simp add: read_all_Some)
qed simp

lemma enc_prefix_free: "ok x \<Longrightarrow> ok y \<Longrightarrow> enc x @ s = enc y @ t \<Longrightarrow> x = y \<and> s = t"
  by (metis get_enc option.inject prod.inject)

lemma enc_inj: "ok x \<Longrightarrow> ok y \<Longrightarrow> enc x = enc y \<Longrightarrow> x = y"
  using enc_prefix_free [of x y "[]" "[]"] by simp

end

locale canonical = codec +
  assumes get_sound: "get s = (Some x, s') \<Longrightarrow> ok x \<and> s = enc x @ s'"
begin

lemma get_iff: "get s = (Some x, s') \<longleftrightarrow> ok x \<and> s = enc x @ s'"
  using get_sound get_enc by blast

lemma get_consumes: "get s = (Some x, s') \<Longrightarrow> length s' < length s"
  using get_sound enc_nonempty by fastforce

lemma read_all_iff: "read_all get s = Some xs \<longleftrightarrow> list_all ok xs \<and> s = concat (map enc xs)"
proof
  assume "read_all get s = Some xs"
  then show "list_all ok xs \<and> s = concat (map enc xs)"
  proof (induction "length s" arbitrary: s xs rule: less_induct)
    case less
    show ?case
    proof (cases "s = []")
      case True
      then show ?thesis using less.prems by simp
    next
      case False
      then obtain x s' ys where x: "get s = (Some x, s')" and "length s' < length s"
        and "read_all get s' = Some ys" "xs = x # ys"
        using less.prems by (subst (asm) read_all.simps) (auto split: prod.splits option.splits if_splits)
      then have "list_all ok ys \<and> s' = concat (map enc ys)" using less.hyps by blast
      then show ?thesis using get_sound [OF x] \<open>xs = x # ys\<close> by simp
    qed
  qed
next
  assume "list_all ok xs \<and> s = concat (map enc xs)"
  then show "read_all get s = Some xs" by (simp add: read_all_enc)
qed

end

subsection \<open>Integers\<close>

text \<open>The bytes of an \<open>n\<close>-byte big-endian or little-endian integer.\<close>

definition enc_be :: "nat \<Rightarrow> 'a::len word \<Rightarrow> u8 list" where
  "enc_be n v = be_bytes n (unat v)"

definition enc_le :: "nat \<Rightarrow> 'a::len word \<Rightarrow> u8 list" where
  "enc_le n v = rev (be_bytes n (unat v))"

lemma length_enc [simp]: "length (enc_be n v) = n" "length (enc_le n v) = n"
  by (simp_all add: enc_be_def enc_le_def)

lemma val_enc_be:
  "unat v < 256 ^ n \<Longrightarrow> of_nat (be_val (enc_be n (v :: 'a::len word))) = (v :: 'a word)"
  by (simp add: enc_be_def be_val_be_bytes)

lemma enc_be_val: "length bs = n \<Longrightarrow> be_val bs < 2 ^ LENGTH('a) \<Longrightarrow>
   enc_be n (of_nat (be_val bs) :: 'a::len word) = bs"
  by (auto simp: enc_be_def unat_of_nat_small be_bytes_be_val)

text \<open>One lemma for all the integer readers built on \<^verbatim>\<open>cbs_get_u\<close>.\<close>

lemma canonical_be:
  fixes get :: "'a::len word reader"
  assumes get: "\<And>s. get s = (case cbs_get_u s n of (None, s) \<Rightarrow> (None, s) | (Some v, s) \<Rightarrow> (Some (ucast v), s))"
    and n: "0 < n" "n \<le> 8" "8 * n \<le> LENGTH('a)" "LENGTH('a) \<le> 64"
  shows "canonical (enc_be n) get (\<lambda>v. unat v < 256 ^ n)"
proof
  show "enc_be n v \<noteq> []" for v :: "'a word" using n by (simp flip: length_greater_0_conv)
next
  fix v :: "'a word" and s
  assume "unat v < 256 ^ n"
  then show "get (enc_be n v @ s) = (Some v, s)"
    using n by (simp add: get get_u_append ucast_of_nat_be val_enc_be)
next
  fix s s' and v :: "'a word"
  assume "get s = (Some v, s')"
  then have len: "n \<le> length s" and v: "v = of_nat (be_val (take n s))" and s': "s' = drop n s"
    using n by (auto simp: get get_u_eq ucast_of_nat_be split: if_splits)
  have "be_val (take n s) < 256 ^ n" using be_val_bound [of "take n s"] len by simp
  moreover have "(256 :: nat) ^ n = 2 ^ (8 * n)" by (simp add: power_mult)
  moreover have "(2 :: nat) ^ (8 * n) \<le> 2 ^ LENGTH('a)" using n by simp
  ultimately have bound: "be_val (take n s) < 256 ^ n" "be_val (take n s) < 2 ^ LENGTH('a)"
    by linarith+
  then have "unat v < 256 ^ n" by (simp add: v unat_of_nat_small)
  moreover have "enc_be n v = take n s" using len bound by (simp add: v enc_be_val)
  ultimately show "unat v < 256 ^ n \<and> s = enc_be n v @ s'" by (simp add: s')
qed

interpretation u8: canonical "enc_be 1" CBS_get_u8 "\<lambda>v :: u8. unat v < 256 ^ 1"
  by (rule canonical_be) (auto simp: CBS_get_u8_def cbs_get_u_def cbs_get_def take_Suc hd_conv_nth neq_Nil_conv)

interpretation u16: canonical "enc_be 2" CBS_get_u16 "\<lambda>v :: u16. unat v < 256 ^ 2"
  by (rule canonical_be) (auto simp: CBS_get_u16_def)

interpretation u24: canonical "enc_be 3" CBS_get_u24 "\<lambda>v :: u32. unat v < 256 ^ 3"
  by (rule canonical_be) (auto simp: CBS_get_u24_def)

interpretation u32: canonical "enc_be 4" CBS_get_u32 "\<lambda>v :: u32. unat v < 256 ^ 4"
  by (rule canonical_be) (auto simp: CBS_get_u32_def)

interpretation u64: canonical "enc_be 8" CBS_get_u64 "\<lambda>v :: u64. unat v < 256 ^ 8"
  by (rule canonical_be) (auto simp: CBS_get_u64_def split: prod.splits option.splits)

text \<open>Little-endian: the big-endian read followed by a byte swap.\<close>

lemma canonical_le:
  fixes get :: "'a::len word reader"
  assumes get: "\<And>s. get s = (if n \<le> length s then (Some (of_nat (le_val (take n s))), drop n s)
      else (None, s))"
    and n: "8 * n = LENGTH('a)" "0 < n"
  shows "canonical (enc_le n) get (\<lambda>_. True)"
proof
  have pow: "(256 :: nat) ^ n = 2 ^ LENGTH('a)" using n by (simp add: power_mult flip: n(1))
  show "enc_le n v \<noteq> []" for v :: "'a word" using n by (simp flip: length_greater_0_conv)
  show "get (enc_le n v @ s) = (Some v, s)" for v :: "'a word" and s
    using n by (simp add: get enc_le_def le_val_def of_nat_be_bytes)
  fix s s' and v :: "'a word"
  assume "get s = (Some v, s')"
  then have len: "n \<le> length s" and v: "v = of_nat (le_val (take n s))" and s': "s' = drop n s"
    by (auto simp: get split: if_splits)
  have "be_val (rev (take n s)) < 2 ^ LENGTH('a)"
    using be_val_bound [of "rev (take n s)"] len by (simp add: pow min_absorb2)
  then have "enc_le n v = take n s"
    using len be_bytes_be_val [of "rev (take n s)"]
    by (simp add: v enc_le_def le_val_def unat_of_nat_small min_absorb2)
  then show "True \<and> s = enc_le n v @ s'" by (simp add: s')
qed

interpretation u16le: canonical "enc_le 2" CBS_get_u16le "\<lambda>_. True"
  by (rule canonical_le)
    (auto simp: CBS_get_u16le_def CBS_get_u16_def get_u_eq ucast_of_nat_be bswap2_of_be)

interpretation u32le: canonical "enc_le 4" CBS_get_u32le "\<lambda>_. True"
  by (rule canonical_le)
    (auto simp: CBS_get_u32le_def CBS_get_u32_def get_u_eq ucast_of_nat_be bswap4_of_be)

interpretation u64le: canonical "enc_le 8" CBS_get_u64le "\<lambda>_. True"
  by (rule canonical_le) (auto simp: CBS_get_u64le_def get_u_eq bswap8_of_be)

end
