(* ===== verification/Cbs_Asn1.thy ===== *)
theory Cbs_Asn1
  imports Codec
begin

text \<open>
  \<^verbatim>\<open>crypto/bytestring/cbs.c\<close>, second part: the ASN.1 readers. A tag is the 32-bit
  \<^verbatim>\<open>unsigned\<close> of \<^verbatim>\<open>bytestring.h\<close>: class and constructed bits at the top, the
  tag number below. A null out-parameter only drops part of the result, so the model always
  returns it.
\<close>

subsection \<open>Tags\<close>

definition CBS_ASN1_TAG_SHIFT :: nat where "CBS_ASN1_TAG_SHIFT = 24"
definition CBS_ASN1_CONSTRUCTED :: u32 where "CBS_ASN1_CONSTRUCTED = 0x20000000"
definition CBS_ASN1_TAG_NUMBER_MASK :: u32 where "CBS_ASN1_TAG_NUMBER_MASK = 0x1fffffff"
definition CBS_ASN1_BOOLEAN :: u32 where "CBS_ASN1_BOOLEAN = 0x1"
definition CBS_ASN1_INTEGER :: u32 where "CBS_ASN1_INTEGER = 0x2"
definition CBS_ASN1_OCTETSTRING :: u32 where "CBS_ASN1_OCTETSTRING = 0x4"

text \<open>The loop of \<^verbatim>\<open>parse_base128_integer\<close>: \<open>v\<close> is the value so far.\<close>

fun parse_base128_loop :: "u64 \<Rightarrow> cbs \<Rightarrow> u64 option \<times> cbs" where
  "parse_base128_loop v [] = (None, [])"
| "parse_base128_loop v (b # s) =
    (if drop_bit (64 - 7) v \<noteq> 0 then (None, s)
     else if v = 0 \<and> b = 0x80 then (None, s)
     else let v = push_bit 7 v OR ucast (b AND 0x7f)
          in if b AND 0x80 \<noteq> 0 then parse_base128_loop v s else (Some v, s))"

definition parse_base128_integer :: "u64 reader" where
  "parse_base128_integer cbs = parse_base128_loop 0 cbs"

definition parse_asn1_tag :: "u32 reader" where
  "parse_asn1_tag cbs =
    (case CBS_get_u8 cbs of
       (None, cbs) \<Rightarrow> (None, cbs)
     | (Some tag_byte, cbs) \<Rightarrow>
         let tag = push_bit CBS_ASN1_TAG_SHIFT (ucast tag_byte AND 0xe0);
             tag_number = ucast (tag_byte AND 0x1f) :: u32
         in if tag_number = 0x1f then
              (case parse_base128_integer cbs of
                 (None, cbs) \<Rightarrow> (None, cbs)
               | (Some v, cbs) \<Rightarrow>
                   if v > ucast CBS_ASN1_TAG_NUMBER_MASK \<or> v < 0x1f then (None, cbs)
                   else (Some (tag OR ucast v), cbs))
            else (Some (tag OR tag_number), cbs))"

subsection \<open>Elements\<close>

text \<open>What an element reader reports: the whole element, its tag, its header length, and
  whether BER-only syntax was seen.\<close>

record asn1_element =
  el_bytes :: cbs
  el_tag :: u32
  el_header_len :: nat
  el_ber_found :: bool

text \<open>\<^verbatim>\<open>return CBS_get_bytes(cbs, out, len)\<close>, with the other out-parameters.\<close>

definition take_element ::
    "cbs \<Rightarrow> nat \<Rightarrow> u32 \<Rightarrow> nat \<Rightarrow> bool \<Rightarrow> asn1_element option \<times> cbs" where
  "take_element cbs len tag header_len ber_found =
    (case CBS_get_bytes cbs len of
       (None, cbs) \<Rightarrow> (None, cbs)
     | (Some out, cbs) \<Rightarrow>
         (Some \<lparr>el_bytes = out, el_tag = tag, el_header_len = header_len,
                el_ber_found = ber_found\<rparr>, cbs))"

text \<open>The header is read from a copy, so an error leaves \<open>cbs\<close> as it was.\<close>

definition cbs_get_any_asn1_element :: "cbs \<Rightarrow> bool \<Rightarrow> asn1_element option \<times> cbs" where
  "cbs_get_any_asn1_element cbs ber_ok =
    (case parse_asn1_tag cbs of
       (None, _) \<Rightarrow> (None, cbs)
     | (Some tag, header) \<Rightarrow>
        (case CBS_get_u8 header of
           (None, _) \<Rightarrow> (None, cbs)
         | (Some length_byte, header) \<Rightarrow>
             let header_len = CBS_len cbs - CBS_len header
             in if length_byte AND 0x80 = 0 then
                  take_element cbs (unat length_byte + header_len) tag header_len False
                else
                  let num_bytes = unat (length_byte AND 0x7f)
                  in if ber_ok \<and> tag AND CBS_ASN1_CONSTRUCTED \<noteq> 0 \<and> num_bytes = 0 then
                       take_element cbs header_len tag header_len True
                     else if num_bytes = 0 \<or> 4 < num_bytes then (None, cbs)
                     else (case cbs_get_u header num_bytes of
                         (None, _) \<Rightarrow> (None, cbs)
                       | (Some len64, header) \<Rightarrow>
                           let long = len64 < 128;
                               padded = drop_bit ((num_bytes - 1) * 8) len64 = 0
                           in if (long \<or> padded) \<and> \<not> ber_ok then (None, cbs)
                              else
                                let len = unat len64
                                in if size_add (size_add len header_len) num_bytes < len then (None, cbs)
                                   else take_element cbs (size_add len (size_add header_len num_bytes)) tag
                                          (header_len + num_bytes) (long \<or> padded))))"

definition CBS_get_any_asn1_element :: "cbs \<Rightarrow> asn1_element option \<times> cbs" where
  "CBS_get_any_asn1_element cbs = cbs_get_any_asn1_element cbs False"

definition CBS_get_any_ber_asn1_element :: "cbs \<Rightarrow> asn1_element option \<times> cbs" where
  "CBS_get_any_ber_asn1_element cbs = cbs_get_any_asn1_element cbs True"

text \<open>The contents and the tag.\<close>

definition CBS_get_any_asn1 :: "cbs \<Rightarrow> (cbs \<times> u32) option \<times> cbs" where
  "CBS_get_any_asn1 cbs =
    (case CBS_get_any_asn1_element cbs of
       (None, cbs) \<Rightarrow> (None, cbs)
     | (Some e, cbs) \<Rightarrow>
         (case CBS_skip (el_bytes e) (el_header_len e) of
            (None, _) \<Rightarrow> (None, cbs)
          | (Some _, out) \<Rightarrow> (Some (out, el_tag e), cbs)))"

definition cbs_get_asn1 :: "cbs \<Rightarrow> u32 \<Rightarrow> bool \<Rightarrow> cbs option \<times> cbs" where
  "cbs_get_asn1 cbs tag_value skip_header =
    (case CBS_get_any_asn1_element cbs of
       (None, cbs) \<Rightarrow> (None, cbs)
     | (Some e, cbs) \<Rightarrow>
         if el_tag e \<noteq> tag_value then (None, cbs)
         else if skip_header then
           (case CBS_skip (el_bytes e) (el_header_len e) of
              (None, _) \<Rightarrow> (None, cbs)
            | (Some _, out) \<Rightarrow> (Some out, cbs))
         else (Some (el_bytes e), cbs))"

definition CBS_get_asn1 :: "cbs \<Rightarrow> u32 \<Rightarrow> cbs option \<times> cbs" where
  "CBS_get_asn1 cbs tag_value = cbs_get_asn1 cbs tag_value True"

definition CBS_get_asn1_element :: "cbs \<Rightarrow> u32 \<Rightarrow> cbs option \<times> cbs" where
  "CBS_get_asn1_element cbs tag_value = cbs_get_asn1 cbs tag_value False"

definition CBS_peek_asn1_tag :: "cbs \<Rightarrow> u32 \<Rightarrow> bool" where
  "CBS_peek_asn1_tag cbs tag_value \<longleftrightarrow>
    (if CBS_len cbs < 1 then False
     else case parse_asn1_tag cbs of
       (None, _) \<Rightarrow> False
     | (Some actual_tag, _) \<Rightarrow> tag_value = actual_tag)"

subsection \<open>Integers, booleans, bit strings\<close>

text \<open>\<open>None\<close>: not a valid DER INTEGER body; otherwise whether it is negative.\<close>

definition CBS_is_valid_asn1_integer :: "cbs \<Rightarrow> bool option" where
  "CBS_is_valid_asn1_integer cbs =
    (case CBS_get_u8 cbs of
       (None, _) \<Rightarrow> None
     | (Some first_byte, copy) \<Rightarrow>
         let is_negative = first_byte AND 0x80 \<noteq> 0
         in case CBS_get_u8 copy of
              (None, _) \<Rightarrow> Some is_negative
            | (Some second_byte, _) \<Rightarrow>
                if first_byte = 0x00 \<and> second_byte AND 0x80 = 0 \<or>
                   first_byte = 0xff \<and> second_byte AND 0x80 \<noteq> 0 then None
                else Some is_negative)"

definition CBS_is_unsigned_asn1_integer :: "cbs \<Rightarrow> bool" where
  "CBS_is_unsigned_asn1_integer cbs \<longleftrightarrow>
    (case CBS_is_valid_asn1_integer cbs of None \<Rightarrow> False | Some is_negative \<Rightarrow> \<not> is_negative)"

fun get_uint64_loop :: "u64 \<Rightarrow> u8 list \<Rightarrow> u64 option" where
  "get_uint64_loop out [] = Some out"
| "get_uint64_loop out (b # bs) =
    (if drop_bit 56 out \<noteq> 0 then None else get_uint64_loop (push_bit 8 out OR ucast b) bs)"

definition CBS_get_asn1_uint64 :: "u64 reader" where
  "CBS_get_asn1_uint64 cbs =
    (case CBS_get_asn1 cbs CBS_ASN1_INTEGER of
       (None, cbs) \<Rightarrow> (None, cbs)
     | (Some bytes, cbs) \<Rightarrow>
         if \<not> CBS_is_unsigned_asn1_integer bytes then (None, cbs)
         else (get_uint64_loop 0 bytes, cbs))"

text \<open>The union of an \<^verbatim>\<open>int64_t\<close> and its eight bytes, sign-extended, then the
  content bytes from the last.\<close>

definition sign_extended :: "bool \<Rightarrow> cbs \<Rightarrow> u64" where
  "sign_extended is_negative bytes =
    (let u = replicate 8 (if is_negative then 0xff else 0);
         u = blit u 0 (rev bytes)
     in word_of_mem u)"

definition CBS_get_asn1_int64 :: "u64 reader" where
  "CBS_get_asn1_int64 cbs =
    (case CBS_get_asn1 cbs CBS_ASN1_INTEGER of
       (None, cbs) \<Rightarrow> (None, cbs)
     | (Some bytes, cbs) \<Rightarrow>
         (case CBS_is_valid_asn1_integer bytes of
            None \<Rightarrow> (None, cbs)
          | Some is_negative \<Rightarrow>
              if 8 < CBS_len bytes then (None, cbs)
              else (Some (sign_extended is_negative bytes), cbs)))"

definition CBS_get_asn1_bool :: "bool reader" where
  "CBS_get_asn1_bool cbs =
    (case CBS_get_asn1 cbs CBS_ASN1_BOOLEAN of
       (None, cbs) \<Rightarrow> (None, cbs)
     | (Some bytes, cbs) \<Rightarrow>
         if CBS_len bytes \<noteq> 1 then (None, cbs)
         else
           let value = bytes ! 0
           in if value \<noteq> 0 \<and> value \<noteq> 0xff then (None, cbs) else (Some (value \<noteq> 0), cbs))"

definition CBS_is_valid_asn1_bitstring :: "cbs \<Rightarrow> bool" where
  "CBS_is_valid_asn1_bitstring cbs \<longleftrightarrow>
    (case CBS_get_u8 cbs of
       (None, _) \<Rightarrow> False
     | (Some num_unused_bits, inp) \<Rightarrow>
         if 7 < num_unused_bits then False
         else if num_unused_bits = 0 then True
         else (case CBS_get_last_u8 inp of
             (None, _) \<Rightarrow> False
           | (Some last_byte, _) \<Rightarrow> last_byte AND (push_bit (unat num_unused_bits) 1 - 1) = 0))"

definition CBS_asn1_bitstring_has_bit :: "cbs \<Rightarrow> u32 \<Rightarrow> bool" where
  "CBS_asn1_bitstring_has_bit cbs n \<longleftrightarrow>
    (if \<not> CBS_is_valid_asn1_bitstring cbs then False
     else
       let byte_num = unat (drop_bit 3 n + 1); bit_num = 7 - unat (n AND 7)
       in byte_num < CBS_len cbs \<and> (cbs ! byte_num) AND push_bit bit_num 1 \<noteq> 0)"

subsection \<open>Optional elements\<close>

text \<open>The result: the element's contents when it is present, \<open>None\<close> when it is not.\<close>

definition CBS_get_optional_asn1 :: "cbs \<Rightarrow> u32 \<Rightarrow> cbs option option \<times> cbs" where
  "CBS_get_optional_asn1 cbs tag =
    (if CBS_peek_asn1_tag cbs tag then
       (case CBS_get_asn1 cbs tag of
          (None, cbs) \<Rightarrow> (None, cbs)
        | (Some out, cbs) \<Rightarrow> (Some (Some out), cbs))
     else (Some None, cbs))"

text \<open>The contents (empty when absent) and whether it was present.\<close>

definition CBS_get_optional_asn1_octet_string :: "cbs \<Rightarrow> u32 \<Rightarrow> (cbs \<times> bool) option \<times> cbs" where
  "CBS_get_optional_asn1_octet_string cbs tag =
    (case CBS_get_optional_asn1 cbs tag of
       (None, cbs) \<Rightarrow> (None, cbs)
     | (Some None, cbs) \<Rightarrow> (Some ([], False), cbs)
     | (Some (Some child), cbs) \<Rightarrow>
         (case CBS_get_asn1 child CBS_ASN1_OCTETSTRING of
            (None, _) \<Rightarrow> (None, cbs)
          | (Some out, child) \<Rightarrow>
              if CBS_len child \<noteq> 0 then (None, cbs) else (Some (out, True), cbs)))"

definition CBS_get_optional_asn1_uint64 :: "cbs \<Rightarrow> u32 \<Rightarrow> u64 \<Rightarrow> u64 option \<times> cbs" where
  "CBS_get_optional_asn1_uint64 cbs tag default_value =
    (case CBS_get_optional_asn1 cbs tag of
       (None, cbs) \<Rightarrow> (None, cbs)
     | (Some None, cbs) \<Rightarrow> (Some default_value, cbs)
     | (Some (Some child), cbs) \<Rightarrow>
         (case CBS_get_asn1_uint64 child of
            (None, _) \<Rightarrow> (None, cbs)
          | (Some out, child) \<Rightarrow> if CBS_len child \<noteq> 0 then (None, cbs) else (Some out, cbs)))"

definition CBS_get_optional_asn1_bool :: "cbs \<Rightarrow> u32 \<Rightarrow> int \<Rightarrow> int option \<times> cbs" where
  "CBS_get_optional_asn1_bool cbs tag default_value =
    (case CBS_get_optional_asn1 cbs tag of
       (None, cbs) \<Rightarrow> (None, cbs)
     | (Some None, cbs) \<Rightarrow> (Some default_value, cbs)
     | (Some (Some child), cbs) \<Rightarrow>
         (case CBS_get_asn1 child CBS_ASN1_BOOLEAN of
            (None, _) \<Rightarrow> (None, cbs)
          | (Some child2, child) \<Rightarrow>
              if CBS_len child2 \<noteq> 1 \<or> CBS_len child \<noteq> 0 then (None, cbs)
              else
                let boolean = child2 ! 0
                in if boolean = 0 then (Some 0, cbs)
                   else if boolean = 0xff then (Some 1, cbs)
                   else (None, cbs)))"

subsection \<open>Base-128 integers\<close>

text \<open>The digits before the last carry the continuation bit; zero has no such digit.\<close>

function base128_high :: "nat \<Rightarrow> u8 list" where
  "base128_high n = (if n = 0 then [] else base128_high (n div 128) @ [of_nat (128 + n mod 128)])"
  by pat_completeness auto
termination
  by (relation "measure id") auto

declare base128_high.simps [simp del]

definition enc_base128 :: "nat \<Rightarrow> u8 list" where
  "enc_base128 n = base128_high (n div 128) @ [of_nat (n mod 128)]"

lemma base128_high_0 [simp]: "base128_high 0 = []"
  by (simp add: base128_high.simps)

lemma base128_high_step:
  "b = v mod 128 \<Longrightarrow> v \<noteq> 0 \<Longrightarrow> base128_high v = base128_high (v div 128) @ [of_nat (128 + b)]"
  by (subst base128_high.simps) simp

lemma base128_next:
  assumes "drop_bit (64 - 7) v = 0"
  shows "unat (push_bit 7 v OR ucast (b AND 0x7f :: u8) :: u64) = unat v * 128 + unat b mod 128"
proof -
  have v: "unat v < 2 ^ 57" using assms drop_bit_eq_0_iff [of 57 v] by simp
  moreover have "unat b mod 128 < 128" by simp
  ultimately have "unat v * 128 + unat b mod 128 < 2 ^ 64" by simp
  moreover have "(v * 128 + of_nat (unat b mod 128) :: u64) = of_nat (unat v * 128 + unat b mod 128)"
    by simp
  ultimately show ?thesis
    unfolding or_shift7 using unat_of_nat_small [of "unat v * 128 + unat b mod 128", where ?'a = 64]
    by (simp only:) simp
qed

lemma u8_of_nat_high: "128 \<le> unat b \<Longrightarrow> of_nat (128 + unat b mod 128) = (b :: u8)"
proof -
  assume "128 \<le> unat b"
  then have "128 + unat b mod 128 = unat b"
    using unat_u8_lt [of b] by (simp add: le_mod_geq del: unat_u8_lt)
  then show ?thesis by (simp only: of_nat_unat ucast_id)
qed

lemma parse_base128_loop_sound:
  "parse_base128_loop v s = (Some r, s') \<Longrightarrow>
   \<exists>p. s = p @ s' \<and> enc_base128 (unat r) = base128_high (unat v) @ p"
proof (induction v s rule: parse_base128_loop.induct)
  case (1 v)
  then show ?case by simp
next
  case (2 v b s)
  let ?v = "push_bit 7 v OR ucast (b AND 0x7f) :: u64"
  have small: "drop_bit (64 - 7) v = 0" and lead: "\<not> (v = 0 \<and> b = 0x80)"
    using "2.prems" by (auto split: if_splits)
  have val: "unat ?v = unat v * 128 + unat b mod 128" by (rule base128_next [OF small])
  then have dm: "unat ?v div 128 = unat v" "unat ?v mod 128 = unat b mod 128" by simp_all
  show ?case
  proof (cases "b AND 0x80 = 0")
    case True
    then have "unat b < 128" by (simp add: u8_and_80)
    then have "enc_base128 (unat ?v) = base128_high (unat v) @ [b]"
      by (simp only: enc_base128_def dm mod_less) simp
    moreover have "r = ?v" "s' = s" using "2.prems" small lead True
      by (auto simp: Let_def split: if_splits)
    ultimately show ?thesis by (intro exI [of _ "[b]"]) simp
  next
    case False
    then have b: "128 \<le> unat b" by (simp add: u8_and_80)
    have "parse_base128_loop ?v s = (Some r, s')"
      using "2.prems" small lead False by (auto simp: Let_def split: if_splits)
    then obtain p where p: "s = p @ s'" "enc_base128 (unat r) = base128_high (unat ?v) @ p"
      using "2.IH" [OF _ _ refl] small lead False by auto
    have "unat ?v \<noteq> 0"
    proof
      assume "unat ?v = 0"
      then have "unat v = 0" "unat b mod 128 = 0" using val by simp_all
      then have "v = 0" "b = 0x80"
        using b u8_of_nat_high [of b] by (simp_all add: unat_eq_zero)
      with lead show False by simp
    qed
    then have "base128_high (unat ?v) = base128_high (unat v) @ [b]"
      using u8_of_nat_high [OF b] by (subst base128_high.simps) (simp only: dm if_False)
    with p show ?thesis by (intro exI [of _ "b # p"]) simp
  qed
qed

lemma u8_128: "unat (0x80 :: u8) = 128"
  by simp

lemma parse_base128_high:
  "n < 2 ^ 57 \<Longrightarrow> parse_base128_loop 0 (base128_high n @ s) = parse_base128_loop (of_nat n) s"
proof (induction n arbitrary: s rule: base128_high.induct)
  case (1 n)
  show ?case
  proof (cases "n = 0")
    case False
    let ?v = "of_nat (n div 128) :: u64" and ?b = "of_nat (128 + n mod 128) :: u8"
    have ub: "unat ?b = 128 + n mod 128" by (simp only: unat_of_nat_u8) simp
    have uv: "unat ?v = n div 128" using "1.prems" by (simp add: unat_of_nat_small)
    have "parse_base128_loop 0 (base128_high n @ s) = parse_base128_loop ?v (?b # s)"
      using False 1 by (subst base128_high.simps) simp
    moreover have small: "drop_bit (64 - 7) ?v = 0"
      using "1.prems" by (simp add: drop_bit_eq_0_iff uv)
    moreover have "\<not> (?v = 0 \<and> ?b = 0x80)"
    proof
      assume "?v = 0 \<and> ?b = 0x80"
      then have "unat ?v = 0" "unat ?b = 128" by (metis unat_0, metis u8_128)
      then have "n div 128 = 0" "n mod 128 = 0" using uv ub by simp_all
      then show False using False by (metis div_mult_mod_eq mult_0 add_0)
    qed
    moreover have "?b AND 0x80 \<noteq> 0" unfolding u8_and_80 ub by simp
    moreover have "push_bit 7 ?v OR ucast (?b AND 0x7f) = (of_nat n :: u64)"
      using base128_next [OF small, of ?b] "1.prems"
      by (intro word_unat_eq_iff [THEN iffD2])
        (simp only: uv ub unat_of_nat_small, simp add: unat_of_nat_small)
    ultimately show ?thesis by (simp only: parse_base128_loop.simps Let_def if_False if_True simp_thms)
  qed simp
qed

lemma parse_base128_complete:
  assumes "n < 2 ^ 64"
  shows "parse_base128_integer (enc_base128 n @ s) = (Some (of_nat n), s)"
proof -
  let ?v = "of_nat (n div 128) :: u64" and ?b = "of_nat (n mod 128) :: u8"
  have uv: "unat ?v = n div 128" using assms by (simp add: unat_of_nat_small)
  have ub: "unat ?b = n mod 128" by simp
  have small: "drop_bit (64 - 7) ?v = 0" using assms by (simp add: drop_bit_eq_0_iff uv)
  have "?b AND 0x80 = 0" unfolding u8_and_80 ub by simp
  moreover have "?b \<noteq> 0x80" using ub by (auto simp: word_unat_eq_iff)
  moreover have "push_bit 7 ?v OR ucast (?b AND 0x7f) = (of_nat n :: u64)"
    using base128_next [OF small, of ?b] assms
    by (intro word_unat_eq_iff [THEN iffD2])
      (simp only: uv ub, simp add: unat_of_nat_small)
  ultimately have "parse_base128_loop ?v (?b # s) = (Some (of_nat n), s)"
    using small by (simp only: parse_base128_loop.simps Let_def if_False if_True simp_thms)
  moreover have "parse_base128_loop 0 (base128_high (n div 128) @ ?b # s) = parse_base128_loop ?v (?b # s)"
    using assms by (intro parse_base128_high) simp
  ultimately show ?thesis by (simp add: parse_base128_integer_def enc_base128_def)
qed

lemma enc_base128_nonempty [simp]: "enc_base128 n \<noteq> []"
  by (simp add: enc_base128_def)

interpretation base128: canonical "\<lambda>v :: u64. enc_base128 (unat v)" parse_base128_integer "\<lambda>_. True"
proof
  show "parse_base128_integer (enc_base128 (unat v) @ s) = (Some v, s)" for v s
    using parse_base128_complete [of "unat v" s] unsigned_less [of v, where ?'a = nat] by simp
  show "True \<and> s = enc_base128 (unat v) @ s'" if "parse_base128_integer s = (Some v, s')" for s v s'
    using parse_base128_loop_sound [of 0 s v s'] that by (auto simp: parse_base128_integer_def)
qed simp

subsection \<open>Tags\<close>

text \<open>The identifier octets of a tag, as \<^verbatim>\<open>CBB_add_asn1\<close> writes them.\<close>

definition enc_tag :: "u32 \<Rightarrow> u8 list" where
  "enc_tag tag =
    (let tag_bits = ucast (drop_bit CBS_ASN1_TAG_SHIFT tag) AND 0xe0 :: u8;
         tag_number = tag AND CBS_ASN1_TAG_NUMBER_MASK
     in if 0x1f \<le> tag_number then (tag_bits OR 0x1f) # enc_base128 (unat tag_number)
        else [tag_bits OR ucast tag_number])"

definition tag_join :: "u8 \<Rightarrow> u32 \<Rightarrow> u32" where
  "tag_join b n = push_bit 24 (ucast b AND 0xe0) OR n"

lemma tag_masks:
  "(0xe0 :: u8) = push_bit 5 (mask 3)" "(0xe0 :: u32) = push_bit 5 (mask 3)"
  "(0x1f :: u8) = mask 5" "(0x1fffffff :: u32) = mask 29"
  by (simp_all add: mask_eq_exp_minus_1)

lemma tag_byte_split: "((b :: u8) AND 0xe0) OR (b AND 0x1f) = b"
  unfolding tag_masks by (rule bit_word_eqI) (auto simp: bit_simps)

lemma tag_join_number: "take_bit 29 n = n \<Longrightarrow> tag_join b n AND 0x1fffffff = n"
proof -
  assume "take_bit 29 n = n"
  then have "bit n i \<Longrightarrow> i < 29" for i by (metis bit_take_bit_iff)
  then show ?thesis unfolding tag_join_def tag_masks
    by (intro bit_word_eqI) (auto simp: bit_simps)
qed

lemma tag_join_bits:
  "take_bit 29 n = n \<Longrightarrow> ucast (drop_bit 24 (tag_join b n)) AND 0xe0 = b AND 0xe0"
proof -
  assume "take_bit 29 n = n"
  then have "bit n i \<Longrightarrow> i < 29" for i by (metis bit_take_bit_iff)
  then have "\<not> bit n (24 + i)" if "5 \<le> i" for i using that by fastforce
  then show ?thesis unfolding tag_join_def tag_masks
    by (intro bit_word_eqI) (auto simp: bit_simps)
qed

lemma tag_join_split:
  fixes t :: u32 and x :: u8
  assumes "take_bit 5 x = x"
  shows "tag_join ((ucast (drop_bit 24 t) AND 0xe0) OR x) (t AND 0x1fffffff) = t"
proof -
  have "bit x i \<Longrightarrow> i < 5" for i using assms by (metis bit_take_bit_iff)
  then have x: "\<not> bit x i" if "5 \<le> i" for i using that by fastforce
  show ?thesis unfolding tag_join_def tag_masks
    by (intro bit_word_eqI) (auto simp: bit_simps x dest: bit_imp_le_length)
qed

lemma tag_byte_low:
  fixes x y :: u8
  assumes "take_bit 5 x = x"
  shows "((y AND 0xe0) OR x) AND 0x1f = x"
proof -
  have "bit x i \<Longrightarrow> i < 5" for i using assms by (metis bit_take_bit_iff)
  then show ?thesis unfolding tag_masks by (intro bit_word_eqI) (auto simp: bit_simps)
qed

lemma take_bit_self_iff: "take_bit n w = (w :: 'a::len word) \<longleftrightarrow> unat w < 2 ^ n"
proof -
  have "take_bit n w = w \<longleftrightarrow> unat w mod 2 ^ n = unat w"
    by (simp add: word_unat_eq_iff)
  also have "\<dots> \<longleftrightarrow> unat w < 2 ^ n" by (simp add: mod_eq_self_iff_div_eq_0 div_eq_0_iff)
  finally show ?thesis .
qed

lemma parse_tag_complete: "parse_asn1_tag (enc_tag t @ s) = (Some t, s)"
proof -
  let ?bits = "ucast (drop_bit 24 t) AND 0xe0 :: u8" and ?n = "t AND 0x1fffffff"
  have n: "take_bit 29 ?n = ?n" by (simp add: take_bit_eq_mask mask_eq_exp_minus_1 ac_simps)
  then have bound: "unat ?n < 2 ^ 29" by (simp only: take_bit_self_iff)
  show ?thesis
  proof (cases "0x1f \<le> ?n")
    case True
    let ?b = "?bits OR 0x1f"
    have low: "?b AND 0x1f = 0x1f" by (rule tag_byte_low) simp
    have "(of_nat (unat ?n) :: u64) \<le> ucast (0x1fffffff :: u32)" "\<not> (of_nat (unat ?n) :: u64) < 0x1f"
      using bound True by (simp_all add: word_nat_arith unat_of_nat_small)
    moreover have "(ucast (of_nat (unat ?n) :: u64) :: u32) = ?n"
      by (simp add: ucast_of_nat_be)
    moreover have "tag_join ?b ?n = t" by (rule tag_join_split) simp
    ultimately show ?thesis using True low bound
      by (simp add: enc_tag_def Let_def CBS_ASN1_TAG_SHIFT_def CBS_ASN1_TAG_NUMBER_MASK_def
          parse_asn1_tag_def get_u8_Cons parse_base128_complete not_less tag_join_def)
  next
    case False
    let ?x = "ucast ?n :: u8"
    have "unat ?n < 31" using False by (simp add: word_nat_arith)
    then have "unat ?x = unat ?n"
      by (simp add: unsigned_ucast_eq take_bit_nat_eq_self_iff)
    with \<open>unat ?n < 31\<close> have x: "unat ?x = unat ?n" "take_bit 5 ?x = ?x" "unat ?x < 31"
      by (simp_all only: take_bit_self_iff) simp_all
    have low: "(?bits OR ?x) AND 0x1f = ?x" using x(2) by (rule tag_byte_low)
    have "(ucast ?x :: u32) \<noteq> 0x1f"
      using x(3) by (auto simp: word_unat_eq_iff)
    moreover have "(ucast ?x :: u32) = ?n" using x(1) by (simp add: word_unat_eq_iff)
    moreover have "tag_join (?bits OR ?x) ?n = t" using x(2) by (rule tag_join_split)
    ultimately show ?thesis using False low
      by (simp add: enc_tag_def Let_def CBS_ASN1_TAG_SHIFT_def CBS_ASN1_TAG_NUMBER_MASK_def
          parse_asn1_tag_def get_u8_Cons tag_join_def)
  qed
qed

lemma parse_tag_sound:
  assumes "parse_asn1_tag s = (Some t, s')"
  shows "s = enc_tag t @ s'"
proof -
  obtain b r where s: "s = b # r"
    using assms by (cases s) (auto simp: parse_asn1_tag_def get_u8_Nil)
  have low: "unat (b AND 0x1f) < 32"
    unfolding tag_masks by (simp flip: take_bit_eq_mask)
  show ?thesis
  proof (cases "b AND 0x1f = 0x1f")
    case True
    then obtain v where v: "parse_base128_integer r = (Some v, s')"
      and range: "v \<le> ucast (0x1fffffff :: u32)" "0x1f \<le> v" and t: "t = tag_join b (ucast v)"
      using assms by (auto simp: s parse_asn1_tag_def get_u8_Cons Let_def tag_join_def
          CBS_ASN1_TAG_SHIFT_def CBS_ASN1_TAG_NUMBER_MASK_def not_less
          split: prod.splits option.splits if_splits)
    have uv: "unat (ucast v :: u32) = unat v" "unat v < 2 ^ 29"
      using range by (simp_all add: word_nat_arith unsigned_ucast_eq take_bit_nat_eq_self_iff)
    then have n: "take_bit 29 (ucast v :: u32) = ucast v" by (simp add: take_bit_self_iff)
    have "r = enc_base128 (unat v) @ s'" using base128.get_sound [OF v] by simp
    moreover have "0x1f \<le> (ucast v :: u32)" using range uv by (simp add: word_nat_arith)
    moreover have "(b AND 0xe0) OR 0x1f = b" using tag_byte_split [of b] True by simp
    ultimately show ?thesis
      by (simp add: s t enc_tag_def Let_def CBS_ASN1_TAG_SHIFT_def CBS_ASN1_TAG_NUMBER_MASK_def
          tag_join_number [OF n] tag_join_bits [OF n] uv)
  next
    case False
    let ?n = "ucast (b AND 0x1f) :: u32"
    have un: "unat ?n = unat (b AND 0x1f)" by simp
    have "unat (b AND 0x1f) \<noteq> 31" using False by (simp add: word_unat_eq_iff)
    with low have lt: "unat ?n < 31" by simp
    then have n: "take_bit 29 ?n = ?n" by (simp add: take_bit_self_iff)
    have "?n \<noteq> 0x1f" using lt by (auto simp: word_unat_eq_iff)
    then have "t = tag_join b ?n" "s' = r"
      using assms by (auto simp: s parse_asn1_tag_def get_u8_Cons Let_def tag_join_def
          CBS_ASN1_TAG_SHIFT_def split: if_splits)
    moreover have "\<not> 0x1f \<le> ?n" using lt by (simp add: word_nat_arith)
    moreover have "(ucast ?n :: u8) = b AND 0x1f"
      by (rule bit_word_eqI) (simp add: bit_simps)
    ultimately show ?thesis using tag_byte_split [of b]
      by (simp add: s enc_tag_def Let_def CBS_ASN1_TAG_SHIFT_def CBS_ASN1_TAG_NUMBER_MASK_def
          tag_join_number [OF n] tag_join_bits [OF n])
  qed
qed

lemma enc_tag_nonempty [simp]: "enc_tag t \<noteq> []"
  by (simp add: enc_tag_def Let_def)

interpretation asn1_tag: canonical enc_tag parse_asn1_tag "\<lambda>_. True"
  by unfold_locales (auto simp: parse_tag_complete dest: parse_tag_sound)

subsection \<open>Lengths\<close>

text \<open>DER length octets: short form below 128, otherwise the fewest big-endian bytes.\<close>

definition der_length_bytes :: "nat \<Rightarrow> nat" where
  "der_length_bytes n =
    (if n \<le> 0x7f then 0 else if n \<le> 0xff then 1 else if n \<le> 0xffff then 2
     else if n \<le> 0xffffff then 3 else 4)"

definition enc_der_length :: "nat \<Rightarrow> u8 list" where
  "enc_der_length n =
    (let k = der_length_bytes n
     in if k = 0 then [of_nat n] else of_nat (0x80 + k) # be_bytes k n)"

text \<open>The length part of \<^verbatim>\<open>cbs_get_any_asn1_element\<close> in DER mode, on its own.\<close>

definition der_len :: "cbs \<Rightarrow> nat option \<times> cbs" where
  "der_len h =
    (case CBS_get_u8 h of
       (None, h) \<Rightarrow> (None, h)
     | (Some b, h) \<Rightarrow>
         if unat b < 128 then (Some (unat b), h)
         else
           let k = unat b - 128
           in if k = 0 \<or> 4 < k \<or> length h < k then (None, h)
              else
                let v = be_val (take k h)
                in if v < 128 \<or> v < 256 ^ (k - 1) then (None, h) else (Some v, drop k h))"

definition der_element :: "u32 \<Rightarrow> u8 list \<Rightarrow> u8 list" where
  "der_element tag contents = enc_tag tag @ enc_der_length (length contents) @ contents"

lemma u8_and_7f_high: "128 \<le> unat (b :: u8) \<Longrightarrow> unat (b AND 0x7f) = unat b - 128"
  using unat_u8_lt [of b] by (simp add: u8_and_7f le_mod_geq del: unat_u8_lt)

lemma len_enc_der [simp]: "enc_der_length n \<noteq> []"
  by (simp add: enc_der_length_def Let_def)

lemma der_length_bytes_eq:
  assumes "0 < k" "k \<le> 4" "128 \<le> v" "256 ^ (k - 1) \<le> v" "v < 256 ^ k"
  shows "der_length_bytes v = k"
proof -
  have "k = 1 \<or> k = 2 \<or> k = 3 \<or> k = 4" using assms by linarith
  then show ?thesis using assms by (auto simp: der_length_bytes_def)
qed

lemma der_length_bytes_range:
  assumes "128 \<le> v" "v < 2 ^ 32"
  defines "k \<equiv> der_length_bytes v"
  shows "0 < k" "k \<le> 4" "256 ^ (k - 1) \<le> v" "v < 256 ^ k"
  using assms by (auto simp: der_length_bytes_def)

lemma der_len_complete:
  assumes "n < 2 ^ 32"
  shows "der_len (enc_der_length n @ s) = (Some n, s)"
proof (cases "n < 128")
  case True
  then have "unat (of_nat n :: u8) = n" by simp
  then show ?thesis using True
    by (simp add: enc_der_length_def der_length_bytes_def der_len_def get_u8_Cons)
next
  case False
  define k where "k = der_length_bytes n"
  have k: "0 < k" "k \<le> 4" "256 ^ (k - 1) \<le> n" "n < 256 ^ k"
    using der_length_bytes_range [of n] False assms by (simp_all add: k_def)
  have u: "unat (of_nat (128 + k) :: u8) = 128 + k" using k by (simp only: unat_of_nat_u8) simp
  then show ?thesis using False k
    by (simp add: enc_der_length_def der_len_def get_u8_Cons be_val_be_bytes flip: k_def
        del: of_nat_add)
qed

lemma der_len_sound:
  assumes "der_len h = (Some n, h')"
  shows "n < 2 ^ 32 \<and> h = enc_der_length n @ h'"
proof -
  obtain b r where h: "h = b # r" using assms by (cases h) (auto simp: der_len_def get_u8_Nil)
  show ?thesis
  proof (cases "unat b < 128")
    case True
    then have "n = unat b" "h' = r" using assms by (auto simp: h der_len_def get_u8_Cons)
    then show ?thesis using True
      by (simp add: h enc_der_length_def der_length_bytes_def)
  next
    case False
    define k where "k = unat b - 128"
    have k: "0 < k" "k \<le> 4" "k \<le> length r" and n: "n = be_val (take k r)" "128 \<le> n" "256 ^ (k - 1) \<le> n"
      and h': "h' = drop k r"
      using assms False by (auto simp: h der_len_def get_u8_Cons Let_def k_def not_less split: if_splits)
    have "n < 256 ^ k" using be_val_bound [of "take k r"] k by (simp add: n min_absorb2)
    then have "der_length_bytes n = k" using der_length_bytes_eq k n by blast
    moreover have "(256 :: nat) ^ k \<le> 256 ^ 4" using k by (intro power_increasing) simp_all
    moreover have "of_nat (128 + k) = b"
      using False unat_u8_lt [of b] by (simp add: k_def del: of_nat_add)
    moreover have "be_bytes k n = take k r"
      using be_bytes_be_val [of "take k r"] k by (simp add: n min_absorb2)
    ultimately show ?thesis using k \<open>n < 256 ^ k\<close>
      by (simp add: h h' enc_der_length_def Let_def del: of_nat_add)
  qed
qed

interpretation der_length: canonical enc_der_length der_len "\<lambda>n. n < 2 ^ 32"
  by unfold_locales (auto simp: der_len_complete dest: der_len_sound)

subsection \<open>Elements\<close>

lemma length_base128_high: "n < 128 ^ k \<Longrightarrow> length (base128_high n) \<le> k"
proof (induction n arbitrary: k rule: base128_high.induct)
  case (1 n)
  show ?case
  proof (cases "n = 0")
    case False
    with "1.prems" obtain j where k: "k = Suc j" by (cases k) auto
    then have "n div 128 < 128 ^ j" using "1.prems" by (simp add: less_mult_imp_div_less mult.commute)
    then have "length (base128_high (n div 128)) \<le> j" using "1.IH" False by blast
    then show ?thesis using False k by (subst base128_high.simps) simp
  qed simp
qed

lemma length_enc_tag: "length (enc_tag t) \<le> 6"
proof -
  have "t AND 0x1fffffff = take_bit 29 t" by (simp add: take_bit_eq_mask mask_eq_exp_minus_1)
  then have "unat (t AND 0x1fffffff) < 2 ^ 29" by simp
  then have "unat (t AND 0x1fffffff) div 128 < 128 ^ 4" by simp
  then have "length (base128_high (unat (t AND 0x1fffffff) div 128)) \<le> 4"
    by (rule length_base128_high)
  then show ?thesis
    by (simp add: enc_tag_def Let_def CBS_ASN1_TAG_NUMBER_MASK_def enc_base128_def)
qed

text \<open>In DER mode the element reader is the tag reader, the length reader, and a slice.\<close>

lemma take_element_eq:
  "take_element s n t hl ber =
    (if n \<le> length s
     then (Some \<lparr>el_bytes = take n s, el_tag = t, el_header_len = hl, el_ber_found = ber\<rparr>, drop n s)
     else (None, s))"
  by (simp add: take_element_def get_bytes_eq)

definition element_of_len :: "cbs \<Rightarrow> u32 \<Rightarrow> cbs \<Rightarrow> asn1_element option \<times> cbs" where
  "element_of_len s t h =
    (case der_len h of
       (None, _) \<Rightarrow> (None, s)
     | (Some n, h') \<Rightarrow> take_element s (length s - length h' + n) t (length s - length h') False)"

lemma element_of_len_short:
  assumes tag: "parse_asn1_tag s = (Some t, b # r)" and b: "unat b < 128"
  shows "cbs_get_any_asn1_element s False = element_of_len s t (b # r)"
  using b by (simp add: cbs_get_any_asn1_element_def tag element_of_len_def der_len_def get_u8_Cons
      u8_and_80 CBS_len_def add.commute Let_def)

lemma element_of_len_long:
  assumes tag: "parse_asn1_tag s = (Some t, b # r)" and b: "\<not> unat b < 128"
  shows "cbs_get_any_asn1_element s False = element_of_len s t (b # r)"
proof -
  define k where "k = unat b - 128"
  have high: "b AND 0x80 \<noteq> 0" "unat (b AND 0x7f) = k"
    using b by (simp_all add: u8_and_80 u8_and_7f_high k_def)
  have s: "s = enc_tag t @ b # r" using parse_tag_sound [OF tag] .
  have hl: "length s - length r = length (enc_tag t) + 1" by (simp add: s)
  note unf = cbs_get_any_asn1_element_def tag get_u8_Cons high CBS_len_def hl
  show ?thesis
  proof (cases "k = 0 \<or> 4 < k \<or> length r < k")
    case True
    then have "der_len (b # r) = (None, r)"
      using b by (simp add: der_len_def get_u8_Cons Let_def flip: k_def)
    moreover have "k \<noteq> 0 \<Longrightarrow> \<not> 4 < k \<Longrightarrow> cbs_get_u r k = (None, r)"
      using True by (simp add: get_u_eq)
    ultimately show ?thesis using True by (simp add: unf element_of_len_def)
  next
    case no: False
    define v where "v = be_val (take k r)"
    have v: "v < 256 ^ k" using be_val_bound [of "take k r"] no by (simp add: v_def min_absorb2)
    moreover have "(256 :: nat) ^ k \<le> 256 ^ 4" using no by (intro power_increasing) simp_all
    ultimately have v32: "v < 2 ^ 32" by simp
    then have uv: "unat (of_nat v :: u64) = v" by (simp add: unat_of_nat_small)
    have long: "(of_nat v :: u64) < 128 \<longleftrightarrow> v < 128" by (simp add: word_less_nat_alt uv)
    have padded: "drop_bit ((k - Suc 0) * 8) (of_nat v :: u64) = 0 \<longleftrightarrow> v < 256 ^ (k - Suc 0)"
      by (simp add: drop_bit_eq_0_iff uv power_mult mult.commute [of _ 8])
    have add: "size_add (size_add v (Suc (length (enc_tag t)))) k = Suc (v + length (enc_tag t) + k)"
      "size_add v (size_add (Suc (length (enc_tag t))) k) = Suc (v + length (enc_tag t) + k)"
      using v32 length_enc_tag [of t] no by simp_all
    have hl': "length s - length (drop k r) = length (enc_tag t) + 1 + k"
      using no by (simp add: s)
    have dl: "der_len (b # r) = (if v < 128 \<or> v < 256 ^ (k - 1) then (None, r) else (Some v, drop k r))"
      using no b by (simp add: der_len_def get_u8_Cons Let_def v_def flip: k_def)
    have gu: "cbs_get_u r k = (Some (of_nat v), drop k r)" using no by (simp add: get_u_eq v_def)
    show ?thesis
    proof (cases "v < 128 \<or> v < 256 ^ (k - 1)")
      case True
      then show ?thesis using no unfolding element_of_len_def dl
        by (simp add: unf gu long padded Let_def)
    next
      case False
      then show ?thesis using no unfolding element_of_len_def dl
        by (simp add: unf gu long padded Let_def uv add hl' ac_simps del: length_drop)
    qed
  qed
qed

lemma any_asn1_element_der:
  "cbs_get_any_asn1_element s False =
    (case parse_asn1_tag s of (None, _) \<Rightarrow> (None, s) | (Some t, h) \<Rightarrow> element_of_len s t h)"
proof (cases "parse_asn1_tag s")
  case (Pair ot h)
  show ?thesis
  proof (cases ot)
    case None
    then show ?thesis using Pair by (simp add: cbs_get_any_asn1_element_def)
  next
    case (Some t)
    show ?thesis
    proof (cases h)
      case Nil
      then show ?thesis using Pair Some
        by (simp add: cbs_get_any_asn1_element_def element_of_len_def der_len_def get_u8_Nil)
    next
      case (Cons b r)
      then show ?thesis using Pair Some element_of_len_short element_of_len_long
        by (cases "unat b < 128") simp_all
    qed
  qed
qed

text \<open>The header of an element and the element the DER reader returns.\<close>

definition der_header :: "u32 \<Rightarrow> nat \<Rightarrow> u8 list" where
  "der_header tag len = enc_tag tag @ enc_der_length len"

lemma der_element_header: "der_element t c = der_header t (length c) @ c"
  by (simp add: der_element_def der_header_def)

lemma any_asn1_element_iff:
  "cbs_get_any_asn1_element s False = (Some e, s') \<longleftrightarrow>
   (\<exists>c. length c < 2 ^ 32 \<and> s = der_element (el_tag e) c @ s' \<and>
      el_bytes e = der_element (el_tag e) c \<and>
      el_header_len e = length (der_header (el_tag e) (length c)) \<and> \<not> el_ber_found e)"
  (is "?L \<longleftrightarrow> ?R")
proof
  assume ?L
  then obtain t h n h' where tag: "parse_asn1_tag s = (Some t, h)" and len: "der_len h = (Some n, h')"
    and el: "take_element s (length s - length h' + n) t (length s - length h') False = (Some e, s')"
    by (auto simp: any_asn1_element_der element_of_len_def split: prod.splits option.splits)
  have s: "s = der_header t n @ h'" and n: "n < 2 ^ 32"
    using parse_tag_sound [OF tag] der_len_sound [OF len] by (simp_all add: der_header_def)
  define c where "c = take n h'"
  have "n \<le> length h'" and c: "length c = n"
    using el by (auto simp: take_element_eq s c_def split: if_splits)
  then have "h' = c @ drop n h'" "length s - length h' = length (der_header t n)"
    by (simp_all add: c_def s)
  then show ?R using el n c
    by (intro exI [of _ c]) (auto simp: take_element_eq s c_def der_element_header split: if_splits)
next
  assume ?R
  then obtain c where c: "length c < 2 ^ 32" "s = der_element (el_tag e) c @ s'"
    "el_bytes e = der_element (el_tag e) c"
    "el_header_len e = length (der_header (el_tag e) (length c))" "\<not> el_ber_found e"
    by blast
  have "parse_asn1_tag s = (Some (el_tag e), enc_der_length (length c) @ c @ s')"
    by (simp add: c(2) der_element_def parse_tag_complete)
  moreover have "der_len (enc_der_length (length c) @ c @ s') = (Some (length c), c @ s')"
    using c(1) by (rule der_len_complete)
  ultimately show ?L using c
    by (simp add: any_asn1_element_der element_of_len_def take_element_eq der_element_header
        der_header_def)
qed

definition enc_any_asn1 :: "cbs \<times> u32 \<Rightarrow> u8 list" where
  "enc_any_asn1 = (\<lambda>(contents, tag). der_element tag contents)"

lemma any_asn1_iff:
  "CBS_get_any_asn1 s = (Some (c, t), s') \<longleftrightarrow> length c < 2 ^ 32 \<and> s = der_element t c @ s'"
  (is "?L \<longleftrightarrow> ?R")
proof
  assume ?L
  then obtain e where e: "cbs_get_any_asn1_element s False = (Some e, s')" and t: "t = el_tag e"
    and c: "CBS_skip (el_bytes e) (el_header_len e) = (Some (), c)"
    by (auto simp: CBS_get_any_asn1_def CBS_get_any_asn1_element_def split: prod.splits option.splits)
  then show ?R by (auto simp: any_asn1_element_iff CBS_skip_eq der_element_header split: if_splits)
next
  assume ?R
  then have "cbs_get_any_asn1_element s False =
      (Some \<lparr>el_bytes = der_element t c, el_tag = t,
        el_header_len = length (der_header t (length c)), el_ber_found = False\<rparr>, s')"
    by (auto simp: any_asn1_element_iff)
  then show ?L
    by (simp add: CBS_get_any_asn1_def CBS_get_any_asn1_element_def CBS_skip_eq der_element_header)
qed

interpretation any_asn1: canonical enc_any_asn1 CBS_get_any_asn1 "\<lambda>(c, t). length c < 2 ^ 32"
  by unfold_locales
    (auto simp: enc_any_asn1_def any_asn1_iff der_element_def split: prod.splits)

lemma get_asn1_iff:
  "CBS_get_asn1 s t = (Some c, s') \<longleftrightarrow> length c < 2 ^ 32 \<and> s = der_element t c @ s'"
proof -
  have "CBS_get_asn1 s t = (Some c, s') \<longleftrightarrow> CBS_get_any_asn1 s = (Some (c, t), s')"
    by (auto simp: CBS_get_asn1_def cbs_get_asn1_def CBS_get_any_asn1_def split: prod.splits option.splits if_splits)
  then show ?thesis by (simp add: any_asn1_iff)
qed

lemma get_asn1_der [cbs_read]:
  "length c < 2 ^ 32 \<Longrightarrow> CBS_get_asn1 (der_element t c @ s) t = (Some c, s)"
  by (simp add: get_asn1_iff)

lemma get_asn1_element_iff:
  "CBS_get_asn1_element s t = (Some x, s') \<longleftrightarrow>
   (\<exists>c. length c < 2 ^ 32 \<and> x = der_element t c \<and> s = x @ s')"
proof -
  have "CBS_get_asn1_element s t = (Some x, s') \<longleftrightarrow>
      (\<exists>e. cbs_get_any_asn1_element s False = (Some e, s') \<and> el_tag e = t \<and> el_bytes e = x)"
    by (auto simp: CBS_get_asn1_element_def cbs_get_asn1_def CBS_get_any_asn1_element_def
        split: prod.splits option.splits if_splits)
  also have "\<dots> \<longleftrightarrow> (\<exists>c. length c < 2 ^ 32 \<and> x = der_element t c \<and> s = x @ s')"
  proof
    assume "\<exists>c. length c < 2 ^ 32 \<and> x = der_element t c \<and> s = x @ s'"
    then obtain c where "length c < 2 ^ 32" "x = der_element t c" "s = x @ s'" by blast
    then show "\<exists>e. cbs_get_any_asn1_element s False = (Some e, s') \<and> el_tag e = t \<and> el_bytes e = x"
      by (intro exI [of _ "\<lparr>el_bytes = x, el_tag = t, el_header_len = length (der_header t (length c)),
          el_ber_found = False\<rparr>"]) (auto simp: any_asn1_element_iff)
  qed (auto simp: any_asn1_element_iff)
  finally show ?thesis .
qed

lemma peek_asn1_iff: "CBS_peek_asn1_tag s t \<longleftrightarrow> (\<exists>r. s = enc_tag t @ r)"
proof
  assume "CBS_peek_asn1_tag s t"
  then show "\<exists>r. s = enc_tag t @ r"
    by (auto simp: CBS_peek_asn1_tag_def dest: parse_tag_sound split: prod.splits option.splits if_splits)
next
  assume "\<exists>r. s = enc_tag t @ r"
  then show "CBS_peek_asn1_tag s t"
    by (auto simp: CBS_peek_asn1_tag_def parse_tag_complete CBS_len_def Suc_le_eq)
qed

section \<open>Properties\<close>

text \<open>C1: the DER reader accepts exactly the DER encodings: \<^verbatim>\<open>CBS_get_any_asn1\<close> returns tag
  \<open>t\<close>, contents \<open>c\<close> and rest \<open>s'\<close> just when the input is the canonical encoding
  of \<open>t\<close> and \<open>c\<close> (identifier octets, fewest length octets, contents below \<open>2 ^ 32\<close>
  bytes) followed by \<open>s'\<close>; so every other length or tag form is rejected, and
  \<^verbatim>\<open>CBS_get_asn1\<close> adds only the comparison of the tag.\<close>

theorem der_reader_exact:
  "(CBS_get_any_asn1 s = (Some (c, t), s') \<longleftrightarrow> length c < 2 ^ 32 \<and> s = der_element t c @ s') \<and>
   (CBS_get_asn1 s t = (Some c, s') \<longleftrightarrow> length c < 2 ^ 32 \<and> s = der_element t c @ s')"
  using any_asn1_iff get_asn1_iff by blast

end
