(* ===== verification/Asn1_Integer.thy ===== *)
theory Asn1_Integer
  imports Cbs_Asn1
begin

text \<open>
  What the contents octets of a DER INTEGER mean: big-endian two's complement, in the fewest
  bytes. The readers of \<^verbatim>\<open>crypto/bytestring/cbs.c\<close> accept exactly these contents, and
  the writers of \<^verbatim>\<open>crypto/bytestring/cbb.c\<close> (theory \<open>Cbb_Asn1\<close>) produce them.
\<close>

section \<open>Two's complement contents\<close>

definition be_neg :: "u8 list \<Rightarrow> bool" where
  "be_neg c \<longleftrightarrow> (case c of [] \<Rightarrow> False | b # _ \<Rightarrow> 128 \<le> unat b)"

definition be_sint :: "u8 list \<Rightarrow> int" where
  "be_sint c = int (be_val c) - (if be_neg c then 256 ^ length c else 0)"

fun minimal_int :: "u8 list \<Rightarrow> bool" where
  "minimal_int [] = False"
| "minimal_int [a] = True"
| "minimal_int (a # b # c) =
    (\<not> (unat a = 0 \<and> unat b < 128) \<and> \<not> (unat a = 255 \<and> 128 \<le> unat b))"

lemma unat_eq_255: "unat (a :: u8) = 255 \<longleftrightarrow> a = 255"
  by (simp add: word_unat_eq_iff)

lemma u8_eq_unat: "(a :: u8) = b \<longleftrightarrow> unat a = unat b"
  by (rule word_unat_eq_iff)

lemma valid_integer_iff:
  "CBS_is_valid_asn1_integer c = (if minimal_int c then Some (be_neg c) else None)"
  by (cases c rule: minimal_int.cases)
    (auto simp: CBS_is_valid_asn1_integer_def get_u8_Cons get_u8_Nil Let_def u8_and_80
      be_neg_def not_less unat_eq_255 unat_gt_0)

lemma unsigned_integer_iff: "CBS_is_unsigned_asn1_integer c \<longleftrightarrow> minimal_int c \<and> \<not> be_neg c"
  by (simp add: CBS_is_unsigned_asn1_integer_def valid_integer_iff)

lemma be_val_int_range: "0 \<le> int (be_val c)" "int (be_val c) < 256 ^ length c"
  using be_val_bound [of c] by (simp, metis of_nat_less_iff of_nat_numeral of_nat_power)

lemma be_sint_Cons:
  "be_sint (b # d) =
    (int (unat b) - (if 128 \<le> unat b then 256 else 0)) * 256 ^ length d + int (be_val d)"
  by (simp add: be_sint_def be_neg_def be_val_Cons algebra_simps)

lemma be_sint_range: "- (256 ^ length c) \<le> 2 * be_sint c \<and> 2 * be_sint c < 256 ^ length c"
proof (cases c)
  case (Cons b d)
  define B where "B = int (unat b) - (if 128 \<le> unat b then 256 else 0)"
  define p :: int where "p = 256 ^ length d"
  have "-128 \<le> B" "B \<le> 127" using unat_u8_le [of b] by (auto simp: B_def simp del: of_nat_unat unat_u8_le)
  then have "-128 * p \<le> B * p" "B * p \<le> 127 * p"
    unfolding p_def by (intro mult_right_mono; simp)+
  moreover have "be_sint c = B * p + int (be_val d)" by (simp add: Cons be_sint_Cons B_def p_def)
  moreover have "256 ^ length c = 256 * p" by (simp add: Cons p_def)
  ultimately show ?thesis using be_val_int_range [of d] unfolding p_def [symmetric] by linarith
qed (simp add: be_sint_def be_neg_def)

lemma be_sint_shorter:
  "be_sint (b # d) = be_sint d \<longleftrightarrow> unat b = (if be_neg d then 255 else 0)"
proof -
  define B where "B = int (unat b) - (if 128 \<le> unat b then 256 else 0) + (if be_neg d then 1 else 0)"
  have "be_sint (b # d) - be_sint d = B * 256 ^ length d"
    by (simp add: be_sint_Cons be_sint_def [of d] B_def algebra_simps)
  then have "be_sint (b # d) = be_sint d \<longleftrightarrow> B = 0"
    by (smt (verit) mult_eq_0_iff power_not_zero)
  then show ?thesis using unat_u8_le [of b] by (auto simp: B_def simp del: of_nat_unat unat_u8_le)
qed

text \<open>A minimal contents of \<open>n + 1\<close> bytes has a value that \<open>n\<close> bytes cannot hold.\<close>

lemma minimal_int_large:
  assumes "minimal_int (b # d)" "d \<noteq> []"
  shows "256 ^ length d \<le> 2 * be_sint (b # d) \<or> 2 * be_sint (b # d) < - (256 ^ length d)"
proof -
  obtain a e where d: "d = a # e" using assms(2) by (cases d) auto
  define p :: int where "p = 256 ^ length e"
  define B where "B = int (unat b) - (if 128 \<le> unat b then 256 else 0)"
  define A where "A = int (unat a)"
  have "0 < p" by (simp add: p_def)
  have "128 \<le> 256 * B + A \<or> 256 * B + A < -128"
    using assms(1) unat_u8_le [of a] unat_u8_le [of b] unfolding d A_def B_def
    by (cases "128 \<le> unat b") (simp_all del: of_nat_unat unat_u8_le unat_u8_lt, linarith+)
  then have "128 * p \<le> (256 * B + A) * p \<or> (256 * B + A) * p \<le> -129 * p"
    using \<open>0 < p\<close> by (auto intro: mult_right_mono simp del: mult_minus_left)
  moreover have "be_sint (b # d) = (256 * B + A) * p + int (be_val e)"
    by (simp add: be_sint_Cons d be_val_Cons p_def A_def B_def algebra_simps)
  moreover have "256 ^ length d = 256 * p" by (simp add: d p_def)
  ultimately show ?thesis using be_val_int_range [of e] unfolding p_def [symmetric] by linarith
qed

lemma be_sint_inj_len:
  assumes "length c = length d" "be_sint c = be_sint d"
  shows "c = d"
proof -
  have vc: "int (be_val c) < 256 ^ length c" "int (be_val d) < 256 ^ length c"
    using be_val_int_range(2) [of c] be_val_int_range(2) [of d] assms(1) by simp_all
  have "be_val c = be_val d"
    using assms vc unfolding be_sint_def by (simp del: of_nat_less_numeral_power_cancel_iff split: if_splits)
  then show ?thesis using be_val_inj assms(1) by blast
qed

lemma minimal_int_len:
  assumes "minimal_int c" "- (256 ^ n) \<le> 2 * be_sint c" "2 * be_sint c < 256 ^ n" "0 < n"
  shows "length c \<le> n"
proof (rule ccontr)
  assume "\<not> length c \<le> n"
  then obtain b d where c: "c = b # d" "n \<le> length d" by (cases c) auto
  then have "d \<noteq> []" using assms(4) by auto
  moreover have "(256 :: int) ^ n \<le> 256 ^ length d" using c(2) by (intro power_increasing) auto
  ultimately show False using minimal_int_large [of b d] assms(1-3) unfolding c(1) by linarith
qed

lemma minimal_int_unique:
  assumes "minimal_int c" "minimal_int d" "be_sint c = be_sint d"
  shows "c = d"
proof -
  have "c \<noteq> []" "d \<noteq> []" using assms(1,2) by auto
  then have "length c \<le> length d" "length d \<le> length c"
    using be_sint_range [of c] be_sint_range [of d] assms by (intro minimal_int_len; simp)+
  then show ?thesis using be_sint_inj_len assms(3) by simp
qed

section \<open>The integer readers\<close>

lemma get_uint64_loop_eq:
  "get_uint64_loop out bs =
    (if unat out * 256 ^ length bs + be_val bs < 2 ^ 64
     then Some (of_nat (unat out * 256 ^ length bs + be_val bs)) else None)"
proof (induction out bs rule: get_uint64_loop.induct)
  case (1 out)
  then show ?case using unat_u64_lt [of out] by simp
next
  case (2 out b bs)
  have big: "2 ^ 56 \<le> unat out \<Longrightarrow> \<not> unat out * 256 ^ length (b # bs) + be_val (b # bs) < 2 ^ 64"
    using mult_le_mono [of "2 ^ 56" "unat out" "256 ^ 1" "256 ^ length (b # bs)"]
    by (simp add: not_less)
  have "unat out < 2 ^ 56 \<Longrightarrow> unat (push_bit 8 out OR ucast b) = unat out * 256 + unat b"
    using unat_u8_le [of b] by (simp add: or_shift8 unat_word_ariths del: unat_u8_le)
  then show ?case
    using 2 big by (auto simp: drop_bit_eq_0_iff be_val_Cons algebra_simps not_less)
qed

lemma be_sint_not_neg: "\<not> be_neg c \<Longrightarrow> be_sint c = int (be_val c)"
  by (simp add: be_sint_def)

lemma be_sint_neg_iff: "be_sint c < 0 \<longleftrightarrow> be_neg c"
  using be_val_int_range [of c] by (auto simp: be_sint_def)

lemma uint64_loop_value:
  assumes "\<not> be_neg c"
  shows "get_uint64_loop 0 c = Some v \<longleftrightarrow> be_sint c = uint v"
proof -
  have uint: "uint v = int (unat v)" by (rule of_nat_unat [symmetric])
  have "get_uint64_loop 0 c = (if be_val c < 2 ^ 64 then Some (of_nat (be_val c)) else None)"
    unfolding get_uint64_loop_eq unsigned_0 mult_zero_left add_0 by (rule refl)
  then have "get_uint64_loop 0 c = Some v \<longleftrightarrow> be_val c < 2 ^ 64 \<and> of_nat (be_val c) = v"
    by (metis option.inject option.distinct(1))
  also have "\<dots> \<longleftrightarrow> be_val c = unat v"
    by (rule of_nat_u64_iff)
  also have "\<dots> \<longleftrightarrow> be_sint c = uint v"
    unfolding be_sint_not_neg [OF assms] uint of_nat_eq_iff by (rule refl)
  finally show ?thesis .
qed

lemma uint64_loop_unsigned:
  "get_uint64_loop 0 c = Some v \<and> \<not> be_neg c \<longleftrightarrow> be_sint c = uint v"
proof (cases "be_neg c")
  case True
  then have "be_sint c < 0" by (simp only: be_sint_neg_iff)
  moreover have "0 \<le> uint v" by (rule unsigned_greater_eq)
  ultimately have "be_sint c \<noteq> uint v" by linarith
  with True show ?thesis by blast
qed (simp only: uint64_loop_value simp_thms)

lemma asn1_uint64_steps:
  "CBS_get_asn1_uint64 s = (Some v, s') \<longleftrightarrow>
    (\<exists>c. CBS_get_asn1 s CBS_ASN1_INTEGER = (Some c, s') \<and> CBS_is_unsigned_asn1_integer c \<and>
       get_uint64_loop 0 c = Some v)"
  by (auto simp: CBS_get_asn1_uint64_def split: prod.splits option.splits)

lemma asn1_uint64_iff:
  "CBS_get_asn1_uint64 s = (Some v, s') \<longleftrightarrow>
    (\<exists>c. length c < 2 ^ 32 \<and> s = der_element CBS_ASN1_INTEGER c @ s' \<and> minimal_int c \<and>
       be_sint c = uint v)"
  unfolding asn1_uint64_steps get_asn1_iff unsigned_integer_iff uint64_loop_unsigned [symmetric]
  by blast

text \<open>The same for \<^verbatim>\<open>int64_t\<close>: the bytes above the contents are copies of the sign.\<close>

lemma be_val_replicate_ff: "be_val (replicate m 255) + 1 = 256 ^ m"
  by (induction m) (simp_all add: be_val_Cons)

lemma be_val_replicate_0 [simp]: "be_val (replicate m 0) = 0"
  by (induction m) (simp_all add: be_val_Cons)

lemma le_val_sign_extend:
  assumes "length c \<le> 8"
  shows "int (le_val (blit (replicate 8 (if be_neg c then 0xff else 0)) 0 (rev c))) =
    be_sint c + (if be_neg c then 2 ^ 64 else 0)"
proof -
  define m where "m = 8 - length c"
  have m: "m + length c = 8" using assms by (simp add: m_def)
  have "blit (replicate 8 p) 0 (rev c) = rev (replicate m p @ c)" for p
    by (simp add: blit_def m_def rev_replicate)
  then have le: "le_val (blit (replicate 8 p) 0 (rev c)) = be_val (replicate m p) * 256 ^ length c + be_val c" for p
    by (simp add: le_val_def be_val_append)
  have "(be_val (replicate m 255) + 1) * 256 ^ length c = 256 ^ 8"
    unfolding be_val_replicate_ff power_add [symmetric] m ..
  then have "int ((be_val (replicate m 255) + 1) * 256 ^ length c) = int (256 ^ 8)"
    by (simp only:)
  then have ff: "int (be_val (replicate m 255) * 256 ^ length c) + 256 ^ length c = 2 ^ 64"
    by (simp add: algebra_simps)
  show ?thesis
  proof (cases "be_neg c")
    case True
    show ?thesis unfolding le be_sint_def if_P [OF True] of_nat_add using ff by linarith
  next
    case False
    show ?thesis unfolding le be_sint_def if_not_P [OF False] by simp
  qed
qed

lemma sint_sign_extend:
  assumes "length c \<le> 8"
  shows "sint (sign_extended (be_neg c) c) = be_sint c"
proof -
  have "sign_extended (be_neg c) c =
      of_int (int (le_val (blit (replicate 8 (if be_neg c then 0xff else 0)) 0 (rev c))))"
    unfolding sign_extended_def Let_def word_of_mem_def by (rule of_int_of_nat_eq [symmetric])
  also have "\<dots> = of_int (be_sint c)"
    unfolding le_val_sign_extend [OF assms] by (cases "be_neg c") simp_all
  finally have eq: "sign_extended (be_neg c) c = of_int (be_sint c)" .
  have "(256 :: int) ^ length c \<le> 256 ^ 8" using assms by (intro power_increasing) simp_all
  then have "- (2 ^ 63) \<le> be_sint c \<and> be_sint c < 2 ^ 63"
    using be_sint_range [of c] by simp
  then show ?thesis unfolding eq signed_of_int
    by (simp add: signed_take_bit_int_eq_self)
qed

lemma asn1_int64_steps:
  "CBS_get_asn1_int64 s = (Some v, s') \<longleftrightarrow>
    (\<exists>c. CBS_get_asn1 s CBS_ASN1_INTEGER = (Some c, s') \<and> minimal_int c \<and> length c \<le> 8 \<and>
       v = sign_extended (be_neg c) c)"
  by (auto simp: CBS_get_asn1_int64_def valid_integer_iff CBS_len_def
      split: prod.splits option.splits if_splits)

lemma sint_range_64: "- (256 ^ 8) \<le> 2 * sint (v :: u64) \<and> 2 * sint v < 256 ^ 8"
  using sint_greater_eq [of v] sint_less [of v] by simp

lemma asn1_int64_iff:
  "CBS_get_asn1_int64 s = (Some v, s') \<longleftrightarrow>
    (\<exists>c. length c < 2 ^ 32 \<and> s = der_element CBS_ASN1_INTEGER c @ s' \<and> minimal_int c \<and>
       be_sint c = sint v)"
proof -
  have "minimal_int c \<and> length c \<le> 8 \<and>
      v = sign_extended (be_neg c) c \<longleftrightarrow>
      minimal_int c \<and> be_sint c = sint v" for c
  proof (cases "length c \<le> 8")
    case True
    show ?thesis unfolding sint_sign_extend [OF True, symmetric]
      using True signed_word_eqI [of v "sign_extended (be_neg c) c"] by metis
  next
    case False
    then have "minimal_int c \<Longrightarrow> be_sint c \<noteq> sint v"
      using minimal_int_len [of c 8] sint_range_64 [of v] by (metis zero_less_numeral)
    with False show ?thesis by blast
  qed
  then show ?thesis unfolding asn1_int64_steps get_asn1_iff by blast
qed

section \<open>Properties\<close>

text \<open>C5: the integer readers accept exactly the minimal two's complement contents of the values
  of their type: a value read is the value of the contents, every value has one accepted encoding,
  and padded, negative (for \<^verbatim>\<open>uint64_t\<close>) and too large integers are rejected.\<close>

theorem asn1_integer_exact:
  "(CBS_get_asn1_uint64 s = (Some v, s') \<longleftrightarrow>
      (\<exists>c. length c < 2 ^ 32 \<and> s = der_element CBS_ASN1_INTEGER c @ s' \<and> minimal_int c \<and>
         be_sint c = uint v)) \<and>
   (CBS_get_asn1_int64 s = (Some v, s') \<longleftrightarrow>
      (\<exists>c. length c < 2 ^ 32 \<and> s = der_element CBS_ASN1_INTEGER c @ s' \<and> minimal_int c \<and>
         be_sint c = sint v))"
  using asn1_uint64_iff asn1_int64_iff by blast

end
