(* ===== verification/Cbb.thy ===== *)
theory Cbb
  imports Asn1_Integer
begin

text \<open>
  The byte builder of \<^verbatim>\<open>crypto/bytestring/cbb.c\<close>: a growing buffer with nested,
  length-prefixed children. A \<^verbatim>\<open>CBB\<close> tree is one buffer and the chain of open children,
  outermost first; a handle is its depth in the chain (0 is the root), and a handle deeper than the
  chain is a child that was flushed, whose \<^verbatim>\<open>base\<close> is \<^verbatim>\<open>NULL\<close>. Only the
  \<^verbatim>\<open>len\<close> bytes written so far are kept; \<open>grants\<close> says which sizes the allocator
  grants and is not a field of the C structure.
\<close>

section \<open>The buffer\<close>

record cbb_buffer =
  buf :: "u8 list"
  cap :: nat
  can_resize :: bool
  error :: bool
  grants :: "nat \<Rightarrow> bool"

record cbb_child =
  offset :: nat
  pending_len_len :: nat
  pending_is_asn1 :: bool

record cbb =
  base :: "cbb_buffer option"
  children :: "cbb_child list"

definition CBB_zero :: cbb where
  "CBB_zero = \<lparr>base = None, children = []\<rparr>"

definition sizeof_cbb_buffer :: nat where
  "sizeof_cbb_buffer = 32"

definition cbb_init :: "(nat \<Rightarrow> bool) \<Rightarrow> nat \<Rightarrow> bool \<times> cbb" where
  "cbb_init g n =
    (if g sizeof_cbb_buffer
     then (True, CBB_zero\<lparr>base := Some \<lparr>buf = [], cap = n, can_resize = True, error = False,
                                    grants = g\<rparr>\<rparr>)
     else (False, CBB_zero))"

definition CBB_init :: "(nat \<Rightarrow> bool) \<Rightarrow> nat \<Rightarrow> bool \<times> cbb" where
  "CBB_init g initial_capacity =
    (if 0 < initial_capacity \<and> \<not> g initial_capacity then (False, CBB_zero)
     else cbb_init g initial_capacity)"

definition CBB_init_fixed :: "(nat \<Rightarrow> bool) \<Rightarrow> nat \<Rightarrow> bool \<times> cbb" where
  "CBB_init_fixed g len =
    (case cbb_init g len of
       (False, cbb) \<Rightarrow> (False, cbb)
     | (True, cbb) \<Rightarrow> (True, cbb\<lparr>base := map_option (can_resize_update (\<lambda>_. False)) (base cbb)\<rparr>))"

definition CBB_cleanup :: "cbb \<Rightarrow> cbb" where
  "CBB_cleanup cbb = cbb\<lparr>base := None\<rparr>"

definition cbb_buffer_reserve :: "cbb_buffer \<Rightarrow> nat \<Rightarrow> bool \<times> cbb_buffer" where
  "cbb_buffer_reserve b len =
    (let newlen = size_add (length (buf b)) len in
     if newlen < length (buf b) then (False, b\<lparr>error := True\<rparr>)
     else if cap b < newlen then
       (let newcap = size_mul (cap b) 2 in
        if \<not> can_resize b then (False, b\<lparr>error := True\<rparr>)
        else
          let newcap = (if newcap < cap b \<or> newcap < newlen then newlen else newcap)
          in if \<not> grants b newcap then (False, b\<lparr>error := True\<rparr>) else (True, b\<lparr>cap := newcap\<rparr>))
     else (True, b))"

text \<open>The bytes are what the caller stores in the new area.\<close>

definition cbb_buffer_add :: "cbb_buffer \<Rightarrow> u8 list \<Rightarrow> bool \<times> cbb_buffer" where
  "cbb_buffer_add b bytes =
    (case cbb_buffer_reserve b (length bytes) of
       (False, b) \<Rightarrow> (False, b)
     | (True, b) \<Rightarrow> (True, b\<lparr>buf := buf b @ bytes\<rparr>))"

text \<open>Store \<open>i\<close> bytes of \<open>v\<close> at \<open>off\<close>, from the last one back; what is left of \<open>v\<close>.\<close>

fun store_be_loop :: "u8 list \<Rightarrow> nat \<Rightarrow> nat \<Rightarrow> u64 \<Rightarrow> u8 list \<times> u64" where
  "store_be_loop xs off 0 v = (xs, v)"
| "store_be_loop xs off (Suc i) v = store_be_loop (xs[off + i := ucast v]) off i (drop_bit 8 v)"

definition cbb_buffer_add_u :: "cbb_buffer \<Rightarrow> u64 \<Rightarrow> nat \<Rightarrow> bool \<times> cbb_buffer" where
  "cbb_buffer_add_u b v len_len =
    (if len_len = 0 then (True, b)
     else
       case cbb_buffer_add b (replicate len_len 0) of
         (False, b) \<Rightarrow> (False, b)
       | (True, b) \<Rightarrow>
           let (xs, v) = store_be_loop (buf b) (length (buf b) - len_len) len_len v;
               b = b\<lparr>buf := xs\<rparr>
           in if v \<noteq> 0 then (False, b\<lparr>error := True\<rparr>) else (True, b))"

section \<open>Flushing\<close>

text \<open>
  The length octets of an ASN.1 child whose contents have \<open>len\<close> bytes: how many, the first, and
  the length still to be written after it.
\<close>

definition asn1_length_octets :: "nat \<Rightarrow> nat \<times> u8 \<times> nat" where
  "asn1_length_octets len =
    (if 0xffffff < len then (5, 0x80 OR 4, len)
     else if 0xffff < len then (4, 0x80 OR 3, len)
     else if 0xff < len then (3, 0x80 OR 2, len)
     else if 0x7f < len then (2, 0x80 OR 1, len)
     else (1, of_nat len, 0))"

text \<open>Make room for the length octets of an ASN.1 child and write the first one.\<close>

definition open_asn1_length ::
  "cbb_buffer \<Rightarrow> cbb_child \<Rightarrow> nat \<Rightarrow> nat \<Rightarrow> (cbb_child \<times> nat) option \<times> cbb_buffer" where
  "open_asn1_length b child child_start len =
    (if 0xfffffffe < len then (None, b)
     else
       let (len_len, initial_length_byte, len) = asn1_length_octets len;
           (ok, b) =
             (if len_len \<noteq> 1 then
                (case cbb_buffer_add b (replicate (len_len - 1) 0) of
                   (False, b) \<Rightarrow> (False, b)
                 | (True, b) \<Rightarrow>
                     (True, b\<lparr>buf := blit (buf b) (child_start + (len_len - 1))
                                        (take len (drop child_start (buf b)))\<rparr>))
              else (True, b))
       in if \<not> ok then (None, b)
          else
            (Some (child\<lparr>offset := offset child + 1, pending_len_len := len_len - 1\<rparr>, len),
             b\<lparr>buf := (buf b)[offset child := initial_length_byte]\<rparr>))"

text \<open>Write the pending length of a child whose own children are closed.\<close>

definition write_pending_length :: "cbb_buffer \<Rightarrow> cbb_child \<Rightarrow> nat \<Rightarrow> bool \<times> cbb_buffer" where
  "write_pending_length b child child_start =
    (let len = length (buf b) - child_start in
     case (if pending_is_asn1 child then open_asn1_length b child child_start len
           else (Some (child, len), b)) of
       (None, b) \<Rightarrow> (False, b)
     | (Some (child, len), b) \<Rightarrow>
         let (xs, len) = store_be_loop (buf b) (offset child) (pending_len_len child) (of_nat len)
         in (len = 0, b\<lparr>buf := xs\<rparr>))"

text \<open>\<^verbatim>\<open>CBB_flush\<close> of a handle with a buffer, given the chain of its descendants.\<close>

fun flush_chain :: "cbb_buffer \<Rightarrow> cbb_child list \<Rightarrow> bool \<times> cbb_buffer \<times> cbb_child list" where
  "flush_chain b [] = (\<not> error b, b, [])"
| "flush_chain b (child # rest) =
    (if error b then (False, b, child # rest)
     else if pending_len_len child = 0 then (True, b, child # rest)
     else
       let child_start = size_add (offset child) (pending_len_len child)
       in case flush_chain b rest of
            (ok, b, rest) \<Rightarrow>
              if \<not> ok \<or> child_start < offset child \<or> length (buf b) < child_start
              then (False, b\<lparr>error := True\<rparr>, child # rest)
              else
                case write_pending_length b child child_start of
                  (True, b) \<Rightarrow> (True, b, [])
                | (False, b) \<Rightarrow> (False, b\<lparr>error := True\<rparr>, child # rest))"

type_synonym cbb_op = "cbb \<Rightarrow> bool \<times> cbb"

definition CBB_flush :: "nat \<Rightarrow> cbb_op" where
  "CBB_flush d cbb =
    (case base cbb of
       None \<Rightarrow> (False, cbb)
     | Some b \<Rightarrow>
         if length (children cbb) < d then (False, cbb)
         else
           let (ok, b, rest) = flush_chain b (drop d (children cbb))
           in (ok, cbb\<lparr>base := Some b, children := take d (children cbb) @ rest\<rparr>))"

text \<open>C's \<^verbatim>\<open>if (!f(...) || !g(...)) return 0\<close>.\<close>

definition and_then :: "cbb_op \<Rightarrow> cbb_op \<Rightarrow> cbb_op" where
  "and_then f g cbb = (case f cbb of (False, cbb) \<Rightarrow> (False, cbb) | (True, cbb) \<Rightarrow> g cbb)"

text \<open>An operation of the buffer, where \<^verbatim>\<open>base\<close> is known not to be \<^verbatim>\<open>NULL\<close>.\<close>

definition on_base :: "(cbb_buffer \<Rightarrow> bool \<times> cbb_buffer) \<Rightarrow> cbb_op" where
  "on_base f cbb =
    (case base cbb of
       None \<Rightarrow> (False, cbb)
     | Some b \<Rightarrow> let (ok, b) = f b in (ok, cbb\<lparr>base := Some b\<rparr>))"

section \<open>Adding bytes\<close>

definition CBB_add_bytes :: "nat \<Rightarrow> u8 list \<Rightarrow> cbb_op" where
  "CBB_add_bytes d data = and_then (CBB_flush d) (on_base (\<lambda>b. cbb_buffer_add b data))"

text \<open>The caller of \<^verbatim>\<open>CBB_add_space\<close> stores \<open>bytes\<close> in the space it was given.\<close>

definition CBB_add_space :: "nat \<Rightarrow> u8 list \<Rightarrow> cbb_op" where
  "CBB_add_space d bytes = and_then (CBB_flush d) (on_base (\<lambda>b. cbb_buffer_add b bytes))"

definition CBB_add_zeros :: "nat \<Rightarrow> nat \<Rightarrow> cbb_op" where
  "CBB_add_zeros d len = CBB_add_space d (replicate len 0)"

definition CBB_reserve :: "nat \<Rightarrow> nat \<Rightarrow> cbb_op" where
  "CBB_reserve d len = and_then (CBB_flush d) (on_base (\<lambda>b. cbb_buffer_reserve b len))"

text \<open>The bytes are those the caller has stored in the reserved area.\<close>

definition CBB_did_write :: "nat \<Rightarrow> u8 list \<Rightarrow> cbb_op" where
  "CBB_did_write d bytes cbb =
    (case base cbb of
       None \<Rightarrow> (False, cbb)
     | Some b \<Rightarrow>
         let newlen = size_add (length (buf b)) (length bytes)
         in if d < length (children cbb) \<or> newlen < length (buf b) \<or> cap b < newlen
            then (False, cbb)
            else (True, cbb\<lparr>base := Some (b\<lparr>buf := buf b @ bytes\<rparr>)\<rparr>))"

definition CBB_add_u8 :: "nat \<Rightarrow> u8 \<Rightarrow> cbb_op" where
  "CBB_add_u8 d value = and_then (CBB_flush d) (on_base (\<lambda>b. cbb_buffer_add_u b (ucast value) 1))"

definition CBB_add_u16 :: "nat \<Rightarrow> u16 \<Rightarrow> cbb_op" where
  "CBB_add_u16 d value = and_then (CBB_flush d) (on_base (\<lambda>b. cbb_buffer_add_u b (ucast value) 2))"

definition CBB_add_u16le :: "nat \<Rightarrow> u16 \<Rightarrow> cbb_op" where
  "CBB_add_u16le d value = CBB_add_u16 d (CRYPTO_bswap2 value)"

definition CBB_add_u24 :: "nat \<Rightarrow> u32 \<Rightarrow> cbb_op" where
  "CBB_add_u24 d value = and_then (CBB_flush d) (on_base (\<lambda>b. cbb_buffer_add_u b (ucast value) 3))"

definition CBB_add_u32 :: "nat \<Rightarrow> u32 \<Rightarrow> cbb_op" where
  "CBB_add_u32 d value = and_then (CBB_flush d) (on_base (\<lambda>b. cbb_buffer_add_u b (ucast value) 4))"

definition CBB_add_u32le :: "nat \<Rightarrow> u32 \<Rightarrow> cbb_op" where
  "CBB_add_u32le d value = CBB_add_u32 d (CRYPTO_bswap4 value)"

definition CBB_add_u64 :: "nat \<Rightarrow> u64 \<Rightarrow> cbb_op" where
  "CBB_add_u64 d value = and_then (CBB_flush d) (on_base (\<lambda>b. cbb_buffer_add_u b value 8))"

definition CBB_add_u64le :: "nat \<Rightarrow> u64 \<Rightarrow> cbb_op" where
  "CBB_add_u64le d value = CBB_add_u64 d (CRYPTO_bswap8 value)"

section \<open>Children\<close>

text \<open>A handle's contents start after its own pending length.\<close>

definition contents_start :: "nat \<Rightarrow> cbb \<Rightarrow> nat" where
  "contents_start d cbb =
    (if d = 0 then 0
     else offset (children cbb ! (d - 1)) + pending_len_len (children cbb ! (d - 1)))"

definition CBB_data :: "nat \<Rightarrow> cbb \<Rightarrow> u8 list" where
  "CBB_data d cbb = drop (contents_start d cbb) (buf (the (base cbb)))"

definition CBB_len :: "nat \<Rightarrow> cbb \<Rightarrow> nat" where
  "CBB_len d cbb = length (buf (the (base cbb))) - contents_start d cbb"

text \<open>Make a new child of handle \<open>d\<close> whose pending length is \<open>len_len\<close> zero bytes.\<close>

definition push_child :: "nat \<Rightarrow> nat \<Rightarrow> bool \<Rightarrow> cbb_op" where
  "push_child d len_len asn1 cbb =
    (case base cbb of
       None \<Rightarrow> (False, cbb)
     | Some b \<Rightarrow>
         case cbb_buffer_add b (replicate len_len 0) of
           (False, b') \<Rightarrow> (False, cbb\<lparr>base := Some b'\<rparr>)
         | (True, b') \<Rightarrow>
             (True, cbb\<lparr>base := Some b',
                       children := take d (children cbb) @
                         [\<lparr>offset = length (buf b), pending_len_len = len_len,
                           pending_is_asn1 = asn1\<rparr>]\<rparr>))"

definition cbb_add_length_prefixed :: "nat \<Rightarrow> nat \<Rightarrow> cbb_op" where
  "cbb_add_length_prefixed d len_len = and_then (CBB_flush d) (push_child d len_len False)"

definition CBB_add_u8_length_prefixed :: "nat \<Rightarrow> cbb_op" where
  "CBB_add_u8_length_prefixed d = cbb_add_length_prefixed d 1"

definition CBB_add_u16_length_prefixed :: "nat \<Rightarrow> cbb_op" where
  "CBB_add_u16_length_prefixed d = cbb_add_length_prefixed d 2"

definition CBB_add_u24_length_prefixed :: "nat \<Rightarrow> cbb_op" where
  "CBB_add_u24_length_prefixed d = cbb_add_length_prefixed d 3"

definition CBB_discard_child :: "nat \<Rightarrow> cbb \<Rightarrow> cbb" where
  "CBB_discard_child d cbb =
    (if length (children cbb) \<le> d then cbb
     else cbb\<lparr>base := map_option (buf_update (take (offset (children cbb ! d)))) (base cbb),
              children := take d (children cbb)\<rparr>)"

text \<open>
  \<open>null_out\<close>: an output pointer is \<^verbatim>\<open>NULL\<close>. The result is the buffer handed to the
  caller.
\<close>

definition CBB_finish :: "nat \<Rightarrow> bool \<Rightarrow> cbb \<Rightarrow> u8 list option \<times> cbb" where
  "CBB_finish d null_out cbb =
    (if 0 < d then (None, cbb)
     else
       case CBB_flush 0 cbb of
         (False, cbb) \<Rightarrow> (None, cbb)
       | (True, cbb) \<Rightarrow>
           (case base cbb of
              None \<Rightarrow> (None, cbb)
            | Some b \<Rightarrow> if can_resize b \<and> null_out then (None, cbb)
                        else (Some (buf b), CBB_cleanup cbb)))"

end
