(* ===== verification/Cbb_Refine.thy ===== *)
theory Cbb_Refine
  imports Cbb
begin

text \<open>
  What the byte builder promises, and that \<^verbatim>\<open>cbb.c\<close> implements it. The abstract builder
  keeps, for the root and every open child, only the contents added so far; closing a child puts
  its length in front of its contents. The relation \<open>cbb_rep\<close> ties it to the buffer, the
  offsets and the place-holder bytes of the code.
\<close>

section \<open>The abstract builder\<close>

datatype prefix = Fixed nat | Der

fun plen :: "prefix \<Rightarrow> nat" where
  "plen (Fixed n) = n"
| "plen Der = 1"

fun encode_prefix :: "prefix \<Rightarrow> nat \<Rightarrow> u8 list option" where
  "encode_prefix (Fixed n) len = (if len < 256 ^ n then Some (be_bytes n len) else None)"
| "encode_prefix Der len = (if len \<le> 0xfffffffe then Some (enc_der_length len) else None)"

definition with_prefix :: "prefix \<Rightarrow> u8 list \<Rightarrow> u8 list option" where
  "with_prefix k body = map_option (\<lambda>p. p @ body) (encode_prefix k (length body))"

text \<open>What a chain of open children becomes when it is closed, innermost first.\<close>

fun close_chain :: "(prefix \<times> u8 list) list \<Rightarrow> u8 list option" where
  "close_chain [] = Some []"
| "close_chain ((k, ys) # cs) =
    (case close_chain cs of None \<Rightarrow> None | Some z \<Rightarrow> with_prefix k (ys @ z))"

type_synonym builder = "u8 list \<times> (prefix \<times> u8 list) list"

fun extend :: "builder \<Rightarrow> u8 list \<Rightarrow> builder" where
  "extend (xs, cs) z =
    (if cs = [] then (xs @ z, []) else (xs, butlast cs @ [(fst (last cs), snd (last cs) @ z)]))"

definition close_to :: "nat \<Rightarrow> builder \<Rightarrow> builder option" where
  "close_to d = (\<lambda>(xs, cs). map_option (extend (xs, take d cs)) (close_chain (drop d cs)))"

definition open_child :: "prefix \<Rightarrow> builder \<Rightarrow> builder" where
  "open_child k = (\<lambda>(xs, cs). (xs, cs @ [(k, [])]))"

section \<open>The refinement relation\<close>

definition chain_bytes :: "(prefix \<times> u8 list) list \<Rightarrow> u8 list" where
  "chain_bytes cs = concat (map (\<lambda>(k, ys). replicate (plen k) 0 @ ys) cs)"

fun chain_children :: "nat \<Rightarrow> (prefix \<times> u8 list) list \<Rightarrow> cbb_child list" where
  "chain_children pos [] = []"
| "chain_children pos ((k, ys) # cs) =
    \<lparr>offset = pos, pending_len_len = plen k, pending_is_asn1 = (k = Der)\<rparr> #
    chain_children (pos + plen k + length ys) cs"

definition builder_bytes :: "builder \<Rightarrow> u8 list" where
  "builder_bytes = (\<lambda>(xs, cs). xs @ chain_bytes cs)"

definition cbb_rep :: "cbb \<Rightarrow> builder \<Rightarrow> bool" where
  "cbb_rep cbb A \<longleftrightarrow>
    (case base cbb of
       None \<Rightarrow> False
     | Some b \<Rightarrow>
         \<not> error b \<and> buf b = builder_bytes A \<and> length (buf b) < 2 ^ 64 \<and>
         children cbb = chain_children (length (fst A)) (snd A) \<and>
         (\<forall>k \<in> fst ` set (snd A). 0 < plen k \<and> plen k \<le> 8))"

text \<open>The buffer can always grow, and the same allocator serves both buffers.\<close>

definition growable :: "cbb_buffer \<Rightarrow> bool" where
  "growable b \<longleftrightarrow> can_resize b \<and> (\<forall>n. grants b n)"

definition same_memory :: "cbb_buffer \<Rightarrow> cbb_buffer \<Rightarrow> bool" where
  "same_memory b b' \<longleftrightarrow> can_resize b' = can_resize b \<and> grants b' = grants b"

lemma same_memory_refl [simp]: "same_memory b b"
  by (simp add: same_memory_def)

lemma same_memory_trans: "same_memory b c \<Longrightarrow> same_memory c d \<Longrightarrow> same_memory b d"
  by (simp add: same_memory_def)

lemma same_memory_growable: "same_memory b c \<Longrightarrow> growable b \<Longrightarrow> growable c"
  by (simp add: same_memory_def growable_def)

lemma same_memory_update [simp]:
  "same_memory b (c\<lparr>buf := x\<rparr>) = same_memory b c"
  "same_memory b (c\<lparr>error := e\<rparr>) = same_memory b c"
  "same_memory b (c\<lparr>cap := n\<rparr>) = same_memory b c"
  by (simp_all add: same_memory_def)

lemma growable_update [simp]: "growable (c\<lparr>buf := x\<rparr>) = growable c"
  by (simp add: growable_def)

section \<open>The buffer\<close>

lemma reserve_spec:
  assumes "cbb_buffer_reserve b n = (ok, b')"
  shows "buf b' = buf b" "same_memory b b'" "error b' = (error b \<or> \<not> ok)"
    "ok \<Longrightarrow> length (buf b) < 2 ^ 64 \<Longrightarrow> n < 2 ^ 64 \<Longrightarrow> length (buf b) + n < 2 ^ 64"
    "growable b \<Longrightarrow> length (buf b) + n < 2 ^ 64 \<Longrightarrow> ok"
  using assms
  by (auto simp: cbb_buffer_reserve_def Let_def growable_def same_memory_def size_add_overflow_iff
      split: if_splits)

lemma add_spec:
  assumes "cbb_buffer_add b z = (ok, b')"
  shows "buf b' = (if ok then buf b @ z else buf b)" "same_memory b b'" "error b' = (error b \<or> \<not> ok)"
    "ok \<Longrightarrow> length (buf b) < 2 ^ 64 \<Longrightarrow> length z < 2 ^ 64 \<Longrightarrow> length (buf b') < 2 ^ 64"
    "growable b \<Longrightarrow> length (buf b) + length z < 2 ^ 64 \<Longrightarrow> ok"
proof -
  obtain ok1 b1 where r: "cbb_buffer_reserve b (length z) = (ok1, b1)" by (cases "cbb_buffer_reserve b (length z)")
  have b': "ok1 = ok" "b' = (if ok then b1\<lparr>buf := buf b1 @ z\<rparr> else b1)"
    using assms by (auto simp: cbb_buffer_add_def r split: bool.splits)
  show "buf b' = (if ok then buf b @ z else buf b)" "same_memory b b'" "error b' = (error b \<or> \<not> ok)"
    using reserve_spec(1-3) [OF r] by (simp_all add: b')
  show "ok \<Longrightarrow> length (buf b) < 2 ^ 64 \<Longrightarrow> length z < 2 ^ 64 \<Longrightarrow> length (buf b') < 2 ^ 64"
    "growable b \<Longrightarrow> length (buf b) + length z < 2 ^ 64 \<Longrightarrow> ok"
    using reserve_spec [OF r] by (simp_all add: b')
qed

lemma blit_snoc:
  "length zs = n \<Longrightarrow> off + n < length xs \<Longrightarrow> blit (xs[off + n := y]) off zs = blit xs off (zs @ [y])"
  by (rule nth_equalityI) (auto simp: blit_def nth_append nth_list_update nth_Cons')

lemma unat_drop_bit_8: "unat (drop_bit 8 (v :: u64)) = unat v div 256"
  by (simp only: unat_drop_bit_eq) (simp add: drop_bit_eq_div)

lemma store_be_loop_eq:
  "off + n \<le> length xs \<Longrightarrow>
   store_be_loop xs off n v = (blit xs off (be_bytes n (unat v)), drop_bit (8 * n) v)"
proof (induction n arbitrary: xs v)
  case (Suc n)
  have "be_bytes (Suc n) (unat v) = be_bytes n (unat (drop_bit 8 v)) @ [ucast v]"
    by (simp only: be_bytes.simps unat_drop_bit_8 of_nat_unat)
  moreover have "8 * Suc n = 8 * n + 8" by simp
  ultimately show ?case
    using Suc.prems Suc.IH [of "xs[off + n := ucast v]" "drop_bit 8 v"]
      blit_snoc [of "be_bytes n (unat (drop_bit 8 v))" n off xs "ucast v"]
    by (simp only: store_be_loop.simps drop_bit_drop_bit length_list_update length_be_bytes)
qed simp

section \<open>Writing a pending length\<close>

lemma enc_der_length_octets:
  assumes "len \<le> 0xfffffffe"
  shows "\<exists>e first. asn1_length_octets len = (Suc e, first, if e = 0 then 0 else len) \<and>
    enc_der_length len = first # be_bytes e (if e = 0 then 0 else len) \<and>
    len < 256 ^ e * (if e = 0 then 128 else 1) \<and> e \<le> 4 \<and> e \<le> len"
  using assms
  by (auto simp: asn1_length_octets_def enc_der_length_def der_length_bytes_def Let_def)

lemma store_len:
  assumes "off + n \<le> length xs" "len < 2 ^ 64" "n \<le> 8"
  shows "store_be_loop xs off n (of_nat len) =
    (blit xs off (be_bytes n len), drop_bit (8 * n) (of_nat len))"
    "drop_bit (8 * n) (of_nat len :: u64) = 0 \<longleftrightarrow> len < 256 ^ n"
proof -
  have u: "unat (of_nat len :: u64) = len" using assms(2) by (simp add: unat_of_nat_small)
  show "store_be_loop xs off n (of_nat len) =
      (blit xs off (be_bytes n len), drop_bit (8 * n) (of_nat len))"
    using store_be_loop_eq [OF assms(1), of "of_nat len"] unfolding u .
  show "drop_bit (8 * n) (of_nat len :: u64) = 0 \<longleftrightarrow> len < 256 ^ n"
    unfolding drop_bit_eq_0_iff u by (simp add: power_mult)
qed

lemma blit_middle: "length ys = length zs \<Longrightarrow> i = length pre \<Longrightarrow> blit (pre @ ys @ post) i zs = pre @ zs @ post"
  by (simp add: blit_def)

lemma write_pending_fixed:
  assumes b: "buf b = pre @ replicate n 0 @ body" "length (buf b) < 2 ^ 64" "n \<le> 8"
  shows "write_pending_length b \<lparr>offset = length pre, pending_len_len = n, pending_is_asn1 = False\<rparr>
      (length pre + n) =
    (length body < 256 ^ n, b\<lparr>buf := pre @ be_bytes n (length body) @ body\<rparr>)"
proof -
  have "length (buf b) - (length pre + n) = length body" "length body < 2 ^ 64"
    using b by simp_all
  moreover have "blit (buf b) (length pre) (be_bytes n (length body)) = pre @ be_bytes n (length body) @ body"
    unfolding b(1) by (rule blit_middle) simp_all
  ultimately show ?thesis using b store_len [of "length pre" n "buf b" "length body"]
    by (simp add: write_pending_length_def Let_def)
qed

lemma open_asn1_length_spec:
  assumes b: "buf b = pre @ 0 # body" "length (buf b) < 2 ^ 64"
    and r: "open_asn1_length b \<lparr>offset = length pre, pending_len_len = 1, pending_is_asn1 = True\<rparr>
      (Suc (length pre)) (length body) = (r, b')"
  shows "same_memory b b' \<and> (error b' \<longrightarrow> error b \<or> r = None)"
    and "r = Some (c, len) \<Longrightarrow> \<exists>e first junk. enc_der_length (length body) = first # be_bytes e len \<and>
      length body \<le> 0xfffffffe \<and> length junk = e \<and> len < 256 ^ e \<and> e \<le> 4 \<and>
      c = \<lparr>offset = Suc (length pre), pending_len_len = e, pending_is_asn1 = True\<rparr> \<and>
      buf b' = pre @ first # junk @ body \<and> length (buf b') < 2 ^ 64"
    and "growable b \<Longrightarrow> encode_prefix Der (length body) = Some p \<Longrightarrow>
      length pre + length p + length body < 2 ^ 64 \<Longrightarrow> r \<noteq> None"
proof -
  let ?n = "length body"
  have "same_memory b b' \<and> (error b' \<longrightarrow> error b \<or> r = None) \<and>
    (r = Some (c, len) \<longrightarrow> (\<exists>e first junk. enc_der_length ?n = first # be_bytes e len \<and>
      ?n \<le> 0xfffffffe \<and> length junk = e \<and> len < 256 ^ e \<and> e \<le> 4 \<and>
      c = \<lparr>offset = Suc (length pre), pending_len_len = e, pending_is_asn1 = True\<rparr> \<and>
      buf b' = pre @ first # junk @ body \<and> length (buf b') < 2 ^ 64)) \<and>
    (growable b \<and> encode_prefix Der ?n = Some p \<and> length pre + length p + ?n < 2 ^ 64 \<longrightarrow> r \<noteq> None)"
  proof (cases "?n \<le> 0xfffffffe")
    case False
    then show ?thesis using r by (simp add: open_asn1_length_def)
  next
    case True
    obtain e first where e: "asn1_length_octets ?n = (Suc e, first, if e = 0 then 0 else ?n)"
      "enc_der_length ?n = first # be_bytes e (if e = 0 then 0 else ?n)"
      "?n < 256 ^ e * (if e = 0 then 128 else 1)" "e \<le> 4" "e \<le> ?n"
      using enc_der_length_octets [OF True] by blast
    show ?thesis
    proof (cases "e = 0")
      case zero: True
      then show ?thesis using r e b True
        by (auto simp: open_asn1_length_def list_update_append intro!: exI [of _ first] exI [of _ "[]"])
    next
      case e0: False
      obtain ok b1 where a: "cbb_buffer_add b (replicate e 0) = (ok, b1)"
        by (cases "cbb_buffer_add b (replicate e 0)")
      note a' = add_spec [OF a]
      show ?thesis
      proof (cases ok)
        case False
        then show ?thesis using r e e0 True a a' b
          by (auto simp: open_asn1_length_def)
      next
        case ok: True
        define junk where "junk = take e (body @ replicate e 0)"
        have lj: "length junk = e" using e(5) by (simp add: junk_def)
        have b1: "buf b1 = pre @ 0 # body @ replicate e 0" using a'(1) ok b(1) by simp
        have "take ?n (drop (Suc (length pre)) (buf b1)) = body" by (simp add: b1)
        moreover have "blit (buf b1) (Suc (length pre) + e) body = pre @ 0 # junk @ body"
          using lj by (simp add: b1 blit_def junk_def)
        ultimately have "r = Some (\<lparr>offset = Suc (length pre), pending_len_len = e, pending_is_asn1 = True\<rparr>, ?n)"
          "b' = b1\<lparr>buf := pre @ first # junk @ body\<rparr>"
          using r e e0 True a ok by (auto simp: open_asn1_length_def list_update_append)
        moreover have "length (buf b1) < 2 ^ 64" using a'(4) ok b(2) e(4) by simp
        ultimately show ?thesis using a' e e0 True lj b1 ok
          by (auto intro!: exI [of _ first] exI [of _ junk])
      qed
    qed
  qed
  then show "same_memory b b' \<and> (error b' \<longrightarrow> error b \<or> r = None)"
    "r = Some (c, len) \<Longrightarrow> \<exists>e first junk. enc_der_length ?n = first # be_bytes e len \<and>
      ?n \<le> 0xfffffffe \<and> length junk = e \<and> len < 256 ^ e \<and> e \<le> 4 \<and>
      c = \<lparr>offset = Suc (length pre), pending_len_len = e, pending_is_asn1 = True\<rparr> \<and>
      buf b' = pre @ first # junk @ body \<and> length (buf b') < 2 ^ 64"
    "growable b \<Longrightarrow> encode_prefix Der ?n = Some p \<Longrightarrow>
      length pre + length p + ?n < 2 ^ 64 \<Longrightarrow> r \<noteq> None"
    by blast+
qed

abbreviation child_at :: "nat \<Rightarrow> prefix \<Rightarrow> cbb_child" where
  "child_at pos k \<equiv> \<lparr>offset = pos, pending_len_len = plen k, pending_is_asn1 = (k = Der)\<rparr>"

lemma write_pending_der:
  assumes b: "buf b = pre @ 0 # body" "length (buf b) < 2 ^ 64" "\<not> error b"
    and w: "write_pending_length b (child_at (length pre) Der) (Suc (length pre)) = (ok, b')"
  shows "same_memory b b'"
    and "ok \<Longrightarrow> encode_prefix Der (length body) = Some (enc_der_length (length body)) \<and>
      buf b' = pre @ enc_der_length (length body) @ body \<and> length (buf b') < 2 ^ 64 \<and> \<not> error b'"
    and "growable b \<Longrightarrow> encode_prefix Der (length body) = Some p \<Longrightarrow>
      length pre + length p + length body < 2 ^ 64 \<Longrightarrow> ok"
proof -
  have n: "length (buf b) - Suc (length pre) = length body" using b(1) by simp
  obtain r b1 where o: "open_asn1_length b \<lparr>offset = length pre, pending_len_len = 1, pending_is_asn1 = True\<rparr>
      (Suc (length pre)) (length body) = (r, b1)"
    by (cases "open_asn1_length b \<lparr>offset = length pre, pending_len_len = 1, pending_is_asn1 = True\<rparr>
      (Suc (length pre)) (length body)")
  note spec = open_asn1_length_spec [OF b(1,2) o]
  have "same_memory b b' \<and> (ok \<longrightarrow> encode_prefix Der (length body) = Some (enc_der_length (length body)) \<and>
      buf b' = pre @ enc_der_length (length body) @ body \<and> length (buf b') < 2 ^ 64 \<and> \<not> error b') \<and>
      (r \<noteq> None \<longrightarrow> ok)"
  proof (cases r)
    case None
    then show ?thesis using w spec(1) o n by (simp add: write_pending_length_def)
  next
    case (Some cl)
    obtain c len where cl: "cl = (c, len)" by (cases cl)
    obtain e first junk where e: "enc_der_length (length body) = first # be_bytes e len"
      "length body \<le> 0xfffffffe" "length junk = e" "len < 256 ^ e" "e \<le> 4"
      "c = \<lparr>offset = Suc (length pre), pending_len_len = e, pending_is_asn1 = True\<rparr>"
      "buf b1 = pre @ first # junk @ body" "length (buf b1) < 2 ^ 64"
      using spec(2) Some cl by blast
    have "(256 :: nat) ^ e \<le> 256 ^ 4" using e(5) by (intro power_increasing) simp_all
    then have len: "len < 2 ^ 64" using e(4) by simp
    have "Suc (length pre) + e \<le> length (buf b1)" using e(3,7) by simp
    note st = store_len [OF this len]
    have "blit (buf b1) (Suc (length pre)) (be_bytes e len) = pre @ first # be_bytes e len @ body"
      using blit_middle [of junk "be_bytes e len" "Suc (length pre)" "pre @ [first]" body] e(3,7) by simp
    then have "ok" "b' = b1\<lparr>buf := pre @ first # be_bytes e len @ body\<rparr>"
      using w o n Some cl e(4,5,6) st by (auto simp: write_pending_length_def Let_def)
    moreover have "length (pre @ first # be_bytes e len @ body) = length (buf b1)" using e(3,7) by simp
    ultimately show ?thesis using e Some spec(1) b(3) by (auto simp del: length_append)
  qed
  then show "same_memory b b'" "ok \<Longrightarrow> encode_prefix Der (length body) = Some (enc_der_length (length body)) \<and>
      buf b' = pre @ enc_der_length (length body) @ body \<and> length (buf b') < 2 ^ 64 \<and> \<not> error b'"
    "growable b \<Longrightarrow> encode_prefix Der (length body) = Some p \<Longrightarrow>
      length pre + length p + length body < 2 ^ 64 \<Longrightarrow> ok"
    using spec(3) by blast+
qed

lemma write_pending_spec:
  assumes b: "buf b = pre @ replicate (plen k) 0 @ body" "length (buf b) < 2 ^ 64" "\<not> error b" "plen k \<le> 8"
    and w: "write_pending_length b (child_at (length pre) k) (length pre + plen k) = (ok, b')"
  shows "same_memory b b'"
    and "ok \<Longrightarrow> with_prefix k body \<noteq> None \<and> buf b' = pre @ the (with_prefix k body) \<and>
      length (buf b') < 2 ^ 64 \<and> \<not> error b'"
    and "growable b \<Longrightarrow> with_prefix k body = Some z \<Longrightarrow> length pre + length z < 2 ^ 64 \<Longrightarrow> ok"
proof -
  have "same_memory b b' \<and> (ok \<longrightarrow> with_prefix k body \<noteq> None \<and> buf b' = pre @ the (with_prefix k body) \<and>
      length (buf b') < 2 ^ 64 \<and> \<not> error b') \<and>
    (growable b \<and> with_prefix k body = Some z \<and> length pre + length z < 2 ^ 64 \<longrightarrow> ok)"
  proof (cases k)
    case (Fixed n)
    then show ?thesis using b w write_pending_fixed [of b pre n body]
      by (auto simp: with_prefix_def)
  next
    case Der
    then show ?thesis using b(1,2,3) w write_pending_der [of b pre body ok b']
      by (auto simp: with_prefix_def)
  qed
  then show "same_memory b b'" "ok \<Longrightarrow> with_prefix k body \<noteq> None \<and> buf b' = pre @ the (with_prefix k body) \<and>
      length (buf b') < 2 ^ 64 \<and> \<not> error b'"
    "growable b \<Longrightarrow> with_prefix k body = Some z \<Longrightarrow> length pre + length z < 2 ^ 64 \<Longrightarrow> ok"
    by blast+
qed

section \<open>Flushing implements closing\<close>

lemma with_prefix_longer: "with_prefix k body = Some z \<Longrightarrow> plen k + length body \<le> length z"
  by (cases k) (auto simp: with_prefix_def enc_der_length_def Let_def split: if_splits)

lemma chain_bytes_Cons [simp]: "chain_bytes ((k, ys) # cs) = replicate (plen k) 0 @ ys @ chain_bytes cs"
  by (simp add: chain_bytes_def)

lemma chain_bytes_Nil [simp]: "chain_bytes [] = []"
  by (simp add: chain_bytes_def)

definition small_prefixes :: "(prefix \<times> u8 list) list \<Rightarrow> bool" where
  "small_prefixes cs \<longleftrightarrow> (\<forall>k \<in> fst ` set cs. 0 < plen k \<and> plen k \<le> 8)"

lemma small_prefixes_simps [simp]:
  "small_prefixes []"
  "small_prefixes ((k, ys) # cs) \<longleftrightarrow> 0 < plen k \<and> plen k \<le> 8 \<and> small_prefixes cs"
  "small_prefixes (cs @ ds) \<longleftrightarrow> small_prefixes cs \<and> small_prefixes ds"
  by (auto simp: small_prefixes_def)

lemma flush_chain_spec:
  assumes "buf b = pre @ chain_bytes cs" "length (buf b) < 2 ^ 64" "\<not> error b" "small_prefixes cs"
    and "flush_chain b (chain_children (length pre) cs) = (ok, b', rest)"
  shows "same_memory b b' \<and> (\<not> ok \<longrightarrow> error b') \<and>
    (ok \<longrightarrow> rest = [] \<and> close_chain cs \<noteq> None \<and> buf b' = pre @ the (close_chain cs) \<and>
       length (buf b') < 2 ^ 64 \<and> \<not> error b') \<and>
    (\<forall>z. growable b \<and> close_chain cs = Some z \<and> length pre + length z < 2 ^ 64 \<longrightarrow> ok)"
  using assms
proof (induction cs arbitrary: b pre ok b' rest)
  case Nil
  then show ?case by auto
next
  case (Cons c cs)
  obtain k ys where c: "c = (k, ys)" by (cases c)
  define pre' where "pre' = pre @ replicate (plen k) 0 @ ys"
  have pos: "length pre + plen k + length ys = length pre'" by (simp add: pre'_def)
  obtain ok1 b1 rest1 where f: "flush_chain b (chain_children (length pre') cs) = (ok1, b1, rest1)"
    by (cases "flush_chain b (chain_children (length pre') cs)")
  have b: "buf b = pre' @ chain_bytes cs" using Cons.prems(1) by (simp add: c pre'_def)
  have small: "0 < plen k" "plen k \<le> 8" "small_prefixes cs" using Cons.prems(4) by (simp_all add: c)
  note IH = Cons.IH [OF b Cons.prems(2,3) small(3) f]
  have fit: "length pre + plen k < 2 ^ 64" using Cons.prems(1,2) by (simp add: c)
  then have start: "size_add (length pre) (plen k) = length pre + plen k" by simp
  show ?case
  proof (cases ok1)
    case False
    then show ?thesis using Cons.prems IH f small start
      by (auto simp: c pos growable_def dest!: with_prefix_longer split: option.splits)
        (auto simp: pre'_def)
  next
    case True
    then obtain z where z: "close_chain cs = Some z" "buf b1 = pre @ replicate (plen k) 0 @ (ys @ z)"
      "length (buf b1) < 2 ^ 64" "\<not> error b1" "same_memory b b1"
      using IH by (auto simp: pre'_def)
    obtain ok2 b2 where w: "write_pending_length b1 (child_at (length pre) k) (length pre + plen k) = (ok2, b2)"
      by (cases "write_pending_length b1 (child_at (length pre) k) (length pre + plen k)")
    note W = write_pending_spec [OF z(2,3,4) small(2) w]
    have "\<not> length (buf b1) < length pre + plen k" using z(2) by simp
    then have "(ok, b', rest) = (if ok2 then (True, b2, []) else (False, b2\<lparr>error := True\<rparr>, child_at (length pre) k # rest1))"
      using Cons.prems(3,5) f True start small(1) w by (simp add: c pos split: bool.splits)
    then show ?thesis using W z small
      by (auto simp: c dest: same_memory_trans same_memory_growable split: if_splits)
  qed
qed

section \<open>What an operation performs\<close>

lemma length_chain_children [simp]: "length (chain_children pos cs) = length cs"
  by (induction pos cs rule: chain_children.induct) auto

lemma take_chain_children: "take d (chain_children pos cs) = chain_children pos (take d cs)"
proof (induction cs arbitrary: pos d)
  case (Cons c cs)
  then show ?case by (cases c; cases d) simp_all
qed simp

lemma drop_chain_children:
  "drop d (chain_children pos cs) = chain_children (pos + length (chain_bytes (take d cs))) (drop d cs)"
proof (induction cs arbitrary: pos d)
  case (Cons c cs)
  then show ?case by (cases c; cases d) (simp_all add: add.assoc)
qed simp

lemma chain_children_append:
  "chain_children pos (cs @ ds) =
    chain_children pos cs @ chain_children (pos + length (chain_bytes cs)) ds"
proof (induction cs arbitrary: pos)
  case (Cons c cs)
  then show ?case by (cases c) (simp add: add.assoc)
qed simp

lemma chain_bytes_append [simp]: "chain_bytes (cs @ ds) = chain_bytes cs @ chain_bytes ds"
  by (simp add: chain_bytes_def)

lemma builder_bytes_extend [simp]: "builder_bytes (extend A z) = builder_bytes A @ z"
proof (cases A)
  case (Pair xs cs)
  then show ?thesis by (cases cs rule: rev_cases) (auto simp: builder_bytes_def split: prod.splits)
qed

lemma extend_children:
  "chain_children (length (fst (extend A z))) (snd (extend A z)) = chain_children (length (fst A)) (snd A)"
proof (cases A)
  case (Pair xs cs)
  then show ?thesis
    by (cases cs rule: rev_cases) (auto simp: chain_children_append split: prod.splits)
qed

lemma extend_depth [simp]: "length (snd (extend A z)) = length (snd A)"
  by (cases A) simp

lemma extend_prefixes [simp]: "small_prefixes (snd (extend A z)) = small_prefixes (snd A)"
proof (cases A)
  case (Pair xs cs)
  then show ?thesis by (cases cs rule: rev_cases) auto
qed

lemma extend_Nil [simp]: "extend A [] = A"
  by (cases A; cases "snd A" rule: rev_cases) auto

lemma extend_extend [simp]: "extend (extend A y) z = extend A (y @ z)"
  by (cases A) auto

lemma cbb_rep_iff:
  "cbb_rep cbb A \<longleftrightarrow>
    (\<exists>b. base cbb = Some b \<and> \<not> error b \<and> buf b = builder_bytes A \<and> length (buf b) < 2 ^ 64 \<and>
       children cbb = chain_children (length (fst A)) (snd A) \<and> small_prefixes (snd A))"
  by (auto simp: cbb_rep_def small_prefixes_def split: option.splits)

definition cbb_grows :: "cbb \<Rightarrow> bool" where
  "cbb_grows cbb \<longleftrightarrow> (\<exists>b. base cbb = Some b \<and> growable b)"

definition cbb_failed :: "cbb \<Rightarrow> bool" where
  "cbb_failed cbb \<longleftrightarrow> (\<exists>b. base cbb = Some b \<and> error b)"

text \<open>
  The contract of an operation on a handle of depth \<open>d\<close> that leaves the chain at depth \<open>e\<close>.
  When it reports success the abstract builder could make the step and the state represents the
  result; when it fails the error flag is set; and when the buffer can grow it fails only if the
  abstract builder cannot make the step or the result does not fit in the address space.
\<close>

definition performs :: "nat \<Rightarrow> cbb_op \<Rightarrow> (builder \<Rightarrow> builder option) \<Rightarrow> nat \<Rightarrow> bool" where
  "performs d f F e \<longleftrightarrow>
    (\<forall>A B. d \<le> length (snd A) \<longrightarrow> F A = Some B \<longrightarrow>
       length (snd B) = e \<and> length (builder_bytes A) \<le> length (builder_bytes B)) \<and>
    (\<forall>st A ok st'. cbb_rep st A \<longrightarrow> d \<le> length (snd A) \<longrightarrow> f st = (ok, st') \<longrightarrow>
       (cbb_grows st \<longrightarrow> cbb_grows st') \<and>
       (if ok then \<exists>B. F A = Some B \<and> cbb_rep st' B
        else cbb_failed st' \<and>
          (cbb_grows st \<longrightarrow> (\<forall>B. F A = Some B \<longrightarrow> \<not> length (builder_bytes B) < 2 ^ 64))))"

definition write_at :: "nat \<Rightarrow> u8 list \<Rightarrow> builder \<Rightarrow> builder option" where
  "write_at d z A = map_option (\<lambda>B. extend B z) (close_to d A)"

definition open_at :: "nat \<Rightarrow> prefix \<Rightarrow> builder \<Rightarrow> builder option" where
  "open_at d k A = map_option (open_child k) (close_to d A)"

abbreviation writes :: "nat \<Rightarrow> cbb_op \<Rightarrow> u8 list \<Rightarrow> bool" where
  "writes d f z \<equiv> performs d f (write_at d z) d"

lemma performs_shape:
  "performs d f F e \<Longrightarrow> d \<le> length (snd A) \<Longrightarrow> F A = Some B \<Longrightarrow>
   length (snd B) = e \<and> length (builder_bytes A) \<le> length (builder_bytes B)"
  unfolding performs_def by blast

lemma performs_ok:
  assumes "performs d f F e" "cbb_rep st A" "d \<le> length (snd A)" "f st = (True, st')"
  shows "\<exists>B. F A = Some B \<and> cbb_rep st' B" "cbb_grows st \<Longrightarrow> cbb_grows st'"
  using assms unfolding performs_def by (metis (full_types))+

lemma performs_fail:
  assumes "performs d f F e" "cbb_rep st A" "d \<le> length (snd A)" "f st = (False, st')"
  shows "cbb_failed st'" "cbb_grows st \<Longrightarrow> cbb_grows st'"
    "cbb_grows st \<Longrightarrow> F A = Some B \<Longrightarrow> \<not> length (builder_bytes B) < 2 ^ 64"
  using assms unfolding performs_def by (metis (full_types))+

lemma performsI:
  assumes "\<And>A B. d \<le> length (snd A) \<Longrightarrow> F A = Some B \<Longrightarrow>
      length (snd B) = e \<and> length (builder_bytes A) \<le> length (builder_bytes B)"
    and "\<And>st A st'. cbb_rep st A \<Longrightarrow> d \<le> length (snd A) \<Longrightarrow> f st = (True, st') \<Longrightarrow>
      (cbb_grows st \<longrightarrow> cbb_grows st') \<and> (\<exists>B. F A = Some B \<and> cbb_rep st' B)"
    and "\<And>st A st'. cbb_rep st A \<Longrightarrow> d \<le> length (snd A) \<Longrightarrow> f st = (False, st') \<Longrightarrow>
      cbb_failed st' \<and> (cbb_grows st \<longrightarrow> cbb_grows st') \<and>
      (\<forall>B. cbb_grows st \<longrightarrow> F A = Some B \<longrightarrow> \<not> length (builder_bytes B) < 2 ^ 64)"
  shows "performs d f F e"
  unfolding performs_def
proof (intro conjI allI impI)
  fix st A ok st'
  assume "cbb_rep st A" "d \<le> length (snd A)" "f st = (ok, st')"
  then show "if ok then \<exists>B. F A = Some B \<and> cbb_rep st' B
     else cbb_failed st' \<and>
       (cbb_grows st \<longrightarrow> (\<forall>B. F A = Some B \<longrightarrow> \<not> length (builder_bytes B) < 2 ^ 64))"
    using assms(2,3) by (cases ok) auto
next
  fix st A ok st'
  assume "cbb_rep st A" "d \<le> length (snd A)" "f st = (ok, st')" "cbb_grows st"
  then show "cbb_grows st'" using assms(2,3) by (cases ok) auto
qed (use assms(1) in blast)+

lemma performsI':
  assumes "\<And>A B. d \<le> length (snd A) \<Longrightarrow> F A = Some B \<Longrightarrow>
      length (snd B) = e \<and> length (builder_bytes A) \<le> length (builder_bytes B)"
    and "\<And>st A ok st'. cbb_rep st A \<Longrightarrow> d \<le> length (snd A) \<Longrightarrow> f st = (ok, st') \<Longrightarrow>
      (cbb_grows st \<longrightarrow> cbb_grows st') \<and>
      (ok \<longrightarrow> (\<exists>B. F A = Some B \<and> cbb_rep st' B)) \<and>
      (\<not> ok \<longrightarrow> cbb_failed st' \<and>
        (\<forall>B. cbb_grows st \<longrightarrow> F A = Some B \<longrightarrow> \<not> length (builder_bytes B) < 2 ^ 64))"
  shows "performs d f F e"
proof (rule performsI)
  fix st A st' assume "cbb_rep st A" "d \<le> length (snd A)" "f st = (True, st')"
  from assms(2) [OF this] show "(cbb_grows st \<longrightarrow> cbb_grows st') \<and> (\<exists>B. F A = Some B \<and> cbb_rep st' B)"
    by blast
next
  fix st A st' assume "cbb_rep st A" "d \<le> length (snd A)" "f st = (False, st')"
  from assms(2) [OF this] show "cbb_failed st' \<and> (cbb_grows st \<longrightarrow> cbb_grows st') \<and>
      (\<forall>B. cbb_grows st \<longrightarrow> F A = Some B \<longrightarrow> \<not> length (builder_bytes B) < 2 ^ 64)"
    by blast
qed (rule assms(1))

lemma performs_and_then:
  assumes f: "performs d f F e" and g: "performs d' g G e'" and "d' \<le> e"
  shows "performs d (and_then f g) (\<lambda>A. Option.bind (F A) G) e'"
proof (rule performsI)
  fix A C assume A: "d \<le> length (snd A)" "Option.bind (F A) G = Some C"
  then obtain B where "F A = Some B" "G B = Some C" by (auto simp: bind_eq_Some_conv)
  then show "length (snd C) = e' \<and> length (builder_bytes A) \<le> length (builder_bytes C)"
    using performs_shape [OF f A(1)] performs_shape [OF g, of B C] assms(3) by fastforce
next
  fix st A st' assume A: "cbb_rep st A" "d \<le> length (snd A)" "and_then f g st = (True, st')"
  then obtain st1 where 1: "f st = (True, st1)" "g st1 = (True, st')"
    by (auto simp: and_then_def split: prod.splits bool.splits)
  obtain B where B: "F A = Some B" "cbb_rep st1 B" using performs_ok(1) [OF f A(1,2) 1(1)] by blast
  have d': "d' \<le> length (snd B)" using performs_shape [OF f A(2) B(1)] assms(3) by simp
  show "(cbb_grows st \<longrightarrow> cbb_grows st') \<and> (\<exists>C. Option.bind (F A) G = Some C \<and> cbb_rep st' C)"
    using performs_ok(2) [OF f A(1,2) 1(1)] performs_ok [OF g B(2) d' 1(2)] B(1) by auto
next
  fix st A st' assume A: "cbb_rep st A" "d \<le> length (snd A)" "and_then f g st = (False, st')"
  consider "f st = (False, st')" | st1 where "f st = (True, st1)" "g st1 = (False, st')"
    using A(3) by (auto simp: and_then_def split: prod.splits bool.splits)
  then show "cbb_failed st' \<and> (cbb_grows st \<longrightarrow> cbb_grows st') \<and>
      (\<forall>C. cbb_grows st \<longrightarrow> Option.bind (F A) G = Some C \<longrightarrow> \<not> length (builder_bytes C) < 2 ^ 64)"
  proof cases
    case 1
    note r = performs_fail [OF f A(1,2) 1]
    have "\<not> length (builder_bytes C) < 2 ^ 64" if c: "cbb_grows st" "Option.bind (F A) G = Some C" for C
    proof -
      obtain B where B: "F A = Some B" "G B = Some C" using c(2) by (auto simp: bind_eq_Some_conv)
      then have "length (builder_bytes B) \<le> length (builder_bytes C)"
        using performs_shape [OF f A(2) B(1)] performs_shape [OF g _ B(2)] assms(3) by simp
      then show ?thesis using r(3) [OF c(1) B(1)] by simp
    qed
    then show ?thesis using r(1,2) by blast
  next
    case 2
    obtain B where B: "F A = Some B" "cbb_rep st1 B" using performs_ok(1) [OF f A(1,2) 2(1)] by blast
    have d': "d' \<le> length (snd B)" using performs_shape [OF f A(2) B(1)] assms(3) by simp
    show ?thesis
      using performs_ok(2) [OF f A(1,2) 2(1)] performs_fail [OF g B(2) d' 2(2)] B(1) by auto
  qed
qed

section \<open>The contracts of the operations\<close>

definition appends :: "(cbb_buffer \<Rightarrow> bool \<times> cbb_buffer) \<Rightarrow> u8 list \<Rightarrow> bool" where
  "appends f z \<longleftrightarrow>
    (\<forall>b ok b'. \<not> error b \<longrightarrow> length (buf b) < 2 ^ 64 \<longrightarrow> f b = (ok, b') \<longrightarrow>
       same_memory b b' \<and> (\<not> ok \<longrightarrow> error b') \<and>
       (ok \<longrightarrow> buf b' = buf b @ z \<and> \<not> error b' \<and> length (buf b') < 2 ^ 64) \<and>
       (growable b \<and> length (buf b) + length z < 2 ^ 64 \<longrightarrow> ok))"

lemma appends_add: "length z < 2 ^ 64 \<Longrightarrow> appends (\<lambda>b. cbb_buffer_add b z) z"
  unfolding appends_def using add_spec by (metis (full_types))

lemma be_bytes_0 [simp]: "be_bytes 0 v = []"
  by simp

lemma add_u_eq:
  assumes "unat v < 256 ^ n" "n \<noteq> 0"
  shows "cbb_buffer_add_u b v n = cbb_buffer_add b (be_bytes n (unat v))"
proof -
  obtain ok b1 where r: "cbb_buffer_reserve b n = (ok, b1)" by (cases "cbb_buffer_reserve b n")
  have "store_be_loop (buf b1 @ replicate n 0) (length (buf b1)) n v =
      (buf b1 @ be_bytes n (unat v), drop_bit (8 * n) v)"
    using blit_middle [of "replicate n 0" "be_bytes n (unat v)" _ "buf b1" "[]"]
    by (simp add: store_be_loop_eq)
  moreover have "drop_bit (8 * n) v = 0"
    using assms(1) by (simp add: drop_bit_eq_0_iff power_mult)
  ultimately show ?thesis
    using assms(2) r by (cases ok) (simp_all add: cbb_buffer_add_u_def cbb_buffer_add_def)
qed

lemma appends_add_u:
  assumes "unat v < 256 ^ n" "n \<le> 8"
  shows "appends (\<lambda>b. cbb_buffer_add_u b v n) (be_bytes n (unat v))"
proof (cases "n = 0")
  case True
  then show ?thesis by (simp add: appends_def cbb_buffer_add_u_def)
next
  case False
  have "length (be_bytes n (unat v)) < 2 ^ 64" using assms(2) by simp
  then show ?thesis using appends_add add_u_eq [OF assms(1) False] by presburger
qed

lemma performs_flush: "writes d (CBB_flush d) []"
proof (rule performsI')
  fix A B assume d: "d \<le> length (snd A)" and B: "write_at d [] A = Some B"
  obtain xs cs where A: "A = (xs, cs)" by (cases A)
  obtain z where z: "close_chain (drop d cs) = Some z" "B = extend (xs, take d cs) z"
    using B by (auto simp: write_at_def close_to_def A)
  have grow: "length (chain_bytes ds) \<le> length z'" if "close_chain ds = Some z'" for ds z'
    using that
  proof (induction ds arbitrary: z')
    case (Cons c ds)
    then show ?case by (cases c) (fastforce split: option.splits dest: with_prefix_longer)
  qed simp
  have "chain_bytes cs = chain_bytes (take d cs) @ chain_bytes (drop d cs)"
    by (simp flip: chain_bytes_append)
  then show "length (snd B) = d \<and> length (builder_bytes A) \<le> length (builder_bytes B)"
    using d grow [OF z(1)] by (simp add: z(2) A builder_bytes_extend del: extend.simps) (simp add: builder_bytes_def)
next
  fix st A ok' st'
  assume rep: "cbb_rep st A" and d: "d \<le> length (snd A)" and run: "CBB_flush d st = (ok', st')"
  obtain xs cs where A: "A = (xs, cs)" by (cases A)
  obtain b where b: "base st = Some b" "\<not> error b" "buf b = builder_bytes A" "length (buf b) < 2 ^ 64"
    "children st = chain_children (length xs) cs" "small_prefixes cs"
    using rep by (auto simp: cbb_rep_iff A)
  define pre where "pre = xs @ chain_bytes (take d cs)"
  obtain ok b' rest where f: "flush_chain b (chain_children (length pre) (drop d cs)) = (ok, b', rest)"
    by (cases "flush_chain b (chain_children (length pre) (drop d cs))")
  have "buf b = pre @ chain_bytes (drop d cs)"
    by (simp add: b(3) A builder_bytes_def pre_def flip: chain_bytes_append)
  moreover have small: "small_prefixes (drop d cs)" "small_prefixes (take d cs)"
    using b(6) by (simp_all add: small_prefixes_def) (meson image_eqI in_set_dropD in_set_takeD)+
  ultimately have spec: "same_memory b b' \<and> (\<not> ok \<longrightarrow> error b') \<and>
    (ok \<longrightarrow> rest = [] \<and> close_chain (drop d cs) \<noteq> None \<and> buf b' = pre @ the (close_chain (drop d cs)) \<and>
       length (buf b') < 2 ^ 64 \<and> \<not> error b') \<and>
    (\<forall>z. growable b \<and> close_chain (drop d cs) = Some z \<and> length pre + length z < 2 ^ 64 \<longrightarrow> ok)"
    using flush_chain_spec [OF _ b(4,2) _ f] by blast
  have fl: "CBB_flush d st = (ok, st\<lparr>base := Some b', children := take d (children st) @ rest\<rparr>)"
    using d f by (simp add: CBB_flush_def b A drop_chain_children pre_def not_less)
  have bytes: "builder_bytes (xs, take d cs) = pre" by (simp add: builder_bytes_def pre_def)
  have ok: "ok' = ok" "st' = st\<lparr>base := Some b', children := take d (children st) @ rest\<rparr>"
    using fl run by simp_all
  have "\<exists>B. write_at d [] A = Some B \<and> cbb_rep st' B" if ok
  proof -
    have "close_chain (drop d cs) \<noteq> None" "buf b' = pre @ the (close_chain (drop d cs))"
      using spec that by blast+
    then obtain z where z: "close_chain (drop d cs) = Some z" "buf b' = pre @ z" by auto
    let ?B = "extend (xs, take d cs) z"
    have "write_at d [] A = Some ?B" by (simp add: write_at_def close_to_def A z del: extend.simps)
    moreover have "cbb_rep st' ?B"
      using that ok spec z small unfolding cbb_rep_iff builder_bytes_extend bytes extend_children extend_prefixes
      by (simp add: b(5) take_chain_children)
    ultimately show ?thesis by blast
  qed
  moreover have "\<not> length (builder_bytes B) < 2 ^ 64"
    if fail: "\<not> ok" "cbb_grows st" "write_at d [] A = Some B" for B
  proof -
    obtain z where z: "close_chain (drop d cs) = Some z" "B = extend (xs, take d cs) z"
      using fail(3) by (auto simp: write_at_def close_to_def A simp del: extend.simps)
    then have "builder_bytes B = pre @ z" by (simp add: bytes del: extend.simps)
    then show ?thesis using spec z fail(1,2) b by (auto simp: cbb_grows_def)
  qed
  ultimately show "(cbb_grows st \<longrightarrow> cbb_grows st') \<and>
      (ok' \<longrightarrow> (\<exists>B. write_at d [] A = Some B \<and> cbb_rep st' B)) \<and>
      (\<not> ok' \<longrightarrow> cbb_failed st' \<and>
        (\<forall>B. cbb_grows st \<longrightarrow> write_at d [] A = Some B \<longrightarrow> \<not> length (builder_bytes B) < 2 ^ 64))"
    using spec ok by (auto simp: cbb_grows_def cbb_failed_def b intro: same_memory_growable)
qed

lemma write_at_Nil: "write_at d [] = close_to d"
  by (rule ext) (simp add: write_at_def option.map_ident)

lemma close_to_depth: "close_to d A = Some B \<Longrightarrow> d \<le> length (snd A) \<Longrightarrow> length (snd B) = d"
  using performs_shape [OF performs_flush] by (simp add: write_at_Nil)

text \<open>After \<open>f\<close> has written \<open>y\<close> the chain has depth \<open>d\<close>, so \<open>g\<close> matters there only.\<close>

lemma performs_exact_then:
  assumes f: "writes d f y"
    and shape: "\<And>A. length (snd A) = d \<Longrightarrow>
      length (snd (H A)) = e \<and> length (builder_bytes A) \<le> length (builder_bytes (H A))"
    and g: "\<And>st A ok st'. cbb_rep st A \<Longrightarrow> length (snd A) = d \<Longrightarrow> g st = (ok, st') \<Longrightarrow>
      (cbb_grows st \<longrightarrow> cbb_grows st') \<and> (ok \<longrightarrow> cbb_rep st' (H A)) \<and>
      (\<not> ok \<longrightarrow> cbb_failed st' \<and> (cbb_grows st \<longrightarrow> \<not> length (builder_bytes (H A)) < 2 ^ 64))"
  shows "performs d (and_then f g) (\<lambda>A. map_option H (write_at d y A)) e"
proof (rule performsI')
  fix A C assume A: "d \<le> length (snd A)" "map_option H (write_at d y A) = Some C"
  then obtain B where B: "write_at d y A = Some B" "C = H B" by auto
  show "length (snd C) = e \<and> length (builder_bytes A) \<le> length (builder_bytes C)"
    using shape [of B] performs_shape [OF f A(1) B(1)] B(2) by simp
next
  fix st A ok st' assume A: "cbb_rep st A" "d \<le> length (snd A)" "and_then f g st = (ok, st')"
  let ?goal = "(cbb_grows st \<longrightarrow> cbb_grows st') \<and>
      (ok \<longrightarrow> (\<exists>B. map_option H (write_at d y A) = Some B \<and> cbb_rep st' B)) \<and>
      (\<not> ok \<longrightarrow> cbb_failed st' \<and>
        (\<forall>B. cbb_grows st \<longrightarrow> map_option H (write_at d y A) = Some B \<longrightarrow> \<not> length (builder_bytes B) < 2 ^ 64))"
  consider st1 where "f st = (False, st1)" | st1 where "f st = (True, st1)"
    by (metis (full_types) surj_pair)
  then show ?goal
  proof cases
    case 1
    then have "ok = False" "st' = st1" using A(3) by (simp_all add: and_then_def)
    moreover have "\<not> length (builder_bytes C) < 2 ^ 64"
      if C: "cbb_grows st" "map_option H (write_at d y A) = Some C" for C
    proof -
      obtain B where B: "write_at d y A = Some B" "C = H B" using C(2) by auto
      then have "\<not> length (builder_bytes B) < 2 ^ 64" using performs_fail(3) [OF f A(1,2) 1 C(1)] by simp
      then show ?thesis using shape [of B] performs_shape [OF f A(2) B(1)] B(2) by simp
    qed
    ultimately show ?thesis using performs_fail(1,2) [OF f A(1,2) 1] by blast
  next
    case 2
    then have run: "g st1 = (ok, st')" using A(3) by (simp add: and_then_def)
    obtain B where B: "write_at d y A = Some B" "cbb_rep st1 B" using performs_ok(1) [OF f A(1,2) 2] by auto
    have "length (snd B) = d" using performs_shape [OF f A(2) B(1)] by blast
    then show ?thesis using g [OF B(2) _ run] performs_ok(2) [OF f A(1,2) 2] B(1) by auto
  qed
qed

lemmas performs_flush_then = performs_exact_then [OF performs_flush, unfolded write_at_Nil]

lemma performs_append:
  assumes "appends f z"
  shows "writes d (and_then (CBB_flush d) (on_base f)) z"
  unfolding write_at_def
proof (rule performs_flush_then)
  fix st A ok st' assume A: "cbb_rep st A" "on_base f st = (ok, st')"
  obtain b where b: "base st = Some b" "\<not> error b" "buf b = builder_bytes A" "length (buf b) < 2 ^ 64"
    "children st = chain_children (length (fst A)) (snd A)" "small_prefixes (snd A)"
    using A(1) by (auto simp: cbb_rep_iff)
  obtain b' where b': "f b = (ok, b')" "st' = st\<lparr>base := Some b'\<rparr>"
    using A(2) b(1) by (auto simp: on_base_def split: prod.splits)
  have "same_memory b b' \<and> (\<not> ok \<longrightarrow> error b') \<and>
       (ok \<longrightarrow> buf b' = buf b @ z \<and> \<not> error b' \<and> length (buf b') < 2 ^ 64) \<and>
       (growable b \<and> length (buf b) + length z < 2 ^ 64 \<longrightarrow> ok)"
    using assms b(2,4) b'(1) unfolding appends_def by blast
  moreover have "cbb_rep st' (extend A z)" if ok
  proof -
    have "buf b' = buf b @ z" "length (buf b') < 2 ^ 64" "\<not> error b'" using calculation that by blast+
    then show ?thesis
      unfolding cbb_rep_iff builder_bytes_extend extend_children extend_prefixes
      using b b'(2) by (intro exI [of _ b']) simp
  qed
  ultimately show "(cbb_grows st \<longrightarrow> cbb_grows st') \<and> (ok \<longrightarrow> cbb_rep st' (extend A z)) \<and>
      (\<not> ok \<longrightarrow> cbb_failed st' \<and> (cbb_grows st \<longrightarrow> \<not> length (builder_bytes (extend A z)) < 2 ^ 64))"
    using b(1,3) b'(2) by (auto simp: cbb_grows_def cbb_failed_def intro: same_memory_growable)
qed simp_all

named_theorems cbb_write \<open>what the operations write\<close>

lemma writes_bytes [cbb_write]: "length data < 2 ^ 64 \<Longrightarrow> writes d (CBB_add_bytes d data) data"
  unfolding CBB_add_bytes_def by (intro performs_append appends_add)

lemma writes_space [cbb_write]: "length data < 2 ^ 64 \<Longrightarrow> writes d (CBB_add_space d data) data"
  unfolding CBB_add_space_def by (intro performs_append appends_add)

lemma writes_zeros [cbb_write]: "n < 2 ^ 64 \<Longrightarrow> writes d (CBB_add_zeros d n) (replicate n 0)"
  unfolding CBB_add_zeros_def by (intro writes_space) simp

lemma writes_add_u:
  assumes "unat (v :: u64) < 256 ^ n" "n \<le> 8"
  shows "writes d (and_then (CBB_flush d) (on_base (\<lambda>b. cbb_buffer_add_u b v n))) (be_bytes n (unat v))"
  using assms by (intro performs_append appends_add_u)

lemma writes_u8 [cbb_write]: "writes d (CBB_add_u8 d v) [v]"
  using writes_add_u [of "ucast v" 1 d] by (simp add: CBB_add_u8_def)

lemma writes_u16 [cbb_write]: "writes d (CBB_add_u16 d v) (enc_be 2 v)"
  using writes_add_u [of "ucast v" 2 d] unsigned_less [of v, where ?'a = nat]
  by (simp add: CBB_add_u16_def enc_be_def unat_ucast_up)

lemma writes_u24 [cbb_write]: "unat v < 2 ^ 24 \<Longrightarrow> writes d (CBB_add_u24 d v) (enc_be 3 v)"
  using writes_add_u [of "ucast v" 3 d]
  by (simp add: CBB_add_u24_def enc_be_def unat_ucast_up)

lemma writes_u32 [cbb_write]: "writes d (CBB_add_u32 d v) (enc_be 4 v)"
  using writes_add_u [of "ucast v" 4 d] unsigned_less [of v, where ?'a = nat]
  by (simp add: CBB_add_u32_def enc_be_def unat_ucast_up)

lemma writes_u64 [cbb_write]: "writes d (CBB_add_u64 d v) (enc_be 8 v)"
  using writes_add_u [of v 8 d] unat_u64_lt [of v]
  by (simp add: CBB_add_u64_def enc_be_def)

lemma enc_be_bswap:
  "enc_be 2 (CRYPTO_bswap2 v2) = enc_le 2 v2"
  "enc_be 4 (CRYPTO_bswap4 v4) = enc_le 4 v4"
  "enc_be 8 (CRYPTO_bswap8 v8) = enc_le 8 v8"
proof -
  have v: "of_nat (be_val (enc_be 2 v2)) = v2" "of_nat (be_val (enc_be 4 v4)) = v4"
    "of_nat (be_val (enc_be 8 v8)) = v8"
    using unsigned_less [of v2, where ?'a = nat] unsigned_less [of v4, where ?'a = nat] unat_u64_lt [of v8]
    by (simp_all add: val_enc_be)
  have rev: "enc_le 2 v2 = rev (enc_be 2 v2)" "enc_le 4 v4 = rev (enc_be 4 v4)" "enc_le 8 v8 = rev (enc_be 8 v8)"
    by (simp_all add: enc_le_def enc_be_def)
  have bound: "be_val (rev (enc_be 2 v2)) < 256 ^ 2" "be_val (rev (enc_be 4 v4)) < 256 ^ 4"
    "be_val (rev (enc_be 8 v8)) < 256 ^ 8"
    using be_val_bound [of "rev (enc_be 2 v2)"] be_val_bound [of "rev (enc_be 4 v4)"]
      be_val_bound [of "rev (enc_be 8 v8)"] by simp_all
  show "enc_be 2 (CRYPTO_bswap2 v2) = enc_le 2 v2"
    using bswap2_of_be [of "enc_be 2 v2"] bound(1) unfolding v rev le_val_def
    by (simp add: enc_be_val)
  show "enc_be 4 (CRYPTO_bswap4 v4) = enc_le 4 v4"
    using bswap4_of_be [of "enc_be 4 v4"] bound(2) unfolding v rev le_val_def
    by (simp add: enc_be_val)
  show "enc_be 8 (CRYPTO_bswap8 v8) = enc_le 8 v8"
    using bswap8_of_be [of "enc_be 8 v8"] bound(3) unfolding v rev le_val_def
    by (simp add: enc_be_val)
qed

lemma writes_le [cbb_write]:
  "writes d (CBB_add_u16le d v2) (enc_le 2 v2)"
  "writes d (CBB_add_u32le d v4) (enc_le 4 v4)"
  "writes d (CBB_add_u64le d v8) (enc_le 8 v8)"
  using writes_u16 [of d "CRYPTO_bswap2 v2"] writes_u32 [of d "CRYPTO_bswap4 v4"]
    writes_u64 [of d "CRYPTO_bswap8 v8"]
  by (simp_all add: CBB_add_u16le_def CBB_add_u32le_def CBB_add_u64le_def enc_be_bswap)

section \<open>Sequences and children\<close>

lemma close_to_write: "write_at d z A = Some B \<Longrightarrow> d \<le> length (snd A) \<Longrightarrow> close_to d B = Some B"
proof -
  assume B: "write_at d z A = Some B" and d: "d \<le> length (snd A)"
  then obtain C where C: "close_to d A = Some C" "B = extend C z" by (auto simp: write_at_def)
  have "length (snd B) = d" using close_to_depth [OF C(1) d] by (simp add: C(2))
  then show ?thesis by (cases B) (auto simp: close_to_def simp del: extend.simps)
qed

lemma write_at_write_at:
  "d \<le> length (snd A) \<Longrightarrow> Option.bind (write_at d y A) (write_at d z) = write_at d (y @ z) A"
proof (cases "close_to d A")
  case (Some B)
  assume d: "d \<le> length (snd A)"
  have "close_to d (extend B y) = Some (extend B y)"
    using close_to_write [of d y A "extend B y"] Some d by (simp add: write_at_def)
  with Some show ?thesis by (simp add: write_at_def)
qed (simp add: write_at_def)

lemma performs_cong:
  assumes "performs d f F e" "\<And>A. d \<le> length (snd A) \<Longrightarrow> F A = G A"
  shows "performs d f G e"
proof (rule performsI)
  fix st A st' assume A: "cbb_rep st A" "d \<le> length (snd A)" "f st = (True, st')"
  show "(cbb_grows st \<longrightarrow> cbb_grows st') \<and> (\<exists>B. G A = Some B \<and> cbb_rep st' B)"
    using performs_ok [OF assms(1) A] unfolding assms(2) [OF A(2)] by blast
next
  fix st A st' assume A: "cbb_rep st A" "d \<le> length (snd A)" "f st = (False, st')"
  show "cbb_failed st' \<and> (cbb_grows st \<longrightarrow> cbb_grows st') \<and>
      (\<forall>B. cbb_grows st \<longrightarrow> G A = Some B \<longrightarrow> \<not> length (builder_bytes B) < 2 ^ 64)"
    using performs_fail [OF assms(1) A] unfolding assms(2) [OF A(2)] by blast
next
  fix A B assume A: "d \<le> length (snd A)" "G A = Some B"
  show "length (snd B) = e \<and> length (builder_bytes A) \<le> length (builder_bytes B)"
    using performs_shape [OF assms(1) A(1)] A(2) unfolding assms(2) [OF A(1)] by blast
qed

lemma writes_and_then [cbb_write]:
  assumes "writes d f y" "writes d g z"
  shows "writes d (and_then f g) (y @ z)"
  by (rule performs_cong [OF performs_and_then [OF assms order_refl]]) (rule write_at_write_at)

text \<open>A child is opened behind \<open>y\<close>, filled with \<open>z\<close>, and closed by a flush of its parent.\<close>

definition opens :: "nat \<Rightarrow> cbb_op \<Rightarrow> u8 list \<Rightarrow> prefix \<Rightarrow> bool" where
  "opens d f y k \<longleftrightarrow>
    performs d f (\<lambda>A. map_option (open_child k) (write_at d y A)) (Suc d)"

lemma performs_child:
  assumes f: "opens d f y k" and g: "writes (Suc d) g z"
  shows "performs d (and_then f (and_then g (CBB_flush d)))
    (\<lambda>A. Option.bind (with_prefix k z) (\<lambda>x. write_at d (y @ x) A)) d"
proof -
  have 1: "performs (Suc d) (and_then g (CBB_flush d)) (\<lambda>A. Option.bind (write_at (Suc d) z A) (write_at d [])) d"
    by (rule performs_and_then [OF g performs_flush]) simp
  show ?thesis
  proof (rule performs_cong [OF performs_and_then [OF f [unfolded opens_def] 1 order_refl]])
    fix A :: builder assume d: "d \<le> length (snd A)"
    show "Option.bind (map_option (open_child k) (write_at d y A))
        (\<lambda>A. Option.bind (write_at (Suc d) z A) (write_at d [])) =
        Option.bind (with_prefix k z) (\<lambda>x. write_at d (y @ x) A)"
    proof (cases "close_to d A")
      case (Some B)
      obtain xs cs where B: "extend B y = (xs, cs)" by (cases "extend B y")
      have "length cs = d" using close_to_depth [OF Some d] B extend_depth [of B y] by simp
      then have "write_at (Suc d) z (xs, cs @ [(k, [])]) = Some (xs, cs @ [(k, z)])"
        "write_at d [] (xs, cs @ [(k, z)]) = map_option (extend (xs, cs)) (with_prefix k z)"
        by (simp_all add: write_at_def close_to_def option.map_ident)
      moreover have "open_child k (extend B y) = (xs, cs @ [(k, [])])" by (simp add: B open_child_def)
      moreover have "write_at d (y @ x) A = Some (extend (xs, cs) x)" for x
        using Some by (simp add: write_at_def flip: B)
      ultimately show ?thesis using Some
        by (cases "with_prefix k z") (simp_all add: write_at_def [of d y])
    qed (cases "with_prefix k z"; simp add: write_at_def)
  qed
qed

lemma writes_child:
  assumes "opens d f y k" "writes (Suc d) g z" "with_prefix k z = Some x"
  shows "writes d (and_then f (and_then g (CBB_flush d))) (y @ x)"
  using performs_child [OF assms(1,2)] unfolding assms(3) by simp

text \<open>Contents too long for the prefix: the operation fails.\<close>

lemma child_overflow:
  assumes "opens d f y k" "writes (Suc d) g z" "with_prefix k z = None" "cbb_rep st A" "d \<le> length (snd A)"
  shows "and_then f (and_then g (CBB_flush d)) st \<noteq> (True, st')"
  using performs_ok(1) [OF performs_child [OF assms(1,2)] assms(4,5)] assms(3) by auto

lemma builder_bytes_open [simp]: "builder_bytes (open_child k A) = builder_bytes A @ replicate (plen k) 0"
  by (cases A) (simp add: open_child_def builder_bytes_def)

lemma open_child_children:
  "chain_children (length (fst (open_child k A))) (snd (open_child k A)) =
    chain_children (length (fst A)) (snd A) @ [child_at (length (builder_bytes A)) k]"
  by (cases A) (simp add: open_child_def builder_bytes_def chain_children_append)

lemma open_child_shape [simp]:
  "length (snd (open_child k A)) = Suc (length (snd A))"
  "small_prefixes (snd (open_child k A)) \<longleftrightarrow> small_prefixes (snd A) \<and> 0 < plen k \<and> plen k \<le> 8"
  by (cases A; auto simp: open_child_def)+

lemma push_child_rep:
  assumes A: "cbb_rep st A" "length (snd A) = d" and run: "push_child d (plen k) (k = Der) st = (ok, st')"
    and k: "0 < plen k" "plen k \<le> 8"
  shows "(cbb_grows st \<longrightarrow> cbb_grows st') \<and> (ok \<longrightarrow> cbb_rep st' (open_child k A)) \<and>
    (\<not> ok \<longrightarrow> cbb_failed st' \<and> (cbb_grows st \<longrightarrow> \<not> length (builder_bytes (open_child k A)) < 2 ^ 64))"
proof -
  obtain b where b: "base st = Some b" "\<not> error b" "buf b = builder_bytes A" "length (buf b) < 2 ^ 64"
    "children st = chain_children (length (fst A)) (snd A)" "small_prefixes (snd A)"
    using A(1) by (auto simp: cbb_rep_iff)
  have d: "length (children st) = d" using A(2) b(5) by simp
  obtain b' where b': "cbb_buffer_add b (replicate (plen k) 0) = (ok, b')"
    "st' = (if ok then st\<lparr>base := Some b', children := children st @ [child_at (length (buf b)) k]\<rparr>
            else st\<lparr>base := Some b'\<rparr>)"
    using run d b(1) by (auto simp: push_child_def split: prod.splits bool.splits)
  have "length (replicate (plen k) (0 :: u8)) < 2 ^ 64" using k by simp
  then have spec: "same_memory b b' \<and> (\<not> ok \<longrightarrow> error b') \<and>
       (ok \<longrightarrow> buf b' = buf b @ replicate (plen k) 0 \<and> \<not> error b' \<and> length (buf b') < 2 ^ 64) \<and>
       (growable b \<and> length (buf b) + length (replicate (plen k) (0 :: u8)) < 2 ^ 64 \<longrightarrow> ok)"
    using appends_add [unfolded appends_def] b(2,4) b'(1) by blast
  have "cbb_rep st' (open_child k A)" if ok
  proof -
    have "buf b' = buf b @ replicate (plen k) 0" "length (buf b') < 2 ^ 64" "\<not> error b'"
      using spec that by blast+
    then show ?thesis unfolding cbb_rep_iff builder_bytes_open open_child_children open_child_shape
      using b b'(2) k that by (intro exI [of _ b']) simp
  qed
  then show ?thesis using spec b(1,3) b'(2)
    by (auto simp: cbb_grows_def cbb_failed_def intro: same_memory_growable)
qed

lemma opens_length_prefixed:
  assumes "0 < n" "n \<le> 8"
  shows "opens d (cbb_add_length_prefixed d n) [] (Fixed n)"
  unfolding opens_def cbb_add_length_prefixed_def write_at_Nil
  by (rule performs_flush_then) (use push_child_rep [of _ _ d "Fixed n"] assms in auto)

lemma opens_prefixed:
  "opens d (CBB_add_u8_length_prefixed d) [] (Fixed 1)"
  "opens d (CBB_add_u16_length_prefixed d) [] (Fixed 2)"
  "opens d (CBB_add_u24_length_prefixed d) [] (Fixed 3)"
  unfolding CBB_add_u8_length_prefixed_def CBB_add_u16_length_prefixed_def CBB_add_u24_length_prefixed_def
  by (intro opens_length_prefixed; simp)+

section \<open>Whole programs\<close>

lemma cbb_init_rep:
  assumes "CBB_init g n = (True, st)"
  shows "cbb_rep st ([], [])"
  using assms
  by (auto simp: CBB_init_def cbb_init_def cbb_rep_iff CBB_zero_def builder_bytes_def split: if_splits)

lemma cbb_init_grows:
  assumes "CBB_init g n = (True, st)" "\<And>m. g m"
  shows "cbb_grows st"
  using assms
  by (auto simp: CBB_init_def cbb_init_def cbb_grows_def growable_def CBB_zero_def split: if_splits)

text \<open>A program that starts a builder, runs \<open>f\<close> on its root and finishes it.\<close>

definition cbb_build :: "(nat \<Rightarrow> bool) \<Rightarrow> nat \<Rightarrow> cbb_op \<Rightarrow> u8 list option" where
  "cbb_build g n f =
    (case CBB_init g n of
       (False, _) \<Rightarrow> None
     | (True, cbb) \<Rightarrow>
         (case f cbb of
            (False, cbb) \<Rightarrow> None
          | (True, cbb) \<Rightarrow> fst (CBB_finish 0 False cbb)))"

lemma finish_rep:
  assumes "cbb_rep st A" "CBB_finish 0 False st = (Some out, st')"
  shows "write_at 0 [] A = Some (out, [])"
proof -
  obtain st1 b where f: "CBB_flush 0 st = (True, st1)" "base st1 = Some b" "out = buf b"
    using assms(2) by (auto simp: CBB_finish_def split: prod.splits bool.splits option.splits if_splits)
  obtain B where B: "write_at 0 [] A = Some B" "cbb_rep st1 B"
    using performs_ok(1) [OF performs_flush assms(1) _ f(1)] by auto
  have "snd B = []" using performs_shape [OF performs_flush _ B(1)] by simp
  then have "B = (buf b, [])" using B(2) f(2) by (cases B) (auto simp: cbb_rep_iff builder_bytes_def)
  then show ?thesis using B(1) f(3) by simp
qed

lemma build_writes:
  assumes "writes 0 f z" "cbb_build g n f = Some out"
  shows "out = z"
proof -
  obtain st st1 where s: "CBB_init g n = (True, st)" "f st = (True, st1)" "fst (CBB_finish 0 False st1) = Some out"
    using assms(2) by (auto simp: cbb_build_def split: prod.splits bool.splits)
  obtain B where B: "write_at 0 z ([], []) = Some B" "cbb_rep st1 B"
    using performs_ok(1) [OF assms(1) cbb_init_rep [OF s(1)] _ s(2)] by auto
  obtain st2 where "CBB_finish 0 False st1 = (Some out, st2)" using s(3) by (metis prod.collapse)
  note finish_rep [OF B(2) this]
  moreover have "B = (z, [])" using B(1) by (simp add: write_at_def close_to_def)
  ultimately show ?thesis by (simp add: write_at_def close_to_def)
qed

lemma build_total:
  assumes "writes 0 f z" "length z < 2 ^ 64" "\<And>m. g m"
  shows "cbb_build g n f = Some z"
proof -
  obtain st where st: "CBB_init g n = (True, st)" using assms(3) by (simp add: CBB_init_def cbb_init_def)
  note rep = cbb_init_rep [OF st] and grows = cbb_init_grows [OF st assms(3)]
  have w: "write_at 0 z ([], []) = Some (z, [])" by (simp add: write_at_def close_to_def)
  obtain ok st1 where run: "f st = (ok, st1)" by (cases "f st")
  have ok
  proof (rule ccontr)
    assume "\<not> ok"
    then have "f st = (False, st1)" using run by simp
    from performs_fail(3) [OF assms(1) rep _ this grows w] show False using assms(2) by (simp add: builder_bytes_def)
  qed
  then have run: "f st = (True, st1)" using run by simp
  have rep1: "cbb_rep st1 (z, [])" "cbb_grows st1"
    using performs_ok [OF assms(1) rep _ run] grows w by auto
  have w1: "write_at 0 [] (z, []) = Some (z, [])" by (simp add: write_at_def close_to_def)
  obtain ok2 st2 where fl: "CBB_flush 0 st1 = (ok2, st2)" by (cases "CBB_flush 0 st1")
  have ok2
  proof (rule ccontr)
    assume "\<not> ok2"
    then have "CBB_flush 0 st1 = (False, st2)" using fl by simp
    from performs_fail(3) [OF performs_flush rep1(1) _ this rep1(2) w1] show False
      using assms(2) by (simp add: builder_bytes_def)
  qed
  then have fl: "CBB_flush 0 st1 = (True, st2)" using fl by simp
  have "cbb_rep st2 (z, [])" using performs_ok(1) [OF performs_flush rep1(1) _ fl] w1 by auto
  then obtain b where "base st2 = Some b" "buf b = z" by (auto simp: cbb_rep_iff builder_bytes_def)
  then show ?thesis using st run fl by (simp add: cbb_build_def CBB_finish_def)
qed

section \<open>Properties\<close>

lemma discard_rep:
  assumes "cbb_rep st (xs, cs)"
  shows "cbb_rep (CBB_discard_child d st) (xs, take d cs)"
proof (cases "length cs \<le> d")
  case True
  then show ?thesis using assms by (auto simp: CBB_discard_child_def cbb_rep_iff)
next
  case False
  obtain b where b: "base st = Some b" "\<not> error b" "buf b = xs @ chain_bytes cs" "length (buf b) < 2 ^ 64"
    "children st = chain_children (length xs) cs" "small_prefixes cs"
    using assms by (auto simp: cbb_rep_iff builder_bytes_def)
  obtain k ys rest where cs: "drop d cs = (k, ys) # rest" using False by (cases "drop d cs") auto
  have "chain_children (length xs) cs ! d = hd (drop d (chain_children (length xs) cs))"
    using False by (simp add: hd_drop_conv_nth)
  then have off: "offset (children st ! d) = length xs + length (chain_bytes (take d cs))"
    unfolding b(5) by (simp add: drop_chain_children cs)
  have split: "chain_bytes cs = chain_bytes (take d cs) @ chain_bytes (drop d cs)"
    by (simp flip: chain_bytes_append)
  then have le: "length (chain_bytes (take d cs)) \<le> length (chain_bytes cs)" by simp
  from split have "take (length xs + length (chain_bytes (take d cs))) (buf b) = xs @ chain_bytes (take d cs)"
    by (simp add: b(3))
  moreover have "small_prefixes (take d cs)" using b(6) by (auto simp: small_prefixes_def dest: in_set_takeD)
  ultimately show ?thesis using False b off le
    by (auto simp: CBB_discard_child_def cbb_rep_iff builder_bytes_def take_chain_children)
qed

end
