(* ===== verification/Unicode.thy ===== *)
theory Unicode
  imports Cbb_Refine
begin

text \<open>
  The character encodings of \<^verbatim>\<open>crypto/bytestring/unicode.c\<close>: UTF-8, Latin-1, UCS-2 and UTF-32,
  read from a \<^verbatim>\<open>CBS\<close> and written to a \<^verbatim>\<open>CBB\<close>. Each reader is shown to accept exactly the
  encodings its writer produces, for the code points both allow.
\<close>

section \<open>The code\<close>

definition is_valid_code_point :: "u32 \<Rightarrow> bool" where
  "is_valid_code_point v \<longleftrightarrow>
    \<not> (0x10ffff < v \<or> v AND 0xfffe = 0xfffe \<or> (0xfdd0 \<le> v \<and> v \<le> 0xfdef) \<or>
       (0xd800 \<le> v \<and> v \<le> 0xdfff))"

definition BOTTOM_BITS :: "nat \<Rightarrow> u8" where
  "BOTTOM_BITS n = push_bit n 1 - 1"

definition TOP_BITS :: "nat \<Rightarrow> u8" where
  "TOP_BITS n = NOT (BOTTOM_BITS (8 - n))"

fun get_utf8_loop :: "u32 \<Rightarrow> nat \<Rightarrow> cbs \<Rightarrow> u32 option \<times> cbs" where
  "get_utf8_loop v 0 cbs = (Some v, cbs)"
| "get_utf8_loop v (Suc i) cbs =
    (case CBS_get_u8 cbs of
       (None, cbs) \<Rightarrow> (None, cbs)
     | (Some c, cbs) \<Rightarrow>
         if c AND TOP_BITS 2 \<noteq> TOP_BITS 1 then (None, cbs)
         else get_utf8_loop (push_bit 6 v OR ucast (c AND BOTTOM_BITS 6)) i cbs)"

text \<open>The first byte: its payload, the number of bytes to follow, and the least value allowed.\<close>

definition utf8_lead :: "u8 \<Rightarrow> (u32 \<times> nat \<times> u32) option" where
  "utf8_lead c =
    (if c AND TOP_BITS 3 = TOP_BITS 2 then Some (ucast (c AND BOTTOM_BITS 5), 1, 0x80)
     else if c AND TOP_BITS 4 = TOP_BITS 3 then Some (ucast (c AND BOTTOM_BITS 4), 2, 0x800)
     else if c AND TOP_BITS 5 = TOP_BITS 4 then Some (ucast (c AND BOTTOM_BITS 3), 3, 0x10000)
     else None)"

definition cbs_get_utf8 :: "u32 reader" where
  "cbs_get_utf8 cbs =
    (case CBS_get_u8 cbs of
       (None, cbs) \<Rightarrow> (None, cbs)
     | (Some c, cbs) \<Rightarrow>
         if c \<le> 0x7f then (Some (ucast c), cbs)
         else
           (case utf8_lead c of
              None \<Rightarrow> (None, cbs)
            | Some (v, len, lower_bound) \<Rightarrow>
                (case get_utf8_loop v len cbs of
                   (None, cbs) \<Rightarrow> (None, cbs)
                 | (Some v, cbs) \<Rightarrow>
                     if \<not> is_valid_code_point v \<or> v < lower_bound then (None, cbs)
                     else (Some v, cbs))))"

definition cbs_get_latin1 :: "u32 reader" where
  "cbs_get_latin1 cbs =
    (case CBS_get_u8 cbs of (None, cbs) \<Rightarrow> (None, cbs) | (Some c, cbs) \<Rightarrow> (Some (ucast c), cbs))"

definition cbs_get_ucs2_be :: "u32 reader" where
  "cbs_get_ucs2_be cbs =
    (case CBS_get_u16 cbs of
       (None, cbs) \<Rightarrow> (None, cbs)
     | (Some c, cbs) \<Rightarrow>
         if \<not> is_valid_code_point (ucast c) then (None, cbs) else (Some (ucast c), cbs))"

definition cbs_get_utf32_be :: "u32 reader" where
  "cbs_get_utf32_be cbs =
    (case CBS_get_u32 cbs of
       (None, cbs) \<Rightarrow> (None, cbs)
     | (Some out, cbs) \<Rightarrow> if is_valid_code_point out then (Some out, cbs) else (None, cbs))"

definition cbb_get_utf8_len :: "u32 \<Rightarrow> nat" where
  "cbb_get_utf8_len u =
    (if u \<le> 0x7f then 1 else if u \<le> 0x7ff then 2 else if u \<le> 0xffff then 3 else 4)"

definition cbb_add_utf8 :: "nat \<Rightarrow> u32 \<Rightarrow> cbb_op" where
  "cbb_add_utf8 d u =
    (if \<not> is_valid_code_point u then (\<lambda>cbb. (False, cbb))
     else if u \<le> 0x7f then CBB_add_u8 d (ucast u)
     else if u \<le> 0x7ff then
       and_then (CBB_add_u8 d (TOP_BITS 2 OR ucast (drop_bit 6 u)))
         (CBB_add_u8 d (TOP_BITS 1 OR (ucast u AND BOTTOM_BITS 6)))
     else if u \<le> 0xffff then
       and_then (CBB_add_u8 d (TOP_BITS 3 OR ucast (drop_bit 12 u)))
         (and_then (CBB_add_u8 d (TOP_BITS 1 OR (ucast (drop_bit 6 u) AND BOTTOM_BITS 6)))
            (CBB_add_u8 d (TOP_BITS 1 OR (ucast u AND BOTTOM_BITS 6))))
     else if u \<le> 0x10ffff then
       and_then (CBB_add_u8 d (TOP_BITS 4 OR ucast (drop_bit 18 u)))
         (and_then (CBB_add_u8 d (TOP_BITS 1 OR (ucast (drop_bit 12 u) AND BOTTOM_BITS 6)))
            (and_then (CBB_add_u8 d (TOP_BITS 1 OR (ucast (drop_bit 6 u) AND BOTTOM_BITS 6)))
               (CBB_add_u8 d (TOP_BITS 1 OR (ucast u AND BOTTOM_BITS 6)))))
     else (\<lambda>cbb. (False, cbb)))"

definition cbb_add_latin1 :: "nat \<Rightarrow> u32 \<Rightarrow> cbb_op" where
  "cbb_add_latin1 d u = (if u \<le> 0xff then CBB_add_u8 d (ucast u) else (\<lambda>cbb. (False, cbb)))"

definition cbb_add_ucs2_be :: "nat \<Rightarrow> u32 \<Rightarrow> cbb_op" where
  "cbb_add_ucs2_be d u =
    (if u \<le> 0xffff \<and> is_valid_code_point u then CBB_add_u16 d (ucast u) else (\<lambda>cbb. (False, cbb)))"

definition cbb_add_utf32_be :: "nat \<Rightarrow> u32 \<Rightarrow> cbb_op" where
  "cbb_add_utf32_be d u =
    (if is_valid_code_point u then CBB_add_u32 d u else (\<lambda>cbb. (False, cbb)))"

section \<open>The bits, as numbers\<close>

lemma bottom_mask: "BOTTOM_BITS n = mask n"
  by (simp add: BOTTOM_BITS_def mask_eq_exp_minus_1 push_bit_eq_mult)

lemma bottom_bits: "c AND BOTTOM_BITS n = take_bit n c"
  by (simp add: bottom_mask take_bit_eq_mask)

lemma unat_bottom_bits: "unat (c AND BOTTOM_BITS n) = unat c mod 2 ^ n"
  by (simp add: bottom_bits)

lemma top_bits_values:
  "TOP_BITS 1 = 0x80" "TOP_BITS 2 = 0xc0" "TOP_BITS 3 = 0xe0" "TOP_BITS 4 = 0xf0" "TOP_BITS 5 = 0xf8"
  by (simp_all add: TOP_BITS_def BOTTOM_BITS_def push_bit_eq_mult)

lemma unat_and_top_bits:
  assumes "n \<le> 8"
  shows "unat (c AND TOP_BITS n) = unat c div 2 ^ (8 - n) * 2 ^ (8 - n)"
proof -
  have "c AND TOP_BITS n = push_bit (8 - n) (drop_bit (8 - n) c)"
    unfolding TOP_BITS_def bottom_mask by (rule bit_word_eqI) (auto simp: bit_simps)
  moreover have "unat (drop_bit (8 - n) c) = unat c div 2 ^ (8 - n)"
    by (simp only: unat_drop_bit_eq) (simp add: drop_bit_eq_div)
  moreover have "unat c div 2 ^ (8 - n) * 2 ^ (8 - n) < 256"
    using div_times_less_eq_dividend [of "unat c" "2 ^ (8 - n)"] unat_u8_lt [of c] by linarith
  ultimately show ?thesis
    by (simp add: unsigned_push_bit_eq push_bit_eq_mult [where ?'a = nat] take_bit_eq_mod)
qed

lemma top_bits_match:
  "c AND TOP_BITS 2 = TOP_BITS 1 \<longleftrightarrow> unat c div 64 = 2"
  "c AND TOP_BITS 3 = TOP_BITS 2 \<longleftrightarrow> unat c div 32 = 6"
  "c AND TOP_BITS 4 = TOP_BITS 3 \<longleftrightarrow> unat c div 16 = 14"
  "c AND TOP_BITS 5 = TOP_BITS 4 \<longleftrightarrow> unat c div 8 = 30"
  by (simp_all only: word_unat_eq_iff unat_and_top_bits) (simp_all add: top_bits_values [simplified])

lemma or_top_bits:
  assumes "n = 1 \<or> n = 2 \<or> n = 3 \<or> n = 4" "unat x < 2 ^ (8 - n)"
  shows "unat (TOP_BITS n OR x) = unat (TOP_BITS n) + unat x"
proof -
  have x: "take_bit (8 - n) x = x" using assms(2) by (simp add: word_unat_eq_iff)
  have "TOP_BITS n AND take_bit (8 - n) x = 0"
    unfolding TOP_BITS_def bottom_mask by (rule bit_word_eqI) (auto simp: bit_simps)
  then have "TOP_BITS n OR x = TOP_BITS n + x" unfolding x by (metis word_plus_and_or add_0)
  then show ?thesis using assms by (auto simp: top_bits_values [simplified] unat_word_ariths)
qed

lemma or_shift6: "unat (v :: u32) < 2 ^ 26 \<Longrightarrow>
   unat (push_bit 6 v OR ucast (c AND BOTTOM_BITS 6)) = unat v * 64 + unat c mod 64"
proof -
  assume v: "unat v < 2 ^ 26"
  have "push_bit 6 v AND ucast (c AND BOTTOM_BITS 6) = (0 :: u32)"
    unfolding bottom_mask by (rule bit_word_eqI) (auto simp: bit_simps)
  then have "push_bit 6 v OR ucast (c AND BOTTOM_BITS 6) = push_bit 6 v + ucast (c AND BOTTOM_BITS 6)"
    by (metis word_plus_and_or add_0)
  moreover have "unat (push_bit 6 v) = unat v * 64" using v by (simp add: push_bit_eq_mult unat_word_ariths)
  ultimately show ?thesis using v by (simp add: unat_word_ariths unat_bottom_bits)
qed

lemma utf8_lead_eq:
  "utf8_lead c =
    (let n = unat c in
     if n div 32 = 6 then Some (of_nat (n mod 32), 1, 0x80)
     else if n div 16 = 14 then Some (of_nat (n mod 16), 2, 0x800)
     else if n div 8 = 30 then Some (of_nat (n mod 8), 3, 0x10000)
     else None)"
proof -
  have "ucast (c AND BOTTOM_BITS k) = (of_nat (unat c mod 2 ^ k) :: u32)" for k
    by (metis of_nat_unat unat_bottom_bits)
  then show ?thesis by (simp add: utf8_lead_def top_bits_match Let_def)
qed

lemma get_utf8_loop_Suc:
  "get_utf8_loop v (Suc i) s = (Some w, s') \<longleftrightarrow>
    (\<exists>c r. s = c # r \<and> unat c div 64 = 2 \<and>
       get_utf8_loop (push_bit 6 v OR ucast (c AND BOTTOM_BITS 6)) i r = (Some w, s'))"
  by (cases s) (auto simp: get_u8_Cons get_u8_Nil top_bits_match [simplified])

text \<open>A number from its high part and continuation bytes.\<close>

fun utf8_value :: "nat \<Rightarrow> nat list \<Rightarrow> nat" where
  "utf8_value a [] = a"
| "utf8_value a (c # cs) = utf8_value (a * 64 + c mod 64) cs"

lemma get_utf8_loop_iff:
  "(unat v + 1) * 64 ^ k \<le> 2 ^ 26 \<Longrightarrow>
   get_utf8_loop v k s = (Some w, s') \<longleftrightarrow>
   (\<exists>cs. length cs = k \<and> s = cs @ s' \<and> (\<forall>c \<in> set cs. unat c div 64 = 2) \<and>
      unat w = utf8_value (unat v) (map unat cs))"
proof (induction k arbitrary: v s)
  case 0
  then show ?case by (auto simp: word_unat_eq_iff)
next
  case (Suc k)
  have v: "(unat v + 1) * 64 * 64 ^ k \<le> 2 ^ 26" using Suc.prems by (simp add: algebra_simps)
  moreover have "(unat v + 1) * 64 * 1 \<le> (unat v + 1) * 64 * 64 ^ k" by (intro mult_le_mono2) simp
  ultimately have "(unat v + 1) * 64 * 1 \<le> 2 ^ 26" by (rule order_trans [rotated])
  then have "unat v < 2 ^ 26" by simp
  then have val: "unat (push_bit 6 v OR ucast (c AND BOTTOM_BITS 6)) = unat v * 64 + unat c mod 64" for c
    by (rule or_shift6)
  have "(unat v * 64 + unat c mod 64 + 1) * 64 ^ k \<le> (unat v + 1) * 64 * 64 ^ k" for c :: u8
  proof (rule mult_le_mono1)
    have "unat c mod 64 < 64" by simp
    then show "unat v * 64 + unat c mod 64 + 1 \<le> (unat v + 1) * 64" by (simp add: algebra_simps)
  qed
  then have "(unat (push_bit 6 v OR ucast (c AND BOTTOM_BITS 6)) + 1) * 64 ^ k \<le> 2 ^ 26" for c
    using v order_trans unfolding val by blast
  note IH = Suc.IH [OF this, unfolded val]
  have *: "(\<exists>cs. length cs = Suc k \<and> s = cs @ s' \<and> (\<forall>c \<in> set cs. unat c div 64 = 2) \<and>
      unat w = utf8_value (unat v) (map unat cs)) \<longleftrightarrow>
    (\<exists>c r cs. s = c # r \<and> unat c div 64 = 2 \<and> length cs = k \<and> r = cs @ s' \<and>
      (\<forall>c \<in> set cs. unat c div 64 = 2) \<and> unat w = utf8_value (unat v * 64 + unat c mod 64) (map unat cs))"
    by (auto simp: length_Suc_conv)
  show ?case unfolding get_utf8_loop_Suc IH * by blast
qed

text \<open>The encoding, on the number.\<close>

definition enc_utf8 :: "u32 \<Rightarrow> u8 list" where
  "enc_utf8 u =
    (let n = unat u in
     if n < 0x80 then [of_nat n]
     else if n < 0x800 then [of_nat (0xc0 + n div 64), of_nat (0x80 + n mod 64)]
     else if n < 0x10000
     then [of_nat (0xe0 + n div 64 div 64), of_nat (0x80 + n div 64 mod 64), of_nat (0x80 + n mod 64)]
     else [of_nat (0xf0 + n div 64 div 64 div 64), of_nat (0x80 + n div 64 div 64 mod 64),
           of_nat (0x80 + n div 64 mod 64), of_nat (0x80 + n mod 64)])"

lemma valid_code_point_bound: "is_valid_code_point u \<Longrightarrow> unat u \<le> 0x10ffff"
  by (auto simp: is_valid_code_point_def word_less_nat_alt)

lemma continuation_split: "n div 64 = (2 :: nat) \<Longrightarrow> n = 128 + n mod 64"
  using div_mult_mod_eq [of n 64] by simp

lemma sextet_hi_lo [simp]: "(x * 64 + d mod 64) div 64 = (x :: nat)" "(x * 64 + d mod 64) mod 64 = d mod 64"
  by simp_all

lemma sextets_bound: "a < 16 \<Longrightarrow> b < 64 \<Longrightarrow> c < 64 \<Longrightarrow> (a * 64 + b) * 64 + c < (0x10000 :: nat)"
  using add_le_mono [OF mult_le_mono [OF add_le_mono [OF mult_le_mono [of a 15 64 64], of b 63], of 64 64], of c 63]
  by simp

lemma utf8_bytes_2:
  assumes "c div 32 = (6 :: nat)" "d div 64 = 2" "n = utf8_value (c mod 32) [d]"
  shows "c = 192 + n div 64 \<and> d = 128 + n mod 64 \<and> n < 0x800"
proof -
  have "c = 192 + c mod 32" using div_mult_mod_eq [of c 32] assms(1) by linarith
  moreover have n: "n = c mod 32 * 64 + d mod 64" using assms(3) by simp
  then have "n div 64 = c mod 32" "n mod 64 = d mod 64" by (simp_all only: sextet_hi_lo)
  moreover have "c mod 32 < 32" "d mod 64 < 64" by simp_all
  ultimately show ?thesis using continuation_split [OF assms(2)] n by (intro conjI; linarith)
qed

lemma utf8_bytes_3:
  assumes "c div 16 = (14 :: nat)" "d div 64 = 2" "e div 64 = 2" "n = utf8_value (c mod 16) [d, e]"
  shows "c = 224 + n div 64 div 64 \<and> d = 128 + n div 64 mod 64 \<and> e = 128 + n mod 64 \<and> n < 0x10000"
proof -
  have "c = 224 + c mod 16" using div_mult_mod_eq [of c 16] assms(1) by linarith
  moreover have "n = (c mod 16 * 64 + d mod 64) * 64 + e mod 64" using assms(4) by simp
  then have "n div 64 = c mod 16 * 64 + d mod 64" "n mod 64 = e mod 64" by (simp_all only: sextet_hi_lo)
  moreover have "n div 64 div 64 = c mod 16" "n div 64 mod 64 = d mod 64"
    unfolding calculation(2) by (simp_all only: sextet_hi_lo)
  moreover have "n < 0x10000"
  proof -
    have "c mod 16 < 16" "d mod 64 < 64" "e mod 64 < 64" by simp_all
    then show ?thesis using sextets_bound \<open>n = (c mod 16 * 64 + d mod 64) * 64 + e mod 64\<close> by blast
  qed
  ultimately show ?thesis using continuation_split [OF assms(2)] continuation_split [OF assms(3)]
    by (intro conjI; linarith)
qed

lemma utf8_bytes_4:
  assumes "c div 8 = (30 :: nat)" "d div 64 = 2" "e div 64 = 2" "f div 64 = 2"
    "n = utf8_value (c mod 8) [d, e, f]"
  shows "c = 240 + n div 64 div 64 div 64 \<and> d = 128 + n div 64 div 64 mod 64 \<and>
    e = 128 + n div 64 mod 64 \<and> f = 128 + n mod 64"
proof -
  have c: "c = 240 + c mod 8" using div_mult_mod_eq [of c 8] assms(1) by linarith
  have n: "n = ((c mod 8 * 64 + d mod 64) * 64 + e mod 64) * 64 + f mod 64" using assms(5) by simp
  then have 1: "n div 64 = (c mod 8 * 64 + d mod 64) * 64 + e mod 64" "n mod 64 = f mod 64"
    by (simp_all only: sextet_hi_lo)
  then have 2: "n div 64 div 64 = c mod 8 * 64 + d mod 64" "n div 64 mod 64 = e mod 64"
    by (simp_all only: sextet_hi_lo)
  then have "n div 64 div 64 div 64 = c mod 8" "n div 64 div 64 mod 64 = d mod 64"
    by (simp_all only: sextet_hi_lo)
  with c 1 2 show ?thesis
    using continuation_split [OF assms(2)] continuation_split [OF assms(3)] continuation_split [OF assms(4)]
    by (intro conjI; linarith)
qed

lemma u8_from_nat: "unat c = n \<Longrightarrow> c = (of_nat n :: u8)"
  by auto

lemma length_2_3:
  "length xs = 2 \<longleftrightarrow> (\<exists>a b. xs = [a, b])" "length xs = 3 \<longleftrightarrow> (\<exists>a b c. xs = [a, b, c])"
  by (auto simp: length_Suc_conv numeral_2_eq_2 numeral_3_eq_3)

lemma ascii_valid: "unat u < 128 \<Longrightarrow> is_valid_code_point u"
  using word_and_le2 [of u "0xfffe"]
  by (auto simp: is_valid_code_point_def word_less_nat_alt word_le_nat_alt)

lemma get_utf8_sound:
  assumes "cbs_get_utf8 s = (Some u, s')"
  shows "is_valid_code_point u \<and> s = enc_utf8 u @ s'"
proof -
  obtain c r where s: "s = c # r" using assms by (cases s) (auto simp: cbs_get_utf8_def get_u8_Nil)
  show ?thesis
  proof (cases "unat c < 128")
    case True
    then have "c \<le> 0x7f" by (simp add: word_le_nat_alt)
    then have "u = ucast c" "s' = r" using assms s by (simp_all add: cbs_get_utf8_def get_u8_Cons)
    moreover from this True have "is_valid_code_point u" by (intro ascii_valid) simp
    ultimately show ?thesis using True s by (simp add: enc_utf8_def)
  next
    case False
    then have "\<not> c \<le> 0x7f" by (simp add: word_le_nat_alt)
    then obtain v len lb where lead: "utf8_lead c = Some (v, len, lb)"
      and loop: "get_utf8_loop v len r = (Some u, s')" and ok: "is_valid_code_point u" "\<not> u < lb"
      using assms s by (auto simp: cbs_get_utf8_def get_u8_Cons split: option.splits prod.splits if_splits)
    let ?c = "unat c"
    consider "?c div 32 = 6" "v = of_nat (?c mod 32)" "len = 1" "lb = 0x80"
      | "?c div 16 = 14" "v = of_nat (?c mod 16)" "len = 2" "lb = 0x800"
      | "?c div 8 = 30" "v = of_nat (?c mod 8)" "len = 3" "lb = 0x10000"
      using lead by (auto simp: utf8_lead_eq Let_def split: if_splits)
    then have "s = enc_utf8 u @ s'"
    proof cases
      case 1
      have v: "unat v = ?c mod 32" by (simp add: 1 unat_of_nat_small)
      obtain d where d: "r = d # s'" "unat d div 64 = 2" "unat u = utf8_value (?c mod 32) [unat d]"
        using loop unfolding 1(3) by (subst (asm) get_utf8_loop_iff) (auto simp: v length_Suc_conv)
      have "128 \<le> unat u" using ok(2) by (simp add: 1 word_less_nat_alt)
      then show ?thesis using utf8_bytes_2 [OF 1(1) d(2,3)]
        by (auto simp: s d(1) enc_utf8_def Let_def simp del: of_nat_add intro!: u8_from_nat)
    next
      case 2
      have v: "unat v = ?c mod 16" by (simp add: 2 unat_of_nat_small)
      obtain d e where d: "r = d # e # s'" "unat d div 64 = 2" "unat e div 64 = 2"
        "unat u = utf8_value (?c mod 16) [unat d, unat e]"
        using loop unfolding 2(3)
        by (subst (asm) get_utf8_loop_iff) (auto simp: v length_2_3)
      have "0x800 \<le> unat u" using ok(2) by (simp add: 2 word_less_nat_alt)
      then show ?thesis using utf8_bytes_3 [OF 2(1) d(2,3,4)]
        by (auto simp: s d(1) enc_utf8_def Let_def simp del: of_nat_add intro!: u8_from_nat)
    next
      case 3
      have v: "unat v = ?c mod 8" by (simp add: 3 unat_of_nat_small)
      obtain d e f where d: "r = d # e # f # s'" "unat d div 64 = 2" "unat e div 64 = 2" "unat f div 64 = 2"
        "unat u = utf8_value (?c mod 8) [unat d, unat e, unat f]"
        using loop unfolding 3(3)
        by (subst (asm) get_utf8_loop_iff) (auto simp: v length_2_3)
      have "0x10000 \<le> unat u" using ok(2) by (simp add: 3 word_less_nat_alt)
      then show ?thesis using utf8_bytes_4 [OF 3(1) d(2,3,4,5)] valid_code_point_bound [OF ok(1)]
        by (auto simp: s d(1) enc_utf8_def Let_def simp del: of_nat_add intro!: u8_from_nat)
    qed
    with ok show ?thesis by simp
  qed
qed

lemma continuation_byte: "unat (of_nat (128 + n mod 64) :: u8) = 128 + n mod 64"
  by (simp only: unat_of_nat_u8) simp

lemma get_utf8_loop_Cons:
  "d < 64 \<Longrightarrow> unat v < 2 ^ 20 \<Longrightarrow>
   get_utf8_loop v (Suc i) (of_nat (128 + d) # r) = get_utf8_loop (of_nat (unat v * 64 + d)) i r"
proof -
  assume d: "d < 64" and v: "unat v < 2 ^ 20"
  let ?c = "of_nat (128 + d) :: u8"
  have c: "unat ?c = 128 + d" using d by (simp only: unat_of_nat_u8) simp
  have mod_d: "(128 + d) mod 64 = d" using d mod_mult_self1 [of d 2 64] by (simp add: add.commute)
  have "unat (push_bit 6 v OR ucast (?c AND BOTTOM_BITS 6)) = unat v * 64 + d"
    using or_shift6 [of v ?c] v mod_d by (simp only: c) simp
  then have "push_bit 6 v OR ucast (?c AND BOTTOM_BITS 6) = of_nat (unat v * 64 + d)"
    using v d by (simp only: word_unat_eq_iff) (simp add: unat_of_nat_small del: of_nat_add of_nat_mult)
  moreover have "?c AND TOP_BITS 2 = TOP_BITS 1" unfolding top_bits_match c using d by simp
  ultimately show ?thesis
    by (simp only: get_utf8_loop.simps get_u8_Cons prod.case option.case simp_thms if_False)
qed

lemma lead_numbers:
  "x < 32 \<Longrightarrow> (192 + x) div 32 = (6 :: nat) \<and> (192 + x) mod 32 = x"
  "x < 16 \<Longrightarrow> (224 + x) div 32 = (7 :: nat) \<and> (224 + x) div 16 = 14 \<and> (224 + x) mod 16 = x"
  "x < 8 \<Longrightarrow> (240 + x) div 32 = (7 :: nat) \<and> (240 + x) div 16 = 15 \<and> (240 + x) div 8 = 30 \<and>
    (240 + x) mod 8 = x"
  by (simp_all add: div_nat_eqI mod_nat_eqI)

lemma utf8_lead_bytes:
  "x < 32 \<Longrightarrow> utf8_lead (of_nat (192 + x)) = Some (of_nat x, 1, 0x80)"
  "x < 16 \<Longrightarrow> utf8_lead (of_nat (224 + x)) = Some (of_nat x, 2, 0x800)"
  "x < 8 \<Longrightarrow> utf8_lead (of_nat (240 + x)) = Some (of_nat x, 3, 0x10000)"
proof -
  have n: "x < 64 \<Longrightarrow> unat (of_nat (192 + x) :: u8) = 192 + x" "x < 32 \<Longrightarrow> unat (of_nat (224 + x) :: u8) = 224 + x"
    "x < 16 \<Longrightarrow> unat (of_nat (240 + x) :: u8) = 240 + x"
    by (simp_all only: unat_of_nat_u8) simp_all
  show "x < 32 \<Longrightarrow> utf8_lead (of_nat (192 + x)) = Some (of_nat x, 1, 0x80)"
    "x < 16 \<Longrightarrow> utf8_lead (of_nat (224 + x)) = Some (of_nat x, 2, 0x800)"
    "x < 8 \<Longrightarrow> utf8_lead (of_nat (240 + x)) = Some (of_nat x, 3, 0x10000)"
    using n lead_numbers [of x] by (simp_all add: utf8_lead_eq Let_def del: of_nat_add)
qed

lemma get_utf8_loop_numbers:
  "a < 2 ^ 20 \<Longrightarrow> d < 64 \<Longrightarrow>
   get_utf8_loop (of_nat a) (Suc i) (of_nat (128 + d) # s) = get_utf8_loop (of_nat (a * 64 + d)) i s"
  using get_utf8_loop_Cons [of d "of_nat a" i s]
  by (simp add: unat_of_nat_small del: of_nat_add of_nat_mult get_utf8_loop.simps)

lemma get_utf8_loop_123:
  assumes "d < 64" "e < 64" "f < 64"
  shows "a < 2 ^ 20 \<Longrightarrow> get_utf8_loop (of_nat a) 1 (of_nat (128 + d) # s) = (Some (of_nat (a * 64 + d)), s)"
    "a < 2 ^ 14 \<Longrightarrow> get_utf8_loop (of_nat a) 2 (of_nat (128 + d) # of_nat (128 + e) # s) =
      (Some (of_nat ((a * 64 + d) * 64 + e)), s)"
    "a < 2 ^ 8 \<Longrightarrow> get_utf8_loop (of_nat a) 3 (of_nat (128 + d) # of_nat (128 + e) # of_nat (128 + f) # s) =
      (Some (of_nat (((a * 64 + d) * 64 + e) * 64 + f)), s)"
proof -
  show "get_utf8_loop (of_nat a) 1 (of_nat (128 + d) # s) = (Some (of_nat (a * 64 + d)), s)" if "a < 2 ^ 20"
    using get_utf8_loop_numbers [OF that assms(1), of 0 s] by (simp only: One_nat_def get_utf8_loop.simps)
  show "get_utf8_loop (of_nat a) 2 (of_nat (128 + d) # of_nat (128 + e) # s) =
      (Some (of_nat ((a * 64 + d) * 64 + e)), s)" if a: "a < 2 ^ 14"
  proof -
    have "a < 2 ^ 20" "a * 64 + d < 2 ^ 20" using a assms by simp_all
    then show ?thesis using assms
      by (simp only: numeral_2_eq_2 get_utf8_loop_numbers get_utf8_loop.simps(1))
  qed
  show "get_utf8_loop (of_nat a) 3 (of_nat (128 + d) # of_nat (128 + e) # of_nat (128 + f) # s) =
      (Some (of_nat (((a * 64 + d) * 64 + e) * 64 + f)), s)" if a: "a < 2 ^ 8"
  proof -
    have "a < 2 ^ 20" "a * 64 + d < 2 ^ 20" "(a * 64 + d) * 64 + e < 2 ^ 20" using a assms by simp_all
    then show ?thesis using assms
      by (simp only: numeral_3_eq_3 get_utf8_loop_numbers get_utf8_loop.simps(1))
  qed
qed

lemma cbs_get_utf8_lead:
  assumes "utf8_lead (of_nat b) = Some (v, k, lb)" "128 \<le> b" "b < 256"
    and "get_utf8_loop v k r = (Some u, s)" "is_valid_code_point u" "lb \<le> u"
  shows "cbs_get_utf8 (of_nat b # r) = (Some u, s)"
proof -
  have "unat (of_nat b :: u8) = b" using assms(3) by simp
  then have "\<not> (of_nat b :: u8) \<le> 0x7f" using assms(2) by (simp add: word_le_nat_alt)
  then show ?thesis using assms(1,4-6) by (simp add: cbs_get_utf8_def get_u8_Cons not_less)
qed

lemma get_utf8_complete:
  assumes "is_valid_code_point u"
  shows "cbs_get_utf8 (enc_utf8 u @ s) = (Some u, s)"
proof -
  define n where "n = unat u"
  have n: "n \<le> 0x10ffff" using assms unfolding n_def by (rule valid_code_point_bound)
  have u: "of_nat n = u" by (simp add: n_def)
  have split: "n div 64 * 64 + n mod 64 = n" "n div 64 div 64 * 64 + n div 64 mod 64 = n div 64"
    "n div 64 div 64 div 64 * 64 + n div 64 div 64 mod 64 = n div 64 div 64"
    by (rule div_mult_mod_eq)+
  have m: "n mod 64 < 64" "n div 64 mod 64 < 64" "n div 64 div 64 mod 64 < 64" by simp_all
  consider "n < 0x80" | "0x80 \<le> n" "n < 0x800" | "0x800 \<le> n" "n < 0x10000" | "0x10000 \<le> n"
    by linarith
  then show ?thesis
  proof cases
    case 1
    then have "unat (of_nat n :: u8) = n" by simp
    then have "of_nat n \<le> (0x7f :: u8)" "ucast (of_nat n :: u8) = u"
      using 1 by (simp_all only: word_le_nat_alt) (simp_all add: n_def word_unat_eq_iff unat_ucast_up)
    then show ?thesis using 1
      by (simp add: enc_utf8_def Let_def cbs_get_utf8_def get_u8_Cons flip: n_def)
  next
    case 2
    have a: "n div 64 < 32" "n div 64 < 2 ^ 20" using 2 by simp_all
    have "cbs_get_utf8 (of_nat (192 + n div 64) # of_nat (128 + n mod 64) # s) = (Some u, s)"
    proof (rule cbs_get_utf8_lead [OF utf8_lead_bytes(1) [OF a(1)] _ _ _ assms])
      show "get_utf8_loop (of_nat (n div 64)) 1 (of_nat (128 + n mod 64) # s) = (Some u, s)"
        using get_utf8_loop_123(1) [OF m(1) m(1) m(1) a(2)] by (simp only: split u)
    qed (use a 2 in \<open>simp_all add: word_le_nat_alt flip: n_def\<close>)
    then show ?thesis using 2 by (simp only: enc_utf8_def Let_def flip: n_def) simp
  next
    case 3
    have a: "n div 64 div 64 < 16" "n div 64 div 64 < 2 ^ 14" using 3 by simp_all
    have "cbs_get_utf8 (of_nat (224 + n div 64 div 64) # of_nat (128 + n div 64 mod 64) # of_nat (128 + n mod 64) # s) =
        (Some u, s)"
    proof (rule cbs_get_utf8_lead [OF utf8_lead_bytes(2) [OF a(1)] _ _ _ assms])
      show "get_utf8_loop (of_nat (n div 64 div 64)) 2
          (of_nat (128 + n div 64 mod 64) # of_nat (128 + n mod 64) # s) = (Some u, s)"
        using get_utf8_loop_123(2) [OF m(2) m(1) m(1) a(2)] by (simp only: split u)
    qed (use a 3 in \<open>simp_all add: word_le_nat_alt flip: n_def\<close>)
    then show ?thesis using 3 by (simp only: enc_utf8_def Let_def flip: n_def) simp
  next
    case 4
    have a: "n div 64 div 64 div 64 < 8" "n div 64 div 64 div 64 < 2 ^ 8" using n by simp_all
    have "cbs_get_utf8 (of_nat (240 + n div 64 div 64 div 64) # of_nat (128 + n div 64 div 64 mod 64) #
        of_nat (128 + n div 64 mod 64) # of_nat (128 + n mod 64) # s) = (Some u, s)"
    proof (rule cbs_get_utf8_lead [OF utf8_lead_bytes(3) [OF a(1)] _ _ _ assms])
      show "get_utf8_loop (of_nat (n div 64 div 64 div 64)) 3 (of_nat (128 + n div 64 div 64 mod 64) #
          of_nat (128 + n div 64 mod 64) # of_nat (128 + n mod 64) # s) = (Some u, s)"
        using get_utf8_loop_123(3) [OF m(3) m(2) m(1) a(2)] by (simp only: split u)
    qed (use a 4 in \<open>simp_all add: word_le_nat_alt flip: n_def\<close>)
    then show ?thesis using 4 by (simp only: enc_utf8_def Let_def flip: n_def) simp
  qed
qed

interpretation utf8: canonical enc_utf8 cbs_get_utf8 is_valid_code_point
proof unfold_locales
  show "enc_utf8 u \<noteq> []" for u by (simp add: enc_utf8_def Let_def)
qed (auto simp: get_utf8_complete dest: get_utf8_sound)

section \<open>The writers\<close>

lemma top_byte:
  assumes "k = 1 \<or> k = 2 \<or> k = 3 \<or> k = 4" "m < 2 ^ (8 - k)" "unat x = m"
  shows "TOP_BITS k OR x = of_nat (unat (TOP_BITS k) + m)"
  using or_top_bits [of k x] assms by (intro u8_from_nat) simp

lemma unat_ucast_drop_u32: "unat (ucast (drop_bit k (u :: u32)) :: u8) = unat u div 2 ^ k mod 256"
proof -
  have "unat (drop_bit k u) = unat u div 2 ^ k"
    by (simp only: unat_drop_bit_eq) (simp add: drop_bit_eq_div)
  then show ?thesis by (simp only: unsigned_ucast_eq take_bit_eq_mod) simp
qed

lemma unat_ucast_u8: "unat (ucast (u :: u32) :: u8) = unat u mod 256"
  using unat_ucast_drop_u32 [of 0 u] by simp

lemma unat_sextet:
  "unat (ucast (drop_bit k (u :: u32)) AND BOTTOM_BITS 6) = unat u div 2 ^ k mod 64"
  "unat (ucast (u :: u32) AND BOTTOM_BITS 6) = unat u mod 64"
  using mod_mod_cancel [of 64 256 "unat u div 2 ^ k"] mod_mod_cancel [of 64 256 "unat u"]
  by (simp only: unat_bottom_bits unat_ucast_drop_u32, simp, simp only: unat_bottom_bits unat_ucast_u8, simp)

lemmas utf8_high = top_byte [where k = 2] top_byte [where k = 3] top_byte [where k = 4]
lemmas utf8_low = top_byte [where k = 1, OF _ _ unat_sextet(1)] top_byte [where k = 1, OF _ _ unat_sextet(2)]

lemma writes_utf8:
  assumes "is_valid_code_point u"
  shows "writes d (cbb_add_utf8 d u) (enc_utf8 u)"
proof -
  define n where "n = unat u"
  have le: "u \<le> 0x7f \<longleftrightarrow> n < 0x80" "u \<le> 0x7ff \<longleftrightarrow> n < 0x800" "u \<le> 0xffff \<longleftrightarrow> n < 0x10000"
    "u \<le> 0x10ffff"
    using valid_code_point_bound [OF assms] by (auto simp: word_le_nat_alt n_def)
  have low: "TOP_BITS 1 OR (ucast (drop_bit k u) AND BOTTOM_BITS 6) = of_nat (0x80 + n div 2 ^ k mod 64)"
    "TOP_BITS 1 OR (ucast u AND BOTTOM_BITS 6) = of_nat (0x80 + n mod 64)" for k
    using top_byte [of 1 "n div 2 ^ k mod 64", OF _ _ unat_sextet(1) [of k u, folded n_def]]
      top_byte [of 1 "n mod 64", OF _ _ unat_sextet(2) [of u, folded n_def]]
    by (simp_all add: top_bits_values [simplified])
  have high: "n < 0x800 \<Longrightarrow> TOP_BITS 2 OR ucast (drop_bit 6 u) = of_nat (0xc0 + n div 64)"
    "n < 0x10000 \<Longrightarrow> TOP_BITS 3 OR ucast (drop_bit 12 u) = of_nat (0xe0 + n div 4096)"
    "TOP_BITS 4 OR ucast (drop_bit 18 u) = of_nat (0xf0 + n div 262144)"
    using top_byte [of 2 "n div 64" "ucast (drop_bit 6 u)"] top_byte [of 3 "n div 4096" "ucast (drop_bit 12 u)"]
      top_byte [of 4 "n div 262144" "ucast (drop_bit 18 u)"] valid_code_point_bound [OF assms]
    by (simp_all add: top_bits_values unat_ucast_drop_u32 flip: n_def)
  have div: "n div 64 div 64 = n div 4096" "n div 4096 div 64 = n div 262144"
    by (simp_all add: div_mult2_eq [symmetric])
  have one: "ucast u = (of_nat n :: u8)" by (simp add: n_def)
  have seq: "writes d (and_then (CBB_add_u8 d a) (CBB_add_u8 d b)) [a, b]"
    "writes d (and_then (CBB_add_u8 d a) (and_then (CBB_add_u8 d b) (CBB_add_u8 d c))) [a, b, c]"
    "writes d (and_then (CBB_add_u8 d a) (and_then (CBB_add_u8 d b) (and_then (CBB_add_u8 d c) (CBB_add_u8 d e))))
      [a, b, c, e]" for a b c e
    using writes_and_then [OF writes_u8 writes_u8] writes_and_then [OF writes_u8 writes_and_then [OF writes_u8 writes_u8]]
      writes_and_then [OF writes_u8 writes_and_then [OF writes_u8 writes_and_then [OF writes_u8 writes_u8]]]
    by simp_all
  consider "n < 0x80" | "\<not> n < 0x80" "n < 0x800" | "\<not> n < 0x80" "\<not> n < 0x800" "n < 0x10000"
    | "\<not> n < 0x80" "\<not> n < 0x800" "\<not> n < 0x10000" by blast
  then show ?thesis
  proof cases
    case 1
    then show ?thesis using assms writes_u8
      by (simp only: cbb_add_utf8_def enc_utf8_def Let_def le one simp_thms if_True if_False flip: n_def)
  next
    case 2
    then show ?thesis using assms seq(1) high(1)
      by (simp only: cbb_add_utf8_def enc_utf8_def Let_def le low simp_thms if_True if_False flip: n_def)
  next
    case 3
    then show ?thesis using assms seq(2) high(2) low(1) [of 6]
      by (simp only: cbb_add_utf8_def enc_utf8_def Let_def le low(2) div simp_thms if_True if_False flip: n_def) simp
  next
    case 4
    then show ?thesis using assms seq(3) high(3) low(1) [of 6] low(1) [of 12]
      by (simp only: cbb_add_utf8_def enc_utf8_def Let_def le low(2) div simp_thms if_True if_False flip: n_def) simp
  qed
qed

lemma length_enc_utf8: "length (enc_utf8 u) = cbb_get_utf8_len u"
  by (simp add: enc_utf8_def cbb_get_utf8_len_def Let_def word_le_nat_alt)

section \<open>The fixed-width encodings\<close>

interpretation latin1: canonical "\<lambda>u. [ucast u]" cbs_get_latin1 "\<lambda>u. u \<le> 0xff"
proof unfold_locales
  show "cbs_get_latin1 ([ucast u] @ s) = (Some u, s)" if "u \<le> 0xff" for u s
  proof -
    have "unat u < 256" using that by (simp add: word_le_nat_alt)
    then have "ucast (ucast u :: u8) = u" by (simp add: word_unat_eq_iff unat_ucast_u8 unsigned_ucast_eq take_bit_eq_mod unat_mod)
    then show ?thesis by (simp add: cbs_get_latin1_def get_u8_Cons)
  qed
next
  fix s :: cbs and u s' assume "cbs_get_latin1 s = (Some u, s')"
  then obtain c where c: "s = c # s'" "u = ucast c"
    by (cases s) (auto simp: cbs_get_latin1_def get_u8_Cons get_u8_Nil)
  have "unat (ucast c :: u32) \<le> 255" by simp
  then have "ucast c \<le> (0xff :: u32)" by (simp only: word_le_nat_alt) simp
  moreover have "ucast (ucast c :: u32) = c" by (simp only: word_unat_eq_iff unat_ucast_u8) simp
  ultimately show "u \<le> 0xff \<and> s = [ucast u] @ s'" by (simp add: c)
qed simp

interpretation utf32: canonical "enc_be 4" cbs_get_utf32_be is_valid_code_point
proof unfold_locales
  show "cbs_get_utf32_be (enc_be 4 u @ s) = (Some u, s)" if "is_valid_code_point u" for u s
    using that u32.get_enc [of u s] unsigned_less [of u, where ?'a = nat] by (simp add: cbs_get_utf32_be_def)
  show "is_valid_code_point u \<and> s = enc_be 4 u @ s'" if "cbs_get_utf32_be s = (Some u, s')" for u s s'
    using that by (auto simp: cbs_get_utf32_be_def dest: u32.get_sound split: prod.splits option.splits if_splits)
  show "enc_be 4 u \<noteq> []" for u :: u32 by (auto dest: arg_cong [of _ _ length])
qed

section \<open>Properties\<close>

text \<open>C7: UTF-8. \<^verbatim>\<open>cbs_get_utf8\<close> accepts exactly the shortest encodings of valid code points
  (no surrogates, no reserved values, nothing above \<open>0x10ffff\<close>, no overlong forms);
  \<^verbatim>\<open>cbb_add_utf8\<close> writes those encodings, and \<^verbatim>\<open>cbb_get_utf8_len\<close> is their length.\<close>

theorem utf8_exact:
  "(cbs_get_utf8 s = (Some u, s') \<longleftrightarrow> is_valid_code_point u \<and> s = enc_utf8 u @ s') \<and>
   length (enc_utf8 u) = cbb_get_utf8_len u \<and>
   (is_valid_code_point u \<longrightarrow> writes d (cbb_add_utf8 d u) (enc_utf8 u))"
  using utf8.get_iff length_enc_utf8 writes_utf8 by blast

lemma utf8_exact_witness:
  "cbs_get_utf8 (enc_utf8 0x20ac @ [0]) = (Some 0x20ac, [0]) \<and> writes 0 (cbb_add_utf8 0 0x20ac) (enc_utf8 0x20ac)"
proof -
  have "is_valid_code_point 0x20ac" by (simp add: is_valid_code_point_def)
  then show ?thesis using utf8_exact [of "enc_utf8 0x20ac @ [0]" "0x20ac" "[0]" 0] by blast
qed

end
