(* ===== verification/Qsort.thy ===== *)
theory Qsort
  imports "HOL-Library.Multiset"
begin

text \<open>
  Three-way comparison functions and the C library's \<^verbatim>\<open>qsort\<close>.
\<close>

definition sorted_by :: "('a \<Rightarrow> 'a \<Rightarrow> int) \<Rightarrow> 'a list \<Rightarrow> bool" where
  "sorted_by cmp xs \<longleftrightarrow> sorted_wrt (\<lambda>a b. cmp a b \<le> 0) xs"

text \<open>A comparison of a total preorder.\<close>

definition consistent :: "('a \<Rightarrow> 'a \<Rightarrow> int) \<Rightarrow> bool" where
  "consistent cmp \<longleftrightarrow>
    (\<forall>a b. cmp a b \<le> 0 \<longleftrightarrow> 0 \<le> cmp b a) \<and>
    (\<forall>a b c. cmp a b \<le> 0 \<longrightarrow> cmp b c \<le> 0 \<longrightarrow> cmp a c \<le> 0)"

lemma consistent_flip: "consistent cmp \<Longrightarrow> 0 \<le> cmp a b \<longleftrightarrow> cmp b a \<le> 0"
  unfolding consistent_def by blast

lemma consistent_trans: "consistent cmp \<Longrightarrow> cmp a b \<le> 0 \<Longrightarrow> cmp b c \<le> 0 \<Longrightarrow> cmp a c \<le> 0"
  unfolding consistent_def by blast

lemma sorted_by_nth:
  assumes "consistent cmp" "sorted_by cmp xs" "i \<le> j" "j < length xs"
  shows "cmp (xs ! i) (xs ! j) \<le> 0"
proof (cases "i = j")
  case True
  have "cmp a a \<le> 0" for a using consistent_flip [OF assms(1), of a a] by auto
  then show ?thesis using True by simp
next
  case False
  then show ?thesis using assms by (auto simp: sorted_by_def sorted_wrt_iff_nth_less)
qed

text \<open>\<^verbatim>\<open>qsort\<close>, as an insertion sort: the order of elements that compare equal is
  unspecified in C.\<close>

fun qsort_insert :: "('a \<Rightarrow> 'a \<Rightarrow> int) \<Rightarrow> 'a \<Rightarrow> 'a list \<Rightarrow> 'a list" where
  "qsort_insert cmp x [] = [x]"
| "qsort_insert cmp x (y # ys) = (if cmp x y \<le> 0 then x # y # ys else y # qsort_insert cmp x ys)"

definition c_qsort :: "('a \<Rightarrow> 'a \<Rightarrow> int) \<Rightarrow> 'a list \<Rightarrow> 'a list" where
  "c_qsort cmp xs = foldr (qsort_insert cmp) xs []"

text \<open>What the code relies on.\<close>

definition qsort_sorts :: "(('a \<Rightarrow> 'a \<Rightarrow> int) \<Rightarrow> 'a list \<Rightarrow> 'a list) \<Rightarrow> bool" where
  "qsort_sorts qsort \<longleftrightarrow>
    (\<forall>cmp xs. consistent cmp \<longrightarrow> mset (qsort cmp xs) = mset xs \<and> sorted_by cmp (qsort cmp xs))"

lemma mset_qsort_insert: "mset (qsort_insert cmp x ys) = add_mset x (mset ys)"
  by (induction ys) auto

lemma sorted_qsort_insert:
  assumes "consistent cmp" "sorted_by cmp ys"
  shows "sorted_by cmp (qsort_insert cmp x ys)"
  using assms(2)
proof (induction ys)
  case (Cons y ys)
  have set: "set (qsort_insert cmp x ys) = insert x (set ys)"
    using mset_qsort_insert [of cmp x ys] by (metis set_mset_add_mset_insert set_mset_mset)
  show ?case
  proof (cases "cmp x y \<le> 0")
    case True
    then show ?thesis using Cons.prems consistent_trans [OF assms(1) True] by (auto simp: sorted_by_def)
  next
    case False
    then have "cmp y x \<le> 0" using consistent_flip [OF assms(1), of x y] by simp
    then show ?thesis using Cons False by (auto simp: sorted_by_def set)
  qed
qed (simp add: sorted_by_def)

lemma c_qsort_sorts: "qsort_sorts c_qsort"
proof -
  have "mset (c_qsort cmp xs) = mset xs \<and> sorted_by cmp (c_qsort cmp xs)" if "consistent cmp"
    for cmp :: "'a \<Rightarrow> 'a \<Rightarrow> int" and xs
  proof (induction xs)
    case Nil
    show ?case by (simp add: c_qsort_def sorted_by_def)
  next
    case (Cons x xs)
    have "c_qsort cmp (x # xs) = qsort_insert cmp x (c_qsort cmp xs)" by (simp add: c_qsort_def)
    then show ?case using Cons sorted_qsort_insert [OF that] by (simp add: mset_qsort_insert)
  qed
  then show ?thesis by (simp add: qsort_sorts_def)
qed

end
