(* ===== verification/Cbb_Asn1.thy ===== *)
theory Cbb_Asn1
  imports Cbb_Refine Qsort "HOL-Library.List_Lexorder" "HOL-Library.Multiset"
begin

text \<open>
  The ASN.1 writers of \<^verbatim>\<open>crypto/bytestring/cbb.c\<close>, object identifiers in dotted-decimal text
  (\<^verbatim>\<open>cbb.c\<close> and \<^verbatim>\<open>cbs.c\<close>), and DER \<^verbatim>\<open>SET OF\<close>.
\<close>

section \<open>Tags and base-128 integers\<close>

function base128_len :: "u64 \<Rightarrow> nat" where
  "base128_len copy = (if copy = 0 then 0 else Suc (base128_len (drop_bit 7 copy)))"
  by pat_completeness auto
termination
proof (relation "measure unat")
  show "(drop_bit 7 copy, copy) \<in> measure unat" if "copy \<noteq> 0" for copy :: u64
    using that by (simp only: in_measure unat_drop_bit_eq) (simp add: drop_bit_eq_div unat_gt_0 div_less_dividend)
qed simp

declare base128_len.simps [simp del]

definition base128_byte :: "u64 \<Rightarrow> nat \<Rightarrow> u8" where
  "base128_byte v i =
    (let byte = ucast (drop_bit (7 * i) v) AND 0x7f
     in if i \<noteq> 0 then byte OR 0x80 else byte)"

fun add_base128_loop :: "nat \<Rightarrow> u64 \<Rightarrow> nat \<Rightarrow> cbb_op" where
  "add_base128_loop d v 0 cbb = (True, cbb)"
| "add_base128_loop d v (Suc i) cbb =
    and_then (CBB_add_u8 d (base128_byte v i)) (add_base128_loop d v i) cbb"

definition add_base128_integer :: "nat \<Rightarrow> u64 \<Rightarrow> cbb_op" where
  "add_base128_integer d v =
    (let len_len = base128_len v
     in add_base128_loop d v (if len_len = 0 then 1 else len_len))"

text \<open>The length byte of a new ASN.1 child, written by \<^verbatim>\<open>CBB_add_u8(cbb, 0)\<close>.\<close>

definition push_asn1_child :: "nat \<Rightarrow> cbb_op" where
  "push_asn1_child d cbb =
    (let off = length (buf (the (base cbb)))
     in case CBB_add_u8 d 0 cbb of
          (False, cbb) \<Rightarrow> (False, cbb)
        | (True, cbb) \<Rightarrow>
            (True, cbb\<lparr>children := take d (children cbb) @
                         [\<lparr>offset = off, pending_len_len = 1, pending_is_asn1 = True\<rparr>]\<rparr>))"

definition add_asn1_tag :: "nat \<Rightarrow> u32 \<Rightarrow> cbb_op" where
  "add_asn1_tag d tag =
    (let tag_bits = ucast (drop_bit CBS_ASN1_TAG_SHIFT tag) AND 0xe0 :: u8;
         tag_number = tag AND CBS_ASN1_TAG_NUMBER_MASK
     in if 0x1f \<le> tag_number
        then and_then (CBB_add_u8 d (tag_bits OR 0x1f)) (add_base128_integer d (ucast tag_number))
        else CBB_add_u8 d (tag_bits OR ucast tag_number))"

definition CBB_add_asn1 :: "nat \<Rightarrow> u32 \<Rightarrow> cbb_op" where
  "CBB_add_asn1 d tag = and_then (CBB_flush d) (and_then (add_asn1_tag d tag) (push_asn1_child d))"

section \<open>Integers, octet strings, booleans\<close>

text \<open>The loop over the eight bytes from \<open>i\<close> on; \<open>d\<close> is the child.\<close>

function add_uint64_loop :: "nat \<Rightarrow> u64 \<Rightarrow> bool \<Rightarrow> nat \<Rightarrow> cbb_op" where
  "add_uint64_loop d value started i cbb =
    (if 8 \<le> i then (if \<not> started then CBB_add_u8 d 0 cbb else (True, cbb))
     else
       let byte = ucast (drop_bit (8 * (7 - i)) value) AND 0xff :: u8
       in if \<not> started \<and> byte = 0 then add_uint64_loop d value started (Suc i) cbb
          else if \<not> started \<and> byte AND 0x80 \<noteq> 0
          then and_then (CBB_add_u8 d 0)
                 (and_then (CBB_add_u8 d byte) (add_uint64_loop d value True (Suc i))) cbb
          else and_then (CBB_add_u8 d byte) (add_uint64_loop d value True (Suc i)) cbb)"
  by pat_completeness auto
termination
  by (relation "measure (\<lambda>(d, value, started, i, cbb). 8 - i)") auto

declare add_uint64_loop.simps [simp del]

definition CBB_add_asn1_uint64 :: "nat \<Rightarrow> u64 \<Rightarrow> cbb_op" where
  "CBB_add_asn1_uint64 d value =
    and_then (CBB_add_asn1 d CBS_ASN1_INTEGER)
      (and_then (add_uint64_loop (Suc d) value False 0) (CBB_flush d))"

text \<open>The index of the first byte to write: the object representation from its top.\<close>

fun int64_start :: "u8 list \<Rightarrow> nat \<Rightarrow> nat" where
  "int64_start bytes 0 = 0"
| "int64_start bytes (Suc start) =
    (if bytes ! Suc start = 0xff \<and> bytes ! start AND 0x80 \<noteq> 0 then int64_start bytes start
     else Suc start)"

fun add_int64_loop :: "nat \<Rightarrow> u8 list \<Rightarrow> nat \<Rightarrow> cbb_op" where
  "add_int64_loop d bytes 0 cbb = (True, cbb)"
| "add_int64_loop d bytes (Suc i) cbb =
    and_then (CBB_add_u8 d (bytes ! i)) (add_int64_loop d bytes i) cbb"

definition CBB_add_asn1_int64 :: "nat \<Rightarrow> u64 \<Rightarrow> cbb_op" where
  "CBB_add_asn1_int64 d value =
    (if 0 \<le> sint value then CBB_add_asn1_uint64 d value
     else
       let bytes = mem_of_word 8 value; start = int64_start bytes 7
       in and_then (CBB_add_asn1 d CBS_ASN1_INTEGER)
            (and_then (add_int64_loop (Suc d) bytes (Suc start)) (CBB_flush d)))"

definition CBB_add_asn1_octet_string :: "nat \<Rightarrow> u8 list \<Rightarrow> cbb_op" where
  "CBB_add_asn1_octet_string d data =
    and_then (CBB_add_asn1 d CBS_ASN1_OCTETSTRING)
      (and_then (CBB_add_bytes (Suc d) data) (CBB_flush d))"

definition CBB_add_asn1_bool :: "nat \<Rightarrow> bool \<Rightarrow> cbb_op" where
  "CBB_add_asn1_bool d value =
    and_then (CBB_add_asn1 d CBS_ASN1_BOOLEAN)
      (and_then (CBB_add_u8 (Suc d) (if value then 0xff else 0)) (CBB_flush d))"

section \<open>Object identifiers as text\<close>

fun parse_dotted_loop :: "u64 \<Rightarrow> bool \<Rightarrow> cbs \<Rightarrow> u64 option \<times> cbs" where
  "parse_dotted_loop out seen_digit [] = (if seen_digit then Some out else None, [])"
| "parse_dotted_loop out seen_digit (u # cbs) =
    (if u = 0x2e \<and> cbs \<noteq> [] then (if seen_digit then Some out else None, cbs)
     else if u < 0x30 \<or> 0x39 < u \<or> (seen_digit \<and> out = 0) \<or> - 1 div 10 < out \<or>
             - 1 - ucast (u - 0x30) < out * 10 then (None, cbs)
     else parse_dotted_loop (out * 10 + ucast (u - 0x30)) True cbs)"

definition parse_dotted_decimal :: "u64 reader" where
  "parse_dotted_decimal cbs = parse_dotted_loop 0 False cbs"

lemma parse_dotted_shorter: "length (snd (parse_dotted_loop out seen s)) \<le> length s - 1"
  by (induction out seen s rule: parse_dotted_loop.induct) (auto simp: Suc_diff_le)

lemma parse_dotted_less: "(r, s') = parse_dotted_decimal s \<Longrightarrow> s \<noteq> [] \<Longrightarrow> length s' < length s"
  using parse_dotted_shorter [of 0 False s]
  by (cases s) (auto simp: parse_dotted_decimal_def less_Suc_eq_le dest: arg_cong [of _ _ snd])

function add_oid_components :: "nat \<Rightarrow> cbs \<Rightarrow> cbb_op" where
  "add_oid_components d cbs cbb =
    (if cbs = [] then (True, cbb)
     else
       case parse_dotted_decimal cbs of
         (None, _) \<Rightarrow> (False, cbb)
       | (Some a, cbs') \<Rightarrow> and_then (add_base128_integer d a) (add_oid_components d cbs') cbb)"
  by pat_completeness auto
termination
  by (relation "measure (\<lambda>(d, cbs, cbb). length cbs)") (auto dest: parse_dotted_less)

declare add_oid_components.simps [simp del]

definition CBB_add_asn1_oid_from_text :: "nat \<Rightarrow> u8 list \<Rightarrow> cbb_op" where
  "CBB_add_asn1_oid_from_text d text =
    and_then (CBB_flush d) (\<lambda>cbb.
      case parse_dotted_decimal text of
        (None, _) \<Rightarrow> (False, cbb)
      | (Some a, cbs) \<Rightarrow>
          (case parse_dotted_decimal cbs of
             (None, _) \<Rightarrow> (False, cbb)
           | (Some b, cbs) \<Rightarrow>
               if 2 < a \<or> (a < 2 \<and> 39 < b) \<or> - 1 - 80 < b then (False, cbb)
               else and_then (add_base128_integer d (40 * a + b)) (add_oid_components d cbs) cbb))"

text \<open>\<^verbatim>\<open>BIO_snprintf\<close> with \<^verbatim>\<open>PRIu64\<close>: the decimal digits.\<close>

function decimal_digits :: "nat \<Rightarrow> u8 list" where
  "decimal_digits v =
    (if v < 10 then [of_nat (48 + v)] else decimal_digits (v div 10) @ [of_nat (48 + v mod 10)])"
  by pat_completeness auto
termination
  by (relation "measure id") auto

declare decimal_digits.simps [simp del]

definition add_decimal :: "nat \<Rightarrow> u64 \<Rightarrow> cbb_op" where
  "add_decimal d v = CBB_add_bytes d (decimal_digits (unat v))"

function add_text_components :: "nat \<Rightarrow> cbs \<Rightarrow> cbb_op" where
  "add_text_components d copy cbb =
    (if copy = [] then (True, cbb)
     else
       case parse_base128_integer copy of
         (None, _) \<Rightarrow> (False, cbb)
       | (Some v, copy') \<Rightarrow>
           if length copy' < length copy
           then and_then (CBB_add_u8 d 0x2e) (and_then (add_decimal d v) (add_text_components d copy')) cbb
           else (False, cbb))"
  by pat_completeness auto
termination
  by (relation "measure (\<lambda>(d, copy, cbb). length copy)") auto

declare add_text_components.simps [simp del]

definition add_first_arcs :: "nat \<Rightarrow> u64 \<Rightarrow> cbb_op" where
  "add_first_arcs d v =
    (if 80 \<le> v then and_then (CBB_add_bytes d [0x32, 0x2e]) (add_decimal d (v - 80))
     else and_then (add_decimal d (v div 40)) (and_then (CBB_add_u8 d 0x2e) (add_decimal d (v mod 40))))"

definition CBS_asn1_oid_to_text :: "(nat \<Rightarrow> bool) \<Rightarrow> cbs \<Rightarrow> u8 list option" where
  "CBS_asn1_oid_to_text g cbs =
    (case CBB_init g 32 of
       (False, _) \<Rightarrow> None
     | (True, cbb) \<Rightarrow>
         (case parse_base128_integer cbs of
            (None, _) \<Rightarrow> None
          | (Some v, copy) \<Rightarrow>
              (case and_then (add_first_arcs 0 v)
                      (and_then (add_text_components 0 copy) (CBB_add_u8 0 0)) cbb of
                 (False, _) \<Rightarrow> None
               | (True, cbb) \<Rightarrow> fst (CBB_finish 0 False cbb))))"

section \<open>SET OF\<close>

text \<open>\<^verbatim>\<open>memcmp\<close>: the sign of the first difference.\<close>

fun OPENSSL_memcmp :: "u8 list \<Rightarrow> u8 list \<Rightarrow> nat \<Rightarrow> int" where
  "OPENSSL_memcmp (a # as) (b # bs) (Suc n) =
    (if a < b then -1 else if b < a then 1 else OPENSSL_memcmp as bs n)"
| "OPENSSL_memcmp _ _ _ = 0"

definition compare_set_of_element :: "cbs \<Rightarrow> cbs \<Rightarrow> int" where
  "compare_set_of_element a b =
    (let a_len = CBS_len a; b_len = CBS_len b;
         min_len = (if a_len < b_len then a_len else b_len);
         ret = OPENSSL_memcmp (CBS_data a) (CBS_data b) min_len
     in if ret \<noteq> 0 then ret
        else if a_len = b_len then 0
        else if a_len < b_len then -1 else 1)"

definition get_element_bytes :: "cbs reader" where
  "get_element_bytes s =
    (case CBS_get_any_asn1_element s of (None, s) \<Rightarrow> (None, s) | (Some e, s) \<Rightarrow> (Some (el_bytes e), s))"

fun add_all_bytes :: "nat \<Rightarrow> u8 list list \<Rightarrow> cbb_op" where
  "add_all_bytes d [] cbb = (True, cbb)"
| "add_all_bytes d (c # cs) cbb = and_then (CBB_add_bytes d c) (add_all_bytes d cs) cbb"

definition sizeof_CBS :: nat where
  "sizeof_CBS = 16"

definition rewind_contents :: "nat \<Rightarrow> cbb \<Rightarrow> cbb" where
  "rewind_contents d cbb = cbb\<lparr>base := map_option (buf_update (take (contents_start d cbb))) (base cbb)\<rparr>"

definition CBB_flush_asn1_set_of :: "nat \<Rightarrow> cbb_op" where
  "CBB_flush_asn1_set_of d = and_then (CBB_flush d) (\<lambda>cbb.
    case read_all get_element_bytes (CBB_data d cbb) of
      None \<Rightarrow> (False, cbb)
    | Some elements \<Rightarrow>
        let num_children = length elements
        in if num_children < 2 then (True, cbb)
           else if (2 ^ 64 - 1) div sizeof_CBS < num_children then (False, cbb)
           else if \<not> grants (the (base cbb)) (CBB_len d cbb) \<or>
                   \<not> grants (the (base cbb)) (num_children * sizeof_CBS) then (False, cbb)
           else
             (case read_all get_element_bytes (CBB_data d cbb) of
                None \<Rightarrow> (False, cbb)
              | Some copies \<Rightarrow>
                  add_all_bytes d (c_qsort compare_set_of_element copies) (rewind_contents d cbb)))"

section \<open>Tags\<close>

lemma flush_idle:
  assumes "cbb_rep st A" "length (snd A) = d"
  shows "CBB_flush d st = (True, st)"
  using assms by (cases st) (auto simp: cbb_rep_iff CBB_flush_def)

lemma push_asn1_child_eq:
  assumes "cbb_rep st A" "length (snd A) = d"
  shows "push_asn1_child d st = push_child d 1 True st"
proof -
  obtain b where b: "base st = Some b" using assms(1) by (auto simp: cbb_rep_iff)
  have "cbb_buffer_add_u b (ucast (0 :: u8)) 1 = cbb_buffer_add b [0]"
    using add_u_eq [of "ucast (0 :: u8)" 1 b] by simp
  then show ?thesis
    using b flush_idle [OF assms]
    by (simp add: push_asn1_child_def CBB_add_u8_def and_then_def on_base_def push_child_def
        split: prod.splits bool.splits)
qed

lemma opens_push_asn1:
  assumes "writes d f y"
  shows "opens d (and_then f (push_asn1_child d)) y Der"
  unfolding opens_def
  by (rule performs_exact_then [OF assms])
    (use push_child_rep [of _ _ d Der] push_asn1_child_eq in auto)

lemma and_then_skip [simp]: "and_then f (\<lambda>cbb. (True, cbb)) = f"
  by (rule ext) (auto simp: and_then_def split: prod.splits bool.splits)

lemma and_then_assoc: "and_then (and_then f g) h = and_then f (and_then g h)"
  by (rule ext) (auto simp: and_then_def split: prod.splits bool.splits)

lemma base128_high_map:
  "base128_high (unat v) =
    map (\<lambda>i. of_nat (128 + unat v div 128 ^ i mod 128)) (rev [0..<base128_len v])"
proof (induction v rule: base128_len.induct)
  case (1 v)
  show ?case
  proof (cases "v = 0")
    case True
    then show ?thesis by (simp add: base128_len.simps)
  next
    case False
    let ?w = "drop_bit 7 v"
    have w: "unat ?w = unat v div 128" by (simp only: unat_drop_bit_eq) (simp add: drop_bit_eq_div)
    have "base128_high (unat v) = base128_high (unat ?w) @ [of_nat (128 + unat v mod 128)]"
      using False by (simp only: w base128_high_step unat_eq_zero not_False_eq_True)
    moreover have "unat v div 128 ^ Suc i = unat ?w div 128 ^ i" for i
      unfolding w by (simp add: div_mult2_eq)
    moreover have "rev [0..<Suc k] = map Suc (rev [0..<k]) @ [0]" for k
      by (metis map_Suc_upt rev.simps(2) rev_map upt_conv_Cons zero_less_Suc)
    moreover have "base128_len v = Suc (base128_len ?w)" using False by (subst base128_len.simps) simp
    ultimately show ?thesis using 1 [OF False] by (simp only: map_append map_map o_def list.map power_0 div_by_1)
  qed
qed

lemma u8_or_80: "unat ((b AND 0x7f) OR 0x80 :: u8) = 128 + unat b mod 128"
proof -
  have "(b AND 0x7f) AND 0x80 = (0 :: u8)" by (simp add: u8_and_80 u8_and_7f)
  then have "(b AND 0x7f) OR 0x80 = (b AND 0x7f) + 0x80" by (metis word_plus_and_or add_0)
  then show ?thesis by (simp add: u8_and_7f unat_word_ariths)
qed

lemma unat_ucast_drop: "unat (ucast (drop_bit (7 * i) (v :: u64)) :: u8) mod 128 = unat v div 128 ^ i mod 128"
proof -
  have "unat (drop_bit (7 * i) v) = unat v div 128 ^ i"
    by (simp only: unat_drop_bit_eq) (simp add: drop_bit_eq_div power_mult)
  then show ?thesis by (simp add: unsigned_ucast_eq take_bit_eq_mod mod_mod_cancel)
qed

lemma base128_byte_high: "base128_byte v (Suc i) = of_nat (128 + unat v div 128 ^ Suc i mod 128)"
proof -
  have "unat (base128_byte v (Suc i)) = 128 + unat v div 128 ^ Suc i mod 128"
    unfolding base128_byte_def Let_def using unat_ucast_drop [of "Suc i" v] by (simp only: u8_or_80 if_True nat.distinct not_False_eq_True)
  moreover have "128 + unat v div 128 ^ Suc i mod 128 < 256" by simp
  ultimately show ?thesis by (simp only: word_unat_eq_iff unat_of_nat_u8 mod_less)
qed

lemma base128_byte_low: "base128_byte v 0 = of_nat (unat v mod 128)"
proof -
  have "unat (base128_byte v 0) = unat v mod 128"
    unfolding base128_byte_def Let_def u8_and_7f using unat_ucast_drop [of 0 v] by (simp add: u8_and_7f)
  then show ?thesis by (simp only: word_unat_eq_iff unat_of_nat_u8) simp
qed

lemma writes_base128_loop:
  "writes d (add_base128_loop d v (Suc n)) (map (base128_byte v) (rev [0..<Suc n]))"
proof (induction n)
  case (Suc n)
  have "add_base128_loop d v (Suc (Suc n)) =
      and_then (CBB_add_u8 d (base128_byte v (Suc n))) (add_base128_loop d v (Suc n))"
    by (rule ext) simp
  then show ?case using writes_and_then [OF writes_u8 Suc, of "base128_byte v (Suc n)"]
    by (simp del: add_base128_loop.simps)
next
  case 0
  have "add_base128_loop d v (Suc 0) = CBB_add_u8 d (base128_byte v 0)"
    by (rule ext) (simp add: and_then_def split: prod.splits bool.splits)
  then show ?case using writes_u8 [of d "base128_byte v 0"] by simp
qed

lemma rev_upt_Suc: "rev [0..<Suc k] = map Suc (rev [0..<k]) @ [0]"
  by (metis map_Suc_upt rev.simps(2) rev_map upt_conv_Cons zero_less_Suc)

lemma base128_bytes_eq:
  "map (base128_byte v) (rev [0..<(if base128_len v = 0 then 1 else base128_len v)]) = enc_base128 (unat v)"
proof (cases "v = 0")
  case True
  then show ?thesis by (simp add: base128_len.simps enc_base128_def base128_byte_low)
next
  case False
  let ?w = "drop_bit 7 v"
  have w: "unat ?w = unat v div 128" by (simp only: unat_drop_bit_eq) (simp add: drop_bit_eq_div)
  have len: "base128_len v = Suc (base128_len ?w)" using False by (subst base128_len.simps) simp
  have "unat v div 128 ^ Suc i = unat ?w div 128 ^ i" for i
    unfolding w by (simp add: div_mult2_eq)
  then show ?thesis
    unfolding len enc_base128_def w [symmetric] base128_high_map
    by (simp only: nat.distinct if_False rev_upt_Suc map_append map_map o_def list.map
        base128_byte_high base128_byte_low)
qed

lemma writes_base128: "writes d (add_base128_integer d v) (enc_base128 (unat v))"
proof -
  obtain n where n: "(if base128_len v = 0 then 1 else base128_len v) = Suc n"
    by (cases "base128_len v") auto
  show ?thesis
    unfolding add_base128_integer_def Let_def base128_bytes_eq [symmetric] n by (rule writes_base128_loop)
qed

lemma writes_tag: "writes d (add_asn1_tag d tag) (enc_tag tag)"
proof -
  have "writes d (add_base128_integer d (ucast (tag AND CBS_ASN1_TAG_NUMBER_MASK)))
      (enc_base128 (unat (tag AND CBS_ASN1_TAG_NUMBER_MASK)))"
    using writes_base128 [of d "ucast (tag AND CBS_ASN1_TAG_NUMBER_MASK)"] by simp
  from writes_and_then [OF writes_u8 this] show ?thesis
    by (simp add: add_asn1_tag_def enc_tag_def Let_def writes_u8)
qed

lemma opens_asn1: "opens d (CBB_add_asn1 d tag) (enc_tag tag) Der"
  unfolding CBB_add_asn1_def and_then_assoc [symmetric]
  using opens_push_asn1 [OF writes_and_then [OF performs_flush writes_tag]] by simp

lemma writes_asn1:
  assumes "writes (Suc d) f z" "length z \<le> 0xfffffffe"
  shows "writes d (and_then (CBB_add_asn1 d tag) (and_then f (CBB_flush d))) (der_element tag z)"
  using writes_child [OF opens_asn1 assms(1), of "enc_der_length (length z) @ z"] assms(2)
  by (simp add: with_prefix_def der_element_def)

section \<open>Integers\<close>

text \<open>The shortest contents of an unsigned value given by its big-endian bytes.\<close>

definition uint_contents :: "u8 list \<Rightarrow> u8 list" where
  "uint_contents bs =
    (case dropWhile ((=) 0) bs of
       [] \<Rightarrow> [0]
     | b # r \<Rightarrow> if 128 \<le> unat b then 0 # b # r else b # r)"

lemma uint_contents_simps [simp]:
  "uint_contents [] = [0]"
  "uint_contents (0 # bs) = uint_contents bs"
  "b \<noteq> 0 \<Longrightarrow> uint_contents (b # bs) = (if 128 \<le> unat b then 0 # b # bs else b # bs)"
  by (simp_all add: uint_contents_def)

lemma uint_contents_spec:
  "minimal_int (uint_contents bs) \<and> be_sint (uint_contents bs) = int (be_val bs) \<and>
   length (uint_contents bs) \<le> Suc (length bs)"
proof (induction bs)
  case Nil
  then show ?case by (simp add: be_sint_def be_neg_def)
next
  case (Cons b bs)
  then show ?case
  proof (cases "b = 0")
    case True
    then show ?thesis using Cons by (auto simp: be_val_Cons)
  next
    case False
    then have "minimal_int (b # bs)" if "\<not> 128 \<le> unat b"
      using that by (cases bs) (auto simp: unat_gt_0)
    then show ?thesis using False
      by (auto simp: be_sint_def be_neg_def be_val_Cons unat_gt_0)
  qed
qed

lemma be_bytes_nth: "i < n \<Longrightarrow> be_bytes n v ! i = of_nat (v div 256 ^ (n - Suc i))"
proof (induction n arbitrary: v)
  case (Suc n)
  show ?case
  proof (cases "i < n")
    case True
    then have "n - i = Suc (n - Suc i)" by simp
    then show ?thesis using Suc.IH [OF True] True by (simp add: nth_append div_mult2_eq)
  next
    case False
    then show ?thesis using Suc.prems by (simp add: nth_append less_Suc_eq)
  qed
qed simp

lemma uint64_byte:
  "i < 8 \<Longrightarrow> ucast (drop_bit (8 * (7 - i)) (v :: u64)) AND 0xff = be_bytes 8 (unat v) ! i"
proof -
  assume i: "i < 8"
  have "unat (drop_bit (8 * (7 - i)) v) = unat v div 256 ^ (7 - i)"
    by (simp only: unat_drop_bit_eq) (simp add: drop_bit_eq_div power_mult)
  then have "(ucast (drop_bit (8 * (7 - i)) v) :: u8) = of_nat (unat v div 256 ^ (7 - i))"
    by (metis of_nat_unat)
  moreover have "b AND 0xff = b" for b :: u8 by (simp add: u8_all_ones)
  ultimately show ?thesis using be_bytes_nth [OF i] by simp
qed

lemma writes_uint64_rest:
  assumes "writes d f y" "i \<le> 8"
  shows "writes d (and_then f (add_uint64_loop d v True i)) (y @ drop i (be_bytes 8 (unat v)))"
  using assms
proof (induction "8 - i" arbitrary: i f y)
  case 0
  then have "add_uint64_loop d v True i = (\<lambda>cbb. (True, cbb))"
    by (intro ext) (simp add: add_uint64_loop.simps)
  then show ?case using 0 by simp
next
  case (Suc k)
  let ?b = "be_bytes 8 (unat v) ! i"
  have i: "i < 8" using Suc by simp
  have "add_uint64_loop d v True i = and_then (CBB_add_u8 d ?b) (add_uint64_loop d v True (Suc i))"
    by (rule ext, subst add_uint64_loop.simps) (use i uint64_byte [OF i, of v] in \<open>simp add: Let_def\<close>)
  moreover have "drop i (be_bytes 8 (unat v)) = ?b # drop (Suc i) (be_bytes 8 (unat v))"
    using i by (simp add: Cons_nth_drop_Suc)
  moreover have "writes d (and_then (and_then f (CBB_add_u8 d ?b)) (add_uint64_loop d v True (Suc i)))
      ((y @ [?b]) @ drop (Suc i) (be_bytes 8 (unat v)))"
    using Suc.hyps(2) i by (intro Suc.hyps(1) writes_and_then Suc.prems writes_u8) auto
  ultimately show ?case by (simp add: and_then_assoc)
qed

lemma writes_uint64_loop:
  assumes "i \<le> 8"
  shows "writes d (add_uint64_loop d v False i) (uint_contents (drop i (be_bytes 8 (unat v))))"
  using assms
proof (induction "8 - i" arbitrary: i)
  case 0
  then have "add_uint64_loop d v False i = CBB_add_u8 d 0"
    by (intro ext) (simp add: add_uint64_loop.simps)
  then show ?case using 0 by (simp add: writes_u8)
next
  case (Suc k)
  let ?b = "be_bytes 8 (unat v) ! i"
  have i: "i < 8" using Suc by simp
  have drop: "drop i (be_bytes 8 (unat v)) = ?b # drop (Suc i) (be_bytes 8 (unat v))"
    using i by (simp add: Cons_nth_drop_Suc)
  have step: "add_uint64_loop d v False i =
      (if ?b = 0 then add_uint64_loop d v False (Suc i)
       else if 128 \<le> unat ?b
       then and_then (and_then (CBB_add_u8 d 0) (CBB_add_u8 d ?b)) (add_uint64_loop d v True (Suc i))
       else and_then (CBB_add_u8 d ?b) (add_uint64_loop d v True (Suc i)))"
    unfolding and_then_assoc
    by (rule ext, subst add_uint64_loop.simps)
      (use i uint64_byte [OF i, of v] u8_and_80 [of ?b] in \<open>simp add: Let_def not_less\<close>)
  show ?case
  proof (cases "?b = 0")
    case True
    then show ?thesis unfolding step drop using Suc i by simp
  next
    case False
    then show ?thesis unfolding step drop
      using writes_uint64_rest [OF writes_u8, of "Suc i" d ?b v] i
        writes_uint64_rest [OF writes_and_then [OF writes_u8 writes_u8], of "Suc i" d 0 ?b v]
      by simp
  qed
qed

lemma writes_asn1_uint64:
  "writes d (CBB_add_asn1_uint64 d v) (der_element CBS_ASN1_INTEGER (uint_contents (be_bytes 8 (unat v))))"
  unfolding CBB_add_asn1_uint64_def
  using writes_uint64_loop [of 0 "Suc d" v] uint_contents_spec [of "be_bytes 8 (unat v)"]
  by (intro writes_asn1) simp_all

lemma uint64_contents:
  "minimal_int (uint_contents (be_bytes 8 (unat (v :: u64))))"
  "be_sint (uint_contents (be_bytes 8 (unat v))) = uint v"
  "length (uint_contents (be_bytes 8 (unat v))) \<le> 9"
  using uint_contents_spec [of "be_bytes 8 (unat v)"] unat_u64_lt [of v]
  by (simp_all add: be_val_be_bytes)

lemma rev_take_Suc: "i < length xs \<Longrightarrow> rev (take (Suc i) xs) = xs ! i # rev (take i xs)"
  by (simp add: take_Suc_conv_app_nth)

text \<open>Dropping a sign-extension byte keeps the sign and the value.\<close>

lemma int64_start_spec:
  assumes "i < length bytes" "be_neg (rev (take (Suc i) bytes))"
  shows "int64_start bytes i \<le> i \<and>
    minimal_int (rev (take (Suc (int64_start bytes i)) bytes)) \<and>
    be_sint (rev (take (Suc (int64_start bytes i)) bytes)) = be_sint (rev (take (Suc i) bytes))"
  using assms
proof (induction bytes i rule: int64_start.induct)
  case (1 bytes)
  then show ?case by (cases bytes) simp_all
next
  case (2 bytes i)
  have eq: "rev (take (Suc (Suc i)) bytes) = bytes ! Suc i # rev (take (Suc i) bytes)"
    using 2(2) by (simp add: rev_take_Suc)
  have eq': "rev (take (Suc i) bytes) = bytes ! i # rev (take i bytes)"
    using 2(2) by (simp add: rev_take_Suc)
  have neg: "128 \<le> unat (bytes ! Suc i)" using 2(3) unfolding eq by (simp add: be_neg_def)
  show ?case
  proof (cases "bytes ! Suc i = 0xff \<and> bytes ! i AND 0x80 \<noteq> 0")
    case True
    then have n: "be_neg (rev (take (Suc i) bytes))" by (simp add: eq' be_neg_def u8_and_80 not_less)
    have "be_sint (rev (take (Suc (Suc i)) bytes)) = be_sint (rev (take (Suc i) bytes))"
      unfolding eq be_sint_shorter using n True by simp
    then show ?thesis using 2(1) [OF True _ n] 2(2) True by (simp add: eq del: take_Suc) 
  next
    case False
    have "minimal_int (rev (take (Suc (Suc i)) bytes))"
      unfolding eq unfolding eq' using False neg by (auto simp: u8_and_80 not_less unat_eq_255)
    then show ?thesis using False by auto
  qed
qed

lemma writes_int64_loop:
  assumes "Suc i \<le> length bytes"
  shows "writes d (add_int64_loop d bytes (Suc i)) (rev (take (Suc i) bytes))"
  using assms
proof (induction i)
  case 0
  have "add_int64_loop d bytes (Suc 0) = CBB_add_u8 d (bytes ! 0)"
    by (rule ext) (simp add: and_then_def split: prod.splits bool.splits)
  then show ?case using 0 writes_u8 [of d "bytes ! 0"] by (cases bytes) simp_all
next
  case (Suc i)
  have "add_int64_loop d bytes (Suc (Suc i)) =
      and_then (CBB_add_u8 d (bytes ! Suc i)) (add_int64_loop d bytes (Suc i))"
    by (rule ext) simp
  then show ?case
    using writes_and_then [OF writes_u8 Suc.IH, of "bytes ! Suc i"] Suc.prems
    by (simp add: rev_take_Suc [of "Suc i"] del: add_int64_loop.simps)
qed

definition int_contents :: "u64 \<Rightarrow> u8 list" where
  "int_contents v =
    (if 0 \<le> sint v then uint_contents (be_bytes 8 (unat v))
     else rev (take (Suc (int64_start (mem_of_word 8 v) 7)) (mem_of_word 8 v)))"

lemma sint_be_bytes: "be_sint (be_bytes 8 (unat (v :: u64))) = sint v"
proof -
  let ?c = "be_bytes 8 (unat v)"
  have "be_val ?c = unat v" using unat_u64_lt [of v] by (simp add: be_val_be_bytes)
  moreover have "blit (replicate 8 p) 0 (rev ?c) = rev ?c" for p by (simp add: blit_def)
  ultimately have "sign_extended (be_neg ?c) ?c = v"
    by (simp only: sign_extended_def Let_def word_of_mem_def le_val_def rev_rev_ident) simp
  then show ?thesis using sint_sign_extend [of ?c] by simp
qed

lemma int64_contents: "minimal_int (int_contents v) \<and> be_sint (int_contents v) = sint v \<and> length (int_contents v) \<le> 9"
proof (cases "0 \<le> sint v")
  case True
  then have "\<not> be_neg (be_bytes 8 (unat v))" using sint_be_bytes [of v] be_sint_neg_iff by (metis not_less)
  then have "sint v = int (unat v)"
    using sint_be_bytes [of v] be_sint_not_neg unat_u64_lt [of v] by (simp add: be_val_be_bytes)
  then have "sint v = uint v" unfolding of_nat_unat .
  then show ?thesis using True uint64_contents [of v] by (simp add: int_contents_def)
next
  case False
  let ?m = "mem_of_word 8 v"
  have m: "rev (take (Suc 7) ?m) = be_bytes 8 (unat v)" by (simp add: mem_of_word_def)
  have "be_neg (be_bytes 8 (unat v))" using False sint_be_bytes [of v] be_sint_neg_iff by (metis not_less)
  then show ?thesis using int64_start_spec [of 7 ?m] False sint_be_bytes [of v]
    unfolding m by (simp add: int_contents_def del: take_Suc)
qed

lemma writes_asn1_int64:
  "writes d (CBB_add_asn1_int64 d v) (der_element CBS_ASN1_INTEGER (int_contents v))"
proof (cases "0 \<le> sint v")
  case True
  then show ?thesis using writes_asn1_uint64 [of d v]
    unfolding CBB_add_asn1_int64_def int_contents_def by simp
next
  case False
  let ?m = "mem_of_word 8 v" and ?s = "int64_start (mem_of_word 8 v) 7"
  have "be_neg (be_bytes 8 (unat v))" using False sint_be_bytes [of v] be_sint_neg_iff by (metis not_less)
  then have "?s \<le> 7" using int64_start_spec [of 7 ?m] by (simp add: mem_of_word_def)
  then have w: "writes (Suc d) (add_int64_loop (Suc d) ?m (Suc ?s)) (int_contents v)"
    using writes_int64_loop [of ?s ?m "Suc d"] False by (simp add: int_contents_def del: add_int64_loop.simps)
  show ?thesis
    using writes_asn1 [OF w, of CBS_ASN1_INTEGER] int64_contents [of v] False
    unfolding CBB_add_asn1_int64_def Let_def by simp
qed

lemma writes_asn1_octet_string:
  "length data \<le> 0xfffffffe \<Longrightarrow>
   writes d (CBB_add_asn1_octet_string d data) (der_element CBS_ASN1_OCTETSTRING data)"
  unfolding CBB_add_asn1_octet_string_def by (intro writes_asn1 writes_bytes) simp_all

lemma writes_asn1_bool:
  "writes d (CBB_add_asn1_bool d value) (der_element CBS_ASN1_BOOLEAN [if value then 0xff else 0])"
  unfolding CBB_add_asn1_bool_def by (intro writes_asn1 writes_u8) simp_all

section \<open>Object identifiers as text\<close>

lemma decimal_digits_small: "n < 10 \<Longrightarrow> decimal_digits n = [of_nat (48 + n)]"
  by (subst decimal_digits.simps) simp

lemma decimal_digits_step:
  "\<not> n < 10 \<Longrightarrow> decimal_digits n = decimal_digits (n div 10) @ [of_nat (48 + n mod 10)]"
  by (subst decimal_digits.simps) simp

lemma decimal_digits_nonempty [simp]: "decimal_digits n \<noteq> []"
  by (cases "n < 10") (simp_all add: decimal_digits_small decimal_digits_step)

lemma length_decimal_digits: "n < 10 ^ Suc k \<Longrightarrow> length (decimal_digits n) \<le> Suc k"
proof (induction k arbitrary: n)
  case 0
  then show ?case by (simp add: decimal_digits_small)
next
  case (Suc k)
  then have "n div 10 < 10 ^ Suc k" by (simp add: less_mult_imp_div_less)
  then show ?case using Suc.IH [of "n div 10"]
    by (cases "n < 10") (simp_all add: decimal_digits_small decimal_digits_step)
qed

lemma length_decimal_u64: "length (decimal_digits (unat (v :: u64))) < 2 ^ 64"
  using length_decimal_digits [of "unat v" 19] unat_u64_lt [of v] by simp

text \<open>One digit of the parser, on numbers.\<close>

lemma parse_dotted_digit:
  assumes "c < 10" "m * 10 + c < 2 ^ 64" "seen \<Longrightarrow> m \<noteq> 0"
  shows "parse_dotted_loop (of_nat m) seen (of_nat (48 + c) # x) = parse_dotted_loop (of_nat (m * 10 + c)) True x"
proof -
  let ?m = "of_nat m :: u64" and ?u = "of_nat (48 + c) :: u8"
  have m: "unat ?m = m" using assms(2) by (simp add: unat_of_nat_small)
  have u: "unat ?u = 48 + c" using assms(1) by (simp only: unat_of_nat_u8) simp
  have "unat (?u - 0x30) = c" using u by (subst unat_sub) (simp_all only: word_le_nat_alt, simp_all)
  then have uc: "(ucast (?u - 0x30) :: u64) = of_nat c" by (metis of_nat_unat)
  have digit: "\<not> ?u < 0x30" "\<not> 0x39 < ?u" "?u \<noteq> 0x2e"
    using u assms(1) by (auto simp: word_less_nat_alt word_unat_eq_iff)
  have "unat (- 1 :: u64) = 2 ^ 64 - 1" by (simp add: unsigned_minus_1_eq_mask mask_eq_exp_minus_1)
  then have big: "\<not> - 1 div 10 < ?m"
    unfolding word_less_nat_alt unat_div m using assms(2) by simp
  have m10: "unat (?m * 10) = m * 10"
    using assms(2) by (simp add: unat_word_ariths m)
  have "unat (- 1 - of_nat c :: u64) = 2 ^ 64 - 1 - c"
    using assms(1) \<open>unat (- 1 :: u64) = 2 ^ 64 - 1\<close> by (subst unat_sub) (simp_all add: word_le_nat_alt unat_of_nat_small)
  then have small: "\<not> - 1 - of_nat c < ?m * 10"
    unfolding word_less_nat_alt m10 using assms(2) by linarith
  have zero: "\<not> (seen \<and> ?m = 0)" using assms(3) m by auto
  have sum: "?m * 10 + of_nat c = of_nat (m * 10 + c)" by simp
  show ?thesis
    by (subst parse_dotted_loop.simps) (simp only: uc digit big small zero sum simp_thms if_False)
qed

lemma parse_dotted_digits:
  "n < 2 ^ 64 \<Longrightarrow> parse_dotted_loop 0 False (decimal_digits n @ x) = parse_dotted_loop (of_nat n) True x"
proof (induction n arbitrary: x rule: decimal_digits.induct)
  case (1 n)
  show ?case
  proof (cases "n < 10")
    case True
    then show ?thesis using parse_dotted_digit [of n 0 False x] by (simp add: decimal_digits_small)
  next
    case False
    then show ?thesis
      using 1 parse_dotted_digit [of "n mod 10" "n div 10" True x]
      by (simp add: decimal_digits_step del: of_nat_add of_nat_mult) 
  qed
qed

lemma parse_dotted_decimal_eq:
  "parse_dotted_decimal (decimal_digits (unat v)) = (Some v, [])"
  "s \<noteq> [] \<Longrightarrow> parse_dotted_decimal (decimal_digits (unat v) @ 0x2e # s) = (Some v, s)"
  using parse_dotted_digits [OF unat_u64_lt, of v "[]"] parse_dotted_digits [OF unat_u64_lt, of v "0x2e # s"]
  by (simp_all add: parse_dotted_decimal_def)

text \<open>The text of the components after the first, each behind its dot.\<close>

definition dotted :: "u64 list \<Rightarrow> u8 list" where
  "dotted vs = concat (map (\<lambda>v. 0x2e # decimal_digits (unat v)) vs)"

definition base128_all :: "u64 list \<Rightarrow> u8 list" where
  "base128_all vs = concat (map (\<lambda>v. enc_base128 (unat v)) vs)"

lemma dotted_simps [simp]:
  "dotted [] = []" "dotted (v # vs) = 0x2e # decimal_digits (unat v) @ dotted vs"
  "base128_all [] = []" "base128_all (v # vs) = enc_base128 (unat v) @ base128_all vs"
  by (simp_all add: dotted_def base128_all_def)

lemma writes_decimal: "writes d (add_decimal d v) (decimal_digits (unat v))"
  unfolding add_decimal_def by (intro writes_bytes length_decimal_u64)

lemma writes_text_components:
  "writes d f y \<Longrightarrow> writes d (and_then f (add_text_components d (base128_all vs))) (y @ dotted vs)"
proof (induction vs arbitrary: f y)
  case Nil
  have "add_text_components d [] = (\<lambda>cbb. (True, cbb))"
    by (rule ext) (simp add: add_text_components.simps)
  then show ?case using Nil by simp
next
  case (Cons v vs)
  have "add_text_components d (base128_all (v # vs)) =
      and_then (CBB_add_u8 d 0x2e) (and_then (add_decimal d v) (add_text_components d (base128_all vs)))"
    by (rule ext, subst add_text_components.simps) (simp add: base128.get_enc)
  moreover have "writes d (and_then f (and_then (CBB_add_u8 d 0x2e) (add_decimal d v)))
      (y @ [0x2e] @ decimal_digits (unat v))"
    by (intro writes_and_then Cons.prems writes_u8 writes_decimal)
  ultimately show ?case using Cons.IH by (fastforce simp: and_then_assoc)
qed

lemma text_components_parsed:
  "add_text_components d copy st = (True, st') \<Longrightarrow> \<exists>vs. copy = base128_all vs"
proof (induction d copy st arbitrary: st' rule: add_text_components.induct)
  case (1 d copy st)
  show ?case
  proof (cases "copy = []")
    case True
    then show ?thesis by (intro exI [of _ "[]"]) simp
  next
    case False
    with "1.prems" obtain v copy' where v: "parse_base128_integer copy = (Some v, copy')"
      "length copy' < length copy"
      "and_then (CBB_add_u8 d 0x2e) (and_then (add_decimal d v) (add_text_components d copy')) st = (True, st')"
      by (subst (asm) add_text_components.simps) (auto split: prod.splits option.splits if_splits)
    obtain st1 where "add_text_components d copy' st1 = (True, st')"
      using v(3) by (auto simp: and_then_def split: prod.splits bool.splits)
    from "1.IH" [OF False v(1) [symmetric] refl v(2) this] obtain vs where "copy' = base128_all vs" by auto
    moreover have "copy = enc_base128 (unat v) @ copy'" using base128.get_sound [OF v(1)] by simp
    ultimately show ?thesis by (intro exI [of _ "v # vs"]) simp
  qed
qed

lemma writes_first_arcs:
  "writes d (add_first_arcs d v)
    (if 80 \<le> v then [0x32, 0x2e] @ decimal_digits (unat (v - 80))
     else decimal_digits (unat (v div 40)) @ [0x2e] @ decimal_digits (unat (v mod 40)))"
  unfolding add_first_arcs_def
  by (cases "80 \<le> v") (simp_all only: if_True if_False, (intro writes_and_then writes_bytes writes_decimal writes_u8; simp)+)

text \<open>The two first arcs that a first component stands for.\<close>

definition first_arcs :: "u64 \<Rightarrow> u64 \<times> u64" where
  "first_arcs v = (if 80 \<le> v then (2, v - 80) else (v div 40, v mod 40))"

definition oid_text :: "u64 \<Rightarrow> u64 list \<Rightarrow> u8 list" where
  "oid_text v vs = decimal_digits (unat (fst (first_arcs v))) @ dotted (snd (first_arcs v) # vs)"

lemma writes_oid_text:
  "writes d (and_then (and_then (add_first_arcs d v) (add_text_components d (base128_all vs))) (CBB_add_u8 d 0))
    (oid_text v vs @ [0])"
  by (rule writes_and_then [OF _ writes_u8], rule back_subst [where P = "\<lambda>z. performs d _ (write_at d z) d",
      OF writes_text_components [OF writes_first_arcs]])
    (simp add: oid_text_def first_arcs_def decimal_digits_small)

lemma oid_to_text_eq:
  assumes "CBS_asn1_oid_to_text g cbs = Some txt"
  shows "\<exists>v vs. cbs = enc_base128 (unat v) @ base128_all vs \<and> txt = oid_text v vs @ [0]"
proof -
  obtain st v copy where st: "CBB_init g 32 = (True, st)" and v: "parse_base128_integer cbs = (Some v, copy)"
    using assms by (auto simp: CBS_asn1_oid_to_text_def split: prod.splits bool.splits option.splits)
  let ?f = "and_then (add_first_arcs 0 v) (and_then (add_text_components 0 copy) (CBB_add_u8 0 0))"
  have b: "cbb_build g 32 ?f = Some txt"
    using assms by (simp add: CBS_asn1_oid_to_text_def cbb_build_def st v)
  then obtain st1 st2 where "add_text_components 0 copy st1 = (True, st2)"
    by (auto simp: cbb_build_def st and_then_def split: prod.splits bool.splits)
  then obtain vs where vs: "copy = base128_all vs" using text_components_parsed by blast
  have "txt = oid_text v vs @ [0]"
    using build_writes [OF writes_oid_text] b unfolding vs and_then_assoc by blast
  moreover have "cbs = enc_base128 (unat v) @ base128_all vs" using base128.get_sound [OF v] vs by simp
  ultimately show ?thesis by blast
qed

lemma writes_oid_components:
  "writes d f y \<Longrightarrow> writes d (and_then f (add_oid_components d (tl (dotted vs)))) (y @ base128_all vs)"
proof (induction vs arbitrary: f y)
  case Nil
  have "add_oid_components d [] = (\<lambda>cbb. (True, cbb))"
    by (rule ext) (simp add: add_oid_components.simps)
  then show ?case using Nil by simp
next
  case (Cons v vs)
  have "parse_dotted_decimal (decimal_digits (unat v) @ dotted vs) = (Some v, tl (dotted vs))"
    using parse_dotted_decimal_eq by (cases vs) simp_all
  then have "add_oid_components d (tl (dotted (v # vs))) =
      and_then (add_base128_integer d v) (add_oid_components d (tl (dotted vs)))"
    by (intro ext, subst add_oid_components.simps) simp
  moreover have "writes d (and_then f (add_base128_integer d v)) (y @ enc_base128 (unat v))"
    by (intro writes_and_then Cons.prems writes_base128)
  ultimately show ?case using Cons.IH by (fastforce simp: and_then_assoc)
qed

lemma first_arcs_bounds:
  fixes v :: u64
  assumes "first_arcs v = (a, b)"
  shows "\<not> (2 < a \<or> (a < 2 \<and> 39 < b) \<or> - 81 < b)" "40 * a + b = v"
proof -
  have m: "unat (- 81 :: u64) = 2 ^ 64 - 81" by simp
  have "\<not> (2 < a \<or> (a < 2 \<and> 39 < b) \<or> - 81 < b) \<and> 40 * a + b = v"
  proof (cases "80 \<le> v")
    case True
    then have "a = 2" "b = v - 80" using assms by (simp_all add: first_arcs_def)
    moreover have "unat (v - 80) = unat v - 80" using True by (simp add: unat_sub)
    ultimately show ?thesis using m unat_u64_lt [of v] by (simp add: word_less_nat_alt)
  next
    case False
    then have ab: "a = v div 40" "b = v mod 40" using assms by (simp_all add: first_arcs_def)
    have "unat v < 80" using False by (simp add: word_le_nat_alt)
    then have "unat a < 2" "unat b < 40" by (simp_all add: ab unat_div unat_mod less_mult_imp_div_less)
    then show ?thesis using m mult_div_mod_eq [of 40 v] by (simp add: ab word_less_nat_alt)
  qed
  then show "\<not> (2 < a \<or> (a < 2 \<and> 39 < b) \<or> - 81 < b)" "40 * a + b = v" by blast+
qed

lemma writes_oid_from_text:
  "writes d (CBB_add_asn1_oid_from_text d (oid_text v vs)) (enc_base128 (unat v) @ base128_all vs)"
proof -
  obtain a b where ab: "first_arcs v = (a, b)" by (cases "first_arcs v")
  have "parse_dotted_decimal (oid_text v vs) = (Some a, decimal_digits (unat b) @ dotted vs)"
    using parse_dotted_decimal_eq(2) by (simp add: oid_text_def ab)
  moreover have "parse_dotted_decimal (decimal_digits (unat b) @ dotted vs) = (Some b, tl (dotted vs))"
    using parse_dotted_decimal_eq by (cases vs) simp_all
  ultimately have "CBB_add_asn1_oid_from_text d (oid_text v vs) =
      and_then (and_then (CBB_flush d) (add_base128_integer d v)) (add_oid_components d (tl (dotted vs)))"
    unfolding CBB_add_asn1_oid_from_text_def and_then_assoc
    by (intro ext) (simp add: and_then_def if_not_P [OF first_arcs_bounds(1) [OF ab]]
        first_arcs_bounds(2) [OF ab] split: prod.splits bool.splits)
  moreover have "writes d (and_then (CBB_flush d) (add_base128_integer d v)) (enc_base128 (unat v))"
    using writes_and_then [OF performs_flush writes_base128] by simp
  ultimately show ?thesis using writes_oid_components by metis
qed

section \<open>SET OF\<close>

lemma compare_set_of_Cons:
  "compare_set_of_element (a # as) (b # bs) =
    (if a < b then -1 else if b < a then 1 else compare_set_of_element as bs)"
  by (simp add: compare_set_of_element_def Let_def CBS_len_def CBS_data_def)

text \<open>The order of X.690, section 11.6, is the lexicographic order of the library.\<close>

lemma compare_set_of_le: "compare_set_of_element a b \<le> 0 \<longleftrightarrow> a \<le> b"
proof (induction a arbitrary: b)
  case Nil
  then show ?case by (cases b) (simp_all add: compare_set_of_element_def CBS_len_def CBS_data_def)
next
  case (Cons x a)
  show ?case
  proof (cases b)
    case Nil
    then show ?thesis by (simp add: compare_set_of_element_def CBS_len_def CBS_data_def)
  next
    case b: (Cons y b')
    show ?thesis unfolding b compare_set_of_Cons using Cons [of b'] by (auto simp: Cons_le_Cons)
  qed
qed

lemma qsort_set_of: "c_qsort compare_set_of_element xs = sort xs"
proof -
  have "qsort_insert compare_set_of_element x ys = insort x ys" for x ys
    by (induction ys) (simp_all add: compare_set_of_le)
  then have "qsort_insert compare_set_of_element = insort" by (intro ext)
  then show ?thesis by (simp add: c_qsort_def sort_key_def)
qed

text \<open>The contents of the innermost open child, or of the root.\<close>

fun builder_contents :: "builder \<Rightarrow> u8 list" where
  "builder_contents (xs, cs) = (if cs = [] then xs else snd (last cs))"

fun set_contents :: "builder \<Rightarrow> u8 list \<Rightarrow> builder" where
  "set_contents (xs, cs) z = (if cs = [] then (z, []) else (xs, butlast cs @ [(fst (last cs), z)]))"

lemma extend_set_contents: "extend (set_contents A y) z = set_contents A (y @ z)"
  by (cases A) auto

lemma set_builder_contents: "set_contents A (builder_contents A) = A"
proof (cases A)
  case (Pair xs cs)
  then show ?thesis by (cases cs rule: rev_cases) auto
qed

lemma set_contents_depth [simp]: "length (snd (set_contents A z)) = length (snd A)"
  by (cases A) simp

lemma contents_split:
  obtains p where "builder_bytes A = p @ builder_contents A" "\<And>z. builder_bytes (set_contents A z) = p @ z"
    "\<And>z. chain_children (length (fst (set_contents A z))) (snd (set_contents A z)) =
      chain_children (length (fst A)) (snd A)"
    "\<And>z. small_prefixes (snd (set_contents A z)) = small_prefixes (snd A)"
    "\<And>z. length (snd (set_contents A z)) = length (snd A)"
    "\<And>st. children st = chain_children (length (fst A)) (snd A) \<Longrightarrow>
      contents_start (length (snd A)) st = length p"
proof (cases A)
  case (Pair xs cs)
  show ?thesis
  proof (cases cs rule: rev_cases)
    case Nil
    then show ?thesis using that [of "[]"] by (simp add: Pair builder_bytes_def contents_start_def)
  next
    case (snoc ds c)
    obtain k ys where c: "c = (k, ys)" by (cases c)
    show ?thesis
      using that [of "xs @ chain_bytes ds @ replicate (plen k) 0"]
      by (simp add: Pair snoc c builder_bytes_def contents_start_def chain_children_append nth_append)
  qed
qed

definition is_der_element :: "u8 list \<Rightarrow> bool" where
  "is_der_element x \<longleftrightarrow> (\<exists>t c. length c < 2 ^ 32 \<and> x = der_element t c)"

lemma get_element_bytes_iff:
  "get_element_bytes s = (Some x, s') \<longleftrightarrow> is_der_element x \<and> s = x @ s'"
proof -
  have "get_element_bytes s = (Some x, s') \<longleftrightarrow>
      (\<exists>e. cbs_get_any_asn1_element s False = (Some e, s') \<and> el_bytes e = x)"
    by (auto simp: get_element_bytes_def CBS_get_any_asn1_element_def split: prod.splits option.splits)
  also have "\<dots> \<longleftrightarrow> is_der_element x \<and> s = x @ s'"
  proof
    assume "is_der_element x \<and> s = x @ s'"
    then obtain t c where "length c < 2 ^ 32" "x = der_element t c" "s = x @ s'" by (auto simp: is_der_element_def)
    then show "\<exists>e. cbs_get_any_asn1_element s False = (Some e, s') \<and> el_bytes e = x"
      by (intro exI [of _ "\<lparr>el_bytes = x, el_tag = t, el_header_len = length (der_header t (length c)),
          el_ber_found = False\<rparr>"]) (auto simp: any_asn1_element_iff)
  qed (auto simp: any_asn1_element_iff is_der_element_def)
  finally show ?thesis .
qed

interpretation set_element: canonical "\<lambda>x. x" get_element_bytes is_der_element
  by unfold_locales (auto simp: get_element_bytes_iff is_der_element_def der_element_def)

lemma read_all_elements:
  "read_all get_element_bytes s = Some xs \<longleftrightarrow> list_all is_der_element xs \<and> s = concat xs"
  using set_element.read_all_iff [of s xs] by simp

lemma read_all_elements_short:
  "read_all get_element_bytes s = Some xs \<Longrightarrow> x \<in> set xs \<Longrightarrow> length x \<le> length s"
  by (auto simp: read_all_elements length_concat intro!: member_le_sum_list)

lemma writes_all_bytes:
  "writes d f y \<Longrightarrow> \<forall>c \<in> set cs. length c < 2 ^ 64 \<Longrightarrow>
   writes d (and_then f (add_all_bytes d cs)) (y @ concat cs)"
proof (induction cs arbitrary: f y)
  case Nil
  have "add_all_bytes d [] = (\<lambda>cbb. (True, cbb))" by (rule ext) simp
  then show ?case using Nil by simp
next
  case (Cons c cs)
  have "add_all_bytes d (c # cs) = and_then (CBB_add_bytes d c) (add_all_bytes d cs)" by (rule ext) simp
  then show ?case
    using Cons.IH [OF writes_and_then [OF Cons.prems(1) writes_bytes], of c] Cons.prems(2)
    by (simp add: and_then_assoc)
qed

lemma writes_elements:
  assumes "cs \<noteq> []" "\<forall>c \<in> set cs. length c < 2 ^ 64"
  shows "writes d (add_all_bytes d cs) (concat cs)"
proof -
  obtain c cs' where cs: "cs = c # cs'" using assms(1) by (cases cs) auto
  have "add_all_bytes d cs = and_then (CBB_add_bytes d c) (add_all_bytes d cs')"
    unfolding cs by (rule ext) simp
  then show ?thesis using writes_all_bytes [of d "CBB_add_bytes d c" c cs'] assms(2)
    by (simp add: cs writes_bytes)
qed

lemma rewind_rep:
  assumes "cbb_rep st A" "length (snd A) = d"
  shows "cbb_rep (rewind_contents d st) (set_contents A [])"
proof -
  obtain b where b: "base st = Some b" "\<not> error b" "buf b = builder_bytes A" "length (buf b) < 2 ^ 64"
    "children st = chain_children (length (fst A)) (snd A)" "small_prefixes (snd A)"
    using assms(1) by (auto simp: cbb_rep_iff)
  obtain p where p: "builder_bytes A = p @ builder_contents A" "\<And>z. builder_bytes (set_contents A z) = p @ z"
    "\<And>z. chain_children (length (fst (set_contents A z))) (snd (set_contents A z)) =
      chain_children (length (fst A)) (snd A)"
    "\<And>z. small_prefixes (snd (set_contents A z)) = small_prefixes (snd A)"
    "contents_start d st = length p"
    using contents_split [of A] b(5) assms(2) by metis
  show ?thesis unfolding cbb_rep_iff using b p by (simp add: rewind_contents_def)
qed

lemma flush_set_of_spec:
  assumes "cbb_rep st A" "d \<le> length (snd A)" "CBB_flush_asn1_set_of d st = (True, st')"
  shows "\<exists>B xs. close_to d A = Some B \<and> read_all get_element_bytes (builder_contents B) = Some xs \<and>
    cbb_rep st' (set_contents B (concat (sort xs)))"
proof -
  obtain st1 where fl: "CBB_flush d st = (True, st1)"
    using assms(3) by (auto simp: CBB_flush_asn1_set_of_def and_then_def split: prod.splits bool.splits)
  obtain B where B: "close_to d A = Some B" "cbb_rep st1 B"
    using performs_ok(1) [OF performs_flush assms(1,2) fl] by (auto simp: write_at_Nil)
  have d: "length (snd B) = d" using close_to_depth [OF B(1) assms(2)] .
  obtain b where b: "base st1 = Some b" "buf b = builder_bytes B" "length (buf b) < 2 ^ 64"
    "children st1 = chain_children (length (fst B)) (snd B)"
    using B(2) by (auto simp: cbb_rep_iff)
  have data: "CBB_data d st1 = builder_contents B"
    using contents_split [of B] b d by (metis CBB_data_def append_eq_conv_conj option.sel)
  obtain xs where xs: "read_all get_element_bytes (builder_contents B) = Some xs"
    using assms(3) fl data
    by (auto simp: CBB_flush_asn1_set_of_def and_then_def Let_def split: option.splits)
  consider "length xs < 2" "st' = st1"
    | "2 \<le> length xs" "add_all_bytes d (sort xs) (rewind_contents d st1) = (True, st')"
    using assms(3) fl data xs
    by (auto simp: CBB_flush_asn1_set_of_def and_then_def Let_def qsort_set_of not_less split: if_splits)
  then have "cbb_rep st' (set_contents B (concat (sort xs)))"
  proof cases
    case 1
    then have "sort xs = xs" by (cases xs; cases "tl xs") auto
    then have "set_contents B (concat (sort xs)) = B"
      using xs set_builder_contents [of B] by (simp add: read_all_elements)
    then show ?thesis using B(2) 1 by simp
  next
    case 2
    let ?C = "set_contents B []"
    have C: "cbb_rep (rewind_contents d st1) ?C" "length (snd ?C) = d"
      using rewind_rep [OF B(2) d] d by simp_all
    have "sort xs \<noteq> []" using 2(1) by (metis length_sort list.size(3) not_numeral_le_zero)
    moreover have "length x \<le> length (buf b)" if "x \<in> set xs" for x
      using read_all_elements_short [OF xs that] contents_split [of B] b(2) by (metis le_add2 length_append order_trans)
    then have "\<forall>x \<in> set (sort xs). length x < 2 ^ 64" using b(3) by fastforce
    ultimately have w: "writes d (add_all_bytes d (sort xs)) (concat (sort xs))" by (rule writes_elements)
    have "close_to d ?C = Some ?C" using C(2) by (cases ?C) (auto simp: close_to_def simp del: extend.simps)
    then have "write_at d (concat (sort xs)) ?C = Some (set_contents B (concat (sort xs)))"
      by (simp add: write_at_def extend_set_contents)
    then show ?thesis using performs_ok(1) [OF w C(1) _ 2(2)] C(2) by simp
  qed
  then show ?thesis using B(1) xs by blast
qed

lemma flush_set_of_total:
  assumes "cbb_rep st A" "d \<le> length (snd A)" "cbb_grows st"
    and B: "close_to d A = Some B" "length (builder_bytes B) < 2 ^ 60"
    and xs: "read_all get_element_bytes (builder_contents B) = Some xs"
  shows "\<exists>st'. CBB_flush_asn1_set_of d st = (True, st')"
proof -
  have "\<not> CBB_flush d st = (False, st1)" for st1
    using performs_fail(3) [OF performs_flush assms(1,2) _ assms(3), of st1 B] B by (auto simp: write_at_Nil)
  then obtain st1 where fl: "CBB_flush d st = (True, st1)" by (metis (full_types) surj_pair)
  have B1: "cbb_rep st1 B" "cbb_grows st1"
    using performs_ok [OF performs_flush assms(1,2) fl] B assms(3) by (auto simp: write_at_Nil)
  have d: "length (snd B) = d" using close_to_depth [OF B(1) assms(2)] .
  obtain b where b: "base st1 = Some b" "buf b = builder_bytes B" "length (buf b) < 2 ^ 64" "growable b"
    "children st1 = chain_children (length (fst B)) (snd B)"
    using B1 by (auto simp: cbb_rep_iff cbb_grows_def)
  have data: "CBB_data d st1 = builder_contents B"
    using contents_split [of B] b d by (metis CBB_data_def append_eq_conv_conj option.sel)
  have le: "length (builder_contents B) \<le> length (builder_bytes B)"
    using contents_split [of B] by (metis le_add2 length_append)
  have "length ys \<le> length (concat ys)" if "list_all is_der_element ys" for ys
    using that by (induction ys) (auto simp: is_der_element_def der_element_def enc_der_length_def Let_def)
  then have "length xs \<le> length (builder_contents B)" using xs by (simp add: read_all_elements)
  then have num: "length xs \<le> (2 ^ 64 - 1) div sizeof_CBS"
    using le B(2) by (simp add: sizeof_CBS_def)
  let ?C = "set_contents B []"
  have C: "cbb_rep (rewind_contents d st1) ?C" "length (snd ?C) = d" "cbb_grows (rewind_contents d st1)"
    using rewind_rep [OF B1(1) d] d b(1,4) by (auto simp: rewind_contents_def cbb_grows_def growable_def)
  have "\<exists>st'. add_all_bytes d (sort xs) (rewind_contents d st1) = (True, st')" if two: "2 \<le> length xs"
  proof -
    have "length x < 2 ^ 64" if "x \<in> set xs" for x
      using read_all_elements_short [OF xs that] le B(2) by simp
    moreover have "sort xs \<noteq> []" using two by (metis length_sort list.size(3) not_numeral_le_zero)
    ultimately have sorted: "writes d (add_all_bytes d (sort xs)) (concat (sort xs))"
      by (intro writes_elements) simp_all
    have "close_to d ?C = Some ?C" using C(2) by (cases ?C) (auto simp: close_to_def simp del: extend.simps)
    then have w: "write_at d (concat (sort xs)) ?C = Some (set_contents B (concat (sort xs)))"
      by (simp add: write_at_def extend_set_contents)
    have "length (concat (sort xs)) = length (concat xs)"
      by (metis length_concat mset_map mset_sort sum_mset_sum_list)
    then have "length (concat (sort xs)) = length (builder_contents B)"
      using xs by (simp add: read_all_elements)
    then have "length (builder_bytes (set_contents B (concat (sort xs)))) = length (builder_bytes B)"
      using contents_split [of B] by (metis length_append)
    then have "length (builder_bytes (set_contents B (concat (sort xs)))) < 2 ^ 64" using B(2) by simp
    moreover have "d \<le> length (snd ?C)" using C(2) by simp
    ultimately have "add_all_bytes d (sort xs) (rewind_contents d st1) \<noteq> (False, st2)" for st2
      using performs_fail(3) [OF sorted C(1) _ _ C(3) w] by blast
    then show ?thesis by (metis (full_types) surj_pair)
  qed
  then show ?thesis
    using fl data xs num b(1,4)
    by (auto simp: CBB_flush_asn1_set_of_def and_then_def Let_def qsort_set_of not_less growable_def)
qed

section \<open>Properties\<close>

text \<open>C2: the builder implements the abstract builder. \<^verbatim>\<open>CBB_flush\<close> closes the open
  children (each length, DER's included, in front of its contents), every \<^verbatim>\<open>CBB_add_*\<close>
  then appends exactly its encoding, and \<^verbatim>\<open>CBB_add_asn1\<close> and the fixed-width variants
  open a child behind it; on failure the error flag is set, and with a growing buffer the only
  failures are lengths that do not fit.\<close>

theorem cbb_implements_builder:
  "writes d (CBB_flush d) [] \<and>
   writes d (CBB_add_u8 d v1) [v1] \<and>
   writes d (CBB_add_u16 d v2) (enc_be 2 v2) \<and> writes d (CBB_add_u16le d v2) (enc_le 2 v2) \<and>
   writes d (CBB_add_u32 d v4) (enc_be 4 v4) \<and> writes d (CBB_add_u32le d v4) (enc_le 4 v4) \<and>
   writes d (CBB_add_u64 d v8) (enc_be 8 v8) \<and> writes d (CBB_add_u64le d v8) (enc_le 8 v8) \<and>
   opens d (CBB_add_u8_length_prefixed d) [] (Fixed 1) \<and>
   opens d (CBB_add_u16_length_prefixed d) [] (Fixed 2) \<and>
   opens d (CBB_add_u24_length_prefixed d) [] (Fixed 3) \<and>
   opens d (CBB_add_asn1 d tag) (enc_tag tag) Der"
  by (intro conjI performs_flush writes_u8 writes_u16 writes_u32 writes_u64 writes_le opens_prefixed
      opens_asn1)

text \<open>C3: an element built with \<^verbatim>\<open>CBB_add_asn1\<close> is read back by \<^verbatim>\<open>CBS_get_any_asn1\<close>
  as the same tag and contents, whatever follows it and whatever capacity the builder started
  with; and when the allocator grants every request the builder succeeds.\<close>

theorem cbb_asn1_roundtrip:
  assumes "length data \<le> 0xfffffffe"
  shows "(\<forall>g n out. cbb_build g n (and_then (CBB_add_asn1 0 tag)
            (and_then (CBB_add_bytes 1 data) (CBB_flush 0))) = Some out \<longrightarrow>
          CBS_get_any_asn1 (out @ rest) = (Some (data, tag), rest)) \<and>
    (\<exists>out. cbb_build (\<lambda>_. True) n (and_then (CBB_add_asn1 0 tag)
            (and_then (CBB_add_bytes 1 data) (CBB_flush 0))) = Some out)"
proof -
  have w: "writes 0 (and_then (CBB_add_asn1 0 tag) (and_then (CBB_add_bytes 1 data) (CBB_flush 0)))
      (der_element tag data)"
    using assms writes_asn1 [OF writes_bytes, of data 0 tag] by simp
  have "length (der_element tag data) < 2 ^ 64"
    using assms length_enc_tag [of tag]
    by (simp add: der_element_def enc_der_length_def der_length_bytes_def Let_def)
  then show ?thesis using assms build_writes [OF w] build_total [OF w] by (auto simp: any_asn1_iff)
qed

lemma cbb_asn1_roundtrip_witness:
  "\<exists>out. cbb_build (\<lambda>_. True) 0 (and_then (CBB_add_asn1 0 CBS_ASN1_OCTETSTRING)
     (and_then (CBB_add_bytes 1 [1, 2, 3]) (CBB_flush 0))) = Some out \<and>
   CBS_get_any_asn1 (out @ [9]) = (Some ([1, 2, 3], CBS_ASN1_OCTETSTRING), [9])"
  using cbb_asn1_roundtrip [of "[1, 2, 3]" CBS_ASN1_OCTETSTRING "[9]" 0] by auto

text \<open>A 16-bit length-prefixed vector round trip, and its only failure: contents that do not
  fit the prefix are refused, never truncated.\<close>

theorem cbb_u16_prefixed_roundtrip:
  assumes "length data < 2 ^ 63"
  shows "case cbb_build (\<lambda>_. True) n (and_then (CBB_add_u16_length_prefixed 0)
            (and_then (CBB_add_bytes 1 data) (CBB_flush 0))) of
           None \<Rightarrow> 2 ^ 16 \<le> length data
         | Some out \<Rightarrow> length data < 2 ^ 16 \<and>
             CBS_get_u16_length_prefixed (out @ rest) = (Some data, rest)"
proof -
  let ?f = "and_then (CBB_add_u16_length_prefixed 0) (and_then (CBB_add_bytes 1 data) (CBB_flush 0))"
  have w: "writes (Suc 0) (CBB_add_bytes 1 data) data" using assms by (simp add: writes_bytes)
  show ?thesis
  proof (cases "length data < 2 ^ 16")
    case True
    have p: "with_prefix (Fixed 2) data = Some (be_bytes 2 (length data) @ data)"
      using True by (simp add: with_prefix_def)
    have "cbb_build (\<lambda>_. True) n ?f = Some (be_bytes 2 (length data) @ data)"
      using build_total [OF writes_child [OF opens_prefixed(2) w p]] True by simp
    moreover have "cbs_get_u (be_bytes 2 (length data) @ data @ rest) 2 = (Some (of_nat (length data)), data @ rest)"
      using True by (simp add: get_u_append be_val_be_bytes)
    moreover have "unat (of_nat (length data) :: u64) = length data"
      using True by (intro unat_of_nat_small) simp
    ultimately show ?thesis using True
      by (simp add: CBS_get_u16_length_prefixed_def cbs_get_length_prefixed_def get_bytes_eq)
  next
    case False
    obtain st where st: "CBB_init (\<lambda>_. True) n = (True, st)" by (simp add: CBB_init_def cbb_init_def)
    have "?f st \<noteq> (True, st')" for st'
      using child_overflow [OF opens_prefixed(2) w _ cbb_init_rep [OF st]] False
      by (simp add: with_prefix_def)
    then have "cbb_build (\<lambda>_. True) n ?f = None"
      by (simp add: cbb_build_def st split: prod.splits bool.splits)
    then show ?thesis using False by simp
  qed
qed

lemma cbb_u16_prefixed_roundtrip_witness:
  "\<exists>out. cbb_build (\<lambda>_. True) 1 (and_then (CBB_add_u16_length_prefixed 0)
      (and_then (CBB_add_bytes 1 [7, 8]) (CBB_flush 0))) = Some out \<and>
    CBS_get_u16_length_prefixed (out @ [9]) = (Some [7, 8], [9])"
  using cbb_u16_prefixed_roundtrip [where data = "[7, 8]" and n = 1 and rest = "[9]"] by (auto split: option.splits)

text \<open>The integer writers produce exactly what the readers accept: a \<^verbatim>\<open>uint64_t\<close> and an
  \<^verbatim>\<open>int64_t\<close> survive a round trip through DER.\<close>

theorem asn1_integer_roundtrip:
  "(cbb_build g n (CBB_add_asn1_uint64 0 v) = Some out \<longrightarrow> CBS_get_asn1_uint64 (out @ rest) = (Some v, rest)) \<and>
   (cbb_build g n (CBB_add_asn1_int64 0 v) = Some out \<longrightarrow> CBS_get_asn1_int64 (out @ rest) = (Some v, rest)) \<and>
   cbb_build (\<lambda>_. True) n (CBB_add_asn1_uint64 0 v) \<noteq> None \<and>
   cbb_build (\<lambda>_. True) n (CBB_add_asn1_int64 0 v) \<noteq> None"
proof -
  have len: "length (der_element CBS_ASN1_INTEGER c) < 2 ^ 64" if "length c \<le> 9" for c
    using that length_enc_tag [of CBS_ASN1_INTEGER]
    by (simp add: der_element_def enc_der_length_def der_length_bytes_def Let_def)
  have "CBS_get_asn1_uint64 (der_element CBS_ASN1_INTEGER (uint_contents (be_bytes 8 (unat v))) @ rest) = (Some v, rest)"
    unfolding asn1_uint64_iff using uint64_contents [of v] by (intro exI conjI refl) auto
  moreover have "CBS_get_asn1_int64 (der_element CBS_ASN1_INTEGER (int_contents v) @ rest) = (Some v, rest)"
    unfolding asn1_int64_iff using int64_contents [of v] by (intro exI conjI refl) auto
  ultimately show ?thesis
    using build_writes [OF writes_asn1_uint64] build_writes [OF writes_asn1_int64]
      build_total [OF writes_asn1_uint64 len [OF uint64_contents(3)]]
      build_total [OF writes_asn1_int64 len] int64_contents [of v]
    by auto
qed

lemma asn1_integer_roundtrip_witness:
  "\<exists>out. cbb_build (\<lambda>_. True) 0 (CBB_add_asn1_int64 0 (- 129)) = Some out \<and>
     CBS_get_asn1_int64 (out @ [0]) = (Some (- 129), [0])"
  using asn1_integer_roundtrip [of "\<lambda>_. True" 0 "- 129" _ "[0]"] by auto

text \<open>C6: an object identifier printed as dotted-decimal text and parsed again is the same bytes.\<close>

theorem oid_text_roundtrip:
  assumes "CBS_asn1_oid_to_text g oid = Some txt" "length oid < 2 ^ 64"
  shows "last txt = 0 \<and> cbb_build (\<lambda>_. True) n (CBB_add_asn1_oid_from_text 0 (butlast txt)) = Some oid"
proof -
  obtain v vs where oid: "oid = enc_base128 (unat v) @ base128_all vs" "txt = oid_text v vs @ [0]"
    using oid_to_text_eq [OF assms(1)] by blast
  then show ?thesis
    using build_total [OF writes_oid_from_text, of v vs "\<lambda>_. True" n] assms(2) by simp
qed

lemma oid_text_roundtrip_witness:
  "cbb_build (\<lambda>_. True) 0 (CBB_add_asn1_oid_from_text 0 [0x31, 0x2e, 0x32]) = Some [42]"
proof -
  have p: "parse_base128_integer [42] = (Some 42, [])"
    using base128.get_enc [of 42 "[]"] by (simp add: enc_base128_def)
  have arcs: "first_arcs 42 = (1, 2)" by (simp add: first_arcs_def)
  have "writes 0 (and_then (add_first_arcs 0 42) (and_then (add_text_components 0 (base128_all [])) (CBB_add_u8 0 0)))
      (oid_text 42 [] @ [0])"
    unfolding and_then_assoc [symmetric] by (rule writes_oid_text)
  moreover have text12: "oid_text 42 [] = [0x31, 0x2e, 0x32]"
    by (simp add: oid_text_def arcs decimal_digits_small)
  ultimately have "CBS_asn1_oid_to_text (\<lambda>_. True) [42] = Some [0x31, 0x2e, 0x32, 0]"
    using build_total [of _ "oid_text 42 [] @ [0]" "\<lambda>_. True" 32]
    by (simp add: CBS_asn1_oid_to_text_def cbb_build_def p CBB_init_def cbb_init_def
        split: prod.splits bool.splits)
  from oid_text_roundtrip [OF this] show ?thesis by simp
qed

text \<open>\<^verbatim>\<open>CBB_flush_asn1_set_of\<close> rewrites the elements of the handle in ascending
  lexicographic order of their encodings, keeping their multiset, and it succeeds when memory does
  not run out and the contents are a sequence of DER elements.\<close>

theorem flush_set_of_sorts:
  assumes "cbb_rep st A" "d \<le> length (snd A)"
  shows "(CBB_flush_asn1_set_of d st = (True, st') \<longrightarrow>
      (\<exists>B xs ys. close_to d A = Some B \<and> read_all get_element_bytes (builder_contents B) = Some xs \<and>
         sorted ys \<and> mset ys = mset xs \<and> cbb_rep st' (set_contents B (concat ys)))) \<and>
    (\<forall>B xs. cbb_grows st \<longrightarrow> close_to d A = Some B \<longrightarrow> length (builder_bytes B) < 2 ^ 60 \<longrightarrow>
       read_all get_element_bytes (builder_contents B) = Some xs \<longrightarrow>
       (\<exists>st'. CBB_flush_asn1_set_of d st = (True, st')))"
  using flush_set_of_spec [OF assms] flush_set_of_total [OF assms]
  by (metis mset_sort sorted_sort)

lemma flush_set_of_sorts_witness:
  "\<exists>st'. CBB_flush_asn1_set_of 0
     \<lparr>base = Some \<lparr>buf = [4, 1, 9, 4, 1, 3], cap = 6, can_resize = True, error = False,
                   grants = \<lambda>_. True\<rparr>, children = []\<rparr> = (True, st')"
proof -
  let ?st = "\<lparr>base = Some \<lparr>buf = [4, 1, 9, 4, 1, 3], cap = 6, can_resize = True, error = False,
                   grants = \<lambda>_. True\<rparr>, children = []\<rparr>"
  have e: "[4, 1, x] = der_element CBS_ASN1_OCTETSTRING [x]" for x
    by (simp add: der_element_def enc_tag_def CBS_ASN1_OCTETSTRING_def CBS_ASN1_TAG_SHIFT_def
        CBS_ASN1_TAG_NUMBER_MASK_def enc_der_length_def der_length_bytes_def)
  then have "is_der_element [4, 1, 9]" "is_der_element [4, 1, 3]"
    by (auto simp: is_der_element_def intro!: exI [of _ CBS_ASN1_OCTETSTRING] exI [of _ "[_]"])
  then have "read_all get_element_bytes [4, 1, 9, 4, 1, 3] = Some [[4, 1, 9], [4, 1, 3]]"
    by (simp add: read_all_elements)
  moreover have "cbb_rep ?st ([4, 1, 9, 4, 1, 3], [])" by (simp add: cbb_rep_iff builder_bytes_def)
  moreover have "cbb_grows ?st" by (simp add: cbb_grows_def growable_def)
  ultimately show ?thesis
    using flush_set_of_sorts [of ?st "([4, 1, 9, 4, 1, 3], [])" 0]
    by (simp add: close_to_def builder_bytes_def)
qed

end
