(* ===== verification/Ber.thy ===== *)
theory Ber
  imports Cbb_Asn1
begin

text \<open>
  Conversion of BER to DER, \<^verbatim>\<open>crypto/bytestring/ber.c\<close>, and the serialisation helper of
  \<^verbatim>\<open>crypto/bytestring/asn1_compat.c\<close>.
\<close>

section \<open>The code\<close>

definition kMaxDepth :: nat where
  "kMaxDepth = 2048"

text \<open>The primitive tags of the string types, as in \<^verbatim>\<open>bytestring.h\<close>.\<close>

definition string_tags :: "u32 list" where
  "string_tags = [0x4, 0xc, 0x12, 0x13, 0x14, 0x15, 0x16, 0x19, 0x1a, 0x1b, 0x1c, 0x1e]"

definition is_string_type :: "u32 \<Rightarrow> bool" where
  "is_string_type tag \<longleftrightarrow> (tag AND NOT CBS_ASN1_CONSTRUCTED) \<in> set string_tags"

section \<open>Elements\<close>

lemma take_element_bounds:
  assumes "take_element s n t hl bf = (Some e, s')"
  shows "s = el_bytes e @ s' \<and> length (el_bytes e) = n \<and> el_header_len e = hl \<and>
    el_tag e = t \<and> el_ber_found e = bf"
  using assms by (auto simp: take_element_def get_bytes_eq split: if_splits)

text \<open>An element is the front of its input, and its header has at least two bytes.\<close>

lemma any_element_bounds:
  assumes "cbs_get_any_asn1_element s b = (Some e, s')"
  shows "s = el_bytes e @ s' \<and> 2 \<le> el_header_len e \<and> el_header_len e \<le> length (el_bytes e)"
proof -
  obtain t h where tag: "parse_asn1_tag s = (Some t, h)"
    using assms by (auto simp: cbs_get_any_asn1_element_def split: prod.splits option.splits)
  have s: "s = enc_tag t @ h" using parse_tag_sound [OF tag] .
  obtain lb r where h: "h = lb # r"
    using assms by (cases h) (auto simp: cbs_get_any_asn1_element_def tag get_u8_Nil)
  define hl where "hl = length s - length r"
  have hl2: "hl = Suc (length (enc_tag t))" "0 < length (enc_tag t)" "hl \<le> 7"
    using length_enc_tag [of t] by (simp_all add: hl_def s h enc_tag_def Let_def)
  note eq = assms [unfolded cbs_get_any_asn1_element_def tag h, simplified, unfolded get_u8_Cons,
      simplified, unfolded CBS_len_def, folded hl_def]
  show ?thesis
  proof (cases "lb AND 0x80 = 0")
    case True
    then have "take_element s (unat lb + hl) t hl False = (Some e, s')" using eq by simp
    from take_element_bounds [OF this] hl2 show ?thesis by (auto simp: Suc_le_eq)
  next
    case high: False
    define k where "k = unat (lb AND 0x7f)"
    show ?thesis
    proof (cases "b \<and> t AND CBS_ASN1_CONSTRUCTED \<noteq> 0 \<and> k = 0")
      case True
      then have "take_element s hl t hl True = (Some e, s')" using eq high by (simp add: k_def Let_def)
      from take_element_bounds [OF this] hl2 show ?thesis by (auto simp: Suc_le_eq)
    next
      case False
      then obtain len64 h' where k: "k \<le> 4" and gu: "cbs_get_u r k = (Some len64, h')"
        using eq high by (auto simp: k_def Let_def split: if_splits prod.splits option.splits)
      define n where "n = unat len64"
      have no: "\<not> size_add (size_add n hl) k < n"
        and el: "\<exists>bf. take_element s (size_add n (size_add hl k)) t (hl + k) bf = (Some e, s')"
        using eq high False gu by (auto simp: k_def n_def Let_def split: if_splits)
      have r: "k \<le> length r" and n: "n < 2 ^ 32"
        using gu [unfolded get_u_eq] be_val_bound [of "take k r"] k power_increasing [OF k, of "256 :: nat"]
        by (auto simp: n_def unat_of_nat_small min_absorb2 split: if_splits)
      then have "size_add n (size_add hl k) = n + (hl + k)" using hl2 k by simp
      then show ?thesis using el hl2 by (auto dest!: take_element_bounds simp: Suc_le_eq)
    qed
  qed
qed

section \<open>Looking for BER\<close>

text \<open>The loop of \<^verbatim>\<open>cbs_find_ber\<close>. \<open>found\<close> is \<^verbatim>\<open>*ber_found\<close> as the iteration finds
  it, the result what it holds on return, \<open>None\<close> when the function returns 0.\<close>

function cbs_find_ber :: "cbs \<Rightarrow> nat \<Rightarrow> bool option"
  and find_ber_loop :: "cbs \<Rightarrow> bool \<Rightarrow> nat \<Rightarrow> bool option" where
  "cbs_find_ber orig_in depth =
    (if kMaxDepth < depth then None else find_ber_loop (CBS_init (CBS_data orig_in) (CBS_len orig_in)) False depth)"
| "find_ber_loop inp found depth =
    (if CBS_len inp = 0 then Some found
     else case CBS_get_any_ber_asn1_element inp of
       (None, _) \<Rightarrow> None
     | (Some e, inp) \<Rightarrow>
         if el_ber_found e then Some True
         else if el_tag e AND CBS_ASN1_CONSTRUCTED \<noteq> 0 then
           (if is_string_type (el_tag e) then Some True
            else case CBS_skip (el_bytes e) (el_header_len e) of
              (None, _) \<Rightarrow> None
            | (Some _, contents) \<Rightarrow>
                (case cbs_find_ber contents (depth + 1) of
                   None \<Rightarrow> None
                 | Some found \<Rightarrow> find_ber_loop inp found depth))
         else find_ber_loop inp False depth)"
  by pat_completeness auto
termination
  by (relation "measures [case_sum (\<lambda>(s, d). length s) (\<lambda>(s, f, d). length s),
        case_sum (\<lambda>_. 1) (\<lambda>_. 0)]")
    (auto simp: CBS_get_any_ber_asn1_element_def CBS_skip_eq CBS_init_def CBS_data_def
      dest!: sym [of "(Some _, _)" "cbs_get_any_asn1_element _ _"] any_element_bounds split: if_splits)

declare cbs_find_ber.simps [simp del] find_ber_loop.simps [simp del]

section \<open>Conversion\<close>

definition is_eoc :: "nat \<Rightarrow> cbs \<Rightarrow> bool" where
  "is_eoc header_len contents \<longleftrightarrow>
    header_len = 2 \<and> CBS_len contents = 2 \<and> OPENSSL_memcmp (CBS_data contents) [0, 0] 2 = 0"

definition is_indefinite :: "nat \<Rightarrow> cbs \<Rightarrow> bool" where
  "is_indefinite header_len contents \<longleftrightarrow>
    CBS_len contents = header_len \<and> 0 < header_len \<and> CBS_data contents ! (header_len - 1) = 0x80"

text \<open>The branch of an element of a constructed string, and of any other: the handle the
  element's contents are written to, and the string tag of its children.\<close>

definition convert_target :: "nat \<Rightarrow> u32 \<Rightarrow> u32 \<Rightarrow> cbb \<Rightarrow> (nat \<times> u32) option \<times> cbb" where
  "convert_target d string_tag tag cbb =
    (if string_tag \<noteq> 0 then
       (if tag AND NOT CBS_ASN1_CONSTRUCTED \<noteq> string_tag then (None, cbb)
        else (Some (d, string_tag), cbb))
     else
       let is_string = tag AND CBS_ASN1_CONSTRUCTED \<noteq> 0 \<and> is_string_type tag;
           out_tag = (if is_string then tag AND NOT CBS_ASN1_CONSTRUCTED else tag);
           child_string_tag = (if is_string then out_tag else string_tag)
       in case CBB_add_asn1 d out_tag cbb of
            (False, cbb) \<Rightarrow> (None, cbb)
          | (True, cbb) \<Rightarrow> (Some (Suc d, child_string_tag), cbb))"

text \<open>
  \<open>d\<close> is the handle \<^verbatim>\<open>out\<close>. The result is success, what is left of \<^verbatim>\<open>in\<close>, and the
  builder. An iteration of the loop and an entry of the function are the same state, since
  \<^verbatim>\<open>depth\<close> does not change in the loop, so one recursive function is both.
\<close>

function cbs_convert_ber ::
    "cbs \<Rightarrow> nat \<Rightarrow> u32 \<Rightarrow> bool \<Rightarrow> nat \<Rightarrow> cbb \<Rightarrow> bool \<times> cbs \<times> cbb" where
  "cbs_convert_ber inp d string_tag looking_for_eoc depth cbb =
    (if kMaxDepth < depth then (False, inp, cbb)
     else if CBS_len inp = 0 then (\<not> looking_for_eoc, inp, cbb)
     else case CBS_get_any_ber_asn1_element inp of
       (None, inp) \<Rightarrow> (False, inp, cbb)
     | (Some e, inp) \<Rightarrow>
        if is_eoc (el_header_len e) (el_bytes e) then (looking_for_eoc, inp, cbb)
        else (case convert_target d string_tag (el_tag e) cbb of
          (None, cbb) \<Rightarrow> (False, inp, cbb)
        | (Some (out_contents, child_string_tag), cbb) \<Rightarrow>
           (case
              (if is_indefinite (el_header_len e) (el_bytes e) then
                 cbs_convert_ber inp out_contents child_string_tag True (depth + 1) cbb
               else (case CBS_skip (el_bytes e) (el_header_len e) of
                 (None, _) \<Rightarrow> (False, inp, cbb)
               | (Some _, contents) \<Rightarrow>
                   if el_tag e AND CBS_ASN1_CONSTRUCTED \<noteq> 0 then
                     (case cbs_convert_ber contents out_contents child_string_tag False (depth + 1) cbb of
                        (ok, _, cbb) \<Rightarrow> (ok, inp, cbb))
                   else (case CBB_add_bytes out_contents (CBS_data contents) cbb of
                        (ok, cbb) \<Rightarrow> (ok, inp, cbb))))
            of (False, inp, cbb) \<Rightarrow> (False, inp, cbb)
             | (True, inp, cbb) \<Rightarrow>
                 (case CBB_flush d cbb of
                    (False, cbb) \<Rightarrow> (False, inp, cbb)
                  | (True, cbb) \<Rightarrow> cbs_convert_ber inp d string_tag looking_for_eoc depth cbb))))"
  by pat_completeness auto

text \<open>The nested call consumes its input, so the loop that goes on with what is left ends.\<close>

lemma any_ber_shorter:
  assumes "CBS_get_any_ber_asn1_element s = (Some e, s')"
  shows "length s' < length s"
proof -
  from any_element_bounds [OF assms [unfolded CBS_get_any_ber_asn1_element_def]]
  have "length s = length (el_bytes e) + length s'" "2 \<le> length (el_bytes e)" by (metis length_append, linarith)
  then show ?thesis by linarith
qed

lemma any_ber_contents_shorter:
  assumes "CBS_get_any_ber_asn1_element s = (Some e, s')" "CBS_skip (el_bytes e) (el_header_len e) = (Some u, c)"
  shows "length c < length s"
proof -
  from any_element_bounds [OF assms(1) [unfolded CBS_get_any_ber_asn1_element_def]]
  have "length s = length (el_bytes e) + length s'" "2 \<le> el_header_len e" "el_header_len e \<le> length (el_bytes e)"
    by (metis length_append, linarith, linarith)
  moreover have "length c = length (el_bytes e) - el_header_len e"
    using assms(2) by (auto simp: CBS_skip_eq split: if_splits)
  ultimately show ?thesis by linarith
qed

lemma get_any_ber_fail: "CBS_get_any_ber_asn1_element s = (None, s') \<Longrightarrow> s' = s"
  by (auto simp: CBS_get_any_ber_asn1_element_def cbs_get_any_asn1_element_def take_element_def
      get_bytes_eq Let_def split: prod.splits option.splits if_splits)

lemma nested_rest:
  assumes "(ok, inp', cbb') =
      (if ind then nested
       else case sk of
         (None, _) \<Rightarrow> (False, inp, cbb)
       | (Some _, x) \<Rightarrow>
           if k then (case q x of (ok, _, cbb) \<Rightarrow> (ok, inp, cbb))
           else (case w x of (ok, cbb) \<Rightarrow> (ok, inp, cbb)))"
    and "\<And>ok inp' cbb'. ind \<Longrightarrow> nested = (ok, inp', cbb') \<Longrightarrow> length inp' \<le> length inp"
  shows "length inp' \<le> length inp"
  using assms by (auto split: prod.splits option.splits if_splits)

lemma convert_ber_rest:
  "cbs_convert_ber_dom (inp, d, tag, eoc, depth, cbb) \<Longrightarrow>
   cbs_convert_ber inp d tag eoc depth cbb = (ok, inp', cbb') \<Longrightarrow> length inp' \<le> length inp"
proof (induction inp d tag eoc depth cbb arbitrary: ok inp' cbb' rule: cbs_convert_ber.pinduct)
  case (1 inp d tag eoc depth cbb)
  note eq = "1.prems" [unfolded cbs_convert_ber.psimps [OF "1.hyps"]]
  show ?case
  proof (cases "kMaxDepth < depth \<or> CBS_len inp = 0")
    case True
    then show ?thesis using eq by (cases "kMaxDepth < depth") simp_all
  next
    case False
    then have no: "\<not> kMaxDepth < depth" "CBS_len inp \<noteq> 0" by simp_all
    show ?thesis
    proof (cases "fst (CBS_get_any_ber_asn1_element inp)")
      case None
      then obtain inp1 where "CBS_get_any_ber_asn1_element inp = (None, inp1)" by (metis prod.collapse)
      then show ?thesis using get_any_ber_fail [of inp inp1] eq no by simp
    next
      case (Some e)
      then obtain inp1 where el: "CBS_get_any_ber_asn1_element inp = (Some e, inp1)" by (metis prod.collapse)
      have less: "length inp1 < length inp" using any_ber_shorter [OF el] .
      show ?thesis
      proof (cases "is_eoc (el_header_len e) (el_bytes e) \<or> fst (convert_target d tag (el_tag e) cbb) = None")
        case True
        then show ?thesis using eq no less by (auto simp: el split: prod.splits if_splits)
      next
        case False
        then obtain o1 t1 cbb1 where eoc: "\<not> is_eoc (el_header_len e) (el_bytes e)"
          and target: "convert_target d tag (el_tag e) cbb = (Some (o1, t1), cbb1)"
          by (cases "convert_target d tag (el_tag e) cbb") auto
        note pre = no el [symmetric] refl eoc target [symmetric] refl refl
        let ?nested = "if is_indefinite (el_header_len e) (el_bytes e)
          then cbs_convert_ber inp1 o1 t1 True (depth + 1) cbb1
          else case CBS_skip (el_bytes e) (el_header_len e) of
            (None, _) \<Rightarrow> (False, inp1, cbb1)
          | (Some _, contents) \<Rightarrow>
              if el_tag e AND CBS_ASN1_CONSTRUCTED \<noteq> 0 then
                (case cbs_convert_ber contents o1 t1 False (depth + 1) cbb1 of (ok, _, cbb) \<Rightarrow> (ok, inp1, cbb))
              else (case CBB_add_bytes o1 (CBS_data contents) cbb1 of (ok, cbb) \<Rightarrow> (ok, inp1, cbb))"
        obtain ok2 inp2 cbb2 where nested: "?nested = (ok2, inp2, cbb2)" by (cases ?nested)
        have le: "length inp2 \<le> length inp1"
          using "1.IH"(1) [OF pre] by (rule nested_rest [OF nested [symmetric]])
        show ?thesis
        proof (cases "ok2 \<and> fst (CBB_flush d cbb2)")
          case False
          then show ?thesis using eq no eoc less le
            by (cases ok2; cases "CBB_flush d cbb2") (auto simp: el target nested)
        next
          case True
          then obtain cbb3 where flush: "CBB_flush d cbb2 = (True, cbb3)" by (metis prod.collapse)
          have "cbs_convert_ber inp2 d tag eoc depth cbb3 = (ok, inp', cbb')"
            using eq no eoc True by (simp add: el target nested flush)
          with "1.IH"(3) [OF pre nested [symmetric] _ refl flush [symmetric] refl] True
          have "length inp' \<le> length inp2" by blast
          then show ?thesis using less le by linarith
        qed
      qed
    qed
  qed
qed

termination cbs_convert_ber
proof (relation "measure (\<lambda>(s, d, t, eoc, depth, cbb). length s)", goal_cases)
  case 2
  then show ?case by (auto dest: any_ber_shorter [OF sym])
next
  case 3
  then show ?case by (auto dest: any_ber_contents_shorter [OF sym sym])
next
  case prems: (4 inp d t eoc depth cbb oe inp1 e ot cbb1 ot1 o1 t1 ok _ inp2 cbb2)
  note nested = prems(9) [folded prems(11)]
  have "length inp2 \<le> length inp1"
    by (rule nested_rest [OF nested]) (erule convert_ber_rest [OF prems(15)])
  moreover have "length inp1 < length inp"
    using prems(3,4) any_ber_shorter [of inp e inp1] by simp
  ultimately show ?case by simp
qed simp

declare cbs_convert_ber.simps [simp del]

text \<open>The result: the output, whether it is in new storage (\<^verbatim>\<open>*out_storage\<close> is not
  \<^verbatim>\<open>NULL\<close>), and what is left of \<^verbatim>\<open>in\<close>.\<close>

definition CBS_asn1_ber_to_der ::
    "(nat \<Rightarrow> bool) \<Rightarrow> cbs \<Rightarrow> (cbs \<times> bool) option \<times> cbs" where
  "CBS_asn1_ber_to_der g inp =
    (case cbs_find_ber inp 0 of
       None \<Rightarrow> (None, inp)
     | Some conversion_needed \<Rightarrow>
         if \<not> conversion_needed then
           (case CBS_get_any_asn1_element inp of
              (None, inp) \<Rightarrow> (None, inp)
            | (Some e, inp) \<Rightarrow> (Some (el_bytes e, False), inp))
         else
           (case CBB_init g (CBS_len inp) of
              (False, _) \<Rightarrow> (None, inp)
            | (True, cbb) \<Rightarrow>
                (case cbs_convert_ber inp 0 0 False 0 cbb of
                   (False, inp, _) \<Rightarrow> (None, inp)
                 | (True, inp, cbb) \<Rightarrow>
                     (case CBB_finish 0 False cbb of
                        (None, _) \<Rightarrow> (None, inp)
                      | (Some out, _) \<Rightarrow> (Some (CBS_init out (length out), True), inp)))))"

text \<open>The loop over the chunks of a constructed string.\<close>

function add_chunks :: "cbs \<Rightarrow> u32 \<Rightarrow> cbb_op" where
  "add_chunks child inner_tag cbb =
    (if CBS_len child = 0 then (True, cbb)
     else case CBS_get_asn1 child inner_tag of
       (None, _) \<Rightarrow> (False, cbb)
     | (Some chunk, child) \<Rightarrow>
         (case CBB_add_bytes 0 (CBS_data chunk) cbb of
            (False, cbb) \<Rightarrow> (False, cbb)
          | (True, cbb) \<Rightarrow> add_chunks child inner_tag cbb))"
  by pat_completeness auto
termination
  by (relation "measure (\<lambda>(s, t, cbb). length s)")
    (auto simp: der_element_def enc_tag_def Let_def
      dest!: get_asn1_iff [THEN iffD1, OF sym])

declare add_chunks.simps [simp del]

definition CBS_get_asn1_implicit_string ::
    "(nat \<Rightarrow> bool) \<Rightarrow> cbs \<Rightarrow> u32 \<Rightarrow> u32 \<Rightarrow> (cbs \<times> bool) option \<times> cbs" where
  "CBS_get_asn1_implicit_string g inp outer_tag inner_tag =
    (if CBS_peek_asn1_tag inp outer_tag then
       (case CBS_get_asn1 inp outer_tag of
          (None, inp) \<Rightarrow> (None, inp)
        | (Some out, inp) \<Rightarrow> (Some (out, False), inp))
     else
       (case CBB_init g (CBS_len inp) of
          (False, _) \<Rightarrow> (None, inp)
        | (True, result) \<Rightarrow>
            (case CBS_get_asn1 inp (outer_tag OR CBS_ASN1_CONSTRUCTED) of
               (None, inp) \<Rightarrow> (None, inp)
             | (Some child, inp) \<Rightarrow>
                 (case add_chunks child inner_tag result of
                    (False, _) \<Rightarrow> (None, inp)
                  | (True, result) \<Rightarrow>
                      (case CBB_finish 0 False result of
                         (None, _) \<Rightarrow> (None, inp)
                       | (Some data, _) \<Rightarrow> (Some (CBS_init data (length data), True), inp))))))"

text \<open>
  The argument \<^verbatim>\<open>outp\<close> of the \<^verbatim>\<open>i2d\<close> functions: \<^verbatim>\<open>NULL\<close>, a pointer to
  \<^verbatim>\<open>NULL\<close>, or a pointer into a block of memory. The caller's block must have room.
\<close>

datatype i2d_out = Out_NULL | Out_new | Out_at "u8 list" nat

definition CBB_finish_i2d :: "cbb \<Rightarrow> i2d_out \<Rightarrow> int \<times> i2d_out \<times> cbb" where
  "CBB_finish_i2d cbb outp =
    (case CBB_finish 0 False cbb of
       (None, cbb) \<Rightarrow> (-1, outp, CBB_cleanup cbb)
     | (Some der, cbb) \<Rightarrow>
         if INT_MAX < length der then (-1, outp, cbb)
         else
           let outp =
             (case outp of
                Out_NULL \<Rightarrow> Out_NULL
              | Out_new \<Rightarrow> Out_at der 0
              | Out_at mem pos \<Rightarrow> Out_at (blit mem pos der) (pos + length der))
           in (int (length der), outp, cbb))"

end
