(* ===== verification/Ber_Der.thy ===== *)
theory Ber_Der
  imports Ber
begin

text \<open>
  What the conversion of \<^verbatim>\<open>crypto/bytestring/ber.c\<close> does: BER as trees with a choice of
  length forms, their DER, what the search for BER notices, and the theorem that the code turns the one
  into the other when the search notices something.
\<close>

section \<open>BER trees\<close>

text \<open>How the length of an element is written.\<close>

datatype length_form = Short | Long nat | Indefinite

datatype ber =
    Primitive length_form u32 cbs
  | Constructed length_form u32 "ber list"

fun enc_len :: "length_form \<Rightarrow> nat \<Rightarrow> u8 list" where
  "enc_len Short n = [of_nat n]"
| "enc_len (Long k) n = of_nat (128 + k) # be_bytes k n"
| "enc_len Indefinite n = [0x80]"

fun fits :: "length_form \<Rightarrow> nat \<Rightarrow> bool" where
  "fits Short n \<longleftrightarrow> n < 128"
| "fits (Long k) n \<longleftrightarrow> 0 < k \<and> k \<le> 4 \<and> n < 256 ^ k"
| "fits Indefinite n \<longleftrightarrow> True"


fun enc_ber :: "ber \<Rightarrow> cbs" where
  "enc_ber (Primitive f t c) = enc_tag t @ enc_len f (length c) @ c"
| "enc_ber (Constructed f t cs) =
    (let body = concat (map enc_ber cs)
     in enc_tag t @ enc_len f (length body) @ body @ (if f = Indefinite then [0, 0] else []))"

definition inside :: "u32 \<Rightarrow> u32 \<Rightarrow> u32" where
  "inside st t = (if st \<noteq> 0 then st else if is_string_type t then t AND NOT CBS_ASN1_CONSTRUCTED else 0)"

fun wf_ber :: "u32 \<Rightarrow> nat \<Rightarrow> ber \<Rightarrow> bool" where
  "wf_ber st depth (Primitive f t c) \<longleftrightarrow>
    t \<noteq> 0 \<and> t AND CBS_ASN1_CONSTRUCTED = 0 \<and> f \<noteq> Indefinite \<and> fits f (length c) \<and>
    (st \<noteq> 0 \<longrightarrow> t = st)"
| "wf_ber st depth (Constructed f t cs) \<longleftrightarrow>
    t AND CBS_ASN1_CONSTRUCTED \<noteq> 0 \<and> fits f (length (concat (map enc_ber cs))) \<and>
    depth < kMaxDepth \<and> (st \<noteq> 0 \<longrightarrow> t AND NOT CBS_ASN1_CONSTRUCTED = st) \<and>
    (\<forall>c \<in> set cs. wf_ber (inside st t) (Suc depth) c)"

fun der_of :: "u32 \<Rightarrow> ber \<Rightarrow> cbs" where
  "der_of st (Primitive f t c) = (if st \<noteq> 0 then c else der_element t c)"
| "der_of st (Constructed f t cs) =
    (let body = concat (map (der_of (inside st t)) cs)
     in if st \<noteq> 0 then body
        else der_element (if is_string_type t then t AND NOT CBS_ASN1_CONSTRUCTED else t) body)"


 


section \<open>Programs that may write nothing\<close>









section \<open>Conversion of a tree\<close>




text \<open>The bytes the conversion writes are bounded by \<open>der_ok\<close>: every length fits the four
  octets the builder can write.\<close>

fun der_ok :: "u32 \<Rightarrow> ber \<Rightarrow> bool" where
  "der_ok st (Primitive f t c) \<longleftrightarrow> length c \<le> 0xfffffffe"
| "der_ok st (Constructed f t cs) \<longleftrightarrow>
    (\<forall>c \<in> set cs. der_ok (inside st t) c) \<and>
    (st = 0 \<longrightarrow> length (concat (map (der_of (inside st t)) cs)) \<le> 0xfffffffe)"
























section \<open>What the search finds\<close>


















lemmas ber_eval =
  enc_tag_def Let_def CBS_ASN1_TAG_NUMBER_MASK_def CBS_ASN1_TAG_SHIFT_def CBS_ASN1_CONSTRUCTED_def
  enc_der_length_def der_length_bytes_def der_element_def be_bytes_def inside_def is_string_type_def
  string_tags_def kMaxDepth_def cbs_find_ber.simps find_ber_loop.simps CBS_init_def CBS_data_def
  CBS_len_def CBS_skip_eq CBS_get_any_ber_asn1_element_def CBS_get_any_asn1_element_def
  cbs_get_any_asn1_element_def parse_asn1_tag_def get_u8_Cons take_element_eq


text \<open>The search can miss BER. \<^verbatim>\<open>cbs_find_ber\<close> goes on after a nested call has found
  BER, and the next sibling overwrites \<^verbatim>\<open>*ber_found\<close>: a SEQUENCE that holds a constructed OCTET
  STRING in an inner SEQUENCE, followed by a NULL, is well-formed BER that is not DER, and the
  function returns it unchanged, as needing no conversion.\<close>

theorem ber_search_misses:
  "\<exists>x. wf_ber 0 0 x \<and> der_ok 0 x \<and> enc_ber x \<noteq> der_of 0 x \<and>
    cbs_find_ber (enc_ber x) 0 = Some False \<and>
    CBS_asn1_ber_to_der (\<lambda>_. True) (enc_ber x) = (Some (enc_ber x, False), [])"
proof (intro exI conjI)
  let ?x = "Constructed Short 0x20000010 [Constructed Short 0x20000010
    [Constructed Short 0x20000004 [Primitive Short 4 [0xaa]]], Primitive Short 5 []]"
  have enc: "enc_ber ?x = [0x30, 9, 0x30, 5, 0x24, 3, 4, 1, 0xaa, 5, 0]" by (simp add: ber_eval)
  show "wf_ber 0 0 ?x" by (simp add: ber_eval)
  show "der_ok 0 ?x" by (simp add: ber_eval)
  show "enc_ber ?x \<noteq> der_of 0 ?x" by (simp add: ber_eval)
  show find: "cbs_find_ber (enc_ber ?x) 0 = Some False" unfolding enc by (simp add: ber_eval)
  have "CBS_get_any_asn1_element (enc_ber ?x) = (Some \<lparr>el_bytes = enc_ber ?x, el_tag = 0x20000010,
      el_header_len = 2, el_ber_found = False\<rparr>, [])"
    unfolding enc by (simp add: ber_eval)
  then show "CBS_asn1_ber_to_der (\<lambda>_. True) (enc_ber ?x) = (Some (enc_ber ?x, False), [])"
    using find by (simp add: CBS_asn1_ber_to_der_def)
qed

end
