(* ===== verification/Fifo.thy ===== *)
theory Fifo
  imports Main
begin

text \<open>
  The interface of a first-in first-out channel, whatever stores the items: what was put in and not
  yet taken out is \<open>content\<close>, a put appends to it and a get removes a front of it. The stack of
  pointers and the ring buffer of a \<^verbatim>\<open>BIO\<close> pair provide it.
\<close>

datatype 'a transfer = Put "'a list" | Got "'a list"

fun put_in :: "'a transfer list \<Rightarrow> 'a list" where
  "put_in [] = []"
| "put_in (Put xs # es) = xs @ put_in es"
| "put_in (Got xs # es) = put_in es"

fun got_out :: "'a transfer list \<Rightarrow> 'a list" where
  "got_out [] = []"
| "got_out (Put xs # es) = got_out es"
| "got_out (Got xs # es) = xs @ got_out es"

text \<open>A run of a step relation, with what each step transfers.\<close>

inductive run :: "('s \<Rightarrow> 'e \<Rightarrow> 's \<Rightarrow> bool) \<Rightarrow> 's \<Rightarrow> 'e list \<Rightarrow> 's \<Rightarrow> bool" for step where
  run_Nil: "run step s [] s"
| run_Cons: "step s e t \<Longrightarrow> run step t es u \<Longrightarrow> run step s (e # es) u"

inductive_simps run_Nil_iff [simp]: "run step s [] t"
inductive_cases run_ConsE: "run step s (e # es) u"

lemma run_append: "run step s es t \<Longrightarrow> run step t fs u \<Longrightarrow> run step s (es @ fs) u"
  by (induction rule: run.induct) (auto intro: run.intros)

locale fifo =
  fixes ok :: "'s \<Rightarrow> bool"
    and content :: "'s \<Rightarrow> 'a list"
    and step :: "'s \<Rightarrow> 'a transfer \<Rightarrow> 's \<Rightarrow> bool"
  assumes step_ok: "ok s \<Longrightarrow> step s e t \<Longrightarrow> ok t"
    and put: "ok s \<Longrightarrow> step s (Put xs) t \<Longrightarrow> content t = content s @ xs"
    and got: "ok s \<Longrightarrow> step s (Got xs) t \<Longrightarrow> content s = xs @ content t"
begin

lemma run_ok: "run step s es t \<Longrightarrow> ok s \<Longrightarrow> ok t"
  by (induction rule: run.induct) (auto intro: step_ok)

text \<open>Nothing is lost, invented, duplicated or reordered.\<close>

lemma in_order: "run step s es t \<Longrightarrow> ok s \<Longrightarrow> content s @ put_in es = got_out es @ content t"
proof (induction rule: run.induct)
  case (run_Cons s e t es u)
  then have "ok t" "content t @ put_in es = got_out es @ content u" using step_ok by blast+
  then show ?case using run_Cons by (cases e) (auto dest: put got)
qed simp

lemma drained: "run step s es t \<Longrightarrow> ok s \<Longrightarrow> content t = [] \<Longrightarrow> got_out es = content s @ put_in es"
  using in_order [of s es t] by simp

end

end
