(* ===== verification/Stack.thy ===== *)
theory Stack
  imports Prelude Fifo Qsort
begin

text \<open>
  The resizable array of pointers of \<^verbatim>\<open>crypto/stack/stack.c\<close>. A pointer is an option
  (\<open>None\<close> is \<^verbatim>\<open>NULL\<close>), a comparison function is named by its pointer, of type \<open>'c\<close>,
  and called through the argument \<open>call\<close>. The array has \<^verbatim>\<open>num_alloc\<close> cells; \<open>g\<close> says which
  sizes the allocator grants and \<open>junk\<close> is what an uninitialised cell holds.
\<close>

section \<open>The code\<close>

record ('p, 'c) stack =
  s_num :: nat
  s_data :: "'p option list"
  s_sorted :: bool
  s_num_alloc :: nat
  s_comp :: "'c option"

definition kMinSize :: nat where
  "kMinSize = 4"

definition sizeof_ptr :: nat where
  "sizeof_ptr = 8"

definition sizeof_STACK :: nat where
  "sizeof_STACK = 40"

definition sk_new :: "(nat \<Rightarrow> bool) \<Rightarrow> 'c option \<Rightarrow> ('p, 'c) stack option" where
  "sk_new g cmp =
    (if \<not> g sizeof_STACK then None
     else if \<not> g (size_mul sizeof_ptr kMinSize) then None
     else Some \<lparr>s_num = 0, s_data = replicate kMinSize None, s_sorted = False,
                s_num_alloc = kMinSize, s_comp = cmp\<rparr>)"

definition sk_new_null :: "(nat \<Rightarrow> bool) \<Rightarrow> ('p, 'c) stack option" where
  "sk_new_null g = sk_new g None"

definition sk_num :: "('p, 'c) stack option \<Rightarrow> nat" where
  "sk_num sk = (case sk of None \<Rightarrow> 0 | Some sk \<Rightarrow> s_num sk)"

definition sk_zero :: "('p, 'c) stack option \<Rightarrow> ('p, 'c) stack option" where
  "sk_zero sk =
    (case sk of
       None \<Rightarrow> None
     | Some sk \<Rightarrow>
         if s_num sk = 0 then Some sk
         else Some (sk\<lparr>s_data := blit (s_data sk) 0 (replicate (s_num sk) None), s_num := 0,
                       s_sorted := False\<rparr>))"

definition sk_value :: "('p, 'c) stack option \<Rightarrow> nat \<Rightarrow> 'p option" where
  "sk_value sk i =
    (case sk of None \<Rightarrow> None | Some sk \<Rightarrow> if s_num sk \<le> i then None else s_data sk ! i)"

definition sk_set ::
    "('p, 'c) stack option \<Rightarrow> nat \<Rightarrow> 'p option \<Rightarrow> 'p option \<times> ('p, 'c) stack option" where
  "sk_set sk i value =
    (case sk of
       None \<Rightarrow> (None, None)
     | Some sk \<Rightarrow>
         if s_num sk \<le> i then (None, Some sk)
         else (value, Some (sk\<lparr>s_data := (s_data sk)[i := value]\<rparr>)))"

text \<open>\<^verbatim>\<open>sk_pop_free_ex\<close>: the pointers the free function is called on, in order.\<close>

function free_loop :: "('p, 'c) stack \<Rightarrow> nat \<Rightarrow> 'p list" where
  "free_loop sk i =
    (if i < s_num sk then
       (case s_data sk ! i of
          None \<Rightarrow> free_loop sk (i + 1)
        | Some p \<Rightarrow> p # free_loop sk (i + 1))
     else [])"
  by pat_completeness auto
termination
  by (relation "measure (\<lambda>(sk, i). s_num sk - i)") auto

definition sk_pop_free_ex :: "('p, 'c) stack option \<Rightarrow> 'p list" where
  "sk_pop_free_ex sk = (case sk of None \<Rightarrow> [] | Some sk \<Rightarrow> free_loop sk 0)"

definition array_realloc :: "'a \<Rightarrow> 'a list \<Rightarrow> nat \<Rightarrow> 'a list" where
  "array_realloc junk xs n = take n xs @ replicate (n - length xs) junk"

text \<open>The growth of \<^verbatim>\<open>sk_insert\<close>: double, else add one, else fail.\<close>

definition sk_grow :: "(nat \<Rightarrow> bool) \<Rightarrow> 'p option \<Rightarrow> ('p, 'c) stack \<Rightarrow> ('p, 'c) stack option" where
  "sk_grow g junk sk =
    (let fits = (\<lambda>new_alloc. \<not> (new_alloc < s_num_alloc sk \<or>
                   size_mul new_alloc sizeof_ptr div sizeof_ptr \<noteq> new_alloc));
         new_alloc = size_mul (s_num_alloc sk) 2;
         new_alloc = (if fits new_alloc then new_alloc else size_add (s_num_alloc sk) 1)
     in if \<not> fits new_alloc then None
        else if \<not> g (size_mul new_alloc sizeof_ptr) then None
        else Some (sk\<lparr>s_data := array_realloc junk (s_data sk) new_alloc, s_num_alloc := new_alloc\<rparr>))"

definition sk_insert ::
    "(nat \<Rightarrow> bool) \<Rightarrow> 'p option \<Rightarrow> ('p, 'c) stack option \<Rightarrow> 'p option \<Rightarrow> nat \<Rightarrow> nat \<times> ('p, 'c) stack option" where
  "sk_insert g junk sk p i =
    (case sk of
       None \<Rightarrow> (0, None)
     | Some sk \<Rightarrow>
         (case (if s_num_alloc sk \<le> size_add (s_num sk) 1 then sk_grow g junk sk else Some sk) of
            None \<Rightarrow> (0, Some sk)
          | Some sk \<Rightarrow>
              let data =
                (if s_num sk \<le> i then (s_data sk)[s_num sk := p]
                 else (blit (s_data sk) (i + 1) (take (s_num sk - i) (drop i (s_data sk))))[i := p])
              in (s_num sk + 1,
                  Some (sk\<lparr>s_data := data, s_num := s_num sk + 1, s_sorted := False\<rparr>))))"

definition sk_delete :: "('p, 'c) stack option \<Rightarrow> nat \<Rightarrow> 'p option \<times> ('p, 'c) stack option" where
  "sk_delete sk i =
    (case sk of
       None \<Rightarrow> (None, None)
     | Some sk \<Rightarrow>
         if s_num sk \<le> i then (None, Some sk)
         else
           let ret = s_data sk ! i;
               data = (if i \<noteq> s_num sk - 1
                       then blit (s_data sk) i (take (s_num sk - i - 1) (drop (i + 1) (s_data sk)))
                       else s_data sk)
           in (ret, Some (sk\<lparr>s_data := data, s_num := s_num sk - 1\<rparr>)))"

text \<open>The loops that look for the first cell a test accepts.\<close>

function find_first :: "('p option \<Rightarrow> bool) \<Rightarrow> ('p, 'c) stack \<Rightarrow> nat \<Rightarrow> nat option" where
  "find_first test sk i =
    (if i < s_num sk then (if test (s_data sk ! i) then Some i else find_first test sk (i + 1))
     else None)"
  by pat_completeness auto
termination
  by (relation "measure (\<lambda>(t, sk, i). s_num sk - i)") auto

definition sk_delete_ptr :: "('p, 'c) stack option \<Rightarrow> 'p option \<Rightarrow> 'p option \<times> ('p, 'c) stack option" where
  "sk_delete_ptr sk p =
    (case sk of
       None \<Rightarrow> (None, None)
     | Some st \<Rightarrow>
         (case find_first (\<lambda>q. q = p) st 0 of
            None \<Rightarrow> (None, Some st)
          | Some i \<Rightarrow> sk_delete (Some st) i))"

text \<open>The binary search. \<open>cmp\<close> compares the key with a cell.\<close>

function bsearch_loop :: "('p option \<Rightarrow> int) \<Rightarrow> ('p, 'c) stack \<Rightarrow> nat \<Rightarrow> nat \<Rightarrow> nat option" where
  "bsearch_loop cmp sk lo hi =
    (if lo < hi then
       let mid = lo + (hi - lo - 1) div 2;
           r = cmp (s_data sk ! mid)
       in if 0 < r then bsearch_loop cmp sk (mid + 1) hi
          else if r < 0 then bsearch_loop cmp sk lo mid
          else if hi - lo = 1 then Some mid
          else bsearch_loop cmp sk lo (mid + 1)
     else None)"
  by pat_completeness auto
termination
  by (relation "measure (\<lambda>(c, sk, lo, hi). hi - lo)") auto

declare free_loop.simps [simp del] find_first.simps [simp del] bsearch_loop.simps [simp del]

definition sk_is_sorted :: "('p, 'c) stack option \<Rightarrow> bool" where
  "sk_is_sorted sk \<longleftrightarrow> (case sk of None \<Rightarrow> True | Some sk \<Rightarrow> s_sorted sk)"

definition sk_find ::
    "('c \<Rightarrow> 'p option \<Rightarrow> 'p option \<Rightarrow> int) \<Rightarrow> ('p, 'c) stack option \<Rightarrow> 'p option \<Rightarrow> nat option" where
  "sk_find call sk p =
    (case sk of
       None \<Rightarrow> None
     | Some st \<Rightarrow>
         (case s_comp st of
            None \<Rightarrow> find_first (\<lambda>q. q = p) st 0
          | Some cmp \<Rightarrow>
              if p = None then None
              else if \<not> sk_is_sorted (Some st) then find_first (\<lambda>q. call cmp p q = 0) st 0
              else bsearch_loop (call cmp p) st 0 (s_num st)))"

definition sk_shift :: "('p, 'c) stack option \<Rightarrow> 'p option \<times> ('p, 'c) stack option" where
  "sk_shift sk =
    (case sk of
       None \<Rightarrow> (None, None)
     | Some st \<Rightarrow> if s_num st = 0 then (None, Some st) else sk_delete (Some st) 0)"

text \<open>\<^verbatim>\<open>sk_push\<close> and \<^verbatim>\<open>sk_set_cmp_func\<close> read \<^verbatim>\<open>*sk\<close> without a test, so they take a stack.\<close>

definition sk_push ::
    "(nat \<Rightarrow> bool) \<Rightarrow> 'p option \<Rightarrow> ('p, 'c) stack \<Rightarrow> 'p option \<Rightarrow> nat \<times> ('p, 'c) stack option" where
  "sk_push g junk sk p = sk_insert g junk (Some sk) p (s_num sk)"

definition sk_pop :: "('p, 'c) stack option \<Rightarrow> 'p option \<times> ('p, 'c) stack option" where
  "sk_pop sk =
    (case sk of
       None \<Rightarrow> (None, None)
     | Some st \<Rightarrow> if s_num st = 0 then (None, Some st) else sk_delete (Some st) (s_num st - 1))"

definition sk_dup ::
    "(nat \<Rightarrow> bool) \<Rightarrow> 'p option \<Rightarrow> ('p, 'c) stack option \<Rightarrow> ('p, 'c) stack option" where
  "sk_dup g junk sk =
    (case sk of
       None \<Rightarrow> None
     | Some st \<Rightarrow>
         if \<not> g sizeof_STACK then None
         else if \<not> g (size_mul sizeof_ptr (s_num_alloc st)) then None
         else Some \<lparr>s_num = s_num st,
             s_data = blit (replicate (s_num_alloc st) junk) 0 (take (s_num st) (s_data st)),
             s_sorted = s_sorted st, s_num_alloc = s_num_alloc st, s_comp = s_comp st\<rparr>)"

text \<open>\<open>qsort\<close> is the C library function, on the comparison and the array.\<close>

definition sk_sort ::
    "(('p option \<Rightarrow> 'p option \<Rightarrow> int) \<Rightarrow> 'p option list \<Rightarrow> 'p option list) \<Rightarrow>
     ('c \<Rightarrow> 'p option \<Rightarrow> 'p option \<Rightarrow> int) \<Rightarrow> ('p, 'c) stack option \<Rightarrow> ('p, 'c) stack option" where
  "sk_sort qsort call sk =
    (case sk of
       None \<Rightarrow> None
     | Some st \<Rightarrow>
         (case s_comp st of
            None \<Rightarrow> Some st
          | Some cmp \<Rightarrow>
              if s_sorted st then Some st
              else
                let st = (if 2 \<le> s_num st
                  then st\<lparr>s_data := blit (s_data st) 0 (qsort (call cmp) (take (s_num st) (s_data st)))\<rparr>
                  else st)
                in Some (st\<lparr>s_sorted := True\<rparr>)))"

definition sk_set_cmp_func :: "('p, 'c) stack \<Rightarrow> 'c option \<Rightarrow> 'c option \<times> ('p, 'c) stack" where
  "sk_set_cmp_func sk cmp =
    (let old = s_comp sk;
         sk = (if s_comp sk \<noteq> cmp then sk\<lparr>s_sorted := False\<rparr> else sk)
     in (old, sk\<lparr>s_comp := cmp\<rparr>))"

text \<open>The loop of \<^verbatim>\<open>sk_deep_copy\<close>, on the copy: the copy, or the pointers freed on failure.\<close>

function copy_loop :: "('p \<Rightarrow> 'p option) \<Rightarrow> ('p, 'c) stack \<Rightarrow> nat \<Rightarrow> 'p list + ('p, 'c) stack" where
  "copy_loop copy_func ret i =
    (if i < s_num ret then
       (case s_data ret ! i of
          None \<Rightarrow> copy_loop copy_func ret (i + 1)
        | Some p \<Rightarrow>
            (case copy_func p of
               None \<Rightarrow> Inl (free_loop (ret\<lparr>s_num := i\<rparr>) 0)
             | Some q \<Rightarrow> copy_loop copy_func (ret\<lparr>s_data := (s_data ret)[i := Some q]\<rparr>) (i + 1)))
     else Inr ret)"
  by pat_completeness auto
termination
  by (relation "measure (\<lambda>(c, sk, i). s_num sk - i)") auto

declare copy_loop.simps [simp del]

definition sk_deep_copy ::
    "(nat \<Rightarrow> bool) \<Rightarrow> 'p option \<Rightarrow> ('p, 'c) stack option \<Rightarrow> ('p \<Rightarrow> 'p option) \<Rightarrow>
     ('p, 'c) stack option \<times> 'p list" where
  "sk_deep_copy g junk sk copy_func =
    (case sk_dup g junk sk of
       None \<Rightarrow> (None, [])
     | Some ret \<Rightarrow>
         (case copy_loop copy_func ret 0 of
            Inl freed \<Rightarrow> (None, freed)
          | Inr ret \<Rightarrow> (Some ret, [])))"

section \<open>Invariant and contents\<close>

definition stack_ok :: "('p, 'c) stack \<Rightarrow> bool" where
  "stack_ok sk \<longleftrightarrow>
    s_num sk < s_num_alloc sk \<and> length (s_data sk) = s_num_alloc sk \<and>
    kMinSize \<le> s_num_alloc sk \<and> s_num_alloc sk * sizeof_ptr < 2 ^ 64"

definition stack_list :: "('p, 'c) stack \<Rightarrow> 'p option list" where
  "stack_list sk = take (s_num sk) (s_data sk)"

text \<open>What the comment on the field \<^verbatim>\<open>sorted\<close> promises.\<close>

definition sorted_ok :: "('c \<Rightarrow> 'p option \<Rightarrow> 'p option \<Rightarrow> int) \<Rightarrow> ('p, 'c) stack \<Rightarrow> bool" where
  "sorted_ok call sk \<longleftrightarrow>
    (s_sorted sk \<longrightarrow> (case s_comp sk of None \<Rightarrow> True | Some c \<Rightarrow> sorted_by (call c) (stack_list sk)))"

lemma length_stack_list [simp]: "stack_ok sk \<Longrightarrow> length (stack_list sk) = s_num sk"
  by (simp add: stack_ok_def stack_list_def)

lemma stack_list_update [simp]:
  "stack_list (sk\<lparr>s_comp := c\<rparr>) = stack_list sk" "stack_list (sk\<lparr>s_sorted := b\<rparr>) = stack_list sk"
  by (simp_all add: stack_list_def)

lemma nth_stack_list: "i < s_num sk \<Longrightarrow> s_data sk ! i = stack_list sk ! i"
  by (simp add: stack_list_def)

lemma fits_iff: "size_mul n sizeof_ptr div sizeof_ptr = n \<longleftrightarrow> n * sizeof_ptr < 2 ^ 64"
proof
  assume "size_mul n sizeof_ptr div sizeof_ptr = n"
  moreover have "n * 8 mod 2 ^ 64 < 2 ^ 64" by simp
  ultimately show "n * sizeof_ptr < 2 ^ 64" unfolding size_mul_def sizeof_ptr_def by linarith
qed (simp add: size_mul_def sizeof_ptr_def)

lemma take_realloc: "n \<le> length xs \<Longrightarrow> n \<le> m \<Longrightarrow> take n (array_realloc junk xs m) = take n xs"
  by (simp add: array_realloc_def min_def)

lemma length_realloc [simp]: "length (array_realloc junk xs n) = n"
  by (simp add: array_realloc_def)

text \<open>Growth keeps the contents, and fails only when memory is refused or the array is as large as
  the address space allows.\<close>

lemma sk_grow_spec:
  assumes ok: "stack_ok sk"
  shows "(case sk_grow g junk sk of
     None \<Rightarrow> (\<exists>n. \<not> g n) \<or> 2 ^ 64 \<le> (s_num_alloc sk + 1) * sizeof_ptr
   | Some sk' \<Rightarrow> stack_ok sk' \<and> stack_list sk' = stack_list sk \<and> s_num_alloc sk < s_num_alloc sk' \<and>
       s_num sk' = s_num sk \<and> s_comp sk' = s_comp sk)"
proof -
  define a where "a = s_num_alloc sk"
  have a: "s_num sk < a" "length (s_data sk) = a" "4 \<le> a" "a * 8 < 2 ^ 64"
    using ok by (simp_all add: stack_ok_def a_def kMinSize_def sizeof_ptr_def)
  then have exact: "size_mul a 2 = a * 2" "size_add a 1 = a + 1" by (simp_all add: size_mul_def)
  define n where "n = (if a * 2 * sizeof_ptr < 2 ^ 64 then a * 2 else a + 1)"
  have eq: "sk_grow g junk sk =
      (if \<not> n * sizeof_ptr < 2 ^ 64 then None
       else if \<not> g (size_mul n sizeof_ptr) then None
       else Some (sk\<lparr>s_data := array_realloc junk (s_data sk) n, s_num_alloc := n\<rparr>))"
    using a by (simp add: sk_grow_def exact fits_iff n_def Let_def flip: a_def)
  have n: "a < n" using a by (simp add: n_def)
  show ?thesis
  proof (cases "n * sizeof_ptr < 2 ^ 64 \<and> g (size_mul n sizeof_ptr)")
    case True
    have "take (s_num sk) (array_realloc junk (s_data sk) n) = take (s_num sk) (s_data sk)"
      by (rule take_realloc) (use a n in simp_all)
    then show ?thesis using True n a
      by (simp add: eq stack_ok_def stack_list_def kMinSize_def flip: a_def)
  next
    case False
    then show ?thesis by (auto simp: eq n_def a_def [symmetric] split: if_splits)
  qed
qed

lemma take_insert_middle:
  assumes "i < n" "n < length xs"
  shows "take (n + 1) ((blit xs (i + 1) (take (n - i) (drop i xs)))[i := p]) =
    take i (take n xs) @ [p] @ drop i (take n xs)"
proof -
  have "blit xs (i + 1) (take (n - i) (drop i xs)) =
      take i xs @ xs ! i # take (n - i) (drop i xs) @ drop (n + 1) xs"
    using assms by (simp add: blit_def take_Suc_conv_app_nth)
  then show ?thesis using assms by (simp add: list_update_append drop_take Suc_diff_le)
qed

lemma take_insert_end: "n < length xs \<Longrightarrow> take (n + 1) (xs[n := p]) = take n xs @ [p]"
  by (simp add: take_Suc_conv_app_nth)

definition insert_at :: "nat \<Rightarrow> 'a \<Rightarrow> 'a list \<Rightarrow> 'a list" where
  "insert_at i x xs = take i xs @ [x] @ drop i xs"

lemma length_insert_at [simp]: "length (insert_at i x xs) = Suc (length xs)"
  by (simp add: insert_at_def)

lemma sk_insert_spec:
  assumes ok: "stack_ok sk"
  obtains sk' where "sk_insert g junk (Some sk) p i = (0, Some sk)"
      "(\<exists>n. \<not> g n) \<or> 2 ^ 64 \<le> (s_num_alloc sk + 1) * sizeof_ptr"
    | sk' where "sk_insert g junk (Some sk) p i = (s_num sk + 1, Some sk')" "stack_ok sk'"
      "stack_list sk' = insert_at i p (stack_list sk)" "\<not> s_sorted sk'" "s_comp sk' = s_comp sk"
      "s_num sk' = s_num sk + 1"
proof -
  have add: "size_add (s_num sk) 1 = s_num sk + 1"
    using ok by (simp add: stack_ok_def sizeof_ptr_def)
  note add' = add [unfolded One_nat_def]
  define grown where "grown = (if s_num_alloc sk \<le> size_add (s_num sk) 1 then sk_grow g junk sk else Some sk)"
  show thesis
  proof (cases grown)
    case None
    then have "sk_grow g junk sk = None" by (simp add: grown_def split: if_splits)
    then show ?thesis using that(1) sk_grow_spec [OF ok, of g junk] None
      by (simp add: sk_insert_def grown_def)
  next
    case (Some st)
    have st: "stack_ok st" "stack_list st = stack_list sk" "s_num st + 1 < s_num_alloc st"
      "s_num st = s_num sk" "s_comp st = s_comp sk"
      using Some sk_grow_spec [OF ok, of g junk] ok
      by (auto simp: grown_def add add' stack_ok_def split: if_splits)
    define data where "data = (if s_num st \<le> i then (s_data st)[s_num st := p]
        else (blit (s_data st) (i + 1) (take (s_num st - i) (drop i (s_data st))))[i := p])"
    have len: "s_num st < length (s_data st)" "length (s_data st) = s_num_alloc st"
      using st(1) by (simp_all add: stack_ok_def)
    have "take (s_num st + 1) data = insert_at i p (stack_list st)"
    proof (cases "s_num st \<le> i")
      case True
      then show ?thesis using len take_insert_end [of "s_num st" "s_data st" p]
        by (simp add: data_def insert_at_def stack_list_def)
    next
      case False
      then show ?thesis using len take_insert_middle [of i "s_num st" "s_data st" p]
        by (simp add: data_def insert_at_def stack_list_def)
    qed
    moreover have "length data = s_num_alloc st" using len by (auto simp: data_def)
    moreover have "sk_insert g junk (Some sk) p i =
        (s_num st + 1, Some (st\<lparr>s_data := data, s_num := s_num st + 1, s_sorted := False\<rparr>))"
      by (simp only: sk_insert_def option.case Some [unfolded grown_def] data_def Let_def)
    ultimately show ?thesis
      by (intro that(2) [of "st\<lparr>s_data := data, s_num := s_num st + 1, s_sorted := False\<rparr>"])
        (use st in \<open>simp_all add: stack_ok_def stack_list_def\<close>)
  qed
qed

definition delete_at :: "nat \<Rightarrow> 'a list \<Rightarrow> 'a list" where
  "delete_at i xs = take i xs @ drop (i + 1) xs"

lemma sk_delete_spec:
  assumes ok: "stack_ok sk"
  shows "s_num sk \<le> i \<Longrightarrow> sk_delete (Some sk) i = (None, Some sk)"
    and "i < s_num sk \<Longrightarrow> \<exists>sk'. sk_delete (Some sk) i = (stack_list sk ! i, Some sk') \<and> stack_ok sk' \<and>
      stack_list sk' = delete_at i (stack_list sk) \<and> s_num sk' = s_num sk - 1 \<and>
      s_sorted sk' = s_sorted sk \<and> s_comp sk' = s_comp sk"
proof -
  assume "s_num sk \<le> i"
  then show "sk_delete (Some sk) i = (None, Some sk)" by (simp add: sk_delete_def)
next
  assume i: "i < s_num sk"
  have len: "s_num sk < length (s_data sk)" using ok by (simp add: stack_ok_def)
  define data where "data = (if i \<noteq> s_num sk - 1
      then blit (s_data sk) i (take (s_num sk - i - 1) (drop (i + 1) (s_data sk))) else s_data sk)"
  have "take (s_num sk - 1) data = delete_at i (stack_list sk)"
  proof (cases "i = s_num sk - 1")
    case True
    then show ?thesis using i len by (simp add: data_def delete_at_def stack_list_def min_def)
  next
    case False
    have "take (i + length (take (s_num sk - i - 1) (drop (i + 1) (s_data sk))))
        (blit (s_data sk) i (take (s_num sk - i - 1) (drop (i + 1) (s_data sk)))) =
        take i (s_data sk) @ take (s_num sk - i - 1) (drop (i + 1) (s_data sk))"
      by (rule take_blit) (use i len in simp)
    moreover have "i + length (take (s_num sk - i - 1) (drop (i + 1) (s_data sk))) = s_num sk - 1"
      using i len by simp
    ultimately show ?thesis using False i by (simp add: data_def delete_at_def stack_list_def drop_take min_def)
  qed
  moreover have "length data = length (s_data sk)" using i len by (simp add: data_def)
  ultimately show "\<exists>sk'. sk_delete (Some sk) i = (stack_list sk ! i, Some sk') \<and> stack_ok sk' \<and>
      stack_list sk' = delete_at i (stack_list sk) \<and> s_num sk' = s_num sk - 1 \<and>
      s_sorted sk' = s_sorted sk \<and> s_comp sk' = s_comp sk"
    using ok i
    by (intro exI [of _ "sk\<lparr>s_data := data, s_num := s_num sk - 1\<rparr>"])
      (auto simp: sk_delete_def data_def stack_list_def stack_ok_def Let_def)
qed

section \<open>Searching\<close>

lemma find_first_spec:
  "case find_first test sk i of
     None \<Rightarrow> \<forall>j. i \<le> j \<longrightarrow> j < s_num sk \<longrightarrow> \<not> test (s_data sk ! j)
   | Some k \<Rightarrow> i \<le> k \<and> k < s_num sk \<and> test (s_data sk ! k) \<and>
       (\<forall>j. i \<le> j \<longrightarrow> j < k \<longrightarrow> \<not> test (s_data sk ! j))"
proof (induction test sk i rule: find_first.induct)
  case (1 test sk i)
  show ?case
  proof (cases "i < s_num sk \<and> \<not> test (s_data sk ! i)")
    case True
    then have step: "find_first test sk i = find_first test sk (i + 1)"
      by (subst find_first.simps) simp
    have le: "i \<le> j \<longleftrightarrow> j = i \<or> i + 1 \<le> j" for j by auto
    show ?thesis using "1.IH" True unfolding step le
      by (cases "find_first test sk (i + 1)") auto
  next
    case False
    then show ?thesis by (subst find_first.simps) auto
  qed
qed

text \<open>The first position of a list a test accepts.\<close>

fun first_index :: "('a \<Rightarrow> bool) \<Rightarrow> 'a list \<Rightarrow> nat option" where
  "first_index test [] = None"
| "first_index test (x # xs) = (if test x then Some 0 else map_option Suc (first_index test xs))"

lemma first_index_Some:
  "first_index test xs = Some k \<longleftrightarrow> k < length xs \<and> test (xs ! k) \<and> (\<forall>j < k. \<not> test (xs ! j))"
  by (induction xs arbitrary: k) (auto simp: nth_Cons less_Suc_eq_0_disj split: nat.splits)

lemma first_index_None: "first_index test xs = None \<longleftrightarrow> (\<forall>x \<in> set xs. \<not> test x)"
  by (induction xs) auto

lemma find_first_eq:
  assumes "stack_ok sk"
  shows "find_first test sk 0 = first_index test (stack_list sk)"
proof (cases "find_first test sk 0")
  case None
  with find_first_spec [where test = test and sk = sk and i = 0] have "\<forall>j < s_num sk. \<not> test (stack_list sk ! j)"
    using nth_stack_list [of _ sk] by auto
  then have "first_index test (stack_list sk) = None"
    using assms by (auto simp: first_index_None in_set_conv_nth)
  then show ?thesis using None by simp
next
  case (Some k)
  with find_first_spec [where test = test and sk = sk and i = 0]
  have k: "k < s_num sk" "test (s_data sk ! k)" "\<And>j. j < k \<Longrightarrow> \<not> test (s_data sk ! j)" by auto
  moreover have "j < k \<Longrightarrow> s_data sk ! j = stack_list sk ! j" for j using k(1) by (simp add: stack_list_def)
  ultimately have "first_index test (stack_list sk) = Some k"
    using assms nth_stack_list [OF k(1)] by (auto simp: first_index_Some)
  then show ?thesis using Some by simp
qed

lemma bsearch_loop_spec:
  assumes "\<And>i j. i \<le> j \<Longrightarrow> j < s_num sk \<Longrightarrow> 0 < cmp (s_data sk ! j) \<Longrightarrow> 0 < cmp (s_data sk ! i)"
    and "\<And>i j. i \<le> j \<Longrightarrow> j < s_num sk \<Longrightarrow> cmp (s_data sk ! i) < 0 \<Longrightarrow> cmp (s_data sk ! j) < 0"
  defines "first k \<equiv> k < s_num sk \<and> cmp (s_data sk ! k) = 0 \<and> (\<forall>i < k. cmp (s_data sk ! i) \<noteq> 0)"
  shows "hi \<le> s_num sk \<Longrightarrow> (\<And>k. first k \<Longrightarrow> lo \<le> k \<and> k < hi) \<Longrightarrow>
    bsearch_loop cmp sk lo hi = Some k \<longleftrightarrow> first k"
proof (induction "hi - lo" arbitrary: lo hi rule: less_induct)
  case less
  have first_below: "\<exists>k \<le> m. first k" if "m < s_num sk" "cmp (s_data sk ! m) = 0" for m
    using that ex_least_nat_le [of "\<lambda>i. cmp (s_data sk ! i) = 0" m] unfolding first_def by fastforce
  show ?case
  proof (cases "lo < hi")
    case False
    then have "\<not> first k" using less.prems(2) [of k] by auto
    with False show ?thesis by (subst bsearch_loop.simps) simp
  next
    case True
    define mid where "mid = lo + (hi - lo - 1) div 2"
    have mid: "lo \<le> mid" "mid < hi" "hi - lo \<noteq> 1 \<Longrightarrow> mid + 1 < hi"
      using True unfolding mid_def by linarith+
    have midn: "mid < s_num sk" using mid(2) less.prems(1) by simp
    consider "0 < cmp (s_data sk ! mid)" | "cmp (s_data sk ! mid) < 0"
      | "cmp (s_data sk ! mid) = 0" "hi - lo = 1" | "cmp (s_data sk ! mid) = 0" "hi - lo \<noteq> 1"
      by linarith
    then show ?thesis
    proof cases
      case 1
      have "bsearch_loop cmp sk (mid + 1) hi = Some k \<longleftrightarrow> first k"
      proof (rule less.hyps)
        fix k assume k: "first k"
        then have "\<not> k \<le> mid" using assms(1) [of k mid] 1 midn by (auto simp: first_def)
        then show "mid + 1 \<le> k \<and> k < hi" using less.prems(2) [OF k] by simp
      qed (use mid True less.prems(1) in simp_all)
      then show ?thesis using 1 True by (subst bsearch_loop.simps) (simp add: mid_def Let_def)
    next
      case 2
      have "bsearch_loop cmp sk lo mid = Some k \<longleftrightarrow> first k"
      proof (rule less.hyps)
        fix k assume k: "first k"
        then have "\<not> mid \<le> k" using assms(2) [of mid k] 2 by (auto simp: first_def)
        then show "lo \<le> k \<and> k < mid" using less.prems(2) [OF k] by simp
      qed (use mid True midn in simp_all)
      then show ?thesis using 2 True by (subst bsearch_loop.simps) (simp add: mid_def Let_def)
    next
      case 3
      have "first k \<longleftrightarrow> k = mid"
      proof
        assume "first k"
        with less.prems(2) [of k] 3(2) mid show "k = mid" by linarith
      next
        assume k: "k = mid"
        obtain k' where k': "k' \<le> mid" "first k'" using first_below [OF midn 3(1)] by blast
        with less.prems(2) [of k'] 3(2) mid have "k' = mid" by linarith
        then show "first k" using k' k by simp
      qed
      then show ?thesis using 3 True by (subst bsearch_loop.simps) (auto simp: mid_def Let_def)
    next
      case 4
      have "bsearch_loop cmp sk lo (mid + 1) = Some k \<longleftrightarrow> first k"
      proof (rule less.hyps)
        fix k assume k: "first k"
        then have "\<not> mid < k" using 4 by (auto simp: first_def)
        then show "lo \<le> k \<and> k < mid + 1" using less.prems(2) [OF k] by simp
      qed (use mid 4 midn in simp_all)
      then show ?thesis using 4 True by (subst bsearch_loop.simps) (simp add: mid_def Let_def)
    qed
  qed
qed

lemma bsearch_eq:
  assumes "stack_ok sk" "consistent cmp" "sorted_by cmp (stack_list sk)"
  shows "bsearch_loop (cmp p) sk 0 (s_num sk) = first_index (\<lambda>q. cmp p q = 0) (stack_list sk)"
proof -
  have le: "cmp (s_data sk ! i) (s_data sk ! j) \<le> 0" if "i \<le> j" "j < s_num sk" for i j
    using sorted_by_nth [OF assms(2,3)] that assms(1) by (simp add: nth_stack_list)
  have low: "0 < cmp p (s_data sk ! i)" if "i \<le> j" "j < s_num sk" "0 < cmp p (s_data sk ! j)" for i j
    using consistent_trans [OF assms(2) _ le [OF that(1,2)], of p] that(3) by linarith
  have high: "cmp p (s_data sk ! j) < 0" if ij: "i \<le> j" "j < s_num sk" "cmp p (s_data sk ! i) < 0" for i j
  proof (rule ccontr)
    assume "\<not> cmp p (s_data sk ! j) < 0"
    then have "cmp (s_data sk ! j) p \<le> 0" using consistent_flip [OF assms(2), of p "s_data sk ! j"] by simp
    from consistent_trans [OF assms(2) le [OF ij(1,2)] this] show False
      using consistent_flip [OF assms(2), of p "s_data sk ! i"] ij(3) by simp
  qed
  have "bsearch_loop (cmp p) sk 0 (s_num sk) = Some k \<longleftrightarrow>
      k < s_num sk \<and> cmp p (s_data sk ! k) = 0 \<and> (\<forall>i < k. cmp p (s_data sk ! i) \<noteq> 0)" for k
    using low high by (intro bsearch_loop_spec) auto
  also have "\<dots> k \<longleftrightarrow> first_index (\<lambda>q. cmp p q = 0) (stack_list sk) = Some k" for k
    using assms(1) by (auto simp: first_index_Some nth_stack_list)
  finally show ?thesis by (metis not_Some_eq)
qed

section \<open>Sorting, copying\<close>

lemma sk_sort_spec:
  assumes "stack_ok sk" "qsort_sorts qsort" "sorted_ok call sk" "s_comp sk = Some c" "consistent (call c)"
  obtains sk' where "sk_sort qsort call (Some sk) = Some sk'" "stack_ok sk'" "s_comp sk' = Some c"
    "s_sorted sk'" "mset (stack_list sk') = mset (stack_list sk)" "sorted_by (call c) (stack_list sk')"
proof (cases "s_sorted sk \<or> s_num sk < 2")
  case True
  have "sorted_by (call c) (stack_list sk)" if "s_num sk < 2"
    unfolding sorted_by_def by (rule sorted_wrt01) (use that assms(1) in simp)
  then have "sorted_by (call c) (stack_list sk)" using True assms(3,4) by (auto simp: sorted_ok_def)
  then show ?thesis using True assms
    by (intro that [of "sk\<lparr>s_sorted := True\<rparr>"])
      (auto simp: sk_sort_def Let_def stack_ok_def stack_list_def)
next
  case False
  define xs where "xs = qsort (call c) (stack_list sk)"
  have xs: "mset xs = mset (stack_list sk)" "sorted_by (call c) xs"
    using assms(2,5) by (auto simp: qsort_sorts_def xs_def)
  have len: "length xs = s_num sk" using mset_eq_length [OF xs(1)] assms(1) by simp
  define data where "data = blit (s_data sk) 0 xs"
  have "take (s_num sk) data = xs" "length data = s_num_alloc sk"
    using len assms(1) by (simp_all add: data_def blit_def stack_ok_def)
  then show ?thesis using False assms xs
    by (intro that [of "sk\<lparr>s_data := data, s_sorted := True\<rparr>"])
      (auto simp: sk_sort_def Let_def stack_ok_def stack_list_def data_def xs_def)
qed

lemma sk_dup_spec:
  assumes "stack_ok sk" "sk_dup g junk (Some sk) = Some sk'"
  shows "stack_ok sk' \<and> stack_list sk' = stack_list sk \<and> s_num sk' = s_num sk \<and>
    s_sorted sk' = s_sorted sk \<and> s_comp sk' = s_comp sk"
  using assms by (auto simp: sk_dup_def stack_ok_def stack_list_def blit_def split: if_splits)

lemma sk_dup_fails: "sk_dup g junk (Some sk) = None \<longleftrightarrow> \<not> g sizeof_STACK \<or> \<not> g (size_mul sizeof_ptr (s_num_alloc sk))"
  by (simp add: sk_dup_def)

text \<open>The pointers that are not \<^verbatim>\<open>NULL\<close>, and the copy of a cell.\<close>

definition pointers :: "'p option list \<Rightarrow> 'p list" where
  "pointers xs = List.map_filter id xs"

lemma pointers_simps [simp]:
  "pointers [] = []" "pointers (None # xs) = pointers xs" "pointers (Some p # xs) = p # pointers xs"
  by (simp_all add: pointers_def List.map_filter_simps)

lemma free_loop_eq:
  assumes "s_num sk \<le> length (s_data sk)"
  shows "free_loop sk i = pointers (drop i (stack_list sk))"
proof (induction "s_num sk - i" arbitrary: i)
  case 0
  then show ?case by (subst free_loop.simps) (simp add: stack_list_def)
next
  case (Suc n)
  then have i: "i < s_num sk" and IH: "free_loop sk (i + 1) = pointers (drop (i + 1) (stack_list sk))"
    by simp_all
  have "drop i (stack_list sk) = s_data sk ! i # drop (i + 1) (stack_list sk)"
    using i assms by (simp add: stack_list_def Cons_nth_drop_Suc [symmetric])
  then show ?case using i IH by (subst free_loop.simps) (auto split: option.splits)
qed

definition copies :: "('p \<Rightarrow> 'p option) \<Rightarrow> 'p option list \<Rightarrow> 'p option list" where
  "copies f = map (\<lambda>x. Option.bind x f)"

lemma copy_loop_spec:
  assumes "s_num sk \<le> length (s_data sk)" "stack_list sk = copies f (take i xs) @ drop i xs"
    "length xs = s_num sk" "\<forall>j < i. xs ! j \<noteq> None \<longrightarrow> Option.bind (xs ! j) f \<noteq> None"
  shows "case copy_loop f sk i of
     Inr sk' \<Rightarrow> (\<exists>data. sk' = sk\<lparr>s_data := data\<rparr> \<and> length data = length (s_data sk)) \<and>
       stack_list sk' = copies f xs \<and> (\<forall>j < length xs. xs ! j \<noteq> None \<longrightarrow> Option.bind (xs ! j) f \<noteq> None)
   | Inl freed \<Rightarrow> \<exists>k < length xs. xs ! k \<noteq> None \<and> Option.bind (xs ! k) f = None \<and>
       freed = pointers (copies f (take k xs))"
  using assms
proof (induction "s_num sk - i" arbitrary: i sk)
  case 0
  then show ?case
    by (subst copy_loop.simps) (auto intro!: exI [of _ "s_data sk"])
next
  case (Suc n)
  then have i: "i < s_num sk" "i < length xs" by simp_all
  have cell: "s_data sk ! i = xs ! i"
    using i Suc.prems(2) nth_stack_list [of i sk] by (simp add: nth_append copies_def)
  have next_copies: "copies f (take (i + 1) xs) = copies f (take i xs) @ [Option.bind (xs ! i) f]"
    using i by (simp add: copies_def take_Suc_conv_app_nth)
  have rest: "drop i xs = xs ! i # drop (i + 1) xs" using i by (simp add: Cons_nth_drop_Suc)
  show ?case
  proof (cases "xs ! i")
    case None
    have "stack_list sk = copies f (take (i + 1) xs) @ drop (i + 1) xs"
      using Suc.prems(2) next_copies rest None by simp
    moreover have "\<forall>j < i + 1. xs ! j \<noteq> None \<longrightarrow> Option.bind (xs ! j) f \<noteq> None"
      using Suc.prems(4) None by (auto simp: less_Suc_eq)
    ultimately show ?thesis using Suc.hyps Suc.prems i None cell
      by (subst copy_loop.simps) simp
  next
    case (Some p)
    show ?thesis
    proof (cases "f p")
      case None
      have "take i (s_data sk) = copies f (take i xs)"
        using arg_cong [OF Suc.prems(2), of "take i"] i by (simp add: stack_list_def copies_def min_def)
      then have "free_loop (sk\<lparr>s_num := i\<rparr>) 0 = pointers (copies f (take i xs))"
        using free_loop_eq [of "sk\<lparr>s_num := i\<rparr>" 0] i Suc.prems(1) by (simp add: stack_list_def)
      then show ?thesis using i cell Some None by (subst copy_loop.simps) auto
    next
      case (Some q)
      define sk' where "sk' = sk\<lparr>s_data := (s_data sk)[i := Some q]\<rparr>"
      have "stack_list sk' = (stack_list sk)[i := Some q]"
        by (simp add: sk'_def stack_list_def take_update_swap)
      also have "\<dots> = copies f (take (i + 1) xs) @ drop (i + 1) xs"
        unfolding Suc.prems(2) next_copies rest using i \<open>xs ! i = Some p\<close> Some
        by (simp add: list_update_append copies_def)
      finally have list: "stack_list sk' = copies f (take (i + 1) xs) @ drop (i + 1) xs" .
      have upto: "\<forall>j < i + 1. xs ! j \<noteq> None \<longrightarrow> Option.bind (xs ! j) f \<noteq> None"
        using Suc.prems(4) \<open>xs ! i = Some p\<close> Some by (auto simp: less_Suc_eq)
      have step: "copy_loop f sk i = copy_loop f sk' (i + 1)"
        using i cell \<open>xs ! i = Some p\<close> Some by (subst copy_loop.simps) (simp add: sk'_def)
      have "n = s_num sk' - (i + 1)" "s_num sk' \<le> length (s_data sk')" "length xs = s_num sk'"
        using Suc by (simp_all add: sk'_def)
      note IH = Suc.hyps(1) [OF this(1,2) list this(3) upto]
      have "\<exists>data. sk'' = sk\<lparr>s_data := data\<rparr> \<and> length data = length (s_data sk)"
        if "\<exists>data. sk'' = sk'\<lparr>s_data := data\<rparr> \<and> length data = length (s_data sk')" for sk''
        using that by (auto simp: sk'_def)
      then show ?thesis using IH unfolding step by (auto split: sum.splits)
    qed
  qed
qed

section \<open>Properties\<close>

text \<open>C9: \<^verbatim>\<open>sk_find\<close> returns the first match. On a stack whose \<^verbatim>\<open>sorted\<close> flag is
  true the binary search finds the same index as a linear search for the first element that
  compares equal; without a comparison function pointers are compared.\<close>

theorem stack_find_exact:
  assumes "stack_ok sk" "sorted_ok call sk" "\<And>c. consistent (call c)"
  shows "sk_find call (Some sk) p =
    (case s_comp sk of
       None \<Rightarrow> first_index (\<lambda>q. q = p) (stack_list sk)
     | Some c \<Rightarrow> if p = None then None else first_index (\<lambda>q. call c p q = 0) (stack_list sk))"
  using assms bsearch_eq [OF assms(1,3)]
  by (auto simp: sk_find_def find_first_eq sk_is_sorted_def sorted_ok_def split: option.splits)

definition int_cmp :: "unit \<Rightarrow> int option \<Rightarrow> int option \<Rightarrow> int" where
  "int_cmp u a b = (case a of None \<Rightarrow> 0 | Some a \<Rightarrow> a) - (case b of None \<Rightarrow> 0 | Some b \<Rightarrow> b)"

lemma int_cmp_consistent: "consistent (int_cmp c)"
  by (auto simp: consistent_def int_cmp_def)

definition sample_stack :: "int \<Rightarrow> int \<Rightarrow> int \<Rightarrow> (int, unit) stack" where
  "sample_stack x y z = \<lparr>s_num = 3, s_data = [Some x, Some y, Some z, None],
     s_sorted = True, s_num_alloc = 4, s_comp = Some ()\<rparr>"

lemma sample_stack_ok: "stack_ok (sample_stack x y z)"
  by (simp add: stack_ok_def sample_stack_def kMinSize_def sizeof_ptr_def)

lemma sample_stack_list: "stack_list (sample_stack x y z) = [Some x, Some y, Some z]"
  by (simp add: stack_list_def sample_stack_def numeral_3_eq_3)

lemma stack_find_exact_witness:
  "sk_find int_cmp (Some (sample_stack 3 5 5)) (Some 5) = Some 1"
proof -
  have "s_comp (sample_stack x y z) = Some ()" for x y z by (simp add: sample_stack_def)
  moreover have "sorted_ok int_cmp (sample_stack 3 5 5)"
    by (simp add: sorted_ok_def calculation sample_stack_list sorted_by_def int_cmp_def)
  ultimately show ?thesis
    using stack_find_exact [OF sample_stack_ok _ int_cmp_consistent, where p = "Some 5"]
    by (simp add: sample_stack_list int_cmp_def)
qed

text \<open>C10: the stack implements a list. Insertion puts the pointer before index \<open>i\<close> (at the end
  when \<open>i\<close> is out of range), or returns 0 and leaves the stack as it was, which happens only when
  memory is refused or the array cannot grow; deletion, shift and pop return the element they
  remove, and \<^verbatim>\<open>NULL\<close> with no change when there is none; the invariant of the array (fewer
  elements than cells, a size that does not overflow) holds throughout.\<close>

theorem stack_implements_list:
  assumes "stack_ok sk"
  shows "(case sk_insert g junk (Some sk) p i of
      (n, r) \<Rightarrow> if n = 0
        then r = Some sk \<and> ((\<exists>n. \<not> g n) \<or> 2 ^ 64 \<le> (s_num_alloc sk + 1) * sizeof_ptr)
        else \<exists>sk'. r = Some sk' \<and> stack_ok sk' \<and> stack_list sk' = insert_at i p (stack_list sk) \<and>
          n = length (stack_list sk')) \<and>
    (\<exists>sk'. sk_delete (Some sk) i =
        (if i < length (stack_list sk) then stack_list sk ! i else None, Some sk') \<and> stack_ok sk' \<and>
      stack_list sk' = delete_at i (stack_list sk)) \<and>
    (\<exists>sk'. sk_pop (Some sk) = (if stack_list sk = [] then None else last (stack_list sk), Some sk') \<and>
      stack_ok sk' \<and> stack_list sk' = butlast (stack_list sk)) \<and>
    (\<exists>sk'. sk_shift (Some sk) = (if stack_list sk = [] then None else hd (stack_list sk), Some sk') \<and>
      stack_ok sk' \<and> stack_list sk' = tl (stack_list sk))"
proof (intro conjI)
  let ?L = "stack_list sk"
  have len: "length ?L = s_num sk" using assms by simp
  show "case sk_insert g junk (Some sk) p i of
      (n, r) \<Rightarrow> if n = 0
        then r = Some sk \<and> ((\<exists>n. \<not> g n) \<or> 2 ^ 64 \<le> (s_num_alloc sk + 1) * sizeof_ptr)
        else \<exists>sk'. r = Some sk' \<and> stack_ok sk' \<and> stack_list sk' = insert_at i p (stack_list sk) \<and>
          n = length (stack_list sk')"
    by (rule sk_insert_spec [OF assms, of g junk p i]) (use len in auto)
  show "\<exists>sk'. sk_delete (Some sk) i = (if i < length ?L then ?L ! i else None, Some sk') \<and>
      stack_ok sk' \<and> stack_list sk' = delete_at i ?L" for i
    using sk_delete_spec [OF assms, of i] assms
    by (cases "i < s_num sk") (auto simp: delete_at_def)
  then have del: "\<exists>sk'. sk_delete (Some sk) i = (if i < length ?L then ?L ! i else None, Some sk') \<and>
      stack_ok sk' \<and> stack_list sk' = delete_at i ?L" for i .
  show "\<exists>sk'. sk_pop (Some sk) = (if ?L = [] then None else last ?L, Some sk') \<and>
      stack_ok sk' \<and> stack_list sk' = butlast ?L"
  proof (cases "s_num sk = 0")
    case True
    then have "?L = []" using len by simp
    then show ?thesis using True assms by (simp add: sk_pop_def)
  next
    case False
    then have ne: "?L \<noteq> []" using len by auto
    obtain sk' where "sk_delete (Some sk) (s_num sk - 1) = (?L ! (s_num sk - 1), Some sk')"
      "stack_ok sk'" "stack_list sk' = delete_at (s_num sk - 1) ?L"
      using del [of "s_num sk - 1"] False len by auto
    then show ?thesis using False ne len
      by (simp add: sk_pop_def delete_at_def butlast_conv_take last_conv_nth)
  qed
  show "\<exists>sk'. sk_shift (Some sk) = (if ?L = [] then None else hd ?L, Some sk') \<and>
      stack_ok sk' \<and> stack_list sk' = tl ?L"
    using del [of 0] assms len
    by (cases ?L) (auto simp: sk_shift_def delete_at_def)
qed

lemma stack_implements_list_witness:
  "\<exists>sk'. sk_shift (Some (sample_stack 3 5 7)) = (Some 3, Some sk') \<and> stack_list sk' = [Some 5, Some 7]"
  using stack_implements_list [OF sample_stack_ok [of 3 5 7], where g = "\<lambda>_. True" and junk = None and p = None and i = 0]
  by (simp add: sample_stack_list) blast

text \<open>The stacks a caller can have: a new one, and what any call makes of one, allocation failures included.
  Two calls have a condition, without which they break the promise of the flag (see \<open>sk_set_unsorts\<close> and
  \<open>deep_copy_unsorts\<close>): an element of a stack marked as sorted is not set, and the copies of the elements
  of such a stack compare like the elements.\<close>

definition order_kept :: "('p option \<Rightarrow> 'p option \<Rightarrow> int) \<Rightarrow> ('p \<Rightarrow> 'p option) \<Rightarrow> bool" where
  "order_kept cmp f \<longleftrightarrow>
    (\<forall>x y. (x \<noteq> None \<longrightarrow> Option.bind x f \<noteq> None) \<and> (y \<noteq> None \<longrightarrow> Option.bind y f \<noteq> None) \<and> cmp x y \<le> 0 \<longrightarrow>
       cmp (Option.bind x f) (Option.bind y f) \<le> 0)"

inductive reached ::
    "(('p option \<Rightarrow> 'p option \<Rightarrow> int) \<Rightarrow> 'p option list \<Rightarrow> 'p option list) \<Rightarrow>
     ('c \<Rightarrow> 'p option \<Rightarrow> 'p option \<Rightarrow> int) \<Rightarrow> ('p, 'c) stack \<Rightarrow> bool" for qsort call where
  new: "sk_new g cmp = Some sk \<Longrightarrow> reached qsort call sk"
| insertion: "reached qsort call sk \<Longrightarrow> sk_insert g junk (Some sk) p i = (n, Some sk') \<Longrightarrow> reached qsort call sk'"
| push: "reached qsort call sk \<Longrightarrow> sk_push g junk sk p = (n, Some sk') \<Longrightarrow> reached qsort call sk'"
| deletion: "reached qsort call sk \<Longrightarrow> sk_delete (Some sk) i = (q, Some sk') \<Longrightarrow> reached qsort call sk'"
| deletion_ptr: "reached qsort call sk \<Longrightarrow> sk_delete_ptr (Some sk) p = (q, Some sk') \<Longrightarrow> reached qsort call sk'"
| pop: "reached qsort call sk \<Longrightarrow> sk_pop (Some sk) = (q, Some sk') \<Longrightarrow> reached qsort call sk'"
| shift: "reached qsort call sk \<Longrightarrow> sk_shift (Some sk) = (q, Some sk') \<Longrightarrow> reached qsort call sk'"
| zero: "reached qsort call sk \<Longrightarrow> sk_zero (Some sk) = Some sk' \<Longrightarrow> reached qsort call sk'"
| dup: "reached qsort call sk \<Longrightarrow> sk_dup g junk (Some sk) = Some sk' \<Longrightarrow> reached qsort call sk'"
| set_cmp: "reached qsort call sk \<Longrightarrow> sk_set_cmp_func sk c = (old, sk') \<Longrightarrow> reached qsort call sk'"
| sorting: "reached qsort call sk \<Longrightarrow> sk_sort qsort call (Some sk) = Some sk' \<Longrightarrow> reached qsort call sk'"
| setting: "reached qsort call sk \<Longrightarrow> sk_set (Some sk) i p = (q, Some sk') \<Longrightarrow> \<not> s_sorted sk \<Longrightarrow> reached qsort call sk'"
| deep_copy: "reached qsort call sk \<Longrightarrow> sk_deep_copy g junk (Some sk) f = (Some sk', freed) \<Longrightarrow>
    (\<And>k. s_sorted sk \<Longrightarrow> s_comp sk = Some k \<Longrightarrow> order_kept (call k) f) \<Longrightarrow> reached qsort call sk'"

lemma sorted_by_delete: "sorted_by cmp xs \<Longrightarrow> sorted_by cmp (delete_at i xs)"
proof -
  assume sorted: "sorted_by cmp xs"
  then have "sorted_wrt (\<lambda>a b. cmp a b \<le> 0) (take i xs @ drop i xs)" by (simp add: sorted_by_def)
  moreover have "sorted_wrt (\<lambda>a b. cmp a b \<le> 0) (drop (i + 1) xs)"
    using sorted by (simp add: sorted_by_def sorted_wrt_drop)
  ultimately show ?thesis using set_drop_subset_set_drop [of i "i + 1" xs]
    by (auto simp: sorted_by_def delete_at_def sorted_wrt_append simp del: append_take_drop_id)
qed

lemma insert_kept:
  assumes "stack_ok sk" "sorted_ok call sk" "sk_insert g junk (Some sk) p i = (n, Some sk')"
  shows "stack_ok sk' \<and> sorted_ok call sk'"
  by (rule sk_insert_spec [OF assms(1), of g junk p i]) (use assms in \<open>auto simp: sorted_ok_def\<close>)

lemma delete_kept:
  assumes "stack_ok sk" "sorted_ok call sk" "sk_delete (Some sk) i = (q, Some sk')"
  shows "stack_ok sk' \<and> sorted_ok call sk'"
  using sk_delete_spec [OF assms(1), of i] assms sorted_by_delete
  by (cases "i < s_num sk") (auto simp: sorted_ok_def split: option.splits)

lemma sort_kept:
  assumes "stack_ok sk" "sorted_ok call sk" "qsort_sorts qsort" "\<And>k. consistent (call k)"
  shows "\<exists>sk'. sk_sort qsort call (Some sk) = Some sk' \<and> stack_ok sk' \<and> sorted_ok call sk' \<and>
    s_comp sk' = s_comp sk \<and> mset (stack_list sk') = mset (stack_list sk) \<and>
    (\<forall>k. s_comp sk = Some k \<longrightarrow> s_sorted sk' \<and> sorted_by (call k) (stack_list sk'))"
proof (cases "s_comp sk")
  case None
  then show ?thesis using assms(1,2) by (simp add: sk_sort_def)
next
  case (Some k)
  obtain sk' where "sk_sort qsort call (Some sk) = Some sk'" "stack_ok sk'" "s_comp sk' = Some k"
    "s_sorted sk'" "mset (stack_list sk') = mset (stack_list sk)" "sorted_by (call k) (stack_list sk')"
    using sk_sort_spec [OF assms(1,3,2) Some assms(4)] by blast
  then show ?thesis using Some by (auto simp: sorted_ok_def)
qed

lemma sorted_by_copies:
  assumes "sorted_by cmp xs" "order_kept cmp f" "\<forall>x \<in> set xs. x \<noteq> None \<longrightarrow> Option.bind x f \<noteq> None"
  shows "sorted_by cmp (copies f xs)"
proof -
  have "sorted_wrt (\<lambda>x y. cmp (Option.bind x f) (Option.bind y f) \<le> 0) xs"
    by (rule sorted_wrt_mono_rel [OF _ assms(1) [unfolded sorted_by_def]])
      (use assms(2,3) in \<open>simp add: order_kept_def\<close>)
  then show ?thesis by (simp add: sorted_by_def copies_def sorted_wrt_map)
qed

text \<open>What \<^verbatim>\<open>sk_deep_copy\<close> returns, with the flag of the original.\<close>

lemma sk_deep_copy_spec:
  assumes "stack_ok sk"
  shows "case sk_deep_copy g junk (Some sk) f of
     (Some sk', freed) \<Rightarrow> freed = [] \<and> stack_ok sk' \<and> s_comp sk' = s_comp sk \<and> s_sorted sk' = s_sorted sk \<and>
       stack_list sk' = copies f (stack_list sk) \<and>
       (\<forall>x \<in> set (stack_list sk). x \<noteq> None \<longrightarrow> Option.bind x f \<noteq> None)
   | (None, freed) \<Rightarrow>
       freed = [] \<and> (\<exists>n. \<not> g n) \<or>
       (\<exists>k < length (stack_list sk). stack_list sk ! k \<noteq> None \<and> Option.bind (stack_list sk ! k) f = None \<and>
          freed = pointers (copies f (take k (stack_list sk))))"
proof (cases "sk_dup g junk (Some sk)")
  case None
  then show ?thesis using sk_dup_fails [of g junk sk] by (auto simp: sk_deep_copy_def)
next
  case (Some ret)
  note d = sk_dup_spec [OF assms Some]
  have len: "s_num ret \<le> length (s_data ret)" "length (stack_list sk) = s_num ret"
    using d assms by (simp_all add: stack_ok_def)
  have spec: "case copy_loop f ret 0 of
     Inr sk' \<Rightarrow> (\<exists>data. sk' = ret\<lparr>s_data := data\<rparr> \<and> length data = length (s_data ret)) \<and>
       stack_list sk' = copies f (stack_list sk) \<and>
       (\<forall>j < length (stack_list sk). stack_list sk ! j \<noteq> None \<longrightarrow> Option.bind (stack_list sk ! j) f \<noteq> None)
   | Inl freed \<Rightarrow> \<exists>k < length (stack_list sk). stack_list sk ! k \<noteq> None \<and>
       Option.bind (stack_list sk ! k) f = None \<and> freed = pointers (copies f (take k (stack_list sk)))"
    by (rule copy_loop_spec [OF len(1) _ len(2)]) (simp_all add: d copies_def)
  show ?thesis
  proof (cases "copy_loop f ret 0")
    case (Inl freed)
    then show ?thesis using spec Some by (simp add: sk_deep_copy_def)
  next
    case (Inr sk')
    then obtain data where sk': "sk' = ret\<lparr>s_data := data\<rparr>" "length data = length (s_data ret)"
      using spec by auto
    have "stack_ok sk'" "s_comp sk' = s_comp sk" "s_sorted sk' = s_sorted sk"
      using d sk'(2) by (simp_all add: sk'(1) stack_ok_def)
    moreover have "\<forall>x \<in> set (stack_list sk). x \<noteq> None \<longrightarrow> Option.bind x f \<noteq> None"
    proof
      fix x assume "x \<in> set (stack_list sk)"
      then obtain j where j: "j < length (stack_list sk)" "x = stack_list sk ! j" by (auto simp: in_set_conv_nth)
      show "x \<noteq> None \<longrightarrow> Option.bind x f \<noteq> None"
        using spec j(1) unfolding Inr sum.case j(2) by blast
    qed
    ultimately show ?thesis using spec unfolding Inr sum.case by (simp add: sk_deep_copy_def Some Inr)
  qed
qed

lemma deep_copy_kept:
  assumes "stack_ok sk" "sorted_ok call sk" "sk_deep_copy g junk (Some sk) f = (Some sk', freed)"
    and "\<And>k. s_sorted sk \<Longrightarrow> s_comp sk = Some k \<Longrightarrow> order_kept (call k) f"
  shows "stack_ok sk' \<and> sorted_ok call sk'"
proof -
  note spec = sk_deep_copy_spec [OF assms(1), where g = g and junk = junk and f = f, unfolded assms(3) prod.case option.case]
  have "sorted_by (call k) (stack_list sk')" if "s_sorted sk" "s_comp sk = Some k" for k
    using sorted_by_copies [OF _ assms(4) [OF that]] spec assms(2) that by (simp add: sorted_ok_def)
  then show ?thesis using spec by (auto simp: sorted_ok_def split: option.splits)
qed

text \<open>C11: the \<^verbatim>\<open>sorted\<close> flag. However a stack came about, by any sequence of the calls above, the
  invariant of its array holds, and so does the promise of \<^verbatim>\<open>stack.h\<close> that a stack with the flag set is in
  ascending order; and \<^verbatim>\<open>sk_sort\<close> then sets the flag and permutes the elements into ascending order,
  while without a comparison function it does nothing.\<close>

theorem stack_sorted_invariant:
  assumes "qsort_sorts qsort" "\<And>k. consistent (call k)" "reached qsort call sk"
  shows "stack_ok sk \<and> sorted_ok call sk \<and>
    (\<exists>sk'. sk_sort qsort call (Some sk) = Some sk' \<and> s_comp sk' = s_comp sk \<and> mset (stack_list sk') = mset (stack_list sk) \<and>
       (\<forall>k. s_comp sk = Some k \<longrightarrow> s_sorted sk' \<and> sorted_by (call k) (stack_list sk')))"
proof -
  have "stack_ok sk \<and> sorted_ok call sk" using assms(3)
  proof (induction rule: reached.induct)
    case new
    then show ?case
      by (auto simp: sk_new_def stack_ok_def sorted_ok_def stack_list_def kMinSize_def sizeof_ptr_def split: if_splits)
  next
    case insertion
    then show ?case using insert_kept by blast
  next
    case push
    then show ?case using insert_kept unfolding sk_push_def by blast
  next
    case deletion
    then show ?case using delete_kept by blast
  next
    case deletion_ptr
    then show ?case by (auto simp: sk_delete_ptr_def split: option.splits dest: delete_kept)
  next
    case pop
    then show ?case by (auto simp: sk_pop_def split: if_splits dest: delete_kept)
  next
    case shift
    then show ?case by (auto simp: sk_shift_def split: if_splits dest: delete_kept)
  next
    case zero
    then show ?case by (auto simp: sk_zero_def stack_ok_def sorted_ok_def split: if_splits)
  next
    case (dup sk g junk sk')
    then show ?case using sk_dup_spec [of sk g junk sk'] by (auto simp: sorted_ok_def split: option.splits)
  next
    case set_cmp
    then show ?case by (auto simp: sk_set_cmp_func_def stack_ok_def sorted_ok_def Let_def split: option.splits if_splits)
  next
    case sorting
    then show ?case using sort_kept [OF _ _ assms(1,2)] by fastforce
  next
    case setting
    then show ?case by (auto simp: sk_set_def stack_ok_def sorted_ok_def split: if_splits)
  next
    case deep_copy
    then show ?case using deep_copy_kept by blast
  qed
  then show ?thesis using sort_kept [where call = call, OF _ _ assms(1,2)] by blast
qed

lemma stack_sorted_invariant_witness:
  "\<exists>sk sk'. stack_list sk = [Some 7, Some 3, Some (5 :: int)] \<and> sk_sort c_qsort int_cmp (Some sk) = Some sk' \<and>
     s_sorted sk' \<and> sorted_by (int_cmp ()) (stack_list sk') \<and> mset (stack_list sk') = {#Some 3, Some 5, Some 7#}"
proof -
  let ?g = "\<lambda>_ :: nat. True"
  obtain s0 :: "(int, unit) stack" where s0: "sk_new ?g (Some ()) = Some s0" by (simp add: sk_new_def)
  have 0: "reached c_qsort int_cmp s0" using s0 by (rule reached.new)
  have four: "replicate 4 x = [x, x, x, x]" for x :: "int option" by (simp add: numeral_eq_Suc)
  have r0: "\<lparr>s_num = 0, s_data = [None, None, None, None], s_sorted = False, s_num_alloc = 4, s_comp = Some ()\<rparr> = s0"
    using s0 by (simp add: sk_new_def kMinSize_def four)
  obtain s1 n1 where s1: "sk_push ?g None s0 (Some 7) = (n1, Some s1)" "stack_list s1 = [Some 7]" "s_comp s1 = Some ()"
    using r0 [symmetric] by (auto simp: sk_push_def sk_insert_def stack_list_def)
  obtain s2 n2 where s2: "sk_push ?g None s1 (Some 3) = (n2, Some s2)" "stack_list s2 = [Some 7, Some 3]" "s_comp s2 = Some ()"
    using r0 [symmetric] s1(1) by (auto simp: sk_push_def sk_insert_def stack_list_def)
  obtain s3 n3 where s3: "sk_push ?g None s2 (Some 5) = (n3, Some s3)" "stack_list s3 = [Some 7, Some 3, Some 5]" "s_comp s3 = Some ()"
    using r0 [symmetric] s1(1) s2(1) by (auto simp: sk_push_def sk_insert_def stack_list_def)
  have "reached c_qsort int_cmp s3"
    using 0 s1(1) s2(1) s3(1) by (blast intro: reached.push)
  from stack_sorted_invariant [OF c_qsort_sorts int_cmp_consistent this] s3 show ?thesis
    by (auto simp: add_mset_commute)
qed

text \<open>C12: copying a stack deeply. Either every element is copied, and the copy has the
  copies of the elements in their order; or memory is refused and nothing is freed; or the copy of some
  element fails, and then exactly the copies made before it are freed, each once. No copy leaks.\<close>

theorem deep_copy_exact:
  assumes "stack_ok sk"
  shows "case sk_deep_copy g junk (Some sk) f of
     (Some sk', freed) \<Rightarrow> freed = [] \<and> stack_ok sk' \<and> s_comp sk' = s_comp sk \<and>
       stack_list sk' = copies f (stack_list sk) \<and>
       (\<forall>x \<in> set (stack_list sk). x \<noteq> None \<longrightarrow> Option.bind x f \<noteq> None)
   | (None, freed) \<Rightarrow>
       freed = [] \<and> (\<exists>n. \<not> g n) \<or>
       (\<exists>k < length (stack_list sk). stack_list sk ! k \<noteq> None \<and> Option.bind (stack_list sk ! k) f = None \<and>
          freed = pointers (copies f (take k (stack_list sk))))"
  using sk_deep_copy_spec [OF assms, where g = g and junk = junk and f = f] by (auto split: prod.splits option.splits)

lemma deep_copy_exact_witness:
  "snd (sk_deep_copy (\<lambda>_. True) None (Some (sample_stack 3 5 7)) (\<lambda>x. if x = 5 then None else Some (x + 1))) = [4]"
proof -
  let ?f = "\<lambda>x :: int. if x = 5 then None else Some (x + 1)"
  let ?L = "[Some 3, Some 5, Some 7] :: int option list"
  have one: "k = 1" if "k < length ?L" "Option.bind (?L ! k) ?f = None" for k
    using that by (auto simp: less_Suc_eq split: if_splits)
  obtain r freed where run: "sk_deep_copy (\<lambda>_. True) None (Some (sample_stack 3 5 7)) ?f = (r, freed)"
    by fastforce
  have "r = None \<and> (\<exists>k < length ?L. Option.bind (?L ! k) ?f = None \<and> freed = pointers (copies ?f (take k ?L)))"
    using deep_copy_exact [OF sample_stack_ok [of 3 5 7], where g = "\<lambda>_. True" and junk = None and f = ?f]
    unfolding run sample_stack_list by (cases r) auto
  then obtain k where "k < length ?L" "Option.bind (?L ! k) ?f = None" "freed = pointers (copies ?f (take k ?L))"
    by blast
  with one [of k] have "freed = [4]" by (simp add: copies_def)
  then show ?thesis by (simp add: run)
qed

text \<open>\<^verbatim>\<open>sk_set\<close> does not clear the flag. After \<^verbatim>\<open>sk_set\<close> a stack can claim to be
  sorted without being it, against the comment on the field \<^verbatim>\<open>sorted\<close> in \<^verbatim>\<open>stack.h\<close>, and then
  \<^verbatim>\<open>sk_find\<close> misses an element that is in the stack.\<close>

theorem sk_set_unsorts:
  "\<exists>sk sk'. stack_ok sk \<and> sorted_ok int_cmp sk \<and> sk_set (Some sk) 0 (Some 9) = (Some 9, Some sk') \<and>
     sk_is_sorted (Some sk') \<and> \<not> sorted_ok int_cmp sk' \<and>
     Some 9 \<in> set (stack_list sk') \<and> sk_find int_cmp (Some sk') (Some 9) = None"
proof (intro exI conjI)
  let ?sk = "sample_stack 3 5 7" and ?sk' = "sample_stack 9 5 7"
  show "stack_ok ?sk" by (rule sample_stack_ok)
  show "sorted_ok int_cmp ?sk"
    by (simp add: sorted_ok_def sample_stack_list sorted_by_def int_cmp_def split: option.splits)
  show "sk_set (Some ?sk) 0 (Some 9) = (Some 9, Some ?sk')"
    by (simp add: sk_set_def sample_stack_def)
  show "sk_is_sorted (Some ?sk')" by (simp add: sk_is_sorted_def sample_stack_def)
  have "s_comp ?sk' = Some ()" "s_sorted ?sk'" by (simp_all add: sample_stack_def)
  then show "\<not> sorted_ok int_cmp ?sk'"
    by (simp add: sorted_ok_def sample_stack_list sorted_by_def int_cmp_def)
  show "Some 9 \<in> set (stack_list ?sk')" by (simp add: sample_stack_list)
  show "sk_find int_cmp (Some ?sk') (Some 9) = None"
    by (simp add: sk_find_def sample_stack_def sk_is_sorted_def bsearch_loop.simps int_cmp_def)
qed

text \<open>Nor does \<^verbatim>\<open>sk_deep_copy\<close>, which copies the flag and then replaces the elements: if the copies do not
  compare like the elements, here because the copy function negates them, the copy claims to be sorted.\<close>

theorem deep_copy_unsorts:
  "\<exists>sk sk'. stack_ok sk \<and> sorted_ok int_cmp sk \<and>
     sk_deep_copy (\<lambda>_. True) None (Some sk) (\<lambda>x. Some (- x)) = (Some sk', []) \<and>
     sk_is_sorted (Some sk') \<and> \<not> sorted_ok int_cmp sk'"
proof -
  let ?sk = "sample_stack 3 5 7"
  have sorted: "sorted_ok int_cmp ?sk"
    by (simp add: sorted_ok_def sample_stack_list sorted_by_def int_cmp_def split: option.splits)
  obtain r freed where run: "sk_deep_copy (\<lambda>_. True) None (Some ?sk) (\<lambda>x. Some (- x)) = (r, freed)" by fastforce
  note spec = sk_deep_copy_spec [OF sample_stack_ok [of 3 5 7], where g = "\<lambda>_. True" and junk = None and f = "\<lambda>x. Some (- x)",
      unfolded run prod.case]
  obtain sk' where sk': "r = Some sk'" using spec by (cases r) (auto simp: sample_stack_list less_Suc_eq)
  have "stack_list sk' = [Some (- 3), Some (- 5), Some (- 7)]" "s_comp sk' = Some ()" "s_sorted sk'" "freed = []"
    using spec sk' by (simp_all add: sample_stack_list copies_def) (simp_all add: sample_stack_def)
  then have "sk_is_sorted (Some sk') \<and> \<not> sorted_ok int_cmp sk'"
    by (simp add: sk_is_sorted_def sorted_ok_def sorted_by_def int_cmp_def)
  then show ?thesis using sorted run sk' \<open>freed = []\<close> sample_stack_ok [of 3 5 7] by blast
qed

section \<open>The stack as a queue\<close>

inductive queue_step :: "('p, 'c) stack \<Rightarrow> 'p option transfer \<Rightarrow> ('p, 'c) stack \<Rightarrow> bool" where
  push: "sk_push g junk sk p = (n, Some sk') \<Longrightarrow> n \<noteq> 0 \<Longrightarrow> queue_step sk (Put [p]) sk'"
| shift: "sk_num (Some sk) \<noteq> 0 \<Longrightarrow> sk_shift (Some sk) = (p, Some sk') \<Longrightarrow> queue_step sk (Got [p]) sk'"

inductive_cases queue_putE: "queue_step sk (Put xs) sk'"
inductive_cases queue_gotE: "queue_step sk (Got xs) sk'"

lemma push_appends:
  assumes "stack_ok sk" "sk_push g junk sk p = (n, Some sk')" "n \<noteq> 0"
  shows "stack_ok sk' \<and> stack_list sk' = stack_list sk @ [p]"
  by (rule sk_insert_spec [OF assms(1), of g junk p "s_num sk"])
    (use assms in \<open>auto simp: sk_push_def insert_at_def\<close>)

lemma shift_takes:
  assumes "stack_ok sk" "sk_num (Some sk) \<noteq> 0" "sk_shift (Some sk) = (p, Some sk')"
  shows "stack_ok sk' \<and> stack_list sk = p # stack_list sk'"
  using sk_delete_spec(2) [OF assms(1), of 0] assms
  by (cases "stack_list sk") (auto simp: sk_shift_def sk_num_def delete_at_def dest: length_stack_list)

interpretation queue: fifo stack_ok stack_list queue_step
proof
  fix s t :: "('p, 'c) stack" and e
  assume "stack_ok s" "queue_step s e t"
  then show "stack_ok t"
    by (cases e) (auto elim!: queue_putE queue_gotE dest: push_appends [THEN conjunct1] shift_takes [THEN conjunct1])
qed (auto elim!: queue_putE queue_gotE dest: push_appends shift_takes)

text \<open>So what is shifted out is what was pushed, in order.\<close>

lemma stack_fifo:
  "run queue_step s es t \<Longrightarrow> stack_ok s \<Longrightarrow> stack_list s @ put_in es = got_out es @ stack_list t"
  by (rule queue.in_order)

end
