(* ===== verification/Lhash.thy ===== *)
theory Lhash
  imports Prelude Fifo "HOL-Library.Multiset"
begin

text \<open>
  The chained hash table of \<^verbatim>\<open>crypto/lhash/lhash.c\<close>. A chain is the list of its items, and
  the pointer to a \<^verbatim>\<open>next\<close> pointer that the code's searches return is a position in a chain: the
  length of the chain stands for the pointer to \<^verbatim>\<open>NULL\<close> at its end. \<open>g\<close> says which sizes the
  allocator grants. The callbacks are the fields \<open>hash_func\<close> and \<open>cmp_func\<close>.
\<close>

section \<open>The code\<close>

record 'd lhash_item =
  i_data :: 'd
  i_hash :: u32

type_synonym 'd chain = "'d lhash_item list"

record 'd lhash =
  num_items :: nat
  buckets :: "'d chain list"
  num_buckets :: nat
  callback_depth :: nat
  cmp_func :: "'d \<Rightarrow> 'd \<Rightarrow> int"
  hash_func :: "'d \<Rightarrow> u32"

definition kMinNumBuckets :: nat where "kMinNumBuckets = 16"
definition kMaxAverageChainLength :: nat where "kMaxAverageChainLength = 2"
definition kMinAverageChainLength :: nat where "kMinAverageChainLength = 1"

definition sizeof_LHASH :: nat where "sizeof_LHASH = 48"
definition sizeof_item :: nat where "sizeof_item = 24"
definition sizeof_item_ptr :: nat where "sizeof_item_ptr = 8"
definition UINT_MAX :: nat where "UINT_MAX = 2 ^ 32 - 1"

definition OPENSSL_lh_new ::
    "(nat \<Rightarrow> bool) \<Rightarrow> ('d \<Rightarrow> u32) \<Rightarrow> ('d \<Rightarrow> 'd \<Rightarrow> int) \<Rightarrow> 'd lhash option" where
  "OPENSSL_lh_new g hsh cmp =
    (if \<not> g sizeof_LHASH then None
     else if \<not> g (size_mul sizeof_item_ptr kMinNumBuckets) then None
     else Some \<lparr>num_items = 0, buckets = replicate kMinNumBuckets [], num_buckets = kMinNumBuckets,
                callback_depth = 0, cmp_func = cmp, hash_func = hsh\<rparr>)"

definition OPENSSL_lh_num_items :: "'d lhash \<Rightarrow> nat" where
  "OPENSSL_lh_num_items lh = num_items lh"

text \<open>The walk along a chain up to the first item that matches.\<close>

fun chain_search :: "('d lhash_item \<Rightarrow> bool) \<Rightarrow> 'd chain \<Rightarrow> nat" where
  "chain_search match [] = 0"
| "chain_search match (cur # rest) = (if match cur then 0 else Suc (chain_search match rest))"

text \<open>The hash, the bucket and the position in its chain.\<close>

definition get_next_ptr_and_hash :: "'d lhash \<Rightarrow> 'd \<Rightarrow> u32 \<times> nat \<times> nat" where
  "get_next_ptr_and_hash lh data =
    (let hsh = hash_func lh data;
         b = unat hsh mod num_buckets lh
     in (hsh, b, chain_search (\<lambda>cur. cmp_func lh (i_data cur) data = 0) (buckets lh ! b)))"

definition get_next_ptr_by_key :: "'d lhash \<Rightarrow> 'k \<Rightarrow> u32 \<Rightarrow> ('k \<Rightarrow> 'd \<Rightarrow> int) \<Rightarrow> nat \<times> nat" where
  "get_next_ptr_by_key lh key key_hash cmp_key =
    (let b = unat key_hash mod num_buckets lh
     in (b, chain_search (\<lambda>cur. cmp_key key (i_data cur) = 0) (buckets lh ! b)))"

text \<open>\<^verbatim>\<open>*next_ptr\<close>.\<close>

definition item_at :: "'d lhash \<Rightarrow> nat \<Rightarrow> nat \<Rightarrow> 'd lhash_item option" where
  "item_at lh b i = (if i < length (buckets lh ! b) then Some (buckets lh ! b ! i) else None)"

definition OPENSSL_lh_retrieve :: "'d lhash \<Rightarrow> 'd \<Rightarrow> 'd option" where
  "OPENSSL_lh_retrieve lh data =
    (let (_, b, i) = get_next_ptr_and_hash lh data in map_option i_data (item_at lh b i))"

definition OPENSSL_lh_retrieve_key :: "'d lhash \<Rightarrow> 'k \<Rightarrow> u32 \<Rightarrow> ('k \<Rightarrow> 'd \<Rightarrow> int) \<Rightarrow> 'd option" where
  "OPENSSL_lh_retrieve_key lh key key_hash cmp_key =
    (let (b, i) = get_next_ptr_by_key lh key key_hash cmp_key in map_option i_data (item_at lh b i))"

fun rebucket_chain :: "nat \<Rightarrow> 'd chain \<Rightarrow> 'd chain list \<Rightarrow> 'd chain list" where
  "rebucket_chain new_num_buckets [] new_buckets = new_buckets"
| "rebucket_chain new_num_buckets (cur # next) new_buckets =
    (let new_bucket = unat (i_hash cur) mod new_num_buckets
     in rebucket_chain new_num_buckets next
          (new_buckets[new_bucket := cur # new_buckets ! new_bucket]))"

fun rebucket_all :: "nat \<Rightarrow> 'd chain list \<Rightarrow> 'd chain list \<Rightarrow> 'd chain list" where
  "rebucket_all new_num_buckets [] new_buckets = new_buckets"
| "rebucket_all new_num_buckets (chain # rest) new_buckets =
    rebucket_all new_num_buckets rest (rebucket_chain new_num_buckets chain new_buckets)"

definition lh_rebucket :: "(nat \<Rightarrow> bool) \<Rightarrow> 'd lhash \<Rightarrow> nat \<Rightarrow> 'd lhash" where
  "lh_rebucket g lh new_num_buckets =
    (let alloc_size = size_mul sizeof_item_ptr new_num_buckets
     in if alloc_size div sizeof_item_ptr \<noteq> new_num_buckets then lh
        else if \<not> g alloc_size then lh
        else lh\<lparr>buckets := rebucket_all new_num_buckets (buckets lh) (replicate new_num_buckets []),
                num_buckets := new_num_buckets\<rparr>)"

definition lh_maybe_resize :: "(nat \<Rightarrow> bool) \<Rightarrow> 'd lhash \<Rightarrow> 'd lhash" where
  "lh_maybe_resize g lh =
    (if 0 < callback_depth lh then lh
     else
       let avg_chain_length = num_items lh div num_buckets lh
       in if kMaxAverageChainLength < avg_chain_length then
            (let new_num_buckets = size_mul (num_buckets lh) 2
             in if num_buckets lh < new_num_buckets then lh_rebucket g lh new_num_buckets else lh)
          else if avg_chain_length < kMinAverageChainLength \<and> kMinNumBuckets < num_buckets lh then
            (let new_num_buckets = num_buckets lh div 2;
                 new_num_buckets =
                   (if new_num_buckets < kMinNumBuckets then kMinNumBuckets else new_num_buckets)
             in lh_rebucket g lh new_num_buckets)
          else lh)"

text \<open>The result: success, the element replaced, the table.\<close>

definition OPENSSL_lh_insert :: "(nat \<Rightarrow> bool) \<Rightarrow> 'd lhash \<Rightarrow> 'd \<Rightarrow> bool \<times> 'd option \<times> 'd lhash" where
  "OPENSSL_lh_insert g lh data =
    (let (hsh, b, i) = get_next_ptr_and_hash lh data; chain = buckets lh ! b
     in case item_at lh b i of
          Some item \<Rightarrow>
            (True, Some (i_data item),
             lh\<lparr>buckets := (buckets lh)[b := chain[i := item\<lparr>i_data := data\<rparr>]]\<rparr>)
        | None \<Rightarrow>
            if \<not> g sizeof_item then (False, None, lh)
            else
              let item = \<lparr>i_data = data, i_hash = hsh\<rparr>;
                  lh = lh\<lparr>buckets := (buckets lh)[b := chain @ [item]],
                          num_items := size_add (num_items lh) 1\<rparr>
              in (True, None, lh_maybe_resize g lh))"

definition OPENSSL_lh_delete :: "(nat \<Rightarrow> bool) \<Rightarrow> 'd lhash \<Rightarrow> 'd \<Rightarrow> 'd option \<times> 'd lhash" where
  "OPENSSL_lh_delete g lh data =
    (let (_, b, i) = get_next_ptr_and_hash lh data; chain = buckets lh ! b
     in case item_at lh b i of
          None \<Rightarrow> (None, lh)
        | Some item \<Rightarrow>
            let lh = lh\<lparr>buckets := (buckets lh)[b := take i chain @ drop (i + 1) chain],
                        num_items := num_items lh - 1\<rparr>
            in (Some (i_data item), lh_maybe_resize g lh))"

text \<open>A callback that does not change the table: it maps its argument.\<close>

fun doall_chain :: "('d \<Rightarrow> 'a \<Rightarrow> 'a) \<Rightarrow> 'd chain \<Rightarrow> 'a \<Rightarrow> 'a" where
  "doall_chain func [] arg = arg"
| "doall_chain func (cur # next) arg = doall_chain func next (func (i_data cur) arg)"

fun doall_all :: "('d \<Rightarrow> 'a \<Rightarrow> 'a) \<Rightarrow> 'd chain list \<Rightarrow> 'a \<Rightarrow> 'a" where
  "doall_all func [] arg = arg"
| "doall_all func (chain # rest) arg = doall_all func rest (doall_chain func chain arg)"

definition OPENSSL_lh_doall_arg ::
    "(nat \<Rightarrow> bool) \<Rightarrow> 'd lhash option \<Rightarrow> ('d \<Rightarrow> 'a \<Rightarrow> 'a) \<Rightarrow> 'a \<Rightarrow> 'a \<times> 'd lhash option" where
  "OPENSSL_lh_doall_arg g lh func arg =
    (case lh of
       None \<Rightarrow> (arg, None)
     | Some lh \<Rightarrow>
         let lh = (if callback_depth lh < UINT_MAX
                   then lh\<lparr>callback_depth := callback_depth lh + 1\<rparr> else lh);
             arg = doall_all func (buckets lh) arg;
             lh = (if callback_depth lh < UINT_MAX
                   then lh\<lparr>callback_depth := callback_depth lh - 1\<rparr> else lh)
         in (arg, Some (lh_maybe_resize g lh)))"

section \<open>Invariant and contents\<close>

text \<open>Every item is in the bucket its hash selects.\<close>

definition placed :: "('d \<Rightarrow> u32) \<Rightarrow> 'd chain list \<Rightarrow> bool" where
  "placed hsh bs \<longleftrightarrow>
    (\<forall>b < length bs. \<forall>x \<in> set (bs ! b). i_hash x = hsh (i_data x) \<and> unat (hsh (i_data x)) mod length bs = b)"

definition lh_elems :: "'d lhash \<Rightarrow> 'd multiset" where
  "lh_elems lh = image_mset i_data (mset (concat (buckets lh)))"

definition lh_eq :: "'d lhash \<Rightarrow> 'd \<Rightarrow> 'd \<Rightarrow> bool" where
  "lh_eq lh x d \<longleftrightarrow> cmp_func lh x d = 0"

text \<open>What the code relies on of the callbacks.\<close>

definition callbacks_ok :: "'d lhash \<Rightarrow> bool" where
  "callbacks_ok lh \<longleftrightarrow> equivp (lh_eq lh) \<and> (\<forall>x d. lh_eq lh x d \<longrightarrow> hash_func lh x = hash_func lh d)"

definition lh_ok :: "'d lhash \<Rightarrow> bool" where
  "lh_ok lh \<longleftrightarrow>
    length (buckets lh) = num_buckets lh \<and> kMinNumBuckets \<le> num_buckets lh \<and>
    placed (hash_func lh) (buckets lh) \<and> num_items lh = size (lh_elems lh) \<and>
    (\<forall>d. size (filter_mset (\<lambda>x. lh_eq lh x d) (lh_elems lh)) \<le> 1)"

lemma chain_search_eq: "chain_search P xs = length (takeWhile (\<lambda>x. \<not> P x) xs)"
  by (induction xs) auto

lemma placedD:
  "placed hsh bs \<Longrightarrow> b < length bs \<Longrightarrow> x \<in> set (bs ! b) \<Longrightarrow>
   i_hash x = hsh (i_data x) \<and> unat (hsh (i_data x)) mod length bs = b"
  unfolding placed_def by blast

lemma mset_concat_update:
  "b < length bs \<Longrightarrow> mset (concat (bs[b := c])) + mset (bs ! b) = mset (concat bs) + mset c"
  by (induction bs arbitrary: b) (auto split: nat.splits)

text \<open>The bucket an element belongs to, and the item equal to it.\<close>

definition bucket_of :: "'d lhash \<Rightarrow> 'd \<Rightarrow> nat" where
  "bucket_of lh d = unat (hash_func lh d) mod num_buckets lh"

lemma bucket_of_less: "lh_ok lh \<Longrightarrow> bucket_of lh d < length (buckets lh)"
  by (auto simp: lh_ok_def bucket_of_def kMinNumBuckets_def)

lemma equal_in_bucket:
  assumes "lh_ok lh" "callbacks_ok lh" "x \<in># mset (concat (buckets lh))" "lh_eq lh (i_data x) d"
  shows "x \<in> set (buckets lh ! bucket_of lh d)"
proof -
  obtain b where b: "b < length (buckets lh)" "x \<in> set (buckets lh ! b)"
    using assms(3) by (auto simp: in_set_conv_nth) (metis in_set_conv_nth nth_mem)
  have "unat (hash_func lh (i_data x)) mod num_buckets lh = b"
    using placedD [of "hash_func lh" "buckets lh" b x] assms(1) b by (auto simp: lh_ok_def)
  moreover have "hash_func lh (i_data x) = hash_func lh d" using assms(2,4) by (simp add: callbacks_ok_def)
  ultimately show ?thesis using b by (simp add: bucket_of_def)
qed

lemma search_spec:
  assumes "lh_ok lh" "callbacks_ok lh"
  obtains i where "get_next_ptr_and_hash lh d = (hash_func lh d, bucket_of lh d, i)"
      "item_at lh (bucket_of lh d) i = None" "filter_mset (\<lambda>x. lh_eq lh x d) (lh_elems lh) = {#}"
    | i item where "get_next_ptr_and_hash lh d = (hash_func lh d, bucket_of lh d, i)"
      "item_at lh (bucket_of lh d) i = Some item" "i < length (buckets lh ! bucket_of lh d)"
      "buckets lh ! bucket_of lh d ! i = item" "lh_eq lh (i_data item) d"
      "filter_mset (\<lambda>x. lh_eq lh x d) (lh_elems lh) = {#i_data item#}"
proof -
  define c where "c = buckets lh ! bucket_of lh d"
  define i where "i = chain_search (\<lambda>cur. cmp_func lh (i_data cur) d = 0) c"
  have get: "get_next_ptr_and_hash lh d = (hash_func lh d, bucket_of lh d, i)"
    by (simp add: get_next_ptr_and_hash_def bucket_of_def c_def i_def Let_def)
  have i: "i = length (takeWhile (\<lambda>x. \<not> lh_eq lh (i_data x) d) c)"
    by (simp add: i_def chain_search_eq lh_eq_def)
  show thesis
  proof (cases "i < length c")
    case True
    then have eq: "lh_eq lh (i_data (c ! i)) d"
      using nth_length_takeWhile [of "\<lambda>x. \<not> lh_eq lh (i_data x) d" c] by (simp add: i)
    have "c ! i \<in># mset (concat (buckets lh))"
      using True bucket_of_less [OF assms(1)]
      by (auto simp: c_def intro!: bexI [of _ "buckets lh ! bucket_of lh d"])
    then have "i_data (c ! i) \<in># filter_mset (\<lambda>x. lh_eq lh x d) (lh_elems lh)"
      using eq by (auto simp: lh_elems_def)
    moreover have "size (filter_mset (\<lambda>x. lh_eq lh x d) (lh_elems lh)) \<le> 1"
      using assms(1) by (simp add: lh_ok_def)
    ultimately have single: "filter_mset (\<lambda>x. lh_eq lh x d) (lh_elems lh) = {#i_data (c ! i)#}"
      by (metis One_nat_def le_Suc_eq le_zero_eq multi_member_this size_1_singleton_mset size_eq_0_iff_empty
          empty_iff set_mset_empty single_eq_single insert_DiffM add_mset_eq_single)
    show ?thesis
      by (rule that(2) [OF get, of "c ! i"]) (use True eq single in \<open>simp_all add: item_at_def c_def\<close>)
  next
    case False
    then have none: "\<not> lh_eq lh (i_data x) d" if "x \<in> set c" for x
      using that i by (metis length_takeWhile_le le_antisym not_le takeWhile_eq_all_conv
          takeWhile_eq_take take_all_iff order_refl)
    have "filter_mset (\<lambda>x. lh_eq lh x d) (lh_elems lh) = {#}"
    proof -
      have "set_mset (filter_mset (\<lambda>x. lh_eq lh x d) (lh_elems lh)) = {}"
        using none equal_in_bucket [OF assms, of _ d] by (auto simp: lh_elems_def c_def)
      then show ?thesis by simp
    qed
    with False show ?thesis by (intro that(1) [OF get]) (simp_all add: item_at_def c_def)
  qed
qed

section \<open>Resizing\<close>

lemma placed_update:
  assumes "placed hsh bs" "b < length bs" "\<And>x. x \<in> set c \<Longrightarrow> i_hash x = hsh (i_data x) \<and> unat (hsh (i_data x)) mod length bs = b"
  shows "placed hsh (bs[b := c])"
  using assms unfolding placed_def by (auto simp: nth_list_update)

lemma rebucket_chain_spec:
  assumes "placed hsh nb" "length nb = n" "0 < n" "\<forall>x \<in> set c. i_hash x = hsh (i_data x)"
  shows "placed hsh (rebucket_chain n c nb) \<and> length (rebucket_chain n c nb) = n \<and>
    mset (concat (rebucket_chain n c nb)) = mset c + mset (concat nb)"
  using assms
proof (induction c arbitrary: nb)
  case (Cons x c)
  define b where "b = unat (hsh (i_data x)) mod n"
  have b: "b < length nb" using Cons.prems by (simp add: b_def)
  define nb' where "nb' = nb[b := x # nb ! b]"
  have "placed hsh nb'" unfolding nb'_def
  proof (rule placed_update [OF Cons.prems(1) b])
    fix y assume "y \<in> set (x # nb ! b)"
    then consider "y = x" | "y \<in> set (nb ! b)" by auto
    then show "i_hash y = hsh (i_data y) \<and> unat (hsh (i_data y)) mod length nb = b"
    proof cases
      case 1
      then show ?thesis using Cons.prems by (simp add: b_def)
    qed (use placedD [OF Cons.prems(1) b] in blast)
  qed
  moreover have "mset (concat nb') = add_mset x (mset (concat nb))"
    using mset_concat_update [OF b, of "x # nb ! b"] by (simp add: nb'_def)
  ultimately show ?case using Cons.IH [of nb'] Cons.prems
    by (simp add: Let_def nb'_def flip: b_def)
qed simp

lemma rebucket_all_spec:
  assumes "placed hsh nb" "length nb = n" "0 < n" "\<forall>c \<in> set bs. \<forall>x \<in> set c. i_hash x = hsh (i_data x)"
  shows "placed hsh (rebucket_all n bs nb) \<and> length (rebucket_all n bs nb) = n \<and>
    mset (concat (rebucket_all n bs nb)) = mset (concat bs) + mset (concat nb)"
  using assms
proof (induction bs arbitrary: nb)
  case (Cons c bs)
  have "placed hsh (rebucket_chain n c nb)" "length (rebucket_chain n c nb) = n"
    "mset (concat (rebucket_chain n c nb)) = mset c + mset (concat nb)"
    using rebucket_chain_spec [of hsh nb n c] Cons.prems by auto
  then show ?case using Cons.IH [of "rebucket_chain n c nb"] Cons.prems by simp
qed simp

text \<open>Resizing changes neither the elements nor the callbacks.\<close>

lemma rebucket_ok:
  assumes "lh_ok lh" "kMinNumBuckets \<le> n"
  shows "lh_ok (lh_rebucket g lh n) \<and> lh_elems (lh_rebucket g lh n) = lh_elems lh \<and>
    cmp_func (lh_rebucket g lh n) = cmp_func lh \<and> hash_func (lh_rebucket g lh n) = hash_func lh"
proof -
  have hashes: "\<forall>c \<in> set (buckets lh). \<forall>x \<in> set c. i_hash x = hash_func lh (i_data x)"
    using assms(1) placedD unfolding lh_ok_def by (metis in_set_conv_nth)
  have "placed (hash_func lh) (replicate n [])" by (simp add: placed_def)
  from rebucket_all_spec [OF this _ _ hashes, of n] assms(2)
  have r: "placed (hash_func lh) (rebucket_all n (buckets lh) (replicate n []))"
    "length (rebucket_all n (buckets lh) (replicate n [])) = n"
    "mset (concat (rebucket_all n (buckets lh) (replicate n []))) = mset (concat (buckets lh))"
    by (simp_all add: kMinNumBuckets_def)
  note len = mset_eq_length [OF r(3)]
  show ?thesis using r len assms
    by (auto simp: lh_rebucket_def Let_def lh_ok_def lh_elems_def lh_eq_def)
qed

lemma maybe_resize_ok:
  assumes "lh_ok lh"
  shows "lh_ok (lh_maybe_resize g lh) \<and> lh_elems (lh_maybe_resize g lh) = lh_elems lh \<and>
    cmp_func (lh_maybe_resize g lh) = cmp_func lh \<and> hash_func (lh_maybe_resize g lh) = hash_func lh"
proof -
  have "kMinNumBuckets \<le> num_buckets lh" using assms by (simp add: lh_ok_def)
  then show ?thesis using assms rebucket_ok [OF assms]
    by (simp add: lh_maybe_resize_def Let_def)
qed

section \<open>The operations\<close>

definition others :: "'d lhash \<Rightarrow> 'd \<Rightarrow> 'd multiset" where
  "others lh d = filter_mset (\<lambda>x. \<not> lh_eq lh x d) (lh_elems lh)"

lemma elems_split: "lh_elems lh = filter_mset (\<lambda>x. lh_eq lh x d) (lh_elems lh) + others lh d"
  unfolding others_def by (rule multiset_partition)

lemma lh_eq_refl [simp]: "callbacks_ok lh \<Longrightarrow> lh_eq lh d d"
  by (simp add: callbacks_ok_def equivp_reflp)

lemma lh_eq_class: "callbacks_ok lh \<Longrightarrow> lh_eq lh d e \<Longrightarrow> lh_eq lh x e \<longleftrightarrow> lh_eq lh x d"
  unfolding callbacks_ok_def by (metis equivp_symp equivp_transp)

lemma unique_others:
  assumes "lh_ok lh"
  shows "size (filter_mset (\<lambda>x. lh_eq lh x e) (others lh d)) \<le> 1"
proof -
  have "filter_mset (\<lambda>x. lh_eq lh x e) (others lh d) \<subseteq># filter_mset (\<lambda>x. lh_eq lh x e) (lh_elems lh)"
    unfolding others_def by (intro multiset_filter_mono) simp
  then show ?thesis using assms size_mset_mono le_trans unfolding lh_ok_def by blast
qed

lemma unique_replaced:
  assumes "lh_ok lh" "callbacks_ok lh"
  shows "size (filter_mset (\<lambda>x. lh_eq lh x e) (add_mset d (others lh d))) \<le> 1"
proof (cases "lh_eq lh d e")
  case True
  have "set_mset (filter_mset (\<lambda>x. lh_eq lh x e) (others lh d)) = {}"
    using lh_eq_class [OF assms(2) True] by (auto simp: others_def)
  then have "filter_mset (\<lambda>x. lh_eq lh x e) (others lh d) = {#}" by simp
  then show ?thesis using True by simp
next
  case False
  then show ?thesis using unique_others [OF assms(1), of e d] by simp
qed

lemma retrieve_spec:
  assumes "lh_ok lh" "callbacks_ok lh"
  shows "OPENSSL_lh_retrieve lh d = Some x \<longleftrightarrow> x \<in># lh_elems lh \<and> lh_eq lh x d"
proof -
  have in_filter: "x \<in># lh_elems lh \<and> lh_eq lh x d \<longleftrightarrow> x \<in># filter_mset (\<lambda>x. lh_eq lh x d) (lh_elems lh)"
    by auto
  show ?thesis unfolding in_filter
    by (rule search_spec [OF assms, of d]) (auto simp: OPENSSL_lh_retrieve_def)
qed

lemma elems_update:
  assumes "b < length (buckets lh)"
  shows "image_mset i_data (mset (concat ((buckets lh)[b := c]))) + image_mset i_data (mset (buckets lh ! b)) =
    lh_elems lh + image_mset i_data (mset c)"
  using arg_cong [OF mset_concat_update [OF assms, of c], of "image_mset i_data"]
  by (simp add: lh_elems_def)

lemma placed_in_bucket:
  assumes "lh_ok lh" "b < length (buckets lh)" "x \<in> set (buckets lh ! b)"
  shows "i_hash x = hash_func lh (i_data x)" "unat (hash_func lh (i_data x)) mod length (buckets lh) = b"
  using assms placedD [of "hash_func lh" "buckets lh" b x] by (auto simp: lh_ok_def)

lemma insert_spec:
  assumes ok: "lh_ok lh" "callbacks_ok lh" and room: "num_items lh + 1 < 2 ^ 64"
  shows "case OPENSSL_lh_insert g lh d of (ok, old, lh') \<Rightarrow>
    (if ok
     then old = OPENSSL_lh_retrieve lh d \<and> lh_ok lh' \<and> lh_elems lh' = add_mset d (others lh d) \<and>
       cmp_func lh' = cmp_func lh \<and> hash_func lh' = hash_func lh
     else lh' = lh \<and> old = None \<and> OPENSSL_lh_retrieve lh d = None \<and> \<not> g sizeof_item)"
proof -
  define b where "b = bucket_of lh d"
  have b: "b < length (buckets lh)" using bucket_of_less [OF ok(1)] by (simp add: b_def)
  have n: "length (buckets lh) = num_buckets lh" using ok(1) by (simp add: lh_ok_def)
  have here: "unat (hash_func lh d) mod length (buckets lh) = b" by (simp add: b_def bucket_of_def n)
  show ?thesis
  proof (rule search_spec [OF ok, of d], fold b_def)
    fix i assume s: "get_next_ptr_and_hash lh d = (hash_func lh d, b, i)" "item_at lh b i = None"
      "filter_mset (\<lambda>x. lh_eq lh x d) (lh_elems lh) = {#}"
    have oth: "others lh d = lh_elems lh" using elems_split [of lh d] s(3) by simp
    define lh1 where "lh1 = lh\<lparr>buckets := (buckets lh)[b := buckets lh ! b @ [\<lparr>i_data = d, i_hash = hash_func lh d\<rparr>]],
        num_items := num_items lh + 1\<rparr>"
    have same: "lh_eq lh1 = lh_eq lh" by (intro ext) (simp add: lh_eq_def lh1_def)
    have elems: "lh_elems lh1 = add_mset d (lh_elems lh)"
      using elems_update [OF b, of "buckets lh ! b @ [\<lparr>i_data = d, i_hash = hash_func lh d\<rparr>]"]
      by (simp add: lh1_def lh_elems_def)
    have "placed (hash_func lh) (buckets lh1)" unfolding lh1_def
      using ok(1) b placed_in_bucket [OF ok(1) b] here by (auto simp: lh_ok_def intro!: placed_update)
    moreover have "size (filter_mset (\<lambda>x. lh_eq lh1 x e) (lh_elems lh1)) \<le> 1" for e
      using unique_replaced [OF ok, of e d] unfolding elems same oth .
    moreover have "num_items lh1 = size (lh_elems lh1)" unfolding elems using ok(1) by (simp add: lh_ok_def lh1_def)
    ultimately have "lh_ok lh1" using ok(1) by (simp add: lh_ok_def) (simp add: lh1_def)
    from maybe_resize_ok [OF this, of g] elems show ?thesis
      using s room by (auto simp: OPENSSL_lh_insert_def OPENSSL_lh_retrieve_def Let_def oth lh1_def)
  next
    fix i item assume s: "get_next_ptr_and_hash lh d = (hash_func lh d, b, i)" "item_at lh b i = Some item"
      "i < length (buckets lh ! b)" "buckets lh ! b ! i = item" "lh_eq lh (i_data item) d"
      "filter_mset (\<lambda>x. lh_eq lh x d) (lh_elems lh) = {#i_data item#}"
    have oth: "lh_elems lh = add_mset (i_data item) (others lh d)" using elems_split [of lh d] s(6) by simp
    define lh1 where "lh1 = lh\<lparr>buckets := (buckets lh)[b := (buckets lh ! b)[i := item\<lparr>i_data := d\<rparr>]]\<rparr>"
    have same: "lh_eq lh1 = lh_eq lh" by (intro ext) (simp add: lh_eq_def lh1_def)
    define m where "m = mset (buckets lh ! b) - {#item#}"
    have chain: "mset (buckets lh ! b) = add_mset item m"
      using s(3,4) nth_mem unfolding m_def by (metis insert_DiffM in_multiset_in_set)
    have "mset ((buckets lh ! b)[i := item\<lparr>i_data := d\<rparr>]) = add_mset (item\<lparr>i_data := d\<rparr>) m"
      using s(3,4) by (simp add: mset_update m_def)
    then have "image_mset i_data (mset ((buckets lh ! b)[i := item\<lparr>i_data := d\<rparr>])) = add_mset d (image_mset i_data m)"
      by simp
    with elems_update [OF b, of "(buckets lh ! b)[i := item\<lparr>i_data := d\<rparr>]"]
    have "lh_elems lh1 + add_mset (i_data item) (image_mset i_data m) =
        lh_elems lh + add_mset d (image_mset i_data m)"
      by (simp add: lh1_def lh_elems_def chain)
    then have elems: "lh_elems lh1 = add_mset d (others lh d)" unfolding oth by simp
    have hash: "hash_func lh (i_data item) = hash_func lh d" using ok(2) s(5) by (simp add: callbacks_ok_def)
    then have "placed (hash_func lh) (buckets lh1)" unfolding lh1_def
    proof (simp, intro placed_update)
      fix x assume "x \<in> set ((buckets lh ! b)[i := item\<lparr>i_data := d\<rparr>])"
      then have "x = item\<lparr>i_data := d\<rparr> \<or> x \<in> set (buckets lh ! b)" using set_update_subset_insert by fastforce
      moreover have "item \<in> set (buckets lh ! b)" using s(3,4) by auto
      ultimately show "i_hash x = hash_func lh (i_data x) \<and> unat (hash_func lh (i_data x)) mod length (buckets lh) = b"
        using placed_in_bucket [OF ok(1) b] here hash by auto
    qed (use ok(1) b in \<open>simp_all add: lh_ok_def\<close>)
    moreover have "size (filter_mset (\<lambda>x. lh_eq lh1 x e) (lh_elems lh1)) \<le> 1" for e
      using unique_replaced [OF ok, of e d] unfolding elems same .
    moreover have "num_items lh1 = size (lh_elems lh1)" unfolding elems using ok(1) oth by (simp add: lh_ok_def lh1_def)
    ultimately have "lh_ok lh1" using ok(1) by (simp add: lh_ok_def) (simp add: lh1_def)
    then show ?thesis using s elems
      by (auto simp: OPENSSL_lh_insert_def OPENSSL_lh_retrieve_def Let_def lh1_def)
  qed
qed

lemma delete_spec:
  assumes ok: "lh_ok lh" "callbacks_ok lh"
  shows "case OPENSSL_lh_delete g lh d of (old, lh') \<Rightarrow>
    old = OPENSSL_lh_retrieve lh d \<and> lh_ok lh' \<and> lh_elems lh' = others lh d \<and>
    cmp_func lh' = cmp_func lh \<and> hash_func lh' = hash_func lh"
proof -
  define b where "b = bucket_of lh d"
  have b: "b < length (buckets lh)" using bucket_of_less [OF ok(1)] by (simp add: b_def)
  show ?thesis
  proof (rule search_spec [OF ok, of d], fold b_def)
    fix i assume s: "get_next_ptr_and_hash lh d = (hash_func lh d, b, i)" "item_at lh b i = None"
      "filter_mset (\<lambda>x. lh_eq lh x d) (lh_elems lh) = {#}"
    have "others lh d = lh_elems lh" using elems_split [of lh d] s(3) by simp
    then show ?thesis using s ok(1) by (simp add: OPENSSL_lh_delete_def OPENSSL_lh_retrieve_def Let_def)
  next
    fix i item assume s: "get_next_ptr_and_hash lh d = (hash_func lh d, b, i)" "item_at lh b i = Some item"
      "i < length (buckets lh ! b)" "buckets lh ! b ! i = item" "lh_eq lh (i_data item) d"
      "filter_mset (\<lambda>x. lh_eq lh x d) (lh_elems lh) = {#i_data item#}"
    have oth: "lh_elems lh = add_mset (i_data item) (others lh d)" using elems_split [of lh d] s(6) by simp
    define c where "c = take i (buckets lh ! b) @ drop (i + 1) (buckets lh ! b)"
    define lh1 where "lh1 = lh\<lparr>buckets := (buckets lh)[b := c], num_items := num_items lh - 1\<rparr>"
    have same: "lh_eq lh1 = lh_eq lh" by (intro ext) (simp add: lh_eq_def lh1_def)
    have "mset (buckets lh ! b) = add_mset item (mset c)"
      using id_take_nth_drop [OF s(3)] s(4) unfolding c_def
      by (metis Suc_eq_plus1 mset_append mset.simps(2) union_mset_add_mset_right)
    then have elems: "lh_elems lh1 = others lh d"
      using elems_update [OF b, of c] oth by (simp add: lh1_def lh_elems_def)
    have "set c \<subseteq> set (buckets lh ! b)"
      unfolding c_def by (auto dest: in_set_takeD in_set_dropD)
    then have "placed (hash_func lh) (buckets lh1)" unfolding lh1_def
      using ok(1) b placed_in_bucket [OF ok(1) b] by (auto simp: lh_ok_def intro!: placed_update)
    moreover have "size (filter_mset (\<lambda>x. lh_eq lh1 x e) (lh_elems lh1)) \<le> 1" for e
      using unique_others [OF ok(1), of e d] unfolding elems same .
    moreover have "num_items lh1 = size (lh_elems lh1)" unfolding elems using ok(1) oth by (simp add: lh_ok_def lh1_def)
    ultimately have "lh_ok lh1" using ok(1) by (simp add: lh_ok_def) (simp add: lh1_def)
    from maybe_resize_ok [OF this, of g] elems show ?thesis
      using s by (auto simp: OPENSSL_lh_delete_def OPENSSL_lh_retrieve_def Let_def lh1_def c_def)
  qed
qed

section \<open>A table of elements up to equality\<close>

lemma lh_eq_sym: "callbacks_ok lh \<Longrightarrow> lh_eq lh x y \<Longrightarrow> lh_eq lh y x"
  unfolding callbacks_ok_def by (metis equivp_symp)

lemma lh_eq_trans: "callbacks_ok lh \<Longrightarrow> lh_eq lh x y \<Longrightarrow> lh_eq lh y z \<Longrightarrow> lh_eq lh x z"
  unfolding callbacks_ok_def by (metis equivp_transp)

datatype 'd table_op = Insert 'd | Delete 'd

text \<open>The map a sequence of operations builds.\<close>

fun replay :: "('d \<Rightarrow> 'd \<Rightarrow> bool) \<Rightarrow> 'd table_op list \<Rightarrow> ('d \<Rightarrow> 'd option) \<Rightarrow> 'd \<Rightarrow> 'd option" where
  "replay eq [] m = m"
| "replay eq (Insert x # es) m = replay eq es (\<lambda>d. if eq x d then Some x else m d)"
| "replay eq (Delete x # es) m = replay eq es (\<lambda>d. if eq x d then None else m d)"

text \<open>The interface of a table, whatever stores it.\<close>

locale table =
  fixes ok :: "'s \<Rightarrow> bool"
    and equal :: "'s \<Rightarrow> 'd \<Rightarrow> 'd \<Rightarrow> bool"
    and lookup :: "'s \<Rightarrow> 'd \<Rightarrow> 'd option"
    and step :: "'s \<Rightarrow> 'd table_op \<Rightarrow> 's \<Rightarrow> bool"
  assumes step_ok: "ok s \<Longrightarrow> step s e t \<Longrightarrow> ok t"
    and step_equal: "ok s \<Longrightarrow> step s e t \<Longrightarrow> equal t = equal s"
    and lookup_insert: "ok s \<Longrightarrow> step s (Insert x) t \<Longrightarrow>
      lookup t = (\<lambda>d. if equal s x d then Some x else lookup s d)"
    and lookup_delete: "ok s \<Longrightarrow> step s (Delete x) t \<Longrightarrow>
      lookup t = (\<lambda>d. if equal s x d then None else lookup s d)"
begin

lemma run_ok: "run step s es t \<Longrightarrow> ok s \<Longrightarrow> ok t"
  by (induction rule: run.induct) (auto intro: step_ok)

lemma lookup_run: "run step s es t \<Longrightarrow> ok s \<Longrightarrow> lookup t = replay (equal s) es (lookup s)"
proof (induction rule: run.induct)
  case (run_Cons s e t es u)
  then have "lookup u = replay (equal t) es (lookup t)" "equal t = equal s"
    using step_ok step_equal by blast+
  then show ?case using run_Cons.hyps run_Cons.prems
    by (cases e) (simp_all add: lookup_insert lookup_delete)
qed simp

end

text \<open>A step of the hash table: an insertion that succeeds, or a deletion. Every item takes
  memory, so their number stays below the size of the address space.\<close>

inductive lh_step :: "'d lhash \<Rightarrow> 'd table_op \<Rightarrow> 'd lhash \<Rightarrow> bool" where
  insert: "num_items lh + 1 < 2 ^ 64 \<Longrightarrow> OPENSSL_lh_insert g lh d = (True, old, lh') \<Longrightarrow> lh_step lh (Insert d) lh'"
| delete: "OPENSSL_lh_delete g lh d = (old, lh') \<Longrightarrow> lh_step lh (Delete d) lh'"

inductive_cases lh_insertE: "lh_step lh (Insert d) lh'"
inductive_cases lh_deleteE: "lh_step lh (Delete d) lh'"

lemma callbacks_cong:
  "cmp_func lh' = cmp_func lh \<Longrightarrow> hash_func lh' = hash_func lh \<Longrightarrow>
   lh_eq lh' = lh_eq lh \<and> callbacks_ok lh' = callbacks_ok lh"
proof -
  assume a: "cmp_func lh' = cmp_func lh" "hash_func lh' = hash_func lh"
  have "lh_eq lh' = lh_eq lh" by (intro ext) (simp add: lh_eq_def a)
  then show ?thesis by (simp add: callbacks_ok_def a)
qed

lemma insert_step:
  assumes "lh_ok lh" "callbacks_ok lh" "lh_step lh (Insert d) lh'"
  shows "lh_ok lh' \<and> lh_elems lh' = add_mset d (others lh d) \<and> lh_eq lh' = lh_eq lh \<and> callbacks_ok lh'"
proof -
  obtain g old where "num_items lh + 1 < 2 ^ 64" "OPENSSL_lh_insert g lh d = (True, old, lh')"
    using assms(3) by (auto elim!: lh_insertE)
  with insert_spec [OF assms(1,2), where g = g and d = d] callbacks_cong [of lh' lh] assms(2)
  show ?thesis by simp
qed

lemma delete_step:
  assumes "lh_ok lh" "callbacks_ok lh" "lh_step lh (Delete d) lh'"
  shows "lh_ok lh' \<and> lh_elems lh' = others lh d \<and> lh_eq lh' = lh_eq lh \<and> callbacks_ok lh'"
proof -
  obtain g old where "OPENSSL_lh_delete g lh d = (old, lh')" using assms(3) by (auto elim!: lh_deleteE)
  with delete_spec [OF assms(1,2), where g = g and d = d] callbacks_cong [of lh' lh] assms(2)
  show ?thesis by simp
qed

lemma lookup_determined:
  assumes "\<And>x. f = Some x \<longleftrightarrow> g = Some x"
  shows "f = g"
  using assms by (metis not_None_eq)

lemma others_iff: "x \<in># others lh d \<longleftrightarrow> x \<in># lh_elems lh \<and> \<not> lh_eq lh x d"
  by (auto simp: others_def)

interpretation lh: table "\<lambda>lh. lh_ok lh \<and> callbacks_ok lh" lh_eq OPENSSL_lh_retrieve lh_step
proof
  fix s t :: "'a lhash" and e
  assume "lh_ok s \<and> callbacks_ok s" "lh_step s e t"
  then show "lh_ok t \<and> callbacks_ok t" "lh_eq t = lh_eq s"
    using insert_step [of s _ t] delete_step [of s _ t] by (cases e; simp)+
next
  fix s t :: "'a lhash" and x
  assume s: "lh_ok s \<and> callbacks_ok s" and step: "lh_step s (Insert x) t"
  have t: "lh_ok t" "callbacks_ok t" "lh_elems t = add_mset x (others s x)" "lh_eq t = lh_eq s"
    using insert_step [OF _ _ step] s by simp_all
  show "OPENSSL_lh_retrieve t = (\<lambda>d. if lh_eq s x d then Some x else OPENSSL_lh_retrieve s d)"
  proof (intro ext lookup_determined)
    fix d y
    show "OPENSSL_lh_retrieve t d = Some y \<longleftrightarrow>
        (if lh_eq s x d then Some x else OPENSSL_lh_retrieve s d) = Some y"
      using s lh_eq_trans [of s y x d] lh_eq_trans [of s y d x] lh_eq_trans [of s x y d] lh_eq_sym [of s x d]
        lh_eq_sym [of s y x]
      by (auto simp: retrieve_spec [OF t(1,2)] retrieve_spec t(3,4) others_iff)
  qed
next
  fix s t :: "'a lhash" and x
  assume s: "lh_ok s \<and> callbacks_ok s" and step: "lh_step s (Delete x) t"
  have t: "lh_ok t" "callbacks_ok t" "lh_elems t = others s x" "lh_eq t = lh_eq s"
    using delete_step [OF _ _ step] s by simp_all
  show "OPENSSL_lh_retrieve t = (\<lambda>d. if lh_eq s x d then None else OPENSSL_lh_retrieve s d)"
  proof (intro ext lookup_determined)
    fix d y
    show "OPENSSL_lh_retrieve t d = Some y \<longleftrightarrow>
        (if lh_eq s x d then None else OPENSSL_lh_retrieve s d) = Some y"
      using s lh_eq_trans [of s y x d] lh_eq_trans [of s y d x] lh_eq_trans [of s x y d] lh_eq_sym [of s x d]
        lh_eq_sym [of s y x]
      by (auto simp: retrieve_spec [OF t(1,2)] retrieve_spec t(3,4) others_iff)
  qed
qed

section \<open>Properties\<close>

text \<open>C13: the hash table is a map. After any sequence of successful insertions and of
  deletions a lookup returns what the map of these operations gives, a later element replacing one that
  compares equal; resizing, collisions and the order of the chains never show.\<close>

theorem lhash_is_map:
  "run lh_step lh ops lh' \<Longrightarrow> lh_ok lh \<and> callbacks_ok lh \<Longrightarrow>
   OPENSSL_lh_retrieve lh' = replay (lh_eq lh) ops (OPENSSL_lh_retrieve lh)"
  by (rule lh.lookup_run)

definition empty_table :: "nat lhash" where
  "empty_table = \<lparr>num_items = 0, buckets = replicate kMinNumBuckets [], num_buckets = kMinNumBuckets,
     callback_depth = 0, cmp_func = (\<lambda>a b. int a - int b), hash_func = of_nat\<rparr>"

lemma new_table: "OPENSSL_lh_new (\<lambda>_. True) of_nat (\<lambda>a b. int a - int b) = Some empty_table"
  by (simp add: OPENSSL_lh_new_def empty_table_def)

lemma new_ok:
  assumes "OPENSSL_lh_new g hsh cmp = Some lh"
  shows "lh_ok lh \<and> lh_elems lh = {#} \<and> cmp_func lh = cmp \<and> hash_func lh = hsh"
proof -
  have lh: "lh = \<lparr>num_items = 0, buckets = replicate kMinNumBuckets [], num_buckets = kMinNumBuckets,
      callback_depth = 0, cmp_func = cmp, hash_func = hsh\<rparr>"
    using assms by (simp add: OPENSSL_lh_new_def split: if_splits)
  moreover have "mset (concat (replicate n [])) = {#}" for n by (induction n) simp_all
  moreover have "placed hsh (replicate n [])" for n by (simp add: placed_def)
  ultimately show ?thesis by (simp add: lh_ok_def lh_elems_def)
qed

lemma empty_table_ok: "lh_ok empty_table \<and> callbacks_ok empty_table"
proof -
  have "equivp (lh_eq empty_table)"
    by (rule equivpI) (auto simp: lh_eq_def empty_table_def reflp_def symp_def transp_def)
  then have "callbacks_ok empty_table" by (simp add: callbacks_ok_def) (simp add: lh_eq_def empty_table_def)
  then show ?thesis using new_ok [OF new_table] by simp
qed

lemma lhash_is_map_witness:
  "\<exists>lh'. run lh_step empty_table [Insert 5, Insert 21, Delete 5] lh' \<and>
     OPENSSL_lh_retrieve lh' 21 = Some 21 \<and> OPENSSL_lh_retrieve lh' 5 = None"
proof -
  have ins: "\<exists>t. lh_step s (Insert d) t \<and> lh_ok t \<and> callbacks_ok t \<and> size (lh_elems t) \<le> Suc (size (lh_elems s))"
    if s: "lh_ok s" "callbacks_ok s" "size (lh_elems s) < 9" for s :: "nat lhash" and d
  proof -
    obtain ok old t where t: "OPENSSL_lh_insert (\<lambda>_. True) s d = (ok, old, t)" by (metis prod_cases3)
    have n: "num_items s + 1 < 2 ^ 64" using s by (simp add: lh_ok_def)
    have ok using insert_spec [OF s(1,2) n, where g = "\<lambda>_. True" and d = d] t by (simp split: if_splits)
    then have step: "lh_step s (Insert d) t" using lh_step.insert [OF n] t by simp
    have "size (others s d) \<le> size (lh_elems s)" by (simp add: others_def size_filter_mset_lesseq)
    then show ?thesis using step insert_step [OF s(1,2) step] by auto
  qed
  have e: "size (lh_elems empty_table) = 0" using new_ok [OF new_table] by simp
  obtain s1 where s1: "lh_step empty_table (Insert 5) s1" "lh_ok s1" "callbacks_ok s1" "size (lh_elems s1) \<le> 1"
    using ins [of empty_table 5] empty_table_ok e by auto
  obtain s2 where s2: "lh_step s1 (Insert 21) s2" "lh_ok s2" "callbacks_ok s2" using ins [of s1 21] s1 by auto
  obtain old s3 where "OPENSSL_lh_delete (\<lambda>_. True) s2 5 = (old, s3)" by fastforce
  then have s3: "lh_step s2 (Delete 5) s3" by (rule lh_step.delete)
  have r: "run lh_step empty_table [Insert 5, Insert 21, Delete 5] s3"
    using s1(1) s2(1) s3 by (auto intro!: run.intros)
  from lhash_is_map [OF r empty_table_ok] r show ?thesis
    by (auto simp: lh_eq_def empty_table_def)
qed

text \<open>Every operation on its own. Insertion returns the element it replaces and keeps all
  others, or fails without a change, and only when the allocator refuses the item; deletion returns the
  element it removes; \<^verbatim>\<open>num_items\<close>, the place of every item and the uniqueness of elements up to
  equality are invariants, and no operation leaves fewer than \<^verbatim>\<open>kMinNumBuckets\<close> buckets.\<close>

theorem lhash_invariant:
  assumes "lh_ok lh" "callbacks_ok lh" "num_items lh + 1 < 2 ^ 64"
  shows "(case OPENSSL_lh_insert g lh d of (ok, old, lh') \<Rightarrow>
      lh_ok lh' \<and> old = (if ok then OPENSSL_lh_retrieve lh d else None) \<and>
      (if ok then lh_elems lh' = add_mset d (others lh d) else lh' = lh \<and> \<not> g sizeof_item)) \<and>
    (case OPENSSL_lh_delete g lh d of (old, lh') \<Rightarrow>
      lh_ok lh' \<and> old = OPENSSL_lh_retrieve lh d \<and> lh_elems lh' = others lh d) \<and>
    (lh_ok lh \<longrightarrow> OPENSSL_lh_num_items lh = size (lh_elems lh) \<and> kMinNumBuckets \<le> length (buckets lh))"
  using insert_spec [OF assms, where g = g and d = d] delete_spec [OF assms(1,2), where g = g and d = d] assms(1)
  by (auto simp: OPENSSL_lh_num_items_def lh_ok_def split: prod.splits if_splits)

lemma lhash_invariant_witness:
  "lh_ok (snd (OPENSSL_lh_delete (\<lambda>_. True) empty_table 7)) \<and> OPENSSL_lh_num_items empty_table = 0"
  using lhash_invariant [of empty_table, where g = "\<lambda>_. True" and d = 7] empty_table_ok
  by (auto simp: empty_table_def OPENSSL_lh_num_items_def split: prod.splits)

lemma maybe_resize_load:
  assumes "kMinNumBuckets \<le> num_buckets lh" "num_items lh \<le> 3 * num_buckets lh" "callback_depth lh = 0"
    and "num_buckets lh * 16 < 2 ^ 64"
  shows "num_items (lh_maybe_resize (\<lambda>_. True) lh) div num_buckets (lh_maybe_resize (\<lambda>_. True) lh) \<le> 2"
proof -
  define n where "n = num_buckets lh"
  define m where "m = num_items lh"
  have n: "16 \<le> n" "m \<le> 3 * n" "n * 16 < 2 ^ 64"
    using assms by (simp_all add: n_def m_def kMinNumBuckets_def)
  have rebucket: "num_items (lh_rebucket (\<lambda>_. True) lh k) = m \<and> num_buckets (lh_rebucket (\<lambda>_. True) lh k) = k"
    if "k * 8 < 2 ^ 64" for k
    using that by (simp add: lh_rebucket_def Let_def size_mul_def sizeof_item_ptr_def m_def mult.commute)
  consider "2 < m div n" | "m div n < 1" "16 < n" | "m div n \<le> 2" "\<not> (m div n < 1 \<and> 16 < n)" by linarith
  then show ?thesis
  proof cases
    case 1
    have r: "lh_maybe_resize (\<lambda>_. True) lh = lh_rebucket (\<lambda>_. True) lh (n * 2)"
      using 1 n assms(3) by (simp add: lh_maybe_resize_def kMaxAverageChainLength_def size_mul_def
          flip: n_def m_def)
    have "m div (n * 2) \<le> 2" using less_mult_imp_div_less [of m 3 "n * 2"] n by linarith
    then show ?thesis using rebucket [of "n * 2"] n by (simp add: r)
  next
    case 2
    define k where "k = (if n div 2 < 16 then 16 else n div 2)"
    have r: "lh_maybe_resize (\<lambda>_. True) lh = lh_rebucket (\<lambda>_. True) lh k"
      using 2 assms(3) by (simp add: lh_maybe_resize_def kMaxAverageChainLength_def kMinAverageChainLength_def
          kMinNumBuckets_def k_def flip: n_def m_def)
    have "m < n" using 2 n(1) by (simp add: div_eq_0_iff)
    then have "m < 3 * k" "k * 8 < 2 ^ 64" using n 2 by (auto simp: k_def)
    then have "m div k \<le> 2" using less_mult_imp_div_less [of m 3 k] by linarith
    then show ?thesis using rebucket [OF \<open>k * 8 < 2 ^ 64\<close>] by (simp add: r)
  next
    case 3
    then have "lh_maybe_resize (\<lambda>_. True) lh = lh" using assms(3)
      by (auto simp: lh_maybe_resize_def kMaxAverageChainLength_def kMinAverageChainLength_def
          kMinNumBuckets_def Let_def n_def m_def)
    then show ?thesis using 3 by (simp add: n_def m_def)
  qed
qed

text \<open>The chains stay short. If the average chain length is at most
  \<^verbatim>\<open>kMaxAverageChainLength\<close>, no iteration is going on and the allocator grants the new array, it is
  so again after an insertion or a deletion.\<close>

theorem lhash_load_bounded:
  assumes "lh_ok lh" "callbacks_ok lh" "num_items lh div num_buckets lh \<le> kMaxAverageChainLength"
    and "callback_depth lh = 0" "num_buckets lh * 16 < 2 ^ 64"
  shows "num_items (snd (snd (OPENSSL_lh_insert (\<lambda>_. True) lh d))) div
       num_buckets (snd (snd (OPENSSL_lh_insert (\<lambda>_. True) lh d))) \<le> kMaxAverageChainLength \<and>
    num_items (snd (OPENSSL_lh_delete (\<lambda>_. True) lh d)) div
       num_buckets (snd (OPENSSL_lh_delete (\<lambda>_. True) lh d)) \<le> kMaxAverageChainLength"
proof -
  have n: "kMinNumBuckets \<le> num_buckets lh" "0 < num_buckets lh"
    using assms(1) by (simp_all add: lh_ok_def kMinNumBuckets_def)
  have less: "num_items lh < 3 * num_buckets lh"
  proof -
    have "num_items lh div num_buckets lh * num_buckets lh \<le> 2 * num_buckets lh"
      by (rule mult_le_mono1) (use assms(3) in \<open>simp add: kMaxAverageChainLength_def\<close>)
    then show ?thesis using dividend_less_div_times [OF n(2), of "num_items lh"] by linarith
  qed
  obtain h b i where get: "get_next_ptr_and_hash lh d = (h, b, i)" by (metis prod_cases3)
  have small: "size_add (num_items lh) 1 = num_items lh + 1" using less assms(5) by simp
  show ?thesis
  proof (cases "item_at lh b i")
    case None
    define lh1 where "lh1 = lh\<lparr>buckets := (buckets lh)[b := buckets lh ! b @ [\<lparr>i_data = d, i_hash = h\<rparr>]],
        num_items := num_items lh + 1\<rparr>"
    have "OPENSSL_lh_insert (\<lambda>_. True) lh d = (True, None, lh_maybe_resize (\<lambda>_. True) lh1)"
      unfolding OPENSSL_lh_insert_def get lh1_def by (simp add: None small [simplified])
    moreover have "OPENSSL_lh_delete (\<lambda>_. True) lh d = (None, lh)"
      by (simp add: OPENSSL_lh_delete_def get None)
    moreover have "num_items (lh_maybe_resize (\<lambda>_. True) lh1) div num_buckets (lh_maybe_resize (\<lambda>_. True) lh1) \<le> 2"
      by (rule maybe_resize_load) (use assms n less in \<open>simp_all add: lh1_def\<close>)
    ultimately show ?thesis using assms(3) by (simp add: kMaxAverageChainLength_def)
  next
    case (Some item)
    define lh1 where "lh1 = lh\<lparr>buckets := (buckets lh)[b := take i (buckets lh ! b) @ drop (i + 1) (buckets lh ! b)],
        num_items := num_items lh - 1\<rparr>"
    have "OPENSSL_lh_delete (\<lambda>_. True) lh d = (Some (i_data item), lh_maybe_resize (\<lambda>_. True) lh1)"
      by (simp add: OPENSSL_lh_delete_def get Some lh1_def Let_def)
    moreover have "num_items (snd (snd (OPENSSL_lh_insert (\<lambda>_. True) lh d))) = num_items lh"
      "num_buckets (snd (snd (OPENSSL_lh_insert (\<lambda>_. True) lh d))) = num_buckets lh"
      by (simp_all add: OPENSSL_lh_insert_def get Some Let_def)
    moreover have "num_items (lh_maybe_resize (\<lambda>_. True) lh1) div num_buckets (lh_maybe_resize (\<lambda>_. True) lh1) \<le> 2"
      by (rule maybe_resize_load) (use assms n less in \<open>simp_all add: lh1_def\<close>)
    ultimately show ?thesis using assms(3) by (simp add: kMaxAverageChainLength_def)
  qed
qed

lemma lhash_load_bounded_witness:
  "num_items (snd (snd (OPENSSL_lh_insert (\<lambda>_. True) empty_table 3))) div
     num_buckets (snd (snd (OPENSSL_lh_insert (\<lambda>_. True) empty_table 3))) \<le> 2"
  using lhash_load_bounded [of empty_table 3] empty_table_ok
  by (simp add: empty_table_def kMaxAverageChainLength_def kMinNumBuckets_def)

text \<open>An iteration calls its function once on every element, and leaves the elements.\<close>

theorem lhash_doall_visits_all:
  assumes "lh_ok lh" "callback_depth lh + 1 < UINT_MAX"
  shows "case OPENSSL_lh_doall_arg g (Some lh) func arg of (res, lh') \<Rightarrow>
    \<exists>xs. mset xs = lh_elems lh \<and> res = fold func xs arg \<and>
      (\<exists>t. lh' = Some t \<and> lh_ok t \<and> lh_elems t = lh_elems lh \<and> callback_depth t = callback_depth lh)"
proof -
  have c: "doall_chain func c arg = fold func (map i_data c) arg" for c arg
    by (induction c arbitrary: arg) simp_all
  have a: "doall_all func bs arg = fold func (map i_data (concat bs)) arg" for bs arg
    by (induction bs arbitrary: arg) (simp_all add: c)
  have depth: "callback_depth (lh_maybe_resize g lh) = callback_depth lh"
    by (simp add: lh_maybe_resize_def lh_rebucket_def Let_def)
  have "OPENSSL_lh_doall_arg g (Some lh) func arg =
      (fold func (map i_data (concat (buckets lh))) arg, Some (lh_maybe_resize g lh))"
    using assms(2) by (simp add: OPENSSL_lh_doall_arg_def Let_def a)
  moreover have "mset (map i_data (concat (buckets lh))) = lh_elems lh" by (simp add: lh_elems_def)
  ultimately show ?thesis using maybe_resize_ok [OF assms(1), of g] depth
    by (auto intro!: exI [of _ "map i_data (concat (buckets lh))"])
qed

lemma lhash_doall_visits_all_witness:
  "fst (OPENSSL_lh_doall_arg (\<lambda>_. True) (Some empty_table) (\<lambda>d n. n + 1) (4 :: nat)) = 4"
proof -
  have "lh_elems empty_table = {#}" using new_ok [OF new_table] by simp
  then show ?thesis
    using lhash_doall_visits_all [of empty_table, where g = "\<lambda>_. True" and func = "\<lambda>d n. n + 1" and arg = "4 :: nat"]
      empty_table_ok by (auto simp: empty_table_def UINT_MAX_def split: prod.splits)
qed

end
