(* ===== verification/Bio_Pair.thy ===== *)
theory Bio_Pair
  imports Prelude Fifo
begin

text \<open>
  The BIO pair of \<^verbatim>\<open>crypto/bio/pair.c\<close>: two BIOs, each with a ring buffer for what it writes
  and the other reads, and the parts of \<^verbatim>\<open>crypto/bio/bio.c\<close> that call it. The BIOs are in a heap
  and point at each other, so a BIO is an address. A function whose loop might not end returns an
  option, \<open>None\<close> standing for not returning; the lemmas show it never happens. Memory is accounted for
  block by block: \<open>g k n\<close> says whether the allocator grants its request number \<open>k\<close>, of \<open>n\<close> bytes, so that any
  request may fail, and \<open>junk\<close> is what fresh memory holds.
\<close>

section \<open>The code\<close>

record bio_bio =
  b_peer :: "nat option"
  b_closed :: bool
  b_len :: nat
  b_offset :: nat
  b_size :: nat
  b_buf :: "u8 list option"
  b_request :: nat

record bio =
  bio_init :: bool
  bio_shutdown :: int
  bio_flags :: u32
  bio_retry_reason :: int
  bio_ptr :: "bio_bio option"
  num_read :: nat
  num_write :: nat

type_synonym heap = "nat \<Rightarrow> bio option"

definition sizeof_bio_bio :: nat where "sizeof_bio_bio = 56"
definition sizeof_BIO :: nat where "sizeof_BIO = 72"

text \<open>The blocks a BIO owns, named by its address: its \<^verbatim>\<open>struct bio_st\<close>, its \<^verbatim>\<open>struct bio_bio_st\<close> and the
  buffer of that. The ledger counts the requests and keeps the blocks in use; \<open>a_bad\<close> becomes true if a
  block is freed that is not in use.\<close>

datatype block = Bio nat | State nat | Buffer nat

record ledger =
  a_requests :: nat
  a_live :: "block set"
  a_bad :: bool

definition allocate :: "(nat \<Rightarrow> nat \<Rightarrow> bool) \<Rightarrow> block \<Rightarrow> nat \<Rightarrow> ledger \<Rightarrow> bool \<times> ledger" where
  "allocate g b n m =
    (let ok = g (a_requests m) n; m = m\<lparr>a_requests := a_requests m + 1\<rparr>
     in (ok, if ok then m\<lparr>a_live := insert b (a_live m)\<rparr> else m))"

definition release :: "block \<Rightarrow> ledger \<Rightarrow> ledger" where
  "release b m = m\<lparr>a_live := a_live m - {b}, a_bad := a_bad m \<or> b \<notin> a_live m\<rparr>"

text \<open>\<^verbatim>\<open>bio->ptr\<close>, of a BIO that has one.\<close>

definition ptr_of :: "heap \<Rightarrow> nat \<Rightarrow> bio_bio" where
  "ptr_of h a = the (bio_ptr (the (h a)))"

definition set_ptr :: "heap \<Rightarrow> nat \<Rightarrow> bio_bio \<Rightarrow> heap" where
  "set_ptr h a b = h(a \<mapsto> (the (h a))\<lparr>bio_ptr := Some b\<rparr>)"

subsection \<open>Flags\<close>

definition BIO_FLAGS_READ :: u32 where "BIO_FLAGS_READ = 0x01"
definition BIO_FLAGS_WRITE :: u32 where "BIO_FLAGS_WRITE = 0x02"
definition BIO_FLAGS_IO_SPECIAL :: u32 where "BIO_FLAGS_IO_SPECIAL = 0x04"
definition BIO_FLAGS_SHOULD_RETRY :: u32 where "BIO_FLAGS_SHOULD_RETRY = 0x08"

definition kRetryFlags :: u32 where
  "kRetryFlags = (BIO_FLAGS_READ OR BIO_FLAGS_WRITE OR BIO_FLAGS_IO_SPECIAL) OR BIO_FLAGS_SHOULD_RETRY"

definition BIO_set_flags :: "bio \<Rightarrow> u32 \<Rightarrow> bio" where
  "BIO_set_flags bio fl = bio\<lparr>bio_flags := bio_flags bio OR fl\<rparr>"

definition BIO_clear_flags :: "bio \<Rightarrow> u32 \<Rightarrow> bio" where
  "BIO_clear_flags bio fl = bio\<lparr>bio_flags := bio_flags bio AND NOT fl\<rparr>"

definition BIO_test_flags :: "bio \<Rightarrow> u32 \<Rightarrow> u32" where
  "BIO_test_flags bio fl = bio_flags bio AND fl"

definition BIO_should_read :: "bio \<Rightarrow> bool" where
  "BIO_should_read bio \<longleftrightarrow> BIO_test_flags bio BIO_FLAGS_READ \<noteq> 0"

definition BIO_should_write :: "bio \<Rightarrow> bool" where
  "BIO_should_write bio \<longleftrightarrow> BIO_test_flags bio BIO_FLAGS_WRITE \<noteq> 0"

definition BIO_should_retry :: "bio \<Rightarrow> bool" where
  "BIO_should_retry bio \<longleftrightarrow> BIO_test_flags bio BIO_FLAGS_SHOULD_RETRY \<noteq> 0"

definition BIO_get_retry_flags :: "bio \<Rightarrow> u32" where
  "BIO_get_retry_flags bio = bio_flags bio AND kRetryFlags"

definition BIO_set_retry_read :: "bio \<Rightarrow> bio" where
  "BIO_set_retry_read bio = bio\<lparr>bio_flags := bio_flags bio OR (BIO_FLAGS_READ OR BIO_FLAGS_SHOULD_RETRY)\<rparr>"

definition BIO_set_retry_write :: "bio \<Rightarrow> bio" where
  "BIO_set_retry_write bio = bio\<lparr>bio_flags := bio_flags bio OR (BIO_FLAGS_WRITE OR BIO_FLAGS_SHOULD_RETRY)\<rparr>"

definition BIO_clear_retry_flags :: "bio \<Rightarrow> bio" where
  "BIO_clear_retry_flags bio = bio\<lparr>bio_flags := bio_flags bio AND NOT kRetryFlags, bio_retry_reason := 0\<rparr>"

text \<open>A function of the flags, on the BIO at an address.\<close>

definition on_bio :: "(bio \<Rightarrow> bio) \<Rightarrow> heap \<Rightarrow> nat \<Rightarrow> heap" where
  "on_bio f h a = h(a \<mapsto> f (the (h a)))"

subsection \<open>Creation and destruction\<close>

definition bio_new :: "(nat \<Rightarrow> nat \<Rightarrow> bool) \<Rightarrow> nat \<Rightarrow> bio \<Rightarrow> ledger \<Rightarrow> bool \<times> bio \<times> ledger" where
  "bio_new g a bio m =
    (case allocate g (State a) sizeof_bio_bio m of
       (False, m) \<Rightarrow> (False, bio, m)
     | (True, m) \<Rightarrow>
         (True, bio\<lparr>bio_ptr := Some \<lparr>b_peer = None, b_closed = False, b_len = 0, b_offset = 0,
                      b_size = 17 * 1024, b_buf = None, b_request = 0\<rparr>\<rparr>, m))"

definition bio_destroy_pair :: "heap \<Rightarrow> nat \<Rightarrow> heap" where
  "bio_destroy_pair h a =
    (case bio_ptr (the (h a)) of
       None \<Rightarrow> h
     | Some b \<Rightarrow>
         (case b_peer b of
            None \<Rightarrow> h
          | Some p \<Rightarrow>
              let h = set_ptr h p ((ptr_of h p)\<lparr>b_peer := None, b_len := 0, b_offset := 0\<rparr>);
                  h = on_bio (\<lambda>bio. bio\<lparr>bio_init := False\<rparr>) h p;
                  h = set_ptr h a ((ptr_of h a)\<lparr>b_peer := None, b_len := 0, b_offset := 0\<rparr>)
              in on_bio (\<lambda>bio. bio\<lparr>bio_init := False\<rparr>) h a))"

text \<open>\<^verbatim>\<open>OPENSSL_free\<close> of a null pointer does nothing.\<close>

definition bio_free :: "heap \<Rightarrow> ledger \<Rightarrow> nat \<Rightarrow> heap \<times> ledger" where
  "bio_free h m a =
    (let h = (if b_peer (ptr_of h a) \<noteq> None then bio_destroy_pair h a else h);
         m = (if b_buf (ptr_of h a) \<noteq> None then release (Buffer a) m else m)
     in (h, release (State a) m))"

subsection \<open>Reading\<close>

text \<open>One iteration of the copy loop of \<^verbatim>\<open>bio_read\<close>: how many bytes, and the peer after it.\<close>

definition read_chunk :: "bio_bio \<Rightarrow> nat \<Rightarrow> nat" where
  "read_chunk b rest =
    (if size_add (b_offset b) rest \<le> b_size b then rest else b_size b - b_offset b)"

definition read_advance :: "bio_bio \<Rightarrow> nat \<Rightarrow> bio_bio" where
  "read_advance b chunk =
    (let b = b\<lparr>b_len := b_len b - chunk\<rparr>
     in if b_len b \<noteq> 0 then
          (let b = b\<lparr>b_offset := b_offset b + chunk\<rparr>
           in if b_offset b = b_size b then b\<lparr>b_offset := 0\<rparr> else b)
        else b\<lparr>b_offset := 0\<rparr>)"

partial_function (option) read_loop :: "bio_bio \<Rightarrow> nat \<Rightarrow> u8 list \<Rightarrow> (u8 list \<times> bio_bio) option" where
  "read_loop b rest acc =
    (let chunk = read_chunk b rest;
         acc = acc @ take chunk (drop (b_offset b) (the (b_buf b)));
         b = read_advance b chunk
     in if rest - chunk = 0 then Some (acc, b) else read_loop b (rest - chunk) acc)"

text \<open>The result: the return value, the bytes put into the caller's buffer, the heap.\<close>

definition bio_read :: "heap \<Rightarrow> nat \<Rightarrow> bool \<Rightarrow> nat \<Rightarrow> (int \<times> u8 list \<times> heap) option" where
  "bio_read h a buf_null n =
    (let h = on_bio BIO_clear_retry_flags h a
     in if \<not> bio_init (the (h a)) then Some (0, [], h)
        else
          let p = the (b_peer (ptr_of h a));
              h = set_ptr h p ((ptr_of h p)\<lparr>b_request := 0\<rparr>)
          in if buf_null \<or> n = 0 then Some (0, [], h)
             else if b_len (ptr_of h p) = 0 then
               (if b_closed (ptr_of h p) then Some (0, [], h)
                else
                  let h = on_bio BIO_set_retry_read h a;
                      peer_b = ptr_of h p
                  in Some (-1, [], set_ptr h p
                       (peer_b\<lparr>b_request := (if n \<le> b_size peer_b then n else b_size peer_b)\<rparr>)))
             else
               let n = (if b_len (ptr_of h p) < n then b_len (ptr_of h p) else n)
               in (case read_loop (ptr_of h p) n [] of
                     None \<Rightarrow> None
                   | Some (out, peer_b) \<Rightarrow> Some (int n, out, set_ptr h p peer_b)))"

subsection \<open>Writing\<close>

definition write_offset :: "bio_bio \<Rightarrow> nat" where
  "write_offset b =
    (let w = size_add (b_offset b) (b_len b) in if b_size b \<le> w then w - b_size b else w)"

definition write_chunk :: "bio_bio \<Rightarrow> nat \<Rightarrow> nat" where
  "write_chunk b rest =
    (if size_add (write_offset b) rest \<le> b_size b then rest else b_size b - write_offset b)"

partial_function (option) write_loop :: "bio_bio \<Rightarrow> u8 list \<Rightarrow> bio_bio option" where
  "write_loop b data =
    (let chunk = write_chunk b (length data);
         b = b\<lparr>b_buf := map_option (\<lambda>bs. blit bs (write_offset b) (take chunk data)) (b_buf b),
               b_len := b_len b + chunk\<rparr>
     in if length data - chunk = 0 then Some b else write_loop b (drop chunk data))"

definition bio_write :: "heap \<Rightarrow> nat \<Rightarrow> u8 list option \<Rightarrow> (int \<times> heap) option" where
  "bio_write h a data =
    (let h = on_bio BIO_clear_retry_flags h a
     in case data of
          None \<Rightarrow> Some (0, h)
        | Some data \<Rightarrow>
            if \<not> bio_init (the (h a)) \<or> length data = 0 then Some (0, h)
            else
              let h = set_ptr h a ((ptr_of h a)\<lparr>b_request := 0\<rparr>); b = ptr_of h a
              in if b_closed b then Some (-1, h)
                 else if b_len b = b_size b then Some (-1, on_bio BIO_set_retry_write h a)
                 else
                   let num = (if b_size b - b_len b < length data then b_size b - b_len b else length data)
                   in (case write_loop b (take num data) of
                         None \<Rightarrow> None
                       | Some b \<Rightarrow> Some (int num, set_ptr h a b)))"

subsection \<open>Making a pair\<close>

text \<open>The buffer of one side: allocated unless it has one.\<close>

definition make_buffer ::
    "(nat \<Rightarrow> nat \<Rightarrow> bool) \<Rightarrow> u8 \<Rightarrow> nat \<Rightarrow> nat \<Rightarrow> bio_bio \<Rightarrow> ledger \<Rightarrow> bool \<times> bio_bio \<times> ledger" where
  "make_buffer g junk writebuf_len a b m =
    (if b_buf b = None then
       let b = (if writebuf_len \<noteq> 0 then b\<lparr>b_size := writebuf_len\<rparr> else b)
       in case allocate g (Buffer a) (b_size b) m of
            (False, m) \<Rightarrow> (False, b, m)
          | (True, m) \<Rightarrow>
              (True, b\<lparr>b_buf := Some (replicate (b_size b) junk), b_len := 0, b_offset := 0\<rparr>, m)
     else (True, b, m))"

definition bio_make_pair ::
    "(nat \<Rightarrow> nat \<Rightarrow> bool) \<Rightarrow> u8 \<Rightarrow> heap \<Rightarrow> ledger \<Rightarrow> nat \<Rightarrow> nat \<Rightarrow> nat \<Rightarrow> nat \<Rightarrow> bool \<times> heap \<times> ledger" where
  "bio_make_pair g junk h m bio1 bio2 writebuf1_len writebuf2_len =
    (if b_peer (ptr_of h bio1) \<noteq> None \<or> b_peer (ptr_of h bio2) \<noteq> None then (False, h, m)
     else case make_buffer g junk writebuf1_len bio1 (ptr_of h bio1) m of
       (False, b1, m) \<Rightarrow> (False, set_ptr h bio1 b1, m)
     | (True, b1, m) \<Rightarrow>
         (let h = set_ptr h bio1 b1
          in case make_buffer g junk writebuf2_len bio2 (ptr_of h bio2) m of
               (False, b2, m) \<Rightarrow> (False, set_ptr h bio2 b2, m)
             | (True, b2, m) \<Rightarrow>
                 let h = set_ptr h bio2 b2;
                     h = set_ptr h bio1 ((ptr_of h bio1)\<lparr>b_peer := Some bio2, b_closed := False, b_request := 0\<rparr>);
                     h = set_ptr h bio2 ((ptr_of h bio2)\<lparr>b_peer := Some bio1, b_closed := False, b_request := 0\<rparr>);
                     h = on_bio (\<lambda>bio. bio\<lparr>bio_init := True\<rparr>) h bio1
                 in (True, on_bio (\<lambda>bio. bio\<lparr>bio_init := True\<rparr>) h bio2, m)))"

text \<open>\<^verbatim>\<open>BIO_new(bio_s_bio())\<close>, at the address \<open>a\<close> the allocator returns.\<close>

definition BIO_new ::
    "(nat \<Rightarrow> nat \<Rightarrow> bool) \<Rightarrow> nat \<Rightarrow> heap \<Rightarrow> ledger \<Rightarrow> nat option \<times> heap \<times> ledger" where
  "BIO_new g a h m =
    (case allocate g (Bio a) sizeof_BIO m of
       (False, m) \<Rightarrow> (None, h, m)
     | (True, m) \<Rightarrow>
         let ret = \<lparr>bio_init = False, bio_shutdown = 1, bio_flags = 0, bio_retry_reason = 0, bio_ptr = None,
                    num_read = 0, num_write = 0\<rparr>
         in case bio_new g a ret m of
              (False, _, m) \<Rightarrow> (None, h, release (Bio a) m)
            | (True, ret, m) \<Rightarrow> (Some a, h(a \<mapsto> ret), m))"

text \<open>The only reference to the BIO is dropped, so it is destroyed; there is no next BIO.\<close>

definition BIO_free :: "heap \<Rightarrow> ledger \<Rightarrow> nat option \<Rightarrow> heap \<times> ledger" where
  "BIO_free h m bio =
    (case bio of
       None \<Rightarrow> (h, m)
     | Some a \<Rightarrow> let (h, m) = bio_free h m a in (h(a := None), release (Bio a) m))"

definition BIO_new_bio_pair ::
    "(nat \<Rightarrow> nat \<Rightarrow> bool) \<Rightarrow> u8 \<Rightarrow> nat \<Rightarrow> nat \<Rightarrow> heap \<Rightarrow> ledger \<Rightarrow> nat \<Rightarrow> nat \<Rightarrow>
     (nat \<times> nat) option \<times> heap \<times> ledger" where
  "BIO_new_bio_pair g junk a1 a2 h m writebuf1_len writebuf2_len =
    (let (bio1, h, m) = BIO_new g a1 h m;
         (bio2, h, m) = BIO_new g a2 h m;
         (made, h, m) =
           (case (bio1, bio2) of
              (Some p1, Some p2) \<Rightarrow> bio_make_pair g junk h m p1 p2 writebuf1_len writebuf2_len
            | _ \<Rightarrow> (False, h, m))
     in if \<not> made then
          let (h, m) = BIO_free h m bio1; (h, m) = BIO_free h m bio2 in (None, h, m)
        else (Some (the bio1, the bio2), h, m))"

subsection \<open>Control\<close>

datatype bio_cmd =
    BIO_C_GET_WRITE_BUF_SIZE | BIO_C_GET_WRITE_GUARANTEE | BIO_C_GET_READ_REQUEST
  | BIO_C_RESET_READ_REQUEST | BIO_C_SHUTDOWN_WR
  | BIO_CTRL_GET_CLOSE | BIO_CTRL_SET_CLOSE | BIO_CTRL_PENDING | BIO_CTRL_WPENDING
  | BIO_CTRL_FLUSH | BIO_CTRL_EOF | Other_cmd

definition bio_ctrl :: "heap \<Rightarrow> nat \<Rightarrow> bio_cmd \<Rightarrow> int \<Rightarrow> nat option \<Rightarrow> int \<times> heap" where
  "bio_ctrl h a cmd num ptr =
    (let b = ptr_of h a
     in case cmd of
       BIO_C_GET_WRITE_BUF_SIZE \<Rightarrow> (int (b_size b), h)
     | BIO_C_GET_WRITE_GUARANTEE \<Rightarrow>
         (if b_peer b = None \<or> b_closed b then 0 else int (b_size b) - int (b_len b), h)
     | BIO_C_GET_READ_REQUEST \<Rightarrow> (int (b_request b), h)
     | BIO_C_RESET_READ_REQUEST \<Rightarrow> (1, set_ptr h a (b\<lparr>b_request := 0\<rparr>))
     | BIO_C_SHUTDOWN_WR \<Rightarrow> (1, set_ptr h a (b\<lparr>b_closed := True\<rparr>))
     | BIO_CTRL_GET_CLOSE \<Rightarrow> (bio_shutdown (the (h a)), h)
     | BIO_CTRL_SET_CLOSE \<Rightarrow> (1, on_bio (\<lambda>bio. bio\<lparr>bio_shutdown := num\<rparr>) h a)
     | BIO_CTRL_PENDING \<Rightarrow>
         (case b_peer b of None \<Rightarrow> 0 | Some p \<Rightarrow> int (b_len (ptr_of h p)), h)
     | BIO_CTRL_WPENDING \<Rightarrow> (if b_buf b \<noteq> None then int (b_len b) else 0, h)
     | BIO_CTRL_FLUSH \<Rightarrow> (1, h)
     | BIO_CTRL_EOF \<Rightarrow>
         (case ptr of
            None \<Rightarrow> 1
          | Some other_bio \<Rightarrow>
              let other_b = ptr_of h other_bio
              in if b_len other_b = 0 \<and> b_closed other_b then 1 else 0, h)
     | Other_cmd \<Rightarrow> (0, h))"

definition BIO_ctrl :: "heap \<Rightarrow> nat option \<Rightarrow> bio_cmd \<Rightarrow> int \<Rightarrow> nat option \<Rightarrow> int \<times> heap" where
  "BIO_ctrl h bio cmd num ptr = (case bio of None \<Rightarrow> (0, h) | Some a \<Rightarrow> bio_ctrl h a cmd num ptr)"

definition BIO_ctrl_get_read_request :: "heap \<Rightarrow> nat option \<Rightarrow> int" where
  "BIO_ctrl_get_read_request h bio = fst (BIO_ctrl h bio BIO_C_GET_READ_REQUEST 0 None)"

definition BIO_ctrl_get_write_guarantee :: "heap \<Rightarrow> nat option \<Rightarrow> int" where
  "BIO_ctrl_get_write_guarantee h bio = fst (BIO_ctrl h bio BIO_C_GET_WRITE_GUARANTEE 0 None)"

definition BIO_shutdown_wr :: "heap \<Rightarrow> nat option \<Rightarrow> int \<times> heap" where
  "BIO_shutdown_wr h bio = BIO_ctrl h bio BIO_C_SHUTDOWN_WR 0 None"

definition BIO_pending :: "heap \<Rightarrow> nat option \<Rightarrow> int" where
  "BIO_pending h bio =
    (let r = fst (BIO_ctrl h bio BIO_CTRL_PENDING 0 None) in if r < 0 then 0 else r)"

definition BIO_wpending :: "heap \<Rightarrow> nat option \<Rightarrow> int" where
  "BIO_wpending h bio =
    (let r = fst (BIO_ctrl h bio BIO_CTRL_WPENDING 0 None) in if r < 0 then 0 else r)"

definition BIO_flush :: "heap \<Rightarrow> nat option \<Rightarrow> int \<times> heap" where
  "BIO_flush h bio = BIO_ctrl h bio BIO_CTRL_FLUSH 0 None"

definition BIO_eof :: "heap \<Rightarrow> nat option \<Rightarrow> int" where
  "BIO_eof h bio = fst (BIO_ctrl h bio BIO_CTRL_EOF 0 None)"

subsection \<open>BIO\_read and BIO\_write\<close>

definition BIO_read :: "heap \<Rightarrow> nat option \<Rightarrow> bool \<Rightarrow> int \<Rightarrow> (int \<times> u8 list \<times> heap) option" where
  "BIO_read h bio buf_null len =
    (case bio of
       None \<Rightarrow> Some (-2, [], h)
     | Some a \<Rightarrow>
         if \<not> bio_init (the (h a)) then Some (-2, [], h)
         else if len \<le> 0 then Some (0, [], h)
         else
           (case bio_read h a buf_null (nat len) of
              None \<Rightarrow> None
            | Some (ret, out, h) \<Rightarrow>
                Some (ret, out,
                  if 0 < ret
                  then on_bio (\<lambda>bio. bio\<lparr>num_read := size_add (num_read bio) (nat ret)\<rparr>) h a
                  else h)))"

text \<open>The data and its length, as the caller gives them; a null pointer comes with a length.\<close>

definition BIO_write :: "heap \<Rightarrow> nat option \<Rightarrow> u8 list option \<Rightarrow> int \<Rightarrow> (int \<times> heap) option" where
  "BIO_write h bio data len =
    (case bio of
       None \<Rightarrow> Some (-2, h)
     | Some a \<Rightarrow>
         if \<not> bio_init (the (h a)) then Some (-2, h)
         else if len \<le> 0 then Some (0, h)
         else
           (case bio_write h a (map_option (take (nat len)) data) of
              None \<Rightarrow> None
            | Some (ret, h) \<Rightarrow>
                Some (ret,
                  if 0 < ret
                  then on_bio (\<lambda>bio. bio\<lparr>num_write := size_add (num_write bio) (nat ret)\<rparr>) h a
                  else h)))"

function BIO_write_all :: "heap \<Rightarrow> nat option \<Rightarrow> u8 list \<Rightarrow> (bool \<times> heap) option" where
  "BIO_write_all h bio data =
    (if 0 < length data then
       (case BIO_write h bio (Some data) (int (if INT_MAX < length data then INT_MAX else length data)) of
          None \<Rightarrow> None
        | Some (ret, h) \<Rightarrow>
            if ret \<le> 0 then Some (False, h) else BIO_write_all h bio (drop (nat ret) data))
     else Some (True, h))"
  by pat_completeness auto
termination
  by (relation "measure (\<lambda>(h, bio, data). length data)") auto

declare BIO_write_all.simps [simp del]

section \<open>The ring buffer\<close>

text \<open>The comments on the fields of \<^verbatim>\<open>struct bio_bio_st\<close>, for a BIO that is in a pair.\<close>

definition ring_ok :: "bio_bio \<Rightarrow> bool" where
  "ring_ok b \<longleftrightarrow>
    (\<exists>bs. b_buf b = Some bs \<and> length bs = b_size b) \<and> 0 < b_size b \<and> b_size b < 2 ^ 63 \<and>
    b_len b \<le> b_size b \<and> b_offset b < b_size b \<and>
    (b_len b = 0 \<longrightarrow> b_offset b = 0) \<and>
    (b_len b \<noteq> 0 \<longrightarrow> b_request b = 0) \<and> b_request b \<le> b_size b - b_len b"

text \<open>The bytes written and not yet read, oldest first.\<close>

definition ring :: "bio_bio \<Rightarrow> u8 list" where
  "ring b = map (\<lambda>i. the (b_buf b) ! ((b_offset b + i) mod b_size b)) [0..<b_len b]"

lemma length_ring [simp]: "length (ring b) = b_len b"
  by (simp add: ring_def)

lemma nth_ring: "i < b_len b \<Longrightarrow> ring b ! i = the (b_buf b) ! ((b_offset b + i) mod b_size b)"
  by (simp add: ring_def)

lemma ring_update [simp]:
  "ring (b\<lparr>b_request := n\<rparr>) = ring b" "ring (b\<lparr>b_closed := c\<rparr>) = ring b" "ring (b\<lparr>b_peer := p\<rparr>) = ring b"
  by (simp_all add: ring_def)

lemma mod_wrap: "i < 2 * n \<Longrightarrow> i mod n = (if i < n then i else i - n)" for n :: nat
  by (simp add: mod_if)

lemma nth_blit: "i + length ys \<le> length xs \<Longrightarrow> j < length xs \<Longrightarrow>
  blit xs i ys ! j = (if i \<le> j \<and> j < i + length ys then ys ! (j - i) else xs ! j)"
  by (auto simp: blit_def nth_append min_def)

text \<open>One chunk read.\<close>

lemma read_advance_ring:
  assumes b: "ring_ok b" "b_request b = 0" and c: "0 < c" "c \<le> b_len b" "b_offset b + c \<le> b_size b"
  shows "take c (drop (b_offset b) (the (b_buf b))) = take c (ring b)"
    and "ring (read_advance b c) = drop c (ring b)"
    and "ring_ok (read_advance b c)"
    and "b_len (read_advance b c) = b_len b - c" "b_request (read_advance b c) = 0"
    and "b_size (read_advance b c) = b_size b" "b_buf (read_advance b c) = b_buf b"
    and "b_closed (read_advance b c) = b_closed b" "b_peer (read_advance b c) = b_peer b"
    and "b_len b \<noteq> c \<Longrightarrow> b_offset (read_advance b c) = (b_offset b + c) mod b_size b"
proof -
  obtain bs where bs: "b_buf b = Some bs" "length bs = b_size b" using b(1) by (auto simp: ring_ok_def)
  have off: "b_offset b < b_size b" "b_len b \<le> b_size b" "0 < b_size b" using b(1) by (auto simp: ring_ok_def)
  show "take c (drop (b_offset b) (the (b_buf b))) = take c (ring b)"
    by (rule nth_equalityI) (use bs off c in \<open>simp_all add: nth_ring\<close>)
  let ?b = "read_advance b c"
  show len: "b_len ?b = b_len b - c" "b_request ?b = 0" "b_size ?b = b_size b" "b_buf ?b = b_buf b"
    "b_closed ?b = b_closed b" "b_peer ?b = b_peer b"
    using b(2) by (simp_all add: read_advance_def Let_def)
  show offset: "b_offset ?b = (b_offset b + c) mod b_size b" if "b_len b \<noteq> c"
    using that c off by (simp add: read_advance_def Let_def)
  show "ring ?b = drop c (ring b)"
  proof (rule nth_equalityI)
    fix i assume "i < length (ring ?b)"
    then have i: "i < b_len b - c" by (simp add: len)
    then have "ring ?b ! i = bs ! (((b_offset b + c) mod b_size b + i) mod b_size b)"
      by (simp add: nth_ring len offset bs)
    also have "\<dots> = bs ! ((b_offset b + (c + i)) mod b_size b)" by (simp add: mod_add_left_eq add.assoc)
    also have "\<dots> = drop c (ring b) ! i" using i c by (simp add: nth_ring bs)
    finally show "ring ?b ! i = drop c (ring b) ! i" .
  qed (simp add: len)
  show "ring_ok ?b"
  proof (cases "b_len b = c")
    case True
    then have "b_offset ?b = 0" by (simp add: read_advance_def Let_def)
    then show ?thesis using True b bs off by (simp add: ring_ok_def len)
  next
    case False
    then show ?thesis using b c off bs by (auto simp: ring_ok_def len offset)
  qed
qed

text \<open>The copy loop ends after one or two iterations.\<close>

lemma read_loop_spec:
  assumes b: "ring_ok b" "b_request b = 0" and n: "0 < n" "n \<le> b_len b"
  obtains b' where "read_loop b n acc = Some (acc @ take n (ring b), b')" "ring_ok b'"
    "ring b' = drop n (ring b)" "b_request b' = 0" "b_size b' = b_size b" "b_closed b' = b_closed b"
    "b_peer b' = b_peer b"
proof (cases "b_offset b + n \<le> b_size b")
  case True
  have "size_add (b_offset b) n = b_offset b + n" using True b(1) by (simp add: ring_ok_def)
  then have "read_chunk b n = n" using True by (simp add: read_chunk_def)
  then show ?thesis
    using read_advance_ring [OF b n True]
    by (intro that [of "read_advance b n"]) (subst read_loop.simps, simp_all)
next
  case False
  define c where "c = b_size b - b_offset b"
  have bounds: "b_offset b < b_size b" "b_len b \<le> b_size b" "b_size b < 2 ^ 63"
    using b(1) by (auto simp: ring_ok_def)
  then have add: "size_add (b_offset b) n = b_offset b + n" using n by simp
  have c: "0 < c" "c < n" "b_offset b + c \<le> b_size b" "c \<le> b_len b"
    using False n bounds by (auto simp: c_def)
  note step = read_advance_ring [OF b c(1,4,3)]
  let ?b = "read_advance b c"
  have first: "read_loop b n acc = read_loop ?b (n - c) (acc @ take c (ring b))"
    using False c(2) step(1) by (subst read_loop.simps) (simp add: read_chunk_def add flip: c_def)
  have "b_offset ?b = 0" using step(10) c n bounds by (simp add: c_def)
  then have fit: "b_offset ?b + (n - c) \<le> b_size ?b" using n bounds step(6) by simp
  have n': "0 < n - c" "n - c \<le> b_len ?b" using c n step(4) by simp_all
  have "size_add (b_offset ?b) (n - c) = n - c" using \<open>b_offset ?b = 0\<close> n bounds by simp
  then have chunk: "read_chunk ?b (n - c) = n - c" using fit by (simp add: read_chunk_def \<open>b_offset ?b = 0\<close>)
  note step2 = read_advance_ring [OF step(3,5) n' fit]
  have "read_loop ?b (n - c) (acc @ take c (ring b)) =
      Some ((acc @ take c (ring b)) @ take (n - c) (ring ?b), read_advance ?b (n - c))"
    using step2(1) c(2) by (subst read_loop.simps) (simp add: chunk Let_def)
  moreover have "take c (ring b) @ take (n - c) (ring ?b) = take n (ring b)"
    using c(2) unfolding step(2) by (metis add_diff_inverse_nat less_imp_not_less take_add)
  ultimately show ?thesis
    using step step2 first c(2) by (intro that [of "read_advance ?b (n - c)"]) simp_all
qed

text \<open>One chunk written.\<close>

definition write_advance :: "bio_bio \<Rightarrow> u8 list \<Rightarrow> bio_bio" where
  "write_advance b d = b\<lparr>b_buf := map_option (\<lambda>bs. blit bs (write_offset b) d) (b_buf b), b_len := b_len b + length d\<rparr>"

lemma write_offset_eq:
  assumes "ring_ok b"
  shows "write_offset b = (b_offset b + b_len b) mod b_size b"
proof -
  have "b_offset b < b_size b" "b_len b \<le> b_size b" "b_size b < 2 ^ 63" using assms by (auto simp: ring_ok_def)
  then show ?thesis by (simp add: write_offset_def Let_def mod_wrap)
qed

lemma write_advance_ring:
  assumes b: "ring_ok b" "b_request b = 0" and d: "d \<noteq> []" "length d \<le> b_size b - b_len b"
    "write_offset b + length d \<le> b_size b"
  shows "ring (write_advance b d) = ring b @ d" and "ring_ok (write_advance b d)"
    and "b_len (write_advance b d) = b_len b + length d" "b_request (write_advance b d) = 0"
    and "b_size (write_advance b d) = b_size b" "b_closed (write_advance b d) = b_closed b"
    and "b_peer (write_advance b d) = b_peer b" "b_offset (write_advance b d) = b_offset b"
proof -
  obtain bs where bs: "b_buf b = Some bs" "length bs = b_size b" using b(1) by (auto simp: ring_ok_def)
  define w where "w = write_offset b"
  have bounds: "b_offset b < b_size b" "b_len b \<le> b_size b" using b(1) by (auto simp: ring_ok_def)
  have w: "w = (if b_offset b + b_len b < b_size b then b_offset b + b_len b
      else b_offset b + b_len b - b_size b)"
    using bounds by (simp add: w_def write_offset_eq [OF b(1)] mod_wrap)
  have wd: "w + length d \<le> length bs" "length d \<le> b_size b - b_len b" using d bs by (simp_all add: w_def)
  let ?b = "write_advance b d"
  show len: "b_len ?b = b_len b + length d" "b_request ?b = 0" "b_size ?b = b_size b"
    "b_closed ?b = b_closed b" "b_peer ?b = b_peer b" "b_offset ?b = b_offset b"
    using b(2) by (simp_all add: write_advance_def)
  have buf: "b_buf ?b = Some (blit bs w d)" by (simp add: write_advance_def bs w_def)
  show "ring ?b = ring b @ d"
  proof (rule nth_equalityI)
    fix i assume "i < length (ring ?b)"
    then have i: "i < b_len b + length d" by (simp add: len)
    define j where "j = (b_offset b + i) mod b_size b"
    have j: "j = (if b_offset b + i < b_size b then b_offset b + i else b_offset b + i - b_size b)"
      using i bounds wd by (simp add: j_def mod_wrap)
    have jl: "j < length bs" using bounds bs by (simp add: j_def)
    have "ring ?b ! i = blit bs w d ! j" using i by (simp add: nth_ring len buf j_def)
    also have "\<dots> = (if w \<le> j \<and> j < w + length d then d ! (j - w) else bs ! j)"
      by (rule nth_blit [OF wd(1) jl])
    also have "\<dots> = (ring b @ d) ! i"
    proof (cases "i < b_len b")
      case True
      then have "\<not> (w \<le> j \<and> j < w + length d)" using j w bounds wd by (auto split: if_splits)
      then show ?thesis using True by (auto simp: nth_append nth_ring j_def bs)
    next
      case False
      then have "j = w + (i - b_len b)" using j w bounds wd i bs by (auto split: if_splits)
      then have "w \<le> j" "j < w + length d" "j - w = i - b_len b" using False i by linarith+
      then show ?thesis using False by (simp add: nth_append)
    qed
    finally show "ring ?b ! i = (ring b @ d) ! i" .
  qed (simp add: len)
  show "ring_ok ?b" using b bounds wd bs d by (auto simp: ring_ok_def len buf)
qed

lemma write_loop_spec:
  assumes b: "ring_ok b" "b_request b = 0" and d: "d \<noteq> []" "length d \<le> b_size b - b_len b"
  obtains b' where "write_loop b d = Some b'" "ring_ok b'" "ring b' = ring b @ d" "b_request b' = 0"
    "b_size b' = b_size b" "b_closed b' = b_closed b" "b_peer b' = b_peer b"
proof (cases "write_offset b + length d \<le> b_size b")
  case True
  have "b_size b < 2 ^ 64" using b(1) by (simp add: ring_ok_def)
  then have "write_chunk b (length d) = length d" using True by (simp add: write_chunk_def)
  then show ?thesis
    using write_advance_ring [OF b d True]
    by (intro that [of "write_advance b d"]) (subst write_loop.simps, simp_all add: write_advance_def Let_def)
next
  case False
  define c where "c = b_size b - write_offset b"
  have bounds: "b_offset b < b_size b" "b_len b \<le> b_size b" "b_size b < 2 ^ 63"
    using b(1) by (auto simp: ring_ok_def)
  have w: "write_offset b = (if b_offset b + b_len b < b_size b then b_offset b + b_len b
      else b_offset b + b_len b - b_size b)"
    using bounds by (simp add: write_offset_eq [OF b(1)] mod_wrap)
  have c: "0 < c" "c < length d" using False bounds w d(2) by (auto simp: c_def split: if_splits)
  have wl: "b_offset b + b_len b < b_size b" using False w bounds d(2) by (auto split: if_splits)
  have add: "size_add (write_offset b) (length d) = write_offset b + length d"
    using wl w d(2) bounds by simp
  have chunk: "write_chunk b (length d) = c" using False by (simp add: write_chunk_def add c_def)
  have d1: "take c d \<noteq> []" "length (take c d) \<le> b_size b - b_len b" "write_offset b + length (take c d) \<le> b_size b"
    using c d wl w by (auto simp: c_def)
  note step = write_advance_ring [OF b d1]
  let ?b = "write_advance b (take c d)"
  have len: "length (take c d) = c" using c by simp
  have first: "write_loop b d = write_loop ?b (drop c d)"
    using c by (subst write_loop.simps) (simp add: chunk Let_def write_advance_def len)
  have "b_len ?b = b_len b + c" using step(3) len by simp
  then have w2: "write_offset ?b = 0"
  proof -
    have "b_offset b + (b_len b + c) = b_size b" using wl w by (simp add: c_def)
    then show ?thesis using \<open>b_len ?b = b_len b + c\<close> step(5,8) by (simp add: write_offset_eq [OF step(2)])
  qed
  have d2: "drop c d \<noteq> []" "length (drop c d) \<le> b_size ?b - b_len ?b" "write_offset ?b + length (drop c d) \<le> b_size ?b"
    using c d step(3,5) len w2 by auto
  have "size_add 0 (length (drop c d)) = length (drop c d)" using d2(3) w2 step(5) bounds by simp
  then have "write_chunk ?b (length (drop c d)) = length (drop c d)"
    using d2(3) by (simp add: write_chunk_def w2)
  then have second: "write_loop ?b (drop c d) = Some (write_advance ?b (drop c d))"
    using c(2) by (subst write_loop.simps) (simp add: Let_def write_advance_def)
  note step2 = write_advance_ring [OF step(2,4) d2]
  show ?thesis
    by (rule that [of "write_advance ?b (drop c d)"]) (use first second step step2 in simp_all)
qed

section \<open>Connected BIOs\<close>

definition connected :: "heap \<Rightarrow> nat \<Rightarrow> nat \<Rightarrow> bool" where
  "connected h a p \<longleftrightarrow> a \<noteq> p \<and> (\<forall>c \<in> {a, p}. h c \<noteq> None \<and> bio_init (the (h c)) \<and>
     bio_ptr (the (h c)) \<noteq> None \<and> ring_ok (ptr_of h c)) \<and>
     b_peer (ptr_of h a) = Some p \<and> b_peer (ptr_of h p) = Some a"

lemma connected_sym: "connected h a p \<longleftrightarrow> connected h p a"
  by (auto simp: connected_def)

lemma set_ptr_simps [simp]:
  "ptr_of (set_ptr h a b) c = (if c = a then b else ptr_of h c)"
  "bio_init (the (set_ptr h a b c)) = bio_init (the (h c))"
  "set_ptr h a b c = None \<longleftrightarrow> c \<noteq> a \<and> h c = None"
  "bio_ptr (the (set_ptr h a b c)) = (if c = a then Some b else bio_ptr (the (h c)))"
  "bio_flags (the (set_ptr h a b c)) = bio_flags (the (h c))"
  by (auto simp: ptr_of_def set_ptr_def)

text \<open>Functions of a BIO that leave its ring buffer and its state alone.\<close>

definition keeps_ring :: "(bio \<Rightarrow> bio) \<Rightarrow> bool" where
  "keeps_ring f \<longleftrightarrow> (\<forall>x. bio_ptr (f x) = bio_ptr x \<and> bio_init (f x) = bio_init x)"

lemma on_bio_simps [simp]:
  assumes "keeps_ring f"
  shows "ptr_of (on_bio f h a) c = ptr_of h c"
    "bio_init (the (on_bio f h a c)) = bio_init (the (h c))"
    "on_bio f h a c = None \<longleftrightarrow> c \<noteq> a \<and> h c = None"
    "bio_ptr (the (on_bio f h a c)) = bio_ptr (the (h c))"
  using assms by (auto simp: ptr_of_def on_bio_def keeps_ring_def)

lemma keeps_ring_flags [simp]:
  "keeps_ring BIO_clear_retry_flags" "keeps_ring BIO_set_retry_read" "keeps_ring BIO_set_retry_write"
  "keeps_ring (\<lambda>bio. bio\<lparr>num_read := f bio\<rparr>)" "keeps_ring (\<lambda>bio. bio\<lparr>num_write := f bio\<rparr>)"
  "keeps_ring (\<lambda>bio. bio\<lparr>bio_shutdown := n\<rparr>)"
  by (simp_all add: keeps_ring_def BIO_clear_retry_flags_def BIO_set_retry_read_def BIO_set_retry_write_def)

lemma retry_flags:
  "BIO_should_retry (BIO_set_retry_read x)" "BIO_should_read (BIO_set_retry_read x)"
  "BIO_should_retry (BIO_set_retry_write x)" "BIO_should_write (BIO_set_retry_write x)"
  "\<not> BIO_should_retry (BIO_clear_retry_flags x)"
proof -
  have test: "v AND k \<noteq> 0" if "bit v n" "bit k n" for v k :: u32 and n
  proof
    assume "v AND k = 0"
    then have "\<not> bit (v AND k) n" by simp
    then show False using that by (simp add: bit_and_iff)
  qed
  have bits: "bit (1 :: u32) 0" "bit (2 :: u32) 1" "bit (8 :: u32) 3" by (simp_all add: bit_simps)
  have wide: "bit (v OR (1 OR 8)) 3" "bit (v OR (1 OR 8)) 0" "bit (v OR (2 OR 8)) 3" "bit (v OR (2 OR 8)) 1"
    for v :: u32
    using bits by (simp_all only: bit_or_iff simp_thms)
  have none: "(v AND NOT ((1 OR 2 OR 4) OR 8)) AND 8 = 0" for v :: u32
    by (simp add: and.assoc)
  have sel: "bio_flags (x\<lparr>bio_flags := v\<rparr>) = v" "bio_flags (x\<lparr>bio_flags := v, bio_retry_reason := 0\<rparr>) = v" for v
    by simp_all
  note defs = BIO_should_retry_def BIO_should_read_def BIO_should_write_def BIO_test_flags_def
    BIO_set_retry_read_def BIO_set_retry_write_def BIO_clear_retry_flags_def kRetryFlags_def
    BIO_FLAGS_READ_def BIO_FLAGS_WRITE_def BIO_FLAGS_IO_SPECIAL_def BIO_FLAGS_SHOULD_RETRY_def
    sel
  show "BIO_should_retry (BIO_set_retry_read x)" unfolding defs by (rule test [OF wide(1) bits(3)])
  show "BIO_should_read (BIO_set_retry_read x)" unfolding defs by (rule test [OF wide(2) bits(1)])
  show "BIO_should_retry (BIO_set_retry_write x)" unfolding defs by (rule test [OF wide(3) bits(3)])
  show "BIO_should_write (BIO_set_retry_write x)" unfolding defs by (rule test [OF wide(4) bits(2)])
  show "\<not> BIO_should_retry (BIO_clear_retry_flags x)" unfolding defs using none by simp
qed

lemma connected_on_bio [intro]: "connected h a p \<Longrightarrow> keeps_ring f \<Longrightarrow> connected (on_bio f h c) a p"
  by (auto simp: connected_def)

lemma connected_set_ptr:
  "connected h a p \<Longrightarrow> ring_ok b \<Longrightarrow> b_peer b = Some p \<Longrightarrow> connected (set_ptr h a b) a p"
  "connected h a p \<Longrightarrow> ring_ok b \<Longrightarrow> b_peer b = Some a \<Longrightarrow> connected (set_ptr h p b) a p"
  by (auto simp: connected_def)

lemma connectedD:
  assumes "connected h a p"
  shows "a \<noteq> p" "bio_init (the (h a))" "bio_init (the (h p))" "ring_ok (ptr_of h a)" "ring_ok (ptr_of h p)"
    "b_peer (ptr_of h a) = Some p" "b_peer (ptr_of h p) = Some a"
  using assms by (auto simp: connected_def)

lemma ring_ok_request: "ring_ok b \<Longrightarrow> n \<le> b_size b - b_len b \<Longrightarrow> n = 0 \<or> b_len b = 0 \<Longrightarrow> ring_ok (b\<lparr>b_request := n\<rparr>)"
  by (auto simp: ring_ok_def)

lemma ring_ok_closed: "ring_ok b \<Longrightarrow> ring_ok (b\<lparr>b_closed := c\<rparr>)"
  by (simp add: ring_ok_def)

text \<open>What a write of \<open>data\<close> into the buffer \<open>b\<close> returns.\<close>

definition write_result :: "bio_bio \<Rightarrow> u8 list \<Rightarrow> int" where
  "write_result b data =
    (if data = [] then 0 else if b_closed b \<or> b_len b = b_size b then -1
     else int (min (length data) (b_size b - b_len b)))"

text \<open>The two ends agree on everything but the content of one ring and the flags.\<close>

definition same_ends :: "heap \<Rightarrow> heap \<Rightarrow> nat \<Rightarrow> nat \<Rightarrow> bool" where
  "same_ends h h' a p \<longleftrightarrow> (\<forall>c \<in> {a, p}. b_closed (ptr_of h' c) = b_closed (ptr_of h c) \<and>
     b_size (ptr_of h' c) = b_size (ptr_of h c))"

lemma bio_write_spec:
  assumes con: "connected h a p"
  obtains h' where "bio_write h a (Some data) = Some (write_result (ptr_of h a) data, h')" "connected h' a p"
    "same_ends h h' a p" "ring (ptr_of h' p) = ring (ptr_of h p)"
    "ring (ptr_of h' a) = ring (ptr_of h a) @ take (nat (write_result (ptr_of h a) data)) data"
    "data \<noteq> [] \<Longrightarrow> \<not> b_closed (ptr_of h a) \<Longrightarrow> b_len (ptr_of h a) = b_size (ptr_of h a) \<Longrightarrow>
       BIO_should_retry (the (h' a)) \<and> BIO_should_write (the (h' a))"
proof -
  note c = connectedD [OF con]
  define h1 where "h1 = on_bio BIO_clear_retry_flags h a"
  have h1: "connected h1 a p" "ptr_of h1 = ptr_of h" using con by (auto simp: h1_def)
  define b where "b = (ptr_of h a)\<lparr>b_request := 0\<rparr>"
  define h2 where "h2 = set_ptr h1 a b"
  have b: "ring_ok b" "b_request b = 0" "b_peer b = Some p" "ring b = ring (ptr_of h a)"
    "b_closed b = b_closed (ptr_of h a)" "b_len b = b_len (ptr_of h a)" "b_size b = b_size (ptr_of h a)"
    using ring_ok_request [OF c(4), of 0] c(6) by (simp_all add: b_def)
  have h2: "connected h2 a p" "ptr_of h2 a = b" "ptr_of h2 p = ptr_of h p"
    using connected_set_ptr(1) [OF h1(1) b(1,3)] h1(2) c(1) by (simp_all add: h2_def)
  have run: "bio_write h a (Some data) =
      (if data = [] then Some (0, h1)
       else if b_closed b then Some (-1, h2)
       else if b_len b = b_size b then Some (-1, on_bio BIO_set_retry_write h2 a)
       else case write_loop b (take (min (b_size b - b_len b) (length data)) data) of
         None \<Rightarrow> None | Some b' \<Rightarrow> Some (int (min (b_size b - b_len b) (length data)), set_ptr h2 a b'))"
    using c(2) h1(2) by (simp add: bio_write_def Let_def h1_def [symmetric] h2_def [symmetric] b_def [symmetric] h2)
      (auto simp: h1_def h2 min_def split: option.splits)
  consider "data = []" | "data \<noteq> []" "b_closed b" | "data \<noteq> []" "\<not> b_closed b" "b_len b = b_size b"
    | "data \<noteq> []" "\<not> b_closed b" "b_len b \<noteq> b_size b" by blast
  then show ?thesis
  proof cases
    case 1
    then show ?thesis
      using that [of h1] run h1 by (simp add: write_result_def same_ends_def)
  next
    case 2
    then show ?thesis
      using that [of h2] run h2 b c(1) by (simp add: write_result_def same_ends_def)
  next
    case 3
    define h3 where "h3 = on_bio BIO_set_retry_write h2 a"
    have h3: "connected h3 a p" "ptr_of h3 = ptr_of h2" "the (h3 a) = BIO_set_retry_write (the (h2 a))"
      using h2(1) by (auto simp: h3_def) (simp add: on_bio_def)
    show ?thesis
      using that [of h3] run h2 h3 b c(1) 3
      by (simp add: write_result_def same_ends_def retry_flags h3_def [symmetric])
  next
    case 4
    define n where "n = min (b_size b - b_len b) (length data)"
    have le: "b_len b < b_size b" using 4 b(1) by (simp add: ring_ok_def)
    then have d: "take n data \<noteq> []" "length (take n data) \<le> b_size b - b_len b" using 4 by (auto simp: n_def)
    obtain b' where b': "write_loop b (take n data) = Some b'" "ring_ok b'" "ring b' = ring b @ take n data"
      "b_request b' = 0" "b_size b' = b_size b" "b_closed b' = b_closed b" "b_peer b' = b_peer b"
      using write_loop_spec [OF b(1,2) d] by auto
    have con': "connected (set_ptr h2 a b') a p"
      using connected_set_ptr(1) [OF h2(1) b'(2)] b'(7) b(3) by simp
    have res: "write_result (ptr_of h a) data = int n" "take n data = take (nat (int n)) data"
      using 4 unfolding write_result_def b(5-7) n_def by (simp_all add: min.commute)
    have "bio_write h a (Some data) = Some (int n, set_ptr h2 a b')"
      using run 4 b'(1) by (simp add: n_def)
    moreover have "same_ends h (set_ptr h2 a b') a p"
      using h2(3) b(5,7) b'(5,6) c(1) by (simp add: same_ends_def)
    ultimately show ?thesis
      using con' h2(3) b(4) b'(3) c(1) 4(2,3) b(5-7) by (intro that [of "set_ptr h2 a b'"]) (simp_all add: res(1))
  qed
qed

text \<open>What a read of up to \<open>n\<close> bytes from the buffer \<open>b\<close> returns.\<close>

definition read_result :: "bio_bio \<Rightarrow> nat \<Rightarrow> int" where
  "read_result b n =
    (if n = 0 then 0 else if b_len b = 0 then (if b_closed b then 0 else -1) else int (min n (b_len b)))"

lemma bio_read_spec:
  assumes con: "connected h a p"
  obtains h' where "bio_read h a False n =
      Some (read_result (ptr_of h p) n, take (nat (read_result (ptr_of h p) n)) (ring (ptr_of h p)), h')"
    "connected h' a p" "same_ends h h' a p" "ring (ptr_of h' a) = ring (ptr_of h a)"
    "ring (ptr_of h' p) = drop (nat (read_result (ptr_of h p) n)) (ring (ptr_of h p))"
    "0 < n \<Longrightarrow> \<not> b_closed (ptr_of h p) \<Longrightarrow> b_len (ptr_of h p) = 0 \<Longrightarrow>
       BIO_should_retry (the (h' a)) \<and> BIO_should_read (the (h' a)) \<and>
       b_request (ptr_of h' p) = min n (b_size (ptr_of h p))"
proof -
  note c = connectedD [OF con]
  define h1 where "h1 = on_bio BIO_clear_retry_flags h a"
  have h1: "connected h1 a p" "ptr_of h1 = ptr_of h" using con by (auto simp: h1_def)
  define b where "b = (ptr_of h p)\<lparr>b_request := 0\<rparr>"
  define h2 where "h2 = set_ptr h1 p b"
  have b: "ring_ok b" "b_request b = 0" "b_peer b = Some a" "ring b = ring (ptr_of h p)"
    "b_closed b = b_closed (ptr_of h p)" "b_len b = b_len (ptr_of h p)" "b_size b = b_size (ptr_of h p)"
    using ring_ok_request [OF c(5), of 0] c(7) by (simp_all add: b_def)
  have h2: "connected h2 a p" "ptr_of h2 p = b" "ptr_of h2 a = ptr_of h a"
    using connected_set_ptr(2) [OF h1(1) b(1,3)] h1(2) c(1) by (simp_all add: h2_def)
  define h3 where "h3 = on_bio BIO_set_retry_read h2 a"
  have h3: "connected h3 a p" "ptr_of h3 = ptr_of h2" "the (h3 a) = BIO_set_retry_read (the (h2 a))"
    using h2(1) by (auto simp: h3_def) (simp add: on_bio_def)
  define req where "req = b\<lparr>b_request := min n (b_size b)\<rparr>"
  have run: "bio_read h a False n =
      (if n = 0 then Some (0, [], h2)
       else if b_len b = 0 then
         (if b_closed b then Some (0, [], h2) else Some (-1, [], set_ptr h3 p req))
       else case read_loop b (min n (b_len b)) [] of
         None \<Rightarrow> None | Some (out, b') \<Rightarrow> Some (int (min n (b_len b)), out, set_ptr h2 p b'))"
  proof -
    have fold: "set_ptr h1 p ((ptr_of h p)\<lparr>b_request := 0\<rparr>) = h2" "the (b_peer (ptr_of h a)) = p"
      "bio_init (the (h1 a))" "min n m = (if m < n then m else n)" for m
      using c by (auto simp: h2_def b_def h1_def)
    show ?thesis
      by (simp add: bio_read_def Let_def h1_def [symmetric] h1(2) fold(1-3) h2 h3_def [symmetric] h3(2))
        (simp add: fold h2 req_def split: option.splits)
  qed
  consider "n = 0" | "0 < n" "b_len b = 0" "b_closed b" | "0 < n" "b_len b = 0" "\<not> b_closed b"
    | "0 < n" "0 < b_len b" by blast
  then show ?thesis
  proof cases
    case 1
    then show ?thesis
      using that [of h2] run h2 b c(1) by (simp add: read_result_def same_ends_def)
  next
    case 2
    then show ?thesis
      using that [of h2] run h2 b c(1) by (simp add: read_result_def same_ends_def)
  next
    case 3
    then have req: "ring_ok req" "b_peer req = Some a"
      using ring_ok_request [OF b(1), of "min n (b_size b)"] b(3) by (simp_all add: req_def)
    have flags: "BIO_should_retry (the (set_ptr h3 p req a))" "BIO_should_read (the (set_ptr h3 p req a))"
      using h3(3) c(1) retry_flags by (simp_all add: set_ptr_def)
    show ?thesis
      using that [of "set_ptr h3 p req"] connected_set_ptr(2) [OF h3(1) req] run h2 h3 b c(1) 3 flags
      by (simp add: read_result_def same_ends_def req_def)
  next
    case 4
    then obtain b' where b': "read_loop b (min n (b_len b)) [] = Some (take (min n (b_len b)) (ring b), b')"
      "ring_ok b'" "ring b' = drop (min n (b_len b)) (ring b)" "b_size b' = b_size b" "b_closed b' = b_closed b"
      "b_peer b' = b_peer b"
      using read_loop_spec [OF b(1,2), of "min n (b_len b)" "[]"] by auto
    show ?thesis
      using that [of "set_ptr h2 p b'"] run h2 b c(1) 4 b' connected_set_ptr(2) [OF h2(1) b'(2)]
      by (simp add: read_result_def same_ends_def)
  qed
qed

section \<open>The operations on a connected pair\<close>

lemma write_result_bounds: "write_result b data \<le> int (length data)" "-1 \<le> write_result b data"
  by (auto simp: write_result_def)

lemma same_ends_on_bio [simp]: "keeps_ring f \<Longrightarrow> same_ends h (on_bio f h' c) a p = same_ends h h' a p"
  by (simp add: same_ends_def)

lemma BIO_write_exact:
  assumes con: "connected h a p" and len: "0 < len" "len \<le> int (length data)"
  obtains h' where "BIO_write h (Some a) (Some data) len =
      Some (write_result (ptr_of h a) (take (nat len) data), h')" "connected h' a p"
    "same_ends h h' a p" "ring (ptr_of h' p) = ring (ptr_of h p)"
    "ring (ptr_of h' a) =
       ring (ptr_of h a) @ take (nat (write_result (ptr_of h a) (take (nat len) data))) data"
    "\<not> b_closed (ptr_of h a) \<Longrightarrow> b_len (ptr_of h a) = b_size (ptr_of h a) \<Longrightarrow>
       BIO_should_retry (the (h' a)) \<and> BIO_should_write (the (h' a))"
proof -
  let ?d = "take (nat len) data"
  define r where "r = write_result (ptr_of h a) ?d"
  obtain h1 where h1: "bio_write h a (Some ?d) = Some (r, h1)" "connected h1 a p" "same_ends h h1 a p"
    "ring (ptr_of h1 p) = ring (ptr_of h p)" "ring (ptr_of h1 a) = ring (ptr_of h a) @ take (nat r) ?d"
    "?d \<noteq> [] \<Longrightarrow> \<not> b_closed (ptr_of h a) \<Longrightarrow> b_len (ptr_of h a) = b_size (ptr_of h a) \<Longrightarrow>
       BIO_should_retry (the (h1 a)) \<and> BIO_should_write (the (h1 a))"
    using bio_write_spec [OF con, of ?d] unfolding r_def by auto
  have d: "?d \<noteq> []" using len by auto
  have "r \<le> len" using write_result_bounds(1) [of "ptr_of h a" ?d] len by (simp add: r_def)
  then have tk: "take (nat r) ?d = take (nat r) data" by (simp add: min_def nat_le_iff)
  have full: "\<not> 0 < r" if "b_len (ptr_of h a) = b_size (ptr_of h a)" using that by (simp add: r_def write_result_def)
  define h2 where "h2 = (if 0 < r then on_bio (\<lambda>bio. bio\<lparr>num_write := size_add (num_write bio) (nat r)\<rparr>) h1 a else h1)"
  have res: "BIO_write h (Some a) (Some data) len = Some (r, h2)"
    using connectedD(2) [OF con] len(1) h1(1) by (simp add: BIO_write_def h2_def)
  show ?thesis
  proof (rule that [of h2])
    show "BIO_write h (Some a) (Some data) len = Some (write_result (ptr_of h a) ?d, h2)"
      using res by (simp add: r_def)
    show "connected h2 a p" using h1(2) by (auto simp: h2_def)
    show "same_ends h h2 a p" using h1(3) by (simp add: h2_def)
    show "ring (ptr_of h2 p) = ring (ptr_of h p)" using h1(4) by (simp add: h2_def)
    show "ring (ptr_of h2 a) = ring (ptr_of h a) @ take (nat (write_result (ptr_of h a) ?d)) data"
      using h1(5) tk by (simp add: h2_def r_def)
  next
    assume "\<not> b_closed (ptr_of h a)" "b_len (ptr_of h a) = b_size (ptr_of h a)"
    then show "BIO_should_retry (the (h2 a)) \<and> BIO_should_write (the (h2 a))"
      using h1(6) d full by (simp add: h2_def)
  qed
qed

lemma read_result_bounds: "read_result b n \<le> int n" "-1 \<le> read_result b n" "read_result b n \<le> int (b_len b)"
  by (auto simp: read_result_def)

lemma BIO_read_exact:
  assumes con: "connected h a p" and len: "0 < len"
  obtains h' where "BIO_read h (Some a) False len =
      Some (read_result (ptr_of h p) (nat len),
            take (nat (read_result (ptr_of h p) (nat len))) (ring (ptr_of h p)), h')"
    "connected h' a p" "same_ends h h' a p" "ring (ptr_of h' a) = ring (ptr_of h a)"
    "ring (ptr_of h' p) = drop (nat (read_result (ptr_of h p) (nat len))) (ring (ptr_of h p))"
    "\<not> b_closed (ptr_of h p) \<Longrightarrow> b_len (ptr_of h p) = 0 \<Longrightarrow>
       BIO_should_retry (the (h' a)) \<and> BIO_should_read (the (h' a)) \<and>
       b_request (ptr_of h' p) = min (nat len) (b_size (ptr_of h p))"
proof -
  define r where "r = read_result (ptr_of h p) (nat len)"
  obtain h1 where h1: "bio_read h a False (nat len) = Some (r, take (nat r) (ring (ptr_of h p)), h1)"
    "connected h1 a p" "same_ends h h1 a p" "ring (ptr_of h1 a) = ring (ptr_of h a)"
    "ring (ptr_of h1 p) = drop (nat r) (ring (ptr_of h p))"
    "\<not> b_closed (ptr_of h p) \<Longrightarrow> b_len (ptr_of h p) = 0 \<Longrightarrow>
       BIO_should_retry (the (h1 a)) \<and> BIO_should_read (the (h1 a)) \<and>
       b_request (ptr_of h1 p) = min (nat len) (b_size (ptr_of h p))"
    using bio_read_spec [OF con, of "nat len"] len unfolding r_def by auto
  have empty: "\<not> 0 < r" if "b_len (ptr_of h p) = 0" using that by (simp add: r_def read_result_def)
  define h2 where "h2 = (if 0 < r then on_bio (\<lambda>bio. bio\<lparr>num_read := size_add (num_read bio) (nat r)\<rparr>) h1 a else h1)"
  have res: "BIO_read h (Some a) False len = Some (r, take (nat r) (ring (ptr_of h p)), h2)"
    using connectedD(2) [OF con] len h1(1) by (simp add: BIO_read_def h2_def)
  show ?thesis
  proof (rule that [of h2])
    show "BIO_read h (Some a) False len = Some (read_result (ptr_of h p) (nat len),
        take (nat (read_result (ptr_of h p) (nat len))) (ring (ptr_of h p)), h2)"
      using res by (simp add: r_def)
    show "connected h2 a p" using h1(2) by (auto simp: h2_def)
    show "same_ends h h2 a p" using h1(3) by (simp add: h2_def)
    show "ring (ptr_of h2 a) = ring (ptr_of h a)" using h1(4) by (simp add: h2_def)
    show "ring (ptr_of h2 p) = drop (nat (read_result (ptr_of h p) (nat len))) (ring (ptr_of h p))"
      using h1(5) by (simp add: h2_def r_def)
  next
    assume "\<not> b_closed (ptr_of h p)" "b_len (ptr_of h p) = 0"
    then show "BIO_should_retry (the (h2 a)) \<and> BIO_should_read (the (h2 a)) \<and>
        b_request (ptr_of h2 p) = min (nat len) (b_size (ptr_of h p))"
      using h1(6) empty by (simp add: h2_def)
  qed
qed

text \<open>With no data, no buffer or no length nothing moves.\<close>

lemma BIO_write_nothing:
  assumes con: "connected h a p" and no: "data = None \<or> len \<le> 0"
  obtains h' where "BIO_write h (Some a) data len = Some (0, h')" "connected h' a p" "ptr_of h' = ptr_of h"
proof (cases "len \<le> 0")
  case True
  then show ?thesis using that [of h] con connectedD(2) [OF con] by (simp add: BIO_write_def)
next
  case False
  then show ?thesis
    using that [of "on_bio BIO_clear_retry_flags h a"] con no connectedD(2) [OF con]
      connected_on_bio [OF con keeps_ring_flags(1), of a]
    by (simp add: BIO_write_def bio_write_def fun_eq_iff)
qed

lemma BIO_read_nothing:
  assumes con: "connected h a p" and no: "buf_null \<or> len \<le> 0"
  obtains h' where "BIO_read h (Some a) buf_null len = Some (0, [], h')" "connected h' a p"
    "ring (ptr_of h' a) = ring (ptr_of h a)" "ring (ptr_of h' p) = ring (ptr_of h p)"
proof (cases "len \<le> 0")
  case True
  then show ?thesis using that [of h] con connectedD(2) [OF con] by (simp add: BIO_read_def)
next
  case False
  define h1 where "h1 = on_bio BIO_clear_retry_flags h a"
  define h2 where "h2 = set_ptr h1 p ((ptr_of h p)\<lparr>b_request := 0\<rparr>)"
  have h1: "connected h1 a p" "ptr_of h1 = ptr_of h" using con by (auto simp: h1_def)
  note c = connectedD [OF con]
  have "bio_read h a True (nat len) = Some (0, [], h2)"
    using c by (simp add: bio_read_def Let_def h1_def [symmetric] h1(2) h2_def [symmetric]) (simp add: h1_def)
  moreover have "connected h2 a p"
    using connected_set_ptr(2) [OF h1(1)] ring_ok_request [OF c(5), of 0] c(7) by (simp add: h2_def)
  ultimately show ?thesis
    using that [of h2] False no c h1(2) by (simp add: BIO_read_def h2_def)
qed

lemma BIO_write_step:
  assumes con: "connected h a p" and w: "BIO_write h (Some a) data len = Some (r, h')"
    and len: "data \<noteq> None \<Longrightarrow> len \<le> int (length (the data))"
  shows "connected h' a p" "ring (ptr_of h' p) = ring (ptr_of h p)"
    "ring (ptr_of h' a) = ring (ptr_of h a) @ take (nat r) (the data)"
proof (atomize (full), cases "data = None \<or> len \<le> 0")
  case True
  obtain h1 where "BIO_write h (Some a) data len = Some (0, h1)" "connected h1 a p" "ptr_of h1 = ptr_of h"
    by (rule BIO_write_nothing [OF con True])
  then show "connected h' a p \<and> ring (ptr_of h' p) = ring (ptr_of h p) \<and>
      ring (ptr_of h' a) = ring (ptr_of h a) @ take (nat r) (the data)"
    using w by simp
next
  case False
  then obtain d where d: "data = Some d" "0 < len" "len \<le> int (length d)" using len by auto
  show "connected h' a p \<and> ring (ptr_of h' p) = ring (ptr_of h p) \<and>
      ring (ptr_of h' a) = ring (ptr_of h a) @ take (nat r) (the data)"
    by (rule BIO_write_exact [OF con d(2,3)]) (use w d(1) in simp)
qed

lemma BIO_read_step:
  assumes con: "connected h a p" and w: "BIO_read h (Some a) buf_null len = Some (r, out, h')"
  shows "connected h' a p" "ring (ptr_of h' a) = ring (ptr_of h a)"
    "ring (ptr_of h p) = out @ ring (ptr_of h' p)"
proof (atomize (full), cases "buf_null \<or> len \<le> 0")
  case True
  obtain h1 where "BIO_read h (Some a) buf_null len = Some (0, [], h1)" "connected h1 a p"
    "ring (ptr_of h1 a) = ring (ptr_of h a)" "ring (ptr_of h1 p) = ring (ptr_of h p)"
    by (rule BIO_read_nothing [OF con True])
  then show "connected h' a p \<and> ring (ptr_of h' a) = ring (ptr_of h a) \<and> ring (ptr_of h p) = out @ ring (ptr_of h' p)"
    using w by simp
next
  case False
  then have len: "0 < len" "buf_null = False" by auto
  show "connected h' a p \<and> ring (ptr_of h' a) = ring (ptr_of h a) \<and> ring (ptr_of h p) = out @ ring (ptr_of h' p)"
    by (rule BIO_read_exact [OF con len(1)]) (use w len(2) in auto)
qed

lemma BIO_ctrl_step:
  assumes con: "connected h a p" and c: "c \<in> {a, p}"
  shows "connected (snd (BIO_ctrl h (Some c) cmd num ptr)) a p"
    "ring (ptr_of (snd (BIO_ctrl h (Some c) cmd num ptr)) x) = ring (ptr_of h x)"
proof -
  note d = connectedD [OF con]
  have upd: "connected (set_ptr h c b) a p" if "ring_ok b" "b_peer b = b_peer (ptr_of h c)" for b
    using connected_set_ptr [OF con that(1)] c d that(2) by auto
  have ring: "ring_ok (ptr_of h c)" using c d by auto
  show "connected (snd (BIO_ctrl h (Some c) cmd num ptr)) a p"
    using con upd [OF ring_ok_request [OF ring, of 0]] upd [OF ring_ok_closed [OF ring, of True]]
    by (cases cmd) (auto simp: BIO_ctrl_def bio_ctrl_def Let_def)
  show "ring (ptr_of (snd (BIO_ctrl h (Some c) cmd num ptr)) x) = ring (ptr_of h x)"
    by (cases cmd) (simp_all add: BIO_ctrl_def bio_ctrl_def Let_def)
qed

section \<open>The pair as a channel\<close>

text \<open>
  What the two users of a pair do, seen from the direction that goes from \<open>a\<close> to \<open>p\<close>: writes to
  \<open>a\<close> put bytes in, reads of \<open>p\<close> take them out, everything else moves nothing in this direction. The
  users may call in any order and with any arguments, short reads and null pointers included.
\<close>

inductive channel_step :: "nat \<Rightarrow> nat \<Rightarrow> heap \<Rightarrow> u8 transfer \<Rightarrow> heap \<Rightarrow> bool" for a p where
  writes: "BIO_write h (Some a) data len = Some (r, h') \<Longrightarrow> (data \<noteq> None \<Longrightarrow> len \<le> int (length (the data))) \<Longrightarrow>
    channel_step a p h (Put (take (nat r) (the data))) h'"
| reads: "BIO_read h (Some p) buf_null len = Some (r, out, h') \<Longrightarrow> channel_step a p h (Got out) h'"
| write_back: "BIO_write h (Some p) data len = Some (r, h') \<Longrightarrow>
    (data \<noteq> None \<Longrightarrow> len \<le> int (length (the data))) \<Longrightarrow> channel_step a p h (Put []) h'"
| read_back: "BIO_read h (Some a) buf_null len = Some (r, out, h') \<Longrightarrow> channel_step a p h (Put []) h'"
| control: "c \<in> {a, p} \<Longrightarrow> BIO_ctrl h (Some c) cmd num ptr = (r, h') \<Longrightarrow> channel_step a p h (Put []) h'"

inductive_cases channel_stepE: "channel_step a p h e h'"

lemma channel_step_spec:
  assumes "connected h a p" "channel_step a p h e h'"
  shows "connected h' a p \<and>
    (case e of Put xs \<Rightarrow> ring (ptr_of h' a) = ring (ptr_of h a) @ xs
             | Got xs \<Rightarrow> ring (ptr_of h a) = xs @ ring (ptr_of h' a))"
  using assms(2)
proof cases
  case (writes data len r)
  then show ?thesis using BIO_write_step [OF assms(1) writes(2,3)] writes(1) by simp
next
  case (reads buf_null len r out)
  have "connected h p a" using assms(1) connected_sym by simp
  then show ?thesis using BIO_read_step [OF _ reads(2)] reads(1) connected_sym by simp
next
  case (write_back data len r)
  have "connected h p a" using assms(1) connected_sym by simp
  then show ?thesis using BIO_write_step [OF _ write_back(2,3)] write_back(1) connected_sym by simp
next
  case (read_back buf_null len r out)
  then show ?thesis using BIO_read_step [OF assms(1) read_back(2)] read_back(1) by simp
next
  case (control c cmd num ptr r)
  then show ?thesis using BIO_ctrl_step [OF assms(1) control(2), of cmd num ptr] control(1,3) by auto
qed

interpretation channel: fifo "\<lambda>h. connected h a p" "\<lambda>h. ring (ptr_of h a)" "channel_step a p" for a p
proof unfold_locales
  show "connected h a p \<Longrightarrow> channel_step a p h e h' \<Longrightarrow> connected h' a p" for h e h'
    using channel_step_spec by blast
  show "connected h a p \<Longrightarrow> channel_step a p h (Put xs) h' \<Longrightarrow> ring (ptr_of h' a) = ring (ptr_of h a) @ xs" for h xs h'
    using channel_step_spec by fastforce
  show "connected h a p \<Longrightarrow> channel_step a p h (Got xs) h' \<Longrightarrow> ring (ptr_of h a) = xs @ ring (ptr_of h' a)" for h xs h'
    using channel_step_spec by fastforce
qed

section \<open>Making and freeing a pair\<close>

text \<open>The size of a buffer asked for with \<open>n\<close>, and one BIO of a new pair.\<close>

definition buffer_size :: "nat \<Rightarrow> nat" where
  "buffer_size n = (if n \<noteq> 0 then n else 17 * 1024)"

definition new_end :: "nat \<Rightarrow> u8 \<Rightarrow> nat \<Rightarrow> bio" where
  "new_end peer junk n =
    \<lparr>bio_init = True, bio_shutdown = 1, bio_flags = 0, bio_retry_reason = 0,
     bio_ptr = Some \<lparr>b_peer = Some peer, b_closed = False, b_len = 0, b_offset = 0, b_size = buffer_size n,
       b_buf = Some (replicate (buffer_size n) junk), b_request = 0\<rparr>,
     num_read = 0, num_write = 0\<rparr>"

text \<open>Addresses the allocator may return: nothing is there, and none of the three blocks is in use.\<close>

definition blocks_of :: "nat \<Rightarrow> block set" where
  "blocks_of a = {Bio a, State a, Buffer a}"

definition fresh :: "heap \<Rightarrow> ledger \<Rightarrow> nat \<Rightarrow> bool" where
  "fresh h m a \<longleftrightarrow> h a = None \<and> blocks_of a \<inter> a_live m = {}"

text \<open>The requests of a list of sizes are granted, one after the other.\<close>

fun granted :: "(nat \<Rightarrow> nat \<Rightarrow> bool) \<Rightarrow> nat \<Rightarrow> nat list \<Rightarrow> bool" where
  "granted g k [] \<longleftrightarrow> True"
| "granted g k (n # ns) \<longleftrightarrow> g k n \<and> granted g (Suc k) ns"

definition unpaired :: "nat \<Rightarrow> u8 list option \<Rightarrow> bio" where
  "unpaired n buf = \<lparr>bio_init = False, bio_shutdown = 1, bio_flags = 0, bio_retry_reason = 0,
     bio_ptr = Some \<lparr>b_peer = None, b_closed = False, b_len = 0, b_offset = 0, b_size = n, b_buf = buf, b_request = 0\<rparr>,
     num_read = 0, num_write = 0\<rparr>"

lemma allocate_simps [simp]:
  "g (a_requests m) n \<Longrightarrow>
     allocate g b n m = (True, m\<lparr>a_requests := a_requests m + 1, a_live := insert b (a_live m)\<rparr>)"
  "\<not> g (a_requests m) n \<Longrightarrow> allocate g b n m = (False, m\<lparr>a_requests := a_requests m + 1\<rparr>)"
  by (simp_all add: allocate_def Let_def)

text \<open>A BIO is made with its state, or nothing is left.\<close>

lemma BIO_new_spec:
  obtains "granted g (a_requests m) [sizeof_BIO, sizeof_bio_bio]"
      "BIO_new g a h m = (Some a, h(a \<mapsto> unpaired 17408 None),
         m\<lparr>a_requests := a_requests m + 2, a_live := insert (State a) (insert (Bio a) (a_live m))\<rparr>)"
    | m' where "\<not> granted g (a_requests m) [sizeof_BIO, sizeof_bio_bio]" "BIO_new g a h m = (None, h, m')"
      "blocks_of a \<inter> a_live m = {} \<Longrightarrow> \<exists>k. m' = m\<lparr>a_requests := k\<rparr>"
proof (cases "g (a_requests m) sizeof_BIO")
  case True
  show thesis
  proof (cases "g (Suc (a_requests m)) sizeof_bio_bio")
    case s: True
    show ?thesis by (rule that(1)) (use True s in \<open>simp_all add: BIO_new_def bio_new_def unpaired_def\<close>)
  next
    case False
    show ?thesis
      by (rule that(2) [OF _ prod_eqI [OF _ prod_eqI]])
        (use True False in \<open>auto simp: BIO_new_def bio_new_def release_def blocks_of_def intro!: exI\<close>)
  qed
next
  case False
  show thesis by (rule that(2) [OF _ prod_eqI [OF _ prod_eqI]]) (use False in \<open>auto simp: BIO_new_def intro!: exI\<close>)
qed

text \<open>Freeing a BIO without a peer, or none.\<close>

lemma BIO_free_None: "BIO_free h m None = (h, m)"
  by (simp add: BIO_free_def)

lemma BIO_free_unpaired:
  assumes "h a = Some (unpaired n buf)"
  shows "BIO_free h m (Some a) =
    (h(a := None), release (Bio a) (release (State a) (if buf = None then m else release (Buffer a) m)))"
  using assms by (simp add: BIO_free_def bio_free_def ptr_of_def unpaired_def)

lemma make_buffer_spec:
  "make_buffer g junk n a (the (bio_ptr (unpaired 17408 None))) m =
    (if g (a_requests m) (buffer_size n)
     then (True, the (bio_ptr (unpaired (buffer_size n) (Some (replicate (buffer_size n) junk)))),
       m\<lparr>a_requests := a_requests m + 1, a_live := insert (Buffer a) (a_live m)\<rparr>)
     else (False, the (bio_ptr (unpaired (buffer_size n) None)), m\<lparr>a_requests := a_requests m + 1\<rparr>))"
  by (simp add: make_buffer_def unpaired_def buffer_size_def)

text \<open>The pair is made of two BIOs without buffers, or the buffer that was had is left to its BIO.\<close>

lemma make_pair_spec:
  assumes "h a = Some (unpaired 17408 None)" "h p = Some (unpaired 17408 None)" "a \<noteq> p"
  obtains "granted g (a_requests m) [buffer_size n1, buffer_size n2]"
      "bio_make_pair g junk h m a p n1 n2 = (True, h(a \<mapsto> new_end p junk n1, p \<mapsto> new_end a junk n2),
         m\<lparr>a_requests := a_requests m + 2, a_live := insert (Buffer p) (insert (Buffer a) (a_live m))\<rparr>)"
    | "\<not> g (a_requests m) (buffer_size n1)"
      "bio_make_pair g junk h m a p n1 n2 =
        (False, h(a \<mapsto> unpaired (buffer_size n1) None), m\<lparr>a_requests := a_requests m + 1\<rparr>)"
    | "g (a_requests m) (buffer_size n1)" "\<not> g (Suc (a_requests m)) (buffer_size n2)"
      "bio_make_pair g junk h m a p n1 n2 =
        (False, h(a \<mapsto> unpaired (buffer_size n1) (Some (replicate (buffer_size n1) junk)),
           p \<mapsto> unpaired (buffer_size n2) None),
         m\<lparr>a_requests := a_requests m + 2, a_live := insert (Buffer a) (a_live m)\<rparr>)"
proof -
  let ?b = "the (bio_ptr (unpaired 17408 None))"
  have ptr: "ptr_of h a = ?b" "ptr_of h p = ?b" using assms by (simp_all add: ptr_of_def)
  have peer: "b_peer (the (bio_ptr (unpaired n x))) = None" for n x by (simp add: unpaired_def)
  have put: "(unpaired k x)\<lparr>bio_ptr := Some (the (bio_ptr (unpaired n y)))\<rparr> = unpaired n y" for k n x y
    by (simp add: unpaired_def)
  note run = bio_make_pair_def make_buffer_spec ptr peer
  consider "granted g (a_requests m) [buffer_size n1, buffer_size n2]" | "\<not> g (a_requests m) (buffer_size n1)"
    | "g (a_requests m) (buffer_size n1)" "\<not> g (Suc (a_requests m)) (buffer_size n2)" by auto
  then show thesis
  proof cases
    case 1
    show ?thesis
      by (rule that(1) [OF 1])
        (use 1 assms in \<open>simp add: run, simp add: set_ptr_def on_bio_def new_end_def unpaired_def ptr_of_def fun_upd_twist\<close>)
  next
    case 2
    show ?thesis
      by (rule that(2) [OF 2]) (use 2 assms in \<open>simp add: run, simp add: set_ptr_def put\<close>)
  next
    case 3
    show ?thesis
      by (rule that(3) [OF 3]) (use 3 assms in \<open>simp add: run, simp add: set_ptr_def put\<close>)
  qed
qed

definition pair_requests :: "nat \<Rightarrow> nat \<Rightarrow> nat list" where
  "pair_requests n1 n2 =
    [sizeof_BIO, sizeof_bio_bio, sizeof_BIO, sizeof_bio_bio, buffer_size n1, buffer_size n2]"

lemma ledger_restored [simp]:
  "m\<lparr>a_requests := k, a_live := l\<rparr> = m\<lparr>a_requests := j\<rparr> \<longleftrightarrow> k = j \<and> l = a_live m"
  by (cases m) auto

text \<open>A pair that is made takes six blocks; one that is not takes none, whichever request was refused.\<close>

lemma new_bio_pair:
  assumes "a \<noteq> p"
  obtains "granted g (a_requests m) (pair_requests n1 n2)"
      "BIO_new_bio_pair g junk a p h m n1 n2 =
        (Some (a, p), h(a \<mapsto> new_end p junk n1, p \<mapsto> new_end a junk n2),
         m\<lparr>a_requests := a_requests m + 6, a_live := a_live m \<union> blocks_of a \<union> blocks_of p\<rparr>)"
    | h' m' where "\<not> granted g (a_requests m) (pair_requests n1 n2)"
      "BIO_new_bio_pair g junk a p h m n1 n2 = (None, h', m')"
      "fresh h m a \<Longrightarrow> fresh h m p \<Longrightarrow> h' = h \<and> (\<exists>k. m' = m\<lparr>a_requests := k\<rparr>)"
proof -
  let ?u = "unpaired 17408 None"
  show thesis
  proof (rule BIO_new_spec [of g m a h])
    assume g1: "granted g (a_requests m) [sizeof_BIO, sizeof_bio_bio]"
    define m1 where "m1 = m\<lparr>a_requests := a_requests m + 2, a_live := insert (State a) (insert (Bio a) (a_live m))\<rparr>"
    define h1 where "h1 = h(a \<mapsto> ?u)"
    assume "BIO_new g a h m = (Some a, h(a \<mapsto> ?u),
      m\<lparr>a_requests := a_requests m + 2, a_live := insert (State a) (insert (Bio a) (a_live m))\<rparr>)"
    then have n1: "BIO_new g a h m = (Some a, h1, m1)" by (simp only: h1_def m1_def)
    have h1: "h1 a = Some ?u" by (simp add: h1_def)
    show thesis
    proof (rule BIO_new_spec [of g m1 p h1])
      assume g2: "granted g (a_requests m1) [sizeof_BIO, sizeof_bio_bio]"
      define m2 where "m2 = m1\<lparr>a_requests := a_requests m1 + 2, a_live := insert (State p) (insert (Bio p) (a_live m1))\<rparr>"
      define h2 where "h2 = h1(p \<mapsto> ?u)"
      assume "BIO_new g p h1 m1 = (Some p, h1(p \<mapsto> ?u),
        m1\<lparr>a_requests := a_requests m1 + 2, a_live := insert (State p) (insert (Bio p) (a_live m1))\<rparr>)"
      then have n2: "BIO_new g p h1 m1 = (Some p, h2, m2)" by (simp only: h2_def m2_def)
      have h2: "h2 a = Some ?u" "h2 p = Some ?u" using assms by (simp_all add: h2_def h1_def)
      have run: "BIO_new_bio_pair g junk a p h m n1 n2 = (case bio_make_pair g junk h2 m2 a p n1 n2 of
          (made, h, m) \<Rightarrow> if \<not> made then
              let (h, m) = BIO_free h m (Some a); (h, m) = BIO_free h m (Some p) in (None, h, m)
            else (Some (a, p), h, m))"
        by (simp add: BIO_new_bio_pair_def n1 n2 split: prod.splits)
      show thesis
      proof (rule make_pair_spec [OF h2 assms, of g m2 n1 n2 junk])
        assume ok: "granted g (a_requests m2) [buffer_size n1, buffer_size n2]"
        assume "bio_make_pair g junk h2 m2 a p n1 n2 = (True, h2(a \<mapsto> new_end p junk n1, p \<mapsto> new_end a junk n2),
          m2\<lparr>a_requests := a_requests m2 + 2, a_live := insert (Buffer p) (insert (Buffer a) (a_live m2))\<rparr>)"
        moreover have "insert (Buffer p) (insert (Buffer a) (a_live m2)) = a_live m \<union> blocks_of a \<union> blocks_of p"
          by (auto simp: m2_def m1_def blocks_of_def)
        moreover have "h2(a \<mapsto> x, p \<mapsto> y) = h(a \<mapsto> x, p \<mapsto> y)" for x y
          using assms by (simp add: h2_def h1_def fun_upd_twist)
        moreover have "a_requests m2 + 2 = a_requests m + 6" by (simp add: m2_def m1_def)
        moreover have "m2\<lparr>a_requests := k, a_live := l\<rparr> = m\<lparr>a_requests := k, a_live := l\<rparr>" for k l
          by (simp add: m2_def m1_def)
        ultimately show thesis
          by (intro that(1)) (use g1 g2 ok in \<open>simp_all add: run pair_requests_def m2_def m1_def\<close>)
      next
        assume no: "\<not> g (a_requests m2) (buffer_size n1)"
        assume made: "bio_make_pair g junk h2 m2 a p n1 n2 =
          (False, h2(a \<mapsto> unpaired (buffer_size n1) None), m2\<lparr>a_requests := a_requests m2 + 1\<rparr>)"
        have none: "BIO_new_bio_pair g junk a p h m n1 n2 = (None, h2(a := None, p := None),
            release (Bio p) (release (State p) (release (Bio a) (release (State a) (m2\<lparr>a_requests := a_requests m2 + 1\<rparr>)))))"
          using assms h2 by (simp add: run made BIO_free_unpaired)
        show thesis
          by (rule that(2) [OF _ none])
            (use no assms in \<open>auto simp: pair_requests_def m2_def m1_def h2_def h1_def release_def fresh_def blocks_of_def fun_eq_iff\<close>)
      next
        assume no: "g (a_requests m2) (buffer_size n1)" "\<not> g (Suc (a_requests m2)) (buffer_size n2)"
        assume made: "bio_make_pair g junk h2 m2 a p n1 n2 =
          (False, h2(a \<mapsto> unpaired (buffer_size n1) (Some (replicate (buffer_size n1) junk)), p \<mapsto> unpaired (buffer_size n2) None),
           m2\<lparr>a_requests := a_requests m2 + 2, a_live := insert (Buffer a) (a_live m2)\<rparr>)"
        have none: "BIO_new_bio_pair g junk a p h m n1 n2 = (None, h2(a := None, p := None),
            release (Bio p) (release (State p) (release (Bio a) (release (State a) (release (Buffer a)
              (m2\<lparr>a_requests := a_requests m2 + 2, a_live := insert (Buffer a) (a_live m2)\<rparr>))))))"
          using assms by (simp add: run made BIO_free_unpaired fun_upd_twist)
        show thesis
          by (rule that(2) [OF _ none])
            (use no assms in \<open>auto simp: pair_requests_def m2_def m1_def h2_def h1_def release_def fresh_def blocks_of_def fun_eq_iff\<close>)
      qed
    next
      fix m' assume no: "\<not> granted g (a_requests m1) [sizeof_BIO, sizeof_bio_bio]" "BIO_new g p h1 m1 = (None, h1, m')"
        "blocks_of p \<inter> a_live m1 = {} \<Longrightarrow> \<exists>k. m' = m1\<lparr>a_requests := k\<rparr>"
      have run: "BIO_new_bio_pair g junk a p h m n1 n2 =
          (None, h1(a := None), release (Bio a) (release (State a) m'))"
        by (simp add: BIO_new_bio_pair_def n1 no(2) BIO_free_None BIO_free_unpaired [where h = h1 and a = a, OF h1])
      show thesis
        by (rule that(2) [OF _ run])
          (use no(1,3) assms in \<open>auto simp: pair_requests_def m1_def h1_def release_def fresh_def blocks_of_def fun_eq_iff\<close>)
    qed
  next
    fix m1 assume no: "\<not> granted g (a_requests m) [sizeof_BIO, sizeof_bio_bio]" "BIO_new g a h m = (None, h, m1)"
      "blocks_of a \<inter> a_live m = {} \<Longrightarrow> \<exists>k. m1 = m\<lparr>a_requests := k\<rparr>"
    show thesis
    proof (rule BIO_new_spec [of g m1 p h])
      assume n2: "BIO_new g p h m1 = (Some p, h(p \<mapsto> ?u),
        m1\<lparr>a_requests := a_requests m1 + 2, a_live := insert (State p) (insert (Bio p) (a_live m1))\<rparr>)"
      have "BIO_new_bio_pair g junk a p h m n1 n2 = (None, h(p := None), release (Bio p) (release (State p)
          (m1\<lparr>a_requests := a_requests m1 + 2, a_live := insert (State p) (insert (Bio p) (a_live m1))\<rparr>)))"
        by (simp add: BIO_new_bio_pair_def no(2) n2 BIO_free_None BIO_free_unpaired)
      then show thesis
        by (rule that(2) [rotated])
          (use no(1,3) assms in \<open>auto simp: pair_requests_def release_def fresh_def blocks_of_def fun_eq_iff\<close>)
    next
      fix m' assume n2: "BIO_new g p h m1 = (None, h, m')" "blocks_of p \<inter> a_live m1 = {} \<Longrightarrow> \<exists>k. m' = m1\<lparr>a_requests := k\<rparr>"
      have "BIO_new_bio_pair g junk a p h m n1 n2 = (None, h, m')"
        by (simp add: BIO_new_bio_pair_def no(2) n2(1) BIO_free_def)
      then show thesis
        by (rule that(2) [rotated]) (use no(1,3) n2(2) in \<open>auto simp: pair_requests_def fresh_def\<close>)
    qed
  qed
qed

lemma connected_new:
  assumes "a \<noteq> p" "0 < n1" "n1 < 2 ^ 63" "0 < n2" "n2 < 2 ^ 63"
  shows "connected (h(a \<mapsto> new_end p junk n1, p \<mapsto> new_end a junk n2)) a p"
  using assms by (auto simp: connected_def ptr_of_def new_end_def ring_ok_def buffer_size_def)

text \<open>Of a pair that was made successfully: no allocator grants a size that does not fit \<open>ptrdiff_t\<close>.\<close>

lemma new_pair_connected:
  assumes "a \<noteq> p" and g: "\<And>k n. g k n \<Longrightarrow> n < 2 ^ 63"
    and new: "BIO_new_bio_pair g junk a p h0 m n1 n2 = (Some (a, p), h, m')"
  shows "connected h a p" "ring (ptr_of h a) = []" "ring (ptr_of h p) = []"
proof -
  have "granted g (a_requests m) (pair_requests n1 n2) \<and> h = h0(a \<mapsto> new_end p junk n1, p \<mapsto> new_end a junk n2)"
    by (rule new_bio_pair [OF assms(1), where g = g and m = m and junk = junk and h = h0 and ?n1.0 = n1 and ?n2.0 = n2])
      (use new in auto)
  then have size: "buffer_size n1 < 2 ^ 63" "buffer_size n2 < 2 ^ 63" and h: "h = h0(a \<mapsto> new_end p junk n1, p \<mapsto> new_end a junk n2)"
    using g by (auto simp: pair_requests_def)
  show "connected h a p"
    using assms(1) size by (auto simp: h connected_def ptr_of_def new_end_def ring_ok_def buffer_size_def)
  show "ring (ptr_of h a) = []" "ring (ptr_of h p) = []"
    using assms(1) by (simp_all add: h ptr_of_def new_end_def ring_def)
qed

text \<open>A write that fits and a read of what is there can always be done next.\<close>

lemma can_write:
  assumes "connected h a p" "\<not> b_closed (ptr_of h a)" "d \<noteq> []"
    and "b_len (ptr_of h a) + length d \<le> b_size (ptr_of h a)"
  obtains h' where "channel_step a p h (Put d) h'" "connected h' a p" "same_ends h h' a p"
    "ring (ptr_of h' a) = ring (ptr_of h a) @ d"
proof -
  have res: "write_result (ptr_of h a) d = int (length d)" "0 < int (length d)"
    using assms(2-4) by (auto simp: write_result_def)
  obtain h' where h': "BIO_write h (Some a) (Some d) (int (length d)) = Some (int (length d), h')"
    "connected h' a p" "same_ends h h' a p" "ring (ptr_of h' a) = ring (ptr_of h a) @ d"
    by (rule BIO_write_exact [OF assms(1) res(2), of d]) (simp_all add: res(1))
  show ?thesis
    by (rule that [OF _ h'(2,3,4)]) (use channel_step.writes [OF h'(1)] in simp)
qed

lemma can_read:
  assumes "connected h a p" "0 < n" "n \<le> b_len (ptr_of h a)"
  obtains h' where "channel_step a p h (Got (take n (ring (ptr_of h a)))) h'" "connected h' a p"
    "same_ends h h' a p" "ring (ptr_of h' a) = drop n (ring (ptr_of h a))"
proof -
  have con: "connected h p a" using assms(1) connected_sym by simp
  have res: "read_result (ptr_of h a) n = int n" "0 < int n" using assms(2,3) by (auto simp: read_result_def)
  obtain h' where h': "BIO_read h (Some p) False (int n) = Some (int n, take n (ring (ptr_of h a)), h')"
    "connected h' p a" "same_ends h h' p a" "ring (ptr_of h' a) = drop n (ring (ptr_of h a))"
    by (rule BIO_read_exact [OF con res(2)]) (use res(1) in auto)
  show ?thesis
    by (rule that [OF channel_step.reads [OF h'(1)]]) (use h' connected_sym in \<open>auto simp: same_ends_def\<close>)
qed

text \<open>A pair with buffers of four bytes, and a run in which its first buffer wraps around.\<close>

definition small_pair :: heap where
  "small_pair = Map.empty(0 \<mapsto> new_end 1 0 4, 1 \<mapsto> new_end 0 0 4)"

definition no_blocks :: ledger where
  "no_blocks = \<lparr>a_requests = 0, a_live = {}, a_bad = False\<rparr>"

lemma small_pair_made:
  obtains m where "BIO_new_bio_pair (\<lambda>k n. n < 2 ^ 63) 0 0 1 Map.empty no_blocks 4 4 = (Some (0, 1), small_pair, m)"
  by (rule new_bio_pair [of 0 1 "\<lambda>k n. n < 2 ^ 63" no_blocks 4 4 0 Map.empty])
    (simp_all add: small_pair_def pair_requests_def sizeof_BIO_def sizeof_bio_bio_def buffer_size_def)

lemma small_pair_ends:
  "connected small_pair 0 1" "ring (ptr_of small_pair 0) = []" "\<not> b_closed (ptr_of small_pair 0)"
  "b_size (ptr_of small_pair 0) = 4" "b_size (ptr_of small_pair 1) = 4" "\<not> b_closed (ptr_of small_pair 1)"
  "ring (ptr_of small_pair 1) = []"
  using connected_new [of 0 1 4 4 Map.empty 0]
  by (simp_all add: small_pair_def ptr_of_def new_end_def ring_def buffer_size_def)

definition small_run :: "u8 transfer list" where
  "small_run = [Put [1, 2, 3], Got [1, 2], Put [4, 5, 6], Got [3, 4, 5]]"

lemma small_pair_run: "\<exists>h'. run (channel_step 0 1) small_pair small_run h'"
proof -
  have len: "b_len (ptr_of h a) = length (ring (ptr_of h a))" for h a by simp
  note e = small_pair_ends
  obtain h1 where h1: "channel_step 0 1 small_pair (Put [1, 2, 3]) h1" "connected h1 0 1" "same_ends small_pair h1 0 1"
    "ring (ptr_of h1 0) = [] @ [1, 2, 3]"
    using can_write [OF e(1,3), of "[1, 2, 3]", unfolded len e(2,4)] by auto
  obtain h2 where h2: "channel_step 0 1 h1 (Got [1, 2]) h2" "connected h2 0 1" "same_ends h1 h2 0 1"
    "ring (ptr_of h2 0) = [3]"
    using can_read [OF h1(2), of 2, unfolded len h1(4)] by auto
  have s2: "\<not> b_closed (ptr_of h2 0)" "b_size (ptr_of h2 0) = 4"
    using e h1(3) h2(3) by (simp_all add: same_ends_def)
  obtain h3 where h3: "channel_step 0 1 h2 (Put [4, 5, 6]) h3" "connected h3 0 1"
    "ring (ptr_of h3 0) = [3] @ [4, 5, 6]"
    using can_write [OF h2(2) s2(1), of "[4, 5, 6]", unfolded len h2(4) s2(2)] by auto
  obtain h4 where h4: "channel_step 0 1 h3 (Got [3, 4, 5]) h4"
    using can_read [OF h3(2), of 3, unfolded len h3(3)] by auto
  show ?thesis
    unfolding small_run_def using h1(1) h2(1) h3(1) h4 by (blast intro: run.intros)
qed

text \<open>Reading \<open>k\<close> times in a row, and what enough reads do.\<close>

primrec reads :: "nat \<Rightarrow> heap \<Rightarrow> nat \<Rightarrow> int \<Rightarrow> (u8 list \<times> heap) option" where
  "reads 0 h a len = Some ([], h)"
| "reads (Suc k) h a len =
    (case BIO_read h (Some a) False len of
       None \<Rightarrow> None
     | Some (r, out, h) \<Rightarrow> map_option (\<lambda>(rest, h). (out @ rest, h)) (reads k h a len))"

lemma same_ends_trans: "same_ends h h1 a p \<Longrightarrow> same_ends h1 h2 a p \<Longrightarrow> same_ends h h2 a p"
  by (simp add: same_ends_def)

lemma reads_drain:
  assumes "connected h a p" "0 < len" "b_len (ptr_of h a) \<le> k * nat len"
  shows "\<exists>h'. reads k h p len = Some (ring (ptr_of h a), h') \<and> connected h' a p \<and>
    ring (ptr_of h' a) = [] \<and> same_ends h h' a p"
  using assms
proof (induction k arbitrary: h)
  case 0
  then have "ring (ptr_of h a) = []" by (simp flip: length_0_conv)
  then show ?case using 0 by (simp add: same_ends_def)
next
  case (Suc k)
  have con: "connected h p a" using Suc.prems(1) connected_sym by simp
  define n where "n = nat (read_result (ptr_of h a) (nat len))"
  obtain h1 where h1: "BIO_read h (Some p) False len =
      Some (read_result (ptr_of h a) (nat len), take n (ring (ptr_of h a)), h1)" "connected h1 p a"
    "same_ends h h1 p a" "ring (ptr_of h1 a) = drop n (ring (ptr_of h a))"
    by (rule BIO_read_exact [OF con Suc.prems(2)]) (auto simp: n_def)
  have "n = min (nat len) (b_len (ptr_of h a))" using Suc.prems(2) by (simp add: n_def read_result_def)
  moreover have "b_len (ptr_of h1 a) = b_len (ptr_of h a) - n" using arg_cong [OF h1(4), of length] by simp
  ultimately have "b_len (ptr_of h1 a) \<le> k * nat len" using Suc.prems(3) by (simp add: min_def le_diff_conv add.commute)
  then obtain h2 where "reads k h1 p len = Some (drop n (ring (ptr_of h a)), h2)" "connected h2 a p"
    "ring (ptr_of h2 a) = []" "same_ends h1 h2 a p"
    using Suc.IH [of h1] Suc.prems(2) h1(2,4) connected_sym by auto
  moreover have "same_ends h h1 a p" using h1(3) by (auto simp: same_ends_def)
  ultimately show ?case using h1(1) same_ends_trans by simp
qed

text \<open>A write of everything, by as many writes as it takes.\<close>

lemma BIO_write_all_spec:
  assumes "connected h a p" "\<not> b_closed (ptr_of h a)"
  shows "\<exists>h'. BIO_write_all h (Some a) data =
      Some (length data \<le> b_size (ptr_of h a) - b_len (ptr_of h a), h') \<and> connected h' a p \<and>
    ring (ptr_of h' a) = ring (ptr_of h a) @ take (b_size (ptr_of h a) - b_len (ptr_of h a)) data \<and>
    ring (ptr_of h' p) = ring (ptr_of h p)"
  using assms
proof (induction "length data" arbitrary: h data rule: less_induct)
  case less
  note c = connectedD [OF less.prems(1)]
  define s where "s = b_size (ptr_of h a) - b_len (ptr_of h a)"
  show ?case
  proof (cases "data = []")
    case True
    then show ?thesis using less.prems by (simp add: BIO_write_all.simps)
  next
    case False
    define n where "n = min INT_MAX (length data)"
    have n: "0 < n" "n \<le> length data" using False by (simp_all add: n_def INT_MAX_def)
    define r where "r = write_result (ptr_of h a) (take n data)"
    obtain h1 where h1: "BIO_write h (Some a) (Some data) (int n) = Some (r, h1)" "connected h1 a p"
      "same_ends h h1 a p" "ring (ptr_of h1 p) = ring (ptr_of h p)"
      "ring (ptr_of h1 a) = ring (ptr_of h a) @ take (nat r) data"
      by (rule BIO_write_exact [OF less.prems(1), of "int n" data]) (use n in \<open>auto simp: r_def\<close>)
    have le: "b_len (ptr_of h a) \<le> b_size (ptr_of h a)" using c(4) by (simp add: ring_ok_def)
    have unfold: "BIO_write_all h (Some a) data =
        (if r \<le> 0 then Some (False, h1) else BIO_write_all h1 (Some a) (drop (nat r) data))"
    proof -
      have "(if INT_MAX < length data then INT_MAX else length data) = n" by (simp add: n_def)
      then show ?thesis using False h1(1) by (subst BIO_write_all.simps) (simp only: length_greater_0_conv if_True, simp)
    qed
    have r: "r = (if s = 0 then -1 else int (min n s))"
      using n False less.prems(2) le by (simp add: r_def write_result_def s_def)
    show ?thesis
    proof (cases "s = 0")
      case True
      then show ?thesis using unfold r h1 False by (auto simp: s_def [symmetric])
    next
      case s: False
      have pos: "0 < nat r" "nat r \<le> s" using r s n by auto
      have "length (drop (nat r) data) < length data" using False pos by simp
      moreover have open1: "\<not> b_closed (ptr_of h1 a)" "b_size (ptr_of h1 a) = b_size (ptr_of h a)"
        using h1(3) less.prems(2) by (simp_all add: same_ends_def)
      moreover have "b_len (ptr_of h1 a) = b_len (ptr_of h a) + nat r"
        using arg_cong [OF h1(5), of length] r n pos by simp
      then have s1: "b_size (ptr_of h1 a) - b_len (ptr_of h1 a) = s - nat r" using open1(2) by (simp add: s_def)
      ultimately obtain h2 where "BIO_write_all h1 (Some a) (drop (nat r) data) =
          Some (length data - nat r \<le> s - nat r, h2)" "connected h2 a p"
        "ring (ptr_of h2 a) = ring (ptr_of h1 a) @ take (s - nat r) (drop (nat r) data)"
        "ring (ptr_of h2 p) = ring (ptr_of h1 p)"
        using less.hyps [of "drop (nat r) data" h1] h1(2) unfolding s1 by auto
      moreover have "take (nat r) data @ take (s - nat r) (drop (nat r) data) = take s data"
        using pos by (metis le_add_diff_inverse take_add)
      moreover have "nat r \<le> length data" using r s n by simp
      ultimately show ?thesis using unfold pos h1(4,5) by (auto simp: s_def [symmetric])
    qed
  qed
qed

section \<open>Properties\<close>

text \<open>C14: a pair works as a channel. After any sequence of reads, writes and control calls on the two
  BIOs of a new pair, in any order and with any arguments, the bytes one user has read are the first of
  the bytes the other has written, in order, and the rest are those in the buffer: nothing is lost,
  duplicated or reordered, in both directions. \<open>BIO_pending\<close> and \<open>BIO_wpending\<close> say how many are left.
\<close>

theorem bio_pair_fifo:
  assumes "a \<noteq> p" "\<And>k n. g k n \<Longrightarrow> n < 2 ^ 63"
    and "BIO_new_bio_pair g junk a p h0 m n1 n2 = (Some (a, p), h, m')"
    and ends: "(s, d) \<in> {(a, p), (p, a)}" and run: "run (channel_step s d) h es h'"
  shows "put_in es = got_out es @ ring (ptr_of h' s) \<and>
    BIO_pending h' (Some d) = int (length (put_in es)) - int (length (got_out es)) \<and>
    BIO_wpending h' (Some s) = BIO_pending h' (Some d)"
proof (intro conjI)
  have con: "connected h s d" "ring (ptr_of h s) = []"
    using new_pair_connected [OF assms(1-3)] ends connected_sym by auto
  show fifo: "put_in es = got_out es @ ring (ptr_of h' s)"
    using channel.in_order [OF run con(1)] con(2) by simp
  note c = connectedD [OF channel.run_ok [OF run con(1)]]
  have pending: "BIO_pending h' (Some d) = int (b_len (ptr_of h' s))"
    using c(7) by (simp add: BIO_pending_def BIO_ctrl_def bio_ctrl_def)
  then show "BIO_pending h' (Some d) = int (length (put_in es)) - int (length (got_out es))"
    unfolding fifo by simp
  show "BIO_wpending h' (Some s) = BIO_pending h' (Some d)"
    unfolding pending using c(4) by (auto simp: BIO_wpending_def BIO_ctrl_def bio_ctrl_def ring_ok_def)
qed

theorem bio_pair_fifo_witness:
  "\<exists>h'. run (channel_step 0 1) small_pair small_run h' \<and> put_in small_run = got_out small_run @ ring (ptr_of h' 0)"
proof -
  obtain h' where r: "run (channel_step 0 1) small_pair small_run h'" using small_pair_run ..
  then show ?thesis
    using small_pair_made bio_pair_fifo [of 0 1 "\<lambda>k n. n < 2 ^ 63" 0 Map.empty no_blocks 4 4 small_pair _ 0 1 small_run h']
    by (metis insertI1 zero_neq_one)
qed

text \<open>C15: the comments on the fields of \<open>struct bio_bio_st\<close> always hold. In every state the users of a new
  pair can reach, both BIOs are initialised and point at each other, each has a buffer of its size,
  \<open>len\<close> is at most \<open>size\<close>, \<open>offset\<close> is below \<open>size\<close> and 0 if the buffer is empty, and \<open>request\<close> is 0 if
  the buffer is not empty and never more than the free space.
\<close>

theorem bio_pair_invariant:
  assumes "a \<noteq> p" "\<And>k n. g k n \<Longrightarrow> n < 2 ^ 63"
    and "BIO_new_bio_pair g junk a p h0 m n1 n2 = (Some (a, p), h, m')"
    and run: "run (channel_step a p) h es h'"
  shows "(bio_init (the (h' a)) \<and> bio_init (the (h' p))) \<and>
    (b_peer (ptr_of h' a) = Some p \<and> b_peer (ptr_of h' p) = Some a) \<and>
    (\<forall>b \<in> {ptr_of h' a, ptr_of h' p}.
      (\<exists>bs. b_buf b = Some bs \<and> length bs = b_size b) \<and> b_len b \<le> b_size b \<and> b_offset b < b_size b \<and>
      (b_len b = 0 \<longrightarrow> b_offset b = 0) \<and> (b_len b \<noteq> 0 \<longrightarrow> b_request b = 0) \<and>
      b_request b \<le> b_size b - b_len b)"
proof (intro conjI)
  have "connected h a p" by (rule new_pair_connected(1) [OF assms(1-3)])
  then have "connected h' a p" by (rule channel.run_ok [OF run])
  note c = connectedD [OF this]
  show "bio_init (the (h' a))" "bio_init (the (h' p))"
    "b_peer (ptr_of h' a) = Some p" "b_peer (ptr_of h' p) = Some a"
    using c by simp_all
  show "\<forall>b \<in> {ptr_of h' a, ptr_of h' p}.
      (\<exists>bs. b_buf b = Some bs \<and> length bs = b_size b) \<and> b_len b \<le> b_size b \<and> b_offset b < b_size b \<and>
      (b_len b = 0 \<longrightarrow> b_offset b = 0) \<and> (b_len b \<noteq> 0 \<longrightarrow> b_request b = 0) \<and>
      b_request b \<le> b_size b - b_len b"
    using c(4,5) by (auto simp: ring_ok_def)
qed

theorem bio_pair_invariant_witness:
  "\<exists>h'. run (channel_step 0 1) small_pair small_run h' \<and> b_len (ptr_of h' 0) \<le> b_size (ptr_of h' 0)"
proof -
  obtain h' where r: "run (channel_step 0 1) small_pair small_run h'" using small_pair_run ..
  then show ?thesis
    using small_pair_made bio_pair_invariant [of 0 1 "\<lambda>k n. n < 2 ^ 63" 0 Map.empty no_blocks 4 4 small_pair _ small_run h']
    by (metis insertI1 zero_neq_one)
qed

text \<open>C16: no call runs forever. In every state the users of a new pair can reach, the copy loops of
  \<open>bio_read\<close> and \<open>bio_write\<close>, whose exit conditions are tests for a remainder of zero, end, for any
  arguments.
\<close>

theorem bio_pair_terminates:
  assumes "a \<noteq> p" "\<And>k n. g k n \<Longrightarrow> n < 2 ^ 63"
    and "BIO_new_bio_pair g junk a p h0 m n1 n2 = (Some (a, p), h, m')"
    and run: "run (channel_step a p) h es h'" and c: "c \<in> {a, p}"
    and len: "data \<noteq> None \<Longrightarrow> len \<le> int (length (the data))"
  shows "BIO_read h' (Some c) buf_null n \<noteq> None \<and> BIO_write h' (Some c) data len \<noteq> None"
proof (intro conjI)
  have "connected h a p" by (rule new_pair_connected(1) [OF assms(1-3)])
  then have "connected h' a p" by (rule channel.run_ok [OF run])
  then obtain d where con: "connected h' c d" using c connected_sym by auto
  show "BIO_read h' (Some c) buf_null n \<noteq> None"
  proof (cases "buf_null \<or> n \<le> 0")
    case True
    show ?thesis by (rule BIO_read_nothing [OF con True]) simp
  next
    case False
    then have n: "0 < n" "buf_null = False" by auto
    show ?thesis by (rule BIO_read_exact [OF con n(1)]) (simp add: n(2))
  qed
  show "BIO_write h' (Some c) data len \<noteq> None"
  proof (cases "data = None \<or> len \<le> 0")
    case True
    show ?thesis by (rule BIO_write_nothing [OF con True]) simp
  next
    case False
    then obtain ds where d: "data = Some ds" "0 < len" "len \<le> int (length ds)" using len by auto
    show ?thesis by (rule BIO_write_exact [OF con d(2,3)]) (simp add: d(1))
  qed
qed

theorem bio_pair_terminates_witness:
  "\<exists>h'. run (channel_step 0 1) small_pair small_run h' \<and> BIO_read h' (Some 1) False 5 \<noteq> None"
proof -
  obtain h' where r: "run (channel_step 0 1) small_pair small_run h'" using small_pair_run ..
  then show ?thesis
    using small_pair_made
      bio_pair_terminates [of 0 1 "\<lambda>k n. n < 2 ^ 63" 0 Map.empty no_blocks 4 4 small_pair _ small_run h' 1 None 0 False 5]
    by (metis insertI1 insertI2 zero_neq_one)
qed

text \<open>What a write does. A write to a BIO of a connected pair that still is open copies as many bytes
  as fit, which is at least what \<open>BIO_ctrl_get_write_guarantee\<close> said it would take, and returns that
  number; into a full buffer it copies nothing, returns -1 and sets the flags that say to retry after
  the peer has read; once the BIO is shut down it returns -1 always. The other direction is untouched.
\<close>

theorem bio_write_outcome:
  assumes "connected h a p" and "0 < len" "len \<le> int (length data)"
  shows "\<exists>r h'. BIO_write h (Some a) (Some data) len = Some (r, h') \<and> connected h' a p \<and>
    (b_closed (ptr_of h a) \<longrightarrow> r = -1) \<and>
    (\<not> b_closed (ptr_of h a) \<and> BIO_ctrl_get_write_guarantee h (Some a) = 0 \<longrightarrow>
       r = -1 \<and> BIO_should_retry (the (h' a)) \<and> BIO_should_write (the (h' a))) \<and>
    (\<not> b_closed (ptr_of h a) \<and> BIO_ctrl_get_write_guarantee h (Some a) \<noteq> 0 \<longrightarrow>
       r = min len (BIO_ctrl_get_write_guarantee h (Some a))) \<and>
    ring (ptr_of h' a) = ring (ptr_of h a) @ take (nat r) data \<and> ring (ptr_of h' p) = ring (ptr_of h p)"
proof -
  note c = connectedD [OF assms(1)]
  have le: "b_len (ptr_of h a) \<le> b_size (ptr_of h a)" using c(4) by (simp add: ring_ok_def)
  have space: "BIO_ctrl_get_write_guarantee h (Some a) = int (b_size (ptr_of h a) - b_len (ptr_of h a))"
    if "\<not> b_closed (ptr_of h a)"
    using that c(6) le by (simp add: BIO_ctrl_get_write_guarantee_def BIO_ctrl_def bio_ctrl_def Let_def of_nat_diff)
  obtain h' where h': "BIO_write h (Some a) (Some data) len =
      Some (write_result (ptr_of h a) (take (nat len) data), h')" "connected h' a p" "same_ends h h' a p"
    "ring (ptr_of h' p) = ring (ptr_of h p)"
    "ring (ptr_of h' a) =
       ring (ptr_of h a) @ take (nat (write_result (ptr_of h a) (take (nat len) data))) data"
    "\<not> b_closed (ptr_of h a) \<and> b_len (ptr_of h a) = b_size (ptr_of h a) \<longrightarrow>
       BIO_should_retry (the (h' a)) \<and> BIO_should_write (the (h' a))"
    by (rule BIO_write_exact [OF assms]) (rule that, assumption+, blast)
  define r where "r = write_result (ptr_of h a) (take (nat len) data)"
  have d: "take (nat len) data \<noteq> []" "length (take (nat len) data) = nat len" using assms(2,3) by auto
  have closed: "b_closed (ptr_of h a) \<Longrightarrow> r = -1" using d(1) by (simp add: r_def write_result_def)
  have full: "BIO_ctrl_get_write_guarantee h (Some a) = 0 \<Longrightarrow> r = -1 \<and> b_len (ptr_of h a) = b_size (ptr_of h a)"
    if "\<not> b_closed (ptr_of h a)"
    using that d(1) le by (simp add: r_def write_result_def space)
  have some: "BIO_ctrl_get_write_guarantee h (Some a) \<noteq> 0 \<Longrightarrow> r = min len (BIO_ctrl_get_write_guarantee h (Some a))"
    if "\<not> b_closed (ptr_of h a)"
    using that d le assms(2) by (simp add: r_def write_result_def space of_nat_min)
  show ?thesis
    using h'(1,2,4,5,6) closed full some unfolding r_def [symmetric] by blast
qed

theorem bio_write_outcome_witness:
  "\<exists>r h'. BIO_write small_pair (Some 0) (Some [1, 2, 3, 4, 5, 6]) 6 = Some (r, h') \<and> r = 4 \<and>
     ring (ptr_of h' 0) = [1, 2, 3, 4]"
proof -
  have "BIO_ctrl_get_write_guarantee small_pair (Some 0) = 4"
    by (simp add: BIO_ctrl_get_write_guarantee_def BIO_ctrl_def bio_ctrl_def Let_def small_pair_def new_end_def ptr_of_def
        buffer_size_def)
  then show ?thesis
    using bio_write_outcome [of small_pair 0 1 6 "[1, 2, 3, 4, 5, 6]"] small_pair_ends by fastforce
qed

text \<open>C17: what was written is read, and then the end is seen. After one user has shut its BIO down, reads of
  any positive size by the other return, in enough calls to make up the number of bytes in the buffer,
  exactly these bytes in order; from then on a read returns 0, not -1, the end-of-file control call
  returns 1 and every write by the first user fails.
\<close>

theorem bio_pair_drains:
  assumes "connected h a p" and n: "0 < n" and k: "b_len (ptr_of h a) \<le> k * nat n"
    and "BIO_shutdown_wr h (Some a) = (r, h1)" and len: "0 < len" "len \<le> int (length data)"
  shows "\<exists>h2 h3 h4. reads k h1 p n = Some (ring (ptr_of h a), h2) \<and>
    BIO_read h2 (Some p) False n = Some (0, [], h3) \<and> BIO_ctrl h2 (Some p) BIO_CTRL_EOF 0 (Some a) = (1, h2) \<and>
    BIO_write h2 (Some a) (Some data) len = Some (-1, h4)"
proof -
  note c = connectedD [OF assms(1)]
  have h1: "h1 = set_ptr h a ((ptr_of h a)\<lparr>b_closed := True\<rparr>)"
    using assms(4) by (simp add: BIO_shutdown_wr_def BIO_ctrl_def bio_ctrl_def)
  then have con: "connected h1 a p" and closed: "b_closed (ptr_of h1 a)"
    and ring: "ring (ptr_of h1 a) = ring (ptr_of h a)" "b_len (ptr_of h1 a) = b_len (ptr_of h a)"
    using connected_set_ptr(1) [OF assms(1) ring_ok_closed [OF c(4)]] c(6) by simp_all
  obtain h2 where h2: "reads k h1 p n = Some (ring (ptr_of h a), h2)" "connected h2 a p" "ring (ptr_of h2 a) = []"
    "b_closed (ptr_of h2 a)"
    using reads_drain [OF con n, of k] k closed unfolding ring by (auto simp: same_ends_def)
  have empty: "b_len (ptr_of h2 a) = 0" using arg_cong [OF h2(3), of length] by simp
  have con2: "connected h2 p a" using h2(2) connected_sym by simp
  have res: "read_result (ptr_of h2 a) (nat n) = 0" using h2(4) empty by (simp add: read_result_def)
  obtain h3 where h3: "BIO_read h2 (Some p) False n = Some (0, [], h3)"
    by (rule BIO_read_exact [OF con2 n]) (simp add: res)
  have wres: "write_result (ptr_of h2 a) (take (nat len) data) = -1"
    using h2(4) len by (auto simp: write_result_def)
  obtain h4 where h4: "BIO_write h2 (Some a) (Some data) len = Some (-1, h4)"
    by (rule BIO_write_exact [OF h2(2) len]) (simp add: wres)
  have "BIO_ctrl h2 (Some p) BIO_CTRL_EOF 0 (Some a) = (1, h2)"
    using empty h2(4) by (simp add: BIO_ctrl_def bio_ctrl_def)
  then show ?thesis using h2(1) h3 h4 by blast
qed

theorem bio_pair_drains_witness:
  "\<exists>h h1 h2. connected h 0 1 \<and> ring (ptr_of h 0) = [7, 8, 9] \<and> BIO_shutdown_wr h (Some 0) = (1, h1) \<and>
     reads 2 h1 1 2 = Some ([7, 8, 9], h2)"
proof -
  obtain h where h: "connected h 0 1" "ring (ptr_of h 0) = [7, 8, 9]"
    using can_write [of small_pair 0 1 "[7, 8, 9]"] small_pair_ends length_ring [of "ptr_of small_pair 0"] by auto
  have "b_len (ptr_of h 0) = 3" using arg_cong [OF h(2), of length] by simp
  moreover obtain h1 where h1: "BIO_shutdown_wr h (Some 0) = (1, h1)"
    by (simp add: BIO_shutdown_wr_def BIO_ctrl_def bio_ctrl_def)
  ultimately show ?thesis
    using bio_pair_drains [of h 0 1 2 2 1 h1 1 "[0]"] h by auto
qed

text \<open>\<open>BIO_write_all\<close> on a BIO of a connected pair returns, succeeds exactly if all of the data fits
  into the buffer, and puts as much of it there as fits in either case.
\<close>

theorem bio_write_all_exact:
  assumes "connected h a p" "\<not> b_closed (ptr_of h a)"
    and "free = nat (BIO_ctrl_get_write_guarantee h (Some a))"
  shows "\<exists>h'. BIO_write_all h (Some a) data = Some (length data \<le> free, h') \<and> connected h' a p \<and>
    ring (ptr_of h' a) = ring (ptr_of h a) @ take free data \<and> ring (ptr_of h' p) = ring (ptr_of h p)"
proof -
  note c = connectedD [OF assms(1)]
  have "free = b_size (ptr_of h a) - b_len (ptr_of h a)"
    using assms(2,3) c(6) by (simp add: BIO_ctrl_get_write_guarantee_def BIO_ctrl_def bio_ctrl_def Let_def)
  then show ?thesis using BIO_write_all_spec [OF assms(1,2), of data] by simp
qed

theorem bio_write_all_exact_witness:
  "\<exists>h'. BIO_write_all small_pair (Some 0) [1, 2, 3, 4, 5] = Some (False, h') \<and> ring (ptr_of h' 0) = [1, 2, 3, 4]"
proof -
  have "BIO_ctrl_get_write_guarantee small_pair (Some 0) = 4"
    by (simp add: BIO_ctrl_get_write_guarantee_def BIO_ctrl_def bio_ctrl_def Let_def small_pair_def new_end_def ptr_of_def
        buffer_size_def)
  then show ?thesis
    using bio_write_all_exact [of small_pair 0 1 4 "[1, 2, 3, 4, 5]"] small_pair_ends by auto
qed

text \<open>Freeing one BIO of a connected pair disconnects the other; freeing that one, there is nothing left.\<close>

lemma release_all:
  assumes "blocks_of a \<subseteq> a_live m"
  shows "release (Bio a) (release (State a) (release (Buffer a) m)) = m\<lparr>a_live := a_live m - blocks_of a\<rparr>"
proof -
  have "a_live m - {Buffer a} - {State a} - {Bio a} = a_live m - blocks_of a" by (auto simp: blocks_of_def)
  then show ?thesis using assms by (simp add: release_def blocks_of_def)
qed

lemma free_connected:
  assumes "connected h a p" "blocks_of a \<subseteq> a_live m"
  obtains h1 where "BIO_free h m (Some a) = (h1, m\<lparr>a_live := a_live m - blocks_of a\<rparr>)"
    "h1 a = None" "h1 p \<noteq> None" "\<not> bio_init (the (h1 p))" "b_peer (ptr_of h1 p) = None" "b_buf (ptr_of h1 p) \<noteq> None"
    "\<And>x. x \<noteq> a \<Longrightarrow> x \<noteq> p \<Longrightarrow> h1 x = h x"
proof -
  note c = connectedD [OF assms(1)]
  define h0 where "h0 = bio_destroy_pair h a"
  obtain x y b c where e: "h a = Some x" "h p = Some y" "bio_ptr x = Some b" "bio_ptr y = Some c" "b_peer b = Some p"
    using assms(1) by (auto simp: connected_def ptr_of_def)
  have "h0 = h(p \<mapsto> (the (h p))\<lparr>bio_ptr := Some ((ptr_of h p)\<lparr>b_peer := None, b_len := 0, b_offset := 0\<rparr>), bio_init := False\<rparr>,
      a \<mapsto> (the (h a))\<lparr>bio_ptr := Some ((ptr_of h a)\<lparr>b_peer := None, b_len := 0, b_offset := 0\<rparr>), bio_init := False\<rparr>)"
    using c(1) by (simp add: h0_def bio_destroy_pair_def e on_bio_def set_ptr_def ptr_of_def)
  then have b: "b_buf (ptr_of h0 a) = b_buf (ptr_of h a)" "b_buf (ptr_of h0 p) = b_buf (ptr_of h p)" "b_peer (ptr_of h0 p) = None"
    "\<not> bio_init (the (h0 p))" "h0 p \<noteq> None" "\<And>x. x \<noteq> a \<Longrightarrow> x \<noteq> p \<Longrightarrow> h0 x = h x"
    using c(1) by (simp_all add: ptr_of_def)
  have buf: "b_buf (ptr_of h a) \<noteq> None" "b_buf (ptr_of h p) \<noteq> None" using c(4,5) by (auto simp: ring_ok_def)
  have "BIO_free h m (Some a) = (h0(a := None), m\<lparr>a_live := a_live m - blocks_of a\<rparr>)"
    using b(1) buf(1) c(6) by (simp add: BIO_free_def bio_free_def release_all [OF assms(2)] flip: h0_def)
  then show thesis
    by (rule that) (use b buf(2) c(1) in \<open>simp_all add: ptr_of_def\<close>)
qed

lemma free_disconnected:
  assumes "b_peer (ptr_of h p) = None" "b_buf (ptr_of h p) \<noteq> None" "blocks_of p \<subseteq> a_live m"
  shows "BIO_free h m (Some p) = (h(p := None), m\<lparr>a_live := a_live m - blocks_of p\<rparr>)"
  using assms(1,2) by (simp add: BIO_free_def bio_free_def release_all [OF assms(3)])

text \<open>C18: making and freeing a pair, with every block accounted for. At two fresh addresses
  \<open>BIO_new_bio_pair\<close> succeeds exactly if the allocator grants its six requests, for the two BIOs, their
  states and their buffers, of 17 KiB where the caller gives no size. Whichever request is refused, the
  first BIO or the second, a state or a buffer, nothing is left behind: the heap is as it was and no
  block is in use that was not before. A pair that was made owns its six blocks. Later, in any state of
  the pair in which it is connected (whatever was written and read), freeing either BIO frees its three
  blocks and leaves the other BIO in place but uninitialised, so that its reads and writes fail; freeing
  that one too leaves the heap and the blocks in use as they were before the pair was made. No block is
  freed that is not in use, so none twice.
\<close>

theorem bio_pair_lifetime:
  assumes "fresh h m a" "fresh h m p" "a \<noteq> p"
  shows "case BIO_new_bio_pair g junk a p h m n1 n2 of
     (None, h', m') \<Rightarrow> \<not> granted g (a_requests m) (pair_requests n1 n2) \<and>
       h' = h \<and> a_live m' = a_live m \<and> a_bad m' = a_bad m
   | (Some (q1, q2), h', m') \<Rightarrow> granted g (a_requests m) (pair_requests n1 n2) \<and> q1 = a \<and> q2 = p \<and>
       a_live m' = a_live m \<union> blocks_of a \<union> blocks_of p \<and> a_bad m' = a_bad m \<and>
       (\<forall>h1 m1 c d. connected h1 c d \<and> {c, d} = {a, p} \<and> (\<forall>x. x \<noteq> a \<and> x \<noteq> p \<longrightarrow> h1 x = h x) \<and>
            a_live m1 = a_live m' \<longrightarrow>
         (case BIO_free h1 m1 (Some c) of (h2, m2) \<Rightarrow>
            a_live m2 = a_live m \<union> blocks_of d \<and> a_bad m2 = a_bad m1 \<and> h2 c = None \<and> h2 d \<noteq> None \<and>
            BIO_read h2 (Some d) False len = Some (-2, [], h2) \<and> BIO_write h2 (Some d) data len = Some (-2, h2) \<and>
            (case BIO_free h2 m2 (Some d) of (h3, m3) \<Rightarrow>
               h3 = h \<and> a_live m3 = a_live m \<and> a_bad m3 = a_bad m1)))"
proof (rule new_bio_pair [OF assms(3), where g = g and m = m and junk = junk and h = h and ?n1.0 = n1 and ?n2.0 = n2])
  assume ok: "granted g (a_requests m) (pair_requests n1 n2)"
  assume new: "BIO_new_bio_pair g junk a p h m n1 n2 =
    (Some (a, p), h(a \<mapsto> new_end p junk n1, p \<mapsto> new_end a junk n2),
     m\<lparr>a_requests := a_requests m + 6, a_live := a_live m \<union> blocks_of a \<union> blocks_of p\<rparr>)"
  have apart: "blocks_of a \<inter> blocks_of p = {}" using assms(3) by (auto simp: blocks_of_def)
  have "case BIO_free h1 m1 (Some c) of (h2, m2) \<Rightarrow>
      a_live m2 = a_live m \<union> blocks_of d \<and> a_bad m2 = a_bad m1 \<and> h2 c = None \<and> h2 d \<noteq> None \<and>
      BIO_read h2 (Some d) False len = Some (-2, [], h2) \<and> BIO_write h2 (Some d) data len = Some (-2, h2) \<and>
      (case BIO_free h2 m2 (Some d) of (h3, m3) \<Rightarrow> h3 = h \<and> a_live m3 = a_live m \<and> a_bad m3 = a_bad m1)"
    if con: "connected h1 c d" and cd: "{c, d} = {a, p}" and rest: "\<forall>x. x \<noteq> a \<and> x \<noteq> p \<longrightarrow> h1 x = h x"
      and live: "a_live m1 = a_live m \<union> blocks_of a \<union> blocks_of p" for h1 m1 c d
  proof -
    have cd': "c = a \<and> d = p \<or> c = p \<and> d = a" using cd by (auto simp: doubleton_eq_iff)
    then have sub: "blocks_of c \<subseteq> a_live m1" using live by auto
    obtain h2 where free: "BIO_free h1 m1 (Some c) = (h2, m1\<lparr>a_live := a_live m1 - blocks_of c\<rparr>)"
      and h2: "h2 c = None" "h2 d \<noteq> None" "\<not> bio_init (the (h2 d))" "b_peer (ptr_of h2 d) = None" "b_buf (ptr_of h2 d) \<noteq> None"
        "\<And>x. x \<noteq> c \<Longrightarrow> x \<noteq> d \<Longrightarrow> h2 x = h1 x"
      using free_connected [OF con sub] by blast
    have left: "a_live m1 - blocks_of c = a_live m \<union> blocks_of d" "a_live m \<union> blocks_of d - blocks_of d = a_live m"
      using cd' apart assms(1,2) live by (auto simp: fresh_def)
    have "h2(d := None) = h"
    proof
      fix x show "(h2(d := None)) x = h x"
        using cd' h2(1,6) rest assms(1,2) by (cases "x = a \<or> x = p") (auto simp: fresh_def)
    qed
    then show ?thesis
      using free_disconnected [OF h2(4,5), of "m1\<lparr>a_live := a_live m \<union> blocks_of d\<rparr>"] h2(1-3)
      by (simp add: free left BIO_read_def BIO_write_def)
  qed
  then show ?thesis using ok new by simp
next
  fix h' m' assume "\<not> granted g (a_requests m) (pair_requests n1 n2)" "BIO_new_bio_pair g junk a p h m n1 n2 = (None, h', m')"
    "fresh h m a \<Longrightarrow> fresh h m p \<Longrightarrow> h' = h \<and> (\<exists>k. m' = m\<lparr>a_requests := k\<rparr>)"
  then show ?thesis using assms by auto
qed

text \<open>The second BIO cannot be had.\<close>

theorem bio_pair_lifetime_witness:
  "\<exists>m'. BIO_new_bio_pair (\<lambda>k n. k \<noteq> 2) 0 0 1 Map.empty no_blocks 4 0 = (None, Map.empty, m') \<and> a_live m' = {} \<and> \<not> a_bad m'"
proof -
  have "fresh Map.empty no_blocks 0" "fresh Map.empty no_blocks 1" by (simp_all add: fresh_def no_blocks_def)
  from bio_pair_lifetime [OF this, where g = "\<lambda>k n. k \<noteq> 2" and junk = 0 and ?n1.0 = 4 and ?n2.0 = 0 and len = 0 and data = None]
  show ?thesis by (auto simp: pair_requests_def no_blocks_def split: prod.splits option.splits)
qed

end
