(* ===== verification/Bio_Asn1.thy ===== *)
theory Bio_Asn1
  imports Bio_Pair Cbs_Asn1
begin

text \<open>
  Reading one ASN.1 element from a BIO: \<^verbatim>\<open>bio_read_full\<close>, \<^verbatim>\<open>bio_read_all\<close> and \<^verbatim>\<open>BIO_read_asn1\<close> of
  \<^verbatim>\<open>crypto/bio/bio.c\<close>, on the BIOs of a pair. As there, a function whose loop might not end
  returns an option, and the lemmas show it always returns; \<open>g\<close> says which sizes the allocator grants
  and \<open>junk\<close> what fresh memory holds. The error is the reason put on the error queue.
\<close>

section \<open>The code\<close>

datatype asn1_error = HEADER_TOO_LONG | NOT_ENOUGH_DATA | DECODE_ERROR | TOO_LONG | MALLOC_FAILURE

text \<open>
  The result: whether all bytes were read, \<^verbatim>\<open>*out_eof_on_first_read\<close> (which is only set on failure),
  the bytes put into \<^verbatim>\<open>out\<close>, the heap.
\<close>

function bio_read_full_loop ::
    "heap \<Rightarrow> nat option \<Rightarrow> bool \<Rightarrow> nat \<Rightarrow> u8 list \<Rightarrow> (bool \<times> bool \<times> u8 list \<times> heap) option" where
  "bio_read_full_loop h bio first_read len acc =
    (if 0 < len then
       let todo = (if len \<le> INT_MAX then len else INT_MAX)
       in case BIO_read h bio False (int todo) of
            None \<Rightarrow> None
          | Some (ret, out, h) \<Rightarrow>
              if ret \<le> 0 then Some (False, first_read \<and> ret = 0, acc, h)
              else bio_read_full_loop h bio False (len - nat ret) (acc @ out)
     else Some (True, False, acc, h))"
  by pat_completeness auto
termination
  by (relation "measure (\<lambda>(h, bio, first, len, acc). len)") auto

declare bio_read_full_loop.simps [simp del]

definition bio_read_full :: "heap \<Rightarrow> nat option \<Rightarrow> nat \<Rightarrow> (bool \<times> bool \<times> u8 list \<times> heap) option" where
  "bio_read_full h bio len = bio_read_full_loop h bio True len []"

definition kChunkSize :: nat where "kChunkSize = 4096"

text \<open>The loop of \<^verbatim>\<open>bio_read_all\<close>: \<open>buf\<close> is \<^verbatim>\<open>*out\<close>, of \<^verbatim>\<open>len\<close> bytes.\<close>

partial_function (option) bio_read_all_loop ::
    "(nat \<Rightarrow> bool) \<Rightarrow> u8 \<Rightarrow> heap \<Rightarrow> nat option \<Rightarrow> nat \<Rightarrow> u8 list \<Rightarrow> nat \<Rightarrow> (u8 list option \<times> heap) option" where
  "bio_read_all_loop g junk h bio max_len buf done_len =
    (let len = length buf
     in if done_len = len then Some (None, h)
        else
          let todo = len - done_len
          in (case BIO_read h bio False (int todo) of
                None \<Rightarrow> None
              | Some (n, out, h) \<Rightarrow>
                  let buf = blit buf done_len out
                  in if n = 0 then Some (Some (take done_len buf), h)
                     else if n = -1 then Some (None, h)
                     else
                       let done_len = nat ((int done_len + n) mod 2 ^ 64)
                       in if len < max_len \<and> len - done_len < kChunkSize div 2 then
                            let len' = size_add len kChunkSize;
                                len' = (if len' < kChunkSize \<or> max_len < len' then max_len else len')
                            in if \<not> g len' then Some (None, h)
                               else bio_read_all_loop g junk h bio max_len (buf @ replicate (len' - len) junk) done_len
                          else bio_read_all_loop g junk h bio max_len buf done_len))"

definition bio_read_all ::
    "(nat \<Rightarrow> bool) \<Rightarrow> u8 \<Rightarrow> heap \<Rightarrow> nat option \<Rightarrow> u8 list \<Rightarrow> nat \<Rightarrow> (u8 list option \<times> heap) option" where
  "bio_read_all g junk h bio prefix max_len =
    (let prefix_len = length prefix;
         len = size_add prefix_len kChunkSize;
         len = (if max_len < len then max_len else len)
     in if len < prefix_len then Some (None, h)
        else if \<not> g len then Some (None, h)
        else bio_read_all_loop g junk h bio max_len (prefix @ replicate (len - prefix_len) junk) prefix_len)"

text \<open>The end of \<^verbatim>\<open>BIO_read_asn1\<close>: the length is known, \<open>header\<close> is what was read.\<close>

definition read_asn1_body ::
    "(nat \<Rightarrow> bool) \<Rightarrow> heap \<Rightarrow> nat option \<Rightarrow> u8 list \<Rightarrow> nat \<Rightarrow> nat \<Rightarrow> ((asn1_error + u8 list) \<times> heap) option" where
  "read_asn1_body g h bio header len max_len =
    (let header_len = length header
     in if size_add len header_len < len \<or> max_len < size_add len header_len \<or> INT_MAX < len then
          Some (Inl TOO_LONG, h)
        else
          let len = len + header_len
          in if \<not> g len then Some (Inl MALLOC_FAILURE, h)
             else (case bio_read_full h bio (len - header_len) of
                     None \<Rightarrow> None
                   | Some (False, _, _, h) \<Rightarrow> Some (Inl NOT_ENOUGH_DATA, h)
                   | Some (True, _, contents, h) \<Rightarrow> Some (Inr (header @ contents), h)))"

definition BIO_read_asn1 ::
    "(nat \<Rightarrow> bool) \<Rightarrow> u8 \<Rightarrow> heap \<Rightarrow> nat option \<Rightarrow> nat \<Rightarrow> ((asn1_error + u8 list) \<times> heap) option" where
  "BIO_read_asn1 g junk h bio max_len =
    (case bio_read_full h bio 2 of
       None \<Rightarrow> None
     | Some (False, eof_on_first_read, _, h) \<Rightarrow>
         Some (Inl (if eof_on_first_read then HEADER_TOO_LONG else NOT_ENOUGH_DATA), h)
     | Some (True, _, header, h) \<Rightarrow>
         (let tag = header ! 0; length_byte = header ! 1
          in if tag AND 0x1f = 0x1f then Some (Inl DECODE_ERROR, h)
             else if length_byte AND 0x80 = 0 then
               read_asn1_body g h bio header (unat length_byte) max_len
             else
               let num_bytes = unat (length_byte AND 0x7f)
               in if tag AND 0x20 \<noteq> 0 \<and> num_bytes = 0 then
                    (case bio_read_all g junk h bio header max_len of
                       None \<Rightarrow> None
                     | Some (None, h) \<Rightarrow> Some (Inl NOT_ENOUGH_DATA, h)
                     | Some (Some out, h) \<Rightarrow> Some (Inr out, h))
                  else if num_bytes = 0 \<or> 4 < num_bytes then Some (Inl DECODE_ERROR, h)
                  else
                    (case bio_read_full h bio num_bytes of
                       None \<Rightarrow> None
                     | Some (False, _, _, h) \<Rightarrow> Some (Inl NOT_ENOUGH_DATA, h)
                     | Some (True, _, more_header, h) \<Rightarrow>
                         let len32 = foldl (\<lambda>len32 b. push_bit 8 len32 OR ucast b) (0 :: u32) more_header
                         in if len32 < 128 then Some (Inl DECODE_ERROR, h)
                            else if drop_bit ((num_bytes - 1) * 8) len32 = 0 then Some (Inl DECODE_ERROR, h)
                            else read_asn1_body g h bio (header @ more_header) (unat len32) max_len)))"

section \<open>Reading from a connected BIO\<close>

lemma bio_read_full_loop_spec:
  assumes "connected h a p"
  shows "\<exists>eof h'. bio_read_full_loop h (Some a) first len acc =
      Some (len \<le> b_len (ptr_of h p), eof, acc @ take len (ring (ptr_of h p)), h') \<and> connected h' a p \<and>
    same_ends h h' a p \<and> ring (ptr_of h' a) = ring (ptr_of h a) \<and> ring (ptr_of h' p) = drop len (ring (ptr_of h p)) \<and>
    (\<not> len \<le> b_len (ptr_of h p) \<longrightarrow> eof = (first \<and> ring (ptr_of h p) = [] \<and> b_closed (ptr_of h p)))"
  using assms
proof (induction len arbitrary: h first acc rule: less_induct)
  case (less len)
  show ?case
  proof (cases "len = 0")
    case True
    then show ?thesis
      using less.prems by (intro exI [of _ False]) (simp add: bio_read_full_loop.simps same_ends_def)
  next
    case False
    define n where "n = min len INT_MAX"
    have n: "0 < int n" "n \<le> len" "n \<noteq> 0" using False by (simp_all add: n_def INT_MAX_def)
    define r where "r = read_result (ptr_of h p) n"
    obtain h1 where h1: "BIO_read h (Some a) False (int n) = Some (r, take (nat r) (ring (ptr_of h p)), h1)"
      "connected h1 a p" "same_ends h h1 a p" "ring (ptr_of h1 a) = ring (ptr_of h a)"
      "ring (ptr_of h1 p) = drop (nat r) (ring (ptr_of h p))"
      by (rule BIO_read_exact [OF less.prems n(1)]) (simp add: r_def)
    have unfold: "bio_read_full_loop h (Some a) first len acc =
        (if r \<le> 0 then Some (False, first \<and> r = 0, acc, h1)
         else bio_read_full_loop h1 (Some a) False (len - nat r) (acc @ take (nat r) (ring (ptr_of h p))))"
    proof -
      have "(if len \<le> INT_MAX then len else INT_MAX) = n" by (simp add: n_def)
      then show ?thesis using False h1(1) by (subst bio_read_full_loop.simps) (simp only: Let_def, simp)
    qed
    show ?thesis
    proof (cases "b_len (ptr_of h p) = 0")
      case True
      then have "ring (ptr_of h p) = []" by (simp flip: length_0_conv)
      then show ?thesis using True False n h1 unfold by (simp add: r_def read_result_def)
    next
      case some: False
      then have r: "r = int (min n (b_len (ptr_of h p)))" "0 < r" using n by (simp_all add: r_def read_result_def)
      have ne: "ring (ptr_of h p) \<noteq> []" using some by (simp flip: length_0_conv)
      have len1: "b_len (ptr_of h1 p) = b_len (ptr_of h p) - nat r" using arg_cong [OF h1(5), of length] by simp
      have le: "nat r \<le> len" "nat r \<le> b_len (ptr_of h p)" "0 < nat r" using r n some by auto
      obtain eof h2 where h2: "bio_read_full_loop h1 (Some a) False (len - nat r) (acc @ take (nat r) (ring (ptr_of h p))) =
          Some (len - nat r \<le> b_len (ptr_of h1 p), eof,
            (acc @ take (nat r) (ring (ptr_of h p))) @ take (len - nat r) (ring (ptr_of h1 p)), h2)"
        "connected h2 a p" "same_ends h1 h2 a p" "ring (ptr_of h2 a) = ring (ptr_of h1 a)"
        "ring (ptr_of h2 p) = drop (len - nat r) (ring (ptr_of h1 p))"
        "\<not> len - nat r \<le> b_len (ptr_of h1 p) \<longrightarrow> \<not> eof"
        using less.IH [of "len - nat r" h1 False "acc @ take (nat r) (ring (ptr_of h p))"] h1(2) le(1,3) by auto
      have "take (nat r) (ring (ptr_of h p)) @ take (len - nat r) (ring (ptr_of h1 p)) = take len (ring (ptr_of h p))"
        unfolding h1(5) using le(1) by (metis le_add_diff_inverse take_add)
      moreover have "(len - nat r \<le> b_len (ptr_of h1 p)) = (len \<le> b_len (ptr_of h p))" unfolding len1 using le by auto
      ultimately show ?thesis
        using unfold r(2) h2 h1(4,5) le(1) same_ends_trans [OF h1(3) h2(3)] ne by simp
    qed
  qed
qed

lemma bio_read_full_spec:
  assumes "connected h a p"
  obtains eof h' where "bio_read_full h (Some a) len =
      Some (len \<le> b_len (ptr_of h p), eof, take len (ring (ptr_of h p)), h')" "connected h' a p"
    "same_ends h h' a p" "ring (ptr_of h' a) = ring (ptr_of h a)" "ring (ptr_of h' p) = drop len (ring (ptr_of h p))"
    "\<not> len \<le> b_len (ptr_of h p) \<longrightarrow> eof = (ring (ptr_of h p) = [] \<and> b_closed (ptr_of h p))"
  using bio_read_full_loop_spec [OF assms, of True len "[]"] by (auto simp: bio_read_full_def)

text \<open>
  Of the loop that reads to the end of file: it gets all bytes there are, and fails only if the
  writer has not shut down, memory is short or the limit is reached.
\<close>

definition room :: "nat \<Rightarrow> nat \<Rightarrow> nat \<Rightarrow> bool" where
  "room max_len len done_len \<longleftrightarrow> done_len \<le> len \<and> len \<le> max_len \<and> (len = max_len \<or> done_len + 2048 \<le> len)"

lemma bio_read_all_loop_spec:
  assumes "connected h a p" "room max_len (length buf) done_len" "max_len < 2 ^ 64"
  shows "\<exists>res h'. bio_read_all_loop g junk h (Some a) max_len buf done_len = Some (res, h') \<and> connected h' a p \<and>
    ring (ptr_of h' a) = ring (ptr_of h a) \<and>
    (\<forall>out. res = Some out \<longrightarrow> out = take done_len buf @ ring (ptr_of h p) \<and> ring (ptr_of h' p) = [] \<and>
       b_closed (ptr_of h p) \<and> length out < max_len) \<and>
    ((\<forall>n \<le> max_len. g n) \<and> b_closed (ptr_of h p) \<and> done_len + b_len (ptr_of h p) < max_len \<longrightarrow> res \<noteq> None)"
  using assms(1,2)
proof (induction "b_len (ptr_of h p)" arbitrary: h buf done_len rule: less_induct)
  case less
  have room: "done_len \<le> length buf" "length buf \<le> max_len" using less.prems(2) by (simp_all add: room_def)
  show ?case
  proof (cases "done_len = length buf")
    case True
    then have "length buf = max_len" using less.prems(2) by (auto simp: room_def)
    then show ?thesis using True less.prems(1) by (subst bio_read_all_loop.simps) auto
  next
    case False
    define n where "n = length buf - done_len"
    have n: "0 < int n" using False room by (simp add: n_def)
    define r where "r = read_result (ptr_of h p) n"
    define out where "out = take (nat r) (ring (ptr_of h p))"
    obtain h1 where h1: "BIO_read h (Some a) False (int n) = Some (r, out, h1)"
      "connected h1 a p" "same_ends h h1 a p" "ring (ptr_of h1 a) = ring (ptr_of h a)"
      "ring (ptr_of h1 p) = drop (nat r) (ring (ptr_of h p))"
      by (rule BIO_read_exact [OF less.prems(1) n]) (simp add: r_def out_def)
    note unfold = bio_read_all_loop.simps [of g junk h "Some a" max_len buf done_len]
    show ?thesis
    proof (cases "b_len (ptr_of h p) = 0")
      case True
      then have e: "ring (ptr_of h p) = []" by (simp flip: length_0_conv)
      then have "r = (if b_closed (ptr_of h p) then 0 else -1)" "out = []"
        using n True by (simp_all add: r_def read_result_def out_def)
      moreover have "done_len < max_len" using False room by simp
      ultimately show ?thesis
        using False h1 e room by (subst unfold) (auto simp: Let_def n_def [symmetric] blit_def min_absorb2)
    next
      case some: False
      then have r: "r = int (min n (b_len (ptr_of h p)))" "0 < r" using n by (simp_all add: r_def read_result_def)
      define d where "d = done_len + nat r"
      have out: "length out = nat r" "nat r \<le> n" using r by (simp_all add: out_def)
      have d: "d \<le> length buf" using out(2) room by (simp add: d_def n_def)
      have d_eq: "nat ((int done_len + r) mod 2 ^ 64) = d"
        using r(2) d room assms(3) by (simp add: d_def nat_add_distrib)
      define buf1 where "buf1 = blit buf done_len out"
      have buf1: "length buf1 = length buf" "take d buf1 = take done_len buf @ out"
        using take_blit [of done_len buf out] length_blit [of done_len out buf] out d
        by (simp_all add: buf1_def d_def)
      have len1: "b_len (ptr_of h1 p) = b_len (ptr_of h p) - nat r" using arg_cong [OF h1(5), of length] by simp
      have less1: "b_len (ptr_of h1 p) < b_len (ptr_of h p)" using len1 r by simp
      define grow where "grow \<longleftrightarrow> length buf < max_len \<and> length buf - d < 2048"
      define new where "new = min (length buf + kChunkSize) max_len"
      define buf2 where "buf2 = (if grow then buf1 @ replicate (new - length buf) junk else buf1)"
      have new: "(let len' = size_add (length buf) kChunkSize
          in if len' < kChunkSize \<or> max_len < len' then max_len else len') = new" if "length buf < max_len"
      proof (cases "length buf + kChunkSize < 2 ^ 64")
        case True
        then show ?thesis by (auto simp: new_def Let_def)
      next
        case False
        then have "size_add (length buf) kChunkSize = length buf + kChunkSize - 2 ^ 64"
          using that assms(3) by (simp add: size_add_def kChunkSize_def mod_if)
        moreover have "length buf + kChunkSize - 2 ^ 64 < kChunkSize" "max_len \<le> length buf + kChunkSize"
          using that assms(3) False by linarith+
        ultimately show ?thesis by (simp add: new_def Let_def)
      qed
      have step: "bio_read_all_loop g junk h (Some a) max_len buf done_len =
          (if grow \<and> \<not> g new then Some (None, h1)
           else bio_read_all_loop g junk h1 (Some a) max_len buf2 d)"
        using False h1(1) r(2) new
        by (subst unfold)
          (auto simp: Let_def n_def [symmetric] buf1_def [symmetric] d_eq [simplified] buf2_def grow_def buf1 kChunkSize_def)
      show ?thesis
      proof (cases "grow \<and> \<not> g new")
        case True
        moreover have "new \<le> max_len" by (simp add: new_def)
        ultimately have "\<not> (\<forall>n \<le> max_len. g n)" by blast
        then show ?thesis using True step h1 by auto
      next
        case go: False
        have "room max_len (length buf2) d"
          using less.prems(2) d buf1 by (auto simp: room_def buf2_def grow_def new_def kChunkSize_def)
        from less.hyps [OF less1 h1(2) this] obtain res h2 where h2:
          "bio_read_all_loop g junk h1 (Some a) max_len buf2 d = Some (res, h2)" "connected h2 a p"
          "ring (ptr_of h2 a) = ring (ptr_of h1 a)"
          "\<forall>out. res = Some out \<longrightarrow> out = take d buf2 @ ring (ptr_of h1 p) \<and> ring (ptr_of h2 p) = [] \<and>
             b_closed (ptr_of h1 p) \<and> length out < max_len"
          "(\<forall>n \<le> max_len. g n) \<and> b_closed (ptr_of h1 p) \<and> d + b_len (ptr_of h1 p) < max_len \<longrightarrow> res \<noteq> None"
          by blast
        have "take d buf2 @ ring (ptr_of h1 p) = take done_len buf @ ring (ptr_of h p)"
          using buf1 d by (simp add: buf2_def h1(5) out_def)
        moreover have "d + b_len (ptr_of h1 p) = done_len + b_len (ptr_of h p)" using len1 r by (simp add: d_def)
        moreover have "b_closed (ptr_of h1 p) = b_closed (ptr_of h p)" using h1(3) by (simp add: same_ends_def)
        ultimately show ?thesis using go step h2 h1(4) by auto
      qed
    qed
  qed
qed

lemma bio_read_all_spec:
  assumes "connected h a p" "max_len < 2 ^ 64" "length prefix + kChunkSize < 2 ^ 64"
  shows "\<exists>res h'. bio_read_all g junk h (Some a) prefix max_len = Some (res, h') \<and> connected h' a p \<and>
    ring (ptr_of h' a) = ring (ptr_of h a) \<and>
    (\<forall>out. res = Some out \<longrightarrow> out = prefix @ ring (ptr_of h p) \<and> ring (ptr_of h' p) = [] \<and>
       b_closed (ptr_of h p) \<and> length out < max_len) \<and>
    ((\<forall>n \<le> max_len. g n) \<and> b_closed (ptr_of h p) \<and> length prefix + b_len (ptr_of h p) < max_len \<longrightarrow> res \<noteq> None)"
proof -
  define len where "len = min (length prefix + kChunkSize) max_len"
  have len: "(if max_len < size_add (length prefix) kChunkSize then max_len
      else size_add (length prefix) kChunkSize) = len"
    using assms(3) by (simp add: len_def)
  have run: "bio_read_all g junk h (Some a) prefix max_len =
      (if len < length prefix \<or> \<not> g len then Some (None, h)
       else bio_read_all_loop g junk h (Some a) max_len (prefix @ replicate (len - length prefix) junk) (length prefix))"
    by (simp only: bio_read_all_def Let_def len) simp
  show ?thesis
  proof (cases "len < length prefix \<or> \<not> g len")
    case True
    moreover have "len \<le> max_len" by (simp add: len_def)
    moreover have "len < length prefix \<Longrightarrow> max_len < length prefix" by (simp add: len_def)
    ultimately show ?thesis using run assms(1) by auto
  next
    case False
    then have "room max_len (length (prefix @ replicate (len - length prefix) junk)) (length prefix)"
      by (auto simp: room_def len_def kChunkSize_def)
    from bio_read_all_loop_spec [OF assms(1) this assms(2), of g junk] show ?thesis using run False by auto
  qed
qed

lemma read_asn1_body_spec:
  assumes "connected h a p" "length header \<le> 6" "len < 2 ^ 32" "max_len < 2 ^ 64" "\<forall>n \<le> max_len. g n"
  shows "\<exists>res h'. read_asn1_body g h (Some a) header len max_len = Some (res, h') \<and> connected h' a p \<and>
    ring (ptr_of h' a) = ring (ptr_of h a) \<and> res \<noteq> Inl HEADER_TOO_LONG \<and>
    (\<forall>out. res = Inr out \<longleftrightarrow> length header + len \<le> max_len \<and> len \<le> INT_MAX \<and> len \<le> b_len (ptr_of h p) \<and>
       out = header @ take len (ring (ptr_of h p))) \<and>
    (\<forall>out. res = Inr out \<longrightarrow> ring (ptr_of h' p) = drop len (ring (ptr_of h p)))"
proof -
  have add: "size_add len (length header) = len + length header" using assms(2,3) by simp
  show ?thesis
  proof (cases "max_len < len + length header \<or> INT_MAX < len")
    case True
    then show ?thesis using assms(1) by (auto simp: read_asn1_body_def Let_def add)
  next
    case False
    obtain eof h' where h': "bio_read_full h (Some a) len =
      Some (len \<le> b_len (ptr_of h p), eof, take len (ring (ptr_of h p)), h')" "connected h' a p"
      "same_ends h h' a p" "ring (ptr_of h' a) = ring (ptr_of h a)" "ring (ptr_of h' p) = drop len (ring (ptr_of h p))"
      by (rule bio_read_full_spec [OF assms(1), of len])
    have g: "g (len + length header)" using False assms(5) by auto
    show ?thesis
      using False h' g by (cases "len \<le> b_len (ptr_of h p)") (auto simp: read_asn1_body_def Let_def add)
  qed
qed

lemma or_shift8_32: "push_bit 8 v OR ucast b = v * 256 + (ucast b :: u32)" for b :: u8
proof -
  have "push_bit 8 v AND ucast b = (0 :: u32)"
    by (rule bit_word_eqI) (auto simp: bit_simps dest: bit_imp_le_length)
  then have "push_bit 8 v OR ucast b = push_bit 8 v + (ucast b :: u32)"
    using word_plus_and_or [of "push_bit 8 v" "ucast b :: u32"] by simp
  then show ?thesis by (simp add: push_bit_eq_mult)
qed

lemma header_fold: "foldl (\<lambda>len32 b. push_bit 8 len32 OR ucast b) 0 bs = (of_nat (be_val bs) :: u32)"
proof (induction bs rule: rev_induct)
  case (snoc b bs)
  have "(ucast b :: u32) = of_nat (unat b)"
    by (rule word_unat_eq_iff [THEN iffD2]) (simp add: unat_of_nat take_bit_nat_eq_self_iff)
  moreover have "foldl (\<lambda>len32 b. push_bit 8 len32 OR ucast b) 0 (bs @ [b]) =
      (push_bit 8 (of_nat (be_val bs)) OR ucast b :: u32)"
    by (simp add: snoc)
  ultimately show ?case by (simp add: or_shift8_32 algebra_simps)
qed simp

section \<open>What BIO\_read\_asn1 reads\<close>

text \<open>
  The bytes to be read start with an indefinite-length element; \<open>out\<close> is a definite-length element in
  DER at their front that the limit allows.
\<close>

definition indefinite :: "u8 list \<Rightarrow> bool" where
  "indefinite s \<longleftrightarrow> 2 \<le> length s \<and> s ! 0 AND 0x1f \<noteq> 0x1f \<and> s ! 0 AND 0x20 \<noteq> 0 \<and> s ! 1 = 0x80"

definition der_prefix :: "nat \<Rightarrow> u8 list \<Rightarrow> u8 list \<Rightarrow> bool" where
  "der_prefix max_len s out \<longleftrightarrow>
    (\<exists>t c rest. s = out @ rest \<and> out = t # enc_der_length (length c) @ c \<and> t AND 0x1f \<noteq> 0x1f \<and>
       length out \<le> max_len \<and> length c \<le> INT_MAX)"

lemma der_prefix_len:
  assumes "der_prefix max_len (t # h) out"
  obtains c rest where "der_len h = (Some (length c), c @ rest)" "out = t # enc_der_length (length c) @ c"
    "t AND 0x1f \<noteq> 0x1f" "length out \<le> max_len" "length c \<le> INT_MAX"
proof -
  obtain c rest where c: "h = enc_der_length (length c) @ c @ rest" "out = t # enc_der_length (length c) @ c"
    "t AND 0x1f \<noteq> 0x1f" "length out \<le> max_len" "length c \<le> INT_MAX"
    using assms by (auto simp: der_prefix_def)
  have "length c < 2 ^ 32" using c(5) by (simp add: INT_MAX_def)
  then have "der_len h = (Some (length c), c @ rest)" unfolding c(1) by (rule der_len_complete)
  then show ?thesis using that c(2-5) by blast
qed

lemma der_prefix_iff:
  assumes "der_len h = (Some n, r)"
  shows "der_prefix max_len (t # h) out \<longleftrightarrow>
    t AND 0x1f \<noteq> 0x1f \<and> length (t # enc_der_length n) + n \<le> max_len \<and> n \<le> INT_MAX \<and> n \<le> length r \<and>
    out = (t # enc_der_length n) @ take n r"
proof
  assume "der_prefix max_len (t # h) out"
  then obtain c rest where c: "der_len h = (Some (length c), c @ rest)" "out = t # enc_der_length (length c) @ c"
    "t AND 0x1f \<noteq> 0x1f" "length out \<le> max_len" "length c \<le> INT_MAX"
    by (rule der_prefix_len)
  then have "n = length c" "r = c @ rest" using assms by simp_all
  then show "t AND 0x1f \<noteq> 0x1f \<and> length (t # enc_der_length n) + n \<le> max_len \<and> n \<le> INT_MAX \<and> n \<le> length r \<and>
      out = (t # enc_der_length n) @ take n r" using c by simp
next
  assume "t AND 0x1f \<noteq> 0x1f \<and> length (t # enc_der_length n) + n \<le> max_len \<and> n \<le> INT_MAX \<and> n \<le> length r \<and>
      out = (t # enc_der_length n) @ take n r"
  moreover have "h = enc_der_length n @ r" using der_len_sound [OF assms] by blast
  ultimately show "der_prefix max_len (t # h) out"
    unfolding der_prefix_def by (intro exI [of _ t] exI [of _ "take n r"] exI [of _ "drop n r"]) (simp add: min_absorb2)
qed

lemma der_prefix_none: "fst (der_len h) = None \<Longrightarrow> \<not> der_prefix max_len (t # h) out"
  by (auto elim!: der_prefix_len)

lemma der_len_long:
  assumes "\<not> unat b < 128" "k = unat b - 128" "v = be_val (take k r)"
  shows "fst (der_len (b # r)) = None \<longleftrightarrow> k = 0 \<or> 4 < k \<or> length r < k \<or> v < 128 \<or> v < 256 ^ (k - 1)"
    "fst (der_len (b # r)) \<noteq> None \<Longrightarrow> der_len (b # r) = (Some v, drop k r)"
proof -
  have "der_len (b # r) = (if k = 0 \<or> 4 < k \<or> length r < k \<or> v < 128 \<or> v < 256 ^ (k - 1) then (None, r)
      else (Some v, drop k r))"
    using assms(1) by (simp add: der_len_def get_u8_Cons Let_def assms(2,3))
  then show "fst (der_len (b # r)) = None \<longleftrightarrow> k = 0 \<or> 4 < k \<or> length r < k \<or> v < 128 \<or> v < 256 ^ (k - 1)"
    "fst (der_len (b # r)) \<noteq> None \<Longrightarrow> der_len (b # r) = (Some v, drop k r)"
    by (auto split: if_splits)
qed

text \<open>What the result must be, given the bytes \<open>s\<close> in the buffer and whether the writer has shut down.\<close>

definition asn1_outcome ::
    "nat \<Rightarrow> u8 list \<Rightarrow> bool \<Rightarrow> (asn1_error + u8 list) \<Rightarrow> u8 list \<Rightarrow> bool" where
  "asn1_outcome max_len s closed res left \<longleftrightarrow>
    (res = Inl HEADER_TOO_LONG \<longleftrightarrow> s = [] \<and> closed) \<and>
    (\<forall>out. res = Inr out \<longleftrightarrow>
       (if indefinite s then closed \<and> length s < max_len \<and> out = s else der_prefix max_len s out)) \<and>
    (\<forall>out. res = Inr out \<longrightarrow> s = out @ left)"

lemma asn1_outcome_error:
  "e \<noteq> HEADER_TOO_LONG \<Longrightarrow> s \<noteq> [] \<Longrightarrow> \<not> indefinite s \<Longrightarrow> (\<And>out. \<not> der_prefix max_len s out) \<Longrightarrow>
   asn1_outcome max_len s closed (Inl e) left"
  by (simp add: asn1_outcome_def)

text \<open>A definite length that was read in full: the rest of the function.\<close>

lemma read_asn1_definite:
  assumes "connected h a p" "max_len < 2 ^ 64" "\<forall>n \<le> max_len. g n"
    and s: "s = header @ ring (ptr_of h p)" "header = t # enc_der_length n" "length header \<le> 6"
    and len: "der_len (tl s) = (Some n, ring (ptr_of h p))" and t: "t AND 0x1f \<noteq> 0x1f"
  shows "\<exists>res h'. read_asn1_body g h (Some a) header n max_len = Some (res, h') \<and> connected h' a p \<and>
    ring (ptr_of h' a) = ring (ptr_of h a) \<and> asn1_outcome max_len s closed res (ring (ptr_of h' p))"
proof -
  have n: "n < 2 ^ 32" using der_len_sound [OF len] by blast
  obtain res h' where h': "read_asn1_body g h (Some a) header n max_len = Some (res, h')" "connected h' a p"
    "ring (ptr_of h' a) = ring (ptr_of h a)" "res \<noteq> Inl HEADER_TOO_LONG"
    "\<forall>out. res = Inr out \<longleftrightarrow> length header + n \<le> max_len \<and> n \<le> INT_MAX \<and> n \<le> b_len (ptr_of h p) \<and>
       out = header @ take n (ring (ptr_of h p))"
    "\<forall>out. res = Inr out \<longrightarrow> ring (ptr_of h' p) = drop n (ring (ptr_of h p))"
    using read_asn1_body_spec [OF assms(1) s(3) n assms(2,3)] by blast
  have "s = t # tl s" using s by simp
  have "s ! 1 \<noteq> 0x80"
  proof
    assume b: "s ! 1 = 0x80"
    then obtain r where r: "tl s = 0x80 # r" using s by (cases "tl s") (auto simp: nth_Cons')
    have "unat (0x80 :: u8) = 128" by simp
    then show False using len unfolding r by (simp add: der_len_def get_u8_Cons)
  qed
  then have "\<not> indefinite s" by (simp add: indefinite_def)
  moreover have "der_prefix max_len s out \<longleftrightarrow> length header + n \<le> max_len \<and> n \<le> INT_MAX \<and>
      n \<le> b_len (ptr_of h p) \<and> out = header @ take n (ring (ptr_of h p))" for out
    using der_prefix_iff [OF len, of max_len t out] t \<open>s = t # tl s\<close> by (auto simp: s(2))
  moreover have "s \<noteq> []" using s by simp
  ultimately have "asn1_outcome max_len s closed res (ring (ptr_of h' p))"
    using h'(4-6) s(1) by (auto simp: asn1_outcome_def)
  then show ?thesis using h'(1-3) by blast
qed

lemma BIO_read_asn1_spec:
  assumes con: "connected h a p" and lim: "max_len < 2 ^ 64" "\<forall>n \<le> max_len. g n"
  shows "\<exists>res h'. BIO_read_asn1 g junk h (Some a) max_len = Some (res, h') \<and> connected h' a p \<and>
    ring (ptr_of h' a) = ring (ptr_of h a) \<and>
    asn1_outcome max_len (ring (ptr_of h p)) (b_closed (ptr_of h p)) res (ring (ptr_of h' p))"
proof -
  define s where "s = ring (ptr_of h p)"
  define closed where "closed = b_closed (ptr_of h p)"
  have slen: "b_len (ptr_of h p) = length s" by (simp add: s_def)
  obtain eof h1 where full: "bio_read_full h (Some a) 2 = Some (2 \<le> length s, eof, take 2 s, h1)" "connected h1 a p"
    "same_ends h h1 a p" "ring (ptr_of h1 a) = ring (ptr_of h a)" "ring (ptr_of h1 p) = drop 2 s"
    "\<not> 2 \<le> length s \<longrightarrow> eof = (s = [] \<and> closed)"
    by (rule bio_read_full_spec [OF con, of 2]) (simp add: s_def closed_def)
  show ?thesis unfolding s_def [symmetric] closed_def [symmetric]
  proof (cases "2 \<le> length s")
    case False
    then have "s = [] \<or> (\<exists>t. s = [t])" by (cases s rule: list.exhaust; cases "tl s") auto
    moreover have "\<not> der_prefix max_len s out" for out
      using False by (auto simp: der_prefix_def enc_der_length_def Let_def)
    moreover have "\<not> indefinite s" using False by (simp add: indefinite_def)
    ultimately have "asn1_outcome max_len s closed (Inl (if eof then HEADER_TOO_LONG else NOT_ENOUGH_DATA)) left" for left
      using full(6) False by (auto simp: asn1_outcome_def)
    then show "\<exists>res h'. BIO_read_asn1 g junk h (Some a) max_len = Some (res, h') \<and> connected h' a p \<and>
        ring (ptr_of h' a) = ring (ptr_of h a) \<and> asn1_outcome max_len s closed res (ring (ptr_of h' p))"
      using False full by (simp add: BIO_read_asn1_def)
  next
    case True
    then obtain t b r where s: "s = t # b # r" by (metis Suc_le_length_iff numeral_2_eq_2)
    have r: "ring (ptr_of h1 p) = r" using full(5) s by simp
    have closed1: "b_closed (ptr_of h1 p) = closed" using full(3) by (simp add: same_ends_def closed_def)
    note run = BIO_read_asn1_def full(1) s
    have err: "\<exists>res h'. BIO_read_asn1 g junk h (Some a) max_len = Some (res, h') \<and> connected h' a p \<and>
        ring (ptr_of h' a) = ring (ptr_of h a) \<and> asn1_outcome max_len s closed res (ring (ptr_of h' p))"
      if "BIO_read_asn1 g junk h (Some a) max_len = Some (Inl e, h2)" "connected h2 a p"
        "ring (ptr_of h2 a) = ring (ptr_of h a)" "e \<noteq> HEADER_TOO_LONG" "\<not> indefinite s" "\<And>out. \<not> der_prefix max_len s out"
      for e h2
      using that s asn1_outcome_error by blast
    show "\<exists>res h'. BIO_read_asn1 g junk h (Some a) max_len = Some (res, h') \<and> connected h' a p \<and>
        ring (ptr_of h' a) = ring (ptr_of h a) \<and> asn1_outcome max_len s closed res (ring (ptr_of h' p))"
    proof (cases "t AND 0x1f = 0x1f")
      case True
      show ?thesis
        by (rule err [of DECODE_ERROR h1]) (use True full(2,4) in \<open>auto simp: run indefinite_def der_prefix_def\<close>)
    next
      case low: False
      consider "unat b < 128" | "\<not> unat b < 128" "indefinite s" | "\<not> unat b < 128" "\<not> indefinite s" by blast
      then show ?thesis
      proof cases
        case 1
        have "of_nat (unat b) = b" by simp
        then have len: "der_len (tl s) = (Some (unat b), ring (ptr_of h1 p))" "[t, b] = t # enc_der_length (unat b)"
          using 1 r by (simp_all add: s der_len_def get_u8_Cons enc_der_length_def der_length_bytes_def)
        have "BIO_read_asn1 g junk h (Some a) max_len = read_asn1_body g h1 (Some a) [t, b] (unat b) max_len"
          using low 1 by (simp add: run u8_and_80)
        moreover have "s = [t, b] @ ring (ptr_of h1 p)" "length [t, b] \<le> 6" using s r by simp_all
        ultimately show ?thesis
          using read_asn1_definite [OF full(2) lim _ len(2) _ len(1) low] full(4) by simp
      next
        case 2
        then have b: "b = 0x80" "t AND 0x20 \<noteq> 0" by (simp_all add: indefinite_def s)
        obtain res h2 where all: "bio_read_all g junk h1 (Some a) [t, b] max_len = Some (res, h2)" "connected h2 a p"
          "ring (ptr_of h2 a) = ring (ptr_of h1 a)"
          "\<forall>out. res = Some out \<longrightarrow> out = [t, b] @ r \<and> ring (ptr_of h2 p) = [] \<and> closed \<and> length out < max_len"
          "closed \<and> length [t, b] + length r < max_len \<longrightarrow> res \<noteq> None"
          using bio_read_all_spec [OF full(2) lim(1), of "[t, b]" g junk] lim(2) r closed1
          by (auto simp: kChunkSize_def length_ring [symmetric] simp del: length_ring)
        have "BIO_read_asn1 g junk h (Some a) max_len =
            Some (case res of None \<Rightarrow> Inl NOT_ENOUGH_DATA | Some out \<Rightarrow> Inr out, h2)"
          using low b all(1) by (simp add: run split: option.splits)
        moreover have "asn1_outcome max_len s closed (case res of None \<Rightarrow> Inl NOT_ENOUGH_DATA | Some out \<Rightarrow> Inr out)
            (ring (ptr_of h2 p))"
          using all(4,5) 2 s by (auto simp: asn1_outcome_def split: option.splits)
        ultimately show ?thesis using all(2,3) full(4) by auto
      next
        case 3
        define k where "k = unat b - 128"
        define v where "v = be_val (take k r)"
        have high: "b AND 0x80 \<noteq> 0" "unat (b AND 0x7f) = k" using 3 by (simp_all add: u8_and_80 u8_and_7f_high k_def)
        have none: "\<not> der_prefix max_len s out" if "fst (der_len (b # r)) = None" for out
          using der_prefix_none [OF that] by (simp add: s)
        note dl = der_len_long [OF 3(1) k_def v_def]
        have ind: "\<not> (t AND 0x20 \<noteq> 0 \<and> k = 0)"
        proof
          assume "t AND 0x20 \<noteq> 0 \<and> k = 0"
          then have "unat b = 128" using 3(1) by (simp add: k_def)
          then have "b = 0x80" by (simp add: word_unat_eq_iff)
          then show False using 3(2) low \<open>t AND 0x20 \<noteq> 0 \<and> k = 0\<close> by (simp add: indefinite_def s)
        qed
        show ?thesis
        proof (cases "k = 0 \<or> 4 < k")
          case True
          show ?thesis
            by (rule err [of DECODE_ERROR h1])
              (use low ind True full(2,4) 3(2) none dl(1) in \<open>auto simp: run high\<close>)
        next
          case k: False
          obtain eof2 h2 where full2: "bio_read_full h1 (Some a) k = Some (k \<le> length r, eof2, take k r, h2)"
            "connected h2 a p" "ring (ptr_of h2 a) = ring (ptr_of h1 a)" "ring (ptr_of h2 p) = drop k r"
            by (rule bio_read_full_spec [OF full(2), of k]) (simp add: r [symmetric])
          show ?thesis
          proof (cases "k \<le> length r")
            case False
            show ?thesis
              by (rule err [of NOT_ENOUGH_DATA h2])
                (use low ind k False full(4) full2 3(2) none dl(1) in \<open>auto simp: run high\<close>)
          next
            case kr: True
            have "v < 256 ^ k" using be_val_bound [of "take k r"] kr by (simp add: v_def min_absorb2)
            moreover have "(256 :: nat) ^ k \<le> 256 ^ 4" using k by (intro power_increasing) simp_all
            ultimately have uv: "unat (of_nat v :: u32) = v" by (simp add: unat_of_nat_small)
            have tests: "(of_nat v :: u32) < 128 \<longleftrightarrow> v < 128"
              "drop_bit ((k - 1) * 8) (of_nat v :: u32) = 0 \<longleftrightarrow> v < 256 ^ (k - 1)"
              by (simp_all add: word_less_nat_alt uv drop_bit_eq_0_iff power_mult mult.commute [of _ 8])
            have step: "BIO_read_asn1 g junk h (Some a) max_len =
                (if v < 128 \<or> v < 256 ^ (k - 1) then Some (Inl DECODE_ERROR, h2)
                 else read_asn1_body g h2 (Some a) ([t, b] @ take k r) v max_len)"
              using low ind k kr full2(1) tests
              by (simp add: run high header_fold v_def [symmetric] uv del: One_nat_def) (auto simp: Let_def)
            show ?thesis
            proof (cases "v < 128 \<or> v < 256 ^ (k - 1)")
              case True
              show ?thesis
                by (rule err [of DECODE_ERROR h2]) (use True step full(4) full2 3(2) none dl(1) in auto)
            next
              case ok: False
              then have len: "der_len (tl s) = (Some v, ring (ptr_of h2 p))"
                using dl k kr full2(4) by (auto simp: s)
              then have "b # r = enc_der_length v @ drop k r" using der_len_sound [OF len] by (simp add: s full2(4))
              moreover have "length (b # take k r) + length (drop k r) = length (b # r)" using kr by simp
              ultimately have enc: "b # take k r = enc_der_length v"
                by (metis append_Cons append_same_eq append_take_drop_id)
              have header: "s = ([t, b] @ take k r) @ ring (ptr_of h2 p)" "[t, b] @ take k r = t # enc_der_length v"
                "length ([t, b] @ take k r) \<le> 6"
                by (simp add: s full2(4)) (simp add: enc, use k kr in simp)
              show ?thesis
                using read_asn1_definite [OF full2(2) lim header len low] full(4) full2(3) step ok by simp
            qed
          qed
        qed
      qed
    qed
  qed
qed

text \<open>A DER element with a low tag number, sent over a pair.\<close>

lemma enc_tag_low:
  assumes "tag AND CBS_ASN1_TAG_NUMBER_MASK < 0x1f"
  obtains t where "enc_tag tag = [t]" "t AND 0x1f \<noteq> 0x1f"
proof -
  let ?n = "tag AND 0x1fffffff" and ?bits = "ucast (drop_bit 24 tag) AND 0xe0 :: u8"
  let ?x = "ucast ?n :: u8"
  have "unat ?n < 31" using assms by (simp add: word_nat_arith CBS_ASN1_TAG_NUMBER_MASK_def)
  then have "unat ?x = unat ?n" by (simp add: unsigned_ucast_eq take_bit_nat_eq_self_iff)
  with \<open>unat ?n < 31\<close> have x: "take_bit 5 ?x = ?x" "unat ?x < 31" by (simp_all only: take_bit_self_iff) simp_all
  have "(?bits OR ?x) AND 0x1f \<noteq> 0x1f" unfolding tag_byte_low [OF x(1)] using x(2) by (auto simp: word_unat_eq_iff)
  moreover have "enc_tag tag = [?bits OR ?x]"
    using assms by (simp add: enc_tag_def Let_def CBS_ASN1_TAG_SHIFT_def CBS_ASN1_TAG_NUMBER_MASK_def)
  ultimately show ?thesis using that by blast
qed

lemma der_not_indefinite:
  assumes "enc_tag tag = [t]" "length data \<le> INT_MAX"
  shows "\<not> indefinite (der_element tag data)"
proof -
  obtain b r where br: "enc_der_length (length data) = b # r" by (cases "enc_der_length (length data)") auto
  have "b \<noteq> 0x80"
  proof
    assume "b = 0x80"
    moreover have "length data < 2 ^ 32" using assms(2) by (simp add: INT_MAX_def)
    moreover have "unat (0x80 :: u8) = 128" by simp
    ultimately show False
      using der_len_complete [of "length data" "[]"] by (simp add: br der_len_def get_u8_Cons)
  qed
  then show ?thesis by (simp add: indefinite_def der_element_def assms(1) br)
qed

lemma der_prefix_self:
  assumes "enc_tag tag = [t]" "t AND 0x1f \<noteq> 0x1f" "length data \<le> INT_MAX" "length (der_element tag data) \<le> max_len"
  shows "der_prefix max_len (der_element tag data) (der_element tag data)"
proof -
  have "der_element tag data = t # enc_der_length (length data) @ data" by (simp add: der_element_def assms(1))
  then show ?thesis using assms(2-4) unfolding der_prefix_def by (metis append_Nil2)
qed

lemma deliver_over_pair:
  assumes con: "connected h a p" and "ring (ptr_of h a) = []" "\<not> b_closed (ptr_of h a)" "length m \<le> b_size (ptr_of h a)"
    and m: "der_prefix max_len m m" "\<not> indefinite m" and lim: "max_len < 2 ^ 64" "\<forall>n \<le> max_len. g n"
  shows "\<exists>h1 h2. BIO_write_all h (Some a) m = Some (True, h1) \<and>
    BIO_read_asn1 g junk h1 (Some p) max_len = Some (Inr m, h2) \<and> ring (ptr_of h2 a) = []"
proof -
  have len0: "b_len (ptr_of h a) = 0" using arg_cong [OF assms(2), of length] by simp
  obtain h1 where h1: "BIO_write_all h (Some a) m = Some (True, h1)" "connected h1 a p" "ring (ptr_of h1 a) = m"
  proof -
    have "(length m \<le> b_size (ptr_of h a) - b_len (ptr_of h a)) = True"
      "ring (ptr_of h a) @ take (b_size (ptr_of h a) - b_len (ptr_of h a)) m = m"
      using assms(2,4) len0 by simp_all
    then show ?thesis using BIO_write_all_spec [OF con assms(3), of m] that by metis
  qed
  have con1: "connected h1 p a" using h1(2) connected_sym by simp
  obtain res h2 where h2: "BIO_read_asn1 g junk h1 (Some p) max_len = Some (res, h2)"
    "asn1_outcome max_len m (b_closed (ptr_of h1 a)) res (ring (ptr_of h2 a))"
    using BIO_read_asn1_spec [OF con1 lim, of junk] unfolding h1(3) by blast
  have "res = Inr m \<longleftrightarrow> (if indefinite m then b_closed (ptr_of h1 a) \<and> length m < max_len \<and> m = m else der_prefix max_len m m)"
    using h2(2) unfolding asn1_outcome_def by blast
  then have res: "res = Inr m" using m by simp
  have "m = m @ ring (ptr_of h2 a)" using h2(2) unfolding asn1_outcome_def res by blast
  then have "ring (ptr_of h2 a) = []" by simp
  then show ?thesis using h1(1) h2(1) res by blast
qed

section \<open>Properties\<close>

text \<open>An element whose length needs 32 bits is one that the limit on \<^verbatim>\<open>len\<close> rejects.\<close>

lemma der_prefix_not_long:
  assumes "s = t # enc_der_length (length c) @ c @ rest" "INT_MAX < length c" "length c < 2 ^ 32"
  shows "\<not> der_prefix max_len s out"
proof
  assume "der_prefix max_len s out"
  then obtain c' :: "u8 list" and r where "der_len (enc_der_length (length c) @ c @ rest) = (Some (length c'), r)" "length c' \<le> INT_MAX"
    unfolding assms(1) by (rule der_prefix_len) (rule that, assumption+)
  then show False using der_len_complete [OF assms(3)] assms(2) by simp
qed

text \<open>C19: \<open>BIO_read_asn1\<close> on a BIO of a connected pair always returns, and what it returns is determined
  by the bytes in the buffer: exactly the DER element of definite length at their front, if there is
  one within the limit, with every length octet that DER demands; for an indefinite length everything
  up to the end of file, if that is below the limit; an error in every other case, and the error that
  stands for end of file exactly if there was nothing to read and the writer has shut down. On success
  the element and what is left are together what there was. Two limits are lower than \<^verbatim>\<open>bio.h\<close> says: an
  indefinite length fails also where there is exactly \<open>max_len\<close> to read, and an element fails also
  where its length is above \<^verbatim>\<open>INT_MAX\<close> and below 2 to the 32, however large \<open>max_len\<close> is.\<close>

theorem bio_read_asn1_exact:
  assumes "connected h a p" and "max_len < 2 ^ 64" and "\<forall>n \<le> max_len. g n"
  shows "\<exists>res h'. BIO_read_asn1 g junk h (Some a) max_len = Some (res, h') \<and> connected h' a p \<and>
    asn1_outcome max_len (ring (ptr_of h p)) (b_closed (ptr_of h p)) res (ring (ptr_of h' p)) \<and>
    (indefinite (ring (ptr_of h p)) \<and> length (ring (ptr_of h p)) = max_len \<longrightarrow> isl res) \<and>
    (\<forall>t c rest. \<not> indefinite (ring (ptr_of h p)) \<and> ring (ptr_of h p) = t # enc_der_length (length c) @ c @ rest \<and>
       INT_MAX < length c \<and> length c < 2 ^ 32 \<longrightarrow> isl res)"
proof -
  obtain res h' where r: "BIO_read_asn1 g junk h (Some a) max_len = Some (res, h')" "connected h' a p"
    "asn1_outcome max_len (ring (ptr_of h p)) (b_closed (ptr_of h p)) res (ring (ptr_of h' p))"
    using BIO_read_asn1_spec [OF assms, of junk] by blast
  let ?s = "ring (ptr_of h p)"
  have fail: "isl res" if "\<And>out. res \<noteq> Inr out" using that by (cases res) auto
  have ok: "res = Inr out \<longleftrightarrow> (if indefinite ?s then b_closed (ptr_of h p) \<and> length ?s < max_len \<and> out = ?s
      else der_prefix max_len ?s out)" for out
    using r(3) unfolding asn1_outcome_def by blast
  have "isl res" if "indefinite ?s" "length ?s = max_len"
    by (rule fail) (use that in \<open>simp add: ok\<close>)
  moreover have "isl res" if "\<not> indefinite ?s" "?s = t # enc_der_length (length c) @ c @ rest" "INT_MAX < length c"
    "length c < 2 ^ 32" for t c rest
    by (rule fail) (use that(1) der_prefix_not_long [OF that(2-4)] in \<open>simp add: ok\<close>)
  ultimately show ?thesis using r by blast
qed

theorem bio_read_asn1_exact_witness:
  "\<exists>h h'. connected h 1 0 \<and> ring (ptr_of h 0) = [4, 1, 7, 9] \<and>
     BIO_read_asn1 (\<lambda>_. True) 0 h (Some 1) 100 = Some (Inr [4, 1, 7], h') \<and> ring (ptr_of h' 0) = [9]"
proof -
  obtain h where h: "connected h 0 1" "ring (ptr_of h 0) = [4, 1, 7, 9]"
    using can_write [of small_pair 0 1 "[4, 1, 7, 9]"] small_pair_ends length_ring [of "ptr_of small_pair 0"] by auto
  have con: "connected h 1 0" using h(1) connected_sym by simp
  obtain res h' where r: "BIO_read_asn1 (\<lambda>_. True) 0 h (Some 1) 100 = Some (res, h')"
    "asn1_outcome 100 [4, 1, 7, 9] (b_closed (ptr_of h 0)) res (ring (ptr_of h' 0))"
    using bio_read_asn1_exact [OF con, of 100 "\<lambda>_. True" 0] h(2) by auto
  have "der_prefix 100 [4, 1, 7, 9] [4, 1, 7]"
    unfolding der_prefix_def
    by (intro exI [of _ 4] exI [of _ "[7]"] exI [of _ "[9]"])
      (simp add: enc_der_length_def der_length_bytes_def INT_MAX_def)
  moreover have "\<not> indefinite [4, 1, 7, 9]" by (simp add: indefinite_def)
  ultimately have res: "res = Inr [4, 1, 7]" using r(2) by (simp add: asn1_outcome_def)
  have "[4, 1, 7, 9] = [4, 1, 7] @ ring (ptr_of h' 0)" using r(2) unfolding asn1_outcome_def res by blast
  then have "ring (ptr_of h' 0) = [9]" by simp
  with res show ?thesis using con h(2) r(1) by blast
qed

end
