(* ===== verification/Block_Words.thy ===== *)
theory Block_Words
  imports Prelude Endian
begin

unbundle bit_operations_syntax

text \<open>
  What the modes of operation share: the exclusive or of two blocks, done in machine words loaded and
  stored with \<^verbatim>\<open>CRYPTO_load_word_le\<close> and \<^verbatim>\<open>CRYPTO_store_word_le\<close>, is that of their bytes; and the
  one thing assumed of a block cipher, that it maps 16 bytes to 16 bytes.
\<close>

definition cipher :: "(u8 list \<Rightarrow> u8 list) \<Rightarrow> bool" where
  "cipher block \<longleftrightarrow> (\<forall>x. length x = 16 \<longrightarrow> length (block x) = 16)"

lemma word_of_mem_xor:
  assumes "length xs = length ys"
  shows "word_of_mem (map2 (XOR) xs ys) = (word_of_mem xs XOR word_of_mem ys :: 'a::len word)"
  by (rule bit_word_eqI) (use assms in \<open>auto simp: bit_word_of_mem bit_xor_iff\<close>)

lemma store_load_word: "length bs = 8 \<Longrightarrow> CRYPTO_store_word_le (word_of_mem bs) = bs"
proof -
  assume bs: "length bs = 8"
  have "be_val (rev bs) < 2 ^ 64" using be_val_bound [of "rev bs"] bs by simp
  then have "unat (of_nat (be_val (rev bs)) :: u64) = be_val (rev bs)" by (simp add: unat_of_nat_small)
  then show ?thesis
    using be_bytes_be_val [of "rev bs"] bs by (simp add: CRYPTO_store_word_le_def mem_of_word_def word_of_mem_def le_val_def)
qed

lemma store_xor:
  assumes "8 \<le> length xs" "8 \<le> length ys"
  shows "CRYPTO_store_word_le (CRYPTO_load_word_le xs XOR CRYPTO_load_word_le ys) = map2 (XOR) (take 8 xs) (take 8 ys)"
  using assms store_load_word [of "map2 (XOR) (take 8 xs) (take 8 ys)"]
  by (simp add: CRYPTO_load_word_le_def word_of_mem_xor)

lemma store_load: "8 \<le> length xs \<Longrightarrow> CRYPTO_store_word_le (CRYPTO_load_word_le xs) = take 8 xs"
  by (simp add: CRYPTO_load_word_le_def store_load_word)

lemma take_take_drop: "take 8 xs @ take 8 (drop 8 xs) = take 16 xs"
  using take_add [of 8 8 xs] by simp

lemma map2_take_drop:
  assumes "16 \<le> length xs" "16 \<le> length ys"
  shows "map2 f (take 8 xs) (take 8 ys) @ map2 f (take 8 (drop 8 xs)) (take 8 (drop 8 ys)) =
    map2 f (take 16 xs) (take 16 ys)"
proof -
  have "zip (take 8 xs) (take 8 ys) @ zip (take 8 (drop 8 xs)) (take 8 (drop 8 ys)) =
      zip (take 8 xs @ take 8 (drop 8 xs)) (take 8 ys @ take 8 (drop 8 ys))"
    by (rule zip_append [symmetric]) (use assms in simp)
  then show ?thesis unfolding take_take_drop by (metis map_append)
qed

end
