(* ===== verification/Stream_Mode.thy ===== *)
theory Stream_Mode
  imports Main
begin

text \<open>
  The interface of a streaming cipher: it takes the data in pieces of any size and keeps a context in
  between. \<open>rep\<close> is what matters of the context, \<open>step\<close> what the cipher does to one byte; that the
  pieces do not matter, and that a decryption undoes an encryption whatever the pieces of both, is
  proved once for all modes. \<^verbatim>\<open>CTR\<close>, \<^verbatim>\<open>OFB\<close> and \<^verbatim>\<open>CFB\<close> provide it.
\<close>

primrec steps :: "('st \<Rightarrow> 'b \<Rightarrow> 'b \<times> 'st) \<Rightarrow> 'st \<Rightarrow> 'b list \<Rightarrow> 'b list \<times> 'st" where
  "steps step st [] = ([], st)"
| "steps step st (b # bs) =
    (let (c, st) = step st b; (cs, st) = steps step st bs in (c # cs, st))"

lemma steps_append:
  "steps step st (xs @ ys) =
    (let (as, st) = steps step st xs; (bs, st) = steps step st ys in (as @ bs, st))"
  by (induction xs arbitrary: st) (auto split: prod.splits)

lemma length_steps [simp]: "length (fst (steps step st xs)) = length xs"
  by (induction xs arbitrary: st) (auto simp: Let_def split_beta)

text \<open>The data in pieces, one call for each.\<close>

primrec pieces :: "('c \<Rightarrow> 'b list \<Rightarrow> 'b list \<times> 'c) \<Rightarrow> 'c \<Rightarrow> 'b list list \<Rightarrow> 'b list \<times> 'c" where
  "pieces crypt c [] = ([], c)"
| "pieces crypt c (xs # xss) =
    (let (ys, c) = crypt c xs; (zs, c) = pieces crypt c xss in (ys @ zs, c))"

locale stream_mode =
  fixes ok :: "'c \<Rightarrow> bool"
    and rep :: "'c \<Rightarrow> 'st"
    and step :: "'st \<Rightarrow> 'b \<Rightarrow> 'b \<times> 'st"
    and crypt :: "'c \<Rightarrow> 'b list \<Rightarrow> 'b list \<times> 'c"
  assumes crypt_ok: "ok c \<Longrightarrow> ok (snd (crypt c xs))"
    and crypt_out: "ok c \<Longrightarrow> fst (crypt c xs) = fst (steps step (rep c) xs)"
    and crypt_rep: "ok c \<Longrightarrow> rep (snd (crypt c xs)) = snd (steps step (rep c) xs)"
begin

lemma pieces_steps:
  "ok c \<Longrightarrow> ok (snd (pieces crypt c xss)) \<and>
   fst (pieces crypt c xss) = fst (steps step (rep c) (concat xss)) \<and>
   rep (snd (pieces crypt c xss)) = snd (steps step (rep c) (concat xss))"
proof (induction xss arbitrary: c)
  case (Cons xs xss)
  obtain ys c1 where c1: "crypt c xs = (ys, c1)" by fastforce
  have "ok c1" "ys = fst (steps step (rep c) xs)" "rep c1 = snd (steps step (rep c) xs)"
    using crypt_ok [OF Cons.prems, of xs] crypt_out [OF Cons.prems, of xs] crypt_rep [OF Cons.prems, of xs] c1
    by simp_all
  then show ?case using Cons.IH [of c1] c1 by (auto simp: steps_append split: prod.splits)
qed simp

text \<open>How the data is cut into pieces does not matter.\<close>

lemma pieces_crypt:
  "ok c \<Longrightarrow> fst (pieces crypt c xss) = fst (crypt c (concat xss)) \<and>
   rep (snd (pieces crypt c xss)) = rep (snd (crypt c (concat xss)))"
  using pieces_steps crypt_out crypt_rep by simp

lemma length_crypt: "ok c \<Longrightarrow> length (fst (crypt c xs)) = length xs"
  using crypt_out by simp

end

locale stream_pair =
  enc: stream_mode ok rep enc_step enc_crypt + dec: stream_mode ok rep dec_step dec_crypt
  for ok :: "'c \<Rightarrow> bool" and rep :: "'c \<Rightarrow> 'st" and enc_step dec_step :: "'st \<Rightarrow> 'b \<Rightarrow> 'b \<times> 'st"
    and enc_crypt dec_crypt :: "'c \<Rightarrow> 'b list \<Rightarrow> 'b list \<times> 'c" +
  fixes good :: "'st \<Rightarrow> bool"
  assumes good: "ok c \<Longrightarrow> good (rep c)"
    and good_step: "good st \<Longrightarrow> good (snd (enc_step st b))"
    and undo: "good st \<Longrightarrow> dec_step st (fst (enc_step st b)) = (b, snd (enc_step st b))"
begin

lemma steps_undo:
  "good st \<Longrightarrow> steps dec_step st (fst (steps enc_step st xs)) = (xs, snd (steps enc_step st xs))"
proof (induction xs arbitrary: st)
  case (Cons b xs)
  obtain c st1 where s: "enc_step st b = (c, st1)" by fastforce
  then have "good st1" "dec_step st c = (b, st1)" using good_step [OF Cons.prems, of b] undo [OF Cons.prems, of b] by simp_all
  then show ?case using Cons.IH [of st1] s by (auto split: prod.splits)
qed simp

text \<open>A context of the decryption that agrees with that of the encryption recovers the data.\<close>

lemma round_trip:
  assumes "ok c" "ok d" "rep d = rep c" "concat yss = fst (pieces enc_crypt c xss)"
  shows "fst (pieces dec_crypt d yss) = concat xss \<and>
    rep (snd (pieces dec_crypt d yss)) = rep (snd (pieces enc_crypt c xss))"
  using enc.pieces_steps [OF assms(1), of xss] dec.pieces_steps [OF assms(2), of yss] assms(3,4)
    steps_undo [OF good [OF assms(1)], of "concat xss"] by simp

end

end
