(* ===== verification/Block_Modes.thy ===== *)
theory Block_Modes
  imports Block_Words Stream_Mode
begin

unbundle bit_operations_syntax

text \<open>
  The streaming modes of operation of \<^verbatim>\<open>crypto/fipsmodule/modes\<close>: counter mode with a block
  function (\<^verbatim>\<open>ctr.c\<close>), counter mode with a function that counts 32 bits, output feedback
  (\<^verbatim>\<open>ofb.c\<close>) and cipher feedback with segments of 128, 8 and 1 bits (\<^verbatim>\<open>cfb.c\<close>). The block cipher
  with its key is a parameter: \<open>block\<close> maps 16 bytes to 16 bytes. Input and output are lists, so the
  two buffers are the same or disjoint; a context holds \<^verbatim>\<open>ivec\<close>, \<^verbatim>\<open>ecount_buf\<close> and \<^verbatim>\<open>*num\<close>.
\<close>

section \<open>The code\<close>

record mode_ctx =
  ivec :: "u8 list"
  ecount :: "u8 list"
  num :: nat

text \<open>The loop over the rest of a block that an earlier call began, and the loop over the last, partial block.\<close>

fun xor_head :: "u8 list \<Rightarrow> nat \<Rightarrow> u8 list \<Rightarrow> u8 list \<times> nat \<times> u8 list" where
  "xor_head ks n [] = ([], n, [])"
| "xor_head ks n (b # bs) =
    (if n = 0 then ([], n, b # bs)
     else let (out, n', rest) = xor_head ks ((n + 1) mod 16) bs in ((b XOR ks ! n) # out, n', rest))"

fun xor_tail :: "u8 list \<Rightarrow> nat \<Rightarrow> u8 list \<Rightarrow> u8 list \<times> nat" where
  "xor_tail ks n [] = ([], n)"
| "xor_tail ks n (b # bs) = (let (out, n') = xor_tail ks (n + 1) bs in ((b XOR ks ! n) # out, n'))"

text \<open>The loop over the words of one block, from byte \<open>n\<close> on: the bytes it writes, and \<open>n\<close> after it. The
  functions use one variable \<open>n\<close> for all their loops, so the value it is left with matters.\<close>

function xor_words :: "nat \<Rightarrow> u8 list \<Rightarrow> u8 list \<Rightarrow> u8 list \<times> nat" where
  "xor_words n inp ks =
    (if n < 16 then
       let word = CRYPTO_store_word_le (CRYPTO_load_word_le (drop n inp) XOR CRYPTO_load_word_le (drop n ks));
           (out, n') = xor_words (n + 8) inp ks
       in (word @ out, n')
     else ([], n))"
  by pat_completeness auto
termination
  by (relation "measure (\<lambda>(n, _, _). 16 - n)") auto

declare xor_words.simps [simp del]

subsection \<open>Counter mode\<close>

text \<open>The carry runs from the last of the \<open>n\<close> bytes to the first.\<close>

fun counter_loop :: "nat \<Rightarrow> u32 \<Rightarrow> u8 list \<Rightarrow> u8 list" where
  "counter_loop 0 c counter = counter"
| "counter_loop (Suc n) c counter =
    (let c = c + ucast (counter ! n) in counter_loop n (drop_bit 8 c) (counter[n := ucast c]))"

definition ctr128_inc :: "u8 list \<Rightarrow> u8 list" where
  "ctr128_inc counter = counter_loop 16 1 counter"

definition ctr96_inc :: "u8 list \<Rightarrow> u8 list" where
  "ctr96_inc counter = counter_loop 12 1 counter"

function ctr128_blocks ::
    "(u8 list \<Rightarrow> u8 list) \<Rightarrow> u8 list \<Rightarrow> u8 list \<Rightarrow> nat \<Rightarrow> u8 list \<Rightarrow>
     u8 list \<times> u8 list \<times> u8 list \<times> nat \<times> u8 list" where
  "ctr128_blocks block iv ec n inp =
    (if 16 \<le> length inp then
       let ec = block iv;
           iv = ctr128_inc iv;
           (o1, n) = xor_words 0 inp ec;
           n = 0;
           (out, iv', ec', n', rest) = ctr128_blocks block iv ec n (drop 16 inp)
       in (o1 @ out, iv', ec', n', rest)
     else ([], iv, ec, n, inp))"
  by pat_completeness auto
termination
  by (relation "measure (\<lambda>(_, _, _, _, inp). length inp)") auto

declare ctr128_blocks.simps [simp del]

definition CRYPTO_ctr128_encrypt :: "(u8 list \<Rightarrow> u8 list) \<Rightarrow> mode_ctx \<Rightarrow> u8 list \<Rightarrow> u8 list \<times> mode_ctx" where
  "CRYPTO_ctr128_encrypt block c inp =
    (let (out1, n, inp) = xor_head (ecount c) (num c) inp;
         (out2, iv, ec, n, inp') = ctr128_blocks block (ivec c) (ecount c) n inp
     in if inp' \<noteq> [] then
          let ec = block iv; iv = ctr128_inc iv; (out3, n) = xor_tail ec n inp'
          in (out1 @ out2 @ out3, \<lparr>ivec = iv, ecount = ec, num = n\<rparr>)
        else (out1 @ out2, \<lparr>ivec = iv, ecount = ec, num = n\<rparr>))"

text \<open>With a function \<open>func\<close> of the input, a number of blocks and the counter block.\<close>

function ctr32_blocks ::
    "(u8 list \<Rightarrow> nat \<Rightarrow> u8 list \<Rightarrow> u8 list) \<Rightarrow> u8 list \<Rightarrow> u32 \<Rightarrow> u8 list \<Rightarrow> u8 list \<times> u8 list \<times> u32 \<times> u8 list" where
  "ctr32_blocks func iv ctr32 inp =
    (if 16 \<le> length inp then
       let blocks = length inp div 16;
           blocks = (if 2 ^ 28 < blocks then 2 ^ 28 else blocks);
           ctr32 = ctr32 + of_nat blocks;
           (blocks, ctr32) = (if unat ctr32 < blocks then (blocks - unat ctr32, 0) else (blocks, ctr32));
           out = func (take (16 * blocks) inp) blocks iv;
           iv = take 12 iv @ CRYPTO_store_u32_be ctr32;
           iv = (if ctr32 = 0 then ctr96_inc iv else iv);
           (out', iv', ctr32', rest) = ctr32_blocks func iv ctr32 (drop (16 * blocks) inp)
       in (out @ out', iv', ctr32', rest)
     else ([], iv, ctr32, inp))"
  by pat_completeness auto
termination
  by (relation "measure (\<lambda>(_, _, _, inp). length inp)")
    (auto simp: div_greater_zero_iff split: if_splits)

declare ctr32_blocks.simps [simp del]

definition CRYPTO_ctr128_encrypt_ctr32 ::
    "(u8 list \<Rightarrow> nat \<Rightarrow> u8 list \<Rightarrow> u8 list) \<Rightarrow> mode_ctx \<Rightarrow> u8 list \<Rightarrow> u8 list \<times> mode_ctx" where
  "CRYPTO_ctr128_encrypt_ctr32 func c inp =
    (let (out1, n, inp) = xor_head (ecount c) (num c) inp;
         ctr32 = CRYPTO_load_u32_be (drop 12 (ivec c));
         (out2, iv, ctr32, inp') = ctr32_blocks func (ivec c) ctr32 inp
     in if inp' \<noteq> [] then
          let ec = func (replicate 16 0) 1 iv;
              ctr32 = ctr32 + 1;
              iv = take 12 iv @ CRYPTO_store_u32_be ctr32;
              iv = (if ctr32 = 0 then ctr96_inc iv else iv);
              (out3, n) = xor_tail ec n inp'
          in (out1 @ out2 @ out3, \<lparr>ivec = iv, ecount = ec, num = n\<rparr>)
        else (out1 @ out2, \<lparr>ivec = iv, ecount = ecount c, num = n\<rparr>))"

subsection \<open>Output feedback\<close>

text \<open>The loop over the words of a block goes on from the \<open>n\<close> it finds.\<close>

function ofb128_blocks ::
    "(u8 list \<Rightarrow> u8 list) \<Rightarrow> u8 list \<Rightarrow> nat \<Rightarrow> u8 list \<Rightarrow> u8 list \<times> u8 list \<times> nat \<times> u8 list" where
  "ofb128_blocks block iv n inp =
    (if 16 \<le> length inp then
       let iv = block iv;
           (o1, n) = xor_words n inp iv;
           n = 0;
           (out, iv', n', rest) = ofb128_blocks block iv n (drop 16 inp)
       in (o1 @ out, iv', n', rest)
     else ([], iv, n, inp))"
  by pat_completeness auto
termination
  by (relation "measure (\<lambda>(_, _, _, inp). length inp)") auto

declare ofb128_blocks.simps [simp del]

definition CRYPTO_ofb128_encrypt :: "(u8 list \<Rightarrow> u8 list) \<Rightarrow> mode_ctx \<Rightarrow> u8 list \<Rightarrow> u8 list \<times> mode_ctx" where
  "CRYPTO_ofb128_encrypt block c inp =
    (let (out1, n, inp) = xor_head (ivec c) (num c) inp;
         (out2, iv, n, inp') = ofb128_blocks block (ivec c) n inp
     in if inp' \<noteq> [] then
          let iv = block iv; (out3, n) = xor_tail iv n inp'
          in (out1 @ out2 @ out3, c\<lparr>ivec := iv, num := n\<rparr>)
        else (out1 @ out2, c\<lparr>ivec := iv, num := n\<rparr>))"

subsection \<open>Cipher feedback\<close>

text \<open>Each byte of \<^verbatim>\<open>ivec\<close> is replaced by the cipher text byte.\<close>

definition cfb_byte :: "bool \<Rightarrow> u8 list \<Rightarrow> nat \<Rightarrow> u8 \<Rightarrow> u8 \<times> u8 list" where
  "cfb_byte enc iv n b =
    (if enc then let c = iv ! n XOR b in (c, iv[n := c])
     else (iv ! n XOR b, iv[n := b]))"

fun cfb_head :: "bool \<Rightarrow> u8 list \<Rightarrow> nat \<Rightarrow> u8 list \<Rightarrow> u8 list \<times> u8 list \<times> nat \<times> u8 list" where
  "cfb_head enc iv n [] = ([], iv, n, [])"
| "cfb_head enc iv n (b # bs) =
    (if n = 0 then ([], iv, n, b # bs)
     else
       let (o1, iv) = cfb_byte enc iv n b;
           (out, iv, n', rest) = cfb_head enc iv ((n + 1) mod 16) bs
       in (o1 # out, iv, n', rest))"

fun cfb_tail :: "bool \<Rightarrow> u8 list \<Rightarrow> nat \<Rightarrow> u8 list \<Rightarrow> u8 list \<times> u8 list \<times> nat" where
  "cfb_tail enc iv n [] = ([], iv, n)"
| "cfb_tail enc iv n (b # bs) =
    (let (o1, iv) = cfb_byte enc iv n b; (out, iv, n') = cfb_tail enc iv (n + 1) bs
     in (o1 # out, iv, n'))"

text \<open>The words of one block from byte \<open>n\<close> on: what goes to \<^verbatim>\<open>out\<close>, the new \<^verbatim>\<open>ivec\<close>, and \<open>n\<close> after it.\<close>

function cfb_words :: "bool \<Rightarrow> nat \<Rightarrow> u8 list \<Rightarrow> u8 list \<Rightarrow> u8 list \<times> u8 list \<times> nat" where
  "cfb_words enc n iv inp =
    (if n < 16 then
       let (word, iv) =
         (if enc then
            let tmp = CRYPTO_load_word_le (drop n iv) XOR CRYPTO_load_word_le (drop n inp)
            in (CRYPTO_store_word_le tmp, blit iv n (CRYPTO_store_word_le tmp))
          else
            let t = CRYPTO_load_word_le (drop n inp)
            in (CRYPTO_store_word_le (CRYPTO_load_word_le (drop n iv) XOR t), blit iv n (CRYPTO_store_word_le t)));
           (out, iv', n') = cfb_words enc (n + 8) iv inp
       in (word @ out, iv', n')
     else ([], iv, n))"
  by pat_completeness auto
termination
  by (relation "measure (\<lambda>(_, n, _, _). 16 - n)") auto

declare cfb_words.simps [simp del]

function cfb128_blocks ::
    "(u8 list \<Rightarrow> u8 list) \<Rightarrow> bool \<Rightarrow> u8 list \<Rightarrow> nat \<Rightarrow> u8 list \<Rightarrow> u8 list \<times> u8 list \<times> nat \<times> u8 list" where
  "cfb128_blocks block enc iv n inp =
    (if 16 \<le> length inp then
       let (o1, iv, n) = cfb_words enc n (block iv) inp;
           n = 0;
           (out, iv', n', rest) = cfb128_blocks block enc iv n (drop 16 inp)
       in (o1 @ out, iv', n', rest)
     else ([], iv, n, inp))"
  by pat_completeness auto
termination
  by (relation "measure (\<lambda>(_, _, _, _, inp). length inp)") auto

declare cfb128_blocks.simps [simp del]

definition CRYPTO_cfb128_encrypt ::
    "(u8 list \<Rightarrow> u8 list) \<Rightarrow> bool \<Rightarrow> mode_ctx \<Rightarrow> u8 list \<Rightarrow> u8 list \<times> mode_ctx" where
  "CRYPTO_cfb128_encrypt block enc c inp =
    (let (out1, iv, n, inp) = cfb_head enc (ivec c) (num c) inp;
         (out2, iv, n, inp') = cfb128_blocks block enc iv n inp
     in if inp' \<noteq> [] then
          let (out3, iv, n) = cfb_tail enc (block iv) n inp'
          in (out1 @ out2 @ out3, c\<lparr>ivec := iv, num := n\<rparr>)
        else (out1 @ out2, c\<lparr>ivec := iv, num := n\<rparr>))"

text \<open>
  Segments of \<open>nbits\<close> bits, at most 128: the output bytes and the new \<^verbatim>\<open>ivec\<close>; \<open>junk\<close> is what the
  array \<^verbatim>\<open>ovec\<close> holds before it is written.
\<close>

definition cfbr_shift :: "u8 list \<Rightarrow> nat \<Rightarrow> nat \<Rightarrow> u8 list" where
  "cfbr_shift ovec k rem =
    map (\<lambda>n. push_bit rem (ovec ! (n + k)) OR drop_bit (8 - rem) (ovec ! (n + k + 1))) [0..<16]"

definition cfbr_encrypt_block ::
    "(u8 list \<Rightarrow> u8 list) \<Rightarrow> u8 list \<Rightarrow> bool \<Rightarrow> u8 list \<Rightarrow> nat \<Rightarrow> u8 list \<Rightarrow> u8 list \<times> u8 list" where
  "cfbr_encrypt_block block junk enc iv nbits inp =
    (if nbits = 0 \<or> 128 < nbits then ([], iv)
     else
       let iv' = block iv;
           k = (nbits + 7) div 8;
           out = map (\<lambda>n. inp ! n XOR iv' ! n) [0..<k];
           ovec = blit (iv @ junk) 16 (if enc then out else take k inp);
           rem = nbits mod 8;
           k = nbits div 8
       in (out, if rem = 0 then take 16 (drop k ovec) else cfbr_shift ovec k rem))"

fun CRYPTO_cfb128_8_encrypt ::
    "(u8 list \<Rightarrow> u8 list) \<Rightarrow> u8 list \<Rightarrow> bool \<Rightarrow> u8 list \<Rightarrow> u8 list \<Rightarrow> u8 list \<times> u8 list" where
  "CRYPTO_cfb128_8_encrypt block junk enc iv [] = ([], iv)"
| "CRYPTO_cfb128_8_encrypt block junk enc iv (b # bs) =
    (let (o1, iv) = cfbr_encrypt_block block junk enc iv 8 [b];
         (out, iv) = CRYPTO_cfb128_8_encrypt block junk enc iv bs
     in (o1 @ out, iv))"

text \<open>Single bits, most significant first: bit \<open>n\<close> of \<open>bits\<close>, with the output buffer so far.\<close>

function cfb128_1_loop ::
    "(u8 list \<Rightarrow> u8 list) \<Rightarrow> u8 list \<Rightarrow> bool \<Rightarrow> nat \<Rightarrow> nat \<Rightarrow> u8 list \<Rightarrow> u8 list \<Rightarrow> u8 list \<Rightarrow> u8 list \<times> u8 list" where
  "cfb128_1_loop block junk enc n bits inp out iv =
    (if n < bits then
       let c = (if inp ! (n div 8) AND push_bit (7 - n mod 8) 1 \<noteq> 0 then 0x80 else 0);
           (d, iv) = cfbr_encrypt_block block junk enc iv 1 [c];
           out = out[n div 8 := (out ! (n div 8) AND NOT (push_bit (7 - n mod 8) 1)) OR
                                drop_bit (n mod 8) (d ! 0 AND 0x80)]
       in cfb128_1_loop block junk enc (n + 1) bits inp out iv
     else (out, iv))"
  by pat_completeness auto
termination
  by (relation "measure (\<lambda>(_, _, _, n, bits, _). bits - n)") auto

declare cfb128_1_loop.simps [simp del]

definition CRYPTO_cfb128_1_encrypt ::
    "(u8 list \<Rightarrow> u8 list) \<Rightarrow> u8 list \<Rightarrow> bool \<Rightarrow> nat \<Rightarrow> u8 list \<Rightarrow> u8 list \<Rightarrow> u8 list \<Rightarrow> u8 list \<times> u8 list" where
  "CRYPTO_cfb128_1_encrypt block junk enc bits inp out iv = cfb128_1_loop block junk enc 0 bits inp out iv"

section \<open>Blocks and bytes\<close>

text \<open>
  What all the modes share: a state \<open>x\<close> that is renewed by \<open>nxt\<close> when a block begins, a function
  \<open>inner\<close> for byte \<open>n\<close> of a block, and what \<open>clr\<close> leaves of the state when a block is complete.
\<close>

primrec inners :: "('x \<Rightarrow> nat \<Rightarrow> 'b \<Rightarrow> 'b \<times> 'x) \<Rightarrow> 'x \<Rightarrow> nat \<Rightarrow> 'b list \<Rightarrow> 'b list \<times> 'x" where
  "inners inner x n [] = ([], x)"
| "inners inner x n (b # bs) =
    (let (c, x) = inner x n b; (cs, x) = inners inner x (n + 1) bs in (c # cs, x))"

definition bstep ::
    "('x \<Rightarrow> 'x) \<Rightarrow> ('x \<Rightarrow> 'x) \<Rightarrow> ('x \<Rightarrow> nat \<Rightarrow> 'b \<Rightarrow> 'b \<times> 'x) \<Rightarrow> 'x \<times> nat \<Rightarrow> 'b \<Rightarrow> 'b \<times> ('x \<times> nat)" where
  "bstep nxt clr inner = (\<lambda>(x, n) b.
    let (c, x) = inner (if n = 0 then nxt x else x) n b; n = (n + 1) mod 16
    in (c, (if n = 0 then clr x else x, n)))"

lemma length_inners [simp]: "length (fst (inners inner x n bs)) = length bs"
  by (induction bs arbitrary: x n) (auto simp: Let_def split_beta)

lemma inners_append:
  "inners inner x n (xs @ ys) =
    (let (as, x) = inners inner x n xs; (bs, x) = inners inner x (n + length xs) ys in (as @ bs, x))"
  by (induction xs arbitrary: x n) (auto split: prod.splits)

lemma steps_inners:
  assumes "0 < n" "n < 16" "n + length bs \<le> 16"
  shows "steps (bstep nxt clr inner) (x, n) bs =
    (let (out, x') = inners inner x n bs
     in (out, if n + length bs = 16 then (clr x', 0) else (x', n + length bs)))"
  using assms
proof (induction bs arbitrary: x n)
  case (Cons b bs)
  show ?case
  proof (cases "n = 15")
    case True
    then have "bs = []" using Cons.prems by simp
    then show ?thesis using True by (simp add: bstep_def split: prod.splits)
  next
    case False
    then show ?thesis using Cons.prems Cons.IH [of "n + 1"]
      by (simp add: bstep_def split: prod.splits)
  qed
qed simp

lemma steps_block:
  assumes "bs \<noteq> []" "length bs \<le> 16"
  shows "steps (bstep nxt clr inner) (x, 0) bs =
    (let (out, x') = inners inner (nxt x) 0 bs
     in (out, if length bs = 16 then (clr x', 0) else (x', length bs)))"
proof -
  obtain b bs' where bs: "bs = b # bs'" using assms(1) by (cases bs) auto
  then have "length bs' \<le> 15" using assms(2) by simp
  then show ?thesis
    using steps_inners [of 1 bs' nxt clr inner] by (simp add: bs bstep_def split: prod.splits)
qed

text \<open>The loop over whole blocks.\<close>

function gblocks ::
    "('x \<Rightarrow> 'x) \<Rightarrow> ('x \<Rightarrow> 'x) \<Rightarrow> ('x \<Rightarrow> nat \<Rightarrow> 'b \<Rightarrow> 'b \<times> 'x) \<Rightarrow> 'x \<Rightarrow> 'b list \<Rightarrow> 'b list \<times> 'x \<times> 'b list" where
  "gblocks nxt clr inner x inp =
    (if 16 \<le> length inp then
       let (o1, x) = inners inner (nxt x) 0 (take 16 inp);
           (out, x, rest) = gblocks nxt clr inner (clr x) (drop 16 inp)
       in (o1 @ out, x, rest)
     else ([], x, inp))"
  by pat_completeness auto
termination
  by (relation "measure (\<lambda>(_, _, _, _, inp). length inp)") auto

declare gblocks.simps [simp del]

lemma steps_gblocks:
  "steps (bstep nxt clr inner) (x, 0) inp =
    (let (out, x', rest) = gblocks nxt clr inner x inp
     in if rest = [] then (out, (x', 0))
        else let (o2, x'') = inners inner (nxt x') 0 rest in (out @ o2, (x'', length rest)))"
proof (induction "length inp" arbitrary: x inp rule: less_induct)
  case less
  show ?case
  proof (cases "16 \<le> length inp")
    case True
    have "steps (bstep nxt clr inner) (x, 0) inp = steps (bstep nxt clr inner) (x, 0) (take 16 inp @ drop 16 inp)"
      by simp
    also have "\<dots> = (let (o1, x1) = inners inner (nxt x) 0 (take 16 inp);
        (o2, st) = steps (bstep nxt clr inner) (clr x1, 0) (drop 16 inp) in (o1 @ o2, st))"
      using True unfolding steps_append
      by (subst steps_block) (auto simp: min_absorb2 split: prod.splits)
    finally show ?thesis
      using True less [of "drop 16 inp"] by (subst gblocks.simps) (auto simp: Let_def split: prod.splits if_splits)
  next
    case False
    show ?thesis
    proof (cases "inp = []")
      case False
      then show ?thesis using \<open>\<not> 16 \<le> length inp\<close> steps_block [of inp nxt clr inner x]
        by (subst gblocks.simps) simp
    qed (simp add: gblocks.simps)
  qed
qed

lemma gblocks_rest: "length (snd (snd (gblocks nxt clr inner x inp))) < 16"
proof (induction "length inp" arbitrary: x inp rule: less_induct)
  case less
  then show ?case by (subst gblocks.simps) (simp add: Let_def split_beta)
qed

text \<open>How many bytes complete the block that is begun.\<close>

definition head_len :: "nat \<Rightarrow> 'b list \<Rightarrow> nat" where
  "head_len n inp = (if n = 0 then 0 else min (16 - n) (length inp))"

lemma steps_head:
  assumes "n < 16"
  shows "steps (bstep nxt clr inner) (x, n) inp =
    (let m = head_len n inp;
         (o1, x1) = inners inner x n (take m inp);
         (o2, st) = (if m = length inp then ([], (if n + m = 16 then clr x1 else x1, (n + m) mod 16))
                     else steps (bstep nxt clr inner) (if n = 0 then x1 else clr x1, 0) (drop m inp))
     in (o1 @ o2, st))"
proof -
  define m where "m = head_len n inp"
  have split: "inp = take m inp @ drop m inp" by simp
  show ?thesis
  proof (cases "n = 0")
    case True
    then show ?thesis by (auto simp: head_len_def Let_def)
  next
    case False
    have m: "m \<le> length inp" "n + m \<le> 16" "m \<noteq> length inp \<Longrightarrow> n + m = 16"
      using assms False by (auto simp: m_def head_len_def)
    have "steps (bstep nxt clr inner) (x, n) (take m inp) =
        (let (out, x') = inners inner x n (take m inp) in (out, if n + m = 16 then (clr x', 0) else (x', n + m)))"
    proof -
      have len: "length (take m inp) = m" using m(1) by simp
      show ?thesis using steps_inners [of n "take m inp" nxt clr inner x] False assms m(2) unfolding len by simp
    qed
    moreover have "n + m \<noteq> 16 \<Longrightarrow> (n + m) mod 16 = n + m" using m by simp
    ultimately show ?thesis unfolding m_def [symmetric]
      using m False by (subst split, subst steps_append) (auto simp: Let_def split: prod.splits)
  qed
qed

text \<open>The three loops of a mode are its steps.\<close>

lemma head_len_le [simp]: "head_len n inp \<le> length inp"
  by (simp add: head_len_def)

lemma head_complete: "n < 16 \<Longrightarrow> drop (head_len n inp) inp \<noteq> [] \<Longrightarrow> (n + head_len n inp) mod 16 = 0"
  by (auto simp: head_len_def min_def split: if_splits)

lemma steps_mode:
  assumes "n < 16"
  shows "steps (bstep nxt clr inner) (x, n) inp =
    (let m = head_len n inp;
         (o1, x1) = inners inner x n (take m inp);
         inp1 = drop m inp
     in if inp1 = [] then (o1, (if n + m = 16 then clr x1 else x1, (n + m) mod 16))
        else
          let (o2, x2, rest) = gblocks nxt clr inner (if n = 0 then x1 else clr x1) inp1
          in if rest = [] then (o1 @ o2, (x2, 0))
             else let (o3, x3) = inners inner (nxt x2) 0 rest in (o1 @ o2 @ o3, (x3, length rest)))"
proof -
  have "head_len n inp = length inp \<longleftrightarrow> drop (head_len n inp) inp = []" using head_len_le [of n inp] by (auto intro: le_antisym)
  then show ?thesis
    using steps_head [OF assms, of nxt clr inner x inp] by (auto simp: steps_gblocks Let_def split: prod.splits)
qed

section \<open>Words\<close>

lemma xor_words_eq:
  assumes "16 \<le> length inp" "length ks = 16"
  shows "xor_words 0 inp ks = (map2 (XOR) (take 16 inp) ks, 16)"
proof -
  have "xor_words 0 inp ks =
      (CRYPTO_store_word_le (CRYPTO_load_word_le (drop 0 inp) XOR CRYPTO_load_word_le (drop 0 ks)) @
       CRYPTO_store_word_le (CRYPTO_load_word_le (drop 8 inp) XOR CRYPTO_load_word_le (drop 8 ks)) @ [], 16)"
    by (subst xor_words.simps, subst xor_words.simps, subst xor_words.simps) simp
  also have "\<dots> = (map2 (XOR) (take 16 inp) (take 16 ks), 16)"
    using assms map2_take_drop [of inp ks "(XOR)"] by (simp add: store_xor)
  finally show ?thesis using assms(2) by simp
qed

text \<open>A keystream mode: byte \<open>n\<close> is combined with byte \<open>n\<close> of a keystream block.\<close>

definition xor_inner :: "('x \<Rightarrow> u8 list) \<Rightarrow> 'x \<Rightarrow> nat \<Rightarrow> u8 \<Rightarrow> u8 \<times> 'x" where
  "xor_inner ks x n b = (b XOR ks x ! n, x)"

lemma snd_inners_xor [simp]: "snd (inners (xor_inner ks) x n bs) = x"
  by (induction bs arbitrary: n) (auto simp: xor_inner_def Let_def split_beta)

lemma nth_inners_xor: "i < length bs \<Longrightarrow> fst (inners (xor_inner ks) x n bs) ! i = bs ! i XOR ks x ! (n + i)"
proof (induction bs arbitrary: n i)
  case (Cons b bs)
  then show ?case by (cases i) (auto simp: xor_inner_def Let_def split_beta)
qed simp

lemma inners_xor_block:
  assumes "length bs = 16" "length (ks x) = 16"
  shows "fst (inners (xor_inner ks) x 0 bs) = map2 (XOR) bs (ks x)"
  by (rule nth_equalityI) (use assms in \<open>simp_all add: nth_inners_xor\<close>)

lemma xor_words_inners:
  "16 \<le> length inp \<Longrightarrow> length (ks x) = 16 \<Longrightarrow>
   xor_words 0 inp (ks x) = (fst (inners (xor_inner ks) x 0 (take 16 inp)), 16)"
  by (simp add: xor_words_eq inners_xor_block)

lemma xor_tail_inners: "xor_tail (ks x) n bs = (fst (inners (xor_inner ks) x n bs), n + length bs)"
  by (induction bs arbitrary: n) (auto simp: xor_inner_def Let_def split_beta)

lemma xor_head_inners:
  "n < 16 \<Longrightarrow> xor_head (ks x) n bs =
    (fst (inners (xor_inner ks) x n (take (head_len n bs) bs)), (n + head_len n bs) mod 16, drop (head_len n bs) bs)"
proof (induction bs arbitrary: n)
  case (Cons b bs)
  show ?case
  proof (cases "n = 0 \<or> n = 15")
    case True
    then show ?thesis by (cases bs) (auto simp: head_len_def xor_inner_def min_def)
  next
    case False
    then have "head_len n (b # bs) = Suc (head_len (n + 1) bs)" using Cons.prems by (auto simp: head_len_def)
    then show ?thesis using False Cons by (simp add: xor_inner_def split_beta)
  qed
qed (simp add: head_len_def)

section \<open>Counter mode\<close>

definition ctr_next :: "(u8 list \<Rightarrow> u8 list) \<Rightarrow> u8 list \<times> u8 list \<Rightarrow> u8 list \<times> u8 list" where
  "ctr_next block = (\<lambda>(iv, ec). (ctr128_inc iv, block iv))"

definition ctr_clear :: "u8 list \<times> u8 list \<Rightarrow> u8 list \<times> u8 list" where
  "ctr_clear = (\<lambda>(iv, ec). (iv, []))"

definition ctr_step ::
    "(u8 list \<Rightarrow> u8 list) \<Rightarrow> (u8 list \<times> u8 list) \<times> nat \<Rightarrow> u8 \<Rightarrow> u8 \<times> ((u8 list \<times> u8 list) \<times> nat)" where
  "ctr_step block = bstep (ctr_next block) ctr_clear (xor_inner snd)"

text \<open>Between blocks the old keystream block does not matter.\<close>

definition ctr_rep :: "mode_ctx \<Rightarrow> (u8 list \<times> u8 list) \<times> nat" where
  "ctr_rep c = ((ivec c, if num c = 0 then [] else ecount c), num c)"

definition mode_ok :: "mode_ctx \<Rightarrow> bool" where
  "mode_ok c \<longleftrightarrow> length (ivec c) = 16 \<and> length (ecount c) = 16 \<and> num c < 16"

lemma length_counter_loop [simp]: "length (counter_loop n c k) = length k"
  by (induction n arbitrary: c k) (simp_all add: Let_def)

lemma length_ctr128_inc [simp]: "length (ctr128_inc k) = length k"
  by (simp add: ctr128_inc_def)

lemma ctr128_blocks_gblocks:
  assumes "cipher block" "length iv = 16" "length ec = 16"
  shows "\<exists>out iv' ec' rest. length iv' = 16 \<and> length ec' = 16 \<and>
    ctr128_blocks block iv ec n inp = (out, iv', ec', if 16 \<le> length inp then 0 else n, rest) \<and>
    gblocks (ctr_next block) ctr_clear (xor_inner snd) (iv, []) inp = (out, (iv', []), rest)"
  using assms(2,3)
proof (induction "length inp" arbitrary: iv ec n inp rule: less_induct)
  case less
  show ?case
  proof (cases "16 \<le> length inp")
    case True
    have ks: "length (block iv) = 16" using assms(1) less.prems by (simp add: cipher_def)
    have "length (drop 16 inp) < length inp" "length (ctr128_inc iv) = 16" using True less.prems by simp_all
    from less.hyps [OF this ks, of 0, unfolded if_cancel] obtain out iv' ec' rest where "length iv' = 16" "length ec' = 16"
      "ctr128_blocks block (ctr128_inc iv) (block iv) 0 (drop 16 inp) = (out, iv', ec', 0, rest)"
      "gblocks (ctr_next block) ctr_clear (xor_inner snd) (ctr128_inc iv, []) (drop 16 inp) = (out, (iv', []), rest)"
      by blast
    moreover have "inners (xor_inner snd) (ctr128_inc iv, block iv) 0 (take 16 inp) =
        (fst (xor_words 0 inp (block iv)), (ctr128_inc iv, block iv))"
      using xor_words_inners [of inp snd "(ctr128_inc iv, block iv)"] True ks by (intro prod_eqI) simp_all
    ultimately show ?thesis
      using True by (subst ctr128_blocks.simps, subst gblocks.simps) (simp add: ctr_next_def ctr_clear_def Let_def split_beta)
  next
    case False
    then show ?thesis using less.prems by (simp add: ctr128_blocks.simps gblocks.simps)
  qed
qed

text \<open>The parts of a call in counter mode put together, whichever loop made the blocks.\<close>

lemma ctr_assemble:
  assumes "cipher block" "mode_ok c"
    and head: "xor_head (ecount c) (num c) inp = (o1, n1, inp1)"
    and g: "gblocks (ctr_next block) ctr_clear (xor_inner snd) (ivec c, []) inp1 = (o2, (iv2, []), rest)" "length iv2 = 16"
    and r: "r = (if rest \<noteq> [] then
        (let (o3, n) = xor_tail (block iv2) 0 rest
         in (o1 @ o2 @ o3, \<lparr>ivec = ctr128_inc iv2, ecount = block iv2, num = n\<rparr>))
      else (o1 @ o2, \<lparr>ivec = iv2, ecount = ec2, num = n1\<rparr>))"
    and ec2: "length ec2 = 16" "inp1 = [] \<Longrightarrow> ec2 = ecount c"
  shows "mode_ok (snd r) \<and> fst r = fst (steps (ctr_step block) (ctr_rep c) inp) \<and>
    ctr_rep (snd r) = snd (steps (ctr_step block) (ctr_rep c) inp)"
proof -
  define m where "m = head_len (num c) inp"
  have c: "length (ivec c) = 16" "length (ecount c) = 16" "num c < 16" using assms(2) by (simp_all add: mode_ok_def)
  have h: "o1 = fst (inners (xor_inner snd) (ivec c, ecount c) (num c) (take m inp))" "n1 = (num c + m) mod 16"
    "inp1 = drop m inp"
    using head xor_head_inners [of "num c" snd "(ivec c, ecount c)" inp] c(3) by (simp_all add: m_def)
  define e where "e = (if num c = 0 then [] else ecount c)"
  have o1: "inners (xor_inner snd) (ivec c, e) (num c) (take m inp) = (o1, (ivec c, e))"
    by (cases "num c = 0") (auto simp: h(1) e_def m_def head_len_def intro: prod_eqI)
  note steps = steps_mode [OF c(3), of "ctr_next block" ctr_clear "xor_inner snd" "(ivec c, e)" inp,
    unfolded Let_def, folded ctr_step_def m_def, folded h(3), unfolded o1 prod.case]
  have rep: "ctr_rep c = ((ivec c, e), num c)" by (simp add: ctr_rep_def e_def)
  show ?thesis
  proof (cases "inp1 = []")
    case True
    then have "o2 = []" "iv2 = ivec c" "rest = []" using g(1) by (simp_all add: gblocks.simps)
    moreover have "num c + m = 16 \<or> num c + m < 16" "num c = 0 \<Longrightarrow> m = 0" using c(3) by (auto simp: m_def head_len_def)
    ultimately show ?thesis using True steps rep c r ec2(2) h(2)
      by (auto simp: ctr_rep_def mode_ok_def ctr_clear_def e_def)
  next
    case False
    have zero: "n1 = 0" using head_complete [OF c(3), of inp] False h by (simp add: m_def)
    have start: "(if num c = 0 then (ivec c, e) else ctr_clear (ivec c, e)) = (ivec c, [])"
      by (simp add: ctr_clear_def e_def)
    have len: "length rest < 16"
      using gblocks_rest [of "ctr_next block" ctr_clear "xor_inner snd" "(ivec c, [])" inp1] by (simp add: g(1))
    show ?thesis
    proof (cases "rest = []")
      case True
      then show ?thesis using False steps rep c g r ec2(1) zero by (simp add: ctr_rep_def mode_ok_def start)
    next
      case rest: False
      have ks: "length (block iv2) = 16" using assms(1) g(2) by (simp add: cipher_def)
      define o3 where "o3 = fst (inners (xor_inner snd) (ctr128_inc iv2, block iv2) 0 rest)"
      have "xor_tail (block iv2) 0 rest = (o3, length rest)"
        using xor_tail_inners [of snd "(ctr128_inc iv2, block iv2)" 0 rest] by (simp add: o3_def)
      moreover have "inners (xor_inner snd) (ctr_next block (iv2, [])) 0 rest = (o3, (ctr128_inc iv2, block iv2))"
        by (rule prod_eqI) (simp_all add: o3_def ctr_next_def)
      ultimately show ?thesis using rest False steps rep c g ks len r
        by (simp add: ctr_rep_def mode_ok_def start)
    qed
  qed
qed

lemma ctr128_steps:
  assumes "cipher block" "mode_ok c"
  shows "mode_ok (snd (CRYPTO_ctr128_encrypt block c inp)) \<and>
    fst (CRYPTO_ctr128_encrypt block c inp) = fst (steps (ctr_step block) (ctr_rep c) inp) \<and>
    ctr_rep (snd (CRYPTO_ctr128_encrypt block c inp)) = snd (steps (ctr_step block) (ctr_rep c) inp)"
proof -
  have c: "length (ivec c) = 16" "length (ecount c) = 16" "num c < 16" using assms(2) by (simp_all add: mode_ok_def)
  obtain o1 n1 inp1 where head: "xor_head (ecount c) (num c) inp = (o1, n1, inp1)" by (metis prod_cases3)
  obtain o2 iv2 ec2 rest where g: "length iv2 = 16" "length ec2 = 16"
    "ctr128_blocks block (ivec c) (ecount c) n1 inp1 = (o2, iv2, ec2, if 16 \<le> length inp1 then 0 else n1, rest)"
    "gblocks (ctr_next block) ctr_clear (xor_inner snd) (ivec c, []) inp1 = (o2, (iv2, []), rest)"
    using ctr128_blocks_gblocks [OF assms(1) c(1,2), of n1 inp1] by blast
  have zero: "n1 = 0" if "inp1 \<noteq> []"
    using head xor_head_inners [of "num c" snd "(ivec c, ecount c)" inp] head_complete [OF c(3), of inp] c(3) that by simp
  have ec2: "ec2 = ecount c" if "inp1 = []" using g(3) that by (simp add: ctr128_blocks.simps)
  have rest: "rest = []" if "inp1 = []" using g(3) that by (simp add: ctr128_blocks.simps)
  have "CRYPTO_ctr128_encrypt block c inp = (if rest \<noteq> [] then
        (let (o3, n) = xor_tail (block iv2) 0 rest
         in (o1 @ o2 @ o3, \<lparr>ivec = ctr128_inc iv2, ecount = block iv2, num = n\<rparr>))
      else (o1 @ o2, \<lparr>ivec = iv2, ecount = ec2, num = n1\<rparr>))"
  proof (cases "inp1 = []")
    case True
    then have "ctr128_blocks block (ivec c) (ecount c) n1 [] = (o2, iv2, ec2, n1, [])" using g(3) rest by simp
    then show ?thesis by (simp add: CRYPTO_ctr128_encrypt_def head Let_def True rest)
  next
    case False
    then have n1: "n1 = 0" by (rule zero)
    show ?thesis using g(3) unfolding CRYPTO_ctr128_encrypt_def head n1 if_cancel by (simp add: Let_def)
  qed
  then show ?thesis by (rule ctr_assemble [OF assms head g(4,1) _ g(2) ec2])
qed

subsection \<open>Counters\<close>

lemma counter_loop_be:
  "n \<le> length k \<Longrightarrow> c < 2 ^ 24 \<Longrightarrow>
   counter_loop n (of_nat c) k = be_bytes n (be_val (take n k) + c) @ drop n k"
proof (induction n arbitrary: c k)
  case (Suc n)
  define x where "x = c + unat (k ! n)"
  have "unat (k ! n) < 256" by (rule unat_u8_lt)
  then have x: "x < 2 ^ 24 + 256" using Suc.prems(2) unfolding x_def by linarith
  have q: "x div 256 < 2 ^ 24" by (rule less_mult_imp_div_less) (use x in simp)
  note x = x q
  have ux: "unat (of_nat x :: u32) = x" using x(1) by (simp add: unat_of_nat_small)
  have sum: "of_nat c + ucast (k ! n) = (of_nat x :: u32)"
  proof -
    have "(ucast (k ! n) :: u32) = of_nat (unat (k ! n))"
      by (rule word_unat_eq_iff [THEN iffD2]) (simp add: unat_of_nat take_bit_nat_eq_self_iff)
    then show ?thesis by (simp add: x_def)
  qed
  have carry: "drop_bit 8 (of_nat x :: u32) = of_nat (x div 256)"
  proof (rule word_unat_eq_iff [THEN iffD2])
    have "unat (drop_bit 8 (of_nat x :: u32)) = x div 2 ^ 8"
      by (simp only: unat_drop_bit_eq ux) (simp only: drop_bit_eq_div)
    then show "unat (drop_bit 8 (of_nat x :: u32)) = unat (of_nat (x div 256) :: u32)"
      using x(2) by (simp add: unat_of_nat_small)
  qed
  have byte: "ucast (of_nat x :: u32) = (of_nat x :: u8)"
    by (rule bit_word_eqI) (auto simp: bit_simps bit_word_of_nat)
  have "take (Suc n) k = take n k @ [k ! n]" using Suc.prems(1) by (simp add: take_Suc_conv_app_nth)
  then have v: "be_val (take (Suc n) k) + c = be_val (take n k) * 256 + x" by (simp add: x_def)
  have "counter_loop (Suc n) (of_nat c) k = counter_loop n (of_nat (x div 256)) (k[n := of_nat x])"
    by (simp add: Let_def sum carry byte)
  also have "\<dots> = be_bytes n (be_val (take n k) + x div 256) @ of_nat x # drop (Suc n) k"
    using Suc.IH [of "k[n := of_nat x]" "x div 256"] Suc.prems(1) x(2)
    by (simp add: drop_update_swap Cons_nth_drop_Suc [symmetric])
  also have "\<dots> = be_bytes (Suc n) (be_val (take (Suc n) k) + c) @ drop (Suc n) k"
  proof -
    have "(be_val (take n k) * 256 + x) div 256 = be_val (take n k) + x div 256" by simp
    moreover have "(of_nat (be_val (take n k) * 256 + x) :: u8) = of_nat x"
      by (rule word_unat_eq_iff [THEN iffD2]) (simp only: unat_of_nat_u8, simp)
    ultimately show ?thesis unfolding v by simp
  qed
  finally show ?case .
qed simp

lemma ctr128_inc_be: "length k = 16 \<Longrightarrow> ctr128_inc k = be_bytes 16 (be_val k + 1)"
  using counter_loop_be [of 16 k 1] by (simp add: ctr128_inc_def)

lemma ctr96_inc_be: "length k = 16 \<Longrightarrow> ctr96_inc k = be_bytes 12 (be_val (take 12 k) + 1) @ drop 12 k"
  using counter_loop_be [of 12 k 1] by (simp add: ctr96_inc_def)

text \<open>A counter block and the block \<open>i\<close> places later.\<close>

definition counter_at :: "u8 list \<Rightarrow> nat \<Rightarrow> u8 list" where
  "counter_at iv i = be_bytes 16 (be_val iv + i)"

lemma be_bytes_mod: "be_bytes n (v mod 256 ^ n) = be_bytes n v"
proof -
  have "be_val (be_bytes n (v mod 256 ^ n)) = be_val (be_bytes n v)" by (simp add: be_val_be_bytes)
  then show ?thesis by (intro be_val_inj) simp_all
qed

lemma be_bytes_split: "be_bytes (m + n) v = be_bytes m (v div 256 ^ n) @ be_bytes n v"
  by (induction n arbitrary: v) (simp_all add: div_mult2_eq)

lemma counter_at_0: "length iv = 16 \<Longrightarrow> counter_at iv 0 = iv"
  using be_bytes_be_val [of iv] by (simp add: counter_at_def)

lemma length_counter_at [simp]: "length (counter_at iv i) = 16"
  by (simp add: counter_at_def)

lemma counter_at_add: "counter_at (counter_at iv i) j = counter_at iv (i + j)"
proof -
  have "be_bytes 16 ((be_val iv + i) mod 256 ^ 16 + j) = be_bytes 16 (((be_val iv + i) mod 256 ^ 16 + j) mod 256 ^ 16)"
    by (simp only: be_bytes_mod)
  also have "\<dots> = be_bytes 16 ((be_val iv + i + j) mod 256 ^ 16)" by (simp only: mod_add_left_eq)
  also have "\<dots> = be_bytes 16 (be_val iv + (i + j))" by (simp only: be_bytes_mod add.assoc)
  finally show ?thesis by (simp add: counter_at_def be_val_be_bytes)
qed

lemma ctr128_inc_at: "length iv = 16 \<Longrightarrow> ctr128_inc iv = counter_at iv 1"
  by (simp add: ctr128_inc_be counter_at_def)

text \<open>The low 32 bits counted alone, with the carry into the other 96.\<close>

lemma counter_at_low:
  assumes iv: "length iv = 16" and low: "be_val (drop 12 iv) + i \<le> 2 ^ 32"
  shows "be_val (drop 12 iv) + i < 2 ^ 32 \<Longrightarrow> counter_at iv i = take 12 iv @ be_bytes 4 (be_val (drop 12 iv) + i)"
    and "be_val (drop 12 iv) + i = 2 ^ 32 \<Longrightarrow> counter_at iv i = be_bytes 12 (be_val (take 12 iv) + 1) @ be_bytes 4 0"
proof -
  define hi where "hi = be_val (take 12 iv)"
  define lo where "lo = be_val (drop 12 iv)"
  have "be_val iv = be_val (take 12 iv @ drop 12 iv)" by simp
  also have "\<dots> = hi * 2 ^ 32 + lo" unfolding be_val_append hi_def lo_def using iv by simp
  finally have v: "be_val iv + i = hi * 2 ^ 32 + (lo + i)" by simp
  have split: "counter_at iv i = be_bytes 12 ((hi * 2 ^ 32 + (lo + i)) div 256 ^ 4) @ be_bytes 4 (hi * 2 ^ 32 + (lo + i))"
    using be_bytes_split [of 12 4 "hi * 2 ^ 32 + (lo + i)"] by (simp add: counter_at_def v)
  have hi_bytes: "be_bytes 12 hi = take 12 iv" using be_bytes_be_val [of "take 12 iv"] iv by (simp add: hi_def)
  have low4: "be_bytes 4 (hi * 2 ^ 32 + (lo + i)) = be_bytes 4 (lo + i)"
    using be_bytes_mod [of 4 "hi * 2 ^ 32 + (lo + i)"] be_bytes_mod [of 4 "lo + i"] by simp
  show "counter_at iv i = take 12 iv @ be_bytes 4 (lo + i)" if "lo + i < 2 ^ 32"
  proof -
    have "(hi * 2 ^ 32 + (lo + i)) div 256 ^ 4 = hi" using that by simp
    then show ?thesis unfolding split low4 by (simp add: hi_bytes)
  qed
  show "counter_at iv i = be_bytes 12 (hi + 1) @ be_bytes 4 0" if "lo + i = 2 ^ 32"
  proof -
    have "(hi * 2 ^ 32 + 2 ^ 32) div 256 ^ 4 = hi + 1" by simp
    moreover have "be_bytes 4 (2 ^ 32) = be_bytes 4 0" using be_bytes_mod [of 4 "2 ^ 32"] by simp
    ultimately show ?thesis unfolding split low4 unfolding that by simp
  qed
qed

subsection \<open>Several blocks at a time\<close>

lemma load_u32_be_val: "length bs = 4 \<Longrightarrow> CRYPTO_load_u32_be bs = of_nat (be_val bs)"
  using bswap4_of_le [of bs] by (simp add: CRYPTO_load_u32_be_def)

lemma store_u32_be_bytes: "CRYPTO_store_u32_be v = be_bytes 4 (unat v)"
proof -
  define bs where "bs = CRYPTO_store_u32_be v"
  have len: "length bs = 4" by (simp add: bs_def CRYPTO_store_u32_be_def)
  have "of_nat (be_val bs) = v"
    using load_u32_be_val [OF len] load_store_u32_be [of v "[]"] by (simp add: bs_def)
  moreover have "be_val bs < 2 ^ 32" using be_val_bound [of bs] len by simp
  ultimately have "be_val bs = unat v" using unat_of_nat_small [of "be_val bs", where ?'a = 32] by auto
  then show ?thesis using be_bytes_be_val [of bs] len by (simp add: bs_def)
qed

text \<open>The keystream from a counter block on, and whole blocks combined with it.\<close>

definition ctr_xor :: "(u8 list \<Rightarrow> u8 list) \<Rightarrow> u8 list \<Rightarrow> nat \<Rightarrow> u8 list \<Rightarrow> u8 list" where
  "ctr_xor block iv k inp =
    concat (map (\<lambda>i. map2 (XOR) (take 16 (drop (16 * i) inp)) (block (counter_at iv i))) [0..<k])"

text \<open>
  The documented contract of a \<^verbatim>\<open>ctr128_f\<close>: counter mode on the low 32 bits of the counter block, which
  must not overflow within one call.
\<close>

definition ctr32_func :: "(u8 list \<Rightarrow> nat \<Rightarrow> u8 list \<Rightarrow> u8 list) \<Rightarrow> (u8 list \<Rightarrow> u8 list) \<Rightarrow> bool" where
  "ctr32_func func block \<longleftrightarrow>
    (\<forall>inp blocks iv. length iv = 16 \<and> length inp = 16 * blocks \<and> be_val (drop 12 iv) + blocks \<le> 2 ^ 32 \<longrightarrow>
       func inp blocks iv =
         concat (map (\<lambda>i. map2 (XOR) (take 16 (drop (16 * i) inp))
           (block (take 12 iv @ be_bytes 4 (be_val (drop 12 iv) + i)))) [0..<blocks]))"

lemma ctr32_func_xor:
  assumes "ctr32_func func block" "length iv = 16" "length inp = 16 * k" "be_val (drop 12 iv) + k \<le> 2 ^ 32"
  shows "func inp k iv = ctr_xor block iv k inp"
proof -
  have "take 12 iv @ be_bytes 4 (be_val (drop 12 iv) + i) = counter_at iv i" if "i < k" for i
    using counter_at_low(1) [OF assms(2), of i] assms(4) that by simp
  then have "map (\<lambda>i. map2 (XOR) (take 16 (drop (16 * i) inp))
      (block (take 12 iv @ be_bytes 4 (be_val (drop 12 iv) + i)))) [0..<k] =
    map (\<lambda>i. map2 (XOR) (take 16 (drop (16 * i) inp)) (block (counter_at iv i))) [0..<k]"
    by (intro map_cong) simp_all
  then have "ctr_xor block iv k inp = concat (map (\<lambda>i. map2 (XOR) (take 16 (drop (16 * i) inp))
      (block (take 12 iv @ be_bytes 4 (be_val (drop 12 iv) + i)))) [0..<k])"
    by (simp only: ctr_xor_def)
  then show ?thesis using assms by (simp add: ctr32_func_def)
qed

lemma ctr_xor_Suc:
  assumes "length iv = 16"
  shows "ctr_xor block iv (Suc k) inp =
    map2 (XOR) (take 16 inp) (block iv) @ ctr_xor block (ctr128_inc iv) k (drop 16 inp)"
proof -
  have "counter_at iv (Suc i) = counter_at (ctr128_inc iv) i" for i
    using counter_at_add [of iv 1 i] by (simp add: ctr128_inc_at [OF assms])
  moreover have "[0..<Suc k] = 0 # map Suc [0..<k]" by (simp add: map_Suc_upt upt_conv_Cons)
  ultimately show ?thesis
    by (simp add: ctr_xor_def counter_at_0 [OF assms] comp_def add.commute [of 16] del: upt_Suc)
qed

text \<open>The blocks of a call, \<open>k\<close> at a time.\<close>

lemma ctr_gblocks:
  assumes "cipher block" "length iv = 16" "16 * k \<le> length inp"
  shows "gblocks (ctr_next block) ctr_clear (xor_inner snd) (iv, []) inp =
    (let (out, x, rest) = gblocks (ctr_next block) ctr_clear (xor_inner snd) (counter_at iv k, []) (drop (16 * k) inp)
     in (ctr_xor block iv k inp @ out, x, rest))"
  using assms(2,3)
proof (induction k arbitrary: iv inp)
  case 0
  then show ?case by (simp add: ctr_xor_def counter_at_0 split: prod.splits)
next
  case (Suc k)
  have ks: "length (block iv) = 16" using assms(1) Suc.prems(1) by (simp add: cipher_def)
  have len: "16 \<le> length inp" "16 * k \<le> length (drop 16 inp)" "length (ctr128_inc iv) = 16" using Suc.prems by simp_all
  have "inners (xor_inner snd) (ctr128_inc iv, block iv) 0 (take 16 inp) =
      (map2 (XOR) (take 16 inp) (block iv), (ctr128_inc iv, block iv))"
    using inners_xor_block [of "take 16 inp" snd "(ctr128_inc iv, block iv)"] len(1) ks
    by (intro prod_eqI) simp_all
  moreover have "counter_at (ctr128_inc iv) k = counter_at iv (Suc k)"
    using counter_at_add [of iv 1 k] by (simp add: ctr128_inc_at [OF Suc.prems(1)])
  ultimately show ?case
    using len(1) Suc.IH [OF len(3,2)]
    by (subst gblocks.simps)
      (simp add: ctr_next_def ctr_clear_def ctr_xor_Suc [OF Suc.prems(1)] Let_def add.commute [of 16] split: prod.splits)
qed

lemma ctr32_advance:
  assumes iv: "length iv = 16" and k: "0 < k" "be_val (drop 12 iv) + k \<le> 2 ^ 32"
    and low: "ctr32 = of_nat (be_val (drop 12 iv) + k)"
  shows "(if ctr32 = 0 then ctr96_inc (take 12 iv @ CRYPTO_store_u32_be ctr32)
      else take 12 iv @ CRYPTO_store_u32_be ctr32) = counter_at iv k \<and>
    ctr32 = of_nat (be_val (drop 12 (counter_at iv k)))"
proof -
  define v where "v = be_val (drop 12 iv) + k"
  have v: "v \<le> 2 ^ 32" "0 < v" using k by (simp_all add: v_def)
  show ?thesis
  proof (cases "v = 2 ^ 32")
    case True
    have at: "counter_at iv k = be_bytes 12 (be_val (take 12 iv) + 1) @ be_bytes 4 0"
      using counter_at_low(2) [OF iv k(2)] True by (simp add: v_def)
    have "ctr32 = 0" unfolding low v_def [symmetric] True by simp
    moreover have "ctr96_inc (take 12 iv @ be_bytes 4 0) = be_bytes 12 (be_val (take 12 iv) + 1) @ be_bytes 4 0"
      using ctr96_inc_be [of "take 12 iv @ be_bytes 4 0"] iv by simp
    ultimately show ?thesis using at by (simp add: store_u32_be_bytes be_val_be_bytes)
  next
    case False
    then have less: "v < 2 ^ 32" using v by simp
    then have u: "unat ctr32 = v" unfolding low v_def [symmetric] by (simp add: unat_of_nat_small)
    then have zero: "ctr32 \<noteq> 0" using v(2) by (metis less_irrefl unat_0)
    have at: "counter_at iv k = take 12 iv @ be_bytes 4 v"
      using counter_at_low(1) [OF iv k(2)] less by (simp add: v_def)
    have "be_val (drop 12 (counter_at iv k)) = v" unfolding at using iv less by (simp add: be_val_be_bytes)
    moreover have "take 12 iv @ CRYPTO_store_u32_be ctr32 = counter_at iv k" by (simp only: store_u32_be_bytes u at)
    ultimately show ?thesis using zero low by (simp add: v_def)
  qed
qed

lemma ctr32_blocks_gblocks:
  assumes "cipher block" "ctr32_func func block" "length iv = 16"
  shows "\<exists>out iv' rest. length iv' = 16 \<and>
    ctr32_blocks func iv (of_nat (be_val (drop 12 iv))) inp = (out, iv', of_nat (be_val (drop 12 iv')), rest) \<and>
    gblocks (ctr_next block) ctr_clear (xor_inner snd) (iv, []) inp = (out, (iv', []), rest)"
  using assms(3)
proof (induction "length inp" arbitrary: iv inp rule: less_induct)
  case less
  show ?case
  proof (cases "16 \<le> length inp")
    case False
    then show ?thesis using less.prems by (simp add: ctr32_blocks.simps gblocks.simps)
  next
    case True
    define lo where "lo = be_val (drop 12 iv)"
    define b0 where "b0 = (if 2 ^ 28 < length inp div 16 then 2 ^ 28 else length inp div 16)"
    define b where "b = (if 2 ^ 32 \<le> lo + b0 then 2 ^ 32 - lo else b0)"
    have lo: "lo < 2 ^ 32" using be_val_bound [of "drop 12 iv"] less.prems by (simp add: lo_def)
    have b0: "0 < b0" "b0 \<le> 2 ^ 28" "16 * b0 \<le> length inp" using True by (auto simp: b0_def div_greater_zero_iff)
    then have b: "0 < b" "lo + b \<le> 2 ^ 32" "b \<le> b0" "16 * b \<le> length inp" using lo by (auto simp: b_def)
    define ctr1 :: u32 where "ctr1 = of_nat lo + of_nat b0"
    have u1: "unat ctr1 = (if lo + b0 < 2 ^ 32 then lo + b0 else lo + b0 - 2 ^ 32)"
    proof -
      have "ctr1 = of_nat (lo + b0)" by (simp add: ctr1_def)
      then have "unat ctr1 = (lo + b0) mod 2 ^ 32" by (simp only: unat_of_nat) simp
      then show ?thesis using lo b0(2) by (simp add: mod_if)
    qed
    have pair: "(if unat ctr1 < b0 then (b0 - unat ctr1, 0) else (b0, ctr1)) = (b, of_nat (lo + b))"
    proof (cases "lo + b0 < 2 ^ 32")
      case True
      then show ?thesis using u1 by (simp add: b_def ctr1_def)
    next
      case False
      then have "unat ctr1 < b0" "b0 - unat ctr1 = b" using u1 lo by (auto simp: b_def)
      moreover have "(of_nat (lo + b) :: u32) = 0"
      proof -
        have "lo + b = 2 ^ 32" using False lo by (simp add: b_def)
        then show ?thesis by (simp only:) simp
      qed
      ultimately show ?thesis by simp
    qed
    have fn: "func (take (16 * b) inp) b iv = ctr_xor block iv b (take (16 * b) inp)"
      using ctr32_func_xor [OF assms(2) less.prems, of "take (16 * b) inp" b] b(2,4) by (simp add: lo_def)
    have cut: "ctr_xor block iv b (take (16 * b) inp) = ctr_xor block iv b inp"
    proof -
      have "take 16 (drop (16 * i) (take (16 * b) inp)) = take 16 (drop (16 * i) inp)" if "i < b" for i
      proof -
        have "16 \<le> 16 * b - 16 * i" using that by simp
        then show ?thesis by (simp add: drop_take min_absorb1)
      qed
      then have "map (\<lambda>i. map2 (XOR) (take 16 (drop (16 * i) (take (16 * b) inp))) (block (counter_at iv i))) [0..<b] =
          map (\<lambda>i. map2 (XOR) (take 16 (drop (16 * i) inp)) (block (counter_at iv i))) [0..<b]"
        by (intro map_cong) simp_all
      then show ?thesis by (simp only: ctr_xor_def)
    qed
    define iv1 where "iv1 = counter_at iv b"
    note adv = ctr32_advance [OF less.prems b(1) b(2) [unfolded lo_def] refl, folded lo_def iv1_def]
    have step: "ctr32_blocks func iv (of_nat lo) inp =
        (let (out, iv', c, rest) = ctr32_blocks func iv1 (of_nat (be_val (drop 12 iv1))) (drop (16 * b) inp)
         in (ctr_xor block iv b inp @ out, iv', c, rest))"
      using True
      by (subst ctr32_blocks.simps)
        (simp only: Let_def if_True b0_def [symmetric] ctr1_def [symmetric] pair prod.case fn cut
          adv [THEN conjunct1], simp only: adv [THEN conjunct2])
    have "length (drop (16 * b) inp) < length inp" "length iv1 = 16" using b(1,4) True by (simp_all add: iv1_def)
    from less.hyps [OF this] obtain out iv2 rest where "length iv2 = 16"
      "ctr32_blocks func iv1 (of_nat (be_val (drop 12 iv1))) (drop (16 * b) inp) = (out, iv2, of_nat (be_val (drop 12 iv2)), rest)"
      "gblocks (ctr_next block) ctr_clear (xor_inner snd) (iv1, []) (drop (16 * b) inp) = (out, (iv2, []), rest)"
      by blast
    then show ?thesis
      using step ctr_gblocks [OF assms(1) less.prems b(4)] by (simp add: lo_def iv1_def)
  qed
qed

lemma ctr32_steps:
  assumes "cipher block" "ctr32_func func block" "mode_ok c"
  shows "mode_ok (snd (CRYPTO_ctr128_encrypt_ctr32 func c inp)) \<and>
    fst (CRYPTO_ctr128_encrypt_ctr32 func c inp) = fst (steps (ctr_step block) (ctr_rep c) inp) \<and>
    ctr_rep (snd (CRYPTO_ctr128_encrypt_ctr32 func c inp)) = snd (steps (ctr_step block) (ctr_rep c) inp)"
proof -
  have c: "length (ivec c) = 16" "length (ecount c) = 16" "num c < 16" using assms(3) by (simp_all add: mode_ok_def)
  obtain o1 n1 inp1 where head: "xor_head (ecount c) (num c) inp = (o1, n1, inp1)" by (metis prod_cases3)
  have ctr: "CRYPTO_load_u32_be (drop 12 (ivec c)) = of_nat (be_val (drop 12 (ivec c)))"
    using load_u32_be_val [of "drop 12 (ivec c)"] c(1) by simp
  obtain o2 iv2 rest where g: "length iv2 = 16"
    "ctr32_blocks func (ivec c) (of_nat (be_val (drop 12 (ivec c)))) inp1 = (o2, iv2, of_nat (be_val (drop 12 iv2)), rest)"
    "gblocks (ctr_next block) ctr_clear (xor_inner snd) (ivec c, []) inp1 = (o2, (iv2, []), rest)"
    using ctr32_blocks_gblocks [OF assms(1,2) c(1), of inp1] by blast
  have zero: "n1 = 0" if "inp1 \<noteq> []"
    using head xor_head_inners [of "num c" snd "(ivec c, ecount c)" inp] head_complete [OF c(3), of inp] c(3) that by simp
  have rest: "rest = []" if "inp1 = []" using g(2) that by (simp add: ctr32_blocks.simps)
  have lo: "be_val (drop 12 iv2) < 2 ^ 32" using be_val_bound [of "drop 12 iv2"] g(1) by simp
  have ks: "length (block iv2) = 16" using assms(1) g(1) by (simp add: cipher_def)
  have ec: "func (replicate 16 0) 1 iv2 = block iv2"
  proof -
    have "func (replicate 16 0) 1 iv2 = map2 (XOR) (replicate 16 0) (block iv2)"
      using ctr32_func_xor [OF assms(2) g(1), of "replicate 16 0" 1] lo
      by (simp add: ctr_xor_def counter_at_0 [OF g(1)])
    also have "\<dots> = block iv2" by (rule nth_equalityI) (use ks in simp_all)
    finally show ?thesis .
  qed
  have inc: "(if of_nat (be_val (drop 12 iv2)) + 1 = (0 :: u32)
      then ctr96_inc (take 12 iv2 @ CRYPTO_store_u32_be (of_nat (be_val (drop 12 iv2)) + 1))
      else take 12 iv2 @ CRYPTO_store_u32_be (of_nat (be_val (drop 12 iv2)) + 1)) = ctr128_inc iv2"
    unfolding ctr128_inc_at [OF g(1)] by (rule ctr32_advance [OF g(1), THEN conjunct1]) (use lo in simp_all)
  have "CRYPTO_ctr128_encrypt_ctr32 func c inp = (if rest \<noteq> [] then
        (let (o3, n) = xor_tail (block iv2) 0 rest
         in (o1 @ o2 @ o3, \<lparr>ivec = ctr128_inc iv2, ecount = block iv2, num = n\<rparr>))
      else (o1 @ o2, \<lparr>ivec = iv2, ecount = ecount c, num = n1\<rparr>))"
    using zero rest
    by (cases "rest = []") (simp_all only: CRYPTO_ctr128_encrypt_ctr32_def head ctr g(2) Let_def prod.case ec inc
        simp_thms if_True if_False, auto)
  then show ?thesis by (rule ctr_assemble [OF assms(1,3) head g(3,1) _ c(2) refl])
qed

section \<open>Output feedback\<close>

definition ofb_step :: "(u8 list \<Rightarrow> u8 list) \<Rightarrow> u8 list \<times> nat \<Rightarrow> u8 \<Rightarrow> u8 \<times> (u8 list \<times> nat)" where
  "ofb_step block = bstep block id (xor_inner id)"

definition iv_rep :: "mode_ctx \<Rightarrow> u8 list \<times> nat" where
  "iv_rep c = (ivec c, num c)"

lemma ofb128_blocks_gblocks:
  assumes "cipher block" "length iv = 16"
  shows "n = 0 \<or> length inp < 16 \<Longrightarrow>
    ofb128_blocks block iv n inp = (let (out, iv', rest) = gblocks block id (xor_inner id) iv inp in (out, iv', n, rest)) \<and>
    length (fst (snd (gblocks block id (xor_inner id) iv inp))) = 16"
  using assms(2)
proof (induction "length inp" arbitrary: iv n inp rule: less_induct)
  case less
  show ?case
  proof (cases "16 \<le> length inp")
    case True
    have ks: "length (block iv) = 16" using assms(1) less.prems by (simp add: cipher_def)
    have n: "n = 0" using less.prems True by simp
    have w: "inners (xor_inner id) (block iv) 0 (take 16 inp) = (fst (xor_words 0 inp (block iv)), block iv)"
      using xor_words_inners [of inp id "block iv"] True ks by (intro prod_eqI) simp_all
    have "length (drop 16 inp) < length inp" using True by simp
    from less.hyps [OF this _ ks, of 0] w show ?thesis
      using True unfolding n by (subst ofb128_blocks.simps, subst (1 2) gblocks.simps) (simp add: Let_def split_beta)
  next
    case False
    then show ?thesis using less.prems by (simp add: ofb128_blocks.simps [of block iv n inp] gblocks.simps [of block id _ iv inp])
  qed
qed

lemma ofb128_steps:
  assumes "cipher block" "mode_ok c"
  shows "mode_ok (snd (CRYPTO_ofb128_encrypt block c inp)) \<and>
    fst (CRYPTO_ofb128_encrypt block c inp) = fst (steps (ofb_step block) (iv_rep c) inp) \<and>
    iv_rep (snd (CRYPTO_ofb128_encrypt block c inp)) = snd (steps (ofb_step block) (iv_rep c) inp)"
proof -
  define m where "m = head_len (num c) inp"
  have c: "length (ivec c) = 16" "length (ecount c) = 16" "num c < 16" using assms(2) by (simp_all add: mode_ok_def)
  obtain o1 n1 inp1 where head: "xor_head (ivec c) (num c) inp = (o1, n1, inp1)" by (metis prod_cases3)
  then have h: "o1 = fst (inners (xor_inner id) (ivec c) (num c) (take m inp))" "n1 = (num c + m) mod 16"
    "inp1 = drop m inp"
    using xor_head_inners [of "num c" id "ivec c" inp] c(3) by (simp_all add: m_def)
  have o1: "inners (xor_inner id) (ivec c) (num c) (take m inp) = (o1, ivec c)"
    by (rule prod_eqI) (simp_all add: h(1))
  note steps = steps_mode [OF c(3), of block id "xor_inner id" "ivec c" inp,
    unfolded Let_def, folded ofb_step_def m_def, folded h(3), unfolded o1 prod.case]
  obtain o2 iv2 rest where g: "gblocks block id (xor_inner id) (ivec c) inp1 = (o2, iv2, rest)" by (metis prod_cases3)
  have "n1 = 0 \<or> inp1 = []" using head_complete [OF c(3), of inp] h by (auto simp: m_def)
  then have b: "ofb128_blocks block (ivec c) n1 inp1 = (o2, iv2, n1, rest)" "length iv2 = 16"
    using ofb128_blocks_gblocks [OF assms(1) c(1), of n1 inp1] g by auto
  have len: "length rest < 16" using gblocks_rest [of block id "xor_inner id" "ivec c" inp1] by (simp add: g)
  show ?thesis
  proof (cases "inp1 = []")
    case True
    then have "o2 = []" "iv2 = ivec c" "rest = []" using g by (simp_all add: gblocks.simps)
    then show ?thesis using True steps c h(2) head b(1)
      by (simp add: CRYPTO_ofb128_encrypt_def iv_rep_def mode_ok_def Let_def)
  next
    case False
    have zero: "n1 = 0" using head_complete [OF c(3), of inp] False h by (simp add: m_def)
    show ?thesis
    proof (cases "rest = []")
      case True
      then show ?thesis using False steps c g b zero
        by (simp add: CRYPTO_ofb128_encrypt_def iv_rep_def mode_ok_def head Let_def)
    next
      case rest: False
      have ks: "length (block iv2) = 16" using assms(1) b(2) by (simp add: cipher_def)
      define o3 where "o3 = fst (inners (xor_inner id) (block iv2) 0 rest)"
      have "xor_tail (block iv2) 0 rest = (o3, length rest)"
        using xor_tail_inners [of id "block iv2" 0 rest] by (simp add: o3_def)
      moreover have "inners (xor_inner id) (block iv2) 0 rest = (o3, block iv2)"
        by (rule prod_eqI) (simp_all add: o3_def)
      ultimately show ?thesis using rest False steps c g b ks len zero
        by (simp add: CRYPTO_ofb128_encrypt_def iv_rep_def mode_ok_def head Let_def)
    qed
  qed
qed

section \<open>Cipher feedback\<close>

definition cfb_step :: "(u8 list \<Rightarrow> u8 list) \<Rightarrow> bool \<Rightarrow> u8 list \<times> nat \<Rightarrow> u8 \<Rightarrow> u8 \<times> (u8 list \<times> nat)" where
  "cfb_step block enc = bstep block id (cfb_byte enc)"

lemma length_cfb_byte [simp]: "length (snd (cfb_byte enc iv n b)) = length iv"
  by (simp add: cfb_byte_def Let_def)

lemma length_inners_cfb [simp]: "length (snd (inners (cfb_byte enc) iv n bs)) = length iv"
  by (induction bs arbitrary: iv n) (auto simp: Let_def split_beta)

lemma cfb_tail_inners:
  "cfb_tail enc iv n bs = (let (out, iv') = inners (cfb_byte enc) iv n bs in (out, iv', n + length bs))"
  by (induction bs arbitrary: iv n) (auto split: prod.splits)

lemma cfb_head_inners:
  "n < 16 \<Longrightarrow> cfb_head enc iv n bs =
    (let (out, iv') = inners (cfb_byte enc) iv n (take (head_len n bs) bs)
     in (out, iv', (n + head_len n bs) mod 16, drop (head_len n bs) bs))"
proof (induction bs arbitrary: n iv)
  case (Cons b bs)
  show ?case
  proof (cases "n = 0 \<or> n = 15")
    case True
    then show ?thesis by (cases bs) (auto simp: head_len_def min_def split: prod.splits)
  next
    case False
    then have "head_len n (b # bs) = Suc (head_len (n + 1) bs)" using Cons.prems by (auto simp: head_len_def)
    then show ?thesis using False Cons by (simp split: prod.splits)
  qed
qed (simp add: head_len_def)

lemma inners_cfb_eq:
  "n + length bs \<le> length iv \<Longrightarrow>
   inners (cfb_byte enc) iv n bs =
     (map2 (XOR) (take (length bs) (drop n iv)) bs,
      take n iv @ (if enc then map2 (XOR) (take (length bs) (drop n iv)) bs else bs) @ drop (n + length bs) iv)"
proof (induction bs arbitrary: iv n)
  case (Cons b bs)
  define c where "c = (if enc then iv ! n XOR b else b)"
  have n: "n < length iv" "n + 1 + length bs \<le> length iv" using Cons.prems by simp_all
  have byte: "cfb_byte enc iv n b = (iv ! n XOR b, iv[n := c])" by (simp add: cfb_byte_def c_def Let_def)
  have rest: "drop (n + 1) (iv[n := c]) = drop (n + 1) iv" "drop (n + 1 + length bs) (iv[n := c]) = drop (n + 1 + length bs) iv"
    by simp_all
  have front: "take (n + 1) (iv[n := c]) = take n iv @ [c]"
    using n(1) by (simp add: take_Suc_conv_app_nth)
  have "drop n iv = iv ! n # drop (n + 1) iv" using n(1) by (simp add: Cons_nth_drop_Suc)
  then show ?case
    using Cons.IH [of "n + 1" "iv[n := c]"] n unfolding inners.simps byte Let_def prod.case rest front
    by (simp add: c_def)
qed simp

lemma cfb_words_inners:
  assumes "length iv = 16" "16 \<le> length inp"
  shows "cfb_words enc 0 iv inp = (let (out, iv') = inners (cfb_byte enc) iv 0 (take 16 inp) in (out, iv', 16))"
proof -
  let ?x = "\<lambda>n. CRYPTO_store_word_le (CRYPTO_load_word_le (drop n iv) XOR CRYPTO_load_word_le (drop n inp))"
  let ?t = "\<lambda>n. CRYPTO_store_word_le (CRYPTO_load_word_le (drop n inp))"
  have len: "length (CRYPTO_store_word_le w) = 8" for w by (simp add: CRYPTO_store_word_le_def)
  have at: "drop 8 (blit iv 0 (CRYPTO_store_word_le w)) = drop 8 iv" for w
    using assms(1) by (simp add: blit_def len)
  have put: "blit (blit iv 0 (CRYPTO_store_word_le v)) 8 (CRYPTO_store_word_le w) =
      CRYPTO_store_word_le v @ CRYPTO_store_word_le w" for v w
    using assms(1) by (simp add: blit_def len)
  have "cfb_words enc 0 iv inp = (?x 0 @ ?x 8, if enc then ?x 0 @ ?x 8 else ?t 0 @ ?t 8, 16)"
    by (cases enc; subst cfb_words.simps, subst cfb_words.simps, subst cfb_words.simps) (simp_all add: Let_def at put)
  moreover have "?x 0 @ ?x 8 = map2 (XOR) (take 16 iv) (take 16 inp)"
    using assms map2_take_drop [of iv inp "(XOR)"] by (simp add: store_xor)
  moreover have "?t 0 @ ?t 8 = take 16 inp" using assms take_take_drop [of inp] by (simp add: store_load)
  ultimately show ?thesis using inners_cfb_eq [of 0 "take 16 inp" iv enc] assms by simp
qed

lemma cfb128_blocks_gblocks:
  assumes "cipher block" "length iv = 16"
  shows "n = 0 \<or> length inp < 16 \<Longrightarrow>
    cfb128_blocks block enc iv n inp = (let (out, iv', rest) = gblocks block id (cfb_byte enc) iv inp in (out, iv', n, rest)) \<and>
    length (fst (snd (gblocks block id (cfb_byte enc) iv inp))) = 16"
  using assms(2)
proof (induction "length inp" arbitrary: iv n inp rule: less_induct)
  case less
  show ?case
  proof (cases "16 \<le> length inp")
    case True
    have ks: "length (block iv) = 16" using assms(1) less.prems by (simp add: cipher_def)
    have n: "n = 0" using less.prems True by simp
    obtain o1 iv1 where w: "inners (cfb_byte enc) (block iv) 0 (take 16 inp) = (o1, iv1)" by fastforce
    have iv1: "length iv1 = 16" using length_inners_cfb [of enc "block iv" 0 "take 16 inp"] w ks by simp
    have "length (drop 16 inp) < length inp" using True by simp
    from less.hyps [OF this _ iv1, of 0] w cfb_words_inners [OF ks True, of enc] show ?thesis
      using True unfolding n by (subst cfb128_blocks.simps, subst (1 2) gblocks.simps) (simp add: Let_def split_beta)
  next
    case False
    then show ?thesis using less.prems
      by (simp add: cfb128_blocks.simps [of block enc iv n inp] gblocks.simps [of block id _ iv inp])
  qed
qed

lemma cfb128_steps:
  assumes "cipher block" "mode_ok c"
  shows "mode_ok (snd (CRYPTO_cfb128_encrypt block enc c inp)) \<and>
    fst (CRYPTO_cfb128_encrypt block enc c inp) = fst (steps (cfb_step block enc) (iv_rep c) inp) \<and>
    iv_rep (snd (CRYPTO_cfb128_encrypt block enc c inp)) = snd (steps (cfb_step block enc) (iv_rep c) inp)"
proof -
  define m where "m = head_len (num c) inp"
  have c: "length (ivec c) = 16" "length (ecount c) = 16" "num c < 16" using assms(2) by (simp_all add: mode_ok_def)
  obtain o1 iv1 where o1: "inners (cfb_byte enc) (ivec c) (num c) (take m inp) = (o1, iv1)" by fastforce
  have iv1: "length iv1 = 16" using length_inners_cfb [of enc "ivec c" "num c" "take m inp"] o1 c(1) by simp
  define n1 where "n1 = (num c + m) mod 16"
  define inp1 where "inp1 = drop m inp"
  have head: "cfb_head enc (ivec c) (num c) inp = (o1, iv1, n1, inp1)"
    using cfb_head_inners [OF c(3), of enc "ivec c" inp] o1 by (simp add: m_def n1_def inp1_def)
  note steps = steps_mode [OF c(3), of block id "cfb_byte enc" "ivec c" inp,
    unfolded Let_def, folded cfb_step_def m_def, folded inp1_def, unfolded o1 prod.case]
  obtain o2 iv2 rest where g: "gblocks block id (cfb_byte enc) iv1 inp1 = (o2, iv2, rest)" by (metis prod_cases3)
  have "n1 = 0 \<or> inp1 = []" using head_complete [OF c(3), of inp] by (auto simp: m_def n1_def inp1_def)
  then have b: "cfb128_blocks block enc iv1 n1 inp1 = (o2, iv2, n1, rest)" "length iv2 = 16"
    using cfb128_blocks_gblocks [OF assms(1) iv1, of n1 inp1 enc] g by auto
  have len: "length rest < 16" using gblocks_rest [of block id "cfb_byte enc" iv1 inp1] by (simp add: g)
  show ?thesis
  proof (cases "inp1 = []")
    case True
    then have "o2 = []" "iv2 = iv1" "rest = []" using g by (simp_all add: gblocks.simps)
    then show ?thesis using True steps c head b iv1
      by (simp add: CRYPTO_cfb128_encrypt_def iv_rep_def mode_ok_def Let_def n1_def)
  next
    case False
    have zero: "n1 = 0" using head_complete [OF c(3), of inp] False by (simp add: m_def n1_def inp1_def)
    show ?thesis
    proof (cases "rest = []")
      case True
      then show ?thesis using False steps c g b zero
        by (simp add: CRYPTO_cfb128_encrypt_def iv_rep_def mode_ok_def head Let_def)
    next
      case rest: False
      have ks: "length (block iv2) = 16" using assms(1) b(2) by (simp add: cipher_def)
      obtain o3 iv3 where o3: "inners (cfb_byte enc) (block iv2) 0 rest = (o3, iv3)" by fastforce
      then have "length iv3 = 16" using length_inners_cfb [of enc "block iv2" 0 rest] ks by simp
      then show ?thesis using rest False steps c g b o3 len zero cfb_tail_inners [of enc "block iv2" 0 rest]
        by (simp add: CRYPTO_cfb128_encrypt_def iv_rep_def mode_ok_def head Let_def)
    qed
  qed
qed

section \<open>The modes as streams\<close>

lemma xor_step_undo:
  "bstep nxt clr (xor_inner ks) st (fst (bstep nxt clr (xor_inner ks) st b)) =
    (b, snd (bstep nxt clr (xor_inner ks) st b))"
proof -
  have x: "(b XOR v) XOR v = b" for v :: u8 by (simp add: xor.assoc)
  show ?thesis by (cases st) (simp add: bstep_def xor_inner_def Let_def split_beta x)
qed

lemma cfb_step_undo:
  assumes "length (fst st) = 16" "snd st < 16" "cipher block"
  shows "cfb_step block (\<not> enc) st (fst (cfb_step block enc st b)) = (b, snd (cfb_step block enc st b))"
proof -
  obtain iv n where st: "st = (iv, n)" by fastforce
  define iv' where "iv' = (if n = 0 then block iv else iv)"
  have len: "n < length iv'" using assms by (auto simp: st iv'_def cipher_def)
  have "iv' ! n XOR (iv' ! n XOR b) = b" by (simp flip: xor.assoc)
  then show ?thesis
    by (cases enc) (simp_all add: st cfb_step_def bstep_def cfb_byte_def Let_def iv'_def [symmetric] split_beta)
qed

definition cfb8_step :: "(u8 list \<Rightarrow> u8 list) \<Rightarrow> bool \<Rightarrow> u8 list \<Rightarrow> u8 \<Rightarrow> u8 \<times> u8 list" where
  "cfb8_step block enc iv b =
    (let c = b XOR block iv ! 0 in (c, drop 1 iv @ [if enc then c else b]))"

lemma cfbr_8:
  assumes "length iv = 16" "length junk = 17"
  shows "cfbr_encrypt_block block junk enc iv 8 [b] =
    ([fst (cfb8_step block enc iv b)], snd (cfb8_step block enc iv b))"
  using assms by (simp add: cfbr_encrypt_block_def cfb8_step_def blit_def Let_def)

lemma cfb8_steps:
  assumes "length junk = 17"
  shows "length iv = 16 \<Longrightarrow> CRYPTO_cfb128_8_encrypt block junk enc iv inp = steps (cfb8_step block enc) iv inp \<and>
    length (snd (steps (cfb8_step block enc) iv inp)) = 16"
proof (induction inp arbitrary: iv)
  case (Cons b bs)
  have "length (snd (cfb8_step block enc iv b)) = 16" using Cons.prems by (simp add: cfb8_step_def Let_def)
  then show ?case using Cons.IH [of "snd (cfb8_step block enc iv b)"] cfbr_8 [OF Cons.prems assms]
    by (simp add: Let_def split_beta)
qed simp

lemma cfb8_step_undo: "cfb8_step block False iv (fst (cfb8_step block True iv b)) = (b, snd (cfb8_step block True iv b))"
proof -
  have "(b XOR v) XOR v = b" for v :: u8 by (simp add: xor.assoc)
  then show ?thesis by (simp add: cfb8_step_def Let_def)
qed

subsection \<open>Single bits\<close>

text \<open>Bit \<open>i\<close> of a buffer, most significant first, and a buffer that holds given bits.\<close>

definition bit_at :: "u8 list \<Rightarrow> nat \<Rightarrow> bool" where
  "bit_at bs i \<longleftrightarrow> bit (bs ! (i div 8)) (7 - i mod 8)"

definition pack_bits :: "bool list \<Rightarrow> u8 list" where
  "pack_bits bs = map (\<lambda>k. horner_sum of_bool 2 (map (\<lambda>j. 8 * k + (7 - j) < length bs \<and> bs ! (8 * k + (7 - j))) [0..<8]))
     [0..<(length bs + 7) div 8]"

lemma bit_at_pack: 
  assumes i: "i < length bs"
  shows "bit_at (pack_bits bs) i = bs ! i"
proof -
  define k r where "k = i div 8" and "r = i mod 8"
  have r: "r < 8" and ik: "i = 8 * k + r" by (simp_all add: k_def r_def)
  have k: "k < (length bs + 7) div 8" using i ik by linarith
  have d: "7 - (7 - r) = r" "7 - r < 8" using r by simp_all
  have "bit_at (pack_bits bs) i =
      bit (horner_sum of_bool 2 (map (\<lambda>j. 8 * k + (7 - j) < length bs \<and> bs ! (8 * k + (7 - j))) [0..<8]) :: u8) (7 - r)"
    unfolding bit_at_def pack_bits_def k_def [symmetric] r_def [symmetric] using k by (subst nth_map) (simp_all del: upt_Suc)
  also have "\<dots> = bs ! i" 
    unfolding bit_horner_sum_bit_word_iff length_map using d i by (subst nth_map) (simp_all add: ik del: upt_Suc)
  finally show ?thesis .
qed

definition cfb1_step :: "(u8 list \<Rightarrow> u8 list) \<Rightarrow> bool \<Rightarrow> u8 list \<Rightarrow> bool \<Rightarrow> bool \<times> u8 list" where
  "cfb1_step block enc iv b =
    (let c = (b \<noteq> bit (block iv ! 0) 7);
         ovec = iv @ [if (if enc then c else b) then 0x80 else 0]
     in (c, cfbr_shift ovec 0 1))"

lemma top_bit: "drop_bit 7 w = (if bit w 7 then 1 else 0)" for w :: u8
proof (rule bit_word_eqI)
  fix n assume "n < LENGTH(8)"
  have "bit w (7 + n) \<Longrightarrow> n = 0" using bit_imp_le_length [of w "7 + n"] by simp
  then show "bit (drop_bit 7 w) n = bit (if bit w 7 then 1 else 0 :: u8) n"
    by (auto simp: bit_drop_bit_eq bit_1_iff)
qed

lemma bit_80: "bit (0x80 :: u8) k \<longleftrightarrow> k = 7"
proof -
  have "(0x80 :: u8) = 2 ^ 7" by simp
  then show ?thesis by (simp only: bit_exp_iff) auto
qed

lemma bit_one_at: "bit (push_bit k 1 :: u8) j \<longleftrightarrow> j = k \<and> k < 8"
  by (auto simp only: push_bit_eq_mult mult_1 bit_exp_iff) auto

lemma cfbr_1:
  assumes "length iv = 16" "length junk = 17"
  shows "fst (cfbr_encrypt_block block junk enc iv 1 [if b then 0x80 else 0]) = [(if b then 0x80 else 0) XOR block iv ! 0]"
    "snd (cfbr_encrypt_block block junk enc iv 1 [if b then 0x80 else 0]) = snd (cfb1_step block enc iv b)"
    "bit (((if b then 0x80 else 0) XOR block iv ! 0) :: u8) 7 = fst (cfb1_step block enc iv b)"
proof -
  let ?c = "if b then 0x80 else 0 :: u8"
  show "bit (?c XOR block iv ! 0) 7 = fst (cfb1_step block enc iv b)"
    by (auto simp: cfb1_step_def bit_xor_iff bit_80 Let_def)
  show "fst (cfbr_encrypt_block block junk enc iv 1 [?c]) = [?c XOR block iv ! 0]"
    by (simp add: cfbr_encrypt_block_def Let_def)
  have blit: "blit (iv @ junk) 16 [x] = iv @ [x] @ drop 1 junk" for x
    using assms by (simp add: blit_def)
  have shift: "cfbr_shift (iv @ [x] @ z) 0 1 = cfbr_shift (iv @ [y]) 0 1" if "bit x 7 = bit y 7" for x y z
    using assms(1) that by (auto simp: cfbr_shift_def nth_append top_bit)
  have "snd (cfbr_encrypt_block block junk enc iv 1 [?c]) =
      cfbr_shift (iv @ [if enc then ?c XOR block iv ! 0 else ?c] @ drop 1 junk) 0 1"
    by (simp add: cfbr_encrypt_block_def Let_def blit)
  also have "\<dots> = snd (cfb1_step block enc iv b)"
    unfolding cfb1_step_def Let_def snd_conv by (rule shift) (auto simp: bit_xor_iff bit_80)
  finally show "snd (cfbr_encrypt_block block junk enc iv 1 [?c]) = snd (cfb1_step block enc iv b)" .
qed

text \<open>Writing one bit of the output.\<close>

definition put_bit :: "u8 list \<Rightarrow> nat \<Rightarrow> u8 \<Rightarrow> u8 list" where
  "put_bit out n d = out[n div 8 := (out ! (n div 8) AND NOT (push_bit (7 - n mod 8) 1)) OR drop_bit (n mod 8) (d AND 0x80)]"

lemma bit_at_put:
  assumes "i < 8 * length out"
  shows "bit_at (put_bit out n d) i = (if i = n then bit d 7 else bit_at out i)"
proof (cases "i div 8 = n div 8")
  case True
  have r: "i mod 8 < 8" "n mod 8 < 8" by simp_all
  then have e: "n mod 8 + (7 - i mod 8) = 7 \<longleftrightarrow> i mod 8 = n mod 8" "7 - i mod 8 = 7 - n mod 8 \<longleftrightarrow> i mod 8 = n mod 8"
    by linarith+
  have "bit ((w AND NOT (push_bit (7 - n mod 8) 1)) OR drop_bit (n mod 8) (d AND 0x80)) (7 - i mod 8) =
      (if i mod 8 = n mod 8 then bit d 7 else bit w (7 - i mod 8))" for w
    unfolding bit_or_iff bit_and_iff bit_not_iff bit_drop_bit_eq bit_80 bit_one_at e comp_def
    using r e by auto linarith
  moreover have "i mod 8 = n mod 8 \<longleftrightarrow> i = n" using True by (metis div_mult_mod_eq)
  ultimately show ?thesis using True assms by (simp add: bit_at_def put_bit_def)
qed (auto simp: bit_at_def put_bit_def)

lemma test_bit: "w AND push_bit k 1 \<noteq> 0 \<longleftrightarrow> bit w k" for w :: u8
  by (simp add: bit_iff_and_push_bit_not_eq_0)

lemma cfb128_1_loop_spec:
  assumes "length junk = 17" "length iv = 16" "n \<le> bits" "bits \<le> 8 * length inp" "bits \<le> 8 * length out"
  shows "case cfb128_1_loop block junk enc n bits inp out iv of (out', iv') \<Rightarrow>
    let (os, iv2) = steps (cfb1_step block enc) iv (map (bit_at inp) [n..<bits])
    in iv' = iv2 \<and> length iv' = 16 \<and> length out' = length out \<and>
      (\<forall>i < 8 * length out. bit_at out' i = (if n \<le> i \<and> i < bits then os ! (i - n) else bit_at out i))"
  using assms(2-5)
proof (induction "bits - n" arbitrary: n iv out)
  case 0
  then show ?case by (subst cfb128_1_loop.simps) (auto simp: Let_def)
next
  case (Suc m)
  have n: "n < bits" "n div 8 < length out" using Suc.hyps(2) Suc.prems by auto
  define b where "b = bit_at inp n"
  define iv1 where "iv1 = snd (cfb1_step block enc iv b)"
  define d where "d = (if b then 0x80 else 0) XOR block iv ! 0"
  define out1 where "out1 = put_bit out n d"
  have c: "(if inp ! (n div 8) AND push_bit (7 - n mod 8) 1 \<noteq> 0 then 0x80 else 0 :: u8) = (if b then 0x80 else 0)"
    by (simp only: b_def bit_at_def test_bit)
  have blk: "cfbr_encrypt_block block junk enc iv 1 [if b then 0x80 else 0] = ([d], iv1)"
    by (rule prod_eqI) (simp_all only: cfbr_1 [OF Suc.prems(1) assms(1)] fst_conv snd_conv d_def iv1_def)
  have run: "cfb128_1_loop block junk enc n bits inp out iv = cfb128_1_loop block junk enc (n + 1) bits inp out1 iv1"
    by (subst cfb128_1_loop.simps) (simp only: n(1) c blk out1_def put_bit_def Let_def if_True prod.case nth_Cons_0)
  have len: "length iv1 = 16" "length out1 = length out"
    by (simp_all add: iv1_def cfb1_step_def Let_def cfbr_shift_def out1_def put_bit_def)
  obtain out' iv' where l: "cfb128_1_loop block junk enc (n + 1) bits inp out1 iv1 = (out', iv')" by fastforce
  obtain os iv2 where st: "steps (cfb1_step block enc) iv1 (map (bit_at inp) [n + 1..<bits]) = (os, iv2)" by fastforce
  have m: "m = bits - (n + 1)" using Suc.hyps(2) by simp
  have IH: "iv' = iv2" "length iv' = 16" "length out' = length out"
    "\<And>i. i < 8 * length out \<Longrightarrow> bit_at out' i = (if n + 1 \<le> i \<and> i < bits then os ! (i - (n + 1)) else bit_at out1 i)"
    using Suc.hyps(1) [OF m len(1) _ Suc.prems(3), of out1] Suc.prems(4) n(1) len(2)
    unfolding l st Let_def prod.case by auto
  have bits: "map (bit_at inp) [n..<bits] = b # map (bit_at inp) [n + 1..<bits]"
    using n(1) by (simp add: upt_conv_Cons b_def)
  have "steps (cfb1_step block enc) iv (map (bit_at inp) [n..<bits]) = (fst (cfb1_step block enc iv b) # os, iv2)"
    unfolding bits using st by (simp add: iv1_def split_beta)
  moreover have "bit_at out' i = (if n \<le> i \<and> i < bits then (fst (cfb1_step block enc iv b) # os) ! (i - n) else bit_at out i)"
    if i: "i < 8 * length out" for i
  proof (cases "i = n")
    case True
    then show ?thesis using IH(4) [OF i] n(1) bit_at_put [OF i, of n d] cfbr_1(3) [OF Suc.prems(1) assms(1), of b block enc]
      by (simp add: out1_def d_def)
  next
    case False
    then have "i - n = Suc (i - (n + 1))" "n \<le> i \<longleftrightarrow> n + 1 \<le> i" if "n \<le> i" using that by simp_all
    then show ?thesis using IH(4) [OF i] bit_at_put [OF i, of n d] False by (auto simp: out1_def nth_Cons')
  qed
  ultimately show ?case unfolding run l using IH(1-3) by simp
qed

text \<open>The function on lists of bits, as a streaming cipher sees it: from bits to a packed buffer and back.\<close>

definition cfb1_bits :: "(u8 list \<Rightarrow> u8 list) \<Rightarrow> u8 list \<Rightarrow> bool \<Rightarrow> u8 list \<Rightarrow> bool list \<Rightarrow> bool list \<times> u8 list" where
  "cfb1_bits block junk enc iv bs =
    (let (out, iv) = CRYPTO_cfb128_1_encrypt block junk enc (length bs) (pack_bits bs) (replicate ((length bs + 7) div 8) 0) iv
     in (map (bit_at out) [0..<length bs], iv))"

lemma cfb1_steps:
  assumes "length iv = 16" "length junk = 17"
  shows "cfb1_bits block junk enc iv bs = steps (cfb1_step block enc) iv bs \<and>
    length (snd (steps (cfb1_step block enc) iv bs)) = 16"
proof -
  let ?out = "replicate ((length bs + 7) div 8) (0 :: u8)"
  have len: "length bs \<le> 8 * length ?out" by simp
  have packed: "length bs \<le> 8 * length (pack_bits bs)" using len by (simp add: pack_bits_def)
  have bits: "map (bit_at (pack_bits bs)) [0..<length bs] = bs"
    by (rule nth_equalityI) (simp_all add: bit_at_pack)
  obtain out' iv' where l: "cfb128_1_loop block junk enc 0 (length bs) (pack_bits bs) ?out iv = (out', iv')" by fastforce
  obtain os iv2 where st: "steps (cfb1_step block enc) iv bs = (os, iv2)" by fastforce
  have os: "length os = length bs" using length_steps [of "cfb1_step block enc" iv bs] st by simp
  note spec = cfb128_1_loop_spec [OF assms(2,1) le0 packed len, of block enc, unfolded l bits st Let_def prod.case]
  have "map (bit_at out') [0..<length bs] = os"
    by (rule nth_equalityI) (use spec os len in auto)
  then show ?thesis using spec by (auto simp: cfb1_bits_def CRYPTO_cfb128_1_encrypt_def l st)
qed

lemma cfb1_step_undo: "cfb1_step block False iv (fst (cfb1_step block True iv b)) = (b, snd (cfb1_step block True iv b))"
  by (auto simp: cfb1_step_def Let_def)

interpretation ctr: stream_pair "\<lambda>c. cipher block \<and> mode_ok c" ctr_rep "ctr_step block" "ctr_step block"
    "CRYPTO_ctr128_encrypt block" "CRYPTO_ctr128_encrypt block" "\<lambda>_. True" for block
proof unfold_locales
  show "ctr_step block st (fst (ctr_step block st b)) = (b, snd (ctr_step block st b))" for st b
    unfolding ctr_step_def by (rule xor_step_undo)
qed (use ctr128_steps in auto)

interpretation ctr32: stream_mode "\<lambda>c. cipher block \<and> ctr32_func func block \<and> mode_ok c" ctr_rep "ctr_step block"
    "CRYPTO_ctr128_encrypt_ctr32 func" for block func
  by unfold_locales (use ctr32_steps in auto)

interpretation ofb: stream_pair "\<lambda>c. cipher block \<and> mode_ok c" iv_rep "ofb_step block" "ofb_step block"
    "CRYPTO_ofb128_encrypt block" "CRYPTO_ofb128_encrypt block" "\<lambda>_. True" for block
proof unfold_locales
  show "ofb_step block st (fst (ofb_step block st b)) = (b, snd (ofb_step block st b))" for st b
    unfolding ofb_step_def by (rule xor_step_undo)
qed (use ofb128_steps in auto)

interpretation cfb: stream_pair "\<lambda>c. cipher block \<and> mode_ok c" iv_rep "cfb_step block True" "cfb_step block False"
    "CRYPTO_cfb128_encrypt block True" "CRYPTO_cfb128_encrypt block False"
    "\<lambda>st. length (fst st) = 16 \<and> snd st < 16 \<and> cipher block" for block
proof unfold_locales
  show "length (fst (snd (cfb_step block True st b))) = 16 \<and> snd (snd (cfb_step block True st b)) < 16 \<and> cipher block"
    if "length (fst st) = 16 \<and> snd st < 16 \<and> cipher block" for st b
  proof -
    obtain iv n where st: "st = (iv, n)" by fastforce
    then show ?thesis using that by (simp add: cfb_step_def bstep_def Let_def split_beta cipher_def)
  qed
  show "cfb_step block False st (fst (cfb_step block True st b)) = (b, snd (cfb_step block True st b))"
    if "length (fst st) = 16 \<and> snd st < 16 \<and> cipher block" for st b
    using cfb_step_undo [of st block True b] that by simp
qed (use cfb128_steps in \<open>auto simp: iv_rep_def mode_ok_def\<close>)

interpretation cfb8: stream_pair "\<lambda>iv. length iv = 16 \<and> length junk = 17" id "cfb8_step block True" "cfb8_step block False"
    "CRYPTO_cfb128_8_encrypt block junk True" "CRYPTO_cfb128_8_encrypt block junk False" "\<lambda>_. True" for block junk
  by unfold_locales (use cfb8_steps cfb8_step_undo in auto)

interpretation cfb1: stream_pair "\<lambda>iv. length iv = 16 \<and> length junk = 17" id "cfb1_step block True" "cfb1_step block False"
    "cfb1_bits block junk True" "cfb1_bits block junk False" "\<lambda>_. True" for block junk
  by unfold_locales (use cfb1_steps cfb1_step_undo in auto)

text \<open>The position in the block moves by the number of bytes.\<close>

lemma position_after:
  "snd st < 16 \<Longrightarrow> snd (snd (steps (bstep nxt clr inner) st xs)) = (snd st + length xs) mod 16"
proof (induction xs arbitrary: st)
  case (Cons b xs)
  have "snd (snd (bstep nxt clr inner st b)) = (snd st + 1) mod 16"
    by (cases st) (simp add: bstep_def Let_def split_beta)
  then show ?case using Cons.IH [of "snd (bstep nxt clr inner st b)"]
    by (simp add: Let_def split_beta mod_add_left_eq [of "Suc (snd st)" 16 "length xs", symmetric] del: mod_add_left_eq)
      (simp add: mod_add_left_eq)
qed simp

text \<open>What a call leaves of the context, for each mode that keeps a position.\<close>

lemma snd_ctr_rep [simp]: "snd (ctr_rep c) = num c"
  by (simp add: ctr_rep_def)

lemma ctr_context:
  assumes "cipher block" "mode_ok c"
  shows "mode_ok (snd (CRYPTO_ctr128_encrypt block c inp)) \<and> length (fst (CRYPTO_ctr128_encrypt block c inp)) = length inp \<and>
    num (snd (CRYPTO_ctr128_encrypt block c inp)) = (num c + length inp) mod 16"
proof -
  have "snd (ctr_rep (snd (CRYPTO_ctr128_encrypt block c inp))) = (num c + length inp) mod 16"
    using ctr.enc.crypt_rep [of block c inp] position_after [of "ctr_rep c"] assms
    by (simp add: ctr_step_def mode_ok_def)
  then show ?thesis using ctr.enc.crypt_ok [of block c inp] ctr.enc.length_crypt [of block c inp] assms
    by simp
qed

lemma ctr32_context:
  assumes "cipher block" "ctr32_func func block" "mode_ok c"
  shows "mode_ok (snd (CRYPTO_ctr128_encrypt_ctr32 func c inp)) \<and>
    length (fst (CRYPTO_ctr128_encrypt_ctr32 func c inp)) = length inp \<and>
    num (snd (CRYPTO_ctr128_encrypt_ctr32 func c inp)) = (num c + length inp) mod 16"
proof -
  have "snd (ctr_rep (snd (CRYPTO_ctr128_encrypt_ctr32 func c inp))) = (num c + length inp) mod 16"
    using ctr32.crypt_rep [of block func c inp] position_after [of "ctr_rep c"] assms
    by (simp add: ctr_step_def mode_ok_def)
  then show ?thesis using ctr32.crypt_ok [of block func c inp] ctr32.length_crypt [of block func c inp] assms
    by simp
qed

lemma ofb_context:
  assumes "cipher block" "mode_ok c"
  shows "mode_ok (snd (CRYPTO_ofb128_encrypt block c inp)) \<and> length (fst (CRYPTO_ofb128_encrypt block c inp)) = length inp \<and>
    num (snd (CRYPTO_ofb128_encrypt block c inp)) = (num c + length inp) mod 16"
proof -
  have "snd (iv_rep (snd (CRYPTO_ofb128_encrypt block c inp))) = (num c + length inp) mod 16"
    using ofb.enc.crypt_rep [of block c inp] position_after [of "iv_rep c"] assms
    by (simp add: ofb_step_def iv_rep_def mode_ok_def)
  then show ?thesis using ofb.enc.crypt_ok [of block c inp] ofb.enc.length_crypt [of block c inp] assms
    by (simp add: iv_rep_def)
qed

lemma cfb_context:
  assumes "cipher block" "mode_ok c"
  shows "mode_ok (snd (CRYPTO_cfb128_encrypt block enc c inp)) \<and> length (fst (CRYPTO_cfb128_encrypt block enc c inp)) = length inp \<and>
    num (snd (CRYPTO_cfb128_encrypt block enc c inp)) = (num c + length inp) mod 16"
proof -
  have "snd (snd (steps (cfb_step block enc) (iv_rep c) inp)) = (num c + length inp) mod 16"
    using position_after [of "iv_rep c"] assms by (simp add: cfb_step_def iv_rep_def mode_ok_def)
  then have "snd (iv_rep (snd (CRYPTO_cfb128_encrypt block enc c inp))) = (num c + length inp) mod 16"
    using cfb.enc.crypt_rep [of block c inp] cfb.dec.crypt_rep [of block c inp] assms by (cases enc) simp_all
  then show ?thesis
    using cfb.enc.crypt_ok [of block c inp] cfb.enc.length_crypt [of block c inp]
      cfb.dec.crypt_ok [of block c inp] cfb.dec.length_crypt [of block c inp] assms
    by (cases enc) (simp_all add: iv_rep_def)
qed

text \<open>The state of counter mode after \<open>n\<close> bytes.\<close>

definition ctr_state :: "(u8 list \<Rightarrow> u8 list) \<Rightarrow> u8 list \<Rightarrow> nat \<Rightarrow> (u8 list \<times> u8 list) \<times> nat" where
  "ctr_state block iv n =
    ((counter_at iv ((n + 15) div 16), if n mod 16 = 0 then [] else block (counter_at iv (n div 16))), n mod 16)"

lemma position:
  fixes n q r :: nat
  assumes "n = 16 * q + r" "r < 16"
  shows "(n + 15) div 16 = (if r = 0 then q else Suc q)" "(Suc n + 15) div 16 = Suc q"
    "Suc n mod 16 = (if r = 15 then 0 else Suc r)" "r \<noteq> 15 \<Longrightarrow> Suc n div 16 = q"
proof -
  show "(n + 15) div 16 = (if r = 0 then q else Suc q)" "(Suc n + 15) div 16 = Suc q"
    "r \<noteq> 15 \<Longrightarrow> Suc n div 16 = q"
    by (rule div_nat_eqI; use assms in simp)+
  have "Suc n = 16 * q + Suc r" using assms(1) by simp
  then have "Suc n mod 16 = Suc r mod 16" by (simp only: mod_mult_self4)
  then show "Suc n mod 16 = (if r = 15 then 0 else Suc r)" using assms(2) by auto
qed

lemmas position_of = position [of n "n div 16" "n mod 16" for n, simplified]

lemma ctr_step_state:
  assumes "length iv = 16"
  shows "ctr_step block (ctr_state block iv n) b =
    (b XOR block (counter_at iv (n div 16)) ! (n mod 16), ctr_state block iv (Suc n))"
proof -
  consider "n mod 16 = 0" | "n mod 16 = 15" | "n mod 16 \<noteq> 0" "n mod 16 \<noteq> 15" by blast
  then show ?thesis
  proof cases
    case 1
    have "ctr128_inc (counter_at iv (n div 16)) = counter_at iv (Suc (n div 16))"
      using counter_at_add [of iv "n div 16" 1] by (simp add: ctr128_inc_at)
    then show ?thesis
      unfolding ctr_state_def using 1 position_of [of n]
      by (simp del: add_Suc add_Suc_right add: ctr_step_def bstep_def ctr_next_def xor_inner_def)
  next
    case 2
    then show ?thesis
      unfolding ctr_state_def using 2 position_of [of n]
      by (simp del: add_Suc add_Suc_right add: ctr_step_def bstep_def ctr_clear_def xor_inner_def)
  next
    case 3
    have "n mod 16 < 16" by simp
    then have "n mod 16 + 1 < 16" using 3 by linarith
    then have "(n mod 16 + 1) mod 16 = Suc (n mod 16)" by simp
    then show ?thesis
      unfolding ctr_state_def using 3 position_of [of n]
      by (simp del: add_Suc add_Suc_right add: ctr_step_def bstep_def xor_inner_def Let_def)
  qed
qed

lemma ctr_steps_keystream:
  assumes "length iv = 16"
  shows "snd (steps (ctr_step block) ((iv, []), 0) xs) = ctr_state block iv (length xs) \<and>
    (\<forall>i < length xs. fst (steps (ctr_step block) ((iv, []), 0) xs) ! i =
       xs ! i XOR block (counter_at iv (i div 16)) ! (i mod 16))"
proof (induction xs rule: rev_induct)
  case Nil
  then show ?case by (simp add: ctr_state_def counter_at_0 [OF assms])
next
  case (snoc b xs)
  obtain out st where s: "steps (ctr_step block) ((iv, []), 0) xs = (out, st)"
    by (cases "steps (ctr_step block) ((iv, []), 0) xs") auto
  have len: "length out = length xs" using length_steps [of "ctr_step block" "((iv, []), 0)" xs] s by simp
  have st: "st = ctr_state block iv (length xs)"
    and out: "\<And>i. i < length xs \<Longrightarrow> out ! i = xs ! i XOR block (counter_at iv (i div 16)) ! (i mod 16)"
    using snoc s by simp_all
  have "steps (ctr_step block) ((iv, []), 0) (xs @ [b]) =
      (out @ [b XOR block (counter_at iv (length xs div 16)) ! (length xs mod 16)], ctr_state block iv (Suc (length xs)))"
    by (simp add: steps_append s st ctr_step_state [OF assms])
  then show ?case using out len by (auto simp: nth_append less_Suc_eq)
qed

section \<open>Properties\<close>

text \<open>C20: \<open>CRYPTO_ctr128_encrypt_ctr32\<close>, which hands whole runs of blocks to a function that counts only 32
  bits and carries into the other 96 itself, is \<open>CRYPTO_ctr128_encrypt\<close>: for any function with the
  documented contract, any context and input, the output, the counter block and the position are the
  same, and so is the rest of the keystream block if one is begun.\<close>

theorem ctr32_equals_ctr128:
  assumes "cipher block" "ctr32_func func block" "mode_ok c"
  shows "fst (CRYPTO_ctr128_encrypt_ctr32 func c inp) = fst (CRYPTO_ctr128_encrypt block c inp) \<and>
    ivec (snd (CRYPTO_ctr128_encrypt_ctr32 func c inp)) = ivec (snd (CRYPTO_ctr128_encrypt block c inp)) \<and>
    num (snd (CRYPTO_ctr128_encrypt_ctr32 func c inp)) = num (snd (CRYPTO_ctr128_encrypt block c inp)) \<and>
    (num (snd (CRYPTO_ctr128_encrypt block c inp)) \<noteq> 0 \<longrightarrow>
       ecount (snd (CRYPTO_ctr128_encrypt_ctr32 func c inp)) = ecount (snd (CRYPTO_ctr128_encrypt block c inp)))"
proof -
  have out: "fst (CRYPTO_ctr128_encrypt_ctr32 func c inp) = fst (CRYPTO_ctr128_encrypt block c inp)"
    using ctr32.crypt_out [of block func c inp] ctr.enc.crypt_out [of block c inp] assms by simp
  have "ctr_rep (snd (CRYPTO_ctr128_encrypt_ctr32 func c inp)) = ctr_rep (snd (CRYPTO_ctr128_encrypt block c inp))"
    using ctr32.crypt_rep [of block func c inp] ctr.enc.crypt_rep [of block c inp] assms by simp
  then show ?thesis using out by (simp add: ctr_rep_def split: if_splits)
qed

text \<open>A block cipher to compute with, and a context whose low counter is about to overflow.\<close>

definition sample_func :: "u8 list \<Rightarrow> nat \<Rightarrow> u8 list \<Rightarrow> u8 list" where
  "sample_func inp blocks iv = concat (map (\<lambda>i. map2 (XOR) (take 16 (drop (16 * i) inp))
     (rev (take 12 iv @ be_bytes 4 (be_val (drop 12 iv) + i)))) [0..<blocks])"

definition sample_ctx :: mode_ctx where
  "sample_ctx = \<lparr>ivec = replicate 12 0 @ replicate 4 0xff, ecount = replicate 16 0, num = 0\<rparr>"

lemma sample_ok: "cipher rev" "ctr32_func sample_func rev" "mode_ok sample_ctx" "num sample_ctx = 0"
  by (simp_all add: cipher_def ctr32_func_def sample_func_def mode_ok_def sample_ctx_def)

theorem ctr32_equals_ctr128_witness:
  "fst (CRYPTO_ctr128_encrypt_ctr32 sample_func sample_ctx (replicate 40 7)) =
     fst (CRYPTO_ctr128_encrypt rev sample_ctx (replicate 40 7))"
  using ctr32_equals_ctr128 [OF sample_ok(1-3), of "replicate 40 7"] by blast

text \<open>Counter mode is what it is meant to be. From a fresh context byte \<open>i\<close> of the output is byte \<open>i\<close> of the
  input combined with byte \<open>i mod 16\<close> of the encrypted counter block, which is the 128-bit big-endian
  number in \<open>ivec\<close> plus \<open>i div 16\<close>, modulo 2 to the 128; the output is as long as the input and \<open>ivec\<close>
  has advanced by the number of blocks begun.\<close>

theorem ctr128_keystream:
  assumes "cipher block" "mode_ok c" "num c = 0"
  shows "length (fst (CRYPTO_ctr128_encrypt block c inp)) = length inp \<and>
    (\<forall>i < length inp. fst (CRYPTO_ctr128_encrypt block c inp) ! i =
       inp ! i XOR block (be_bytes 16 (be_val (ivec c) + i div 16)) ! (i mod 16)) \<and>
    ivec (snd (CRYPTO_ctr128_encrypt block c inp)) = be_bytes 16 (be_val (ivec c) + (length inp + 15) div 16) \<and>
    num (snd (CRYPTO_ctr128_encrypt block c inp)) = length inp mod 16"
proof -
  have iv: "length (ivec c) = 16" using assms(2) by (simp add: mode_ok_def)
  have rep: "ctr_rep c = ((ivec c, []), 0)" using assms(3) by (simp add: ctr_rep_def)
  have out: "fst (CRYPTO_ctr128_encrypt block c inp) = fst (steps (ctr_step block) ((ivec c, []), 0) inp)"
    "ctr_rep (snd (CRYPTO_ctr128_encrypt block c inp)) = snd (steps (ctr_step block) ((ivec c, []), 0) inp)"
    using ctr.enc.crypt_out [of block c inp] ctr.enc.crypt_rep [of block c inp] assms rep by simp_all
  show ?thesis
    using ctr_steps_keystream [OF iv, of block inp] out by (simp add: ctr_rep_def ctr_state_def counter_at_def)
qed

theorem ctr128_keystream_witness:
  "num (snd (CRYPTO_ctr128_encrypt rev sample_ctx (replicate 40 7))) = 8"
  using ctr128_keystream [OF sample_ok(1,3,4), of "replicate 40 7"] by simp

text \<open>C21: decryption undoes encryption however both sides cut the data. In counter mode, output feedback and
  cipher feedback with segments of 128, 8 and 1 bits: encrypt any data in pieces of any sizes, decrypt the
  result in pieces of any other sizes from the same context, and the data is back. With segments of one
  bit the data are bits, and a piece of any number of bits goes through the packed buffers of
  \<open>CRYPTO_cfb128_1_encrypt\<close>.\<close>

theorem stream_modes_roundtrip:
  assumes "cipher block" "mode_ok c" "length junk = 17"
  shows "(concat yss = fst (pieces (CRYPTO_ctr128_encrypt block) c xss) \<longrightarrow>
       fst (pieces (CRYPTO_ctr128_encrypt block) c yss) = concat xss) \<and>
    (concat yss = fst (pieces (CRYPTO_ofb128_encrypt block) c xss) \<longrightarrow>
       fst (pieces (CRYPTO_ofb128_encrypt block) c yss) = concat xss) \<and>
    (concat yss = fst (pieces (CRYPTO_cfb128_encrypt block True) c xss) \<longrightarrow>
       fst (pieces (CRYPTO_cfb128_encrypt block False) c yss) = concat xss) \<and>
    (concat yss = fst (pieces (CRYPTO_cfb128_8_encrypt block junk True) (ivec c) xss) \<longrightarrow>
       fst (pieces (CRYPTO_cfb128_8_encrypt block junk False) (ivec c) yss) = concat xss) \<and>
    (concat wss = fst (pieces (cfb1_bits block junk True) (ivec c) vss) \<longrightarrow>
       fst (pieces (cfb1_bits block junk False) (ivec c) wss) = concat vss)"
proof -
  have iv: "length (ivec c) = 16 \<and> length junk = 17" using assms(2,3) by (simp add: mode_ok_def)
  have ok: "cipher block \<and> mode_ok c" using assms by simp
  show ?thesis
    using ctr.round_trip [OF ok ok refl, of yss xss] ofb.round_trip [OF ok ok refl, of yss xss]
      cfb.round_trip [OF ok ok refl, of yss xss] cfb8.round_trip [OF iv iv refl, of yss block xss]
      cfb1.round_trip [OF iv iv refl, of wss block vss] by blast
qed

theorem stream_modes_roundtrip_witness:
  "fst (pieces (CRYPTO_cfb128_encrypt rev False) sample_ctx
     [fst (pieces (CRYPTO_cfb128_encrypt rev True) sample_ctx [[1, 2, 3], [], replicate 30 4])]) =
   [1, 2, 3] @ replicate 30 4"
  using stream_modes_roundtrip [OF sample_ok(1,3), of "replicate 17 0"
      "[fst (pieces (CRYPTO_cfb128_encrypt rev True) sample_ctx [[1, 2, 3], [], replicate 30 4])]"
      "[[1, 2, 3], [], replicate 30 4]"] by (simp del: pieces.simps)

text \<open>C23: every streaming mode leaves a context with which the next call can begin, and moves the position by
  exactly the length of the input. After a call on a context in which \<^verbatim>\<open>ivec\<close> and the keystream block are
  16 bytes and the position is below 16, they still are (the assertion \<^verbatim>\<open>*num < 16\<close> of the next call holds),
  the output is as long as the input and \<^verbatim>\<open>*num\<close> has become \<open>(*num + len) mod 16\<close>: for counter mode with
  either function, output feedback and cipher feedback with 128 bits. With 8 bits \<^verbatim>\<open>ivec\<close> stays 16 bytes and
  the output is as long as the input; with 1 bit \<^verbatim>\<open>ivec\<close> stays 16 bytes and of the output buffer only the
  first \<open>bits\<close> bits are written.\<close>

theorem mode_context_kept:
  assumes "cipher block" "ctr32_func func block" "mode_ok c" "length junk = 17"
    and "bits \<le> 8 * length inp" "bits \<le> 8 * length out"
  shows "(\<forall>(o', c') \<in> {CRYPTO_ctr128_encrypt block c inp, CRYPTO_ctr128_encrypt_ctr32 func c inp,
       CRYPTO_ofb128_encrypt block c inp, CRYPTO_cfb128_encrypt block enc c inp}.
       mode_ok c' \<and> length o' = length inp \<and> num c' = (num c + length inp) mod 16) \<and>
    (case CRYPTO_cfb128_8_encrypt block junk enc (ivec c) inp of (o', iv') \<Rightarrow>
       length iv' = 16 \<and> length o' = length inp) \<and>
    (case CRYPTO_cfb128_1_encrypt block junk enc bits inp out (ivec c) of (o', iv') \<Rightarrow>
       length iv' = 16 \<and> length o' = length out \<and>
       (\<forall>i. bits \<le> i \<and> i < 8 * length out \<longrightarrow> bit_at o' i = bit_at out i))"
proof (intro conjI)
  have iv: "length (ivec c) = 16" using assms(3) by (simp add: mode_ok_def)
  show "\<forall>(o', c') \<in> {CRYPTO_ctr128_encrypt block c inp, CRYPTO_ctr128_encrypt_ctr32 func c inp,
       CRYPTO_ofb128_encrypt block c inp, CRYPTO_cfb128_encrypt block enc c inp}.
       mode_ok c' \<and> length o' = length inp \<and> num c' = (num c + length inp) mod 16"
    using ctr_context [OF assms(1,3)] ctr32_context [OF assms(1-3)] ofb_context [OF assms(1,3)]
      cfb_context [OF assms(1,3)] by (simp add: split_beta)
  show "case CRYPTO_cfb128_8_encrypt block junk enc (ivec c) inp of (o', iv') \<Rightarrow>
       length iv' = 16 \<and> length o' = length inp"
    using cfb8_steps [OF assms(4) iv, of block enc inp] by (simp add: split_beta)
  show "case CRYPTO_cfb128_1_encrypt block junk enc bits inp out (ivec c) of (o', iv') \<Rightarrow>
       length iv' = 16 \<and> length o' = length out \<and>
       (\<forall>i. bits \<le> i \<and> i < 8 * length out \<longrightarrow> bit_at o' i = bit_at out i)"
    using cfb128_1_loop_spec [OF assms(4) iv le0 assms(5,6), of block enc]
    by (auto simp: CRYPTO_cfb128_1_encrypt_def Let_def split: prod.splits)
qed

theorem mode_context_kept_witness:
  "num (snd (CRYPTO_ofb128_encrypt rev (sample_ctx\<lparr>num := 5\<rparr>) (replicate 40 7))) = 13 \<and>
   num (snd (CRYPTO_cfb128_encrypt rev True (sample_ctx\<lparr>num := 5\<rparr>) (replicate 40 7))) = 13"
proof -
  have "mode_ok (sample_ctx\<lparr>num := 5\<rparr>)" by (simp add: mode_ok_def sample_ctx_def)
  from mode_context_kept [OF sample_ok(1,2) this, of "replicate 17 0" 3 "replicate 40 7" "[0]" True]
  show ?thesis by (simp add: split_beta sample_ctx_def)
qed

end
