(* ===== verification/Cbc.thy ===== *)
theory Cbc
  imports Block_Words
begin

unbundle bit_operations_syntax

text \<open>
  Cipher block chaining (\<^verbatim>\<open>crypto/fipsmodule/modes/cbc.c\<close>) on a memory of bytes: input and output are
  addresses, so that they may overlap, and the pointer \<^verbatim>\<open>iv\<close> points into \<^verbatim>\<open>ivec\<close> or at a block of the
  input or output. The block cipher and its inverse, with the key, are parameters.
\<close>

section \<open>Memory\<close>

type_synonym memory = "nat \<Rightarrow> u8"

definition load_at :: "memory \<Rightarrow> nat \<Rightarrow> nat \<Rightarrow> u8 list" where
  "load_at m p n = map m [p..<p + n]"

definition store_at :: "memory \<Rightarrow> nat \<Rightarrow> u8 list \<Rightarrow> memory" where
  "store_at m p bs = (\<lambda>a. if p \<le> a \<and> a < p + length bs then bs ! (a - p) else m a)"

section \<open>The code\<close>

text \<open>Where \<^verbatim>\<open>iv\<close> points, and the bytes it points at.\<close>

datatype iv_ptr = Ivec | At nat

fun iv_bytes :: "memory \<Rightarrow> u8 list \<Rightarrow> iv_ptr \<Rightarrow> nat \<Rightarrow> nat \<Rightarrow> u8 list" where
  "iv_bytes m ivec Ivec n k = take k (drop n ivec)"
| "iv_bytes m ivec (At p) n k = load_at m (p + n) k"

text \<open>The loop over the words of a block: the words at \<open>src\<close> and at \<^verbatim>\<open>iv\<close> are combined and stored at \<open>out\<close>.\<close>

function cbc_words :: "memory \<Rightarrow> u8 list \<Rightarrow> iv_ptr \<Rightarrow> nat \<Rightarrow> nat \<Rightarrow> nat \<Rightarrow> memory" where
  "cbc_words m ivec iv src out n =
    (if n < 16 then
       cbc_words
         (store_at m (out + n)
           (CRYPTO_store_word_le (CRYPTO_load_word_le (load_at m (src + n) 8) XOR
              CRYPTO_load_word_le (iv_bytes m ivec iv n 8))))
         ivec iv src out (n + 8)
     else m)"
  by pat_completeness auto
termination
  by (relation "measure (\<lambda>(_, _, _, _, _, n). 16 - n)") auto

declare cbc_words.simps [simp del]

subsection \<open>Encryption\<close>

fun encrypt_blocks ::
    "(u8 list \<Rightarrow> u8 list) \<Rightarrow> memory \<Rightarrow> u8 list \<Rightarrow> iv_ptr \<Rightarrow> nat \<Rightarrow> nat \<Rightarrow> nat \<Rightarrow> memory \<times> iv_ptr \<times> nat \<times> nat \<times> nat" where
  "encrypt_blocks block m ivec iv inp out len =
    (if 16 \<le> len then
       let m = cbc_words m ivec iv inp out 0;
           m = store_at m out (block (load_at m out 16))
       in encrypt_blocks block m ivec (At out) (inp + 16) (out + 16) (len - 16)
     else (m, iv, inp, out, len))"

declare encrypt_blocks.simps [simp del]

text \<open>The last, partial block: byte by byte, filled up from \<^verbatim>\<open>iv\<close>.\<close>

function encrypt_rest ::
    "(u8 list \<Rightarrow> u8 list) \<Rightarrow> memory \<Rightarrow> u8 list \<Rightarrow> iv_ptr \<Rightarrow> nat \<Rightarrow> nat \<Rightarrow> nat \<Rightarrow> memory \<times> iv_ptr" where
  "encrypt_rest block m ivec iv inp out len =
    (if 0 < len then
       let m = fold (\<lambda>n m. m(out + n := m (inp + n) XOR iv_bytes m ivec iv n 1 ! 0)) [0..<min 16 len] m;
           m = fold (\<lambda>n m. m(out + n := iv_bytes m ivec iv n 1 ! 0)) [min 16 len..<16] m;
           m = store_at m out (block (load_at m out 16))
       in if len \<le> 16 then (m, At out)
          else encrypt_rest block m ivec (At out) (inp + 16) (out + 16) (len - 16)
     else (m, iv))"
  by pat_completeness auto
termination
  by (relation "measure (\<lambda>(_, _, _, _, _, _, len). len)") auto

declare encrypt_rest.simps [simp del]

definition CRYPTO_cbc128_encrypt ::
    "(u8 list \<Rightarrow> u8 list) \<Rightarrow> memory \<Rightarrow> nat \<Rightarrow> nat \<Rightarrow> nat \<Rightarrow> u8 list \<Rightarrow> memory \<times> u8 list" where
  "CRYPTO_cbc128_encrypt block m inp out len ivec =
    (if len = 0 then (m, ivec)
     else
       let (m, iv, inp, out, len) = encrypt_blocks block m ivec Ivec inp out len;
           (m, iv) = encrypt_rest block m ivec iv inp out len
       in (m, iv_bytes m ivec iv 0 16))"

subsection \<open>Decryption\<close>

text \<open>With the output at least two blocks behind the input, or disjoint.\<close>

fun decrypt_far ::
    "(u8 list \<Rightarrow> u8 list) \<Rightarrow> memory \<Rightarrow> u8 list \<Rightarrow> iv_ptr \<Rightarrow> nat \<Rightarrow> nat \<Rightarrow> nat \<Rightarrow> memory \<times> iv_ptr \<times> nat \<times> nat \<times> nat" where
  "decrypt_far block m ivec iv inp out len =
    (if 16 \<le> len then
       let m = store_at m out (block (load_at m inp 16));
           m = cbc_words m ivec iv out out 0
       in decrypt_far block m ivec (At inp) (inp + 16) (out + 16) (len - 16)
     else (m, iv, inp, out, len))"

declare decrypt_far.simps [simp del]

text \<open>Otherwise, through a temporary block.\<close>

function decrypt_words :: "memory \<Rightarrow> u8 list \<Rightarrow> u8 list \<Rightarrow> nat \<Rightarrow> nat \<Rightarrow> nat \<Rightarrow> memory \<times> u8 list" where
  "decrypt_words m ivec tmp inp out n =
    (if n < 16 then
       let c = CRYPTO_load_word_le (load_at m (inp + n) 8);
           m = store_at m (out + n)
             (CRYPTO_store_word_le (CRYPTO_load_word_le (drop n tmp) XOR CRYPTO_load_word_le (drop n ivec)));
           ivec = blit ivec n (CRYPTO_store_word_le c)
       in decrypt_words m ivec tmp inp out (n + 8)
     else (m, ivec))"
  by pat_completeness auto
termination
  by (relation "measure (\<lambda>(_, _, _, _, _, n). 16 - n)") auto

declare decrypt_words.simps [simp del]

fun decrypt_near ::
    "(u8 list \<Rightarrow> u8 list) \<Rightarrow> memory \<Rightarrow> u8 list \<Rightarrow> nat \<Rightarrow> nat \<Rightarrow> nat \<Rightarrow> memory \<times> u8 list \<times> nat \<times> nat \<times> nat" where
  "decrypt_near block m ivec inp out len =
    (if 16 \<le> len then
       let tmp = block (load_at m inp 16);
           (m, ivec) = decrypt_words m ivec tmp inp out 0
       in decrypt_near block m ivec (inp + 16) (out + 16) (len - 16)
     else (m, ivec, inp, out, len))"

declare decrypt_near.simps [simp del]

function decrypt_rest ::
    "(u8 list \<Rightarrow> u8 list) \<Rightarrow> memory \<Rightarrow> u8 list \<Rightarrow> nat \<Rightarrow> nat \<Rightarrow> nat \<Rightarrow> memory \<times> u8 list" where
  "decrypt_rest block m ivec inp out len =
    (if 0 < len then
       let tmp = block (load_at m inp 16);
           (m, ivec) = fold (\<lambda>n (m, ivec).
               let c = m (inp + n) in (m(out + n := tmp ! n XOR ivec ! n), ivec[n := c])) [0..<min 16 len] (m, ivec)
       in if len \<le> 16 then
            (m, fold (\<lambda>n ivec. ivec[n := m (inp + n)]) [min 16 len..<16] ivec)
          else decrypt_rest block m ivec (inp + 16) (out + 16) (len - 16)
     else (m, ivec))"
  by pat_completeness auto
termination
  by (relation "measure (\<lambda>(_, _, _, _, _, len). len)") auto

declare decrypt_rest.simps [simp del]

definition CRYPTO_cbc128_decrypt ::
    "(u8 list \<Rightarrow> u8 list) \<Rightarrow> memory \<Rightarrow> nat \<Rightarrow> nat \<Rightarrow> nat \<Rightarrow> u8 list \<Rightarrow> memory \<times> u8 list" where
  "CRYPTO_cbc128_decrypt block m inp out len ivec =
    (if len = 0 then (m, ivec)
     else if 32 \<le> inp \<and> out \<le> inp - 32 \<or> inp < out then
       let (m, iv, inp, out, len) = decrypt_far block m ivec Ivec inp out len
       in decrypt_rest block m (iv_bytes m ivec iv 0 16) inp out len
     else
       let (m, ivec, inp, out, len) = decrypt_near block m ivec inp out len
       in decrypt_rest block m ivec inp out len)"

section \<open>Reading what was written\<close>

lemma length_load_at [simp]: "length (load_at m p n) = n"
  by (simp add: load_at_def)

lemma nth_load_at: "i < n \<Longrightarrow> load_at m p n ! i = m (p + i)"
  by (simp add: load_at_def)

lemma load_at_add: "load_at m p (i + j) = load_at m p i @ load_at m (p + i) j"
  by (rule nth_equalityI) (auto simp: nth_load_at nth_append)

lemma take_load_at: "k \<le> n \<Longrightarrow> take k (load_at m p n) = load_at m p k"
  by (rule nth_equalityI) (simp_all add: nth_load_at)

lemma drop_load_at: "drop k (load_at m p n) = load_at m (p + k) (n - k)"
  by (rule nth_equalityI) (simp_all add: nth_load_at add.assoc)

lemma load_store_same: "load_at (store_at m p bs) p (length bs) = bs"
  by (rule nth_equalityI) (simp_all add: nth_load_at store_at_def)

text \<open>Two ranges that do not meet.\<close>

definition apart :: "nat \<Rightarrow> nat \<Rightarrow> nat \<Rightarrow> nat \<Rightarrow> bool" where
  "apart p k q n \<longleftrightarrow> p + k \<le> q \<or> q + n \<le> p"

lemma load_store_apart: "apart p (length bs) q n \<Longrightarrow> load_at (store_at m p bs) q n = load_at m q n"
  by (rule nth_equalityI) (auto simp: nth_load_at store_at_def apart_def)

lemma store_store_adjacent: "store_at (store_at m p xs) (p + length xs) ys = store_at m p (xs @ ys)"
  by (rule ext) (auto simp: store_at_def nth_append)

lemma store_store_same: "length ys = length xs \<Longrightarrow> store_at (store_at m p xs) p ys = store_at m p ys"
  by (rule ext) (auto simp: store_at_def)

definition iv_safe :: "iv_ptr \<Rightarrow> nat \<Rightarrow> bool" where
  "iv_safe iv out \<longleftrightarrow> (case iv of Ivec \<Rightarrow> True | At p \<Rightarrow> apart out 16 p 16)"

lemma iv_bytes_store:
  assumes "iv_safe iv out" "n + k \<le> 16" "i + length bs \<le> 16"
  shows "iv_bytes (store_at m (out + i) bs) ivec iv n k = iv_bytes m ivec iv n k"
proof (cases iv)
  case (At p)
  then have "apart (out + i) (length bs) (p + n) k" using assms by (auto simp: iv_safe_def apart_def)
  then show ?thesis by (simp add: At load_store_apart)
qed simp

lemma iv_bytes_split:
  assumes "length ivec = 16"
  shows "length (iv_bytes m ivec iv 0 16) = 16"
    "take 8 (iv_bytes m ivec iv 0 16) = iv_bytes m ivec iv 0 8" "drop 8 (iv_bytes m ivec iv 0 16) = iv_bytes m ivec iv 8 8"
  using assms by (cases iv; simp add: take_load_at drop_load_at)+

lemma cbc_words_eq:
  assumes "length ivec = 16" "iv_safe iv out" "out \<le> src \<or> src + 16 \<le> out"
  shows "cbc_words m ivec iv src out 0 =
    store_at m out (map2 (XOR) (load_at m src 16) (iv_bytes m ivec iv 0 16))"
proof -
  define x0 where "x0 = map2 (XOR) (load_at m src 8) (iv_bytes m ivec iv 0 8)"
  define m1 where "m1 = store_at m out x0"
  note iv = iv_bytes_split [OF assms(1), of m iv]
  have len: "length (iv_bytes m ivec iv 0 8) = 8" "length (iv_bytes m ivec iv 8 8) = 8" "length x0 = 8"
    using assms(1) by (cases iv; simp add: x0_def)+
  have "apart out (length x0) (src + 8) 8" using assms(3) len by (auto simp: apart_def)
  then have src1: "load_at m1 (src + 8) 8 = load_at m (src + 8) 8" by (simp add: m1_def load_store_apart)
  have iv1: "iv_bytes m1 ivec iv 8 8 = iv_bytes m ivec iv 8 8"
    using iv_bytes_store [OF assms(2), of 8 8 0 x0 m ivec] len by (simp add: m1_def)
  define x1 where "x1 = map2 (XOR) (load_at m (src + 8) 8) (iv_bytes m ivec iv 8 8)"
  have s0: "CRYPTO_store_word_le (CRYPTO_load_word_le (load_at m src 8) XOR CRYPTO_load_word_le (iv_bytes m ivec iv 0 8)) = x0"
    using store_xor [of "load_at m src 8" "iv_bytes m ivec iv 0 8"] len by (simp add: x0_def)
  have s1: "CRYPTO_store_word_le (CRYPTO_load_word_le (load_at m1 (src + 8) 8) XOR CRYPTO_load_word_le (iv_bytes m1 ivec iv 8 8)) = x1"
    using store_xor [of "load_at m (src + 8) 8" "iv_bytes m ivec iv 8 8"] len by (simp add: x1_def src1 iv1)
  have "cbc_words m ivec iv src out 0 = cbc_words m1 ivec iv src out 8"
    by (subst cbc_words.simps) (simp add: s0 m1_def)
  also have "\<dots> = cbc_words (store_at m1 (out + 8) x1) ivec iv src out 16"
    by (subst cbc_words.simps) (simp add: s1)
  also have "\<dots> = store_at m1 (out + 8) x1" by (simp add: cbc_words.simps)
  also have "\<dots> = store_at m out (x0 @ x1)"
    using store_store_adjacent [of m out x0 x1] len by (simp add: m1_def)
  also have "x0 @ x1 = map2 (XOR) (load_at m src 16) (iv_bytes m ivec iv 0 16)"
    using map2_take_drop [of "load_at m src 16" "iv_bytes m ivec iv 0 16" "(XOR)"] iv len
    by (simp add: x0_def x1_def take_load_at drop_load_at)
  finally show ?thesis .
qed

section \<open>Chaining on lists of bytes\<close>

text \<open>
  The mode as it is defined on bytes: every block is combined with the ciphertext block before it and
  enciphered, and the last one is filled up with zeros.
\<close>

definition pad_block :: "u8 list \<Rightarrow> u8 list" where
  "pad_block xs = take 16 (xs @ replicate 16 0)"

function cbc_enc :: "(u8 list \<Rightarrow> u8 list) \<Rightarrow> u8 list \<Rightarrow> u8 list \<Rightarrow> u8 list" where
  "cbc_enc block iv xs =
    (if xs = [] then []
     else let c = block (map2 (XOR) (pad_block xs) iv) in c @ cbc_enc block c (drop 16 xs))"
  by pat_completeness auto
termination
  by (relation "measure (\<lambda>(_, _, xs). length xs)") auto

declare cbc_enc.simps [simp del]

function cbc_dec :: "(u8 list \<Rightarrow> u8 list) \<Rightarrow> u8 list \<Rightarrow> u8 list \<Rightarrow> u8 list" where
  "cbc_dec block iv ys =
    (if ys = [] then []
     else map2 (XOR) (block (take 16 ys)) iv @ cbc_dec block (take 16 ys) (drop 16 ys))"
  by pat_completeness auto
termination
  by (relation "measure (\<lambda>(_, _, ys). length ys)") auto

declare cbc_dec.simps [simp del]

text \<open>The block that the next one is chained to.\<close>

definition last_block :: "u8 list \<Rightarrow> u8 list \<Rightarrow> u8 list" where
  "last_block iv ys = (if ys = [] then iv else drop (length ys - 16) ys)"

text \<open>The length of the ciphertext of \<open>n\<close> bytes.\<close>

definition padded :: "nat \<Rightarrow> nat" where
  "padded n = (n + 15) div 16 * 16"

lemma padded_simps: "padded 0 = 0" "0 < n \<Longrightarrow> padded n = 16 + padded (n - 16)"
proof -
  show "padded 0 = 0" by (simp add: padded_def)
  assume "0 < n"
  then show "padded n = 16 + padded (n - 16)"
  proof (cases "n < 16")
    case True
    then have "(n + 15) div 16 = 1" using \<open>0 < n\<close> by (intro div_nat_eqI) simp_all
    then show ?thesis using True by (simp add: padded_def)
  next
    case False
    then have "n + 15 = (n - 16 + 15) + 16" by simp
    then have "(n + 15) div 16 = (n - 16 + 15) div 16 + 1" by (simp only: div_add_self2)
    then show ?thesis by (simp add: padded_def)
  qed
qed

lemma padded_of_blocks: "16 dvd n \<Longrightarrow> padded n = n"
proof -
  assume "16 dvd n"
  then obtain k where "n = 16 * k" ..
  moreover have "(16 * k + 15) div 16 = k" by (rule div_nat_eqI) simp_all
  ultimately show "padded n = n" by (simp add: padded_def)
qed

lemma padded_ge: "n \<le> padded n"
  using div_mult_mod_eq [of "n + 15" 16] mod_less_divisor [of 16 "n + 15"] by (simp add: padded_def)

lemma length_pad_block [simp]: "length (pad_block xs) = 16"
  by (simp add: pad_block_def)

lemma pad_block_full: "16 \<le> length xs \<Longrightarrow> pad_block xs = take 16 xs"
  by (simp add: pad_block_def)

lemma cipher_length: "cipher block \<Longrightarrow> length x = 16 \<Longrightarrow> length (block x) = 16"
  by (simp add: cipher_def)

lemma length_cbc_enc: "cipher block \<Longrightarrow> length iv = 16 \<Longrightarrow> length (cbc_enc block iv xs) = padded (length xs)"
proof (induction block iv xs rule: cbc_enc.induct)
  case (1 block iv xs)
  then show ?case
    by (subst cbc_enc.simps) (auto simp: padded_simps Let_def cipher_length)
qed

lemma length_cbc_dec:
  "cipher block \<Longrightarrow> length iv = 16 \<Longrightarrow> 16 dvd length ys \<Longrightarrow> length (cbc_dec block iv ys) = length ys"
proof (induction block iv ys rule: cbc_dec.induct)
  case (1 block iv ys)
  have "ys \<noteq> [] \<Longrightarrow> 16 \<le> length ys" using dvd_imp_le [OF "1.prems"(3)] by simp
  then show ?case using 1 by (subst cbc_dec.simps) (auto simp: cipher_length)
qed

lemma xor_cancel:
  assumes "length xs = length ys"
  shows "map2 (XOR) (map2 (XOR) xs ys) ys = (xs :: u8 list)"
  by (rule nth_equalityI) (use assms in \<open>simp_all add: xor.assoc\<close>)

lemma cbc_enc_block:
  assumes "length xs = 16"
  shows "cbc_enc block iv (xs @ ys) =
    block (map2 (XOR) xs iv) @ cbc_enc block (block (map2 (XOR) xs iv)) ys"
proof -
  have "xs @ ys \<noteq> []" using assms by auto
  then show ?thesis using assms by (subst cbc_enc.simps) (auto simp: Let_def pad_block_full)
qed

lemma cbc_dec_block:
  assumes "length xs = 16"
  shows "cbc_dec block iv (xs @ ys) = map2 (XOR) (block xs) iv @ cbc_dec block xs ys"
proof -
  have "xs @ ys \<noteq> []" using assms by auto
  then show ?thesis using assms by (subst cbc_dec.simps) auto
qed

lemma cbc_Nil [simp]: "cbc_enc block iv [] = []" "cbc_dec block iv [] = []"
  by (simp_all add: cbc_enc.simps cbc_dec.simps)

text \<open>Deciphering what was enciphered gives the text, filled up to whole blocks.\<close>

lemma cbc_dec_enc:
  assumes "cipher block" and inv: "\<And>x. length x = 16 \<Longrightarrow> dblock (block x) = x" and "length iv = 16"
  shows "take (length xs) (cbc_dec dblock iv (cbc_enc block iv xs)) = xs"
  using assms(1,3) inv
proof (induction block iv xs rule: cbc_enc.induct)
  case (1 block iv xs)
  show ?case
  proof (cases "xs = []")
    case False
    define c where "c = block (map2 (XOR) (pad_block xs) iv)"
    have c: "length c = 16" using "1.prems"(1,2) by (simp add: c_def cipher_length)
    have "cbc_enc block iv xs = c @ cbc_enc block c (drop 16 xs)"
      using False by (subst cbc_enc.simps) (simp add: c_def Let_def)
    moreover have "cbc_dec dblock iv (c @ ys) = map2 (XOR) (dblock c) iv @ cbc_dec dblock c ys" for ys
      by (rule cbc_dec_block [OF c])
    moreover have "map2 (XOR) (dblock c) iv = pad_block xs"
      using "1.prems"(2) by (simp add: c_def "1.prems"(3) xor_cancel)
    moreover have "take (length (drop 16 xs)) (cbc_dec dblock c (cbc_enc block c (drop 16 xs))) = drop 16 xs"
      by (rule "1.IH" [OF False c_def "1.prems"(1) c "1.prems"(3)])
    moreover have "take (length xs) (pad_block xs) = take 16 xs"
      by (simp add: pad_block_def min_def)
    ultimately show ?thesis by simp
  qed simp
qed

lemma cbc_enc_append:
  assumes "cipher block" "length iv = 16" "16 dvd length xs"
  shows "cbc_enc block iv (xs @ ys) = cbc_enc block iv xs @ cbc_enc block (last_block iv (cbc_enc block iv xs)) ys"
  using assms
proof (induction block iv xs rule: cbc_enc.induct)
  case (1 block iv xs)
  show ?case
  proof (cases "xs = []")
    case True
    then show ?thesis by (simp add: last_block_def)
  next
    case False
    then have xs: "16 \<le> length xs" using dvd_imp_le [OF "1.prems"(3)] by simp
    define c where "c = block (map2 (XOR) (pad_block xs) iv)"
    have c: "length c = 16" using "1.prems"(1,2) by (simp add: c_def cipher_length)
    have step: "cbc_enc block iv (xs @ zs) = c @ cbc_enc block c (drop 16 xs @ zs)" for zs
      using False xs by (subst cbc_enc.simps) (simp add: c_def Let_def pad_block_full)
    have d: "16 dvd length (drop 16 xs)" using "1.prems"(3) by simp
    have len: "length (cbc_enc block c (drop 16 xs)) = padded (length xs - 16)"
      using length_cbc_enc [OF "1.prems"(1) c] by simp
    have "last_block iv (c @ cbc_enc block c (drop 16 xs)) = last_block c (cbc_enc block c (drop 16 xs))"
    proof (cases "length xs = 16")
      case True
      then show ?thesis using c by (auto simp: last_block_def)
    next
      case n16: False
      then have "16 \<le> length (cbc_enc block c (drop 16 xs))"
        using xs padded_simps(2) [of "length xs - 16"] by (simp add: len)
      then show ?thesis using c by (auto simp: last_block_def)
    qed
    then show ?thesis
      using "1.IH" [OF False c_def "1.prems"(1) c d] step [of ys] step [of "[]"] by simp
  qed
qed

section \<open>What the loops compute\<close>

definition iv_ok :: "u8 list \<Rightarrow> iv_ptr \<Rightarrow> nat \<Rightarrow> bool" where
  "iv_ok ivec iv out \<longleftrightarrow> length ivec = 16 \<and> (case iv of Ivec \<Rightarrow> True | At p \<Rightarrow> p + 16 \<le> out)"

lemma length_iv_bytes: "length ivec = 16 \<Longrightarrow> length (iv_bytes m ivec iv 0 16) = 16"
  by (cases iv) simp_all

lemma store_at_Nil [simp]: "store_at m p [] = m"
  by (rule ext) (simp add: store_at_def, linarith)

lemma load_at_0 [simp]: "load_at m p 0 = []" "load_at m p n = [] \<longleftrightarrow> n = 0"
  by (auto simp: load_at_def)

lemma map2_xor_commute: "map2 (XOR) xs ys = map2 (XOR) ys (xs :: u8 list)"
  by (rule nth_equalityI) (simp_all add: xor.commute)

text \<open>One block of the first loop of encryption.\<close>

lemma encrypt_block_step:
  fixes m :: memory
  assumes "cipher block" "iv_ok ivec iv out" "out \<le> inp \<or> inp + 16 \<le> out"
  defines "m1 \<equiv> cbc_words m ivec iv inp out 0"
  shows "store_at m1 out (block (load_at m1 out 16)) =
    store_at m out (block (map2 (XOR) (load_at m inp 16) (iv_bytes m ivec iv 0 16)))"
proof -
  let ?x = "map2 (XOR) (load_at m inp 16) (iv_bytes m ivec iv 0 16)"
  have iv: "length ivec = 16" "iv_safe iv out"
    using assms(2) by (auto simp: iv_ok_def iv_safe_def apart_def split: iv_ptr.splits)
  then have x: "length ?x = 16" by (simp add: length_iv_bytes)
  have m1: "m1 = store_at m out ?x" unfolding m1_def by (rule cbc_words_eq [OF iv assms(3)])
  then have "load_at m1 out 16 = ?x" using load_store_same [of m out ?x] x by simp
  then show ?thesis using x cipher_length [OF assms(1) x] by (simp add: m1 store_store_same)
qed

lemma encrypt_blocks_eq:
  assumes "cipher block" "iv_ok ivec iv out" "out \<le> inp \<or> inp + len \<le> out"
  shows "encrypt_blocks block m ivec iv inp out len =
    (let n = len div 16 * 16
     in (store_at m out (cbc_enc block (iv_bytes m ivec iv 0 16) (load_at m inp n)),
         if n = 0 then iv else At (out + n - 16), inp + n, out + n, len - n))"
  using assms
proof (induction block m ivec iv inp out len rule: encrypt_blocks.induct)
  case (1 block m ivec iv inp out len)
  show ?case
  proof (cases "16 \<le> len")
    case False
    then show ?thesis by (subst encrypt_blocks.simps) simp
  next
    case True
    define m1 where "m1 = cbc_words m ivec iv inp out 0"
    define c where "c = block (map2 (XOR) (load_at m inp 16) (iv_bytes m ivec iv 0 16))"
    define m2 where "m2 = store_at m1 out (block (load_at m1 out 16))"
    define n where "n = (len - 16) div 16 * 16"
    have n: "len div 16 * 16 = n + 16" "n \<le> len - 16"
      using True le_div_geq [of 16 len] by (simp_all add: n_def)
    have iv16: "length (iv_bytes m ivec iv 0 16) = 16"
      using "1.prems"(2) by (simp add: iv_ok_def length_iv_bytes)
    have c: "length c = 16" using "1.prems"(1) iv16 by (simp add: c_def cipher_length)
    have "out \<le> inp \<or> inp + 16 \<le> out" using "1.prems"(3) True by linarith
    then have m2: "m2 = store_at m out c"
      unfolding m2_def c_def m1_def by (rule encrypt_block_step [OF "1.prems"(1,2)])
    have iv2: "iv_ok ivec (At out) (out + 16)" using "1.prems"(2) by (simp add: iv_ok_def)
    have al2: "out + 16 \<le> inp + 16 \<or> inp + 16 + (len - 16) \<le> out + 16" using "1.prems"(3) True by linarith
    note IH = "1.IH" [OF True m1_def m2_def "1.prems"(1) iv2 al2, folded n_def, unfolded Let_def]
    have c2: "iv_bytes m2 ivec (At out) 0 16 = c" using load_store_same [of m out c] c by (simp add: m2)
    have "apart out (length c) (inp + 16) n" using "1.prems"(3) n True c by (auto simp: apart_def)
    then have l2: "load_at m2 (inp + 16) n = load_at m (inp + 16) n" by (simp add: m2 load_store_apart)
    have enc: "cbc_enc block (iv_bytes m ivec iv 0 16) (load_at m inp (n + 16)) =
      c @ cbc_enc block c (load_at m (inp + 16) n)"
      using load_at_add [of m inp 16 n] by (simp add: cbc_enc_block c_def add.commute)
    have "encrypt_blocks block m ivec iv inp out len =
        encrypt_blocks block m2 ivec (At out) (inp + 16) (out + 16) (len - 16)"
      using True by (subst encrypt_blocks.simps) (simp add: m2_def m1_def Let_def)
    then show ?thesis
      using IH [unfolded c2 l2] store_store_adjacent [of m out c] c True unfolding Let_def n(1) enc
      by (simp add: m2 ac_simps)
  qed
qed

text \<open>The last, partial block.\<close>

lemma store_byte: "i = length bs \<Longrightarrow> (store_at m p bs)(p + i := b) = store_at m p (bs @ [b])"
  by (rule ext) (auto simp: store_at_def nth_append)

lemma fold_upt_Suc: "j \<le> k \<Longrightarrow> fold f [j..<Suc k] s = f k (fold f [j..<k] s)"
  by simp

lemma iv_byte: "iv_ok ivec iv out \<Longrightarrow> i < 16 \<Longrightarrow> iv_bytes (store_at m out bs) ivec iv i 1 ! 0 = iv_bytes m ivec iv 0 16 ! i"
  by (cases iv) (auto simp: iv_ok_def nth_load_at store_at_def)

lemma encrypt_rest_bytes:
  assumes "iv_ok ivec iv out" "out \<le> inp \<or> inp + len \<le> out" "k \<le> min 16 len"
  shows "fold (\<lambda>n m. m(out + n := m (inp + n) XOR iv_bytes m ivec iv n 1 ! 0)) [0..<k] m =
    store_at m out (map2 (XOR) (load_at m inp k) (take k (iv_bytes m ivec iv 0 16)))"
  using assms(3)
proof (induction k)
  case (Suc k)
  let ?x = "map2 (XOR) (load_at m inp k) (take k (iv_bytes m ivec iv 0 16))"
  have iv16: "length (iv_bytes m ivec iv 0 16) = 16" using assms(1) by (simp add: iv_ok_def length_iv_bytes)
  have x: "length ?x = k" using Suc.prems iv16 by simp
  have src: "store_at m out ?x (inp + k) = m (inp + k)" using assms(2) Suc.prems x by (auto simp: store_at_def)
  have "map2 (XOR) (load_at m inp (Suc k)) (take (Suc k) (iv_bytes m ivec iv 0 16)) =
      ?x @ [m (inp + k) XOR iv_bytes m ivec iv 0 16 ! k]"
    using load_at_add [of m inp k 1] Suc.prems iv16 by (simp add: take_Suc_conv_app_nth load_at_def)
  moreover have "iv_bytes (store_at m out ?x) ivec iv k 1 ! 0 = iv_bytes m ivec iv 0 16 ! k"
    using iv_byte [OF assms(1)] Suc.prems by simp
  moreover have "k \<le> min 16 len" using Suc.prems by simp
  ultimately show ?case
    unfolding fold_upt_Suc [OF le0] using Suc.IH by (simp only: src store_byte [OF x [symmetric]])
qed simp

lemma encrypt_rest_fill:
  assumes "iv_ok ivec iv out" "length xs = j" "j \<le> k" "k \<le> 16"
  shows "fold (\<lambda>n m. m(out + n := iv_bytes m ivec iv n 1 ! 0)) [j..<k] (store_at m out xs) =
    store_at m out (xs @ take (k - j) (drop j (iv_bytes m ivec iv 0 16)))"
  using assms(3,4)
proof (induction k)
  case (Suc k)
  show ?case
  proof (cases "j \<le> k")
    case True
    let ?v = "iv_bytes m ivec iv 0 16"
    let ?x = "xs @ take (k - j) (drop j ?v)"
    have iv16: "length ?v = 16" using assms(1) by (simp add: iv_ok_def length_iv_bytes)
    have x: "length ?x = k" using Suc.prems True iv16 assms(2) by simp
    have "xs @ take (Suc k - j) (drop j ?v) = ?x @ [?v ! k]"
      using Suc.prems True iv16 by (simp add: Suc_diff_le take_Suc_conv_app_nth)
    moreover have "iv_bytes (store_at m out ?x) ivec iv k 1 ! 0 = ?v ! k"
      using iv_byte [OF assms(1)] Suc.prems by simp
    moreover have "k \<le> 16" using Suc.prems by simp
    ultimately show ?thesis
      unfolding fold_upt_Suc [OF True] using Suc.IH [OF True] by (simp only: store_byte [OF x [symmetric]])
  next
    case False
    then show ?thesis using Suc.prems by simp
  qed
qed (use assms in simp)

lemma pad_block_xor:
  assumes "length iv = 16" "length xs \<le> 16"
  shows "map2 (XOR) (pad_block xs) iv = map2 (XOR) xs (take (length xs) iv) @ drop (length xs) iv"
  by (rule nth_equalityI) (use assms in \<open>auto simp: pad_block_def nth_append\<close>)

lemma encrypt_rest_eq:
  assumes "cipher block" "iv_ok ivec iv out" "out \<le> inp \<or> inp + len \<le> out" "len < 16"
  shows "encrypt_rest block m ivec iv inp out len =
    (store_at m out (cbc_enc block (iv_bytes m ivec iv 0 16) (load_at m inp len)),
     if len = 0 then iv else At out)"
proof (cases "len = 0")
  case True
  then show ?thesis by (simp add: encrypt_rest.simps)
next
  case False
  let ?v = "iv_bytes m ivec iv 0 16" and ?p = "load_at m inp len"
  let ?x = "map2 (XOR) (pad_block ?p) ?v"
  have iv16: "length ?v = 16" using assms(2) by (simp add: iv_ok_def length_iv_bytes)
  have x: "length ?x = 16" using iv16 by simp
  have ml: "min 16 len = len" using assms(4) by simp
  define m1 where "m1 = fold (\<lambda>n m. m(out + n := m (inp + n) XOR iv_bytes m ivec iv n 1 ! 0)) [0..<min 16 len] m"
  define m2 where "m2 = fold (\<lambda>n m. m(out + n := iv_bytes m ivec iv n 1 ! 0)) [min 16 len..<16] m1"
  have "m1 = store_at m out (map2 (XOR) ?p (take len ?v))"
    unfolding m1_def ml by (rule encrypt_rest_bytes [OF assms(2,3)]) (simp add: ml)
  then have m2: "m2 = store_at m out ?x"
    using encrypt_rest_fill [OF assms(2), of "map2 (XOR) ?p (take len ?v)" len 16 m] assms(4) iv16
    by (simp add: m2_def ml pad_block_xor)
  have l2: "load_at m2 out 16 = ?x" using load_store_same [of m out ?x] x by (simp add: m2)
  have "?p \<noteq> []" "drop 16 ?p = []" using False assms(4) by (simp_all flip: length_0_conv)
  then have enc: "cbc_enc block ?v ?p = block ?x" by (subst cbc_enc.simps) (simp add: Let_def)
  have "encrypt_rest block m ivec iv inp out len = (store_at m2 out (block (load_at m2 out 16)), At out)"
    using False assms(4) by (subst encrypt_rest.simps) (simp add: m2_def m1_def Let_def)
  then show ?thesis
    using False x cipher_length [OF assms(1) x] unfolding enc l2 by (simp add: m2 store_store_same)
qed

text \<open>All of encryption.\<close>

lemma last_block_at:
  assumes "length cs = n" "16 \<le> n"
  shows "load_at (store_at m p cs) (p + n - 16) 16 = last_block iv cs"
  by (rule nth_equalityI) (use assms in \<open>auto simp: nth_load_at store_at_def last_block_def\<close>)

lemma cbc_encrypt_eq:
  fixes m :: memory
  assumes "cipher block" "length ivec = 16" "out \<le> inp \<or> inp + len \<le> out"
  defines "cs \<equiv> cbc_enc block ivec (load_at m inp len)"
  shows "CRYPTO_cbc128_encrypt block m inp out len ivec = (store_at m out cs, last_block ivec cs)"
proof (cases "len = 0")
  case True
  then show ?thesis by (simp add: CRYPTO_cbc128_encrypt_def cs_def last_block_def)
next
  case False
  define n where "n = len div 16 * 16"
  define c1 where "c1 = cbc_enc block ivec (load_at m inp n)"
  define iv where "iv = (if n = 0 then Ivec else At (out + n - 16))"
  define m1 where "m1 = store_at m out c1"
  define r where "r = len - n"
  have nr: "len = n + r" "r < 16" "16 dvd n"
    using div_mult_mod_eq [of len 16] mod_less_divisor [of 16 len] by (simp_all add: n_def r_def)
  have c1: "length c1 = n"
    using length_cbc_enc [OF assms(1,2)] nr(3) by (simp add: c1_def padded_of_blocks)
  have blocks: "encrypt_blocks block m ivec Ivec inp out len = (m1, iv, inp + n, out + n, r)"
    using encrypt_blocks_eq [OF assms(1) _ assms(3), of ivec Ivec m] assms(2)
    by (simp add: iv_ok_def Let_def n_def r_def m1_def c1_def iv_def)
  have ge: "n = 0 \<or> 16 \<le> n" using nr(3) dvd_imp_le [of 16 n] by auto
  then have iv: "iv_ok ivec iv (out + n)" using assms(2) by (auto simp: iv_ok_def iv_def)
  have v: "iv_bytes m1 ivec iv 0 16 = last_block ivec c1"
    using ge c1 assms(2) last_block_at [OF c1, of m out ivec] by (auto simp: iv_def m1_def last_block_def)
  have "apart out n (inp + n) r" using assms(3) nr(1) by (auto simp: apart_def)
  then have src: "load_at m1 (inp + n) r = load_at m (inp + n) r" using c1 by (simp add: m1_def load_store_apart)
  define c2 where "c2 = cbc_enc block (last_block ivec c1) (load_at m (inp + n) r)"
  have lb: "length (last_block ivec c1) = 16" using c1 assms(2) ge by (auto simp: last_block_def)
  have c2: "length c2 = padded r" using length_cbc_enc [OF assms(1) lb] by (simp add: c2_def)
  have cs: "cs = c1 @ c2"
    using cbc_enc_append [OF assms(1,2), of "load_at m inp n"] nr load_at_add [of m inp n r]
    by (simp add: cs_def c1_def c2_def)
  have "out + n \<le> inp + n \<or> inp + n + r \<le> out + n" using assms(3) nr(1) by auto
  note rest = encrypt_rest_eq [OF assms(1) iv this nr(2), of m1, unfolded v src, folded c2_def]
  have m2: "store_at m1 (out + n) c2 = store_at m out cs"
    using store_store_adjacent [of m out c1 c2] c1 by (simp add: cs m1_def)
  have "iv_bytes (store_at m out cs) ivec (if r = 0 then iv else At (out + n)) 0 16 = last_block ivec cs"
  proof (cases "r = 0")
    case True
    then have "c2 = []" by (simp add: c2_def)
    then show ?thesis using v True by (simp add: cs m1_def)
  next
    case False
    then have "length c2 = 16" using c2 nr(2) padded_simps(2) [of r] by (simp add: padded_simps(1))
    then show ?thesis using False last_block_at [of cs "n + 16" m out ivec] c1 by (simp add: cs add.assoc)
  qed
  then show ?thesis using False blocks rest m2 by (simp add: CRYPTO_cbc128_encrypt_def)
qed

section \<open>What the loops of decryption compute\<close>

lemma cbc_dec_append:
  assumes "length iv = 16" "16 dvd length xs"
  shows "cbc_dec block iv (xs @ ys) = cbc_dec block iv xs @ cbc_dec block (last_block iv xs) ys"
  using assms
proof (induction block iv xs rule: cbc_dec.induct)
  case (1 block iv xs)
  show ?case
  proof (cases "xs = []")
    case True
    then show ?thesis by (simp add: last_block_def)
  next
    case False
    then have xs: "16 \<le> length xs" using dvd_imp_le [OF "1.prems"(2)] by simp
    then have b: "length (take 16 xs) = 16" by simp
    have d: "16 dvd length (drop 16 xs)" using "1.prems"(2) by simp
    have "last_block iv xs = last_block (take 16 xs) (drop 16 xs)"
    proof (cases "length xs = 16")
      case False
      then have "16 dvd length xs - 16" "0 < length xs - 16" using xs d by simp_all
      then have "16 \<le> length xs - 16" using dvd_imp_le by blast
      then show ?thesis using xs by (auto simp: last_block_def)
    qed (use False in \<open>simp add: last_block_def\<close>)
    then show ?thesis
      using "1.IH" [OF False b d] cbc_dec_block [OF b, of block iv "drop 16 xs @ ys"]
        cbc_dec_block [OF b, of block iv "drop 16 xs"]
      by (simp flip: append_assoc)
  qed
qed

lemma cbc_dec_block_of_memory:
  "cbc_dec block iv (load_at m inp (n + 16)) =
    map2 (XOR) (block (load_at m inp 16)) iv @ cbc_dec block (load_at m inp 16) (load_at m (inp + 16) n)"
  using load_at_add [of m inp 16 n] by (simp add: cbc_dec_block add.commute)

text \<open>The first loop, with the output away from the input.\<close>

lemma decrypt_block_step:
  fixes m :: memory and inp :: nat
  assumes "cipher block" "length ivec = 16" "iv_safe iv out"
  defines "m1 \<equiv> store_at m out (block (load_at m inp 16))"
  shows "cbc_words m1 ivec iv out out 0 =
    store_at m out (map2 (XOR) (block (load_at m inp 16)) (iv_bytes m ivec iv 0 16))"
proof -
  have b: "length (block (load_at m inp 16)) = 16" using assms(1) by (simp add: cipher_length)
  have "iv_bytes m1 ivec iv 0 16 = iv_bytes m ivec iv 0 16"
    using iv_bytes_store [OF assms(3), of 0 16 0 "block (load_at m inp 16)" m ivec] b by (simp add: m1_def)
  moreover have "load_at m1 out 16 = block (load_at m inp 16)"
    using load_store_same [of m out "block (load_at m inp 16)"] b by (simp add: m1_def)
  ultimately show ?thesis
    using cbc_words_eq [OF assms(2,3), of out m1] b assms(2)
    by (simp add: m1_def store_store_same length_iv_bytes)
qed

text \<open>Where \<^verbatim>\<open>iv\<close> points while the loop runs, and that the output of the loop stays away from it.\<close>

definition far_ok :: "u8 list \<Rightarrow> iv_ptr \<Rightarrow> nat \<Rightarrow> nat \<Rightarrow> nat \<Rightarrow> bool" where
  "far_ok ivec iv inp out len \<longleftrightarrow>
    length ivec = 16 \<and> (case iv of Ivec \<Rightarrow> True | At q \<Rightarrow> q + 16 = inp) \<and> (out + 32 \<le> inp \<or> inp + len \<le> out)"

lemma decrypt_far_eq:
  assumes "cipher block" "far_ok ivec iv inp out len"
  shows "decrypt_far block m ivec iv inp out len =
    (let n = len div 16 * 16
     in (store_at m out (cbc_dec block (iv_bytes m ivec iv 0 16) (load_at m inp n)),
         if n = 0 then iv else At (inp + n - 16), inp + n, out + n, len - n))"
  using assms
proof (induction block m ivec iv inp out len rule: decrypt_far.induct)
  case (1 block m ivec iv inp out len)
  show ?case
  proof (cases "16 \<le> len")
    case False
    then show ?thesis by (subst decrypt_far.simps) simp
  next
    case True
    define m1 where "m1 = store_at m out (block (load_at m inp 16))"
    define m2 where "m2 = cbc_words m1 ivec iv out out 0"
    define x where "x = map2 (XOR) (block (load_at m inp 16)) (iv_bytes m ivec iv 0 16)"
    define n where "n = (len - 16) div 16 * 16"
    have n: "len div 16 * 16 = n + 16" "n \<le> len - 16"
      using True le_div_geq [of 16 len] by (simp_all add: n_def)
    note far = "1.prems"(2) [unfolded far_ok_def]
    have iv: "length ivec = 16" "iv_safe iv out"
      using far True by (auto simp: iv_safe_def apart_def split: iv_ptr.splits)
    have x: "length x = 16" using iv "1.prems"(1) by (simp add: x_def length_iv_bytes cipher_length)
    have m2: "m2 = store_at m out x"
      unfolding m2_def m1_def x_def by (rule decrypt_block_step [OF "1.prems"(1) iv])
    have f2: "far_ok ivec (At inp) (inp + 16) (out + 16) (len - 16)" using far True by (auto simp: far_ok_def)
    note IH = "1.IH" [OF True m1_def m2_def "1.prems"(1) f2, folded n_def, unfolded Let_def]
    have "apart out (length x) inp (16 + n)" using far n True x by (auto simp: apart_def)
    then have l2: "load_at m2 inp 16 = load_at m inp 16" "load_at m2 (inp + 16) n = load_at m (inp + 16) n"
      by (simp_all add: m2 load_store_apart apart_def) (auto intro!: load_store_apart simp: apart_def)
    then have iv2: "iv_bytes m2 ivec (At inp) 0 16 = load_at m inp 16" by simp
    have "decrypt_far block m ivec iv inp out len =
        decrypt_far block m2 ivec (At inp) (inp + 16) (out + 16) (len - 16)"
      using True by (subst decrypt_far.simps) (simp add: m2_def m1_def Let_def)
    then show ?thesis
      using IH [unfolded iv2 l2] store_store_adjacent [of m out x] x True
      unfolding Let_def n(1) cbc_dec_block_of_memory x_def [symmetric]
      by (simp add: m2 ac_simps)
  qed
qed

text \<open>The first loop through the temporary block.\<close>

lemma decrypt_words_eq:
  assumes "length ivec = 16" "length tmp = 16" "out \<le> inp"
  shows "decrypt_words m ivec tmp inp out 0 = (store_at m out (map2 (XOR) tmp ivec), load_at m inp 16)"
proof -
  let ?x = "map2 (XOR) (take 8 tmp) (take 8 ivec)" and ?y = "map2 (XOR) (take 8 (drop 8 tmp)) (take 8 (drop 8 ivec))"
  define m1 where "m1 = store_at m out ?x"
  define v1 where "v1 = blit ivec 0 (load_at m inp 8)"
  have s0: "CRYPTO_store_word_le (CRYPTO_load_word_le (drop 0 tmp) XOR CRYPTO_load_word_le (drop 0 ivec)) = ?x"
    using store_xor [of tmp ivec] assms(1,2) by simp
  have v1: "v1 = load_at m inp 8 @ drop 8 ivec" by (simp add: v1_def blit_def)
  have s1: "CRYPTO_store_word_le (CRYPTO_load_word_le (drop 8 tmp) XOR CRYPTO_load_word_le (drop 8 v1)) = ?y"
    using store_xor [of "drop 8 tmp" "drop 8 v1"] assms(1,2) by (simp add: v1)
  have w: "CRYPTO_store_word_le (CRYPTO_load_word_le (load_at m' p 8)) = load_at m' p 8" for m' p
    using store_load [of "load_at m' p 8"] by simp
  have "apart out (length ?x) (inp + 8) 8" using assms by (auto simp: apart_def)
  then have l1: "load_at m1 (inp + 8) 8 = load_at m (inp + 8) 8" by (simp add: m1_def load_store_apart)
  have "decrypt_words m ivec tmp inp out 0 = decrypt_words m1 v1 tmp inp out 8"
    by (subst decrypt_words.simps) (simp add: s0 [simplified] w Let_def m1_def v1_def)
  also have "\<dots> = decrypt_words (store_at m1 (out + 8) ?y) (blit v1 8 (load_at m (inp + 8) 8)) tmp inp out 16"
    by (subst decrypt_words.simps) (simp add: s1 w Let_def l1)
  also have "\<dots> = (store_at m1 (out + 8) ?y, blit v1 8 (load_at m (inp + 8) 8))"
    by (subst decrypt_words.simps) simp
  also have "store_at m1 (out + 8) ?y = store_at m out (?x @ ?y)"
    using store_store_adjacent [of m out ?x ?y] assms by (simp add: m1_def)
  also have "?x @ ?y = map2 (XOR) tmp ivec"
    using map2_take_drop [of tmp ivec "(XOR)"] assms by simp
  also have "blit v1 8 (load_at m (inp + 8) 8) = load_at m inp 16"
    using load_at_add [of m inp 8 8] assms by (simp add: v1 blit_def)
  finally show ?thesis .
qed

lemma decrypt_near_eq:
  assumes "cipher block" "length ivec = 16" "out \<le> inp"
  shows "decrypt_near block m ivec inp out len =
    (let n = len div 16 * 16
     in (store_at m out (cbc_dec block ivec (load_at m inp n)), last_block ivec (load_at m inp n),
         inp + n, out + n, len - n))"
  using assms
proof (induction block m ivec inp out len rule: decrypt_near.induct)
  case (1 block m ivec inp out len)
  show ?case
  proof (cases "16 \<le> len")
    case False
    then show ?thesis by (subst decrypt_near.simps) (simp add: last_block_def)
  next
    case True
    define x where "x = map2 (XOR) (block (load_at m inp 16)) ivec"
    define c where "c = load_at m inp 16"
    define n where "n = (len - 16) div 16 * 16"
    define m2 where "m2 = store_at m out x"
    have n: "len div 16 * 16 = n + 16"
      using True le_div_geq [of 16 len] by (simp add: n_def)
    have b: "length (block (load_at m inp 16)) = 16" using "1.prems"(1) by (simp add: cipher_length)
    have x: "length x = 16" using "1.prems"(2) b by (simp add: x_def)
    have words: "decrypt_words m ivec (block (load_at m inp 16)) inp out 0 = (m2, c)"
      unfolding m2_def x_def c_def by (rule decrypt_words_eq [OF "1.prems"(2) b "1.prems"(3)])
    have c: "length c = 16" and le: "out + 16 \<le> inp + 16" using "1.prems"(3) by (simp_all add: c_def)
    note IH = "1.IH" [OF True refl words [symmetric] refl "1.prems"(1) c le, folded n_def, unfolded Let_def]
    have l2: "load_at m2 (inp + 16) n = load_at m (inp + 16) n"
      unfolding m2_def by (rule load_store_apart) (use x "1.prems"(3) in \<open>simp add: apart_def\<close>)
    have "n = 0 \<or> 16 \<le> n" unfolding n_def by (cases "(len - 16) div 16") simp_all
    then have lb: "last_block ivec (load_at m inp (n + 16)) = last_block c (load_at m (inp + 16) n)"
      using load_at_add [of m inp 16 n] by (auto simp: last_block_def c_def add.commute drop_load_at)
    have "decrypt_near block m ivec inp out len = decrypt_near block m2 c (inp + 16) (out + 16) (len - 16)"
      using True by (subst decrypt_near.simps) (simp add: Let_def words)
    then show ?thesis
      using IH [unfolded l2] store_store_adjacent [of m out x] x True
      unfolding Let_def n(1) lb cbc_dec_block_of_memory x_def [symmetric] c_def
      by (simp add: m2_def ac_simps)
  qed
qed

text \<open>The last, partial block: the output may lie on the input or before it.\<close>

lemma decrypt_rest_bytes:
  assumes "length ivec = 16" "length tmp = 16" "out \<le> inp \<or> inp + len \<le> out" "k \<le> min 16 len"
  shows "fold (\<lambda>n (m, ivec).
      let c = m (inp + n) in (m(out + n := tmp ! n XOR ivec ! n), ivec[n := c])) [0..<k] (m, ivec) =
    (store_at m out (take k (map2 (XOR) tmp ivec)), load_at m inp k @ drop k ivec)"
  using assms(4)
proof (induction k)
  case (Suc k)
  let ?x = "take k (map2 (XOR) tmp ivec)"
  have k: "k \<le> min 16 len" "k < 16" "k < len" using Suc.prems by simp_all
  have x: "length ?x = k" using assms k by simp
  have src: "store_at m out ?x (inp + k) = m (inp + k)" using assms(3) k x by (auto simp: store_at_def)
  have old: "(load_at m inp k @ drop k ivec) ! k = ivec ! k" using k assms(1) by (simp add: nth_append)
  have "take (Suc k) (map2 (XOR) tmp ivec) = ?x @ [tmp ! k XOR ivec ! k]"
    using k assms(1,2) by (simp add: take_Suc_conv_app_nth)
  moreover have "(load_at m inp k @ drop k ivec)[k := m (inp + k)] = load_at m inp (Suc k) @ drop (Suc k) ivec"
    using load_at_add [of m inp k 1] k assms(1) Cons_nth_drop_Suc [of k ivec, symmetric]
    by (simp add: list_update_append load_at_def)
  ultimately show ?case
    unfolding fold_upt_Suc [OF le0] Suc.IH [OF k(1)]
    by (simp only: case_prod_conv Let_def src old store_byte [OF x [symmetric]])
qed simp

lemma decrypt_rest_fill:
  assumes "length v = 16" "j \<le> k" "k \<le> 16"
  shows "fold (\<lambda>n ivec. ivec[n := m (inp + n)]) [j..<k] v = take j v @ load_at m (inp + j) (k - j) @ drop k v"
  using assms(2,3)
proof (induction k)
  case (Suc k)
  show ?case
  proof (cases "j \<le> k")
    case True
    have "fold (\<lambda>n ivec. ivec[n := m (inp + n)]) [j..<Suc k] v =
        (take j v @ load_at m (inp + j) (k - j) @ drop k v)[k := m (inp + k)]"
      using Suc True by simp
    also have "\<dots> = take j v @ load_at m (inp + j) (Suc k - j) @ drop (Suc k) v"
      using load_at_add [of m "inp + j" "k - j" 1] True Suc.prems assms(1) Cons_nth_drop_Suc [of k v, symmetric]
      by (simp add: list_update_append load_at_def Suc_diff_le)
    finally show ?thesis .
  next
    case False
    then have "j = Suc k" using Suc.prems by simp
    then show ?thesis by simp
  qed
qed (use assms in simp)

lemma decrypt_rest_eq:
  assumes "cipher block" "length ivec = 16" "len < 16" "out \<le> inp \<or> inp + padded len \<le> out"
  shows "decrypt_rest block m ivec inp out len =
    (store_at m out (take len (cbc_dec block ivec (load_at m inp (padded len)))),
     last_block ivec (load_at m inp (padded len)))"
proof (cases "len = 0")
  case True
  then show ?thesis by (simp add: decrypt_rest.simps padded_simps last_block_def)
next
  case False
  let ?tmp = "block (load_at m inp 16)"
  let ?x = "take len (map2 (XOR) ?tmp ivec)"
  have p: "padded len = 16" using False assms(3) by (simp add: padded_simps)
  have tmp: "length ?tmp = 16" using assms(1) by (simp add: cipher_length)
  have x: "length ?x = len" using assms(2,3) tmp by simp
  have ml: "min 16 len = len" using assms(3) by simp
  define m1 where "m1 = store_at m out ?x"
  define v where "v = load_at m inp len @ drop len ivec"
  have v: "length v = 16" using assms(2,3) by (simp add: v_def)
  have al: "out \<le> inp \<or> inp + len \<le> out" using assms(3,4) p by auto
  have first: "fold (\<lambda>n (m, ivec).
      let c = m (inp + n) in (m(out + n := ?tmp ! n XOR ivec ! n), ivec[n := c])) [0..<min 16 len] (m, ivec) = (m1, v)"
    unfolding m1_def v_def ml by (rule decrypt_rest_bytes [OF assms(2) tmp al]) (simp add: ml)
  have "apart out (length ?x) (inp + len) (16 - len)"
    using assms(3,4) p x by (auto simp: apart_def)
  then have "load_at m1 (inp + len) (16 - len) = load_at m (inp + len) (16 - len)"
    by (simp add: m1_def load_store_apart)
  then have second: "fold (\<lambda>n ivec. ivec[n := m1 (inp + n)]) [min 16 len..<16] v = load_at m inp 16"
    using decrypt_rest_fill [OF v, of len 16 m1 inp] v assms(2,3) load_at_add [of m inp len "16 - len"]
    by (simp add: ml v_def)
  have "decrypt_rest block m ivec inp out len =
      (m1, fold (\<lambda>n ivec. ivec[n := m1 (inp + n)]) [min 16 len..<16] v)"
    using False assms(3) by (subst decrypt_rest.simps) (simp only: Let_def first [unfolded Let_def] case_prod_conv, simp)
  then show ?thesis
    using second cbc_dec_block_of_memory [of block ivec m inp 0] assms(3) tmp assms(2)
    by (simp add: m1_def p last_block_def)
qed

text \<open>All of decryption.\<close>

lemma cbc_decrypt_eq:
  fixes m :: memory
  assumes "cipher block" "length ivec = 16" "out \<le> inp \<or> inp + padded len \<le> out"
  defines "cs \<equiv> load_at m inp (padded len)"
  shows "CRYPTO_cbc128_decrypt block m inp out len ivec =
    (store_at m out (take len (cbc_dec block ivec cs)), last_block ivec cs)"
proof (cases "len = 0")
  case True
  then show ?thesis by (simp add: CRYPTO_cbc128_decrypt_def cs_def last_block_def padded_simps)
next
  case False
  define n where "n = len div 16 * 16"
  define c1 where "c1 = load_at m inp n"
  define m1 where "m1 = store_at m out (cbc_dec block ivec c1)"
  define r where "r = len - n"
  have nr: "len = n + r" "r < 16" "16 dvd n"
    using div_mult_mod_eq [of len 16] mod_less_divisor [of 16 len] by (simp_all add: n_def r_def)
  have pl: "padded len = n + padded r"
  proof -
    obtain k where k: "n = 16 * k" using nr(3) ..
    have "(16 * k + (r + 15)) div 16 = k + (r + 15) div 16" by simp
    then show ?thesis by (simp add: padded_def nr(1) k add.assoc distrib_right)
  qed
  have x1: "length (cbc_dec block ivec c1) = n"
    using length_cbc_dec [OF assms(1,2)] nr(3) by (simp add: c1_def)
  have ge: "n = 0 \<or> 16 \<le> n" using nr(3) dvd_imp_le [of 16 n] by auto
  have lb: "length (last_block ivec c1) = 16" using assms(2) ge by (auto simp: last_block_def c1_def)
  define c2 where "c2 = load_at m (inp + n) (padded r)"
  have cs: "cs = c1 @ c2" using load_at_add [of m inp n "padded r"] by (simp add: cs_def pl c1_def c2_def)
  have al: "out + n \<le> inp + n \<or> inp + n + padded r \<le> out + n" using assms(3) by (auto simp: pl)
  have src: "load_at m1 (inp + n) (padded r) = c2"
    unfolding m1_def c2_def
    by (rule load_store_apart) (use assms(3) x1 in \<open>auto simp: apart_def pl\<close>)
  have rest: "decrypt_rest block m1 (last_block ivec c1) (inp + n) (out + n) r =
      (store_at m1 (out + n) (take r (cbc_dec block (last_block ivec c1) c2)), last_block (last_block ivec c1) c2)"
    using decrypt_rest_eq [OF assms(1) lb nr(2) al, of m1] by (simp add: src)
  have "store_at m1 (out + n) (take r (cbc_dec block (last_block ivec c1) c2)) =
      store_at m out (take len (cbc_dec block ivec cs))"
    using store_store_adjacent [of m out "cbc_dec block ivec c1"] x1 nr(1,3)
      cbc_dec_append [OF assms(2), of c1 block c2] by (simp add: m1_def cs c1_def)
  moreover have "last_block (last_block ivec c1) c2 = last_block ivec cs"
    using nr(2) padded_simps(2) [of r] by (cases "r = 0") (auto simp: last_block_def cs c2_def padded_simps(1))
  moreover have "CRYPTO_cbc128_decrypt block m inp out len ivec =
      decrypt_rest block m1 (last_block ivec c1) (inp + n) (out + n) r"
  proof (cases "32 \<le> inp \<and> out \<le> inp - 32 \<or> inp < out")
    case True
    have "len \<le> padded len" by (rule padded_ge)
    then have far: "far_ok ivec Ivec inp out len" using True assms(2,3) by (auto simp: far_ok_def)
    let ?iv = "if n = 0 then Ivec else At (inp + n - 16)"
    have "iv_bytes m1 ivec ?iv 0 16 = last_block ivec c1"
    proof (cases "n = 0")
      case False
      then have n16: "16 \<le> n" using ge by simp
      then have "inp + n - 16 = inp + (n - 16)" by simp
      moreover have "load_at m1 (inp + (n - 16)) 16 = load_at m (inp + (n - 16)) 16"
        unfolding m1_def
        by (rule load_store_apart) (use far n16 x1 nr(1) in \<open>auto simp: far_ok_def apart_def\<close>)
      ultimately show ?thesis using n16 by (simp add: last_block_def c1_def drop_load_at)
    qed (use assms(2) in \<open>simp add: last_block_def c1_def\<close>)
    then show ?thesis
      using False True decrypt_far_eq [OF assms(1) far, of m]
      by (simp add: CRYPTO_cbc128_decrypt_def Let_def n_def [symmetric] r_def [symmetric] c1_def [symmetric] m1_def [symmetric] assms(2))
  next
    case near: False
    then have "out \<le> inp" by simp
    then show ?thesis
      using False decrypt_near_eq [OF assms(1,2), of out inp m len]
      unfolding CRYPTO_cbc128_decrypt_def if_not_P [OF near]
      by (simp add: Let_def n_def [symmetric] r_def [symmetric] c1_def [symmetric] m1_def [symmetric])
  qed
  ultimately show ?thesis using rest by simp
qed

section \<open>Properties\<close>

lemma cbc_enc_nth:
  assumes "cipher block" "length iv = 16" "16 * i < length xs"
  shows "take 16 (drop (16 * i) (cbc_enc block iv xs)) =
    block (map2 (XOR) (pad_block (drop (16 * i) xs))
      (if i = 0 then iv else take 16 (drop (16 * (i - 1)) (cbc_enc block iv xs))))"
  using assms(2,3)
proof (induction i arbitrary: iv xs)
  case 0
  then show ?case
    using assms(1) by (subst cbc_enc.simps) (auto simp: Let_def cipher_length)
next
  case (Suc i)
  define c where "c = block (map2 (XOR) (pad_block xs) iv)"
  have c: "length c = 16" using Suc.prems assms(1) by (simp add: c_def cipher_length)
  have enc: "cbc_enc block iv xs = c @ cbc_enc block c (drop 16 xs)"
    using Suc.prems by (subst cbc_enc.simps) (auto simp: c_def Let_def)
  have IH: "take 16 (drop (16 * i) (cbc_enc block c (drop 16 xs))) =
    block (map2 (XOR) (pad_block (drop (16 * i) (drop 16 xs)))
      (if i = 0 then c else take 16 (drop (16 * (i - 1)) (cbc_enc block c (drop 16 xs)))))"
    by (rule Suc.IH [OF c]) (use Suc.prems in simp)
  show ?case
    unfolding enc using c IH by (cases i) (simp_all add: add.commute)
qed

lemma load_inside_store:
  "i + k \<le> length cs \<Longrightarrow> load_at (store_at m p cs) (p + i) k = take k (drop i cs)"
  by (rule nth_equalityI) (auto simp: nth_load_at store_at_def add.assoc)

text \<open>CRYPTO_cbc128_encrypt, for every length and with the output on the input, before it or behind all of
  it: block \<open>i\<close> of the output is the block cipher applied to block \<open>i\<close> of the input, filled up with zeros,
  exclusive-or the output block before it, or the initialisation vector for the first; the new
  initialisation vector is the last output block; no byte outside the output is written.\<close>

theorem cbc_encrypt_chain:
  assumes "cipher block" "length ivec = 16" "out \<le> inp \<or> inp + len \<le> out"
    "CRYPTO_cbc128_encrypt block m inp out len ivec = (m', ivec')"
  shows "(\<forall>i. 16 * i < len \<longrightarrow>
      load_at m' (out + 16 * i) 16 =
        block (map2 (XOR) (pad_block (load_at m (inp + 16 * i) (len - 16 * i)))
          (if i = 0 then ivec else load_at m' (out + 16 * (i - 1)) 16))) \<and>
    ivec' = (if len = 0 then ivec else load_at m' (out + padded len - 16) 16) \<and>
    (\<forall>a. a < out \<or> out + padded len \<le> a \<longrightarrow> m' a = m a)"
proof -
  define cs where "cs = cbc_enc block ivec (load_at m inp len)"
  have m': "m' = store_at m out cs" "ivec' = last_block ivec cs"
    using cbc_encrypt_eq [OF assms(1-3), of m] assms(4) by (simp_all add: cs_def)
  have cs: "length cs = padded len" using length_cbc_enc [OF assms(1,2)] by (simp add: cs_def)
  have room: "16 * i + 16 \<le> length cs" if i: "16 * i < len" for i
  proof -
    have "(16 * i + 16) div 16 \<le> (len + 15) div 16" by (rule div_le_mono) (use i in simp)
    then have "i + 1 \<le> (len + 15) div 16" by simp
    then show ?thesis unfolding cs padded_def by linarith
  qed
  have "load_at m' (out + 16 * i) 16 =
      block (map2 (XOR) (pad_block (load_at m (inp + 16 * i) (len - 16 * i)))
        (if i = 0 then ivec else load_at m' (out + 16 * (i - 1)) 16))" if i: "16 * i < len" for i
    using cbc_enc_nth [OF assms(1,2), of i "load_at m inp len"] i room [of i] room [of "i - 1"]
      load_inside_store [of "16 * i" 16 cs m out] load_inside_store [of "16 * (i - 1)" 16 cs m out]
    by (simp add: m' drop_load_at flip: cs_def)
  moreover have "ivec' = (if len = 0 then ivec else load_at m' (out + padded len - 16) 16)"
  proof (cases "len = 0")
    case False
    then have "16 \<le> padded len" by (simp add: padded_simps)
    then show ?thesis using False last_block_at [OF cs, of m out ivec] by (simp add: m')
  qed (simp add: m' cs_def last_block_def)
  moreover have "\<forall>a. a < out \<or> out + padded len \<le> a \<longrightarrow> m' a = m a"
    by (auto simp: m' store_at_def cs)
  ultimately show ?thesis by blast
qed

text \<open>A run on 20 bytes in place, with a block cipher that turns a block round.\<close>

lemma cbc_encrypt_chain_witness:
  "let (m', ivec') = CRYPTO_cbc128_encrypt rev of_nat 0 0 20 (replicate 16 5) in
    (\<forall>a. a < 0 \<or> 0 + padded 20 \<le> a \<longrightarrow> m' a = of_nat a) \<and> ivec' = load_at m' (0 + padded 20 - 16) 16"
proof -
  have "cipher rev" by (simp add: cipher_def)
  then show ?thesis
    using cbc_encrypt_chain [of rev "replicate 16 5" 0 0 20 of_nat
        "fst (CRYPTO_cbc128_encrypt rev of_nat 0 0 20 (replicate 16 5))"
        "snd (CRYPTO_cbc128_encrypt rev of_nat 0 0 20 (replicate 16 5))"]
    by (simp add: case_prod_beta)
qed

text \<open>C22: CRYPTO_cbc128_decrypt undoes CRYPTO_cbc128_encrypt for every length: with the inverse of the block
  cipher it restores the plaintext, ends with the same initialisation vector, and the two together write
  no byte outside the ciphertext and the restored text. Each output may lie on its input, anywhere before
  it or behind it, which covers the path that decrypts straight into the output and the one through a
  temporary block.\<close>

theorem cbc_roundtrip:
  assumes "cipher block" "cipher dblock" "\<And>x. length x = 16 \<Longrightarrow> dblock (block x) = x" "length ivec = 16"
    "out \<le> inp \<or> inp + len \<le> out" "dest \<le> out \<or> out + padded len \<le> dest"
    "CRYPTO_cbc128_encrypt block m inp out len ivec = (m1, ivec1)"
    "CRYPTO_cbc128_decrypt dblock m1 out dest len ivec = (m2, ivec2)"
  shows "load_at m2 dest len = load_at m inp len \<and> ivec2 = ivec1 \<and>
    (\<forall>a. (a < out \<or> out + padded len \<le> a) \<and> (a < dest \<or> dest + len \<le> a) \<longrightarrow> m2 a = m a)"
proof -
  define cs where "cs = cbc_enc block ivec (load_at m inp len)"
  define ps where "ps = take len (cbc_dec dblock ivec cs)"
  have cs: "length cs = padded len" using length_cbc_enc [OF assms(1,4)] by (simp add: cs_def)
  have m1: "m1 = store_at m out cs" "ivec1 = last_block ivec cs"
    using cbc_encrypt_eq [OF assms(1,4,5), of m] assms(7) by (simp_all add: cs_def)
  then have l: "load_at m1 out (padded len) = cs" using load_store_same [of m out cs] cs by simp
  have m2: "m2 = store_at m1 dest ps" "ivec2 = last_block ivec cs"
    using cbc_decrypt_eq [OF assms(2,4,6), of m1] assms(8) by (simp_all add: l ps_def)
  have ps: "ps = load_at m inp len"
    using cbc_dec_enc [OF assms(1) assms(3) assms(4), where xs = "load_at m inp len"] by (simp add: ps_def cs_def)
  then have "load_at m2 dest len = load_at m inp len" using load_store_same [of m1 dest ps] by (simp add: m2)
  then show ?thesis using m1 m2 cs ps by (simp add: store_at_def)
qed

text \<open>A run on 20 bytes: encrypted in place, then decrypted to eight bytes before.\<close>

lemma cbc_roundtrip_witness:
  "let (m1, ivec1) = CRYPTO_cbc128_encrypt rev of_nat 40 40 20 (replicate 16 5);
       (m2, ivec2) = CRYPTO_cbc128_decrypt rev m1 40 32 20 (replicate 16 5)
   in load_at m2 32 20 = map of_nat [40..<60] \<and> ivec2 = ivec1"
proof -
  have c: "cipher rev" by (simp add: cipher_def)
  define r where "r = CRYPTO_cbc128_encrypt rev of_nat 40 40 20 (replicate 16 5)"
  define s where "s = CRYPTO_cbc128_decrypt rev (fst r) 40 32 20 (replicate 16 5)"
  have "load_at (fst s) 32 20 = load_at of_nat 40 20 \<and> snd s = snd r \<and>
      (\<forall>a. (a < 40 \<or> 40 + padded 20 \<le> a) \<and> (a < 32 \<or> 32 + 20 \<le> a) \<longrightarrow> fst s a = of_nat a)"
    by (rule cbc_roundtrip [OF c c, of "replicate 16 5"]) (simp_all add: r_def s_def)
  then show ?thesis
    unfolding r_def [symmetric] case_prod_beta Let_def s_def [symmetric] by (simp add: load_at_def)
qed

end
