(* ===== verification/Bn_Words.thy ===== *)
theory Bn_Words
  imports Prelude
begin

unbundle bit_operations_syntax

text \<open>
  Arithmetic on arrays of words, \<^verbatim>\<open>crypto/fipsmodule/bn/generic.c\<close> (the branch with \<^verbatim>\<open>BN_ULLONG\<close>, a 128-bit
  type). The arrays belong to numbers of a store, so that \<^verbatim>\<open>r\<close>, \<^verbatim>\<open>a\<close> and \<^verbatim>\<open>b\<close> may be the same or overlap; a
  pointer is a number and an offset into its array.
\<close>

section \<open>Numbers and their store\<close>

text \<open>\<^verbatim>\<open>struct bignum_st\<close>: the allocated words (\<^verbatim>\<open>dmax\<close> of them), how many are in use, the sign, and the flag
  \<^verbatim>\<open>BN_FLG_STATIC_DATA\<close>.\<close>

record bignum =
  d :: "u64 list"
  width :: nat
  neg :: bool
  static_data :: bool

abbreviation dmax :: "bignum \<Rightarrow> nat" where
  "dmax b \<equiv> length (d b)"

type_synonym u128 = "128 word"
type_synonym bns = "nat \<Rightarrow> bignum"
type_synonym words_ptr = "nat \<times> nat"

definition word_at :: "bns \<Rightarrow> words_ptr \<Rightarrow> nat \<Rightarrow> u64" where
  "word_at h p i = d (h (fst p)) ! (snd p + i)"

definition set_word :: "bns \<Rightarrow> words_ptr \<Rightarrow> nat \<Rightarrow> u64 \<Rightarrow> bns" where
  "set_word h p i w = h(fst p := (h (fst p))\<lparr>d := (d (h (fst p)))[snd p + i := w]\<rparr>)"

definition ptr_add :: "words_ptr \<Rightarrow> nat \<Rightarrow> words_ptr" where
  "ptr_add p i = (fst p, snd p + i)"

lemma ptr_add_simps [simp]:
  "fst (ptr_add p i) = fst p" "snd (ptr_add p i) = snd p + i" "ptr_add (ptr_add p i) j = ptr_add p (i + j)" "ptr_add p 0 = p"
  by (simp_all add: ptr_add_def add.assoc)

section \<open>The code\<close>

text \<open>Loops are unrolled: four words in a round while there are four, then one by one.\<close>

function by_four :: "(nat \<Rightarrow> 's \<Rightarrow> 's) \<Rightarrow> nat \<Rightarrow> nat \<Rightarrow> 's \<Rightarrow> 's" where
  "by_four body i n s =
    (if 4 \<le> n then by_four body (i + 4) (n - 4) (body (i + 3) (body (i + 2) (body (i + 1) (body i s))))
     else if 0 < n then by_four body (i + 1) (n - 1) (body i s)
     else s)"
  by pat_completeness auto
termination
  by (relation "measure (\<lambda>(_, _, n, _). n)") auto

declare by_four.simps [simp del]

text \<open>What is done to one word, with the carry; \<^verbatim>\<open>Lw\<close> and \<^verbatim>\<open>Hw\<close> are the halves of a 128-bit value.\<close>

definition Lw :: "u128 \<Rightarrow> u64" where "Lw t = ucast t"
definition Hw :: "u128 \<Rightarrow> u64" where "Hw t = ucast (drop_bit 64 t)"

definition mul_add :: "u64 \<Rightarrow> u64 \<Rightarrow> u64 \<Rightarrow> u64 \<Rightarrow> u64 \<times> u64" where
  "mul_add r a w c = (let t = (ucast w :: u128) * ucast a + ucast r + ucast c in (Lw t, Hw t))"

definition mul :: "u64 \<Rightarrow> u64 \<Rightarrow> u64 \<Rightarrow> u64 \<times> u64" where
  "mul a w c = (let t = (ucast w :: u128) * ucast a + ucast c in (Lw t, Hw t))"

definition sqr :: "u64 \<Rightarrow> u64 \<times> u64" where
  "sqr a = (let t = (ucast a :: u128) * ucast a in (Lw t, Hw t))"

definition bn_mul_add_words :: "bns \<Rightarrow> words_ptr \<Rightarrow> words_ptr \<Rightarrow> nat \<Rightarrow> u64 \<Rightarrow> bns \<times> u64" where
  "bn_mul_add_words h rp ap num w =
    by_four (\<lambda>i (h, c1). let (r, c1) = mul_add (word_at h rp i) (word_at h ap i) w c1
                         in (set_word h rp i r, c1)) 0 num (h, 0)"

definition bn_mul_words :: "bns \<Rightarrow> words_ptr \<Rightarrow> words_ptr \<Rightarrow> nat \<Rightarrow> u64 \<Rightarrow> bns \<times> u64" where
  "bn_mul_words h rp ap num w =
    by_four (\<lambda>i (h, c1). let (r, c1) = mul (word_at h ap i) w c1
                         in (set_word h rp i r, c1)) 0 num (h, 0)"

definition bn_sqr_words :: "bns \<Rightarrow> words_ptr \<Rightarrow> words_ptr \<Rightarrow> nat \<Rightarrow> bns" where
  "bn_sqr_words h r a n =
    by_four (\<lambda>i h. let (r0, r1) = sqr (word_at h a i)
                   in set_word (set_word h r (2 * i) r0) r (2 * i + 1) r1) 0 n h"

definition bn_add_words :: "bns \<Rightarrow> words_ptr \<Rightarrow> words_ptr \<Rightarrow> words_ptr \<Rightarrow> nat \<Rightarrow> bns \<times> u64" where
  "bn_add_words h r a b n =
    (let (h, ll) = by_four (\<lambda>i (h, ll). let ll = ll + (ucast (word_at h a i) + ucast (word_at h b i))
                                        in (set_word h r i (ucast ll), drop_bit 64 ll)) 0 n (h, 0 :: u128)
     in (h, ucast ll))"

definition bn_sub_words :: "bns \<Rightarrow> words_ptr \<Rightarrow> words_ptr \<Rightarrow> words_ptr \<Rightarrow> nat \<Rightarrow> bns \<times> u64" where
  "bn_sub_words h r a b n =
    by_four (\<lambda>i (h, c). let t1 = word_at h a i; t2 = word_at h b i;
                            h = set_word h r i (t1 - t2 - c);
                            c = (if t1 \<noteq> t2 then (if t1 < t2 then 1 else 0) else c)
                        in (h, c)) 0 n (h, 0)"

section \<open>Arrays as lists\<close>

text \<open>The words from a pointer on, and storing words there.\<close>

definition words_at :: "bns \<Rightarrow> words_ptr \<Rightarrow> nat \<Rightarrow> u64 list" where
  "words_at h p n = take n (drop (snd p) (d (h (fst p))))"

definition put_words :: "bns \<Rightarrow> words_ptr \<Rightarrow> u64 list \<Rightarrow> bns" where
  "put_words h p ws = h(fst p := (h (fst p))\<lparr>d := blit (d (h (fst p))) (snd p) ws\<rparr>)"

text \<open>There are \<open>n\<close> words at a pointer.\<close>

definition in_array :: "bns \<Rightarrow> words_ptr \<Rightarrow> nat \<Rightarrow> bool" where
  "in_array h p n \<longleftrightarrow> snd p + n \<le> dmax (h (fst p))"

text \<open>Writing upwards from \<open>r\<close> does not reach any of the \<open>n\<close> words of \<open>a\<close> that is still to be read; two
  ranges of words have none in common.\<close>

definition ahead :: "words_ptr \<Rightarrow> words_ptr \<Rightarrow> nat \<Rightarrow> bool" where
  "ahead r a n \<longleftrightarrow> fst r \<noteq> fst a \<or> snd r \<le> snd a \<or> snd a + n \<le> snd r"

definition clear_of :: "words_ptr \<Rightarrow> nat \<Rightarrow> words_ptr \<Rightarrow> nat \<Rightarrow> bool" where
  "clear_of p m q n \<longleftrightarrow> fst p \<noteq> fst q \<or> snd p + m \<le> snd q \<or> snd q + n \<le> snd p"

lemma by_four_fold: "by_four body i n s = fold body [i..<i + n] s"
proof (induction body i n s rule: by_four.induct)
  case (1 body i n s)
  consider "4 \<le> n" | "0 < n" "n < 4" | "n = 0" by linarith
  then show ?case
  proof cases
    case 1
    then have "[i..<i + n] = i # (i + 1) # (i + 2) # (i + 3) # [i + 4..<i + n]" by (simp add: upt_conv_Cons eval_nat_numeral)
    then show ?thesis using "1.IH"(1) 1 by (subst by_four.simps) simp
  next
    case 2
    then have "[i..<i + n] = i # [i + 1..<i + n]" by (simp add: upt_conv_Cons)
    then show ?thesis using "1.IH"(2) 2 by (subst by_four.simps) simp
  qed (simp add: by_four.simps)
qed

lemma length_words_at: "in_array h p n \<Longrightarrow> length (words_at h p n) = n"
  by (simp add: in_array_def words_at_def)

lemma nth_words_at: "in_array h p n \<Longrightarrow> i < n \<Longrightarrow> words_at h p n ! i = word_at h p i"
  by (simp add: in_array_def words_at_def word_at_def)

lemma words_at_Suc: "in_array h p (Suc n) \<Longrightarrow> words_at h p (Suc n) = words_at h p n @ [word_at h p n]"
  by (simp add: in_array_def words_at_def word_at_def take_Suc_conv_app_nth)

text \<open>One word after the other: \<open>f\<close> gets the carry and the words of \<open>a\<close>, \<open>b\<close> and \<open>r\<close>.\<close>

fun map_carry :: "('c \<Rightarrow> u64 \<Rightarrow> u64 \<Rightarrow> u64 \<Rightarrow> u64 \<times> 'c) \<Rightarrow> 'c \<Rightarrow> u64 list \<Rightarrow> u64 list \<Rightarrow> u64 list \<Rightarrow> u64 list \<times> 'c" where
  "map_carry f c (x # xs) (y # ys) (z # zs) =
    (let (w, c) = f c x y z; (ws, c) = map_carry f c xs ys zs in (w # ws, c))"
| "map_carry f c _ _ _ = ([], c)"

lemma map_carry_append:
  assumes "length xs = length ys" "length ys = length zs"
  shows "map_carry f c (xs @ [x]) (ys @ [y]) (zs @ [z]) =
    (let (ws, c) = map_carry f c xs ys zs; (w, c) = f c x y z in (ws @ [w], c))"
  using assms by (induction f c xs ys zs rule: map_carry.induct) (auto simp: Let_def split: prod.splits)

lemma length_map_carry:
  "length xs = length ys \<Longrightarrow> length ys = length zs \<Longrightarrow> length (fst (map_carry f c xs ys zs)) = length xs"
  by (induction f c xs ys zs rule: map_carry.induct) (auto simp: Let_def split: prod.splits)

lemma blit_Suc:
  assumes "i + length ws < length xs"
  shows "(blit xs i ws)[i + length ws := w] = blit xs i (ws @ [w])"
proof -
  have "drop (i + length ws) xs = xs ! (i + length ws) # drop (Suc (i + length ws)) xs"
    using assms by (simp add: Cons_nth_drop_Suc)
  then show ?thesis using assms by (simp add: blit_def list_update_append)
qed

lemma put_words_Suc:
  "in_array h p (Suc (length ws)) \<Longrightarrow> set_word (put_words h p ws) p (length ws) w = put_words h p (ws @ [w])"
  by (simp add: set_word_def put_words_def in_array_def blit_Suc)

lemma put_words_Nil [simp]: "put_words h p [] = h"
  by (rule ext) (simp add: put_words_def blit_def)

lemma dmax_put_words: "in_array h p (length ws) \<Longrightarrow> dmax (put_words h p ws q) = dmax (h q)"
  by (simp add: put_words_def in_array_def)

lemma word_at_put_words:
  assumes "ahead p a n" "i < n" "in_array h p (length ws)" "length ws \<le> i" "in_array h a (Suc i)"
  shows "word_at (put_words h p ws) a i = word_at h a i"
  using assms by (auto simp: word_at_def put_words_def ahead_def in_array_def blit_def nth_append)

text \<open>The loops, whatever is done to the words: nothing is read after it was overwritten.\<close>

lemma loop_map_carry:
  assumes "ahead r a N" "ahead r b N" "n \<le> N" "in_array h r n" "in_array h a n" "in_array h b n"
  shows "fold (\<lambda>i (h, c). let (w, c) = f c (word_at h a i) (word_at h b i) (word_at h r i)
                          in (set_word h r i w, c)) [0..<n] (h, c) =
    (let (ws, c) = map_carry f c (words_at h a n) (words_at h b n) (words_at h r n)
     in (put_words h r ws, c))"
  using assms(3-)
proof (induction n)
  case (Suc n)
  have n: "in_array h r n" "in_array h a n" "in_array h b n" using Suc.prems by (simp_all add: in_array_def)
  obtain ws c1 where ws: "map_carry f c (words_at h a n) (words_at h b n) (words_at h r n) = (ws, c1)"
    by fastforce
  have len: "length ws = n"
    using length_map_carry [of "words_at h a n" "words_at h b n" "words_at h r n" f c] ws n by (simp add: length_words_at)
  have r: "ahead r r N" by (simp add: ahead_def)
  have rd: "word_at (put_words h r ws) p n = word_at h p n" if "ahead r p N" "in_array h p (Suc n)" for p
    by (rule word_at_put_words [OF that(1)]) (use n that len Suc.prems(1) in simp_all)
  obtain w c2 where w: "f c1 (word_at h a n) (word_at h b n) (word_at h r n) = (w, c2)" by fastforce
  have "map_carry f c (words_at h a (Suc n)) (words_at h b (Suc n)) (words_at h r (Suc n)) = (ws @ [w], c2)"
    using Suc.prems n by (simp add: words_at_Suc map_carry_append length_words_at ws w)
  moreover have "set_word (put_words h r ws) r n w = put_words h r (ws @ [w])"
    using put_words_Suc [of h r ws w] Suc.prems len by simp
  ultimately show ?case
    using Suc.IH [OF _ n] Suc.prems ws w rd [OF assms(1)] rd [OF assms(2)] rd [OF r] by simp
qed (simp add: words_at_def)

section \<open>Values\<close>

primrec wval :: "u64 list \<Rightarrow> nat" where
  "wval [] = 0"
| "wval (w # ws) = unat w + 2 ^ 64 * wval ws"

lemma wval_append: "wval (xs @ ys) = wval xs + 2 ^ (64 * length xs) * wval ys"
  by (induction xs) (simp_all add: algebra_simps power_add)

lemma wval_bound: "wval ws < 2 ^ (64 * length ws)"
proof (induction ws)
  case (Cons w ws)
  have "wval ws \<le> 2 ^ (64 * length ws) - 1" using Cons by simp
  then have "2 ^ 64 * wval ws \<le> 2 ^ 64 * (2 ^ (64 * length ws) - 1)" by (rule mult_le_mono2)
  moreover have "2 ^ 64 * (2 ^ (64 * length ws) - 1 :: nat) = 2 ^ (64 * length (w # ws)) - 2 ^ 64"
    by (simp add: diff_mult_distrib2 power_add)
  moreover have "(2 :: nat) ^ 64 \<le> 2 ^ (64 * length (w # ws))" by (rule power_increasing) simp_all
  ultimately show ?case using unat_u64_lt [of w] unfolding wval.simps by linarith
qed simp

lemma wval_inject: "length xs = length ys \<Longrightarrow> wval xs = wval ys \<Longrightarrow> xs = ys"
proof (induction xs ys rule: list_induct2)
  case (Cons x xs y ys)
  have "(unat x + 2 ^ 64 * wval xs) mod 2 ^ 64 = (unat y + 2 ^ 64 * wval ys) mod 2 ^ 64" using Cons.prems by simp
  moreover have "unat x mod 2 ^ 64 = unat x" "unat y mod 2 ^ 64 = unat y"
    using unat_u64_lt by (simp_all add: mod_less)
  ultimately have "x = y" by (simp only: mod_mult_self2 word_unat_eq_iff)
  then show ?case using Cons by simp
qed simp

lemma wval_replicate [simp]: "wval (replicate n 0) = 0"
  by (induction n) simp_all

lemma wval_0_iff: "wval ws = 0 \<longleftrightarrow> (\<forall>w \<in> set ws. w = 0)"
  by (induction ws) (auto simp: unat_eq_0)

subsection \<open>One word\<close>

lemma unat_u128_of_u64 [simp]: "unat (ucast (w :: u64) :: u128) = unat w"
  using unat_u64_lt [of w] by (simp add: unsigned_ucast_eq take_bit_nat_eq_self)

lemma halves: "unat (Lw t) + 2 ^ 64 * unat (Hw t) = unat t"
proof -
  have "unat t div 2 ^ 64 < 2 ^ 64" using unsigned_less [of t, where ?'a = nat] by (intro div_less_iff_less_mult [THEN iffD2]) simp_all
  then have "unat (Hw t) = unat t div 2 ^ 64"
    by (simp add: Hw_def unsigned_ucast_eq drop_bit_eq_div take_bit_eq_mod unat_div)
  moreover have "unat (Lw t) = unat t mod 2 ^ 64" by (simp add: Lw_def unsigned_ucast_eq take_bit_eq_mod)
  ultimately show ?thesis by simp
qed

lemma mul_small: "unat (w :: u64) * unat (a :: u64) \<le> (2 ^ 64 - 1) * (2 ^ 64 - 1)"
  using unat_u64_lt [of w] unat_u64_lt [of a] by (intro mult_le_mono) simp_all

lemma mul_add_value:
  assumes "mul_add r a w c = (l, c')"
  shows "unat l + 2 ^ 64 * unat c' = unat w * unat a + unat r + unat c"
proof -
  define t where "t = (ucast w :: u128) * ucast a + ucast r + ucast c"
  have "unat w * unat a + unat r + unat c < 2 ^ 128"
    using mul_small [of w a] unat_u64_lt [of r] unat_u64_lt [of c] by simp
  then have "unat t = unat w * unat a + unat r + unat c"
    by (simp add: t_def unat_word_ariths)
  then show ?thesis using halves [of t] assms by (simp add: mul_add_def t_def [symmetric] Let_def)
qed

lemma mul_is_mul_add: "mul a w c = mul_add 0 a w c"
  by (simp add: mul_def mul_add_def)

lemma sqr_value: "sqr a = (l, u) \<Longrightarrow> unat l + 2 ^ 64 * unat u = unat a * unat a"
  using mul_add_value [of 0 a a 0 l u] by (simp add: sqr_def mul_add_def)

subsection \<open>Arrays\<close>

text \<open>A step that is linear in the words is linear in the numbers.\<close>

lemma map_carry_value:
  assumes "length xs = length ys" "length ys = length zs" "P c"
    and step: "\<And>c x y z w c'. P c \<Longrightarrow> f c x y z = (w, c') \<Longrightarrow>
      P c' \<and> int (unat w) + 2 ^ 64 * val c' = p * int (unat x) + q * int (unat y) + s * int (unat z) + val c"
    and "map_carry f c xs ys zs = (ws, c')"
  shows "P c' \<and> int (wval ws) + 2 ^ (64 * length xs) * val c' =
    p * int (wval xs) + q * int (wval ys) + s * int (wval zs) + val c"
  using assms(1-3,5)
proof (induction xs ys zs arbitrary: c ws rule: list_induct3)
  case (Cons x xs y ys z zs)
  obtain w c1 where w: "f c x y z = (w, c1)" by fastforce
  obtain vs where vs: "map_carry f c1 xs ys zs = (vs, c')" "ws = w # vs"
    using Cons.prems(2) w by (auto split: prod.splits)
  have c1: "P c1" "int (unat w) + 2 ^ 64 * val c1 = p * int (unat x) + q * int (unat y) + s * int (unat z) + val c"
    using step [OF Cons.prems(1) w] by simp_all
  have IH: "P c'" "int (wval vs) + 2 ^ (64 * length xs) * val c' =
      p * int (wval xs) + q * int (wval ys) + s * int (wval zs) + val c1"
    using Cons.IH [OF c1(1) vs(1)] by simp_all
  have "int (wval ws) + 2 ^ (64 * length (x # xs)) * val c' =
      int (unat w) + 2 ^ 64 * (int (wval vs) + 2 ^ (64 * length xs) * val c')"
    by (simp add: vs(2) power_add algebra_simps)
  then show ?case using IH(1) c1(2) unfolding IH(2) by (simp add: algebra_simps)
qed simp

lemma loop_value:
  assumes "ahead r a n" "ahead r b n" "in_array h r n" "in_array h a n" "in_array h b n" "P c"
    and step: "\<And>c x y z w c'. P c \<Longrightarrow> f c x y z = (w, c') \<Longrightarrow>
      P c' \<and> int (unat w) + 2 ^ 64 * val c' = p * int (unat x) + q * int (unat y) + s * int (unat z) + val c"
  obtains ws c' where
    "fold (\<lambda>i (h, c). let (w, c) = f c (word_at h a i) (word_at h b i) (word_at h r i)
                      in (set_word h r i w, c)) [0..<n] (h, c) = (put_words h r ws, c')"
    "length ws = n" "P c'"
    "int (wval ws) + 2 ^ (64 * n) * val c' =
      p * int (wval (words_at h a n)) + q * int (wval (words_at h b n)) + s * int (wval (words_at h r n)) + val c"
proof -
  let ?xs = "words_at h a n" and ?ys = "words_at h b n" and ?zs = "words_at h r n"
  obtain ws c' where ws: "map_carry f c ?xs ?ys ?zs = (ws, c')" by fastforce
  have len: "length ?xs = n" "length ?ys = n" "length ?zs = n" using assms(3-5) by (simp_all add: length_words_at)
  have "length ws = n" using length_map_carry [of ?xs ?ys ?zs f c] ws len by simp
  moreover have "P c' \<and> int (wval ws) + 2 ^ (64 * length ?xs) * val c' =
      p * int (wval ?xs) + q * int (wval ?ys) + s * int (wval ?zs) + val c"
    by (rule map_carry_value [where P = P and f = f and c = c]) (use len assms(6) step ws in auto)
  ultimately show ?thesis
    using that loop_map_carry [OF assms(1,2) order_refl assms(3-5), of f c] ws len by simp
qed

text \<open>The routines: the value of what they write, and of the carry or borrow they return.\<close>

lemma bn_mul_add_words_value:
  assumes "ahead r a n" "in_array h r n" "in_array h a n"
  obtains ws c where "bn_mul_add_words h r a n w = (put_words h r ws, c)" "length ws = n"
    "wval ws + 2 ^ (64 * n) * unat c = unat w * wval (words_at h a n) + wval (words_at h r n)"
proof -
  define f where "f = (\<lambda>c x (y :: u64) z. mul_add z x w c)"
  have step: "True \<and> int (unat l) + 2 ^ 64 * int (unat c') =
      int (unat w) * int (unat x) + 0 * int (unat y) + 1 * int (unat z) + int (unat c)"
    if "f c x y z = (l, c')" for c x y z l c'
    using arg_cong [OF mul_add_value [OF that [unfolded f_def]], of int] by simp
  obtain ws c where *: "fold (\<lambda>i (h, c). let (w, c) = f c (word_at h a i) (word_at h a i) (word_at h r i)
        in (set_word h r i w, c)) [0..<n] (h, 0) = (put_words h r ws, c)"
    "length ws = n" "True"
    "int (wval ws) + 2 ^ (64 * n) * int (unat c) =
      int (unat w) * int (wval (words_at h a n)) + 0 * int (wval (words_at h a n)) + 1 * int (wval (words_at h r n)) + int (unat (0 :: u64))"
    by (rule loop_value [where P = "\<lambda>_. True" and f = f and c = 0 and val = "\<lambda>c. int (unat c)"
        and p = "int (unat w)" and q = 0 and s = 1, OF assms(1) assms(1) assms(2,3,3) TrueI step])
  have "int (wval ws + 2 ^ (64 * n) * unat c) = int (unat w * wval (words_at h a n) + wval (words_at h r n))"
    using *(4) by (simp only: of_nat_simps of_nat_power of_nat_numeral mult_zero_left mult_1 add_0_right unsigned_0)
  then have "wval ws + 2 ^ (64 * n) * unat c = unat w * wval (words_at h a n) + wval (words_at h r n)"
    by (simp only: of_nat_eq_iff)
  then show ?thesis
    using that [of ws c] *(1,2) by (simp add: bn_mul_add_words_def by_four_fold f_def)
qed

lemma bn_mul_words_value:
  assumes "ahead r a n" "in_array h r n" "in_array h a n"
  obtains ws c where "bn_mul_words h r a n w = (put_words h r ws, c)" "length ws = n"
    "wval ws + 2 ^ (64 * n) * unat c = unat w * wval (words_at h a n)"
proof -
  define f where "f = (\<lambda>c x (y :: u64) (z :: u64). mul x w c)"
  have step: "True \<and> int (unat l) + 2 ^ 64 * int (unat c') =
      int (unat w) * int (unat x) + 0 * int (unat y) + 0 * int (unat z) + int (unat c)"
    if "f c x y z = (l, c')" for c x y z l c'
    using arg_cong [OF mul_add_value [OF that [unfolded f_def mul_is_mul_add]], of int] by simp
  obtain ws c where *: "fold (\<lambda>i (h, c). let (w, c) = f c (word_at h a i) (word_at h a i) (word_at h r i)
        in (set_word h r i w, c)) [0..<n] (h, 0) = (put_words h r ws, c)"
    "length ws = n" "True"
    "int (wval ws) + 2 ^ (64 * n) * int (unat c) =
      int (unat w) * int (wval (words_at h a n)) + 0 * int (wval (words_at h a n)) + 0 * int (wval (words_at h r n)) + int (unat (0 :: u64))"
    by (rule loop_value [where P = "\<lambda>_. True" and f = f and c = 0 and val = "\<lambda>c. int (unat c)"
        and p = "int (unat w)" and q = 0 and s = 0, OF assms(1) assms(1) assms(2,3,3) TrueI step])
  have "int (wval ws + 2 ^ (64 * n) * unat c) = int (unat w * wval (words_at h a n))"
    using *(4) by (simp only: of_nat_simps of_nat_power of_nat_numeral mult_zero_left mult_1 add_0_right unsigned_0)
  then have "wval ws + 2 ^ (64 * n) * unat c = unat w * wval (words_at h a n)"
    by (simp only: of_nat_eq_iff)
  then show ?thesis
    using that [of ws c] *(1,2) by (simp add: bn_mul_words_def by_four_fold f_def)
qed

lemma add_step:
  fixes x y :: u64 and ll :: u128
  assumes "unat ll \<le> 1"
  defines "t \<equiv> ll + (ucast (x :: u64) + ucast (y :: u64) :: u128)"
  shows "unat (ucast t :: u64) + 2 ^ 64 * unat (drop_bit 64 t) = unat x + unat y + unat ll" "unat (drop_bit 64 t) \<le> 1"
proof -
  have lt: "unat ll + (unat x + unat y) < 2 ^ 128" "unat ll + (unat x + unat y) < 2 * 2 ^ 64"
    using assms(1) unat_u64_lt [of x] unat_u64_lt [of y] by simp_all
  then have t: "unat t = unat ll + (unat x + unat y)"
    by (simp add: t_def unat_word_ariths)
  have hi: "unat (drop_bit 64 t) = unat t div 2 ^ 64" by (simp add: drop_bit_eq_div unat_div)
  have lo: "unat (ucast t :: u64) = unat t mod 2 ^ 64" by (simp add: unsigned_ucast_eq take_bit_eq_mod)
  show "unat (ucast t :: u64) + 2 ^ 64 * unat (drop_bit 64 t) = unat x + unat y + unat ll"
    unfolding hi lo by (simp only: mod_mult_div_eq t)
  have "unat t div 2 ^ 64 < 2" using lt(2) unfolding t [symmetric] by (rule less_mult_imp_div_less)
  then show "unat (drop_bit 64 t) \<le> 1" unfolding hi by simp
qed

lemma bn_add_words_value:
  assumes "ahead r a n" "ahead r b n" "in_array h r n" "in_array h a n" "in_array h b n"
  obtains ws c where "bn_add_words h r a b n = (put_words h r ws, c)" "length ws = n" "unat c \<le> 1"
    "wval ws + 2 ^ (64 * n) * unat c = wval (words_at h a n) + wval (words_at h b n)"
proof -
  define f where "f = (\<lambda>ll x y (z :: u64). (ucast (ll + (ucast (x :: u64) + ucast (y :: u64) :: u128)) :: u64,
    drop_bit 64 (ll + (ucast x + ucast y))))"
  have step: "unat c' \<le> 1 \<and> int (unat l) + 2 ^ 64 * int (unat c') =
      1 * int (unat x) + 1 * int (unat y) + 0 * int (unat z) + int (unat c)"
    if "unat c \<le> 1" "f c x y z = (l, c')" for c x y z l c'
    using add_step(2) [OF that(1), of x y] arg_cong [OF add_step(1) [OF that(1), of x y], of int] that(2)
    by (auto simp: f_def)
  obtain ws c where *: "fold (\<lambda>i (h, c). let (w, c) = f c (word_at h a i) (word_at h b i) (word_at h r i)
        in (set_word h r i w, c)) [0..<n] (h, 0) = (put_words h r ws, c)"
    "length ws = n" "unat c \<le> 1"
    "int (wval ws) + 2 ^ (64 * n) * int (unat c) =
      1 * int (wval (words_at h a n)) + 1 * int (wval (words_at h b n)) + 0 * int (wval (words_at h r n)) + int (unat (0 :: u128))"
    by (rule loop_value [where P = "\<lambda>c. unat c \<le> 1" and f = f and c = 0 and val = "\<lambda>c. int (unat c)"
        and p = 1 and q = 1 and s = 0, OF assms(1-5) _ step]) simp_all
  have c: "unat (ucast c :: u64) = unat c"
    using *(3) by (simp add: unsigned_ucast_eq take_bit_nat_eq_self)
  have "int (wval ws + 2 ^ (64 * n) * unat c) = int (wval (words_at h a n) + wval (words_at h b n))"
    using *(4) by (simp only: of_nat_simps of_nat_power of_nat_numeral mult_zero_left mult_1 add_0_right unsigned_0)
  then have "wval ws + 2 ^ (64 * n) * unat (ucast c :: u64) = wval (words_at h a n) + wval (words_at h b n)"
    unfolding c by (simp only: of_nat_eq_iff)
  moreover have "bn_add_words h r a b n = (put_words h r ws, ucast c)"
    using *(1) by (simp add: bn_add_words_def by_four_fold f_def Let_def)
  ultimately show ?thesis using that [of ws "ucast c"] *(2,3) c by simp
qed

lemma add_carry:
  fixes x y :: u64
  shows "unat (x + y) + 2 ^ 64 * (if x + y < y then 1 else 0) = unat x + unat y"
proof -
  have s: "unat (x + y) = (unat x + unat y) mod 2 ^ 64" by (simp add: unat_word_ariths)
  show ?thesis
  proof (cases "unat x + unat y < 2 ^ 64")
    case True
    then show ?thesis using s by (simp add: word_less_nat_alt)
  next
    case False
    then have "unat (x + y) = unat x + unat y - 2 ^ 64"
      using s unat_u64_lt [of x] unat_u64_lt [of y] by (simp add: le_mod_geq)
    then show ?thesis using False unat_u64_lt [of x] by (simp add: word_less_nat_alt)
  qed
qed

lemma sub_step:
  fixes x y c :: u64
  assumes "c = 0 \<or> c = 1"
  defines "c' \<equiv> if x \<noteq> y then (if x < y then 1 else 0) else c"
  shows "int (unat (x - y - c)) - 2 ^ 64 * int (unat c') = int (unat x) - int (unat y) - int (unat c)"
    "c' = 0 \<or> c' = 1"
proof -
  have u: "uint (x - y - c) = (uint x - uint y - uint c) mod 2 ^ 64"
    by (simp add: uint_word_ariths mod_simps)
  have b: "0 \<le> uint x" "uint x < 2 ^ 64" "0 \<le> uint y" "uint y < 2 ^ 64" "0 \<le> uint c" "uint c \<le> 1"
    using assms(1) uint_bounded [of x] uint_bounded [of y] by auto
  consider "x = y" "c = 0" | "x = y" "c = 1" | "x < y" | "y < x" using assms(1) by fastforce
  then have "uint (x - y - c) - 2 ^ 64 * uint c' = uint x - uint y - uint c"
  proof cases
    case 3
    then have "uint x < uint y" by (simp add: word_less_def)
    have "c' = 1" using 3 by (auto simp: c'_def)
    have "(uint x - uint y - uint c + 2 ^ 64) mod 2 ^ 64 = uint x - uint y - uint c + 2 ^ 64"
      by (rule mod_pos_pos_trivial) (use b \<open>uint x < uint y\<close> in linarith)+
    then show ?thesis using u \<open>c' = 1\<close> by simp
  next
    case 4
    then have "uint y < uint x" by (simp add: word_less_def)
    have "c' = 0" using 4 by (auto simp: c'_def)
    have "(uint x - uint y - uint c) mod 2 ^ 64 = uint x - uint y - uint c"
      by (rule mod_pos_pos_trivial) (use b \<open>uint y < uint x\<close> in linarith)+
    then show ?thesis using u \<open>c' = 0\<close> by simp
  qed (simp_all add: c'_def unsigned_minus_1_eq_mask mask_eq_exp_minus_1)
  then show "int (unat (x - y - c)) - 2 ^ 64 * int (unat c') = int (unat x) - int (unat y) - int (unat c)" by simp
  show "c' = 0 \<or> c' = 1" using assms(1) by (simp add: c'_def)
qed

lemma bn_sub_words_value:
  assumes "ahead r a n" "ahead r b n" "in_array h r n" "in_array h a n" "in_array h b n"
  obtains ws c where "bn_sub_words h r a b n = (put_words h r ws, c)" "length ws = n" "c = 0 \<or> c = 1"
    "wval ws + wval (words_at h b n) = wval (words_at h a n) + 2 ^ (64 * n) * unat c"
proof -
  define f where "f = (\<lambda>c x y (z :: u64). (x - y - c, if x \<noteq> y then (if x < y then 1 else 0) else c :: u64))"
  have step: "(c' = 0 \<or> c' = 1) \<and> int (unat l) + 2 ^ 64 * (- int (unat c')) =
      1 * int (unat x) + (- 1) * int (unat y) + 0 * int (unat z) + (- int (unat c))"
    if "c = 0 \<or> c = 1" "f c x y z = (l, c')" for c x y z l c'
    using sub_step [OF that(1), of x y] that(2) by (auto simp: f_def)
  obtain ws c where *: "fold (\<lambda>i (h, c). let (w, c) = f c (word_at h a i) (word_at h b i) (word_at h r i)
        in (set_word h r i w, c)) [0..<n] (h, 0) = (put_words h r ws, c)"
    "length ws = n" "c = 0 \<or> c = 1"
    "int (wval ws) + 2 ^ (64 * n) * (- int (unat c)) =
      1 * int (wval (words_at h a n)) + (- 1) * int (wval (words_at h b n)) + 0 * int (wval (words_at h r n))
      + (- int (unat (0 :: u64)))"
    by (rule loop_value [where P = "\<lambda>c. c = 0 \<or> c = 1" and f = f and c = 0 and val = "\<lambda>c. - int (unat c)"
        and p = 1 and q = "- 1" and s = 0, OF assms(1-5) _ step]) simp_all
  have "int (wval ws + wval (words_at h b n)) = int (wval (words_at h a n) + 2 ^ (64 * n) * unat c)"
    using *(4) by simp
  then have "wval ws + wval (words_at h b n) = wval (words_at h a n) + 2 ^ (64 * n) * unat c"
    by (simp only: of_nat_eq_iff)
  then show ?thesis
    using that [of ws c] *(1-3) by (simp add: bn_sub_words_def by_four_fold f_def Let_def)
qed

end
