(* ===== verification/Bn_Comba.thy ===== *)
theory Bn_Comba
  imports Bn_Words
begin

text \<open>
  Multiplication and squaring of four and eight words by columns (\<^verbatim>\<open>bn_mul_comba8\<close> and its kin in
  \<^verbatim>\<open>crypto/fipsmodule/bn/generic.c\<close>): all products that belong to one result word are added up in three
  words. The order of the products is the order of the source.
\<close>

section \<open>The code\<close>

text \<open>The three words of a column, least significant first.\<close>

type_synonym column = "u64 \<times> u64 \<times> u64"

fun mul_add_c :: "u64 \<Rightarrow> u64 \<Rightarrow> column \<Rightarrow> column" where
  "mul_add_c a b (c0, c1, c2) =
    (let t = (ucast a :: u128) * ucast b;
         t = t + ucast c0;
         c0 = Lw t;
         hi = Hw t;
         c1 = c1 + hi;
         c2 = (if c1 < hi then c2 + 1 else c2)
     in (c0, c1, c2))"

fun mul_add_c2 :: "u64 \<Rightarrow> u64 \<Rightarrow> column \<Rightarrow> column" where
  "mul_add_c2 a b (c0, c1, c2) =
    (let t = (ucast a :: u128) * ucast b;
         tt = t + ucast c0;
         c0 = Lw tt;
         hi = Hw tt;
         c1 = c1 + hi;
         c2 = (if c1 < hi then c2 + 1 else c2);
         t = t + ucast c0;
         c0 = Lw t;
         hi = Hw t;
         c1 = c1 + hi;
         c2 = (if c1 < hi then c2 + 1 else c2)
     in (c0, c1, c2))"

definition sqr_add :: "(nat \<Rightarrow> u64) \<Rightarrow> nat \<times> nat \<Rightarrow> column \<Rightarrow> column" where
  "sqr_add a = (\<lambda>(i, j) c. if i = j then mul_add_c (a i) (a i) c else mul_add_c2 (a i) (a j) c)"

text \<open>After a column its lowest word goes to \<^verbatim>\<open>r[k]\<close>, and the others move down.\<close>

fun comba :: "(bns \<Rightarrow> nat \<times> nat \<Rightarrow> column \<Rightarrow> column) \<Rightarrow> words_ptr \<Rightarrow> nat \<Rightarrow> (nat \<times> nat) list list \<Rightarrow> bns \<times> column \<Rightarrow> bns \<times> column" where
  "comba add r k [] hc = hc"
| "comba add r k (ps # pss) (h, c) =
    (let (c0, c1, c2) = fold (add h) ps c
     in comba add r (k + 1) pss (set_word h r k c0, (c1, c2, 0)))"

definition comba_words :: "(bns \<Rightarrow> nat \<times> nat \<Rightarrow> column \<Rightarrow> column) \<Rightarrow> (nat \<times> nat) list list \<Rightarrow> bns \<Rightarrow> words_ptr \<Rightarrow> bns" where
  "comba_words add columns h r =
    (let (h, (c1, c2, c3)) = comba add r 0 columns (h, (0, 0, 0)) in set_word h r (length columns) c1)"

definition mul_columns8 :: "(nat \<times> nat) list list" where
  "mul_columns8 =
    [[(0, 0)],
     [(0, 1), (1, 0)],
     [(2, 0), (1, 1), (0, 2)],
     [(0, 3), (1, 2), (2, 1), (3, 0)],
     [(4, 0), (3, 1), (2, 2), (1, 3), (0, 4)],
     [(0, 5), (1, 4), (2, 3), (3, 2), (4, 1), (5, 0)],
     [(6, 0), (5, 1), (4, 2), (3, 3), (2, 4), (1, 5), (0, 6)],
     [(0, 7), (1, 6), (2, 5), (3, 4), (4, 3), (5, 2), (6, 1), (7, 0)],
     [(7, 1), (6, 2), (5, 3), (4, 4), (3, 5), (2, 6), (1, 7)],
     [(2, 7), (3, 6), (4, 5), (5, 4), (6, 3), (7, 2)],
     [(7, 3), (6, 4), (5, 5), (4, 6), (3, 7)],
     [(4, 7), (5, 6), (6, 5), (7, 4)],
     [(7, 5), (6, 6), (5, 7)],
     [(6, 7), (7, 6)],
     [(7, 7)]]"

definition bn_mul_comba8 :: "bns \<Rightarrow> words_ptr \<Rightarrow> words_ptr \<Rightarrow> words_ptr \<Rightarrow> bns" where
  "bn_mul_comba8 h r a b =
    comba_words (\<lambda>h (i, j). mul_add_c (word_at h a i) (word_at h b j)) mul_columns8 h r"

definition mul_columns4 :: "(nat \<times> nat) list list" where
  "mul_columns4 =
    [[(0, 0)],
     [(0, 1), (1, 0)],
     [(2, 0), (1, 1), (0, 2)],
     [(0, 3), (1, 2), (2, 1), (3, 0)],
     [(3, 1), (2, 2), (1, 3)],
     [(2, 3), (3, 2)],
     [(3, 3)]]"

definition bn_mul_comba4 :: "bns \<Rightarrow> words_ptr \<Rightarrow> words_ptr \<Rightarrow> words_ptr \<Rightarrow> bns" where
  "bn_mul_comba4 h r a b =
    comba_words (\<lambda>h (i, j). mul_add_c (word_at h a i) (word_at h b j)) mul_columns4 h r"

text \<open>In the squares a pair of different indices stands for \<^verbatim>\<open>sqr_add_c2\<close>.\<close>

definition sqr_columns8 :: "(nat \<times> nat) list list" where
  "sqr_columns8 =
    [[(0, 0)],
     [(1, 0)],
     [(1, 1), (2, 0)],
     [(3, 0), (2, 1)],
     [(2, 2), (3, 1), (4, 0)],
     [(5, 0), (4, 1), (3, 2)],
     [(3, 3), (4, 2), (5, 1), (6, 0)],
     [(7, 0), (6, 1), (5, 2), (4, 3)],
     [(4, 4), (5, 3), (6, 2), (7, 1)],
     [(7, 2), (6, 3), (5, 4)],
     [(5, 5), (6, 4), (7, 3)],
     [(7, 4), (6, 5)],
     [(6, 6), (7, 5)],
     [(7, 6)],
     [(7, 7)]]"

definition bn_sqr_comba8 :: "bns \<Rightarrow> words_ptr \<Rightarrow> words_ptr \<Rightarrow> bns" where
  "bn_sqr_comba8 h r a = comba_words (\<lambda>h. sqr_add (word_at h a)) sqr_columns8 h r"

definition sqr_columns4 :: "(nat \<times> nat) list list" where
  "sqr_columns4 =
    [[(0, 0)],
     [(1, 0)],
     [(1, 1), (2, 0)],
     [(3, 0), (2, 1)],
     [(2, 2), (3, 1)],
     [(3, 2)],
     [(3, 3)]]"

definition bn_sqr_comba4 :: "bns \<Rightarrow> words_ptr \<Rightarrow> words_ptr \<Rightarrow> bns" where
  "bn_sqr_comba4 h r a = comba_words (\<lambda>h. sqr_add (word_at h a)) sqr_columns4 h r"

section \<open>One product\<close>

fun column_val :: "column \<Rightarrow> nat" where
  "column_val (c0, c1, c2) = unat c0 + 2 ^ 64 * unat c1 + 2 ^ 128 * unat c2"

lemma mul_add_c_value:
  assumes "column_val c + unat a * unat b < 2 ^ 192"
  shows "column_val (mul_add_c a b c) = column_val c + unat a * unat b"
proof -
  obtain c0 c1 c2 where c: "c = (c0, c1, c2)" by (cases c)
  define t where "t = (ucast a :: u128) * ucast b + ucast c0"
  have "unat a * unat b + unat c0 < 2 ^ 128" using mul_small [of a b] unat_u64_lt [of c0] by simp
  then have "unat t = unat a * unat b + unat c0" by (simp add: t_def unat_word_ariths)
  then have lo: "unat (Lw t) + 2 ^ 64 * unat (Hw t) = unat a * unat b + unat c0" using halves [of t] by simp
  define k :: nat where "k = (if c1 + Hw t < Hw t then 1 else 0)"
  have mid: "unat (c1 + Hw t) + 2 ^ 64 * k = unat c1 + unat (Hw t)"
    using add_carry [of c1 "Hw t"] by (simp only: k_def)
  have "2 ^ 128 * (unat c2 + k) < 2 ^ 128 * 2 ^ 64"
  proof -
    have "2 ^ 128 * (unat c2 + k) \<le> unat (Lw t) + 2 ^ 64 * unat (c1 + Hw t) + 2 ^ 128 * (unat c2 + k)" by simp
    also have "\<dots> = unat (Lw t) + 2 ^ 64 * (unat (c1 + Hw t) + 2 ^ 64 * k) + 2 ^ 128 * unat c2" by simp
    also have "\<dots> = column_val c + unat a * unat b"
      unfolding mid c column_val.simps using lo by simp
    finally show ?thesis using assms by simp
  qed
  then have "unat c2 + k < 2 ^ 64" by simp
  then have "unat (if c1 + Hw t < Hw t then c2 + 1 else c2) = unat c2 + k"
    by (cases "c1 + Hw t < Hw t") (simp_all add: k_def unat_word_ariths)
  then have "column_val (mul_add_c a b c) = unat (Lw t) + 2 ^ 64 * unat (c1 + Hw t) + 2 ^ 128 * (unat c2 + k)"
    by (simp add: c Let_def t_def [symmetric])
  also have "\<dots> = unat (Lw t) + 2 ^ 64 * (unat (c1 + Hw t) + 2 ^ 64 * k) + 2 ^ 128 * unat c2" by simp
  also have "\<dots> = column_val c + unat a * unat b"
    unfolding mid c column_val.simps using lo by simp
  finally show ?thesis .
qed

lemma mul_add_c2_twice: "mul_add_c2 a b c = mul_add_c a b (mul_add_c a b c)"
  by (cases c) (simp add: Let_def)

lemma mul_add_c_commute: "mul_add_c a b c = mul_add_c b a c"
  by (cases c) (simp add: mult.commute)

text \<open>So a square's column is a product's column in which a pair of different indices stands twice.\<close>

definition both :: "nat \<times> nat \<Rightarrow> (nat \<times> nat) list" where
  "both = (\<lambda>(i, j). if i = j then [(i, j)] else [(i, j), (j, i)])"

lemma sqr_add_both: "sqr_add a p c = fold (\<lambda>(i, j). mul_add_c (a i) (a j)) (both p) c"
  by (cases p) (auto simp: sqr_add_def both_def mul_add_c2_twice mul_add_c_commute)

lemma fold_sqr_add:
  "fold (sqr_add a) ps c = fold (\<lambda>(i, j). mul_add_c (a i) (a j)) (concat (map both ps)) c"
  by (induction ps arbitrary: c) (simp_all add: sqr_add_both)

section \<open>Columns\<close>

definition products :: "(nat \<Rightarrow> u64) \<Rightarrow> (nat \<Rightarrow> u64) \<Rightarrow> (nat \<times> nat) list \<Rightarrow> nat" where
  "products a b ps = sum_list (map (\<lambda>(i, j). unat (a i) * unat (b j)) ps)"

lemma products_bound: "products a b ps \<le> length ps * (2 ^ 64 - 1) * (2 ^ 64 - 1)"
proof (induction ps)
  case (Cons p ps)
  have "unat (a (fst p)) * unat (b (snd p)) \<le> (2 ^ 64 - 1) * (2 ^ 64 - 1)" by (rule mul_small)
  then show ?case using Cons by (simp add: products_def split_beta)
qed (simp add: products_def)

lemma column_products:
  "column_val c + products a b ps < 2 ^ 192 \<Longrightarrow>
   column_val (fold (\<lambda>(i, j). mul_add_c (a i) (b j)) ps c) = column_val c + products a b ps"
proof (induction ps arbitrary: c)
  case (Cons p ps)
  obtain i j where p: "p = (i, j)" by fastforce
  have "column_val (mul_add_c (a i) (b j) c) = column_val c + unat (a i) * unat (b j)"
    by (rule mul_add_c_value) (use Cons.prems in \<open>simp add: products_def p\<close>)
  then show ?case using Cons.IH [of "mul_add_c (a i) (b j) c"] Cons.prems by (simp add: products_def p)
qed (simp add: products_def)

text \<open>The words that the columns leave behind, as a list; the array is written from \<open>r\<close> upwards.\<close>

fun comba_list :: "(nat \<times> nat \<Rightarrow> column \<Rightarrow> column) \<Rightarrow> (nat \<times> nat) list list \<Rightarrow> column \<Rightarrow> u64 list \<times> column" where
  "comba_list add [] c = ([], c)"
| "comba_list add (ps # pss) c =
    (let (c0, c1, c2) = fold add ps c; (ws, c) = comba_list add pss (c1, c2, 0) in (c0 # ws, c))"

lemma length_comba_list: "length (fst (comba_list add pss c)) = length pss"
  by (induction pss arbitrary: c) (simp_all add: Let_def split_beta)

lemma comba_comba_list:
  assumes "\<And>ws p. length ws \<le> n \<Longrightarrow> p \<in> set (concat pss) \<Longrightarrow> add (put_words h r ws) p = add h p"
    "in_array h r n" "length ws + length pss \<le> n"
  shows "comba add r (length ws) pss (put_words h r ws, c) =
    (let (vs, c) = comba_list (add h) pss c in (put_words h r (ws @ vs), c))"
  using assms(1,3)
proof (induction pss arbitrary: ws c)
  case (Cons ps pss)
  obtain c0 c1 c2 where c: "fold (add h) ps c = (c0, c1, c2)" by (cases "fold (add h) ps c")
  have "in_array h r (Suc (length ws))" using assms(2) Cons.prems by (simp add: in_array_def)
  then have "set_word (put_words h r ws) r (length ws) c0 = put_words h r (ws @ [c0])" by (rule put_words_Suc)
  moreover have "fold (add (put_words h r ws)) ps c = fold (add h) ps c"
    by (rule fold_cong) (use Cons.prems in simp_all)
  ultimately show ?case
    using Cons.IH [of "ws @ [c0]" "(c1, c2, 0)"] Cons.prems c by (simp add: split_beta Let_def)
qed simp

fun weigh :: "nat list \<Rightarrow> nat" where
  "weigh [] = 0"
| "weigh (x # xs) = x + 2 ^ 64 * weigh xs"

lemma comba_list_value:
  assumes "\<forall>ps \<in> set pss. length ps \<le> 8" "column_val c < 2 ^ 128"
    "comba_list (\<lambda>(i, j). mul_add_c (a i) (b j)) pss c = (ws, c')"
  shows "wval ws + 2 ^ (64 * length pss) * column_val c' = weigh (map (products a b) pss) + column_val c \<and>
    column_val c' < 2 ^ 128"
  using assms
proof (induction pss arbitrary: c ws)
  case (Cons ps pss)
  obtain c0 c1 c2 where c: "fold (\<lambda>(i, j). mul_add_c (a i) (b j)) ps c = (c0, c1, c2)"
    by (cases "fold (\<lambda>(i, j). mul_add_c (a i) (b j)) ps c")
  obtain vs where vs: "comba_list (\<lambda>(i, j). mul_add_c (a i) (b j)) pss (c1, c2, 0) = (vs, c')" "ws = c0 # vs"
    using Cons.prems(3) c by (auto split: prod.splits)
  have "products a b ps \<le> 8 * (2 ^ 64 - 1) * (2 ^ 64 - 1)"
    using products_bound [of a b ps] Cons.prems(1) mult_le_mono1 [of "length ps" 8 "(2 ^ 64 - 1) * (2 ^ 64 - 1)"]
    by (simp only: list.set_intros mult.assoc) (meson le_trans)
  then have "column_val c + products a b ps < 2 ^ 192" using Cons.prems(2) by simp
  then have sum: "unat c0 + 2 ^ 64 * unat c1 + 2 ^ 128 * unat c2 = column_val c + products a b ps"
    using column_products [of c a b ps] c by simp
  have "column_val (c1, c2, 0) < 2 ^ 128" using unat_u64_lt [of c1] unat_u64_lt [of c2] by simp
  then have IH: "wval vs + 2 ^ (64 * length pss) * column_val c' = weigh (map (products a b) pss) + column_val (c1, c2, 0)"
    "column_val c' < 2 ^ 128"
    using Cons.IH [OF _ _ vs(1)] Cons.prems(1) by simp_all
  have "wval ws + 2 ^ (64 * length (ps # pss)) * column_val c' =
      unat c0 + 2 ^ 64 * (wval vs + 2 ^ (64 * length pss) * column_val c')"
    by (simp add: vs(2) power_add algebra_simps)
  also have "\<dots> = (unat c0 + 2 ^ 64 * unat c1 + 2 ^ 128 * unat c2) + 2 ^ 64 * weigh (map (products a b) pss)"
    unfolding IH(1) by simp
  finally show ?case using IH(2) unfolding sum by simp
qed simp

section \<open>The whole product\<close>

text \<open>Every pair of indices below \<open>n\<close> stands in the column of its sum, exactly once.\<close>

definition covers :: "nat \<Rightarrow> (nat \<times> nat) list list \<Rightarrow> bool" where
  "covers n pss \<longleftrightarrow> length pss + 1 = 2 * n \<and> (\<forall>ps \<in> set pss. length ps \<le> 8) \<and>
    list_all2 (\<lambda>k ps. \<forall>(i, j) \<in> set ps. i + j = k) [0..<length pss] pss \<and>
    distinct (concat pss) \<and> set (concat pss) = {0..<n} \<times> {0..<n}"

lemma coversD:
  assumes "covers n pss"
  shows "length pss + 1 = 2 * n" "\<forall>ps \<in> set pss. length ps \<le> 8"
    "\<And>ps p. ps \<in> set pss \<Longrightarrow> p \<in> set ps \<Longrightarrow> fst p < n \<and> snd p < n"
proof -
  show "length pss + 1 = 2 * n" "\<forall>ps \<in> set pss. length ps \<le> 8"
    using assms unfolding covers_def by blast+
  fix ps p assume "ps \<in> set pss" "p \<in> set ps"
  then have "p \<in> set (concat pss)" by auto
  also have "\<dots> = {0..<n} \<times> {0..<n}" using assms unfolding covers_def by blast
  finally show "fst p < n \<and> snd p < n" by auto
qed

lemma weigh_columns:
  assumes "list_all2 (\<lambda>k ps. \<forall>(i, j) \<in> set ps. i + j = k) [m..<m + length pss] pss"
  shows "2 ^ (64 * m) * weigh (map (products a b) pss) =
    sum_list (map (\<lambda>(i, j). 2 ^ (64 * (i + j)) * (unat (a i) * unat (b j))) (concat pss))"
  using assms
proof (induction pss arbitrary: m rule: list.induct)
  case (Cons ps pss)
  have up: "[m..<m + length (ps # pss)] = m # [Suc m..<Suc m + length pss]"
    by (subst upt_rec) simp
  have ps: "\<forall>(i, j) \<in> set ps. i + j = m" using Cons.prems unfolding up by simp
  have IH: "2 ^ (64 * Suc m) * weigh (map (products a b) pss) =
      sum_list (map (\<lambda>(i, j). 2 ^ (64 * (i + j)) * (unat (a i) * unat (b j))) (concat pss))"
    using Cons.IH [of "Suc m"] Cons.prems unfolding up by simp
  have "2 ^ (64 * m) * products a b ps =
      sum_list (map (\<lambda>(i, j). 2 ^ (64 * m) * (unat (a i) * unat (b j))) ps)"
    by (induction ps) (auto simp: products_def distrib_left)
  also have "\<dots> = sum_list (map (\<lambda>(i, j). 2 ^ (64 * (i + j)) * (unat (a i) * unat (b j))) ps)"
    using ps by (intro arg_cong [of _ _ sum_list] map_cong) auto
  finally show ?case using IH by (simp add: distrib_left power_add mult.assoc)
qed simp

lemma wval_as_sum: "wval xs = (\<Sum>i<length xs. 2 ^ (64 * i) * unat (xs ! i))"
proof (induction xs rule: rev_induct)
  case (snoc x xs)
  then show ?case by (simp add: wval_append nth_append)
qed simp

lemma covers_product:
  assumes "covers n pss" "length xs = n" "length ys = n"
  shows "weigh (map (products ((!) xs) ((!) ys)) pss) = wval xs * wval ys"
proof -
  have "weigh (map (products ((!) xs) ((!) ys)) pss) =
      sum_list (map (\<lambda>(i, j). 2 ^ (64 * (i + j)) * (unat (xs ! i) * unat (ys ! j))) (concat pss))"
    using weigh_columns [of 0 pss "(!) xs" "(!) ys"] assms(1) by (simp add: covers_def)
  also have "\<dots> = (\<Sum>(i, j) \<in> {0..<n} \<times> {0..<n}. 2 ^ (64 * (i + j)) * (unat (xs ! i) * unat (ys ! j)))"
    using assms(1) by (simp add: covers_def sum_list_distinct_conv_sum_set)
  also have "\<dots> = (\<Sum>i = 0..<n. \<Sum>j = 0..<n. (2 ^ (64 * i) * unat (xs ! i)) * (2 ^ (64 * j) * unat (ys ! j)))"
    unfolding sum.cartesian_product by (intro sum.cong) (auto simp: power_add distrib_left ac_simps)
  also have "\<dots> = wval xs * wval ys"
    unfolding wval_as_sum assms(2,3) atLeast0LessThan by (simp add: sum_product)
  finally show ?thesis .
qed

lemma comba_words_product:
  assumes "covers n pss" "in_array h r (2 * n)" "in_array h a n" "in_array h b n"
    "clear_of r (2 * n) a n" "clear_of r (2 * n) b n" "0 < n"
  obtains ws where "comba_words (\<lambda>h (i, j). mul_add_c (word_at h a i) (word_at h b j)) pss h r = put_words h r ws"
    "length ws = 2 * n" "wval ws = wval (words_at h a n) * wval (words_at h b n)"
proof -
  let ?add = "\<lambda>h (i, j). mul_add_c (word_at h a i) (word_at h b j)"
  let ?xs = "words_at h a n" and ?ys = "words_at h b n"
  have len: "length ?xs = n" "length ?ys = n" "length pss + 1 = 2 * n"
    by (rule length_words_at [OF assms(3)], rule length_words_at [OF assms(4)], rule coversD(1) [OF assms(1)])
  have word: "word_at (put_words h r ws) p i = word_at h p i"
    if "length ws \<le> 2 * n" "clear_of r (2 * n) p n" "in_array h p n" "i < n" for ws p i
    using that assms(2) by (auto simp: word_at_def put_words_def clear_of_def in_array_def blit_def nth_append)
  have keep: "?add (put_words h r ws) p = ?add h p" if lw: "length ws \<le> 2 * n" and mem: "p \<in> set (concat pss)" for ws p
  proof -
    obtain i j where p: "p = (i, j)" by fastforce
    obtain ps where "ps \<in> set pss" "p \<in> set ps" using mem unfolding set_concat by blast
    then have "i < n" "j < n" using coversD(3) [OF assms(1)] p by fastforce+
    then show ?thesis
      by (simp only: p case_prod_conv word [OF lw assms(5,3)] word [OF lw assms(6,4)])
  qed
  obtain vs c0 c1 c2 where vs: "comba_list (?add h) pss (0, 0, 0) = (vs, (c0, c1, c2))"
    by (cases "comba_list (?add h) pss (0, 0, 0)") auto
  have lv: "length vs = length pss" using length_comba_list [of "?add h" pss "(0, 0, 0)"] vs by simp
  have run: "comba ?add r 0 pss (h, (0, 0, 0)) = (put_words h r vs, (c0, c1, c2))"
    using comba_comba_list [where add = ?add and ws = "[]" and n = "2 * n", OF keep assms(2)] len(3) vs by simp
  have inr: "in_array h r (Suc (length vs))" using assms(2) lv len(3) by simp
  have words: "comba_words ?add pss h r = put_words h r (vs @ [c0])"
    using run put_words_Suc [OF inr] lv by (simp add: comba_words_def)
  text \<open>Outside the columns the indices do not matter, so that the words may be taken from the lists.\<close>
  have "products (word_at h a) (word_at h b) ps = products ((!) ?xs) ((!) ?ys) ps" if "ps \<in> set pss" for ps
    unfolding products_def
    by (intro map_cong arg_cong [of _ _ sum_list] refl)
      (use coversD(3) [OF assms(1) that] in \<open>auto simp: nth_words_at [OF assms(3)] nth_words_at [OF assms(4)]\<close>)
  then have prods: "map (products (word_at h a) (word_at h b)) pss = map (products ((!) ?xs) ((!) ?ys)) pss"
    by (rule map_cong [OF refl])
  define X where "X = unat c1 + 2 ^ 64 * unat c2"
  have "wval vs + 2 ^ (64 * length pss) * column_val (c0, c1, c2) = wval ?xs * wval ?ys"
    using comba_list_value [OF coversD(2) [OF assms(1)] _ vs] unfolding prods covers_product [OF assms(1) len(1,2)]
    by simp
  then have val: "wval vs + 2 ^ (64 * length pss) * (unat c0 + 2 ^ 64 * X) = wval ?xs * wval ?ys"
    by (simp add: X_def add.assoc)
  have exp: "(2 :: nat) ^ (64 * (2 * n)) = 2 ^ (64 * length pss) * 2 ^ 64"
    unfolding len(3) [symmetric] by (simp add: power_add)
  have total: "wval (vs @ [c0]) + 2 ^ (64 * (2 * n)) * X = wval ?xs * wval ?ys"
    unfolding val [symmetric] exp by (simp add: wval_append lv distrib_left mult.assoc)
  have "wval ?xs * wval ?ys < 2 ^ (64 * n) * 2 ^ (64 * n)"
    using wval_bound [of ?xs] wval_bound [of ?ys] unfolding len(1,2) by (rule mult_strict_mono) simp_all
  also have "(2 :: nat) ^ (64 * n) * 2 ^ (64 * n) = 2 ^ (64 * (2 * n))"
    by (simp only: power_add [symmetric] mult_2 distrib_left)
  finally have "2 ^ (64 * (2 * n)) * X < 2 ^ (64 * (2 * n)) * 1" using total by linarith
  then have "X = 0" by simp
  then show ?thesis using that [OF words] lv len(3) total by simp
qed

lemma covers_columns: "covers 8 mul_columns8" "covers 4 mul_columns4"
  "covers 8 (map (concat \<circ> map both) sqr_columns8)" "covers 4 (map (concat \<circ> map both) sqr_columns4)"
  by code_simp+

lemma mul_comba_columns:
  "bn_mul_comba8 h r a b = comba_words (\<lambda>h (i, j). mul_add_c (word_at h a i) (word_at h b j)) mul_columns8 h r"
  "bn_mul_comba4 h r a b = comba_words (\<lambda>h (i, j). mul_add_c (word_at h a i) (word_at h b j)) mul_columns4 h r"
  by (simp_all add: bn_mul_comba8_def bn_mul_comba4_def)

lemma comba_sqr:
  "comba (\<lambda>h. sqr_add (word_at h a)) r k pss hc =
   comba (\<lambda>h (i, j). mul_add_c (word_at h a i) (word_at h a j)) r k (map (concat \<circ> map both) pss) hc"
  by (induction "\<lambda>h. sqr_add (word_at h a)" r k pss hc rule: comba.induct)
    (simp_all add: fold_sqr_add split: prod.splits)

lemma sqr_comba_columns:
  "bn_sqr_comba8 h r a = comba_words (\<lambda>h (i, j). mul_add_c (word_at h a i) (word_at h a j))
     (map (concat \<circ> map both) sqr_columns8) h r"
  "bn_sqr_comba4 h r a = comba_words (\<lambda>h (i, j). mul_add_c (word_at h a i) (word_at h a j))
     (map (concat \<circ> map both) sqr_columns4) h r"
  by (simp_all add: bn_sqr_comba8_def bn_sqr_comba4_def comba_words_def comba_sqr)

text \<open>What a routine has to do that multiplies arrays of \<open>n\<close> words.\<close>

definition writes_product :: "bns \<Rightarrow> words_ptr \<Rightarrow> words_ptr \<Rightarrow> words_ptr \<Rightarrow> nat \<Rightarrow> bns \<Rightarrow> bool" where
  "writes_product h r a b n h' \<longleftrightarrow>
    (\<exists>ws. h' = put_words h r ws \<and> length ws = 2 * n \<and> wval ws = wval (words_at h a n) * wval (words_at h b n))"

lemma writes_product_comba:
  assumes "covers n pss" "0 < n" "in_array h r (2 * n)" "in_array h a n" "in_array h b n"
    "clear_of r (2 * n) a n" "clear_of r (2 * n) b n"
  shows "writes_product h r a b n (comba_words (\<lambda>h (i, j). mul_add_c (word_at h a i) (word_at h b j)) pss h r)"
  unfolding writes_product_def
  by (rule comba_words_product [OF assms(1,3-7,2)]) blast

text \<open>C24: the unrolled multiplications are multiplication. For any words, \<open>bn_mul_comba8\<close> and \<open>bn_mul_comba4\<close>
  write exactly the 16 or 8 words of the product of the two numbers, and \<open>bn_sqr_comba8\<close> and
  \<open>bn_sqr_comba4\<close> those of the square: every pair of words is in the column of its weight once, the
  three words of a column never overflow, and nothing else of the store changes. The operands may be
  anywhere that the result is not, also in the same array.\<close>

theorem comba_exact:
  shows "(in_array h r 16 \<and> in_array h a 8 \<and> in_array h b 8 \<and> clear_of r 16 a 8 \<and> clear_of r 16 b 8 \<longrightarrow>
      writes_product h r a b 8 (bn_mul_comba8 h r a b) \<and> writes_product h r a a 8 (bn_sqr_comba8 h r a)) \<and>
    (in_array h r 8 \<and> in_array h a 4 \<and> in_array h b 4 \<and> clear_of r 8 a 4 \<and> clear_of r 8 b 4 \<longrightarrow>
      writes_product h r a b 4 (bn_mul_comba4 h r a b) \<and> writes_product h r a a 4 (bn_sqr_comba4 h r a))"
  unfolding mul_comba_columns sqr_comba_columns
  using writes_product_comba [OF covers_columns(1), of h r a b] writes_product_comba [OF covers_columns(2), of h r a b]
    writes_product_comba [OF covers_columns(3), of h r a a] writes_product_comba [OF covers_columns(4), of h r a a]
  by simp

text \<open>The largest words there are.\<close>

definition full_store :: bns where
  "full_store = (\<lambda>_. \<lparr>d = replicate 16 (- 1), width = 16, neg = False, static_data = False\<rparr>)"

theorem comba_exact_witness:
  "writes_product full_store (0, 0) (1, 0) (2, 0) 8 (bn_mul_comba8 full_store (0, 0) (1, 0) (2, 0))"
  using comba_exact [of full_store "(0, 0)" "(1, 0)" "(2, 0)"] by (simp add: in_array_def clear_of_def full_store_def)

end
