(* ===== verification/Bignum.thy ===== *)
theory Bignum
  imports Bn_Words Const_Time
begin

unbundle bit_operations_syntax

text \<open>
  Big numbers: creation, size and words (\<^verbatim>\<open>crypto/fipsmodule/bn/bn.c\<close>), comparison (\<^verbatim>\<open>cmp.c\<close>), addition and
  subtraction (\<^verbatim>\<open>add.c\<close>). A \<^verbatim>\<open>BIGNUM*\<close> is an address in the store, so that operands and result may be the
  same number; \<open>g\<close> says whether an allocation of so many bytes succeeds and \<open>junk\<close> what it holds.
\<close>

section \<open>Words and sizes\<close>

definition BN_init :: "bns \<Rightarrow> nat \<Rightarrow> bns" where
  "BN_init h bn = h(bn := \<lparr>d = [], width = 0, neg = False, static_data = False\<rparr>)"

text \<open>Every word from \<open>i\<close> on, put together with OR.\<close>

definition or_words :: "bignum \<Rightarrow> nat \<Rightarrow> nat \<Rightarrow> u64" where
  "or_words b i n = fold (\<lambda>i mask. mask OR d b ! i) [i..<n] 0"

definition bn_fits_in_words :: "bignum \<Rightarrow> nat \<Rightarrow> bool" where
  "bn_fits_in_words bn num \<longleftrightarrow> or_words bn num (width bn) = 0"

fun minimal_width_loop :: "u64 list \<Rightarrow> nat \<Rightarrow> nat" where
  "minimal_width_loop ws 0 = 0"
| "minimal_width_loop ws (Suc n) = (if ws ! n = 0 then minimal_width_loop ws n else Suc n)"

definition bn_minimal_width :: "bignum \<Rightarrow> nat" where
  "bn_minimal_width bn = minimal_width_loop (d bn) (width bn)"

definition bn_set_minimal_width :: "bns \<Rightarrow> nat \<Rightarrow> bns" where
  "bn_set_minimal_width h bn =
    (let w = bn_minimal_width (h bn)
     in h(bn := (h bn)\<lparr>width := w, neg := (if w = 0 then False else neg (h bn))\<rparr>))"

definition bn_wexpand :: "(nat \<Rightarrow> bool) \<Rightarrow> (nat \<Rightarrow> u64) \<Rightarrow> bns \<Rightarrow> nat \<Rightarrow> nat \<Rightarrow> bool \<times> bns" where
  "bn_wexpand g junk h bn words =
    (if words \<le> dmax (h bn) then (True, h)
     else if INT_MAX div (4 * 64) < words then (False, h)
     else if static_data (h bn) then (False, h)
     else if \<not> g (8 * words) then (False, h)
     else (True, h(bn := (h bn)\<lparr>d := take (width (h bn)) (d (h bn)) @ map junk [width (h bn)..<words]\<rparr>)))"

definition bn_expand :: "(nat \<Rightarrow> bool) \<Rightarrow> (nat \<Rightarrow> u64) \<Rightarrow> bns \<Rightarrow> nat \<Rightarrow> nat \<Rightarrow> bool \<times> bns" where
  "bn_expand g junk h bn bits =
    (if size_add bits (64 - 1) < bits then (False, h)
     else bn_wexpand g junk h bn ((bits + 64 - 1) div 64))"

definition BN_copy :: "(nat \<Rightarrow> bool) \<Rightarrow> (nat \<Rightarrow> u64) \<Rightarrow> bns \<Rightarrow> nat \<Rightarrow> nat \<Rightarrow> bool \<times> bns" where
  "BN_copy g junk h dest src =
    (if src = dest then (True, h)
     else case bn_wexpand g junk h dest (width (h src)) of
       (False, h) \<Rightarrow> (False, h)
     | (True, h) \<Rightarrow>
         (True, h(dest := (h dest)\<lparr>d := blit (d (h dest)) 0 (take (width (h src)) (d (h src))),
           width := width (h src), neg := neg (h src)\<rparr>)))"

definition BN_clear :: "bns \<Rightarrow> nat \<Rightarrow> bns" where
  "BN_clear h bn = h(bn := (h bn)\<lparr>d := replicate (dmax (h bn)) 0, width := 0, neg := False\<rparr>)"

definition BN_zero :: "bns \<Rightarrow> nat \<Rightarrow> bns" where
  "BN_zero h bn = h(bn := (h bn)\<lparr>width := 0, neg := False\<rparr>)"

definition BN_set_word :: "(nat \<Rightarrow> bool) \<Rightarrow> (nat \<Rightarrow> u64) \<Rightarrow> bns \<Rightarrow> nat \<Rightarrow> u64 \<Rightarrow> bool \<times> bns" where
  "BN_set_word g junk h bn v =
    (if v = 0 then (True, BN_zero h bn)
     else case bn_wexpand g junk h bn 1 of
       (False, h) \<Rightarrow> (False, h)
     | (True, h) \<Rightarrow> (True, h(bn := (h bn)\<lparr>neg := False, d := (d (h bn))[0 := v], width := 1\<rparr>)))"

definition BN_one :: "(nat \<Rightarrow> bool) \<Rightarrow> (nat \<Rightarrow> u64) \<Rightarrow> bns \<Rightarrow> nat \<Rightarrow> bool \<times> bns" where
  "BN_one g junk h bn = BN_set_word g junk h bn 1"

definition BN_set_u64 :: "(nat \<Rightarrow> bool) \<Rightarrow> (nat \<Rightarrow> u64) \<Rightarrow> bns \<Rightarrow> nat \<Rightarrow> u64 \<Rightarrow> bool \<times> bns" where
  "BN_set_u64 g junk h bn v = BN_set_word g junk h bn v"

definition bn_set_words :: "(nat \<Rightarrow> bool) \<Rightarrow> (nat \<Rightarrow> u64) \<Rightarrow> bns \<Rightarrow> nat \<Rightarrow> u64 list \<Rightarrow> bool \<times> bns" where
  "bn_set_words g junk h bn ws =
    (case bn_wexpand g junk h bn (length ws) of
       (False, h) \<Rightarrow> (False, h)
     | (True, h) \<Rightarrow> (True, h(bn := (h bn)\<lparr>d := blit (d (h bn)) 0 ws, width := length ws, neg := False\<rparr>)))"

text \<open>
  \<^verbatim>\<open>num\<close> is a \<^verbatim>\<open>size_t\<close> and is stored in the \<^verbatim>\<open>int\<close> fields \<^verbatim>\<open>width\<close> and \<^verbatim>\<open>dmax\<close> without a check. Above \<^verbatim>\<open>INT_MAX\<close>
  the conversion is the compiler's to choose, and what results is no number: there the value is \<open>None\<close>.
\<close>

definition bn_set_static_words :: "bns \<Rightarrow> nat \<Rightarrow> u64 list \<Rightarrow> bns option" where
  "bn_set_static_words h bn ws =
    (if INT_MAX < length ws then None
     else Some (h(bn := \<lparr>d = ws, width = length ws, neg = False, static_data = True\<rparr>)))"

definition bn_copy_words :: "nat \<Rightarrow> bignum \<Rightarrow> u64 list option" where
  "bn_copy_words num bn =
    (if neg bn then None
     else if num < width bn \<and> \<not> bn_fits_in_words bn num then None
     else let w = (if num < width bn then num else width bn)
          in Some (blit (replicate num 0) 0 (take w (d bn))))"

definition bn_resize_words :: "(nat \<Rightarrow> bool) \<Rightarrow> (nat \<Rightarrow> u64) \<Rightarrow> bns \<Rightarrow> nat \<Rightarrow> nat \<Rightarrow> bool \<times> bns" where
  "bn_resize_words g junk h bn words =
    (if width (h bn) \<le> words then
       (case bn_wexpand g junk h bn words of
          (False, h) \<Rightarrow> (False, h)
        | (True, h) \<Rightarrow>
            (True, h(bn := (h bn)\<lparr>d := blit (d (h bn)) (width (h bn)) (replicate (words - width (h bn)) 0),
                                   width := words\<rparr>)))
     else if \<not> bn_fits_in_words (h bn) words then (False, h)
     else (True, h(bn := (h bn)\<lparr>width := words\<rparr>)))"

definition bn_select_words :: "bns \<Rightarrow> words_ptr \<Rightarrow> u64 \<Rightarrow> words_ptr \<Rightarrow> words_ptr \<Rightarrow> nat \<Rightarrow> bns" where
  "bn_select_words h r m a b num =
    fold (\<lambda>i h. set_word h r i (constant_time_select_w m (word_at h a i) (word_at h b i))) [0..<num] h"

text \<open>The number of bits of a word, without a branch: each step halves what is left to look at.\<close>

definition num_bits_step :: "nat \<Rightarrow> u64 \<times> u64 \<Rightarrow> u64 \<times> u64" where
  "num_bits_step k = (\<lambda>(l, bits).
    let x = drop_bit k l;
        mask = 0 - x;
        mask = 0 - drop_bit (64 - 1) mask;
        bits = bits + (of_nat k AND mask)
    in (l XOR ((x XOR l) AND mask), bits))"

definition BN_num_bits_word :: "u64 \<Rightarrow> u64" where
  "BN_num_bits_word l =
    (let bits = (if l \<noteq> 0 then 1 else 0);
         (l, bits) = num_bits_step 32 (l, bits);
         (l, bits) = num_bits_step 16 (l, bits);
         (l, bits) = num_bits_step 8 (l, bits);
         (l, bits) = num_bits_step 4 (l, bits);
         (l, bits) = num_bits_step 2 (l, bits);
         (l, bits) = num_bits_step 1 (l, bits)
     in bits)"

text \<open>
  The counts are of C type \<^verbatim>\<open>unsigned\<close> and wrap around at 32 bits. The product \<^verbatim>\<open>(width - 1) * BN_BITS2\<close>
  is one of \<^verbatim>\<open>int\<close>: it is defined, and equal to the one here, for at most 2 to the 25 words.
\<close>

definition BN_num_bits :: "bignum \<Rightarrow> u32" where
  "BN_num_bits bn =
    (let w = bn_minimal_width bn
     in if w = 0 then 0 else of_nat (w - 1) * 64 + ucast (BN_num_bits_word (d bn ! (w - 1))))"

definition BN_num_bytes :: "bignum \<Rightarrow> u32" where
  "BN_num_bytes bn = (BN_num_bits bn + 7) div 8"

section \<open>Comparison\<close>

definition bn_cmp_words_consttime :: "u64 list \<Rightarrow> nat \<Rightarrow> u64 list \<Rightarrow> nat \<Rightarrow> 32 word" where
  "bn_cmp_words_consttime a a_len b b_len =
    (let ret = fold (\<lambda>i ret.
           let eq = constant_time_eq_w (a ! i) (b ! i);
               lt = constant_time_lt_w (a ! i) (b ! i)
           in constant_time_select_int eq ret (constant_time_select_int lt (- 1) 1))
         [0..<(if a_len < b_len then a_len else b_len)] 0
     in if a_len < b_len then
          constant_time_select_int (constant_time_is_zero_w (fold (\<lambda>i m. m OR b ! i) [a_len..<b_len] 0)) ret (- 1)
        else if b_len < a_len then
          constant_time_select_int (constant_time_is_zero_w (fold (\<lambda>i m. m OR a ! i) [b_len..<a_len] 0)) ret 1
        else ret)"

definition BN_ucmp :: "bignum \<Rightarrow> bignum \<Rightarrow> 32 word" where
  "BN_ucmp a b = bn_cmp_words_consttime (d a) (width a) (d b) (width b)"

fun BN_cmp :: "bignum option \<Rightarrow> bignum option \<Rightarrow> 32 word" where
  "BN_cmp None None = 0"
| "BN_cmp (Some a) None = - 1"
| "BN_cmp None (Some b) = 1"
| "BN_cmp (Some a) (Some b) =
    (if neg a \<noteq> neg b then (if neg a then - 1 else 1)
     else let ret = BN_ucmp a b in if neg a then - ret else ret)"

definition bn_less_than_words :: "u64 list \<Rightarrow> u64 list \<Rightarrow> nat \<Rightarrow> bool" where
  "bn_less_than_words a b len \<longleftrightarrow> sint (bn_cmp_words_consttime a len b len) < 0"

definition BN_abs_is_word :: "bignum \<Rightarrow> u64 \<Rightarrow> bool" where
  "BN_abs_is_word bn w \<longleftrightarrow>
    (if width bn = 0 then w = 0
     else fold (\<lambda>i mask. mask OR d bn ! i) [1..<width bn] (d bn ! 0 XOR w) = 0)"

definition BN_cmp_word :: "bignum \<Rightarrow> u64 \<Rightarrow> 32 word" where
  "BN_cmp_word a b =
    BN_cmp (Some a) (Some \<lparr>d = [b], width = (if 0 < b then 1 else 0), neg = False, static_data = True\<rparr>)"

definition BN_is_zero :: "bignum \<Rightarrow> bool" where
  "BN_is_zero bn \<longleftrightarrow> bn_fits_in_words bn 0"

definition BN_is_one :: "bignum \<Rightarrow> bool" where
  "BN_is_one bn \<longleftrightarrow> \<not> neg bn \<and> BN_abs_is_word bn 1"

definition BN_is_word :: "bignum \<Rightarrow> u64 \<Rightarrow> bool" where
  "BN_is_word bn w \<longleftrightarrow> BN_abs_is_word bn w \<and> (w = 0 \<or> \<not> neg bn)"

definition BN_is_odd :: "bignum \<Rightarrow> bool" where
  "BN_is_odd bn \<longleftrightarrow> 0 < width bn \<and> d bn ! 0 AND 1 = 1"

definition BN_is_pow2 :: "bignum \<Rightarrow> bool" where
  "BN_is_pow2 bn \<longleftrightarrow>
    (let w = bn_minimal_width bn
     in if w = 0 \<or> neg bn then False
        else if list_ex (\<lambda>i. d bn ! i \<noteq> 0) [0..<w - 1] then False
        else 0 = d bn ! (w - 1) AND (d bn ! (w - 1) - 1))"

definition BN_equal_consttime :: "bignum \<Rightarrow> bignum \<Rightarrow> bool" where
  "BN_equal_consttime a b \<longleftrightarrow>
    (let mask = fold (\<lambda>i mask. mask OR d b ! i) [width a..<width b] 0;
         mask = fold (\<lambda>i mask. mask OR d a ! i) [width b..<width a] mask;
         mask = fold (\<lambda>i mask. mask OR (d a ! i XOR d b ! i)) [0..<(if width a < width b then width a else width b)] mask;
         mask = mask OR (if neg a \<noteq> neg b then 1 else 0)
     in mask = 0)"

definition BN_is_negative :: "bignum \<Rightarrow> bool" where
  "BN_is_negative bn \<longleftrightarrow> neg bn"

definition BN_set_negative :: "bns \<Rightarrow> nat \<Rightarrow> bool \<Rightarrow> bns" where
  "BN_set_negative h bn sign = h(bn := (h bn)\<lparr>neg := sign \<and> \<not> BN_is_zero (h bn)\<rparr>)"

section \<open>Addition and subtraction\<close>

definition bn_uadd_consttime :: "(nat \<Rightarrow> bool) \<Rightarrow> (nat \<Rightarrow> u64) \<Rightarrow> bns \<Rightarrow> nat \<Rightarrow> nat \<Rightarrow> nat \<Rightarrow> bool \<times> bns" where
  "bn_uadd_consttime g junk h r a b =
    (let (a, b) = (if width (h a) < width (h b) then (b, a) else (a, b));
         hi = width (h a);
         lo = width (h b)
     in case bn_wexpand g junk h r (hi + 1) of
       (False, h) \<Rightarrow> (False, h)
     | (True, h) \<Rightarrow>
         let h = h(r := (h r)\<lparr>width := hi + 1\<rparr>);
             (h, carry) = bn_add_words h (r, 0) (a, 0) (b, 0) lo;
             (h, carry) = fold (\<lambda>i (h, carry).
                 let tmp = carry + word_at h (a, 0) i;
                     carry = (if tmp < word_at h (a, 0) i then 1 else 0)
                 in (set_word h (r, 0) i tmp, carry)) [lo..<hi] (h, carry)
         in (True, set_word h (r, 0) hi carry))"

definition BN_uadd :: "(nat \<Rightarrow> bool) \<Rightarrow> (nat \<Rightarrow> u64) \<Rightarrow> bns \<Rightarrow> nat \<Rightarrow> nat \<Rightarrow> nat \<Rightarrow> bool \<times> bns" where
  "BN_uadd g junk h r a b =
    (case bn_uadd_consttime g junk h r a b of
       (False, h) \<Rightarrow> (False, h)
     | (True, h) \<Rightarrow> (True, bn_set_minimal_width h r))"

definition bn_usub_consttime :: "(nat \<Rightarrow> bool) \<Rightarrow> (nat \<Rightarrow> u64) \<Rightarrow> bns \<Rightarrow> nat \<Rightarrow> nat \<Rightarrow> nat \<Rightarrow> bool \<times> bns" where
  "bn_usub_consttime g junk h r a b =
    (if width (h a) < width (h b) \<and> \<not> bn_fits_in_words (h b) (width (h a)) then (False, h)
     else
       let b_width = (if width (h a) < width (h b) then width (h a) else width (h b));
           a_width = width (h a)
       in case bn_wexpand g junk h r a_width of
         (False, h) \<Rightarrow> (False, h)
       | (True, h) \<Rightarrow>
           let (h, borrow) = bn_sub_words h (r, 0) (a, 0) (b, 0) b_width;
               (h, borrow) = fold (\<lambda>i (h, borrow).
                   let tmp = word_at h (a, 0) i;
                       w = word_at h (a, 0) i - borrow;
                       h = set_word h (r, 0) i w;
                       borrow = (if tmp < w then 1 else 0)
                   in (h, borrow)) [b_width..<a_width] (h, borrow)
           in if borrow \<noteq> 0 then (False, h)
              else (True, h(r := (h r)\<lparr>width := a_width, neg := False\<rparr>)))"

definition BN_usub :: "(nat \<Rightarrow> bool) \<Rightarrow> (nat \<Rightarrow> u64) \<Rightarrow> bns \<Rightarrow> nat \<Rightarrow> nat \<Rightarrow> nat \<Rightarrow> bool \<times> bns" where
  "BN_usub g junk h r a b =
    (case bn_usub_consttime g junk h r a b of
       (False, h) \<Rightarrow> (False, h)
     | (True, h) \<Rightarrow> (True, bn_set_minimal_width h r))"

text \<open>The difference of absolute values, with the sign; \<^verbatim>\<open>BN_add\<close> and \<^verbatim>\<open>BN_sub\<close> share it.\<close>

definition usub_signed :: "(nat \<Rightarrow> bool) \<Rightarrow> (nat \<Rightarrow> u64) \<Rightarrow> bns \<Rightarrow> nat \<Rightarrow> nat \<Rightarrow> nat \<Rightarrow> bool \<times> bns" where
  "usub_signed g junk h r a b =
    (if sint (BN_ucmp (h a) (h b)) < 0 then
       (case BN_usub g junk h r b a of
          (False, h) \<Rightarrow> (False, h)
        | (True, h) \<Rightarrow> (True, h(r := (h r)\<lparr>neg := True\<rparr>)))
     else
       (case BN_usub g junk h r a b of
          (False, h) \<Rightarrow> (False, h)
        | (True, h) \<Rightarrow> (True, h(r := (h r)\<lparr>neg := False\<rparr>))))"

definition BN_add :: "(nat \<Rightarrow> bool) \<Rightarrow> (nat \<Rightarrow> u64) \<Rightarrow> bns \<Rightarrow> nat \<Rightarrow> nat \<Rightarrow> nat \<Rightarrow> bool \<times> bns" where
  "BN_add g junk h r a b =
    (let a_neg = neg (h a)
     in if a_neg \<noteq> neg (h b) then
          (let (a, b) = (if a_neg then (b, a) else (a, b)) in usub_signed g junk h r a b)
        else
          (let (ret, h) = BN_uadd g junk h r a b in (ret, h(r := (h r)\<lparr>neg := a_neg\<rparr>))))"

definition BN_sub :: "(nat \<Rightarrow> bool) \<Rightarrow> (nat \<Rightarrow> u64) \<Rightarrow> bns \<Rightarrow> nat \<Rightarrow> nat \<Rightarrow> nat \<Rightarrow> bool \<times> bns" where
  "BN_sub g junk h r a b =
    (let (add, sign, a, b) =
       (if neg (h a) then (if neg (h b) then (False, False, b, a) else (True, True, a, b))
        else (if neg (h b) then (True, False, a, b) else (False, False, a, b)))
     in if add then
          (case BN_uadd g junk h r a b of
             (False, h) \<Rightarrow> (False, h)
           | (True, h) \<Rightarrow> (True, h(r := (h r)\<lparr>neg := sign\<rparr>)))
        else usub_signed g junk h r a b)"

subsection \<open>A word added or subtracted\<close>

text \<open>The loops that carry and borrow; \<^verbatim>\<open>BN_sub_word\<close> reads on until a word is large enough, \<open>None\<close> where it
  would leave the array.\<close>

function add_word_loop :: "u64 list \<Rightarrow> nat \<Rightarrow> nat \<Rightarrow> u64 \<Rightarrow> u64 list \<times> nat \<times> u64" where
  "add_word_loop ws i n w =
    (if w \<noteq> 0 \<and> i < n then
       let l = ws ! i + w
       in add_word_loop (ws[i := l]) (i + 1) n (if l < w then 1 else 0)
     else (ws, i, w))"
  by pat_completeness auto
termination
  by (relation "measure (\<lambda>(_, i, n, _). n - i)") auto

declare add_word_loop.simps [simp del]

function sub_word_loop :: "u64 list \<Rightarrow> nat \<Rightarrow> u64 \<Rightarrow> (u64 list \<times> nat) option" where
  "sub_word_loop ws i w =
    (if length ws \<le> i then None
     else if w \<le> ws ! i then Some (ws[i := ws ! i - w], i)
     else sub_word_loop (ws[i := ws ! i - w]) (i + 1) 1)"
  by pat_completeness auto
termination
  by (relation "measure (\<lambda>(ws, i, _). length ws - i)") auto

declare sub_word_loop.simps [simp del]

text \<open>The rest of the two functions once the number is not negative; each calls the other for a negative one.\<close>

definition add_word_pos :: "(nat \<Rightarrow> bool) \<Rightarrow> (nat \<Rightarrow> u64) \<Rightarrow> bns \<Rightarrow> nat \<Rightarrow> u64 \<Rightarrow> bool \<times> bns" where
  "add_word_pos g junk h a w =
    (let (ws, i, w) = add_word_loop (d (h a)) 0 (width (h a)) w;
         h = h(a := (h a)\<lparr>d := ws\<rparr>)
     in if w \<noteq> 0 \<and> i = width (h a) then
          (case bn_wexpand g junk h a (width (h a) + 1) of
             (False, h) \<Rightarrow> (False, h)
           | (True, h) \<Rightarrow> (True, h(a := (h a)\<lparr>width := width (h a) + 1, d := (d (h a))[i := w]\<rparr>)))
        else (True, h))"

definition sub_word_pos :: "bns \<Rightarrow> nat \<Rightarrow> u64 \<Rightarrow> bns option" where
  "sub_word_pos h a w =
    (if bn_minimal_width (h a) = 1 \<and> d (h a) ! 0 < w then
       Some (h(a := (h a)\<lparr>d := (d (h a))[0 := w - d (h a) ! 0], neg := True\<rparr>))
     else
       (case sub_word_loop (d (h a)) 0 w of
          None \<Rightarrow> None
        | Some (ws, i) \<Rightarrow>
            Some (h(a := (h a)\<lparr>d := ws, width := (if ws ! i = 0 \<and> i = width (h a) - 1 then width (h a) - 1
                                                    else width (h a))\<rparr>))))"

definition BN_add_word :: "(nat \<Rightarrow> bool) \<Rightarrow> (nat \<Rightarrow> u64) \<Rightarrow> bns \<Rightarrow> nat \<Rightarrow> u64 \<Rightarrow> (bool \<times> bns) option" where
  "BN_add_word g junk h a w =
    (if w = 0 then Some (True, h)
     else if BN_is_zero (h a) then Some (BN_set_word g junk h a w)
     else if neg (h a) then
       (case sub_word_pos (h(a := (h a)\<lparr>neg := False\<rparr>)) a w of
          None \<Rightarrow> None
        | Some h \<Rightarrow> Some (True, if \<not> BN_is_zero (h a) then h(a := (h a)\<lparr>neg := \<not> neg (h a)\<rparr>) else h))
     else Some (add_word_pos g junk h a w))"

definition BN_sub_word :: "(nat \<Rightarrow> bool) \<Rightarrow> (nat \<Rightarrow> u64) \<Rightarrow> bns \<Rightarrow> nat \<Rightarrow> u64 \<Rightarrow> (bool \<times> bns) option" where
  "BN_sub_word g junk h a w =
    (if w = 0 then Some (True, h)
     else if BN_is_zero (h a) then
       (case BN_set_word g junk h a w of
          (False, h) \<Rightarrow> Some (False, h)
        | (True, h) \<Rightarrow> Some (True, BN_set_negative h a True))
     else if neg (h a) then
       (let (i, h) = add_word_pos g junk (h(a := (h a)\<lparr>neg := False\<rparr>)) a w
        in Some (i, h(a := (h a)\<lparr>neg := True\<rparr>)))
     else map_option (\<lambda>h. (True, h)) (sub_word_pos h a w))"

section \<open>Values\<close>

definition bn_nat :: "bignum \<Rightarrow> nat" where
  "bn_nat b = wval (take (width b) (d b))"

definition bn_int :: "bignum \<Rightarrow> int" where
  "bn_int b = (if neg b then - int (bn_nat b) else int (bn_nat b))"

text \<open>What holds of every number between two operations.\<close>

definition bn_ok :: "bignum \<Rightarrow> bool" where
  "bn_ok b \<longleftrightarrow> width b \<le> dmax b \<and> (neg b \<longrightarrow> bn_nat b \<noteq> 0)"

lemma fold_or_0: "fold (\<lambda>i m. m OR f i) is m = 0 \<longleftrightarrow> m = 0 \<and> (\<forall>i \<in> set is. f i = (0 :: 'a::len word))"
  by (induction "is" arbitrary: m) (auto simp: or_eq_0_iff)

lemma wval_take_drop: "n \<le> length ws \<Longrightarrow> wval ws = wval (take n ws) + 2 ^ (64 * n) * wval (drop n ws)"
  using wval_append [of "take n ws" "drop n ws"] by simp

lemma wval_small_iff: "n \<le> length ws \<Longrightarrow> wval ws < 2 ^ (64 * n) \<longleftrightarrow> (\<forall>i \<in> {n..<length ws}. ws ! i = 0)"
proof -
  assume n: "n \<le> length ws"
  have "wval ws < 2 ^ (64 * n) \<longleftrightarrow> wval (drop n ws) = 0"
    using wval_take_drop [OF n] wval_bound [of "take n ws"] n by (cases "wval (drop n ws)") auto
  also have "\<dots> \<longleftrightarrow> (\<forall>w \<in> set (drop n ws). w = 0)" by (rule wval_0_iff)
  also have "\<dots> \<longleftrightarrow> (\<forall>i \<in> {n..<length ws}. ws ! i = 0)"
    using n by (auto simp: set_conv_nth) (metis add_diff_inverse_nat diff_less_mono not_less)
  finally show ?thesis .
qed

lemma fits_words_iff:
  assumes "width b \<le> dmax b"
  shows "bn_fits_in_words b n \<longleftrightarrow> bn_nat b < 2 ^ (64 * n)"
proof (cases "n \<le> width b")
  case True
  have "bn_nat b < 2 ^ (64 * n) \<longleftrightarrow> (\<forall>i \<in> {n..<width b}. d b ! i = 0)"
    using wval_small_iff [of n "take (width b) (d b)"] True assms by (simp add: bn_nat_def min_def)
  then show ?thesis by (simp add: bn_fits_in_words_def or_words_def fold_or_0)
next
  case False
  have "bn_nat b < 2 ^ (64 * width b)" using wval_bound [of "take (width b) (d b)"] assms by (simp add: bn_nat_def)
  also have "(2 :: nat) ^ (64 * width b) \<le> 2 ^ (64 * n)" using False by (intro power_increasing) simp_all
  finally show ?thesis using False by (simp add: bn_fits_in_words_def or_words_def)
qed

lemma is_zero_iff: "width b \<le> dmax b \<Longrightarrow> BN_is_zero b \<longleftrightarrow> bn_nat b = 0"
  by (simp add: BN_is_zero_def fits_words_iff)

subsection \<open>The minimal width\<close>

lemma minimal_width_loop:
  assumes "n \<le> length ws"
  defines "w \<equiv> minimal_width_loop ws n"
  shows "w \<le> n" "wval (take w ws) = wval (take n ws)" "w = 0 \<or> ws ! (w - 1) \<noteq> 0"
  using assms(1) unfolding w_def
  by (induction n) (auto simp: take_Suc_conv_app_nth wval_append)

lemma minimal_width:
  assumes "width b \<le> dmax b"
  shows "bn_minimal_width b \<le> width b" "wval (take (bn_minimal_width b) (d b)) = bn_nat b"
    "bn_minimal_width b = 0 \<longleftrightarrow> bn_nat b = 0"
    "0 < bn_minimal_width b \<Longrightarrow> d b ! (bn_minimal_width b - 1) \<noteq> 0"
    "0 < bn_minimal_width b \<Longrightarrow> 2 ^ (64 * (bn_minimal_width b - 1)) \<le> bn_nat b"
proof -
  define w where "w = bn_minimal_width b"
  note l = minimal_width_loop [OF assms, folded bn_minimal_width_def]
  show "bn_minimal_width b \<le> width b" "wval (take (bn_minimal_width b) (d b)) = bn_nat b"
    "0 < bn_minimal_width b \<Longrightarrow> d b ! (bn_minimal_width b - 1) \<noteq> 0"
    using l by (auto simp: bn_nat_def)
  have top: "2 ^ (64 * (w - 1)) \<le> bn_nat b" if "0 < w"
  proof -
    have le: "w - 1 \<le> length (take w (d b))" "w \<le> dmax b" using l(1) assms by (simp_all add: w_def)
    have nz: "d b ! (w - 1) \<noteq> 0" using l(3) that by (simp add: w_def)
    have "w - 1 < length (take w (d b))" using that le by simp
    then have "drop (w - 1) (take w (d b)) = [d b ! (w - 1)]"
      using that le Cons_nth_drop_Suc [of "w - 1" "take w (d b)"] by simp
    then have "bn_nat b = wval (take (w - 1) (take w (d b))) + 2 ^ (64 * (w - 1)) * unat (d b ! (w - 1))"
      using wval_take_drop [OF le(1)] l(2) by (simp add: w_def bn_nat_def)
    moreover have "1 \<le> unat (d b ! (w - 1))" using nz by (simp add: Suc_le_eq unat_gt_0)
    then have "2 ^ (64 * (w - 1)) * 1 \<le> 2 ^ (64 * (w - 1)) * unat (d b ! (w - 1))" by (rule mult_le_mono2)
    ultimately show ?thesis by linarith
  qed
  then show "0 < bn_minimal_width b \<Longrightarrow> 2 ^ (64 * (bn_minimal_width b - 1)) \<le> bn_nat b" by (simp add: w_def)
  show "bn_minimal_width b = 0 \<longleftrightarrow> bn_nat b = 0"
  proof (cases "w = 0")
    case False
    have "0 < (2 :: nat) ^ (64 * (w - 1))" by simp
    also have "\<dots> \<le> bn_nat b" using top False by simp
    finally show ?thesis using False by (simp add: w_def)
  qed (use l(2) in \<open>simp add: w_def bn_nat_def\<close>)
qed

text \<open>A number with no leading zero words.\<close>

definition minimal :: "bignum \<Rightarrow> bool" where
  "minimal b \<longleftrightarrow> width b = bn_minimal_width b"

lemma set_minimal_width:
  assumes "width (h r) \<le> dmax (h r)"
  defines "h' \<equiv> bn_set_minimal_width h r"
  shows "bn_nat (h' r) = bn_nat (h r)" "neg (h' r) = (neg (h r) \<and> bn_nat (h r) \<noteq> 0)" "bn_ok (h' r)" "minimal (h' r)"
    "d (h' r) = d (h r)" "static_data (h' r) = static_data (h r)" "\<And>p. p \<noteq> r \<Longrightarrow> h' p = h p"
proof -
  note mw = minimal_width [OF assms(1)]
  let ?w = "bn_minimal_width (h r)"
  have h': "h' r = (h r)\<lparr>width := ?w, neg := (if ?w = 0 then False else neg (h r))\<rparr>"
    by (simp add: h'_def bn_set_minimal_width_def Let_def)
  show nat: "bn_nat (h' r) = bn_nat (h r)" using mw(2) by (simp add: h' bn_nat_def)
  show neg: "neg (h' r) = (neg (h r) \<and> bn_nat (h r) \<noteq> 0)" using mw(3) by (simp add: h')
  have "width (h' r) \<le> dmax (h' r)" using mw(1) assms(1) by (simp add: h')
  then show "bn_ok (h' r)" by (simp add: bn_ok_def nat neg)
  show "d (h' r) = d (h r)" "static_data (h' r) = static_data (h r)" by (simp_all add: h')
  show "h' p = h p" if "p \<noteq> r" for p using that by (simp add: h'_def bn_set_minimal_width_def Let_def)
  have w: "?w = 0 \<or> d (h r) ! (?w - 1) \<noteq> 0" using mw(4) by auto
  have "minimal_width_loop (d (h r)) ?w = ?w" using w by (cases ?w) auto
  then show "minimal (h' r)" by (simp add: minimal_def bn_minimal_width_def h')
qed

subsection \<open>Room for more words\<close>

text \<open>Why an expansion may fail.\<close>

definition cannot_expand :: "(nat \<Rightarrow> bool) \<Rightarrow> bignum \<Rightarrow> nat \<Rightarrow> bool" where
  "cannot_expand g b words \<longleftrightarrow>
    dmax b < words \<and> (INT_MAX div 256 < words \<or> static_data b \<or> \<not> g (8 * words))"

lemma wexpand_spec:
  assumes "width (h r) \<le> dmax (h r)" "bn_wexpand g junk h r n = (ok, h')"
  shows "ok \<longleftrightarrow> \<not> cannot_expand g (h r) n" "\<not> ok \<Longrightarrow> h' = h" "ok \<Longrightarrow> n \<le> dmax (h' r)"
    "\<And>p. width (h' p) = width (h p)" "\<And>p. neg (h' p) = neg (h p)" "\<And>p. p \<noteq> r \<Longrightarrow> h' p = h p"
    "\<And>p. take (width (h p)) (d (h' p)) = take (width (h p)) (d (h p))" "width (h' r) \<le> dmax (h' r)"
    "static_data (h' r) = static_data (h r)"
  using assms by (auto simp: bn_wexpand_def cannot_expand_def split: if_splits)

lemma words_at_take: "n \<le> w \<Longrightarrow> take w (d (h' p)) = take w (d (h p)) \<Longrightarrow> words_at h' (p, 0) n = words_at h (p, 0) n"
  using take_take [of n w "d (h' p)"] take_take [of n w "d (h p)"] by (simp add: words_at_def min_def)

lemma fold_upt_shift: "fold f [m..<m + n] s = fold (\<lambda>i. f (m + i)) [0..<n] s"
  by (induction n) simp_all

lemma put_words_append:
  "in_array h (p, 0) (length ws + length vs) \<Longrightarrow>
   put_words (put_words h (p, 0) ws) (p, length ws) vs = put_words h (p, 0) (ws @ vs)"
  by (simp add: put_words_def in_array_def blit_def add.commute)

lemma words_at_put:
  assumes "ahead (p, 0) (q, k) n" "in_array h (p, 0) (length ws)" "length ws \<le> k"
  shows "words_at (put_words h (p, 0) ws) (q, k) n = words_at h (q, k) n"
  using assms by (auto simp: words_at_def put_words_def in_array_def blit_def)

lemma in_array_put:
  "in_array h p (length ws) \<Longrightarrow> in_array (put_words h p ws) q n \<longleftrightarrow> in_array h q n"
  by (simp add: in_array_def dmax_put_words)

lemma words_at_split: "words_at h (p, 0) (k + n) = words_at h (p, 0) k @ words_at h (p, k) n"
  by (simp add: words_at_def take_add)

end
