(* ===== verification/Bn_Arith.thy ===== *)
theory Bn_Arith
  imports Bignum
begin

unbundle bit_operations_syntax

text \<open>
  What the comparison, the addition and subtraction and the number of bits of a big number compute: the
  loops over words are integer arithmetic, whatever the signs and widths of the operands and also where
  the result is an operand.
\<close>

section \<open>What addition and subtraction compute\<close>

text \<open>The loops that carry on through the words that only the longer number has.\<close>

lemma carry_loop:
  assumes "in_array h (r, k) n" "in_array h (a, k) n" "unat c \<le> 1"
  obtains ws c' where "fold (\<lambda>i (h, carry). let tmp = carry + word_at h (a, 0) i;
        carry = (if tmp < word_at h (a, 0) i then 1 else 0) in (set_word h (r, 0) i tmp, carry)) [k..<k + n] (h, c) =
      (put_words h (r, k) ws, c')"
    "length ws = n" "wval ws + 2 ^ (64 * n) * unat c' = wval (words_at h (a, k) n) + unat c"
proof -
  define f where "f = (\<lambda>(c :: u64) x (y :: u64) (z :: u64). (c + x, if c + x < x then 1 else 0 :: u64))"
  have ah: "ahead (r, k) (a, k) n" by (simp add: ahead_def)
  have step: "True \<and> int (unat l) + 2 ^ 64 * int (unat c') =
      1 * int (unat x) + 0 * int (unat y) + 0 * int (unat z) + int (unat c)"
    if "f c x y z = (l, c')" for c x y z l c'
    using arg_cong [OF add_carry [of c x], of int] that by (auto simp: f_def split: if_splits)
  obtain ws c' where *: "fold (\<lambda>i (h, c). let (w, c) = f c (word_at h (a, k) i) (word_at h (a, k) i) (word_at h (r, k) i)
        in (set_word h (r, k) i w, c)) [0..<n] (h, c) = (put_words h (r, k) ws, c')"
    "length ws = n" "True"
    "int (wval ws) + 2 ^ (64 * n) * int (unat c') =
      1 * int (wval (words_at h (a, k) n)) + 0 * int (wval (words_at h (a, k) n)) + 0 * int (wval (words_at h (r, k) n))
      + int (unat c)"
    by (rule loop_value [where P = "\<lambda>_. True" and f = f and c = c and val = "\<lambda>c. int (unat c)"
        and p = 1 and q = 0 and s = 0, OF ah ah assms(1,2,2) TrueI step])
  have "int (wval ws + 2 ^ (64 * n) * unat c') = int (wval (words_at h (a, k) n) + unat c)"
    using *(4) by (simp only: of_nat_simps of_nat_power of_nat_numeral mult_zero_left mult_1 add_0_right)
  then have v: "wval ws + 2 ^ (64 * n) * unat c' = wval (words_at h (a, k) n) + unat c" by (simp only: of_nat_eq_iff)
  have "fold (\<lambda>i (h, carry). let tmp = carry + word_at h (a, 0) i;
        carry = (if tmp < word_at h (a, 0) i then 1 else 0) in (set_word h (r, 0) i tmp, carry)) [k..<k + n] (h, c) =
      (put_words h (r, k) ws, c')"
    unfolding fold_upt_shift using *(1) by (simp add: f_def word_at_def set_word_def Let_def)
  then show ?thesis by (rule that) (use *(2) v in simp_all)
qed

lemma borrow_loop:
  assumes "in_array h (r, k) n" "in_array h (a, k) n" "c = 0 \<or> c = 1"
  obtains ws c' where "fold (\<lambda>i (h, borrow). let tmp = word_at h (a, 0) i; w = word_at h (a, 0) i - borrow;
        h = set_word h (r, 0) i w; borrow = (if tmp < w then 1 else 0) in (h, borrow)) [k..<k + n] (h, c) =
      (put_words h (r, k) ws, c')"
    "length ws = n" "wval ws + unat c = wval (words_at h (a, k) n) + 2 ^ (64 * n) * unat c'" "c' = 0 \<or> c' = 1"
proof -
  define f where "f = (\<lambda>(c :: u64) x (y :: u64) (z :: u64). (x - c, if x < x - c then 1 else 0 :: u64))"
  have ah: "ahead (r, k) (a, k) n" by (simp add: ahead_def)
  have less: "x < x - c \<longleftrightarrow> x = 0 \<and> c = 1" if "c = 0 \<or> c = 1" for x c :: u64
    using that by (cases "x = 0") (auto simp: word_less_nat_alt unat_minus_one unsigned_minus_1_eq_mask mask_eq_exp_minus_1)
  have step: "(c' = 0 \<or> c' = 1) \<and> int (unat l) + 2 ^ 64 * (- int (unat c')) =
      1 * int (unat x) + 0 * int (unat y) + 0 * int (unat z) + (- int (unat c))"
    if "c = 0 \<or> c = 1" "f c x y z = (l, c')" for c x y z l c'
    using sub_step(1) [OF that(1), of x 0] that less [OF that(1), of x] by (cases "x = 0") (auto simp: f_def)
  obtain ws c' where *: "fold (\<lambda>i (h, c). let (w, c) = f c (word_at h (a, k) i) (word_at h (a, k) i) (word_at h (r, k) i)
        in (set_word h (r, k) i w, c)) [0..<n] (h, c) = (put_words h (r, k) ws, c')"
    "length ws = n" "c' = 0 \<or> c' = 1"
    "int (wval ws) + 2 ^ (64 * n) * (- int (unat c')) =
      1 * int (wval (words_at h (a, k) n)) + 0 * int (wval (words_at h (a, k) n)) + 0 * int (wval (words_at h (r, k) n))
      + (- int (unat c))"
    by (rule loop_value [where P = "\<lambda>c. c = 0 \<or> c = 1" and f = f and c = c and val = "\<lambda>c. - int (unat c)"
        and p = 1 and q = 0 and s = 0, OF ah ah assms(1,2,2,3) step])
  have "int (wval ws + unat c) = int (wval (words_at h (a, k) n) + 2 ^ (64 * n) * unat c')"
    using *(4) by simp
  then have v: "wval ws + unat c = wval (words_at h (a, k) n) + 2 ^ (64 * n) * unat c'" by (simp only: of_nat_eq_iff)
  have "fold (\<lambda>i (h, borrow). let tmp = word_at h (a, 0) i; w = word_at h (a, 0) i - borrow;
        h = set_word h (r, 0) i w; borrow = (if tmp < w then 1 else 0) in (h, borrow)) [k..<k + n] (h, c) =
      (put_words h (r, k) ws, c')"
    unfolding fold_upt_shift using *(1) by (simp add: f_def word_at_def set_word_def Let_def)
  then show ?thesis by (rule that) (use *(2,3) v in simp_all)
qed

text \<open>What the four routines promise: the value of the result, with every other number as it was.\<close>

definition becomes :: "bns \<Rightarrow> nat \<Rightarrow> nat \<Rightarrow> bns \<Rightarrow> bool" where
  "becomes h r v h' \<longleftrightarrow> bn_nat (h' r) = v \<and> width (h' r) \<le> dmax (h' r) \<and> (\<forall>p. p \<noteq> r \<longrightarrow> h' p = h p)"

lemma put_words_result:
  assumes "length ws = w" "w \<le> dmax (h r)"
  shows "becomes h r (wval ws) ((put_words h (r, 0) ws)(r := (put_words h (r, 0) ws r)\<lparr>width := w, neg := b\<rparr>))"
    "width (h r) = w \<Longrightarrow> becomes h r (wval ws) (put_words h (r, 0) ws)"
  using assms by (simp_all add: becomes_def bn_nat_def put_words_def blit_def)

lemma after_expand:
  assumes "bn_wexpand g junk h r n = (True, h1)" "width (h r) \<le> dmax (h r)"
  shows "k \<le> width (h p) \<Longrightarrow> words_at h1 (p, 0) k = words_at h (p, 0) k"
    "width (h p) \<le> dmax (h p) \<Longrightarrow> width (h p) \<le> dmax (h1 p)"
proof -
  note we = wexpand_spec [OF assms(2,1)]
  show "k \<le> width (h p) \<Longrightarrow> words_at h1 (p, 0) k = words_at h (p, 0) k"
    by (rule words_at_take [OF _ we(7)])
  show "width (h p) \<le> dmax (h p) \<Longrightarrow> width (h p) \<le> dmax (h1 p)"
    using arg_cong [OF we(7) [of p], of length] by simp
qed

lemma wval_from: "in_array h (p, 0) k \<Longrightarrow>
    wval (words_at h (p, 0) (k + n)) = wval (words_at h (p, 0) k) + 2 ^ (64 * k) * wval (words_at h (p, k) n)"
  by (simp add: words_at_split wval_append length_words_at)

lemma bn_nat_words: "bn_nat (h p) = wval (words_at h (p, 0) (width (h p)))"
  by (simp add: bn_nat_def words_at_def)

text \<open>Both loops of an addition: the words that both numbers have, and those that only the longer has.\<close>

lemma add_loops:
  assumes "in_array h (r, 0) (hi + 1)" "in_array h (l, 0) hi" "in_array h (s, 0) lo" "lo \<le> hi"
  obtains ws where
    "(let (h, carry) = bn_add_words h (r, 0) (l, 0) (s, 0) lo;
          (h, carry) = fold (\<lambda>i (h, carry).
              let tmp = carry + word_at h (l, 0) i;
                  carry = (if tmp < word_at h (l, 0) i then 1 else 0)
              in (set_word h (r, 0) i tmp, carry)) [lo..<hi] (h, carry)
      in (True, set_word h (r, 0) hi carry)) = (True, put_words h (r, 0) ws)"
    "length ws = hi + 1" "wval ws = wval (words_at h (l, 0) hi) + wval (words_at h (s, 0) lo)"
proof -
  have ah: "ahead (r, 0) (p, k) n" for p k n by (simp add: ahead_def)
  have inr: "in_array h (r, 0) lo" "in_array h (l, 0) lo" using assms by (simp_all add: in_array_def)
  obtain ws1 c where ws1: "bn_add_words h (r, 0) (l, 0) (s, 0) lo = (put_words h (r, 0) ws1, c)"
    "length ws1 = lo" "unat c \<le> 1"
    "wval ws1 + 2 ^ (64 * lo) * unat c = wval (words_at h (l, 0) lo) + wval (words_at h (s, 0) lo)"
    by (rule bn_add_words_value [OF ah ah inr assms(3)])
  let ?h = "put_words h (r, 0) ws1"
  have "in_array ?h (r, lo) (hi - lo)" "in_array ?h (l, lo) (hi - lo)"
    using dmax_put_words [of h "(r, 0)" ws1] inr(1) ws1(2) assms by (simp_all add: in_array_def)
  then obtain ws2 c' where ws2: "fold (\<lambda>i (h, carry). let tmp = carry + word_at h (l, 0) i;
        carry = (if tmp < word_at h (l, 0) i then 1 else 0) in (set_word h (r, 0) i tmp, carry)) [lo..<lo + (hi - lo)] (?h, c) =
      (put_words ?h (r, lo) ws2, c')"
    "length ws2 = hi - lo" "wval ws2 + 2 ^ (64 * (hi - lo)) * unat c' = wval (words_at ?h (l, lo) (hi - lo)) + unat c"
    by (rule carry_loop [OF _ _ ws1(3)])
  have all: "put_words ?h (r, lo) ws2 = put_words h (r, 0) (ws1 @ ws2)"
    using put_words_append [of h r ws1 ws2] assms(1,4) ws1(2) ws2(2) by (simp add: in_array_def)
  have fin: "set_word (put_words h (r, 0) (ws1 @ ws2)) (r, 0) hi c' = put_words h (r, 0) (ws1 @ ws2 @ [c'])"
    using put_words_Suc [of h "(r, 0)" "ws1 @ ws2" c'] assms(1,4) ws1(2) ws2(2) by (simp add: in_array_def)
  have up: "words_at ?h (l, lo) (hi - lo) = words_at h (l, lo) (hi - lo)"
    by (rule words_at_put) (use ah inr(1) ws1(2) in simp_all)
  have "wval (ws1 @ ws2 @ [c']) = wval ws1 + 2 ^ (64 * lo) * (wval ws2 + 2 ^ (64 * (hi - lo)) * unat c')"
    using ws1(2) ws2(2) by (simp add: wval_append)
  also have "\<dots> = wval (words_at h (l, 0) (lo + (hi - lo))) + wval (words_at h (s, 0) lo)"
    unfolding ws2(3) up wval_from [OF inr(2)] using ws1(4) by (simp add: distrib_left)
  finally show ?thesis
    using that [of "ws1 @ ws2 @ [c']"] ws1(1,2) ws2(1,2) assms(4) by (simp add: Let_def all fin)
qed

lemma sub_loops:
  assumes "in_array h (r, 0) hi" "in_array h (a, 0) hi" "in_array h (b, 0) lo" "lo \<le> hi"
  obtains ws c where
    "(let (h, borrow) = bn_sub_words h (r, 0) (a, 0) (b, 0) lo
      in fold (\<lambda>i (h, borrow).
           let tmp = word_at h (a, 0) i;
               w = word_at h (a, 0) i - borrow;
               h = set_word h (r, 0) i w;
               borrow = (if tmp < w then 1 else 0)
           in (h, borrow)) [lo..<hi] (h, borrow)) = (put_words h (r, 0) ws, c)"
    "length ws = hi" "c = 0 \<or> c = 1"
    "wval ws + wval (words_at h (b, 0) lo) = wval (words_at h (a, 0) hi) + 2 ^ (64 * hi) * unat c"
proof -
  have ah: "ahead (r, 0) (p, k) n" for p k n by (simp add: ahead_def)
  have inr: "in_array h (r, 0) lo" "in_array h (a, 0) lo" using assms by (simp_all add: in_array_def)
  obtain ws1 c where ws1: "bn_sub_words h (r, 0) (a, 0) (b, 0) lo = (put_words h (r, 0) ws1, c)"
    "length ws1 = lo" "c = 0 \<or> c = 1"
    "wval ws1 + wval (words_at h (b, 0) lo) = wval (words_at h (a, 0) lo) + 2 ^ (64 * lo) * unat c"
    by (rule bn_sub_words_value [OF ah ah inr assms(3)])
  let ?h = "put_words h (r, 0) ws1"
  have "in_array ?h (r, lo) (hi - lo)" "in_array ?h (a, lo) (hi - lo)"
    using dmax_put_words [of h "(r, 0)" ws1] inr(1) ws1(2) assms by (simp_all add: in_array_def)
  then obtain ws2 c' where ws2: "fold (\<lambda>i (h, borrow). let tmp = word_at h (a, 0) i; w = word_at h (a, 0) i - borrow;
        h = set_word h (r, 0) i w; borrow = (if tmp < w then 1 else 0) in (h, borrow)) [lo..<lo + (hi - lo)] (?h, c) =
      (put_words ?h (r, lo) ws2, c')"
    "length ws2 = hi - lo" "wval ws2 + unat c = wval (words_at ?h (a, lo) (hi - lo)) + 2 ^ (64 * (hi - lo)) * unat c'"
    "c' = 0 \<or> c' = 1"
    by (rule borrow_loop [OF _ _ ws1(3)])
  have all: "put_words ?h (r, lo) ws2 = put_words h (r, 0) (ws1 @ ws2)"
    using put_words_append [of h r ws1 ws2] assms(1,4) ws1(2) ws2(2) by (simp add: in_array_def)
  have up: "words_at ?h (a, lo) (hi - lo) = words_at h (a, lo) (hi - lo)"
    by (rule words_at_put) (use ah inr(1) ws1(2) in simp_all)
  have exp: "(2 :: nat) ^ (64 * hi) = 2 ^ (64 * lo) * 2 ^ (64 * (hi - lo))"
    unfolding power_add [symmetric] using assms(4) by simp
  have "wval (ws1 @ ws2) + wval (words_at h (b, 0) lo) =
      wval (words_at h (a, 0) lo) + 2 ^ (64 * lo) * (wval ws2 + unat c)"
    using ws1(2,4) by (simp add: wval_append distrib_left)
  also have "\<dots> = wval (words_at h (a, 0) (lo + (hi - lo))) + 2 ^ (64 * hi) * unat c'"
    unfolding ws2(3) up wval_from [OF inr(2)] exp by (simp add: distrib_left mult.assoc)
  finally show ?thesis
    using that [of "ws1 @ ws2" c'] ws1(1,2) ws2(1,2,4) assms(4) by (simp add: Let_def all)
qed

lemma uadd_consttime_spec:
  assumes "width (h a) \<le> dmax (h a)" "width (h b) \<le> dmax (h b)" "width (h r) \<le> dmax (h r)"
    "bn_uadd_consttime g junk h r a b = (ok, h')"
  shows "ok \<longleftrightarrow> \<not> cannot_expand g (h r) (max (width (h a)) (width (h b)) + 1)" "\<not> ok \<Longrightarrow> h' = h"
    "ok \<Longrightarrow> becomes h r (bn_nat (h a) + bn_nat (h b)) h'" "ok \<Longrightarrow> neg (h' r) = neg (h r)"
proof -
  define s l where "s = (if width (h a) < width (h b) then a else b)"
    and "l = (if width (h a) < width (h b) then b else a)"
  define lo hi where "lo = width (h s)" and "hi = width (h l)"
  have le: "lo \<le> hi" and mx: "max (width (h a)) (width (h b)) = hi" by (auto simp: lo_def hi_def s_def l_def)
  have sum: "bn_nat (h a) + bn_nat (h b) = bn_nat (h l) + bn_nat (h s)" by (simp add: l_def s_def)
  have fit: "width (h l) \<le> dmax (h l)" "width (h s) \<le> dmax (h s)" using assms(1,2) by (simp_all add: s_def l_def)
  have swap: "(if width (h a) < width (h b) then (b, a) else (a, b)) = (l, s)" by (simp add: l_def s_def)
  obtain e h1 where e: "bn_wexpand g junk h r (hi + 1) = (e, h1)" by fastforce
  note we = wexpand_spec [OF assms(3) e]
  define h2 where "h2 = h1(r := (h1 r)\<lparr>width := hi + 1\<rparr>)"
  have run: "(ok, h') = (if \<not> e then (False, h1) else
      let (h, carry) = bn_add_words h2 (r, 0) (l, 0) (s, 0) lo;
          (h, carry) = fold (\<lambda>i (h, carry).
              let tmp = carry + word_at h (l, 0) i;
                  carry = (if tmp < word_at h (l, 0) i then 1 else 0)
              in (set_word h (r, 0) i tmp, carry)) [lo..<hi] (h, carry)
      in (True, set_word h (r, 0) hi carry))"
    using assms(4) e unfolding bn_uadd_consttime_def swap Let_def case_prod_conv lo_def hi_def h2_def
    by (cases e) simp_all
  then have ok: "ok = e" by (cases e) (simp_all add: Let_def split_beta)
  then show "ok \<longleftrightarrow> \<not> cannot_expand g (h r) (max (width (h a)) (width (h b)) + 1)" using we(1) mx by simp
  show "\<not> ok \<Longrightarrow> h' = h" using run we(2) ok by simp
  assume ok
  with ok have e: "bn_wexpand g junk h r (hi + 1) = (True, h1)" using e by simp
  have same: "words_at h2 p n = words_at h1 p n" "in_array h2 p n = in_array h1 p n" for p n
    by (simp_all add: h2_def words_at_def in_array_def)
  have "in_array h2 (r, 0) (hi + 1)" "in_array h2 (l, 0) hi" "in_array h2 (s, 0) lo"
    unfolding same using we(3) ok \<open>ok\<close> after_expand(2) [OF e assms(3)] fit by (simp_all add: in_array_def hi_def lo_def)
  then obtain ws where ws: "(ok, h') = (True, put_words h2 (r, 0) ws)" "length ws = hi + 1"
    "wval ws = wval (words_at h2 (l, 0) hi) + wval (words_at h2 (s, 0) lo)"
    by (rule add_loops [OF _ _ _ le]) (use run ok \<open>ok\<close> in simp)
  have "wval ws = bn_nat (h a) + bn_nat (h b)"
    using after_expand(1) [OF e assms(3)] sum unfolding ws(3) same hi_def lo_def bn_nat_words by simp
  moreover have "becomes h2 r (wval ws) h'"
    using put_words_result(2) [OF ws(2), of h2 r] ws(1) we(3) ok \<open>ok\<close> by (simp add: h2_def)
  ultimately show "becomes h r (bn_nat (h a) + bn_nat (h b)) h'"
    using we(6) by (simp add: becomes_def h2_def)
  show "neg (h' r) = neg (h r)" using ws(1) we(5) by (simp add: put_words_def h2_def)
qed

lemma usub_consttime_spec:
  assumes "width (h a) \<le> dmax (h a)" "width (h b) \<le> dmax (h b)" "width (h r) \<le> dmax (h r)"
    "bn_nat (h b) \<le> bn_nat (h a)" "bn_usub_consttime g junk h r a b = (ok, h')"
  shows "ok \<longleftrightarrow> \<not> cannot_expand g (h r) (width (h a))" "\<not> ok \<Longrightarrow> h' = h"
    "ok \<Longrightarrow> becomes h r (bn_nat (h a) - bn_nat (h b)) h' \<and> \<not> neg (h' r)"
proof -
  define hi lo where "hi = width (h a)" and "lo = (if width (h a) < width (h b) then width (h a) else width (h b))"
  have le: "lo \<le> hi" "lo \<le> width (h b)" by (auto simp: lo_def hi_def)
  have a_bound: "bn_nat (h a) < 2 ^ (64 * hi)"
    using wval_bound [of "words_at h (a, 0) hi"] length_words_at [of h "(a, 0)" hi] assms(1)
    by (simp add: bn_nat_words hi_def in_array_def)
  then have b_bound: "bn_nat (h b) < 2 ^ (64 * hi)" using assms(4) by simp
  then have fits: "bn_fits_in_words (h b) (width (h a))" using fits_words_iff [OF assms(2)] by (simp add: hi_def)
  obtain e h1 where e: "bn_wexpand g junk h r hi = (e, h1)" by fastforce
  note we = wexpand_spec [OF assms(3) e]
  have run: "(ok, h') = (if \<not> e then (False, h1) else
      let (h, borrow) = (let (h, borrow) = bn_sub_words h1 (r, 0) (a, 0) (b, 0) lo
                         in fold (\<lambda>i (h, borrow).
                              let tmp = word_at h (a, 0) i;
                                  w = word_at h (a, 0) i - borrow;
                                  h = set_word h (r, 0) i w;
                                  borrow = (if tmp < w then 1 else 0)
                              in (h, borrow)) [lo..<hi] (h, borrow))
      in if borrow \<noteq> 0 then (False, h) else (True, h(r := (h r)\<lparr>width := hi, neg := False\<rparr>)))"
    using assms(5) e fits [folded hi_def]
    unfolding bn_usub_consttime_def Let_def lo_def [symmetric] unfolding hi_def [symmetric]
    by (cases e; cases "bn_sub_words h1 (r, 0) (a, 0) (b, 0) lo") (simp_all add: split_beta split: if_splits)
  have b: "bn_nat (h b) = wval (words_at h (b, 0) lo)"
  proof (cases "width (h a) < width (h b)")
    case True
    have "\<forall>i \<in> {hi..<width (h b)}. d (h b) ! i = 0"
      using fits by (simp add: bn_fits_in_words_def or_words_def fold_or_0 hi_def)
    then have "wval (drop hi (take (width (h b)) (d (h b)))) = 0"
      using assms(2) by (auto simp: wval_0_iff set_conv_nth)
    then show ?thesis
      using wval_take_drop [of hi "take (width (h b)) (d (h b))"] True assms(2)
      by (simp add: bn_nat_def words_at_def lo_def hi_def min_def)
  qed (simp add: lo_def bn_nat_words)
  show main: "ok \<longleftrightarrow> \<not> cannot_expand g (h r) (width (h a))" "\<not> ok \<Longrightarrow> h' = h"
    "ok \<Longrightarrow> becomes h r (bn_nat (h a) - bn_nat (h b)) h' \<and> \<not> neg (h' r)"
  proof -
    have "(ok \<longleftrightarrow> e) \<and> (e \<longrightarrow> becomes h r (bn_nat (h a) - bn_nat (h b)) h' \<and> \<not> neg (h' r))"
    proof (cases e)
      case True
      with e have e1: "bn_wexpand g junk h r hi = (True, h1)" by simp
      have "in_array h1 (r, 0) hi" "in_array h1 (a, 0) hi" "in_array h1 (b, 0) lo"
        using we(3) True le after_expand(2) [OF e1 assms(3)] assms(1) le_trans [OF le(2) after_expand(2) [OF e1 assms(3) assms(2)]]
        by (simp_all add: in_array_def hi_def)
      then obtain ws c where ws: "(let (h, borrow) = bn_sub_words h1 (r, 0) (a, 0) (b, 0) lo
          in fold (\<lambda>i (h, borrow). let tmp = word_at h (a, 0) i; w = word_at h (a, 0) i - borrow;
               h = set_word h (r, 0) i w; borrow = (if tmp < w then 1 else 0) in (h, borrow)) [lo..<hi] (h, borrow)) =
          (put_words h1 (r, 0) ws, c)" "length ws = hi" "c = 0 \<or> c = 1"
        "wval ws + wval (words_at h1 (b, 0) lo) = wval (words_at h1 (a, 0) hi) + 2 ^ (64 * hi) * unat c"
        by (rule sub_loops [OF _ _ _ le(1)])
      have val: "wval ws + bn_nat (h b) = bn_nat (h a) + 2 ^ (64 * hi) * unat c"
        using ws(4) after_expand(1) [OF e1 assms(3)] le(2) b by (simp add: hi_def bn_nat_words [of h a])
      have "wval ws < 2 ^ (64 * hi)" using wval_bound [of ws] ws(2) by simp
      then have c: "c = 0" using val ws(3) assms(4) by auto
      have "(ok, h') = (True, (put_words h1 (r, 0) ws)(r := (put_words h1 (r, 0) ws r)\<lparr>width := hi, neg := False\<rparr>))"
        using run True unfolding ws(1) by (simp add: c)
      moreover have "wval ws = bn_nat (h a) - bn_nat (h b)" using val c by simp
      ultimately show ?thesis
        using put_words_result(1) [OF ws(2), of h1 r False] we(3,6) True by (simp add: becomes_def)
    qed (use run in simp)
    then show "ok \<longleftrightarrow> \<not> cannot_expand g (h r) (width (h a))" "\<not> ok \<Longrightarrow> h' = h"
      "ok \<Longrightarrow> becomes h r (bn_nat (h a) - bn_nat (h b)) h' \<and> \<not> neg (h' r)"
      using we(1,2) run by (auto simp: hi_def)
  qed
qed

text \<open>With the width made minimal.\<close>

lemma minimal_result:
  assumes "becomes h r v h'"
  defines "h2 \<equiv> bn_set_minimal_width h' r"
  shows "becomes h r v h2" "minimal (h2 r)" "neg (h2 r) = (neg (h' r) \<and> v \<noteq> 0)"
  using assms set_minimal_width [of h' r] by (auto simp: becomes_def bn_ok_def)

lemma uadd_spec:
  assumes "width (h a) \<le> dmax (h a)" "width (h b) \<le> dmax (h b)" "width (h r) \<le> dmax (h r)"
    "BN_uadd g junk h r a b = (ok, h')"
  shows "ok \<longleftrightarrow> \<not> cannot_expand g (h r) (max (width (h a)) (width (h b)) + 1)" "\<not> ok \<Longrightarrow> h' = h"
    "ok \<Longrightarrow> becomes h r (bn_nat (h a) + bn_nat (h b)) h' \<and> minimal (h' r) \<and>
      neg (h' r) = (neg (h r) \<and> bn_nat (h a) + bn_nat (h b) \<noteq> 0)"
proof -
  obtain e h1 where e: "bn_uadd_consttime g junk h r a b = (e, h1)" by fastforce
  note spec = uadd_consttime_spec [OF assms(1-3) e]
  have "ok = e \<and> h' = (if e then bn_set_minimal_width h1 r else h1)" using assms(4) e by (cases e) (auto simp: BN_uadd_def)
  then show "ok \<longleftrightarrow> \<not> cannot_expand g (h r) (max (width (h a)) (width (h b)) + 1)" "\<not> ok \<Longrightarrow> h' = h"
    "ok \<Longrightarrow> becomes h r (bn_nat (h a) + bn_nat (h b)) h' \<and> minimal (h' r) \<and>
      neg (h' r) = (neg (h r) \<and> bn_nat (h a) + bn_nat (h b) \<noteq> 0)"
    using spec minimal_result [of h r _ h1] by auto
qed

lemma usub_spec:
  assumes "width (h a) \<le> dmax (h a)" "width (h b) \<le> dmax (h b)" "width (h r) \<le> dmax (h r)"
    "bn_nat (h b) \<le> bn_nat (h a)" "BN_usub g junk h r a b = (ok, h')"
  shows "ok \<longleftrightarrow> \<not> cannot_expand g (h r) (width (h a))" "\<not> ok \<Longrightarrow> h' = h"
    "ok \<Longrightarrow> becomes h r (bn_nat (h a) - bn_nat (h b)) h' \<and> minimal (h' r) \<and> \<not> neg (h' r)"
proof -
  obtain e h1 where e: "bn_usub_consttime g junk h r a b = (e, h1)" by fastforce
  note spec = usub_consttime_spec [OF assms(1-4) e]
  have "ok = e \<and> h' = (if e then bn_set_minimal_width h1 r else h1)" using assms(5) e by (cases e) (auto simp: BN_usub_def)
  then show "ok \<longleftrightarrow> \<not> cannot_expand g (h r) (width (h a))" "\<not> ok \<Longrightarrow> h' = h"
    "ok \<Longrightarrow> becomes h r (bn_nat (h a) - bn_nat (h b)) h' \<and> minimal (h' r) \<and> \<not> neg (h' r)"
    using spec minimal_result [of h r _ h1] by auto
qed

section \<open>What comparison computes\<close>

definition order32 :: "int \<Rightarrow> int \<Rightarrow> 32 word" where
  "order32 x y = (if x < y then - 1 else if y < x then 1 else 0)"

lemma order32_sign: "sint (order32 x y) < 0 \<longleftrightarrow> x < y" "order32 x y = 0 \<longleftrightarrow> x = y"
  by (simp_all add: order32_def)

lemma top_word_decides:
  assumes "length xs = length ys" "x < y"
  shows "wval (xs @ [x]) < wval (ys @ [y])"
proof -
  have "wval xs < 2 ^ (64 * length xs)" by (rule wval_bound)
  moreover have "unat x + 1 \<le> unat y" using assms(2) by (simp add: word_less_nat_alt)
  then have "2 ^ (64 * length xs) * (unat x + 1) \<le> 2 ^ (64 * length xs) * unat y" by (rule mult_le_mono2)
  ultimately show ?thesis using assms(1) by (simp add: wval_append distrib_left)
qed

lemma cmp_loop:
  assumes "n \<le> length a" "n \<le> length b"
  shows "fold (\<lambda>i ret.
           let eq = constant_time_eq_w (a ! i) (b ! i);
               lt = constant_time_lt_w (a ! i) (b ! i)
           in constant_time_select_int eq ret (constant_time_select_int lt (- 1) 1)) [0..<n] 0 =
    order32 (int (wval (take n a))) (int (wval (take n b)))"
  using assms
proof (induction n)
  case (Suc n)
  let ?a = "take n a" and ?b = "take n b"
  have snoc: "take (Suc n) a = ?a @ [a ! n]" "take (Suc n) b = ?b @ [b ! n]"
    using Suc.prems by (simp_all add: take_Suc_conv_app_nth)
  have len: "length ?a = length ?b" using Suc.prems by simp
  consider "a ! n = b ! n" | "a ! n < b ! n" | "b ! n < a ! n" by fastforce
  then show ?case
  proof cases
    case 1
    then have "wval (take (Suc n) a) < wval (take (Suc n) b) \<longleftrightarrow> wval ?a < wval ?b"
      "wval (take (Suc n) b) < wval (take (Suc n) a) \<longleftrightarrow> wval ?b < wval ?a"
      using len unfolding snoc by (simp_all add: wval_append)
    then show ?thesis using Suc 1 by (simp add: ct_spec order32_def)
  next
    case 2
    then show ?thesis
      using Suc top_word_decides [OF len 2] unfolding snoc by (auto simp: ct_spec order32_def)
  next
    case 3
    then show ?thesis
      using Suc top_word_decides [OF len [symmetric] 3] unfolding snoc by (auto simp: ct_spec order32_def)
  qed
qed (simp add: order32_def)

lemma wval_rest:
  assumes "n \<le> m" "m \<le> length ws"
  shows "fold (\<lambda>i k. k OR ws ! i) [n..<m] 0 = 0 \<longleftrightarrow> wval (take m ws) = wval (take n ws)"
    "wval (take m ws) \<noteq> wval (take n ws) \<Longrightarrow> 2 ^ (64 * n) \<le> wval (take m ws)"
proof -
  have split: "wval (take m ws) = wval (take n ws) + 2 ^ (64 * n) * wval (drop n (take m ws))"
    using wval_take_drop [of n "take m ws"] assms by (simp add: min_def)
  have "drop n (take m ws) = map ((!) ws) [n..<m]"
    by (rule nth_equalityI) (use assms in simp_all)
  then have "wval (drop n (take m ws)) = 0 \<longleftrightarrow> (\<forall>i \<in> {n..<m}. ws ! i = 0)"
    by (simp add: wval_0_iff)
  then show "fold (\<lambda>i k. k OR ws ! i) [n..<m] 0 = 0 \<longleftrightarrow> wval (take m ws) = wval (take n ws)"
    using split by (simp add: fold_or_0)
  show "2 ^ (64 * n) \<le> wval (take m ws)" if "wval (take m ws) \<noteq> wval (take n ws)"
    using split that by (cases "wval (drop n (take m ws))") simp_all
qed

lemma cmp_words_spec:
  assumes "m \<le> length a" "n \<le> length b"
  shows "bn_cmp_words_consttime a m b n = order32 (int (wval (take m a))) (int (wval (take n b)))"
proof -
  let ?a = "\<lambda>k. wval (take k a)" and ?b = "\<lambda>k. wval (take k b)"
  have bnd: "?a k < 2 ^ (64 * k)" "?b k < 2 ^ (64 * k)" if "k \<le> length a" "k \<le> length b" for k
    using wval_bound [of "take k a"] wval_bound [of "take k b"] that by simp_all
  consider "m < n" | "n < m" | "m = n" by linarith
  then show ?thesis
  proof cases
    case 1
    note r = wval_rest [of m n b]
    have "bn_cmp_words_consttime a m b n = (if ?b n = ?b m then order32 (int (?a m)) (int (?b m)) else - 1)"
      using 1 assms r(1) cmp_loop [of m a b] by (simp add: bn_cmp_words_consttime_def ct_spec)
    then show ?thesis using r(2) bnd [of m] 1 assms by (auto simp: order32_def)
  next
    case 2
    note r = wval_rest [of n m a]
    have "bn_cmp_words_consttime a m b n = (if ?a m = ?a n then order32 (int (?a n)) (int (?b n)) else 1)"
      using 2 assms r(1) cmp_loop [of n a b] by (simp add: bn_cmp_words_consttime_def ct_spec)
    then show ?thesis using r(2) bnd [of n] 2 assms by (auto simp: order32_def)
  next
    case 3
    then show ?thesis using assms cmp_loop [of n a b] by (simp add: bn_cmp_words_consttime_def)
  qed
qed

lemma ucmp_spec:
  "width a \<le> dmax a \<Longrightarrow> width b \<le> dmax b \<Longrightarrow> BN_ucmp a b = order32 (int (bn_nat a)) (int (bn_nat b))"
  by (simp add: BN_ucmp_def cmp_words_spec bn_nat_def)

lemma bn_int_sign: "bn_ok a \<Longrightarrow> bn_int a < 0 \<longleftrightarrow> neg a"
  by (auto simp: bn_ok_def bn_int_def)

lemma cmp_spec: "bn_ok a \<Longrightarrow> bn_ok b \<Longrightarrow> BN_cmp (Some a) (Some b) = order32 (bn_int a) (bn_int b)"
  using ucmp_spec [of a b] bn_int_sign [of a] bn_int_sign [of b]
  by (cases "neg a"; cases "neg b") (auto simp: bn_ok_def bn_int_def order32_def)

lemma abs_is_word_spec:
  assumes "width b \<le> dmax b"
  shows "BN_abs_is_word b w \<longleftrightarrow> bn_nat b = unat w"
proof (cases "width b = 0")
  case True
  then show ?thesis by (auto simp: BN_abs_is_word_def bn_nat_def unat_eq_0 eq_commute [of 0])
next
  case False
  then obtain x xs where ws: "take (width b) (d b) = x # xs" using assms by (cases "take (width b) (d b)") auto
  have nth: "d b ! i = (x # xs) ! i" if "i < width b" for i using that nth_take [of i "width b" "d b"] ws by simp
  have len: "width b = Suc (length xs)" using arg_cong [OF ws, of length] assms by simp
  have "(\<forall>i \<in> {1..<width b}. d b ! i = 0) \<longleftrightarrow> (\<forall>y \<in> set xs. y = 0)"
    using nth len by (force simp: in_set_conv_nth Suc_le_eq gr0_conv_Suc)
  then have "BN_abs_is_word b w \<longleftrightarrow> x = w \<and> wval xs = 0"
    using False nth [of 0] by (simp add: BN_abs_is_word_def fold_or_0 wval_0_iff)
  moreover have "bn_nat b = unat x + 2 ^ 64 * wval xs" by (simp add: bn_nat_def ws)
  ultimately show ?thesis
    using unat_u64_lt [of x] unat_u64_lt [of w] by (cases "wval xs") (auto simp: word_unat_eq_iff)
qed

lemma equal_spec:
  assumes "bn_ok a" "bn_ok b"
  shows "BN_equal_consttime a b \<longleftrightarrow> bn_int a = bn_int b"
proof -
  define k where "k = min (width a) (width b)"
  let ?xs = "take (width a) (d a)" and ?ys = "take (width b) (d b)"
  have len: "length ?xs = width a" "length ?ys = width b" using assms by (simp_all add: bn_ok_def)
  have "bn_nat a = bn_nat b \<longleftrightarrow> take k ?xs = take k ?ys \<and> wval (drop k ?xs) = 0 \<and> wval (drop k ?ys) = 0"
  proof -
    have s: "bn_nat a = wval (take k ?xs) + 2 ^ (64 * k) * wval (drop k ?xs)"
      "bn_nat b = wval (take k ?ys) + 2 ^ (64 * k) * wval (drop k ?ys)"
      unfolding bn_nat_def by (rule wval_take_drop; use len in \<open>simp add: k_def\<close>)+
    have lt: "wval (take k ?xs) < 2 ^ (64 * k)" "wval (take k ?ys) < 2 ^ (64 * k)"
      using wval_bound [of "take k ?xs"] wval_bound [of "take k ?ys"] len by (simp_all add: k_def)
    have e: "drop k ?xs = [] \<or> drop k ?ys = []" using len by (auto simp: k_def)
    have inj: "wval (take k ?xs) = wval (take k ?ys) \<longleftrightarrow> take k ?xs = take k ?ys"
      using wval_inject [of "take k ?xs" "take k ?ys"] len by (auto simp: k_def)
    show ?thesis
      unfolding s inj [symmetric] using e lt
      by (cases "wval (drop k ?xs)"; cases "wval (drop k ?ys)") auto
  qed
  also have "\<dots> \<longleftrightarrow> (\<forall>i \<in> {0..<k}. d a ! i = d b ! i) \<and> (\<forall>i \<in> {width b..<width a}. d a ! i = 0) \<and>
      (\<forall>i \<in> {width a..<width b}. d b ! i = 0)"
  proof -
    have "drop k ?xs = map ((!) (d a)) [width b..<width a]" "drop k ?ys = map ((!) (d b)) [width a..<width b]"
      by (rule nth_equalityI; use len in \<open>auto simp: k_def min_def\<close>)+
    moreover have "take k ?xs = take k ?ys \<longleftrightarrow> (\<forall>i \<in> {0..<k}. d a ! i = d b ! i)"
      using len by (auto simp: list_eq_iff_nth_eq k_def)
    ultimately show ?thesis by (simp add: wval_0_iff)
  qed
  finally have nat: "bn_nat a = bn_nat b \<longleftrightarrow> \<dots>" .
  have "(if width a < width b then width a else width b) = k" by (simp add: k_def)
  then have "BN_equal_consttime a b \<longleftrightarrow> bn_nat a = bn_nat b \<and> neg a = neg b"
    unfolding nat by (auto simp: BN_equal_consttime_def Let_def fold_or_0 or_eq_0_iff)
  then show ?thesis using assms by (auto simp: bn_int_def bn_ok_def)
qed

lemma is_odd_spec: "width b \<le> dmax b \<Longrightarrow> BN_is_odd b \<longleftrightarrow> odd (bn_nat b)"
proof (cases "take (width b) (d b)")
  case (Cons x xs)
  assume "width b \<le> dmax b"
  then have "0 < width b" "d b ! 0 = x" using Cons nth_take [of 0 "width b" "d b"] by (cases "width b"; simp)+
  moreover have "x AND 1 = 1 \<longleftrightarrow> odd (unat x)" by (simp add: and_one_eq word_unat_eq_iff unat_mod odd_iff_mod_2_eq_one)
  ultimately show ?thesis by (simp add: BN_is_odd_def bn_nat_def Cons)
qed (auto simp: BN_is_odd_def bn_nat_def)

section \<open>The number of bits\<close>

fun bit_len :: "nat \<Rightarrow> nat" where
  "bit_len n = (if n = 0 then 0 else Suc (bit_len (n div 2)))"

declare bit_len.simps [simp del]

lemma bit_len_bounds: "n < 2 ^ bit_len n" "n \<noteq> 0 \<Longrightarrow> 2 ^ (bit_len n - 1) \<le> n"
proof (induction n rule: bit_len.induct)
  case (1 n)
  { case 1
    then show ?case using "1.IH"(1) by (subst bit_len.simps) (auto simp: less_mult_imp_div_less)
  next
    case 2
    then show ?case
    proof (cases "n = 1")
      case False
      then have "n div 2 \<noteq> 0" using 2 by auto
      then have "2 ^ (bit_len (n div 2) - 1) \<le> n div 2" "bit_len (n div 2) \<noteq> 0"
        using "1.IH"(2) 2 by (simp_all add: bit_len.simps [of "n div 2"])
      then have "2 * 2 ^ (bit_len (n div 2) - 1) \<le> n" by linarith
      then show ?thesis using 2 \<open>bit_len (n div 2) \<noteq> 0\<close> by (subst bit_len.simps) (simp flip: power_Suc)
    qed (simp add: bit_len.simps)
  }
qed

lemma bit_len_div: "2 ^ k \<le> n \<Longrightarrow> bit_len n = k + bit_len (n div 2 ^ k)"
proof (induction k arbitrary: n)
  case (Suc k)
  have "2 ^ k \<le> n div 2" using Suc.prems by simp
  moreover have "n \<noteq> 0" using Suc.prems zero_less_power [of "2 :: nat" "Suc k"] by linarith
  ultimately show ?case using Suc.IH [of "n div 2"] by (subst bit_len.simps) (simp add: div_mult2_eq)
qed simp

lemma num_bits_step:
  assumes "unat l < 2 ^ (2 * k)" "0 < k" "k \<le> 32" "unat bits + k < 2 ^ 64" "num_bits_step k (l, bits) = (l', bits')"
  shows "unat l' < 2 ^ k" "unat l' = 0 \<longleftrightarrow> unat l = 0"
    "unat bits' + bit_len (unat l') = unat bits + bit_len (unat l)" "unat bits' \<le> unat bits + k"
proof -
  define x where "x = drop_bit k l"
  have x: "unat x = unat l div 2 ^ k" by (simp only: x_def unat_drop_bit_eq drop_bit_eq_div [of k "unat l"])
  have sq: "(2 :: nat) ^ (2 * k) = 2 ^ k * 2 ^ k" by (simp add: mult_2 power_add)
  have lt: "unat x < 2 ^ k" unfolding x by (rule less_mult_imp_div_less) (use assms(1) sq in simp)
  also have "(2 :: nat) ^ k \<le> 2 ^ 32" by (rule power_increasing) (use assms(3) in simp_all)
  finally have x32: "unat x < 2 ^ 32" .
  have m: "0 - drop_bit (64 - 1) (0 - x) = (if x = 0 then 0 else - 1)"
  proof (cases "x = 0")
    case False
    have "uint (0 - x) = (- uint x) mod 2 ^ 64" by (simp add: uint_word_ariths)
    also have "\<dots> = 2 ^ 64 - uint x"
      using False uint_bounded [of x] by (simp add: zmod_zminus1_eq_if uint_0_iff)
    finally have u: "int (unat (0 - x)) = 2 ^ 64 - int (unat x)" by simp
    have "int (unat x) < int (2 ^ 32)" using x32 by (simp only: of_nat_less_iff)
    then have "int (2 ^ 63) \<le> int (unat (0 - x))" unfolding u by simp
    then have "2 ^ 63 \<le> unat (0 - x)" by (simp only: of_nat_le_iff)
    then show ?thesis using False msb_w_spec [of "0 - x"] by (simp add: constant_time_msb_w_def)
  qed simp
  have "l XOR (x XOR l) = x" by (simp add: xor.left_commute [of l x l])
  then have step: "(l', bits') = (if x = 0 then (l, bits) else (x, bits + of_nat k))"
    using assms(5) unfolding num_bits_step_def case_prod_conv Let_def x_def [symmetric] m by (simp split: if_splits)
  have k: "unat (bits + of_nat k) = unat bits + k"
    using assms(3,4) by (simp add: unat_word_ariths unat_of_nat_small)
  have "unat l' < 2 ^ k \<and> (unat l' = 0 \<longleftrightarrow> unat l = 0) \<and>
    unat bits' + bit_len (unat l') = unat bits + bit_len (unat l) \<and> unat bits' \<le> unat bits + k"
  proof (cases "x = 0")
    case True
    then have "unat l < 2 ^ k" using x by (simp add: div_eq_0_iff)
    then show ?thesis using step True by simp
  next
    case False
    then have "unat l div 2 ^ k \<noteq> 0" using x by (simp add: unat_eq_0 [symmetric])
    then have "2 ^ k \<le> unat l" by (simp add: div_eq_0_iff not_less)
    then show ?thesis using step False lt x k bit_len_div [of k "unat l"] \<open>unat l div 2 ^ k \<noteq> 0\<close> by auto
  qed
  then show "unat l' < 2 ^ k" "unat l' = 0 \<longleftrightarrow> unat l = 0"
    "unat bits' + bit_len (unat l') = unat bits + bit_len (unat l)" "unat bits' \<le> unat bits + k" by blast+
qed

lemma num_bits_word: "unat (BN_num_bits_word w) = bit_len (unat w)"
proof -
  define b0 where "b0 = (if w \<noteq> 0 then 1 else 0 :: u64)"
  obtain l1 b1 l2 b2 l3 b3 l4 b4 l5 b5 l6 b6 where s:
    "num_bits_step 32 (w, b0) = (l1, b1)" "num_bits_step 16 (l1, b1) = (l2, b2)" "num_bits_step 8 (l2, b2) = (l3, b3)"
    "num_bits_step 4 (l3, b3) = (l4, b4)" "num_bits_step 2 (l4, b4) = (l5, b5)" "num_bits_step 1 (l5, b5) = (l6, b6)"
    by (metis surj_pair)
  have r: "BN_num_bits_word w = b6" unfolding BN_num_bits_word_def b0_def [symmetric] Let_def s case_prod_conv ..
  have b0: "unat b0 \<le> 1" by (simp add: b0_def)
  have 1: "unat l1 < 2 ^ 32" "unat l1 = 0 \<longleftrightarrow> unat w = 0" "unat b1 + bit_len (unat l1) = unat b0 + bit_len (unat w)"
    "unat b1 \<le> 33"
    using num_bits_step [OF _ _ _ _ s(1)] unat_u64_lt [of w] b0 by simp_all
  have 2: "unat l2 < 2 ^ 16" "unat l2 = 0 \<longleftrightarrow> unat w = 0" "unat b2 + bit_len (unat l2) = unat b0 + bit_len (unat w)"
    "unat b2 \<le> 49"
    using num_bits_step [OF _ _ _ _ s(2)] 1 by simp_all
  have 3: "unat l3 < 2 ^ 8" "unat l3 = 0 \<longleftrightarrow> unat w = 0" "unat b3 + bit_len (unat l3) = unat b0 + bit_len (unat w)"
    "unat b3 \<le> 57"
    using num_bits_step [OF _ _ _ _ s(3)] 2 by simp_all
  have 4: "unat l4 < 2 ^ 4" "unat l4 = 0 \<longleftrightarrow> unat w = 0" "unat b4 + bit_len (unat l4) = unat b0 + bit_len (unat w)"
    "unat b4 \<le> 61"
    using num_bits_step [OF _ _ _ _ s(4)] 3 by simp_all
  have 5: "unat l5 < 2 ^ 2" "unat l5 = 0 \<longleftrightarrow> unat w = 0" "unat b5 + bit_len (unat l5) = unat b0 + bit_len (unat w)"
    "unat b5 \<le> 63"
    using num_bits_step [OF _ _ _ _ s(5)] 4 by simp_all
  have 6: "unat l6 < 2" "unat l6 = 0 \<longleftrightarrow> unat w = 0" "unat b6 + bit_len (unat l6) = unat b0 + bit_len (unat w)"
    using num_bits_step [OF _ _ _ _ s(6)] 5 by simp_all
  have "bit_len (unat l6) = unat b0"
    using 6(1,2) by (cases "unat l6") (auto simp: bit_len.simps b0_def unat_eq_0)
  then show ?thesis using 6(3) r by simp
qed

lemma bit_len_word: "bit_len (unat w) \<le> 64" for w :: u64
proof (rule ccontr)
  assume gt: "\<not> bit_len (unat w) \<le> 64"
  then have "unat w \<noteq> 0" by (intro notI) (simp add: bit_len.simps)
  then have "2 ^ (bit_len (unat w) - 1) \<le> unat w" by (rule bit_len_bounds(2))
  moreover have "2 ^ 64 \<le> (2 :: nat) ^ (bit_len (unat w) - 1)" using gt by (intro power_increasing) simp_all
  ultimately show False using unat_u64_lt [of w] by linarith
qed

text \<open>Up to 2 to the 25 words nothing wraps around.\<close>

lemma num_bits_spec:
  assumes "width b \<le> dmax b" "bn_minimal_width b \<le> 2 ^ 25"
  shows "unat (BN_num_bits b) = bit_len (bn_nat b)" "bit_len (bn_nat b) \<le> 2 ^ 31"
    "bn_minimal_width b = (bit_len (bn_nat b) + 63) div 64"
proof -
  have "unat (BN_num_bits b) = bit_len (bn_nat b) \<and> bit_len (bn_nat b) \<le> 2 ^ 31 \<and>
    bn_minimal_width b = (bit_len (bn_nat b) + 63) div 64"
  proof (cases "bn_minimal_width b = 0")
    case True
    then show ?thesis using minimal_width(3) [OF assms(1)] by (simp add: BN_num_bits_def bit_len.simps)
  next
    case False
    define k where "k = bn_minimal_width b - 1"
    have k: "bn_minimal_width b = Suc k" "k < dmax b" using False minimal_width(1) [OF assms(1)] assms(1) by (simp_all add: k_def)
    have val: "bn_nat b = wval (take k (d b)) + 2 ^ (64 * k) * unat (d b ! k)"
      using minimal_width(2) [OF assms(1)] k by (simp add: take_Suc_conv_app_nth wval_append)
    have low: "wval (take k (d b)) < 2 ^ (64 * k)" using wval_bound [of "take k (d b)"] k(2) by simp
    have "bn_nat b div 2 ^ (64 * k) = unat (d b ! k)" unfolding val using low by simp
    moreover have "2 ^ (64 * k) \<le> bn_nat b" using minimal_width(5) [OF assms(1)] k by simp
    ultimately have len: "bit_len (bn_nat b) = k * 64 + bit_len (unat (d b ! k))" using bit_len_div by simp
    define t where "t = bit_len (unat (d b ! k))"
    have "d b ! k \<noteq> 0" using minimal_width(4) [OF assms(1)] False by (simp add: k_def)
    then have t: "t \<le> 64" "0 < t" by (simp_all add: t_def bit_len_word) (simp add: bit_len.simps unat_eq_0)
    have lt: "k * 64 + t \<le> 2 ^ 31" using assms(2) k(1) t(1) by simp
    have "ucast (BN_num_bits_word (d b ! k)) = (of_nat t :: u32)"
      unfolding t_def num_bits_word [symmetric] by simp
    then have "BN_num_bits b = of_nat (k * 64 + t)" by (simp add: BN_num_bits_def Let_def k)
    then have "unat (BN_num_bits b) = k * 64 + t" using lt by (simp only:) (rule unat_of_nat_small, simp)
    moreover have "(k * 64 + t + 63) div 64 = Suc k" using t by (intro div_nat_eqI) simp_all
    ultimately show ?thesis using len lt by (simp add: k t_def)
  qed
  then show "unat (BN_num_bits b) = bit_len (bn_nat b)" "bit_len (bn_nat b) \<le> 2 ^ 31"
    "bn_minimal_width b = (bit_len (bn_nat b) + 63) div 64" by blast+
qed

lemma num_bytes_spec:
  assumes "width b \<le> dmax b" "bn_minimal_width b \<le> 2 ^ 25"
  shows "unat (BN_num_bytes b) = (bit_len (bn_nat b) + 7) div 8"
proof -
  have "unat (BN_num_bits b + 7) = bit_len (bn_nat b) + 7"
    using num_bits_spec [OF assms] by (subst unat_add_lem [THEN iffD1]) simp_all
  then show ?thesis by (simp add: BN_num_bytes_def unat_div)
qed

section \<open>Properties\<close>

text \<open>The addition and subtraction of signed numbers, as a specification: the store afterwards, for a result
  \<open>v\<close> in \<open>r\<close>.\<close>

definition computes :: "bns \<Rightarrow> nat \<Rightarrow> int \<Rightarrow> bns \<Rightarrow> bool" where
  "computes h r v h' \<longleftrightarrow>
    bn_int (h' r) = v \<and> bn_ok (h' r) \<and> minimal (h' r) \<and> (\<forall>p. p \<noteq> r \<longrightarrow> h' p = h p)"

lemma becomes_computes:
  assumes "becomes h r v h'" "minimal (h' r)" "s \<Longrightarrow> v \<noteq> 0"
  shows "computes h r (if s then - int v else int v) (h'(r := (h' r)\<lparr>neg := s\<rparr>))"
  using assms by (auto simp: becomes_def computes_def bn_int_def bn_ok_def bn_nat_def minimal_def bn_minimal_width_def)

lemma usub_signed_spec:
  assumes "width (h a) \<le> dmax (h a)" "width (h b) \<le> dmax (h b)" "width (h r) \<le> dmax (h r)"
    "usub_signed g junk h r a b = (ok, h')"
  shows "ok \<Longrightarrow> computes h r (int (bn_nat (h a)) - int (bn_nat (h b))) h'"
    "\<not> ok \<Longrightarrow> h' = h \<and> cannot_expand g (h r) (if bn_nat (h a) < bn_nat (h b) then width (h b) else width (h a))"
proof -
  have cmp: "sint (BN_ucmp (h a) (h b)) < 0 \<longleftrightarrow> bn_nat (h a) < bn_nat (h b)"
    using ucmp_spec [OF assms(1,2)] order32_sign(1) by simp
  let ?lt = "bn_nat (h a) < bn_nat (h b)"
  define x y where "x = (if ?lt then b else a)" and "y = (if ?lt then a else b)"
  have fit: "width (h x) \<le> dmax (h x)" "width (h y) \<le> dmax (h y)" "bn_nat (h y) \<le> bn_nat (h x)"
    using assms(1,2) by (simp_all add: x_def y_def)
  obtain e h1 where e: "BN_usub g junk h r x y = (e, h1)" by fastforce
  note spec = usub_spec [OF fit(1,2) assms(3) fit(3) e]
  have res: "ok = e \<and> h' = (if e then h1(r := (h1 r)\<lparr>neg := ?lt\<rparr>) else h1)"
    using assms(4) e unfolding usub_signed_def cmp x_def y_def by (cases ?lt; cases e) auto
  show "\<not> ok \<Longrightarrow> h' = h \<and> cannot_expand g (h r) (if ?lt then width (h b) else width (h a))"
    using spec(1,2) res by (auto simp: x_def split: if_splits)
  assume ok
  then have "becomes h r (bn_nat (h x) - bn_nat (h y)) h1" "minimal (h1 r)" using spec(3) res by auto
  then have "computes h r (if ?lt then - int (bn_nat (h x) - bn_nat (h y)) else int (bn_nat (h x) - bn_nat (h y))) h'"
    using becomes_computes [of h r _ h1 ?lt] res \<open>ok\<close> by (simp add: x_def y_def)
  then show "computes h r (int (bn_nat (h a)) - int (bn_nat (h b))) h'"
    by (simp add: x_def y_def of_nat_diff split: if_splits)
qed

lemma uadd_signed_spec:
  assumes "width (h a) \<le> dmax (h a)" "width (h b) \<le> dmax (h b)" "width (h r) \<le> dmax (h r)"
    "BN_uadd g junk h r a b = (ok, h1)" "s \<Longrightarrow> bn_nat (h a) + bn_nat (h b) \<noteq> 0"
  shows "ok \<Longrightarrow> computes h r (if s then - int (bn_nat (h a) + bn_nat (h b)) else int (bn_nat (h a) + bn_nat (h b)))
      (h1(r := (h1 r)\<lparr>neg := s\<rparr>))"
    "\<not> ok \<Longrightarrow> h1 = h \<and> cannot_expand g (h r) (max (width (h a)) (width (h b)) + 1)"
  using uadd_spec [OF assms(1-4)] becomes_computes [of h r _ h1 s] assms(5) by auto

text \<open>Why a result has too few words.\<close>

definition too_few :: "(nat \<Rightarrow> bool) \<Rightarrow> bns \<Rightarrow> nat \<Rightarrow> nat \<Rightarrow> nat \<Rightarrow> bool" where
  "too_few g h r a b \<longleftrightarrow> (\<exists>n \<le> max (width (h a)) (width (h b)) + 1. cannot_expand g (h r) n)"

lemma usub_signed_outcome:
  assumes w: "width (h a) \<le> dmax (h a)" "width (h b) \<le> dmax (h b)" "width (h r) \<le> dmax (h r)"
    and "(p, q) \<in> {(a, b), (b, a)}"
  shows "case usub_signed g junk h r p q of
      (True, h') \<Rightarrow> computes h r (int (bn_nat (h p)) - int (bn_nat (h q))) h'
    | (False, h') \<Rightarrow> h' = h \<and> too_few g h r a b"
proof -
  obtain ok h1 where o: "usub_signed g junk h r p q = (ok, h1)" by fastforce
  have pq: "width (h p) \<le> dmax (h p)" "width (h q) \<le> dmax (h q)"
    "(if bn_nat (h p) < bn_nat (h q) then width (h q) else width (h p)) \<le> max (width (h a)) (width (h b)) + 1"
    using assms by auto
  note s = usub_signed_spec [OF pq(1,2) w(3) o]
  show ?thesis
  proof (cases ok)
    case False
    then have "h1 = h" "too_few g h r a b" unfolding too_few_def using s(2) pq(3) by blast+
    then show ?thesis using False o by simp
  qed (use s(1) o in simp)
qed

lemma bn_add_outcome:
  fixes h :: bns
  assumes "bn_ok (h a)" "bn_ok (h b)" "bn_ok (h r)"
  shows "case BN_add g junk h r a b of
      (True, h') \<Rightarrow> computes h r (bn_int (h a) + bn_int (h b)) h'
    | (False, h') \<Rightarrow> (\<forall>p. p \<noteq> r \<longrightarrow> h' p = h p) \<and> too_few g h r a b"
proof -
  have w: "width (h a) \<le> dmax (h a)" "width (h b) \<le> dmax (h b)" "width (h r) \<le> dmax (h r)"
    and nz: "neg (h a) \<Longrightarrow> bn_nat (h a) \<noteq> 0"
    using assms by (auto simp: bn_ok_def)
  note sub = usub_signed_outcome [OF w, where g = g and junk = junk]
  obtain e h1 where e: "BN_uadd g junk h r a b = (e, h1)" by fastforce
  have add: "e \<Longrightarrow> computes h r (if neg (h a) then - int (bn_nat (h a) + bn_nat (h b)) else int (bn_nat (h a) + bn_nat (h b)))
      (h1(r := (h1 r)\<lparr>neg := neg (h a)\<rparr>))"
    "\<not> e \<Longrightarrow> h1 = h \<and> too_few g h r a b"
    using uadd_signed_spec [OF w e, of "neg (h a)"] nz unfolding too_few_def by auto
  show ?thesis
  proof (cases "neg (h a) = neg (h b)")
    case True
    have "BN_add g junk h r a b = (e, h1(r := (h1 r)\<lparr>neg := neg (h a)\<rparr>))"
      using True e by (simp add: BN_add_def Let_def)
    moreover have "bn_int (h a) + bn_int (h b) =
        (if neg (h a) then - int (bn_nat (h a) + bn_nat (h b)) else int (bn_nat (h a) + bn_nat (h b)))"
      using True by (simp add: bn_int_def)
    ultimately show ?thesis using add by (cases e) auto
  next
    case False
    then show ?thesis
    proof (cases "neg (h a)")
      case True
      then show ?thesis using False sub [of b a]
        by (simp add: BN_add_def bn_int_def Let_def split: prod.splits bool.splits)
    next
      case a: False
      then show ?thesis using False sub [of a b]
        by (simp add: BN_add_def bn_int_def Let_def split: prod.splits bool.splits)
    qed
  qed
qed

lemma bn_sub_outcome:
  fixes h :: bns
  assumes "bn_ok (h a)" "bn_ok (h b)" "bn_ok (h r)"
  shows "case BN_sub g junk h r a b of
      (True, h') \<Rightarrow> computes h r (bn_int (h a) - bn_int (h b)) h'
    | (False, h') \<Rightarrow> h' = h \<and> too_few g h r a b"
proof -
  have w: "width (h a) \<le> dmax (h a)" "width (h b) \<le> dmax (h b)" "width (h r) \<le> dmax (h r)"
    and nz: "neg (h a) \<Longrightarrow> bn_nat (h a) \<noteq> 0"
    using assms by (auto simp: bn_ok_def)
  note sub = usub_signed_outcome [OF w, where g = g and junk = junk]
  obtain e h1 where e: "BN_uadd g junk h r a b = (e, h1)" by fastforce
  have add: "e \<Longrightarrow> computes h r (if neg (h a) then - int (bn_nat (h a) + bn_nat (h b)) else int (bn_nat (h a) + bn_nat (h b)))
      (h1(r := (h1 r)\<lparr>neg := neg (h a)\<rparr>))"
    "\<not> e \<Longrightarrow> h1 = h \<and> too_few g h r a b"
    using uadd_signed_spec [OF w e, of "neg (h a)"] nz unfolding too_few_def by auto
  show ?thesis
  proof (cases "neg (h a) = neg (h b)")
    case False
    have "BN_sub g junk h r a b = (e, if e then h1(r := (h1 r)\<lparr>neg := neg (h a)\<rparr>) else h1)"
      using False e by (cases e) (auto simp: BN_sub_def)
    moreover have "bn_int (h a) - bn_int (h b) =
        (if neg (h a) then - int (bn_nat (h a) + bn_nat (h b)) else int (bn_nat (h a) + bn_nat (h b)))"
      using False by (simp add: bn_int_def)
    ultimately show ?thesis using add by (cases e) auto
  next
    case True
    then show ?thesis
    proof (cases "neg (h a)")
      case a: True
      then show ?thesis using True sub [of b a]
        by (simp add: BN_sub_def bn_int_def Let_def split: prod.splits bool.splits)
    next
      case a: False
      then show ?thesis using True sub [of a b]
        by (simp add: BN_sub_def bn_int_def Let_def split: prod.splits bool.splits)
    qed
  qed
qed

text \<open>C25: \<open>BN_add\<close> and \<open>BN_sub\<close> compute the sum and the difference of the two integers. Operands of any signs
  and widths, with leading zero words or not; the result may be either operand or both; on success it is
  minimal, never a negative zero, and every other number is as it was. They fail only if the result has
  too few words and cannot be given more, and then no number but the result is touched.\<close>

theorem bn_add_sub_exact:
  assumes "bn_ok (h a)" "bn_ok (h b)" "bn_ok (h r)"
  shows "(case BN_add g junk h r a b of
      (True, h') \<Rightarrow> computes h r (bn_int (h a) + bn_int (h b)) h'
    | (False, h') \<Rightarrow> (\<forall>p. p \<noteq> r \<longrightarrow> h' p = h p) \<and> too_few g h r a b) \<and>
    (case BN_sub g junk h r a b of
      (True, h') \<Rightarrow> computes h r (bn_int (h a) - bn_int (h b)) h'
    | (False, h') \<Rightarrow> h' = h \<and> too_few g h r a b)"
  by (rule conjI [OF bn_add_outcome [OF assms] bn_sub_outcome [OF assms]])

text \<open>A number doubled in place, with a carry into a word it did not have.\<close>

definition sample_bns :: bns where
  "sample_bns = (\<lambda>_. \<lparr>d = [- 1], width = 1, neg = True, static_data = False\<rparr>)"

lemma sample_bns: "bn_ok (sample_bns p)" "bn_int (sample_bns p) = - (2 ^ 64 - 1)"
  by (simp_all add: bn_ok_def bn_int_def bn_nat_def sample_bns_def unsigned_minus_1_eq_mask mask_eq_exp_minus_1)

theorem bn_add_sub_exact_witness:
  "\<exists>h'. BN_add (\<lambda>_. True) (\<lambda>_. 0) sample_bns 0 0 0 = (True, h') \<and> bn_int (h' 0) = - 2 * (2 ^ 64 - 1)"
proof -
  have "\<not> too_few (\<lambda>_. True) sample_bns 0 0 0"
    by (auto simp: too_few_def cannot_expand_def sample_bns_def INT_MAX_def)
  then show ?thesis
    using bn_add_sub_exact [where h = sample_bns and g = "\<lambda>_. True" and junk = "\<lambda>_. 0", OF sample_bns(1) sample_bns(1) sample_bns(1), of 0 0 0]
    by (auto simp: computes_def sample_bns(2) split: prod.splits bool.splits)
qed

text \<open>C27: the comparisons, which look at all words without a branch, compare the integers, whatever the
  widths: \<open>BN_cmp\<close> and \<open>BN_ucmp\<close> give the order of the integers and of their absolute values as -1, 0 or
  1, \<open>BN_cmp_word\<close> that of an integer and a word; \<open>BN_equal_consttime\<close>, \<open>BN_is_zero\<close>, \<open>BN_is_one\<close>,
  \<open>BN_is_word\<close>, \<open>BN_abs_is_word\<close>, \<open>BN_is_odd\<close> and \<open>bn_fits_in_words\<close> decide what they say.\<close>

theorem bn_compare_exact:
  assumes "bn_ok a" "bn_ok b"
  shows "BN_cmp (Some a) (Some b) = order32 (bn_int a) (bn_int b) \<and>
    BN_ucmp a b = order32 \<bar>bn_int a\<bar> \<bar>bn_int b\<bar> \<and>
    BN_cmp_word a w = order32 (bn_int a) (uint w) \<and>
    (BN_equal_consttime a b \<longleftrightarrow> bn_int a = bn_int b) \<and>
    (BN_is_zero a \<longleftrightarrow> bn_int a = 0) \<and> (BN_is_one a \<longleftrightarrow> bn_int a = 1) \<and>
    (BN_is_word a w \<longleftrightarrow> bn_int a = uint w) \<and> (BN_abs_is_word a w \<longleftrightarrow> \<bar>bn_int a\<bar> = uint w) \<and>
    (BN_is_odd a \<longleftrightarrow> odd (bn_int a)) \<and> (bn_fits_in_words a n \<longleftrightarrow> \<bar>bn_int a\<bar> < 2 ^ (64 * n))"
proof -
  have w: "width a \<le> dmax a" "width b \<le> dmax b" using assms by (simp_all add: bn_ok_def)
  have abs: "\<bar>bn_int c\<bar> = int (bn_nat c)" for c by (simp add: bn_int_def)
  let ?w = "\<lparr>d = [w], width = (if 0 < w then 1 else 0), neg = False, static_data = True\<rparr>"
  have "bn_ok ?w" "bn_int ?w = uint w"
    by (cases "w = 0"; simp add: bn_ok_def bn_int_def bn_nat_def word_gt_0)+
  then have word: "BN_cmp_word a w = order32 (bn_int a) (uint w)"
    using cmp_spec [OF assms(1), of ?w] by (simp only: BN_cmp_word_def)
  have zero: "BN_is_zero a \<longleftrightarrow> bn_int a = 0" using is_zero_iff [OF w(1)] by (simp add: bn_int_def)
  have abs_word: "BN_abs_is_word a v \<longleftrightarrow> \<bar>bn_int a\<bar> = uint v" for v
  proof -
    have "int (unat v) = uint v" by simp
    then show ?thesis using abs_is_word_spec [OF w(1), of v] unfolding abs by (metis of_nat_eq_iff)
  qed
  have is_word: "BN_is_word a v \<longleftrightarrow> bn_int a = uint v" for v
    unfolding BN_is_word_def abs_word using bn_int_sign [OF assms(1)] uint_bounded [of v]
    by (auto simp: bn_int_def abs_if uint_0_iff)
  have one: "BN_is_one a \<longleftrightarrow> bn_int a = 1"
    using is_word [of 1] by (auto simp: BN_is_one_def BN_is_word_def)
  have fits: "bn_fits_in_words a n \<longleftrightarrow> \<bar>bn_int a\<bar> < 2 ^ (64 * n)"
    unfolding fits_words_iff [OF w(1)] abs by (metis of_nat_less_iff of_nat_numeral of_nat_power)
  have odd: "BN_is_odd a \<longleftrightarrow> odd (bn_int a)" using is_odd_spec [OF w(1)] by (simp add: bn_int_def)
  show ?thesis
    using cmp_spec [OF assms] ucmp_spec [OF w] word equal_spec [OF assms] zero one is_word [of w] abs_word [of w] odd fits
    unfolding abs by blast
qed

theorem bn_compare_exact_witness: "BN_cmp_word (sample_bns 0) 5 = - 1"
  using bn_compare_exact [OF sample_bns(1) [of 0] sample_bns(1) [of 0], of 5 0] unfolding sample_bns(2)
  by (simp add: order32_def)

text \<open>C28: \<open>BN_num_bits\<close> is the length of the number in bits: without a branch on the top word and whatever
  the number of leading zero words, the absolute value is below 2 to that power, and unless it is zero
  at least 2 to the power before; \<open>bn_minimal_width\<close> and \<open>BN_num_bytes\<close> are the lengths in words and
  bytes. The count is kept in 32 bits and its product in an \<^verbatim>\<open>int\<close>: this holds up to 2 to the 25 words without
  the leading zero words, where the product is at most \<^verbatim>\<open>INT_MAX\<close>. (\<open>bn_wexpand\<close> refuses numbers of more than
  \<^verbatim>\<open>INT_MAX / 256\<close> words, which is less.)\<close>

theorem bn_num_bits_exact:
  assumes "bn_ok b" "bn_minimal_width b \<le> 2 ^ 25"
  shows "\<bar>bn_int b\<bar> < 2 ^ unat (BN_num_bits b) \<and>
    (bn_int b \<noteq> 0 \<longrightarrow> 2 ^ (unat (BN_num_bits b) - 1) \<le> \<bar>bn_int b\<bar>) \<and>
    (BN_num_bits b = 0 \<longleftrightarrow> bn_int b = 0) \<and>
    bn_minimal_width b = (unat (BN_num_bits b) + 63) div 64 \<and>
    unat (BN_num_bytes b) = (unat (BN_num_bits b) + 7) div 8"
proof -
  have w: "width b \<le> dmax b" using assms(1) by (simp add: bn_ok_def)
  have abs: "\<bar>bn_int b\<bar> = int (bn_nat b)" "bn_int b = 0 \<longleftrightarrow> bn_nat b = 0" by (simp_all add: bn_int_def)
  note bits = num_bits_spec [OF w assms(2)]
  have lt: "int (bn_nat b) < 2 ^ bit_len (bn_nat b)"
    using bit_len_bounds(1) [of "bn_nat b"] by (metis of_nat_less_iff of_nat_numeral of_nat_power)
  have ge: "bn_nat b \<noteq> 0 \<longrightarrow> 2 ^ (bit_len (bn_nat b) - 1) \<le> int (bn_nat b)"
    using bit_len_bounds(2) [of "bn_nat b"] by (metis of_nat_le_iff of_nat_numeral of_nat_power)
  have "bit_len (bn_nat b) = 0 \<longleftrightarrow> bn_nat b = 0" by (simp add: bit_len.simps)
  then have "BN_num_bits b = 0 \<longleftrightarrow> bn_nat b = 0" using bits(1) by (metis unat_eq_0)
  then show ?thesis unfolding abs bits(1) num_bytes_spec [OF w assms(2)] using lt ge bits(3) by simp
qed

theorem bn_num_bits_exact_witness: "BN_num_bits (sample_bns 0) \<noteq> 0"
proof -
  have "width (sample_bns 0) \<le> dmax (sample_bns 0)" using sample_bns(1) [of 0] by (simp add: bn_ok_def)
  then have "bn_minimal_width (sample_bns 0) \<le> 2 ^ 25"
    using minimal_width(1) [of "sample_bns 0"] by (simp add: sample_bns_def)
  then show ?thesis using bn_num_bits_exact [OF sample_bns(1)] unfolding sample_bns(2) by simp
qed

text \<open>The documentation of \<^verbatim>\<open>BN_uadd\<close> promises the sum of two numbers that are not negative; but the sign
  that the result had before stays.\<close>

theorem bn_uadd_keeps_sign:
  assumes "bn_ok (h a)" "bn_ok (h b)" "bn_ok (h r)" "BN_uadd g junk h r a b = (True, h')"
  shows "bn_int (h' r) = (if neg (h r) then - (\<bar>bn_int (h a)\<bar> + \<bar>bn_int (h b)\<bar>) else \<bar>bn_int (h a)\<bar> + \<bar>bn_int (h b)\<bar>)"
  using uadd_spec(3) [OF _ _ _ assms(4)] assms(1-3) by (auto simp: bn_ok_def becomes_def bn_int_def)

section \<open>A word added or subtracted\<close>

lemma wval_update:
  "i < length ws \<Longrightarrow> wval (ws[i := x]) + 2 ^ (64 * i) * unat (ws ! i) = wval ws + 2 ^ (64 * i) * unat x"
proof (induction ws arbitrary: i)
  case (Cons w ws)
  show ?case
  proof (cases i)
    case (Suc j)
    then have "wval (ws[j := x]) + 2 ^ (64 * j) * unat (ws ! j) = wval ws + 2 ^ (64 * j) * unat x"
      using Cons by simp
    then have "2 ^ 64 * (wval (ws[j := x]) + 2 ^ (64 * j) * unat (ws ! j)) = 2 ^ 64 * (wval ws + 2 ^ (64 * j) * unat x)"
      by (rule arg_cong)
    then show ?thesis by (simp add: Suc power_add distrib_left mult.assoc)
  qed simp
qed simp

lemma add_word_loop:
  assumes "n \<le> length ws" "i \<le> n" "add_word_loop ws i n w = (ws', i', w')"
  shows "length ws' = length ws \<and> (w' = 0 \<or> i' = n) \<and>
    wval (take n ws') + 2 ^ (64 * n) * unat w' = wval (take n ws) + 2 ^ (64 * i) * unat w"
  using assms
proof (induction ws i n w rule: add_word_loop.induct)
  case (1 ws i n w)
  show ?case
  proof (cases "w \<noteq> 0 \<and> i < n")
    case False
    then show ?thesis using 1 by (subst (asm) (2) add_word_loop.simps) auto
  next
    case True
    define l where "l = ws ! i + w"
    define c :: u64 where "c = (if l < w then 1 else 0)"
    have run: "add_word_loop (ws[i := l]) (i + 1) n c = (ws', i', w')"
      using 1(4) True by (subst (asm) add_word_loop.simps) (simp add: l_def c_def Let_def)
    have IH: "length ws' = length ws \<and> (w' = 0 \<or> i' = n) \<and>
        wval (take n ws') + 2 ^ (64 * n) * unat w' = wval (take n (ws[i := l])) + 2 ^ (64 * (i + 1)) * unat c"
      using "1.IH" [OF True l_def] run "1.prems" True by (simp add: c_def)
    have "unat l + 2 ^ 64 * unat c = unat (ws ! i) + unat w"
      using add_carry [of "ws ! i" w] by (cases "ws ! i + w < w") (simp_all add: l_def c_def)
    then have "2 ^ (64 * i) * (unat l + 2 ^ 64 * unat c) = 2 ^ (64 * i) * (unat (ws ! i) + unat w)" by (rule arg_cong)
    moreover have "wval (take n (ws[i := l])) + 2 ^ (64 * i) * unat (ws ! i) = wval (take n ws) + 2 ^ (64 * i) * unat l"
      using wval_update [of i "take n ws" l] True "1.prems" by (simp add: take_update_swap)
    ultimately show ?thesis using IH by (simp add: power_add distrib_left)
  qed
qed

lemma sub_word_loop:
  assumes "n \<le> length ws" "i \<le> n" "unat w \<le> wval (drop i (take n ws))" "w \<noteq> 0"
  shows "\<exists>ws' i'. sub_word_loop ws i w = Some (ws', i') \<and> length ws' = length ws \<and> i' < n \<and>
    wval (take n ws') + 2 ^ (64 * i) * unat w = wval (take n ws)"
  using assms
proof (induction ws i w rule: sub_word_loop.induct)
  case (1 ws i w)
  have "i < n"
  proof (rule ccontr)
    assume "\<not> i < n"
    then have "wval (drop i (take n ws)) = 0" by simp
    then show False using "1.prems"(3,4) by (simp add: unat_eq_0)
  qed
  then have i: "i < length ws" using "1.prems"(1) by simp
  have dr: "drop i (take n ws) = ws ! i # drop (i + 1) (take n ws)"
    using Cons_nth_drop_Suc [of i "take n ws"] \<open>i < n\<close> "1.prems"(1) by simp
  have upd: "wval (take n (ws[i := x])) + 2 ^ (64 * i) * unat (ws ! i) = wval (take n ws) + 2 ^ (64 * i) * unat x" for x
    using wval_update [of i "take n ws" x] \<open>i < n\<close> "1.prems"(1) by (simp add: take_update_swap)
  show ?case
  proof (cases "w \<le> ws ! i")
    case True
    then have "unat (ws ! i - w) + unat w = unat (ws ! i)" by (simp add: unat_sub word_le_nat_alt)
    then have "2 ^ (64 * i) * (unat (ws ! i - w) + unat w) = 2 ^ (64 * i) * unat (ws ! i)" by (rule arg_cong)
    then have "wval (take n (ws[i := ws ! i - w])) + 2 ^ (64 * i) * unat w = wval (take n ws)"
      using upd [of "ws ! i - w"] by (simp add: distrib_left)
    then show ?thesis using True i \<open>i < n\<close> by (subst sub_word_loop.simps) simp
  next
    case False
    define x where "x = ws ! i - w"
    have lt: "unat (ws ! i) < unat w" using False by (simp add: word_le_nat_alt)
    have "int (unat x + unat w) = int (unat (ws ! i) + 2 ^ 64)"
      using sub_step(1) [of 0 "ws ! i" w] lt by (simp add: x_def word_less_nat_alt word_unat_eq_iff)
    then have x: "unat x + unat w = unat (ws ! i) + 2 ^ 64" by (simp only: of_nat_eq_iff)
    have rest: "0 < wval (drop (i + 1) (take n ws))"
      using "1.prems"(3) lt unfolding dr by (cases "wval (drop (i + 1) (take n ws))") simp_all
    have "drop (i + 1) (take n (ws[i := x])) = drop (i + 1) (take n ws)"
      by (simp add: drop_take)
    then have "\<exists>ws' i'. sub_word_loop (ws[i := x]) (i + 1) 1 = Some (ws', i') \<and> length ws' = length (ws[i := x]) \<and> i' < n \<and>
        wval (take n ws') + 2 ^ (64 * (i + 1)) * unat (1 :: u64) = wval (take n (ws[i := x]))"
      unfolding x_def by (intro "1.IH") (use i False rest "1.prems"(1) \<open>i < n\<close> in \<open>simp_all add: x_def\<close>)
    then obtain ws' i' where r: "sub_word_loop (ws[i := x]) (i + 1) 1 = Some (ws', i')" "length ws' = length ws" "i' < n"
      "wval (take n ws') + 2 ^ (64 * (i + 1)) * unat (1 :: u64) = wval (take n (ws[i := x]))" by auto
    have "2 ^ (64 * i) * (unat x + unat w) = 2 ^ (64 * i) * (unat (ws ! i) + 2 ^ 64)" unfolding x ..
    then have "wval (take n ws') + 2 ^ (64 * i) * unat w = wval (take n ws)"
      using r(4) upd [of x] by (simp add: power_add distrib_left)
    then show ?thesis using r(1-3) i False by (subst sub_word_loop.simps) (simp add: x_def)
  qed
qed

lemma add_word_pos_spec:
  assumes "width (h a) \<le> dmax (h a)" "\<not> neg (h a)" "add_word_pos g junk h a w = (ok, h')"
  shows "ok \<Longrightarrow> becomes h a (bn_nat (h a) + unat w) h' \<and> \<not> neg (h' a)"
    "\<not> ok \<Longrightarrow> cannot_expand g (h a) (width (h a) + 1)"
proof -
  let ?n = "width (h a)"
  obtain ws i v where loop: "add_word_loop (d (h a)) 0 ?n w = (ws, i, v)" by (cases "add_word_loop (d (h a)) 0 ?n w")
  have l: "length ws = dmax (h a)" "v = 0 \<or> i = ?n" "wval (take ?n ws) + 2 ^ (64 * ?n) * unat v = bn_nat (h a) + unat w"
    using add_word_loop [OF assms(1) _ loop] by (simp_all add: bn_nat_def)
  define h1 where "h1 = h(a := (h a)\<lparr>d := ws\<rparr>)"
  have h1: "d (h1 a) = ws" "width (h1 a) = ?n" "neg (h1 a) = neg (h a)" "static_data (h1 a) = static_data (h a)"
    by (simp_all add: h1_def)
  have w1: "width (h1 a) \<le> dmax (h1 a)" using assms(1) l(1) by (simp add: h1)
  show "ok \<Longrightarrow> becomes h a (bn_nat (h a) + unat w) h' \<and> \<not> neg (h' a)"
    "\<not> ok \<Longrightarrow> cannot_expand g (h a) (width (h a) + 1)"
  proof -
    have "(ok \<longrightarrow> becomes h a (bn_nat (h a) + unat w) h' \<and> \<not> neg (h' a)) \<and> (\<not> ok \<longrightarrow> cannot_expand g (h a) (?n + 1))"
    proof (cases "v = 0")
      case True
      then have "ok \<and> h' = h1" using assms(3) loop by (simp add: add_word_pos_def h1_def)
      then show ?thesis using True l assms(1,2) by (simp add: becomes_def bn_nat_def h1_def)
    next
      case False
      then have i: "i = ?n" using l(2) by simp
      obtain e h2 where e: "bn_wexpand g junk h1 a (?n + 1) = (e, h2)" by fastforce
      note we = wexpand_spec [OF w1 e, unfolded h1]
      have run: "(ok, h') = (if e then (True, h2(a := (h2 a)\<lparr>width := ?n + 1, d := (d (h2 a))[?n := v]\<rparr>)) else (False, h2))"
        using assms(3) loop False e i we(4) [of a] by (cases e) (simp_all add: add_word_pos_def h1_def)
      show ?thesis
      proof (cases e)
        case True
        have "take (?n + 1) ((d (h2 a))[?n := v]) = take ?n ws @ [v]"
          using we(3) we(7) [of a] True by (simp add: take_Suc_conv_app_nth h1)
        then have "bn_nat (h' a) = bn_nat (h a) + unat w"
          using run True l assms(1) by (simp add: bn_nat_def wval_append)
        then show ?thesis using run True we(3,5,6) assms(2) by (simp add: becomes_def h1_def)
      next
        case False
        then show ?thesis using run we(1) l(1) by (simp add: cannot_expand_def h1)
      qed
    qed
    then show "ok \<Longrightarrow> becomes h a (bn_nat (h a) + unat w) h' \<and> \<not> neg (h' a)"
      "\<not> ok \<Longrightarrow> cannot_expand g (h a) (width (h a) + 1)" by blast+
  qed
qed

text \<open>The number under \<open>r\<close> gets the integer \<open>v\<close>, not necessarily minimal.\<close>

definition sets :: "bns \<Rightarrow> nat \<Rightarrow> int \<Rightarrow> bns \<Rightarrow> bool" where
  "sets h r v h' \<longleftrightarrow> bn_int (h' r) = v \<and> bn_ok (h' r) \<and> (\<forall>p. p \<noteq> r \<longrightarrow> h' p = h p)"

lemma sub_word_pos_spec:
  assumes "width (h a) \<le> dmax (h a)" "\<not> neg (h a)" "w \<noteq> 0" "bn_nat (h a) \<noteq> 0"
  obtains h' where "sub_word_pos h a w = Some h'" "sets h a (int (bn_nat (h a)) - uint w) h'"
proof -
  let ?n = "width (h a)"
  note mw = minimal_width [OF assms(1)]
  have n: "0 < ?n" using assms(4) by (cases ?n) (simp_all add: bn_nat_def)
  show ?thesis
  proof (cases "bn_minimal_width (h a) = 1 \<and> d (h a) ! 0 < w")
    case True
    define x where "x = w - d (h a) ! 0"
    have "0 < dmax (h a)" using n assms(1) by linarith
    then have "take 1 (d (h a)) = [d (h a) ! 0]" using take_Suc_conv_app_nth [of 0 "d (h a)"] by simp
    then have nat: "bn_nat (h a) = unat (d (h a) ! 0)" using mw(2) True by simp
    have x: "unat x = unat w - unat (d (h a) ! 0)" "unat (d (h a) ! 0) < unat w"
      using True unat_sub [of "d (h a) ! 0" w] by (simp_all add: x_def word_less_nat_alt less_imp_le)
    have new: "wval (take ?n ((d (h a))[0 := x])) = unat x"
      using wval_update [of 0 "take ?n (d (h a))" x] n assms(1) nat by (simp add: take_update_swap bn_nat_def)
    show ?thesis
      by (rule that [of "h(a := (h a)\<lparr>d := (d (h a))[0 := x], neg := True\<rparr>)"])
        (use True x new nat assms(1) in \<open>simp_all add: sub_word_pos_def sets_def bn_int_def bn_ok_def bn_nat_def x_def [symmetric] of_nat_diff\<close>)
  next
    case False
    have big: "unat w \<le> bn_nat (h a)"
    proof (cases "bn_minimal_width (h a) = 1")
      case True
      have "0 < dmax (h a)" using n assms(1) by linarith
      then have "take 1 (d (h a)) = [d (h a) ! 0]" using take_Suc_conv_app_nth [of 0 "d (h a)"] by simp
      then show ?thesis using False True mw(2) by (simp add: word_le_nat_alt not_less)
    next
      case f: False
      then have "2 \<le> bn_minimal_width (h a)" using mw(3) assms(4) by (cases "bn_minimal_width (h a)") auto
      then have "(2 :: nat) ^ 64 \<le> 2 ^ (64 * (bn_minimal_width (h a) - 1))" by (intro power_increasing) simp_all
      also have "\<dots> \<le> bn_nat (h a)" by (rule mw(5)) (use \<open>2 \<le> bn_minimal_width (h a)\<close> in simp)
      finally show ?thesis using unat_u64_lt [of w] by simp
    qed
    then obtain ws i where l: "sub_word_loop (d (h a)) 0 w = Some (ws, i)" "length ws = dmax (h a)" "i < ?n"
      "wval (take ?n ws) + unat w = bn_nat (h a)"
      using sub_word_loop [of ?n "d (h a)" 0 w] assms(1,3) by (auto simp: bn_nat_def)
    define k where "k = (if ws ! i = 0 \<and> i = ?n - 1 then ?n - 1 else ?n)"
    have "wval (take k ws) = wval (take ?n ws)"
    proof (cases "ws ! i = 0 \<and> i = ?n - 1")
      case True
      have "take ?n ws = take (?n - 1) ws @ [ws ! (?n - 1)]"
        using n l(2) assms(1) take_Suc_conv_app_nth [of "?n - 1" ws] by simp
      then show ?thesis using True by (simp add: k_def wval_append)
    qed (auto simp: k_def)
    then have "wval (take k ws) = bn_nat (h a) - unat w" using l(4) by simp
    moreover have "k \<le> dmax (h a)" using assms(1) by (auto simp: k_def)
    ultimately show ?thesis
      by (intro that [of "h(a := (h a)\<lparr>d := ws, width := k\<rparr>)"])
        (use False l(1,2) big assms(2) in \<open>auto simp: sub_word_pos_def sets_def bn_int_def bn_ok_def bn_nat_def k_def of_nat_diff\<close>)
  qed
qed

lemma set_word_spec:
  assumes "width (h a) \<le> dmax (h a)" "BN_set_word g junk h a v = (ok, h')"
  shows "ok \<Longrightarrow> sets h a (uint v) h' \<and> \<not> neg (h' a)" "\<not> ok \<Longrightarrow> cannot_expand g (h a) 1"
proof -
  have "(ok \<longrightarrow> sets h a (uint v) h' \<and> \<not> neg (h' a)) \<and> (\<not> ok \<longrightarrow> cannot_expand g (h a) 1)"
  proof (cases "v = 0")
    case True
    then show ?thesis using assms by (auto simp: BN_set_word_def BN_zero_def sets_def bn_int_def bn_nat_def bn_ok_def)
  next
    case False
    obtain e h1 where e: "bn_wexpand g junk h a 1 = (e, h1)" by fastforce
    note we = wexpand_spec [OF assms(1) e]
    have run: "(ok, h') = (if e then (True, h1(a := (h1 a)\<lparr>neg := False, d := (d (h1 a))[0 := v], width := 1\<rparr>)) else (False, h1))"
      using assms(2) False e by (cases e) (simp_all add: BN_set_word_def)
    show ?thesis
    proof (cases e)
      case True
      then have "take 1 ((d (h1 a))[0 := v]) = [v]"
        using we(3) take_Suc_conv_app_nth [of 0 "(d (h1 a))[0 := v]"] by (simp add: Suc_le_eq)
      then show ?thesis
        using run True we(3,6) by (simp add: sets_def bn_int_def bn_nat_def bn_ok_def)
    qed (use run we(1) in simp)
  qed
  then show "ok \<Longrightarrow> sets h a (uint v) h' \<and> \<not> neg (h' a)" "\<not> ok \<Longrightarrow> cannot_expand g (h a) 1" by blast+
qed

lemma bn_add_word_outcome:
  assumes "bn_ok (h a)"
  shows "\<exists>ok h'. BN_add_word g junk h a w = Some (ok, h') \<and> (ok \<longrightarrow> sets h a (bn_int (h a) + uint w) h') \<and>
    (\<not> ok \<longrightarrow> cannot_expand g (h a) (width (h a) + 1) \<or> cannot_expand g (h a) 1)"
proof -
  have wd: "width (h a) \<le> dmax (h a)" using assms by (simp add: bn_ok_def)
  consider "w = 0" | "w \<noteq> 0" "bn_nat (h a) = 0" | "w \<noteq> 0" "bn_nat (h a) \<noteq> 0" "neg (h a)"
    | "w \<noteq> 0" "bn_nat (h a) \<noteq> 0" "\<not> neg (h a)" by blast
  then show ?thesis
  proof cases
    case 1
    then show ?thesis using assms by (intro exI [of _ True] exI [of _ h]) (simp add: BN_add_word_def sets_def)
  next
    case 2
    obtain ok h' where s: "BN_set_word g junk h a w = (ok, h')" by fastforce
    have "bn_int (h a) = 0" using 2 by (simp add: bn_int_def)
    then show ?thesis using set_word_spec [OF wd s] 2 s by (simp add: BN_add_word_def is_zero_iff [OF wd])
  next
    case 3
    define h0 where "h0 = h(a := (h a)\<lparr>neg := False\<rparr>)"
    have h0: "width (h0 a) \<le> dmax (h0 a)" "\<not> neg (h0 a)" "bn_nat (h0 a) = bn_nat (h a)"
      using wd by (simp_all add: h0_def bn_nat_def)
    obtain h1 where h1: "sub_word_pos h0 a w = Some h1" "sets h0 a (int (bn_nat (h a)) - uint w) h1"
      using sub_word_pos_spec [where h = h0 and a = a, OF h0(1,2) 3(1)] h0(3) 3(2) by auto
    have z: "BN_is_zero (h1 a) \<longleftrightarrow> bn_nat (h1 a) = 0" by (rule is_zero_iff) (use h1(2) in \<open>simp add: sets_def bn_ok_def\<close>)
    define h2 where "h2 = (if bn_nat (h1 a) = 0 then h1 else h1(a := (h1 a)\<lparr>neg := \<not> neg (h1 a)\<rparr>))"
    have "BN_add_word g junk h a w = Some (True, h2)"
      using 3 h1(1) z unfolding h0_def h2_def by (simp add: BN_add_word_def is_zero_iff [OF wd])
    moreover have "bn_int (h2 a) = - bn_int (h1 a)" by (simp add: h2_def bn_int_def bn_nat_def)
    then have "bn_int (h2 a) = bn_int (h a) + uint w"
      using h1(2) 3(3) by (simp add: sets_def bn_int_def [of "h a"])
    moreover have "bn_ok (h2 a)" using h1(2) by (auto simp: h2_def sets_def bn_ok_def bn_nat_def)
    moreover have "\<forall>p. p \<noteq> a \<longrightarrow> h2 p = h p" using h1(2) by (simp add: h2_def sets_def h0_def)
    ultimately show ?thesis by (auto simp: sets_def)
  next
    case 4
    obtain ok h' where s: "add_word_pos g junk h a w = (ok, h')" by fastforce
    have "BN_add_word g junk h a w = Some (ok, h')" using 4 s by (simp add: BN_add_word_def is_zero_iff [OF wd])
    then show ?thesis
      using add_word_pos_spec [OF wd 4(3) s] 4(3) by (auto simp: sets_def becomes_def bn_int_def bn_ok_def)
  qed
qed

lemma bn_sub_word_outcome:
  assumes "bn_ok (h a)"
  shows "\<exists>ok h'. BN_sub_word g junk h a w = Some (ok, h') \<and> (ok \<longrightarrow> sets h a (bn_int (h a) - uint w) h') \<and>
    (\<not> ok \<longrightarrow> cannot_expand g (h a) (width (h a) + 1) \<or> cannot_expand g (h a) 1)"
proof -
  have wd: "width (h a) \<le> dmax (h a)" using assms by (simp add: bn_ok_def)
  consider "w = 0" | "w \<noteq> 0" "bn_nat (h a) = 0" | "w \<noteq> 0" "bn_nat (h a) \<noteq> 0" "neg (h a)"
    | "w \<noteq> 0" "bn_nat (h a) \<noteq> 0" "\<not> neg (h a)" by blast
  then show ?thesis
  proof cases
    case 1
    then show ?thesis using assms by (intro exI [of _ True] exI [of _ h]) (simp add: BN_sub_word_def sets_def)
  next
    case 2
    obtain ok h1 where s: "BN_set_word g junk h a w = (ok, h1)" by fastforce
    note sw = set_word_spec [OF wd s]
    have run: "BN_sub_word g junk h a w = Some (if ok then (True, BN_set_negative h1 a True) else (False, h1))"
      using 2 s by (cases ok) (simp_all add: BN_sub_word_def is_zero_iff [OF wd])
    have zero: "bn_int (h a) = 0" using 2 by (simp add: bn_int_def)
    show ?thesis
    proof (cases ok)
      case True
      have h1: "bn_int (h1 a) = uint w" "\<not> neg (h1 a)" "width (h1 a) \<le> dmax (h1 a)" "\<forall>p. p \<noteq> a \<longrightarrow> h1 p = h p"
        using sw(1) True by (simp_all add: sets_def bn_ok_def)
      then have nat: "int (bn_nat (h1 a)) = uint w" by (simp add: bn_int_def)
      have "uint w \<noteq> 0" using 2(1) by (simp add: uint_0_iff)
      then have "bn_nat (h1 a) \<noteq> 0" using nat by auto
      then have "sets h a (- uint w) (BN_set_negative h1 a True)"
        using h1(3,4) nat is_zero_iff [OF h1(3)] by (simp add: sets_def BN_set_negative_def bn_int_def bn_ok_def bn_nat_def)
      then show ?thesis using run True zero by auto
    qed (use run sw(2) in auto)
  next
    case 3
    define h0 where "h0 = h(a := (h a)\<lparr>neg := False\<rparr>)"
    have h0: "width (h0 a) \<le> dmax (h0 a)" "\<not> neg (h0 a)" "bn_nat (h0 a) = bn_nat (h a)" "width (h0 a) = width (h a)"
      using wd by (simp_all add: h0_def bn_nat_def)
    obtain ok h1 where s: "add_word_pos g junk h0 a w = (ok, h1)" by fastforce
    note ap = add_word_pos_spec [OF h0(1,2) s]
    define h2 where "h2 = h1(a := (h1 a)\<lparr>neg := True\<rparr>)"
    have run: "BN_sub_word g junk h a w = Some (ok, h2)"
      using 3 s unfolding h0_def h2_def by (simp add: BN_sub_word_def is_zero_iff [OF wd])
    show ?thesis
    proof (cases ok)
      case True
      then have "bn_nat (h1 a) = bn_nat (h a) + unat w" "width (h1 a) \<le> dmax (h1 a)" "\<forall>p. p \<noteq> a \<longrightarrow> h1 p = h p"
        using ap(1) by (simp_all add: becomes_def h0 h0_def bn_nat_def)
      then have "sets h a (bn_int (h a) - uint w) h2"
        using 3 by (simp add: sets_def h2_def bn_int_def bn_ok_def bn_nat_def)
      then show ?thesis using run True by auto
    next
      case False
      then show ?thesis using run ap(2) by (auto simp: cannot_expand_def h0_def)
    qed
  next
    case 4
    obtain h' where "sub_word_pos h a w = Some h'" "sets h a (int (bn_nat (h a)) - uint w) h'"
      by (rule sub_word_pos_spec [where h = h and a = a, OF wd 4(3,1,2)])
    then show ?thesis using 4 by (auto simp: BN_sub_word_def is_zero_iff [OF wd] bn_int_def)
  qed
qed

text \<open>C26: \<open>BN_add_word\<close> and \<open>BN_sub_word\<close>, which work in place and call each other for negative numbers,
  always return, add and subtract the word exactly whatever the sign and the width, through zero in
  either direction, and leave every other number alone; they fail only if a word more is needed and
  cannot be had. The borrow loop of \<open>BN_sub_word\<close>, which has no bound of its own, never leaves the array.\<close>

theorem bn_word_arith_exact:
  assumes "bn_ok (h a)"
  shows "(\<exists>ok h'. BN_add_word g junk h a w = Some (ok, h') \<and> (ok \<longrightarrow> sets h a (bn_int (h a) + uint w) h') \<and>
      (\<not> ok \<longrightarrow> cannot_expand g (h a) (width (h a) + 1) \<or> cannot_expand g (h a) 1)) \<and>
    (\<exists>ok h'. BN_sub_word g junk h a w = Some (ok, h') \<and> (ok \<longrightarrow> sets h a (bn_int (h a) - uint w) h') \<and>
      (\<not> ok \<longrightarrow> cannot_expand g (h a) (width (h a) + 1) \<or> cannot_expand g (h a) 1))"
  by (rule conjI, rule bn_add_word_outcome, rule assms, rule bn_sub_word_outcome, rule assms)

theorem bn_word_arith_exact_witness:
  "\<exists>ok h'. BN_sub_word (\<lambda>_. True) (\<lambda>_. 0) sample_bns 0 7 = Some (ok, h')"
  using bn_word_arith_exact [where h = sample_bns and a = 0 and g = "\<lambda>_. True" and junk = "\<lambda>_. 0" and w = 7, OF sample_bns(1)]
  by blast

end
