(* ===== verification/Bn_Bytes.thy ===== *)
theory Bn_Bytes
  imports Bn_Arith Endian
begin

unbundle bit_operations_syntax

text \<open>
  Big numbers from and to bytes, \<^verbatim>\<open>crypto/fipsmodule/bn/bytes.c\<close>, on a little-endian machine: the words
  of a number seen as bytes are its little-endian representation.
\<close>

section \<open>The code\<close>

text \<open>The result goes to the number \<^verbatim>\<open>ret\<close>, or for NULL to a new one at the address \<open>p\<close>; \<open>None\<close> is NULL.\<close>

definition BN_new :: "(nat \<Rightarrow> bool) \<Rightarrow> bns \<Rightarrow> nat \<Rightarrow> bns option" where
  "BN_new g h p = (if g 24 then Some (BN_init h p) else None)"

fun bin2bn_loop :: "u8 list \<Rightarrow> u64 \<Rightarrow> nat \<Rightarrow> nat \<Rightarrow> u64 list \<Rightarrow> u64 list" where
  "bin2bn_loop [] word m num_words ds = ds"
| "bin2bn_loop (b # bs) word m num_words ds =
    (let word = push_bit 8 word OR ucast b
     in if m = 0 then bin2bn_loop bs 0 (8 - 1) (num_words - 1) (ds[num_words - 1 := word])
        else bin2bn_loop bs word (m - 1) num_words ds)"

definition bin2bn_into :: "(nat \<Rightarrow> bool) \<Rightarrow> (nat \<Rightarrow> u64) \<Rightarrow> bns \<Rightarrow> u8 list \<Rightarrow> nat \<Rightarrow> nat option \<times> bns" where
  "bin2bn_into g junk h inp ret =
    (if inp = [] then (Some ret, h(ret := (h ret)\<lparr>width := 0\<rparr>))
     else
       let num_words = (length inp - 1) div 8 + 1;
           m = (length inp - 1) mod 8
       in case bn_wexpand g junk h ret num_words of
         (False, h) \<Rightarrow> (None, h)
       | (True, h) \<Rightarrow>
           (Some ret, h(ret := (h ret)\<lparr>width := num_words, neg := False,
              d := bin2bn_loop inp 0 m num_words (d (h ret))\<rparr>)))"

definition BN_bin2bn ::
    "(nat \<Rightarrow> bool) \<Rightarrow> (nat \<Rightarrow> u64) \<Rightarrow> bns \<Rightarrow> nat \<Rightarrow> u8 list \<Rightarrow> nat option \<Rightarrow> nat option \<times> bns" where
  "BN_bin2bn g junk h p inp ret =
    (case ret of
       Some r \<Rightarrow> bin2bn_into g junk h inp r
     | None \<Rightarrow> (case BN_new g h p of None \<Rightarrow> (None, h) | Some h \<Rightarrow> bin2bn_into g junk h inp p))"

text \<open>The words of a number in memory, and storing bytes over them.\<close>

definition bytes_of_words :: "u64 list \<Rightarrow> u8 list" where
  "bytes_of_words ws = concat (map CRYPTO_store_word_le ws)"

fun words_of_bytes :: "nat \<Rightarrow> u8 list \<Rightarrow> u64 list" where
  "words_of_bytes 0 bs = []"
| "words_of_bytes (Suc n) bs = CRYPTO_load_word_le bs # words_of_bytes n (drop 8 bs)"

definition le2bn_into :: "(nat \<Rightarrow> bool) \<Rightarrow> (nat \<Rightarrow> u64) \<Rightarrow> bns \<Rightarrow> u8 list \<Rightarrow> nat \<Rightarrow> nat option \<times> bns" where
  "le2bn_into g junk h inp ret =
    (if inp = [] then (Some ret, h(ret := (h ret)\<lparr>width := 0, neg := False\<rparr>))
     else
       let num_words = (length inp - 1) div 8 + 1
       in case bn_wexpand g junk h ret num_words of
         (False, h) \<Rightarrow> (None, h)
       | (True, h) \<Rightarrow>
           let ds = (d (h ret))[num_words - 1 := 0];
               mem = blit (bytes_of_words ds) 0 inp
           in (Some ret, h(ret := (h ret)\<lparr>width := num_words, d := words_of_bytes (length ds) mem\<rparr>)))"

definition BN_le2bn ::
    "(nat \<Rightarrow> bool) \<Rightarrow> (nat \<Rightarrow> u64) \<Rightarrow> bns \<Rightarrow> nat \<Rightarrow> u8 list \<Rightarrow> nat option \<Rightarrow> nat option \<times> bns" where
  "BN_le2bn g junk h p inp ret =
    (case ret of
       Some r \<Rightarrow> le2bn_into g junk h inp r
     | None \<Rightarrow> (case BN_new g h p of None \<Rightarrow> (None, h) | Some h \<Rightarrow> le2bn_into g junk h inp p))"

fun bn2bin_loop :: "u64 list \<Rightarrow> nat \<Rightarrow> u8 list" where
  "bn2bin_loop ds 0 = []"
| "bn2bin_loop ds (Suc i) = ucast (drop_bit (8 * (i mod 8)) (ds ! (i div 8))) # bn2bin_loop ds i"

definition BN_bn2bin :: "bignum \<Rightarrow> u8 list" where
  "BN_bn2bin b = bn2bin_loop (d b) (unat (BN_num_bytes b))"

definition fits_in_bytes :: "u8 list \<Rightarrow> nat \<Rightarrow> nat \<Rightarrow> bool" where
  "fits_in_bytes bytes num_bytes len \<longleftrightarrow> fold (\<lambda>i mask. mask OR bytes ! i) [len..<num_bytes] 0 = 0"

definition BN_bn2le_padded :: "nat \<Rightarrow> bignum \<Rightarrow> u8 list option" where
  "BN_bn2le_padded len b =
    (let bytes = bytes_of_words (d b); num_bytes = width b * 8
     in if len < num_bytes \<and> \<not> fits_in_bytes bytes num_bytes len then None
        else let num_bytes = (if len < num_bytes then len else num_bytes)
             in Some (take num_bytes bytes @ replicate (len - num_bytes) 0))"

definition BN_bn2bin_padded :: "nat \<Rightarrow> bignum \<Rightarrow> u8 list option" where
  "BN_bn2bin_padded len b =
    (let bytes = bytes_of_words (d b); num_bytes = width b * 8
     in if len < num_bytes \<and> \<not> fits_in_bytes bytes num_bytes len then None
        else let num_bytes = (if len < num_bytes then len else num_bytes)
             in Some (replicate (len - num_bytes) 0 @ map (\<lambda>k. bytes ! (num_bytes - 1 - k)) [0..<num_bytes]))"

definition BN_get_word :: "bignum \<Rightarrow> u64" where
  "BN_get_word b =
    (let w = bn_minimal_width b in if w = 0 then 0 else if w = 1 then d b ! 0 else - 1)"

definition BN_get_u64 :: "bignum \<Rightarrow> u64 option" where
  "BN_get_u64 b =
    (let w = bn_minimal_width b in if w = 0 then Some 0 else if w = 1 then Some (d b ! 0) else None)"

section \<open>Bytes of words\<close>

lemma length_bytes_of_words [simp]: "length (bytes_of_words ws) = 8 * length ws"
  by (induction ws) (simp_all add: bytes_of_words_def CRYPTO_store_word_le_def)

lemma le_val_append: "le_val (xs @ ys) = le_val xs + 256 ^ length xs * le_val ys"
  by (simp add: le_val_def be_val_append)

lemma le_val_bound: "le_val bs < 256 ^ length bs"
  using be_val_bound [of "rev bs"] by (simp add: le_val_def)

lemma le_val_0_iff: "le_val bs = 0 \<longleftrightarrow> (\<forall>b \<in> set bs. b = 0)"
proof (induction bs)
  case (Cons b bs)
  have "le_val (b # bs) = unat b + 256 * le_val bs" using le_val_append [of "[b]" bs] by (simp add: le_val_def)
  then show ?case using Cons by (simp add: unat_eq_0)
qed (simp add: le_val_def)

lemma le_val_store: "le_val (CRYPTO_store_word_le w) = unat w"
  using unat_u64_lt [of w] by (simp add: CRYPTO_store_word_le_def mem_of_word_def le_val_def be_val_be_bytes)

lemma le_val_bytes_of_words: "le_val (bytes_of_words ws) = wval ws"
proof (induction ws)
  case (Cons w ws)
  have len: "length (CRYPTO_store_word_le w) = 8" by (simp add: CRYPTO_store_word_le_def)
  show ?case using Cons by (simp add: bytes_of_words_def le_val_append le_val_store len)
qed (simp add: bytes_of_words_def le_val_def)

lemma wval_words_of_bytes:
  "length bs = 8 * n \<Longrightarrow> wval (words_of_bytes n bs) = le_val bs"
proof (induction n bs rule: words_of_bytes.induct)
  case (2 n bs)
  have w: "unat (CRYPTO_load_word_le bs) = le_val (take 8 bs)"
    using le_val_bound [of "take 8 bs"] 2(2)
    by (simp add: CRYPTO_load_word_le_def word_of_mem_def unat_of_nat_small)
  have "le_val (take 8 bs @ drop 8 bs) = le_val (take 8 bs) + 256 ^ length (take 8 bs) * le_val (drop 8 bs)"
    by (rule le_val_append)
  then show ?case using 2 w by simp
qed (simp add: le_val_def)

lemma length_words_of_bytes [simp]: "length (words_of_bytes n bs) = n"
  by (induction n bs rule: words_of_bytes.induct) simp_all

text \<open>A prefix of the bytes is the whole number if the rest is zero.\<close>

lemma rev_take_be_bytes:
  assumes "n \<le> length bs" "le_val bs < 256 ^ n"
  shows "rev (take n bs) = be_bytes n (le_val bs)"
proof -
  have "le_val bs = le_val (take n bs) + 256 ^ n * le_val (drop n bs)"
    using le_val_append [of "take n bs" "drop n bs"] assms(1) by simp
  then have "le_val (take n bs) = le_val bs" using assms(2) by (cases "le_val (drop n bs)") simp_all
  then show ?thesis using be_bytes_be_val [of "rev (take n bs)"] assms(1) by (simp add: le_val_def)
qed

section \<open>Reading\<close>

lemma pow_256: "(256 :: nat) ^ (8 * n) = 2 ^ (64 * n)"
proof -
  have "(256 :: nat) ^ (8 * n) = (256 ^ 8) ^ n" by (rule power_mult)
  also have "(256 :: nat) ^ 8 = 2 ^ 64" by simp
  finally show ?thesis by (simp only: power_mult [symmetric])
qed

lemma bin2bn_loop:
  assumes "bs = [] \<and> n = 0 \<or> length bs = 8 * (n - 1) + m + 1 \<and> 0 < n" "m < 8" "n \<le> length ds"
    "unat word < 256 ^ (7 - m)"
  shows "length (bin2bn_loop bs word m n ds) = length ds \<and>
    (bs \<noteq> [] \<longrightarrow> wval (take n (bin2bn_loop bs word m n ds)) = unat word * 256 ^ length bs + be_val bs) \<and>
    drop n (bin2bn_loop bs word m n ds) = drop n ds"
  using assms
proof (induction bs word m n ds rule: bin2bn_loop.induct)
  case (2 b bs word m n ds)
  define w where "w = push_bit 8 word OR ucast b"
  have len: "length bs = 8 * (n - 1) + m" "0 < n" using "2.prems"(1) by simp_all
  have "unat word * 256 + unat b < 256 ^ (7 - m) * 256"
  proof -
    have "(unat word + 1) * 256 \<le> 256 ^ (7 - m) * 256" using "2.prems"(4) by (intro mult_le_mono1) simp
    then have "unat word * 256 + 256 \<le> 256 ^ (7 - m) * 256" by (simp only: add_mult_distrib mult_1)
    moreover have "unat word * 256 + unat b < unat word * 256 + 256" using unat_u8_lt [of b] by simp
    ultimately show ?thesis by (rule order_less_le_trans [rotated])
  qed
  also have "(256 :: nat) ^ (7 - m) * 256 = 256 ^ (8 - m)" using "2.prems"(2) power_Suc2 [of "256 :: nat" "7 - m"] by (simp add: Suc_diff_le [symmetric] del: power_Suc)
  finally have lt: "unat word * 256 + unat b < 256 ^ (8 - m)" .
  also have "(256 :: nat) ^ (8 - m) \<le> 256 ^ 8" by (rule power_increasing) simp_all
  finally have "unat word * 256 + unat b < 2 ^ 64" by simp
  then have w: "unat w = unat word * 256 + unat b"
    by (simp add: w_def or_shift8 unat_word_ariths)
  show ?case
  proof (cases "m = 0")
    case True
    define ds1 where "ds1 = ds[n - 1 := w]"
    define ds2 where "ds2 = bin2bn_loop bs 0 7 (n - 1) ds1"
    have IH: "length ds2 = length ds1" "bs \<noteq> [] \<longrightarrow> wval (take (n - 1) ds2) = be_val bs" "drop (n - 1) ds2 = drop (n - 1) ds1"
      using "2.IH"(1) [OF w_def True] "2.prems"(3) len True
      unfolding ds1_def ds2_def by (cases "n - 1"; simp)+
    have d1: "n - 1 < length ds1" "n - 1 < length ds2" using "2.prems"(3) len(2) IH(1) by (simp_all add: ds1_def)
    have "ds2 ! (n - 1) = hd (drop (n - 1) ds2)" using d1 by (simp add: hd_drop_conv_nth)
    also have "\<dots> = w" unfolding IH(3) using d1 by (simp add: hd_drop_conv_nth ds1_def)
    finally have "take n ds2 = take (n - 1) ds2 @ [w]"
      using take_Suc_conv_app_nth [OF d1(2)] len(2) by simp
    moreover have "bs = [] \<Longrightarrow> n - 1 = 0" using len True by simp
    ultimately have "wval (take n ds2) = be_val bs + 2 ^ (64 * (n - 1)) * unat w"
      using IH(2) d1(2) by (cases "bs = []") (simp_all add: wval_append min_def)
    also have "(2 :: nat) ^ (64 * (n - 1)) = 256 ^ length bs" using len True pow_256 [of "n - 1"] by simp
    finally have val: "wval (take n ds2) = unat word * 256 ^ length (b # bs) + be_val (b # bs)"
      unfolding w by (simp add: be_val_Cons algebra_simps)
    have "drop n ds2 = drop 1 (drop (n - 1) ds2)" using len(2) by simp
    also have "\<dots> = drop n ds" unfolding IH(3) using len(2) by (simp add: ds1_def)
    finally have dr: "drop n ds2 = drop n ds" .
    have eq: "bin2bn_loop (b # bs) word m n ds = ds2"
      using True by (simp add: w_def ds1_def ds2_def Let_def)
    show ?thesis unfolding eq using val dr IH(1) by (simp add: ds1_def)
  next
    case False
    have "length (bin2bn_loop bs w (m - 1) n ds) = length ds \<and>
      (bs \<noteq> [] \<longrightarrow> wval (take n (bin2bn_loop bs w (m - 1) n ds)) = unat w * 256 ^ length bs + be_val bs) \<and>
      drop n (bin2bn_loop bs w (m - 1) n ds) = drop n ds"
      by (rule "2.IH"(2) [OF w_def False])
        (use len False "2.prems" lt w in \<open>simp_all add: Suc_diff_le Suc_diff_Suc\<close>)
    moreover have "bs \<noteq> []" using len False by auto
    moreover have "bin2bn_loop (b # bs) word m n ds = bin2bn_loop bs w (m - 1) n ds"
      using False by (simp add: w_def Let_def)
    ultimately show ?thesis unfolding w by (simp add: be_val_Cons algebra_simps)
  qed
qed simp

text \<open>What a reader that writes to the number \<open>r\<close> leaves: the value, or an expansion that failed.\<close>

definition reads_to ::
    "(nat \<Rightarrow> bool) \<Rightarrow> bns \<Rightarrow> nat \<Rightarrow> nat \<Rightarrow> nat \<Rightarrow> bool \<Rightarrow> nat option \<times> bns \<Rightarrow> bool" where
  "reads_to g h r len v sign res \<longleftrightarrow>
    (case res of
       (None, h') \<Rightarrow> h' = h \<and> cannot_expand g (h r) ((len + 7) div 8)
     | (Some r', h') \<Rightarrow> r' = r \<and> bn_nat (h' r) = v \<and> neg (h' r) = sign \<and> width (h' r) = (len + 7) div 8 \<and>
         width (h' r) \<le> dmax (h' r) \<and> (\<forall>p. p \<noteq> r \<longrightarrow> h' p = h p))"

lemma words_for: "0 < n \<Longrightarrow> (n - 1) div 8 + 1 = (n + 7) div 8" for n :: nat
  by arith

lemma bin2bn_into_spec:
  assumes "width (h r) \<le> dmax (h r)"
  shows "reads_to g h r (length inp) (be_val inp) (neg (h r) \<and> inp = []) (bin2bn_into g junk h inp r)"
proof (cases "inp = []")
  case False
  define n where "n = (length inp + 7) div 8"
  have n: "(length inp - 1) div 8 + 1 = n" using words_for [of "length inp"] False by (simp add: n_def)
  obtain ok h1 where w: "bn_wexpand g junk h r n = (ok, h1)" by fastforce
  note s = wexpand_spec [OF assms w]
  show ?thesis
  proof (cases ok)
    case True
    define ds where "ds = bin2bn_loop inp 0 ((length inp - 1) mod 8) n (d (h1 r))"
    have len: "length inp = 8 * (n - 1) + (length inp - 1) mod 8 + 1"
    proof -
      have "length inp - 1 = 8 * ((length inp - 1) div 8) + (length inp - 1) mod 8" by simp
      then show ?thesis using False n by (cases inp) auto
    qed
    have l: "length ds = dmax (h1 r) \<and>
        (inp \<noteq> [] \<longrightarrow> wval (take n ds) = unat (0 :: u64) * 256 ^ length inp + be_val inp) \<and> drop n ds = drop n (d (h1 r))"
      unfolding ds_def by (rule bin2bn_loop) (use len n s(3) True in auto)
    have r: "bin2bn_into g junk h inp r = (Some r, h1(r := (h1 r)\<lparr>width := n, neg := False, d := ds\<rparr>))"
      using False True w n by (simp add: bin2bn_into_def Let_def ds_def)
    show ?thesis unfolding r using l s(3,6) True False by (auto simp: reads_to_def bn_nat_def n_def)
  next
    case f: False
    then show ?thesis using False w n s(1,2) by (simp add: bin2bn_into_def reads_to_def n_def)
  qed
qed (use assms in \<open>simp add: bin2bn_into_def reads_to_def bn_nat_def\<close>)

lemma take_bytes_of_words: "take (8 * n) (bytes_of_words ws) = bytes_of_words (take n ws)"
proof (induction n arbitrary: ws)
  case (Suc n)
  have len: "length (CRYPTO_store_word_le w) = 8" for w by (simp add: CRYPTO_store_word_le_def)
  show ?case
  proof (cases ws)
    case (Cons w ws)
    have "take (8 * Suc n) (CRYPTO_store_word_le w @ bytes_of_words ws) = CRYPTO_store_word_le w @ take (8 * n) (bytes_of_words ws)"
      by (simp add: len)
    then show ?thesis using Suc.IH [of ws] Cons by (simp add: bytes_of_words_def)
  qed (simp add: bytes_of_words_def)
qed (simp add: bytes_of_words_def)

lemma bytes_of_words_of_bytes: "length bs = 8 * n \<Longrightarrow> bytes_of_words (words_of_bytes n bs) = bs"
proof -
  assume "length bs = 8 * n"
  then show ?thesis
    using le_val_bytes_of_words [of "words_of_bytes n bs"] wval_words_of_bytes [of bs n]
      be_val_inj [of "rev (bytes_of_words (words_of_bytes n bs))" "rev bs"]
    by (simp add: le_val_def)
qed

lemma take_words_of_bytes: "length bs = 8 * n \<Longrightarrow> k \<le> n \<Longrightarrow> wval (take k (words_of_bytes n bs)) = le_val (take (8 * k) bs)"
  using le_val_bytes_of_words [of "take k (words_of_bytes n bs)"] take_bytes_of_words [of k "words_of_bytes n bs"]
    bytes_of_words_of_bytes [of bs n] by simp

lemma le_val_zeros: "\<forall>b \<in> set bs. b = 0 \<Longrightarrow> le_val (as @ bs) = le_val as"
  using le_val_0_iff [of bs] by (simp add: le_val_append)

lemma store_zero: "b \<in> set (CRYPTO_store_word_le 0) \<Longrightarrow> b = 0"
  using le_val_0_iff [of "CRYPTO_store_word_le 0"] by (simp add: le_val_store)

lemma le2bn_memory:
  assumes "0 < n" "n \<le> length ds" "8 * (n - 1) < length inp" "length inp \<le> 8 * n"
  shows "le_val (take (8 * n) (blit (bytes_of_words (ds[n - 1 := 0])) 0 inp)) = le_val inp"
proof -
  define rest where "rest = take (8 * n - length inp) (drop (length inp) (bytes_of_words (ds[n - 1 := 0])))"
  have t: "take (8 * n) (blit (bytes_of_words (ds[n - 1 := 0])) 0 inp) = inp @ rest"
    using assms(4) by (simp add: blit_def rest_def)
  have "take n (ds[n - 1 := 0]) = take (n - 1) ds @ [0]"
    using take_Suc_conv_app_nth [of "n - 1" "ds[n - 1 := 0]"] assms(1,2) by simp
  then have top: "take (8 * n) (bytes_of_words (ds[n - 1 := 0])) = bytes_of_words (take (n - 1) ds) @ CRYPTO_store_word_le 0"
    by (simp add: take_bytes_of_words) (simp add: bytes_of_words_def)
  have "rest = drop (length inp) (bytes_of_words (take (n - 1) ds) @ CRYPTO_store_word_le 0)"
    unfolding top [symmetric] by (simp add: rest_def drop_take)
  also have "\<dots> = drop (length inp - 8 * (n - 1)) (CRYPTO_store_word_le 0)"
    using assms by (simp add: min_def)
  finally have "\<forall>b \<in> set rest. b = 0" using store_zero set_drop_subset by fastforce
  then show ?thesis unfolding t by (rule le_val_zeros)
qed

lemma le2bn_into_spec:
  assumes "width (h r) \<le> dmax (h r)"
  shows "reads_to g h r (length inp) (le_val inp) (neg (h r) \<and> inp \<noteq> []) (le2bn_into g junk h inp r)"
proof (cases "inp = []")
  case False
  define n where "n = (length inp + 7) div 8"
  have n: "(length inp - 1) div 8 + 1 = n" using words_for [of "length inp"] False by (simp add: n_def)
  obtain ok h1 where w: "bn_wexpand g junk h r n = (ok, h1)" by fastforce
  note s = wexpand_spec [OF assms w]
  show ?thesis
  proof (cases ok)
    case True
    define ds where "ds = (d (h1 r))[n - 1 := 0]"
    define ds' where "ds' = words_of_bytes (length ds) (blit (bytes_of_words ds) 0 inp)"
    have len: "8 * (n - 1) < length inp" "length inp \<le> 8 * n" "0 < n" using False unfolding n_def by (cases inp; simp; arith)+
    have ln: "n \<le> dmax (h1 r)" using s(3) True by simp
    have "length (blit (bytes_of_words ds) 0 inp) = 8 * length ds"
      using len(2) ln by (subst length_blit) (simp_all add: ds_def)
    then have "wval (take n ds') = le_val (take (8 * n) (blit (bytes_of_words ds) 0 inp))"
      unfolding ds'_def using ln by (intro take_words_of_bytes) (simp_all add: ds_def)
    then have "wval (take n ds') = le_val inp" using le2bn_memory [OF len(3) ln len(1,2)] by (simp add: ds_def)
    moreover have "length ds' = dmax (h1 r)" by (simp add: ds'_def ds_def)
    moreover have "le2bn_into g junk h inp r = (Some r, h1(r := (h1 r)\<lparr>width := n, d := ds'\<rparr>))"
      using False True w n by (simp add: le2bn_into_def Let_def ds_def ds'_def)
    ultimately show ?thesis using ln s(5,6) False by (auto simp: reads_to_def bn_nat_def n_def)
  next
    case f: False
    then show ?thesis using False w n s(1,2) by (simp add: le2bn_into_def reads_to_def n_def)
  qed
qed (use assms in \<open>simp add: le2bn_into_def reads_to_def bn_nat_def le_val_def\<close>)

section \<open>Writing\<close>

lemma rev_be_bytes_nth: "k < n \<Longrightarrow> rev (be_bytes n v) ! k = of_nat (v div 256 ^ k)"
  by (induction n arbitrary: v k) (auto simp: nth_Cons' div_mult2_eq [symmetric] simp flip: power_Suc)

lemma byte_of_word: "k < 8 \<Longrightarrow> ucast (drop_bit (8 * k) w) = CRYPTO_store_word_le w ! k" for w :: u64
proof -
  have "(256 :: nat) ^ k = 2 ^ (8 * k)" by (simp add: power_mult)
  then have "unat (drop_bit (8 * k) w) = unat w div 256 ^ k"
    by (simp only: unat_drop_bit_eq drop_bit_eq_div [of "8 * k" "unat w"])
  then have "ucast (drop_bit (8 * k) w) = (of_nat (unat w div 256 ^ k) :: u8)"
    using of_nat_unat [of "drop_bit (8 * k) w", where ?'a = u8] by simp
  then show "k < 8 \<Longrightarrow> ?thesis" by (simp add: CRYPTO_store_word_le_def mem_of_word_def rev_be_bytes_nth)
qed

lemma bytes_of_words_nth:
  "i < 8 * length ws \<Longrightarrow> bytes_of_words ws ! i = ucast (drop_bit (8 * (i mod 8)) (ws ! (i div 8)))"
proof (induction ws arbitrary: i)
  case (Cons w ws)
  have len: "length (CRYPTO_store_word_le w) = 8" by (simp add: CRYPTO_store_word_le_def)
  show ?case
  proof (cases "i < 8")
    case True
    then show ?thesis using byte_of_word [of i w] by (simp add: bytes_of_words_def nth_append len)
  next
    case False
    then have "i div 8 = Suc ((i - 8) div 8)" "i mod 8 = (i - 8) mod 8" by (simp_all add: le_div_geq le_mod_geq)
    then show ?thesis using Cons False by (simp add: bytes_of_words_def nth_append len)
  qed
qed simp

lemma bn2bin_loop: "n \<le> 8 * length ds \<Longrightarrow> bn2bin_loop ds n = rev (take n (bytes_of_words ds))"
  by (induction n) (simp_all add: take_Suc_conv_app_nth bytes_of_words_nth)

lemma num_bytes_bounds:
  assumes "width b \<le> dmax b" "bn_minimal_width b \<le> 2 ^ 25"
  shows "bn_nat b < 256 ^ unat (BN_num_bytes b)" "unat (BN_num_bytes b) \<noteq> 0 \<Longrightarrow> 256 ^ (unat (BN_num_bytes b) - 1) \<le> bn_nat b"
proof -
  define k where "k = bit_len (bn_nat b)"
  have n: "unat (BN_num_bytes b) = (k + 7) div 8" unfolding k_def by (rule num_bytes_spec [OF assms])
  have "k \<le> 8 * unat (BN_num_bytes b)" unfolding n by presburger
  then have "(2 :: nat) ^ k \<le> 2 ^ (8 * unat (BN_num_bytes b))" by (rule power_increasing) simp
  also have "\<dots> = 256 ^ unat (BN_num_bytes b)" by (simp add: power_mult)
  finally show "bn_nat b < 256 ^ unat (BN_num_bytes b)" using bit_len_bounds(1) [of "bn_nat b"] unfolding k_def by linarith
  assume "unat (BN_num_bytes b) \<noteq> 0"
  then have k: "k \<noteq> 0" "8 * (unat (BN_num_bytes b) - 1) \<le> k - 1" unfolding n by presburger+
  have "bn_nat b \<noteq> 0" using k(1) by (intro notI) (simp add: k_def bit_len.simps)
  then have "2 ^ (k - 1) \<le> bn_nat b" unfolding k_def by (rule bit_len_bounds(2))
  moreover have "(2 :: nat) ^ (8 * (unat (BN_num_bytes b) - 1)) \<le> 2 ^ (k - 1)" using k(2) by (rule power_increasing) simp
  ultimately show "256 ^ (unat (BN_num_bytes b) - 1) \<le> bn_nat b" by (simp add: power_mult)
qed

lemma bn2bin_spec:
  assumes "width b \<le> dmax b" "bn_minimal_width b \<le> 2 ^ 25"
  shows "BN_bn2bin b = be_bytes (unat (BN_num_bytes b)) (bn_nat b)"
proof -
  define n where "n = unat (BN_num_bytes b)"
  define mem where "mem = bytes_of_words (take (width b) (d b))"
  have v: "le_val mem = bn_nat b" by (simp add: mem_def le_val_bytes_of_words bn_nat_def)
  have lt: "bn_nat b < 256 ^ n" unfolding n_def by (rule num_bytes_bounds(1) [OF assms])
  have "bn_nat b < 256 ^ (8 * width b)"
    using wval_bound [of "take (width b) (d b)"] assms(1) pow_256 [of "width b"] by (simp add: bn_nat_def)
  then have "(256 :: nat) ^ (n - 1) < 256 ^ (8 * width b)" if "n \<noteq> 0"
    unfolding n_def by (rule le_less_trans [OF num_bytes_bounds(2) [OF assms that [unfolded n_def]]])
  then have "n - 1 < 8 * width b" if "n \<noteq> 0" using power_less_imp_less_exp [of "256 :: nat" "n - 1"] that by simp
  then have n: "n \<le> 8 * width b" by fastforce
  have "take n (bytes_of_words (d b)) = take n mem"
    using n take_bytes_of_words [of "width b" "d b"] take_take [of n "8 * width b" "bytes_of_words (d b)"]
    by (simp add: mem_def min_def)
  then have "BN_bn2bin b = rev (take n mem)"
    using bn2bin_loop [of n "d b"] n assms(1) by (simp add: BN_bn2bin_def n_def)
  also have "\<dots> = be_bytes n (bn_nat b)"
    using rev_take_be_bytes [of n mem] n lt v assms(1) by (simp add: mem_def)
  finally show ?thesis by (simp add: n_def)
qed

lemma fits_in_bytes_iff:
  assumes "width b \<le> dmax b" "len < width b * 8"
  shows "fits_in_bytes (bytes_of_words (d b)) (width b * 8) len \<longleftrightarrow> bn_nat b < 256 ^ len"
proof -
  define mem where "mem = bytes_of_words (take (width b) (d b))"
  have l: "length mem = width b * 8" using assms(1) by (simp add: mem_def)
  have mem: "mem = take (width b * 8) (bytes_of_words (d b))"
    by (simp add: mem_def take_bytes_of_words mult.commute flip: take_bytes_of_words)
  have "bn_nat b = le_val (take len mem) + 256 ^ len * le_val (drop len mem)"
    using le_val_append [of "take len mem" "drop len mem"] assms l
    by (simp add: mem_def le_val_bytes_of_words bn_nat_def)
  then have "bn_nat b < 256 ^ len \<longleftrightarrow> le_val (drop len mem) = 0"
    using le_val_bound [of "take len mem"] assms(2) l by (cases "le_val (drop len mem)") auto
  also have "\<dots> \<longleftrightarrow> (\<forall>i \<in> {len..<width b * 8}. mem ! i = 0)"
    unfolding le_val_0_iff using l assms(2) by (auto simp: set_conv_nth) (metis add_diff_inverse_nat diff_less_mono not_less)
  finally show ?thesis by (simp add: fits_in_bytes_def fold_or_0 mem)
qed

lemma padded_prefix:
  assumes "width b \<le> dmax b" "bn_nat b < 256 ^ len"
  defines "n \<equiv> if len < width b * 8 then len else width b * 8"
  shows "take n (bytes_of_words (d b)) @ replicate (len - n) 0 = rev (be_bytes len (bn_nat b))"
    "n \<le> 8 * dmax b"
proof -
  define mem where "mem = bytes_of_words (take (width b) (d b))"
  have l: "length mem = width b * 8" using assms(1) by (simp add: mem_def)
  have nle: "n \<le> width b * 8" "n \<le> len" by (simp_all add: n_def)
  have t: "take n (bytes_of_words (d b)) = take n mem"
    using nle(1) take_bytes_of_words [of "width b" "d b"] take_take [of n "8 * width b" "bytes_of_words (d b)"]
    by (simp add: mem_def min_def mult.commute)
  have v: "le_val mem = bn_nat b" by (simp add: mem_def le_val_bytes_of_words bn_nat_def)
  have "bn_nat b < 256 ^ n"
    using assms(2) le_val_bound [of mem] by (simp add: n_def v l)
  then have "rev (take n mem) = be_bytes n (bn_nat b)" using rev_take_be_bytes [of n mem] nle l v by simp
  then have m: "le_val (take n mem) = bn_nat b" using \<open>bn_nat b < 256 ^ n\<close> be_val_be_bytes [of n "bn_nat b"]
    by (simp add: le_val_def)
  have "le_val (take n mem @ replicate (len - n) 0) = bn_nat b" using le_val_zeros [of "replicate (len - n) 0"] m by simp
  moreover have "length (take n mem @ replicate (len - n) 0) = len" using nle l by simp
  ultimately show "take n (bytes_of_words (d b)) @ replicate (len - n) 0 = rev (be_bytes len (bn_nat b))"
    unfolding t using be_bytes_be_val [of "rev (take n mem @ replicate (len - n) 0)"] unfolding le_val_def
    by (metis length_rev rev_rev_ident)
  show "n \<le> 8 * dmax b" using nle(1) assms(1) by simp
qed

lemma padded_le:
  assumes "width b \<le> dmax b"
  shows "BN_bn2le_padded len b = (if bn_nat b < 256 ^ len then Some (rev (be_bytes len (bn_nat b))) else None)"
proof (cases "bn_nat b < 256 ^ len")
  case True
  then show ?thesis using padded_prefix [OF assms True] fits_in_bytes_iff [OF assms, of len]
    by (auto simp: BN_bn2le_padded_def Let_def)
next
  case False
  have "bn_nat b < 256 ^ (8 * width b)"
    using wval_bound [of "take (width b) (d b)"] assms pow_256 [of "width b"] by (simp add: bn_nat_def)
  then have "(256 :: nat) ^ len < 256 ^ (8 * width b)" using False by linarith
  then have "len < 8 * width b" by (rule power_less_imp_less_exp [rotated]) simp
  then show ?thesis using False fits_in_bytes_iff [OF assms, of len] by (simp add: BN_bn2le_padded_def mult.commute)
qed

lemma padded_be: "width b \<le> dmax b \<Longrightarrow> BN_bn2bin_padded len b = map_option rev (BN_bn2le_padded len b)"
proof -
  assume w: "width b \<le> dmax b"
  define n where "n = (if len < width b * 8 then len else width b * 8)"
  have "n \<le> length (bytes_of_words (d b))" using w by (simp add: n_def)
  then have "map (\<lambda>k. bytes_of_words (d b) ! (n - 1 - k)) [0..<n] = rev (take n (bytes_of_words (d b)))"
    by (intro nth_equalityI) (simp_all add: rev_nth)
  then show ?thesis
    by (simp add: BN_bn2bin_padded_def BN_bn2le_padded_def Let_def n_def rev_replicate)
qed

lemma get_word_spec:
  assumes "width b \<le> dmax b"
  shows "unat (BN_get_word b) = min (bn_nat b) (2 ^ 64 - 1)"
    "BN_get_u64 b = (if bn_nat b < 2 ^ 64 then Some (of_nat (bn_nat b)) else None)"
proof -
  define w where "w = bn_minimal_width b"
  have mw: "wval (take w (d b)) = bn_nat b" "w = 0 \<longleftrightarrow> bn_nat b = 0" "w \<le> dmax b"
    using minimal_width(1-3) [OF assms] assms by (simp_all add: w_def)
  have one: "bn_nat b = unat (d b ! 0)" if "w = 1" using mw that by (cases "d b") simp_all
  have big: "2 ^ 64 \<le> bn_nat b" if "1 < w"
  proof -
    have "(2 :: nat) ^ 64 \<le> 2 ^ (64 * (w - 1))" using that by (intro power_increasing) simp_all
    also have "\<dots> \<le> bn_nat b" using minimal_width(5) [OF assms] that by (simp add: w_def)
    finally show ?thesis .
  qed
  consider "w = 0" | "w = 1" | "1 < w" by linarith
  then have "unat (BN_get_word b) = min (bn_nat b) (2 ^ 64 - 1) \<and>
    BN_get_u64 b = (if bn_nat b < 2 ^ 64 then Some (of_nat (bn_nat b)) else None)"
  proof cases
    case 1
    then show ?thesis using mw(2) by (simp add: BN_get_word_def BN_get_u64_def w_def)
  next
    case 2
    then show ?thesis using one unat_u64_lt [of "d b ! 0"] by (simp add: BN_get_word_def BN_get_u64_def w_def)
  next
    case 3
    then show ?thesis using big
      by (simp add: BN_get_word_def BN_get_u64_def w_def unsigned_minus_1_eq_mask mask_eq_exp_minus_1)
  qed
  then show "unat (BN_get_word b) = min (bn_nat b) (2 ^ 64 - 1)"
    "BN_get_u64 b = (if bn_nat b < 2 ^ 64 then Some (of_nat (bn_nat b)) else None)" by simp_all
qed

lemma hd_be_bytes:
  assumes "n \<noteq> 0" "v < 256 ^ n" "256 ^ (n - 1) \<le> v"
  shows "hd (be_bytes n v) \<noteq> 0"
proof -
  define q where "q = v div 256 ^ (n - 1)"
  have "(256 :: nat) ^ n = 256 * 256 ^ (n - 1)" using assms(1) by (cases n) simp_all
  then have "q < 256" unfolding q_def using assms(2) by (simp only: less_mult_imp_div_less)
  moreover have "0 < q" unfolding q_def using assms(3) by (simp add: div_greater_zero_iff)
  ultimately have "unat (of_nat q :: u8) \<noteq> 0" by simp
  then have "(of_nat q :: u8) \<noteq> 0" by (metis unsigned_0)
  moreover have "hd (be_bytes n v) = rev (be_bytes n v) ! (n - 1)"
    using assms(1) by (simp add: rev_nth hd_conv_nth del: be_bytes.simps flip: length_0_conv)
  then have "hd (be_bytes n v) = of_nat q" using rev_be_bytes_nth [of "n - 1" n v] assms(1) by (simp add: q_def del: be_bytes.simps)
  ultimately show ?thesis by (simp only: not_False_eq_True)
qed

text \<open>Reading big-endian (\<open>BN_bin2bn\<close>) or little-endian (\<open>BN_le2bn\<close>) bytes over a number gives exactly
  their value, in as many words as the bytes need, and changes no other number; it fails only if the
  words cannot be had, and then nothing changes. Every word of the result is written, whatever the
  memory held.\<close>

theorem bn_read_exact:
  assumes "bn_ok (h r)"
  shows "reads_to g h r (length inp) (be_val inp) (neg (h r) \<and> inp = []) (BN_bin2bn g junk h p inp (Some r)) \<and>
    reads_to g h r (length inp) (be_val (rev inp)) (neg (h r) \<and> inp \<noteq> []) (BN_le2bn g junk h p inp (Some r))"
  using bin2bn_into_spec [of h r g inp junk] le2bn_into_spec [of h r g inp junk] assms
  by (simp add: BN_bin2bn_def BN_le2bn_def bn_ok_def le_val_def)

theorem bn_read_exact_witness:
  "\<exists>h'. BN_bin2bn (\<lambda>_. True) (\<lambda>_. 0) sample_bns 1 [1, 2] (Some 0) = (Some 0, h') \<and> bn_nat (h' 0) = 258"
proof -
  have "\<not> cannot_expand (\<lambda>_. True) (sample_bns 0) 1" by (simp add: cannot_expand_def sample_bns_def)
  then show ?thesis
    using bn_read_exact [of sample_bns 0 "\<lambda>_. True" "[1, 2]" "\<lambda>_. 0" 1, OF sample_bns(1)]
    by (auto simp: reads_to_def be_val_Cons split: prod.splits option.splits)
qed

text \<open>What reading makes of a number, with its sign.\<close>

lemma read_number:
  assumes "width (h r) \<le> dmax (h r)"
  shows "BN_bin2bn g junk h p bs (Some r) = (Some r, h') \<Longrightarrow> bn_int (h' r) = int (be_val bs)"
    "BN_le2bn g junk h p bs (Some r) = (Some r, h') \<Longrightarrow>
     bn_int (h' r) = (if neg (h r) then - int (be_val (rev bs)) else int (be_val (rev bs)))"
  using bin2bn_into_spec [of h r g bs junk, OF assms] le2bn_into_spec [of h r g bs junk, OF assms]
  by (auto simp: BN_bin2bn_def BN_le2bn_def reads_to_def bn_int_def le_val_def)

lemma read_number_new:
  "BN_bin2bn g junk h p bs None = (Some q, h') \<Longrightarrow> q = p \<and> bn_int (h' q) = int (be_val bs)"
  "BN_le2bn g junk h p bs None = (Some q, h') \<Longrightarrow> q = p \<and> bn_int (h' q) = int (be_val (rev bs))"
  using bin2bn_into_spec [of "BN_init h p" p g bs junk] le2bn_into_spec [of "BN_init h p" p g bs junk]
  by (auto simp: BN_bin2bn_def BN_le2bn_def BN_new_def BN_init_def reads_to_def bn_int_def le_val_def split: if_splits)

text \<open>C29: writing gives the absolute value and reading it back gives the number with the sign that the form does
  not carry. \<open>BN_bn2bin\<close> is the shortest big-endian form of the absolute value (of a number of at most 2 to
  the 25 words, where its length is counted without overflow), and the padded forms, big- and little-endian,
  are the form of the asked length exactly if the value fits in it, whatever the width; the sign is not
  written. Read into a new number (\<open>None\<close>) each gives the absolute value. Read over a number \<open>r\<close>, the
  big-endian forms give the absolute value; the little-endian form gives the absolute value with the sign
  that \<open>r\<close> had before. \<open>BN_get_word\<close> and \<open>BN_get_u64\<close> give the absolute
  value if it is one word.\<close>

theorem bn_bytes_roundtrip:
  assumes "bn_ok b" "bn_ok (h r)" "bn_minimal_width b \<le> 2 ^ 25"
  shows "BN_bn2bin b = be_bytes (unat (BN_num_bytes b)) (nat \<bar>bn_int b\<bar>) \<and>
    (BN_bn2bin b \<noteq> [] \<longrightarrow> hd (BN_bn2bin b) \<noteq> 0) \<and>
    BN_bn2bin_padded len b = (if \<bar>bn_int b\<bar> < 256 ^ len then Some (be_bytes len (nat \<bar>bn_int b\<bar>)) else None) \<and>
    BN_bn2le_padded len b = map_option rev (BN_bn2bin_padded len b) \<and>
    (\<forall>bs \<in> {BN_bn2bin b} \<union> set_option (BN_bn2bin_padded len b).
       (\<forall>q h'. BN_bin2bn g junk h p bs None = (Some q, h') \<longrightarrow> q = p \<and> bn_int (h' q) = \<bar>bn_int b\<bar>) \<and>
       (\<forall>h'. BN_bin2bn g junk h p bs (Some r) = (Some r, h') \<longrightarrow> bn_int (h' r) = \<bar>bn_int b\<bar>)) \<and>
    (\<forall>bs \<in> set_option (BN_bn2le_padded len b).
       (\<forall>q h'. BN_le2bn g junk h p bs None = (Some q, h') \<longrightarrow> q = p \<and> bn_int (h' q) = \<bar>bn_int b\<bar>) \<and>
       (\<forall>h'. BN_le2bn g junk h p bs (Some r) = (Some r, h') \<longrightarrow>
          bn_int (h' r) = (if neg (h r) then - \<bar>bn_int b\<bar> else \<bar>bn_int b\<bar>))) \<and>
    int (unat (BN_get_word b)) = min \<bar>bn_int b\<bar> (2 ^ 64 - 1) \<and>
    BN_get_u64 b = (if \<bar>bn_int b\<bar> < 2 ^ 64 then Some (of_int \<bar>bn_int b\<bar>) else None)"
proof (intro conjI)
  have w: "width b \<le> dmax b" "width (h r) \<le> dmax (h r)" using assms by (simp_all add: bn_ok_def)
  have abs: "\<bar>bn_int b\<bar> = int (bn_nat b)" "nat \<bar>bn_int b\<bar> = bn_nat b" by (simp_all add: bn_int_def)
  have less: "\<bar>bn_int b\<bar> < 256 ^ n \<longleftrightarrow> bn_nat b < 256 ^ n" for n
    unfolding abs by (metis of_nat_less_iff of_nat_numeral of_nat_power)
  note bounds = num_bytes_bounds [OF w(1) assms(3)] and bin = bn2bin_spec [OF w(1) assms(3)]
  have be: "BN_bn2bin_padded len b = (if bn_nat b < 256 ^ len then Some (be_bytes len (bn_nat b)) else None)"
    and le: "BN_bn2le_padded len b = (if bn_nat b < 256 ^ len then Some (rev (be_bytes len (bn_nat b))) else None)"
    by (simp_all add: padded_be [OF w(1)] padded_le [OF w(1)])
  show "BN_bn2bin b = be_bytes (unat (BN_num_bytes b)) (nat \<bar>bn_int b\<bar>)" by (simp only: bin abs(2))
  show "BN_bn2bin b \<noteq> [] \<longrightarrow> hd (BN_bn2bin b) \<noteq> 0"
    unfolding bin using hd_be_bytes [OF _ bounds(1)] bounds(2) by (cases "unat (BN_num_bytes b)") auto
  show "BN_bn2bin_padded len b = (if \<bar>bn_int b\<bar> < 256 ^ len then Some (be_bytes len (nat \<bar>bn_int b\<bar>)) else None)"
    by (simp only: be less abs(2))
  show "BN_bn2le_padded len b = map_option rev (BN_bn2bin_padded len b)" by (simp add: le be)
  show "\<forall>bs \<in> {BN_bn2bin b} \<union> set_option (BN_bn2bin_padded len b).
       (\<forall>q h'. BN_bin2bn g junk h p bs None = (Some q, h') \<longrightarrow> q = p \<and> bn_int (h' q) = \<bar>bn_int b\<bar>) \<and>
       (\<forall>h'. BN_bin2bn g junk h p bs (Some r) = (Some r, h') \<longrightarrow> bn_int (h' r) = \<bar>bn_int b\<bar>)"
  proof (intro ballI)
    fix bs assume "bs \<in> {BN_bn2bin b} \<union> set_option (BN_bn2bin_padded len b)"
    then have "be_val bs = bn_nat b"
      using bounds(1) by (auto simp: bin be be_val_be_bytes split: if_splits)
    then show "(\<forall>q h'. BN_bin2bn g junk h p bs None = (Some q, h') \<longrightarrow> q = p \<and> bn_int (h' q) = \<bar>bn_int b\<bar>) \<and>
       (\<forall>h'. BN_bin2bn g junk h p bs (Some r) = (Some r, h') \<longrightarrow> bn_int (h' r) = \<bar>bn_int b\<bar>)"
      unfolding abs using read_number(1) read_number_new(1) w(2) by metis
  qed
  show "\<forall>bs \<in> set_option (BN_bn2le_padded len b).
       (\<forall>q h'. BN_le2bn g junk h p bs None = (Some q, h') \<longrightarrow> q = p \<and> bn_int (h' q) = \<bar>bn_int b\<bar>) \<and>
       (\<forall>h'. BN_le2bn g junk h p bs (Some r) = (Some r, h') \<longrightarrow>
          bn_int (h' r) = (if neg (h r) then - \<bar>bn_int b\<bar> else \<bar>bn_int b\<bar>))"
  proof (intro ballI)
    fix bs assume "bs \<in> set_option (BN_bn2le_padded len b)"
    then have "be_val (rev bs) = bn_nat b" by (auto simp: le be_val_be_bytes split: if_splits)
    then show "(\<forall>q h'. BN_le2bn g junk h p bs None = (Some q, h') \<longrightarrow> q = p \<and> bn_int (h' q) = \<bar>bn_int b\<bar>) \<and>
       (\<forall>h'. BN_le2bn g junk h p bs (Some r) = (Some r, h') \<longrightarrow>
          bn_int (h' r) = (if neg (h r) then - \<bar>bn_int b\<bar> else \<bar>bn_int b\<bar>))"
      unfolding abs using read_number(2) read_number_new(2) w(2) by metis
  qed
  show "int (unat (BN_get_word b)) = min \<bar>bn_int b\<bar> (2 ^ 64 - 1)"
    unfolding abs using get_word_spec(1) [OF w(1)] by (simp add: min_def)
  show "BN_get_u64 b = (if \<bar>bn_int b\<bar> < 2 ^ 64 then Some (of_int \<bar>bn_int b\<bar>) else None)"
    unfolding abs using get_word_spec(2) [OF w(1)] by simp
qed

theorem bn_bytes_roundtrip_witness: "BN_bn2bin_padded 7 (sample_bns 0) = None"
proof -
  have "bn_minimal_width (sample_bns 0) \<le> 2 ^ 25"
    using minimal_width(1) [of "sample_bns 0"] sample_bns(1) [of 0] by (simp add: bn_ok_def sample_bns_def)
  note exact = bn_bytes_roundtrip [where h = sample_bns and r = 0, OF sample_bns(1) sample_bns(1) this]
  have "BN_bn2bin_padded 7 (sample_bns 0) =
      (if \<bar>bn_int (sample_bns 0)\<bar> < 256 ^ 7 then Some (be_bytes 7 (nat \<bar>bn_int (sample_bns 0)\<bar>)) else None)"
    by (rule exact [THEN conjunct2, THEN conjunct2, THEN conjunct1])
  then show ?thesis unfolding sample_bns(2) by simp
qed

end
