(* ===== verification/Bn_Mod.thy ===== *)
theory Bn_Mod
  imports Bn_Arith
begin

unbundle bit_operations_syntax

text \<open>
  The remainder of a big number by a 16-bit divisor without a division, \<^verbatim>\<open>crypto/fipsmodule/bn/div_extra.c\<close>:
  a reciprocal of 33 bits, of which the code keeps the low 32, and halves of words from the top down.
\<close>

section \<open>The code\<close>

definition mod_u16 :: "u32 \<Rightarrow> u16 \<Rightarrow> nat \<Rightarrow> u32 \<Rightarrow> u16" where
  "mod_u16 n dv p m =
    (let q = ucast (drop_bit 32 ((ucast m :: u64) * ucast n)) :: u32;
         t = drop_bit 1 (n - q) + q;
         t = drop_bit (p - 1) t;
         n = n - ucast dv * t
     in ucast n)"

definition shift_and_add_mod_u16 :: "u16 \<Rightarrow> u32 \<Rightarrow> u16 \<Rightarrow> nat \<Rightarrow> u32 \<Rightarrow> u16" where
  "shift_and_add_mod_u16 r a dv p m =
    (let t = ucast r :: u32;
         t = push_bit 16 t;
         t = t OR drop_bit 16 a;
         t = ucast (mod_u16 t dv p m);
         t = push_bit 16 t;
         t = t OR (a AND 0xffff)
     in mod_u16 t dv p m)"

definition magic_u16 :: "u16 \<Rightarrow> nat \<times> u32" where
  "magic_u16 dv =
    (let p = unat (BN_num_bits_word (ucast (dv - 1)));
         m = ucast ((push_bit (32 + p) (1 :: u64) + ucast dv - 1) div ucast dv)
     in (p, m))"

definition bn_mod_u16_consttime :: "bignum \<Rightarrow> u16 \<Rightarrow> u16" where
  "bn_mod_u16_consttime bn dv =
    (if dv \<le> 1 then 0
     else let (p, m) = magic_u16 dv in
       fold (\<lambda>i ret.
           let ret = shift_and_add_mod_u16 ret (ucast (drop_bit 32 (d bn ! i))) dv p m
           in shift_and_add_mod_u16 ret (ucast (d bn ! i AND 0xffffffff)) dv p m)
         (rev [0..<width bn]) 0)"

section \<open>The reciprocal\<close>

text \<open>A quotient by the reciprocal \<open>M\<close>, rounded up, is the quotient by \<open>k\<close>.\<close>

lemma reciprocal_div:
  fixes n k M e :: nat
  assumes "M * k = 2 ^ (32 + p) + e" "e < k" "k \<le> 2 ^ p" "n < 2 ^ 32"
  shows "M * n div 2 ^ (32 + p) = n div k"
proof -
  define q r where "q = n div k" and "r = n mod k"
  have n: "n = q * k + r" "r < k" using assms(2) by (simp_all add: q_def r_def)
  have en: "e * n < 2 ^ (32 + p)"
  proof -
    have "e * n \<le> e * 2 ^ 32" using assms(4) by simp
    also have "\<dots> < 2 ^ p * 2 ^ 32" using assms(2,3) by simp
    finally show ?thesis by (simp add: power_add mult.commute)
  qed
  have k: "M * n * k = 2 ^ (32 + p) * n + e * n"
    using assms(1) by (simp add: mult.assoc mult.commute [of n k] distrib_right flip: mult.assoc [of M k n])
  have "2 ^ (32 + p) * (q * k) \<le> 2 ^ (32 + p) * n" using n(1) by (intro mult_le_mono2) simp
  then have "2 ^ (32 + p) * q * k \<le> M * n * k" unfolding k by (simp only: mult.assoc trans_le_add1)
  then have lo: "2 ^ (32 + p) * q \<le> M * n" using assms(2) by (simp only: mult_le_cancel2)
  have "M * n * k < 2 ^ (32 + p) * (q + 1) * k"
  proof -
    have "M * n * k < 2 ^ (32 + p) * (n + 1)" unfolding k using en by simp
    also have "\<dots> \<le> 2 ^ (32 + p) * ((q + 1) * k)" using n by (intro mult_le_mono2) simp
    finally show ?thesis by (simp only: mult.assoc)
  qed
  then have hi: "M * n < 2 ^ (32 + p) * (q + 1)" by (simp only: mult_less_cancel2)
  have "M * n div 2 ^ (32 + p) = q" using lo hi by (intro div_nat_eqI) (simp_all add: mult.commute)
  then show ?thesis by (simp add: q_def)
qed

text \<open>The code has \<open>M\<close> without its top bit, and divides by 2 before it adds it back, so that nothing
  overflows.\<close>

lemma halved_quotient:
  fixes n m :: nat
  assumes "m < 2 ^ 32"
  shows "((n - m * n div 2 ^ 32) div 2 + m * n div 2 ^ 32) div 2 ^ k = (m + 2 ^ 32) * n div 2 ^ (33 + k)"
proof -
  define q where "q = m * n div 2 ^ 32"
  have "m * n \<le> 2 ^ 32 * n" using assms by simp
  then have "q \<le> n" unfolding q_def by (rule div_le_mono [THEN order_trans]) simp
  then have "(n - q) div 2 + q = (n + q) div 2" by simp
  also have "n + q = (m + 2 ^ 32) * n div 2 ^ 32" unfolding q_def by (simp add: distrib_right)
  finally have "((n - q) div 2 + q) div 2 ^ k = (m + 2 ^ 32) * n div 2 ^ 32 div 2 div 2 ^ k" by simp
  also have "\<dots> = (m + 2 ^ 32) * n div 2 ^ (33 + k)"
    by (simp only: div_mult2_eq [symmetric] power_add) simp
  finally show ?thesis by (simp only: q_def)
qed

definition is_magic :: "u16 \<Rightarrow> nat \<Rightarrow> u32 \<Rightarrow> bool" where
  "is_magic dv p m \<longleftrightarrow> 0 < p \<and> unat dv \<le> 2 ^ p \<and>
    (\<exists>e < unat dv. (unat m + 2 ^ 32) * unat dv = 2 ^ (32 + p) + e)"

lemma mod_u16_spec:
  assumes "is_magic dv p m"
  shows "unat (mod_u16 n dv p m) = unat n mod unat dv"
proof -
  have p: "0 < p" "unat dv \<le> 2 ^ p" using assms by (simp_all add: is_magic_def)
  obtain e where e: "e < unat dv" "(unat m + 2 ^ 32) * unat dv = 2 ^ (32 + p) + e"
    using assms by (auto simp: is_magic_def)
  define q :: u32 where "q = ucast (drop_bit 32 ((ucast m :: u64) * ucast n))"
  have b: "unat m < 2 ^ 32" "unat n < 2 ^ 32" 
    using unsigned_less [of m, where ?'a = nat] unsigned_less [of n, where ?'a = nat] by simp_all
  have u: "unat (ucast m :: u64) = unat m" "unat (ucast n :: u64) = unat n"
    using b by (simp_all add: unsigned_ucast_eq take_bit_nat_eq_self)
  have "unat m * unat n < 2 ^ 32 * 2 ^ 32" using b by (intro mult_strict_mono) simp_all
  then have prod: "unat ((ucast m :: u64) * ucast n) = unat m * unat n" by (simp add: unat_word_ariths u)
  have qle: "unat m * unat n div 2 ^ 32 \<le> unat n"
    using div_le_mono [of "unat m * unat n" "2 ^ 32 * unat n" "2 ^ 32"] b(1) by simp
  have "unat (drop_bit 32 ((ucast m :: u64) * ucast n)) = unat m * unat n div 2 ^ 32"
    by (simp only: unat_drop_bit_eq drop_bit_eq_div [of 32 "unat m * unat n"] prod)
  then have q: "unat q = unat m * unat n div 2 ^ 32"
    using qle b(2) by (simp only: q_def unsigned_ucast_eq) (simp add: take_bit_nat_eq_self)
  have nq: "unat (n - q) = unat n - unat q" using qle q by (simp add: unat_sub word_le_nat_alt)
  have "(unat n - unat q) div 2 + unat q < 2 ^ 32" using qle q b(2) by simp
  then have "unat (drop_bit 1 (n - q) + q) = (unat n - unat q) div 2 + unat q"
    by (simp add: unat_word_ariths unat_drop_bit_eq drop_bit_eq_div nq)
  then have "unat (drop_bit (p - 1) (drop_bit 1 (n - q) + q)) = ((unat n - unat q) div 2 + unat q) div 2 ^ (p - 1)"
    by (simp only: unat_drop_bit_eq drop_bit_eq_div [where ?'a = nat])
  also have "\<dots> = (unat m + 2 ^ 32) * unat n div 2 ^ (32 + p)"
    unfolding q using halved_quotient [OF b(1), of "unat n" "p - 1"] p(1) by simp
  also have "\<dots> = unat n div unat dv" by (rule reciprocal_div [OF e(2,1) p(2) b(2)])
  finally have t: "unat (drop_bit (p - 1) (drop_bit 1 (n - q) + q)) = unat n div unat dv" .
  define t where "t = drop_bit (p - 1) (drop_bit 1 (n - q) + q)"
  have dv: "unat (ucast dv :: u32) = unat dv" "unat dv < 2 ^ 16"
    using unsigned_less [of dv, where ?'a = nat] by (simp_all add: unsigned_ucast_eq take_bit_nat_eq_self)
  have le: "unat dv * (unat n div unat dv) \<le> unat n" by simp
  then have "unat dv * (unat n div unat dv) < 2 ^ 32" using b(2) by linarith
  then have "unat (ucast dv * t) = unat dv * (unat n div unat dv)"
    by (simp add: unat_word_ariths dv t t_def [symmetric] t [folded t_def])
  then have "unat (n - ucast dv * t) = unat n - unat dv * (unat n div unat dv)"
    using le by (simp add: unat_sub word_le_nat_alt)
  also have "\<dots> = unat n mod unat dv" by (simp add: minus_mult_div_eq_mod)
  finally have r: "unat (n - ucast dv * t) = unat n mod unat dv" .
  have "unat n mod unat dv < unat dv" using e(1) by simp
  then have "unat (ucast (n - ucast dv * t) :: u16) = unat n mod unat dv"
    using r dv(2) by (simp add: unsigned_ucast_eq take_bit_nat_eq_self)
  then show ?thesis unfolding mod_u16_def Let_def q_def [symmetric] t_def [symmetric] .
qed

text \<open>The reciprocal the code computes is the one it needs: it has 33 bits, and its low 32 are kept.\<close>

lemma magic_u16_spec:
  assumes "1 < dv" "magic_u16 dv = (p, m)"
  shows "is_magic dv p m"
proof -
  define k where "k = unat dv"
  have k: "2 \<le> k" "k < 2 ^ 16" using assms(1) unsigned_less [of dv, where ?'a = nat] by (simp_all add: k_def word_less_nat_alt)
  have u: "unat (ucast dv :: u64) = k" using k(2) by (simp add: unsigned_ucast_eq take_bit_nat_eq_self k_def)
  have k1: "unat (dv - 1) = k - 1" using assms(1) unfolding k_def by (intro unat_minus_one) auto
  have "unat (ucast (dv - 1) :: u64) = k - 1" using k(2) k1 by (simp add: unsigned_ucast_eq take_bit_nat_eq_self)
  then have p: "p = bit_len (k - 1)" using assms(2) by (simp add: magic_u16_def num_bits_word Let_def)
  have up: "k \<le> 2 ^ p" using bit_len_bounds(1) [of "k - 1"] by (simp add: p)
  have lo: "2 ^ (p - 1) \<le> k - 1" unfolding p by (rule bit_len_bounds(2)) (use k(1) in simp)
  have p0: "0 < p" using k(1) up by (cases p) simp_all
  have "2 ^ (p - 1) < (2 :: nat) ^ 16" using lo k by linarith
  then have "p - 1 < 16" by (rule power_less_imp_less_exp [rotated]) simp
  then have p16: "p \<le> 16" by simp
  define x where "x = 2 ^ (32 + p) + k - 1"
  have le48: "(2 :: nat) ^ (32 + p) \<le> 2 ^ 48" using p16 by (intro power_increasing) simp_all
  define P where "P = push_bit (32 + p) (1 :: u64)"
  have "unat P = 2 ^ (32 + p)"
    using p16 power_strict_increasing [of "32 + p" 64 "2 :: nat"] unfolding P_def
    by (simp only: unsigned_push_bit_eq unsigned_1) (simp add: take_bit_nat_eq_self)
  then have "unat (P + ucast dv) = 2 ^ (32 + p) + k"
    using le48 k(2) by (simp add: unat_word_ariths u)
  moreover from this have "P + ucast dv \<noteq> 0" by (metis add_is_0 k(1) not_numeral_le_zero unsigned_0)
  ultimately have "unat (push_bit (32 + p) (1 :: u64) + ucast dv - 1) = x"
    using unat_minus_one [of "P + ucast dv"] by (simp only: x_def P_def not_False_eq_True)
  then have "unat ((push_bit (32 + p) (1 :: u64) + ucast dv - 1) div ucast dv) = x div k"
    by (simp add: unat_div u)
  then have m: "unat m = x div k mod 2 ^ 32"
    using assms(2) by (auto simp: magic_u16_def p Let_def unsigned_ucast_eq take_bit_eq_mod)
  define M where "M = x div k"
  have x: "x = M * k + x mod k" by (simp add: M_def)
  have ge: "2 ^ 32 \<le> M"
  proof -
    have "2 ^ 32 * k \<le> 2 ^ 32 * 2 ^ p" using up by simp
    also have "\<dots> \<le> x" using k(1) by (simp add: x_def power_add)
    finally show ?thesis unfolding M_def using k(1) by (simp add: less_eq_div_iff_mult_less_eq)
  qed
  have lt: "M < 2 ^ 33"
  proof (rule ccontr)
    assume "\<not> M < 2 ^ 33"
    then have "2 ^ 33 * k \<le> M * k" by simp
    also have "\<dots> \<le> x" using x by linarith
    finally have "2 ^ 33 * k \<le> 2 ^ (32 + p) + k - 1" by (simp add: x_def)
    moreover have "(2 :: nat) ^ (32 + p) = 2 ^ 33 * 2 ^ (p - 1)" using p0 by (cases p) (simp_all add: power_add)
    ultimately have "8589934592 * k \<le> 8589934592 * 2 ^ (p - 1) + k - 1" by simp
    moreover have "k < 65536" using k(2) by simp
    ultimately show False using lo k(1) by linarith
  qed
  have "unat m = M - 2 ^ 32" unfolding m M_def [symmetric] using ge lt by (simp add: le_mod_geq)
  then have M: "unat m + 2 ^ 32 = M" using ge by simp
  define e where "e = k - 1 - x mod k"
  have "x mod k < k" using k(1) by simp
  moreover have "M * k + x mod k = 2 ^ (32 + p) + (k - 1)" using x k(1) unfolding x_def by linarith
  ultimately have "M * k = 2 ^ (32 + p) + e" "e < k" using k(1) unfolding e_def by linarith+
  then show ?thesis using p0 up unfolding is_magic_def M k_def [symmetric] by blast
qed

lemma mod_horner: "(x mod k * y + z) mod k = (x * y + z) mod k" for k :: nat
  by (metis mod_add_left_eq mod_mult_left_eq)

lemma shift_and_add_spec:
  assumes "is_magic dv p m"
  shows "unat (shift_and_add_mod_u16 r a dv p m) = (unat r * 2 ^ 32 + unat a) mod unat dv"
proof -
  have join: "unat (push_bit 16 (ucast (x :: u16) :: u32) OR y) = unat x * 2 ^ 16 + unat y" if "unat y < 2 ^ 16" for x and y :: u32
  proof -
    have "push_bit 16 (ucast x :: u32) AND y = 0"
    proof (rule bit_word_eqI)
      fix i assume "i < LENGTH(32)"
      have "\<not> bit y i" if "16 \<le> i"
      proof -
        have "take_bit 16 y = y" using \<open>unat y < 2 ^ 16\<close> by (simp add: word_unat_eq_iff unsigned_take_bit_eq take_bit_nat_eq_self)
        then show ?thesis using that by (metis bit_take_bit_iff not_less)
      qed
      then show "bit (push_bit 16 (ucast x :: u32) AND y) i = bit 0 i" by (auto simp: bit_simps)
    qed
    then have "push_bit 16 (ucast x :: u32) OR y = push_bit 16 (ucast x) + y" by (metis word_plus_and_or add_0)
    moreover have "unat x < 2 ^ 16" using unsigned_less [of x, where ?'a = nat] by simp
    then have "unat (push_bit 16 (ucast x :: u32)) = unat x * 2 ^ 16"
      by (simp add: push_bit_eq_mult unat_word_ariths unsigned_ucast_eq take_bit_nat_eq_self)
    ultimately show ?thesis using that \<open>unat x < 2 ^ 16\<close> by (simp add: unat_word_ariths)
  qed
  have a: "unat a < 2 ^ 32" using unsigned_less [of a, where ?'a = nat] by simp
  have hi: "unat (drop_bit 16 a) = unat a div 2 ^ 16" by (simp only: unat_drop_bit_eq drop_bit_eq_div [where ?'a = nat])
  have "a AND 0xffff = take_bit 16 a" by (simp add: take_bit_eq_mask mask_numeral)
  then have low: "unat (a AND 0xffff) = unat a mod 2 ^ 16"
    by (simp only: unsigned_take_bit_eq take_bit_eq_mod [where ?'a = nat])
  have b: "unat (drop_bit 16 a) < 2 ^ 16" "unat (a AND 0xffff) < 2 ^ 16"
    using a unfolding hi low by (simp_all add: less_mult_imp_div_less)
  have "unat (shift_and_add_mod_u16 r a dv p m) =
      ((unat r * 2 ^ 16 + unat a div 2 ^ 16) mod unat dv * 2 ^ 16 + unat a mod 2 ^ 16) mod unat dv"
    by (simp only: shift_and_add_mod_u16_def Let_def mod_u16_spec [OF assms] join [OF b(1)] join [OF b(2)] hi low)
  also have "\<dots> = ((unat r * 2 ^ 16 + unat a div 2 ^ 16) * 2 ^ 16 + unat a mod 2 ^ 16) mod unat dv"
    by (rule mod_horner)
  also have "(unat r * 2 ^ 16 + unat a div 2 ^ 16) * 2 ^ 16 + unat a mod 2 ^ 16 = unat r * 2 ^ 32 + unat a"
    by (simp add: distrib_right)
  finally show ?thesis .
qed

section \<open>The remainder\<close>

lemma halves_of_word: "unat (ucast (drop_bit 32 w) :: u32) * 2 ^ 32 + unat (ucast (w AND 0xffffffff) :: u32) = unat w" for w :: u64
proof -
  have "unat (drop_bit 32 w) = unat w div 2 ^ 32" by (simp only: unat_drop_bit_eq drop_bit_eq_div [where ?'a = nat])
  moreover have "unat w div 2 ^ 32 < 2 ^ 32" using unat_u64_lt [of w] by (intro less_mult_imp_div_less) simp
  ultimately have hi: "unat (ucast (drop_bit 32 w) :: u32) = unat w div 2 ^ 32"
    by (simp only: unsigned_ucast_eq) (simp add: take_bit_nat_eq_self)
  have "w AND 0xffffffff = take_bit 32 w" by (simp add: take_bit_eq_mask mask_numeral)
  then have "unat (w AND 0xffffffff) = unat w mod 2 ^ 32"
    by (simp only: unsigned_take_bit_eq take_bit_eq_mod [where ?'a = nat])
  then have "unat (ucast (w AND 0xffffffff) :: u32) = unat w mod 2 ^ 32"
    by (simp only: unsigned_ucast_eq) (simp add: take_bit_nat_eq_self)
  then show ?thesis unfolding hi by simp
qed

lemma mod_words:
  assumes "is_magic dv p m" "k \<le> n" "n \<le> length ws"
  shows "unat (fold (\<lambda>i ret.
      let ret = shift_and_add_mod_u16 ret (ucast (drop_bit 32 (ws ! i))) dv p m
      in shift_and_add_mod_u16 ret (ucast (ws ! i AND 0xffffffff)) dv p m) (rev [k..<n]) 0) =
    wval (drop k (take n ws)) mod unat dv"
  using assms(2)
proof (induction k rule: inc_induct)
  case (step k)
  define ret where "ret = fold (\<lambda>i ret.
      let ret = shift_and_add_mod_u16 ret (ucast (drop_bit 32 (ws ! i))) dv p m
      in shift_and_add_mod_u16 ret (ucast (ws ! i AND 0xffffffff)) dv p m) (rev [Suc k..<n]) 0"
  have IH: "unat ret = wval (drop (Suc k) (take n ws)) mod unat dv" using step.IH by (simp only: ret_def)
  let ?hi = "unat (ucast (drop_bit 32 (ws ! k)) :: u32)" and ?lo = "unat (ucast (ws ! k AND 0xffffffff) :: u32)"
  have up: "rev [k..<n] = rev [Suc k..<n] @ [k]" using step.hyps by (simp add: upt_conv_Cons)
  have "wval (drop k (take n ws)) = unat (ws ! k) + 2 ^ 64 * wval (drop (Suc k) (take n ws))"
    using step.hyps assms(3) Cons_nth_drop_Suc [of k "take n ws", symmetric] by simp
  also have "\<dots> = (wval (drop (Suc k) (take n ws)) * 2 ^ 32 + ?hi) * 2 ^ 32 + ?lo"
    unfolding halves_of_word [of "ws ! k", symmetric] by (simp add: distrib_right)
  finally have val: "wval (drop k (take n ws)) mod unat dv = ((wval (drop (Suc k) (take n ws)) * 2 ^ 32 + ?hi) * 2 ^ 32 + ?lo) mod unat dv" by simp
  show ?case
    unfolding up fold_append comp_apply ret_def [symmetric] val
    by (simp only: fold.simps comp_apply id_apply Let_def shift_and_add_spec [OF assms(1)] IH mod_horner)
qed (use assms(3) in simp)

text \<open>C31: \<open>bn_mod_u16_consttime\<close> is the remainder: for every 16-bit divisor but 0, the multiplications,
  shifts and the reciprocal, of which only 32 of 33 bits are kept, give the remainder of the absolute
  value, whatever the width; for 0 the result is 0.\<close>

theorem bn_mod_u16_exact:
  assumes "bn_ok b"
  shows "unat (bn_mod_u16_consttime b dv) = (if dv = 0 then 0 else bn_nat b mod unat dv)"
proof (cases "dv \<le> 1")
  case True
  then have "unat dv \<le> 1" by (simp add: word_le_nat_alt)
  then have "unat dv = 0 \<or> unat dv = 1" by linarith
  then show ?thesis using True by (auto simp: bn_mod_u16_consttime_def word_unat_eq_iff)
next
  case False
  obtain p m where pm: "magic_u16 dv = (p, m)" by fastforce
  have "is_magic dv p m" using False by (intro magic_u16_spec [OF _ pm]) simp
  from mod_words [OF this, of 0 "width b" "d b"] show ?thesis
    using False assms pm by (auto simp: bn_mod_u16_consttime_def bn_nat_def bn_ok_def)
qed

theorem bn_mod_u16_exact_witness: "unat (bn_mod_u16_consttime (sample_bns 0) 10) = 5"
proof -
  have "bn_nat (sample_bns 0) = 2 ^ 64 - 1" using sample_bns(2) [of 0] by (simp add: bn_int_def sample_bns_def split: if_splits)
  then show ?thesis using bn_mod_u16_exact [OF sample_bns(1) [of 0], of 10] by simp
qed

end
