(* ===== verification/Bn_Shift.thy ===== *)
theory Bn_Shift
  imports Bn_Arith
begin

unbundle bit_operations_syntax

text \<open>
  Shifts and single bits of big numbers, \<^verbatim>\<open>crypto/fipsmodule/bn/shift.c\<close>. A shift may be in place. The shift
  by a secret amount, which needs a temporary number, is not modelled.
\<close>

section \<open>The code\<close>

text \<open>One word of a left shift by \<open>lb\<close> bits, which are not 0; the loop runs from the top down.\<close>

definition lshift_word :: "words_ptr \<Rightarrow> words_ptr \<Rightarrow> nat \<Rightarrow> nat \<Rightarrow> nat \<Rightarrow> bns \<Rightarrow> bns" where
  "lshift_word t f nw lb i h =
    (let l = word_at h f i;
         h = set_word h t (nw + i + 1) (word_at h t (nw + i + 1) OR drop_bit (64 - lb) l)
     in set_word h t (nw + i) (push_bit lb l))"

definition zero_words :: "bns \<Rightarrow> words_ptr \<Rightarrow> nat \<Rightarrow> bns" where
  "zero_words h p n = put_words h p (replicate n 0)"

definition BN_lshift :: "(nat \<Rightarrow> bool) \<Rightarrow> (nat \<Rightarrow> u64) \<Rightarrow> bns \<Rightarrow> nat \<Rightarrow> nat \<Rightarrow> int \<Rightarrow> bool \<times> bns" where
  "BN_lshift g junk h r a n =
    (if n < 0 then (False, h)
     else
       let h = h(r := (h r)\<lparr>neg := neg (h a)\<rparr>);
           nw = nat n div 64;
           a_width = width (h a)
       in case bn_wexpand g junk h r (a_width + nw + 1) of
         (False, h) \<Rightarrow> (False, h)
       | (True, h) \<Rightarrow>
           let lb = nat n mod 64;
               h = set_word h (r, 0) (a_width + nw) 0;
               h = (if lb = 0 then
                      fold (\<lambda>i h. set_word h (r, 0) (nw + i) (word_at h (a, 0) i)) (rev [0..<a_width]) h
                    else fold (lshift_word (r, 0) (a, 0) nw lb) (rev [0..<a_width]) h);
               h = zero_words h (r, 0) nw;
               h = h(r := (h r)\<lparr>width := a_width + nw + 1\<rparr>)
           in (True, bn_set_minimal_width h r))"

definition lshift1_words :: "bns \<Rightarrow> words_ptr \<Rightarrow> words_ptr \<Rightarrow> nat \<Rightarrow> bns \<times> u64" where
  "lshift1_words h rp ap n =
    fold (\<lambda>i (h, c). let t = word_at h ap i
                     in (set_word h rp i (push_bit 1 t OR c), drop_bit (64 - 1) t)) [0..<n] (h, 0)"

definition BN_lshift1 :: "(nat \<Rightarrow> bool) \<Rightarrow> (nat \<Rightarrow> u64) \<Rightarrow> bns \<Rightarrow> nat \<Rightarrow> nat \<Rightarrow> bool \<times> bns" where
  "BN_lshift1 g junk h r a =
    (let a_width = width (h a);
         h = (if r \<noteq> a then h(r := (h r)\<lparr>neg := neg (h a)\<rparr>) else h)
     in case bn_wexpand g junk h r (a_width + 1) of
       (False, h) \<Rightarrow> (False, h)
     | (True, h) \<Rightarrow>
         let h = (if r \<noteq> a then h(r := (h r)\<lparr>width := a_width\<rparr>) else h);
             (h, c) = lshift1_words h (r, 0) (a, 0) a_width
         in if c \<noteq> 0 then
              (let h = set_word h (r, 0) a_width 1 in (True, h(r := (h r)\<lparr>width := width (h r) + 1\<rparr>)))
            else (True, h))"

definition bn_rshift_words :: "bns \<Rightarrow> words_ptr \<Rightarrow> words_ptr \<Rightarrow> nat \<Rightarrow> nat \<Rightarrow> bns" where
  "bn_rshift_words h r a shift num =
    (let shift_bits = shift mod 64;
         shift_words = shift div 64
     in if num \<le> shift_words then zero_words h r num
        else
          let h = (if shift_bits = 0 then
                     put_words h r (words_at h (ptr_add a shift_words) (num - shift_words))
                   else
                     let h = fold (\<lambda>i h. set_word h r (i - shift_words)
                           (drop_bit shift_bits (word_at h a i) OR push_bit (64 - shift_bits) (word_at h a (i + 1))))
                           [shift_words..<num - 1] h
                     in set_word h r (num - 1 - shift_words) (drop_bit shift_bits (word_at h a (num - 1))))
          in zero_words h (ptr_add r (num - shift_words)) shift_words)"

definition BN_rshift :: "(nat \<Rightarrow> bool) \<Rightarrow> (nat \<Rightarrow> u64) \<Rightarrow> bns \<Rightarrow> nat \<Rightarrow> nat \<Rightarrow> int \<Rightarrow> bool \<times> bns" where
  "BN_rshift g junk h r a n =
    (if n < 0 then (False, h)
     else
       let a_width = width (h a)
       in case bn_wexpand g junk h r a_width of
         (False, h) \<Rightarrow> (False, h)
       | (True, h) \<Rightarrow>
           let h = bn_rshift_words h (r, 0) (a, 0) (nat n) a_width;
               h = h(r := (h r)\<lparr>neg := neg (h a)\<rparr>);
               h = h(r := (h r)\<lparr>width := a_width\<rparr>)
           in (True, bn_set_minimal_width h r))"

definition bn_rshift1_words :: "bns \<Rightarrow> words_ptr \<Rightarrow> words_ptr \<Rightarrow> nat \<Rightarrow> bns" where
  "bn_rshift1_words h r a num =
    (if num = 0 then h
     else
       let h = fold (\<lambda>i h. set_word h r i (drop_bit 1 (word_at h a i) OR push_bit (64 - 1) (word_at h a (i + 1))))
                 [0..<num - 1] h
       in set_word h r (num - 1) (drop_bit 1 (word_at h a (num - 1))))"

definition BN_rshift1 :: "(nat \<Rightarrow> bool) \<Rightarrow> (nat \<Rightarrow> u64) \<Rightarrow> bns \<Rightarrow> nat \<Rightarrow> nat \<Rightarrow> bool \<times> bns" where
  "BN_rshift1 g junk h r a =
    (let a_width = width (h a)
     in case bn_wexpand g junk h r a_width of
       (False, h) \<Rightarrow> (False, h)
     | (True, h) \<Rightarrow>
         let h = bn_rshift1_words h (r, 0) (a, 0) a_width;
             h = h(r := (h r)\<lparr>width := a_width\<rparr>);
             h = h(r := (h r)\<lparr>neg := neg (h a)\<rparr>)
         in (True, bn_set_minimal_width h r))"

section \<open>Left shifts\<close>

text \<open>Writing downwards: each word read gives the word below those written and changes the lowest of them.\<close>

definition descend :: "(u64 \<Rightarrow> u64 \<Rightarrow> u64 \<times> u64) \<Rightarrow> u64 list \<Rightarrow> u64 list" where
  "descend f ws = foldr (\<lambda>w L. fst (f w (hd L)) # snd (f w (hd L)) # tl L) ws [0]"

lemma length_descend [simp]: "length (descend f ws) = length ws + 1"
  by (induction ws) (simp_all add: descend_def)

lemma descend_simps:
  "descend f [] = [0]"
  "descend f (w # ws) = fst (f w (hd (descend f ws))) # snd (f w (hd (descend f ws))) # tl (descend f ws)"
  by (simp_all add: descend_def)

lemma blit_head:
  assumes "p + length ys \<le> length xs" "ys \<noteq> []"
  shows "(blit xs p ys)[p := y] = blit xs p (y # tl ys)" "blit xs p ys ! p = hd ys"
  using assms by (cases ys; simp add: blit_def list_update_append nth_append)+

lemma blit_before:
  assumes "p < length xs"
  shows "(blit xs (Suc p) ys)[p := y] = blit xs p (y # ys)" "blit xs (Suc p) ys ! p = xs ! p"
  using assms by (simp_all add: blit_def list_update_append take_Suc_conv_app_nth nth_append)

lemma descend_loop:
  assumes body: "\<And>i ys. i < m \<Longrightarrow> length ys = m - i \<Longrightarrow>
      body i (put_words h (r, k + (i + 1)) ys) =
      put_words h (r, k + i) (fst (f (word_at h a i) (hd ys)) # snd (f (word_at h a i) (hd ys)) # tl ys)"
    and "in_array h a m"
  shows "fold body (rev [0..<m]) (put_words h (r, k + m) [0]) = put_words h (r, k) (descend f (words_at h a m))"
proof -
  have "fold body (rev [j..<m]) (put_words h (r, k + m) [0]) = put_words h (r, k + j) (descend f (drop j (words_at h a m)))"
    if "j \<le> m" for j
    using that
  proof (induction j rule: inc_induct)
    case (step i)
    have len: "length (words_at h a m) = m" by (rule length_words_at [OF assms(2)])
    have up: "rev [i..<m] = rev [Suc i..<m] @ [i]" using step.hyps by (simp add: upt_conv_Cons)
    have "drop i (words_at h a m) = word_at h a i # drop (Suc i) (words_at h a m)"
      using Cons_nth_drop_Suc [of i "words_at h a m"] step.hyps len nth_words_at [OF assms(2)] by simp
    then show ?case
      using step body [of i "descend f (drop (Suc i) (words_at h a m))"] len unfolding up by (simp add: descend_simps)
  qed (use length_words_at [OF assms(2)] in \<open>simp add: descend_simps\<close>)
  from this [of 0] show ?thesis by simp
qed

lemma zero_below:
  assumes "in_array h (r, 0) (k + length ws)"
  shows "zero_words (put_words h (r, k) ws) (r, 0) k = put_words h (r, 0) (replicate k 0 @ ws)"
  using assms by (simp add: zero_words_def put_words_def in_array_def blit_def fun_eq_iff)

definition shl_word :: "nat \<Rightarrow> u64 \<Rightarrow> u64 \<Rightarrow> u64 \<times> u64" where
  "shl_word lb w x = (if lb = 0 then (w, x) else (push_bit lb w, x OR drop_bit (64 - lb) w))"

lemma lshift_loop:
  assumes "in_array h (r, 0) (m + k + 1)" "in_array h (a, 0) m"
  shows "(if lb = 0 then fold (\<lambda>i h. set_word h (r, 0) (k + i) (word_at h (a, 0) i)) (rev [0..<m]) (set_word h (r, 0) (m + k) 0)
     else fold (lshift_word (r, 0) (a, 0) k lb) (rev [0..<m]) (set_word h (r, 0) (m + k) 0)) =
    put_words h (r, k) (descend (shl_word lb) (words_at h (a, 0) m))"
proof -
  have start: "set_word h (r, 0) (m + k) 0 = put_words h (r, k + m) [0]"
    using put_words_Suc [of h "(r, k + m)" "[]" 0] assms(1) by (simp add: in_array_def set_word_def add.commute)
  have rd: "word_at (put_words h (r, k + (i + 1)) ys) (a, 0) i = word_at h (a, 0) i" if "i < m" for i ys
    using that assms by (simp add: word_at_def put_words_def blit_def nth_append in_array_def)
  have top: "word_at (put_words h (r, p) ys) (r, 0) p = hd ys" "set_word (put_words h (r, p) ys) (r, 0) p y = put_words h (r, p) (y # tl ys)"
    if "p + length ys \<le> m + k + 1" "ys \<noteq> []" for p ys y
    using that assms(1) by (simp_all add: word_at_def set_word_def put_words_def in_array_def blit_head)
  have below: "set_word (put_words h (r, Suc p) ys) (r, 0) p y = put_words h (r, p) (y # ys)" if "p < m + k + 1" for p ys y
    using that assms(1) by (simp add: set_word_def put_words_def in_array_def blit_before)
  show ?thesis
  proof (cases "lb = 0")
    case True
    have "fold (\<lambda>i h. set_word h (r, 0) (k + i) (word_at h (a, 0) i)) (rev [0..<m]) (put_words h (r, k + m) [0]) =
        put_words h (r, k) (descend (shl_word lb) (words_at h (a, 0) m))"
    proof (rule descend_loop [OF _ assms(2)])
      fix i and ys :: "u64 list" assume "i < m" "length ys = m - i"
      then show "set_word (put_words h (r, k + (i + 1)) ys) (r, 0) (k + i) (word_at (put_words h (r, k + (i + 1)) ys) (a, 0) i) =
          put_words h (r, k + i) (fst (shl_word lb (word_at h (a, 0) i) (hd ys)) # snd (shl_word lb (word_at h (a, 0) i) (hd ys)) # tl ys)"
        using rd [of i ys] below [of "k + i" ys] True by (cases ys) (simp_all add: shl_word_def)
    qed
    then show ?thesis using True by (simp add: start)
  next
    case False
    have "fold (lshift_word (r, 0) (a, 0) k lb) (rev [0..<m]) (put_words h (r, k + m) [0]) =
        put_words h (r, k) (descend (shl_word lb) (words_at h (a, 0) m))"
    proof (rule descend_loop [OF _ assms(2)])
      fix i and ys :: "u64 list" assume i: "i < m" "length ys = m - i"
      then have "ys \<noteq> []" by auto
      then show "lshift_word (r, 0) (a, 0) k lb i (put_words h (r, k + (i + 1)) ys) =
          put_words h (r, k + i) (fst (shl_word lb (word_at h (a, 0) i) (hd ys)) # snd (shl_word lb (word_at h (a, 0) i) (hd ys)) # tl ys)"
        using i rd [of i ys] top [of "k + i + 1" ys] below [of "k + i"] False by (simp add: lshift_word_def shl_word_def Let_def)
    qed
    then show ?thesis using False by (simp add: start)
  qed
qed

lemma unat_or_disjoint: "x AND y = 0 \<Longrightarrow> unat (x OR y) = unat x + unat y"
  using disjunctive_add_eq_or [of "unat x" "unat y"] by (simp add: unsigned_or_eq flip: unsigned_and_eq)

lemma shifted_halves:
  fixes w :: u64
  assumes "k \<le> 64"
  shows "unat (push_bit k w) + 2 ^ 64 * unat (drop_bit (64 - k) w) = unat w * 2 ^ k"
proof -
  have hi: "unat (drop_bit (64 - k) w) = unat w div 2 ^ (64 - k)" by (simp only: unat_drop_bit_eq drop_bit_eq_div [where ?'a = nat])
  have "unat (push_bit k w) = unat w * 2 ^ k mod 2 ^ 64"
    by (simp only: unsigned_push_bit_eq) (simp add: push_bit_eq_mult take_bit_eq_mod)
  moreover have "unat w * 2 ^ k div 2 ^ 64 = unat w div 2 ^ (64 - k)"
  proof -
    have "unat w * 2 ^ k div 2 ^ 64 = unat w * 2 ^ k div (2 ^ k * 2 ^ (64 - k))" using assms by (simp flip: power_add)
    then show ?thesis by (simp add: div_mult2_eq)
  qed
  ultimately show ?thesis unfolding hi by (metis mod_mult_div_eq)
qed

lemma low_bits_clear:
  fixes x y :: u64
  assumes "take_bit k x = 0" "\<forall>i. bit y i \<longrightarrow> i < k"
  shows "x AND y = 0"
proof (rule bit_word_eqI)
  fix i
  have "\<not> bit (take_bit k x) i" by (simp add: assms(1))
  then show "bit (x AND y) i = bit 0 i" using assms(2) by (auto simp: bit_simps)
qed

lemma low_of_shifted: "take_bit k (push_bit k w) = 0" for w :: u64
  by (rule bit_word_eqI) (simp add: bit_simps)

lemma descend_shl:
  assumes "lb < 64"
  shows "wval (descend (shl_word lb) ws) = wval ws * 2 ^ lb \<and> take_bit lb (hd (descend (shl_word lb) ws)) = 0"
proof (induction ws)
  case (Cons w ws)
  obtain x L where L: "descend (shl_word lb) ws = x # L"
    using length_descend [of "shl_word lb" ws] by (cases "descend (shl_word lb) ws") auto
  show ?case
  proof (cases "lb = 0")
    case False
    have "x AND drop_bit (64 - lb) w = 0"
    proof (rule low_bits_clear)
      show "\<forall>i. bit (drop_bit (64 - lb) w) i \<longrightarrow> i < lb"
        using assms by (auto simp: bit_simps dest!: bit_imp_le_length)
    qed (use Cons L in simp)
    then have "unat (x OR drop_bit (64 - lb) w) = unat x + unat (drop_bit (64 - lb) w)" by (rule unat_or_disjoint)
    moreover have "unat x + 2 ^ 64 * wval L = wval ws * 2 ^ lb" using Cons L by simp
    moreover have "unat (push_bit lb w) + 2 ^ 64 * unat (drop_bit (64 - lb) w) = unat w * 2 ^ lb"
      using shifted_halves [of lb w] assms by simp
    moreover have "take_bit lb (push_bit lb w) = 0" by (rule low_of_shifted)
    moreover have "shl_word lb w x = (push_bit lb w, x OR drop_bit (64 - lb) w)" using False by (simp add: shl_word_def)
    ultimately show ?thesis using L by (simp add: descend_simps algebra_simps)
  next
    case True
    then have "shl_word lb w x = (w, x)" by (simp add: shl_word_def)
    then show ?thesis using Cons L True by (simp add: descend_simps)
  qed
qed (simp add: descend_simps)

text \<open>A result in \<open>r\<close>, with its sign.\<close>

lemma signed_result:
  assumes "becomes h r v h1" "neg (h1 r) = s"
  shows "computes h r (if s then - int v else int v) (bn_set_minimal_width h1 r)"
  using minimal_result [OF assms(1)] set_minimal_width(3) [of h1 r] assms
  by (auto simp: computes_def becomes_def bn_int_def)

lemma signed_words_result:
  assumes "length ws = w" "w \<le> dmax (h r)"
  shows "computes h r (if s then - int (wval ws) else int (wval ws))
    (bn_set_minimal_width ((put_words h (r, 0) ws)(r := (put_words h (r, 0) ws r)\<lparr>width := w, neg := s\<rparr>)) r)"
  by (rule signed_result [OF put_words_result(1) [where h = h and r = r, OF assms]]) simp

lemma computes_frame: "computes h1 r v h' \<Longrightarrow> (\<And>p. p \<noteq> r \<Longrightarrow> h1 p = h p) \<Longrightarrow> computes h r v h'"
  by (simp add: computes_def)

lemma lshift_spec:
  assumes "width (h a) \<le> dmax (h a)" "width (h r) \<le> dmax (h r)" "0 \<le> n" "BN_lshift g junk h r a n = (ok, h')"
  shows "ok \<longleftrightarrow> \<not> cannot_expand g (h r) (width (h a) + nat n div 64 + 1)"
    "ok \<Longrightarrow> computes h r (bn_int (h a) * 2 ^ nat n) h'"
proof -
  define h0 where "h0 = h(r := (h r)\<lparr>neg := neg (h a)\<rparr>)"
  define m nw lb where "m = width (h a)" and "nw = nat n div 64" and "lb = nat n mod 64"
  have same: "width (h0 p) = width (h p)" "d (h0 p) = d (h p)" "static_data (h0 p) = static_data (h p)" for p
    by (simp_all add: h0_def)
  have neg0: "neg (h0 r) = neg (h a)" by (simp add: h0_def)
  obtain e h1 where e: "bn_wexpand g junk h0 r (m + nw + 1) = (e, h1)" by fastforce
  note we = wexpand_spec [of h0 r, unfolded same, OF assms(2) e]
  define h2 where "h2 = zero_words (if lb = 0 then
        fold (\<lambda>i h. set_word h (r, 0) (nw + i) (word_at h (a, 0) i)) (rev [0..<m]) (set_word h1 (r, 0) (m + nw) 0)
      else fold (lshift_word (r, 0) (a, 0) nw lb) (rev [0..<m]) (set_word h1 (r, 0) (m + nw) 0)) (r, 0) nw"
  have run: "(ok, h') = (if e then (True, bn_set_minimal_width (h2(r := (h2 r)\<lparr>width := m + nw + 1\<rparr>)) r) else (False, h1))"
    using assms(3,4) e unfolding BN_lshift_def Let_def h2_def h0_def [symmetric] same m_def nw_def lb_def by (cases e) simp_all
  then have ok: "ok = e" by (cases e) simp_all
  show "ok \<longleftrightarrow> \<not> cannot_expand g (h r) (width (h a) + nat n div 64 + 1)"
    using we(1) ok by (simp add: cannot_expand_def same m_def nw_def)
  assume ok
  then have e1: "e" using ok by simp
  have ea: "words_at h1 (a, 0) m = words_at h (a, 0) m" "m \<le> dmax (h1 a)"
    using after_expand(1) [of g junk h0 r "m + nw + 1" h1 m a] after_expand(2) [of g junk h0 r "m + nw + 1" h1 a] e e1 assms(1,2)
    by (simp_all add: m_def words_at_def same)
  have inr: "in_array h1 (r, 0) (m + nw + 1)" "in_array h1 (a, 0) m" using we(3) e1 ea(2) by (simp_all add: in_array_def)
  define ws where "ws = replicate nw 0 @ descend (shl_word lb) (words_at h (a, 0) m)"
  have len: "length (words_at h (a, 0) m) = m" by (rule length_words_at) (use assms(1) in \<open>simp add: in_array_def m_def\<close>)
  have h2: "h2 = put_words h1 (r, 0) ws"
    unfolding h2_def lshift_loop [OF inr] ea ws_def
    by (rule zero_below) (use inr(1) len in \<open>simp add: in_array_def\<close>)
  have lw: "length ws = m + nw + 1" by (simp add: ws_def len)
  have "wval ws = bn_nat (h a) * 2 ^ lb * 2 ^ (64 * nw)"
    using descend_shl [of lb "words_at h (a, 0) m"] by (simp add: ws_def wval_append bn_nat_words m_def lb_def)
  also have "\<dots> = bn_nat (h a) * 2 ^ nat n"
    by (simp only: mult.assoc power_add [symmetric] lb_def nw_def mod_mult_div_eq)
  finally have val: "wval ws = bn_nat (h a) * 2 ^ nat n" .
  have "h2(r := (h2 r)\<lparr>width := m + nw + 1\<rparr>) = h2(r := (h2 r)\<lparr>width := m + nw + 1, neg := neg (h a)\<rparr>)"
    unfolding h2 using we(5) [of r] neg0 by (auto simp: put_words_def intro!: ext bignum.equality)
  then have "h' = bn_set_minimal_width (h2(r := (h2 r)\<lparr>width := m + nw + 1, neg := neg (h a)\<rparr>)) r"
    using run e1 by simp
  then have "computes h1 r (if neg (h a) then - int (bn_nat (h a) * 2 ^ nat n) else int (bn_nat (h a) * 2 ^ nat n)) h'"
    using signed_words_result [OF lw, of h1 r "neg (h a)"] inr(1) unfolding h2 val by (simp add: in_array_def)
  then have "computes h1 r (bn_int (h a) * 2 ^ nat n) h'" by (simp add: bn_int_def split: if_splits)
  then show "computes h r (bn_int (h a) * 2 ^ nat n) h'"
    by (rule computes_frame) (use we(6) in \<open>simp add: h0_def\<close>)
qed

lemma lshift1_words_value:
  assumes "ahead r a n" "in_array h r n" "in_array h a n"
  obtains ws c where "lshift1_words h r a n = (put_words h r ws, c)" "length ws = n" "c = 0 \<or> c = 1"
    "wval ws + 2 ^ (64 * n) * unat c = 2 * wval (words_at h a n)"
proof -
  define f where "f = (\<lambda>c x (y :: u64) (z :: u64). (push_bit 1 x OR c, drop_bit (64 - 1) x :: u64))"
  have step: "(c' = 0 \<or> c' = 1) \<and> int (unat l) + 2 ^ 64 * int (unat c') =
      2 * int (unat x) + 0 * int (unat y) + 0 * int (unat z) + int (unat c)"
    if c: "c = 0 \<or> c = 1" and f: "f c x y z = (l, c')" for c x y z l c'
  proof -
    have lc: "l = push_bit 1 x OR c" "c' = drop_bit (64 - 1) x" using f by (simp_all add: f_def)
    have "push_bit 1 x AND c = 0"
      by (rule low_bits_clear [OF low_of_shifted]) (use c in \<open>auto simp: bit_simps\<close>)
    then have "unat l = unat (push_bit 1 x) + unat c" unfolding lc by (rule unat_or_disjoint)
    moreover have "unat c' = unat x div 2 ^ 63" unfolding lc by (simp only: unat_drop_bit_eq drop_bit_eq_div [where ?'a = nat]) simp
    then have "unat c' < 2" using unat_u64_lt [of x] by (simp add: less_mult_imp_div_less)
    moreover have "unat (push_bit 1 x) + 2 ^ 64 * unat c' = unat x * 2 ^ 1" unfolding lc by (rule shifted_halves) simp
    ultimately have "unat l + 2 ^ 64 * unat c' = 2 * unat x + unat c" "unat c' = 0 \<or> unat c' = 1" by auto
    then have "int (unat l + 2 ^ 64 * unat c') = int (2 * unat x + unat c)" "c' = 0 \<or> c' = 1"
      by (simp_all only: word_unat_eq_iff unsigned_0 unsigned_1)
    then show ?thesis
      by (simp only: of_nat_simps of_nat_power of_nat_numeral mult_zero_left add_0_right simp_thms)
  qed
  obtain ws c where *: "fold (\<lambda>i (h, c). let (w, c) = f c (word_at h a i) (word_at h a i) (word_at h r i)
        in (set_word h r i w, c)) [0..<n] (h, 0) = (put_words h r ws, c)"
    "length ws = n" "c = 0 \<or> c = 1"
    "int (wval ws) + 2 ^ (64 * n) * int (unat c) =
      2 * int (wval (words_at h a n)) + 0 * int (wval (words_at h a n)) + 0 * int (wval (words_at h r n)) + int (unat (0 :: u64))"
    by (rule loop_value [where P = "\<lambda>c. c = 0 \<or> c = 1" and f = f and c = 0 and val = "\<lambda>c. int (unat c)"
        and p = 2 and q = 0 and s = 0, OF assms(1) assms(1) assms(2,3,3) _ step]) simp_all
  have "int (wval ws + 2 ^ (64 * n) * unat c) = int (2 * wval (words_at h a n))"
    using *(4) by (simp only: of_nat_simps of_nat_power of_nat_numeral mult_zero_left add_0_right unsigned_0)
  then have "wval ws + 2 ^ (64 * n) * unat c = 2 * wval (words_at h a n)" by (simp only: of_nat_eq_iff)
  then show ?thesis using that [of ws c] *(1-3) by (simp add: lshift1_words_def f_def Let_def)
qed

text \<open>A result that may have leading zero words.\<close>

definition yields :: "bns \<Rightarrow> nat \<Rightarrow> int \<Rightarrow> bns \<Rightarrow> bool" where
  "yields h r v h' \<longleftrightarrow> bn_int (h' r) = v \<and> bn_ok (h' r) \<and> (\<forall>p. p \<noteq> r \<longrightarrow> h' p = h p)"

lemma lshift1_spec:
  assumes "bn_ok (h a)" "bn_ok (h r)" "BN_lshift1 g junk h r a = (ok, h')"
  shows "ok \<longleftrightarrow> \<not> cannot_expand g (h r) (width (h a) + 1)" "ok \<Longrightarrow> yields h r (2 * bn_int (h a)) h'"
proof -
  define m where "m = width (h a)"
  define h0 where "h0 = (if r \<noteq> a then h(r := (h r)\<lparr>neg := neg (h a)\<rparr>) else h)"
  have same: "width (h0 p) = width (h p)" "d (h0 p) = d (h p)" "static_data (h0 p) = static_data (h p)" for p
    by (simp_all add: h0_def)
  have fit: "width (h r) \<le> dmax (h r)" "width (h a) \<le> dmax (h a)" using assms(1,2) by (simp_all add: bn_ok_def)
  have neg0: "neg (h0 r) = neg (h a)" by (simp add: h0_def)
  obtain e h1 where e: "bn_wexpand g junk h0 r (m + 1) = (e, h1)" by fastforce
  note we = wexpand_spec [of h0 r, unfolded same, OF fit(1) e]
  define h2 where "h2 = (if r \<noteq> a then h1(r := (h1 r)\<lparr>width := m\<rparr>) else h1)"
  obtain h3 c where run3: "lshift1_words h2 (r, 0) (a, 0) m = (h3, c)" by fastforce
  have run: "(ok, h') = (if e then if c \<noteq> 0 then (let h = set_word h3 (r, 0) m 1 in (True, h(r := (h r)\<lparr>width := width (h r) + 1\<rparr>)))
      else (True, h3) else (False, h1))"
    using assms(3) e run3 [unfolded h2_def] unfolding BN_lshift1_def Let_def h0_def [symmetric] m_def
    by (cases e) auto
  then have ok: "ok = e" by (cases e) (simp_all add: Let_def split: if_splits)
  show "ok \<longleftrightarrow> \<not> cannot_expand g (h r) (width (h a) + 1)" using we(1) ok by (simp add: cannot_expand_def same m_def)
  assume ok
  then have e1: e using ok by simp
  have ea: "words_at h2 (a, 0) m = words_at h (a, 0) m" "m \<le> dmax (h2 a)" "m + 1 \<le> dmax (h2 r)" "width (h2 r) = m"
    using after_expand(1) [of g junk h0 r "m + 1" h1 m a] after_expand(2) [of g junk h0 r "m + 1" h1 a] e e1 fit we(3,4)
    by (auto simp: m_def words_at_def same h2_def)
  have inr: "in_array h2 (r, 0) m" "in_array h2 (a, 0) m" using ea by (simp_all add: in_array_def)
  obtain ws where ws: "h3 = put_words h2 (r, 0) ws" "length ws = m" "c = 0 \<or> c = 1"
    "wval ws + 2 ^ (64 * m) * unat c = 2 * wval (words_at h2 (a, 0) m)"
    using run3 by (rule_tac lshift1_words_value [OF _ inr, of thesis]) (auto simp: ahead_def)
  have val: "wval ws + 2 ^ (64 * m) * unat c = 2 * bn_nat (h a)" using ws(4) unfolding ea(1) by (simp add: bn_nat_words m_def)
  define vs where "vs = (if c \<noteq> 0 then ws @ [1] else ws)"
  have d': "d (h' r) = blit (d (h2 r)) 0 vs" "width (h' r) = length vs" "neg (h' r) = neg (h a)" "\<forall>p. p \<noteq> r \<longrightarrow> h' p = h2 p"
    using run e1 put_words_Suc [of h2 "(r, 0)" ws 1] ws(1,2) ea(3,4) we(5) [of r] neg0
    by (auto simp: vs_def Let_def put_words_def in_array_def h2_def split: if_splits)
  have vl: "length vs \<le> dmax (h2 r)" using ws(2) ea(3) by (simp add: vs_def)
  have "wval vs = 2 * bn_nat (h a)" using val ws(2,3) by (auto simp: vs_def wval_append)
  then have "bn_nat (h' r) = 2 * bn_nat (h a)" by (simp add: bn_nat_def d' blit_def)
  then show "yields h r (2 * bn_int (h a)) h'"
    using d' vl we(6) assms(1) by (auto simp: yields_def bn_int_def bn_ok_def h2_def h0_def)
qed

section \<open>Right shifts\<close>

fun shr :: "nat \<Rightarrow> u64 list \<Rightarrow> u64 list" where
  "shr sb [] = []"
| "shr sb [w] = [drop_bit sb w]"
| "shr sb (w # x # ws) = (drop_bit sb w OR push_bit (64 - sb) x) # shr sb (x # ws)"

lemma length_shr [simp]: "length (shr sb ws) = length ws"
  by (induction sb ws rule: shr.induct) simp_all

lemma wval_mod: "k \<le> 64 \<Longrightarrow> wval (w # ws) mod 2 ^ k = unat w mod 2 ^ k"
proof -
  assume "k \<le> 64"
  then have "2 ^ 64 * wval ws = 2 ^ k * (2 ^ (64 - k) * wval ws)" by (simp flip: power_add mult.assoc)
  then show ?thesis by (simp only: wval.simps mod_mult_self2)
qed

lemma shr_word:
  fixes w x :: u64
  assumes "0 < sb" "sb < 64"
  shows "unat (drop_bit sb w OR push_bit (64 - sb) x) = unat w div 2 ^ sb + 2 ^ (64 - sb) * (unat x mod 2 ^ sb)"
proof -
  have "push_bit (64 - sb) x AND drop_bit sb w = 0"
    by (rule low_bits_clear [OF low_of_shifted]) (use assms in \<open>auto simp: bit_simps dest!: bit_imp_le_length\<close>)
  then have "unat (push_bit (64 - sb) x OR drop_bit sb w) = unat (push_bit (64 - sb) x) + unat (drop_bit sb w)"
    by (rule unat_or_disjoint)
  moreover have "unat (push_bit (64 - sb) x) = unat x * 2 ^ (64 - sb) mod 2 ^ 64"
    by (simp only: unsigned_push_bit_eq) (simp add: push_bit_eq_mult take_bit_eq_mod)
  moreover have "(2 :: nat) ^ 64 = 2 ^ sb * 2 ^ (64 - sb)" using assms by (simp flip: power_add)
  then have "unat x * 2 ^ (64 - sb) mod 2 ^ 64 = 2 ^ (64 - sb) * (unat x mod 2 ^ sb)"
    using mult_mod_left [of "unat x" "2 ^ sb" "2 ^ (64 - sb)"] by (simp only: mult.commute)
  moreover have "unat (drop_bit sb w) = unat w div 2 ^ sb" by (simp only: unat_drop_bit_eq drop_bit_eq_div [where ?'a = nat])
  ultimately show ?thesis by (simp add: or.commute)
qed

lemma wval_shr: "0 < sb \<Longrightarrow> sb < 64 \<Longrightarrow> wval (shr sb ws) = wval ws div 2 ^ sb"
proof (induction sb ws rule: shr.induct)
  case (2 sb w)
  then show ?case by (simp only: shr.simps wval.simps mult_0_right add_0_right unat_drop_bit_eq drop_bit_eq_div [where ?'a = nat])
next
  case (3 sb w x ws)
  define V where "V = wval (x # ws)"
  have IH: "wval (shr sb (x # ws)) = V div 2 ^ sb" using 3 by (simp only: V_def)
  have Vmod: "unat x mod 2 ^ sb = V mod 2 ^ sb" using wval_mod [of sb x ws] 3(3) by (simp only: V_def less_imp_le)
  have exp: "(2 :: nat) ^ 64 = 2 ^ sb * 2 ^ (64 - sb)" using 3(3) by (simp flip: power_add)
  have "wval (w # x # ws) div 2 ^ sb = (unat w + 2 ^ sb * (2 ^ (64 - sb) * V)) div 2 ^ sb"
    by (simp only: wval.simps(2) [of w] V_def exp mult.assoc)
  also have "\<dots> = unat w div 2 ^ sb + 2 ^ (64 - sb) * V" by simp
  also have "2 ^ (64 - sb) * V = 2 ^ (64 - sb) * (V mod 2 ^ sb + 2 ^ sb * (V div 2 ^ sb))" by (simp only: mod_mult_div_eq)
  also have "\<dots> = 2 ^ (64 - sb) * (V mod 2 ^ sb) + 2 ^ 64 * (V div 2 ^ sb)"
    by (simp only: distrib_left exp mult.assoc mult.left_commute)
  finally show ?case
    by (simp only: shr.simps wval.simps(2) [of "_ OR _"] IH shr_word [OF 3(2,3)] Vmod add.assoc)
qed simp

lemma shr_nth:
  "ws \<noteq> [] \<Longrightarrow> shr sb ws = map (\<lambda>i. drop_bit sb (ws ! i) OR push_bit (64 - sb) (ws ! (i + 1))) [0..<length ws - 1] @
    [drop_bit sb (ws ! (length ws - 1))]"
proof (induction sb ws rule: shr.induct)
  case (3 sb w x ws)
  then show ?case by (simp add: map_upt_Suc del: upt_Suc)
qed simp_all

text \<open>Writing upwards from words at or above.\<close>

lemma ascend_loop:
  assumes "in_array h r n" "\<And>ws i. length ws \<le> i \<Longrightarrow> i < n \<Longrightarrow> F (put_words h r ws) (k + i) = F h (k + i)"
  shows "fold (\<lambda>i h. set_word h r (i - k) (F h i)) [k..<k + n] h = put_words h r (map (F h) [k..<k + n])"
  using assms
proof (induction n)
  case (Suc n)
  have "in_array h r n" using Suc.prems(1) by (simp add: in_array_def)
  then have IH: "fold (\<lambda>i h. set_word h r (i - k) (F h i)) [k..<k + n] h = put_words h r (map (F h) [k..<k + n])"
    by (rule Suc.IH) (use Suc.prems(2) in simp)
  show ?case
    using Suc.prems(2) [of "map (F h) [k..<k + n]" n] put_words_Suc [of h r "map (F h) [k..<k + n]" "F h (k + n)"] Suc.prems(1)
    by (simp add: IH)
qed simp

lemma rshift_words:
  assumes "in_array h r num" "in_array h a num" "ahead r a num"
  shows "\<exists>ws. bn_rshift_words h r a shift num = put_words h r ws \<and> length ws = num \<and>
    wval ws = wval (words_at h a num) div 2 ^ shift"
proof (cases "num \<le> shift div 64")
  case True
  have "wval (words_at h a num) < 2 ^ (64 * num)" using wval_bound [of "words_at h a num"] length_words_at [OF assms(2)] by simp
  also have "(2 :: nat) ^ (64 * num) \<le> 2 ^ shift" using True by (intro power_increasing) simp_all
  finally show ?thesis using True by (auto simp: bn_rshift_words_def zero_words_def intro!: exI [of _ "replicate num 0"])
next
  case False
  define sw sb m where "sw = shift div 64" and "sb = shift mod 64" and "m = num - sw"
  have m: "0 < m" "num = sw + m" using False by (simp_all add: m_def sw_def)
  define as where "as = words_at h (ptr_add a sw) m"
  have ina: "in_array h (ptr_add a sw) m" using assms(2) m(2) by (simp add: in_array_def)
  have las: "length as = m" unfolding as_def by (rule length_words_at [OF ina])
  have nth: "as ! i = word_at h a (sw + i)" if "i < m" for i
    using nth_words_at [OF ina that] by (simp add: as_def word_at_def add.assoc)
  have dr: "as = drop sw (words_at h a num)" using m(2) by (simp add: as_def words_at_def drop_take add.commute)
  have rd: "word_at (put_words h r ws) a (sw + i) = word_at h a (sw + i)" if "length ws \<le> i" "i < m" for ws i
    by (rule word_at_put_words [OF assms(3)]) (use that assms(1,2) m(2) in \<open>simp_all add: in_array_def\<close>)
  define vs where "vs = (if sb = 0 then as else shr sb as)"
  have step: "(if sb = 0 then put_words h r as
      else let h = fold (\<lambda>i h. set_word h r (i - sw) (drop_bit sb (word_at h a i) OR push_bit (64 - sb) (word_at h a (i + 1))))
             [sw..<num - 1] h
           in set_word h r (num - 1 - sw) (drop_bit sb (word_at h a (num - 1)))) = put_words h r vs"
  proof (cases "sb = 0")
    case nz: False
    define F where "F = (\<lambda>h i. drop_bit sb (word_at h a i) OR push_bit (64 - sb) (word_at h a (i + 1)))"
    have up: "num - 1 = sw + (m - 1)" and idx: "num - 1 - sw = m - 1" using m by simp_all
    have "fold (\<lambda>i h. set_word h r (i - sw) (F h i)) [sw..<sw + (m - 1)] h = put_words h r (map (F h) [sw..<sw + (m - 1)])"
    proof (rule ascend_loop)
      show "in_array h r (m - 1)" using assms(1) m(2) by (simp add: in_array_def)
      show "F (put_words h r ws) (sw + i) = F h (sw + i)" if "length ws \<le> i" "i < m - 1" for ws i
        using rd [of ws i] rd [of ws "i + 1"] that by (simp add: F_def)
    qed
    moreover have "map (F h) [sw..<sw + (m - 1)] @ [drop_bit sb (word_at h a (num - 1))] = shr sb as"
    proof -
      have "as \<noteq> []" using las m(1) by auto
      moreover have "map (F h) [sw..<sw + (m - 1)] =
          map (\<lambda>i. drop_bit sb (as ! i) OR push_bit (64 - sb) (as ! (i + 1))) [0..<m - 1]"
        by (rule nth_equalityI) (simp_all add: F_def nth)
      ultimately show ?thesis using nth [of "m - 1"] m up by (simp add: shr_nth las)
    qed
    moreover have "word_at (put_words h r (map (F h) [sw..<sw + (m - 1)])) a (num - 1) = word_at h a (num - 1)"
      using rd [of "map (F h) [sw..<sw + (m - 1)]" "m - 1"] m up by simp
    moreover have "set_word (put_words h r (map (F h) [sw..<sw + (m - 1)])) r (m - 1) w =
        put_words h r (map (F h) [sw..<sw + (m - 1)] @ [w])" for w
      using put_words_Suc [of h r "map (F h) [sw..<sw + (m - 1)]" w] assms(1) m up by (simp add: in_array_def)
    ultimately show ?thesis unfolding idx using nz up by (simp add: vs_def F_def Let_def)
  qed (simp add: vs_def)
  have lv: "length vs = m" by (simp add: vs_def las)
  have "zero_words (put_words h r vs) (ptr_add r m) sw = put_words h r (vs @ replicate sw 0)"
    using assms(1) m lv by (simp add: zero_words_def put_words_def in_array_def blit_def fun_eq_iff add.commute add.left_commute)
  then have run: "bn_rshift_words h r a shift num = put_words h r (vs @ replicate sw 0)"
    using False step unfolding bn_rshift_words_def Let_def sw_def [symmetric] sb_def [symmetric] m_def [symmetric] as_def [symmetric]
    by simp
  have "wval vs = wval as div 2 ^ sb" using wval_shr [of sb as] by (simp add: vs_def sb_def)
  also have "wval as = wval (words_at h a num) div 2 ^ (64 * sw)"
    using wval_take_drop [of sw "words_at h a num"] wval_bound [of "take sw (words_at h a num)"] length_words_at [OF assms(2)] m(2)
    by (simp add: dr)
  also have "\<dots> div 2 ^ sb = wval (words_at h a num) div 2 ^ shift"
    by (simp only: div_mult2_eq [symmetric] power_add [symmetric] sw_def sb_def mult_div_mod_eq)
  finally show ?thesis using run lv m(2) by (intro exI [of _ "vs @ replicate sw 0"]) (simp add: wval_append)
qed

lemma rshift1_is_rshift: "bn_rshift1_words h r a num = bn_rshift_words h r a 1 num"
  by (simp add: bn_rshift1_words_def bn_rshift_words_def zero_words_def Let_def)

lemma signed_div: "(if s then - int (m div 2 ^ k) else int (m div 2 ^ k)) = sgn i * (\<bar>i\<bar> div 2 ^ k)"
  if "i = (if s then - int m else int m)" for i :: int
  using that by (cases "m = 0") (simp_all add: zdiv_int)

lemma rshift_to:
  fixes k :: nat
  assumes "width (h a) \<le> dmax (h a)" "width (h r) \<le> dmax (h r)" "bn_wexpand g junk h r (width (h a)) = (True, h1)"
  defines "m \<equiv> width (h a)"
  defines "h2 \<equiv> bn_rshift_words h1 (r, 0) (a, 0) k m"
  shows "computes h r (sgn (bn_int (h a)) * (\<bar>bn_int (h a)\<bar> div 2 ^ k))
    (bn_set_minimal_width (h2(r := (h2 r)\<lparr>width := m, neg := neg (h2 a)\<rparr>)) r)"
proof -
  note we = wexpand_spec [OF assms(2,3)]
  have ea: "words_at h1 (a, 0) m = words_at h (a, 0) m" "m \<le> dmax (h1 a)" "m \<le> dmax (h1 r)"
    using after_expand(1) [OF assms(3,2), of m a] after_expand(2) [OF assms(3,2), of a] assms(1) we(3) by (simp_all add: m_def)
  obtain ws where ws: "h2 = put_words h1 (r, 0) ws" "length ws = m" "wval ws = wval (words_at h1 (a, 0) m) div 2 ^ k"
    using rshift_words [of h1 "(r, 0)" m "(a, 0)" k] ea(2,3) by (auto simp: h2_def in_array_def ahead_def)
  have val: "wval ws = bn_nat (h a) div 2 ^ k" using ws(3) unfolding ea(1) by (simp add: bn_nat_words m_def)
  have sign: "neg (h2 a) = neg (h a)" using we(5) by (simp add: ws(1) put_words_def)
  have "computes h1 r (if neg (h a) then - int (wval ws) else int (wval ws))
      (bn_set_minimal_width (h2(r := (h2 r)\<lparr>width := m, neg := neg (h2 a)\<rparr>)) r)"
    unfolding sign unfolding ws(1) by (rule signed_words_result [where h = h1 and r = r, OF ws(2) ea(3)])
  then have "computes h1 r (sgn (bn_int (h a)) * (\<bar>bn_int (h a)\<bar> div 2 ^ k))
      (bn_set_minimal_width (h2(r := (h2 r)\<lparr>width := m, neg := neg (h2 a)\<rparr>)) r)"
    unfolding val using signed_div [OF bn_int_def [of "h a"]] by simp
  then show ?thesis by (rule computes_frame) (use we(6) in simp)
qed

lemma rshift_spec:
  assumes "width (h a) \<le> dmax (h a)" "width (h r) \<le> dmax (h r)"
  shows "0 \<le> n \<Longrightarrow> BN_rshift g junk h r a n = (ok, h') \<Longrightarrow>
      (ok \<longleftrightarrow> \<not> cannot_expand g (h r) (width (h a))) \<and>
      (ok \<longrightarrow> computes h r (sgn (bn_int (h a)) * (\<bar>bn_int (h a)\<bar> div 2 ^ nat n)) h')"
    "BN_rshift1 g junk h r a = (ok, h') \<Longrightarrow>
      (ok \<longleftrightarrow> \<not> cannot_expand g (h r) (width (h a))) \<and>
      (ok \<longrightarrow> computes h r (sgn (bn_int (h a)) * (\<bar>bn_int (h a)\<bar> div 2)) h')"
proof -
  obtain e h1 where e: "bn_wexpand g junk h r (width (h a)) = (e, h1)" by fastforce
  note we = wexpand_spec [OF assms(2) e]
  have upd: "x\<lparr>neg := s, width := w\<rparr> = x\<lparr>width := w, neg := s\<rparr>" for x :: bignum and w s by (rule bignum.equality) simp_all
  show "(ok \<longleftrightarrow> \<not> cannot_expand g (h r) (width (h a))) \<and>
      (ok \<longrightarrow> computes h r (sgn (bn_int (h a)) * (\<bar>bn_int (h a)\<bar> div 2 ^ nat n)) h')"
    if "0 \<le> n" "BN_rshift g junk h r a n = (ok, h')"
    using that e we(1) rshift_to [OF assms, of g junk h1 "nat n"]
    by (cases e) (auto simp: BN_rshift_def Let_def upd)
  show "(ok \<longleftrightarrow> \<not> cannot_expand g (h r) (width (h a))) \<and>
      (ok \<longrightarrow> computes h r (sgn (bn_int (h a)) * (\<bar>bn_int (h a)\<bar> div 2)) h')"
    if "BN_rshift1 g junk h r a = (ok, h')"
    using that e we(1) rshift_to [OF assms, of g junk h1 1]
    by (cases e; cases "a = r") (auto simp: BN_rshift1_def Let_def rshift1_is_rshift)
qed

text \<open>C32: the shifts multiply and divide by powers of two, also in place. \<open>BN_lshift\<close> gives the product by 2
  to the power of the shift and \<open>BN_lshift1\<close> the double, \<open>BN_rshift\<close> and \<open>BN_rshift1\<close> the quotient of the
  absolute value with the sign of the operand (zero is never negative), for every width; they fail
  only if the words cannot be had or for a negative shift (where nothing changes), and change no other
  number.\<close>

theorem bn_shift_exact:
  assumes "bn_ok (h a)" "bn_ok (h r)" "0 \<le> n"
  shows "(case BN_lshift g junk h r a n of
      (ok, h') \<Rightarrow> if cannot_expand g (h r) (width (h a) + nat n div 64 + 1) then \<not> ok
                 else ok \<and> computes h r (bn_int (h a) * 2 ^ nat n) h') \<and>
    (case BN_lshift1 g junk h r a of
      (ok, h') \<Rightarrow> if cannot_expand g (h r) (width (h a) + 1) then \<not> ok else ok \<and> yields h r (2 * bn_int (h a)) h') \<and>
    (case BN_rshift g junk h r a n of
      (ok, h') \<Rightarrow> if cannot_expand g (h r) (width (h a)) then \<not> ok
                 else ok \<and> computes h r (sgn (bn_int (h a)) * (\<bar>bn_int (h a)\<bar> div 2 ^ nat n)) h') \<and>
    (case BN_rshift1 g junk h r a of
      (ok, h') \<Rightarrow> if cannot_expand g (h r) (width (h a)) then \<not> ok
                 else ok \<and> computes h r (sgn (bn_int (h a)) * (\<bar>bn_int (h a)\<bar> div 2)) h') \<and>
    (\<forall>k < 0. BN_lshift g junk h r a k = (False, h) \<and> BN_rshift g junk h r a k = (False, h))"
proof -
  have w: "width (h a) \<le> dmax (h a)" "width (h r) \<le> dmax (h r)" using assms by (simp_all add: bn_ok_def)
  show ?thesis
    using lshift_spec [OF w assms(3), of g junk] lshift1_spec [OF assms(1,2), of g junk]
      rshift_spec(1) [OF w assms(3), of g junk] rshift_spec(2) [OF w, of g junk]
    by (intro conjI) (auto simp: BN_lshift_def BN_rshift_def split: prod.splits)
qed

theorem bn_shift_exact_witness:
  "\<exists>h'. BN_rshift (\<lambda>_. True) (\<lambda>_. 0) sample_bns 0 0 60 = (True, h') \<and> bn_int (h' 0) = - 15"
proof -
  have "\<not> cannot_expand (\<lambda>_. True) (sample_bns 0) (width (sample_bns 0))" by (simp add: cannot_expand_def sample_bns_def)
  then show ?thesis
    using bn_shift_exact [where h = sample_bns and a = 0 and r = 0 and n = 60 and g = "\<lambda>_. True" and junk = "\<lambda>_. 0", OF sample_bns(1) sample_bns(1)]
    by (auto simp: computes_def sample_bns(2) split: prod.splits)
qed

end
