(* ===== verification/Bn_Bits.thy ===== *)
theory Bn_Bits
  imports Bn_Shift
begin

unbundle bit_operations_syntax

text \<open>
  Single bits of big numbers, the second half of \<^verbatim>\<open>crypto/fipsmodule/bn/shift.c\<close>: setting, clearing, testing
  and masking bits, and counting the zero bits below the lowest one.
\<close>

section \<open>The code\<close>

definition BN_set_bit :: "(nat \<Rightarrow> bool) \<Rightarrow> (nat \<Rightarrow> u64) \<Rightarrow> bns \<Rightarrow> nat \<Rightarrow> int \<Rightarrow> bool \<times> bns" where
  "BN_set_bit g junk h a n =
    (if n < 0 then (False, h)
     else
       let i = nat n div 64;
           j = nat n mod 64;
           set = (\<lambda>h. (True, set_word h (a, 0) i (word_at h (a, 0) i OR push_bit j 1)))
       in if width (h a) \<le> i then
            (case bn_wexpand g junk h a (i + 1) of
               (False, h) \<Rightarrow> (False, h)
             | (True, h) \<Rightarrow>
                 let h = fold (\<lambda>k h. set_word h (a, 0) k 0) [width (h a)..<i + 1] h;
                     h = h(a := (h a)\<lparr>width := i + 1\<rparr>)
                 in set h)
          else set h)"

definition BN_clear_bit :: "bns \<Rightarrow> nat \<Rightarrow> int \<Rightarrow> bool \<times> bns" where
  "BN_clear_bit h a n =
    (if n < 0 then (False, h)
     else
       let i = nat n div 64;
           j = nat n mod 64
       in if width (h a) \<le> i then (False, h)
          else
            let h = set_word h (a, 0) i (word_at h (a, 0) i AND NOT (push_bit j 1))
            in (True, bn_set_minimal_width h a))"

definition bn_is_bit_set_words :: "u64 list \<Rightarrow> nat \<Rightarrow> nat \<Rightarrow> bool" where
  "bn_is_bit_set_words a num bit_no =
    (let i = bit_no div 64;
         j = bit_no mod 64
     in if num \<le> i then False else drop_bit j (a ! i) AND 1 = 1)"

definition BN_is_bit_set :: "bignum \<Rightarrow> int \<Rightarrow> bool" where
  "BN_is_bit_set a n = (if n < 0 then False else bn_is_bit_set_words (d a) (width a) (nat n))"

definition BN_mask_bits :: "bns \<Rightarrow> nat \<Rightarrow> int \<Rightarrow> bool \<times> bns" where
  "BN_mask_bits h a n =
    (if n < 0 then (False, h)
     else
       let w = nat n div 64;
           b = nat n mod 64
       in if width (h a) \<le> w then (True, h)
          else
            let h = (if b = 0 then h(a := (h a)\<lparr>width := w\<rparr>)
                     else
                       let h = h(a := (h a)\<lparr>width := w + 1\<rparr>)
                       in set_word h (a, 0) w (word_at h (a, 0) w AND NOT (push_bit b (- 1))))
            in (True, bn_set_minimal_width h a))"

text \<open>Each step halves what is left to look at; an \<^verbatim>\<open>int\<close> is a 32-bit word.\<close>

definition low_zeros_step :: "nat \<Rightarrow> u64 \<times> 32 word \<Rightarrow> u64 \<times> 32 word" where
  "low_zeros_step k = (\<lambda>(l, bits).
    let m = constant_time_is_zero_w (push_bit (64 - k) l);
        bits = bits + ucast (of_nat k AND m);
        l = constant_time_select_w m (drop_bit k l) l
    in (l, bits))"

definition bn_count_low_zero_bits_word :: "u64 \<Rightarrow> 32 word" where
  "bn_count_low_zero_bits_word l =
    (let (l, bits) = low_zeros_step 32 (l, 0);
         (l, bits) = low_zeros_step 16 (l, bits);
         (l, bits) = low_zeros_step 8 (l, bits);
         (l, bits) = low_zeros_step 4 (l, bits);
         (l, bits) = low_zeros_step 2 (l, bits);
         m = constant_time_is_zero_w (push_bit (64 - 1) l)
     in bits + ucast (1 AND m))"

definition BN_count_low_zero_bits :: "bignum \<Rightarrow> 32 word" where
  "BN_count_low_zero_bits bn =
    fst (fold (\<lambda>i (ret, saw_nonzero).
        let nonzero = NOT (constant_time_is_zero_w (d bn ! i));
            first_nonzero = NOT saw_nonzero AND nonzero;
            saw_nonzero = saw_nonzero OR nonzero;
            bits = bn_count_low_zero_bits_word (d bn ! i);
            ret = ret OR ucast (first_nonzero AND scast (of_nat i * 64 + bits))
        in (ret, saw_nonzero)) [0..<width bn] (0, 0))"

section \<open>The bits of a number\<close>

lemma bit_wval: "bit (wval ws) n \<longleftrightarrow> n div 64 < length ws \<and> bit (ws ! (n div 64)) (n mod 64)"
proof (induction ws arbitrary: n)
  case (Cons w ws)
  have split: "wval (w # ws) = unat w OR push_bit 64 (wval ws)"
  proof -
    have "unat w AND push_bit 64 (wval ws) = 0"
    proof (rule bit_eqI)
      fix i
      have "\<not> bit (unat w) i" if "64 \<le> i" using that by (auto simp: bit_unsigned_iff dest: bit_imp_le_length)
      then show "bit (unat w AND push_bit 64 (wval ws)) i = bit 0 i" by (auto simp: bit_and_iff bit_push_bit_iff)
    qed
    then have "unat w + push_bit 64 (wval ws) = unat w OR push_bit 64 (wval ws)" by (rule disjunctive_add_eq_or)
    then show ?thesis by (simp only: wval.simps push_bit_eq_mult) (simp add: mult.commute)
  qed
  show ?case
  proof (cases "n < 64")
    case True
    then show ?thesis by (simp add: split bit_or_iff bit_push_bit_iff bit_unsigned_iff del: wval.simps)
  next
    case False
    then have "n div 64 = Suc ((n - 64) div 64)" "n mod 64 = (n - 64) mod 64" by (simp_all add: le_div_geq le_mod_geq)
    moreover have "\<not> bit (unat w) n" using False by (auto simp: bit_unsigned_iff dest: bit_imp_le_length)
    ultimately show ?thesis using False Cons.IH [of "n - 64"] by (simp add: split bit_or_iff bit_push_bit_iff del: wval.simps)
  qed
qed simp

lemma bit_single: "bit (2 ^ j :: u64) m \<longleftrightarrow> m = j \<and> j < 64"
  by (auto simp: bit_exp_iff)

lemma bit_bn_nat:
  "width b \<le> dmax b \<Longrightarrow> bit (bn_nat b) n \<longleftrightarrow> n div 64 < width b \<and> bit (d b ! (n div 64)) (n mod 64)"
  by (auto simp: bn_nat_def bit_wval)

lemma is_bit_set_spec: "width b \<le> dmax b \<Longrightarrow> 0 \<le> n \<Longrightarrow> BN_is_bit_set b n \<longleftrightarrow> bit (bn_nat b) (nat n)"
proof -
  assume w: "width b \<le> dmax b" "0 \<le> n"
  have "(drop_bit j w AND 1 = 1) \<longleftrightarrow> bit w j" for w :: u64 and j
    by (simp add: bit_iff_odd_drop_bit one_and_eq odd_iff_mod_2_eq_one and_one_eq)
  then show ?thesis using w by (auto simp: BN_is_bit_set_def bn_is_bit_set_words_def bit_bn_nat Let_def not_le)
qed

text \<open>Changing one word changes the bits of that word only.\<close>

lemma bit_set_word:
  assumes "width (h a) \<le> dmax (h a)" "i < width (h a)"
  shows "bit (bn_nat (set_word h (a, 0) i w a)) n \<longleftrightarrow> (if n div 64 = i then bit w (n mod 64) else bit (bn_nat (h a)) n)"
  using assms by (auto simp: bit_bn_nat set_word_def nth_list_update)

lemma zero_loop:
  "in_array h (a, 0) (k + n) \<Longrightarrow>
   fold (\<lambda>k h. set_word h (a, 0) k 0) [k..<k + n] h = put_words h (a, k) (replicate n 0)"
proof (induction n)
  case (Suc n)
  have "in_array h (a, 0) (k + n)" using Suc.prems by (simp add: in_array_def)
  then have IH: "fold (\<lambda>k h. set_word h (a, 0) k 0) [k..<k + n] h = put_words h (a, k) (replicate n 0)" by (rule Suc.IH)
  have "set_word (put_words h (a, k) (replicate n 0)) (a, 0) (k + n) 0 = put_words h (a, k) (replicate n 0 @ [0])"
    using put_words_Suc [of h "(a, k)" "replicate n 0" 0] Suc.prems by (simp add: in_array_def set_word_def)
  then show ?case by (simp add: IH replicate_append_same)
qed simp

lemma set_bit_word:
  assumes "nat n div 64 < width (h2 a)" "width (h2 a) \<le> dmax (h2 a)"
  defines "h3 \<equiv> set_word h2 (a, 0) (nat n div 64) (word_at h2 (a, 0) (nat n div 64) OR push_bit (nat n mod 64) 1)"
  shows "yields h2 a ((if neg (h2 a) then - 1 else 1) * int (set_bit (nat n) (bn_nat (h2 a)))) h3"
proof -
  define i j where "i = nat n div 64" and "j = nat n mod 64"
  have w: "i < width (h2 a)" using assms(1) by (simp add: i_def)
  have h3: "h3 = set_word h2 (a, 0) i (word_at h2 (a, 0) i OR push_bit j 1)" by (simp add: h3_def i_def j_def)
  have val: "bn_nat (h3 a) = set_bit (nat n) (bn_nat (h2 a))"
  proof (rule bit_eqI)
    fix k
    have "bit (word_at h2 (a, 0) i) m \<longleftrightarrow> bit (bn_nat (h2 a)) (64 * i + m)" if "m < 64" for m
      using w assms(2) that bit_bn_nat [of "h2 a" "64 * i + m"] by (simp add: word_at_def)
    moreover have "k = 64 * i + k mod 64" if "k div 64 = i" using that by auto
    moreover have "k div 64 = i \<and> k mod 64 = j \<longleftrightarrow> k = nat n" unfolding i_def j_def by (metis div_mult_mod_eq)
    ultimately show "bit (bn_nat (h3 a)) k = bit (set_bit (nat n) (bn_nat (h2 a))) k"
      using w assms(2) by (auto simp: h3 bit_set_word bit_set_bit_iff bit_or_iff bit_single j_def)
  qed
  have "bit (bn_nat (h3 a)) (nat n)" unfolding val by (simp add: bit_set_bit_iff)
  then have "bn_nat (h3 a) \<noteq> 0" by (intro notI) simp
  moreover have "width (h3 a) = width (h2 a)" "dmax (h3 a) = dmax (h2 a)" "neg (h3 a) = neg (h2 a)" "\<And>p. p \<noteq> a \<Longrightarrow> h3 p = h2 p"
    by (simp_all add: h3 set_word_def)
  ultimately show ?thesis using val assms(2) by (simp add: yields_def bn_int_def bn_ok_def)
qed

lemma set_bit_grow:
  assumes "width (h a) \<le> dmax (h a)" "width (h a) \<le> i" "bn_wexpand g junk h a (i + 1) = (True, h1)"
  defines "h2 \<equiv> fold (\<lambda>k h. set_word h (a, 0) k 0) [width (h a)..<i + 1] h1"
  defines "h3 \<equiv> h2(a := (h2 a)\<lparr>width := i + 1\<rparr>)"
  shows "width (h3 a) = i + 1" "width (h3 a) \<le> dmax (h3 a)" "bn_nat (h3 a) = bn_nat (h a)" "neg (h3 a) = neg (h a)"
    "\<And>p. p \<noteq> a \<Longrightarrow> h3 p = h p"
proof -
  note we = wexpand_spec [OF assms(1,3)]
  let ?zs = "replicate (i + 1 - width (h a)) (0 :: u64)"
  have h2: "h2 = put_words h1 (a, width (h a)) ?zs"
    using zero_loop [of h1 a "width (h a)" "i + 1 - width (h a)"] assms(2) we(3) by (simp add: h2_def in_array_def)
  have d3: "d (h3 a) = blit (d (h1 a)) (width (h a)) ?zs" by (simp add: h3_def h2 put_words_def)
  have "take (i + 1) (d (h3 a)) = take (width (h a)) (d (h a)) @ ?zs"
    unfolding d3 using take_blit [of "width (h a)" "d (h1 a)" ?zs] we(3) we(7) [of a] assms(2) by simp
  then show "bn_nat (h3 a) = bn_nat (h a)" by (simp add: bn_nat_def wval_append h3_def)
  show "width (h3 a) = i + 1" "neg (h3 a) = neg (h a)" using we(5) by (simp_all add: h3_def h2 put_words_def)
  show "width (h3 a) \<le> dmax (h3 a)" using we(3) assms(2) by (simp add: h3_def h2 put_words_def)
  show "h3 p = h p" if "p \<noteq> a" for p using that we(6) by (simp add: h3_def h2 put_words_def)
qed

lemma yields_frame: "yields h1 r v h' \<Longrightarrow> (\<And>p. p \<noteq> r \<Longrightarrow> h1 p = h p) \<Longrightarrow> yields h r v h'"
  by (simp add: yields_def)

lemma set_bit_spec:
  assumes "bn_ok (h a)" "0 \<le> n" "BN_set_bit g junk h a n = (ok, h')"
  shows "if width (h a) \<le> nat n div 64 \<and> cannot_expand g (h a) (nat n div 64 + 1) then \<not> ok \<and> h' = h
    else ok \<and> yields h a ((if neg (h a) then - 1 else 1) * int (set_bit (nat n) (bn_nat (h a)))) h'"
proof (cases "width (h a) \<le> nat n div 64")
  case True
  have fit: "width (h a) \<le> dmax (h a)" using assms(1) by (simp add: bn_ok_def)
  obtain e h1 where e: "bn_wexpand g junk h a (nat n div 64 + 1) = (e, h1)" by fastforce
  note we = wexpand_spec [OF fit e]
  show ?thesis
  proof (cases e)
    case e1: True
    define h3 where "h3 = (fold (\<lambda>k h. set_word h (a, 0) k 0) [width (h a)..<nat n div 64 + 1] h1)
      (a := (fold (\<lambda>k h. set_word h (a, 0) k 0) [width (h a)..<nat n div 64 + 1] h1 a)\<lparr>width := nat n div 64 + 1\<rparr>)"
    note grow = set_bit_grow [OF fit True e [unfolded eqTrueI [OF e1]], folded h3_def]
    have "width (h1 a) = width (h a)" by (rule we(4))
    then have "(ok, h') = (True, set_word h3 (a, 0) (nat n div 64) (word_at h3 (a, 0) (nat n div 64) OR push_bit (nat n mod 64) 1))"
      using assms(2,3) True e e1 unfolding h3_def by (simp only: BN_set_bit_def Let_def not_less [symmetric]) simp
    moreover have "yields h3 a ((if neg (h a) then - 1 else 1) * int (set_bit (nat n) (bn_nat (h a))))
        (set_word h3 (a, 0) (nat n div 64) (word_at h3 (a, 0) (nat n div 64) OR push_bit (nat n mod 64) 1))"
      using set_bit_word [of n h3 a] grow(1,2) unfolding grow(3,4) by simp
    then have "yields h a ((if neg (h a) then - 1 else 1) * int (set_bit (nat n) (bn_nat (h a))))
        (set_word h3 (a, 0) (nat n div 64) (word_at h3 (a, 0) (nat n div 64) OR push_bit (nat n mod 64) 1))"
      by (rule yields_frame) (rule grow(5))
    ultimately show ?thesis using we(1) e1 by simp
  next
    case False
    then show ?thesis using assms(2,3) True e we(1,2) by (simp add: BN_set_bit_def Let_def)
  qed
next
  case False
  then show ?thesis using set_bit_word [of n h a] assms by (simp add: BN_set_bit_def Let_def bn_ok_def)
qed

lemma becomes_word:
  assumes "width (h a) \<le> dmax (h a)" "i < width (h a)"
    "\<And>n. bit v n \<longleftrightarrow> (if n div 64 = i then bit w (n mod 64) else bit (bn_nat (h a)) n)"
  shows "becomes h a v (set_word h (a, 0) i w)"
proof -
  have "bn_nat (set_word h (a, 0) i w a) = v" by (rule bit_eqI) (simp add: bit_set_word [where h = h and a = a, OF assms(1,2)] assms(3))
  then show ?thesis using assms(1) by (simp add: becomes_def set_word_def)
qed

lemma clear_bit_spec:
  assumes "bn_ok (h a)" "0 \<le> n" "BN_clear_bit h a n = (ok, h')"
  shows "if width (h a) \<le> nat n div 64 then \<not> ok \<and> h' = h
    else ok \<and> computes h a ((if neg (h a) then - 1 else 1) * int (unset_bit (nat n) (bn_nat (h a)))) h'"
proof (cases "width (h a) \<le> nat n div 64")
  case False
  define i j where "i = nat n div 64" and "j = nat n mod 64"
  define h1 where "h1 = set_word h (a, 0) i (word_at h (a, 0) i AND NOT (push_bit j 1))"
  have fit: "width (h a) \<le> dmax (h a)" using assms(1) by (simp add: bn_ok_def)
  have i: "i < width (h a)" using False by (simp add: i_def)
  have "becomes h a (unset_bit (nat n) (bn_nat (h a))) h1"
    unfolding h1_def
  proof (rule becomes_word [where h = h and a = a, OF fit i])
    fix k
    have "bit (word_at h (a, 0) i) m \<longleftrightarrow> bit (bn_nat (h a)) (64 * i + m)" if "m < 64" for m
      using i fit that bit_bn_nat [of "h a" "64 * i + m"] by (simp add: word_at_def)
    moreover have "k = 64 * i + k mod 64" if "k div 64 = i" using that by auto
    moreover have "k div 64 = i \<and> k mod 64 = j \<longleftrightarrow> k = nat n" unfolding i_def j_def by (metis div_mult_mod_eq)
    ultimately show "bit (unset_bit (nat n) (bn_nat (h a))) k \<longleftrightarrow>
        (if k div 64 = i then bit (word_at h (a, 0) i AND NOT (push_bit j 1)) (k mod 64) else bit (bn_nat (h a)) k)"
      by (auto simp: bit_unset_bit_iff bit_and_iff bit_not_iff bit_single j_def)
  qed
  then have "computes h a (if neg (h a) then - int (unset_bit (nat n) (bn_nat (h a))) else int (unset_bit (nat n) (bn_nat (h a))))
      (bn_set_minimal_width h1 a)"
    by (rule signed_result) (simp add: h1_def set_word_def)
  moreover have "(ok, h') = (True, bn_set_minimal_width h1 a)"
    using assms(2,3) False by (simp add: BN_clear_bit_def h1_def i_def j_def Let_def)
  ultimately show ?thesis using False by (simp split: if_splits)
qed (use assms in \<open>simp add: BN_clear_bit_def Let_def\<close>)

lemma below_words: "b < 64 \<Longrightarrow> k < 64 * w + b \<longleftrightarrow> k div 64 < w \<or> k div 64 = w \<and> k mod 64 < b" for k :: nat
proof -
  assume b: "b < 64"
  define q r where "q = k div 64" and "r = k mod 64"
  have k: "k = 64 * q + r" "r < 64" by (simp_all add: q_def r_def)
  consider "q < w" | "q = w" | "w < q" by linarith
  then have "k < 64 * w + b \<longleftrightarrow> q < w \<or> q = w \<and> r < b" using k b by cases linarith+
  then show ?thesis by (simp only: q_def r_def)
qed

lemma mask_bits_spec:
  assumes "bn_ok (h a)" "0 \<le> n" "BN_mask_bits h a n = (ok, h')"
  shows "ok \<and> yields h a ((if neg (h a) then - 1 else 1) * int (take_bit (nat n) (bn_nat (h a)))) h'"
proof -
  define w b where "w = nat n div 64" and "b = nat n mod 64"
  have n: "nat n = 64 * w + b" by (simp add: w_def b_def)
  have fit: "width (h a) \<le> dmax (h a)" using assms(1) by (simp add: bn_ok_def)
  show ?thesis
  proof (cases "width (h a) \<le> w")
    case True
    have "bn_nat (h a) < 2 ^ (64 * width (h a))"
      using wval_bound [of "take (width (h a)) (d (h a))"] fit by (simp add: bn_nat_def)
    also have "(2 :: nat) ^ (64 * width (h a)) \<le> 2 ^ nat n" using True n by (intro power_increasing) simp_all
    finally have "take_bit (nat n) (bn_nat (h a)) = bn_nat (h a)" by (rule take_bit_nat_eq_self)
    moreover have "ok" "h' = h" using assms(2,3) True by (auto simp: BN_mask_bits_def w_def Let_def)
    ultimately show ?thesis using assms(1) by (simp add: yields_def bn_int_def)
  next
    case False
    define h1 where "h1 = (if b = 0 then h(a := (h a)\<lparr>width := w\<rparr>)
        else set_word (h(a := (h a)\<lparr>width := w + 1\<rparr>)) (a, 0) w (word_at h (a, 0) w AND NOT (push_bit b (- 1))))"
    have d1: "neg (h1 a) = neg (h a)" "width (h1 a) \<le> dmax (h1 a)" "\<forall>p. p \<noteq> a \<longrightarrow> h1 p = h p"
      using False fit by (auto simp: h1_def set_word_def)
    have "bn_nat (h1 a) = take_bit (nat n) (bn_nat (h a))"
    proof (rule bit_eqI)
      fix k
      have div: "k < 64 * w + b \<longleftrightarrow> k div 64 < w \<or> k div 64 = w \<and> k mod 64 < b"
        by (rule below_words) (simp add: b_def)
      have "bit (NOT (push_bit b (- 1 :: u64))) m \<longleftrightarrow> m < b" if "m < 64" for m
        using that by (auto simp: bit_not_iff bit_push_bit_iff bit_mask_iff)
      then show "bit (bn_nat (h1 a)) k = bit (take_bit (nat n) (bn_nat (h a))) k"
        using False fit d1(2) unfolding bit_bn_nat [OF d1(2)] bit_take_bit_iff n div bit_bn_nat [OF fit]
        by (auto simp: h1_def set_word_def word_at_def nth_list_update bit_and_iff)
    qed
    then have "becomes h a (take_bit (nat n) (bn_nat (h a))) h1" using d1(2,3) by (simp add: becomes_def)
    then have "computes h a (if neg (h a) then - int (take_bit (nat n) (bn_nat (h a))) else int (take_bit (nat n) (bn_nat (h a))))
        (bn_set_minimal_width h1 a)"
      by (rule signed_result) (rule d1(1))
    moreover have "(ok, h') = (True, bn_set_minimal_width h1 a)"
      using assms(2,3) False by (auto simp: BN_mask_bits_def h1_def w_def b_def Let_def word_at_def)
    ultimately show ?thesis by (simp add: yields_def computes_def split: if_splits)
  qed
qed

section \<open>Counting low zero bits\<close>

text \<open>After a step with \<open>k\<close>, the lowest bit set is among the low \<open>k\<close> bits of what is left.\<close>

definition counting :: "u64 \<Rightarrow> nat \<Rightarrow> u64 \<times> 32 word \<Rightarrow> bool" where
  "counting w k s \<longleftrightarrow> (case s of (l, bits) \<Rightarrow>
    unat bits + k \<le> 64 \<and> l = drop_bit (unat bits) w \<and> (\<forall>i < unat bits. \<not> bit w i) \<and> take_bit k l \<noteq> 0)"

lemma shifted_out: "k \<le> 64 \<Longrightarrow> push_bit (64 - k) l = 0 \<longleftrightarrow> take_bit k l = 0" for l :: u64
proof -
  assume k: "k \<le> 64"
  have "push_bit (64 - k) l = 0 \<longleftrightarrow> (\<forall>i < k. \<not> bit l i)"
  proof
    assume z: "push_bit (64 - k) l = 0"
    have "bit (push_bit (64 - k) l) (64 - k + i) = bit l i" if "i < k" for i
      using that k by (auto simp: bit_push_bit_iff)
    then show "\<forall>i < k. \<not> bit l i" unfolding z by simp
  qed (use k in \<open>auto simp: bit_push_bit_iff intro!: bit_word_eqI\<close>)
  also have "\<dots> \<longleftrightarrow> take_bit k l = 0"
    using less_le_trans [OF _ k] by (auto simp: bit_eq_iff bit_take_bit_iff)
  finally show ?thesis .
qed

lemma unat_small_sum: "n + k \<le> 64 \<Longrightarrow> unat b = n \<Longrightarrow> unat (b + of_nat k) = n + k" for b :: "32 word"
  by (simp add: unat_word_ariths unat_of_nat take_bit_nat_eq_self)

lemma low_zeros_step:
  assumes "counting w (2 * k) s" "k \<le> 32"
  shows "counting w k (low_zeros_step k s)"
proof -
  obtain l bits where s: "s = (l, bits)" by fastforce
  have c: "unat bits + 2 * k \<le> 64" "l = drop_bit (unat bits) w" "\<forall>i < unat bits. \<not> bit w i" "take_bit (2 * k) l \<noteq> 0"
    using assms(1) unfolding counting_def s prod.case by blast+
  have k64: "k \<le> 64" using assms(2) by simp
  show ?thesis
  proof (cases "take_bit k l = 0")
    case True
    have "ucast (of_nat k :: u64) = (of_nat k :: 32 word)"
      by (rule word_unat_eq_iff [THEN iffD2]) (use assms(2) in \<open>simp add: unsigned_ucast_eq unat_of_nat take_bit_nat_eq_self\<close>)
    then have step: "low_zeros_step k s = (drop_bit k l, bits + of_nat k)"
      using True shifted_out [OF k64, of l] by (simp add: low_zeros_step_def s is_zero_w_spec select_w_spec)
    have b: "unat (bits + of_nat k) = unat bits + k" by (rule unat_small_sum) (use c(1) in simp_all)
    have "\<not> bit w i" if "i < unat bits + k" for i
    proof (cases "i < unat bits")
      case False
      then have "\<not> bit (take_bit k l) (i - unat bits)" using True by simp
      then show ?thesis using False that c(2) by (simp add: bit_take_bit_iff bit_drop_bit_eq)
    qed (use c(3) in simp)
    moreover have "take_bit (2 * k) l = take_bit k l OR push_bit k (take_bit k (drop_bit k l))"
      by (rule bit_word_eqI) (auto simp: bit_simps)
    then have "take_bit k (drop_bit k l) \<noteq> 0" using c(4) True by auto
    ultimately show ?thesis using c(1,2) by (simp add: counting_def step b add.commute)
  next
    case False
    then show ?thesis using c shifted_out [OF k64, of l]
      by (simp add: counting_def s low_zeros_step_def is_zero_w_spec select_w_spec)
  qed
qed

lemma count_word_spec:
  assumes "w \<noteq> 0"
  defines "n \<equiv> unat (bn_count_low_zero_bits_word w)"
  shows "n < 64" "bit w n" "\<forall>i < n. \<not> bit w i"
proof -
  have "take_bit 64 w = w" by (simp add: take_bit_word_eq_self)
  then have "counting w (2 * 32) (w, 0)" using assms(1) by (simp add: counting_def)
  moreover obtain l1 b1 where s1: "low_zeros_step 32 (w, 0) = (l1, b1)" by fastforce
  ultimately have "counting w (2 * 16) (l1, b1)" using low_zeros_step [of w 32 "(w, 0)"] by simp
  moreover obtain l2 b2 where s2: "low_zeros_step 16 (l1, b1) = (l2, b2)" by fastforce
  ultimately have "counting w (2 * 8) (l2, b2)" using low_zeros_step [of w 16 "(l1, b1)"] by simp
  moreover obtain l3 b3 where s3: "low_zeros_step 8 (l2, b2) = (l3, b3)" by fastforce
  ultimately have "counting w (2 * 4) (l3, b3)" using low_zeros_step [of w 8 "(l2, b2)"] by simp
  moreover obtain l4 b4 where s4: "low_zeros_step 4 (l3, b3) = (l4, b4)" by fastforce
  ultimately have "counting w (2 * 2) (l4, b4)" using low_zeros_step [of w 4 "(l3, b3)"] by simp
  moreover obtain l5 b5 where s5: "low_zeros_step 2 (l4, b4) = (l5, b5)" by fastforce
  ultimately have "counting w (2 * 1) (l5, b5)" using low_zeros_step [of w 2 "(l4, b4)"] by simp
  then have "counting w 1 (low_zeros_step 1 (l5, b5))" by (rule low_zeros_step) simp
  moreover have "snd (low_zeros_step 1 (l5, b5)) = bn_count_low_zero_bits_word w"
    unfolding bn_count_low_zero_bits_word_def s1 s2 s3 s4 s5 Let_def prod.case by (simp add: low_zeros_step_def Let_def)
  ultimately obtain l' where "counting w 1 (l', bn_count_low_zero_bits_word w)" by (metis prod.collapse)
  then have c: "n + 1 \<le> 64" "take_bit 1 (drop_bit n w) \<noteq> 0" "\<forall>i < n. \<not> bit w i"
    unfolding counting_def prod.case n_def by blast+
  show "n < 64" "\<forall>i < n. \<not> bit w i" using c by simp_all
  have "bit (drop_bit n w) 0"
  proof (rule ccontr)
    assume "\<not> bit (drop_bit n w) 0"
    then have "take_bit 1 (drop_bit n w) = 0" by (simp add: bit_0 even_iff_mod_2_eq_zero)
    then show False using c(2) by (rule notE [rotated])
  qed
  then show "bit w n" by (simp add: bit_drop_bit_eq)
qed

text \<open>Once a word that is not zero has been seen, the result does not change.\<close>

definition first_seen :: "u64 list \<Rightarrow> nat \<Rightarrow> 32 word \<times> u64 \<Rightarrow> bool" where
  "first_seen ws m s \<longleftrightarrow>
    s = (0, 0) \<and> (\<forall>i < m. ws ! i = 0) \<or>
    (\<exists>j < m. s = (of_nat j * 64 + bn_count_low_zero_bits_word (ws ! j), - 1) \<and> ws ! j \<noteq> 0 \<and> (\<forall>i < j. ws ! i = 0))"

lemma narrow_widen [simp]: "ucast (scast x :: u64) = x" for x :: "32 word"
  by (rule bit_word_eqI) (auto simp: bit_unsigned_iff bit_signed_iff min_def)

lemma count_loop:
  "first_seen (d bn) m (fold (\<lambda>i (ret, saw_nonzero).
        let nonzero = NOT (constant_time_is_zero_w (d bn ! i));
            first_nonzero = NOT saw_nonzero AND nonzero;
            saw_nonzero = saw_nonzero OR nonzero;
            bits = bn_count_low_zero_bits_word (d bn ! i);
            ret = ret OR ucast (first_nonzero AND scast (of_nat i * 64 + bits))
        in (ret, saw_nonzero)) [0..<m] (0, 0))"
proof (induction m)
  case (Suc m)
  then consider (none) "\<forall>i < m. d bn ! i = 0" | (seen) "\<not> (\<forall>i < m. d bn ! i = 0)" by blast
  then show ?case
  proof cases
    case none
    then show ?thesis using Suc by (auto simp: first_seen_def is_zero_w_spec Let_def less_Suc_eq)
  next
    case seen
    then show ?thesis using Suc by (auto simp: first_seen_def is_zero_w_spec Let_def less_Suc_eq)
  qed
qed (simp add: first_seen_def)

lemma count_spec:
  assumes "width b \<le> dmax b" "64 * width b < 2 ^ 31"
  defines "k \<equiv> unat (BN_count_low_zero_bits b)"
  shows "if bn_nat b = 0 then k = 0 else bit (bn_nat b) k \<and> (\<forall>i < k. \<not> bit (bn_nat b) i)"
proof -
  let ?ws = "d b"
  define ret where "ret = BN_count_low_zero_bits b"
  have "\<exists>saw. first_seen ?ws (width b) (ret, saw)"
    unfolding ret_def BN_count_low_zero_bits_def by (rule exI [where x = "snd s" for s], subst prod.collapse, rule count_loop)
  then consider (zero) "ret = 0" "\<forall>i < width b. ?ws ! i = 0"
    | (first) j where "j < width b" "ret = of_nat j * 64 + bn_count_low_zero_bits_word (?ws ! j)" "?ws ! j \<noteq> 0" "\<forall>i < j. ?ws ! i = 0"
    unfolding first_seen_def by blast
  then show ?thesis
  proof cases
    case zero
    have "\<not> bit (bn_nat b) n" for n using zero(2) by (auto simp: bit_bn_nat [OF assms(1)])
    then have "bn_nat b = 0" by (intro bit_eqI) simp
    then show ?thesis using zero(1) by (simp add: k_def ret_def)
  next
    case first
    note w = count_word_spec [OF first(3)]
    define c where "c = unat (bn_count_low_zero_bits_word (?ws ! j))"
    have "64 * j + c < 2 ^ 32" using first(1) assms(2) w(1) unfolding c_def by simp
    moreover have "ret = of_nat (64 * j + c)" using first(2) by (simp add: c_def mult.commute)
    ultimately have k: "k = 64 * j + c"
      by (simp only: k_def ret_def [symmetric] unat_of_nat len_num1 len_num0 len_bit0 mult_1_right) simp
    have "c < 64" using w(1) by (simp add: c_def)
    then have "bit (bn_nat b) k" using first(1) w(2) by (simp add: bit_bn_nat [OF assms(1)] k c_def)
    moreover have "\<not> bit (bn_nat b) i" if "i < k" for i
    proof -
      have "i div 64 < j \<or> i div 64 = j \<and> i mod 64 < c" using that \<open>c < 64\<close> below_words [of c i j] by (simp add: k)
      then show ?thesis using first(4) w(3) by (auto simp: bit_bn_nat [OF assms(1)] c_def)
    qed
    moreover have "bn_nat b \<noteq> 0" using \<open>bit (bn_nat b) k\<close> by (intro notI) simp
    ultimately show ?thesis by simp
  qed
qed

section \<open>The bit operations\<close>

text \<open>C33: the bit operations read and write the binary digits of the absolute value. \<open>BN_is_bit_set\<close> reads digit
  \<open>n\<close>; \<open>BN_set_bit\<close> sets it, growing the number if need be, and fails only if the words cannot be had;
  \<open>BN_clear_bit\<close> clears it, and fails exactly if it lies above the width, though the number has a zero there
  and the documentation (\<^verbatim>\<open>bn.h\<close>) lets it fail only for want of memory, which it never asks for;
  \<open>BN_mask_bits\<close> keeps the lowest \<open>n\<close> digits; \<open>BN_count_low_zero_bits\<close> is the position of the lowest digit set, and 0 for zero. The sign is
  kept (zero is never negative) and no other number changes.\<close>

theorem bn_bits_exact:
  assumes "bn_ok (h a)" "0 \<le> n"
  shows "(BN_is_bit_set (h a) n \<longleftrightarrow> bit (bn_nat (h a)) (nat n)) \<and>
    (case BN_set_bit g junk h a n of
      (ok, h') \<Rightarrow> if width (h a) \<le> nat n div 64 \<and> cannot_expand g (h a) (nat n div 64 + 1) then \<not> ok \<and> h' = h
                 else ok \<and> yields h a ((if neg (h a) then - 1 else 1) * int (set_bit (nat n) (bn_nat (h a)))) h') \<and>
    (case BN_clear_bit h a n of
      (ok, h') \<Rightarrow> if width (h a) \<le> nat n div 64 then \<not> ok \<and> h' = h
                 else ok \<and> computes h a ((if neg (h a) then - 1 else 1) * int (unset_bit (nat n) (bn_nat (h a)))) h') \<and>
    (case BN_mask_bits h a n of
      (ok, h') \<Rightarrow> ok \<and> yields h a ((if neg (h a) then - 1 else 1) * int (take_bit (nat n) (bn_nat (h a)))) h') \<and>
    (64 * width (h a) < 2 ^ 31 \<longrightarrow> (let k = unat (BN_count_low_zero_bits (h a)) in
      if bn_nat (h a) = 0 then k = 0 else bit (bn_nat (h a)) k \<and> (\<forall>i < k. \<not> bit (bn_nat (h a)) i)))"
proof -
  have "width (h a) \<le> dmax (h a)" using assms(1) by (simp add: bn_ok_def)
  note bits = is_bit_set_spec [OF this assms(2)] set_bit_spec [where h = h and a = a, OF assms]
    clear_bit_spec [where h = h and a = a, OF assms] mask_bits_spec [where h = h and a = a, OF assms] count_spec [OF this]
  show ?thesis
    using bits(1) bits(2) [of g junk] bits(3) bits(4) bits(5)
    by (intro conjI) (auto simp: Let_def split: prod.splits)
qed

theorem bn_bits_exact_witness:
  "\<exists>h'. BN_mask_bits sample_bns 0 2 = (True, h') \<and> (\<forall>p. p \<noteq> 0 \<longrightarrow> h' p = sample_bns p)"
  using bn_bits_exact [where h = sample_bns and a = 0 and n = 2 and g = "\<lambda>_. True" and junk = "\<lambda>_. 0", OF sample_bns(1)]
  by (auto simp: yields_def split: prod.splits)

end
