(* ===== verification/Bn_Frame.thy ===== *)
theory Bn_Frame
  imports Bn_Arith
begin

unbundle bit_operations_syntax

text \<open>
  Which words of the store a routine writes, so that routines compose: the word loops of \<open>Bn_Words\<close> and
  \<open>bn_select_words\<close> as contracts about the values of ranges of words, and what they leave alone.
\<close>

section \<open>Ranges of words that are written\<close>

type_synonym range = "words_ptr \<times> nat"

definition touched :: "range list \<Rightarrow> nat \<Rightarrow> nat \<Rightarrow> bool" where
  "touched rs p i \<longleftrightarrow> (\<exists>(q, n) \<in> set rs. fst q = p \<and> snd q \<le> i \<and> i < snd q + n)"

text \<open>Nothing but the words of these ranges is different; in particular no number changes its size.\<close>

definition only_writes :: "range list \<Rightarrow> bns \<Rightarrow> bns \<Rightarrow> bool" where
  "only_writes rs h h' \<longleftrightarrow> (\<forall>p. width (h' p) = width (h p) \<and> neg (h' p) = neg (h p) \<and>
    static_data (h' p) = static_data (h p) \<and> dmax (h' p) = dmax (h p) \<and>
    (\<forall>i < dmax (h p). \<not> touched rs p i \<longrightarrow> d (h' p) ! i = d (h p) ! i))"

definition within :: "range \<Rightarrow> range \<Rightarrow> bool" where
  "within s r \<longleftrightarrow> fst (fst s) = fst (fst r) \<and> snd (fst r) \<le> snd (fst s) \<and> snd (fst s) + snd s \<le> snd (fst r) + snd r"

definition covered :: "range list \<Rightarrow> range list \<Rightarrow> bool" where
  "covered ss rs \<longleftrightarrow> (\<forall>s \<in> set ss. \<exists>r \<in> set rs. within s r)"

definition apart :: "range list \<Rightarrow> words_ptr \<Rightarrow> nat \<Rightarrow> bool" where
  "apart rs p n \<longleftrightarrow> (\<forall>(q, m) \<in> set rs. clear_of q m p n)"

lemma touched_append: "touched (rs @ ss) p i \<longleftrightarrow> touched rs p i \<or> touched ss p i"
  by (auto simp: touched_def)

lemma touched_covered:
  assumes "covered ss rs" "touched ss p i"
  shows "touched rs p i"
proof -
  obtain q n where s: "(q, n) \<in> set ss" "fst q = p" "snd q \<le> i" "i < snd q + n" using assms(2) by (auto simp: touched_def)
  obtain r m where r: "(r, m) \<in> set rs" "within (q, n) (r, m)" using assms(1) s(1) by (fastforce simp: covered_def)
  then have "fst r = p \<and> snd r \<le> i \<and> i < snd r + m" using s(2-4) by (simp add: within_def)
  then show ?thesis using r(1) by (auto simp: touched_def)
qed

lemma only_writes_refl [simp]: "only_writes rs h h"
  by (simp add: only_writes_def)

lemma only_writes_trans: "only_writes rs h h1 \<Longrightarrow> only_writes ss h1 h2 \<Longrightarrow> only_writes (rs @ ss) h h2"
  unfolding only_writes_def touched_append by simp

lemma only_writes_mono: "only_writes ss h h' \<Longrightarrow> covered ss rs \<Longrightarrow> only_writes rs h h'"
  unfolding only_writes_def using touched_covered by blast

text \<open>The step with which the proofs of composed routines go on.\<close>

lemma only_writes_step: "only_writes rs h h1 \<Longrightarrow> only_writes ss h1 h2 \<Longrightarrow> covered ss rs \<Longrightarrow> only_writes rs h h2"
  using only_writes_trans [of rs h h1 rs h2] only_writes_mono [of ss h1 h2 rs]
  by (auto simp: only_writes_def touched_append)

lemma only_writes_put:
  "in_array h p (length ws) \<Longrightarrow> only_writes [(p, length ws)] h (put_words h p ws)"
  by (auto simp: only_writes_def touched_def put_words_def in_array_def blit_def nth_append not_le not_less)

lemma only_writes_in_array: "only_writes rs h h' \<Longrightarrow> in_array h' p n \<longleftrightarrow> in_array h p n"
  by (simp add: only_writes_def in_array_def)

lemma only_writes_words:
  assumes "only_writes rs h h'" "apart rs p n"
  shows "words_at h' p n = words_at h p n"
proof (rule nth_equalityI)
  have dm: "dmax (h' (fst p)) = dmax (h (fst p))" using assms(1) by (simp add: only_writes_def)
  then show "length (words_at h' p n) = length (words_at h p n)" by (simp add: words_at_def)
  fix i
  assume "i < length (words_at h' p n)"
  then have i: "i < n" "snd p + i < dmax (h (fst p))" using dm by (simp_all add: words_at_def less_diff_conv add.commute)
  then have "\<not> touched rs (fst p) (snd p + i)" using assms(2) by (auto simp: apart_def clear_of_def touched_def)
  then show "words_at h' p n ! i = words_at h p n ! i"
    using assms(1) i dm by (simp add: only_writes_def words_at_def)
qed

text \<open>A number none of whose words is in the ranges stays as it is.\<close>

lemma only_writes_other:
  assumes "only_writes rs h h'" "\<forall>r \<in> set rs. fst (fst r) \<noteq> p"
  shows "h' p = h p"
proof (rule bignum.equality)
  have "\<not> touched rs p i" for i using assms(2) by (auto simp: touched_def)
  then show "d (h' p) = d (h p)" using assms(1) by (intro nth_equalityI) (simp_all add: only_writes_def)
qed (use assms(1) in \<open>simp_all add: only_writes_def\<close>)

lemma words_at_put_words: "in_array h p (length ws) \<Longrightarrow> words_at (put_words h p ws) p (length ws) = ws"
  by (simp add: words_at_def put_words_def in_array_def blit_def)

lemma words_at_add: "words_at h p (m + n) = words_at h p m @ words_at h (ptr_add p m) n"
  by (simp add: words_at_def take_add add.commute)

lemma words_at_0 [simp]: "words_at h p 0 = []"
  by (simp add: words_at_def)

lemma words_at_1: "in_array h p 1 \<Longrightarrow> words_at h p 1 = [word_at h p 0]"
  using words_at_Suc [of h p 0] by simp

lemma only_writes_word: "only_writes rs h h' \<Longrightarrow> apart rs (ptr_add p i) 1 \<Longrightarrow> in_array h p (Suc i) \<Longrightarrow> word_at h' p i = word_at h p i"
  using only_writes_words [of rs h h' "ptr_add p i" 1] words_at_1 [of h "ptr_add p i"] words_at_1 [of h' "ptr_add p i"]
    only_writes_in_array [of rs h h' p "Suc i"]
  by (simp add: in_array_def word_at_def)

lemma wval_at_split:
  "in_array h p m \<Longrightarrow> wval (words_at h p (m + n)) = wval (words_at h p m) + 2 ^ (64 * m) * wval (words_at h (ptr_add p m) n)"
  by (simp add: words_at_add wval_append length_words_at)

lemma wval_word_at:
  assumes "in_array h p (i + Suc j)"
  shows "wval (words_at h p (i + Suc j)) =
    wval (words_at h p i) + 2 ^ (64 * i) * (unat (word_at h p i) + 2 ^ 64 * wval (words_at h (ptr_add p (Suc i)) j))"
proof -
  have "words_at h (ptr_add p i) (Suc 0 + j) = words_at h (ptr_add p i) 1 @ words_at h (ptr_add (ptr_add p i) 1) j"
    using words_at_add [of h "ptr_add p i" 1 j] by simp
  moreover have "words_at h (ptr_add p i) 1 = [word_at h p i]"
    using words_at_1 [of h "ptr_add p i"] assms by (simp add: in_array_def word_at_def)
  moreover have "in_array h p i" using assms by (simp add: in_array_def)
  ultimately show ?thesis using wval_at_split [of h p i "Suc j"] by simp
qed

lemma wval_at_bound: "wval (words_at h p n) < 2 ^ (64 * n)"
proof -
  have "length (words_at h p n) \<le> n" by (simp add: words_at_def)
  then have "(2 :: nat) ^ (64 * length (words_at h p n)) \<le> 2 ^ (64 * n)" by (intro power_increasing) simp_all
  then show ?thesis using wval_bound [of "words_at h p n"] by linarith
qed

text \<open>The side conditions of these rules are decided by looking at the ranges.\<close>

lemma apart_simps [simp]:
  "apart [] p n" "apart ((q, m) # rs) p n \<longleftrightarrow> clear_of q m p n \<and> apart rs p n"
  by (auto simp: apart_def)

lemma covered_simps [simp]:
  "covered [] rs" "covered (s # ss) rs \<longleftrightarrow> (\<exists>r \<in> set rs. within s r) \<and> covered ss rs"
  by (auto simp: covered_def)

lemma within_self [simp]: "within s s"
  by (simp add: within_def)

lemma covered_self [simp]: "covered rs rs"
  unfolding covered_def using within_self by blast

lemma clear_of_sym: "clear_of p m q n \<longleftrightarrow> clear_of q n p m"
  by (auto simp: clear_of_def)

lemma clear_ahead: "clear_of p m q n \<Longrightarrow> m = n \<Longrightarrow> ahead p q n"
  by (auto simp: clear_of_def ahead_def)

lemma ahead_self [simp]: "ahead r r n"
  by (simp add: ahead_def)

section \<open>The loops as contracts\<close>

lemma set_word_put: "in_array h p (Suc i) \<Longrightarrow> set_word h p i w = put_words h (ptr_add p i) [w]"
  by (simp add: set_word_def put_words_def in_array_def blit_def list_update_append upd_conv_take_nth_drop)

lemma set_word_spec':
  assumes "in_array h p (Suc i)"
  shows "only_writes [(ptr_add p i, 1)] h (set_word h p i w)" "word_at (set_word h p i w) p i = w"
proof -
  have i: "in_array h (ptr_add p i) (length [w])" using assms by (simp add: in_array_def)
  show "only_writes [(ptr_add p i, 1)] h (set_word h p i w)" using only_writes_put [OF i] by (simp add: set_word_put [OF assms])
  show "word_at (set_word h p i w) p i = w" using assms by (simp add: word_at_def set_word_def in_array_def)
qed

lemma add_words_spec:
  assumes "ahead r a n" "ahead r b n" "in_array h r n" "in_array h a n" "in_array h b n"
    and "bn_add_words h r a b n = (h', c)"
  shows "only_writes [(r, n)] h h'" "c = 0 \<or> c = 1"
    "wval (words_at h' r n) + 2 ^ (64 * n) * unat c = wval (words_at h a n) + wval (words_at h b n)"
proof -
  obtain ws c' where *: "bn_add_words h r a b n = (put_words h r ws, c')" "length ws = n" "unat c' \<le> 1"
    "wval ws + 2 ^ (64 * n) * unat c' = wval (words_at h a n) + wval (words_at h b n)"
    by (rule bn_add_words_value [OF assms(1-5)])
  have "in_array h r (length ws)" using assms(3) *(2) by simp
  then show "only_writes [(r, n)] h h'" "wval (words_at h' r n) + 2 ^ (64 * n) * unat c = wval (words_at h a n) + wval (words_at h b n)"
    using only_writes_put [of h r ws] words_at_put_words [of h r ws] * assms(6) by simp_all
  have "unat c \<le> 1" using *(1,3) assms(6) by simp
  then have "unat c = 0 \<or> unat c = 1" by linarith
  then show "c = 0 \<or> c = 1" by (simp add: word_unat_eq_iff)
qed

lemma sub_words_spec:
  assumes "ahead r a n" "ahead r b n" "in_array h r n" "in_array h a n" "in_array h b n"
    and "bn_sub_words h r a b n = (h', c)"
  shows "only_writes [(r, n)] h h'" "c = 0 \<or> c = 1"
    "wval (words_at h' r n) + wval (words_at h b n) = wval (words_at h a n) + 2 ^ (64 * n) * unat c"
proof -
  obtain ws c' where *: "bn_sub_words h r a b n = (put_words h r ws, c')" "length ws = n" "c' = 0 \<or> c' = 1"
    "wval ws + wval (words_at h b n) = wval (words_at h a n) + 2 ^ (64 * n) * unat c'"
    by (rule bn_sub_words_value [OF assms(1-5)])
  have "in_array h r (length ws)" using assms(3) *(2) by simp
  then show "only_writes [(r, n)] h h'" "wval (words_at h' r n) + wval (words_at h b n) = wval (words_at h a n) + 2 ^ (64 * n) * unat c"
    using only_writes_put [of h r ws] words_at_put_words [of h r ws] * assms(6) by simp_all
  show "c = 0 \<or> c = 1" using * assms(6) by simp
qed

lemma mul_words_spec:
  assumes "ahead r a n" "in_array h r n" "in_array h a n" "bn_mul_words h r a n w = (h', c)"
  shows "only_writes [(r, n)] h h'" "wval (words_at h' r n) + 2 ^ (64 * n) * unat c = unat w * wval (words_at h a n)"
proof -
  obtain ws c' where *: "bn_mul_words h r a n w = (put_words h r ws, c')" "length ws = n"
    "wval ws + 2 ^ (64 * n) * unat c' = unat w * wval (words_at h a n)"
    by (rule bn_mul_words_value [OF assms(1-3)])
  have "in_array h r (length ws)" using assms(2) *(2) by simp
  then show "only_writes [(r, n)] h h'" "wval (words_at h' r n) + 2 ^ (64 * n) * unat c = unat w * wval (words_at h a n)"
    using only_writes_put [of h r ws] words_at_put_words [of h r ws] * assms(4) by simp_all
qed

lemma mul_add_words_spec:
  assumes "ahead r a n" "in_array h r n" "in_array h a n" "bn_mul_add_words h r a n w = (h', c)"
  shows "only_writes [(r, n)] h h'"
    "wval (words_at h' r n) + 2 ^ (64 * n) * unat c = unat w * wval (words_at h a n) + wval (words_at h r n)"
proof -
  obtain ws c' where *: "bn_mul_add_words h r a n w = (put_words h r ws, c')" "length ws = n"
    "wval ws + 2 ^ (64 * n) * unat c' = unat w * wval (words_at h a n) + wval (words_at h r n)"
    by (rule bn_mul_add_words_value [OF assms(1-3)])
  have "in_array h r (length ws)" using assms(2) *(2) by simp
  then show "only_writes [(r, n)] h h'"
    "wval (words_at h' r n) + 2 ^ (64 * n) * unat c = unat w * wval (words_at h a n) + wval (words_at h r n)"
    using only_writes_put [of h r ws] words_at_put_words [of h r ws] * assms(4) by simp_all
qed

lemma select_words_spec:
  assumes "ahead r a n" "ahead r b n" "in_array h r n" "in_array h a n" "in_array h b n" "m = 0 \<or> m = - 1"
  shows "only_writes [(r, n)] h (bn_select_words h r m a b n)"
    "words_at (bn_select_words h r m a b n) r n = (if m = 0 then words_at h b n else words_at h a n)"
proof -
  define f where "f = (\<lambda>(_ :: unit) x y (z :: u64). (constant_time_select_w m x y, ()))"
  have run: "fold (\<lambda>i (h, c). let (w, c) = f c (word_at h a i) (word_at h b i) (word_at h r i)
      in (set_word h r i w, c)) js (h, ()) = (fold (\<lambda>i h. set_word h r i
        (constant_time_select_w m (word_at h a i) (word_at h b i))) js h, ())" for js h
    by (induction js arbitrary: h) (simp_all add: f_def Let_def)
  have mc: "map_carry f () xs ys zs = ((if m = 0 then ys else xs), ())" if "length xs = length ys" "length ys = length zs" for xs ys zs
    using that assms(6) by (induction xs ys zs rule: list_induct3) (auto simp: f_def select_w_spec)
  have "map_carry f () (words_at h a n) (words_at h b n) (words_at h r n) =
      (if m = 0 then words_at h b n else words_at h a n, ())"
    by (rule mc) (use assms(3-5) in \<open>simp_all add: length_words_at\<close>)
  then have "bn_select_words h r m a b n = put_words h r (if m = 0 then words_at h b n else words_at h a n)"
    using loop_map_carry [OF assms(1,2) order_refl assms(3-5), of f "()"] unfolding run bn_select_words_def by simp
  moreover have "length (if m = 0 then words_at h b n else words_at h a n) = n" using assms(4,5) by (simp add: length_words_at)
  ultimately show "only_writes [(r, n)] h (bn_select_words h r m a b n)"
    "words_at (bn_select_words h r m a b n) r n = (if m = 0 then words_at h b n else words_at h a n)"
    using only_writes_put [of h r "if m = 0 then words_at h b n else words_at h a n"]
      words_at_put_words [of h r "if m = 0 then words_at h b n else words_at h a n"] assms(3) by simp_all
qed

section \<open>Copies and sizes\<close>

lemma copy_spec:
  assumes "width (h src) \<le> dmax (h src)" "width (h dest) \<le> dmax (h dest)" "BN_copy g junk h dest src = (ok, h')"
  shows "ok \<longleftrightarrow> src = dest \<or> \<not> cannot_expand g (h dest) (width (h src))"
    "\<And>p. p \<noteq> dest \<Longrightarrow> h' p = h p" "\<not> ok \<Longrightarrow> h' = h"
    "ok \<Longrightarrow> bn_nat (h' dest) = bn_nat (h src) \<and> neg (h' dest) = neg (h src) \<and> width (h' dest) = width (h src) \<and>
      width (h' dest) \<le> dmax (h' dest)"
proof -
  obtain e h1 where e: "bn_wexpand g junk h dest (width (h src)) = (e, h1)" by fastforce
  note we = wexpand_spec [OF assms(2) e]
  show "ok \<longleftrightarrow> src = dest \<or> \<not> cannot_expand g (h dest) (width (h src))"
    using assms(3) e we(1) by (auto simp: BN_copy_def split: if_splits bool.splits)
  show "h' p = h p" if "p \<noteq> dest" for p
    using assms(3) e we(6) that by (auto simp: BN_copy_def split: if_splits bool.splits)
  show "\<not> ok \<Longrightarrow> h' = h" using assms(3) e we(2) by (auto simp: BN_copy_def split: if_splits bool.splits)
  show "ok \<Longrightarrow> bn_nat (h' dest) = bn_nat (h src) \<and> neg (h' dest) = neg (h src) \<and> width (h' dest) = width (h src) \<and>
      width (h' dest) \<le> dmax (h' dest)"
  proof (cases "src = dest")
    case False
    assume ok: "ok"
    then have "e" using assms(3) e False by (auto simp: BN_copy_def split: bool.splits)
    then have room: "width (h src) \<le> dmax (h1 dest)" by (rule we(3))
    have "h1 src = h src" using False by (simp add: we(6))
    then have "h' dest = (h1 dest)\<lparr>d := blit (d (h1 dest)) 0 (take (width (h src)) (d (h src))),
        width := width (h src), neg := neg (h src)\<rparr>"
      using assms(3) e \<open>e\<close> False by (auto simp: BN_copy_def)
    then show ?thesis using assms(1) room by (simp add: bn_nat_def blit_def)
  qed (use assms in \<open>auto simp: BN_copy_def\<close>)
qed

lemma resize_spec:
  assumes "width (h r) \<le> dmax (h r)" "bn_resize_words g junk h r n = (ok, h')"
  shows "ok \<longleftrightarrow> (if width (h r) \<le> n then \<not> cannot_expand g (h r) n else bn_nat (h r) < 2 ^ (64 * n))"
    "\<And>p. p \<noteq> r \<Longrightarrow> h' p = h p" "\<not> ok \<Longrightarrow> h' = h"
    "ok \<Longrightarrow> bn_nat (h' r) = bn_nat (h r) \<and> neg (h' r) = neg (h r) \<and> width (h' r) = n \<and> n \<le> dmax (h' r)"
proof -
  obtain e h1 where e: "bn_wexpand g junk h r n = (e, h1)" by fastforce
  note we = wexpand_spec [OF assms(1) e]
  have fits: "bn_fits_in_words (h r) n \<longleftrightarrow> bn_nat (h r) < 2 ^ (64 * n)" if "n < width (h r)"
    using fits_words_iff [OF assms(1)] .
  show "ok \<longleftrightarrow> (if width (h r) \<le> n then \<not> cannot_expand g (h r) n else bn_nat (h r) < 2 ^ (64 * n))"
    using assms(2) e we(1) fits by (auto simp: bn_resize_words_def not_le split: if_splits bool.splits)
  show "h' p = h p" if "p \<noteq> r" for p
    using assms(2) e we(6) that by (auto simp: bn_resize_words_def split: if_splits bool.splits)
  show "\<not> ok \<Longrightarrow> h' = h" using assms(2) e we(2) by (auto simp: bn_resize_words_def split: if_splits bool.splits)
  show "ok \<Longrightarrow> bn_nat (h' r) = bn_nat (h r) \<and> neg (h' r) = neg (h r) \<and> width (h' r) = n \<and> n \<le> dmax (h' r)"
  proof (cases "width (h r) \<le> n")
    case True
    assume ok: "ok"
    then have "e" using assms(2) e True by (auto simp: bn_resize_words_def split: bool.splits)
    then have room: "n \<le> dmax (h1 r)" by (rule we(3))
    have h': "h' r = (h1 r)\<lparr>d := blit (d (h1 r)) (width (h1 r)) (replicate (n - width (h1 r)) 0), width := n\<rparr>"
      using assms(2) e \<open>e\<close> True we(4) [of r] by (auto simp: bn_resize_words_def)
    have "take n (blit (d (h1 r)) (width (h r)) (replicate (n - width (h r)) 0)) =
        take (width (h r)) (d (h1 r)) @ replicate (n - width (h r)) 0"
      using room True by (simp add: blit_def)
    also have "take (width (h r)) (d (h1 r)) = take (width (h r)) (d (h r))" by (rule we(7))
    finally have "bn_nat (h' r) = bn_nat (h r)"
      by (simp add: bn_nat_def h' we(4) wval_append)
    then show ?thesis using room True we(4,5) [of r] by (simp add: h' blit_def)
  next
    case False
    assume ok: "ok"
    then have h': "h' = h(r := (h r)\<lparr>width := n\<rparr>)" "bn_nat (h r) < 2 ^ (64 * n)"
      using assms(2) fits False by (auto simp: bn_resize_words_def split: if_splits)
    have len: "n \<le> length (take (width (h r)) (d (h r)))" using False assms(1) by simp
    have "bn_nat (h r) = wval (take n (d (h r))) + 2 ^ (64 * n) * wval (drop n (take (width (h r)) (d (h r))))"
      using wval_take_drop [OF len] False by (simp add: bn_nat_def min_def)
    moreover have "wval (drop n (take (width (h r)) (d (h r)))) = 0"
    proof (rule ccontr)
      assume "wval (drop n (take (width (h r)) (d (h r)))) \<noteq> 0"
      then have "2 ^ (64 * n) * 1 \<le> 2 ^ (64 * n) * wval (drop n (take (width (h r)) (d (h r))))" by (intro mult_le_mono2) simp
      then show False using calculation h'(2) by linarith
    qed
    ultimately have "bn_nat (h r) = wval (take n (d (h r)))" by simp
    then show ?thesis using False assms(1) by (simp add: h'(1) bn_nat_def)
  qed
qed

end
