(* ===== verification/Bn_Mont.thy ===== *)
theory Bn_Mont
  imports Bn_Frame
begin

unbundle bit_operations_syntax

text \<open>
  Arithmetic modulo a number without a branch or a division: the word routines of
  \<^verbatim>\<open>crypto/fipsmodule/bn/div.c\<close> that add, subtract and reduce, the inverse of
  \<^verbatim>\<open>crypto/fipsmodule/bn/montgomery_inv.c\<close>, and the reduction of \<^verbatim>\<open>crypto/fipsmodule/bn/montgomery.c\<close>.
\<close>

section \<open>The code\<close>

definition bn_reduce_once :: "bns \<Rightarrow> words_ptr \<Rightarrow> words_ptr \<Rightarrow> u64 \<Rightarrow> words_ptr \<Rightarrow> nat \<Rightarrow> bns \<times> u64" where
  "bn_reduce_once h r a carry m num =
    (let (h, borrow) = bn_sub_words h r a m num;
         carry = carry - borrow
     in (bn_select_words h r carry a r num, carry))"

definition bn_reduce_once_in_place :: "bns \<Rightarrow> words_ptr \<Rightarrow> u64 \<Rightarrow> words_ptr \<Rightarrow> words_ptr \<Rightarrow> nat \<Rightarrow> bns \<times> u64" where
  "bn_reduce_once_in_place h r carry m tmp num =
    (let (h, borrow) = bn_sub_words h tmp r m num;
         carry = carry - borrow
     in (bn_select_words h r carry r tmp num, carry))"

definition bn_mod_sub_words :: "bns \<Rightarrow> words_ptr \<Rightarrow> words_ptr \<Rightarrow> words_ptr \<Rightarrow> words_ptr \<Rightarrow> words_ptr \<Rightarrow> nat \<Rightarrow> bns" where
  "bn_mod_sub_words h r a b m tmp num =
    (let (h, borrow) = bn_sub_words h r a b num;
         (h, _) = bn_add_words h tmp r m num
     in bn_select_words h r (0 - borrow) tmp r num)"

definition bn_mod_add_words :: "bns \<Rightarrow> words_ptr \<Rightarrow> words_ptr \<Rightarrow> words_ptr \<Rightarrow> words_ptr \<Rightarrow> words_ptr \<Rightarrow> nat \<Rightarrow> bns" where
  "bn_mod_add_words h r a b m tmp num =
    (let (h, carry) = bn_add_words h r a b num
     in fst (bn_reduce_once_in_place h r carry m tmp num))"

text \<open>One round of the loop that computes the inverse of an odd word; \<^verbatim>\<open>alpha\<close> is the top bit.\<close>

definition neg_inv_step :: "u64 \<Rightarrow> u64 \<times> u64 \<Rightarrow> u64 \<times> u64" where
  "neg_inv_step beta = (\<lambda>(u, v).
    let alpha = push_bit (64 - 1) 1;
        u_is_odd = 0 - (u AND 1);
        beta_if_u_is_odd = beta AND u_is_odd;
        u = drop_bit 1 (u XOR beta_if_u_is_odd) + (u AND beta_if_u_is_odd);
        alpha_if_u_is_odd = alpha AND u_is_odd;
        v = drop_bit 1 v + alpha_if_u_is_odd
    in (u, v))"

definition bn_neg_inv_mod_r_u64 :: "u64 \<Rightarrow> u64" where
  "bn_neg_inv_mod_r_u64 n = snd (fold (\<lambda>_. neg_inv_step n) [0..<64] (1, 0))"

definition bn_mont_n0 :: "bignum \<Rightarrow> u64" where
  "bn_mont_n0 n = bn_neg_inv_mod_r_u64 (d n ! 0)"

text \<open>\<^verbatim>\<open>struct bn_mont_ctx_st\<close>: the two numbers in it are numbers of the store, here with their addresses; of
  \<^verbatim>\<open>n0\<close> the second word is 0 with 64-bit words.\<close>

record bn_mont_ctx =
  mont_RR :: nat
  mont_N :: nat
  mont_n0 :: "u64 \<times> u64"

definition mont_step :: "words_ptr \<Rightarrow> words_ptr \<Rightarrow> nat \<Rightarrow> u64 \<Rightarrow> nat \<Rightarrow> bns \<times> u64 \<Rightarrow> bns \<times> u64" where
  "mont_step a n num_n n0 i = (\<lambda>(h, carry).
    let (h, v) = bn_mul_add_words h (ptr_add a i) n num_n (word_at h a i * n0);
        x = word_at h a (i + num_n);
        v = v + (carry + x);
        carry = carry OR (if v \<noteq> x then 1 else 0);
        carry = carry AND (if v \<le> x then 1 else 0)
    in (set_word h a (i + num_n) v, carry))"

definition bn_from_montgomery_in_place :: "bns \<Rightarrow> words_ptr \<Rightarrow> nat \<Rightarrow> words_ptr \<Rightarrow> nat \<Rightarrow> bn_mont_ctx \<Rightarrow> bool \<times> bns" where
  "bn_from_montgomery_in_place h r num_r a num_a mont =
    (let n = (mont_N mont, 0);
         num_n = width (h (mont_N mont))
     in if num_r \<noteq> num_n \<or> num_a \<noteq> 2 * num_n then (False, h)
        else let (h, carry) = fold (mont_step a n num_n (fst (mont_n0 mont))) [0..<num_n] (h, 0);
                 a = ptr_add a num_n
             in (True, fst (bn_reduce_once h r a carry n num_n)))"

text \<open>The context of a modulus: it is copied into the context, with its minimal width.\<close>

definition bn_mont_ctx_set_N_and_n0 ::
  "(nat \<Rightarrow> bool) \<Rightarrow> (nat \<Rightarrow> u64) \<Rightarrow> bns \<Rightarrow> bn_mont_ctx \<Rightarrow> nat \<Rightarrow> bool \<times> bns \<times> bn_mont_ctx" where
  "bn_mont_ctx_set_N_and_n0 g junk h mont md =
    (if BN_is_zero (h md) then (False, h, mont)
     else if \<not> BN_is_odd (h md) then (False, h, mont)
     else if BN_is_negative (h md) then (False, h, mont)
     else case BN_copy g junk h (mont_N mont) md of
       (False, h) \<Rightarrow> (False, h, mont)
     | (True, h) \<Rightarrow>
         let h = bn_set_minimal_width h (mont_N mont)
         in (True, h, mont\<lparr>mont_n0 := (bn_mont_n0 (h (mont_N mont)), 0)\<rparr>))"

definition BN_MONT_CTX_copy ::
  "(nat \<Rightarrow> bool) \<Rightarrow> (nat \<Rightarrow> u64) \<Rightarrow> bns \<Rightarrow> bn_mont_ctx \<Rightarrow> bn_mont_ctx \<Rightarrow> (bool \<times> bns) \<times> bn_mont_ctx" where
  "BN_MONT_CTX_copy g junk h to from' =
    (case BN_copy g junk h (mont_RR to) (mont_RR from') of
       (False, h) \<Rightarrow> ((False, h), to)
     | (True, h) \<Rightarrow>
         case BN_copy g junk h (mont_N to) (mont_N from') of
           (False, h) \<Rightarrow> ((False, h), to)
         | (True, h) \<Rightarrow> ((True, h), to\<lparr>mont_n0 := mont_n0 from'\<rparr>))"

definition BN_from_montgomery_word ::
  "(nat \<Rightarrow> bool) \<Rightarrow> (nat \<Rightarrow> u64) \<Rightarrow> bns \<Rightarrow> nat \<Rightarrow> nat \<Rightarrow> bn_mont_ctx \<Rightarrow> bool \<times> bns" where
  "BN_from_montgomery_word g junk h ret r mont =
    (if neg (h r) then (False, h)
     else let n = mont_N mont
          in if width (h n) = 0 then (True, h(ret := (h ret)\<lparr>width := 0\<rparr>))
             else case bn_resize_words g junk h r (2 * width (h n)) of
               (False, h) \<Rightarrow> (False, h)
             | (True, h) \<Rightarrow>
                 case bn_wexpand g junk h ret (width (h n)) of
                   (False, h) \<Rightarrow> (False, h)
                 | (True, h) \<Rightarrow>
                     let h = h(ret := (h ret)\<lparr>width := width (h n), neg := False\<rparr>)
                     in bn_from_montgomery_in_place h (ret, 0) (width (h ret)) (r, 0) (width (h r)) mont)"

definition bn_less_than_montgomery_R :: "bns \<Rightarrow> nat \<Rightarrow> bn_mont_ctx \<Rightarrow> bool" where
  "bn_less_than_montgomery_R h bn mont \<longleftrightarrow>
    \<not> BN_is_negative (h bn) \<and> bn_fits_in_words (h bn) (width (h (mont_N mont)))"

section \<open>Reducing once\<close>

text \<open>One subtraction and a selection reduce what is below twice the modulus.\<close>

lemma reduce_choice:
  fixes x m s R :: nat
  assumes "s + m = x + R * b" "s < R" "x < R" "c \<le> 1" "b \<le> 1" "x + R * c < 2 * m" "m < R"
  shows "if m \<le> x + R * c then c = b \<and> s = x + R * c - m else c = 0 \<and> b = 1"
proof -
  consider "c = 0" "b = 0" | "c = 0" "b = 1" | "c = 1" "b = 0" | "c = 1" "b = 1" using assms(4,5) by linarith
  then show ?thesis using assms by cases (auto split: if_splits)
qed

lemma mod_once: "x < 2 * m \<Longrightarrow> x mod m = (if m \<le> x then x - m else x)" for m :: nat
  by (simp add: mod_if le_mod_geq)

lemma reduce_words:
  assumes "clear_of s n a n" "ahead s m n" "ahead r a n" "ahead r s n"
    and "in_array h r n" "in_array h s n" "in_array h a n" "in_array h m n"
    and "carry = 0 \<or> carry = 1" "wval (words_at h a n) + 2 ^ (64 * n) * unat carry < 2 * wval (words_at h m n)"
    and sub: "bn_sub_words h s a m n = (h1, b)"
  defines "h' \<equiv> bn_select_words h1 r (carry - b) a s n"
  shows "only_writes [(s, n), (r, n)] h h'"
    "wval (words_at h' r n) = (wval (words_at h a n) + 2 ^ (64 * n) * unat carry) mod wval (words_at h m n)"
    "carry - b = (if wval (words_at h m n) \<le> wval (words_at h a n) + 2 ^ (64 * n) * unat carry then 0 else - 1)"
proof -
  note sub = sub_words_spec [OF clear_ahead [OF assms(1) refl] assms(2,6-8) sub]
  define x y where "x = wval (words_at h a n)" and "y = wval (words_at h m n)"
  have cu: "unat carry \<le> 1" "unat b \<le> 1" using assms(9) sub(2) by auto
  have choice: "if y \<le> x + 2 ^ (64 * n) * unat carry
      then unat carry = unat b \<and> wval (words_at h1 s n) = x + 2 ^ (64 * n) * unat carry - y
      else unat carry = 0 \<and> unat b = 1"
    by (rule reduce_choice) (use sub(3) wval_at_bound assms(10) cu in \<open>simp_all add: x_def y_def\<close>)
  have c: "carry - b = (if y \<le> x + 2 ^ (64 * n) * unat carry then 0 else - 1)"
  proof (cases "y \<le> x + 2 ^ (64 * n) * unat carry")
    case True
    then have "unat carry = unat b" using choice by simp
    then have "carry = b" by (simp only: word_unat_eq_iff)
    then show ?thesis using True by simp
  next
    case False
    then have "unat carry = unat (0 :: u64)" "unat b = unat (1 :: u64)" using choice by simp_all
    then have "carry = 0" "b = 1" by (simp_all only: word_unat_eq_iff)
    then show ?thesis using False by simp
  qed
  have a1: "words_at h1 a n = words_at h a n" by (rule only_writes_words [OF sub(1)]) (simp add: assms(1))
  have in1: "in_array h1 r n" "in_array h1 a n" "in_array h1 s n"
    using assms(5-7) only_writes_in_array [OF sub(1)] by simp_all
  have c01: "carry - b = 0 \<or> carry - b = - 1" using c by (auto split: if_splits)
  note sel = select_words_spec [OF assms(3,4) in1 c01, folded h'_def]
  show "only_writes [(s, n), (r, n)] h h'"
    using only_writes_trans [OF sub(1) sel(1)] by simp
  show "carry - b = (if wval (words_at h m n) \<le> wval (words_at h a n) + 2 ^ (64 * n) * unat carry then 0 else - 1)"
    using c by (simp add: x_def y_def)
  have "wval (words_at h' r n) = (x + 2 ^ (64 * n) * unat carry) mod y"
  proof (cases "y \<le> x + 2 ^ (64 * n) * unat carry")
    case True
    then have "wval (words_at h' r n) = x + 2 ^ (64 * n) * unat carry - y" using sel(2) c choice by simp
    then show ?thesis using mod_once [OF assms(10)] True by (simp only: x_def y_def if_True)
  next
    case False
    then have "wval (words_at h' r n) = x" "unat carry = 0" using sel(2) c choice by (simp_all add: a1 x_def)
    then show ?thesis using False by simp
  qed
  then show "wval (words_at h' r n) = (wval (words_at h a n) + 2 ^ (64 * n) * unat carry) mod wval (words_at h m n)"
    by (simp add: x_def y_def)
qed

lemma reduce_once_spec:
  assumes "clear_of r n a n" "ahead r m n" "in_array h r n" "in_array h a n" "in_array h m n"
    and "carry = 0 \<or> carry = 1" "wval (words_at h a n) + 2 ^ (64 * n) * unat carry < 2 * wval (words_at h m n)"
    and "bn_reduce_once h r a carry m n = (h', c)"
  shows "only_writes [(r, n)] h h'"
    "wval (words_at h' r n) = (wval (words_at h a n) + 2 ^ (64 * n) * unat carry) mod wval (words_at h m n)"
    "c = (if wval (words_at h m n) \<le> wval (words_at h a n) + 2 ^ (64 * n) * unat carry then 0 else - 1)"
proof -
  obtain h1 b where s: "bn_sub_words h r a m n = (h1, b)" by fastforce
  note red = reduce_words [OF assms(1,2) clear_ahead [OF assms(1) refl] ahead_self assms(3,3-7) s]
  have e: "h' = bn_select_words h1 r (carry - b) a r n" "c = carry - b"
    using assms(8) s by (auto simp: bn_reduce_once_def Let_def)
  have "covered [(r, n), (r, n)] [(r, n)]" by simp
  with red(1) show "only_writes [(r, n)] h h'" unfolding e by (rule only_writes_mono)
  show "wval (words_at h' r n) = (wval (words_at h a n) + 2 ^ (64 * n) * unat carry) mod wval (words_at h m n)"
    "c = (if wval (words_at h m n) \<le> wval (words_at h a n) + 2 ^ (64 * n) * unat carry then 0 else - 1)"
    using red(2,3) by (simp_all only: e)
qed

lemma reduce_once_in_place_spec:
  assumes "clear_of tmp n r n" "ahead tmp m n" "in_array h r n" "in_array h tmp n" "in_array h m n"
    and "carry = 0 \<or> carry = 1" "wval (words_at h r n) + 2 ^ (64 * n) * unat carry < 2 * wval (words_at h m n)"
    and "bn_reduce_once_in_place h r carry m tmp n = (h', c)"
  shows "only_writes [(r, n), (tmp, n)] h h'"
    "wval (words_at h' r n) = (wval (words_at h r n) + 2 ^ (64 * n) * unat carry) mod wval (words_at h m n)"
    "c = (if wval (words_at h m n) \<le> wval (words_at h r n) + 2 ^ (64 * n) * unat carry then 0 else - 1)"
proof -
  obtain h1 b where s: "bn_sub_words h tmp r m n = (h1, b)" by fastforce
  have cl: "clear_of r n tmp n" using assms(1) by (simp add: clear_of_sym)
  note red = reduce_words [OF assms(1,2) ahead_self clear_ahead [OF cl refl] assms(3,4,3,5-7) s]
  have e: "h' = bn_select_words h1 r (carry - b) r tmp n" "c = carry - b"
    using assms(8) s by (auto simp: bn_reduce_once_in_place_def Let_def)
  have "covered [(tmp, n), (r, n)] [(r, n), (tmp, n)]" by simp
  with red(1) show "only_writes [(r, n), (tmp, n)] h h'" unfolding e by (rule only_writes_mono)
  show "wval (words_at h' r n) = (wval (words_at h r n) + 2 ^ (64 * n) * unat carry) mod wval (words_at h m n)"
    "c = (if wval (words_at h m n) \<le> wval (words_at h r n) + 2 ^ (64 * n) * unat carry then 0 else - 1)"
    using red(2,3) by (simp_all only: e)
qed

section \<open>Addition and subtraction modulo a number\<close>

lemma mod_add_words_spec:
  assumes "ahead r a n" "ahead r b n" "clear_of r n m n" "clear_of tmp n r n" "clear_of tmp n m n"
    and "in_array h r n" "in_array h a n" "in_array h b n" "in_array h m n" "in_array h tmp n"
    and "wval (words_at h a n) < wval (words_at h m n)" "wval (words_at h b n) < wval (words_at h m n)"
  defines "h' \<equiv> bn_mod_add_words h r a b m tmp n"
  shows "only_writes [(r, n), (tmp, n)] h h'"
    "wval (words_at h' r n) = (wval (words_at h a n) + wval (words_at h b n)) mod wval (words_at h m n)"
proof -
  obtain h1 c where s: "bn_add_words h r a b n = (h1, c)" by fastforce
  obtain c2 where e: "bn_reduce_once_in_place h1 r c m tmp n = (h', c2)"
    using s by (simp add: h'_def bn_mod_add_words_def) (metis prod.collapse)
  note add = add_words_spec [OF assms(1,2,6-8) s]
  have m1: "words_at h1 m n = words_at h m n" by (rule only_writes_words [OF add(1)]) (simp add: assms(3))
  have v: "wval (words_at h1 r n) + 2 ^ (64 * n) * unat c < 2 * wval (words_at h1 m n)"
    using assms(11,12) unfolding add(3) m1 by linarith
  have in1: "in_array h1 r n" "in_array h1 tmp n" "in_array h1 m n" using assms only_writes_in_array [OF add(1)] by simp_all
  note red = reduce_once_in_place_spec [OF assms(4) clear_ahead [OF assms(5) refl] in1 add(2) v e]
  have "covered [(r, n)] [(r, n), (tmp, n)]" by simp
  then show "only_writes [(r, n), (tmp, n)] h h'"
    using only_writes_step [OF only_writes_mono [OF add(1)] red(1) covered_self] by simp
  show "wval (words_at h' r n) = (wval (words_at h a n) + wval (words_at h b n)) mod wval (words_at h m n)"
    unfolding red(2) add(3) m1 ..
qed

lemma mod_sub_choice:
  fixes A B M s t R :: nat
  assumes "s + B = A + R * c" "t + R * c2 = s + M" "A < M" "B < M" "M < R" "t < R" "c \<le> 1" "c2 \<le> 1" "s < R"
  shows "(if c = 0 then s else t) = (A + M - B) mod M"
proof -
  consider "c = 0" | "c = 1" "c2 = 0" | "c = 1" "c2 = 1" using assms(7,8) by linarith
  then show ?thesis
  proof cases
    case 1
    then have "s + B = A" using assms(1) by simp
    then have "A + M - B = s + M" "s < M" using assms(3) by linarith+
    then show ?thesis using 1 by simp
  next
    case 3
    then have "s + B = A + R" "t + R = s + M" using assms(1,2) by simp_all
    then have "t = A + M - B" "t < M" using assms(3,4,9) by linarith+
    then show ?thesis using 3 by simp
  next
    case 2
    then have "s + B = A + R" "t = s + M" using assms(1,2) by simp_all
    then show ?thesis using assms(4-6) by linarith
  qed
qed

lemma mod_sub_words_spec:
  assumes "ahead r a n" "ahead r b n" "clear_of r n m n" "clear_of tmp n r n" "clear_of tmp n m n"
    and "in_array h r n" "in_array h a n" "in_array h b n" "in_array h m n" "in_array h tmp n"
    and "wval (words_at h a n) < wval (words_at h m n)" "wval (words_at h b n) < wval (words_at h m n)"
  defines "h' \<equiv> bn_mod_sub_words h r a b m tmp n"
  shows "only_writes [(r, n), (tmp, n)] h h'"
    "wval (words_at h' r n) = (wval (words_at h a n) + wval (words_at h m n) - wval (words_at h b n)) mod wval (words_at h m n)"
proof -
  obtain h1 c where s: "bn_sub_words h r a b n = (h1, c)" by fastforce
  obtain h2 c2 where t: "bn_add_words h1 tmp r m n = (h2, c2)" by fastforce
  have e: "h' = bn_select_words h2 r (0 - c) tmp r n" using s t by (simp add: h'_def bn_mod_sub_words_def)
  note sub = sub_words_spec [OF assms(1,2,6-8) s]
  have in1: "in_array h1 tmp n" "in_array h1 r n" "in_array h1 m n" using assms only_writes_in_array [OF sub(1)] by simp_all
  note add = add_words_spec [OF clear_ahead [OF assms(4) refl] clear_ahead [OF assms(5) refl] in1 t]
  have in2: "in_array h2 r n" "in_array h2 tmp n" using in1 only_writes_in_array [OF add(1)] by simp_all
  have cl: "clear_of r n tmp n" using assms(4) by (simp add: clear_of_sym)
  have c: "0 - c = 0 \<or> 0 - c = - 1" using sub(2) by auto
  note sel = select_words_spec [OF clear_ahead [OF cl refl] ahead_self in2(1,2,1) c, folded e]
  have m1: "words_at h1 m n = words_at h m n" by (rule only_writes_words [OF sub(1)]) (simp add: assms(3))
  have r2: "words_at h2 r n = words_at h1 r n" by (rule only_writes_words [OF add(1)]) (simp add: assms(4))
  have "covered [(r, n)] [(r, n), (tmp, n)]" "covered [(tmp, n)] [(r, n), (tmp, n)]" by simp_all
  then show "only_writes [(r, n), (tmp, n)] h h'"
    using only_writes_step [OF only_writes_step [OF only_writes_mono [OF sub(1)] add(1)] sel(1)] by blast
  have cu: "unat c \<le> 1" "unat c2 \<le> 1" using sub(2) add(2) by auto
  have "(if unat c = 0 then wval (words_at h1 r n) else wval (words_at h2 tmp n)) =
      (wval (words_at h a n) + wval (words_at h m n) - wval (words_at h b n)) mod wval (words_at h m n)"
    by (rule mod_sub_choice [OF sub(3) add(3) [unfolded m1] assms(11,12) wval_at_bound wval_at_bound cu wval_at_bound])
  then show "wval (words_at h' r n) = (wval (words_at h a n) + wval (words_at h m n) - wval (words_at h b n)) mod wval (words_at h m n)"
    using sel(2) sub(2) by (auto simp: r2 split: if_splits)
qed

section \<open>The inverse of an odd word\<close>

lemma xor_and_sum: "(a XOR b) + 2 * (a AND b) = a + b" for a b :: nat
proof (induction a arbitrary: b rule: less_induct)
  case (less a)
  show ?case
  proof (cases "a = 0")
    case False
    have "(a XOR b) + 2 * (a AND b) = a mod 2 + b mod 2 + 2 * ((a div 2 XOR b div 2) + 2 * (a div 2 AND b div 2))"
      by (subst xor_nat_rec, subst and_nat_rec) (auto simp: mod_2_eq_odd)
    also have "\<dots> = a mod 2 + b mod 2 + 2 * (a div 2 + b div 2)" using less.IH [of "a div 2" "b div 2"] False by simp
    also have "\<dots> = a + b" by presburger
    finally show ?thesis .
  qed simp
qed

lemma unat_half: "unat (drop_bit 1 w) = unat w div 2" for w :: u64
  by (simp only: unat_drop_bit_eq drop_bit_eq_div [where ?'a = nat] power_one_right)

text \<open>Dietz's mean of two words, which does not overflow.\<close>

lemma mean_of_words: "unat (drop_bit 1 (x XOR y) + (x AND y)) = (unat x + unat y) div 2" for x y :: u64
proof -
  have "unat (drop_bit 1 (x XOR y)) + unat (x AND y) = (unat (x XOR y) + 2 * unat (x AND y)) div 2"
    by (auto simp only: unat_half)
  also have "\<dots> = (unat x + unat y) div 2" by (simp add: unsigned_xor_eq unsigned_and_eq xor_and_sum)
  finally have s: "unat (drop_bit 1 (x XOR y)) + unat (x AND y) = (unat x + unat y) div 2" .
  then have "unat (drop_bit 1 (x XOR y)) + unat (x AND y) < 2 ^ 64" using unat_u64_lt [of x] unat_u64_lt [of y] by linarith
  then show ?thesis using s by (simp add: unat_word_ariths)
qed

lemma low_bit: "u AND 1 = (if odd (unat u) then 1 else 0)" for u :: u64
proof -
  have "unat (u AND 1) = unat u AND unat (1 :: u64)" by (rule unsigned_and_eq)
  also have "\<dots> = unat u mod 2" by (simp only: unsigned_1 and_one_eq)
  finally have "unat (u AND 1) = unat u mod 2" .
  then have "unat (u AND 1) = unat (if odd (unat u) then 1 else 0 :: u64)" by (simp add: odd_iff_mod_2_eq_one)
  then show ?thesis by (simp only: word_unat_eq_iff)
qed

definition inverting :: "u64 \<Rightarrow> nat \<Rightarrow> u64 \<times> u64 \<Rightarrow> bool" where
  "inverting n i s \<longleftrightarrow> (case s of (u, v) \<Rightarrow>
    unat u \<le> unat n \<and> 2 ^ (64 - i) + unat v * unat n = unat u * 2 ^ 64)"

lemma neg_inv_step:
  assumes "odd (unat n)" "i < 64" "inverting n i s"
  shows "inverting n (Suc i) (neg_inv_step n s)"
proof -
  obtain u v where s: "s = (u, v)" by fastforce
  have inv: "unat u \<le> unat n" "2 ^ (64 - i) + unat v * unat n = unat u * 2 ^ 64"
    using assms(3) by (simp_all add: inverting_def s)
  have p: "(2 :: nat) ^ (64 - i) = 2 * 2 ^ (64 - Suc i)" using assms(2) by (simp add: Suc_diff_Suc flip: power_Suc)
  have "even (unat v * unat n)"
  proof -
    have "even (2 ^ (64 - i) + unat v * unat n)" unfolding inv(2) by simp
    then show ?thesis using p by simp
  qed
  then have "even (unat v)" using assms(1) by simp
  then obtain w where w: "unat v = 2 * w" by (elim evenE)
  have wb: "w < 2 ^ 63" using unat_u64_lt [of v] w by simp
  have hv: "unat (drop_bit 1 v) = w" using w by (auto simp only: unat_half)
  show ?thesis
  proof (cases "even (unat u)")
    case True
    have "u AND 1 = 0" using True by (simp add: low_bit)
    then have step: "neg_inv_step n s = (drop_bit 1 u, drop_bit 1 v)" by (simp add: neg_inv_step_def s)
    obtain y where y: "unat u = 2 * y" using True by (elim evenE)
    have hu: "unat (drop_bit 1 u) = y" using y by (auto simp only: unat_half)
    have "2 * (2 ^ (64 - Suc i) + w * unat n) = 2 * (y * 2 ^ 64)" using inv(2) unfolding p w y by (simp add: algebra_simps)
    then show ?thesis using inv(1) y by (simp add: inverting_def step hu hv del: One_nat_def)
  next
    case False
    have o: "u AND 1 = 1" "64 - 1 = (63 :: nat)" using False by (simp_all add: low_bit)
    have step: "neg_inv_step n s = (drop_bit 1 (u XOR n) + (u AND n), drop_bit 1 v + push_bit 63 1)"
      by (simp only: neg_inv_step_def s prod.case Let_def o diff_0 and.right_neutral)
    have "even (unat u + unat n)" using False assms(1) by simp
    then obtain y where y: "unat u + unat n = 2 * y" by (elim evenE)
    have hu: "unat (drop_bit 1 (u XOR n) + (u AND n)) = y" using y by (simp only: mean_of_words)
    have "unat (push_bit 63 1 :: u64) = 2 ^ 63" by simp
    then have hw: "unat (drop_bit 1 v + push_bit 63 1) = w + 2 ^ 63"
      using wb hv by (subst unat_plus_simple [THEN iffD1]) (simp_all add: word_le_nat_alt unat_word_ariths)
    have "2 * (2 ^ (64 - Suc i) + (w + 2 ^ 63) * unat n) = 2 ^ (64 - i) + unat v * unat n + 2 ^ 64 * unat n"
      unfolding p w by (simp add: algebra_simps)
    also have "\<dots> = (unat u + unat n) * 2 ^ 64" unfolding inv(2) by (simp add: algebra_simps)
    finally have "2 ^ (64 - Suc i) + (w + 2 ^ 63) * unat n = y * 2 ^ 64" unfolding y by simp
    moreover have "y \<le> unat n" using inv(1) y by linarith
    ultimately show ?thesis unfolding inverting_def step prod.case hu hw by blast
  qed
qed

lemma neg_inv_loop:
  assumes "odd (unat n)" "i \<le> 64"
  shows "inverting n i (fold (\<lambda>_. neg_inv_step n) [0..<i] (1, 0))"
  using assms(2)
proof (induction i)
  case 0
  have "unat n \<noteq> 0" using assms(1) by (metis even_zero)
  then show ?case by (simp add: inverting_def)
qed (simp add: neg_inv_step [OF assms(1)])

lemma neg_inv_spec:
  assumes "odd (unat n)"
  shows "bn_neg_inv_mod_r_u64 n * n = - 1"
proof -
  obtain u v where s: "fold (\<lambda>_. neg_inv_step n) [0..<64] (1, 0) = (u, v)" by fastforce
  then have "2 ^ (64 - 64) + unat v * unat n = unat u * 2 ^ 64"
    using neg_inv_loop [OF assms, of 64] by (simp add: inverting_def)
  then have "1 + unat v * unat n = unat u * 2 ^ 64" by simp
  then have "of_nat (1 + unat v * unat n) = (of_nat (unat u * 2 ^ 64) :: u64)" by (rule arg_cong)
  then have "1 + v * n = u * 18446744073709551616" by simp
  moreover have "(18446744073709551616 :: u64) = 0" by (rule word_unat_eq_iff [THEN iffD2]) simp
  ultimately have "1 + v * n = 0" by (simp only: mult_zero_right)
  then have "v * n = - 1" by (simp add: eq_neg_iff_add_eq_0 add.commute)
  then show ?thesis by (simp only: bn_neg_inv_mod_r_u64_def s snd_conv)
qed

section \<open>Montgomery reduction\<close>

text \<open>The carry of a round, from two comparisons.\<close>

lemma compare_carry:
  fixes v x c s W :: nat
  assumes "s = (v + c + x) mod W" "v < W" "x < W" "c \<le> 1"
  shows "s + W * (if s < x \<or> s = x \<and> c = 1 then 1 else 0) = v + c + x"
proof (cases "v + c + x < W")
  case True
  then have "s = v + c + x" using assms(1) by simp
  then have "\<not> (s < x \<or> s = x \<and> c = 1)" by linarith
  then show ?thesis using \<open>s = v + c + x\<close> by simp
next
  case False
  then have "s + W = v + c + x" using assms by (simp add: le_mod_geq)
  moreover have "s < x \<or> s = x \<and> c = 1" using calculation assms(2,4) by linarith
  ultimately show ?thesis by simp
qed

lemma mont_carry:
  fixes v x c :: u64
  assumes "c = 0 \<or> c = 1"
  defines "s \<equiv> v + (c + x)"
  defines "c' \<equiv> (c OR (if s \<noteq> x then 1 else 0)) AND (if s \<le> x then 1 else 0)"
  shows "c' = 0 \<or> c' = 1" "unat s + 2 ^ 64 * unat c' = unat v + unat c + unat x"
proof -
  have s: "unat s = (unat v + unat c + unat x) mod 2 ^ 64" by (simp add: s_def unat_word_ariths mod_simps add.assoc)
  have c: "unat c \<le> 1" "unat c = 1 \<longleftrightarrow> c = 1" using assms(1) by auto
  have c': "c' = (if unat s < unat x \<or> unat s = unat x \<and> c = 1 then 1 else 0)"
    using assms(1) by (auto simp: c'_def word_le_nat_alt word_unat_eq_iff [of s x])
  then show "c' = 0 \<or> c' = 1" by simp
  have "unat c' = (if unat s < unat x \<or> unat s = unat x \<and> unat c = 1 then 1 else 0)" unfolding c' c(2) by simp
  then show "unat s + 2 ^ 64 * unat c' = unat v + unat c + unat x"
    using compare_carry [OF s unat_u64_lt unat_u64_lt c(1)] by (simp only:)
qed

text \<open>After \<open>i\<close> rounds the number with its carry is the product plus a multiple of the modulus, and its low
  \<open>i\<close> words are zero.\<close>

definition reducing :: "bns \<Rightarrow> words_ptr \<Rightarrow> words_ptr \<Rightarrow> nat \<Rightarrow> nat \<Rightarrow> bns \<times> u64 \<Rightarrow> bool" where
  "reducing h a n m i s \<longleftrightarrow> (case s of (h', c) \<Rightarrow>
    only_writes [(a, 2 * m)] h h' \<and> (c = 0 \<or> c = 1) \<and> wval (words_at h' a i) = 0 \<and>
    (\<exists>k < 2 ^ (64 * i). wval (words_at h' a (2 * m)) + 2 ^ (64 * (i + m)) * unat c =
      wval (words_at h a (2 * m)) + k * wval (words_at h n m)))"

lemma round_algebra:
  fixes L M M' x x' v c c' S T k m N W Wi Wm V V' :: nat
  assumes "M' + Wm * v = m * N + M" "x' + W * c' = v + c + x"
    and "V = L + Wi * M + Wi * Wm * x + Wi * Wm * W * S" "V' = L + Wi * M' + Wi * Wm * x' + Wi * Wm * W * S"
    and "V + Wi * Wm * c = T + k * N"
  shows "V' + Wi * Wm * W * c' = T + (k + Wi * m) * N"
proof -
  have "V' + Wi * Wm * W * c' = L + Wi * M' + Wi * Wm * (x' + W * c') + Wi * Wm * W * S"
    unfolding assms(4) by (simp add: algebra_simps)
  also have "\<dots> = L + Wi * (M' + Wm * v) + Wi * Wm * c + Wi * Wm * x + Wi * Wm * W * S"
    unfolding assms(2) by (simp add: algebra_simps)
  also have "\<dots> = V + Wi * Wm * c + Wi * m * N" unfolding assms(1,3) by (simp add: algebra_simps)
  also have "\<dots> = T + (k + Wi * m) * N" unfolding assms(5) by (simp add: algebra_simps)
  finally show ?thesis .
qed

lemma two_64_word [simp]: "(18446744073709551616 :: u64) = 0"
  by (rule word_unat_eq_iff [THEN iffD2]) simp

lemma low_word: "in_array h p (Suc j) \<Longrightarrow> of_nat (wval (words_at h p (Suc j))) = word_at h p 0"
  using wval_word_at [of h p 0 j] by simp

lemma split_at_round:
  assumes "in_array h a (2 * m)" "i < m"
  shows "wval (words_at h a (2 * m)) = wval (words_at h a i) + 2 ^ (64 * i) * wval (words_at h (ptr_add a i) m) +
    2 ^ (64 * i) * 2 ^ (64 * m) * unat (word_at h a (i + m)) +
    2 ^ (64 * i) * 2 ^ (64 * m) * 2 ^ 64 * wval (words_at h (ptr_add a (Suc (i + m))) (m - Suc i))"
proof -
  have len: "2 * m = (i + m) + Suc (m - Suc i)" using assms(2) by simp
  have i: "in_array h a (i + m + Suc (m - Suc i))" "in_array h a i" using assms by (simp_all add: in_array_def)
  show ?thesis unfolding len wval_word_at [OF i(1)] wval_at_split [OF i(2)]
    by (simp add: algebra_simps power_add)
qed

lemma mont_round:
  assumes "in_array h a (2 * m)" "in_array h n m" "clear_of a (2 * m) n m" "i < m"
    and inverse: "n0 * word_at h n 0 = - 1" and "reducing h a n m i s"
  shows "reducing h a n m (Suc i) (mont_step a n m n0 i s)"
proof -
  obtain h1 c where s: "s = (h1, c)" by fastforce
  obtain k where inv: "only_writes [(a, 2 * m)] h h1" "c = 0 \<or> c = 1" "wval (words_at h1 a i) = 0" "k < 2 ^ (64 * i)"
    "wval (words_at h1 a (2 * m)) + 2 ^ (64 * (i + m)) * unat c = wval (words_at h a (2 * m)) + k * wval (words_at h n m)"
    using assms(6) by (auto simp: reducing_def s)
  define w where "w = word_at h1 a i * n0"
  obtain h2 v where mul: "bn_mul_add_words h1 (ptr_add a i) n m w = (h2, v)" by fastforce
  define x where "x = word_at h2 a (i + m)"
  define y where "y = v + (c + x)"
  define c' where "c' = (c OR (if y \<noteq> x then 1 else 0)) AND (if y \<le> x then 1 else 0)"
  define h3 where "h3 = set_word h2 a (i + m) y"
  have step: "mont_step a n m n0 i s = (h3, c')"
    using mul by (simp add: mont_step_def s w_def x_def y_def c'_def h3_def Let_def)
  have i1: "in_array h1 a (2 * m)" "in_array h1 n m" using assms(1,2) only_writes_in_array [OF inv(1)] by simp_all
  have n1: "words_at h1 n m = words_at h n m" by (rule only_writes_words [OF inv(1)]) (simp add: assms(3))
  have am: "ahead (ptr_add a i) n m" "in_array h1 (ptr_add a i) m"
    using assms(3,4) i1(1) by (auto simp: ahead_def clear_of_def in_array_def)
  note mul_add = mul_add_words_spec [OF am i1(2) mul]
  have i2a: "in_array h2 a (2 * m)" using i1(1) only_writes_in_array [OF mul_add(1)] by simp
  then have i2: "in_array h2 a (2 * m)" "in_array h2 a (Suc (i + m))" using assms(4) by (simp_all add: in_array_def)
  note set = set_word_spec' [OF i2(2), of y, folded h3_def]
  have i3: "in_array h3 a (2 * m)" using i2(1) only_writes_in_array [OF set(1)] by simp
  have x1: "x = word_at h1 a (i + m)"
    unfolding x_def by (rule only_writes_word [OF mul_add(1)])
      (use i1(1) assms(4) in \<open>simp_all add: clear_of_def in_array_def\<close>)
  have keep: "words_at h3 a i = words_at h1 a i"
    "words_at h3 (ptr_add a (Suc (i + m))) (m - Suc i) = words_at h1 (ptr_add a (Suc (i + m))) (m - Suc i)"
    "words_at h3 (ptr_add a i) m = words_at h2 (ptr_add a i) m"
    using only_writes_words [OF set(1)] only_writes_words [OF mul_add(1)] assms(4) by (simp_all add: clear_of_def)
  note carry = mont_carry [OF inv(2), of v x, folded y_def, folded c'_def]
  have "wval (words_at h3 a (2 * m)) + 2 ^ (64 * i) * 2 ^ (64 * m) * 2 ^ 64 * unat c' =
      wval (words_at h a (2 * m)) + (k + 2 ^ (64 * i) * unat w) * wval (words_at h n m)"
    by (rule round_algebra [OF mul_add(2) [unfolded n1] carry(2) split_at_round [OF i1(1) assms(4), folded x1]
          split_at_round [OF i3 assms(4), unfolded set(2) keep]])
      (use inv(5) in \<open>simp add: power_add algebra_simps\<close>)
  moreover have "k + 2 ^ (64 * i) * unat w < 2 ^ (64 * Suc i)"
  proof -
    have "k + 2 ^ (64 * i) * unat w < 2 ^ (64 * i) + 2 ^ (64 * i) * unat w" using inv(4) by simp
    also have "\<dots> = 2 ^ (64 * i) * (1 + unat w)" by simp
    also have "\<dots> \<le> 2 ^ (64 * i) * 2 ^ 64" using unat_u64_lt [of w] by (intro mult_left_mono) simp_all
    finally show ?thesis by (simp add: power_add mult.commute)
  qed
  moreover have "wval (words_at h3 a (Suc i)) = 0"
  proof -
    obtain j where m: "m = Suc j" using assms(4) by (cases m) simp_all
    have "of_nat (wval (words_at h2 (ptr_add a i) m) + 2 ^ (64 * m) * unat v) =
        (of_nat (unat w * wval (words_at h n m) + wval (words_at h1 (ptr_add a i) m)) :: u64)"
      using mul_add(2) unfolding n1 by (simp only:)
    moreover have "in_array h2 (ptr_add a i) m" using am(2) only_writes_in_array [OF mul_add(1)] by simp
    ultimately have "word_at h2 (ptr_add a i) 0 = w * word_at h n 0 + word_at h1 (ptr_add a i) 0"
      using low_word [of h2 "ptr_add a i" j] low_word [of h n j] low_word [of h1 "ptr_add a i" j] am(2) assms(2)
      by (simp add: m power_add)
    also have "\<dots> = 0" using inverse by (simp add: w_def mult.assoc) (simp add: word_at_def)
    finally have "word_at h2 (ptr_add a i) 0 = 0" .
    moreover have "word_at h3 a i = word_at h2 a i"
      by (rule only_writes_word [OF set(1)]) (use assms(4) i2(1) in \<open>simp_all add: clear_of_def in_array_def\<close>)
    ultimately have "word_at h3 a i = 0" by (simp add: word_at_def)
    moreover have "in_array h3 a (i + Suc 0)" using i3 assms(4) by (simp add: in_array_def)
    ultimately show ?thesis using wval_word_at [of h3 a i 0] inv(3) keep(1) by simp
  qed
  moreover have "only_writes [(a, 2 * m)] h h3"
    by (rule only_writes_step [OF only_writes_step [OF inv(1) mul_add(1)] set(1)])
      (use assms(4) in \<open>simp_all add: within_def\<close>)
  ultimately show ?thesis using carry(1) unfolding reducing_def step prod.case
    by (auto simp: power_add algebra_simps intro!: exI [of _ "k + 2 ^ (64 * i) * unat w"])
qed

lemma mont_loop:
  assumes "in_array h a (2 * m)" "in_array h n m" "clear_of a (2 * m) n m" "i \<le> m" "0 < m \<Longrightarrow> n0 * word_at h n 0 = - 1"
  shows "reducing h a n m i (fold (mont_step a n m n0) [0..<i] (h, 0))"
  using assms(4)
proof (induction i)
  case (Suc i)
  then show ?case using mont_round [OF assms(1-3), of i] assms(5) by simp
qed (simp add: reducing_def)

lemma mont_quotient:
  fixes T N k W V c :: nat
  assumes "W * V + W * W * c = T + k * N" "k < W" "T < N * W" "0 < N"
  shows "V + W * c < 2 * N" "((V + W * c) mod N * W) mod N = T mod N"
proof -
  have "W * (V + W * c) = T + k * N" using assms(1) by (simp add: algebra_simps)
  moreover have "k * N < W * N" using assms(2,4) by simp
  moreover have "T < W * N" using assms(3) by (simp add: mult.commute)
  ultimately have "W * (V + W * c) < W * N + W * N" by linarith
  then have "W * (V + W * c) < W * (2 * N)" by (simp only: mult_2 distrib_left)
  then show "V + W * c < 2 * N" using mult_less_cancel1 [of W] by blast
  show "((V + W * c) mod N * W) mod N = T mod N"
  proof -
    have "((V + W * c) mod N * W) mod N = (W * (V + W * c)) mod N" by (simp only: mod_mult_right_eq mult.commute [of _ W])
    also have "\<dots> = T mod N" unfolding \<open>W * (V + W * c) = T + k * N\<close> by simp
    finally show ?thesis .
  qed
qed

lemma from_montgomery_in_place_spec:
  fixes h :: bns and mont :: bn_mont_ctx
  defines "n \<equiv> (mont_N mont, 0)" and "m \<equiv> width (h (mont_N mont))"
  assumes "in_array h a (2 * m)" "in_array h n m" "in_array h r m"
    and "clear_of a (2 * m) n m" "clear_of r m a (2 * m)" "clear_of r m n m"
    and "0 < m \<Longrightarrow> fst (mont_n0 mont) * word_at h n 0 = - 1" "wval (words_at h a (2 * m)) < wval (words_at h n m) * 2 ^ (64 * m)"
    and "bn_from_montgomery_in_place h r m a (2 * m) mont = (ok, h')"
  shows "ok" "only_writes [(r, m), (a, 2 * m)] h h'"
    "wval (words_at h' r m) < wval (words_at h n m)"
    "(wval (words_at h' r m) * 2 ^ (64 * m)) mod wval (words_at h n m) = wval (words_at h a (2 * m)) mod wval (words_at h n m)"
proof -
  obtain h1 c where f: "fold (mont_step a n m (fst (mont_n0 mont))) [0..<m] (h, 0) = (h1, c)" by fastforce
  obtain k where inv: "only_writes [(a, 2 * m)] h h1" "c = 0 \<or> c = 1" "wval (words_at h1 a m) = 0" "k < 2 ^ (64 * m)"
    "wval (words_at h1 a (2 * m)) + 2 ^ (64 * (m + m)) * unat c = wval (words_at h a (2 * m)) + k * wval (words_at h n m)"
    using mont_loop [OF assms(3,4,6) order_refl assms(9)] by (auto simp: reducing_def f)
  have i1: "in_array h1 a (2 * m)" "in_array h1 n m" "in_array h1 r m"
    using assms(3-5) only_writes_in_array [OF inv(1)] by simp_all
  have n1: "words_at h1 n m = words_at h n m" by (rule only_writes_words [OF inv(1)]) (simp add: assms(6))
  define X where "X = wval (words_at h1 (ptr_add a m) m) + 2 ^ (64 * m) * unat c"
  have i2: "in_array h1 a m" "in_array h1 (ptr_add a m) m" using i1(1) by (simp_all add: in_array_def)
  have "2 ^ (64 * m) * wval (words_at h1 (ptr_add a m) m) + 2 ^ (64 * m) * 2 ^ (64 * m) * unat c =
      wval (words_at h a (2 * m)) + k * wval (words_at h n m)"
    using inv(3,5) wval_at_split [OF i2(1), of m] by (simp add: mult_2 power_add [symmetric])
  moreover have pos: "0 < wval (words_at h n m)" using assms(10) by (cases "wval (words_at h n m)") auto
  ultimately have X: "X < 2 * wval (words_at h n m)"
    "(X mod wval (words_at h n m) * 2 ^ (64 * m)) mod wval (words_at h n m) = wval (words_at h a (2 * m)) mod wval (words_at h n m)"
    unfolding X_def using mont_quotient [OF _ inv(4) assms(10)] by blast+
  obtain h2 c2 where red: "bn_reduce_once h1 r (ptr_add a m) c n m = (h2, c2)" by fastforce
  have e: "ok" "h' = h2" using assms(11) f red by (simp_all add: bn_from_montgomery_in_place_def n_def m_def Let_def)
  have cl: "clear_of r m (ptr_add a m) m" using assms(7) by (auto simp: clear_of_def)
  note once = reduce_once_spec [OF cl clear_ahead [OF assms(8) refl] i1(3) i2(2) i1(2) inv(2) X(1) [unfolded X_def, folded n1] red]
  show "ok" by (rule e(1))
  show "only_writes [(r, m), (a, 2 * m)] h h'"
    unfolding e(2) by (rule only_writes_step [OF only_writes_mono [OF inv(1)] once(1)]) simp_all
  have v: "wval (words_at h' r m) = X mod wval (words_at h n m)" using once(2) by (simp add: e(2) X_def n1)
  show "wval (words_at h' r m) < wval (words_at h n m)" unfolding v using pos by simp
  show "(wval (words_at h' r m) * 2 ^ (64 * m)) mod wval (words_at h n m) = wval (words_at h a (2 * m)) mod wval (words_at h n m)"
    unfolding v by (rule X(2))
qed

section \<open>Contexts\<close>

text \<open>A context as the reduction needs it.\<close>

definition mont_ready :: "bns \<Rightarrow> bn_mont_ctx \<Rightarrow> bool" where
  "mont_ready h mont \<longleftrightarrow> (let n = h (mont_N mont) in
    bn_ok n \<and> \<not> neg n \<and> minimal n \<and> odd (bn_nat n) \<and> fst (mont_n0 mont) * d n ! 0 = - 1)"

lemma low_word_bn:
  assumes "width b \<le> dmax b" "0 < width b"
  shows "of_nat (bn_nat b) = d b ! 0"
proof -
  have "in_array (\<lambda>_. b) (0, 0) (Suc (width b - 1))" using assms by (simp add: in_array_def)
  then show ?thesis using low_word [of "\<lambda>_. b" "(0, 0)" "width b - 1"] assms
    by (simp add: bn_nat_def words_at_def word_at_def)
qed

lemma mont_n0_spec:
  assumes "width b \<le> dmax b" "odd (bn_nat b)"
  shows "0 < width b" "bn_mont_n0 b * d b ! 0 = - 1"
proof -
  show w: "0 < width b" using assms(2) by (intro gr0I) (simp add: bn_nat_def)
  have "odd (unat (d b ! 0))"
  proof -
    have "unat (d b ! 0) = bn_nat b mod 2 ^ 64" using low_word_bn [OF assms(1) w, symmetric] by (simp add: unat_of_nat)
    then show ?thesis using assms(2) by (simp add: dvd_mod_iff)
  qed
  then show "bn_mont_n0 b * d b ! 0 = - 1" by (simp add: bn_mont_n0_def neg_inv_spec)
qed

lemma set_N_spec:
  assumes "bn_ok (h md)" "width (h (mont_N mont)) \<le> dmax (h (mont_N mont))"
    and "bn_mont_ctx_set_N_and_n0 g junk h mont md = (ok, h1, mont1)"
  shows "ok \<longleftrightarrow> 0 < bn_int (h md) \<and> odd (bn_int (h md)) \<and>
      (md = mont_N mont \<or> \<not> cannot_expand g (h (mont_N mont)) (width (h md)))"
    "mont_N mont1 = mont_N mont" "mont_RR mont1 = mont_RR mont" "\<And>p. p \<noteq> mont_N mont \<Longrightarrow> h1 p = h p"
    "\<not> ok \<Longrightarrow> h1 = h \<and> mont1 = mont"
    "ok \<Longrightarrow> mont_ready h1 mont1 \<and> bn_int (h1 (mont_N mont1)) = bn_int (h md)"
proof -
  let ?n = "mont_N mont"
  have w: "width (h md) \<le> dmax (h md)" using assms(1) by (simp add: bn_ok_def)
  have cond: "0 < bn_int (h md) \<and> odd (bn_int (h md)) \<longleftrightarrow> \<not> BN_is_zero (h md) \<and> BN_is_odd (h md) \<and> \<not> BN_is_negative (h md)"
    using assms(1) by (auto simp: bn_int_def is_zero_iff [OF w] is_odd_spec [OF w] BN_is_negative_def bn_ok_def)
  obtain e h0 where e: "BN_copy g junk h ?n md = (e, h0)" by fastforce
  note cp = copy_spec [OF w assms(2) e]
  show okiff: "ok \<longleftrightarrow> 0 < bn_int (h md) \<and> odd (bn_int (h md)) \<and> (md = ?n \<or> \<not> cannot_expand g (h ?n) (width (h md)))"
    using assms(3) e cp(1) cond
    by (auto simp: bn_mont_ctx_set_N_and_n0_def Let_def split: if_splits bool.splits)
  show "mont_N mont1 = mont_N mont" "mont_RR mont1 = mont_RR mont" "\<not> ok \<Longrightarrow> h1 = h \<and> mont1 = mont"
    using assms(3) e cp(3) by (auto simp: bn_mont_ctx_set_N_and_n0_def Let_def split: if_splits bool.splits)
  show "h1 p = h p" if "p \<noteq> ?n" for p
    using assms(3) e cp(2) that
    by (auto simp: bn_mont_ctx_set_N_and_n0_def bn_set_minimal_width_def Let_def split: if_splits bool.splits)
  show "mont_ready h1 mont1 \<and> bn_int (h1 (mont_N mont1)) = bn_int (h md)" if "ok"
  proof -
    have "e" using assms(3) e that by (auto simp: bn_mont_ctx_set_N_and_n0_def Let_def split: if_splits bool.splits)
    note cp = cp(4) [OF this]
    have fit: "width (h0 ?n) \<le> dmax (h0 ?n)" using cp by simp
    note mw = set_minimal_width [where h = h0 and r = ?n, OF fit]
    have h1: "h1 = bn_set_minimal_width h0 ?n" "mont1 = mont\<lparr>mont_n0 := (bn_mont_n0 (h1 ?n), 0)\<rparr>"
      using assms(3) e that \<open>e\<close> by (auto simp: bn_mont_ctx_set_N_and_n0_def Let_def split: if_splits)
    have md: "\<not> neg (h md)" "odd (bn_nat (h md))" using that okiff by (auto simp: bn_int_def split: if_splits)
    have n: "bn_nat (h1 ?n) = bn_nat (h md)" "\<not> neg (h1 ?n)" "bn_ok (h1 ?n)" "minimal (h1 ?n)"
      using mw(1-4) cp md by (simp_all add: h1(1))
    have "bn_mont_n0 (h1 ?n) * d (h1 ?n) ! 0 = - 1"
      by (rule mont_n0_spec) (use n md in \<open>simp_all add: bn_ok_def\<close>)
    then show ?thesis using n md by (simp add: mont_ready_def h1(2) bn_int_def)
  qed
qed

lemma from_montgomery_word_spec:
  fixes h :: bns and mont :: bn_mont_ctx
  defines "n \<equiv> h (mont_N mont)"
  assumes "mont_ready h mont" "bn_ok (h r)" "\<not> neg (h r)" "bn_ok (h ret)" "distinct [ret, r, mont_N mont]"
    and "bn_nat (h r) < bn_nat n * 2 ^ (64 * width n)"
    and "BN_from_montgomery_word g junk h ret r mont = (ok, h')"
  shows "ok \<longleftrightarrow> \<not> cannot_expand g (h r) (2 * width n) \<and> \<not> cannot_expand g (h ret) (width n)"
    "\<And>p. p \<noteq> ret \<Longrightarrow> p \<noteq> r \<Longrightarrow> h' p = h p"
    "ok \<Longrightarrow> bn_ok (h' ret) \<and> \<not> neg (h' ret) \<and> width (h' ret) = width n \<and> bn_nat (h' ret) < bn_nat n \<and>
      (bn_nat (h' ret) * 2 ^ (64 * width n)) mod bn_nat n = bn_nat (h r) mod bn_nat n"
proof -
  let ?n = "mont_N mont" and ?w = "width n"
  have rdy: "bn_ok n" "\<not> neg n" "odd (bn_nat n)" "fst (mont_n0 mont) * d n ! 0 = - 1"
    using assms(2) by (simp_all add: mont_ready_def n_def Let_def)
  have fit: "width n \<le> dmax n" "width (h r) \<le> dmax (h r)" "width (h ret) \<le> dmax (h ret)"
    using rdy(1) assms(3,5) by (simp_all add: bn_ok_def)
  have w: "0 < ?w" using mont_n0_spec(1) [OF fit(1) rdy(3)] .
  have ne: "ret \<noteq> r" "ret \<noteq> ?n" "r \<noteq> ?n" using assms(6) by simp_all
  have "bn_nat n < 2 ^ (64 * ?w)" using wval_bound [of "take ?w (d n)"] fit(1) by (simp add: bn_nat_def)
  then have "bn_nat n * 2 ^ (64 * ?w) < 2 ^ (64 * ?w) * 2 ^ (64 * ?w)" by simp
  also have "\<dots> = 2 ^ (64 * (2 * ?w))" by (simp only: mult_2 distrib_left power_add)
  finally have "bn_nat n * 2 ^ (64 * ?w) < 2 ^ (64 * (2 * ?w))" .
  then have small: "bn_nat (h r) < 2 ^ (64 * (2 * ?w))" using assms(7) by linarith
  obtain e1 h1 where e1: "bn_resize_words g junk h r (2 * ?w) = (e1, h1)" by fastforce
  note rs = resize_spec [OF fit(2) e1]
  have e1_iff: "e1 \<longleftrightarrow> \<not> cannot_expand g (h r) (2 * ?w)"
    using rs(1) small fit(2) by (auto simp: cannot_expand_def)
  obtain e2 h2 where e2: "bn_wexpand g junk h1 ret ?w = (e2, h2)" by fastforce
  have h1: "h1 ret = h ret" "h1 ?n = n" using rs(2) ne by (simp_all add: n_def)
  have "width (h1 ret) \<le> dmax (h1 ret)" using fit(3) h1 by simp
  note we = wexpand_spec [OF this e2]
  define h3 where "h3 = h2(ret := (h2 ret)\<lparr>width := ?w, neg := False\<rparr>)"
  have other: "h3 p = h1 p" if "p \<noteq> ret" for p using that by (simp add: h3_def we(6))
  obtain e4 h4 where e4: "bn_from_montgomery_in_place h3 (ret, 0) ?w (r, 0) (width (h3 r)) mont = (e4, h4)" by fastforce
  have w3: "width (h3 ret) = ?w" by (simp add: h3_def)
  have n3: "h3 ?n = n" using other [of ?n] ne h1(2) by simp
  have code: "ok \<longleftrightarrow> e1 \<and> e2 \<and> e4" "h' = (if e1 then if e2 then h4 else h2 else h1)"
    using assms(8) assms(4) w e1 e2 e4 h1 we(4) ne n3 w3
    by (auto simp: BN_from_montgomery_word_def n_def [symmetric] h3_def [symmetric] Let_def we(6) split: bool.splits if_splits)
  have run: "e4 \<and> bn_ok (h4 ret) \<and> \<not> neg (h4 ret) \<and> width (h4 ret) = ?w \<and> bn_nat (h4 ret) < bn_nat n \<and>
      (bn_nat (h4 ret) * 2 ^ (64 * ?w)) mod bn_nat n = bn_nat (h r) mod bn_nat n \<and>
      (\<forall>p. p \<noteq> ret \<longrightarrow> p \<noteq> r \<longrightarrow> h4 p = h p)" if "e1" "e2"
  proof -
    have r3: "width (h3 r) = 2 * ?w" "2 * ?w \<le> dmax (h3 r)" "bn_nat (h3 r) = bn_nat (h r)"
      using rs(4) that(1) other [of r] ne by simp_all
    have T: "wval (words_at h3 (r, 0) (2 * ?w)) = bn_nat (h r)" "wval (words_at h3 (?n, 0) ?w) = bn_nat n"
      using r3 n3 bn_nat_words [of h3 r] bn_nat_words [of h3 ?n] by simp_all
    have "in_array h3 (r, 0) (2 * width (h3 ?n))" "in_array h3 (?n, 0) (width (h3 ?n))" "in_array h3 (ret, 0) (width (h3 ?n))"
      using r3 n3 fit(1) we(3) [OF that(2)] by (simp_all add: in_array_def h3_def)
    moreover have "clear_of (r, 0) (2 * width (h3 ?n)) (?n, 0) (width (h3 ?n))"
      "clear_of (ret, 0) (width (h3 ?n)) (r, 0) (2 * width (h3 ?n))" "clear_of (ret, 0) (width (h3 ?n)) (?n, 0) (width (h3 ?n))"
      using ne by (simp_all add: clear_of_def)
    moreover have "fst (mont_n0 mont) * word_at h3 (?n, 0) 0 = - 1" using rdy(4) n3 by (simp add: word_at_def)
    moreover have "bn_from_montgomery_in_place h3 (ret, 0) (width (h3 ?n)) (r, 0) (2 * width (h3 ?n)) mont = (e4, h4)"
      using e4 r3(1) n3 by simp
    ultimately have res: "e4" "only_writes [((ret, 0), ?w), ((r, 0), 2 * ?w)] h3 h4"
      "wval (words_at h4 (ret, 0) ?w) < bn_nat n"
      "(wval (words_at h4 (ret, 0) ?w) * 2 ^ (64 * ?w)) mod bn_nat n = bn_nat (h r) mod bn_nat n"
      using from_montgomery_in_place_spec [where h = h3 and mont = mont and a = "(r, 0)" and r = "(ret, 0)" and ok = e4 and h' = h4]
        assms(7) by (simp_all add: n3 T)
    have "width (h4 ret) = ?w" "\<not> neg (h4 ret)" "width (h4 ret) \<le> dmax (h4 ret)"
      using res(2) we(3) [OF that(2)] by (simp_all add: only_writes_def h3_def)
    moreover have "h4 p = h p" if "p \<noteq> ret" "p \<noteq> r" for p
      using only_writes_other [OF res(2), of p] other [of p] rs(2) [of p] that by simp
    ultimately show ?thesis using res bn_nat_words [of h4 ret] by (simp add: bn_ok_def)
  qed
  have e2_iff: "e2 \<longleftrightarrow> \<not> cannot_expand g (h ret) ?w" using we(1) h1(1) by simp
  show "ok \<longleftrightarrow> \<not> cannot_expand g (h r) (2 * width n) \<and> \<not> cannot_expand g (h ret) (width n)"
    using code(1) run e1_iff e2_iff by blast
  show "h' p = h p" if "p \<noteq> ret" "p \<noteq> r" for p
    using code(2) run rs(2) [of p] we(6) [of p] that by (cases e1; cases e2) simp_all
  show "ok \<Longrightarrow> bn_ok (h' ret) \<and> \<not> neg (h' ret) \<and> width (h' ret) = width n \<and> bn_nat (h' ret) < bn_nat n \<and>
      (bn_nat (h' ret) * 2 ^ (64 * width n)) mod bn_nat n = bn_nat (h r) mod bn_nat n"
    using code run by simp
qed

section \<open>What is promised\<close>

text \<open>C34: addition and subtraction modulo a number, without a branch. For operands below the modulus
  \<open>bn_mod_add_words\<close> stores the sum and \<open>bn_mod_sub_words\<close> the difference modulo the modulus, also where the
  result is an operand; only the result and the scratch space are written.\<close>

theorem mod_words_exact:
  assumes "ahead r a n" "ahead r b n" "clear_of r n m n" "clear_of tmp n r n" "clear_of tmp n m n"
    and "in_array h r n" "in_array h a n" "in_array h b n" "in_array h m n" "in_array h tmp n"
    and "wval (words_at h a n) < wval (words_at h m n)" "wval (words_at h b n) < wval (words_at h m n)"
  shows "let A = int (wval (words_at h a n)); B = int (wval (words_at h b n)); M = int (wval (words_at h m n));
      s = bn_mod_add_words h r a b m tmp n; t = bn_mod_sub_words h r a b m tmp n
    in int (wval (words_at s r n)) = (A + B) mod M \<and> only_writes [(r, n), (tmp, n)] h s \<and>
       int (wval (words_at t r n)) = (A - B) mod M \<and> only_writes [(r, n), (tmp, n)] h t"
proof -
  note add = mod_add_words_spec [OF assms] and sub = mod_sub_words_spec [OF assms]
  let ?A = "wval (words_at h a n)" and ?B = "wval (words_at h b n)" and ?M = "wval (words_at h m n)"
  have "int (?A + ?M - ?B) = int ?A - int ?B + int ?M" using assms(12) by simp
  then have "int ((?A + ?M - ?B) mod ?M) = (int ?A - int ?B) mod int ?M" by (simp add: zmod_int)
  then show ?thesis using add sub by (simp add: Let_def zmod_int)
qed

definition mod_store :: bns where
  "mod_store = (\<lambda>p. \<lparr>d = [[3, 0], [4, 0], [7, 0], [0, 0]] ! p, width = 1, neg = False, static_data = False\<rparr>)"

theorem mod_words_exact_witness:
  "wval (words_at (bn_mod_sub_words mod_store (0, 0) (0, 0) (1, 0) (2, 0) (3, 0) 1) (0, 0) 1) = 6"
  using mod_words_exact [where h = mod_store and r = "(0, 0)" and a = "(0, 0)" and b = "(1, 0)" and m = "(2, 0)"
      and tmp = "(3, 0)" and n = 1]
  by (simp add: mod_store_def clear_of_def ahead_def in_array_def words_at_def Let_def)

text \<open>C35: the word that \<open>bn_mont_n0\<close> computes with shifts and additions, 64 rounds without a branch, is the
  negative inverse of an odd number modulo 2 to the 64.\<close>

theorem mont_n0_exact:
  assumes "bn_ok b" "odd (bn_int b)"
  shows "(unat (bn_mont_n0 b) * bn_nat b + 1) mod 2 ^ 64 = 0"
proof -
  have b: "width b \<le> dmax b" "odd (bn_nat b)" using assms by (auto simp: bn_ok_def bn_int_def split: if_splits)
  note n0 = mont_n0_spec [OF b]
  have "(of_nat (unat (bn_mont_n0 b) * bn_nat b + 1) :: u64) = bn_mont_n0 b * d b ! 0 + 1"
    using low_word_bn [OF b(1) n0(1)] by simp
  also have "\<dots> = 0" unfolding n0(2) by simp
  finally show ?thesis by (simp only: word_of_nat_eq_0_iff len_num1 len_num0 len_bit0 dvd_eq_mod_eq_0) simp
qed

theorem mont_n0_exact_witness:
  "(unat (bn_mont_n0 (mod_store 2)) * 7 + 1) mod 2 ^ 64 = 0"
  using mont_n0_exact [of "mod_store 2"] by (simp add: mod_store_def bn_ok_def bn_int_def bn_nat_def)

text \<open>C36: a context and the reduction with it. \<open>bn_mont_ctx_set_N_and_n0\<close> stores the modulus, which it
  accepts if it is positive and odd, and \<open>BN_from_montgomery_word\<close> then turns a number below the modulus
  times R (2 to the power of the bits in the words of the modulus) into the number below the modulus that times R is
  congruent to it; it fails only if the words cannot be had, and changes no third number.\<close>

theorem montgomery_exact:
  assumes "bn_ok (h md)" "bn_ok (h (mont_N mont))"
    and set: "bn_mont_ctx_set_N_and_n0 g junk h mont md = (True, h1, mont1)"
    and "bn_ok (h r)" "\<not> neg (h r)" "bn_ok (h ret)" "distinct [ret, r, mont_N mont]"
  defines "w \<equiv> width (h1 (mont_N mont))"
  assumes "bn_int (h r) < bn_int (h md) * 2 ^ (64 * w)"
  shows "bn_int (h1 (mont_N mont)) = bn_int (h md) \<and>
    (case BN_from_montgomery_word g junk h1 ret r mont1 of (ok, h2) \<Rightarrow>
      (ok \<longleftrightarrow> \<not> cannot_expand g (h r) (2 * w) \<and> \<not> cannot_expand g (h ret) w) \<and>
      (ok \<longrightarrow> 0 \<le> bn_int (h2 ret) \<and> bn_int (h2 ret) < bn_int (h md) \<and> width (h2 ret) = w \<and>
        (bn_int (h2 ret) * 2 ^ (64 * w)) mod bn_int (h md) = bn_int (h r) mod bn_int (h md)) \<and>
      (\<forall>p. p \<noteq> ret \<longrightarrow> p \<noteq> r \<longrightarrow> h2 p = h1 p))"
proof -
  have fit: "width (h (mont_N mont)) \<le> dmax (h (mont_N mont))" using assms(2) by (simp add: bn_ok_def)
  note sN = set_N_spec [where h = h and mont = mont, OF assms(1) fit set]
  have rdy: "mont_ready h1 mont1" and v: "bn_int (h1 (mont_N mont)) = bn_int (h md)" using sN(2,6) by simp_all
  have ne: "ret \<noteq> mont_N mont" "r \<noteq> mont_N mont" using assms(7) by simp_all
  have same: "h1 r = h r" "h1 ret = h ret" using sN(4) ne by simp_all
  have md: "bn_int (h md) = int (bn_nat (h1 (mont_N mont)))" using v rdy sN(2) by (simp add: bn_int_def mont_ready_def Let_def)
  have r: "bn_int (h r) = int (bn_nat (h r))" using assms(5) by (simp add: bn_int_def)
  have "int (bn_nat (h r)) < int (bn_nat (h1 (mont_N mont)) * 2 ^ (64 * w))" using assms(9) unfolding md r by simp
  then have lt: "bn_nat (h1 r) < bn_nat (h1 (mont_N mont1)) * 2 ^ (64 * width (h1 (mont_N mont1)))"
    unfolding same sN(2) w_def by (simp only: of_nat_less_iff)
  obtain ok h2 where run: "BN_from_montgomery_word g junk h1 ret r mont1 = (ok, h2)" by fastforce
  have dist: "distinct [ret, r, mont_N mont1]" using assms(7) by (simp add: sN(2))
  note fm = from_montgomery_word_spec [where h = h1 and mont = mont1 and r = r and ret = ret, OF rdy _ _ _ dist lt run,
      unfolded same sN(2), OF assms(4,5,6)]
  have "ok \<longleftrightarrow> \<not> cannot_expand g (h r) (2 * w) \<and> \<not> cannot_expand g (h ret) w" using fm(1) by (simp only: w_def)
  moreover have "0 \<le> bn_int (h2 ret) \<and> bn_int (h2 ret) < bn_int (h md) \<and> width (h2 ret) = w \<and>
      (bn_int (h2 ret) * 2 ^ (64 * w)) mod bn_int (h md) = bn_int (h r) mod bn_int (h md)" if "ok"
  proof -
    note f = fm(3) [OF that]
    have "int ((bn_nat (h2 ret) * 2 ^ (64 * w)) mod bn_nat (h1 (mont_N mont))) = int (bn_nat (h r) mod bn_nat (h1 (mont_N mont)))"
      using f by (simp only: w_def)
    then have "(int (bn_nat (h2 ret)) * 2 ^ (64 * w)) mod int (bn_nat (h1 (mont_N mont))) =
        int (bn_nat (h r)) mod int (bn_nat (h1 (mont_N mont)))"
      by (simp only: of_nat_mod of_nat_mult of_nat_power of_nat_numeral)
    then show ?thesis unfolding md r using f by (simp add: bn_int_def w_def)
  qed
  moreover have "\<forall>p. p \<noteq> ret \<longrightarrow> p \<noteq> r \<longrightarrow> h2 p = h1 p" using fm(2) by blast
  ultimately show ?thesis using v by (simp add: run)
qed

theorem montgomery_exact_witness:
  "\<exists>h1 mont1 h2. bn_mont_ctx_set_N_and_n0 (\<lambda>_. True) (\<lambda>_. 0) mod_store \<lparr>mont_RR = 4, mont_N = 1, mont_n0 = (0, 0)\<rparr> 2 =
      (True, h1, mont1) \<and> BN_from_montgomery_word (\<lambda>_. True) (\<lambda>_. 0) h1 3 0 mont1 = (True, h2) \<and>
    (bn_int (h2 3) * 2 ^ 64) mod 7 = 3"
proof -
  let ?mont = "\<lparr>mont_RR = 4, mont_N = 1, mont_n0 = (0, 0)\<rparr> :: bn_mont_ctx"
  have st: "bn_ok (mod_store p)" "neg (mod_store p) = False" if "p < 4" for p
  proof -
    have "p \<in> {0, 1, 2, 3}" using that by auto
    then show "bn_ok (mod_store p)" "neg (mod_store p) = False" by (auto simp: mod_store_def bn_ok_def)
  qed
  have fit: "width (mod_store (mont_N ?mont)) \<le> dmax (mod_store (mont_N ?mont))" by (simp add: mod_store_def)
  obtain ok h1 mont1 where s: "bn_mont_ctx_set_N_and_n0 (\<lambda>_. True) (\<lambda>_. 0) mod_store ?mont 2 = (ok, h1, mont1)"
    by (metis prod_cases3)
  have st: "bn_ok (mod_store 0)" "bn_ok (mod_store 1)" "bn_ok (mod_store 2)" "bn_ok (mod_store 3)" "\<not> neg (mod_store 0)"
    using st by simp_all
  note sN = set_N_spec [where h = mod_store and mont = ?mont, OF st(3) fit s]
  have ok: "ok = True" using sN(1) by (simp add: mod_store_def bn_int_def bn_nat_def cannot_expand_def)
  have "width (h1 1) = 1"
    using s ok by (auto simp: bn_mont_ctx_set_N_and_n0_def BN_copy_def bn_wexpand_def mod_store_def bn_set_minimal_width_def
        bn_minimal_width_def blit_def Let_def split: if_splits)
  then show ?thesis
    using montgomery_exact [where h = mod_store and mont = ?mont and md = 2 and r = 0 and ret = 3, OF st(3) _ s [unfolded ok] st(1,5,4)] st s ok
    by (auto simp: mod_store_def bn_int_def bn_nat_def cannot_expand_def split: prod.splits)
qed

end
