(* ===== verification/Bn_Mul.thy ===== *)
theory Bn_Mul
  imports Bn_Comba Bn_Shift Bn_Frame
begin

unbundle bit_operations_syntax

text \<open>
  Products and squares of arrays of words, \<^verbatim>\<open>crypto/fipsmodule/bn/mul.c\<close>: the schoolbook method and
  Karatsuba's, which splits the operands and works in scratch space that the caller provides. The functions
  on whole numbers that need temporary numbers are in \<open>Bn_Product\<close>.
\<close>

section \<open>The code\<close>

definition bn_abs_sub_words :: "bns \<Rightarrow> words_ptr \<Rightarrow> words_ptr \<Rightarrow> words_ptr \<Rightarrow> nat \<Rightarrow> words_ptr \<Rightarrow> bns" where
  "bn_abs_sub_words h r a b num tmp =
    (let (h, borrow) = bn_sub_words h tmp a b num;
         (h, _) = bn_sub_words h r b a num
     in bn_select_words h r (0 - borrow) r tmp num)"

text \<open>A row of the schoolbook product, and its loop: four rows in a round.\<close>

definition mul_row :: "words_ptr \<Rightarrow> words_ptr \<Rightarrow> words_ptr \<Rightarrow> nat \<Rightarrow> words_ptr \<Rightarrow> nat \<Rightarrow> bns \<Rightarrow> bns" where
  "mul_row r rr a na b k h =
    (let (h, c) = bn_mul_add_words h (ptr_add r k) a na (word_at h b k) in set_word h rr k c)"

function mul_rows :: "bns \<Rightarrow> words_ptr \<Rightarrow> words_ptr \<Rightarrow> words_ptr \<Rightarrow> nat \<Rightarrow> words_ptr \<Rightarrow> nat \<Rightarrow> bns" where
  "mul_rows h r rr a na b nb =
    (let nb = nb - 1 in
     if nb = 0 then h else
     let h = mul_row r rr a na b 1 h; nb = nb - 1 in
     if nb = 0 then h else
     let h = mul_row r rr a na b 2 h; nb = nb - 1 in
     if nb = 0 then h else
     let h = mul_row r rr a na b 3 h; nb = nb - 1 in
     if nb = 0 then h else
     let h = mul_row r rr a na b 4 h
     in mul_rows h (ptr_add r 4) (ptr_add rr 4) a na (ptr_add b 4) nb)"
  by pat_completeness auto
termination
  by (relation "measure (\<lambda>(_, _, _, _, _, _, nb). nb)") auto

declare mul_rows.simps [simp del]

definition bn_mul_normal :: "bns \<Rightarrow> words_ptr \<Rightarrow> words_ptr \<Rightarrow> nat \<Rightarrow> words_ptr \<Rightarrow> nat \<Rightarrow> bns" where
  "bn_mul_normal h r a na b nb =
    (let (a, na, b, nb) = (if na < nb then (b, nb, a, na) else (a, na, b, nb));
         rr = ptr_add r na
     in if nb = 0 then zero_words h r na
        else let (h, c) = bn_mul_words h r a na (word_at h b 0);
                 h = set_word h rr 0 c
             in mul_rows h r rr a na b nb)"

text \<open>The difference of numbers of different lengths: \<open>cl\<close> words are common, and \<open>dl\<close> is the length of \<open>a\<close>
  less that of \<open>b\<close>.\<close>

definition bn_sub_part_words :: "bns \<Rightarrow> words_ptr \<Rightarrow> words_ptr \<Rightarrow> words_ptr \<Rightarrow> nat \<Rightarrow> int \<Rightarrow> bns \<times> u64" where
  "bn_sub_part_words h r a b cl dl =
    (let (h, borrow) = bn_sub_words h r a b cl in
     if dl = 0 then (h, borrow)
     else let r = ptr_add r cl; a = ptr_add a cl; b = ptr_add b cl in
     if dl < 0 then
       fold (\<lambda>i (h, borrow).
           let h = set_word h r i (0 - word_at h b i - borrow);
               borrow = borrow OR (if word_at h r i \<noteq> 0 then 1 else 0)
           in (h, borrow)) [0..<nat (- dl)] (h, borrow)
     else
       fold (\<lambda>i (h, borrow).
           let tmp = word_at h a i;
               h = set_word h r i (word_at h a i - borrow);
               borrow = (if tmp < word_at h r i then 1 else 0)
           in (h, borrow)) [0..<nat dl] (h, borrow))"

definition bn_abs_sub_part_words ::
  "bns \<Rightarrow> words_ptr \<Rightarrow> words_ptr \<Rightarrow> words_ptr \<Rightarrow> nat \<Rightarrow> int \<Rightarrow> words_ptr \<Rightarrow> bns \<times> u64" where
  "bn_abs_sub_part_words h r a b cl dl tmp =
    (let (h, borrow) = bn_sub_part_words h tmp a b cl dl;
         (h, _) = bn_sub_part_words h r b a cl (- dl);
         r_len = cl + (if dl < 0 then nat (- dl) else nat dl);
         borrow = 0 - borrow
     in (bn_select_words h r borrow r tmp r_len, borrow))"

text \<open>The carry that runs to the end of the result.\<close>

definition carry_on :: "bns \<Rightarrow> words_ptr \<Rightarrow> nat \<Rightarrow> nat \<Rightarrow> u64 \<Rightarrow> bns \<times> u64" where
  "carry_on h r i n c =
    fold (\<lambda>i (h, c).
        let old = word_at h r i;
            h = set_word h r i (old + c);
            c = (if word_at h r i < old then 1 else 0)
        in (h, c)) [i..<n] (h, c)"

text \<open>The end of both recursive products: the three products are put together.\<close>

definition combine_products :: "bns \<Rightarrow> words_ptr \<Rightarrow> words_ptr \<Rightarrow> nat \<Rightarrow> nat \<Rightarrow> u64 \<Rightarrow> bns" where
  "combine_products h r t n n2 negm =
    (let (h, c) = bn_add_words h t r (ptr_add r n2) n2;
         (h, borrow) = bn_sub_words h (ptr_add t (n2 * 2)) t (ptr_add t n2) n2;
         c_neg = c - borrow;
         (h, carry) = bn_add_words h (ptr_add t n2) t (ptr_add t n2) n2;
         c_pos = c + carry;
         h = bn_select_words h (ptr_add t n2) negm (ptr_add t (n2 * 2)) (ptr_add t n2) n2;
         c = constant_time_select_w negm c_neg c_pos;
         (h, carry) = bn_add_words h (ptr_add r n) (ptr_add r n) (ptr_add t n2) n2;
         c = c + carry
     in fst (carry_on h r (n + n2) (n2 + n2) c))"

function bn_mul_recursive :: "bns \<Rightarrow> words_ptr \<Rightarrow> words_ptr \<Rightarrow> words_ptr \<Rightarrow> nat \<Rightarrow> int \<Rightarrow> int \<Rightarrow> words_ptr \<Rightarrow> bns" where
  "bn_mul_recursive h r a b n2 dna dnb t =
    (if n2 = 8 \<and> dna = 0 \<and> dnb = 0 then bn_mul_comba8 h r a b
     else if n2 < 16 then
       let h = bn_mul_normal h r a (nat (int n2 + dna)) b (nat (int n2 + dnb))
       in if dna + dnb < 0 then zero_words h (ptr_add r (nat (2 * int n2 + dna + dnb))) (nat (- (dna + dnb))) else h
     else
       let n = n2 div 2; tna = int n + dna; tnb = int n + dnb;
           (h, neg0) = bn_abs_sub_part_words h t a (ptr_add a n) (nat tna) (int n - tna) (ptr_add t n2);
           (h, neg1) = bn_abs_sub_part_words h (ptr_add t n) (ptr_add b n) b (nat tnb) (tnb - int n) (ptr_add t n2);
           negm = neg0 XOR neg1;
           h = (if n = 4 \<and> dna = 0 \<and> dnb = 0 then
                  bn_mul_comba4 (bn_mul_comba4 (bn_mul_comba4 h (ptr_add t n2) t (ptr_add t n)) r a b)
                    (ptr_add r n2) (ptr_add a n) (ptr_add b n)
                else if n = 8 \<and> dna = 0 \<and> dnb = 0 then
                  bn_mul_comba8 (bn_mul_comba8 (bn_mul_comba8 h (ptr_add t n2) t (ptr_add t n)) r a b)
                    (ptr_add r n2) (ptr_add a n) (ptr_add b n)
                else
                  let p = ptr_add t (n2 * 2);
                      h = bn_mul_recursive h (ptr_add t n2) t (ptr_add t n) n 0 0 p;
                      h = bn_mul_recursive h r a b n 0 0 p
                  in bn_mul_recursive h (ptr_add r n2) (ptr_add a n) (ptr_add b n) n dna dnb p)
       in combine_products h r t n n2 negm)"
  by pat_completeness auto
termination
  by (relation "measure (\<lambda>(_, _, _, _, n2, _). n2)") auto

declare bn_mul_recursive.simps [simp del]

text \<open>\<^verbatim>\<open>OPENSSL_memset\<close> of so many bytes, on a little-endian machine.\<close>

definition zero_bytes :: "bns \<Rightarrow> words_ptr \<Rightarrow> nat \<Rightarrow> bns" where
  "zero_bytes h p k =
    (let h = zero_words h p (k div 8)
     in if k mod 8 = 0 then h
        else set_word h p (k div 8) (word_at h p (k div 8) AND NOT (mask (8 * (k mod 8)))))"

text \<open>The largest of the halves of \<open>i\<close> that is not longer than the rest of the longer operand, and whether
  there is more than it.\<close>

function halve_until :: "nat \<Rightarrow> nat \<Rightarrow> nat \<Rightarrow> bool \<times> nat" where
  "halve_until i tna tnb =
    (let i = i div 2
     in if i < tna \<or> i < tnb then (True, i)
        else if i = tna \<or> i = tnb then (False, i)
        else halve_until i tna tnb)"
  by pat_completeness auto
termination
  by (relation "measure (\<lambda>(i, _). i)") auto

declare halve_until.simps [simp del]

lemma halve_until_less: "(m, j) = halve_until i tna tnb \<Longrightarrow> 0 < i \<Longrightarrow> j < i"
proof (induction i tna tnb arbitrary: m j rule: halve_until.induct)
  case (1 i tna tnb)
  then show ?case
    by (subst (asm) (2) halve_until.simps) (fastforce simp: Let_def split: if_splits)
qed

function bn_mul_part_recursive :: "bns \<Rightarrow> words_ptr \<Rightarrow> words_ptr \<Rightarrow> words_ptr \<Rightarrow> nat \<Rightarrow> nat \<Rightarrow> nat \<Rightarrow> words_ptr \<Rightarrow> bns" where
  "bn_mul_part_recursive h r a b n tna tnb t =
    (let n2 = n * 2 in
     if n < 8 then
       let h = bn_mul_normal h r a (n + tna) b (n + tnb)
       in zero_bytes h (ptr_add r (n2 + tna + tnb)) (n2 - tna - tnb)
     else
       let (h, neg0) = bn_abs_sub_part_words h t a (ptr_add a n) tna (int n - int tna) (ptr_add t n2);
           (h, neg1) = bn_abs_sub_part_words h (ptr_add t n) (ptr_add b n) b tnb (int tnb - int n) (ptr_add t n2);
           negm = neg0 XOR neg1;
           h = (if n = 8 then
                  let h = bn_mul_comba8 (bn_mul_comba8 h (ptr_add t n2) t (ptr_add t n)) r a b;
                      h = bn_mul_normal h (ptr_add r n2) (ptr_add a n) tna (ptr_add b n) tnb
                  in zero_words h (ptr_add r (n2 + tna + tnb)) (n2 - tna - tnb)
                else
                  let p = ptr_add t (n2 * 2);
                      h = bn_mul_recursive h (ptr_add t n2) t (ptr_add t n) n 0 0 p;
                      h = bn_mul_recursive h r a b n 0 0 p;
                      h = zero_words h (ptr_add r n2) n2
                  in if tna < 16 \<and> tnb < 16 then bn_mul_normal h (ptr_add r n2) (ptr_add a n) tna (ptr_add b n) tnb
                     else let (more, i) = halve_until n tna tnb
                          in if more then bn_mul_part_recursive h (ptr_add r n2) (ptr_add a n) (ptr_add b n) i (tna - i) (tnb - i) p
                             else bn_mul_recursive h (ptr_add r n2) (ptr_add a n) (ptr_add b n) i
                                    (int tna - int i) (int tnb - int i) p)
       in combine_products h r t n n2 negm)"
  by pat_completeness auto
termination
  by (relation "measure (\<lambda>(_, _, _, _, n, _). n)") (auto dest: halve_until_less)

declare bn_mul_part_recursive.simps [simp del]

definition bn_mul_small :: "bns \<Rightarrow> words_ptr \<Rightarrow> nat \<Rightarrow> words_ptr \<Rightarrow> nat \<Rightarrow> words_ptr \<Rightarrow> nat \<Rightarrow> bns option" where
  "bn_mul_small h r num_r a num_a b num_b =
    (if num_r \<noteq> num_a + num_b then None
     else if num_a = 8 \<and> num_b = 8 then Some (bn_mul_comba8 h r a b)
     else Some (bn_mul_normal h r a num_a b num_b))"

text \<open>The square: the products of different words, doubled, and the squares of the words. The pointers into
  \<open>r\<close> and \<open>a\<close> move on by two words and one word.\<close>

definition sqr_rows :: "bns \<Rightarrow> words_ptr \<Rightarrow> words_ptr \<Rightarrow> nat \<Rightarrow> bns" where
  "sqr_rows h rp ap n =
    fst (fold (\<lambda>i (h, rp, ap).
        let ap = ptr_add ap 1;
            (h, c) = bn_mul_add_words h rp ap i (word_at h (fst ap, snd ap - 1) 0)
        in (set_word h rp i c, ptr_add rp 2, ap)) (rev [1..<n - 1]) (h, rp, ap))"

definition bn_sqr_normal :: "bns \<Rightarrow> words_ptr \<Rightarrow> words_ptr \<Rightarrow> nat \<Rightarrow> words_ptr \<Rightarrow> bns" where
  "bn_sqr_normal h r a n tmp =
    (if n = 0 then h
     else let mx = n * 2;
              h = set_word (set_word h r (mx - 1) 0) r 0 0;
              rp = ptr_add r 1;
              (h, rp, ap) = (if 1 < n then
                  let ap = ptr_add a 1;
                      (h, c) = bn_mul_words h rp ap (n - 1) (word_at h (fst ap, snd ap - 1) 0)
                  in (set_word h rp (n - 1) c, ptr_add rp 2, ap) else (h, rp, a));
              h = (if 2 < n then sqr_rows h rp ap n else h);
              (h, _) = bn_add_words h r r r mx;
              h = bn_sqr_words h tmp a n
          in fst (bn_add_words h r r tmp mx))"

function bn_sqr_recursive :: "bns \<Rightarrow> words_ptr \<Rightarrow> words_ptr \<Rightarrow> nat \<Rightarrow> words_ptr \<Rightarrow> bns" where
  "bn_sqr_recursive h r a n2 t =
    (if n2 = 4 then bn_sqr_comba4 h r a
     else if n2 = 8 then bn_sqr_comba8 h r a
     else if n2 < 16 then bn_sqr_normal h r a n2 t
     else
       let n = n2 div 2; t_recursive = ptr_add t (n2 * 2);
           h = bn_abs_sub_words h t a (ptr_add a n) n (ptr_add t n);
           h = bn_sqr_recursive h (ptr_add t n2) t n t_recursive;
           h = bn_sqr_recursive h r a n t_recursive;
           h = bn_sqr_recursive h (ptr_add r n2) (ptr_add a n) n t_recursive;
           (h, c) = bn_add_words h t r (ptr_add r n2) n2;
           (h, borrow) = bn_sub_words h (ptr_add t n2) t (ptr_add t n2) n2;
           c = c - borrow;
           (h, carry) = bn_add_words h (ptr_add r n) (ptr_add r n) (ptr_add t n2) n2;
           c = c + carry
       in fst (carry_on h r (n + n2) (n2 + n2) c))"
  by pat_completeness auto
termination
  by (relation "measure (\<lambda>(_, _, _, n2, _). n2)") auto

declare bn_sqr_recursive.simps [simp del]

definition BN_mul_word :: "(nat \<Rightarrow> bool) \<Rightarrow> (nat \<Rightarrow> u64) \<Rightarrow> bns \<Rightarrow> nat \<Rightarrow> u64 \<Rightarrow> bool \<times> bns" where
  "BN_mul_word g junk h bn w =
    (if width (h bn) = 0 then (True, h)
     else if w = 0 then (True, BN_zero h bn)
     else let (h, ll) = bn_mul_words h (bn, 0) (bn, 0) (width (h bn)) w
          in if ll \<noteq> 0 then
               case bn_wexpand g junk h bn (width (h bn) + 1) of
                 (False, h) \<Rightarrow> (False, h)
               | (True, h) \<Rightarrow> (True, h(bn := (h bn)\<lparr>d := (d (h bn))[width (h bn) := ll], width := width (h bn) + 1\<rparr>))
             else (True, h))"

text \<open>\<^verbatim>\<open>bn_sqr_small\<close> works in an array of its own, here at \<open>tmp\<close>; \<^verbatim>\<open>BN_SMALL_MAX_WORDS\<close> is 9 with 64-bit
  words.\<close>

definition BN_SMALL_MAX_WORDS :: nat where "BN_SMALL_MAX_WORDS = 9"

definition bn_sqr_small :: "bns \<Rightarrow> words_ptr \<Rightarrow> nat \<Rightarrow> words_ptr \<Rightarrow> nat \<Rightarrow> words_ptr \<Rightarrow> bns option" where
  "bn_sqr_small h r num_r a num_a tmp =
    (if num_r \<noteq> 2 * num_a \<or> BN_SMALL_MAX_WORDS < num_a then None
     else if num_a = 4 then Some (bn_sqr_comba4 h r a)
     else if num_a = 8 then Some (bn_sqr_comba8 h r a)
     else Some (bn_sqr_normal h r a num_a tmp))"

section \<open>Products\<close>

text \<open>What a routine does that computes \<open>v\<close> into \<open>n\<close> words at \<open>r\<close>, with scratch space.\<close>

definition stores :: "range list \<Rightarrow> bns \<Rightarrow> words_ptr \<Rightarrow> nat \<Rightarrow> nat \<Rightarrow> bns \<Rightarrow> bool" where
  "stores rs h r n v h' \<longleftrightarrow> only_writes rs h h' \<and> wval (words_at h' r n) = v"

lemma storesD: "stores rs h r n v h' \<Longrightarrow> only_writes rs h h'" "stores rs h r n v h' \<Longrightarrow> wval (words_at h' r n) = v"
  by (simp_all add: stores_def)

lemma zero_words_spec:
  assumes "in_array h p n"
  shows "only_writes [(p, n)] h (zero_words h p n)" "wval (words_at (zero_words h p n) p n) = 0"
  using only_writes_put [of h p "replicate n 0"] words_at_put_words [of h p "replicate n 0"] assms
  by (simp_all add: zero_words_def)

lemma writes_product_stores:
  "writes_product h r a b n h' \<Longrightarrow> in_array h r (2 * n) \<Longrightarrow>
   stores [(r, 2 * n)] h r (2 * n) (wval (words_at h a n) * wval (words_at h b n)) h'"
  unfolding writes_product_def stores_def
  by (elim exE conjE) (metis only_writes_put words_at_put_words)

lemma comba_stores:
  assumes "in_array h r (2 * n)" "in_array h a n" "in_array h b n" "clear_of r (2 * n) a n" "clear_of r (2 * n) b n"
  shows "n = 8 \<Longrightarrow> stores [(r, 2 * n)] h r (2 * n) (wval (words_at h a n) * wval (words_at h b n)) (bn_mul_comba8 h r a b)"
    "n = 4 \<Longrightarrow> stores [(r, 2 * n)] h r (2 * n) (wval (words_at h a n) * wval (words_at h b n)) (bn_mul_comba4 h r a b)"
    "n = 8 \<Longrightarrow> stores [(r, 2 * n)] h r (2 * n) (wval (words_at h a n) * wval (words_at h a n)) (bn_sqr_comba8 h r a)"
    "n = 4 \<Longrightarrow> stores [(r, 2 * n)] h r (2 * n) (wval (words_at h a n) * wval (words_at h a n)) (bn_sqr_comba4 h r a)"
proof -
  note product = writes_product_stores [OF writes_product_comba]
  assume n: "n = 8"
  show "stores [(r, 2 * n)] h r (2 * n) (wval (words_at h a n) * wval (words_at h b n)) (bn_mul_comba8 h r a b)"
    unfolding n mul_comba_columns by (rule product [OF covers_columns(1)]) (use assms n in simp_all)
  show "stores [(r, 2 * n)] h r (2 * n) (wval (words_at h a n) * wval (words_at h a n)) (bn_sqr_comba8 h r a)"
    unfolding n sqr_comba_columns by (rule product [OF covers_columns(3)]) (use assms n in simp_all)
next
  note product = writes_product_stores [OF writes_product_comba]
  assume n: "n = 4"
  show "stores [(r, 2 * n)] h r (2 * n) (wval (words_at h a n) * wval (words_at h b n)) (bn_mul_comba4 h r a b)"
    unfolding n mul_comba_columns by (rule product [OF covers_columns(2)]) (use assms n in simp_all)
  show "stores [(r, 2 * n)] h r (2 * n) (wval (words_at h a n) * wval (words_at h a n)) (bn_sqr_comba4 h r a)"
    unfolding n sqr_comba_columns by (rule product [OF covers_columns(4)]) (use assms n in simp_all)
qed

subsection \<open>The schoolbook product\<close>

lemma mul_row_shift: "mul_row (ptr_add r m) (ptr_add rr m) a na (ptr_add b m) k = mul_row r rr a na b (m + k)"
  by (rule ext) (simp add: mul_row_def word_at_def set_word_def add.assoc)

lemma mul_rows_fold: "mul_rows h r rr a na b nb = fold (\<lambda>k. mul_row r rr a na b k) [1..<nb] h"
proof (induction h r rr a na b nb rule: mul_rows.induct)
  case (1 h r rr a na b nb)
  consider "nb \<le> 1" | "nb = 2" | "nb = 3" | "nb = 4" | "5 \<le> nb" by linarith
  then show ?case
  proof cases
    case 5
    define m where "m = nb - 5"
    have nb: "nb = 5 + m" using 5 by (simp add: m_def)
    let ?h = "mul_row r rr a na b 4 (mul_row r rr a na b 3 (mul_row r rr a na b 2 (mul_row r rr a na b 1 h)))"
    have "[1..<5 + m] = 1 # 2 # 3 # 4 # [5..<5 + m]"
    proof -
      have "[1..<5 + m] = [1..<5] @ [5..<5 + m]" by (rule upt_add_eq_append) simp
      moreover have "[1..<5] = [1, 2, 3, 4 :: nat]" by (simp add: upt_rec)
      ultimately show ?thesis by simp
    qed
    then have "fold (\<lambda>k. mul_row r rr a na b k) [1..<nb] h = fold (\<lambda>k. mul_row r rr a na b k) [5..<5 + m] ?h"
      unfolding nb by simp
    also have "\<dots> = fold (\<lambda>k. mul_row (ptr_add r 4) (ptr_add rr 4) a na (ptr_add b 4) k) [1..<1 + m] ?h"
      unfolding fold_upt_shift mul_row_shift by (simp add: add.assoc [symmetric])
    also have "\<dots> = mul_rows ?h (ptr_add r 4) (ptr_add rr 4) a na (ptr_add b 4) (nb - 1 - 1 - 1 - 1)"
      by (subst "1.IH" [OF refl]) (use 5 in \<open>simp_all (no_asm_use) add: nb\<close>, linarith+)
    also have "\<dots> = mul_rows h r rr a na b nb"
      using 5 by (subst (2) mul_rows.simps) (simp add: Let_def)
    finally show ?thesis by simp
  qed (subst mul_rows.simps; simp add: Let_def upt_rec numeral_eq_Suc)+
qed

lemma mul_row_spec:
  assumes "in_array h r (na + Suc k)" "in_array h a na" "in_array h b (Suc k)"
    and "clear_of r (na + Suc k) a na"
  defines "h' \<equiv> mul_row r (ptr_add r na) a na b k h"
  shows "only_writes [(r, na + Suc k)] h h'"
    "wval (words_at h' r (na + Suc k)) = wval (words_at h r (na + k)) + 2 ^ (64 * k) * (unat (word_at h b k) * wval (words_at h a na))"
proof -
  obtain h1 c where m: "bn_mul_add_words h (ptr_add r k) a na (word_at h b k) = (h1, c)" by fastforce
  have ah: "ahead (ptr_add r k) a na" using assms(4) by (auto simp: clear_of_def ahead_def)
  have i: "in_array h (ptr_add r k) na" using assms(1) by (simp add: in_array_def)
  note mul = mul_add_words_spec [OF ah i assms(2) m]
  have i1: "in_array h1 r (Suc (k + na))" using assms(1) only_writes_in_array [OF mul(1)] by (simp add: add.commute)
  have h': "h' = set_word h1 r (k + na) c"
    using m by (simp add: h'_def mul_row_def set_word_def add.commute add.left_commute)
  note set = set_word_spec' [OF i1, of c, folded h']
  have within: "within (ptr_add r k, na) (r, na + Suc k)" "within (ptr_add r (k + na), 1) (r, na + Suc k)"
    by (simp_all add: within_def)
  show "only_writes [(r, na + Suc k)] h h'"
    by (rule only_writes_step [OF only_writes_mono [OF mul(1)] set(1)]) (use within in simp_all)
  have low: "words_at h' r k = words_at h r k" "words_at h' (ptr_add r k) na = words_at h1 (ptr_add r k) na"
    using only_writes_words [OF set(1)] only_writes_words [OF mul(1)] by (simp_all add: clear_of_def)
  have i': "in_array h' r (k + na + Suc 0)" using i1 only_writes_in_array [OF set(1)] by simp
  have s: "wval (words_at h'' r (k + na)) = wval (words_at h'' r k) + 2 ^ (64 * k) * wval (words_at h'' (ptr_add r k) na)"
    if "in_array h'' r k" for h'' using wval_at_split [OF that] .
  have ik: "in_array h r k" "in_array h' r k" using assms(1) i' by (simp_all add: in_array_def)
  have "wval (words_at h' r (k + na + Suc 0)) =
      wval (words_at h' r (k + na)) + 2 ^ (64 * (k + na)) * unat c"
    unfolding wval_word_at [OF i'] set(2) by simp
  also have "\<dots> = wval (words_at h r k) + 2 ^ (64 * k) * (wval (words_at h1 (ptr_add r k) na) + 2 ^ (64 * na) * unat c)"
    unfolding s [OF ik(2)] low by (simp add: algebra_simps power_add)
  also have "\<dots> = wval (words_at h r (k + na)) + 2 ^ (64 * k) * (unat (word_at h b k) * wval (words_at h a na))"
    unfolding mul(2) s [OF ik(1)] by (simp add: algebra_simps)
  finally show "wval (words_at h' r (na + Suc k)) =
      wval (words_at h r (na + k)) + 2 ^ (64 * k) * (unat (word_at h b k) * wval (words_at h a na))"
    by (simp add: add.commute)
qed

lemma wval_at_Suc:
  "in_array h p (Suc k) \<Longrightarrow> wval (words_at h p (Suc k)) = wval (words_at h p k) + 2 ^ (64 * k) * unat (word_at h p k)"
  using wval_word_at [of h p k 0] by simp

lemma apart_one: "clear_of q m p n \<Longrightarrow> k < n \<Longrightarrow> clear_of q m (ptr_add p k) 1"
  by (auto simp: clear_of_def)

lemma mul_rows_spec:
  assumes "in_array h r (na + nb)" "in_array h a na" "in_array h b nb"
    and cl: "clear_of r (na + nb) a na" "clear_of r (na + nb) b nb"
    and "1 \<le> k" "k \<le> nb" "wval (words_at h r (na + 1)) = unat (word_at h b 0) * wval (words_at h a na)"
  defines "h' \<equiv> fold (\<lambda>k. mul_row r (ptr_add r na) a na b k) [1..<k] h"
  shows "only_writes [(r, na + nb)] h h' \<and>
    wval (words_at h' r (na + k)) = wval (words_at h b k) * wval (words_at h a na)"
  using assms(6,7) unfolding h'_def
proof (induction k rule: dec_induct)
  case base
  have "in_array h b (Suc 0)" using assms(3,6,7) by (simp add: in_array_def)
  then have "wval (words_at h b 1) = unat (word_at h b 0)" using words_at_1 [of h b] by simp
  then show ?case using assms(8) by simp
next
  case (step k)
  define h1 where "h1 = fold (\<lambda>k. mul_row r (ptr_add r na) a na b k) [1..<k] h"
  have inv: "only_writes [(r, na + nb)] h h1" "wval (words_at h1 r (na + k)) = wval (words_at h b k) * wval (words_at h a na)"
    using step by (simp_all add: h1_def)
  have i1: "in_array h1 r (na + nb)" "in_array h1 a na" "in_array h1 b nb"
    using assms(1-3) only_writes_in_array [OF inv(1)] by simp_all
  then have i: "in_array h1 r (na + Suc k)" "in_array h1 b (Suc k)" using step.prems by (simp_all add: in_array_def)
  have c: "clear_of r (na + Suc k) a na" using cl(1) step.prems by (auto simp: clear_of_def)
  note row = mul_row_spec [OF i(1) i1(2) i(2) c]
  have a1: "words_at h1 a na = words_at h a na" by (rule only_writes_words [OF inv(1)]) (simp add: cl)
  have b: "in_array h b (Suc k)" using assms(3) step.prems by (simp add: in_array_def)
  have b1: "word_at h1 b k = word_at h b k"
    by (rule only_writes_word [OF inv(1) _ b]) (use cl(2) step.prems apart_one [of r "na + nb" b nb k] in simp)
  have "only_writes [(r, na + nb)] h (mul_row r (ptr_add r na) a na b k h1)"
    by (rule only_writes_step [OF inv(1) row(1)]) (use step.prems in \<open>simp add: within_def\<close>)
  moreover have "wval (words_at (mul_row r (ptr_add r na) a na b k h1) r (na + Suc k)) =
      wval (words_at h b (Suc k)) * wval (words_at h a na)"
    unfolding row(2) inv(2) a1 b1 wval_at_Suc [OF b] by (simp add: algebra_simps)
  ultimately show ?case using step.hyps by (simp add: h1_def)
qed

lemma mul_normal_spec:
  assumes "in_array h r (na + nb)" "in_array h a na" "in_array h b nb"
    "clear_of r (na + nb) a na" "clear_of r (na + nb) b nb"
  shows "stores [(r, na + nb)] h r (na + nb) (wval (words_at h a na) * wval (words_at h b nb)) (bn_mul_normal h r a na b nb)"
proof -
  have *: "stores [(r, na + nb)] h r (na + nb) (wval (words_at h a na) * wval (words_at h b nb)) (bn_mul_normal h r a na b nb)"
    if "nb \<le> na" and as: "in_array h r (na + nb)" "in_array h a na" "in_array h b nb"
      "clear_of r (na + nb) a na" "clear_of r (na + nb) b nb" for a na b nb
  proof (cases "nb = 0")
    case True
    then show ?thesis using as that(1) zero_words_spec [of h r na] by (simp add: bn_mul_normal_def stores_def)
  next
    case False
    have ir: "in_array h r na" "in_array h r (Suc na)" using as(1) False by (simp_all add: in_array_def)
    have ah: "ahead r a na" using as(4) by (auto simp: clear_of_def ahead_def)
    obtain h1 c where m: "bn_mul_words h r a na (word_at h b 0) = (h1, c)" by fastforce
    note mul = mul_words_spec [OF ah ir(1) as(2) m]
    have i1: "in_array h1 r (Suc na)" using ir(2) only_writes_in_array [OF mul(1)] by simp
    define h2 where "h2 = set_word h1 (ptr_add r na) 0 c"
    have h2: "h2 = set_word h1 r na c" by (simp add: h2_def set_word_def)
    note set = set_word_spec' [OF i1, of c, folded h2]
    have w2: "only_writes [(r, na + nb)] h h2"
      by (rule only_writes_step [OF only_writes_mono [OF mul(1)] set(1)]) (use False in \<open>simp_all add: within_def\<close>)
    have i2: "in_array h2 r (na + nb)" "in_array h2 a na" "in_array h2 b nb"
      using as only_writes_in_array [OF w2] by simp_all
    then have "in_array h2 r (Suc na)" using False by (simp add: in_array_def)
    then have "wval (words_at h2 r (na + 1)) = wval (words_at h1 r na) + 2 ^ (64 * na) * unat c"
      using wval_at_Suc [of h2 r na] only_writes_words [OF set(1), of r na] set(2) by (simp add: clear_of_def)
    also have "\<dots> = unat (word_at h b 0) * wval (words_at h a na)" by (rule mul(2))
    finally have v2: "wval (words_at h2 r (na + 1)) = unat (word_at h b 0) * wval (words_at h a na)" .
    have b: "in_array h b (Suc 0)" using as(3) False by (simp add: in_array_def)
    have same: "words_at h2 a na = words_at h a na" "words_at h2 b nb = words_at h b nb" "word_at h2 b 0 = word_at h b 0"
      using only_writes_words [OF w2] only_writes_word [OF w2 _ b] as(4,5) False apart_one [of r "na + nb" b nb 0] by simp_all
    define h3 where "h3 = fold (\<lambda>k. mul_row r (ptr_add r na) a na b k) [1..<nb] h2"
    have "only_writes [(r, na + nb)] h2 h3 \<and> wval (words_at h3 r (na + nb)) = wval (words_at h2 b nb) * wval (words_at h2 a na)"
      unfolding h3_def
      by (rule mul_rows_spec [OF i2 as(4,5) _ order_refl]) (use False v2 in \<open>simp_all add: same\<close>)
    moreover have "bn_mul_normal h r a na b nb = h3"
      using False that(1) m by (simp add: bn_mul_normal_def mul_rows_fold h3_def h2_def Let_def)
    ultimately show ?thesis using only_writes_step [OF w2 _ covered_self] by (simp add: stores_def same mult.commute)
  qed
  show ?thesis
  proof (cases "nb \<le> na")
    case False
    then have "bn_mul_normal h r a na b nb = bn_mul_normal h r b nb a na" by (simp add: bn_mul_normal_def)
    then show ?thesis using * [of na nb b a] False assms by (simp add: add.commute mult.commute)
  qed (use * assms in blast)
qed

section \<open>Differences\<close>

text \<open>The rest of a subtraction where one operand has no more words.\<close>

lemma negate_step:
  fixes x c :: u64
  assumes "c = 0 \<or> c = 1"
  defines "c' \<equiv> c OR (if 0 - x - c \<noteq> 0 then 1 else 0)"
  shows "int (unat (0 - x - c)) - 2 ^ 64 * int (unat c') = - int (unat x) - int (unat c)" "c' = 0 \<or> c' = 1"
proof -
  have e: "c' = (if 0 \<noteq> x then (if 0 < x then 1 else 0) else c)"
  proof (cases "x = 0")
    case True
    then show ?thesis using assms(1) by (auto simp: c'_def)
  next
    case False
    then have "c = 1 \<or> 0 - x - c \<noteq> 0" using assms(1) by auto
    then have "c' = 1" using assms(1) by (auto simp: c'_def)
    then show ?thesis using False by (simp add: word_neq_0_conv)
  qed
  show "int (unat (0 - x - c)) - 2 ^ 64 * int (unat c') = - int (unat x) - int (unat c)" "c' = 0 \<or> c' = 1"
    using sub_step [OF assms(1), of 0 x] unfolding e by simp_all
qed

lemma borrow_step:
  fixes x c :: u64
  assumes "c = 0 \<or> c = 1"
  defines "c' \<equiv> (if x < x - c then 1 else 0 :: u64)"
  shows "int (unat (x - c)) - 2 ^ 64 * int (unat c') = int (unat x) - int (unat c)" "c' = 0 \<or> c' = 1"
proof -
  have e: "c' = (if x \<noteq> 0 then (if x < 0 then 1 else 0) else c)"
  proof (cases "c = 0")
    case False
    then have "c = 1" using assms(1) by simp
    moreover have "\<not> x < x - 1" if "x \<noteq> 0" using that by (simp add: word_less_nat_alt unat_minus_one)
    ultimately show ?thesis by (cases "x = 0") (simp_all add: c'_def word_greater_zero_iff)
  qed (simp add: c'_def)
  have "x - 0 - c = x - c" by simp
  then show "int (unat (x - c)) - 2 ^ 64 * int (unat c') = int (unat x) - int (unat c)" "c' = 0 \<or> c' = 1"
    using sub_step [OF assms(1), of x 0] unfolding e by simp_all
qed

text \<open>The loops read back what they have just stored.\<close>

lemma fold_cong_inv:
  assumes "P s" "\<And>i s. i \<in> set xs \<Longrightarrow> P s \<Longrightarrow> f i s = g i s \<and> P (g i s)"
  shows "fold f xs s = fold g xs s"
  using assms by (induction xs arbitrary: s) auto

lemma read_back:
  assumes "in_array h r n"
  shows "fold (\<lambda>i (h, c). let (w, k) = f c (word_at h a i); h = set_word h r i w in (h, e k (word_at h r i))) [0..<n] (h, c) =
    fold (\<lambda>i (h, c). let (w, k) = f c (word_at h a i) in (set_word h r i w, e k w)) [0..<n] (h, c)"
  by (rule fold_cong_inv [where P = "\<lambda>(h', _). dmax (h' (fst r)) = dmax (h (fst r))"])
    (use assms in \<open>auto simp: in_array_def set_word_def word_at_def Let_def split: prod.splits\<close>)

text \<open>A loop over one operand with a carry that counts \<open>p\<close> times.\<close>

lemma unary_loop:
  assumes "ahead r a n" "in_array h r n" "in_array h a n" "c = 0 \<or> c = 1"
    and step: "\<And>c x w c'. c = 0 \<or> c = 1 \<Longrightarrow> f c x = (w, c') \<Longrightarrow>
      (c' = 0 \<or> c' = 1) \<and> int (unat w) - 2 ^ 64 * int (unat c') = p * int (unat x) - int (unat c)"
    and run: "fold (\<lambda>i (h, c). let (w, c) = f c (word_at h a i) in (set_word h r i w, c)) [0..<n] (h, c) = (h', c')"
  shows "only_writes [(r, n)] h h'" "c' = 0 \<or> c' = (1 :: u64)"
    "int (wval (words_at h' r n)) - 2 ^ (64 * n) * int (unat c') = p * int (wval (words_at h a n)) - int (unat c)"
proof -
  define f3 where "f3 = (\<lambda>(c :: u64) x (y :: u64) (z :: u64). f c x)"
  have s: "(c' = 0 \<or> c' = 1) \<and> int (unat l) + 2 ^ 64 * (- int (unat c')) =
      p * int (unat x) + 0 * int (unat y) + 0 * int (unat z) + (- int (unat c))"
    if "c = 0 \<or> c = 1" "f3 c x y z = (l, c')" for c x y z l c'
    using step [OF that(1)] that(2) by (simp add: f3_def)
  obtain ws c2 where *: "fold (\<lambda>i (h, c). let (w, c) = f3 c (word_at h a i) (word_at h a i) (word_at h r i)
        in (set_word h r i w, c)) [0..<n] (h, c) = (put_words h r ws, c2)"
    "length ws = n" "c2 = 0 \<or> c2 = 1"
    "int (wval ws) + 2 ^ (64 * n) * (- int (unat c2)) =
      p * int (wval (words_at h a n)) + 0 * int (wval (words_at h a n)) + 0 * int (wval (words_at h r n))
      + (- int (unat c))"
    by (rule loop_value [where P = "\<lambda>c. c = 0 \<or> c = 1" and f = f3 and c = c and val = "\<lambda>c. - int (unat c)"
        and p = p and q = 0 and s = 0, OF assms(1,1,2,3,3) assms(4) s]) simp_all
  have h': "h' = put_words h r ws" "c' = c2" using run *(1) by (simp_all add: f3_def)
  have i: "in_array h r (length ws)" using assms(2) *(2) by simp
  show "only_writes [(r, n)] h h'" using only_writes_put [OF i] *(2) by (simp add: h')
  show "c' = 0 \<or> c' = 1" using *(3) by (simp add: h')
  have "words_at h' r n = ws" using words_at_put_words [OF i] *(2) by (simp add: h')
  then show "int (wval (words_at h' r n)) - 2 ^ (64 * n) * int (unat c') = p * int (wval (words_at h a n)) - int (unat c)"
    using *(4) by (simp add: h')
qed

lemma negate_loop:
  assumes "ahead r b n" "in_array h r n" "in_array h b n" "c = 0 \<or> c = 1"
    and run: "fold (\<lambda>i (h, borrow).
        let h = set_word h r i (0 - word_at h b i - borrow);
            borrow = borrow OR (if word_at h r i \<noteq> 0 then 1 else 0)
        in (h, borrow)) [0..<n] (h, c) = (h', c')"
  shows "only_writes [(r, n)] h h'" "c' = 0 \<or> c' = 1"
    "int (wval (words_at h' r n)) - 2 ^ (64 * n) * int (unat c') = - 1 * int (wval (words_at h b n)) - int (unat c)"
proof -
  define f where "f = (\<lambda>(c :: u64) x :: u64. (0 - x - c, c OR (if 0 - x - c \<noteq> 0 then 1 else 0 :: u64)))"
  have "fold (\<lambda>i (h, c). let (w, c) = f c (word_at h b i) in (set_word h r i w, c)) [0..<n] (h, c) = (h', c')"
    using run read_back [OF assms(2), of "\<lambda>c x. (0 - x - c, c)" b "\<lambda>k w. k OR (if w \<noteq> 0 then 1 else 0)" c]
    by (simp add: f_def Let_def)
  moreover have "(c' = 0 \<or> c' = 1) \<and> int (unat w) - 2 ^ 64 * int (unat c') = - 1 * int (unat x) - int (unat c)"
    if "c = 0 \<or> c = 1" "f c x = (w, c')" for c x w c'
    using negate_step [OF that(1), of x] that(2) by (auto simp: f_def)
  ultimately show "only_writes [(r, n)] h h'" "c' = 0 \<or> c' = 1"
    "int (wval (words_at h' r n)) - 2 ^ (64 * n) * int (unat c') = - 1 * int (wval (words_at h b n)) - int (unat c)"
    using unary_loop [OF assms(1-4), of f "- 1" h' c'] by blast+
qed

lemma minus_borrow_loop:
  assumes "ahead r a n" "in_array h r n" "in_array h a n" "c = 0 \<or> c = 1"
    and run: "fold (\<lambda>i (h, borrow).
        let tmp = word_at h a i;
            h = set_word h r i (word_at h a i - borrow);
            borrow = (if tmp < word_at h r i then 1 else 0)
        in (h, borrow)) [0..<n] (h, c) = (h', c')"
  shows "only_writes [(r, n)] h h'" "c' = 0 \<or> c' = 1"
    "int (wval (words_at h' r n)) - 2 ^ (64 * n) * int (unat c') = 1 * int (wval (words_at h a n)) - int (unat c)"
proof -
  define f where "f = (\<lambda>(c :: u64) x :: u64. (x - c, if x < x - c then 1 else 0 :: u64))"
  have "fold (\<lambda>i (h, c). let (w, c) = f c (word_at h a i) in (set_word h r i w, c)) [0..<n] (h, c) = (h', c')"
    using run read_back [OF assms(2), of "\<lambda>c x. (x - c, x)" a "\<lambda>k w. if k < w then 1 else 0" c]
    by (simp add: f_def Let_def)
  moreover have "(c' = 0 \<or> c' = 1) \<and> int (unat w) - 2 ^ 64 * int (unat c') = 1 * int (unat x) - int (unat c)"
    if "c = 0 \<or> c = 1" "f c x = (w, c')" for c x w c'
    using borrow_step [OF that(1), of x] that(2) by (auto simp: f_def)
  ultimately show "only_writes [(r, n)] h h'" "c' = 0 \<or> c' = 1"
    "int (wval (words_at h' r n)) - 2 ^ (64 * n) * int (unat c') = 1 * int (wval (words_at h a n)) - int (unat c)"
    using unary_loop [OF assms(1-4), of f 1 h' c'] by blast+
qed

lemma sub_part_spec:
  fixes cl :: nat and dl :: int
  defines "la \<equiv> cl + nat dl" and "lb \<equiv> cl + nat (- dl)" and "n \<equiv> cl + nat \<bar>dl\<bar>"
  assumes "ahead r a la" "ahead r b lb" "in_array h r n" "in_array h a la" "in_array h b lb"
    and rest: "0 < dl \<Longrightarrow> clear_of r cl (ptr_add a cl) (nat dl)" "dl < 0 \<Longrightarrow> clear_of r cl (ptr_add b cl) (nat (- dl))"
    and run: "bn_sub_part_words h r a b cl dl = (h', c)"
  shows "only_writes [(r, n)] h h'" "c = 0 \<or> c = 1"
    "int (wval (words_at h' r n)) = int (wval (words_at h a la)) - int (wval (words_at h b lb)) + 2 ^ (64 * n) * int (unat c)"
proof -
  obtain h1 c1 where s: "bn_sub_words h r a b cl = (h1, c1)" by fastforce
  have ah: "ahead r a cl" "ahead r b cl" using assms(4,5) by (auto simp: ahead_def la_def lb_def)
  have i: "in_array h r cl" "in_array h a cl" "in_array h b cl"
    using assms(6-8) by (simp_all add: in_array_def n_def la_def lb_def)
  note sub = sub_words_spec [OF ah i s]
  have v1: "int (wval (words_at h1 r cl)) = int (wval (words_at h a cl)) - int (wval (words_at h b cl)) + 2 ^ (64 * cl) * int (unat c1)"
    using arg_cong [OF sub(3), of int] by simp
  let ?r = "ptr_add r cl" and ?a = "ptr_add a cl" and ?b = "ptr_add b cl"
  define m where "m = nat \<bar>dl\<bar>"
  have n: "n = cl + m" by (simp add: n_def m_def)
  have ir: "in_array h1 ?r m"
      by (rule only_writes_in_array [OF sub(1), THEN iffD2]) (use assms(6) in \<open>simp add: in_array_def n\<close>)
  have keep: "words_at h1 (ptr_add r cl) m = words_at h (ptr_add r cl) m" for m
    by (rule only_writes_words [OF sub(1)]) (simp add: clear_of_def)
  have spl: "wval (words_at h p (cl + m)) = wval (words_at h p cl) + 2 ^ (64 * cl) * wval (words_at h (ptr_add p cl) m)"
    if "in_array h p cl" for h p m using wval_at_split [OF that] .
  text \<open>However the rest of the longer operand, of value \<open>x\<close>, is treated.\<close>
  have finish: "only_writes [(r, n)] h h' \<and> (c = 0 \<or> c = 1) \<and>
      int (wval (words_at h' r n)) = int (wval (words_at h a cl)) - int (wval (words_at h b cl)) + 2 ^ (64 * cl) * x
        + 2 ^ (64 * n) * int (unat c)"
    if "only_writes [(?r, m)] h1 h'" "c = 0 \<or> c = 1"
      "int (wval (words_at h' ?r m)) - 2 ^ (64 * m) * int (unat c) = x - int (unat c1)" for x
  proof -
    have w: "only_writes [(r, n)] h h'"
      by (rule only_writes_step [OF only_writes_mono [OF sub(1)] that(1)]) (simp_all add: within_def n)
    have low: "words_at h' r cl = words_at h1 r cl" by (rule only_writes_words [OF that(1)]) (simp add: clear_of_def)
    have "in_array h' r cl" using i(1) only_writes_in_array [OF w] by simp
    then have "int (wval (words_at h' r n)) = int (wval (words_at h1 r cl)) + 2 ^ (64 * cl) * int (wval (words_at h' ?r m))"
      using spl [of h' r m] by (simp add: n low)
    also have "\<dots> = int (wval (words_at h a cl)) - int (wval (words_at h b cl)) + 2 ^ (64 * cl) * (int (unat c1) + int (wval (words_at h' ?r m)))"
      unfolding v1 by (simp add: algebra_simps)
    also have "int (unat c1) + int (wval (words_at h' ?r m)) = x + 2 ^ (64 * m) * int (unat c)" using that(3) by linarith
    also have "2 ^ (64 * cl) * (x + 2 ^ (64 * m) * int (unat c)) = 2 ^ (64 * cl) * x + 2 ^ (64 * n) * int (unat c)"
      by (simp only: n distrib_left power_add mult.assoc)
    finally show ?thesis using w that(2) by (simp only: add.assoc)
  qed
  consider (same) "dl = 0" | (a_short) "dl < 0" | (b_short) "0 < dl" by linarith
  then have all: "only_writes [(r, n)] h h' \<and> (c = 0 \<or> c = 1) \<and>
    int (wval (words_at h' r n)) = int (wval (words_at h a la)) - int (wval (words_at h b lb)) + 2 ^ (64 * n) * int (unat c)"
  proof cases
    case same
    then have "h' = h1" "c = c1" using run s by (simp_all add: bn_sub_part_words_def)
    then show ?thesis using sub(1,2) v1 same by (simp add: n_def la_def lb_def)
  next
    case a_short
    then have m: "nat (- dl) = m" "nat dl = 0" by (simp_all add: m_def)
    have ib: "in_array h1 ?b m"
      by (rule only_writes_in_array [OF sub(1), THEN iffD2]) (use assms(8) in \<open>simp add: in_array_def lb_def m\<close>)
    have ahb: "ahead ?r ?b m" using assms(5) by (auto simp: ahead_def lb_def m)
    have b1: "words_at h1 ?b m = words_at h ?b m" by (rule only_writes_words [OF sub(1)]) (use rest(2) a_short in \<open>simp add: m\<close>)
    have l: "fold (\<lambda>i (h, borrow).
        let h = set_word h ?r i (0 - word_at h ?b i - borrow);
            borrow = borrow OR (if word_at h ?r i \<noteq> 0 then 1 else 0)
        in (h, borrow)) [0..<m] (h1, c1) = (h', c)"
      using run s a_short by (simp add: bn_sub_part_words_def m Let_def)
    note neg = negate_loop [OF ahb ir ib sub(2) l]
    have v: "int (wval (words_at h' ?r m)) - 2 ^ (64 * m) * int (unat c) = - int (wval (words_at h ?b m)) - int (unat c1)"
      using neg(3) unfolding b1 by simp
    have "int (wval (words_at h b lb)) = int (wval (words_at h b cl)) + 2 ^ (64 * cl) * int (wval (words_at h ?b m))"
      using spl [OF i(3), of m] unfolding lb_def m by simp
    moreover have "la = cl" by (simp add: la_def m)
    ultimately show ?thesis using finish [OF neg(1,2) v] by simp
  next
    case b_short
    then have m: "nat dl = m" "nat (- dl) = 0" by (simp_all add: m_def)
    have ia: "in_array h1 ?a m"
      by (rule only_writes_in_array [OF sub(1), THEN iffD2]) (use assms(7) in \<open>simp add: in_array_def la_def m\<close>)
    have aha: "ahead ?r ?a m" using assms(4) by (auto simp: ahead_def la_def m)
    have a1: "words_at h1 ?a m = words_at h ?a m" by (rule only_writes_words [OF sub(1)]) (use rest(1) b_short in \<open>simp add: m\<close>)
    have l: "fold (\<lambda>i (h, borrow).
        let tmp = word_at h ?a i;
            h = set_word h ?r i (word_at h ?a i - borrow);
            borrow = (if tmp < word_at h ?r i then 1 else 0)
        in (h, borrow)) [0..<m] (h1, c1) = (h', c)"
      using run s b_short by (simp add: bn_sub_part_words_def m Let_def)
    note bor = minus_borrow_loop [OF aha ir ia sub(2) l]
    have v: "int (wval (words_at h' ?r m)) - 2 ^ (64 * m) * int (unat c) = int (wval (words_at h ?a m)) - int (unat c1)"
      using bor(3) unfolding a1 by simp
    have "int (wval (words_at h a la)) = int (wval (words_at h a cl)) + 2 ^ (64 * cl) * int (wval (words_at h ?a m))"
      using spl [OF i(2), of m] unfolding la_def m by simp
    moreover have "lb = cl" by (simp add: lb_def m)
    ultimately show ?thesis using finish [OF bor(1,2) v] by simp
  qed
  show "only_writes [(r, n)] h h'" by (rule all [THEN conjunct1])
  show "c = 0 \<or> c = 1" by (rule all [THEN conjunct2, THEN conjunct1])
  show "int (wval (words_at h' r n)) = int (wval (words_at h a la)) - int (wval (words_at h b lb)) + 2 ^ (64 * n) * int (unat c)"
    by (rule all [THEN conjunct2, THEN conjunct2])
qed

definition nat_dist :: "nat \<Rightarrow> nat \<Rightarrow> nat" where
  "nat_dist x y = (if x < y then y - x else x - y)"

lemma borrow_sign:
  fixes A B T W c :: int
  assumes "T = A - B + W * c" "0 \<le> T" "T < W" "c = 0 \<or> c = 1" "0 \<le> A" "A < W" "0 \<le> B" "B < W"
  shows "c = (if A < B then 1 else 0)"
  using assms by (cases "c = 0") auto

lemma abs_sub_part_spec:
  fixes cl :: nat and dl :: int
  defines "la \<equiv> cl + nat dl" and "lb \<equiv> cl + nat (- dl)" and "n \<equiv> cl + nat \<bar>dl\<bar>"
  assumes ah: "ahead r a la" "ahead r b lb" and i: "in_array h r n" "in_array h a la" "in_array h b lb" "in_array h tmp n"
    and rest: "0 < dl \<Longrightarrow> clear_of r cl (ptr_add a cl) (nat dl)" "dl < 0 \<Longrightarrow> clear_of r cl (ptr_add b cl) (nat (- dl))"
    and tmp: "clear_of tmp n a la" "clear_of tmp n b lb" "clear_of tmp n r n"
    and run: "bn_abs_sub_part_words h r a b cl dl tmp = (h', ms)"
  shows "only_writes [(r, n), (tmp, n)] h h'"
    "ms = (if wval (words_at h a la) < wval (words_at h b lb) then - 1 else 0)"
    "wval (words_at h' r n) = nat_dist (wval (words_at h a la)) (wval (words_at h b lb))"
proof -
  define A B where "A = wval (words_at h a la)" and "B = wval (words_at h b lb)"
  obtain h1 c where s1: "bn_sub_part_words h tmp a b cl dl = (h1, c)" by fastforce
  obtain h2 c2 where s2: "bn_sub_part_words h1 r b a cl (- dl) = (h2, c2)" by fastforce
  have len: "la \<le> n" "lb \<le> n" "cl \<le> n" "n = cl + (if dl < 0 then nat (- dl) else nat dl)" by (auto simp: la_def lb_def n_def)
  have tah: "ahead tmp a la" "ahead tmp b lb" using tmp(1,2) len(1,2) by (auto simp: ahead_def clear_of_def)
  have trest: "clear_of tmp cl (ptr_add a cl) (nat dl)" if "0 < dl"
    using tmp(1) len(3) by (auto simp: clear_of_def la_def)
  have trest2: "clear_of tmp cl (ptr_add b cl) (nat (- dl))" if "dl < 0"
    using tmp(2) len(3) by (auto simp: clear_of_def lb_def)
  note sub1 = sub_part_spec [OF tah [unfolded la_def lb_def] i(4,2,3) [unfolded n_def la_def lb_def] trest trest2 s1,
      folded la_def lb_def n_def, folded A_def B_def]
  have a1: "words_at h1 a la = words_at h a la" "words_at h1 b lb = words_at h b lb"
    using only_writes_words [OF sub1(1)] tmp by simp_all
  have i1: "in_array h1 r n" "in_array h1 b lb" "in_array h1 a la" "in_array h1 tmp n"
    using i only_writes_in_array [OF sub1(1)] by simp_all
  have sub2: "only_writes [(r, n)] h1 h2" "c2 = 0 \<or> c2 = 1"
    "int (wval (words_at h2 r n)) = int B - int A + 2 ^ (64 * n) * int (unat c2)"
    using sub_part_spec [OF _ _ _ _ _ _ _ s2] ah i1 rest a1
    by (simp_all add: A_def B_def la_def lb_def n_def)
  have t2: "words_at h2 tmp n = words_at h1 tmp n"
    by (rule only_writes_words [OF sub2(1)]) (use tmp(3) in \<open>simp add: clear_of_sym\<close>)
  have "A < 2 ^ (64 * la)" "B < 2 ^ (64 * lb)" unfolding A_def B_def by (rule wval_at_bound)+
  then have AB: "A < 2 ^ (64 * n)" "B < 2 ^ (64 * n)"
    using len(1,2) by (auto elim!: less_le_trans intro!: power_increasing)
  have bound: "int (wval (words_at h'' p n)) < 2 ^ (64 * n)" for h'' p
    using wval_at_bound [of h'' p n] by (simp only: of_nat_less_iff [where ?'a = int, symmetric] of_nat_power of_nat_numeral)
  have ABi: "int A < 2 ^ (64 * n)" "int B < 2 ^ (64 * n)"
    using AB by (simp_all only: of_nat_less_iff [where ?'a = int, symmetric] of_nat_power of_nat_numeral)
  have c: "int (unat c) = (if int A < int B then 1 else 0)"
    by (rule borrow_sign [OF sub1(3) _ bound _ _ ABi(1) _ ABi(2)]) (use sub1(2) in auto)
  have c2: "int (unat c2) = (if int B < int A then 1 else 0)"
    by (rule borrow_sign [OF sub2(3) _ bound _ _ ABi(2) _ ABi(1)]) (use sub2(2) in auto)
  have cw: "c = (if A < B then 1 else 0)" using c sub1(2) by (auto split: if_splits)
  have e: "h' = bn_select_words h2 r (0 - c) r tmp n" "ms = 0 - c"
    using run s1 s2 by (auto simp: bn_abs_sub_part_words_def len(4) [symmetric] Let_def split del: if_split)
  have i2: "in_array h2 r n" "in_array h2 tmp n" using i1 only_writes_in_array [OF sub2(1)] by simp_all
  have c01: "0 - c = 0 \<or> 0 - c = - 1" using sub1(2) by auto
  have rt: "ahead r tmp n" using tmp(3) by (auto simp: clear_of_def ahead_def)
  note sel = select_words_spec [OF ahead_self rt i2(1,1,2) c01, folded e(1)]
  show "only_writes [(r, n), (tmp, n)] h h'"
    by (rule only_writes_step [OF only_writes_step [OF only_writes_mono [OF sub1(1)] sub2(1)] sel(1)]) simp_all
  show "ms = (if wval (words_at h a la) < wval (words_at h b lb) then - 1 else 0)"
    unfolding e(2) A_def [symmetric] B_def [symmetric] cw by simp
  have "wval (words_at h' r n) = nat_dist A B"
  proof (cases "A < B")
    case True
    then have "c2 = 0" using c2 sub2(2) by auto
    then have "int (wval (words_at h2 r n)) = int B - int A" using sub2(3) by simp
    moreover have "words_at h' r n = words_at h2 r n" using sel(2) True by (simp add: cw)
    ultimately show ?thesis using True by (simp add: nat_dist_def)
  next
    case False
    then have "c = 0" by (simp add: cw)
    then have "int (wval (words_at h2 tmp n)) = int A - int B" using sub1(3) by (simp add: t2)
    moreover have "words_at h' r n = words_at h2 tmp n" using sel(2) False by (simp add: cw)
    ultimately show ?thesis using False by (simp add: nat_dist_def)
  qed
  then show "wval (words_at h' r n) = nat_dist (wval (words_at h a la)) (wval (words_at h b lb))"
    by (simp add: A_def B_def)
qed

text \<open>With operands of the same length there is no rest.\<close>

lemma abs_sub_words_spec:
  assumes "ahead r a n" "ahead r b n" "in_array h r n" "in_array h a n" "in_array h b n" "in_array h tmp n"
    "clear_of tmp n a n" "clear_of tmp n b n" "clear_of tmp n r n"
  defines "h' \<equiv> bn_abs_sub_words h r a b n tmp"
  shows "only_writes [(r, n), (tmp, n)] h h'" "wval (words_at h' r n) = nat_dist (wval (words_at h a n)) (wval (words_at h b n))"
proof -
  obtain ms where "bn_abs_sub_part_words h r a b n 0 tmp = (h', ms)"
    by (cases "bn_sub_words h tmp a b n")
      (auto simp: h'_def bn_abs_sub_words_def bn_abs_sub_part_words_def bn_sub_part_words_def Let_def split: prod.splits)
  then show "only_writes [(r, n), (tmp, n)] h h'" "wval (words_at h' r n) = nat_dist (wval (words_at h a n)) (wval (words_at h b n))"
    using abs_sub_part_spec [of r a n 0 b h tmp h' ms] assms(1-9) by (simp_all add: clear_of_def)
qed

end
