(* ===== verification/Bn_Karatsuba.thy ===== *)
theory Bn_Karatsuba
  imports Bn_Mul
begin

unbundle bit_operations_syntax

text \<open>
  What the recursive products and squares of \<open>Bn_Mul\<close> compute: with the operands split into a low and a high
  part, three products give the fourth, and the scratch space is large enough at every depth.
\<close>

section \<open>Putting the products together\<close>

lemma carry_on_spec:
  assumes "in_array h r n" "i \<le> n" "carry_on h r i n c = (h', c')"
  shows "only_writes [(ptr_add r i, n - i)] h h'"
    "wval (words_at h' (ptr_add r i) (n - i)) + 2 ^ (64 * (n - i)) * unat c' = wval (words_at h (ptr_add r i) (n - i)) + unat c"
proof -
  let ?r = "ptr_add r i" and ?n = "n - i"
  have ir: "in_array h ?r ?n" using assms(1,2) by (simp add: in_array_def)
  define f where "f = (\<lambda>(c :: u64) x (y :: u64) (z :: u64). (x + c, if x + c < x then 1 else 0 :: u64))"
  have step: "True \<and> int (unat l) + 2 ^ 64 * int (unat c') =
      1 * int (unat x) + 0 * int (unat y) + 0 * int (unat z) + int (unat c)"
    if "f c x y z = (l, c')" for c x y z l c'
    using arg_cong [OF add_carry [of c x], of int] that by (auto simp: f_def add.commute split: if_splits)
  obtain ws c2 where *: "fold (\<lambda>i (h, c). let (w, c) = f c (word_at h ?r i) (word_at h ?r i) (word_at h ?r i)
        in (set_word h ?r i w, c)) [0..<?n] (h, c) = (put_words h ?r ws, c2)"
    "length ws = ?n" "True"
    "int (wval ws) + 2 ^ (64 * ?n) * int (unat c2) =
      1 * int (wval (words_at h ?r ?n)) + 0 * int (wval (words_at h ?r ?n)) + 0 * int (wval (words_at h ?r ?n)) + int (unat c)"
    by (rule loop_value [where P = "\<lambda>_. True" and f = f and c = c and val = "\<lambda>c. int (unat c)"
        and p = 1 and q = 0 and s = 0, OF ahead_self ahead_self ir ir ir TrueI step])
  have "int (wval ws + 2 ^ (64 * ?n) * unat c2) = int (wval (words_at h ?r ?n) + unat c)" using *(4) by simp
  then have v: "wval ws + 2 ^ (64 * ?n) * unat c2 = wval (words_at h ?r ?n) + unat c" by (simp only: of_nat_eq_iff)
  have "carry_on h r i n c = fold (\<lambda>i (h, c). let old = word_at h ?r i; h = set_word h ?r i (old + c)
      in (h, if word_at h ?r i < old then 1 else 0)) [0..<?n] (h, c)"
    using fold_upt_shift [of _ i "n - i" "(h, c)"] assms(2)
    by (simp add: carry_on_def word_at_def set_word_def add.assoc Let_def)
  also have "\<dots> = (put_words h ?r ws, c2)"
    using read_back [OF ir, of "\<lambda>c x. (x + c, x)" ?r "\<lambda>k w. if w < k then 1 else 0" c] *(1)
    by (simp add: f_def Let_def)
  finally have e: "h' = put_words h ?r ws" "c' = c2" using assms(3) by simp_all
  have i: "in_array h ?r (length ws)" using ir *(2) by simp
  show "only_writes [(?r, ?n)] h h'" using only_writes_put [OF i] *(2) by (simp add: e)
  have "words_at h' ?r ?n = ws" using words_at_put_words [OF i] *(2) by (simp add: e)
  then show "wval (words_at h' ?r ?n) + 2 ^ (64 * ?n) * unat c' = wval (words_at h ?r ?n) + unat c" using v by (simp add: e)
qed

lemma combine_algebra:
  fixes P Q Z V W W2 R0 R12 R3 v4 v5 v6 c4 k2 e :: nat
  assumes "v5 + W2 * k2 = R12 + v4" "v6 + W * e = R3 + (c4 + k2)" "v4 + W2 * c4 = Z"
    and "P + W2 * Q = R0 + W * (R12 + W2 * R3)" "V = R0 + W * (v5 + W2 * v6)" "W2 = W * W"
    and "P + W2 * Q + W * Z < W2 * W2"
  shows "V = P + W * Z + W2 * Q"
proof -
  have "V + W2 * W2 * e = R0 + W * v5 + W * W2 * (v6 + W * e)" by (simp add: assms(5,6) algebra_simps)
  also have "\<dots> = R0 + W * (v5 + W2 * k2) + W * W2 * R3 + W * W2 * c4" unfolding assms(2) by (simp add: algebra_simps)
  also have "\<dots> = R0 + W * (R12 + W2 * R3) + W * (v4 + W2 * c4)" unfolding assms(1) by (simp add: algebra_simps)
  also have "\<dots> = P + W2 * Q + W * Z" unfolding assms(3,4) ..
  finally have sum: "V + W2 * W2 * e = P + W2 * Q + W * Z" .
  have "e = 0"
  proof (rule ccontr)
    assume "e \<noteq> 0"
    then have "W2 * W2 * 1 \<le> W2 * W2 * e" by (intro mult_le_mono2) simp
    then show False using sum assms(7) by linarith
  qed
  then show ?thesis using sum by simp
qed

lemma middle_term:
  fixes c b k negm :: u64
  assumes "c = 0 \<or> c = 1" "b = 0 \<or> b = 1" "k = 0 \<or> k = 1" "negm = 0 \<or> negm = - 1"
    and "v1 + W * unat c = P + Q" "v2 + M = v1 + W * unat b" "v3 + W * unat k = v1 + M" "v2 < W"
    and Z: "int Z = int P + int Q + (if negm = 0 then int M else - int M)"
  defines "c4 \<equiv> constant_time_select_w negm (c - b) (c + k)"
  shows "(if negm = 0 then v3 else v2) + W * unat c4 = Z" "unat c4 \<le> 2"
proof -
  have "(if negm = 0 then v3 else v2) + W * unat c4 = Z \<and> unat c4 \<le> 2"
  proof (cases "negm = 0")
    case True
    have "unat (c + k) = unat c + unat k" using assms(1,3) by auto
    then have "v3 + W * unat (c + k) = v3 + W * unat k + W * unat c" by (simp add: algebra_simps)
    also have "\<dots> = P + Q + M" using assms(5,7) by simp
    also have "int \<dots> = int Z" using Z True by simp
    finally have "v3 + W * unat (c + k) = Z" by (simp only: of_nat_eq_iff)
    moreover have "unat (c + k) \<le> 2" using assms(1,3) by auto
    ultimately show ?thesis using True by (simp add: c4_def select_w_spec)
  next
    case False
    then have m: "negm = - 1" using assms(4) by simp
    have "int Z = int v1 + int W * int (unat c) - int M" using Z False arg_cong [OF assms(5), of int] by simp
    also have "\<dots> = int v2 + int W * (int (unat c) - int (unat b))" using arg_cong [OF assms(6), of int] by (simp add: algebra_simps)
    finally have z: "int Z = int v2 + int W * (int (unat c) - int (unat b))" .
    have "\<not> (c = 0 \<and> b = 1)" using z assms(8) by auto
    then have "unat (c - b) = unat c - unat b" "unat b \<le> unat c" using assms(1,2) by auto
    then have "int (v2 + W * unat (c - b)) = int Z" using z by (simp add: of_nat_diff)
    then have "v2 + W * unat (c - b) = Z" by (simp only: of_nat_eq_iff)
    moreover have "unat (c - b) \<le> 2" using \<open>unat (c - b) = unat c - unat b\<close> assms(1) by auto
    ultimately show ?thesis using m by (simp add: c4_def select_w_spec)
  qed
  then show "(if negm = 0 then v3 else v2) + W * unat c4 = Z" "unat c4 \<le> 2" by simp_all
qed

text \<open>The last part of both: the middle term, with its carry, is added into the middle.\<close>

lemma add_middle:
  assumes "in_array h r (2 * n2)" "in_array h m n2" "clear_of r (2 * n2) m n2" "n2 = 2 * n"
    and "unat c4 \<le> 2" "wval (words_at h m n2) + 2 ^ (64 * n2) * unat c4 = Z"
    and "wval (words_at h r (2 * n2)) = P + 2 ^ (64 * n2) * Q"
    and "P + 2 ^ (64 * n2) * Q + 2 ^ (64 * n) * Z < 2 ^ (64 * (2 * n2))"
    and add: "bn_add_words h (ptr_add r n) (ptr_add r n) m n2 = (h1, k)"
  defines "h' \<equiv> fst (carry_on h1 r (n + n2) (n2 + n2) (c4 + k))"
  shows "only_writes [(r, 2 * n2)] h h'"
    "wval (words_at h' r (2 * n2)) = P + 2 ^ (64 * n) * Z + 2 ^ (64 * n2) * Q"
proof -
  obtain e where run: "carry_on h1 r (n + n2) (n2 + n2) (c4 + k) = (h', e)" by (metis h'_def prod.collapse)
  have ir: "in_array h (ptr_add r n) n2" using assms(1,4) by (simp add: in_array_def)
  have ah: "ahead (ptr_add r n) m n2" using assms(3,4) by (auto simp: ahead_def clear_of_def)
  note add = add_words_spec [OF ahead_self ah ir ir assms(2) add]
  have i1: "in_array h1 r (2 * n2)" using assms(1) only_writes_in_array [OF add(1)] by simp
  then have i1': "in_array h1 r (n2 + n2)" by (simp add: mult_2)
  have nn: "n + n2 \<le> n2 + n2" "n2 + n2 - (n + n2) = n" using assms(4) by simp_all
  note co = carry_on_spec [OF i1' nn(1) run, unfolded nn(2)]
  show "only_writes [(r, 2 * n2)] h h'"
    by (rule only_writes_step [OF only_writes_mono [OF add(1)] co(1)]) (use assms(4) in \<open>simp_all add: within_def\<close>)
  have i': "in_array h' r (2 * n2)" using i1 only_writes_in_array [OF co(1)] by simp
  text \<open>Three pieces: the low words, the middle and the high words.\<close>
  have pieces: "wval (words_at h'' r (2 * n2)) = wval (words_at h'' r n) +
      2 ^ (64 * n) * (wval (words_at h'' (ptr_add r n) n2) + 2 ^ (64 * n2) * wval (words_at h'' (ptr_add r (n + n2)) n))"
    if "in_array h'' r (2 * n2)" for h''
  proof -
    have i: "in_array h'' r n" "in_array h'' (ptr_add r n) n2" using that assms(4) by (simp_all add: in_array_def)
    have len: "2 * n2 = n + (n2 + n)" using assms(4) by simp
    show ?thesis unfolding len wval_at_split [OF i(1)] wval_at_split [OF i(2)] by simp
  qed
  have low: "words_at h' r n = words_at h r n" "words_at h' (ptr_add r n) n2 = words_at h1 (ptr_add r n) n2"
    "words_at h1 (ptr_add r (n + n2)) n = words_at h (ptr_add r (n + n2)) n"
    using only_writes_words [OF co(1)] only_writes_words [OF add(1)] by (simp_all add: clear_of_def)
  have ck: "unat (c4 + k) = unat c4 + unat k"
  proof -
    have "unat k \<le> 1" using add(2) by auto
    then have "unat c4 + unat k < 2 ^ 64" using assms(5) by simp
    then show ?thesis by (simp add: unat_word_ariths)
  qed
  have W2: "(2 :: nat) ^ (64 * n2) = 2 ^ (64 * n) * 2 ^ (64 * n)" by (simp only: assms(4) mult_2 distrib_left power_add)
  show "wval (words_at h' r (2 * n2)) = P + 2 ^ (64 * n) * Z + 2 ^ (64 * n2) * Q"
  proof (rule combine_algebra [OF add(3) _ assms(6) _ _ W2])
    show "wval (words_at h' (ptr_add r (n + n2)) n) + 2 ^ (64 * n) * unat e =
        wval (words_at h (ptr_add r (n + n2)) n) + (unat c4 + unat k)"
      using co(2) by (simp add: ck low)
    show "P + 2 ^ (64 * n2) * Q = wval (words_at h r n) + 2 ^ (64 * n) * (wval (words_at h (ptr_add r n) n2) +
        2 ^ (64 * n2) * wval (words_at h (ptr_add r (n + n2)) n))"
      using assms(7) pieces [OF assms(1)] by simp
    show "wval (words_at h' r (2 * n2)) = wval (words_at h r n) +
        2 ^ (64 * n) * (wval (words_at h1 (ptr_add r n) n2) + 2 ^ (64 * n2) * wval (words_at h' (ptr_add r (n + n2)) n))"
      using pieces [OF i'] by (simp add: low)
    show "P + 2 ^ (64 * n2) * Q + 2 ^ (64 * n) * Z < 2 ^ (64 * n2) * 2 ^ (64 * n2)"
      using assms(8) by (simp only: mult_2 distrib_left power_add)
  qed
qed

lemma combine_products_spec:
  assumes "in_array h r (2 * n2)" "in_array h t (4 * n2)" "clear_of r (2 * n2) t (4 * n2)" "n2 = 2 * n"
    and "negm = 0 \<or> negm = - 1"
    and P: "wval (words_at h r n2) = P" and Q: "wval (words_at h (ptr_add r n2) n2) = Q"
    and M: "wval (words_at h (ptr_add t n2) n2) = M"
    and Z: "int Z = int P + int Q + (if negm = 0 then int M else - int M)"
    and "P + 2 ^ (64 * n2) * Q + 2 ^ (64 * n) * Z < 2 ^ (64 * (2 * n2))"
  shows "stores [(r, 2 * n2), (t, 4 * n2)] h r (2 * n2) (P + 2 ^ (64 * n) * Z + 2 ^ (64 * n2) * Q)
    (combine_products h r t n n2 negm)"
proof -
  let ?m = "ptr_add t n2" and ?s = "ptr_add t (n2 * 2)"
  obtain h1 c where s1: "bn_add_words h t r (ptr_add r n2) n2 = (h1, c)" by fastforce
  obtain h2 b where s2: "bn_sub_words h1 ?s t ?m n2 = (h2, b)" by fastforce
  obtain h3 k where s3: "bn_add_words h2 ?m t ?m n2 = (h3, k)" by fastforce
  define h4 where "h4 = bn_select_words h3 ?m negm ?s ?m n2"
  obtain h5 k2 where s5: "bn_add_words h4 (ptr_add r n) (ptr_add r n) ?m n2 = (h5, k2)" by fastforce
  define c4 where "c4 = constant_time_select_w negm (c - b) (c + k)"
  have code: "combine_products h r t n n2 negm = fst (carry_on h5 r (n + n2) (n2 + n2) (c4 + k2))"
    by (simp add: combine_products_def s1 s2 s3 s5 h4_def [symmetric] c4_def Let_def)
  have ah: "ahead t r n2" "ahead t (ptr_add r n2) n2" "ahead ?s t n2" "ahead ?s ?m n2" "ahead ?m t n2" "ahead ?m ?s n2"
    using assms(3) by (auto simp: ahead_def clear_of_def)
  have i: "in_array h t n2" "in_array h r n2" "in_array h (ptr_add r n2) n2" "in_array h ?m n2" "in_array h ?s n2"
    using assms(1,2) by (simp_all add: in_array_def)
  note r1 = add_words_spec [OF ah(1,2) i(1-3) s1, unfolded P Q]
  note i1 = i [folded only_writes_in_array [OF r1(1)]]
  note r2 = sub_words_spec [OF ah(3,4) i1(5,1,4) s2]
  note i2 = i1 [folded only_writes_in_array [OF r2(1)]]
  note r3 = add_words_spec [OF ah(5) ahead_self i2(4,1,4) s3]
  note i3 = i2 [folded only_writes_in_array [OF r3(1)]]
  note r4 = select_words_spec [OF ah(6) ahead_self i3(4,5,4) assms(5), folded h4_def]
  have M1: "wval (words_at h1 ?m n2) = M" using only_writes_words [OF r1(1), of ?m n2] M by (simp add: clear_of_def)
  have t2: "words_at h2 t n2 = words_at h1 t n2" "words_at h2 ?m n2 = words_at h1 ?m n2" "words_at h3 ?s n2 = words_at h2 ?s n2"
    using only_writes_words [OF r2(1)] only_writes_words [OF r3(1)] by (simp_all add: clear_of_def)
  have mid: "(if negm = 0 then wval (words_at h3 ?m n2) else wval (words_at h2 ?s n2)) + 2 ^ (64 * n2) * unat c4 = Z" "unat c4 \<le> 2"
    unfolding c4_def
    by (rule middle_term [OF r1(2) r2(2) r3(2) assms(5) r1(3) r2(3) [unfolded M1] r3(3) [unfolded t2 M1] wval_at_bound Z])+
  then have Z4: "wval (words_at h4 ?m n2) + 2 ^ (64 * n2) * unat c4 = Z" by (simp add: r4(2) t2 split: if_splits)
  have w4: "only_writes [(t, 4 * n2)] h h4"
    by (rule only_writes_step [OF only_writes_step [OF only_writes_step [OF only_writes_mono [OF r1(1)] r2(1)] r3(1)] r4(1)])
      (simp_all add: within_def)
  have r4same: "words_at h4 r (2 * n2) = words_at h r (2 * n2)"
    by (rule only_writes_words [OF w4]) (use assms(3) in \<open>simp add: clear_of_sym\<close>)
  have "wval (words_at h r (2 * n2)) = P + 2 ^ (64 * n2) * Q" using wval_at_split [OF i(2), of n2] P Q by (simp add: mult_2)
  then have PQ: "wval (words_at h4 r (2 * n2)) = P + 2 ^ (64 * n2) * Q" by (simp add: r4same)
  have i4: "in_array h4 r (2 * n2)" "in_array h4 ?m n2" using assms(1) i(4) only_writes_in_array [OF w4] by simp_all
  have cl: "clear_of r (2 * n2) ?m n2" using assms(3) by (auto simp: clear_of_def)
  note last = add_middle [OF i4 cl assms(4) mid(2) Z4 PQ assms(10) s5, folded code]
  have "only_writes [(r, 2 * n2), (t, 4 * n2)] h (combine_products h r t n n2 negm)"
    by (rule only_writes_step [OF only_writes_mono [OF w4] last(1)]) simp_all
  then show ?thesis using last(2) by (simp add: stores_def)
qed

section \<open>Splitting the operands\<close>

text \<open>Where the operands, the result and the scratch space are: the first two may be the same.\<close>

definition room :: "bns \<Rightarrow> words_ptr \<Rightarrow> nat \<Rightarrow> words_ptr \<Rightarrow> nat \<Rightarrow> words_ptr \<Rightarrow> nat \<Rightarrow> words_ptr \<Rightarrow> nat \<Rightarrow> bool" where
  "room h r n a la b lb t m \<longleftrightarrow>
    in_array h r n \<and> in_array h a la \<and> in_array h b lb \<and> in_array h t m \<and>
    clear_of r n a la \<and> clear_of r n b lb \<and> clear_of r n t m \<and> clear_of t m a la \<and> clear_of t m b lb"

lemma roomD:
  assumes "room h r n a la b lb t m"
  shows "in_array h r n" "in_array h a la" "in_array h b lb" "in_array h t m" "clear_of r n a la" "clear_of r n b lb"
    "clear_of r n t m" "clear_of t m a la" "clear_of t m b lb"
  using assms by (simp_all add: room_def)

lemma room_kept: "only_writes rs h h' \<Longrightarrow> room h' r n a la b lb t m \<longleftrightarrow> room h r n a la b lb t m"
  by (simp add: room_def only_writes_in_array)

lemma clear_of_sub: "clear_of p m q n \<Longrightarrow> i + m' \<le> m \<Longrightarrow> j + n' \<le> n \<Longrightarrow> clear_of (ptr_add p i) m' (ptr_add q j) n'"
  by (auto simp: clear_of_def)

lemma in_array_sub: "in_array h p n \<Longrightarrow> i + m \<le> n \<Longrightarrow> in_array h (ptr_add p i) m"
  by (auto simp: in_array_def)

lemma karatsuba:
  fixes A0 A1 B0 B1 :: nat and negm :: u64
  assumes "negm = (if A0 < A1 then - 1 else 0) XOR (if B1 < B0 then - 1 else 0)"
  shows "int (A0 * B1 + A1 * B0) =
      int (A0 * B0) + int (A1 * B1) + (if negm = 0 then int (nat_dist A0 A1 * nat_dist B1 B0) else - int (nat_dist A0 A1 * nat_dist B1 B0))"
    "negm = 0 \<or> negm = - 1"
proof -
  have d: "int (nat_dist x y) = (if x < y then int y - int x else int x - int y)" for x y by (simp add: nat_dist_def)
  show "int (A0 * B1 + A1 * B0) =
      int (A0 * B0) + int (A1 * B1) + (if negm = 0 then int (nat_dist A0 A1 * nat_dist B1 B0) else - int (nat_dist A0 A1 * nat_dist B1 B0))"
    unfolding assms by (cases "A0 < A1"; cases "B1 < B0") (simp_all add: d algebra_simps)
  show "negm = 0 \<or> negm = - 1" using assms by simp
qed

lemma split_differences:
  assumes rm: "room h r (2 * n2) a (n + u) b (n + v) t (4 * n2)" and n2: "n2 = 2 * n" and uv: "u \<le> n" "v \<le> n"
    and d0: "bn_abs_sub_part_words h t a (ptr_add a n) u (int n - int u) (ptr_add t n2) = (h1, m0)"
    and d1: "bn_abs_sub_part_words h1 (ptr_add t n) (ptr_add b n) b v (int v - int n) (ptr_add t n2) = (h2, m1)"
  defines "A0 \<equiv> wval (words_at h a n)" and "A1 \<equiv> wval (words_at h (ptr_add a n) u)"
    and "B0 \<equiv> wval (words_at h b n)" and "B1 \<equiv> wval (words_at h (ptr_add b n) v)"
  shows "only_writes [(t, 2 * n2)] h h2" "wval (words_at h2 t n) = nat_dist A0 A1"
    "wval (words_at h2 (ptr_add t n) n) = nat_dist B1 B0"
    "m0 XOR m1 = (if A0 < A1 then - 1 else 0) XOR (if B1 < B0 then - 1 else 0)"
proof -
  note rm = roomD [OF rm]
  have lens: "u + nat (int n - int u) = n" "u + nat (- (int n - int u)) = u" "u + nat \<bar>int n - int u\<bar> = n"
    "v + nat (int v - int n) = v" "v + nat (- (int v - int n)) = n" "v + nat \<bar>int v - int n\<bar> = n"
    using uv by simp_all
  note sub = abs_sub_part_spec [where cl = u and dl = "int n - int u", OF _ _ _ _ _ _ _ _ _ _ _ d0, unfolded lens]
  have "only_writes [(t, n), (ptr_add t n2, n)] h h1 \<and> m0 = (if A0 < A1 then - 1 else 0) \<and> wval (words_at h1 t n) = nat_dist A0 A1"
    unfolding A0_def A1_def
    by (intro conjI sub) (use rm(2,4,8) n2 uv in \<open>auto simp: ahead_def clear_of_def in_array_def\<close>)
  then have r0: "only_writes [(t, n), (ptr_add t n2, n)] h h1" "m0 = (if A0 < A1 then - 1 else 0)"
    "wval (words_at h1 t n) = nat_dist A0 A1" by blast+
  have b1: "words_at h1 b n = words_at h b n" "words_at h1 (ptr_add b n) v = words_at h (ptr_add b n) v"
    by (rule only_writes_words [OF r0(1)], use rm(9) n2 in \<open>auto simp: clear_of_def\<close>)+
  have i1: "in_array h1 t (4 * n2)" "in_array h1 b (n + v)" using rm only_writes_in_array [OF r0(1)] by simp_all
  note sub2 = abs_sub_part_spec [where cl = v and dl = "int v - int n", OF _ _ _ _ _ _ _ _ _ _ _ d1, unfolded lens]
  have "only_writes [(ptr_add t n, n), (ptr_add t n2, n)] h1 h2 \<and> m1 = (if B1 < B0 then - 1 else 0) \<and>
      wval (words_at h2 (ptr_add t n) n) = nat_dist B1 B0"
    unfolding B0_def B1_def b1 [symmetric]
    by (intro conjI sub2) (use rm(9) i1 n2 uv in \<open>auto simp: ahead_def clear_of_def in_array_def\<close>)
  then have r1: "only_writes [(ptr_add t n, n), (ptr_add t n2, n)] h1 h2" "m1 = (if B1 < B0 then - 1 else 0)"
    "wval (words_at h2 (ptr_add t n) n) = nat_dist B1 B0" by blast+
  show "only_writes [(t, 2 * n2)] h h2"
    by (rule only_writes_step [OF only_writes_mono [OF r0(1)] r1(1)]) (use n2 in \<open>simp_all add: within_def\<close>)
  show "wval (words_at h2 t n) = nat_dist A0 A1"
    using only_writes_words [OF r1(1), of t n] r0(3) n2 by (simp add: clear_of_def)
  show "wval (words_at h2 (ptr_add t n) n) = nat_dist B1 B0" by (rule r1(3))
  show "m0 XOR m1 = (if A0 < A1 then - 1 else 0) XOR (if B1 < B0 then - 1 else 0)" by (simp only: r0(2) r1(2))
qed

text \<open>With the three products in place, the combination is the product.\<close>

lemma product_of_parts:
  assumes rm: "room h r (2 * n2) a (n + u) b (n + v) t (4 * n2)" and n2: "n2 = 2 * n" and uv: "u \<le> n" "v \<le> n"
    and d0: "bn_abs_sub_part_words h t a (ptr_add a n) u (int n - int u) (ptr_add t n2) = (h1, m0)"
    and d1: "bn_abs_sub_part_words h1 (ptr_add t n) (ptr_add b n) b v (int v - int n) (ptr_add t n2) = (h2, m1)"
    and p3: "stores [(ptr_add t n2, n2), (ptr_add t (n2 * 2), 2 * n2)] h2 (ptr_add t n2) n2
        (wval (words_at h2 t n) * wval (words_at h2 (ptr_add t n) n)) h3"
    and p4: "stores [(r, n2), (ptr_add t (n2 * 2), 2 * n2)] h3 r n2 (wval (words_at h3 a n) * wval (words_at h3 b n)) h4"
    and p5: "stores [(ptr_add r n2, n2), (ptr_add t (n2 * 2), 2 * n2)] h4 (ptr_add r n2) n2
        (wval (words_at h4 (ptr_add a n) u) * wval (words_at h4 (ptr_add b n) v)) h5"
  shows "stores [(r, 2 * n2), (t, 4 * n2)] h r (2 * n2) (wval (words_at h a (n + u)) * wval (words_at h b (n + v)))
    (combine_products h5 r t n n2 (m0 XOR m1))"
proof -
  define A0 A1 B0 B1 where "A0 = wval (words_at h a n)" and "A1 = wval (words_at h (ptr_add a n) u)"
    and "B0 = wval (words_at h b n)" and "B1 = wval (words_at h (ptr_add b n) v)"
  note sp = split_differences [OF rm n2 uv d0 d1, folded A0_def A1_def B0_def B1_def]
  note rd = roomD [OF rm]
  have w3: "only_writes [(t, 4 * n2)] h h3"
    by (rule only_writes_step [OF only_writes_mono [OF sp(1)] storesD(1) [OF p3]]) (simp_all add: within_def)
  have w4: "only_writes [(r, n2), (t, 4 * n2)] h h4"
    by (rule only_writes_step [OF only_writes_mono [OF w3] storesD(1) [OF p4]]) (simp_all add: within_def)
  have w5: "only_writes [(r, 2 * n2), (t, 4 * n2)] h h5"
    by (rule only_writes_step [OF only_writes_mono [OF w4] storesD(1) [OF p5]]) (simp_all add: within_def)
  have same_a: "words_at h3 a n = words_at h a n" "words_at h4 (ptr_add a n) u = words_at h (ptr_add a n) u"
    by (rule only_writes_words [OF w3] only_writes_words [OF w4]; use rd(5,8) in \<open>auto simp: clear_of_def\<close>)+
  have same_b: "words_at h3 b n = words_at h b n" "words_at h4 (ptr_add b n) v = words_at h (ptr_add b n) v"
    by (rule only_writes_words [OF w3] only_writes_words [OF w4]; use rd(6,9) in \<open>auto simp: clear_of_def\<close>)+
  note same = same_a same_b
  have "words_at h5 (ptr_add t n2) n2 = words_at h3 (ptr_add t n2) n2"
  proof -
    have "words_at h5 (ptr_add t n2) n2 = words_at h4 (ptr_add t n2) n2"
      by (rule only_writes_words [OF storesD(1) [OF p5]]) (use rd(7) in \<open>auto simp: clear_of_def\<close>)
    also have "\<dots> = words_at h3 (ptr_add t n2) n2"
      by (rule only_writes_words [OF storesD(1) [OF p4]]) (use rd(7) in \<open>auto simp: clear_of_def\<close>)
    finally show ?thesis .
  qed
  then have M: "wval (words_at h5 (ptr_add t n2) n2) = nat_dist A0 A1 * nat_dist B1 B0"
    using storesD(2) [OF p3] by (simp add: sp(2,3))
  have "words_at h5 r n2 = words_at h4 r n2"
    by (rule only_writes_words [OF storesD(1) [OF p5]]) (use rd(7) in \<open>auto simp: clear_of_def\<close>)
  then have P: "wval (words_at h5 r n2) = A0 * B0" using storesD(2) [OF p4] by (simp add: same A0_def B0_def)
  have Q: "wval (words_at h5 (ptr_add r n2) n2) = A1 * B1" using storesD(2) [OF p5] by (simp add: same A1_def B1_def)
  note kar = karatsuba [OF sp(4)]
  have ab: "in_array h a n" "in_array h b n" using rd(2,3) by (simp_all add: in_array_def)
  have A: "wval (words_at h a (n + u)) = A0 + 2 ^ (64 * n) * A1" "wval (words_at h b (n + v)) = B0 + 2 ^ (64 * n) * B1"
    unfolding A0_def A1_def B0_def B1_def by (rule wval_at_split [OF ab(1)], rule wval_at_split [OF ab(2)])
  have W2: "(2 :: nat) ^ (64 * n2) = 2 ^ (64 * n) * 2 ^ (64 * n)" by (simp only: n2 mult_2 distrib_left power_add)
  have AB: "A0 * B0 + 2 ^ (64 * n) * (A0 * B1 + A1 * B0) + 2 ^ (64 * n2) * (A1 * B1) =
      wval (words_at h a (n + u)) * wval (words_at h b (n + v))"
    unfolding A W2 by (simp add: algebra_simps)
  have "wval (words_at h a (n + u)) * wval (words_at h b (n + v)) < 2 ^ (64 * n2) * 2 ^ (64 * n2)"
  proof (rule mult_strict_mono)
    have "wval (words_at h a (n + u)) < 2 ^ (64 * (n + u))" "wval (words_at h b (n + v)) < 2 ^ (64 * (n + v))"
      by (rule wval_at_bound)+
    then show "wval (words_at h a (n + u)) < 2 ^ (64 * n2)" "wval (words_at h b (n + v)) < 2 ^ (64 * n2)"
      using uv n2 by (auto elim!: less_le_trans intro!: power_increasing)
  qed simp_all
  then have fits: "A0 * B0 + 2 ^ (64 * n2) * (A1 * B1) + 2 ^ (64 * n) * (A0 * B1 + A1 * B0) < 2 ^ (64 * (2 * n2))"
    unfolding AB [symmetric] by (simp only: mult_2 distrib_left power_add add_ac)
  have i5: "in_array h5 r (2 * n2)" "in_array h5 t (4 * n2)" using rd only_writes_in_array [OF w5] by simp_all
  note res = combine_products_spec [OF i5 rd(7) n2 kar(2) P Q M kar(1) fits]
  show ?thesis
    using only_writes_step [OF w5 storesD(1) [OF res] covered_self] storesD(2) [OF res] AB by (simp add: stores_def)
qed

section \<open>The recursive products\<close>

lemma stores_mono: "stores ss h r n v h' \<Longrightarrow> covered ss rs \<Longrightarrow> stores rs h r n v h'"
  using only_writes_mono by (auto simp: stores_def)

text \<open>A product that does not fill the result is followed by zeros.\<close>

lemma stores_zero_rest:
  assumes "stores rs h r l v h1" "in_array h r n" "l \<le> n" "covered rs [(r, n)]"
  shows "stores [(r, n)] h r n v (zero_words h1 (ptr_add r l) (n - l))"
proof -
  let ?h = "zero_words h1 (ptr_add r l) (n - l)"
  have w1: "only_writes [(r, n)] h h1" using only_writes_mono [OF storesD(1) [OF assms(1)] assms(4)] .
  then have i: "in_array h1 r n" using only_writes_in_array assms(2) by blast
  then have i1: "in_array h1 (ptr_add r l) (n - l)" "in_array h1 r l" using assms(3) by (simp_all add: in_array_def)
  note z = zero_words_spec [OF i1(1)]
  have "in_array ?h r l" using i1(2) only_writes_in_array [OF z(1)] by simp
  then have "wval (words_at ?h r (l + (n - l))) = wval (words_at ?h r l) + 2 ^ (64 * l) * wval (words_at ?h (ptr_add r l) (n - l))"
    by (rule wval_at_split)
  moreover have "words_at ?h r l = words_at h1 r l" by (rule only_writes_words [OF z(1)]) (simp add: clear_of_def)
  ultimately have "wval (words_at ?h r n) = v" using assms(1,3) z(2) by (simp add: stores_def)
  moreover have "only_writes [(r, n)] h ?h" by (rule only_writes_step [OF w1 z(1)]) (simp add: within_def assms(3))
  ultimately show ?thesis by (simp add: stores_def)
qed

lemma room_sub:
  assumes "room h r n a la b lb t m"
    and "i + n' \<le> n" "ja + la' \<le> la" "jb + lb' \<le> lb" "k + m' \<le> m"
  shows "room h (ptr_add r i) n' (ptr_add a ja) la' (ptr_add b jb) lb' (ptr_add t k) m'"
proof -
  note rd = roomD [OF assms(1)] and sub = assms(2-)
  show ?thesis unfolding room_def
    using in_array_sub [OF rd(1) sub(1)] in_array_sub [OF rd(2) sub(2)] in_array_sub [OF rd(3) sub(3)]
      in_array_sub [OF rd(4) sub(4)] clear_of_sub [OF rd(5) sub(1,2)] clear_of_sub [OF rd(6) sub(1,3)]
      clear_of_sub [OF rd(7) sub(1,4)] clear_of_sub [OF rd(8) sub(4,2)] clear_of_sub [OF rd(9) sub(4,3)]
    by blast
qed

text \<open>The three products of a level, each computed by a routine that does what is promised.\<close>

lemma three_products:
  fixes prod1 prod2 prod3 :: "bns \<Rightarrow> bns"
  assumes rm: "room h r (2 * n2) a (n + u) b (n + v) t (4 * n2)" and n2: "n2 = 2 * n" and uv: "u \<le> n" "v \<le> n"
    and "\<And>h. room h (ptr_add t n2) n2 t n (ptr_add t n) n (ptr_add t (n2 * 2)) (2 * n2) \<Longrightarrow>
      stores [(ptr_add t n2, n2), (ptr_add t (n2 * 2), 2 * n2)] h (ptr_add t n2) n2
        (wval (words_at h t n) * wval (words_at h (ptr_add t n) n)) (prod1 h)"
    and "\<And>h. room h r n2 a n b n (ptr_add t (n2 * 2)) (2 * n2) \<Longrightarrow>
      stores [(r, n2), (ptr_add t (n2 * 2), 2 * n2)] h r n2 (wval (words_at h a n) * wval (words_at h b n)) (prod2 h)"
    and "\<And>h. room h (ptr_add r n2) n2 (ptr_add a n) u (ptr_add b n) v (ptr_add t (n2 * 2)) (2 * n2) \<Longrightarrow>
      stores [(ptr_add r n2, n2), (ptr_add t (n2 * 2), 2 * n2)] h (ptr_add r n2) n2
        (wval (words_at h (ptr_add a n) u) * wval (words_at h (ptr_add b n) v)) (prod3 h)"
    and d0: "bn_abs_sub_part_words h t a (ptr_add a n) u (int n - int u) (ptr_add t n2) = (h1, m0)"
    and d1: "bn_abs_sub_part_words h1 (ptr_add t n) (ptr_add b n) b v (int v - int n) (ptr_add t n2) = (h2, m1)"
  shows "stores [(r, 2 * n2), (t, 4 * n2)] h r (2 * n2) (wval (words_at h a (n + u)) * wval (words_at h b (n + v)))
    (combine_products (prod3 (prod2 (prod1 h2))) r t n n2 (m0 XOR m1))"
proof (rule product_of_parts [OF rm n2 uv d0 d1])
  note sp = split_differences [OF rm n2 uv d0 d1]
  note rd = roomD [OF rm]
  have "room h (ptr_add t n2) n2 t n (ptr_add t n) n (ptr_add t (n2 * 2)) (2 * n2)"
    using rd(4) n2 by (simp add: room_def in_array_def clear_of_def)
  then show p3: "stores [(ptr_add t n2, n2), (ptr_add t (n2 * 2), 2 * n2)] h2 (ptr_add t n2) n2
      (wval (words_at h2 t n) * wval (words_at h2 (ptr_add t n) n)) (prod1 h2)"
    using assms(5) room_kept [OF sp(1)] by blast
  have "room h r n2 a n b n (ptr_add t (n2 * 2)) (2 * n2)"
    using room_sub [OF rm, of 0 n2 0 n 0 n "n2 * 2" "2 * n2"] by simp
  then have "room (prod1 h2) r n2 a n b n (ptr_add t (n2 * 2)) (2 * n2)"
    using room_kept [OF sp(1)] room_kept [OF storesD(1) [OF p3]] by blast
  then show p4: "stores [(r, n2), (ptr_add t (n2 * 2), 2 * n2)] (prod1 h2) r n2
      (wval (words_at (prod1 h2) a n) * wval (words_at (prod1 h2) b n)) (prod2 (prod1 h2))"
    by (rule assms(6))
  have "room h (ptr_add r n2) n2 (ptr_add a n) u (ptr_add b n) v (ptr_add t (n2 * 2)) (2 * n2)"
    using room_sub [OF rm, of n2 n2 n u n v "n2 * 2" "2 * n2"] by simp
  then have "room (prod2 (prod1 h2)) (ptr_add r n2) n2 (ptr_add a n) u (ptr_add b n) v (ptr_add t (n2 * 2)) (2 * n2)"
    by (simp only: room_kept [OF storesD(1) [OF p4]] room_kept [OF storesD(1) [OF p3]] room_kept [OF sp(1)])
  then show "stores [(ptr_add r n2, n2), (ptr_add t (n2 * 2), 2 * n2)] (prod2 (prod1 h2)) (ptr_add r n2) n2
      (wval (words_at (prod2 (prod1 h2)) (ptr_add a n) u) * wval (words_at (prod2 (prod1 h2)) (ptr_add b n) v))
      (prod3 (prod2 (prod1 h2)))"
    by (rule assms(7))
qed

lemma room_normal:
  assumes "room h r n a la b lb t m" "la + lb \<le> n"
  shows "stores [(r, la + lb)] h r (la + lb) (wval (words_at h a la) * wval (words_at h b lb)) (bn_mul_normal h r a la b lb)"
proof (rule mul_normal_spec)
  note rd = roomD [OF assms(1)]
  show "in_array h a la" "in_array h b lb" by (rule rd(2), rule rd(3))
  show "in_array h r (la + lb)" using in_array_sub [OF rd(1), of 0 "la + lb"] assms(2) by simp
  show "clear_of r (la + lb) a la" "clear_of r (la + lb) b lb"
    using clear_of_sub [OF rd(5), of 0 "la + lb" 0 la] clear_of_sub [OF rd(6), of 0 "la + lb" 0 lb] assms(2) by simp_all
qed

lemma room_comba8: "room h r 16 a 8 b 8 t m \<Longrightarrow>
  stores [(r, 16)] h r 16 (wval (words_at h a 8) * wval (words_at h b 8)) (bn_mul_comba8 h r a b)"
  using comba_stores(1) [of h r 8 a b] by (simp add: room_def)

lemma mul_recursive_spec:
  assumes "n2 = 2 ^ k" "- 8 \<le> dna" "dna \<le> 0" "- 8 \<le> dnb" "dnb \<le> 0" "0 \<le> int n2 + dna" "0 \<le> int n2 + dnb"
    and "room h r (2 * n2) a (nat (int n2 + dna)) b (nat (int n2 + dnb)) t (4 * n2)"
  shows "stores [(r, 2 * n2), (t, 4 * n2)] h r (2 * n2)
    (wval (words_at h a (nat (int n2 + dna))) * wval (words_at h b (nat (int n2 + dnb)))) (bn_mul_recursive h r a b n2 dna dnb t)"
  using assms
proof (induction n2 arbitrary: k dna dnb h r a b t rule: less_induct)
  case (less n2)
  define la lb where "la = nat (int n2 + dna)" and "lb = nat (int n2 + dnb)"
  have rm: "room h r (2 * n2) a la b lb t (4 * n2)" using less.prems(8) by (simp add: la_def lb_def)
  have len: "la \<le> n2" "lb \<le> n2" "int la = int n2 + dna" "int lb = int n2 + dnb"
    using less.prems by (simp_all add: la_def lb_def)
  note sub = bn_mul_recursive.simps [of h r a b n2 dna dnb t]
  consider (comba) "n2 = 8" "dna = 0" "dnb = 0" | (normal) "\<not> (n2 = 8 \<and> dna = 0 \<and> dnb = 0)" "n2 < 16" | (split) "16 \<le> n2"
    by linarith
  then have "stores [(r, 2 * n2), (t, 4 * n2)] h r (2 * n2) (wval (words_at h a la) * wval (words_at h b lb))
    (bn_mul_recursive h r a b n2 dna dnb t)"
  proof cases
    case comba
    then have "stores [(r, 16)] h r 16 (wval (words_at h a 8) * wval (words_at h b 8)) (bn_mul_comba8 h r a b)"
      using room_comba8 [of h r a b t 32] rm by (simp add: la_def lb_def)
    then show ?thesis using comba stores_mono [of "[(r, 16)]"] by (simp add: bn_mul_recursive.simps [of h r a b 8] la_def lb_def)
  next
    case normal
    have "la + lb \<le> 2 * n2" using len by simp
    note nm = room_normal [OF rm this]
    have "stores [(r, 2 * n2)] h r (2 * n2) (wval (words_at h a la) * wval (words_at h b lb)) (bn_mul_recursive h r a b n2 dna dnb t)"
    proof (cases "dna + dnb < 0")
      case True
      have "nat (2 * int n2 + dna + dnb) = la + lb" "nat (- (dna + dnb)) = 2 * n2 - (la + lb)"
        using len by linarith+
      then have "bn_mul_recursive h r a b n2 dna dnb t =
          zero_words (bn_mul_normal h r a la b lb) (ptr_add r (la + lb)) (2 * n2 - (la + lb))"
        using normal True by (auto simp: sub la_def lb_def)
      then show ?thesis
        using stores_zero_rest [OF nm roomD(1) [OF rm] \<open>la + lb \<le> 2 * n2\<close>] \<open>la + lb \<le> 2 * n2\<close>
        by (simp add: within_def)
    next
      case False
      then have "dna = 0" "dnb = 0" using less.prems by simp_all
      then have "la + lb = 2 * n2" "bn_mul_recursive h r a b n2 dna dnb t = bn_mul_normal h r a la b lb"
        using normal by (auto simp: bn_mul_recursive.simps [of h r a b n2 0 0] la_def lb_def mult_2)
      then show ?thesis using nm by simp
    qed
    then show ?thesis by (rule stores_mono) simp
  next
    case split
    define n where "n = n2 div 2"
    obtain j where k: "k = Suc j" using split less.prems(1) by (cases k) simp_all
    have n: "n2 = 2 * n" "n = 2 ^ j" "n < n2" "8 \<le> n" using split less.prems(1) by (simp_all add: n_def k)
    define u v where "u = nat (int n + dna)" and "v = nat (int n + dnb)"
    have uv': "u \<le> n" "v \<le> n" "int u = int n + dna" "int v = int n + dnb"
      using less.prems(2-5) n(4) by (simp_all add: u_def v_def)
    moreover have "la = n + u" "lb = n + v" using uv'(3,4) len(3,4) n(1) by linarith+
    ultimately have uv: "u \<le> n" "v \<le> n" "int u = int n + dna" "int v = int n + dnb" "la = n + u" "lb = n + v" .
    have rec: "stores [(x, 2 * n), (z, 4 * n)] h x (2 * n)
        (wval (words_at h y (nat (int n + da))) * wval (words_at h y' (nat (int n + db)))) (bn_mul_recursive h x y y' n da db z)"
      if "room h x (2 * n) y (nat (int n + da)) y' (nat (int n + db)) z (4 * n)" "- 8 \<le> da" "da \<le> 0" "- 8 \<le> db" "db \<le> 0"
      for h x y y' z da db
      by (rule less.IH [OF n(3,2)]) (use that n(4) in simp_all)
    obtain h1 m0 where d0: "bn_abs_sub_part_words h t a (ptr_add a n) u (int n - int u) (ptr_add t n2) = (h1, m0)" by fastforce
    obtain h2 m1 where d1: "bn_abs_sub_part_words h1 (ptr_add t n) (ptr_add b n) b v (int v - int n) (ptr_add t n2) = (h2, m1)"
      by fastforce
    note three = three_products [OF rm [unfolded uv(5,6)] n(1) uv(1,2) _ _ _ d0 d1, folded uv(5,6)]
    note d01 = d0 [unfolded uv(3), unfolded u_def] d1 [unfolded uv(4), unfolded v_def]
    show ?thesis
    proof (cases "n = 8 \<and> dna = 0 \<and> dnb = 0")
      case True
      have r8: "stores [(x, n2), (ptr_add t (n2 * 2), 2 * n2)] h x n2 (wval (words_at h y n) * wval (words_at h y' n)) (bn_mul_comba8 h x y y')"
        if "room h x n2 y n y' n z m" for h x y y' z m
        using room_comba8 [of h x y y' z m] that True n(1) stores_mono [of "[(x, 16)]"] by simp
      have "u = n" "v = n" using True by (simp_all add: u_def v_def)
      have "stores [(r, 2 * n2), (t, 4 * n2)] h r (2 * n2) (wval (words_at h a la) * wval (words_at h b lb))
          (combine_products (bn_mul_comba8 (bn_mul_comba8 (bn_mul_comba8 h2 (ptr_add t n2) t (ptr_add t n)) r a b)
            (ptr_add r n2) (ptr_add a n) (ptr_add b n)) r t n n2 (m0 XOR m1))"
        by (rule three) (use r8 \<open>u = n\<close> \<open>v = n\<close> in simp_all)
      moreover have "bn_mul_recursive h r a b n2 dna dnb t =
          combine_products (bn_mul_comba8 (bn_mul_comba8 (bn_mul_comba8 h2 (ptr_add t n2) t (ptr_add t n)) r a b)
            (ptr_add r n2) (ptr_add a n) (ptr_add b n)) r t n n2 (m0 XOR m1)"
        using split True d01 by (subst sub) (simp add: n_def [symmetric] Let_def)
      ultimately show ?thesis by simp
    next
      case False
      let ?p = "ptr_add t (n2 * 2)"
      have len2: "2 * n = n2" "4 * n = 2 * n2" using n(1) by simp_all
      have r0: "stores [(x, n2), (?p, 2 * n2)] h x n2 (wval (words_at h y n) * wval (words_at h y' n)) (bn_mul_recursive h x y y' n 0 0 ?p)"
        if "room h x n2 y n y' n ?p (2 * n2)" for h x y y'
        using rec [of h x y 0 y' 0 ?p, unfolded len2] that by simp
      have r1: "stores [(x, n2), (?p, 2 * n2)] h x n2 (wval (words_at h y u) * wval (words_at h y' v)) (bn_mul_recursive h x y y' n dna dnb ?p)"
        if "room h x n2 y u y' v ?p (2 * n2)" for h x y y'
        using rec [of h x y dna y' dnb ?p, unfolded len2] that less.prems(2-5) by (simp add: u_def v_def)
      have "stores [(r, 2 * n2), (t, 4 * n2)] h r (2 * n2) (wval (words_at h a la) * wval (words_at h b lb))
          (combine_products (bn_mul_recursive (bn_mul_recursive (bn_mul_recursive h2 (ptr_add t n2) t (ptr_add t n) n 0 0 ?p) r a b n 0 0 ?p)
            (ptr_add r n2) (ptr_add a n) (ptr_add b n) n dna dnb ?p) r t n n2 (m0 XOR m1))"
        by (rule three [where ?prod1.0 = "\<lambda>h. bn_mul_recursive h (ptr_add t n2) t (ptr_add t n) n 0 0 ?p"
            and ?prod2.0 = "\<lambda>h. bn_mul_recursive h r a b n 0 0 ?p"
            and ?prod3.0 = "\<lambda>h. bn_mul_recursive h (ptr_add r n2) (ptr_add a n) (ptr_add b n) n dna dnb ?p"];
          erule r0 r1)
      moreover have "bn_mul_recursive h r a b n2 dna dnb t =
          combine_products (bn_mul_recursive (bn_mul_recursive (bn_mul_recursive h2 (ptr_add t n2) t (ptr_add t n) n 0 0 ?p) r a b n 0 0 ?p)
            (ptr_add r n2) (ptr_add a n) (ptr_add b n) n dna dnb ?p) r t n n2 (m0 XOR m1)"
        using split False d01 n(4) by (subst sub) (auto simp: n_def [symmetric] Let_def)
      ultimately show ?thesis by simp
    qed
  qed
  then show ?case by (simp add: la_def lb_def)
qed

text \<open>The other way round: the result is cleared and then a part of it is written.\<close>

lemma stores_after_zero:
  assumes "in_array h r n" "l \<le> n" "clear_of r n t m" "stores [(r, l), (t, m)] (zero_words h r n) r l v h1"
  shows "stores [(r, n), (t, m)] h r n v h1"
proof -
  let ?h = "zero_words h r n"
  note z = zero_words_spec [OF assms(1)]
  have "covered [(r, n)] [(r, n), (t, m)]" "covered [(r, l), (t, m)] [(r, n), (t, m)]"
    using assms(2) by (simp_all add: within_def)
  then have w: "only_writes [(r, n), (t, m)] h h1"
    using only_writes_step [OF only_writes_mono [OF z(1)] storesD(1) [OF assms(4)]] by blast
  have i: "in_array ?h r l" "in_array h1 r l"
    using in_array_sub [OF assms(1), of 0 l] assms(2) only_writes_in_array [OF z(1)] only_writes_in_array [OF w] by simp_all
  have "wval (words_at ?h r (l + (n - l))) = wval (words_at ?h r l) + 2 ^ (64 * l) * wval (words_at ?h (ptr_add r l) (n - l))"
    by (rule wval_at_split [OF i(1)])
  then have rest: "wval (words_at ?h (ptr_add r l) (n - l)) = 0" using z(2) assms(2) by simp
  have "words_at h1 (ptr_add r l) (n - l) = words_at ?h (ptr_add r l) (n - l)"
    by (rule only_writes_words [OF storesD(1) [OF assms(4)]]) (use assms(2,3) in \<open>auto simp: clear_of_def\<close>)
  then have "wval (words_at h1 r (l + (n - l))) = v"
    using wval_at_split [OF i(2), of "n - l"] rest storesD(2) [OF assms(4)] by simp
  then show ?thesis using w assms(2) by (simp add: stores_def)
qed

lemma halve_until_spec:
  assumes "i = 2 ^ k" "tna < i" "tnb < i" "16 \<le> tna \<or> 16 \<le> tnb" "tna \<le> tnb + 1" "tnb \<le> tna + 1"
    and "halve_until i tna tnb = (big_rest, j)"
  shows "(\<exists>k. j = 2 ^ k) \<and> 2 * j \<le> i \<and> 8 \<le> j \<and>
    (if big_rest then j \<le> tna \<and> j \<le> tnb \<and> tna < 2 * j \<and> tnb < 2 * j
     else tna \<le> j \<and> tnb \<le> j \<and> j \<le> tna + 1 \<and> j \<le> tnb + 1)"
  using assms
proof (induction i tna tnb arbitrary: k rule: halve_until.induct)
  case (1 i tna tnb)
  obtain m where k: "k = Suc m" using "1.prems"(1-4) by (cases k) auto
  define l where "l = i div 2"
  have l: "i = 2 * l" "l = 2 ^ m" using "1.prems"(1) by (simp_all add: l_def k)
  consider (big_rest) "l < tna \<or> l < tnb" | (exact) "\<not> (l < tna \<or> l < tnb)" "l = tna \<or> l = tnb" | (go) "tna < l" "tnb < l"
    by linarith
  then show ?case
  proof cases
    case big_rest
    then have "big_rest = True" "j = l" using "1.prems"(7) by (auto simp: halve_until.simps [of i] l_def [symmetric] Let_def)
    then show ?thesis using big_rest l "1.prems" by auto
  next
    case exact
    then have "big_rest = False" "j = l" using "1.prems"(7) by (auto simp: halve_until.simps [of i] l_def [symmetric] Let_def)
    then show ?thesis using exact l "1.prems" by auto
  next
    case go
    then have "halve_until l tna tnb = (big_rest, j)"
      using "1.prems"(7) by (auto simp: halve_until.simps [of i] l_def [symmetric] Let_def)
    then show ?thesis using "1.IH" [OF l_def _ _ l(2) go "1.prems"(4-6)] go l(1) by auto
  qed
qed

lemma part_recursive_spec:
  assumes "n = 2 ^ k" "8 \<le> n" "tna < n" "tnb < n" "tna \<le> tnb + 1" "tnb \<le> tna + 1"
    and "room h r (4 * n) a (n + tna) b (n + tnb) t (8 * n)"
  shows "stores [(r, 4 * n), (t, 8 * n)] h r (4 * n)
    (wval (words_at h a (n + tna)) * wval (words_at h b (n + tnb))) (bn_mul_part_recursive h r a b n tna tnb t)"
  using assms
proof (induction n arbitrary: k tna tnb h r a b t rule: less_induct)
  case (less n)
  define n2 where "n2 = n * 2"
  have n2: "n2 = 2 * n" "2 * n2 = 4 * n" "4 * n2 = 8 * n" by (simp_all add: n2_def)
  have rm: "room h r (2 * n2) a (n + tna) b (n + tnb) t (4 * n2)" using less.prems(7) by (simp only: n2(2,3))
  obtain h1 m0 where d0: "bn_abs_sub_part_words h t a (ptr_add a n) tna (int n - int tna) (ptr_add t n2) = (h1, m0)" by fastforce
  obtain h2 m1 where d1: "bn_abs_sub_part_words h1 (ptr_add t n) (ptr_add b n) b tnb (int tnb - int n) (ptr_add t n2) = (h2, m1)"
    by fastforce
  have le: "tna \<le> n" "tnb \<le> n" using less.prems by simp_all
  note three = three_products [OF rm n2(1) le _ _ _ d0 d1]
  let ?p = "ptr_add t (n2 * 2)"
  note sub = bn_mul_part_recursive.simps [of h r a b n tna tnb t, folded n2_def, unfolded Let_def d0 d1 prod.case]
  have stepped: "tna + tnb \<le> n2" using less.prems by (simp add: n2_def)
  have "stores [(r, 2 * n2), (t, 4 * n2)] h r (2 * n2)
    (wval (words_at h a (n + tna)) * wval (words_at h b (n + tnb))) (bn_mul_part_recursive h r a b n tna tnb t)"
  proof (cases "n = 8")
    case True
    have r8: "stores [(x, n2), (?p, 2 * n2)] h x n2 (wval (words_at h y n) * wval (words_at h y' n)) (bn_mul_comba8 h x y y')"
      if "room h x n2 y n y' n z m" for h x y y' z m
      using room_comba8 [of h x y y' z m] that True stores_mono [of "[(x, 16)]"] by (simp add: n2_def)
    have r9: "stores [(x, n2), (?p, 2 * n2)] h x n2 (wval (words_at h y tna) * wval (words_at h y' tnb))
        (zero_words (bn_mul_normal h x y tna y' tnb) (ptr_add x (tna + tnb)) (n2 - (tna + tnb)))"
      if "room h x n2 y tna y' tnb z m" for h x y y' z m
      by (rule stores_mono [OF stores_zero_rest [OF room_normal [OF that stepped] roomD(1) [OF that] stepped]])
        (simp_all add: within_def stepped)
    have "bn_mul_part_recursive h r a b n tna tnb t = combine_products
        (zero_words (bn_mul_normal (bn_mul_comba8 (bn_mul_comba8 h2 (ptr_add t n2) t (ptr_add t n)) r a b)
          (ptr_add r n2) (ptr_add a n) tna (ptr_add b n) tnb) (ptr_add (ptr_add r n2) (tna + tnb)) (n2 - (tna + tnb)))
        r t n n2 (m0 XOR m1)"
      unfolding sub using True by (simp add: add.assoc)
    then show ?thesis
      using three [where ?prod1.0 = "\<lambda>h. bn_mul_comba8 h (ptr_add t n2) t (ptr_add t n)"
          and ?prod2.0 = "\<lambda>h. bn_mul_comba8 h r a b"
          and ?prod3.0 = "\<lambda>h. zero_words (bn_mul_normal h (ptr_add r n2) (ptr_add a n) tna (ptr_add b n) tnb)
            (ptr_add (ptr_add r n2) (tna + tnb)) (n2 - (tna + tnb))", OF r8 r8 r9]
      by (simp only:)
  next
    case False
    have rec0: "stores [(x, n2), (?p, 2 * n2)] h x n2 (wval (words_at h y n) * wval (words_at h y' n)) (bn_mul_recursive h x y y' n 0 0 ?p)"
      if "room h x n2 y n y' n ?p (2 * n2)" for h x y y'
      using mul_recursive_spec [OF less.prems(1), of 0 0 h x y y' ?p] that n2 by simp
    define prod3 where "prod3 = (\<lambda>h. let h = zero_words h (ptr_add r n2) n2
      in if tna < 16 \<and> tnb < 16 then bn_mul_normal h (ptr_add r n2) (ptr_add a n) tna (ptr_add b n) tnb
         else let (big_rest, i) = halve_until n tna tnb
              in if big_rest then bn_mul_part_recursive h (ptr_add r n2) (ptr_add a n) (ptr_add b n) i (tna - i) (tnb - i) ?p
                 else bn_mul_recursive h (ptr_add r n2) (ptr_add a n) (ptr_add b n) i (int tna - int i) (int tnb - int i) ?p)"
    have r3: "stores [(ptr_add r n2, n2), (?p, 2 * n2)] h (ptr_add r n2) n2
        (wval (words_at h (ptr_add a n) tna) * wval (words_at h (ptr_add b n) tnb)) (prod3 h)"
      if rmh: "room h (ptr_add r n2) n2 (ptr_add a n) tna (ptr_add b n) tnb ?p (2 * n2)" for h
    proof -
      define h0 where "h0 = zero_words h (ptr_add r n2) n2"
      note rd = roomD [OF rmh]
      note z = zero_words_spec [OF rd(1), folded h0_def]
      have rm0: "room h0 (ptr_add r n2) n2 (ptr_add a n) tna (ptr_add b n) tnb ?p (2 * n2)"
        using rmh room_kept [OF z(1)] by simp
      have same: "words_at h0 (ptr_add a n) tna = words_at h (ptr_add a n) tna" "words_at h0 (ptr_add b n) tnb = words_at h (ptr_add b n) tnb"
        using only_writes_words [OF z(1)] rd(5,6) by simp_all
      let ?v = "wval (words_at h0 (ptr_add a n) tna) * wval (words_at h0 (ptr_add b n) tnb)"
      have "\<exists>l \<le> n2. stores [(ptr_add r n2, l), (?p, 2 * n2)] h0 (ptr_add r n2) l ?v (prod3 h)"
      proof (cases "tna < 16 \<and> tnb < 16")
        case True
        then have "prod3 h = bn_mul_normal h0 (ptr_add r n2) (ptr_add a n) tna (ptr_add b n) tnb"
          by (simp add: prod3_def h0_def)
        then show ?thesis using room_normal [OF rm0 stepped] stepped stores_mono [of "[(ptr_add r n2, tna + tnb)]"] by fastforce
      next
        case False
        obtain big_rest i where hv: "halve_until n tna tnb = (big_rest, i)" by fastforce
        have sixteen: "16 \<le> tna \<or> 16 \<le> tnb" using False by linarith
        note hs = halve_until_spec [OF less.prems(1,3,4) sixteen less.prems(5,6) hv]
        obtain k' where i: "i = 2 ^ k'" "2 * i \<le> n" "8 \<le> i" using hs by blast
        have lt: "i < n" using i less.prems(2) by linarith
        show ?thesis
        proof (cases big_rest)
          case True
          then have c: "i \<le> tna" "i \<le> tnb" "tna < 2 * i" "tnb < 2 * i" using hs by simp_all
          have "room h0 (ptr_add r n2) (4 * i) (ptr_add a n) (i + (tna - i)) (ptr_add b n) (i + (tnb - i)) ?p (8 * i)"
            using room_sub [OF rm0, of 0 "4 * i" 0 tna 0 tnb 0 "8 * i"] c i(2) n2 by simp
          then have "stores [(ptr_add r n2, 4 * i), (?p, 8 * i)] h0 (ptr_add r n2) (4 * i)
              (wval (words_at h0 (ptr_add a n) (i + (tna - i))) * wval (words_at h0 (ptr_add b n) (i + (tnb - i))))
              (bn_mul_part_recursive h0 (ptr_add r n2) (ptr_add a n) (ptr_add b n) i (tna - i) (tnb - i) ?p)"
            by (rule less.IH [OF lt i(1,3), rotated -1]) (use c less.prems(5,6) in linarith)+
          moreover have "prod3 h = bn_mul_part_recursive h0 (ptr_add r n2) (ptr_add a n) (ptr_add b n) i (tna - i) (tnb - i) ?p"
            using False hv True unfolding prod3_def h0_def Let_def by auto
          ultimately have "stores [(ptr_add r n2, 4 * i), (?p, 8 * i)] h0 (ptr_add r n2) (4 * i) ?v (prod3 h)" using c by simp
          moreover have "covered [(ptr_add r n2, 4 * i), (?p, 8 * i)] [(ptr_add r n2, 4 * i), (?p, 2 * n2)]"
            using i(2) n2 by (simp add: within_def)
          moreover have "4 * i \<le> n2" using i(2) n2 by simp
          ultimately show ?thesis using stores_mono by blast
        next
          case small_rest: False
          then have c: "tna \<le> i" "tnb \<le> i" "i \<le> tna + 1" "i \<le> tnb + 1" using hs by simp_all
          have e: "nat (int i + (int tna - int i)) = tna" "nat (int i + (int tnb - int i)) = tnb" by simp_all
          have "room h0 (ptr_add r n2) (2 * i) (ptr_add a n) tna (ptr_add b n) tnb ?p (4 * i)"
            using room_sub [OF rm0, of 0 "2 * i" 0 tna 0 tnb 0 "4 * i"] i(2) n2 by simp
          then have "stores [(ptr_add r n2, 2 * i), (?p, 4 * i)] h0 (ptr_add r n2) (2 * i) ?v
              (bn_mul_recursive h0 (ptr_add r n2) (ptr_add a n) (ptr_add b n) i (int tna - int i) (int tnb - int i) ?p)"
            using mul_recursive_spec [OF i(1), of "int tna - int i" "int tnb - int i" h0, unfolded e] c by simp
          moreover have "prod3 h = bn_mul_recursive h0 (ptr_add r n2) (ptr_add a n) (ptr_add b n) i (int tna - int i) (int tnb - int i) ?p"
            using False hv small_rest unfolding prod3_def h0_def Let_def by auto
          ultimately have "stores [(ptr_add r n2, 2 * i), (?p, 4 * i)] h0 (ptr_add r n2) (2 * i) ?v (prod3 h)" by (simp only:)
          moreover have "covered [(ptr_add r n2, 2 * i), (?p, 4 * i)] [(ptr_add r n2, 2 * i), (?p, 2 * n2)]"
            using i(2) n2 by (simp add: within_def)
          moreover have "2 * i \<le> n2" using i(2) n2 by simp
          ultimately show ?thesis using stores_mono by blast
        qed
      qed
      then show ?thesis using stores_after_zero [OF rd(1) _ rd(7)] by (auto simp: h0_def [symmetric] same)
    qed
    have "bn_mul_part_recursive h r a b n tna tnb t = combine_products
        (prod3 (bn_mul_recursive (bn_mul_recursive h2 (ptr_add t n2) t (ptr_add t n) n 0 0 ?p) r a b n 0 0 ?p))
        r t n n2 (m0 XOR m1)"
      unfolding sub prod3_def Let_def using False less.prems(2) by simp
    then show ?thesis
      using three [where ?prod1.0 = "\<lambda>h. bn_mul_recursive h (ptr_add t n2) t (ptr_add t n) n 0 0 ?p"
          and ?prod2.0 = "\<lambda>h. bn_mul_recursive h r a b n 0 0 ?p" and ?prod3.0 = prod3, OF rec0 rec0 r3]
      by (simp only:)
  qed
  then show ?case by (simp only: n2(2,3))
qed

section \<open>What the recursive products promise\<close>

text \<open>C37: the recursive products are products. For operands whose lengths differ little from a power of two words,
  \<open>bn_mul_recursive\<close> and \<open>bn_mul_part_recursive\<close> store the exact product of the two numbers into the result, at every depth of
  the recursion and with every sign of the differences they multiply, and write nothing but the result and the scratch
  space; \<open>bn_mul_small\<close>, which has no scratch space, writes the result only.\<close>

theorem karatsuba_exact:
  assumes "n = 2 ^ k" "8 \<le> n" "la \<le> 2 * n" "lb \<le> 2 * n" "room h r (4 * n) a la b lb t (8 * n)"
  defines "v \<equiv> wval (words_at h a la) * wval (words_at h b lb)"
  shows "(2 * n \<le> la + 8 \<and> 2 * n \<le> lb + 8 \<longrightarrow>
      stores [(r, 4 * n), (t, 8 * n)] h r (4 * n) v
        (bn_mul_recursive h r a b (2 * n) (int la - int (2 * n)) (int lb - int (2 * n)) t)) \<and>
    (n \<le> la \<and> la < 2 * n \<and> n \<le> lb \<and> lb < 2 * n \<and> la \<le> lb + 1 \<and> lb \<le> la + 1 \<longrightarrow>
      stores [(r, 4 * n), (t, 8 * n)] h r (4 * n) v (bn_mul_part_recursive h r a b n (la - n) (lb - n) t)) \<and>
    (\<exists>h'. bn_mul_small h r (la + lb) a la b lb = Some h' \<and> stores [(r, la + lb)] h r (la + lb) v h')"
proof (intro conjI impI)
  assume len: "2 * n \<le> la + 8 \<and> 2 * n \<le> lb + 8"
  have e: "nat (int (2 * n) + (int la - int (2 * n))) = la" "nat (int (2 * n) + (int lb - int (2 * n))) = lb" by simp_all
  have "2 * n = 2 ^ Suc k" using assms(1) by simp
  from mul_recursive_spec [OF this, of "int la - int (2 * n)" "int lb - int (2 * n)" h r a b t, unfolded e]
  show "stores [(r, 4 * n), (t, 8 * n)] h r (4 * n) v
      (bn_mul_recursive h r a b (2 * n) (int la - int (2 * n)) (int lb - int (2 * n)) t)"
    using assms(3-5) len by (simp add: v_def)
next
  assume len: "n \<le> la \<and> la < 2 * n \<and> n \<le> lb \<and> lb < 2 * n \<and> la \<le> lb + 1 \<and> lb \<le> la + 1"
  then have e: "n + (la - n) = la" "n + (lb - n) = lb" by simp_all
  from part_recursive_spec [OF assms(1,2), of "la - n" "lb - n" h r a b t, unfolded e]
  show "stores [(r, 4 * n), (t, 8 * n)] h r (4 * n) v (bn_mul_part_recursive h r a b n (la - n) (lb - n) t)"
    unfolding v_def by this (use assms(5) len in \<open>simp; linarith\<close>)+
next
  have "la + lb \<le> 4 * n" using assms(3,4) by simp
  from room_normal [OF assms(5) this] have nm: "stores [(r, la + lb)] h r (la + lb) v (bn_mul_normal h r a la b lb)" by (simp only: v_def)
  show "\<exists>h'. bn_mul_small h r (la + lb) a la b lb = Some h' \<and> stores [(r, la + lb)] h r (la + lb) v h'"
  proof (cases "la = 8 \<and> lb = 8")
    case True
    have rm: "room h r 16 a 8 b 8 t (8 * n)" using room_sub [OF assms(5), of 0 16 0 8 0 8 0 "8 * n"] True assms(2) by simp
    then show ?thesis using room_comba8 [OF rm] True by (simp add: bn_mul_small_def v_def)
  qed (use nm in \<open>auto simp: bn_mul_small_def\<close>)
qed

definition words_store :: bns where
  "words_store = (\<lambda>p. \<lparr>d = replicate 80 (of_nat p + 2), width = 80, neg = False, static_data = False\<rparr>)"

theorem karatsuba_exact_witness:
  "wval (words_at (bn_mul_part_recursive words_store (0, 0) (1, 0) (2, 0) 8 7 7 (3, 0)) (0, 0) 32) =
    wval (replicate 15 3) * wval (replicate 15 4)"
proof -
  have rm: "room words_store (0, 0) (4 * 8) (1, 0) 15 (2, 0) 15 (3, 0) (8 * 8)"
    by (simp add: room_def words_store_def in_array_def clear_of_def)
  have a: "words_at words_store (1, 0) 15 = replicate 15 3" "words_at words_store (2, 0) 15 = replicate 15 4"
    by (simp_all add: words_at_def words_store_def)
  show ?thesis
    using karatsuba_exact [of 8 3 15 15 words_store "(0, 0)" "(1, 0)" "(2, 0)" "(3, 0)"] rm by (simp add: a [unfolded One_nat_def] stores_def)
qed

end
