(* ===== verification/Bn_Square.thy ===== *)
theory Bn_Square
  imports Bn_Karatsuba
begin

unbundle bit_operations_syntax

text \<open>
  What the squaring routines of \<open>Bn_Mul\<close> compute: the products of different words are formed once and
  doubled, and the squares of the words are added.
\<close>

section \<open>Squares and cross products\<close>

fun squares :: "u64 list \<Rightarrow> nat" where
  "squares [] = 0"
| "squares (w # ws) = unat w * unat w + 2 ^ 128 * squares ws"

fun crosses :: "u64 list \<Rightarrow> nat" where
  "crosses [] = 0"
| "crosses (w # ws) = 2 ^ 64 * (unat w * wval ws) + 2 ^ 128 * crosses ws"

lemma square_of_number: "wval ws * wval ws = squares ws + 2 * crosses ws"
proof (induction ws)
  case (Cons w ws)
  have W: "(2 :: nat) ^ 128 = 2 ^ 64 * 2 ^ 64" by simp
  have "wval (w # ws) * wval (w # ws) = unat w * unat w + 2 * (2 ^ 64 * (unat w * wval ws)) + 2 ^ 64 * 2 ^ 64 * (wval ws * wval ws)"
    unfolding wval.simps by (simp only: distrib_left distrib_right mult_2 ac_simps)
  then show ?case unfolding Cons.IH squares.simps crosses.simps W by (simp only: distrib_left distrib_right mult_2 ac_simps)
qed simp

lemma squares_append: "squares (xs @ [w]) = squares xs + 2 ^ (128 * length xs) * (unat w * unat w)"
  by (induction xs) (simp_all add: power_add algebra_simps)

text \<open>The cross products up to a word.\<close>

definition crosses_to :: "u64 list \<Rightarrow> nat \<Rightarrow> nat" where
  "crosses_to ws j = (\<Sum>i < j. 2 ^ (64 * (2 * i + 1)) * (unat (ws ! i) * wval (drop (Suc i) ws)))"

lemma crosses_as_sum: "crosses ws = crosses_to ws (length ws)"
proof (induction ws)
  case (Cons w ws)
  have "crosses_to (w # ws) (length (w # ws)) = 2 ^ 64 * (unat w * wval ws) +
      (\<Sum>i < length ws. 2 ^ (64 * (2 * Suc i + 1)) * (unat (ws ! i) * wval (drop (Suc i) ws)))"
    unfolding crosses_to_def length_Cons sum.lessThan_Suc_shift by simp
  also have "(\<Sum>i < length ws. 2 ^ (64 * (2 * Suc i + 1)) * (unat (ws ! i) * wval (drop (Suc i) ws))) =
      2 ^ 128 * crosses_to ws (length ws)"
    unfolding crosses_to_def sum_distrib_left by (rule sum.cong) (simp_all add: power_add)
  finally show ?case by (simp add: Cons.IH)
qed (simp add: crosses_to_def)

lemma crosses_to_last: "0 < length ws \<Longrightarrow> crosses_to ws (length ws - 1) = crosses ws"
  unfolding crosses_as_sum by (cases "length ws") (simp_all add: crosses_to_def)

subsection \<open>The squares of the words\<close>

lemma sqr_words_spec:
  assumes "in_array h r (2 * n)" "in_array h a n" "clear_of r (2 * n) a n"
  shows "stores [(r, 2 * n)] h r (2 * n) (squares (words_at h a n)) (bn_sqr_words h r a n)"
proof -
  define body where "body = (\<lambda>i h. let (r0, r1) = sqr (word_at h a i)
      in set_word (set_word h r (2 * i) r0) r (2 * i + 1) r1)"
  have "only_writes [(r, 2 * n)] h (fold body [0..<m] h) \<and>
      wval (words_at (fold body [0..<m] h) r (2 * m)) = squares (words_at h a m)" if "m \<le> n" for m
    using that
  proof (induction m)
    case (Suc m)
    define h1 where "h1 = fold body [0..<m] h"
    have inv: "only_writes [(r, 2 * n)] h h1" "wval (words_at h1 r (2 * m)) = squares (words_at h a m)"
      using Suc by (simp_all add: h1_def)
    have ia: "in_array h a (Suc m)" using assms(2) Suc.prems by (simp add: in_array_def)
    have w: "word_at h1 a m = word_at h a m"
      by (rule only_writes_word [OF inv(1) _ ia]) (use assms(3) Suc.prems apart_one [of r "2 * n" a n m] in simp)
    obtain r0 r1 where sq: "sqr (word_at h a m) = (r0, r1)" by fastforce
    define h2 where "h2 = set_word h1 r (2 * m) r0"
    define h3 where "h3 = set_word h2 r (2 * m + 1) r1"
    have "body m h1 = h3" using sq w by (simp add: body_def h2_def h3_def Let_def)
    then have run: "fold body [0..<Suc m] h = h3" by (simp add: h1_def)
    have "in_array h1 r (2 * n)" using assms(1) only_writes_in_array [OF inv(1)] by simp
    then have i1: "in_array h1 r (Suc (2 * m))" using Suc.prems by (simp add: in_array_def)
    note s2 = set_word_spec' [OF i1, of r0, folded h2_def]
    have "in_array h2 r (2 * n)" using \<open>in_array h1 r (2 * n)\<close> only_writes_in_array [OF s2(1)] by simp
    then have i2: "in_array h2 r (Suc (2 * m + 1))" using Suc.prems by (simp add: in_array_def)
    note s3 = set_word_spec' [OF i2, of r1, folded h3_def]
    have w3: "only_writes [(r, 2 * n)] h h3"
      by (rule only_writes_step [OF only_writes_step [OF inv(1) s2(1)] s3(1)]) (use Suc.prems in \<open>simp_all add: within_def\<close>)
    have low: "words_at h3 r (2 * m) = words_at h1 r (2 * m)" "word_at h3 r (2 * m) = r0"
      using only_writes_words [OF s2(1)] only_writes_words [OF s3(1)] only_writes_word [OF s3(1) _ i1 [folded only_writes_in_array [OF s2(1)]]] s2(2)
      by (simp_all add: clear_of_def)
    have "in_array h3 r (Suc (2 * m + 1))" using i2 only_writes_in_array [OF s3(1)] by simp
    then have i3: "in_array h3 r (Suc (2 * m))" "in_array h3 r (Suc (Suc (2 * m)))" by (simp_all add: in_array_def)
    have "wval (words_at h3 r (2 * Suc m)) = wval (words_at h3 r (2 * m)) + 2 ^ (64 * (2 * m)) * unat r0 + 2 ^ (64 * Suc (2 * m)) * unat r1"
      using wval_at_Suc [OF i3(2)] wval_at_Suc [OF i3(1)] low(2) s3(2) by simp
    also have "\<dots> = squares (words_at h a m) + 2 ^ (128 * m) * (unat r0 + 2 ^ 64 * unat r1)"
      using inv(2) low(1) by (simp add: power_add algebra_simps)
    also have "unat r0 + 2 ^ 64 * unat r1 = unat (word_at h a m) * unat (word_at h a m)" by (rule sqr_value [OF sq])
    also have "squares (words_at h a m) + 2 ^ (128 * m) * (unat (word_at h a m) * unat (word_at h a m)) = squares (words_at h a (Suc m))"
      using ia by (simp add: words_at_Suc squares_append length_words_at in_array_def)
    finally show ?case using w3 by (simp only: run)
  qed simp
  then show ?thesis by (simp add: stores_def bn_sqr_words_def by_four_fold body_def)
qed

section \<open>The schoolbook square\<close>

text \<open>Row \<open>j\<close>, with the pointers that the code has there.\<close>

definition sqr_row :: "words_ptr \<Rightarrow> words_ptr \<Rightarrow> nat \<Rightarrow> nat \<Rightarrow> bns \<Rightarrow> bns" where
  "sqr_row r a n j h =
    (let (h, c) = bn_mul_add_words h (ptr_add r (2 * j + 1)) (ptr_add a (j + 1)) (n - 1 - j) (word_at h a j)
     in set_word h (ptr_add r (2 * j + 1)) (n - 1 - j) c)"

lemma sqr_rows_fold: "sqr_rows h (ptr_add r 3) (ptr_add a 1) n = fold (sqr_row r a n) [1..<n - 1] h"
proof -
  define body where "body = (\<lambda>i (h, rp, ap).
      let ap = ptr_add ap 1;
          (h, c) = bn_mul_add_words h rp ap i (word_at h (fst ap, snd ap - 1) 0)
      in (set_word h rp i c, ptr_add rp 2, ap))"
  have row: "body (n - 1 - j) (h, ptr_add r (2 * j + 1), ptr_add a j) =
      (sqr_row r a n j h, ptr_add r (2 * Suc j + 1), ptr_add a (Suc j))" for j h
  proof -
    have "word_at h (fst (ptr_add a (Suc j)), snd (ptr_add a (Suc j)) - 1) 0 = word_at h a j"
      "word_at h (ptr_add a j) 0 = word_at h a j" by (simp_all add: word_at_def)
    then show ?thesis by (simp add: body_def sqr_row_def Let_def split: prod.splits)
  qed
  have rev: "rev [1..<n - 1] = map (\<lambda>j. n - 1 - j) [1..<n - 1]"
    by (rule nth_equalityI) (auto simp: rev_nth)
  have loop: "fold body (map (\<lambda>j. n - 1 - j) [1..<k]) (h, ptr_add r (2 * 1 + 1), ptr_add a 1) =
      (fold (sqr_row r a n) [1..<k] h, ptr_add r (2 * k + 1), ptr_add a k)" if "1 \<le> k" for k
    using that
  proof (induction k rule: dec_induct)
    case (step k)
    then show ?case using row [of k] by (simp del: ptr_add_simps)
  qed simp
  show ?thesis
  proof (cases "1 \<le> n - 1")
    case True
    have "2 * 1 + 1 = (3 :: nat)" by simp
    then have "fold body (rev [1..<n - 1]) (h, ptr_add r 3, ptr_add a 1) =
        (fold (sqr_row r a n) [1..<n - 1] h, ptr_add r (2 * (n - 1) + 1), ptr_add a (n - 1))"
      using loop [OF True] unfolding rev by (simp only:)
    then show ?thesis unfolding sqr_rows_def body_def [symmetric] by (simp only: fst_conv)
  qed (simp add: sqr_rows_def)
qed

lemma words_at_drop: "words_at h (ptr_add p j) (n - j) = drop j (words_at h p n)"
  by (simp add: words_at_def drop_take add.commute)

lemma sqr_row_spec:
  assumes "in_array h r (2 * n)" "in_array h a n" "clear_of r (2 * n) a n" "j < n - 1"
    and "wval (words_at h r (n + j)) = crosses_to (words_at h a n) j"
  defines "h' \<equiv> sqr_row r a n j h"
  shows "only_writes [(r, 2 * n - 1)] h h'" "wval (words_at h' r (n + Suc j)) = crosses_to (words_at h a n) (Suc j)"
proof -
  define l where "l = n - 1 - j"
  have l: "n + j = (2 * j + 1) + l" "n + Suc j = (2 * j + 1) + Suc l" "l = n - Suc j" using assms(4) by (simp_all add: l_def)
  let ?rp = "ptr_add r (2 * j + 1)" and ?ap = "ptr_add a (j + 1)"
  obtain h1 c where m: "bn_mul_add_words h ?rp ?ap l (word_at h a j) = (h1, c)" by fastforce
  have "clear_of ?rp l ?ap l" by (rule clear_of_sub [OF assms(3)]) (use assms(4) in \<open>simp_all add: l_def\<close>)
  then have ah: "ahead ?rp ?ap l" by (rule clear_ahead) simp
  have i: "in_array h ?rp l" "in_array h ?ap l" "in_array h ?rp (Suc l)"
    by (rule in_array_sub [OF assms(1)] in_array_sub [OF assms(2)]; use assms(4) in \<open>simp add: l_def\<close>)+
  note mul = mul_add_words_spec [OF ah i(1,2) m]
  have i1: "in_array h1 ?rp (Suc l)" using i(3) only_writes_in_array [OF mul(1)] by simp
  have h': "h' = set_word h1 ?rp l c" using m by (simp add: h'_def sqr_row_def l_def Let_def)
  note set = set_word_spec' [OF i1, of c, folded h']
  show "only_writes [(r, 2 * n - 1)] h h'"
    by (rule only_writes_step [OF only_writes_mono [OF mul(1)] set(1)]) (use assms(4) in \<open>auto simp: within_def l_def\<close>)
  have i': "in_array h' ?rp (Suc l)" using i1 only_writes_in_array [OF set(1)] by simp
  have keep: "words_at h' r (2 * j + 1) = words_at h r (2 * j + 1)" "words_at h' ?rp l = words_at h1 ?rp l"
    using only_writes_words [OF set(1)] only_writes_words [OF mul(1)] by (simp_all add: clear_of_def)
  have ir: "in_array h r (2 * j + 1)" "in_array h' r (2 * j + 1)"
    using in_array_sub [OF assms(1), of 0 "2 * j + 1"] i' assms(4) by (simp_all add: in_array_def)
  have aj: "word_at h a j = words_at h a n ! j" using nth_words_at [OF assms(2)] assms(4) by simp
  have rest: "words_at h ?ap l = drop (Suc j) (words_at h a n)" using words_at_drop [of h a "Suc j" n] by (simp add: l(3))
  have "wval (words_at h' r (n + Suc j)) = wval (words_at h r (2 * j + 1)) + 2 ^ (64 * (2 * j + 1)) *
      (wval (words_at h1 ?rp l) + 2 ^ (64 * l) * unat c)"
    unfolding l(2) wval_at_split [OF ir(2)] wval_at_Suc [OF i'] set(2) keep ..
  also have "\<dots> = wval (words_at h r (n + j)) + 2 ^ (64 * (2 * j + 1)) * (unat (word_at h a j) * wval (words_at h ?ap l))"
    unfolding mul(2) l(1) wval_at_split [OF ir(1)] by (simp only: distrib_left ac_simps)
  also have "\<dots> = crosses_to (words_at h a n) (Suc j)" unfolding assms(5) aj rest by (simp add: crosses_to_def)
  finally show "wval (words_at h' r (n + Suc j)) = crosses_to (words_at h a n) (Suc j)" .
qed

lemma sqr_rows_spec:
  assumes "in_array h r (2 * n)" "in_array h a n" "clear_of r (2 * n) a n" "1 \<le> k" "k \<le> n - 1"
    and "wval (words_at h r (n + 1)) = crosses_to (words_at h a n) 1"
  defines "h' \<equiv> fold (sqr_row r a n) [1..<k] h"
  shows "only_writes [(r, 2 * n - 1)] h h' \<and> wval (words_at h' r (n + k)) = crosses_to (words_at h a n) k"
  using assms(4,5) unfolding h'_def
proof (induction k rule: dec_induct)
  case (step k)
  define h1 where "h1 = fold (sqr_row r a n) [1..<k] h"
  have inv: "only_writes [(r, 2 * n - 1)] h h1" "wval (words_at h1 r (n + k)) = crosses_to (words_at h a n) k"
    using step by (simp_all add: h1_def)
  have i1: "in_array h1 r (2 * n)" "in_array h1 a n" using assms(1,2) only_writes_in_array [OF inv(1)] by simp_all
  have cl: "clear_of r (2 * n - 1) a n" using assms(3) by (auto simp: clear_of_def)
  have a1: "words_at h1 a n = words_at h a n" by (rule only_writes_words [OF inv(1)]) (use cl in simp)
  have k: "k < n - 1" using step.prems by simp
  note row = sqr_row_spec [OF i1 assms(3) k, unfolded a1, OF inv(2)]
  show ?case using only_writes_step [OF inv(1) row(1) covered_self] row(2) step.hyps by (simp add: h1_def)
qed (use assms(6) in simp)

lemma sqr_normal_spec:
  assumes "in_array h r (2 * n)" "in_array h a n" "in_array h tmp (2 * n)"
    and "clear_of r (2 * n) a n" "clear_of tmp (2 * n) a n" "clear_of r (2 * n) tmp (2 * n)"
  shows "stores [(r, 2 * n), (tmp, 2 * n)] h r (2 * n) (wval (words_at h a n) * wval (words_at h a n)) (bn_sqr_normal h r a n tmp)"
proof (cases "n = 0")
  case True
  then show ?thesis by (simp add: bn_sqr_normal_def stores_def)
next
  case False
  define A where "A = words_at h a n"
  have lA: "length A = n" using assms(2) by (simp add: A_def length_words_at)
  define h0 where "h0 = set_word (set_word h r (n * 2 - 1) 0) r 0 0"
  have i0: "in_array h r (Suc (n * 2 - 1))" using assms(1) False by (simp add: in_array_def)
  note s0 = set_word_spec' [OF i0, of 0]
  have "in_array h r (Suc 0)" using assms(1) False by (simp add: in_array_def)
  then have "in_array (set_word h r (n * 2 - 1) 0) r (Suc 0)" using only_writes_in_array [OF s0(1)] by simp
  note s1 = set_word_spec' [OF this, of 0, folded h0_def]
  have w0: "only_writes [(r, 2 * n), (tmp, 2 * n)] h h0"
    by (rule only_writes_step [OF only_writes_mono [OF s0(1)] s1(1)]) (use False in \<open>auto simp: within_def\<close>)
  have ir0: "in_array h0 r (2 * n)" "in_array h0 a n" using assms(1,2) only_writes_in_array [OF w0] by simp_all
  have a0: "words_at h0 a n = A"
    unfolding A_def by (rule only_writes_words [OF w0]) (use assms(4,5) in simp)
  have z0: "word_at h0 r 0 = 0" "word_at h0 r (2 * n - 1) = 0"
  proof -
    show "word_at h0 r 0 = 0" using s1(2) .
    show "word_at h0 r (2 * n - 1) = 0"
      using s0(2) False by (simp add: h0_def set_word_def word_at_def mult.commute nth_list_update)
  qed
  text \<open>After the rows the words hold the cross products; the last word is still zero.\<close>
  define rows where "rows = (\<lambda>h. if 1 < n then
      let (h, c) = bn_mul_words h (ptr_add r 1) (ptr_add a 1) (n - 1) (word_at h a 0)
      in fold (sqr_row r a n) [1..<n - 1] (set_word h (ptr_add r 1) (n - 1) c) else h)"
  have rows: "only_writes [(r, 2 * n)] h0 (rows h0) \<and> wval (words_at (rows h0) r (2 * n)) = crosses A"
  proof (cases "1 < n")
    case True
    obtain h1 c where m: "bn_mul_words h0 (ptr_add r 1) (ptr_add a 1) (n - 1) (word_at h0 a 0) = (h1, c)" by fastforce
    have "clear_of (ptr_add r 1) (n - 1) (ptr_add a 1) (n - 1)" by (rule clear_of_sub [OF assms(4)]) (use True in simp_all)
    then have ah: "ahead (ptr_add r 1) (ptr_add a 1) (n - 1)" by (rule clear_ahead) simp
    have i: "in_array h0 (ptr_add r 1) (n - 1)" "in_array h0 (ptr_add a 1) (n - 1)" "in_array h0 (ptr_add r 1) (Suc (n - 1))"
      by (rule in_array_sub [OF ir0(1)] in_array_sub [OF ir0(2)]; use True in simp)+
    note mul = mul_words_spec [OF ah i(1,2) m]
    have i1: "in_array h1 (ptr_add r 1) (Suc (n - 1))" using i(3) only_writes_in_array [OF mul(1)] by simp
    define h2 where "h2 = set_word h1 (ptr_add r 1) (n - 1) c"
    note set = set_word_spec' [OF i1, of c, folded h2_def]
    have w2: "only_writes [(r, 2 * n - 1)] h0 h2" "only_writes [(ptr_add r 1, n)] h0 h2"
      by (rule only_writes_step [OF only_writes_mono [OF mul(1)] set(1)]; use True in \<open>auto simp: within_def\<close>)+
    have i2: "in_array h2 r (2 * n)" "in_array h2 a n" using ir0 only_writes_in_array [OF w2(1)] by simp_all
    have cl: "clear_of r (2 * n - 1) a n" using assms(4) by (auto simp: clear_of_def)
    have a2: "words_at h2 a n = A" unfolding a0 [symmetric] by (rule only_writes_words [OF w2(1)]) (use cl in simp)
    have aj: "word_at h0 a 0 = A ! 0" using nth_words_at [OF ir0(2), of 0] False by (simp add: a0)
    have rest: "words_at h0 (ptr_add a 1) (n - 1) = drop 1 A" using words_at_drop [of h0 a 1 n] by (simp add: a0)
    have r0: "in_array h2 r 1" "in_array h2 (ptr_add r 1) (Suc (n - 1))"
      using in_array_sub [OF i2(1), of 0 1] in_array_sub [OF i2(1), of 1 "Suc (n - 1)"] True by simp_all
    have "in_array h0 r (Suc 0)" using ir0(1) True by (simp add: in_array_def)
    then have "word_at h2 r 0 = 0" using only_writes_word [OF w2(2), of r 0] z0(1) by (simp add: clear_of_def)
    moreover have "words_at h2 (ptr_add r 1) (n - 1) = words_at h1 (ptr_add r 1) (n - 1)"
      by (rule only_writes_words [OF set(1)]) (simp add: clear_of_def)
    moreover have "n + 1 = 1 + Suc (n - 1)" using True by simp
    ultimately have "wval (words_at h2 r (n + 1)) = 2 ^ 64 * (wval (words_at h1 (ptr_add r 1) (n - 1)) + 2 ^ (64 * (n - 1)) * unat c)"
      using wval_at_split [OF r0(1), of "Suc (n - 1)"] wval_at_Suc [OF r0(2)] words_at_1 [OF r0(1)] set(2) by simp
    also have "\<dots> = crosses_to A 1" unfolding mul(2) aj rest by (simp add: crosses_to_def)
    finally have v2: "wval (words_at h2 r (n + 1)) = crosses_to A 1" .
    have "only_writes [(r, 2 * n - 1)] h2 (rows h0) \<and> wval (words_at (rows h0) r (n + (n - 1))) = crosses_to A (n - 1)"
    proof -
      have run: "rows h0 = fold (sqr_row r a n) [1..<n - 1] h2" unfolding rows_def h2_def using True m by simp
      have "1 \<le> n - 1" using True by simp
      from sqr_rows_spec [OF i2 assms(4) this order_refl, unfolded a2, OF v2] show ?thesis unfolding run .
    qed
    then have w: "only_writes [(r, 2 * n - 1)] h2 (rows h0)" and v: "wval (words_at (rows h0) r (n + (n - 1))) = crosses A"
      using crosses_to_last [of A] lA False by simp_all
    have w': "only_writes [(r, 2 * n - 1)] h0 (rows h0)" by (rule only_writes_step [OF w2(1) w covered_self])
    have len: "2 * n = Suc (n + (n - 1))" using True by simp
    have "in_array (rows h0) r (Suc (n + (n - 1)))" using ir0(1) only_writes_in_array [OF w'] by (simp add: len)
    moreover have "word_at (rows h0) r (n + (n - 1)) = 0"
      using only_writes_word [OF w', of r "n + (n - 1)"] ir0(1) z0(2) len by (simp add: clear_of_def)
    ultimately have "wval (words_at (rows h0) r (2 * n)) = crosses A" using wval_at_Suc v unfolding len by simp
    moreover have "only_writes [(r, 2 * n)] h0 (rows h0)" by (rule only_writes_mono [OF w']) (simp add: within_def)
    ultimately show ?thesis by blast
  next
    case one: False
    then have n: "n = 1" using False by simp
    have i2: "in_array h0 r (Suc 1)" using ir0(1) by (simp add: n numeral_2_eq_2)
    then have "wval (words_at h0 r (2 * n)) = 0"
      using wval_at_Suc [OF i2] words_at_1 [of h0 r] z0 by (simp add: n numeral_2_eq_2 in_array_def)
    moreover have "crosses A = 0" using lA by (cases A) (simp_all add: n)
    ultimately show ?thesis by (simp add: rows_def n)
  qed
  define h2 where "h2 = rows h0"
  have w2: "only_writes [(r, 2 * n), (tmp, 2 * n)] h h2"
    by (rule only_writes_step [OF w0 conjunct1 [OF rows, folded h2_def]]) simp
  have i2: "in_array h2 r (2 * n)" "in_array h2 a n" "in_array h2 tmp (2 * n)"
    using assms(1-3) only_writes_in_array [OF w2] by simp_all
  have a2: "words_at h2 a n = A" unfolding A_def by (rule only_writes_words [OF w2]) (use assms(4,5) in simp)
  obtain h3 c3 where s3: "bn_add_words h2 r r r (n * 2) = (h3, c3)" by fastforce
  have n2: "n * 2 = 2 * n" by simp
  note dbl = add_words_spec [OF ahead_self ahead_self i2(1,1,1) s3 [unfolded n2]]
  define h4 where "h4 = bn_sqr_words h3 tmp a n"
  have i3: "in_array h3 tmp (2 * n)" "in_array h3 a n" using i2 only_writes_in_array [OF dbl(1)] by simp_all
  have a3: "words_at h3 a n = A" unfolding a2 [symmetric] by (rule only_writes_words [OF dbl(1)]) (use assms(4) in simp)
  note sq = sqr_words_spec [OF i3 assms(5), folded h4_def, unfolded a3]
  obtain h5 c5 where s5: "bn_add_words h4 r r tmp (n * 2) = (h5, c5)" by fastforce
  have i4: "in_array h4 r (2 * n)" "in_array h4 tmp (2 * n)"
    using i2 only_writes_in_array [OF dbl(1)] only_writes_in_array [OF storesD(1) [OF sq]] by simp_all
  have ah: "ahead r tmp (2 * n)" by (rule clear_ahead [OF assms(6)]) simp
  note add = add_words_spec [OF ahead_self ah i4(1,1,2) s5 [unfolded n2]]
  have code: "bn_sqr_normal h r a n tmp = h5"
  proof (cases "1 < n")
    case True
    obtain g1 c where m: "bn_mul_words h0 (ptr_add r 1) (ptr_add a 1) (n - 1) (word_at h0 a 0) = (g1, c)" by fastforce
    define g2 where "g2 = set_word g1 (ptr_add r 1) (n - 1) c"
    have h2: "h2 = fold (sqr_row r a n) [1..<n - 1] g2" unfolding h2_def rows_def g2_def using True m by simp
    have "h2 = g2" if "\<not> 2 < n" using that unfolding h2 by simp
    then have h2': "h2 = (if 2 < n then sqr_rows g2 (ptr_add r 3) (ptr_add a 1) n else g2)" using h2 sqr_rows_fold [of g2 r a n] by simp
    have w: "word_at h0 (fst (ptr_add a 1), snd (ptr_add a 1) - 1) 0 = word_at h0 a 0" by (simp add: word_at_def)
    have p3: "ptr_add (ptr_add r 1) 2 = ptr_add r 3" by (simp add: ptr_add_def)
    show ?thesis
      unfolding bn_sqr_normal_def Let_def h0_def [symmetric]
      using False True m s3 s5 h2'
      by (cases "2 < n") (simp_all add: w [unfolded One_nat_def] g2_def [unfolded One_nat_def, symmetric] h4_def p3 [unfolded One_nat_def] del: ptr_add_simps)
  next
    case one: False
    then have "h2 = h0" by (simp add: h2_def rows_def)
    then show ?thesis unfolding bn_sqr_normal_def Let_def h0_def [symmetric] using False one s3 s5 by (simp add: h4_def)
  qed
  have "only_writes [(r, 2 * n), (tmp, 2 * n)] h h5"
    by (rule only_writes_step [OF only_writes_step [OF only_writes_step [OF w2 dbl(1)] storesD(1) [OF sq]] add(1)]) simp_all
  moreover have "wval (words_at h5 r (2 * n)) = wval A * wval A"
  proof -
    have v2: "wval (words_at h2 r (2 * n)) = crosses A" using rows by (simp add: h2_def)
    have r4: "words_at h4 r (2 * n) = words_at h3 r (2 * n)"
      by (rule only_writes_words [OF storesD(1) [OF sq]]) (use assms(6) in \<open>simp add: clear_of_sym\<close>)
    have "wval A < 2 ^ (64 * n)" using wval_bound [of A] lA by simp
    then have "wval A * wval A < 2 ^ (64 * n) * 2 ^ (64 * n)" by (intro mult_strict_mono) simp_all
    also have "\<dots> = 2 ^ (64 * (2 * n))" by (simp only: mult_2 distrib_left power_add)
    finally have b: "squares A + 2 * crosses A < 2 ^ (64 * (2 * n))" by (simp only: square_of_number)
    have d3: "wval (words_at h3 r (2 * n)) + 2 ^ (64 * (2 * n)) * unat c3 = 2 * crosses A" using dbl(3) v2 by simp
    have "unat c3 = 0" using d3 b by (cases "unat c3") auto
    then have "wval (words_at h3 r (2 * n)) = 2 * crosses A" using d3 by simp
    then have d5: "wval (words_at h5 r (2 * n)) + 2 ^ (64 * (2 * n)) * unat c5 = 2 * crosses A + squares A"
      using add(3) storesD(2) [OF sq] by (simp add: r4)
    have "unat c5 = 0" using d5 b by (cases "unat c5") auto
    then show ?thesis using d5 by (simp add: square_of_number)
  qed
  ultimately show ?thesis by (simp add: stores_def code A_def)
qed

section \<open>The recursive square\<close>

text \<open>With the three squares in place, the end of the routine puts the square together.\<close>

lemma square_of_parts:
  assumes rm: "room h r (2 * n2) a n2 a n2 t (4 * n2)" and n2: "n2 = 2 * n"
    and P: "wval (words_at h r n2) = A0 * A0" and Q: "wval (words_at h (ptr_add r n2) n2) = A1 * A1"
    and M: "wval (words_at h (ptr_add t n2) n2) = nat_dist A0 A1 * nat_dist A0 A1"
    and A: "A0 < 2 ^ (64 * n)" "A1 < 2 ^ (64 * n)"
    and s1: "bn_add_words h t r (ptr_add r n2) n2 = (h1, c)"
    and s2: "bn_sub_words h1 (ptr_add t n2) t (ptr_add t n2) n2 = (h2, b)"
    and s3: "bn_add_words h2 (ptr_add r n) (ptr_add r n) (ptr_add t n2) n2 = (h3, k)"
  shows "stores [(r, 2 * n2), (t, 4 * n2)] h r (2 * n2) ((A0 + 2 ^ (64 * n) * A1) * (A0 + 2 ^ (64 * n) * A1))
    (fst (carry_on h3 r (n + n2) (n2 + n2) (c - b + k)))"
proof -
  let ?m = "ptr_add t n2"
  note rd = roomD [OF rm]
  have ah: "ahead t r n2" "ahead t (ptr_add r n2) n2" "ahead ?m t n2"
    using rd(7) by (auto simp: ahead_def clear_of_def)
  have i: "in_array h t n2" "in_array h r n2" "in_array h (ptr_add r n2) n2" "in_array h ?m n2"
    using rd(1,4) by (simp_all add: in_array_def)
  note r1 = add_words_spec [OF ah(1,2) i(1-3) s1, unfolded P Q]
  note i1 = i [folded only_writes_in_array [OF r1(1)]]
  note r2 = sub_words_spec [OF ah(3) ahead_self i1(4,1,4) s2]
  have M1: "wval (words_at h1 ?m n2) = nat_dist A0 A1 * nat_dist A0 A1"
    using only_writes_words [OF r1(1), of ?m n2] M by (simp add: clear_of_def)
  have Z: "int (2 * (A0 * A1)) = int (A0 * A0) + int (A1 * A1) - int (nat_dist A0 A1 * nat_dist A0 A1)"
  proof -
    have "int (nat_dist A0 A1) = (if A0 < A1 then int A1 - int A0 else int A0 - int A1)" by (simp add: nat_dist_def)
    then show ?thesis unfolding of_nat_mult by (simp only:) (cases "A0 < A1"; simp add: algebra_simps)
  qed
  have "(if (- 1 :: u64) = 0 then wval (words_at h1 t n2) + nat_dist A0 A1 * nat_dist A0 A1 else wval (words_at h2 ?m n2)) +
        2 ^ (64 * n2) * unat (constant_time_select_w (- 1) (c - b) (c + 0)) = 2 * (A0 * A1)"
    "unat (constant_time_select_w (- 1) (c - b) (c + 0)) \<le> 2"
    by (rule middle_term [where Z = "2 * (A0 * A1)", OF r1(2) r2(2) _ _ r1(3) r2(3) [unfolded M1] _ wval_at_bound]; use Z in simp)+
  then have mid: "wval (words_at h2 ?m n2) + 2 ^ (64 * n2) * unat (c - b) = 2 * (A0 * A1)" "unat (c - b) \<le> 2"
    by (simp_all add: select_w_spec)
  have w2: "only_writes [(t, 4 * n2)] h h2"
    by (rule only_writes_step [OF only_writes_mono [OF r1(1)] r2(1)]) (simp_all add: within_def)
  have r2same: "words_at h2 r (2 * n2) = words_at h r (2 * n2)"
    by (rule only_writes_words [OF w2]) (use rd(7) in \<open>simp add: clear_of_sym\<close>)
  have "wval (words_at h r (2 * n2)) = A0 * A0 + 2 ^ (64 * n2) * (A1 * A1)"
    using wval_at_split [OF i(2), of n2] P Q by (simp add: mult_2)
  then have PQ: "wval (words_at h2 r (2 * n2)) = A0 * A0 + 2 ^ (64 * n2) * (A1 * A1)" by (simp add: r2same)
  have i2: "in_array h2 r (2 * n2)" "in_array h2 ?m n2" using rd(1) i(4) only_writes_in_array [OF w2] by simp_all
  have cl: "clear_of r (2 * n2) ?m n2" using rd(7) by (auto simp: clear_of_def)
  have W2: "(2 :: nat) ^ (64 * n2) = 2 ^ (64 * n) * 2 ^ (64 * n)" by (simp only: n2 mult_2 distrib_left power_add)
  have sq: "A0 * A0 + 2 ^ (64 * n) * (2 * (A0 * A1)) + 2 ^ (64 * n2) * (A1 * A1) =
      (A0 + 2 ^ (64 * n) * A1) * (A0 + 2 ^ (64 * n) * A1)"
    unfolding W2 by (simp add: algebra_simps)
  have "A0 + 2 ^ (64 * n) * A1 < 2 ^ (64 * n2)"
  proof -
    have "2 ^ (64 * n) * Suc A1 \<le> (2 :: nat) ^ (64 * n) * 2 ^ (64 * n)" using A(2) by (intro mult_le_mono2) simp
    then show ?thesis using A(1) unfolding W2 by simp
  qed
  then have "(A0 + 2 ^ (64 * n) * A1) * (A0 + 2 ^ (64 * n) * A1) < 2 ^ (64 * n2) * 2 ^ (64 * n2)"
    by (intro mult_strict_mono) simp_all
  then have fits: "A0 * A0 + 2 ^ (64 * n2) * (A1 * A1) + 2 ^ (64 * n) * (2 * (A0 * A1)) < 2 ^ (64 * (2 * n2))"
    unfolding sq [symmetric] by (simp only: mult_2 distrib_left power_add add_ac)
  note last = add_middle [OF i2 cl n2 mid(2,1) PQ fits s3]
  have "only_writes [(r, 2 * n2), (t, 4 * n2)] h (fst (carry_on h3 r (n + n2) (n2 + n2) (c - b + k)))"
    by (rule only_writes_step [OF only_writes_mono [OF w2] last(1)]) simp_all
  then show ?thesis using last(2) sq by (simp add: stores_def)
qed

lemma sqr_recursive_spec:
  assumes "n2 = 2 ^ j" "room h r (2 * n2) a n2 a n2 t (4 * n2)"
  shows "stores [(r, 2 * n2), (t, 4 * n2)] h r (2 * n2) (wval (words_at h a n2) * wval (words_at h a n2)) (bn_sqr_recursive h r a n2 t)"
  using assms
proof (induction n2 arbitrary: j h r a t rule: less_induct)
  case (less n2)
  note rm = less.prems(2) note rd = roomD [OF rm]
  consider "n2 = 4" | "n2 = 8" | (normal) "n2 \<noteq> 4" "n2 \<noteq> 8" "n2 < 16" | (split) "16 \<le> n2" by linarith
  then show ?case
  proof cases
    case 1
    show ?thesis
      by (rule stores_mono [of "[(r, 2 * n2)]"])
        (use comba_stores(4) [OF rd(1,2,2,5,5)] 1 in \<open>simp_all add: bn_sqr_recursive.simps [of h r a 4]\<close>)
  next
    case 2
    show ?thesis
      by (rule stores_mono [of "[(r, 2 * n2)]"])
        (use comba_stores(3) [OF rd(1,2,2,5,5)] 2 in \<open>simp_all add: bn_sqr_recursive.simps [of h r a 8]\<close>)
  next
    case normal
    have it: "in_array h t (2 * n2)" using rd(4) by (simp add: in_array_def)
    have cl: "clear_of t (2 * n2) a n2" "clear_of r (2 * n2) t (2 * n2)"
      using clear_of_sub [OF rd(8), of 0 "2 * n2" 0 n2] clear_of_sub [OF rd(7), of 0 "2 * n2" 0 "2 * n2"] by simp_all
    have "bn_sqr_recursive h r a n2 t = bn_sqr_normal h r a n2 t" using normal by (subst bn_sqr_recursive.simps) simp
    then show ?thesis using stores_mono [OF sqr_normal_spec [OF rd(1,2) it rd(5) cl]] by (simp add: within_def)
  next
    case split
    define n where "n = n2 div 2"
    obtain i where j: "j = Suc i" using split less.prems(1) by (cases j) simp_all
    have n: "n2 = 2 * n" "n = 2 ^ i" "n < n2" using split less.prems(1) by (simp_all add: n_def j)
    let ?p = "ptr_add t (n2 * 2)"
    have rec: "stores [(x, n2), (z, 2 * n2)] h x n2 (wval (words_at h y n) * wval (words_at h y n)) (bn_sqr_recursive h x y n z)"
      if "room h x n2 y n y n z (2 * n2)" for h x y z
      using less.IH [OF n(3,2), of h x y z] that by (simp add: n(1))
    define h1 where "h1 = bn_abs_sub_words h t a (ptr_add a n) n (ptr_add t n)"
    define h2 where "h2 = bn_sqr_recursive h1 (ptr_add t n2) t n ?p"
    define h3 where "h3 = bn_sqr_recursive h2 r a n ?p"
    define h4 where "h4 = bn_sqr_recursive h3 (ptr_add r n2) (ptr_add a n) n ?p"
    obtain h5 c where s1: "bn_add_words h4 t r (ptr_add r n2) n2 = (h5, c)" by fastforce
    obtain h6 b where s2: "bn_sub_words h5 (ptr_add t n2) t (ptr_add t n2) n2 = (h6, b)" by fastforce
    obtain h7 k where s3: "bn_add_words h6 (ptr_add r n) (ptr_add r n) (ptr_add t n2) n2 = (h7, k)" by fastforce
    have code: "bn_sqr_recursive h r a n2 t = fst (carry_on h7 r (n + n2) (n2 + n2) (c - b + k))"
      using split s1 s2 s3
      by (subst bn_sqr_recursive.simps) (simp add: n_def [symmetric] h1_def [symmetric] h2_def [symmetric] h3_def [symmetric] h4_def [symmetric] Let_def)
    have dif: "only_writes [(t, n), (ptr_add t n, n)] h h1 \<and>
        wval (words_at h1 t n) = nat_dist (wval (words_at h a n)) (wval (words_at h (ptr_add a n) n))"
      unfolding h1_def
      by (intro conjI abs_sub_words_spec) (use rd(2,4,8) n(1) in \<open>auto simp: ahead_def clear_of_def in_array_def\<close>)
    have w1: "only_writes [(t, 4 * n2)] h h1" by (rule only_writes_mono [OF conjunct1 [OF dif]]) (use n(1) in \<open>simp add: within_def\<close>)
    have "room h (ptr_add t n2) n2 t n t n ?p (2 * n2)" using rd(4) n(1) by (simp add: room_def in_array_def clear_of_def)
    then have p2: "stores [(ptr_add t n2, n2), (?p, 2 * n2)] h1 (ptr_add t n2) n2
        (wval (words_at h1 t n) * wval (words_at h1 t n)) h2"
      unfolding h2_def by (intro rec) (simp only: room_kept [OF w1])
    have w2: "only_writes [(t, 4 * n2)] h h2" by (rule only_writes_step [OF w1 storesD(1) [OF p2]]) (simp add: within_def)
    have "room h r n2 a n a n ?p (2 * n2)" using room_sub [OF rm, of 0 n2 0 n 0 n "n2 * 2" "2 * n2"] n(1) by simp
    then have p3: "stores [(r, n2), (?p, 2 * n2)] h2 r n2 (wval (words_at h2 a n) * wval (words_at h2 a n)) h3"
      unfolding h3_def by (intro rec) (simp only: room_kept [OF w2])
    have w3: "only_writes [(r, n2), (t, 4 * n2)] h h3"
      by (rule only_writes_step [OF only_writes_mono [OF w2] storesD(1) [OF p3]]) (simp_all add: within_def)
    have "room h (ptr_add r n2) n2 (ptr_add a n) n (ptr_add a n) n ?p (2 * n2)"
      using room_sub [OF rm, of n2 n2 n n n n "n2 * 2" "2 * n2"] n(1) by simp
    then have p4: "stores [(ptr_add r n2, n2), (?p, 2 * n2)] h3 (ptr_add r n2) n2
        (wval (words_at h3 (ptr_add a n) n) * wval (words_at h3 (ptr_add a n) n)) h4"
      unfolding h4_def by (intro rec) (simp only: room_kept [OF w3])
    have w4: "only_writes [(r, 2 * n2), (t, 4 * n2)] h h4"
      by (rule only_writes_step [OF only_writes_mono [OF w3] storesD(1) [OF p4]]) (simp_all add: within_def)
    have same: "words_at h2 a n = words_at h a n" "words_at h3 (ptr_add a n) n = words_at h (ptr_add a n) n"
      by (rule only_writes_words [OF w2] only_writes_words [OF w3]; use rd(5,8) n(1) in \<open>auto simp: clear_of_def\<close>)+
    have keep_r: "words_at h4 r n2 = words_at h3 r n2"
      by (rule only_writes_words [OF storesD(1) [OF p4]]) (use rd(7) in \<open>auto simp: clear_of_def\<close>)
    have "words_at h4 (ptr_add t n2) n2 = words_at h3 (ptr_add t n2) n2"
      by (rule only_writes_words [OF storesD(1) [OF p4]]) (use rd(7) in \<open>auto simp: clear_of_def\<close>)
    also have "\<dots> = words_at h2 (ptr_add t n2) n2"
      by (rule only_writes_words [OF storesD(1) [OF p3]]) (use rd(7) in \<open>auto simp: clear_of_def\<close>)
    finally have keep_t: "words_at h4 (ptr_add t n2) n2 = words_at h2 (ptr_add t n2) n2" .
    have rm4: "room h4 r (2 * n2) a n2 a n2 t (4 * n2)" using rm by (simp only: room_kept [OF w4])
    have ia: "in_array h a n" using rd(2) n(1) by (simp add: in_array_def)
    have whole: "wval (words_at h a n2) = wval (words_at h a n) + 2 ^ (64 * n) * wval (words_at h (ptr_add a n) n)"
      using wval_at_split [OF ia, of n] by (simp add: n(1) mult_2)
    have "stores [(r, 2 * n2), (t, 4 * n2)] h4 r (2 * n2) (wval (words_at h a n2) * wval (words_at h a n2))
        (fst (carry_on h7 r (n + n2) (n2 + n2) (c - b + k)))"
      unfolding whole
    proof (rule square_of_parts [OF rm4 n(1) _ _ _ wval_at_bound wval_at_bound s1 s2 s3])
      show "wval (words_at h4 r n2) = wval (words_at h a n) * wval (words_at h a n)"
        using storesD(2) [OF p3] by (simp add: keep_r same)
      show "wval (words_at h4 (ptr_add r n2) n2) = wval (words_at h (ptr_add a n) n) * wval (words_at h (ptr_add a n) n)"
        using storesD(2) [OF p4] by (simp add: same)
      show "wval (words_at h4 (ptr_add t n2) n2) = nat_dist (wval (words_at h a n)) (wval (words_at h (ptr_add a n) n)) *
          nat_dist (wval (words_at h a n)) (wval (words_at h (ptr_add a n) n))"
        using storesD(2) [OF p2] dif by (simp add: keep_t)
    qed
    then show ?thesis unfolding code stores_def using only_writes_step [OF w4 _ covered_self] by blast
  qed
qed

section \<open>What the squares promise\<close>

text \<open>C38: the squares are squares. \<open>bn_sqr_normal\<close> for every length, \<open>bn_sqr_recursive\<close> for every power of two
  and \<open>bn_sqr_small\<close> for the lengths it takes store the exact square of the number, and write nothing but the
  result and the scratch space; \<open>bn_sqr_small\<close> stops the program for every other length.\<close>

theorem square_exact:
  assumes "room h r (2 * n) a n a n t (4 * n)"
  defines "square \<equiv> stores [(r, 2 * n), (t, 4 * n)] h r (2 * n) (wval (words_at h a n) * wval (words_at h a n))"
  shows "square (bn_sqr_normal h r a n t) \<and>
    (\<forall>j. n = 2 ^ j \<longrightarrow> square (bn_sqr_recursive h r a n t)) \<and>
    (if n \<le> 9 then \<exists>h'. bn_sqr_small h r (2 * n) a n t = Some h' \<and> square h' else bn_sqr_small h r (2 * n) a n t = None)"
proof -
  note rd = roomD [OF assms(1)]
  have cl: "in_array h t (2 * n)" "clear_of t (2 * n) a n" "clear_of r (2 * n) t (2 * n)"
    using in_array_sub [OF rd(4), of 0 "2 * n"] clear_of_sub [OF rd(8), of 0 "2 * n" 0 n] clear_of_sub [OF rd(7), of 0 "2 * n" 0 "2 * n"]
    by simp_all
  have normal: "square (bn_sqr_normal h r a n t)"
    unfolding square_def by (rule stores_mono [OF sqr_normal_spec [OF rd(1,2) cl(1) rd(5) cl(2,3)]]) (simp add: within_def)
  have comba: "square (bn_sqr_comba4 h r a)" if "n = 4"
    unfolding square_def by (rule stores_mono [OF comba_stores(4) [OF rd(1,2,2,5,5) that]]) simp
  have comba': "square (bn_sqr_comba8 h r a)" if "n = 8"
    unfolding square_def by (rule stores_mono [OF comba_stores(3) [OF rd(1,2,2,5,5) that]]) simp
  have "square (bn_sqr_recursive h r a n t)" if "n = 2 ^ j" for j
    unfolding square_def by (rule sqr_recursive_spec [OF that assms(1)])
  then show ?thesis using normal comba comba' by (auto simp: bn_sqr_small_def BN_SMALL_MAX_WORDS_def)
qed

theorem square_exact_witness:
  "wval (words_at (bn_sqr_recursive words_store (0, 0) (1, 0) 16 (3, 0)) (0, 0) 32) = wval (replicate 16 3) * wval (replicate 16 3)"
proof -
  have rm: "room words_store (0, 0) (2 * 16) (1, 0) 16 (1, 0) 16 (3, 0) (4 * 16)"
    by (simp add: room_def words_store_def in_array_def clear_of_def)
  have a: "words_at words_store (1, 0) 16 = replicate 16 3" by (simp add: words_at_def words_store_def)
  have "\<exists>j. (2 :: nat) ^ j = 16" by (rule exI [of _ 4]) simp
  then show ?thesis using square_exact [OF rm] by (simp add: a [unfolded One_nat_def] stores_def)
qed

end
