(* ===== verification/Bn_Ctx.thy ===== *)
theory Bn_Ctx
  imports Stack Bn_Bytes Bn_Frame
begin

text \<open>
  The pool of temporary numbers of \<^verbatim>\<open>crypto/fipsmodule/bn/ctx.c\<close>: frames are started and ended in the order of
  a stack, numbers are handed out within a frame and taken back, all at once, when it ends. The numbers are kept in a
  \<^verbatim>\<open>STACK_OF(BIGNUM)\<close>, modelled by \<open>Stack\<close>. What the C library's allocator does is the argument \<open>mem\<close>.
\<close>

section \<open>The code\<close>

text \<open>Which sizes are granted, what new words, cells and indexes hold, where the numbers of the pool are, and
  where the local arrays of a function are.\<close>

record malloc =
  m_grants :: "nat \<Rightarrow> bool"
  m_junk :: "nat \<Rightarrow> u64"
  m_cell :: nat
  m_at :: "nat \<Rightarrow> nat"
  m_local :: nat

record bn_stack =
  st_indexes :: "nat list"
  st_depth :: nat
  st_size :: nat

record bn_ctx =
  ctx_bignums :: "(nat, unit) stack option"
  ctx_stack :: bn_stack
  ctx_used :: nat
  ctx_error :: bool
  ctx_defer_error :: bool

definition BN_CTX_START_FRAMES :: nat where "BN_CTX_START_FRAMES = 32"

definition sizeof_BN_CTX :: nat where "sizeof_BN_CTX = 48"

definition BN_STACK_init :: bn_stack where
  "BN_STACK_init = \<lparr>st_indexes = [], st_depth = 0, st_size = 0\<rparr>"

definition BN_STACK_push :: "malloc \<Rightarrow> bn_stack \<Rightarrow> nat \<Rightarrow> bool \<times> bn_stack" where
  "BN_STACK_push mem st idx =
    (let push = (\<lambda>st. (True, st\<lparr>st_indexes := (st_indexes st)[st_depth st := idx], st_depth := st_depth st + 1\<rparr>)) in
     if st_depth st = st_size st then
       let new_size = (if st_size st \<noteq> 0 then size_mul (st_size st) 3 div 2 else BN_CTX_START_FRAMES)
       in if new_size \<le> st_size st \<or> (2 ^ 64 - 1) div 8 < new_size then (False, st)
          else if \<not> m_grants mem (new_size * 8) then (False, st)
          else push (st\<lparr>st_indexes := array_realloc (m_cell mem) (st_indexes st) new_size, st_size := new_size\<rparr>)
     else push st)"

text \<open>There must be a frame, which the code asserts.\<close>

definition BN_STACK_pop :: "bn_stack \<Rightarrow> nat \<times> bn_stack" where
  "BN_STACK_pop st = (st_indexes st ! (st_depth st - 1), st\<lparr>st_depth := st_depth st - 1\<rparr>)"

definition BN_CTX_new :: "malloc \<Rightarrow> bn_ctx option" where
  "BN_CTX_new mem =
    (if \<not> m_grants mem sizeof_BN_CTX then None
     else Some \<lparr>ctx_bignums = None, ctx_stack = BN_STACK_init, ctx_used = 0, ctx_error = False, ctx_defer_error = False\<rparr>)"

text \<open>The numbers that are freed, in order.\<close>

definition BN_CTX_free :: "bn_ctx option \<Rightarrow> nat list" where
  "BN_CTX_free ctx = (case ctx of None \<Rightarrow> [] | Some ctx \<Rightarrow> sk_pop_free_ex (ctx_bignums ctx))"

definition BN_CTX_start :: "malloc \<Rightarrow> bn_ctx \<Rightarrow> bn_ctx" where
  "BN_CTX_start mem ctx =
    (if ctx_error ctx then ctx
     else case BN_STACK_push mem (ctx_stack ctx) (ctx_used ctx) of
       (True, st) \<Rightarrow> ctx\<lparr>ctx_stack := st\<rparr>
     | (False, st) \<Rightarrow> ctx\<lparr>ctx_stack := st, ctx_error := True, ctx_defer_error := True\<rparr>)"

text \<open>The next number of the pool \<open>sk\<close>, which grows if all of it is in use.\<close>

definition ctx_next :: "malloc \<Rightarrow> bns \<Rightarrow> bn_ctx \<Rightarrow> (nat, unit) stack \<Rightarrow> nat option \<times> bns \<times> bn_ctx" where
  "ctx_next mem h ctx sk =
    (let ctx = ctx\<lparr>ctx_bignums := Some sk\<rparr>;
         take_next = (\<lambda>h ctx. case sk_value (ctx_bignums ctx) (ctx_used ctx) of
            None \<Rightarrow> (None, h, ctx)
          | Some ret \<Rightarrow> (Some ret, BN_zero h ret, ctx\<lparr>ctx_used := ctx_used ctx + 1\<rparr>))
     in if ctx_used ctx = sk_num (ctx_bignums ctx) then
          let bn = m_at mem (sk_num (ctx_bignums ctx))
          in case BN_new (m_grants mem) h bn of
               None \<Rightarrow> (None, h, ctx\<lparr>ctx_error := True\<rparr>)
             | Some h \<Rightarrow>
                 (case sk_push (m_grants mem) (Some (m_cell mem)) sk (Some bn) of
                    (n, sk) \<Rightarrow> if n = 0 then (None, h, ctx\<lparr>ctx_bignums := sk, ctx_error := True\<rparr>)
                               else take_next h (ctx\<lparr>ctx_bignums := sk\<rparr>))
        else take_next h ctx)"

definition BN_CTX_get :: "malloc \<Rightarrow> bns \<Rightarrow> bn_ctx \<Rightarrow> nat option \<times> bns \<times> bn_ctx" where
  "BN_CTX_get mem h ctx =
    (if ctx_error ctx then
       (None, h, if ctx_defer_error ctx then ctx\<lparr>ctx_defer_error := False\<rparr> else ctx)
     else case (case ctx_bignums ctx of None \<Rightarrow> sk_new_null (m_grants mem) | Some sk \<Rightarrow> Some sk) of
       None \<Rightarrow> (None, h, ctx\<lparr>ctx_error := True\<rparr>)
     | Some sk \<Rightarrow> ctx_next mem h ctx sk)"

definition BN_CTX_end :: "bn_ctx \<Rightarrow> bn_ctx" where
  "BN_CTX_end ctx =
    (if ctx_error ctx then ctx
     else let (used, st) = BN_STACK_pop (ctx_stack ctx) in ctx\<lparr>ctx_used := used, ctx_stack := st\<rparr>)"

section \<open>The invariant\<close>

text \<open>The frames that are open: what was in use when each was started.\<close>

definition ctx_frames :: "bn_ctx \<Rightarrow> nat list" where
  "ctx_frames ctx = take (st_depth (ctx_stack ctx)) (st_indexes (ctx_stack ctx))"

text \<open>How many numbers the pool holds.\<close>

definition ctx_pool :: "bn_ctx \<Rightarrow> nat" where
  "ctx_pool ctx = sk_num (ctx_bignums ctx)"

definition bn_stack_ok :: "bn_stack \<Rightarrow> bool" where
  "bn_stack_ok st \<longleftrightarrow> st_depth st \<le> st_size st \<and> length (st_indexes st) = st_size st \<and> st_size st * 8 < 2 ^ 64 \<and>
    (st_size st = 0 \<or> BN_CTX_START_FRAMES \<le> st_size st)"

definition ctx_ok :: "malloc \<Rightarrow> bn_ctx \<Rightarrow> bool" where
  "ctx_ok mem ctx \<longleftrightarrow>
    (case ctx_bignums ctx of None \<Rightarrow> True
     | Some sk \<Rightarrow> stack_ok sk \<and> stack_list sk = map (\<lambda>i. Some (m_at mem i)) [0..<s_num sk]) \<and>
    bn_stack_ok (ctx_stack ctx) \<and>
    (\<not> ctx_error ctx \<longrightarrow> sorted (ctx_frames ctx @ [ctx_used ctx]) \<and> ctx_used ctx \<le> ctx_pool ctx)"

text \<open>The numbers of the pool are distinct, as memory in use is, and those from \<open>k\<close> on are not in use.\<close>

definition unused :: "malloc \<Rightarrow> bn_ctx \<Rightarrow> nat \<Rightarrow> bool" where
  "unused mem ctx p \<longleftrightarrow> (\<exists>i. ctx_used ctx \<le> i \<and> p = m_at mem i)"

lemma push_spec:
  assumes "bn_stack_ok st" "BN_STACK_push mem st idx = (ok, st')"
  shows "bn_stack_ok st'" "\<not> ok \<Longrightarrow> st' = st"
    "ok \<Longrightarrow> take (st_depth st') (st_indexes st') = take (st_depth st) (st_indexes st) @ [idx]"
    "\<not> ok \<Longrightarrow> (\<exists>n. \<not> m_grants mem n) \<or> 2 ^ 60 \<le> st_size st"
proof -
  define n where "n = (if st_size st \<noteq> 0 then size_mul (st_size st) 3 div 2 else BN_CTX_START_FRAMES)"
  define st1 where "st1 = (if st_depth st = st_size st
      then st\<lparr>st_indexes := array_realloc (m_cell mem) (st_indexes st) n, st_size := n\<rparr> else st)"
  have len: "length (st_indexes st) = st_size st" "st_depth st \<le> st_size st" "st_size st * 8 < 2 ^ 64"
      "st_size st = 0 \<or> BN_CTX_START_FRAMES \<le> st_size st"
    using assms(1) by (simp_all add: bn_stack_ok_def)
  have cases: "ok = (\<not> (st_depth st = st_size st \<and> (n \<le> st_size st \<or> (2 ^ 64 - 1) div 8 < n \<or> \<not> m_grants mem (n * 8))))"
    "st' = (if ok then st1\<lparr>st_indexes := (st_indexes st1)[st_depth st1 := idx], st_depth := st_depth st1 + 1\<rparr> else st)"
    using assms(2) unfolding BN_STACK_push_def n_def [symmetric] Let_def by (auto simp: st1_def split: if_splits)
  show "\<not> ok \<Longrightarrow> st' = st" using cases by simp
  have st1: "st_depth st1 = st_depth st" "st_depth st1 < st_size st1" "length (st_indexes st1) = st_size st1"
      "take (st_depth st) (st_indexes st1) = take (st_depth st) (st_indexes st)" "st_size st1 * 8 < 2 ^ 64" if "ok"
    using that cases(1) len by (auto simp: st1_def take_realloc)
  moreover have "BN_CTX_START_FRAMES \<le> st_size st1" if "ok"
    using that cases(1) len(2,4) by (auto simp: st1_def n_def)
  ultimately show "bn_stack_ok st'" using cases(2) assms(1) by (cases ok) (auto simp: bn_stack_ok_def)
  show "ok \<Longrightarrow> take (st_depth st') (st_indexes st') = take (st_depth st) (st_indexes st) @ [idx]"
    using st1 cases(2) by (simp add: take_Suc_conv_app_nth)
  show "(\<exists>n. \<not> m_grants mem n) \<or> 2 ^ 60 \<le> st_size st" if "\<not> ok"
  proof (rule ccontr)
    assume "\<not> ((\<exists>n. \<not> m_grants mem n) \<or> 2 ^ 60 \<le> st_size st)"
    then have small: "st_size st < 2 ^ 60" "\<And>n. m_grants mem n" by auto
    then have "st_size st * 3 < 2 ^ 64" by simp
    then have "n = (if st_size st \<noteq> 0 then st_size st * 3 div 2 else 32)"
      by (simp add: n_def size_mul_def BN_CTX_START_FRAMES_def)
    then have "st_size st < n \<and> n \<le> (2 ^ 64 - 1) div 8" using small(1) len(4) by (auto simp: BN_CTX_START_FRAMES_def)
    then show False using that cases(1) small(2) by auto
  qed
qed

lemma ctx_okD:
  assumes "ctx_ok mem ctx"
  shows "bn_stack_ok (ctx_stack ctx)" "\<not> ctx_error ctx \<Longrightarrow> sorted (ctx_frames ctx @ [ctx_used ctx])"
    "\<not> ctx_error ctx \<Longrightarrow> ctx_used ctx \<le> ctx_pool ctx"
    "ctx_bignums ctx = Some sk \<Longrightarrow> stack_ok sk \<and> stack_list sk = map (\<lambda>i. Some (m_at mem i)) [0..<s_num sk]"
  using assms by (auto simp: ctx_ok_def)

lemma ctx_new_ok:
  assumes "BN_CTX_new mem = Some ctx"
  shows "ctx_ok mem ctx" "\<not> ctx_error ctx" "ctx_used ctx = 0" "ctx_frames ctx = []"
  using assms by (auto simp: BN_CTX_new_def BN_STACK_init_def ctx_ok_def bn_stack_ok_def ctx_frames_def ctx_pool_def split: if_splits)

lemma start_spec:
  assumes "ctx_ok mem ctx"
  defines "ctx' \<equiv> BN_CTX_start mem ctx"
  shows "ctx_ok mem ctx'" "ctx_used ctx' = ctx_used ctx" "ctx_pool ctx' = ctx_pool ctx" "ctx_error ctx \<Longrightarrow> ctx' = ctx"
    "\<not> ctx_error ctx' \<Longrightarrow> ctx_frames ctx' = ctx_frames ctx @ [ctx_used ctx] \<and> \<not> ctx_error ctx"
    "\<not> ctx_error ctx \<Longrightarrow> ctx_error ctx' \<Longrightarrow> (\<exists>n. \<not> m_grants mem n) \<or> 2 ^ 60 \<le> st_size (ctx_stack ctx)"
proof -
  note ok = ctx_okD [OF assms(1)]
  obtain b st where p: "BN_STACK_push mem (ctx_stack ctx) (ctx_used ctx) = (b, st)" by fastforce
  note push = push_spec [OF ok(1) p]
  have c: "ctx' = (if ctx_error ctx then ctx else if b then ctx\<lparr>ctx_stack := st\<rparr>
      else ctx\<lparr>ctx_stack := st, ctx_error := True, ctx_defer_error := True\<rparr>)"
    using p by (simp add: ctx'_def BN_CTX_start_def)
  show "ctx_used ctx' = ctx_used ctx" "ctx_pool ctx' = ctx_pool ctx" "ctx_error ctx \<Longrightarrow> ctx' = ctx"
    by (simp_all add: c ctx_pool_def)
  show fr: "ctx_frames ctx' = ctx_frames ctx @ [ctx_used ctx] \<and> \<not> ctx_error ctx" if "\<not> ctx_error ctx'"
    using that push(3) by (auto simp: c ctx_frames_def split: if_splits)
  show "(\<exists>n. \<not> m_grants mem n) \<or> 2 ^ 60 \<le> st_size (ctx_stack ctx)" if "\<not> ctx_error ctx" "ctx_error ctx'"
    using that push(4) by (auto simp: c split: if_splits)
  show "ctx_ok mem ctx'"
  proof (cases "ctx_error ctx'")
    case True
    then show ?thesis using assms(1) push(1) by (auto simp: c ctx_ok_def split: if_splits)
  next
    case False
    then have "\<not> ctx_error ctx" "ctx' = ctx\<lparr>ctx_stack := st\<rparr>" by (auto simp: c split: if_splits)
    moreover have "sorted (ctx_frames ctx' @ [ctx_used ctx'])"
      using fr [OF False] ok(2) \<open>ctx_used ctx' = ctx_used ctx\<close> by (simp add: sorted_append)
    ultimately show ?thesis using assms(1) push(1) by (simp add: ctx_ok_def ctx_pool_def)
  qed
qed

lemma end_spec:
  assumes "ctx_ok mem ctx"
  defines "ctx' \<equiv> BN_CTX_end ctx"
  shows "ctx_error ctx \<Longrightarrow> ctx' = ctx" "ctx_error ctx' = ctx_error ctx" "ctx_pool ctx' = ctx_pool ctx"
    "\<not> ctx_error ctx \<Longrightarrow> ctx_frames ctx = fs @ [u] \<Longrightarrow> ctx_ok mem ctx' \<and> ctx_frames ctx' = fs \<and> ctx_used ctx' = u"
proof -
  note ok = ctx_okD [OF assms(1)]
  show "ctx_error ctx \<Longrightarrow> ctx' = ctx" "ctx_error ctx' = ctx_error ctx" "ctx_pool ctx' = ctx_pool ctx"
    by (simp_all add: ctx'_def BN_CTX_end_def BN_STACK_pop_def ctx_pool_def)
  assume e: "\<not> ctx_error ctx" and fr: "ctx_frames ctx = fs @ [u]"
  define st where "st = ctx_stack ctx"
  have len: "st_depth st \<le> length (st_indexes st)" using ok(1) by (simp add: bn_stack_ok_def st_def)
  have tk: "take (st_depth st) (st_indexes st) = fs @ [u]" using fr by (simp add: ctx_frames_def st_def)
  then have dep: "st_depth st = Suc (length fs)" using len by (metis length_append_singleton length_take min.absorb2)
  then have "st_indexes st ! length fs = u" "take (length fs) (st_indexes st) = fs"
    using tk len by (simp_all add: take_Suc_conv_app_nth)
  then have c: "ctx' = ctx\<lparr>ctx_used := u, ctx_stack := st\<lparr>st_depth := length fs\<rparr>\<rparr>" "ctx_frames ctx' = fs"
    using e dep by (simp_all add: ctx'_def BN_CTX_end_def BN_STACK_pop_def st_def ctx_frames_def)
  have "sorted (fs @ [u]) \<and> u \<le> ctx_used ctx" using ok(2) [OF e] unfolding fr by (simp add: sorted_append)
  then show "ctx_ok mem ctx' \<and> ctx_frames ctx' = fs \<and> ctx_used ctx' = u"
    using assms(1) e c len dep ok(3) [OF e] by (auto simp: ctx_ok_def bn_stack_ok_def ctx_pool_def st_def)
qed

text \<open>A number that is handed out is one that is not in use; no other number that is in use changes.\<close>

lemma get_from:
  assumes "ctx_ok mem ctx" "ctx_bignums ctx = Some sk" "\<not> ctx_error ctx" "BN_CTX_get mem h ctx = (p, h', ctx')"
  shows "ctx_ok mem ctx' \<and> ctx_frames ctx' = ctx_frames ctx \<and> (p = None \<longleftrightarrow> ctx_error ctx') \<and>
    (\<forall>q. \<not> unused mem ctx q \<longrightarrow> h' q = h q) \<and> (\<forall>q. static_data (h' q) \<longrightarrow> static_data (h q)) \<and>
    (case p of
       None \<Rightarrow> ctx_used ctx' = ctx_used ctx \<and> ((\<exists>n. \<not> m_grants mem n) \<or> 2 ^ 64 \<le> (s_num_alloc sk + 1) * sizeof_ptr)
     | Some q \<Rightarrow> q = m_at mem (ctx_used ctx) \<and> width (h' q) = 0 \<and> neg (h' q) = False \<and> ctx_used ctx' = ctx_used ctx + 1)"
proof -
  note ok = ctx_okD [OF assms(1)]
  have sk: "stack_ok sk" "stack_list sk = map (\<lambda>i. Some (m_at mem i)) [0..<s_num sk]" "ctx_used ctx \<le> s_num sk"
    using ok(3,4) assms(2,3) by (simp_all add: ctx_pool_def sk_num_def)
  have cell: "sk_value (Some s) i = Some (m_at mem i)"
    if "stack_list s = map (\<lambda>i. Some (m_at mem i)) [0..<s_num s]" "i < s_num s" for s :: "(nat, unit) stack" and i
    using arg_cong [OF that(1), of "\<lambda>xs. xs ! i"] that(2) by (simp add: sk_value_def stack_list_def)
  have free: "unused mem ctx (m_at mem i)" if "ctx_used ctx \<le> i" for i using that by (auto simp: unused_def)
  have fr: "ctx_frames (ctx\<lparr>ctx_bignums := b, ctx_error := e\<rparr>) = ctx_frames ctx"
    "ctx_frames (ctx\<lparr>ctx_bignums := b, ctx_used := u\<rparr>) = ctx_frames ctx" "ctx_frames (ctx\<lparr>ctx_error := e\<rparr>) = ctx_frames ctx"
    "ctx_frames (ctx\<lparr>ctx_used := u\<rparr>) = ctx_frames ctx" for b e u
    by (simp_all add: ctx_frames_def)
  have sorted: "sorted (ctx_frames ctx @ [Suc (ctx_used ctx)])" using ok(2) assms(3) by (auto simp: sorted_append)
  have same: "ctx\<lparr>ctx_bignums := Some sk\<rparr> = ctx" using assms(2) by simp
  show ?thesis
  proof (cases "ctx_used ctx = s_num sk")
    case False
    then have "sk_value (Some sk) (ctx_used ctx) = Some (m_at mem (ctx_used ctx))" using cell sk by simp
    then have "p = Some (m_at mem (ctx_used ctx))" "h' = BN_zero h (m_at mem (ctx_used ctx))" "ctx' = ctx\<lparr>ctx_used := ctx_used ctx + 1\<rparr>"
      using assms(2-4) False by (simp_all add: BN_CTX_get_def ctx_next_def same sk_num_def)
    then show ?thesis using assms(1-3) False sk sorted free
      by (auto simp: BN_zero_def fr ctx_ok_def ctx_pool_def sk_num_def)
  next
    case True
    let ?bn = "m_at mem (s_num sk)"
    obtain n skp where push: "sk_push (m_grants mem) (Some (m_cell mem)) sk (Some ?bn) = (n, skp)" by fastforce
    consider (no) "\<not> m_grants mem 24" | (full) "m_grants mem 24" "n = 0" "skp = Some sk"
        "(\<exists>n. \<not> m_grants mem n) \<or> 2 ^ 64 \<le> (s_num_alloc sk + 1) * sizeof_ptr"
      | (pushed) s where "m_grants mem 24" "n \<noteq> 0" "skp = Some s" "stack_ok s" "stack_list s = stack_list sk @ [Some ?bn]" "s_num s = s_num sk + 1"
      by (rule sk_insert_spec [OF sk(1), of "m_grants mem" "Some (m_cell mem)" "Some ?bn" "s_num sk"])
        (use push in \<open>auto simp: sk_push_def insert_at_def stack_list_def\<close>)
    then show ?thesis
    proof cases
      case no
      then have "p = None" "h' = h" "ctx' = ctx\<lparr>ctx_error := True\<rparr>"
        using assms(2-4) True by (simp_all add: BN_CTX_get_def ctx_next_def BN_new_def same sk_num_def)
      then show ?thesis using assms(1) no by (auto simp: fr ctx_ok_def)
    next
      case full
      then have "p = None" "h' = BN_init h ?bn" "ctx' = ctx\<lparr>ctx_error := True\<rparr>"
        using assms(2-4) True push by (simp_all add: BN_CTX_get_def ctx_next_def BN_new_def same sk_num_def)
      then show ?thesis using assms(1) full True free [of "s_num sk"] by (auto simp: fr ctx_ok_def BN_init_def)
    next
      case pushed
      have l: "stack_list s = map (\<lambda>i. Some (m_at mem i)) [0..<s_num s]" using pushed(5,6) sk(2) by simp
      then have "sk_value (Some s) (ctx_used ctx) = Some ?bn" using cell [OF l, of "ctx_used ctx"] pushed(6) True by simp
      then have "p = Some ?bn" "h' = BN_zero (BN_init h ?bn) ?bn" "ctx' = ctx\<lparr>ctx_bignums := Some s, ctx_used := ctx_used ctx + 1\<rparr>"
        using assms(2-4) True push pushed(1-3) by (simp_all add: BN_CTX_get_def ctx_next_def BN_new_def same sk_num_def Let_def)
      then show ?thesis using assms(1-3) True pushed(4,6) l sorted free [of "s_num sk"]
        by (auto simp: BN_zero_def BN_init_def fr ctx_ok_def ctx_pool_def sk_num_def)
    qed
  qed
qed

lemma get_spec:
  assumes "ctx_ok mem ctx" "BN_CTX_get mem h ctx = (p, h', ctx')"
  shows "ctx_ok mem ctx'" "ctx_frames ctx' = ctx_frames ctx" "ctx_error ctx \<Longrightarrow> p = None"
    "p = None \<longleftrightarrow> ctx_error ctx'" "\<And>q. \<not> unused mem ctx q \<Longrightarrow> h' q = h q"
    "p = None \<Longrightarrow> ctx_used ctx' = ctx_used ctx"
    "\<And>q. p = Some q \<Longrightarrow> q = m_at mem (ctx_used ctx) \<and> width (h' q) = 0 \<and> neg (h' q) = False \<and> ctx_used ctx' = ctx_used ctx + 1"
    "\<And>q. static_data (h' q) \<Longrightarrow> static_data (h q)"
proof -
  have all: "ctx_ok mem ctx' \<and> ctx_frames ctx' = ctx_frames ctx \<and> (ctx_error ctx \<longrightarrow> p = None) \<and> (p = None \<longleftrightarrow> ctx_error ctx') \<and>
    (\<forall>q. \<not> unused mem ctx q \<longrightarrow> h' q = h q) \<and> (\<forall>q. static_data (h' q) \<longrightarrow> static_data (h q)) \<and> (p = None \<longrightarrow> ctx_used ctx' = ctx_used ctx) \<and>
    (\<forall>q. p = Some q \<longrightarrow> q = m_at mem (ctx_used ctx) \<and> width (h' q) = 0 \<and> neg (h' q) = False \<and> ctx_used ctx' = ctx_used ctx + 1)"
  proof (cases "ctx_error ctx \<or> ctx_bignums ctx = None \<and> sk_new_null (m_grants mem) = (None :: (nat, unit) stack option)")
    case True
    then show ?thesis using assms by (auto simp: BN_CTX_get_def ctx_ok_def ctx_frames_def split: if_splits)
  next
    case False
    then have e: "\<not> ctx_error ctx" by simp
    obtain sk where sk: "(case ctx_bignums ctx of None \<Rightarrow> sk_new_null (m_grants mem) | Some sk \<Rightarrow> Some sk) = Some sk"
      using False by (cases "ctx_bignums ctx"; cases "sk_new_null (m_grants mem) :: (nat, unit) stack option") auto
    define c where "c = ctx\<lparr>ctx_bignums := Some sk\<rparr>"
    have "stack_ok sk \<and> stack_list sk = map (\<lambda>i. Some (m_at mem i)) [0..<s_num sk]"
      using sk ctx_okD(4) [OF assms(1)]
      by (auto simp: sk_new_null_def sk_new_def stack_ok_def stack_list_def kMinSize_def sizeof_ptr_def split: option.splits if_splits)
    moreover have "ctx_used ctx \<le> s_num sk"
      using sk ctx_okD(3) [OF assms(1) e] by (auto simp: ctx_pool_def sk_num_def split: option.splits)
    ultimately have c: "ctx_ok mem c" "ctx_bignums c = Some sk" "\<not> ctx_error c" "ctx_frames c = ctx_frames ctx"
        "ctx_used c = ctx_used ctx" "unused mem c = unused mem ctx"
      using assms(1) e by (auto simp: c_def ctx_ok_def ctx_frames_def ctx_pool_def sk_num_def unused_def)
    have "c\<lparr>ctx_bignums := Some sk\<rparr> = ctx\<lparr>ctx_bignums := Some sk\<rparr>" by (simp add: c_def)
    then have "ctx_next mem h c sk = ctx_next mem h ctx sk" unfolding ctx_next_def by (simp only:)
    then have "BN_CTX_get mem h c = BN_CTX_get mem h ctx" unfolding BN_CTX_get_def sk using c(2,3) e by simp
    then have "BN_CTX_get mem h c = (p, h', ctx')" using assms(2) by simp
    note got = get_from [OF c(1-3) this, unfolded c(4-6)]
    show ?thesis
    proof (cases p)
      case None
      show ?thesis using got e unfolding None by simp
    next
      case (Some q)
      show ?thesis using got e unfolding Some option.case by (elim conjE) (simp del: split_paired_All)
    qed
  qed
  from all show "ctx_ok mem ctx'" by (elim conjE)
  from all show "ctx_frames ctx' = ctx_frames ctx" by (elim conjE)
  from all show "p = None \<longleftrightarrow> ctx_error ctx'" by (elim conjE)
  from all show "p = None" if "ctx_error ctx" using that by (elim conjE) (rule mp)
  from all show "ctx_used ctx' = ctx_used ctx" if "p = None" using that by (elim conjE) (rule mp)
  from all show "static_data (h q)" if "static_data (h' q)" for q using that by (elim conjE) (erule allE, erule (1) mp)
  from all show "h' q = h q" if "\<not> unused mem ctx q" for q using that by (elim conjE) (erule allE, erule (1) mp)
  from all show "q = m_at mem (ctx_used ctx) \<and> width (h' q) = 0 \<and> neg (h' q) = False \<and> ctx_used ctx' = ctx_used ctx + 1"
    if "p = Some q" for q using that by (elim conjE) (erule allE, erule (1) mp)
qed

section \<open>Frames of numbers\<close>

text \<open>Calls on a context, and the numbers that each open frame holds, the outermost frame first.\<close>

datatype ctx_op = Start | Get | End

definition ctx_step :: "malloc \<Rightarrow> ctx_op \<Rightarrow> bns \<times> bn_ctx \<times> nat list list \<Rightarrow> bns \<times> bn_ctx \<times> nat list list" where
  "ctx_step mem op s =
    (case s of (h, ctx, held) \<Rightarrow>
       (case op of
          Start \<Rightarrow> (h, BN_CTX_start mem ctx, held @ [[]])
        | Get \<Rightarrow> (case BN_CTX_get mem h ctx of
            (None, h, ctx) \<Rightarrow> (h, ctx, held)
          | (Some q, h, ctx) \<Rightarrow> (h, ctx, butlast held @ [last held @ [q]]))
        | End \<Rightarrow> (h, BN_CTX_end ctx, butlast held)))"

fun nested :: "nat \<Rightarrow> ctx_op list \<Rightarrow> bool" where
  "nested n [] = True"
| "nested n (Start # ops) = nested (Suc n) ops"
| "nested n (Get # ops) = (0 < n \<and> nested n ops)"
| "nested n (End # ops) = (0 < n \<and> nested (n - 1) ops)"

text \<open>Where the frames start.\<close>

fun frame_starts :: "nat \<Rightarrow> nat list list \<Rightarrow> nat list" where
  "frame_starts n [] = []"
| "frame_starts n (f # fs) = n # frame_starts (n + length f) fs"

lemma frame_starts_append: "frame_starts n (fs @ [f]) = frame_starts n fs @ [n + length (concat fs)]"
  by (induction fs arbitrary: n) simp_all

definition ctx_holds :: "malloc \<Rightarrow> bn_ctx \<Rightarrow> nat list list \<Rightarrow> bool" where
  "ctx_holds mem ctx held \<longleftrightarrow> ctx_ok mem ctx \<and>
    (\<not> ctx_error ctx \<longrightarrow> concat held = map (m_at mem) [0..<ctx_used ctx] \<and> ctx_frames ctx = frame_starts 0 held)"

lemma held_not_unused:
  assumes "ctx_holds mem ctx held" "inj (m_at mem)" "\<not> ctx_error ctx" "p \<in> set (concat held)"
  shows "\<not> unused mem ctx p"
  using assms by (auto simp: ctx_holds_def unused_def inj_eq simp del: set_concat)

lemma ctx_step_holds:
  assumes "ctx_holds mem ctx held" "inj (m_at mem)" "nested (length held) (op # ops)"
    and "ctx_step mem op (h, ctx, held) = (h', ctx', held')"
  shows "ctx_holds mem ctx' held'" "nested (length held') ops"
    "ctx_error ctx \<Longrightarrow> ctx_error ctx'" "\<And>p. \<not> unused mem ctx p \<Longrightarrow> h' p = h p"
proof -
  have ok: "ctx_ok mem ctx" using assms(1) by (simp add: ctx_holds_def)
  have "ctx_holds mem ctx' held' \<and> nested (length held') ops \<and> (ctx_error ctx \<longrightarrow> ctx_error ctx') \<and>
    (\<forall>p. \<not> unused mem ctx p \<longrightarrow> h' p = h p)"
  proof (cases op)
    case Start
    note st = start_spec [OF ok]
    have c: "ctx' = BN_CTX_start mem ctx" "held' = held @ [[]]" "h' = h" using assms(4) Start by (simp_all add: ctx_step_def)
    have "ctx_holds mem ctx' held'"
    proof (unfold ctx_holds_def, intro conjI impI)
      show "ctx_ok mem ctx'" using st(1) by (simp add: c)
      assume "\<not> ctx_error ctx'"
      then have e: "\<not> ctx_error ctx" "ctx_frames ctx' = ctx_frames ctx @ [ctx_used ctx]" using st(5) by (simp_all add: c)
      then have "concat held = map (m_at mem) [0..<ctx_used ctx]" "ctx_frames ctx = frame_starts 0 held"
        using assms(1) by (simp_all add: ctx_holds_def)
      then show "concat held' = map (m_at mem) [0..<ctx_used ctx']" "ctx_frames ctx' = frame_starts 0 held'"
        using e(2) st(2) by (simp_all add: c frame_starts_append)
    qed
    then show ?thesis using assms(3) Start st(4) by (simp add: c)
  next
    case Get
    obtain p where g: "BN_CTX_get mem h ctx = (p, h', ctx')"
      using assms(4) Get by (auto simp: ctx_step_def split: prod.splits option.splits)
    note get = get_spec [OF ok g]
    have ne: "held \<noteq> []" using assms(3) Get by auto
    have "ctx_holds mem ctx' held' \<and> length held' = length held"
    proof (cases p)
      case None
      then show ?thesis using get(1,4) assms(4) Get g by (simp add: ctx_step_def ctx_holds_def)
    next
      case (Some q)
      have e: "\<not> ctx_error ctx" using get(3) Some by auto
      note q = get(7) [OF Some]
      have held': "held' = butlast held @ [last held @ [q]]" using assms(4) Get g Some by (simp add: ctx_step_def)
      obtain fs f where fs: "held = fs @ [f]" using ne by (cases held rule: rev_cases) auto
      have "concat held = map (m_at mem) [0..<ctx_used ctx]" "ctx_frames ctx = frame_starts 0 held"
        using assms(1) e by (simp_all add: ctx_holds_def)
      then have "concat held' = map (m_at mem) [0..<ctx_used ctx']" "ctx_frames ctx' = frame_starts 0 held'"
        using q get(2) by (simp_all add: held' fs frame_starts_append)
      then show ?thesis using get(1) ne by (simp add: ctx_holds_def held')
    qed
    moreover have "\<forall>p. \<not> unused mem ctx p \<longrightarrow> h' p = h p" using get(5) by blast
    moreover have "ctx_error ctx \<longrightarrow> ctx_error ctx'" using get(3,4) by blast
    ultimately show ?thesis using assms(3) Get by simp
  next
    case End
    note en = end_spec [OF ok]
    have c: "ctx' = BN_CTX_end ctx" "held' = butlast held" "h' = h" using assms(4) End by (simp_all add: ctx_step_def)
    have "held \<noteq> []" using assms(3) End by auto
    then obtain fs f where fs: "held = fs @ [f]" by (cases held rule: rev_cases) auto
    have "ctx_holds mem ctx' held'"
    proof (cases "ctx_error ctx")
      case True
      then show ?thesis using assms(1) en(1,2) by (simp add: c ctx_holds_def)
    next
      case False
      then have h: "concat held = map (m_at mem) [0..<ctx_used ctx]" "ctx_frames ctx = frame_starts 0 held"
        using assms(1) by (simp_all add: ctx_holds_def)
      have l: "length (concat fs) \<le> ctx_used ctx" using arg_cong [OF h(1), of length] by (simp add: fs)
      have "ctx_ok mem ctx' \<and> ctx_frames ctx' = frame_starts 0 fs \<and> ctx_used ctx' = length (concat fs)"
        using en(4) [OF False, of "frame_starts 0 fs" "length (concat fs)"] h(2) by (simp add: c fs frame_starts_append)
      moreover have "concat fs = map (m_at mem) [0..<length (concat fs)]"
        using arg_cong [OF h(1), of "take (length (concat fs))"] l by (simp add: fs take_map)
      ultimately show ?thesis by (simp add: ctx_holds_def c fs)
    qed
    then show ?thesis using assms(3) End en(2) by (simp add: c fs)
  qed
  then show "ctx_holds mem ctx' held'" "nested (length held') ops"
    "ctx_error ctx \<Longrightarrow> ctx_error ctx'" "\<And>p. \<not> unused mem ctx p \<Longrightarrow> h' p = h p"
    by blast+
qed

text \<open>C39: the context hands out numbers in frames. After any properly nested sequence of starts, gets and ends
  from a new context that did not run out of memory, the numbers of the open frames are distinct, as many as the context
  counts as used, and the frames it keeps start where they start; the next call, whatever it is, changes none of them
  and no number outside the pool; a get that does not fail adds to the innermost frame a zero that was not in use; and
  once a call has failed the context stays failed for good: whatever is called next, the get after it fails and hands
  out nothing, also if what was called is \<open>BN_CTX_end\<close>. (\<^verbatim>\<open>bn.h\<close> says that a get fails until \<open>BN_CTX_end\<close> is called.)\<close>

theorem ctx_frames_exact:
  assumes "BN_CTX_new mem = Some ctx0" "inj (m_at mem)" "nested 0 (ops @ [op])"
    and "fold (ctx_step mem) ops (h, ctx0, []) = (h1, ctx, held)" "ctx_step mem op (h1, ctx, held) = (h2, ctx', held')"
  shows "ctx_ok mem ctx' \<and> (ctx_error ctx \<longrightarrow> ctx_error ctx') \<and> (\<forall>p. p \<notin> range (m_at mem) \<longrightarrow> h2 p = h p) \<and>
    (ctx_error ctx' \<longrightarrow> fst (BN_CTX_get mem h2 ctx') = None) \<and>
    (\<not> ctx_error ctx' \<longrightarrow>
      distinct (concat held') \<and> length (concat held') = ctx_used ctx' \<and> ctx_frames ctx' = frame_starts 0 held' \<and>
      (\<forall>p \<in> set (concat held). h2 p = h1 p) \<and>
      (op = Get \<longrightarrow> (\<exists>q. held' = butlast held @ [last held @ [q]] \<and> q \<notin> set (concat held) \<and> BN_is_zero (h2 q))))"
proof -
  have run: "ctx_holds mem ctx held \<and> nested (length held) [op] \<and> (\<forall>p. p \<notin> range (m_at mem) \<longrightarrow> h1 p = h p)"
    if "ctx_holds mem c0 fs" "nested (length fs) (ops @ [op])" "fold (ctx_step mem) ops (h, c0, fs) = (h1, ctx, held)" for c0 fs h ops
    using that
  proof (induction ops arbitrary: h c0 fs)
    case (Cons o1 ops)
    obtain g c1 gs where s: "ctx_step mem o1 (h, c0, fs) = (g, c1, gs)" by (metis prod_cases3)
    have n: "nested (length fs) (o1 # (ops @ [op]))" using Cons.prems(2) by simp
    note st = ctx_step_holds [OF Cons.prems(1) assms(2) n s]
    have "g p = h p" if "p \<notin> range (m_at mem)" for p using that st(4) by (auto simp: unused_def)
    then show ?case using Cons.IH [OF st(1,2), of g] Cons.prems(3) s by simp
  qed simp
  have new: "ctx_holds mem ctx0 []" using ctx_new_ok [OF assms(1)] by (simp add: ctx_holds_def)
  note r = run [OF new _ assms(4)]
  have holds: "ctx_holds mem ctx held" "nested (length held) [op]" "\<And>p. p \<notin> range (m_at mem) \<Longrightarrow> h1 p = h p"
    using r assms(3) by simp_all
  note st = ctx_step_holds [OF holds(1) assms(2) holds(2) assms(5)]
  have fixed: "h2 p = h p" if "p \<notin> range (m_at mem)" for p using that st(4) [of p] holds(3) by (auto simp: unused_def)
  have "distinct (concat held') \<and> length (concat held') = ctx_used ctx' \<and> ctx_frames ctx' = frame_starts 0 held'" if "\<not> ctx_error ctx'"
    using st(1) that assms(2) by (simp add: ctx_holds_def distinct_map inj_on_subset [OF assms(2)])
  moreover have "\<forall>p \<in> set (concat held). h2 p = h1 p" if "\<not> ctx_error ctx'"
    using st(3,4) that held_not_unused [OF holds(1) assms(2)] by blast
  moreover have "\<exists>q. held' = butlast held @ [last held @ [q]] \<and> q \<notin> set (concat held) \<and> BN_is_zero (h2 q)"
    if e: "\<not> ctx_error ctx'" and op: "op = Get"
  proof -
    obtain p where g: "BN_CTX_get mem h1 ctx = (p, h2, ctx')"
      using assms(5) op by (auto simp: ctx_step_def split: prod.splits option.splits)
    have ok: "ctx_ok mem ctx" using holds(1) by (simp add: ctx_holds_def)
    note get = get_spec [OF ok g]
    obtain q where p: "p = Some q" using get(4) e by (cases p) auto
    have "unused mem ctx q" using get(7) [OF p] by (auto simp: unused_def)
    then have "q \<notin> set (concat held)" using held_not_unused [OF holds(1) assms(2)] st(3) e by blast
    moreover have "BN_is_zero b" if "width b = 0" for b using that by (simp add: BN_is_zero_def bn_fits_in_words_def or_words_def)
    then have "BN_is_zero (h2 q)" using get(7) [OF p] by blast
    moreover have "held' = butlast held @ [last held @ [q]]" using assms(5) op g p by (simp add: ctx_step_def)
    ultimately show ?thesis by blast
  qed
  moreover have "ctx_error ctx' \<longrightarrow> fst (BN_CTX_get mem h2 ctx') = None" by (simp add: BN_CTX_get_def)
  ultimately show ?thesis using st(1,3) fixed by (simp add: ctx_holds_def)
qed

definition sample_malloc :: malloc where
  "sample_malloc = \<lparr>m_grants = (\<lambda>_. True), m_junk = (\<lambda>_. 0), m_cell = 0, m_at = (\<lambda>i. 10 + i), m_local = 9\<rparr>"

theorem ctx_frames_exact_witness:
  "\<exists>ctx h2 ctx' held'. fold (ctx_step sample_malloc) [Start, Get] (\<lambda>_. \<lparr>d = [], width = 0, neg = False, static_data = False\<rparr>,
      \<lparr>ctx_bignums = None, ctx_stack = BN_STACK_init, ctx_used = 0, ctx_error = False, ctx_defer_error = False\<rparr>, []) = ctx \<and>
    ctx_step sample_malloc Get ctx = (h2, ctx', held') \<and> ctx_ok sample_malloc ctx'"
proof -
  let ?h = "\<lambda>_ :: nat. \<lparr>d = [], width = 0, neg = False, static_data = False\<rparr> :: bignum"
  let ?c = "\<lparr>ctx_bignums = None, ctx_stack = BN_STACK_init, ctx_used = 0, ctx_error = False, ctx_defer_error = False\<rparr> :: bn_ctx"
  obtain h1 ctx held where run: "fold (ctx_step sample_malloc) [Start, Get] (?h, ?c, []) = (h1, ctx, held)" by (metis prod_cases3)
  obtain h2 ctx' held' where st: "ctx_step sample_malloc Get (h1, ctx, held) = (h2, ctx', held')" by (metis prod_cases3)
  have "BN_CTX_new sample_malloc = Some ?c" by (simp add: BN_CTX_new_def sample_malloc_def)
  moreover have "inj (m_at sample_malloc)" by (simp add: sample_malloc_def)
  moreover have "nested 0 ([Start, Get] @ [Get])" by simp
  ultimately have "ctx_ok sample_malloc ctx'" using ctx_frames_exact [OF _ _ _ run st] by blast
  then show ?thesis using run st by blast
qed

end
