(* ===== verification/Bn_Product.thy ===== *)
theory Bn_Product
  imports Bn_Square Bn_Ctx
begin

unbundle bit_operations_syntax

text \<open>
  Products and squares of whole numbers, the functions of \<^verbatim>\<open>crypto/fipsmodule/bn/mul.c\<close> that take temporary numbers
  from a context. Operands and result may be the same; then the product is formed in a temporary number and copied.
\<close>

section \<open>The code\<close>

abbreviation expand :: "malloc \<Rightarrow> bns \<Rightarrow> nat \<Rightarrow> nat \<Rightarrow> bool \<times> bns" where
  "expand mem \<equiv> bn_wexpand (m_grants mem) (m_junk mem)"

definition set_width :: "bns \<Rightarrow> nat \<Rightarrow> nat \<Rightarrow> bns" where
  "set_width h r n = h(r := (h r)\<lparr>width := n\<rparr>)"

definition bn_abs_sub_consttime :: "malloc \<Rightarrow> bns \<Rightarrow> bn_ctx \<Rightarrow> nat \<Rightarrow> nat \<Rightarrow> nat \<Rightarrow> bool \<times> bns \<times> bn_ctx" where
  "bn_abs_sub_consttime mem h ctx r a b =
    (let cl = (if width (h a) < width (h b) then width (h a) else width (h b));
         dl = int (width (h a)) - int (width (h b));
         r_len = (if width (h a) < width (h b) then width (h b) else width (h a));
         ctx = BN_CTX_start mem ctx
     in case BN_CTX_get mem h ctx of
       (None, h, ctx) \<Rightarrow> (False, h, BN_CTX_end ctx)
     | (Some tmp, h, ctx) \<Rightarrow>
         (case expand mem h r r_len of
            (False, h) \<Rightarrow> (False, h, BN_CTX_end ctx)
          | (True, h) \<Rightarrow>
              (case expand mem h tmp r_len of
                 (False, h) \<Rightarrow> (False, h, BN_CTX_end ctx)
               | (True, h) \<Rightarrow>
                   let (h, _) = bn_abs_sub_part_words h (r, 0) (a, 0) (b, 0) cl dl (tmp, 0)
                   in (True, set_width h r r_len, BN_CTX_end ctx))))"

text \<open>The product into a number \<open>rr\<close> that is none of the operands; the bool is whether the words could be had.\<close>

definition mul_into :: "malloc \<Rightarrow> bns \<Rightarrow> bn_ctx \<Rightarrow> nat \<Rightarrow> nat \<Rightarrow> nat \<Rightarrow> bool \<times> bns \<times> bn_ctx" where
  "mul_into mem h ctx rr a b =
    (let al = width (h a); bl = width (h b);
         h = h(rr := (h rr)\<lparr>neg := (neg (h a) \<noteq> neg (h b))\<rparr>);
         i = int al - int bl; top = al + bl
     in if i = 0 \<and> al = 8 then
          (case expand mem h rr 16 of
             (False, h) \<Rightarrow> (False, h, ctx)
           | (True, h) \<Rightarrow> (True, bn_mul_comba8 (set_width h rr 16) (rr, 0) (a, 0) (b, 0), ctx))
        else if 16 \<le> al \<and> 16 \<le> bl \<and> - 1 \<le> i \<and> i \<le> 1 then
          let j = unat (BN_num_bits_word (of_nat (if 0 \<le> i then al else bl)));
              j = 2 ^ (j - 1)
          in case BN_CTX_get mem h ctx of
               (None, h, ctx) \<Rightarrow> (False, h, ctx)
             | (Some t, h, ctx) \<Rightarrow>
                 if j < al \<or> j < bl then
                   (case expand mem h t (j * 8) of
                      (False, h) \<Rightarrow> (False, h, ctx)
                    | (True, h) \<Rightarrow>
                        (case expand mem h rr (j * 4) of
                           (False, h) \<Rightarrow> (False, h, ctx)
                         | (True, h) \<Rightarrow>
                             (True, set_width (bn_mul_part_recursive h (rr, 0) (a, 0) (b, 0) j (al - j) (bl - j) (t, 0)) rr top, ctx)))
                 else
                   (case expand mem h t (j * 4) of
                      (False, h) \<Rightarrow> (False, h, ctx)
                    | (True, h) \<Rightarrow>
                        (case expand mem h rr (j * 2) of
                           (False, h) \<Rightarrow> (False, h, ctx)
                         | (True, h) \<Rightarrow>
                             (True, set_width (bn_mul_recursive h (rr, 0) (a, 0) (b, 0) j (int al - int j) (int bl - int j) (t, 0)) rr top, ctx)))
        else
          (case expand mem h rr top of
             (False, h) \<Rightarrow> (False, h, ctx)
           | (True, h) \<Rightarrow> (True, bn_mul_normal (set_width h rr top) (rr, 0) (a, 0) al (b, 0) bl, ctx)))"

text \<open>How both functions end: the result is copied if it was formed elsewhere, and the frame is ended.\<close>

definition copy_and_end :: "malloc \<Rightarrow> nat \<Rightarrow> nat \<Rightarrow> bool \<times> bns \<times> bn_ctx \<Rightarrow> bool \<times> bns \<times> bn_ctx" where
  "copy_and_end mem r rr s =
    (case s of (ok, h, ctx) \<Rightarrow>
       if \<not> ok then (False, h, BN_CTX_end ctx)
       else if r \<noteq> rr then
         (case BN_copy (m_grants mem) (m_junk mem) h r rr of (ok, h) \<Rightarrow> (ok, h, BN_CTX_end ctx))
       else (True, h, BN_CTX_end ctx))"

definition bn_mul_impl :: "malloc \<Rightarrow> bns \<Rightarrow> bn_ctx \<Rightarrow> nat \<Rightarrow> nat \<Rightarrow> nat \<Rightarrow> bool \<times> bns \<times> bn_ctx" where
  "bn_mul_impl mem h ctx r a b =
    (if width (h a) = 0 \<or> width (h b) = 0 then (True, BN_zero h r, ctx)
     else
       let ctx = BN_CTX_start mem ctx
       in case (if r = a \<or> r = b then BN_CTX_get mem h ctx else (Some r, h, ctx)) of
            (None, h, ctx) \<Rightarrow> (False, h, BN_CTX_end ctx)
          | (Some rr, h, ctx) \<Rightarrow> copy_and_end mem r rr (mul_into mem h ctx rr a b))"

definition BN_mul :: "malloc \<Rightarrow> bns \<Rightarrow> bn_ctx \<Rightarrow> nat \<Rightarrow> nat \<Rightarrow> nat \<Rightarrow> bool \<times> bns \<times> bn_ctx" where
  "BN_mul mem h ctx r a b =
    (case bn_mul_impl mem h ctx r a b of
       (False, h, ctx) \<Rightarrow> (False, h, ctx)
     | (True, h, ctx) \<Rightarrow> (True, bn_set_minimal_width h r, ctx))"

definition bn_mul_consttime :: "malloc \<Rightarrow> bns \<Rightarrow> bn_ctx \<Rightarrow> nat \<Rightarrow> nat \<Rightarrow> nat \<Rightarrow> bool \<times> bns \<times> bn_ctx" where
  "bn_mul_consttime mem h ctx r a b =
    (if neg (h a) \<or> neg (h b) then (False, h, ctx) else bn_mul_impl mem h ctx r a b)"

text \<open>The square into a number that is not the operand. Short numbers are squared with an array on the call stack,
  here at the address \<open>m_local\<close>.\<close>

definition local_array :: "malloc \<Rightarrow> bns \<Rightarrow> nat \<Rightarrow> bns" where
  "local_array mem h n =
    h(m_local mem := \<lparr>d = map (m_junk mem) [0..<n], width = 0, neg = False, static_data = False\<rparr>)"

definition sqr_into :: "malloc \<Rightarrow> bns \<Rightarrow> nat \<Rightarrow> nat \<Rightarrow> nat \<Rightarrow> bool \<times> bns" where
  "sqr_into mem h rr a tmp =
    (let al = width (h a); mx = 2 * al
     in case expand mem h rr mx of
          (False, h) \<Rightarrow> (False, h)
        | (True, h) \<Rightarrow>
            let fin = (\<lambda>h. (True, h(rr := (h rr)\<lparr>neg := False, width := mx\<rparr>)))
            in if al = 4 then fin (bn_sqr_comba4 h (rr, 0) (a, 0))
               else if al = 8 then fin (bn_sqr_comba8 h (rr, 0) (a, 0))
               else if al < 16 then fin (bn_sqr_normal (local_array mem h (16 * 2)) (rr, 0) (a, 0) al (m_local mem, 0))
               else if al \<noteq> 0 \<and> (of_nat al :: 32 word) AND (of_nat al - 1) = 0 then
                 (case expand mem h tmp (al * 4) of
                    (False, h) \<Rightarrow> (False, h)
                  | (True, h) \<Rightarrow> fin (bn_sqr_recursive h (rr, 0) (a, 0) al (tmp, 0)))
               else
                 (case expand mem h tmp mx of
                    (False, h) \<Rightarrow> (False, h)
                  | (True, h) \<Rightarrow> fin (bn_sqr_normal h (rr, 0) (a, 0) al (tmp, 0))))"

definition bn_sqr_consttime :: "malloc \<Rightarrow> bns \<Rightarrow> bn_ctx \<Rightarrow> nat \<Rightarrow> nat \<Rightarrow> bool \<times> bns \<times> bn_ctx" where
  "bn_sqr_consttime mem h ctx r a =
    (if width (h a) = 0 then (True, BN_zero h r, ctx)
     else
       let ctx = BN_CTX_start mem ctx;
           (rr, h, ctx) = (if a \<noteq> r then (Some r, h, ctx) else BN_CTX_get mem h ctx);
           (tmp, h, ctx) = BN_CTX_get mem h ctx
       in case (rr, tmp) of
            (Some rr, Some tmp) \<Rightarrow>
              (case sqr_into mem h rr a tmp of (ok, h) \<Rightarrow> copy_and_end mem r rr (ok, h, ctx))
          | _ \<Rightarrow> (False, h, BN_CTX_end ctx))"

definition BN_sqr :: "malloc \<Rightarrow> bns \<Rightarrow> bn_ctx \<Rightarrow> nat \<Rightarrow> nat \<Rightarrow> bool \<times> bns \<times> bn_ctx" where
  "BN_sqr mem h ctx r a =
    (case bn_sqr_consttime mem h ctx r a of
       (False, h, ctx) \<Rightarrow> (False, h, ctx)
     | (True, h, ctx) \<Rightarrow> (True, bn_set_minimal_width h r, ctx))"

section \<open>Frames and words in a function\<close>

text \<open>Where memory is: the numbers of the pool are distinct, and a local array is none of them.\<close>

definition mem_ok :: "malloc \<Rightarrow> bool" where
  "mem_ok mem \<longleftrightarrow> inj (m_at mem) \<and> m_local mem \<notin> range (m_at mem)"

text \<open>What happens to a context between a start and the end of the frame, and from before the one to after the
  other.\<close>

definition within_frame :: "malloc \<Rightarrow> bn_ctx \<Rightarrow> bn_ctx \<Rightarrow> bool" where
  "within_frame mem ctx ctx' \<longleftrightarrow> ctx_ok mem ctx' \<and> (ctx_error ctx \<longrightarrow> ctx_error ctx') \<and> ctx_used ctx \<le> ctx_used ctx' \<and>
    (\<not> ctx_error ctx' \<longrightarrow> ctx_frames ctx' = ctx_frames ctx)"

definition balanced :: "malloc \<Rightarrow> bn_ctx \<Rightarrow> bn_ctx \<Rightarrow> bool" where
  "balanced mem ctx ctx' \<longleftrightarrow> within_frame mem ctx ctx' \<and> (\<not> ctx_error ctx' \<longrightarrow> ctx_used ctx' = ctx_used ctx)"

lemma within_refl: "ctx_ok mem ctx \<Longrightarrow> within_frame mem ctx ctx"
  by (simp add: within_frame_def)

lemma within_trans: "within_frame mem c1 c2 \<Longrightarrow> within_frame mem c2 c3 \<Longrightarrow> within_frame mem c1 c3"
  by (auto simp: within_frame_def)

lemma within_get: "ctx_ok mem ctx \<Longrightarrow> BN_CTX_get mem h ctx = (p, h', ctx') \<Longrightarrow> within_frame mem ctx ctx'"
  using get_spec [of mem ctx h p h' ctx'] by (cases p) (auto simp: within_frame_def)

lemma balanced_refl: "ctx_ok mem ctx \<Longrightarrow> balanced mem ctx ctx"
  by (simp add: balanced_def within_refl)

lemma framed:
  assumes "ctx_ok mem ctx" "within_frame mem (BN_CTX_start mem ctx) c"
  shows "balanced mem ctx (BN_CTX_end c)"
proof -
  note st = start_spec [OF assms(1)]
  have c: "ctx_ok mem c" "ctx_used ctx \<le> ctx_used c" using assms(2) st(2) by (simp_all add: within_frame_def)
  note en = end_spec [OF c(1)]
  show ?thesis
  proof (cases "ctx_error c")
    case True
    then show ?thesis using c en(1) by (simp add: balanced_def within_frame_def)
  next
    case False
    then have e: "\<not> ctx_error (BN_CTX_start mem ctx)" using assms(2) by (auto simp: within_frame_def)
    then have "ctx_frames c = ctx_frames ctx @ [ctx_used ctx]" "\<not> ctx_error ctx"
      using assms(2) False st(5) by (auto simp: within_frame_def)
    then show ?thesis using en(4) [OF False] by (simp add: balanced_def within_frame_def)
  qed
qed

lemma start_within: "ctx_ok mem ctx \<Longrightarrow> ctx_ok mem (BN_CTX_start mem ctx) \<and> ctx_used (BN_CTX_start mem ctx) = ctx_used ctx"
  using start_spec(1,2) [of mem ctx] by blast

lemma unused_mono: "unused mem c p \<Longrightarrow> ctx_used ctx \<le> ctx_used c \<Longrightarrow> unused mem ctx p"
  unfolding unused_def by (metis order_trans)

lemma unused_start: "ctx_ok mem ctx \<Longrightarrow> unused mem (BN_CTX_start mem ctx) = unused mem ctx"
  using start_within [of mem ctx] by (auto simp: unused_def fun_eq_iff)

lemma got_in_use:
  assumes "mem_ok mem" "ctx_ok mem ctx" "BN_CTX_get mem h ctx = (Some q, h', ctx')"
  shows "unused mem ctx q" "\<not> unused mem ctx' q" "q \<noteq> m_local mem"
proof -
  have q: "q = m_at mem (ctx_used ctx)" "ctx_used ctx' = ctx_used ctx + 1" using get_spec(7) [OF assms(2,3) refl] by simp_all
  show "unused mem ctx q" using q(1) by (auto simp: unused_def)
  show "\<not> unused mem ctx' q" using q assms(1) by (auto simp: unused_def mem_ok_def inj_eq)
  show "q \<noteq> m_local mem" using assms(1) rangeI [of "m_at mem" "ctx_used ctx"] unfolding mem_ok_def q(1) by metis
qed

text \<open>Memory that is refused.\<close>

definition no_words :: "malloc \<Rightarrow> nat \<Rightarrow> bool" where
  "no_words mem n \<longleftrightarrow> INT_MAX div 256 < n \<or> (\<exists>k \<le> n. \<not> m_grants mem (8 * k))"

lemma no_words_mono: "no_words mem k \<Longrightarrow> k \<le> n \<Longrightarrow> no_words mem n"
  by (auto simp: no_words_def)

lemma expand_spec:
  assumes "width (h r) \<le> dmax (h r)" "expand mem h r n = (e, h1)"
  shows "e \<Longrightarrow> in_array h1 (r, 0) n" "\<not> e \<Longrightarrow> h1 = h \<and> (static_data (h r) \<or> no_words mem n)"
    "\<And>p. p \<noteq> r \<Longrightarrow> h1 p = h p" "width (h1 r) = width (h r)" "neg (h1 r) = neg (h r)"
    "static_data (h1 r) = static_data (h r)" "width (h1 r) \<le> dmax (h1 r)"
    "take (width (h r)) (d (h1 r)) = take (width (h r)) (d (h r))"
proof -
  note we = wexpand_spec [OF assms]
  show "e \<Longrightarrow> in_array h1 (r, 0) n" using we(3) by (simp add: in_array_def)
  show "\<not> e \<Longrightarrow> h1 = h \<and> (static_data (h r) \<or> no_words mem n)" using we(1,2) by (auto simp: cannot_expand_def no_words_def)
  show "\<And>p. p \<noteq> r \<Longrightarrow> h1 p = h p" "width (h1 r) = width (h r)" "neg (h1 r) = neg (h r)" "static_data (h1 r) = static_data (h r)"
    "width (h1 r) \<le> dmax (h1 r)" "take (width (h r)) (d (h1 r)) = take (width (h r)) (d (h r))"
    using we(4-9) by simp_all
qed

lemma words_at_cong: "h' p = h p \<Longrightarrow> words_at h' (p, i) n = words_at h (p, i) n"
  by (simp add: words_at_def)

lemma set_width_simps [simp]:
  "p \<noteq> r \<Longrightarrow> set_width h r n p = h p" "width (set_width h r n r) = n" "d (set_width h r n q) = d (h q)"
  "neg (set_width h r n q) = neg (h q)" "static_data (set_width h r n q) = static_data (h q)"
  by (simp_all add: set_width_def)

text \<open>A number whose words were stored.\<close>

lemma stored_number:
  assumes "stores rs h (r, 0) n v h'" "in_array h (r, 0) n" "l \<le> n" "v < 2 ^ (64 * l)"
  shows "bn_nat (set_width h' r l r) = v" "l \<le> dmax (h' r)"
proof -
  have i: "in_array h' (r, 0) n" using assms(2) only_writes_in_array [OF storesD(1) [OF assms(1)]] by simp
  then have it: "in_array h' (r, 0) l" "l \<le> dmax (h' r)" using assms(3) by (simp_all add: in_array_def)
  have n: "l + (n - l) = n" using assms(3) by simp
  have v: "v = wval (words_at h' (r, 0) l) + 2 ^ (64 * l) * wval (words_at h' (ptr_add (r, 0) l) (n - l))"
    using wval_at_split [OF it(1), of "n - l", unfolded n] storesD(2) [OF assms(1)] by simp
  have "wval (words_at h' (ptr_add (r, 0) l) (n - l)) = 0"
  proof (rule ccontr)
    assume "wval (words_at h' (ptr_add (r, 0) l) (n - l)) \<noteq> 0"
    then have "2 ^ (64 * l) * 1 \<le> 2 ^ (64 * l) * wval (words_at h' (ptr_add (r, 0) l) (n - l))" by (intro mult_le_mono2) simp
    then show False using v assms(4) by linarith
  qed
  then have "v = wval (words_at h' (r, 0) l)" using v by simp
  then show "bn_nat (set_width h' r l r) = v" "l \<le> dmax (h' r)"
    using it(2) by (simp_all add: bn_nat_def set_width_def words_at_def)
qed

lemma product_bound: "bn_nat a < 2 ^ (64 * width a) \<and> bn_nat a * bn_nat b < 2 ^ (64 * (width a + width b))"
proof -
  have w: "bn_nat x < 2 ^ (64 * width x)" for x :: bignum
  proof -
    have "length (take (width x) (d x)) \<le> width x" by simp
    then have "(2 :: nat) ^ (64 * length (take (width x) (d x))) \<le> 2 ^ (64 * width x)" by (intro power_increasing) simp_all
    then show ?thesis using wval_bound [of "take (width x) (d x)"] unfolding bn_nat_def by linarith
  qed
  have "bn_nat a * bn_nat b < 2 ^ (64 * width a) * 2 ^ (64 * width b)" by (rule mult_strict_mono) (use w in simp_all)
  then show ?thesis using w by (simp only: distrib_left power_add)
qed

section \<open>Products of numbers\<close>

text \<open>A number that the caller holds.\<close>

definition live :: "malloc \<Rightarrow> bn_ctx \<Rightarrow> bns \<Rightarrow> nat \<Rightarrow> bool" where
  "live mem ctx h p \<longleftrightarrow> \<not> unused mem ctx p \<and> p \<noteq> m_local mem \<and> width (h p) \<le> dmax (h p)"

text \<open>Why a product may fail.\<close>

definition out_of_memory :: "malloc \<Rightarrow> bns \<Rightarrow> bn_ctx \<Rightarrow> nat \<Rightarrow> nat \<Rightarrow> bool" where
  "out_of_memory mem h ctx' r n \<longleftrightarrow>
    ctx_error ctx' \<or> static_data (h r) \<or> (\<exists>i. static_data (h (m_at mem i))) \<or> no_words mem n"

lemma product_stage:
  assumes "stores rs hx (rr, 0) n (wval (words_at hx (a, 0) (width (h a))) * wval (words_at hx (b, 0) (width (h b)))) hy"
    and "in_array hx (rr, 0) n" "width (h a) + width (h b) \<le> n" "hx a = h a" "hx b = h b"
  shows "bn_nat (set_width hy rr (width (h a) + width (h b)) rr) = bn_nat (h a) * bn_nat (h b)"
    "width (h a) + width (h b) \<le> dmax (hy rr)"
proof -
  have v: "wval (words_at hx (a, 0) (width (h a))) * wval (words_at hx (b, 0) (width (h b))) = bn_nat (h a) * bn_nat (h b)"
    using words_at_cong [of hx a h] words_at_cong [of hx b h] assms(4,5) by (simp add: bn_nat_words)
  note st = stored_number [OF assms(1,2,3), unfolded v, OF conjunct2 [OF product_bound]]
  show "bn_nat (set_width hy rr (width (h a) + width (h b)) rr) = bn_nat (h a) * bn_nat (h b)"
    "width (h a) + width (h b) \<le> dmax (hy rr)" by (rule st)+
qed

text \<open>What \<open>mul_into\<close> does, as one statement for all its branches.\<close>

definition mul_done :: "malloc \<Rightarrow> bns \<Rightarrow> bn_ctx \<Rightarrow> nat \<Rightarrow> nat \<Rightarrow> nat \<Rightarrow> bool \<times> bns \<times> bn_ctx \<Rightarrow> bool" where
  "mul_done mem h ctx rr a b s \<longleftrightarrow> (case s of (ok, h', ctx') \<Rightarrow>
    within_frame mem ctx ctx' \<and> width (h' rr) \<le> dmax (h' rr) \<and>
    (\<forall>p. p \<noteq> rr \<longrightarrow> \<not> unused mem ctx p \<longrightarrow> p \<noteq> m_local mem \<longrightarrow> h' p = h p) \<and>
    (if ok then bn_nat (h' rr) = bn_nat (h a) * bn_nat (h b) \<and> neg (h' rr) = (neg (h a) \<noteq> neg (h b)) \<and>
       width (h' rr) = width (h a) + width (h b)
     else out_of_memory mem h ctx' rr (8 * (width (h a) + width (h b)))))"

lemma mul_in_place_done:
  assumes "ctx_ok mem ctx" "live mem ctx h rr" "rr \<noteq> a" "rr \<noteq> b"
    and "expand mem (h(rr := (h rr)\<lparr>neg := s\<rparr>)) rr (width (h a) + width (h b)) = (e, h1)" "s = (neg (h a) \<noteq> neg (h b))"
    and "\<And>h'. in_array h' (rr, 0) (width (h a) + width (h b)) \<Longrightarrow> in_array h' (a, 0) (width (h a)) \<Longrightarrow> in_array h' (b, 0) (width (h b)) \<Longrightarrow>
      stores [((rr, 0), width (h a) + width (h b))] h' (rr, 0) (width (h a) + width (h b))
        (wval (words_at h' (a, 0) (width (h a))) * wval (words_at h' (b, 0) (width (h b)))) (f h')"
    and "live mem ctx h a" "live mem ctx h b"
  shows "mul_done mem h ctx rr a b (if e then (True, f (set_width h1 rr (width (h a) + width (h b))), ctx) else (False, h1, ctx))"
proof -
  let ?n = "width (h a) + width (h b)"
  have fit: "width ((h(rr := (h rr)\<lparr>neg := s\<rparr>)) rr) \<le> dmax ((h(rr := (h rr)\<lparr>neg := s\<rparr>)) rr)" using assms(2) by (simp add: live_def)
  note ex = expand_spec [OF fit assms(5)]
  have other: "h1 p = h p" if "p \<noteq> rr" for p using ex(3) that by simp
  show ?thesis
  proof (cases e)
    case False
    then have "h1 = h(rr := (h rr)\<lparr>neg := s\<rparr>) \<and> (static_data (h rr) \<or> no_words mem ?n)" using ex(2) by simp
    then show ?thesis using False assms(1,2) no_words_mono [of mem ?n "8 * ?n"]
      by (auto simp: mul_done_def within_refl live_def out_of_memory_def)
  next
    case True
    define h2 where "h2 = set_width h1 rr ?n"
    define h3 where "h3 = f h2"
    have w2: "width (h2 rr) = ?n" "h2 a = h a" "h2 b = h b" "neg (h2 rr) = s" using other assms(3,4) ex(5) by (simp_all add: h2_def)
    have i: "in_array h2 (rr, 0) ?n" using ex(1) True by (simp add: h2_def in_array_def)
    have st: "stores [((rr, 0), ?n)] h2 (rr, 0) ?n (wval (words_at h2 (a, 0) (width (h a))) * wval (words_at h2 (b, 0) (width (h b)))) h3"
      using assms(7) [of h2] i w2 assms(8,9) by (simp add: h3_def live_def in_array_def)
    note ps = product_stage [OF st i order_refl w2(2,3)]
    have ow: "only_writes [((rr, 0), ?n)] h2 h3" using storesD(1) [OF st] .
    then have k: "width (h3 rr) = ?n" "neg (h3 rr) = s" using w2 by (simp_all add: only_writes_def)
    then have "bn_nat (h3 rr) = bn_nat (h a) * bn_nat (h b)" using ps(1) by (simp add: bn_nat_def set_width_def)
    moreover have "h3 p = h p" if "p \<noteq> rr" for p using only_writes_other [OF ow, of p] other [OF that] that by (simp add: h2_def)
    ultimately show ?thesis using True k ps(2) assms(1,6) by (simp add: mul_done_def within_refl h3_def [symmetric] h2_def [symmetric])
  qed
qed

lemma mul_temp_done:
  assumes "mem_ok mem" "ctx_ok mem ctx" "live mem ctx h rr" "live mem ctx h a" "live mem ctx h b" "rr \<noteq> a" "rr \<noteq> b"
    and get: "BN_CTX_get mem (h(rr := (h rr)\<lparr>neg := s\<rparr>)) ctx = (Some t, hg, cg)" and s: "s = (neg (h a) \<noteq> neg (h b))"
    and e1: "expand mem hg t n1 = (e1, ht)" and e2: "expand mem ht rr n2 = (e2, hr)"
    and n: "n1 \<le> 8 * (width (h a) + width (h b))" "n2 \<le> 8 * (width (h a) + width (h b))" "width (h a) + width (h b) \<le> n2"
    and f: "\<And>h'. room h' (rr, 0) n2 (a, 0) (width (h a)) (b, 0) (width (h b)) (t, 0) n1 \<Longrightarrow>
      stores [((rr, 0), n2), ((t, 0), n1)] h' (rr, 0) n2
        (wval (words_at h' (a, 0) (width (h a))) * wval (words_at h' (b, 0) (width (h b)))) (f h')"
  shows "mul_done mem h ctx rr a b
    (if \<not> e1 then (False, ht, cg) else if \<not> e2 then (False, hr, cg) else (True, set_width (f hr) rr (width (h a) + width (h b)), cg))"
proof -
  let ?n = "width (h a) + width (h b)" and ?h0 = "h(rr := (h rr)\<lparr>neg := s\<rparr>)"
  note got = got_in_use [OF assms(1,2) get] and gs = get_spec [OF assms(2) get]
  have t: "t \<noteq> rr" "t \<noteq> a" "t \<noteq> b" using got(1) assms(3-5) by (auto simp: live_def)
  have tw: "width (hg t) \<le> dmax (hg t)" "\<And>i. static_data (hg t) \<Longrightarrow> \<exists>i. static_data (h (m_at mem i))"
    using gs(7) [OF refl] gs(8) [of t] t(1) by auto
  note x1 = expand_spec [OF tw(1) e1]
  have hg: "hg p = ?h0 p" if "\<not> unused mem ctx p" for p using gs(5) that by blast
  have rr: "ht rr = ?h0 rr" using x1(3) t(1) hg assms(3) by (simp add: live_def)
  then have rw: "width (ht rr) \<le> dmax (ht rr)" using assms(3) by (simp add: live_def)
  note x2 = expand_spec [OF rw e2]
  have win: "within_frame mem ctx cg" by (rule within_get [OF assms(2) get])
  have others: "hr p = h p" "ht p = h p" if "p \<noteq> rr" "\<not> unused mem ctx p" for p
    using x1(3) x2(3) hg that got(1) by fastforce+
  consider "\<not> e1" | "e1" "\<not> e2" | "e1" "e2" by blast
  then show ?thesis
  proof cases
    case 1
    then have "static_data (hg t) \<or> no_words mem n1" using x1(2) by blast
    then have "out_of_memory mem h cg rr (8 * ?n)"
      using tw(2) no_words_mono [OF _ n(1)] by (auto simp: out_of_memory_def)
    then show ?thesis using 1 win rw others(2) by (simp add: mul_done_def)
  next
    case 2
    then have "static_data (h rr) \<or> no_words mem n2" using x2(2) rr by simp
    then have "out_of_memory mem h cg rr (8 * ?n)" using no_words_mono [OF _ n(2)] by (auto simp: out_of_memory_def)
    then show ?thesis using 2 win x2(7) others(1) by (simp add: mul_done_def)
  next
    case 3
    have ab: "hr a = h a" "hr b = h b" using others(1) assms(4-7) by (simp_all add: live_def)
    have "in_array ht (t, 0) n1" using x1(1) 3 by simp
    then have "in_array hr (t, 0) n1" using x2(3) t(1) by (simp add: in_array_def)
    then have "room hr (rr, 0) n2 (a, 0) (width (h a)) (b, 0) (width (h b)) (t, 0) n1"
      using x2(1) 3(2) ab assms(4-7) t by (simp add: room_def in_array_def clear_of_def live_def)
    note st = f [OF this]
    have ir: "in_array hr (rr, 0) n2" using x2(1) 3(2) by simp
    note ps = product_stage [OF st ir n(3) ab]
    have ow: "only_writes [((rr, 0), n2), ((t, 0), n1)] hr (f hr)" using storesD(1) [OF st] .
    have k: "neg (f hr rr) = s" using ow x2(5) rr by (simp add: only_writes_def)
    have "f hr p = h p" if "p \<noteq> rr" "\<not> unused mem ctx p" for p
      using only_writes_other [OF ow, of p] others(1) [OF that] that got(1) by auto
    then show ?thesis using 3 k ps win s by (simp add: mul_done_def)
  qed
qed

lemma mul_into_done:
  assumes "mem_ok mem" "ctx_ok mem ctx" "live mem ctx h rr" "live mem ctx h a" "live mem ctx h b" "rr \<noteq> a" "rr \<noteq> b"
    and "width (h a) \<le> INT_MAX" "width (h b) \<le> INT_MAX"
  shows "mul_done mem h ctx rr a b (mul_into mem h ctx rr a b)"
proof -
  define al bl s where "al = width (h a)" and "bl = width (h b)" and "s = (neg (h a) \<noteq> neg (h b))"
  note abs = al_def bl_def
  let ?h0 = "h(rr := (h rr)\<lparr>neg := s\<rparr>)"
  have w: "width (?h0 a) = al" "width (?h0 b) = bl" using assms(6,7) by (simp_all add: al_def bl_def)
  have cl: "clear_of (rr, 0) m (a, 0) n" "clear_of (rr, 0) m (b, 0) n" for m n using assms(6,7) by (simp_all add: clear_of_def)
  note in_place = mul_in_place_done [where h = h and s = s, OF assms(2,3,6,7) _ s_def _ assms(4,5), folded abs]
  note code = mul_into_def [of mem h ctx rr a b, unfolded Let_def, folded abs, folded s_def]
  consider (comba) "al = 8" "bl = 8" | (rec) "16 \<le> al" "16 \<le> bl" "al \<le> bl + 1" "bl \<le> al + 1"
    | (normal) "\<not> (al = 8 \<and> bl = 8)" "\<not> (16 \<le> al \<and> 16 \<le> bl \<and> al \<le> bl + 1 \<and> bl \<le> al + 1)" by blast
  then show ?thesis
  proof cases
    case comba
    obtain e h1 where e: "expand mem ?h0 rr 16 = (e, h1)" by fastforce
    have "mul_done mem h ctx rr a b (if e then (True, bn_mul_comba8 (set_width h1 rr (al + bl)) (rr, 0) (a, 0) (b, 0), ctx) else (False, h1, ctx))"
      by (rule in_place [where f = "\<lambda>h. bn_mul_comba8 h (rr, 0) (a, 0) (b, 0)"]) (use e comba comba_stores(1) [of _ "(rr, 0)" 8 "(a, 0)" "(b, 0)"] cl in simp_all)
    moreover have "mul_into mem h ctx rr a b =
        (if e then (True, bn_mul_comba8 (set_width h1 rr (al + bl)) (rr, 0) (a, 0) (b, 0), ctx) else (False, h1, ctx))"
      using comba e by (simp add: code split: bool.splits)
    ultimately show ?thesis by simp
  next
    case normal
    obtain e h1 where e: "expand mem ?h0 rr (al + bl) = (e, h1)" by fastforce
    have "mul_done mem h ctx rr a b (if e then (True, bn_mul_normal (set_width h1 rr (al + bl)) (rr, 0) (a, 0) al (b, 0) bl, ctx) else (False, h1, ctx))"
      by (rule in_place [where f = "\<lambda>h. bn_mul_normal h (rr, 0) (a, 0) al (b, 0) bl"]) (use e mul_normal_spec [of _ "(rr, 0)" al bl "(a, 0)" "(b, 0)"] cl in simp_all)
    moreover have "mul_into mem h ctx rr a b =
        (if e then (True, bn_mul_normal (set_width h1 rr (al + bl)) (rr, 0) (a, 0) al (b, 0) bl, ctx) else (False, h1, ctx))"
      using normal e by (auto simp: code split: bool.splits)
    ultimately show ?thesis by simp
  next
    case rec
    define l where "l = (if 0 \<le> int al - int bl then al else bl)"
    define j where "j = (2 :: nat) ^ (unat (BN_num_bits_word (of_nat l)) - 1)"
    note code' = code [folded l_def, folded j_def]
    have l: "unat (of_nat l :: u64) = l" "16 \<le> l" "al \<le> l" "bl \<le> l" "l \<le> al + 1" "l \<le> bl + 1"
      using assms(8,9) rec by (auto simp: l_def al_def bl_def INT_MAX_def unat_of_nat)
    have j: "j \<le> l" "l < 2 * j"
    proof -
      have pos: "0 < bit_len l" using l(2) by (cases "bit_len l") (use bit_len_bounds(1) [of l] in auto)
      show "j \<le> l" using bit_len_bounds(2) [of l] l(1,2) by (simp add: j_def num_bits_word)
      have "2 * j = 2 ^ bit_len l" using pos l(1) by (simp add: j_def num_bits_word flip: power_Suc)
      then show "l < 2 * j" using bit_len_bounds(1) [of l] by simp
    qed
    have j2: "\<exists>k. j = 2 ^ k" "8 \<le> j" using j l(2) by (auto simp: j_def)
    let ?m = "al + bl"
    obtain p hg cg where g: "BN_CTX_get mem ?h0 ctx = (p, hg, cg)" by (metis prod_cases3)
    show ?thesis
    proof (cases p)
      case None
      then have "mul_into mem h ctx rr a b = (False, hg, cg)" using rec g by (simp add: code')
      moreover have "hg p = h p" if "p \<noteq> rr" "\<not> unused mem ctx p" for p using get_spec(5) [OF assms(2) g that(2)] that(1) by simp
      moreover have "hg rr = ?h0 rr" using get_spec(5) [OF assms(2) g] assms(3) by (simp add: live_def)
      moreover have "ctx_error cg" using get_spec(4) [OF assms(2) g] None by simp
      ultimately show ?thesis
        using within_get [OF assms(2) g] assms(3) by (simp add: mul_done_def live_def out_of_memory_def)
    next
      case (Some t)
      note done' = mul_temp_done [where h = h and s = s, OF assms(1-7) g [unfolded Some] s_def, folded abs]
      obtain k where k: "j = 2 ^ k" using j2(1) by blast
      show ?thesis
      proof (cases "j < al \<or> j < bl")
        case True
        obtain e1 ht where e1: "expand mem hg t (j * 8) = (e1, ht)" by fastforce
        obtain e2 hr where e2: "expand mem ht rr (j * 4) = (e2, hr)" by fastforce
        let ?f = "\<lambda>h. bn_mul_part_recursive h (rr, 0) (a, 0) (b, 0) j (al - j) (bl - j) (t, 0)"
        have len: "al - j < j" "bl - j < j" "al - j \<le> bl - j + 1" "bl - j \<le> al - j + 1" "j + (al - j) = al" "j + (bl - j) = bl"
          using True j l rec j2(2) by linarith+
        have "mul_done mem h ctx rr a b (if \<not> e1 then (False, ht, cg) else if \<not> e2 then (False, hr, cg) else (True, set_width (?f hr) rr ?m, cg))"
        proof (rule done' [OF e1 e2])
          have "j \<le> ?m" "?m \<le> j * 4" using j l(2-6) rec by linarith+
          then show "j * 8 \<le> 8 * ?m" "j * 4 \<le> 8 * ?m" "?m \<le> j * 4" by simp_all
          show "stores [((rr, 0), j * 4), ((t, 0), j * 8)] h' (rr, 0) (j * 4) (wval (words_at h' (a, 0) al) * wval (words_at h' (b, 0) bl)) (?f h')"
            if "room h' (rr, 0) (j * 4) (a, 0) al (b, 0) bl (t, 0) (j * 8)" for h'
            using part_recursive_spec [OF k j2(2) len(1-4), of h' "(rr, 0)" "(a, 0)" "(b, 0)" "(t, 0)", unfolded len(5,6)] that
            by (simp add: mult.commute)
        qed
        moreover have "mul_into mem h ctx rr a b =
            (if \<not> e1 then (False, ht, cg) else if \<not> e2 then (False, hr, cg) else (True, set_width (?f hr) rr ?m, cg))"
          using rec g Some e1 e2 True unfolding code' by (cases e1; cases e2) auto
        ultimately show ?thesis by simp
      next
        case False
        obtain e1 ht where e1: "expand mem hg t (j * 4) = (e1, ht)" by fastforce
        obtain e2 hr where e2: "expand mem ht rr (j * 2) = (e2, hr)" by fastforce
        let ?f = "\<lambda>h. bn_mul_recursive h (rr, 0) (a, 0) (b, 0) j (int al - int j) (int bl - int j) (t, 0)"
        have len: "nat (int j + (int al - int j)) = al" "nat (int j + (int bl - int j)) = bl" by simp_all
        have dif: "- 8 \<le> int al - int j" "int al - int j \<le> 0" "- 8 \<le> int bl - int j" "int bl - int j \<le> 0"
          "0 \<le> int j + (int al - int j)" "0 \<le> int j + (int bl - int j)"
          using False j l rec by linarith+
        have "mul_done mem h ctx rr a b (if \<not> e1 then (False, ht, cg) else if \<not> e2 then (False, hr, cg) else (True, set_width (?f hr) rr ?m, cg))"
        proof (rule done' [OF e1 e2])
          have "j \<le> ?m" "?m \<le> j * 2" using False j l(2-6) rec by linarith+
          then show "j * 4 \<le> 8 * ?m" "j * 2 \<le> 8 * ?m" "?m \<le> j * 2" by simp_all
          show "stores [((rr, 0), j * 2), ((t, 0), j * 4)] h' (rr, 0) (j * 2) (wval (words_at h' (a, 0) al) * wval (words_at h' (b, 0) bl)) (?f h')"
            if "room h' (rr, 0) (j * 2) (a, 0) al (b, 0) bl (t, 0) (j * 4)" for h'
            using mul_recursive_spec [OF k dif, unfolded len, of h' "(rr, 0)" "(a, 0)" "(b, 0)" "(t, 0)"] that
            by (simp add: mult.commute)
        qed
        moreover have "mul_into mem h ctx rr a b =
            (if \<not> e1 then (False, ht, cg) else if \<not> e2 then (False, hr, cg) else (True, set_width (?f hr) rr ?m, cg))"
          using rec g Some e1 e2 False unfolding code' by (cases e1; cases e2) auto
        ultimately show ?thesis by simp
      qed
    qed
  qed
qed

lemma copy_and_end_spec:
  assumes "copy_and_end mem r rr (ok, h, ctx) = (ok', h', ctx')" "width (h r) \<le> dmax (h r)" "width (h rr) \<le> dmax (h rr)"
  shows "ctx' = BN_CTX_end ctx" "\<And>p. p \<noteq> r \<Longrightarrow> h' p = h p" "width (h' r) \<le> dmax (h' r)" "ok' \<Longrightarrow> ok"
    "ok' \<Longrightarrow> bn_nat (h' r) = bn_nat (h rr) \<and> neg (h' r) = neg (h rr) \<and> width (h' r) = width (h rr)"
    "ok \<Longrightarrow> \<not> ok' \<Longrightarrow> static_data (h r) \<or> no_words mem (width (h rr))"
proof -
  obtain e h1 where c: "BN_copy (m_grants mem) (m_junk mem) h r rr = (e, h1)" by fastforce
  note cs = copy_spec [OF assms(3,2) c]
  have eq: "ok' = (ok \<and> (r = rr \<or> e))" "h' = (if ok \<and> r \<noteq> rr then h1 else h)" "ctx' = BN_CTX_end ctx"
    using assms(1) c by (auto simp: copy_and_end_def split: if_splits)
  show "ctx' = BN_CTX_end ctx" "\<And>p. p \<noteq> r \<Longrightarrow> h' p = h p" "ok' \<Longrightarrow> ok" using eq cs(2) by auto
  show "width (h' r) \<le> dmax (h' r)" using eq cs(3,4) assms(2) by (cases e) auto
  show "bn_nat (h' r) = bn_nat (h rr) \<and> neg (h' r) = neg (h rr) \<and> width (h' r) = width (h rr)" if "ok'"
    using eq cs(4) that by auto
  show "static_data (h r) \<or> no_words mem (width (h rr))" if "ok" "\<not> ok'"
    using eq cs(1) that by (auto simp: cannot_expand_def no_words_def)
qed

lemma live_start: "ctx_ok mem ctx \<Longrightarrow> live mem (BN_CTX_start mem ctx) h p \<longleftrightarrow> live mem ctx h p"
  by (simp add: live_def unused_start)

lemma live_got:
  assumes "mem_ok mem" "ctx_ok mem ctx" "BN_CTX_get mem h ctx = (p, h1, c1)" "live mem ctx h q"
  shows "live mem c1 h1 q" "h1 q = h q" "p = Some t \<Longrightarrow> live mem c1 h1 t" "p = Some t \<Longrightarrow> t \<noteq> q"
proof -
  note gs = get_spec [OF assms(2,3)]
  have q: "\<not> unused mem ctx q" using assms(4) by (simp add: live_def)
  then show h: "h1 q = h q" by (rule gs(5))
  have "within_frame mem ctx c1" by (rule within_get [OF assms(2,3)])
  then have "\<not> unused mem c1 q" using unused_mono q by (auto simp: within_frame_def)
  then show "live mem c1 h1 q" using assms(4) h by (simp add: live_def)
  assume p: "p = Some t"
  note got = got_in_use [OF assms(1,2) assms(3) [unfolded p]]
  have "width (h1 t) = 0" using gs(7) [OF p] by (elim conjE)
  then show "live mem c1 h1 t" using got(2,3) by (simp add: live_def)
  show "t \<noteq> q" using got(1) q by auto
qed

text \<open>What both products and squares do to the store and the context.\<close>

definition computes_in_frame :: "malloc \<Rightarrow> bns \<Rightarrow> bn_ctx \<Rightarrow> nat \<Rightarrow> bns \<Rightarrow> bn_ctx \<Rightarrow> bool" where
  "computes_in_frame mem h ctx r h' ctx' \<longleftrightarrow> balanced mem ctx ctx' \<and> width (h' r) \<le> dmax (h' r) \<and>
    (\<forall>p. p \<noteq> r \<longrightarrow> \<not> unused mem ctx p \<longrightarrow> p \<noteq> m_local mem \<longrightarrow> h' p = h p)"

lemma mul_impl_spec:
  assumes "mem_ok mem" "ctx_ok mem ctx" "live mem ctx h r" "live mem ctx h a" "live mem ctx h b"
    and "width (h a) \<le> INT_MAX" "width (h b) \<le> INT_MAX" "bn_mul_impl mem h ctx r a b = (ok, h', ctx')"
  shows "computes_in_frame mem h ctx r h' ctx'"
    "ok \<Longrightarrow> bn_nat (h' r) = bn_nat (h a) * bn_nat (h b) \<and> (bn_nat (h' r) \<noteq> 0 \<longrightarrow> neg (h' r) = (neg (h a) \<noteq> neg (h b)))"
    "\<not> ok \<Longrightarrow> out_of_memory mem h ctx' r (8 * (width (h a) + width (h b)))"
proof -
  let ?n = "width (h a) + width (h b)"
  have "computes_in_frame mem h ctx r h' ctx' \<and>
    (ok \<longrightarrow> bn_nat (h' r) = bn_nat (h a) * bn_nat (h b) \<and> (bn_nat (h' r) \<noteq> 0 \<longrightarrow> neg (h' r) = (neg (h a) \<noteq> neg (h b)))) \<and>
    (\<not> ok \<longrightarrow> out_of_memory mem h ctx' r (8 * ?n))"
  proof (cases "width (h a) = 0 \<or> width (h b) = 0")
    case True
    then show ?thesis using assms(2,8)
      by (auto simp: bn_mul_impl_def computes_in_frame_def balanced_refl BN_zero_def bn_nat_def)
  next
    case False
    define c0 where "c0 = BN_CTX_start mem ctx"
    have ok0: "ctx_ok mem c0" "ctx_used c0 = ctx_used ctx" using start_within [OF assms(2)] by (simp_all add: c0_def)
    have live0: "live mem c0 h p \<longleftrightarrow> live mem ctx h p" for p using live_start [OF assms(2)] by (simp add: c0_def)
    have un0: "unused mem c0 = unused mem ctx" using unused_start [OF assms(2)] by (simp add: c0_def)
    obtain p h1 c1 where g: "(if r = a \<or> r = b then BN_CTX_get mem h c0 else (Some r, h, c0)) = (p, h1, c1)" by (metis prod_cases3)
    have code: "(ok, h', ctx') = (case p of None \<Rightarrow> (False, h1, BN_CTX_end c1) | Some rr \<Rightarrow> copy_and_end mem r rr (mul_into mem h1 c1 rr a b))"
      using assms(8) False unfolding bn_mul_impl_def c0_def [symmetric] Let_def g by (cases p) simp_all
    have g': "ctx_ok mem c1 \<and> within_frame mem c0 c1 \<and> (\<forall>q. live mem ctx h q \<longrightarrow> live mem c1 h1 q \<and> h1 q = h q) \<and>
        (\<forall>q. \<not> unused mem ctx q \<longrightarrow> h1 q = h q) \<and> (\<forall>q. static_data (h1 q) \<longrightarrow> static_data (h q)) \<and>
        (p = None \<longrightarrow> ctx_error c1) \<and> (\<forall>t. p = Some t \<longrightarrow> live mem c1 h1 t \<and> t \<noteq> a \<and> t \<noteq> b \<and> (t = r \<or> unused mem ctx t))"
    proof (cases "r = a \<or> r = b")
      case True
      then have gg: "BN_CTX_get mem h c0 = (p, h1, c1)" using g by simp
      note gs = get_spec [OF ok0(1) gg]
      have "live mem c1 h1 q \<and> h1 q = h q" if "live mem ctx h q" for q using live_got(1,2) [OF assms(1) ok0(1) gg, of q] live0 that by blast
      moreover have "live mem c1 h1 t \<and> t \<noteq> a \<and> t \<noteq> b \<and> unused mem ctx t" if "p = Some t" for t
        using live_got(3,4) [OF assms(1) ok0(1) gg _ that] live0 assms(4,5) got_in_use(1) [OF assms(1) ok0(1) gg [unfolded that]] un0 by auto
      ultimately show ?thesis using gs(1,4,5,8) within_get [OF ok0(1) gg] un0 by auto
    next
      case nt: False
      then show ?thesis using g ok0 live0 assms(3) within_refl [OF ok0(1)] by auto
    qed
    show ?thesis
    proof (cases p)
      case None
      then have "ok = False" "h' = h1" "ctx' = BN_CTX_end c1" using code by simp_all
      moreover have "ctx_error (BN_CTX_end c1)" using g' None by (simp add: BN_CTX_end_def)
      ultimately show ?thesis
        using g' assms(3) framed [OF assms(2), of c1] by (simp add: computes_in_frame_def out_of_memory_def c0_def live_def)
    next
      case (Some rr)
      obtain ok1 h2 c2 where m: "mul_into mem h1 c1 rr a b = (ok1, h2, c2)" by (metis prod_cases3)
      have lv: "live mem c1 h1 rr" "live mem c1 h1 a" "live mem c1 h1 b" "h1 a = h a" "h1 b = h b" "rr \<noteq> a" "rr \<noteq> b"
        using g' Some assms(4,5) by blast+
      have un1: "\<not> unused mem c1 q" if "\<not> unused mem ctx q" for q
        using that unused_mono [of mem c1 q c0] g' un0 by (auto simp: within_frame_def)
      have md: "within_frame mem c1 c2" "width (h2 rr) \<le> dmax (h2 rr)" "\<And>q. q \<noteq> rr \<Longrightarrow> \<not> unused mem c1 q \<Longrightarrow> q \<noteq> m_local mem \<Longrightarrow> h2 q = h1 q"
        "if ok1 then bn_nat (h2 rr) = bn_nat (h a) * bn_nat (h b) \<and> neg (h2 rr) = (neg (h a) \<noteq> neg (h b)) \<and> width (h2 rr) = ?n
         else out_of_memory mem h1 c2 rr (8 * ?n)"
      proof -
        have "mul_done mem h1 c1 rr a b (ok1, h2, c2)"
          using mul_into_done [OF assms(1) conjunct1 [OF g'] lv(1-3,6,7), unfolded lv(4,5), OF assms(6,7)] by (simp only: m)
        note dn = this [unfolded mul_done_def case_prod_conv lv(4,5)]
        from dn show "within_frame mem c1 c2" by (elim conjE)
        from dn show "width (h2 rr) \<le> dmax (h2 rr)" by (elim conjE)
        from dn show "if ok1 then bn_nat (h2 rr) = bn_nat (h a) * bn_nat (h b) \<and> neg (h2 rr) = (neg (h a) \<noteq> neg (h b)) \<and> width (h2 rr) = ?n
            else out_of_memory mem h1 c2 rr (8 * ?n)" by (elim conjE)
        from dn show "h2 q = h1 q" if "q \<noteq> rr" "\<not> unused mem c1 q" "q \<noteq> m_local mem" for q using that by simp
      qed
      have r2: "r \<noteq> rr \<Longrightarrow> h2 r = h r" using md(3) [of r] un1 [of r] assms(3) g' by (auto simp: live_def)
      have fit: "width (h2 r) \<le> dmax (h2 r)" using md(2) r2 assms(3) by (cases "r = rr") (auto simp: live_def)
      have ce: "copy_and_end mem r rr (ok1, h2, c2) = (ok, h', ctx')" using code Some m by simp
      note cs = copy_and_end_spec [OF ce fit md(2)]
      have win: "within_frame mem c0 c2" using g' md(1) within_trans by blast
      have bal: "balanced mem ctx ctx'" unfolding cs(1) by (rule framed [OF assms(2)]) (use win in \<open>simp add: c0_def\<close>)
      have others: "h' q = h q" if "q \<noteq> r" "\<not> unused mem ctx q" "q \<noteq> m_local mem" for q
      proof -
        have "q \<noteq> rr" using that(1,2) g' Some by auto
        then have "h2 q = h1 q" using md(3) un1 that by blast
        then show ?thesis using cs(2) [OF that(1)] g' that(2) by simp
      qed
      have fail: "out_of_memory mem h ctx' r (8 * ?n)" if "\<not> ok"
      proof (cases ok1)
        case True
        then have "static_data (h2 r) \<or> no_words mem ?n" using cs(6) that md(4) by simp
        moreover have "r \<noteq> rr" using ce that True by (auto simp: copy_and_end_def split: if_splits)
        ultimately show ?thesis using r2 no_words_mono [of mem ?n "8 * ?n"] by (auto simp: out_of_memory_def)
      next
        case f: False
        have "static_data (h rr) \<Longrightarrow> rr = r \<or> (\<exists>i. static_data (h (m_at mem i)))" using g' Some by (auto simp: unused_def)
        moreover have "ctx_error c2 \<Longrightarrow> ctx_error ctx'" unfolding cs(1) by (simp add: BN_CTX_end_def)
        ultimately show ?thesis using md(4) f g' by (auto simp: out_of_memory_def)
      qed
      show ?thesis
        using bal cs(3) others fail cs(4,5) md(4) by (auto simp: computes_in_frame_def)
    qed
  qed
  then show "computes_in_frame mem h ctx r h' ctx'"
    "ok \<Longrightarrow> bn_nat (h' r) = bn_nat (h a) * bn_nat (h b) \<and> (bn_nat (h' r) \<noteq> 0 \<longrightarrow> neg (h' r) = (neg (h a) \<noteq> neg (h b)))"
    "\<not> ok \<Longrightarrow> out_of_memory mem h ctx' r (8 * (width (h a) + width (h b)))"
    by simp_all
qed

section \<open>Squares of numbers\<close>

definition sqr_done :: "malloc \<Rightarrow> bns \<Rightarrow> nat \<Rightarrow> nat \<Rightarrow> nat \<Rightarrow> bool \<times> bns \<Rightarrow> bool" where
  "sqr_done mem h rr a tmp s \<longleftrightarrow> (case s of (ok, h') \<Rightarrow>
    width (h' rr) \<le> dmax (h' rr) \<and> (\<forall>p. p \<noteq> rr \<longrightarrow> p \<noteq> tmp \<longrightarrow> p \<noteq> m_local mem \<longrightarrow> h' p = h p) \<and>
    (if ok then bn_nat (h' rr) = bn_nat (h a) * bn_nat (h a) \<and> \<not> neg (h' rr) \<and> width (h' rr) = 2 * width (h a)
     else static_data (h rr) \<or> static_data (h tmp) \<or> no_words mem (4 * width (h a))))"

text \<open>All ways to square: with scratch space at \<open>t\<close>, which may be the temporary number, the local array or nothing.\<close>

lemma sqr_stage:
  assumes "in_array hx (rr, 0) (2 * width (h a))" "hx a = h a" "\<forall>p. p \<noteq> rr \<longrightarrow> p \<noteq> tmp \<longrightarrow> p \<noteq> m_local mem \<longrightarrow> hx p = h p"
    and "stores rs hx (rr, 0) (2 * width (h a)) (wval (words_at hx (a, 0) (width (h a))) * wval (words_at hx (a, 0) (width (h a)))) hy"
    and "\<forall>r \<in> set rs. fst (fst r) \<in> {rr, tmp, m_local mem}"
  shows "sqr_done mem h rr a tmp (True, hy(rr := (hy rr)\<lparr>neg := False, width := 2 * width (h a)\<rparr>))"
proof -
  have two: "width (h a) + width (h a) = 2 * width (h a)" by simp
  note ps = product_stage [where h = h and a = a and b = a and hx = hx and rr = rr, OF assms(4,1) _ assms(2,2), unfolded two, OF order_refl]
  have "bn_nat ((hy rr)\<lparr>neg := False, width := 2 * width (h a)\<rparr>) = bn_nat (h a) * bn_nat (h a)"
    using ps(1) by (simp add: bn_nat_def set_width_def)
  moreover have "hy p = h p" if "p \<noteq> rr" "p \<noteq> tmp" "p \<noteq> m_local mem" for p
    using only_writes_other [OF storesD(1) [OF assms(4)], of p] assms(3,5) that by fastforce
  ultimately show ?thesis using ps(2) by (simp add: sqr_done_def)
qed

lemma power_of_two_test:
  assumes "al \<noteq> 0" "al < 2 ^ 31" "(of_nat al :: 32 word) AND (of_nat al - 1) = 0"
  shows "\<exists>k. al = 2 ^ k"
proof -
  define k where "k = bit_len al - 1"
  have pos: "0 < bit_len al" using assms(1) bit_len_bounds(1) [of al] by (cases "bit_len al") auto
  then have Suc_k: "2 * 2 ^ k = (2 :: nat) ^ bit_len al" by (simp add: k_def flip: power_Suc)
  have k: "2 ^ k \<le> al" "al < 2 * 2 ^ k" using bit_len_bounds [of al] assms(1) unfolding Suc_k by (simp_all add: k_def)
  have set: "bit m k" if "2 ^ k \<le> m" "m < 2 * 2 ^ k" for m :: nat
  proof -
    have "m div 2 ^ k = 1" using that by (simp add: div_nat_eqI)
    then show ?thesis by (simp add: bit_iff_odd)
  qed
  have "(of_nat (al AND (al - 1)) :: 32 word) = 0" using assms(1,3) by (simp add: of_nat_and_eq of_nat_diff Suc_leI)
  moreover have "al AND (al - 1) \<le> al" using AND_upper1 [of "int al" "int (al - 1)"] by (simp flip: of_nat_and_eq)
  ultimately have zero: "al AND (al - 1) = 0" using assms(2) dvd_imp_le [of "2 ^ 32" "al AND (al - 1)"] by (cases "al AND (al - 1) = 0") (simp_all add: word_of_nat_eq_0_iff)
  have "al = 2 ^ k"
  proof (rule ccontr)
    assume "al \<noteq> 2 ^ k"
    then have "bit (al AND (al - 1)) k" using k set [of al] set [of "al - 1"] by (simp add: bit_and_iff)
    then show False using zero by simp
  qed
  then show ?thesis by blast
qed

lemma sqr_into_done:
  assumes "rr \<noteq> a" "tmp \<noteq> a" "tmp \<noteq> rr" "m_local mem \<notin> {rr, a, tmp}" "0 < width (h a)" "width (h a) \<le> INT_MAX"
    and "width (h rr) \<le> dmax (h rr)" "width (h a) \<le> dmax (h a)" "width (h tmp) \<le> dmax (h tmp)"
  shows "sqr_done mem h rr a tmp (sqr_into mem h rr a tmp)"
proof -
  define al where "al = width (h a)"
  note fold = al_def [symmetric]
  obtain e h1 where e: "expand mem h rr (2 * al) = (e, h1)" by fastforce
  note x = expand_spec [OF assms(7) e]
  have code: "sqr_into mem h rr a tmp = (if \<not> e then (False, h1) else
    let fin = (\<lambda>h. (True, h(rr := (h rr)\<lparr>neg := False, width := 2 * al\<rparr>)))
    in if al = 4 then fin (bn_sqr_comba4 h1 (rr, 0) (a, 0))
       else if al = 8 then fin (bn_sqr_comba8 h1 (rr, 0) (a, 0))
       else if al < 16 then fin (bn_sqr_normal (local_array mem h1 32) (rr, 0) (a, 0) al (m_local mem, 0))
       else if al \<noteq> 0 \<and> (of_nat al :: 32 word) AND (of_nat al - 1) = 0 then
         (case expand mem h1 tmp (al * 4) of (False, h) \<Rightarrow> (False, h) | (True, h) \<Rightarrow> fin (bn_sqr_recursive h (rr, 0) (a, 0) al (tmp, 0)))
       else (case expand mem h1 tmp (2 * al) of (False, h) \<Rightarrow> (False, h) | (True, h) \<Rightarrow> fin (bn_sqr_normal h (rr, 0) (a, 0) al (tmp, 0))))"
    unfolding sqr_into_def fold Let_def e by (cases e) simp_all
  show ?thesis
  proof (cases e)
    case False
    then show ?thesis using x(2,7) no_words_mono [of mem "2 * al" "4 * al"] by (auto simp: code sqr_done_def fold)
  next
    case True
    have ir: "in_array h1 (rr, 0) (2 * al)" using x(1) True by simp
    have o: "h1 p = h p" if "p \<noteq> rr" for p using x(3) that by blast
    have ia: "in_array h1 (a, 0) al" using o [of a] assms(1,8) by (simp add: in_array_def al_def)
    have cl: "clear_of (rr, 0) m (a, 0) n" "clear_of (tmp, 0) m (a, 0) n" "clear_of (rr, 0) m (tmp, 0) n"
      "clear_of (m_local mem, 0) m (a, 0) n" "clear_of (rr, 0) m (m_local mem, 0) n" for m n
      using assms(1-4) by (auto simp: clear_of_def)
    note stage = sqr_stage [where h = h and a = a and rr = rr and tmp = tmp and mem = mem, folded al_def]
    note plain = stage [where hx = h1 and rs = "[((rr, 0), 2 * al)]", OF ir o [OF assms(1) [symmetric]]]
    text \<open>With the temporary number as scratch space.\<close>
    have temp: "sqr_done mem h rr a tmp (case expand mem h1 tmp k of (False, h) \<Rightarrow> (False, h)
        | (True, h) \<Rightarrow> (True, (f h)(rr := ((f h) rr)\<lparr>neg := False, width := 2 * al\<rparr>)))"
      if k: "k \<le> 4 * al" and f: "\<And>h'. in_array h' (rr, 0) (2 * al) \<Longrightarrow> in_array h' (a, 0) al \<Longrightarrow> in_array h' (tmp, 0) k \<Longrightarrow>
        stores [((rr, 0), 2 * al), ((tmp, 0), k)] h' (rr, 0) (2 * al)
          (wval (words_at h' (a, 0) al) * wval (words_at h' (a, 0) al)) (f h')" for k f
    proof -
      obtain e2 h2 where e2: "expand mem h1 tmp k = (e2, h2)" by fastforce
      have fit: "width (h1 tmp) \<le> dmax (h1 tmp)" using o [OF assms(3)] assms(9) by simp
      note x2 = expand_spec [OF fit e2]
      have o2: "h2 p = h p" if "p \<noteq> rr" "p \<noteq> tmp" for p using x2(3) o that by simp
      have r2: "h2 rr = h1 rr" using x2(3) assms(3) by simp
      show ?thesis
      proof (cases e2)
        case False
        then show ?thesis using x2(2) x(7) o o [OF assms(3)] no_words_mono [of mem k "4 * al"] k e2
          by (auto simp: sqr_done_def al_def)
      next
        case e2t: True
        have i2: "in_array h2 (rr, 0) (2 * al)" "in_array h2 (a, 0) al" "in_array h2 (tmp, 0) k"
          using ir r2 ia x2(1) e2t o2 [of a] o [of a] assms(1,2) by (simp_all add: in_array_def)
        have "sqr_done mem h rr a tmp (True, (f h2)(rr := ((f h2) rr)\<lparr>neg := False, width := 2 * al\<rparr>))"
          by (rule stage [OF i2(1) _ _ f [OF i2]]) (use o2 assms(1,2) in auto)
        then show ?thesis using e2 e2t by simp
      qed
    qed
    consider "al = 4" | "al = 8" | (small) "al \<noteq> 4" "al \<noteq> 8" "al < 16"
      | (rec) "16 \<le> al" "(of_nat al :: 32 word) AND (of_nat al - 1) = 0" | (big) "16 \<le> al" "(of_nat al :: 32 word) AND (of_nat al - 1) \<noteq> 0"
      by linarith
    then show ?thesis
    proof cases
      case 1
      have "sqr_done mem h rr a tmp (True, (bn_sqr_comba4 h1 (rr, 0) (a, 0))(rr := (bn_sqr_comba4 h1 (rr, 0) (a, 0) rr)\<lparr>neg := False, width := 2 * al\<rparr>))"
        by (rule plain) (use comba_stores(4) [OF ir ia ia cl(1,1) 1] o in simp_all)
      then show ?thesis using 1 True by (simp add: code Let_def)
    next
      case 2
      have "sqr_done mem h rr a tmp (True, (bn_sqr_comba8 h1 (rr, 0) (a, 0))(rr := (bn_sqr_comba8 h1 (rr, 0) (a, 0) rr)\<lparr>neg := False, width := 2 * al\<rparr>))"
        by (rule plain) (use comba_stores(3) [OF ir ia ia cl(1,1) 2] o in simp_all)
      then show ?thesis using 2 True by (simp add: code Let_def)
    next
      case small
      define hl where "hl = local_array mem h1 32"
      have ol: "hl p = h1 p" if "p \<noteq> m_local mem" for p using that by (simp add: hl_def local_array_def)
      have il: "in_array hl (rr, 0) (2 * al)" "in_array hl (a, 0) al" "in_array hl (m_local mem, 0) (2 * al)"
        using ir ia ol [of rr] ol [of a] assms(4) small(3) by (simp_all add: in_array_def hl_def local_array_def)
      note st = sqr_normal_spec [OF il(1,2,3) cl(1,4,5)]
      have "sqr_done mem h rr a tmp (True, (bn_sqr_normal hl (rr, 0) (a, 0) al (m_local mem, 0))
          (rr := (bn_sqr_normal hl (rr, 0) (a, 0) al (m_local mem, 0) rr)\<lparr>neg := False, width := 2 * al\<rparr>))"
        by (rule stage [OF il(1) _ _ st]) (use ol o assms(1,4) in auto)
      then show ?thesis using small True by (simp add: code Let_def hl_def)
    next
      case rec
      obtain k where k: "al = 2 ^ k" using power_of_two_test [OF _ _ rec(2)] rec(1) assms(6) by (auto simp: al_def INT_MAX_def)
      have "sqr_done mem h rr a tmp (case expand mem h1 tmp (al * 4) of (False, h) \<Rightarrow> (False, h)
        | (True, h) \<Rightarrow> (True, (bn_sqr_recursive h (rr, 0) (a, 0) al (tmp, 0))(rr := ((bn_sqr_recursive h (rr, 0) (a, 0) al (tmp, 0)) rr)\<lparr>neg := False, width := 2 * al\<rparr>)))"
        by (rule temp) (use sqr_recursive_spec [OF k, of _ "(rr, 0)" "(a, 0)" "(tmp, 0)"] cl in \<open>simp_all add: room_def mult.commute\<close>)
      then show ?thesis using rec True by (simp add: code Let_def cong: bool.case_cong)
    next
      case big
      have "sqr_done mem h rr a tmp (case expand mem h1 tmp (2 * al) of (False, h) \<Rightarrow> (False, h)
        | (True, h) \<Rightarrow> (True, (bn_sqr_normal h (rr, 0) (a, 0) al (tmp, 0))(rr := ((bn_sqr_normal h (rr, 0) (a, 0) al (tmp, 0)) rr)\<lparr>neg := False, width := 2 * al\<rparr>)))"
        by (rule temp) (use sqr_normal_spec [of _ "(rr, 0)" al "(a, 0)" "(tmp, 0)"] cl in simp_all)
      then show ?thesis using big True by (simp add: code Let_def cong: bool.case_cong)
    qed
  qed
qed

lemma sqr_consttime_spec:
  assumes "mem_ok mem" "ctx_ok mem ctx" "live mem ctx h r" "live mem ctx h a" "width (h a) \<le> INT_MAX"
    and "bn_sqr_consttime mem h ctx r a = (ok, h', ctx')"
  shows "computes_in_frame mem h ctx r h' ctx'"
    "ok \<Longrightarrow> bn_nat (h' r) = bn_nat (h a) * bn_nat (h a) \<and> \<not> neg (h' r)"
    "\<not> ok \<Longrightarrow> out_of_memory mem h ctx' r (4 * width (h a))"
proof -
  have "computes_in_frame mem h ctx r h' ctx' \<and> (ok \<longrightarrow> bn_nat (h' r) = bn_nat (h a) * bn_nat (h a) \<and> \<not> neg (h' r)) \<and>
    (\<not> ok \<longrightarrow> out_of_memory mem h ctx' r (4 * width (h a)))"
  proof (cases "width (h a) = 0")
    case True
    then show ?thesis using assms(2,6)
      by (auto simp: bn_sqr_consttime_def computes_in_frame_def balanced_refl BN_zero_def bn_nat_def)
  next
    case False
    define c0 where "c0 = BN_CTX_start mem ctx"
    have ok0: "ctx_ok mem c0" using start_within [OF assms(2)] by (simp add: c0_def)
    have live0: "live mem c0 h p \<longleftrightarrow> live mem ctx h p" for p using live_start [OF assms(2)] by (simp add: c0_def)
    have un0: "unused mem c0 = unused mem ctx" using unused_start [OF assms(2)] by (simp add: c0_def)
    obtain p h1 c1 where g: "(if a \<noteq> r then (Some r, h, c0) else BN_CTX_get mem h c0) = (p, h1, c1)" by (metis prod_cases3)
    obtain q h2 c2 where g2: "BN_CTX_get mem h1 c1 = (q, h2, c2)" by (metis prod_cases3)
    have g1: "ctx_ok mem c1 \<and> within_frame mem c0 c1 \<and> live mem c1 h1 r \<and> h1 r = h r \<and> live mem c1 h1 a \<and> h1 a = h a \<and>
        (\<forall>x. \<not> unused mem ctx x \<longrightarrow> h1 x = h x) \<and> (\<forall>x. static_data (h1 x) \<longrightarrow> static_data (h x)) \<and>
        (p = None \<longrightarrow> ctx_error c1) \<and> (\<forall>t. p = Some t \<longrightarrow> live mem c1 h1 t \<and> t \<noteq> a \<and> (t = r \<or> unused mem ctx t))"
    proof (cases "a = r")
      case True
      then have gg: "BN_CTX_get mem h c0 = (p, h1, c1)" using g by simp
      note gs = get_spec [OF ok0(1) gg]
      have "live mem c1 h1 a \<and> h1 a = h a" using live_got(1,2) [OF assms(1) ok0(1) gg, of a] live0 assms(4) by blast
      moreover have "live mem c1 h1 t \<and> t \<noteq> a \<and> unused mem ctx t" if "p = Some t" for t
        using live_got(3,4) [OF assms(1) ok0(1) gg _ that] live0 assms(4) got_in_use(1) [OF assms(1) ok0(1) gg [unfolded that]] un0 by auto
      ultimately show ?thesis using gs(1,4,5,8) within_get [OF ok0(1) gg] un0 True by auto
    next
      case nt: False
      then show ?thesis using g ok0 live0 assms(3,4) within_refl [OF ok0(1)] by auto
    qed
    note gs2 = get_spec [OF conjunct1 [OF g1] g2]
    have win: "within_frame mem c0 c2" using within_trans [OF _ within_get [OF conjunct1 [OF g1] g2]] g1 by blast
    have bal: "balanced mem ctx (BN_CTX_end c2)" by (rule framed [OF assms(2)]) (use win in \<open>simp add: c0_def\<close>)
    have un1: "\<not> unused mem c1 x" if "\<not> unused mem ctx x" for x
      using that unused_mono [of mem c1 x c0] g1 un0 by (auto simp: within_frame_def)
    have same2: "h2 x = h x" if "\<not> unused mem ctx x" for x using gs2(5) [OF un1 [OF that]] g1 that by simp
    have st2: "static_data (h2 x) \<Longrightarrow> static_data (h x)" for x using gs2(8) g1 by blast
    have err: "ctx_error (BN_CTX_end c2) = ctx_error c2" by (simp add: BN_CTX_end_def split: prod.splits)
    have code: "(ok, h', ctx') = (case (p, q) of (Some rr, Some tmp) \<Rightarrow>
        (case sqr_into mem h2 rr a tmp of (ok, h) \<Rightarrow> copy_and_end mem r rr (ok, h, c2)) | _ \<Rightarrow> (False, h2, BN_CTX_end c2))"
      using assms(6) False unfolding bn_sqr_consttime_def c0_def [symmetric] Let_def g case_prod_conv g2 by simp
    show ?thesis
    proof (cases "p = None \<or> q = None")
      case True
      then have c: "ok = False" "h' = h2" "ctx' = BN_CTX_end c2" using code by (auto split: option.splits)
      have "ctx_error c2" using True g1 gs2(3,4) by blast
      then show ?thesis using c bal err same2 assms(3) by (simp add: computes_in_frame_def out_of_memory_def live_def)
    next
      case nn: False
      then obtain rr tmp where pq: "p = Some rr" "q = Some tmp" by auto
      obtain ok1 h3 where m: "sqr_into mem h2 rr a tmp = (ok1, h3)" by fastforce
      have rr: "live mem c1 h1 rr" "rr \<noteq> a" "rr = r \<or> unused mem ctx rr" using g1 pq by blast+
      note lg = live_got [OF assms(1) conjunct1 [OF g1] g2]
      have fin: "live mem c2 h2 rr" "live mem c2 h2 a" "live mem c2 h2 tmp" "tmp \<noteq> a" "tmp \<noteq> rr" "h2 a = h a"
        using lg(1) rr(1) g1 lg(3,4) [OF _ pq(2)] lg(2) pq(2) by auto
      have tmp: "unused mem ctx tmp"
        using got_in_use(1) [OF assms(1) conjunct1 [OF g1] g2 [unfolded pq(2)]] un1 by blast
      have "sqr_done mem h2 rr a tmp (ok1, h3)"
        using sqr_into_done [of rr a tmp mem h2] fin rr(2) False assms(5) by (simp add: live_def m)
      note sd = this [unfolded sqr_done_def case_prod_conv fin(6)]
      from sd have fit: "width (h3 rr) \<le> dmax (h3 rr)" by (elim conjE)
      from sd have val: "if ok1 then bn_nat (h3 rr) = bn_nat (h a) * bn_nat (h a) \<and> \<not> neg (h3 rr) \<and> width (h3 rr) = 2 * width (h a)
          else static_data (h2 rr) \<or> static_data (h2 tmp) \<or> no_words mem (4 * width (h a))" by (elim conjE)
      have other: "h3 x = h x" if "x \<noteq> rr" "\<not> unused mem ctx x" "x \<noteq> m_local mem" for x
      proof -
        have "x \<noteq> tmp" using tmp that(2) by auto
        then show ?thesis using sd that same2 by simp
      qed
      have r3: "r \<noteq> rr \<Longrightarrow> h3 r = h r" using other [of r] assms(3) by (auto simp: live_def)
      then have fit3: "width (h3 r) \<le> dmax (h3 r)" using fit assms(3) by (cases "r = rr") (auto simp: live_def)
      have ce: "copy_and_end mem r rr (ok1, h3, c2) = (ok, h', ctx')" using code pq m by simp
      note cs = copy_and_end_spec [OF ce fit3 fit]
      have others: "h' x = h x" if "x \<noteq> r" "\<not> unused mem ctx x" "x \<noteq> m_local mem" for x
        using cs(2) [OF that(1)] other [of x] that rr(3) by auto
      have fail: "out_of_memory mem h ctx' r (4 * width (h a))" if "\<not> ok"
      proof (cases ok1)
        case True
        then have "static_data (h3 r) \<or> no_words mem (2 * width (h a))" using cs(6) that val by simp
        moreover have "r \<noteq> rr" using ce that True by (auto simp: copy_and_end_def split: if_splits)
        ultimately show ?thesis using r3 no_words_mono [of mem "2 * width (h a)" "4 * width (h a)"] by (auto simp: out_of_memory_def)
      next
        case f: False
        have "static_data (h2 rr) \<Longrightarrow> static_data (h r) \<or> (\<exists>i. static_data (h (m_at mem i)))" using st2 rr(3) by (auto simp: unused_def)
        moreover have "static_data (h2 tmp) \<Longrightarrow> \<exists>i. static_data (h (m_at mem i))" using st2 tmp by (auto simp: unused_def)
        ultimately show ?thesis using val f by (auto simp: out_of_memory_def)
      qed
      show ?thesis using bal cs(1,3) others fail cs(4,5) val by (auto simp: computes_in_frame_def)
    qed
  qed
  then show "computes_in_frame mem h ctx r h' ctx'" "ok \<Longrightarrow> bn_nat (h' r) = bn_nat (h a) * bn_nat (h a) \<and> \<not> neg (h' r)"
    "\<not> ok \<Longrightarrow> out_of_memory mem h ctx' r (4 * width (h a))" by simp_all
qed

section \<open>The absolute difference and the product with a word\<close>

lemma abs_sub_spec:
  assumes "mem_ok mem" "ctx_ok mem ctx" "live mem ctx h r" "live mem ctx h a" "live mem ctx h b"
    and "bn_abs_sub_consttime mem h ctx r a b = (ok, h', ctx')"
  shows "computes_in_frame mem h ctx r h' ctx'"
    "ok \<Longrightarrow> bn_nat (h' r) = nat_dist (bn_nat (h a)) (bn_nat (h b)) \<and> neg (h' r) = neg (h r) \<and>
      width (h' r) = max (width (h a)) (width (h b))"
    "\<not> ok \<Longrightarrow> out_of_memory mem h ctx' r (max (width (h a)) (width (h b)))"
proof -
  define cl where "cl = (if width (h a) < width (h b) then width (h a) else width (h b))"
  define dl where "dl = int (width (h a)) - int (width (h b))"
  define n where "n = max (width (h a)) (width (h b))"
  have lens: "cl + nat dl = width (h a)" "cl + nat (- dl) = width (h b)" "cl + nat \<bar>dl\<bar> = n"
    by (auto simp: cl_def dl_def n_def nat_minus_as_int [symmetric] nat_diff_distrib max_def)
  have n: "(if width (h a) < width (h b) then width (h b) else width (h a)) = n" by (simp add: n_def)
  define c0 where "c0 = BN_CTX_start mem ctx"
  have ok0: "ctx_ok mem c0" using start_within [OF assms(2)] by (simp add: c0_def)
  have live0: "live mem c0 h p \<longleftrightarrow> live mem ctx h p" for p using live_start [OF assms(2)] by (simp add: c0_def)
  have un0: "unused mem c0 = unused mem ctx" using unused_start [OF assms(2)] by (simp add: c0_def)
  obtain p h1 c1 where g: "BN_CTX_get mem h c0 = (p, h1, c1)" by (metis prod_cases3)
  note gs = get_spec [OF ok0 g]
  have bal: "balanced mem ctx (BN_CTX_end c1)"
    by (rule framed [OF assms(2)]) (use within_get [OF ok0 g] in \<open>simp add: c0_def\<close>)
  have same: "h1 q = h q" if "\<not> unused mem ctx q" for q using gs(5) un0 that by simp
  have abr: "h1 a = h a" "h1 b = h b" "h1 r = h r" "width (h1 r) \<le> dmax (h1 r)" using same assms(3-5) by (simp_all add: live_def)
  note code = assms(6) [unfolded bn_abs_sub_consttime_def c0_def [symmetric] cl_def [symmetric] dl_def [symmetric] n Let_def g case_prod_conv]
  have "computes_in_frame mem h ctx r h' ctx' \<and>
    (if ok then bn_nat (h' r) = nat_dist (bn_nat (h a)) (bn_nat (h b)) \<and> neg (h' r) = neg (h r) \<and> width (h' r) = n
     else out_of_memory mem h ctx' r n)"
  proof (cases p)
    case None
    then have "ok = False" "h' = h1" "ctx' = BN_CTX_end c1" using code by simp_all
    moreover have "ctx_error (BN_CTX_end c1)" using gs(4) None by (simp add: BN_CTX_end_def)
    ultimately show ?thesis using bal same abr(4) by (simp add: computes_in_frame_def out_of_memory_def)
  next
    case (Some t)
    note lg = live_got [OF assms(1) ok0 g]
    have t: "t \<noteq> r" "t \<noteq> a" "t \<noteq> b" "width (h1 t) \<le> dmax (h1 t)" "unused mem ctx t"
      using lg(4) [OF _ Some] lg(3) [OF _ Some] live0 assms(3-5) got_in_use(1) [OF assms(1) ok0 g [unfolded Some]] un0
      by (auto simp: live_def)
    obtain e h2 where e: "expand mem h1 r n = (e, h2)" by fastforce
    note x = expand_spec [OF abr(4) e]
    have tw: "width (h2 t) \<le> dmax (h2 t)" using x(3) [OF t(1)] t(4) by simp
    obtain e2 h3 where e2: "expand mem h2 t n = (e2, h3)" by fastforce
    note y = expand_spec [OF tw e2]
    have hr: "h3 r = h2 r" using y(3) t(1) by simp
    have st: "static_data (h2 t) \<Longrightarrow> \<exists>i. static_data (h (m_at mem i))"
      using x(3) [OF t(1)] gs(8) [of t] t(5) by (auto simp: unused_def)
    consider "\<not> e" | "e" "\<not> e2" | (good) "e" "e2" by blast
    then show ?thesis
    proof cases
      case 1
      then have c: "ok = False" "h' = h2" "ctx' = BN_CTX_end c1" using code Some e by simp_all
      have "static_data (h r) \<or> no_words mem n" using x(2) 1 abr(3) by simp
      then show ?thesis using c bal x(3,7) same by (auto simp: computes_in_frame_def out_of_memory_def)
    next
      case 2
      then have c: "ok = False" "h' = h3" "ctx' = BN_CTX_end c1" using code Some e e2 by simp_all
      have "(\<exists>i. static_data (h (m_at mem i))) \<or> no_words mem n" using y(2) 2 st by blast
      moreover have "h3 q = h q" if "q \<noteq> r" "\<not> unused mem ctx q" for q
      proof -
        have "q \<noteq> t" using that(2) t(5) by auto
        then show ?thesis using y(3) x(3) same that by simp
      qed
      ultimately show ?thesis using c bal x(7) hr by (auto simp: computes_in_frame_def out_of_memory_def)
    next
      case good
      obtain h4 ms where run: "bn_abs_sub_part_words h3 (r, 0) (a, 0) (b, 0) cl dl (t, 0) = (h4, ms)" by fastforce
      have c: "ok = True" "h' = set_width h4 r n" "ctx' = BN_CTX_end c1" using code Some e e2 good run by simp_all
      have ops: "words_at h3 (q, 0) (width (h q)) = words_at h (q, 0) (width (h q))" "in_array h3 (q, 0) (width (h q))"
        if "q = a \<or> q = b" for q
      proof -
        have q: "q \<noteq> t" "h1 q = h q" "width (h q) \<le> dmax (h q)" using that t abr(1,2) assms(4,5) by (auto simp: live_def)
        have "take (width (h q)) (d (h3 q)) = take (width (h q)) (d (h q)) \<and> width (h q) \<le> dmax (h3 q)"
        proof (cases "q = r")
          case True
          then show ?thesis using x(4,7,8) hr q(2) by simp
        next
          case False
          then show ?thesis using x(3) y(3) q by simp
        qed
        then show "words_at h3 (q, 0) (width (h q)) = words_at h (q, 0) (width (h q))" "in_array h3 (q, 0) (width (h q))"
          by (simp_all add: words_at_def in_array_def)
      qed
      have i: "in_array h3 (r, 0) n" "in_array h3 (t, 0) n" using x(1) y(1) good hr by (simp_all add: in_array_def)
      have len: "width (h a) \<le> n" "width (h b) \<le> n" by (simp_all add: n_def)
      note sub = abs_sub_part_spec [where cl = cl and dl = dl, OF _ _ _ _ _ _ _ _ _ _ _ run, unfolded lens]
      have "only_writes [((r, 0), n), ((t, 0), n)] h3 h4 \<and>
          wval (words_at h4 (r, 0) n) = nat_dist (wval (words_at h3 (a, 0) (width (h a)))) (wval (words_at h3 (b, 0) (width (h b))))"
        by (intro conjI sub) (use i ops t len in \<open>auto simp: ahead_def clear_of_def\<close>)
      then have res: "only_writes [((r, 0), n), ((t, 0), n)] h3 h4"
          "wval (words_at h4 (r, 0) n) = nat_dist (bn_nat (h a)) (bn_nat (h b))"
        by (simp_all add: ops(1) bn_nat_words)
      have "bn_nat (h' r) = nat_dist (bn_nat (h a)) (bn_nat (h b))" using res(2) by (simp add: c bn_nat_def set_width_def words_at_def)
      moreover have "neg (h' r) = neg (h r)" using res(1) hr x(5) abr(3) by (simp add: c only_writes_def)
      moreover have "in_array h4 (r, 0) n" using i(1) only_writes_in_array [OF res(1)] by blast
      then have "n \<le> dmax (h' r)" by (simp add: c in_array_def)
      moreover have "h' q = h q" if "q \<noteq> r" "\<not> unused mem ctx q" for q
      proof -
        have "q \<noteq> t" using that(2) t(5) by auto
        then show ?thesis using only_writes_other [OF res(1), of q] y(3) x(3) same that by (simp add: c)
      qed
      ultimately show ?thesis using c bal by (simp add: computes_in_frame_def)
    qed
  qed
  then show "computes_in_frame mem h ctx r h' ctx'"
    "ok \<Longrightarrow> bn_nat (h' r) = nat_dist (bn_nat (h a)) (bn_nat (h b)) \<and> neg (h' r) = neg (h r) \<and>
      width (h' r) = max (width (h a)) (width (h b))"
    "\<not> ok \<Longrightarrow> out_of_memory mem h ctx' r (max (width (h a)) (width (h b)))"
    by (simp_all add: n_def)
qed

lemma mul_word_spec:
  assumes "bn_ok (h bn)" "BN_mul_word g junk h bn w = (ok, h')"
  shows "ok \<Longrightarrow> bn_int (h' bn) = bn_int (h bn) * int (unat w) \<and> width (h' bn) \<le> dmax (h' bn)"
    "\<And>p. p \<noteq> bn \<Longrightarrow> h' p = h p" "\<not> ok \<Longrightarrow> cannot_expand g (h bn) (width (h bn) + 1)"
proof -
  let ?n = "width (h bn)"
  have fit: "?n \<le> dmax (h bn)" using assms(1) by (simp add: bn_ok_def)
  have "(ok \<longrightarrow> bn_int (h' bn) = bn_int (h bn) * int (unat w) \<and> width (h' bn) \<le> dmax (h' bn)) \<and>
    (\<forall>p. p \<noteq> bn \<longrightarrow> h' p = h p) \<and> (\<not> ok \<longrightarrow> cannot_expand g (h bn) (?n + 1))"
  proof (cases "?n = 0 \<or> w = 0")
    case True
    then show ?thesis using assms fit
      by (auto simp: BN_mul_word_def BN_zero_def bn_int_def bn_nat_def split: if_splits)
  next
    case False
    obtain h1 ll where m: "bn_mul_words h (bn, 0) (bn, 0) ?n w = (h1, ll)" by fastforce
    have i: "in_array h (bn, 0) ?n" using fit by (simp add: in_array_def)
    note mul = mul_words_spec [OF ahead_self i i m]
    have w1: "width (h1 bn) = ?n" "neg (h1 bn) = neg (h bn)" "dmax (h1 bn) = dmax (h bn)" "static_data (h1 bn) = static_data (h bn)"
      using mul(1) by (simp_all add: only_writes_def)
    have other: "h1 p = h p" if "p \<noteq> bn" for p using only_writes_other [OF mul(1), of p] that by simp
    have v: "bn_nat (h1 bn) + 2 ^ (64 * ?n) * unat ll = unat w * bn_nat (h bn)"
      using mul(2) w1(1) by (simp add: bn_nat_words)
    have int: "bn_int b' = bn_int (h bn) * int (unat w)" if "bn_nat b' = unat w * bn_nat (h bn)" "neg b' = neg (h bn)" for b'
      unfolding bn_int_def that by (cases "neg (h bn)") (simp_all only: if_True if_False of_nat_mult mult.commute mult_minus_right mult_minus_left)
    show ?thesis
    proof (cases "ll = 0")
      case True
      then have "ok" "h' = h1" using assms(2) False m w1(1) by (auto simp: BN_mul_word_def)
      then show ?thesis using True int [of "h1 bn"] v w1 fit other by simp
    next
      case ll: False
      obtain e h2 where e: "bn_wexpand g junk h1 bn (?n + 1) = (e, h2)" by fastforce
      have fit1: "width (h1 bn) \<le> dmax (h1 bn)" using fit w1 by simp
      note we = wexpand_spec [OF fit1 e]
      show ?thesis
      proof (cases e)
        case False
        then have "\<not> ok" "h' = h2" using assms(2) \<open>\<not> (?n = 0 \<or> w = 0)\<close> m w1(1) ll e by (auto simp: BN_mul_word_def)
        moreover have "cannot_expand g (h bn) (?n + 1)" using we(1) False w1 by (simp add: cannot_expand_def)
        ultimately show ?thesis using other we(6) by simp
      next
        case True
        have w2: "width (h2 bn) = ?n" "neg (h2 bn) = neg (h bn)" using we(4,5) w1 by simp_all
        have c: "ok" "h' = h2(bn := (h2 bn)\<lparr>d := (d (h2 bn))[?n := ll], width := ?n + 1\<rparr>)"
          using assms(2) \<open>\<not> (?n = 0 \<or> w = 0)\<close> m w1(1) w2(1) ll e True by (auto simp: BN_mul_word_def)
        have room: "?n < dmax (h2 bn)" using we(3) True by simp
        have "take (?n + 1) ((d (h2 bn))[?n := ll]) = take ?n (d (h2 bn)) @ [ll]"
          using room by (simp add: take_Suc_conv_app_nth)
        also have "take ?n (d (h2 bn)) = take ?n (d (h1 bn))" using we(7) [of bn] w1(1) by simp
        finally have "bn_nat (h' bn) = wval (take ?n (d (h1 bn))) + 2 ^ (64 * ?n) * unat ll"
          using fit w1(3) by (simp add: c(2) bn_nat_def wval_append)
        then have "bn_nat (h' bn) = unat w * bn_nat (h bn)" using v w1(1) by (simp add: bn_nat_def)
        then show ?thesis using c int [of "h' bn"] other we(6) w2(2) room by simp
      qed
    qed
  qed
  then show "ok \<Longrightarrow> bn_int (h' bn) = bn_int (h bn) * int (unat w) \<and> width (h' bn) \<le> dmax (h' bn)"
    "\<And>p. p \<noteq> bn \<Longrightarrow> h' p = h p" "\<not> ok \<Longrightarrow> cannot_expand g (h bn) (width (h bn) + 1)" by simp_all
qed

section \<open>Properties\<close>

text \<open>C40: \<open>BN_mul\<close> multiplies and \<open>BN_sqr\<close> squares the integers, whatever the sizes and signs, also in place: the
  result is the product, without leading zero words or a negative zero; the frame they open in the context is
  closed again; and no number that is in use changes but the result. They fail only if memory is refused or a number
  cannot grow. \<open>bn_mul_consttime\<close> does the same for numbers that are not negative and refuses others,
  and \<open>BN_mul_word\<close> multiplies by a word.\<close>

theorem bn_mul_exact:
  assumes "mem_ok mem" "ctx_ok mem ctx" "live mem ctx h r" "live mem ctx h a" "live mem ctx h b"
    and "width (h a) \<le> INT_MAX" "width (h b) \<le> INT_MAX"
  shows "(case BN_mul mem h ctx r a b of (ok, h', ctx') \<Rightarrow>
      computes_in_frame mem h ctx r h' ctx' \<and>
      (if ok then bn_int (h' r) = bn_int (h a) * bn_int (h b) \<and> bn_ok (h' r) \<and> minimal (h' r)
       else out_of_memory mem h ctx' r (8 * (width (h a) + width (h b))))) \<and>
    (case BN_sqr mem h ctx r a of (ok, h', ctx') \<Rightarrow>
      computes_in_frame mem h ctx r h' ctx' \<and>
      (if ok then bn_int (h' r) = bn_int (h a) * bn_int (h a) \<and> bn_ok (h' r) \<and> minimal (h' r)
       else out_of_memory mem h ctx' r (4 * width (h a)))) \<and>
    (case bn_mul_consttime mem h ctx r a b of (ok, h', ctx') \<Rightarrow>
      if neg (h a) \<or> neg (h b) then \<not> ok \<and> h' = h \<and> ctx' = ctx
      else computes_in_frame mem h ctx r h' ctx' \<and>
        (if ok then bn_int (h' r) = bn_int (h a) * bn_int (h b)
         else out_of_memory mem h ctx' r (8 * (width (h a) + width (h b))))) \<and>
    (\<forall>w. bn_ok (h a) \<longrightarrow> (case BN_mul_word (m_grants mem) (m_junk mem) h a w of (ok, h') \<Rightarrow>
      (ok \<longrightarrow> bn_int (h' a) = bn_int (h a) * int (unat w)) \<and>
      (\<not> ok \<longrightarrow> cannot_expand (m_grants mem) (h a) (width (h a) + 1)) \<and> (\<forall>p. p \<noteq> a \<longrightarrow> h' p = h p)))"
proof -
  have minimal: "computes_in_frame mem h ctx r (bn_set_minimal_width h' r) c \<and>
      bn_int (bn_set_minimal_width h' r r) = (if s then - int v else int v) \<and> bn_ok (bn_set_minimal_width h' r r) \<and>
      minimal (bn_set_minimal_width h' r r)"
    if "computes_in_frame mem h ctx r h' c" "bn_nat (h' r) = v" "v \<noteq> 0 \<longrightarrow> neg (h' r) = s" for h' c v s
  proof -
    have "width (h' r) \<le> dmax (h' r)" using that(1) by (simp add: computes_in_frame_def)
    note mw = set_minimal_width [where h = h' and r = r, OF this]
    show ?thesis using mw that by (auto simp: computes_in_frame_def bn_int_def bn_ok_def)
  qed
  have sign: "(if neg (h a) \<noteq> neg (h b) then - int (bn_nat (h a) * bn_nat (h b)) else int (bn_nat (h a) * bn_nat (h b))) =
      bn_int (h a) * bn_int (h b)" "int (bn_nat (h a) * bn_nat (h a)) = bn_int (h a) * bn_int (h a)"
    by (simp_all add: bn_int_def)
  obtain ok h1 c1 where m: "bn_mul_impl mem h ctx r a b = (ok, h1, c1)" by (metis prod_cases3)
  note mul = mul_impl_spec [OF assms m]
  obtain ok2 h2 c2 where s: "bn_sqr_consttime mem h ctx r a = (ok2, h2, c2)" by (metis prod_cases3)
  note sqr = sqr_consttime_spec [OF assms(1-4,6) s]
  have c1: "case BN_mul mem h ctx r a b of (ok, h', ctx') \<Rightarrow>
      computes_in_frame mem h ctx r h' ctx' \<and>
      (if ok then bn_int (h' r) = bn_int (h a) * bn_int (h b) \<and> bn_ok (h' r) \<and> minimal (h' r)
       else out_of_memory mem h ctx' r (8 * (width (h a) + width (h b))))"
  proof (cases ok)
    case True
    have "bn_nat (h a) * bn_nat (h b) \<noteq> 0 \<longrightarrow> neg (h1 r) = (neg (h a) \<noteq> neg (h b))" using mul(2) [OF True] by auto
    from minimal [OF mul(1) conjunct1 [OF mul(2) [OF True]] this, unfolded sign(1)] show ?thesis
      using True by (simp add: BN_mul_def m)
  qed (use mul(1,3) in \<open>simp add: BN_mul_def m\<close>)
  have c2: "case BN_sqr mem h ctx r a of (ok, h', ctx') \<Rightarrow>
      computes_in_frame mem h ctx r h' ctx' \<and>
      (if ok then bn_int (h' r) = bn_int (h a) * bn_int (h a) \<and> bn_ok (h' r) \<and> minimal (h' r)
       else out_of_memory mem h ctx' r (4 * width (h a)))"
  proof (cases ok2)
    case True
    have "bn_nat (h a) * bn_nat (h a) \<noteq> 0 \<longrightarrow> neg (h2 r) = False" using sqr(2) [OF True] by simp
    from minimal [OF sqr(1) conjunct1 [OF sqr(2) [OF True]] this, unfolded sign(2) if_False] show ?thesis
      using True by (simp add: BN_sqr_def s)
  qed (use sqr(1,3) in \<open>simp add: BN_sqr_def s\<close>)
  have c3: "case bn_mul_consttime mem h ctx r a b of (ok, h', ctx') \<Rightarrow>
      if neg (h a) \<or> neg (h b) then \<not> ok \<and> h' = h \<and> ctx' = ctx
      else computes_in_frame mem h ctx r h' ctx' \<and>
        (if ok then bn_int (h' r) = bn_int (h a) * bn_int (h b)
         else out_of_memory mem h ctx' r (8 * (width (h a) + width (h b))))"
    using mul by (auto simp: bn_mul_consttime_def m bn_int_def)
  have c4: "case BN_mul_word (m_grants mem) (m_junk mem) h a w of (ok, h') \<Rightarrow>
      (ok \<longrightarrow> bn_int (h' a) = bn_int (h a) * int (unat w)) \<and>
      (\<not> ok \<longrightarrow> cannot_expand (m_grants mem) (h a) (width (h a) + 1)) \<and> (\<forall>p. p \<noteq> a \<longrightarrow> h' p = h p)" if "bn_ok (h a)" for w
    using mul_word_spec [where h = h and bn = a and g = "m_grants mem" and junk = "m_junk mem" and w = w, OF that] by (auto split: prod.splits)
  show ?thesis using c1 c2 c3 c4 by blast
qed

definition product_store :: bns where
  "product_store = (\<lambda>p. \<lparr>d = [of_nat p + 2, 0, 0], width = 1, neg = False, static_data = False\<rparr>)"

definition empty_ctx :: bn_ctx where
  "empty_ctx = \<lparr>ctx_bignums = None, ctx_stack = BN_STACK_init, ctx_used = 0, ctx_error = False, ctx_defer_error = False\<rparr>"

lemma empty_ctx: "ctx_ok sample_malloc empty_ctx" "mem_ok sample_malloc" "p < 9 \<Longrightarrow> live sample_malloc empty_ctx product_store p"
  using ctx_new_ok(1) [of sample_malloc empty_ctx]
  by (auto simp: BN_CTX_new_def empty_ctx_def sample_malloc_def mem_ok_def live_def unused_def product_store_def inj_def)

theorem bn_mul_exact_witness:
  "\<exists>h' ctx'. BN_mul sample_malloc product_store empty_ctx 0 1 2 = (True, h', ctx') \<and> bn_int (h' 0) = 12"
proof -
  obtain ok h' ctx' where m: "BN_mul sample_malloc product_store empty_ctx 0 1 2 = (ok, h', ctx')" by (metis prod_cases3)
  have ok: "ok"
    using m by (auto simp: BN_mul_def bn_mul_impl_def mul_into_def copy_and_end_def product_store_def sample_malloc_def
        bn_wexpand_def INT_MAX_def Let_def split: if_splits bool.splits prod.splits)
  have "width (product_store 1) \<le> INT_MAX" "width (product_store 2) \<le> INT_MAX" by (simp_all add: product_store_def INT_MAX_def)
  from bn_mul_exact [OF empty_ctx(2,1) empty_ctx(3) [of 0] empty_ctx(3) empty_ctx(3) this]
  have "bn_int (h' 0) = bn_int (product_store 1) * bn_int (product_store 2)" using m ok by simp
  then show ?thesis using m ok by (simp add: product_store_def bn_int_def bn_nat_def)
qed

end
