(* ===== verification/Spec2Isabelle.thy ===== *)
theory Spec2Isabelle
  imports Base64 Unicode Ber_Der Stack Lhash Bio_Asn1 Block_Modes Cbc Bn_Comba Bn_Bytes Bn_Mod Bn_Bits Bn_Mont Bn_Product
begin

text \<open>
  \<^bold>\<open>SocialWeddingApp: a verification of the BoringSSL core it ships.\<close>

  The application (Swift, \<^verbatim>\<open>src/WeddApp/WeddApp\<close>) keeps its posts and accounts with Firebase. Its C code
  is in the libraries under \<^verbatim>\<open>src/WeddApp/Pods\<close>; the one that carries logic of its own in C is BoringSSL
  (\<^verbatim>\<open>Pods/BoringSSL-GRPC/src\<close>, here \<^verbatim>\<open>crypto/...\<close> and \<^verbatim>\<open>include/openssl/...\<close>), under the gRPC transport of
  Firestore: everything the application stores or fetches passes through it. Modelled are the parts that
  its certificates, keys and records are built on, as they are in the source.

  \<^bold>\<open>Parts and theories.\<close>
  \<^item> \<^verbatim>\<open>crypto/internal.h\<close>: branch-free masks (\<open>Const_Time\<close>); byte order, unaligned access, rotations and
    \<^verbatim>\<open>CRYPTO_memcmp\<close> (\<open>Endian\<close>).
  \<^item> \<^verbatim>\<open>crypto/base64/base64.c\<close>: block and streaming encoder and decoder (\<open>Base64\<close>).
  \<^item> \<^verbatim>\<open>crypto/bytestring\<close>: the reader CBS (\<open>Cbs\<close>) and its ASN.1 part (\<open>Cbs_Asn1\<close>, \<open>Asn1_Integer\<close>); the
    builder CBB (\<open>Cbb\<close>), its specification and refinement (\<open>Cbb_Refine\<close>) and its ASN.1 part (\<open>Cbb_Asn1\<close>);
    \<^verbatim>\<open>unicode.c\<close> (\<open>Unicode\<close>); \<^verbatim>\<open>ber.c\<close> and \<^verbatim>\<open>asn1_compat.c\<close> (\<open>Ber\<close>, \<open>Ber_Der\<close>).
  \<^item> \<^verbatim>\<open>crypto/stack/stack.c\<close> (\<open>Stack\<close>, with \<^verbatim>\<open>qsort\<close> in \<open>Qsort\<close>) and \<^verbatim>\<open>crypto/lhash/lhash.c\<close> (\<open>Lhash\<close>): the
    containers of the library.
  \<^item> \<^verbatim>\<open>crypto/bio/pair.c\<close> and the functions of \<^verbatim>\<open>crypto/bio/bio.c\<close> over it (\<open>Bio_Pair\<close>); reading one ASN.1
    element from a BIO (\<open>Bio_Asn1\<close>).
  \<^item> \<^verbatim>\<open>crypto/fipsmodule/modes\<close>: counter mode, output and cipher feedback (\<open>Block_Modes\<close>), cipher block
    chaining (\<open>Cbc\<close>), with what they share in \<open>Block_Words\<close>.
  \<^item> \<^verbatim>\<open>crypto/fipsmodule/bn\<close>: loops over words (\<open>Bn_Words\<close>) and the unrolled products (\<open>Bn_Comba\<close>) of
    \<^verbatim>\<open>generic.c\<close>; storage, comparison, addition and subtraction of big numbers, \<^verbatim>\<open>bn.c\<close>, \<^verbatim>\<open>cmp.c\<close> and \<^verbatim>\<open>add.c\<close>
    (\<open>Bignum\<close>, proved in \<open>Bn_Arith\<close>); their bytes, \<^verbatim>\<open>bytes.c\<close> (\<open>Bn_Bytes\<close>); shifts and bits, \<^verbatim>\<open>shift.c\<close> (\<open>Bn_Shift\<close>,
    \<open>Bn_Bits\<close>); the remainder by a small divisor of \<^verbatim>\<open>div_extra.c\<close> (\<open>Bn_Mod\<close>); the recursive products and
    squares of \<^verbatim>\<open>mul.c\<close> (\<open>Bn_Mul\<close>, proved in \<open>Bn_Karatsuba\<close> and \<open>Bn_Square\<close>; of whole numbers in \<open>Bn_Product\<close>); Montgomery reduction,
    \<^verbatim>\<open>montgomery.c\<close>, \<^verbatim>\<open>montgomery_inv.c\<close> and the word routines of \<^verbatim>\<open>div.c\<close> (\<open>Bn_Mont\<close>); the pool of temporary
    numbers, \<^verbatim>\<open>ctx.c\<close> (\<open>Bn_Ctx\<close>). What a routine on words may write is stated with \<open>Bn_Frame\<close>.

  They interact as in the code. The ASN.1 readers and writers call the byte readers and writers; the BER
  conversion reads with CBS and writes with CBB; \<^verbatim>\<open>BIO_read_asn1\<close> reads from a BIO of a pair and decodes
  its header with CBS; the integer and length code and the modes use the byte-order helpers. The property
  below follows one element through all of it: built by CBB, sent over a pair, received by
  \<^verbatim>\<open>BIO_read_asn1\<close>, read by CBS.

  \<^bold>\<open>How the code is modelled.\<close>
  \<^item> One definition for each function, under its name, and one for each loop. A \<^verbatim>\<open>struct\<close> is a record with
    the fields of the source; \<open>'a word\<close> keeps the width of an integer (\<open>u8\<close>, \<open>u16\<close>, \<open>u32\<close>, \<open>u64\<close>), and a
    \<^verbatim>\<open>size_t\<close> is a natural number whose sums and products are checked against 2 to the 64 where the code
    checks them (\<open>size_add\<close>, \<open>size_mul\<close> in \<open>Prelude\<close>).
  \<^item> A CBS, pointer and length, is the list of its bytes; a reader returns an option and the bytes left,
    also where it fails. A CBB is the buffer with its chain of open children, a handle being the depth of
    its child; a stale handle makes the operation fail, which is what the asserts of the code ask for.
  \<^item> An error return is \<open>None\<close>, \<open>Inl\<close> or \<open>False\<close>, with the state the code leaves behind. Whether an
    allocation succeeds is a parameter \<open>g\<close>, and what fresh memory holds is a parameter \<open>junk\<close>; the
    properties hold for all of them. For the BIO pair \<open>g\<close> is a function of the number of the request and of
    its size, so that any one of several may be refused; elsewhere it is a function of the size.
  \<^item> The BIOs are a heap from addresses to records, so that both ends of a pair see each other; a ledger
    keeps which of their blocks of memory (\<^verbatim>\<open>BIO\<close>, state, buffer) are in use, and whether one was freed that
    was not. Cipher
    block chaining works on a flat memory, since its contract allows input and output to overlap; the
    other modes work on lists, for input and output that are the same buffer or disjoint.
  \<^item> Big numbers are a store from addresses to numbers, so that a result may be one of the operands; a
    pointer to words is a number and an index into its array, whose length is \<^verbatim>\<open>dmax\<close>, and the words
    beyond \<^verbatim>\<open>width\<close> hold anything. They have 64 bits, and double words 128 (\<^verbatim>\<open>BN_ULLONG\<close>). The counts of bits
    and bytes are 32-bit words; they are exact up to 2 to the 25 words, and what is said of them says so.
  \<^item> What is not under \<open>src\<close> is a parameter: the C library's \<^verbatim>\<open>qsort\<close> (with its documented contract, and
    an instance), the allocator, and the functions a caller passes in (comparison and hash functions, copy
    and free functions, block ciphers).

  \<^bold>\<open>Loops.\<close> Recursion is structural or has a termination proof. The copy loops of \<^verbatim>\<open>bio_read\<close> and
  \<^verbatim>\<open>bio_write\<close>, and those of \<^verbatim>\<open>BIO_write_all\<close> and \<^verbatim>\<open>BIO_read_asn1\<close> around them, end only because the ring
  buffer is well formed: they are partial functions where \<open>None\<close> is a run that does not end, and the
  properties prove that they return in every reachable state. The recursion of the BER conversion is
  bounded by \<^verbatim>\<open>kMaxDepth\<close>, as in the code, and it takes its depth as the measure. No fuel is used.

  \<^bold>\<open>Interfaces.\<close> \<open>Codec\<close> states what a reader promises of the writer's bytes (\<open>codec\<close>, \<open>canonical\<close>),
  interpreted on the readers and writers of both byte orders, lengths, tags, elements and code points.
  \<open>Fifo\<close> states a channel, interpreted on the stack used as a queue and on the pair. \<open>Lhash\<close> has the
  table. \<open>Stream_Mode\<close> states a cipher that takes data in pieces, interpreted on counter mode with either
  function, output feedback, and cipher feedback with segments of 128, 8 and 1 bits (there the data are bits).

  \<^bold>\<open>What the lemmas show.\<close>
  \<^item> The readers accept exactly the canonical encodings (DER elements, integers, UTF-8) and invert the
    writers. The BER converter leaves DER alone and turns a forest in which its search notices something
    into its DER; the search misses some forests, which then are not converted (\<open>Ber_Der\<close> says which).
  \<^item> The builder implements nested contents whose lengths are filled in when they are closed; SET OF is
    sorted; object identifiers survive printing and parsing.
  \<^item> Base64 round trips for all ways of cutting the data; the branch-free alphabet is the table.
  \<^item> The stack is a list and its binary search finds the first match; its \<^verbatim>\<open>sorted\<close> flag is right in every stack
    that the calls can make, with two exceptions that are named; the hash table is a map, keeps its
    invariant and its load under any sequence of operations, allocation failures included.
  \<^item> A pair is a pair of FIFO channels under any sequence of calls; its loops end; what the retry flags
    say; how it is made and freed, whichever allocation fails, without a block lost or freed twice.
  \<^item> The modes are inverse to each other for all ways of cutting and overlapping, the two counter modes
    are the same function, and both chaining and counter mode are their definitions; the position in a block moves by the length of
    the data.
  \<^item> Big numbers compute with integers: addition, subtraction, comparison and lengths are those of the
    integers for every width, sign and aliasing, or fail because the words cannot be had; absolute
    values survive being written as bytes and read back (the sign is not written); the unrolled and the recursive products and squares are the
    products, written where they should be and nowhere else; shifts, bits, small remainders and Montgomery
    reduction are what they are of the integers. The pool hands out distinct numbers in nested frames,
    and the functions that take numbers from it leave it as they found it.

  \<^bold>\<open>Not modelled\<close>, and why: the Swift application and the Objective-C and C++ libraries (Firebase,
  gRPC, abseil, leveldb), which are not C; nanopb and upb, mostly generated; in BoringSSL the protocol
  (\<^verbatim>\<open>ssl\<close>, C++), X.509, the elliptic curves and RSA, whose arithmetic rests on tables and on assembly or
  64-bit limb code generated elsewhere, long division, exponentiation and primes of big numbers, the block ciphers and hash functions themselves (parameters here),
  threads and reference counts, and the I/O of BIOs over files and sockets. Within the modelled files:
  error queues and the cleansing of memory have no effect on results and are left out, as are
  \<^verbatim>\<open>OPENSSL_free\<close> of memory that nothing refers to any more (except that of the BIOs, which is
  accounted for), the chains of filter BIOs, and callbacks of
  \<^verbatim>\<open>OPENSSL_lh_doall_arg\<close> that change the table they walk.
\<close>

section \<open>Properties that span components\<close>

text \<open>C30: writer, channel and readers agree. An element that \<open>CBB_add_asn1\<close> built, with any data and a
  tag number below 31, written by \<open>BIO_write_all\<close> to one BIO of a connected pair whose buffer is empty
  and large enough, arrives complete: \<open>BIO_read_asn1\<close> on the other BIO returns exactly its bytes, leaves
  nothing behind, and \<open>CBS_get_any_asn1\<close> reads the tag and the data from them.\<close>

theorem message_delivered:
  assumes "connected h a p" "ring (ptr_of h a) = []" "\<not> b_closed (ptr_of h a)"
    and built: "cbb_build gc n (and_then (CBB_add_asn1 0 tag)
        (and_then (CBB_add_bytes 1 data) (CBB_flush 0))) = Some m"
    and tag: "tag AND CBS_ASN1_TAG_NUMBER_MASK < 0x1f" and data: "length data \<le> INT_MAX"
    and "length m \<le> b_size (ptr_of h a)"
    and lim: "length m \<le> max_len" "max_len < 2 ^ 64" "\<forall>n \<le> max_len. g n"
  shows "\<exists>h1 h2. BIO_write_all h (Some a) m = Some (True, h1) \<and>
    BIO_read_asn1 g junk h1 (Some p) max_len = Some (Inr m, h2) \<and> ring (ptr_of h2 a) = [] \<and>
    CBS_get_any_asn1 m = (Some (data, tag), [])"
proof -
  have w: "writes 0 (and_then (CBB_add_asn1 0 tag) (and_then (CBB_add_bytes 1 data) (CBB_flush 0)))
      (der_element tag data)"
    using data writes_asn1 [OF writes_bytes, of data 0 tag] by (simp add: INT_MAX_def)
  have m: "m = der_element tag data" using build_writes [OF w built] .
  obtain t where t: "enc_tag tag = [t]" "t AND 0x1f \<noteq> 0x1f" using tag by (rule enc_tag_low)
  have "der_prefix max_len m m" "\<not> indefinite m"
    using der_prefix_self [OF t data, of max_len] der_not_indefinite [OF t(1) data] lim(1) by (simp_all add: m)
  then obtain h1 h2 where "BIO_write_all h (Some a) m = Some (True, h1)"
    "BIO_read_asn1 g junk h1 (Some p) max_len = Some (Inr m, h2)" "ring (ptr_of h2 a) = []"
    using deliver_over_pair [OF assms(1-3,7) _ _ lim(2,3), of junk] by blast
  moreover have "CBS_get_any_asn1 m = (Some (data, tag), [])"
    using data by (simp add: any_asn1_iff m INT_MAX_def)
  ultimately show ?thesis by blast
qed

theorem message_delivered_witness:
  "\<exists>m h1 h2. cbb_build (\<lambda>_. True) 0 (and_then (CBB_add_asn1 0 CBS_ASN1_OCTETSTRING)
      (and_then (CBB_add_bytes 1 [7]) (CBB_flush 0))) = Some m \<and>
    BIO_write_all small_pair (Some 0) m = Some (True, h1) \<and>
    BIO_read_asn1 (\<lambda>_. True) 0 h1 (Some 1) 100 = Some (Inr m, h2)"
proof -
  let ?f = "and_then (CBB_add_asn1 0 CBS_ASN1_OCTETSTRING) (and_then (CBB_add_bytes 1 [7]) (CBB_flush 0))"
  have w: "writes 0 ?f (der_element CBS_ASN1_OCTETSTRING [7])"
    using writes_asn1 [OF writes_bytes, of "[7]" 0 CBS_ASN1_OCTETSTRING] by simp
  have len: "length (der_element CBS_ASN1_OCTETSTRING [7]) = 3"
    by (simp add: der_element_def enc_tag_def enc_der_length_def der_length_bytes_def Let_def
        CBS_ASN1_OCTETSTRING_def CBS_ASN1_TAG_NUMBER_MASK_def)
  then obtain m where m: "cbb_build (\<lambda>_. True) 0 ?f = Some m" using build_total [OF w] by auto
  then have "length m = 3" using build_writes [OF w m] len by simp
  then show ?thesis
    using message_delivered [OF small_pair_ends(1-3) m, of 100 "\<lambda>_. True" 0] m small_pair_ends(4)
    by (auto simp: CBS_ASN1_OCTETSTRING_def CBS_ASN1_TAG_NUMBER_MASK_def INT_MAX_def)
qed

end
